(* ===== verification/Prelude.thy ===== *)
theory Prelude
  imports
    Main
    "HOL-Library.AList"
    "HOL-Library.Char_ord"
    "HOL-Library.List_Lexorder"
    "HOL-Library.Product_Lexorder"
    "HOL-Library.State_Monad"
    "HOL-Library.Word"
begin

text \<open>
  Shared vocabulary of the development: the error monad in which every fallible Go function is
  written, bounded loops, the fragments of the Go standard library the modelled code calls
  (\<open>strings.TrimSpace\<close>, \<open>strconv.Itoa\<close>, stable sorting, maps keyed by strings),
  the 64-bit range of Go's \<open>int\<close>, and the generic lemmas about them.
\<close>

named_theorems result_simps \<open>rewriting rules of the error monad\<close>
named_theorems demand_simps \<open>unfolding rules of the demand algebra\<close>

section \<open>Results: a Go pair of value and error\<close>

text \<open>\<open>Inl\<close> is a returned error, \<open>Inr\<close> a returned value; \<open>ebind\<close> is the
  \<^verbatim>\<open>if err != nil { return ..., err }\<close> idiom.\<close>

definition ebind :: "'e + 'a \<Rightarrow> ('a \<Rightarrow> 'e + 'b) \<Rightarrow> 'e + 'b" where
  "ebind m f = (case m of Inl e \<Rightarrow> Inl e | Inr x \<Rightarrow> f x)"

lemma ebind_simps [simp, result_simps]:
  "ebind (Inl e) f = Inl e"
  "ebind (Inr x) f = f x"
  by (simp_all add: ebind_def)

lemma ebind_eq_Inr [simp]: "ebind m f = Inr y \<longleftrightarrow> (\<exists>x. m = Inr x \<and> f x = Inr y)"
  by (cases m) simp_all

lemma ebind_eq_Inl: "ebind m f = Inl e \<longleftrightarrow> m = Inl e \<or> (\<exists>x. m = Inr x \<and> f x = Inl e)"
  by (cases m) simp_all

lemma ebind_cong [fundef_cong]:
  "m = m' \<Longrightarrow> (\<And>x. m' = Inr x \<Longrightarrow> f x = f' x) \<Longrightarrow> ebind m f = ebind m' f'"
  by (cases m') simp_all

lemma ebind_return [simp]: "ebind m Inr = m"
  by (cases m) simp_all

text \<open>A guard: \<^verbatim>\<open>if cond { return error }\<close>.\<close>

definition refuse_if :: "bool \<Rightarrow> 'e \<Rightarrow> 'e + unit" where
  "refuse_if c e = (if c then Inl e else Inr ())"

lemma refuse_if_simps [simp]:
  "refuse_if True e = Inl e"
  "refuse_if False e = Inr ()"
  by (simp_all add: refuse_if_def)

lemma refuse_if_eq_Inr [simp]: "refuse_if c e = Inr u \<longleftrightarrow> \<not> c"
  by (simp add: refuse_if_def)

section \<open>Loops that may return an error\<close>

text \<open>\<open>foldM\<close> is a \<^verbatim>\<open>for range\<close> loop over a slice whose body may return an
  error, \<open>iterM\<close> the loop over an integer.\<close>

fun foldM :: "('a \<Rightarrow> 'b \<Rightarrow> 'e + 'a) \<Rightarrow> 'a \<Rightarrow> 'b list \<Rightarrow> 'e + 'a" where
  "foldM f a [] = Inr a"
| "foldM f a (x # xs) = ebind (f a x) (\<lambda>a'. foldM f a' xs)"

lemma foldM_cong [fundef_cong]:
  "a = a' \<Longrightarrow> xs = ys \<Longrightarrow> (\<And>b x. x \<in> set ys \<Longrightarrow> f b x = g b x) \<Longrightarrow> foldM f a xs = foldM g a' ys"
proof (induction ys arbitrary: a a' xs)
  case Nil
  then show ?case by simp
next
  case (Cons y ys)
  from Cons.prems(3) have fy: "f a' y = g a' y" by simp
  have rest: "foldM f b ys = foldM g b ys" for b
    by (rule Cons.IH) (simp_all add: Cons.prems(3))
  have "foldM f a xs = ebind (f a' y) (\<lambda>b. foldM f b ys)"
    using Cons.prems(1,2) by simp
  also have "\<dots> = ebind (g a' y) (\<lambda>b. foldM g b ys)"
    by (simp only: fy rest)
  finally show ?case by simp
qed

lemma foldM_append: "foldM f a (xs @ ys) = ebind (foldM f a xs) (\<lambda>b. foldM f b ys)"
  by (induction xs arbitrary: a) (auto simp: ebind_def split: sum.splits)

lemma foldM_total:
  "(\<And>b x. x \<in> set xs \<Longrightarrow> f b x = Inr (g b x)) \<Longrightarrow> foldM f a xs = Inr (foldl g a xs)"
  by (induction xs arbitrary: a) simp_all

text \<open>The loop invariant rule.\<close>

lemma foldM_invariant:
  assumes "foldM f a xs = Inr b" and "P a"
    and "\<And>c x d. x \<in> set xs \<Longrightarrow> P c \<Longrightarrow> f c x = Inr d \<Longrightarrow> P d"
  shows "P b"
  using assms
proof (induction xs arbitrary: a)
  case Nil
  then show ?case by simp
next
  case (Cons x xs)
  then obtain c where c: "f a x = Inr c" "foldM f c xs = Inr b" by auto
  with Cons.prems have "P c" by (meson list.set_intros(1))
  with c Cons.prems(3) show ?case by (intro Cons.IH[of c]) auto
qed

fun iterM :: "nat \<Rightarrow> ('a \<Rightarrow> 'e + 'a) \<Rightarrow> 'a \<Rightarrow> 'e + 'a" where
  "iterM 0 f a = Inr a"
| "iterM (Suc n) f a = ebind (f a) (iterM n f)"

lemma iterM_invariant:
  assumes "iterM n f a = Inr b" and "P a"
    and "\<And>c d. P c \<Longrightarrow> f c = Inr d \<Longrightarrow> P d"
  shows "P b"
  using assms by (induction n arbitrary: a) auto

text \<open>\<open>mapM\<close> is the loop that updates every element of a slice and may return an error.\<close>

fun mapM :: "('a \<Rightarrow> 'e + 'b) \<Rightarrow> 'a list \<Rightarrow> 'e + 'b list" where
  "mapM f [] = Inr []"
| "mapM f (x # xs) = ebind (f x) (\<lambda>y. ebind (mapM f xs) (\<lambda>ys. Inr (y # ys)))"

lemma mapM_iff: "mapM f xs = Inr ys \<longleftrightarrow> list_all2 (\<lambda>x y. f x = Inr y) xs ys"
  by (induction xs arbitrary: ys) (auto simp: list_all2_Cons1)

lemma mapM_fwd: "mapM f xs = Inr ys \<Longrightarrow> x \<in> set xs \<Longrightarrow> \<exists>y \<in> set ys. f x = Inr y"
  by (auto simp: mapM_iff in_set_conv_nth list_all2_conv_all_nth)

lemma mapM_bwd: "mapM f xs = Inr ys \<Longrightarrow> y \<in> set ys \<Longrightarrow> \<exists>x \<in> set xs. f x = Inr y"
  by (auto simp: mapM_iff in_set_conv_nth list_all2_conv_all_nth) (metis nth_mem)

text \<open>Which errors a computation may return; the rules follow the monad's combinators.\<close>

definition fails_with :: "('e \<Rightarrow> bool) \<Rightarrow> 'e + 'a \<Rightarrow> bool" where
  "fails_with P m \<longleftrightarrow> (\<forall>e. m = Inl e \<longrightarrow> P e)"

lemma fails_with_simps [simp]: "fails_with P (Inr x)" "fails_with P (Inl e) \<longleftrightarrow> P e"
  by (simp_all add: fails_with_def)

lemma fails_with_mono: "fails_with P m \<Longrightarrow> (\<And>e. P e \<Longrightarrow> Q e) \<Longrightarrow> fails_with Q m"
  by (auto simp: fails_with_def)

lemma fails_with_ebind:
  "fails_with P m \<Longrightarrow> (\<And>x. m = Inr x \<Longrightarrow> fails_with P (f x)) \<Longrightarrow> fails_with P (ebind m f)"
  by (cases m) auto

lemma fails_with_foldM:
  "(\<And>a x. x \<in> set xs \<Longrightarrow> fails_with P (f a x)) \<Longrightarrow> fails_with P (foldM f a xs)"
  by (induction xs arbitrary: a) (auto intro!: fails_with_ebind)

lemma fails_with_mapM: "(\<And>x. x \<in> set xs \<Longrightarrow> fails_with P (f x)) \<Longrightarrow> fails_with P (mapM f xs)"
  by (induction xs) (auto intro!: fails_with_ebind)

lemma fails_with_iterM: "(\<And>x. fails_with P (f x)) \<Longrightarrow> fails_with P (iterM n f a)"
  by (induction n arbitrary: a) (auto intro!: fails_with_ebind)

lemmas fails_with_intros = fails_with_ebind fails_with_foldM fails_with_mapM fails_with_iterM

text \<open>\<open>sort.Slice\<close> and \<open>sort.SliceStable\<close> with the caller's comparison: insertion of
  each element before the first one that is not smaller. Where two elements compare equal the
  result is the stable one; \<open>sort.Slice\<close> is only used on keys that are distinct.\<close>

fun insert_by :: "('a \<Rightarrow> 'a \<Rightarrow> bool) \<Rightarrow> 'a \<Rightarrow> 'a list \<Rightarrow> 'a list" where
  "insert_by lt x [] = [x]"
| "insert_by lt x (y # ys) = (if lt y x then y # insert_by lt x ys else x # y # ys)"

definition sort_slice :: "('a \<Rightarrow> 'a \<Rightarrow> bool) \<Rightarrow> 'a list \<Rightarrow> 'a list" where
  "sort_slice lt xs = foldr (insert_by lt) xs []"

lemma sort_slice_key:
  fixes f :: "'a \<Rightarrow> 'k::linorder"
  assumes "\<And>x y. lt x y \<longleftrightarrow> f x < f y"
  shows "sort_slice lt xs = sort_key f xs"
proof -
  have "insert_by lt x ys = insort_key f x ys" for x ys
    by (induction ys) (auto simp: assms not_less)
  then have "insert_by lt = insort_key f" by (simp add: fun_eq_iff)
  then show ?thesis by (simp add: sort_slice_def sort_key_def)
qed

lemma sorted_wrt_insort_key:
  assumes "\<And>a b. R a b \<Longrightarrow> R b a"
  shows "sorted_wrt R (insort_key f x xs) \<longleftrightarrow> (\<forall>y \<in> set xs. R x y) \<and> sorted_wrt R xs"
  by (induction xs) (auto simp: set_insort_key dest: assms)

text \<open>Sorting keeps a symmetric pairwise relation.\<close>

lemma sorted_wrt_sort_key:
  assumes "\<And>a b. R a b \<Longrightarrow> R b a" and "sorted_wrt R xs"
  shows "sorted_wrt R (sort_key f xs)"
  using assms(2) by (induction xs) (auto simp: sorted_wrt_insort_key[OF assms(1)])

lemma sorted_wrt_both:
  "sorted_wrt P xs \<Longrightarrow> sorted_wrt Q xs \<Longrightarrow> sorted_wrt (\<lambda>a b. P a b \<and> Q a b) xs"
  by (induction xs) auto

section \<open>Go integers\<close>

text \<open>
  Go's \<open>int\<close> and \<open>int64\<close> have 64 bits on every supported platform. They are modelled as
  \<open>int\<close>; the code's own overflow checks compare with \<open>go_max_int\<close>, and arithmetic
  that the code leaves unchecked goes through \<open>wrap64\<close>, two's-complement wrap-around.
\<close>

definition go_max_int :: int where
  "go_max_int = 9223372036854775807"

definition wrap64 :: "int \<Rightarrow> int" where
  "wrap64 x = (x + 9223372036854775808) mod 18446744073709551616 - 9223372036854775808"

lemma wrap64_id [simp]: "- go_max_int - 1 \<le> x \<Longrightarrow> x \<le> go_max_int \<Longrightarrow> wrap64 x = x"
  by (simp add: wrap64_def go_max_int_def)

lemma wrap64_range: "- go_max_int - 1 \<le> wrap64 x" "wrap64 x \<le> go_max_int"
  by (simp_all add: wrap64_def go_max_int_def)

lemma go_max_int_pos [simp]: "0 < go_max_int" "0 \<le> go_max_int"
  by (simp_all add: go_max_int_def)

section \<open>Go maps\<close>

text \<open>
  A Go map is an association list with distinct keys in insertion order (no modelled result
  depends on that order); a missing key reads as the element type's zero value.
\<close>

type_synonym ('k, 'v) gomap = "('k \<times> 'v) list"

definition go_get :: "'v \<Rightarrow> ('k, 'v) gomap \<Rightarrow> 'k \<Rightarrow> 'v" where
  "go_get zero m k = (case map_of m k of None \<Rightarrow> zero | Some v \<Rightarrow> v)"

abbreviation go_keys :: "('k, 'v) gomap \<Rightarrow> 'k list" where
  "go_keys m \<equiv> map fst m"

lemma go_get_Nil [simp]: "go_get z [] k = z"
  by (simp add: go_get_def)

lemma go_get_update [simp]:
  "go_get z (AList.update k v m) k' = (if k = k' then v else go_get z m k')"
  by (simp add: go_get_def update_conv)

section \<open>Go strings\<close>

text \<open>
  A Go string is a byte sequence, here a \<open>string\<close> (a list of 8-bit characters).
  \<open>strings.TrimSpace\<close> removes leading and trailing Unicode white space; the UTF-8
  encodings of the white-space code points are listed in \<open>go_space_encodings\<close>. No
  encoding is a proper part of another rune, so matching bytes at either end is what decoding
  the first and the last rune does.
\<close>

definition go_space_encodings :: "string list" where
  "go_space_encodings =
     [[CHR 0x09], [CHR 0x0A], [CHR 0x0B], [CHR 0x0C], [CHR 0x0D], [CHR 0x20],
      [CHR 0xC2, CHR 0x85], [CHR 0xC2, CHR 0xA0],
      [CHR 0xE1, CHR 0x9A, CHR 0x80],
      [CHR 0xE2, CHR 0x80, CHR 0x80], [CHR 0xE2, CHR 0x80, CHR 0x81],
      [CHR 0xE2, CHR 0x80, CHR 0x82], [CHR 0xE2, CHR 0x80, CHR 0x83],
      [CHR 0xE2, CHR 0x80, CHR 0x84], [CHR 0xE2, CHR 0x80, CHR 0x85],
      [CHR 0xE2, CHR 0x80, CHR 0x86], [CHR 0xE2, CHR 0x80, CHR 0x87],
      [CHR 0xE2, CHR 0x80, CHR 0x88], [CHR 0xE2, CHR 0x80, CHR 0x89],
      [CHR 0xE2, CHR 0x80, CHR 0x8A], [CHR 0xE2, CHR 0x80, CHR 0xA8],
      [CHR 0xE2, CHR 0x80, CHR 0xA9], [CHR 0xE2, CHR 0x80, CHR 0xAF],
      [CHR 0xE2, CHR 0x81, CHR 0x9F], [CHR 0xE3, CHR 0x80, CHR 0x80]]"

definition starts_with :: "string \<Rightarrow> string \<Rightarrow> bool" where
  "starts_with p s \<longleftrightarrow> p \<noteq> [] \<and> take (length p) s = p"

function trim_front :: "string list \<Rightarrow> string \<Rightarrow> string" where
  "trim_front encs s =
     (case find (\<lambda>p. starts_with p s) encs of
        None \<Rightarrow> s
      | Some p \<Rightarrow> trim_front encs (drop (length p) s))"
  by pat_completeness auto
termination
proof (relation "measure (\<lambda>(encs, s). length s)")
  fix encs s p
  assume "find (\<lambda>p. starts_with p s) encs = Some p"
  then have "starts_with p s" by (auto simp: find_Some_iff)
  then have "p \<noteq> []" "s \<noteq> []" by (auto simp: starts_with_def)
  then show "((encs, drop (length p) s), encs, s) \<in> measure (\<lambda>(encs, s). length s)"
    by simp
qed simp

declare trim_front.simps [simp del]

definition trim_space :: "string \<Rightarrow> string" where
  "trim_space s =
     rev (trim_front (map rev go_space_encodings) (rev (trim_front go_space_encodings s)))"

definition no_space_front :: "string list \<Rightarrow> string \<Rightarrow> bool" where
  "no_space_front encs s \<longleftrightarrow> (\<forall>p \<in> set encs. \<not> starts_with p s)"

lemma trim_front_id: "no_space_front encs s \<Longrightarrow> trim_front encs s = s"
  by (subst trim_front.simps) (auto simp: no_space_front_def find_Some_iff split: option.splits)

lemma trim_front_length: "length (trim_front encs s) \<le> length s"
proof (induction encs s rule: trim_front.induct)
  case (1 encs s)
  then show ?case
    by (subst trim_front.simps) (auto split: option.splits intro: le_trans)
qed

lemma trim_front_same_length:
  assumes "length (trim_front encs s) = length s"
  shows "no_space_front encs s"
proof (rule ccontr)
  assume "\<not> no_space_front encs s"
  then obtain p where p: "find (\<lambda>p. starts_with p s) encs = Some p"
    unfolding no_space_front_def by (metis find_None_iff not_None_eq)
  then have "starts_with p s" by (auto simp: find_Some_iff)
  then have "0 < length p" "length p \<le> length s"
    by (auto simp: starts_with_def) (metis length_take min.cobounded1)
  moreover have "length (trim_front encs s) \<le> length (drop (length p) s)"
    using p trim_front_length[of encs "drop (length p) s"] by (subst trim_front.simps) simp
  ultimately show False using assms unfolding length_drop by linarith
qed

text \<open>A string is its own trimming exactly when no white-space rune stands at either end.\<close>

lemma trim_space_eq_self:
  "trim_space s = s \<longleftrightarrow>
     no_space_front go_space_encodings s \<and> no_space_front (map rev go_space_encodings) (rev s)"
proof
  assume eq: "trim_space s = s"
  let ?l = "trim_front go_space_encodings s"
  have "length (trim_space s) \<le> length ?l"
    using trim_front_length[of "map rev go_space_encodings" "rev ?l"]
    by (simp add: trim_space_def)
  moreover have "length ?l \<le> length s" by (rule trim_front_length)
  ultimately have l: "length ?l = length s" using eq by simp
  then have front: "no_space_front go_space_encodings s" by (rule trim_front_same_length)
  then have "?l = s" by (rule trim_front_id)
  with eq have "length (trim_front (map rev go_space_encodings) (rev s)) = length (rev s)"
    by (metis length_rev trim_space_def)
  then have "no_space_front (map rev go_space_encodings) (rev s)" by (rule trim_front_same_length)
  with front show "no_space_front go_space_encodings s \<and>
      no_space_front (map rev go_space_encodings) (rev s)" ..
next
  assume "no_space_front go_space_encodings s \<and> no_space_front (map rev go_space_encodings) (rev s)"
  then show "trim_space s = s" by (simp add: trim_space_def trim_front_id)
qed

text \<open>For evaluation: a string whose first and last bytes cannot begin or end a white-space rune
  is its own trimming.\<close>

definition plain_ends :: "string \<Rightarrow> bool" where
  "plain_ends s \<longleftrightarrow> s \<noteq> [] \<and> hd s \<notin> set (map hd go_space_encodings) \<and>
     last s \<notin> set (map last go_space_encodings)"

lemma starts_with_hd: "starts_with p s \<Longrightarrow> hd p = hd s"
  by (cases p; cases s) (auto simp: starts_with_def)

lemma plain_ends_trim: "plain_ends s \<Longrightarrow> trim_space s = s"
proof -
  assume plain: "plain_ends s"
  then have "no_space_front go_space_encodings s"
    unfolding plain_ends_def no_space_front_def by (metis image_eqI set_map starts_with_hd)
  moreover have "no_space_front (map rev go_space_encodings) (rev s)"
    unfolding no_space_front_def
  proof
    fix q assume "q \<in> set (map rev go_space_encodings)"
    then obtain p where p: "p \<in> set go_space_encodings" "q = rev p" by auto
    show "\<not> starts_with q (rev s)"
    proof
      assume "starts_with q (rev s)"
      then have "hd (rev p) = hd (rev s)" unfolding p(2) by (rule starts_with_hd)
      then have "last p = last s" by (simp add: hd_rev)
      with p(1) plain show False unfolding plain_ends_def by (metis image_eqI set_map)
    qed
  qed
  ultimately show ?thesis by (simp add: trim_space_eq_self)
qed

lemma trim_space_code [code]:
  "trim_space s =
     (if plain_ends s then s
      else rev (trim_front (map rev go_space_encodings) (rev (trim_front go_space_encodings s))))"
  by (simp add: plain_ends_trim) (simp add: trim_space_def)

text \<open>A separator byte that occurs in no white-space encoding shields what follows it.\<close>

lemma no_space_front_append:
  assumes "no_space_front encs s" and "\<forall>p \<in> set encs. c \<notin> set p"
  shows "no_space_front encs (s @ c # t)"
  unfolding no_space_front_def
proof
  fix p assume p: "p \<in> set encs"
  show "\<not> starts_with p (s @ c # t)"
  proof
    assume "starts_with p (s @ c # t)"
    then have ne: "p \<noteq> []" and tk: "take (length p) (s @ c # t) = p"
      by (auto simp: starts_with_def)
    show False
    proof (cases "length p \<le> length s")
      case True
      then have "take (length p) s = p" using tk by simp
      with ne p assms(1) show False by (auto simp: no_space_front_def starts_with_def)
    next
      case False
      then have "c \<in> set (take (length p) (s @ c # t))"
        by (simp add: take_append) (metis Suc_diff_Suc list.set_intros(1) not_le_imp_less take_Suc_Cons)
      with tk p assms(2) show False by auto
    qed
  qed
qed

end
