(* ===== verification/EffectStructure.thy ===== *)
theory EffectStructure
  imports Prelude
begin

text \<open>
  The effect obligation structures of \<^verbatim>\<open>internal/operationplan/effect_structure.go\<close>:
  the closed step vocabulary, the immutable tree of sequences, choices, repetitions, forward
  phases, triggers and conditionals, the builder that records the first construction error, the
  namespace operation, and the validation that \<open>Compile\<close> performs. The Go struct
  \<open>EffectNode\<close> is a tagged union with unexported fields that only the package's own
  constructors fill; here it is the datatype of those eight shapes (the zero value is the empty
  node), so the run-time checks that a tag is known and that a unary node has exactly one child
  have no counterpart.
\<close>

section \<open>Step vocabulary and nodes\<close>

datatype EffectStepKind =
    EffectStepEstablishStateDir
  | EffectStepValidateBarrier
  | EffectStepValidateStateDir
  | EffectStepForwardEffect
  | EffectStepBindDescendant
  | EffectStepValidateDescendant
  | EffectStepPublishDescendant
  | EffectStepExternal
  | EffectStepObservation
  | EffectStepPersistence
  | EffectStepCompensation
  | EffectStepCleanup
  | EffectStepRetirement
  | EffectStepNoOp
  | EffectStepTerminal
  | EffectStepKindOutside "8 word" \<comment> \<open>a \<open>uint8\<close> outside the declared constants\<close>

datatype EffectNode =
    EffectNodeEmpty
  | EffectNodeStep string EffectStepKind
  | EffectNodeSequence "EffectNode list"
  | EffectNodeChoice string "EffectNode list"
  | EffectNodeRepeat int EffectNode
  | EffectNodeForwardPhase string EffectNode
  | EffectNodeTrigger string EffectNode
  | EffectNodeConditional string EffectNode

record EffectStructure =
  root :: EffectNode

datatype effectError =
    EffectReferenceEmpty string
  | EffectReferenceNotCanonical string
  | EffectReferenceContainsNUL string
  | EffectStepInvalidKind string EffectStepKind
  | EffectForwardOutsidePhase string
  | EffectDuplicateStep string
  | EffectSequenceEmpty
  | EffectChoiceTooFew string
  | EffectDuplicateChoice string
  | EffectRepetitionNegative
  | EffectRepetitionInvalid
  | EffectForwardPhasesNest
  | EffectDuplicatePhase string
  | EffectDuplicateConditional string
  | EffectConditionalWithoutTrigger
  | EffectTriggerWithoutConditional
  | EffectBuilderUnavailable
  | EffectDemandOverflow
  | EffectUnloweredForward
  | EffectTriggerLimit nat
  | EffectRepeatLimit int
  | EffectAlternativesLimit
  | EffectNoReachableAlternative
  | EffectPinChangeShape
  | EffectGatesNegative

fun kind_valid :: "EffectStepKind \<Rightarrow> bool" where
  "kind_valid (EffectStepKindOutside _) = False"
| "kind_valid _ = True"

section \<open>References\<close>

definition validateEffectReference :: "string \<Rightarrow> string \<Rightarrow> effectError + unit" where
  "validateEffectReference label value =
     (let canonical = trim_space value in
      if canonical = '''' then Inl (EffectReferenceEmpty label)
      else if canonical \<noteq> value then Inl (EffectReferenceNotCanonical label)
      else if CHR 0x00 \<in> set value then Inl (EffectReferenceContainsNUL label)
      else Inr ())"

section \<open>Constructors\<close>

fun cloneEffectNode :: "EffectNode \<Rightarrow> EffectNode" where
  "cloneEffectNode EffectNodeEmpty = EffectNodeEmpty"
| "cloneEffectNode (EffectNodeStep i k) = EffectNodeStep i k"
| "cloneEffectNode (EffectNodeSequence cs) = EffectNodeSequence (map cloneEffectNode cs)"
| "cloneEffectNode (EffectNodeChoice i cs) = EffectNodeChoice i (map cloneEffectNode cs)"
| "cloneEffectNode (EffectNodeRepeat n c) = EffectNodeRepeat n (cloneEffectNode c)"
| "cloneEffectNode (EffectNodeForwardPhase i c) = EffectNodeForwardPhase i (cloneEffectNode c)"
| "cloneEffectNode (EffectNodeTrigger i c) = EffectNodeTrigger i (cloneEffectNode c)"
| "cloneEffectNode (EffectNodeConditional i c) = EffectNodeConditional i (cloneEffectNode c)"

definition cloneEffectNodes :: "EffectNode list \<Rightarrow> EffectNode list" where
  "cloneEffectNodes ns = map cloneEffectNode ns"

definition newEffectStep :: "string \<Rightarrow> EffectStepKind \<Rightarrow> effectError + EffectNode" where
  "newEffectStep i k =
     ebind (validateEffectReference ''step'' i) (\<lambda>_.
       if \<not> kind_valid k then Inl (EffectStepInvalidKind i k)
       else Inr (EffectNodeStep i k))"

definition EffectSequence :: "EffectNode list \<Rightarrow> EffectNode" where
  "EffectSequence children =
     (if children = [] then EffectNodeEmpty
      else EffectNodeSequence (cloneEffectNodes children))"

definition newEffectChoice :: "string \<Rightarrow> EffectNode list \<Rightarrow> effectError + EffectNode" where
  "newEffectChoice i alternatives =
     ebind (validateEffectReference ''choice'' i) (\<lambda>_.
       if length alternatives < 2 then Inl (EffectChoiceTooFew i)
       else Inr (EffectNodeChoice i (cloneEffectNodes alternatives)))"

definition newEffectRepeat :: "int \<Rightarrow> EffectNode \<Rightarrow> effectError + EffectNode" where
  "newEffectRepeat count body =
     (if count < 0 then Inl EffectRepetitionNegative
      else if count = 0 then Inr EffectNodeEmpty
      else Inr (EffectNodeRepeat count (cloneEffectNode body)))"

definition newEffectForwardPhase :: "string \<Rightarrow> EffectNode \<Rightarrow> effectError + EffectNode" where
  "newEffectForwardPhase i body =
     ebind (validateEffectReference ''forward phase'' i) (\<lambda>_.
       Inr (EffectNodeForwardPhase i (cloneEffectNode body)))"

definition newEffectTrigger :: "string \<Rightarrow> EffectNode \<Rightarrow> effectError + EffectNode" where
  "newEffectTrigger i body =
     ebind (validateEffectReference ''trigger'' i) (\<lambda>_.
       Inr (EffectNodeTrigger i (cloneEffectNode body)))"

definition newEffectConditional :: "string \<Rightarrow> EffectNode \<Rightarrow> effectError + EffectNode" where
  "newEffectConditional i body =
     ebind (validateEffectReference ''conditional'' i) (\<lambda>_.
       Inr (EffectNodeConditional i (cloneEffectNode body)))"

section \<open>The builder\<close>

text \<open>
  The builder is passed by pointer; \<open>None\<close> is the nil pointer. Its methods are state
  transformers, so that a Go expression with several builder calls reads left to right.
\<close>

record EffectStructureBuilder =
  err :: "effectError option"

type_synonym builderRef = "EffectStructureBuilder option"
type_synonym 'a building = "(builderRef, 'a) state"

definition new_builder :: builderRef where
  "new_builder = Some \<lparr>err = None\<rparr>"

text \<open>The body every constructor method shares: refuse on a nil builder or an earlier error,
  else construct and record the error.\<close>

definition builder_construct :: "effectError + EffectNode \<Rightarrow> EffectNode building" where
  "builder_construct r = State (\<lambda>b.
     case b of
       None \<Rightarrow> (EffectNodeEmpty, None)
     | Some builder \<Rightarrow>
         (if err builder \<noteq> None then (EffectNodeEmpty, b)
          else case r of
                 Inl e \<Rightarrow> (EffectNodeEmpty, Some (builder\<lparr>err := Some e\<rparr>))
               | Inr n \<Rightarrow> (n, b)))"

definition builder_Step :: "string \<Rightarrow> EffectStepKind \<Rightarrow> EffectNode building" where
  "builder_Step i k = builder_construct (newEffectStep i k)"

definition builder_Choice :: "string \<Rightarrow> EffectNode list \<Rightarrow> EffectNode building" where
  "builder_Choice i alternatives = builder_construct (newEffectChoice i alternatives)"

definition builder_Repeat :: "int \<Rightarrow> EffectNode \<Rightarrow> EffectNode building" where
  "builder_Repeat count body = builder_construct (newEffectRepeat count body)"

definition builder_ForwardPhase :: "string \<Rightarrow> EffectNode \<Rightarrow> EffectNode building" where
  "builder_ForwardPhase i body = builder_construct (newEffectForwardPhase i body)"

definition builder_Trigger :: "string \<Rightarrow> EffectNode \<Rightarrow> EffectNode building" where
  "builder_Trigger i body = builder_construct (newEffectTrigger i body)"

definition builder_Conditional :: "string \<Rightarrow> EffectNode \<Rightarrow> EffectNode building" where
  "builder_Conditional i body = builder_construct (newEffectConditional i body)"

definition builder_DescendantEnsure :: "string \<Rightarrow> bool \<Rightarrow> EffectNode building" where
  "builder_DescendantEnsure prefix bindingDescribed =
     (if bindingDescribed
      then builder_Step (prefix @ ''/ensure-validate'') EffectStepValidateDescendant
      else do {
        bind \<leftarrow> builder_Step (prefix @ ''/bind'') EffectStepBindDescendant;
        existing \<leftarrow> builder_Step (prefix @ ''/validate-existing'') EffectStepValidateDescendant;
        builder_Choice (prefix @ ''/initial-authority'') [bind, existing]
      })"

definition prefixed :: "string \<Rightarrow> string \<Rightarrow> string" where
  "prefixed prefix reference = (if reference \<noteq> '''' then prefix @ ''/'' @ reference else reference)"

fun namespaceEffectNode :: "string \<Rightarrow> EffectNode \<Rightarrow> EffectNode" where
  "namespaceEffectNode p EffectNodeEmpty = EffectNodeEmpty"
| "namespaceEffectNode p (EffectNodeStep i k) = EffectNodeStep (prefixed p i) k"
| "namespaceEffectNode p (EffectNodeSequence cs) = EffectNodeSequence (map (namespaceEffectNode p) cs)"
| "namespaceEffectNode p (EffectNodeChoice i cs) =
     EffectNodeChoice (prefixed p i) (map (namespaceEffectNode p) cs)"
| "namespaceEffectNode p (EffectNodeRepeat n c) = EffectNodeRepeat n (namespaceEffectNode p c)"
| "namespaceEffectNode p (EffectNodeForwardPhase i c) =
     EffectNodeForwardPhase (prefixed p i) (namespaceEffectNode p c)"
| "namespaceEffectNode p (EffectNodeTrigger i c) =
     EffectNodeTrigger (prefixed p i) (namespaceEffectNode p c)"
| "namespaceEffectNode p (EffectNodeConditional i c) =
     EffectNodeConditional (prefixed p i) (namespaceEffectNode p c)"

definition builder_Namespace :: "string \<Rightarrow> EffectNode \<Rightarrow> EffectNode building" where
  "builder_Namespace prefix node =
     builder_construct
       (ebind (validateEffectReference ''namespace'' prefix) (\<lambda>_.
          Inr (namespaceEffectNode prefix node)))"

section \<open>Validation\<close>

record effectValidation =
  stepIDs :: "string list"
  choiceIDs :: "string list"
  phaseIDs :: "string list"
  triggerProducers :: "(string, int) gomap"
  conditionals :: "string list"

definition empty_validation :: effectValidation where
  "empty_validation =
     \<lparr>stepIDs = [], choiceIDs = [], phaseIDs = [], triggerProducers = [], conditionals = []\<rparr>"

fun validateEffectNode ::
  "EffectNode \<Rightarrow> effectValidation \<Rightarrow> bool \<Rightarrow> effectError + effectValidation" where
  "validateEffectNode EffectNodeEmpty v inside = Inr v"
| "validateEffectNode (EffectNodeStep i k) v inside =
     ebind (validateEffectReference ''step'' i) (\<lambda>_.
       if \<not> kind_valid k then Inl (EffectStepInvalidKind i k)
       else if k = EffectStepForwardEffect \<and> \<not> inside then Inl (EffectForwardOutsidePhase i)
       else if i \<in> set (stepIDs v) then Inl (EffectDuplicateStep i)
       else Inr (v\<lparr>stepIDs := i # stepIDs v\<rparr>))"
| "validateEffectNode (EffectNodeSequence cs) v inside =
     (if cs = [] then Inl EffectSequenceEmpty
      else foldM (\<lambda>v c. validateEffectNode c v inside) v cs)"
| "validateEffectNode (EffectNodeChoice i cs) v inside =
     ebind (validateEffectReference ''choice'' i) (\<lambda>_.
       if length cs < 2 then Inl (EffectChoiceTooFew i)
       else if i \<in> set (choiceIDs v) then Inl (EffectDuplicateChoice i)
       else foldM (\<lambda>v c. validateEffectNode c v inside) (v\<lparr>choiceIDs := i # choiceIDs v\<rparr>) cs)"
| "validateEffectNode (EffectNodeRepeat n c) v inside =
     (if n \<le> 0 then Inl EffectRepetitionInvalid else validateEffectNode c v inside)"
| "validateEffectNode (EffectNodeForwardPhase i c) v inside =
     (if inside then Inl EffectForwardPhasesNest
      else ebind (validateEffectReference ''forward phase'' i) (\<lambda>_.
        if i \<in> set (phaseIDs v) then Inl (EffectDuplicatePhase i)
        else validateEffectNode c (v\<lparr>phaseIDs := i # phaseIDs v\<rparr>) True))"
| "validateEffectNode (EffectNodeTrigger i c) v inside =
     ebind (validateEffectReference ''trigger'' i) (\<lambda>_.
       validateEffectNode c
         (v\<lparr>triggerProducers := AList.update i (go_get 0 (triggerProducers v) i + 1) (triggerProducers v)\<rparr>)
         inside)"
| "validateEffectNode (EffectNodeConditional i c) v inside =
     ebind (validateEffectReference ''conditional'' i) (\<lambda>_.
       if i \<in> set (conditionals v) then Inl (EffectDuplicateConditional i)
       else validateEffectNode c (v\<lparr>conditionals := i # conditionals v\<rparr>) inside)"

definition compileEffectStructure :: "EffectNode \<Rightarrow> effectError + EffectStructure" where
  "compileEffectStructure node =
     (let canonical = cloneEffectNode node in
      ebind (validateEffectNode canonical empty_validation False) (\<lambda>v.
        if (\<exists>i \<in> set (conditionals v). go_get 0 (triggerProducers v) i = 0)
        then Inl EffectConditionalWithoutTrigger
        else if (\<exists>i \<in> set (go_keys (triggerProducers v)). i \<notin> set (conditionals v))
        then Inl EffectTriggerWithoutConditional
        else Inr \<lparr>root = canonical\<rparr>))"

definition builder_Compile :: "EffectNode \<Rightarrow> builderRef \<Rightarrow> effectError + EffectStructure" where
  "builder_Compile node builder =
     (case builder of
        None \<Rightarrow> Inl EffectBuilderUnavailable
      | Some b \<Rightarrow>
          (case err b of
             Some e \<Rightarrow> Inl e
           | None \<Rightarrow> compileEffectStructure node))"

section \<open>Structural equality\<close>

fun equalEffectNode :: "EffectNode \<Rightarrow> EffectNode \<Rightarrow> bool" where
  "equalEffectNode EffectNodeEmpty EffectNodeEmpty = True"
| "equalEffectNode (EffectNodeStep i k) (EffectNodeStep j l) = (i = j \<and> k = l)"
| "equalEffectNode (EffectNodeSequence cs) (EffectNodeSequence ds) =
     list_all2 equalEffectNode cs ds"
| "equalEffectNode (EffectNodeChoice i cs) (EffectNodeChoice j ds) =
     (i = j \<and> list_all2 equalEffectNode cs ds)"
| "equalEffectNode (EffectNodeRepeat n c) (EffectNodeRepeat m d) = (n = m \<and> equalEffectNode c d)"
| "equalEffectNode (EffectNodeForwardPhase i c) (EffectNodeForwardPhase j d) =
     (i = j \<and> equalEffectNode c d)"
| "equalEffectNode (EffectNodeTrigger i c) (EffectNodeTrigger j d) = (i = j \<and> equalEffectNode c d)"
| "equalEffectNode (EffectNodeConditional i c) (EffectNodeConditional j d) =
     (i = j \<and> equalEffectNode c d)"
| "equalEffectNode _ _ = False"

definition EffectStructure_Equal :: "EffectStructure \<Rightarrow> EffectStructure \<Rightarrow> bool" where
  "EffectStructure_Equal s t = equalEffectNode (root s) (root t)"

section \<open>Declarative well-formedness\<close>

text \<open>What a compiled structure guarantees, without the order in which the checks run: the
  references of each class in document order, and the shape.\<close>

definition canonical_ref :: "string \<Rightarrow> bool" where
  "canonical_ref s \<longleftrightarrow> s \<noteq> [] \<and> trim_space s = s \<and> CHR 0x00 \<notin> set s"

fun step_ids :: "EffectNode \<Rightarrow> string list" where
  "step_ids EffectNodeEmpty = []"
| "step_ids (EffectNodeStep i k) = [i]"
| "step_ids (EffectNodeSequence cs) = concat (map step_ids cs)"
| "step_ids (EffectNodeChoice i cs) = concat (map step_ids cs)"
| "step_ids (EffectNodeRepeat n c) = step_ids c"
| "step_ids (EffectNodeForwardPhase i c) = step_ids c"
| "step_ids (EffectNodeTrigger i c) = step_ids c"
| "step_ids (EffectNodeConditional i c) = step_ids c"

fun choice_ids :: "EffectNode \<Rightarrow> string list" where
  "choice_ids EffectNodeEmpty = []"
| "choice_ids (EffectNodeStep i k) = []"
| "choice_ids (EffectNodeSequence cs) = concat (map choice_ids cs)"
| "choice_ids (EffectNodeChoice i cs) = i # concat (map choice_ids cs)"
| "choice_ids (EffectNodeRepeat n c) = choice_ids c"
| "choice_ids (EffectNodeForwardPhase i c) = choice_ids c"
| "choice_ids (EffectNodeTrigger i c) = choice_ids c"
| "choice_ids (EffectNodeConditional i c) = choice_ids c"

fun phase_ids :: "EffectNode \<Rightarrow> string list" where
  "phase_ids EffectNodeEmpty = []"
| "phase_ids (EffectNodeStep i k) = []"
| "phase_ids (EffectNodeSequence cs) = concat (map phase_ids cs)"
| "phase_ids (EffectNodeChoice i cs) = concat (map phase_ids cs)"
| "phase_ids (EffectNodeRepeat n c) = phase_ids c"
| "phase_ids (EffectNodeForwardPhase i c) = i # phase_ids c"
| "phase_ids (EffectNodeTrigger i c) = phase_ids c"
| "phase_ids (EffectNodeConditional i c) = phase_ids c"

fun trigger_ids :: "EffectNode \<Rightarrow> string list" where
  "trigger_ids EffectNodeEmpty = []"
| "trigger_ids (EffectNodeStep i k) = []"
| "trigger_ids (EffectNodeSequence cs) = concat (map trigger_ids cs)"
| "trigger_ids (EffectNodeChoice i cs) = concat (map trigger_ids cs)"
| "trigger_ids (EffectNodeRepeat n c) = trigger_ids c"
| "trigger_ids (EffectNodeForwardPhase i c) = trigger_ids c"
| "trigger_ids (EffectNodeTrigger i c) = i # trigger_ids c"
| "trigger_ids (EffectNodeConditional i c) = trigger_ids c"

fun conditional_ids :: "EffectNode \<Rightarrow> string list" where
  "conditional_ids EffectNodeEmpty = []"
| "conditional_ids (EffectNodeStep i k) = []"
| "conditional_ids (EffectNodeSequence cs) = concat (map conditional_ids cs)"
| "conditional_ids (EffectNodeChoice i cs) = concat (map conditional_ids cs)"
| "conditional_ids (EffectNodeRepeat n c) = conditional_ids c"
| "conditional_ids (EffectNodeForwardPhase i c) = conditional_ids c"
| "conditional_ids (EffectNodeTrigger i c) = conditional_ids c"
| "conditional_ids (EffectNodeConditional i c) = i # conditional_ids c"

fun node_shape :: "bool \<Rightarrow> EffectNode \<Rightarrow> bool" where
  "node_shape inside EffectNodeEmpty = True"
| "node_shape inside (EffectNodeStep i k) =
     (canonical_ref i \<and> kind_valid k \<and> (k = EffectStepForwardEffect \<longrightarrow> inside))"
| "node_shape inside (EffectNodeSequence cs) = (cs \<noteq> [] \<and> list_all (node_shape inside) cs)"
| "node_shape inside (EffectNodeChoice i cs) =
     (canonical_ref i \<and> 2 \<le> length cs \<and> list_all (node_shape inside) cs)"
| "node_shape inside (EffectNodeRepeat n c) = (0 < n \<and> node_shape inside c)"
| "node_shape inside (EffectNodeForwardPhase i c) =
     (\<not> inside \<and> canonical_ref i \<and> node_shape True c)"
| "node_shape inside (EffectNodeTrigger i c) = (canonical_ref i \<and> node_shape inside c)"
| "node_shape inside (EffectNodeConditional i c) = (canonical_ref i \<and> node_shape inside c)"

definition effect_wellformed :: "EffectNode \<Rightarrow> bool" where
  "effect_wellformed n \<longleftrightarrow>
     node_shape False n \<and> distinct (step_ids n) \<and> distinct (choice_ids n) \<and>
     distinct (phase_ids n) \<and> distinct (conditional_ids n) \<and>
     set (conditional_ids n) = set (trigger_ids n)"

section \<open>Basic facts\<close>

lemma cloneEffectNode_id [simp]: "cloneEffectNode n = n"
  by (induction n) (simp_all add: map_idI)

lemma cloneEffectNodes_id [simp]: "cloneEffectNodes ns = ns"
  by (simp add: cloneEffectNodes_def map_idI)

lemma equalEffectNode_refl: "equalEffectNode n n"
  by (induction n) (auto simp: list_all2_same)

lemma equalEffectNode_eq_iff: "equalEffectNode m n \<longleftrightarrow> m = n"
proof
  show "equalEffectNode m n \<Longrightarrow> m = n"
    by (induction m n rule: equalEffectNode.induct)
      (auto simp: list_all2_conv_all_nth intro!: nth_equalityI)
qed (simp add: equalEffectNode_refl)

lemma validateEffectReference_ok [simp]:
  "validateEffectReference label s = Inr u \<longleftrightarrow> canonical_ref s"
  by (auto simp: validateEffectReference_def canonical_ref_def Let_def)

section \<open>What validation records and when it succeeds\<close>

text \<open>The references of one subtree, by class, and the two ways they meet the validation state:
  being new to it and being added to it.\<close>

record node_refs =
  ref_steps :: "string list"
  ref_choices :: "string list"
  ref_phases :: "string list"
  ref_triggers :: "string list"
  ref_conditionals :: "string list"

definition refs_of :: "EffectNode \<Rightarrow> node_refs" where
  "refs_of n = \<lparr>ref_steps = step_ids n, ref_choices = choice_ids n, ref_phases = phase_ids n,
     ref_triggers = trigger_ids n, ref_conditionals = conditional_ids n\<rparr>"

definition refs_append :: "node_refs \<Rightarrow> node_refs \<Rightarrow> node_refs" where
  "refs_append r s = \<lparr>ref_steps = ref_steps r @ ref_steps s, ref_choices = ref_choices r @ ref_choices s,
     ref_phases = ref_phases r @ ref_phases s, ref_triggers = ref_triggers r @ ref_triggers s,
     ref_conditionals = ref_conditionals r @ ref_conditionals s\<rparr>"

definition no_refs :: node_refs where
  "no_refs = \<lparr>ref_steps = [], ref_choices = [], ref_phases = [], ref_triggers = [], ref_conditionals = []\<rparr>"

definition bump_trigger :: "(string, int) gomap \<Rightarrow> string \<Rightarrow> (string, int) gomap" where
  "bump_trigger m i = AList.update i (go_get 0 m i + 1) m"

definition fresh_refs :: "effectValidation \<Rightarrow> node_refs \<Rightarrow> bool" where
  "fresh_refs v r \<longleftrightarrow>
     distinct (ref_steps r) \<and> set (ref_steps r) \<inter> set (stepIDs v) = {} \<and>
     distinct (ref_choices r) \<and> set (ref_choices r) \<inter> set (choiceIDs v) = {} \<and>
     distinct (ref_phases r) \<and> set (ref_phases r) \<inter> set (phaseIDs v) = {} \<and>
     distinct (ref_conditionals r) \<and> set (ref_conditionals r) \<inter> set (conditionals v) = {}"

definition record_refs :: "effectValidation \<Rightarrow> node_refs \<Rightarrow> effectValidation" where
  "record_refs v r = v\<lparr>stepIDs := rev (ref_steps r) @ stepIDs v,
     choiceIDs := rev (ref_choices r) @ choiceIDs v,
     phaseIDs := rev (ref_phases r) @ phaseIDs v,
     triggerProducers := foldl bump_trigger (triggerProducers v) (ref_triggers r),
     conditionals := rev (ref_conditionals r) @ conditionals v\<rparr>"

lemma fresh_refs_append:
  "fresh_refs v (refs_append r s) \<longleftrightarrow> fresh_refs v r \<and> fresh_refs (record_refs v r) s"
  by (auto simp: fresh_refs_def refs_append_def record_refs_def)

lemma record_refs_append: "record_refs v (refs_append r s) = record_refs (record_refs v r) s"
  by (simp add: refs_append_def record_refs_def)

lemma record_no_refs [simp]: "record_refs v no_refs = v" "fresh_refs v no_refs"
  by (simp_all add: record_refs_def no_refs_def fresh_refs_def)

definition refs_of_list :: "EffectNode list \<Rightarrow> node_refs" where
  "refs_of_list cs = foldr (\<lambda>c. refs_append (refs_of c)) cs no_refs"

lemma refs_of_list_Cons: "refs_of_list (c # cs) = refs_append (refs_of c) (refs_of_list cs)"
  by (simp add: refs_of_list_def)

lemma refs_of_list_concat:
  "refs_of_list cs = \<lparr>ref_steps = concat (map step_ids cs), ref_choices = concat (map choice_ids cs),
     ref_phases = concat (map phase_ids cs), ref_triggers = concat (map trigger_ids cs),
     ref_conditionals = concat (map conditional_ids cs)\<rparr>"
  by (induction cs) (simp_all add: refs_of_list_def no_refs_def refs_append_def refs_of_def)

lemma validate_children:
  assumes "\<And>c v v'. c \<in> set cs \<Longrightarrow> validateEffectNode c v inside = Inr v' \<longleftrightarrow>
      node_shape inside c \<and> fresh_refs v (refs_of c) \<and> v' = record_refs v (refs_of c)"
  shows "foldM (\<lambda>v c. validateEffectNode c v inside) v cs = Inr v' \<longleftrightarrow>
      list_all (node_shape inside) cs \<and> fresh_refs v (refs_of_list cs) \<and>
      v' = record_refs v (refs_of_list cs)"
  using assms
proof (induction cs arbitrary: v)
  case Nil
  then show ?case by (auto simp: refs_of_list_def)
next
  case (Cons c cs)
  show ?case
    by (auto simp: Cons refs_of_list_Cons fresh_refs_append record_refs_append)
qed

lemma validate_iff:
  "validateEffectNode n v inside = Inr v' \<longleftrightarrow>
     node_shape inside n \<and> fresh_refs v (refs_of n) \<and> v' = record_refs v (refs_of n)"
proof (induction n arbitrary: v v' inside)
  case (EffectNodeSequence cs)
  have "refs_of (EffectNodeSequence cs) = refs_of_list cs"
    by (simp add: refs_of_list_concat refs_of_def)
  then show ?case by (simp add: validate_children EffectNodeSequence)
next
  case (EffectNodeChoice i cs)
  have refs: "refs_of (EffectNodeChoice i cs) =
      refs_append (no_refs\<lparr>ref_choices := [i]\<rparr>) (refs_of_list cs)"
    by (simp add: refs_of_list_concat refs_of_def refs_append_def no_refs_def)
  have i: "fresh_refs v (no_refs\<lparr>ref_choices := [i]\<rparr>) \<longleftrightarrow> i \<notin> set (choiceIDs v)"
    "record_refs v (no_refs\<lparr>ref_choices := [i]\<rparr>) = v\<lparr>choiceIDs := i # choiceIDs v\<rparr>"
    by (simp_all add: fresh_refs_def record_refs_def no_refs_def)
  show ?case
    by (auto simp: validate_children EffectNodeChoice refs fresh_refs_append record_refs_append i)
next
  case (EffectNodeForwardPhase i c)
  have refs: "refs_of (EffectNodeForwardPhase i c) =
      refs_append (no_refs\<lparr>ref_phases := [i]\<rparr>) (refs_of c)"
    by (simp add: refs_of_def refs_append_def no_refs_def)
  have i: "fresh_refs v (no_refs\<lparr>ref_phases := [i]\<rparr>) \<longleftrightarrow> i \<notin> set (phaseIDs v)"
    "record_refs v (no_refs\<lparr>ref_phases := [i]\<rparr>) = v\<lparr>phaseIDs := i # phaseIDs v\<rparr>"
    by (simp_all add: fresh_refs_def record_refs_def no_refs_def)
  show ?case
    by (auto simp: EffectNodeForwardPhase refs fresh_refs_append record_refs_append i)
next
  case (EffectNodeTrigger i c)
  have refs: "refs_of (EffectNodeTrigger i c) =
      refs_append (no_refs\<lparr>ref_triggers := [i]\<rparr>) (refs_of c)"
    by (simp add: refs_of_def refs_append_def no_refs_def)
  have i: "fresh_refs v (no_refs\<lparr>ref_triggers := [i]\<rparr>)"
    "record_refs v (no_refs\<lparr>ref_triggers := [i]\<rparr>) =
       v\<lparr>triggerProducers := AList.update i (go_get 0 (triggerProducers v) i + 1) (triggerProducers v)\<rparr>"
    by (simp_all add: fresh_refs_def record_refs_def no_refs_def bump_trigger_def)
  show ?case
    by (auto simp: EffectNodeTrigger refs fresh_refs_append record_refs_append i)
next
  case (EffectNodeConditional i c)
  have refs: "refs_of (EffectNodeConditional i c) =
      refs_append (no_refs\<lparr>ref_conditionals := [i]\<rparr>) (refs_of c)"
    by (simp add: refs_of_def refs_append_def no_refs_def)
  have i: "fresh_refs v (no_refs\<lparr>ref_conditionals := [i]\<rparr>) \<longleftrightarrow> i \<notin> set (conditionals v)"
    "record_refs v (no_refs\<lparr>ref_conditionals := [i]\<rparr>) = v\<lparr>conditionals := i # conditionals v\<rparr>"
    by (simp_all add: fresh_refs_def record_refs_def no_refs_def)
  show ?case
    by (auto simp: EffectNodeConditional refs fresh_refs_append record_refs_append i)
qed (auto simp: refs_of_def fresh_refs_def record_refs_def)

lemma bump_trigger_get:
  "go_get 0 (foldl bump_trigger m ts) i = go_get 0 m i + int (count_list ts i)"
  by (induction ts arbitrary: m) (auto simp: bump_trigger_def)

lemma bump_trigger_keys:
  "set (go_keys (foldl bump_trigger m ts)) = set (go_keys m) \<union> set ts"
  by (induction ts arbitrary: m) (auto simp: bump_trigger_def dom_update)

lemma count_list_pos: "0 < count_list xs x \<longleftrightarrow> x \<in> set xs"
  by (metis count_list_0_iff gr0I less_irrefl)

lemma compile_iff_wellformed:
  "compileEffectStructure n = Inr s \<longleftrightarrow> effect_wellformed n \<and> s = \<lparr>root = n\<rparr>"
proof -
  let ?v = "record_refs empty_validation (refs_of n)"
  have fresh: "fresh_refs empty_validation (refs_of n) \<longleftrightarrow>
      distinct (step_ids n) \<and> distinct (choice_ids n) \<and> distinct (phase_ids n) \<and>
      distinct (conditional_ids n)"
    by (auto simp: fresh_refs_def empty_validation_def refs_of_def)
  have conds: "set (conditionals ?v) = set (conditional_ids n)"
    by (simp add: record_refs_def empty_validation_def refs_of_def)
  have keys: "set (go_keys (triggerProducers ?v)) = set (trigger_ids n)"
    unfolding record_refs_def by (simp add: bump_trigger_keys empty_validation_def refs_of_def
        del: set_map)
  have prods: "go_get 0 (triggerProducers ?v) i = 0 \<longleftrightarrow> i \<notin> set (trigger_ids n)" for i
    using count_list_0_iff[of "trigger_ids n" i]
    by (simp add: record_refs_def bump_trigger_get empty_validation_def refs_of_def)
  show ?thesis
  proof -
    have "compileEffectStructure n = Inr s \<longleftrightarrow>
        node_shape False n \<and> fresh_refs empty_validation (refs_of n) \<and>
        \<not> (\<exists>i \<in> set (conditionals ?v). go_get 0 (triggerProducers ?v) i = 0) \<and>
        \<not> (\<exists>i \<in> set (go_keys (triggerProducers ?v)). i \<notin> set (conditionals ?v)) \<and>
        s = \<lparr>root = n\<rparr>"
      unfolding compileEffectStructure_def Let_def cloneEffectNode_id ebind_eq_Inr validate_iff
      by (auto simp del: set_map split: if_splits)
    then show ?thesis
      unfolding effect_wellformed_def fresh conds keys prods by blast
  qed
qed

section \<open>The builder records the first error\<close>

text \<open>A construction sequence that ends without a recorded error built every node it asked
  for.\<close>

lemma run_builder_construct:
  "run_state (builder_construct r) (Some \<lparr>err = None\<rparr>) =
     (case r of Inl e \<Rightarrow> (EffectNodeEmpty, Some \<lparr>err = Some e\<rparr>) | Inr n \<Rightarrow> (n, Some \<lparr>err = None\<rparr>))"
  by (simp add: builder_construct_def split: sum.splits)

lemma run_builder_construct_stuck:
  "run_state (builder_construct r) (Some \<lparr>err = Some e\<rparr>) = (EffectNodeEmpty, Some \<lparr>err = Some e\<rparr>)"
  "run_state (builder_construct r) None = (EffectNodeEmpty, None)"
  by (simp_all add: builder_construct_def)

lemmas builder_method_defs =
  builder_Step_def builder_Choice_def builder_Repeat_def builder_ForwardPhase_def
  builder_Trigger_def builder_Conditional_def builder_Namespace_def

section \<open>Namespacing keeps structures well-formed\<close>

lemma slash_not_in_space: "\<forall>p \<in> set go_space_encodings. CHR ''/'' \<notin> set p"
  by (simp add: go_space_encodings_def)

lemma canonical_ref_prefixed:
  assumes "canonical_ref p" and "canonical_ref i"
  shows "canonical_ref (prefixed p i)"
proof -
  from assms have ne: "i \<noteq> []" and
    front: "no_space_front go_space_encodings p" and
    rear: "no_space_front (map rev go_space_encodings) (rev i)"
    by (simp_all add: canonical_ref_def trim_space_eq_self)
  have "no_space_front go_space_encodings (p @ CHR ''/'' # i)"
    using front slash_not_in_space by (rule no_space_front_append)
  moreover have "no_space_front (map rev go_space_encodings) (rev i @ CHR ''/'' # rev p)"
    using rear slash_not_in_space by (intro no_space_front_append) auto
  ultimately show ?thesis
    using assms ne by (simp add: canonical_ref_def trim_space_eq_self prefixed_def)
qed

lemma inj_prefixed: "inj (prefixed p)"
  by (auto simp: inj_def prefixed_def)

lemma namespace_ids [simp]:
  "step_ids (namespaceEffectNode p n) = map (prefixed p) (step_ids n)"
  "choice_ids (namespaceEffectNode p n) = map (prefixed p) (choice_ids n)"
  "phase_ids (namespaceEffectNode p n) = map (prefixed p) (phase_ids n)"
  "trigger_ids (namespaceEffectNode p n) = map (prefixed p) (trigger_ids n)"
  "conditional_ids (namespaceEffectNode p n) = map (prefixed p) (conditional_ids n)"
  by (induction n) (simp_all add: map_concat o_def cong: map_cong)

lemma namespace_shape:
  "canonical_ref p \<Longrightarrow> node_shape inside n \<Longrightarrow> node_shape inside (namespaceEffectNode p n)"
  by (induction n arbitrary: inside) (auto simp: list_all_iff intro: canonical_ref_prefixed)

lemma namespace_wellformed:
  assumes "canonical_ref p" and "effect_wellformed n"
  shows "effect_wellformed (namespaceEffectNode p n)"
  using assms
  by (auto simp: effect_wellformed_def distinct_map namespace_shape
      intro: inj_on_subset[OF inj_prefixed])

text \<open>C23: compilation accepts exactly the well-formed effect trees (steps, choices, phases and follow-ups have
  canonical identifiers, unique among their kind; forward effects occur only inside phases, which never nest; the
  follow-ups are exactly those of the triggered identifiers) and returns the tree that was built.\<close>

theorem compiled_exactly_wellformed:
  "compileEffectStructure n = Inr s \<longleftrightarrow> effect_wellformed n \<and> s = \<lparr>root = n\<rparr>"
  by (rule compile_iff_wellformed)

end
