(* ===== verification/EffectDemand.thy ===== *)
theory EffectDemand
  imports EffectStructure
begin

text \<open>
  The demand algebra of \<^verbatim>\<open>internal/operationplan/effect_demand.go\<close> with the
  overflow-checked arithmetic of \<^verbatim>\<open>envelope.go\<close>: what one step charges, how
  charges add up, multiply and are bounded, the lowering of a forward phase, and the flat
  upper bound \<open>legacyUpperBound\<close> of a whole structure.
\<close>

section \<open>Checked arithmetic\<close>

definition checkedAdd :: "int \<Rightarrow> int \<Rightarrow> effectError + int" where
  "checkedAdd left right =
     (if left < 0 \<or> right < 0 \<or> left > go_max_int - right then Inl EffectDemandOverflow
      else Inr (left + right))"

definition checkedMul :: "int \<Rightarrow> int \<Rightarrow> effectError + int" where
  "checkedMul value multiplier =
     (if value < 0 \<or> multiplier < 0 \<or> value \<noteq> 0 \<and> multiplier > go_max_int div value
      then Inl EffectDemandOverflow
      else Inr (value * multiplier))"

lemma checkedAdd_iff [simp]:
  "checkedAdd a b = Inr c \<longleftrightarrow> 0 \<le> a \<and> 0 \<le> b \<and> a + b \<le> go_max_int \<and> c = a + b"
  by (auto simp: checkedAdd_def)

lemma int_le_div_iff: "0 < (v::int) \<Longrightarrow> m \<le> k div v \<longleftrightarrow> v * m \<le> k"
proof
  assume v: "0 < v" and "m \<le> k div v"
  then have "v * m \<le> v * (k div v)" by simp
  also have "\<dots> \<le> k" using v by (simp add: minus_mod_eq_mult_div[symmetric])
  finally show "v * m \<le> k" .
next
  assume v: "0 < v" and "v * m \<le> k"
  then have "(v * m) div v \<le> k div v" by (intro zdiv_mono1)
  with v show "m \<le> k div v" by simp
qed

lemma checkedMul_iff [simp]:
  "checkedMul v m = Inr c \<longleftrightarrow> 0 \<le> v \<and> 0 \<le> m \<and> v * m \<le> go_max_int \<and> c = v * m"
  using int_le_div_iff[of v m go_max_int]
  by (cases "v = 0") (auto simp: checkedMul_def not_less)

section \<open>Demands\<close>

record effectDemand =
  forwardEffectCalls :: int
  ensureCalls :: int
  barrierValidationCalls :: int
  stateDirValidationCalls :: int
  descendantBindings :: int
  descendantValidations :: int
  descendantFileCommits :: int

definition zero_demand :: effectDemand where
  "zero_demand = \<lparr>forwardEffectCalls = 0, ensureCalls = 0, barrierValidationCalls = 0,
     stateDirValidationCalls = 0, descendantBindings = 0, descendantValidations = 0,
     descendantFileCommits = 0\<rparr>"

definition effectDemand_add :: "effectDemand \<Rightarrow> effectDemand \<Rightarrow> effectError + effectDemand" where
  "effectDemand_add demand other =
     ebind (checkedAdd (forwardEffectCalls demand) (forwardEffectCalls other)) (\<lambda>forward.
     ebind (checkedAdd (ensureCalls demand) (ensureCalls other)) (\<lambda>ensure.
     ebind (checkedAdd (barrierValidationCalls demand) (barrierValidationCalls other)) (\<lambda>barrier.
     ebind (checkedAdd (stateDirValidationCalls demand) (stateDirValidationCalls other)) (\<lambda>stateDir.
     ebind (checkedAdd (descendantBindings demand) (descendantBindings other)) (\<lambda>bindings.
     ebind (checkedAdd (descendantValidations demand) (descendantValidations other)) (\<lambda>validations.
     ebind (checkedAdd (descendantFileCommits demand) (descendantFileCommits other)) (\<lambda>commits.
       Inr \<lparr>forwardEffectCalls = forward, ensureCalls = ensure, barrierValidationCalls = barrier,
            stateDirValidationCalls = stateDir, descendantBindings = bindings,
            descendantValidations = validations, descendantFileCommits = commits\<rparr>)))))))"

definition effectDemand_multiply :: "effectDemand \<Rightarrow> int \<Rightarrow> effectError + effectDemand" where
  "effectDemand_multiply demand count =
     ebind (checkedMul (forwardEffectCalls demand) count) (\<lambda>forward.
     ebind (checkedMul (ensureCalls demand) count) (\<lambda>ensure.
     ebind (checkedMul (barrierValidationCalls demand) count) (\<lambda>barrier.
     ebind (checkedMul (stateDirValidationCalls demand) count) (\<lambda>stateDir.
     ebind (checkedMul (descendantBindings demand) count) (\<lambda>bindings.
     ebind (checkedMul (descendantValidations demand) count) (\<lambda>validations.
     ebind (checkedMul (descendantFileCommits demand) count) (\<lambda>commits.
       Inr \<lparr>forwardEffectCalls = forward, ensureCalls = ensure, barrierValidationCalls = barrier,
            stateDirValidationCalls = stateDir, descendantBindings = bindings,
            descendantValidations = validations, descendantFileCommits = commits\<rparr>)))))))"

definition effectDemand_maximum :: "effectDemand \<Rightarrow> effectDemand \<Rightarrow> effectDemand" where
  "effectDemand_maximum demand other =
     \<lparr>forwardEffectCalls = max (forwardEffectCalls demand) (forwardEffectCalls other),
      ensureCalls = max (ensureCalls demand) (ensureCalls other),
      barrierValidationCalls = max (barrierValidationCalls demand) (barrierValidationCalls other),
      stateDirValidationCalls = max (stateDirValidationCalls demand) (stateDirValidationCalls other),
      descendantBindings = max (descendantBindings demand) (descendantBindings other),
      descendantValidations = max (descendantValidations demand) (descendantValidations other),
      descendantFileCommits = max (descendantFileCommits demand) (descendantFileCommits other)\<rparr>"

definition effectDemandDominates :: "effectDemand \<Rightarrow> effectDemand \<Rightarrow> bool" where
  "effectDemandDominates left right \<longleftrightarrow>
     forwardEffectCalls left \<ge> forwardEffectCalls right \<and>
     ensureCalls left \<ge> ensureCalls right \<and>
     barrierValidationCalls left \<ge> barrierValidationCalls right \<and>
     stateDirValidationCalls left \<ge> stateDirValidationCalls right \<and>
     descendantBindings left \<ge> descendantBindings right \<and>
     descendantValidations left \<ge> descendantValidations right \<and>
     descendantFileCommits left \<ge> descendantFileCommits right"

fun effectStepDemand :: "EffectStepKind \<Rightarrow> effectDemand" where
  "effectStepDemand EffectStepEstablishStateDir = zero_demand\<lparr>ensureCalls := 1\<rparr>"
| "effectStepDemand EffectStepValidateBarrier = zero_demand\<lparr>barrierValidationCalls := 1\<rparr>"
| "effectStepDemand EffectStepValidateStateDir = zero_demand\<lparr>stateDirValidationCalls := 1\<rparr>"
| "effectStepDemand EffectStepForwardEffect = zero_demand\<lparr>forwardEffectCalls := 1\<rparr>"
| "effectStepDemand EffectStepBindDescendant = zero_demand\<lparr>descendantBindings := 1\<rparr>"
| "effectStepDemand EffectStepValidateDescendant = zero_demand\<lparr>descendantValidations := 1\<rparr>"
| "effectStepDemand EffectStepPublishDescendant = zero_demand\<lparr>descendantFileCommits := 1\<rparr>"
| "effectStepDemand _ = zero_demand"

text \<open>Leaving a forward phase: the first forward effect establishes the incarnation, every later
  one is an identity check.\<close>

definition lower_forward_phase :: "effectDemand \<Rightarrow> effectError + effectDemand" where
  "lower_forward_phase demand =
     (if forwardEffectCalls demand = 0 then Inr demand
      else ebind (checkedAdd (ensureCalls demand) 1) (\<lambda>ensure.
           ebind (checkedAdd (stateDirValidationCalls demand) (forwardEffectCalls demand - 1)) (\<lambda>stateDir.
             Inr (demand\<lparr>forwardEffectCalls := 0, ensureCalls := ensure,
                         stateDirValidationCalls := stateDir\<rparr>))))"

section \<open>The flat upper bound\<close>

fun legacyUpperBoundDemand :: "EffectNode \<Rightarrow> effectError + effectDemand" where
  "legacyUpperBoundDemand EffectNodeEmpty = Inr zero_demand"
| "legacyUpperBoundDemand (EffectNodeStep i k) = Inr (effectStepDemand k)"
| "legacyUpperBoundDemand (EffectNodeSequence cs) =
     foldM (\<lambda>demand child. ebind (legacyUpperBoundDemand child) (effectDemand_add demand))
       zero_demand cs"
| "legacyUpperBoundDemand (EffectNodeChoice i cs) =
     foldM (\<lambda>demand child. ebind (legacyUpperBoundDemand child)
              (\<lambda>childDemand. Inr (effectDemand_maximum demand childDemand)))
       zero_demand cs"
| "legacyUpperBoundDemand (EffectNodeRepeat n c) =
     ebind (legacyUpperBoundDemand c) (\<lambda>childDemand. effectDemand_multiply childDemand n)"
| "legacyUpperBoundDemand (EffectNodeForwardPhase i c) =
     ebind (legacyUpperBoundDemand c) lower_forward_phase"
| "legacyUpperBoundDemand (EffectNodeTrigger i c) = legacyUpperBoundDemand c"
| "legacyUpperBoundDemand (EffectNodeConditional i c) = legacyUpperBoundDemand c"

definition legacyUpperBound :: "EffectStructure \<Rightarrow> effectError + effectDemand" where
  "legacyUpperBound structure = legacyUpperBoundDemand (root structure)"

text \<open>The public demand of \<^verbatim>\<open>envelope.go\<close>: no forward counter, one selected
  descendant path.\<close>

record Demand =
  d_ensureCalls :: int
  d_barrierValidationCalls :: int
  d_stateDirValidationCalls :: int
  d_descendantPath :: string
  d_descendantBindings :: int
  d_descendantValidations :: int
  d_descendantFileCommits :: int

definition public_demand :: "effectDemand \<Rightarrow> Demand" where
  "public_demand demand =
     \<lparr>d_ensureCalls = ensureCalls demand,
      d_barrierValidationCalls = barrierValidationCalls demand,
      d_stateDirValidationCalls = stateDirValidationCalls demand,
      d_descendantPath = '''',
      d_descendantBindings = descendantBindings demand,
      d_descendantValidations = descendantValidations demand,
      d_descendantFileCommits = descendantFileCommits demand\<rparr>"

definition LegacyDemand :: "EffectStructure \<Rightarrow> effectError + Demand" where
  "LegacyDemand structure =
     ebind (legacyUpperBound structure) (\<lambda>legacy.
       if forwardEffectCalls legacy \<noteq> 0 then Inl EffectUnloweredForward
       else Inr (public_demand legacy))"

section \<open>The algebra without the overflow checks\<close>

definition demand_plus :: "effectDemand \<Rightarrow> effectDemand \<Rightarrow> effectDemand" where
  "demand_plus a b =
     \<lparr>forwardEffectCalls = forwardEffectCalls a + forwardEffectCalls b,
      ensureCalls = ensureCalls a + ensureCalls b,
      barrierValidationCalls = barrierValidationCalls a + barrierValidationCalls b,
      stateDirValidationCalls = stateDirValidationCalls a + stateDirValidationCalls b,
      descendantBindings = descendantBindings a + descendantBindings b,
      descendantValidations = descendantValidations a + descendantValidations b,
      descendantFileCommits = descendantFileCommits a + descendantFileCommits b\<rparr>"

definition demand_scale :: "int \<Rightarrow> effectDemand \<Rightarrow> effectDemand" where
  "demand_scale n a =
     \<lparr>forwardEffectCalls = forwardEffectCalls a * n,
      ensureCalls = ensureCalls a * n,
      barrierValidationCalls = barrierValidationCalls a * n,
      stateDirValidationCalls = stateDirValidationCalls a * n,
      descendantBindings = descendantBindings a * n,
      descendantValidations = descendantValidations a * n,
      descendantFileCommits = descendantFileCommits a * n\<rparr>"

definition demand_lower :: "effectDemand \<Rightarrow> effectDemand" where
  "demand_lower a =
     (if forwardEffectCalls a = 0 then a
      else a\<lparr>forwardEffectCalls := 0, ensureCalls := ensureCalls a + 1,
             stateDirValidationCalls := stateDirValidationCalls a + (forwardEffectCalls a - 1)\<rparr>)"

abbreviation demand_nonneg :: "effectDemand \<Rightarrow> bool" where
  "demand_nonneg a \<equiv> effectDemandDominates a zero_demand"

lemmas [demand_simps] =
  demand_plus_def demand_scale_def effectDemandDominates_def effectDemand_maximum_def zero_demand_def

lemma demand_eqI:
  assumes "effectDemandDominates a b" and "effectDemandDominates b a"
  shows "a = b"
  using assms by (cases a, cases b) (auto simp: effectDemandDominates_def)

lemma dominates_refl [simp]: "effectDemandDominates a a"
  by (simp add: effectDemandDominates_def)

lemma dominates_trans [trans]:
  "effectDemandDominates a b \<Longrightarrow> effectDemandDominates b c \<Longrightarrow> effectDemandDominates a c"
  by (auto simp: effectDemandDominates_def)

lemma add_exact: "effectDemand_add a b = Inr c \<Longrightarrow> c = demand_plus a b"
  by (auto simp: effectDemand_add_def demand_plus_def)

lemma add_nonneg: "effectDemand_add a b = Inr c \<Longrightarrow> demand_nonneg a \<and> demand_nonneg b"
  by (auto simp: effectDemand_add_def demand_simps)

lemma multiply_exact: "effectDemand_multiply a n = Inr c \<Longrightarrow> c = demand_scale n a"
  by (auto simp: effectDemand_multiply_def demand_scale_def)

lemma lower_exact: "lower_forward_phase a = Inr c \<Longrightarrow> c = demand_lower a"
  by (auto simp: lower_forward_phase_def demand_lower_def split: if_splits)

lemma plus_mono:
  "effectDemandDominates a a' \<Longrightarrow> effectDemandDominates b b' \<Longrightarrow>
     effectDemandDominates (demand_plus a b) (demand_plus a' b')"
  by (auto simp: demand_simps)

lemma scale_mono:
  "0 \<le> n \<Longrightarrow> effectDemandDominates a b \<Longrightarrow>
     effectDemandDominates (demand_scale n a) (demand_scale n b)"
  by (simp add: demand_scale_def effectDemandDominates_def mult_right_mono)

lemma lower_mono:
  "demand_nonneg b \<Longrightarrow> effectDemandDominates a b \<Longrightarrow>
     effectDemandDominates (demand_lower a) (demand_lower b)"
  by (auto simp: demand_lower_def demand_simps)

lemma maximum_upper:
  "effectDemandDominates (effectDemand_maximum a b) a"
  "effectDemandDominates (effectDemand_maximum a b) b"
  by (auto simp: demand_simps)

lemma plus_zero [simp]: "demand_plus zero_demand a = a" "demand_plus a zero_demand = a"
  by (simp_all add: demand_plus_def zero_demand_def)

lemma plus_assoc: "demand_plus (demand_plus a b) c = demand_plus a (demand_plus b c)"
  by (simp add: demand_plus_def)

lemma plus_nonneg: "demand_nonneg a \<Longrightarrow> demand_nonneg b \<Longrightarrow> demand_nonneg (demand_plus a b)"
  by (auto simp: demand_simps)

lemma scale_Suc: "demand_scale (int (Suc n)) a = demand_plus a (demand_scale (int n) a)"
  by (simp add: demand_plus_def demand_scale_def algebra_simps)

lemma scale_0 [simp]: "demand_scale 0 a = zero_demand"
  by (simp add: demand_scale_def zero_demand_def)

lemma step_nonneg [simp]: "demand_nonneg (effectStepDemand k)"
  by (cases k) (simp_all add: demand_simps)

lemma zero_nonneg [simp]: "demand_nonneg zero_demand"
  by simp

lemma lower_nonneg: "demand_nonneg a \<Longrightarrow> demand_nonneg (demand_lower a)"
  by (auto simp: demand_lower_def demand_simps)

lemma lower_forward [simp]: "forwardEffectCalls (demand_lower a) = 0"
  by (simp add: demand_lower_def)

lemma lower_id [simp]: "forwardEffectCalls a = 0 \<Longrightarrow> demand_lower a = a"
  by (simp add: demand_lower_def)

lemma lower_plus: "forwardEffectCalls a = 0 \<Longrightarrow> demand_lower (demand_plus a b) = demand_plus a (demand_lower b)"
  by (auto simp: demand_lower_def demand_plus_def)

lemma add_result_nonneg: "effectDemand_add a b = Inr c \<Longrightarrow> demand_nonneg c"
  using add_exact[of a b c] add_nonneg[of a b c] plus_nonneg[of a b] by simp

section \<open>Checked measures\<close>

text \<open>
  What a client of an overflow-checked measure relies on: a successful addition is the exact
  sum, and the componentwise order is compatible with it. Both the effect demand and the
  statefile demand of the envelope compiler are such measures.
\<close>

locale checked_measure =
  fixes zero :: 'm
    and plus :: "'m \<Rightarrow> 'm \<Rightarrow> 'm"
    and dominates :: "'m \<Rightarrow> 'm \<Rightarrow> bool"
    and add :: "'m \<Rightarrow> 'm \<Rightarrow> 'e + 'm"
  assumes measure_add: "add a b = Inr c \<Longrightarrow> c = plus a b"
    and measure_refl: "dominates a a"
    and measure_trans: "dominates a b \<Longrightarrow> dominates b c \<Longrightarrow> dominates a c"
    and measure_mono: "dominates a a' \<Longrightarrow> dominates b b' \<Longrightarrow> dominates (plus a b) (plus a' b')"
    and measure_zero: "plus zero a = a" "plus a zero = a"
begin

lemma measured_sum_mono:
  "dominates a b \<Longrightarrow> list_all2 dominates xs ys \<Longrightarrow> dominates (foldl plus a xs) (foldl plus b ys)"
proof (induction xs arbitrary: a b ys)
  case Nil
  then show ?case by simp
next
  case (Cons x xs)
  then obtain y ys' where "ys = y # ys'" "dominates x y" "list_all2 dominates xs ys'"
    by (auto simp: list_all2_Cons1)
  with Cons show ?case by (simp add: measure_mono)
qed

text \<open>A checked accumulation loop over measured items returns their exact sum.\<close>

lemma measured_fold:
  assumes "foldM (\<lambda>m x. ebind (f x) (add m)) a xs = Inr b"
  shows "\<exists>ms. list_all2 (\<lambda>x m. f x = Inr m) xs ms \<and> b = foldl plus a ms"
  using assms
proof (induction xs arbitrary: a)
  case Nil
  then show ?case by simp
next
  case (Cons x xs)
  then obtain m c where m: "f x = Inr m" "add a m = Inr c"
    and rest: "foldM (\<lambda>m x. ebind (f x) (add m)) c xs = Inr b"
    by auto
  from Cons.IH[OF rest] obtain ms where ms: "list_all2 (\<lambda>x m. f x = Inr m) xs ms"
    and b: "b = foldl plus c ms" by blast
  from m(2) have c: "c = plus a m" by (rule measure_add)
  show ?case
    by (rule exI[of _ "m # ms"]) (use m(1) ms b c in simp)
qed

lemma sum_dominates_start:
  assumes "\<And>m. m \<in> set ms \<Longrightarrow> dominates m zero"
  shows "dominates (foldl plus a ms) a"
  using assms
proof (induction ms arbitrary: a)
  case Nil
  then show ?case by (simp add: measure_refl)
next
  case (Cons m ms)
  have "dominates (plus a m) (plus a zero)"
    by (rule measure_mono) (simp_all add: measure_refl Cons.prems)
  then have "dominates (plus a m) a" by (simp add: measure_zero)
  moreover have "dominates (foldl plus (plus a m) ms) (plus a m)"
    by (rule Cons.IH) (simp add: Cons.prems)
  ultimately show ?case by (auto intro: measure_trans)
qed

end

interpretation effect_measure: checked_measure zero_demand demand_plus effectDemandDominates effectDemand_add
  by unfold_locales (auto dest: add_exact intro: dominates_trans plus_mono)

lemma legacy_nonneg: "node_shape inside n \<Longrightarrow> legacyUpperBoundDemand n = Inr d \<Longrightarrow> demand_nonneg d"
proof (induction n arbitrary: inside d)
  case (EffectNodeSequence cs)
  show ?case
    by (rule foldM_invariant[OF EffectNodeSequence.prems(2)[simplified], where P = demand_nonneg])
      (auto dest: add_result_nonneg)
next
  case (EffectNodeChoice i cs)
  show ?case
    by (rule foldM_invariant[OF EffectNodeChoice.prems(2)[simplified], where P = demand_nonneg])
      (auto intro: dominates_trans maximum_upper)
next
  case (EffectNodeRepeat n c)
  then obtain e where e: "legacyUpperBoundDemand c = Inr e" "effectDemand_multiply e n = Inr d"
    by auto
  with EffectNodeRepeat have "demand_nonneg e" "0 < n" by auto
  with multiply_exact[OF e(2)] scale_mono[of n e zero_demand] show ?case
    by (simp add: demand_scale_def zero_demand_def)
next
  case (EffectNodeForwardPhase i c)
  then obtain e where e: "legacyUpperBoundDemand c = Inr e" "lower_forward_phase e = Inr d"
    by auto
  with EffectNodeForwardPhase have "demand_nonneg e" by auto
  with lower_exact[OF e(2)] show ?case by (simp add: lower_nonneg)
qed auto

section \<open>Errors and forward effects of the flat bound\<close>

lemma checked_fails [simp]:
  "fails_with ((=) EffectDemandOverflow) (checkedAdd a b)"
  "fails_with ((=) EffectDemandOverflow) (checkedMul a b)"
  by (simp_all add: checkedAdd_def checkedMul_def)

lemma demand_fails [simp]:
  "fails_with ((=) EffectDemandOverflow) (effectDemand_add a b)"
  "fails_with ((=) EffectDemandOverflow) (effectDemand_multiply a n)"
  "fails_with ((=) EffectDemandOverflow) (lower_forward_phase a)"
  unfolding effectDemand_add_def effectDemand_multiply_def lower_forward_phase_def
  by (auto intro!: fails_with_ebind)

lemma legacy_fails [simp]: "fails_with ((=) EffectDemandOverflow) (legacyUpperBoundDemand n)"
  by (induction n) (auto intro!: fails_with_intros)

lemma multiply_forward: "effectDemand_multiply a n = Inr b \<Longrightarrow> forwardEffectCalls a = 0 \<Longrightarrow> forwardEffectCalls b = 0"
  by (auto dest!: multiply_exact simp: demand_scale_def)

lemma legacy_forward:
  "node_shape False n \<Longrightarrow> legacyUpperBoundDemand n = Inr d \<Longrightarrow> forwardEffectCalls d = 0"
proof (induction n arbitrary: d)
  case (EffectNodeStep i k)
  then show ?case by (cases k) (auto simp: zero_demand_def)
next
  case (EffectNodeSequence cs)
  show ?case
    by (rule foldM_invariant[OF EffectNodeSequence.prems(2)[simplified], where P = "\<lambda>d. forwardEffectCalls d = 0"])
      (use EffectNodeSequence in \<open>auto simp: zero_demand_def demand_plus_def list_all_iff dest!: add_exact\<close>)
next
  case (EffectNodeChoice i cs)
  show ?case
    by (rule foldM_invariant[OF EffectNodeChoice.prems(2)[simplified], where P = "\<lambda>d. forwardEffectCalls d = 0"])
      (use EffectNodeChoice in \<open>auto simp: zero_demand_def effectDemand_maximum_def list_all_iff\<close>)
next
  case (EffectNodeForwardPhase i c)
  then show ?case by (auto dest!: lower_exact)
qed (auto dest: multiply_forward simp: zero_demand_def)

end
