(* ===== verification/EffectSemantics.thy ===== *)
theory EffectSemantics
  imports EffectDemand
begin

text \<open>
  The specification the cursor and the demand analysis are both measured against: which complete
  executions an effect structure admits and what each of them charges. A run carries the demand
  charged so far (forward effects of an open phase counted separately), the follow-ups that were
  triggered, the conditionals that were reached, and whether a terminal hand-off ended it.
\<close>

record effectRun =
  run_demand :: effectDemand
  run_triggered :: "string set"
  run_conditionals :: "string set"
  run_terminated :: bool

definition initial_run :: effectRun where
  "initial_run = \<lparr>run_demand = zero_demand, run_triggered = {}, run_conditionals = {},
     run_terminated = False\<rparr>"

definition run_step :: "EffectStepKind \<Rightarrow> 'a effectRun_scheme \<Rightarrow> 'a effectRun_scheme" where
  "run_step k s = s\<lparr>run_demand := demand_plus (run_demand s) (effectStepDemand k),
     run_terminated := (k = EffectStepTerminal)\<rparr>"

definition run_trigger :: "string \<Rightarrow> 'a effectRun_scheme \<Rightarrow> 'a effectRun_scheme" where
  "run_trigger i s = s\<lparr>run_triggered := insert i (run_triggered s)\<rparr>"

definition run_conditional :: "string \<Rightarrow> 'a effectRun_scheme \<Rightarrow> 'a effectRun_scheme" where
  "run_conditional i s = s\<lparr>run_conditionals := insert i (run_conditionals s)\<rparr>"

definition run_leave_phase :: "'a effectRun_scheme \<Rightarrow> 'a effectRun_scheme" where
  "run_leave_phase s = s\<lparr>run_demand := demand_lower (run_demand s)\<rparr>"

lemmas run_defs = run_step_def run_trigger_def run_conditional_def run_leave_phase_def

inductive exec :: "EffectNode \<Rightarrow> effectRun \<Rightarrow> effectRun \<Rightarrow> bool"
  and exec_seq :: "EffectNode list \<Rightarrow> effectRun \<Rightarrow> effectRun \<Rightarrow> bool"
  and exec_rep :: "nat \<Rightarrow> EffectNode \<Rightarrow> effectRun \<Rightarrow> effectRun \<Rightarrow> bool"
  where
  exec_over: "run_terminated s \<Longrightarrow> exec n s s"
| exec_empty: "\<not> run_terminated s \<Longrightarrow> exec EffectNodeEmpty s s"
| exec_step: "\<not> run_terminated s \<Longrightarrow> exec (EffectNodeStep i k) s (run_step k s)"
| exec_sequence: "\<not> run_terminated s \<Longrightarrow> exec_seq cs s t \<Longrightarrow> exec (EffectNodeSequence cs) s t"
| exec_choice: "\<not> run_terminated s \<Longrightarrow> a < length cs \<Longrightarrow> exec (cs ! a) s t \<Longrightarrow>
    exec (EffectNodeChoice i cs) s t"
| exec_repeat: "\<not> run_terminated s \<Longrightarrow> exec_rep (nat n) c s t \<Longrightarrow> exec (EffectNodeRepeat n c) s t"
| exec_phase: "\<not> run_terminated s \<Longrightarrow> exec c s t \<Longrightarrow>
    exec (EffectNodeForwardPhase i c) s (run_leave_phase t)"
| exec_trigger: "\<not> run_terminated s \<Longrightarrow> i \<notin> run_conditionals s \<Longrightarrow> exec c (run_trigger i s) t \<Longrightarrow>
    exec (EffectNodeTrigger i c) s t"
| exec_skipped: "\<not> run_terminated s \<Longrightarrow> i \<notin> run_triggered s \<Longrightarrow>
    exec (EffectNodeConditional i c) s (run_conditional i s)"
| exec_followed: "\<not> run_terminated s \<Longrightarrow> i \<in> run_triggered s \<Longrightarrow> exec c (run_conditional i s) t \<Longrightarrow>
    exec (EffectNodeConditional i c) s t"
| exec_nil: "exec_seq [] s s"
| exec_cons: "exec c s t \<Longrightarrow> exec_seq cs t u \<Longrightarrow> exec_seq (c # cs) s u"
| exec_rep0: "exec_rep 0 c s s"
| exec_repS: "exec c s t \<Longrightarrow> exec_rep m c t u \<Longrightarrow> exec_rep (Suc m) c s u"

inductive_simps exec_empty_iff: "exec EffectNodeEmpty s t"
inductive_simps exec_step_iff: "exec (EffectNodeStep i k) s t"
inductive_simps exec_sequence_iff: "exec (EffectNodeSequence cs) s t"
inductive_simps exec_choice_iff: "exec (EffectNodeChoice i cs) s t"
inductive_simps exec_repeat_iff: "exec (EffectNodeRepeat n c) s t"
inductive_simps exec_phase_iff: "exec (EffectNodeForwardPhase i c) s t"
inductive_simps exec_trigger_iff: "exec (EffectNodeTrigger i c) s t"
inductive_simps exec_conditional_iff: "exec (EffectNodeConditional i c) s t"
inductive_simps exec_seq_Nil [simp]: "exec_seq [] s t"
inductive_simps exec_seq_Cons [simp]: "exec_seq (c # cs) s t"
inductive_simps exec_rep_0 [simp]: "exec_rep 0 c s t"
inductive_simps exec_rep_Suc [simp]: "exec_rep (Suc m) c s t"

lemmas exec_iff = exec_empty_iff exec_step_iff exec_sequence_iff exec_choice_iff exec_repeat_iff
  exec_phase_iff exec_trigger_iff exec_conditional_iff

text \<open>A run may end here: a terminal hand-off was consumed, or every triggered follow-up was
  reached.\<close>

definition run_complete :: "'a effectRun_scheme \<Rightarrow> bool" where
  "run_complete s \<longleftrightarrow> run_terminated s \<or> run_triggered s \<subseteq> run_conditionals s"

section \<open>Terminated runs\<close>

lemma exec_terminated [simp]: "run_terminated s \<Longrightarrow> exec n s t \<longleftrightarrow> t = s"
  by (auto intro: exec_over elim: exec.cases)

lemma exec_seq_terminated: "run_terminated s \<Longrightarrow> exec_seq cs s t \<longleftrightarrow> t = s"
  by (induction cs) auto

lemma exec_rep_terminated: "run_terminated s \<Longrightarrow> exec_rep m c s t \<longleftrightarrow> t = s"
  by (induction m) auto

section \<open>Charges\<close>

text \<open>Demands stay non-negative, and outside a forward phase no forward effect is left
  unlowered.\<close>

definition run_ok :: "bool \<Rightarrow> 'a effectRun_scheme \<Rightarrow> bool" where
  "run_ok inside s \<longleftrightarrow> demand_nonneg (run_demand s) \<and>
     (\<not> inside \<longrightarrow> forwardEffectCalls (run_demand s) = 0)"

lemma run_ok_initial [simp]: "run_ok inside initial_run"
  by (simp add: run_ok_def initial_run_def) (simp add: zero_demand_def)

lemma run_ok_step:
  "run_ok inside s \<Longrightarrow> (k = EffectStepForwardEffect \<longrightarrow> inside) \<Longrightarrow> run_ok inside (run_step k s)"
  by (cases k) (auto simp: run_ok_def run_step_def demand_simps)

lemma run_ok_marks [simp]:
  "run_ok inside (run_trigger i s) = run_ok inside s"
  "run_ok inside (run_conditional i s) = run_ok inside s"
  by (simp_all add: run_ok_def run_trigger_def run_conditional_def)

lemma run_demand_marks [simp]:
  "run_demand (run_trigger i s) = run_demand s"
  "run_demand (run_conditional i s) = run_demand s"
  "run_demand (run_leave_phase s) = demand_lower (run_demand s)"
  "run_demand (run_step k s) = demand_plus (run_demand s) (effectStepDemand k)"
  by (simp_all add: run_defs)

lemma run_ok_leave: "run_ok True s \<Longrightarrow> run_ok inside (run_leave_phase s)"
  by (auto simp: run_ok_def run_leave_phase_def lower_nonneg)

lemma exec_ok:
  shows "exec n s t \<Longrightarrow> node_shape inside n \<Longrightarrow> run_ok inside s \<Longrightarrow> run_ok inside t"
    and "exec_seq cs s t \<Longrightarrow> list_all (node_shape inside) cs \<Longrightarrow> run_ok inside s \<Longrightarrow> run_ok inside t"
    and "exec_rep m c s t \<Longrightarrow> node_shape inside c \<Longrightarrow> run_ok inside s \<Longrightarrow> run_ok inside t"
proof (induction arbitrary: inside and inside and inside rule: exec_exec_seq_exec_rep.inducts)
  case (exec_step s i k)
  then show ?case by (auto intro: run_ok_step)
next
  case (exec_choice s a cs t i)
  then show ?case by (auto simp: list_all_length)
next
  case (exec_phase s c t i)
  then have "run_ok True s" by (simp add: run_ok_def)
  with exec_phase have "run_ok True t" by simp
  then show ?case by (rule run_ok_leave)
qed auto

section \<open>The flat bound covers every execution\<close>

lemma demand_grows: "demand_nonneg d \<Longrightarrow> effectDemandDominates (demand_plus a d) a"
  using plus_mono[of a a d zero_demand] by simp

lemma dominates_extend:
  "effectDemandDominates (demand_plus b e) a \<Longrightarrow> effectDemandDominates (demand_plus a x) c \<Longrightarrow>
     effectDemandDominates (demand_plus b (demand_plus e x)) c"
  using plus_mono[of "demand_plus b e" a x x] by (auto simp: plus_assoc intro: dominates_trans)

lemma choice_bound:
  assumes "foldM (\<lambda>demand child. ebind (legacyUpperBoundDemand child)
      (\<lambda>childDemand. Inr (effectDemand_maximum demand childDemand))) e cs = Inr d"
  shows "effectDemandDominates d e \<and>
    (\<forall>c \<in> set cs. \<exists>x. legacyUpperBoundDemand c = Inr x \<and> effectDemandDominates d x)"
  using assms
proof (induction cs arbitrary: e)
  case Nil
  then show ?case by simp
next
  case (Cons c cs)
  then obtain x where x: "legacyUpperBoundDemand c = Inr x"
    and IH: "effectDemandDominates d (effectDemand_maximum e x) \<and>
      (\<forall>c \<in> set cs. \<exists>x. legacyUpperBoundDemand c = Inr x \<and> effectDemandDominates d x)"
    by auto
  with maximum_upper[where a = e and b = x] show ?case
    by (auto intro: dominates_trans)
qed

lemma exec_bounded:
  shows "exec n s t \<Longrightarrow> node_shape inside n \<Longrightarrow> run_ok inside s \<Longrightarrow>
      legacyUpperBoundDemand n = Inr d \<Longrightarrow>
      effectDemandDominates (demand_plus (run_demand s) d) (run_demand t)"
    and "exec_seq cs s t \<Longrightarrow> list_all (node_shape inside) cs \<Longrightarrow> run_ok inside s \<Longrightarrow>
      foldM (\<lambda>demand child. ebind (legacyUpperBoundDemand child) (effectDemand_add demand)) e cs = Inr d \<Longrightarrow>
      effectDemandDominates (demand_plus b e) (run_demand s) \<Longrightarrow>
      effectDemandDominates (demand_plus b d) (run_demand t)"
    and "exec_rep m c s t \<Longrightarrow> node_shape inside c \<Longrightarrow> run_ok inside s \<Longrightarrow>
      legacyUpperBoundDemand c = Inr d \<Longrightarrow>
      effectDemandDominates (demand_plus (run_demand s) (demand_scale (int m) d)) (run_demand t)"
proof (induction arbitrary: inside d and inside d b e and inside d rule: exec_exec_seq_exec_rep.inducts)
  case (exec_over s n)
  then show ?case by (auto intro: demand_grows legacy_nonneg)
next
  case (exec_sequence s cs t)
  then show ?case by (auto split: if_splits)
next
  case (exec_choice s a cs t i)
  then have mem: "cs ! a \<in> set cs" by simp
  with choice_bound[of zero_demand cs d] exec_choice.prems(3)
  obtain x where x: "legacyUpperBoundDemand (cs ! a) = Inr x" "effectDemandDominates d x" by auto
  have "node_shape inside (cs ! a)"
    using exec_choice.prems(1) mem by (simp add: list_all_iff)
  from exec_choice.IH[OF this exec_choice.prems(2) x(1)] plus_mono[OF dominates_refl x(2)]
  show ?case by (blast intro: dominates_trans)
next
  case (exec_repeat s n c t)
  then show ?case by (auto dest!: multiply_exact)
next
  case (exec_phase s c u i)
  then obtain e where e: "legacyUpperBoundDemand c = Inr e" "lower_forward_phase e = Inr d"
    and c: "\<not> inside" "node_shape True c" by auto
  with exec_phase.prems have ok: "run_ok True s" and fwd: "forwardEffectCalls (run_demand s) = 0"
    by (auto simp: run_ok_def)
  have "effectDemandDominates (demand_plus (run_demand s) e) (run_demand u)"
    using exec_phase.IH c(2) ok e(1) by blast
  moreover have "demand_nonneg (run_demand u)"
    using exec_ok(1)[OF exec_phase.hyps(2) c(2) ok] by (simp add: run_ok_def)
  ultimately show ?case
    using lower_mono[of "run_demand u" "demand_plus (run_demand s) e"] fwd lower_exact[OF e(2)]
    by (simp add: lower_plus)
next
  case (exec_skipped s i c)
  then show ?case by (auto intro: demand_grows legacy_nonneg[of inside c])
next
  case (exec_followed s i c t)
  then show ?case by (metis legacyUpperBoundDemand.simps(8) node_shape.simps(8) run_demand_marks(2) run_ok_marks(2))
next
  case (exec_trigger s i c t)
  then show ?case by (metis legacyUpperBoundDemand.simps(7) node_shape.simps(7) run_demand_marks(1) run_ok_marks(1))
next
  case (exec_cons c s t cs u)
  then obtain x f where x: "legacyUpperBoundDemand c = Inr x" and f: "effectDemand_add e x = Inr f"
    and rest: "foldM (\<lambda>demand child. ebind (legacyUpperBoundDemand child) (effectDemand_add demand)) f cs = Inr d"
    by auto
  have c: "node_shape inside c" "list_all (node_shape inside) cs" using exec_cons.prems(1) by simp_all
  from exec_cons.IH(1)[OF c(1) exec_cons.prems(2) x] exec_cons.prems(4)
  have "effectDemandDominates (demand_plus b f) (run_demand t)"
    using add_exact[OF f] dominates_extend by blast
  with exec_cons.IH(2)[OF c(2) exec_ok(1)[OF exec_cons.hyps(1) c(1) exec_cons.prems(2)] rest]
  show ?case by blast
next
  case (exec_repS c s t m u)
  have "effectDemandDominates (demand_plus (run_demand s) d) (run_demand t)"
    using exec_repS.IH(1) exec_repS.prems by blast
  moreover have "effectDemandDominates (demand_plus (run_demand t) (demand_scale (int m) d)) (run_demand u)"
    using exec_repS.IH(2) exec_repS.prems exec_ok(1)[OF exec_repS.hyps(1)] by blast
  ultimately show ?case unfolding scale_Suc by (rule dominates_extend)
qed auto

end
