(* ===== verification/Frontier.thy ===== *)
theory Frontier
  imports Prelude
begin

text \<open>
  Keeping a nondominated frontier: the candidate loop that the demand analysis runs after every
  advance. An element is compared only with elements that carry the same marks; a candidate
  dominated by a kept element is dropped, kept elements that the candidate dominates are removed.
\<close>

text \<open>The inner loop over the kept elements: whether the candidate is dominated, and what is left
  of the kept elements.\<close>

fun prune_scan :: "('a \<Rightarrow> 'a \<Rightarrow> bool) \<Rightarrow> ('a \<Rightarrow> 'a \<Rightarrow> bool) \<Rightarrow> 'a \<Rightarrow> 'a list \<Rightarrow> bool \<times> 'a list" where
  "prune_scan same beats candidate [] = (False, [])"
| "prune_scan same beats candidate (existing # rest) =
     (if \<not> same candidate existing then
        (case prune_scan same beats candidate rest of (d, r) \<Rightarrow> (d, existing # r))
      else if beats existing candidate then (True, existing # rest)
      else if beats candidate existing then prune_scan same beats candidate rest
      else (case prune_scan same beats candidate rest of (d, r) \<Rightarrow> (d, existing # r)))"

definition prune_step ::
  "('a \<Rightarrow> 'a \<Rightarrow> bool) \<Rightarrow> ('a \<Rightarrow> 'a \<Rightarrow> bool) \<Rightarrow> nat \<Rightarrow> 'e \<Rightarrow> 'a list \<Rightarrow> 'a \<Rightarrow> 'e + 'a list" where
  "prune_step same beats limit overflow result candidate =
     (case prune_scan same beats candidate result of (dominated, kept) \<Rightarrow>
        if dominated then Inr kept
        else if length (kept @ [candidate]) > limit then Inl overflow
        else Inr (kept @ [candidate]))"

definition prune_frontier ::
  "('a \<Rightarrow> 'a \<Rightarrow> bool) \<Rightarrow> ('a \<Rightarrow> 'a \<Rightarrow> bool) \<Rightarrow> nat \<Rightarrow> 'e \<Rightarrow> 'a list \<Rightarrow> 'e + 'a list" where
  "prune_frontier same beats limit overflow xs = foldM (prune_step same beats limit overflow) [] xs"

text \<open>What the loop needs of the two relations.\<close>

locale frontier_order =
  fixes same :: "'a \<Rightarrow> 'a \<Rightarrow> bool"
    and beats :: "'a \<Rightarrow> 'a \<Rightarrow> bool"
  assumes same_refl: "same x x"
    and same_sym: "same x y \<Longrightarrow> same y x"
    and same_trans: "same x y \<Longrightarrow> same y z \<Longrightarrow> same x z"
    and dom_refl: "beats x x"
    and dom_trans: "beats x y \<Longrightarrow> beats y z \<Longrightarrow> beats x z"
begin

text \<open>An element is covered by a list that has an element of the same marks dominating it.\<close>

lemma scan_subset: "prune_scan same beats c xs = (d, ys) \<Longrightarrow> set ys \<subseteq> set xs"
  by (induction xs arbitrary: ys) (auto split: if_splits prod.splits)

lemma scan_dominated:
  "prune_scan same beats c xs = (True, ys) \<Longrightarrow> \<exists>y \<in> set ys. same y c \<and> beats y c"
  by (induction xs arbitrary: ys) (auto split: if_splits prod.splits intro: same_sym)

lemma scan_covers:
  assumes "prune_scan same beats c xs = (d, ys)" and "x \<in> set xs"
  shows "(\<exists>y \<in> set ys. same y x \<and> beats y x) \<or> same c x \<and> beats c x"
  using assms
  by (induction xs arbitrary: ys d) (auto split: if_splits prod.splits intro: same_refl dom_refl)

definition unrelated :: "'a \<Rightarrow> 'a \<Rightarrow> bool" where
  "unrelated x y \<longleftrightarrow> \<not> (same x y \<and> (beats x y \<or> beats y x))"

lemma scan_unrelated:
  assumes "prune_scan same beats c xs = (d, ys)" and "sorted_wrt unrelated xs"
  shows "sorted_wrt unrelated ys"
  using assms
proof (induction xs arbitrary: ys d)
  case Nil
  then show ?case by simp
next
  case (Cons x xs)
  obtain d' r where r: "prune_scan same beats c xs = (d', r)" by fastforce
  from r Cons have "sorted_wrt unrelated r" by simp
  moreover have "set r \<subseteq> set xs" using r by (rule scan_subset)
  moreover from this Cons.prems(2) have "\<forall>y \<in> set r. unrelated x y" by auto
  ultimately show ?case using Cons.prems r by (auto split: if_splits)
qed

lemma scan_kept_unrelated:
  "prune_scan same beats c xs = (False, ys) \<Longrightarrow> y \<in> set ys \<Longrightarrow> unrelated y c"
  by (induction xs arbitrary: ys) (auto simp: unrelated_def split: if_splits prod.splits intro: same_sym)

lemma step_covers:
  assumes "prune_step same beats l e r c = Inr r'" and "x \<in> insert c (set r)"
  shows "\<exists>y \<in> set r'. same y x \<and> beats y x"
proof -
  obtain d k where k: "prune_scan same beats c r = (d, k)" by fastforce
  have c: "\<exists>y \<in> set r'. same y c \<and> beats y c"
    using assms(1) k scan_dominated[of c r k]
    by (auto simp: prune_step_def split: if_splits intro: same_refl dom_refl)
  have k_sub: "set k \<subseteq> set r'"
    using assms(1) k by (auto simp: prune_step_def split: if_splits)
  show ?thesis
  proof (cases "x = c")
    case False
    with assms(2) have "x \<in> set r" by simp
    from scan_covers[OF k this] c k_sub show ?thesis
      by (meson dom_trans same_trans subsetD)
  qed (use c in simp)
qed

lemma frontier_covers:
  assumes "prune_frontier same beats l e xs = Inr ys" and "x \<in> set xs"
  shows "\<exists>y \<in> set ys. same y x \<and> beats y x"
proof -
  have gen: "foldM (prune_step same beats l e) r xs = Inr ys \<Longrightarrow> x \<in> set r \<union> set xs \<Longrightarrow>
      \<exists>y \<in> set ys. same y x \<and> beats y x" for r x
  proof (induction xs arbitrary: r x)
    case Nil
    then show ?case by (auto intro: same_refl dom_refl)
  next
    case (Cons c xs)
    then obtain r' where r': "prune_step same beats l e r c = Inr r'"
      and rest: "foldM (prune_step same beats l e) r' xs = Inr ys" by auto
    show ?case
    proof (cases "x \<in> set xs")
      case True
      with Cons.IH[OF rest] show ?thesis by blast
    next
      case False
      with Cons.prems step_covers[OF r', of x] obtain z where "z \<in> set r'" "same z x" "beats z x" by auto
      with Cons.IH[OF rest, of z] show ?thesis by (meson UnI1 dom_trans same_trans)
    qed
  qed
  from gen[of "[]"] assms show ?thesis by (auto simp: prune_frontier_def)
qed

lemma frontier_subset:
  assumes "prune_frontier same beats l e xs = Inr ys"
  shows "set ys \<subseteq> set xs"
proof -
  have step: "set d \<subseteq> set xs" if "x \<in> set xs" "set c \<subseteq> set xs" "prune_step same beats l e c x = Inr d" for c x d
  proof -
    obtain b k where k: "prune_scan same beats x c = (b, k)" by fastforce
    from scan_subset[OF k] that k show ?thesis
      by (auto simp: prune_step_def split: if_splits)
  qed
  show ?thesis
    by (rule foldM_invariant[OF assms[unfolded prune_frontier_def], where P = "\<lambda>r. set r \<subseteq> set xs"])
      (simp_all add: step)
qed

lemma frontier_unrelated:
  assumes "prune_frontier same beats l e xs = Inr ys"
  shows "sorted_wrt unrelated ys"
proof -
  have step: "sorted_wrt unrelated d" if "sorted_wrt unrelated c" "prune_step same beats l e c x = Inr d" for c x d
  proof -
    obtain b k where k: "prune_scan same beats x c = (b, k)" by fastforce
    from scan_unrelated[OF k that(1)] that(2) k scan_kept_unrelated[of x c k] show ?thesis
      by (cases b) (auto simp: prune_step_def sorted_wrt_append split: if_splits)
  qed
  show ?thesis
    by (rule foldM_invariant[OF assms[unfolded prune_frontier_def], where P = "sorted_wrt unrelated"])
      (simp_all add: step)
qed

lemma frontier_bounded:
  assumes "prune_frontier same beats l e xs = Inr ys"
  shows "length ys \<le> l"
proof -
  have len: "prune_scan same beats x c = (b, k) \<Longrightarrow> length k \<le> length c" for x c b k
    by (induction c arbitrary: k b) (auto split: if_splits prod.splits intro: le_SucI)
  have step: "length d \<le> l" if "length c \<le> l" "prune_step same beats l e c x = Inr d" for c x d
  proof -
    obtain b k where k: "prune_scan same beats x c = (b, k)" by fastforce
    from len[OF k] that k show ?thesis by (auto simp: prune_step_def split: if_splits)
  qed
  show ?thesis
    by (rule foldM_invariant[OF assms[unfolded prune_frontier_def], where P = "\<lambda>r. length r \<le> l"])
      (simp_all add: step)
qed

end

end
