(* ===== verification/EffectAlternatives.thy ===== *)
theory EffectAlternatives
  imports EffectSemantics Frontier
begin

text \<open>
  The demand analysis of \<^verbatim>\<open>internal/operationplan/effect_alternatives.go\<close>: a set of
  alternatives (demand, two 64-bit mark words, a terminated flag) is advanced through an effect
  structure and kept as a nondominated frontier. Each alternative is read back as a run of
  \<^verbatim>\<open>EffectSemantics\<close>; \<open>advances\<close> states that an advance neither loses the
  maximal executions of a node nor invents one, and it is proved for every node by structural
  induction.
\<close>

unbundle bit_operations_syntax

section \<open>Alternatives\<close>

definition maximumEffectDemandAlternatives :: nat where
  "maximumEffectDemandAlternatives = 4096"

definition maximumEffectTriggerRelations :: nat where
  "maximumEffectTriggerRelations = 64"

definition maximumEffectRepeatIterations :: int where
  "maximumEffectRepeatIterations = 4096"

record effectDemandAlternative =
  alt_demand :: effectDemand
  alt_triggered :: "64 word"
  alt_conditionals :: "64 word"
  alt_terminated :: bool

type_synonym alternatives = "effectDemandAlternative list"
type_synonym trigger_bits = "(string, nat) gomap"

definition zero_alternative :: effectDemandAlternative where
  "zero_alternative = \<lparr>alt_demand = zero_demand, alt_triggered = 0, alt_conditionals = 0,
     alt_terminated = False\<rparr>"

definition same_marks :: "effectDemandAlternative \<Rightarrow> effectDemandAlternative \<Rightarrow> bool" where
  "same_marks a b \<longleftrightarrow> alt_triggered a = alt_triggered b \<and>
     alt_conditionals a = alt_conditionals b \<and> alt_terminated a = alt_terminated b"

definition alternative_dominates :: "effectDemandAlternative \<Rightarrow> effectDemandAlternative \<Rightarrow> bool" where
  "alternative_dominates a b \<longleftrightarrow> effectDemandDominates (alt_demand a) (alt_demand b)"

definition pruneEffectDemandAlternatives :: "alternatives \<Rightarrow> effectError + alternatives" where
  "pruneEffectDemandAlternatives alternatives =
     prune_frontier same_marks alternative_dominates maximumEffectDemandAlternatives
       EffectAlternativesLimit alternatives"

definition partitionEffectDemandAlternatives :: "alternatives \<Rightarrow> alternatives \<times> alternatives" where
  "partitionEffectDemandAlternatives input =
     (filter (\<lambda>a. \<not> alt_terminated a) input, filter alt_terminated input)"

section \<open>Trigger bits and static node classes\<close>

fun collectEffectTriggerIDs :: "EffectNode \<Rightarrow> string list \<Rightarrow> string list" where
  "collectEffectTriggerIDs EffectNodeEmpty result = result"
| "collectEffectTriggerIDs (EffectNodeStep i k) result = result"
| "collectEffectTriggerIDs (EffectNodeSequence cs) result = fold collectEffectTriggerIDs cs result"
| "collectEffectTriggerIDs (EffectNodeChoice i cs) result = fold collectEffectTriggerIDs cs result"
| "collectEffectTriggerIDs (EffectNodeRepeat n c) result = collectEffectTriggerIDs c result"
| "collectEffectTriggerIDs (EffectNodeForwardPhase i c) result = collectEffectTriggerIDs c result"
| "collectEffectTriggerIDs (EffectNodeTrigger i c) result =
     collectEffectTriggerIDs c (List.insert i result)"
| "collectEffectTriggerIDs (EffectNodeConditional i c) result =
     collectEffectTriggerIDs c (List.insert i result)"

definition effectTriggerBits :: "EffectNode \<Rightarrow> effectError + trigger_bits" where
  "effectTriggerBits node =
     (let ids = collectEffectTriggerIDs node [] in
      if length ids > maximumEffectTriggerRelations then Inl (EffectTriggerLimit (length ids))
      else Inr (zip (sort ids) [0..<length ids]))"

fun deterministicEffectNode :: "EffectNode \<Rightarrow> bool" where
  "deterministicEffectNode EffectNodeEmpty = True"
| "deterministicEffectNode (EffectNodeStep i k) = True"
| "deterministicEffectNode (EffectNodeSequence cs) = list_all deterministicEffectNode cs"
| "deterministicEffectNode (EffectNodeChoice i cs) = False"
| "deterministicEffectNode (EffectNodeRepeat n c) = deterministicEffectNode c"
| "deterministicEffectNode (EffectNodeForwardPhase i c) = deterministicEffectNode c"
| "deterministicEffectNode (EffectNodeTrigger i c) = False"
| "deterministicEffectNode (EffectNodeConditional i c) = False"

fun effectNodeContainsTerminal :: "EffectNode \<Rightarrow> bool" where
  "effectNodeContainsTerminal EffectNodeEmpty = False"
| "effectNodeContainsTerminal (EffectNodeStep i k) = (k = EffectStepTerminal)"
| "effectNodeContainsTerminal (EffectNodeSequence cs) = list_ex effectNodeContainsTerminal cs"
| "effectNodeContainsTerminal (EffectNodeChoice i cs) = list_ex effectNodeContainsTerminal cs"
| "effectNodeContainsTerminal (EffectNodeRepeat n c) = effectNodeContainsTerminal c"
| "effectNodeContainsTerminal (EffectNodeForwardPhase i c) = effectNodeContainsTerminal c"
| "effectNodeContainsTerminal (EffectNodeTrigger i c) = effectNodeContainsTerminal c"
| "effectNodeContainsTerminal (EffectNodeConditional i c) = effectNodeContainsTerminal c"

definition trigger_bit :: "trigger_bits \<Rightarrow> string \<Rightarrow> 64 word" where
  "trigger_bit triggerBits i = push_bit (go_get 0 triggerBits i) 1"

section \<open>Advancing\<close>

definition add_to_alternative ::
  "effectDemand \<Rightarrow> effectDemandAlternative \<Rightarrow> effectError + effectDemandAlternative" where
  "add_to_alternative delta a =
     ebind (effectDemand_add (alt_demand a) delta) (\<lambda>d. Inr (a\<lparr>alt_demand := d\<rparr>))"

definition advance_step ::
  "EffectStepKind \<Rightarrow> effectDemandAlternative \<Rightarrow> effectError + effectDemandAlternative" where
  "advance_step k a =
     ebind (add_to_alternative (effectStepDemand k) a) (\<lambda>b.
       Inr (if k = EffectStepTerminal then b\<lparr>alt_terminated := True\<rparr> else b))"

definition advance_leave_phase ::
  "effectDemandAlternative \<Rightarrow> effectError + effectDemandAlternative" where
  "advance_leave_phase a =
     ebind (lower_forward_phase (alt_demand a)) (\<lambda>d. Inr (a\<lparr>alt_demand := d\<rparr>))"

text \<open>\<open>advance_with step\<close> is \<open>advanceEffectDemandAlternatives\<close> with the active advance of
  one node as its argument.\<close>

definition advance_with ::
  "(alternatives \<Rightarrow> effectError + alternatives) \<Rightarrow> alternatives \<Rightarrow> effectError + alternatives" where
  "advance_with step input =
     (case partitionEffectDemandAlternatives input of (active, terminated) \<Rightarrow>
        if active = [] then Inr input
        else ebind (step active) (\<lambda>advanced. pruneEffectDemandAlternatives (advanced @ terminated)))"

lemma advance_with_cong [fundef_cong]:
  "input = input' \<Longrightarrow> (\<And>xs. f xs = g xs) \<Longrightarrow> advance_with f input = advance_with g input'"
  by (metis ext)

lemma iterM_cong [fundef_cong]:
  "n = m \<Longrightarrow> a = b \<Longrightarrow> (\<And>x. f x = g x) \<Longrightarrow> iterM n f a = iterM m g b"
  by (metis ext)

text \<open>The loop body of the conditional node: mark the alternative, and advance it through the
  follow-up when its trigger fired.\<close>

definition advance_conditional ::
  "64 word \<Rightarrow> (alternatives \<Rightarrow> effectError + alternatives) \<Rightarrow> alternatives \<Rightarrow> effectDemandAlternative \<Rightarrow>
     effectError + alternatives" where
  "advance_conditional b advance result a =
     (let a' = a\<lparr>alt_conditionals := alt_conditionals a OR b\<rparr> in
      if alt_triggered a' AND b = 0 then Inr (result @ [a'])
      else ebind (advance [a']) (\<lambda>childAlternatives. Inr (result @ childAlternatives)))"

lemma advance_conditional_cong [fundef_cong]:
  "b = b' \<Longrightarrow> result = result' \<Longrightarrow> a = a' \<Longrightarrow> (\<And>xs. f xs = g xs) \<Longrightarrow>
     advance_conditional b f result a = advance_conditional b' g result' a'"
  by (metis ext)

fun advanceActiveEffectDemandAlternatives ::
  "EffectNode \<Rightarrow> trigger_bits \<Rightarrow> alternatives \<Rightarrow> effectError + alternatives" where
  "advanceActiveEffectDemandAlternatives EffectNodeEmpty triggerBits input = Inr input"
| "advanceActiveEffectDemandAlternatives (EffectNodeStep i k) triggerBits input =
     ebind (mapM (advance_step k) input) pruneEffectDemandAlternatives"
| "advanceActiveEffectDemandAlternatives (EffectNodeSequence cs) triggerBits input =
     foldM (\<lambda>result child.
              advance_with (advanceActiveEffectDemandAlternatives child triggerBits) result)
       input cs"
| "advanceActiveEffectDemandAlternatives (EffectNodeChoice i cs) triggerBits input =
     foldM (\<lambda>result child.
              ebind (advance_with (advanceActiveEffectDemandAlternatives child triggerBits) input)
                (\<lambda>childAlternatives. pruneEffectDemandAlternatives (result @ childAlternatives)))
       [] cs"
| "advanceActiveEffectDemandAlternatives (EffectNodeRepeat n c) triggerBits input =
     (if deterministicEffectNode c then
        if effectNodeContainsTerminal c then
          advance_with (advanceActiveEffectDemandAlternatives c triggerBits) input
        else
          ebind (legacyUpperBoundDemand c) (\<lambda>d.
          ebind (effectDemand_multiply d n) (\<lambda>delta.
          ebind (mapM (add_to_alternative delta) input) pruneEffectDemandAlternatives))
      else if n > maximumEffectRepeatIterations then Inl (EffectRepeatLimit n)
      else iterM (nat n) (\<lambda>result.
             advance_with (advanceActiveEffectDemandAlternatives c triggerBits) result) input)"
| "advanceActiveEffectDemandAlternatives (EffectNodeForwardPhase i c) triggerBits input =
     ebind (advance_with (advanceActiveEffectDemandAlternatives c triggerBits) input) (\<lambda>result.
     ebind (mapM advance_leave_phase result) pruneEffectDemandAlternatives)"
| "advanceActiveEffectDemandAlternatives (EffectNodeTrigger i c) triggerBits input =
     (let b = trigger_bit triggerBits i;
          triggered = map (\<lambda>a. a\<lparr>alt_triggered := alt_triggered a OR b\<rparr>)
            (filter (\<lambda>a. alt_conditionals a AND b = 0) input) in
      if triggered = [] then Inr []
      else advance_with (advanceActiveEffectDemandAlternatives c triggerBits) triggered)"
| "advanceActiveEffectDemandAlternatives (EffectNodeConditional i c) triggerBits input =
     (let b = trigger_bit triggerBits i in
      ebind (foldM (advance_conditional b
               (\<lambda>one. advance_with (advanceActiveEffectDemandAlternatives c triggerBits) one)) [] input)
        pruneEffectDemandAlternatives)"

definition advanceEffectDemandAlternatives ::
  "EffectNode \<Rightarrow> trigger_bits \<Rightarrow> alternatives \<Rightarrow> effectError + alternatives" where
  "advanceEffectDemandAlternatives node triggerBits input =
     advance_with (advanceActiveEffectDemandAlternatives node triggerBits) input"

section \<open>The frontier of a structure\<close>

fun values_less :: "int list \<Rightarrow> int list \<Rightarrow> bool" where
  "values_less (x # xs) (y # ys) = (if x \<noteq> y then x < y else values_less xs ys)"
| "values_less _ _ = False"

definition effectDemandLess :: "effectDemand \<Rightarrow> effectDemand \<Rightarrow> bool" where
  "effectDemandLess left right =
     values_less
       [ensureCalls left, barrierValidationCalls left, stateDirValidationCalls left,
        descendantBindings left, descendantValidations left, descendantFileCommits left]
       [ensureCalls right, barrierValidationCalls right, stateDirValidationCalls right,
        descendantBindings right, descendantValidations right, descendantFileCommits right]"

definition reachable_alternatives :: "alternatives \<Rightarrow> effectError + alternatives" where
  "reachable_alternatives alternatives =
     foldM (\<lambda>reachable a.
              if forwardEffectCalls (alt_demand a) \<noteq> 0 then Inl EffectUnloweredForward
              else if \<not> alt_terminated a \<and> alt_triggered a AND NOT (alt_conditionals a) \<noteq> 0
              then Inr reachable
              else Inr (reachable @ [a\<lparr>alt_triggered := 0, alt_conditionals := 0, alt_terminated := False\<rparr>]))
       [] alternatives"

definition DemandAlternatives :: "EffectStructure \<Rightarrow> effectError + Demand list" where
  "DemandAlternatives structure =
     ebind (effectTriggerBits (root structure)) (\<lambda>triggerBits.
     ebind (advanceEffectDemandAlternatives (root structure) triggerBits [zero_alternative]) (\<lambda>alternatives.
     ebind (reachable_alternatives alternatives) (\<lambda>reachable.
       if reachable = [] then Inl EffectNoReachableAlternative
       else ebind (pruneEffectDemandAlternatives reachable) (\<lambda>frontier.
         Inr (map (\<lambda>a. public_demand (alt_demand a))
                (sort_slice (\<lambda>a b. effectDemandLess (alt_demand a) (alt_demand b)) frontier))))))"

section \<open>Alternatives as runs\<close>

interpretation demand_frontier: frontier_order same_marks alternative_dominates
  by unfold_locales (auto simp: same_marks_def alternative_dominates_def intro: dominates_trans)

definition marked :: "trigger_bits \<Rightarrow> 64 word \<Rightarrow> string set" where
  "marked tb w = {i \<in> set (go_keys tb). bit w (go_get 0 tb i)}"

definition alt_run :: "trigger_bits \<Rightarrow> effectDemandAlternative \<Rightarrow> effectRun" where
  "alt_run tb a = \<lparr>run_demand = alt_demand a, run_triggered = marked tb (alt_triggered a),
     run_conditionals = marked tb (alt_conditionals a), run_terminated = alt_terminated a\<rparr>"

text \<open>Distinct relations have distinct bits below the word width.\<close>

definition bits_ok :: "trigger_bits \<Rightarrow> bool" where
  "bits_ok tb \<longleftrightarrow> inj_on (go_get 0 tb) (set (go_keys tb)) \<and> (\<forall>i \<in> set (go_keys tb). go_get 0 tb i < 64)"

definition alt_good :: "trigger_bits \<Rightarrow> bool \<Rightarrow> effectDemandAlternative \<Rightarrow> bool" where
  "alt_good tb inside a \<longleftrightarrow> run_ok inside (alt_run tb a) \<and>
     (\<forall>k. bit (alt_triggered a) k \<longrightarrow> k \<in> go_get 0 tb ` set (go_keys tb))"

lemma alt_run_sel [simp]:
  "run_demand (alt_run tb a) = alt_demand a"
  "run_triggered (alt_run tb a) = marked tb (alt_triggered a)"
  "run_conditionals (alt_run tb a) = marked tb (alt_conditionals a)"
  "run_terminated (alt_run tb a) = alt_terminated a"
  by (simp_all add: alt_run_def)

lemma word_zero_iff: "(w :: 64 word) = 0 \<longleftrightarrow> (\<forall>k. \<not> bit w k)"
  by (metis bit_0_eq bot_apply bot_bool_def bit_eqI)

lemma bit64_lt: "bit (w :: 64 word) k \<Longrightarrow> k < 64"
  by (drule bit_imp_le_length) simp

lemma bit_trigger_bit:
  "bits_ok tb \<Longrightarrow> i \<in> set (go_keys tb) \<Longrightarrow> bit (trigger_bit tb i) k \<longleftrightarrow> k = go_get 0 tb i"
  unfolding trigger_bit_def bits_ok_def by (auto simp del: push_bit_of_1 simp: bit_push_bit_iff bit_1_iff)

lemma marked_or:
  "bits_ok tb \<Longrightarrow> i \<in> set (go_keys tb) \<Longrightarrow> marked tb (w OR trigger_bit tb i) = insert i (marked tb w)"
  by (auto simp: marked_def bit_or_iff bit_trigger_bit bits_ok_def dest: inj_onD simp del: set_map)

lemma marked_test:
  assumes "bits_ok tb" and "i \<in> set (go_keys tb)"
  shows "w AND trigger_bit tb i = 0 \<longleftrightarrow> i \<notin> marked tb w"
proof -
  have "w AND trigger_bit tb i = 0 \<longleftrightarrow> (\<forall>k. \<not> (bit w k \<and> k = go_get 0 tb i))"
    by (simp add: word_zero_iff bit_and_iff bit_trigger_bit[OF assms])
  with assms(2) show ?thesis by (auto simp: marked_def)
qed

lemma marked_diff:
  assumes "\<forall>k. bit w k \<longrightarrow> k \<in> go_get 0 tb ` set (go_keys tb)"
  shows "w AND NOT v = 0 \<longleftrightarrow> marked tb w \<subseteq> marked tb v"
proof -
  have "w AND NOT v = 0 \<longleftrightarrow> (\<forall>k. bit w k \<longrightarrow> bit v k)"
    by (auto simp: word_zero_iff bit_and_iff bit_not_iff dest: bit64_lt)
  with assms show ?thesis unfolding marked_def by blast
qed

lemma alt_run_trigger:
  assumes "bits_ok tb" and "i \<in> set (go_keys tb)"
  shows "alt_run tb (a\<lparr>alt_triggered := alt_triggered a OR trigger_bit tb i\<rparr>) = run_trigger i (alt_run tb a)"
    and "alt_run tb (a\<lparr>alt_conditionals := alt_conditionals a OR trigger_bit tb i\<rparr>) = run_conditional i (alt_run tb a)"
  using assms by (simp_all add: alt_run_def run_defs marked_or)

lemma alt_good_trigger:
  assumes "bits_ok tb" and "i \<in> set (go_keys tb)" and "alt_good tb inside a"
  shows "alt_good tb inside (a\<lparr>alt_triggered := alt_triggered a OR trigger_bit tb i\<rparr>)"
    and "alt_good tb inside (a\<lparr>alt_conditionals := alt_conditionals a OR trigger_bit tb i\<rparr>)"
  using assms by (auto simp: alt_good_def alt_run_trigger bit_or_iff bit_trigger_bit simp del: set_map)

text \<open>A run below another: the same marks, and no more demand.\<close>

definition run_le :: "effectRun \<Rightarrow> effectRun \<Rightarrow> bool" where
  "run_le s t \<longleftrightarrow> run_triggered s = run_triggered t \<and> run_conditionals s = run_conditionals t \<and>
     run_terminated s = run_terminated t \<and> effectDemandDominates (run_demand t) (run_demand s)"

lemma run_le_refl [simp]: "run_le s s"
  by (simp add: run_le_def)

lemma run_le_trans: "run_le s t \<Longrightarrow> run_le t u \<Longrightarrow> run_le s u"
  by (auto simp: run_le_def intro: dominates_trans)

lemma run_le_steps:
  assumes "run_le s t"
  shows "run_le (run_step k s) (run_step k t)"
    and "run_le (run_trigger i s) (run_trigger i t)"
    and "run_le (run_conditional i s) (run_conditional i t)"
  using assms by (simp_all add: run_le_def run_defs plus_mono)

lemma run_le_leave: "run_ok True s \<Longrightarrow> run_le s t \<Longrightarrow> run_le (run_leave_phase s) (run_leave_phase t)"
  by (simp add: run_le_def run_defs run_ok_def lower_mono)

lemma exec_mono:
  shows "exec n s t \<Longrightarrow> node_shape inside n \<Longrightarrow> run_ok inside s \<Longrightarrow> run_le s s' \<Longrightarrow>
      \<exists>t'. exec n s' t' \<and> run_le t t'"
    and "exec_seq cs s t \<Longrightarrow> list_all (node_shape inside) cs \<Longrightarrow> run_ok inside s \<Longrightarrow> run_le s s' \<Longrightarrow>
      \<exists>t'. exec_seq cs s' t' \<and> run_le t t'"
    and "exec_rep m c s t \<Longrightarrow> node_shape inside c \<Longrightarrow> run_ok inside s \<Longrightarrow> run_le s s' \<Longrightarrow>
      \<exists>t'. exec_rep m c s' t' \<and> run_le t t'"
proof (induction arbitrary: inside s' and inside s' and inside s' rule: exec_exec_seq_exec_rep.inducts)
  case (exec_over s n)
  then show ?case by (auto simp: run_le_def)
next
  case (exec_empty s)
  then show ?case by (auto simp: exec_iff run_le_def)
next
  case (exec_step s i k)
  then have "\<not> run_terminated s'" by (simp add: run_le_def)
  with exec_step show ?case by (auto simp: exec_iff intro: run_le_steps)
next
  case (exec_sequence s cs t)
  then have "\<not> run_terminated s'" by (simp add: run_le_def)
  with exec_sequence show ?case by (auto simp: exec_iff)
next
  case (exec_choice s a cs t i)
  then have "\<not> run_terminated s'" by (simp add: run_le_def)
  moreover obtain t' where "exec (cs ! a) s' t'" "run_le t t'"
    using exec_choice.IH[of inside s'] exec_choice.prems exec_choice.hyps(2)
    by (auto simp: list_all_length)
  ultimately show ?case using exec_choice.hyps(2) by (auto simp: exec_iff)
next
  case (exec_repeat s n c t)
  then have "\<not> run_terminated s'" by (simp add: run_le_def)
  with exec_repeat show ?case by (auto simp: exec_iff)
next
  case (exec_phase s c t i)
  then have ok: "run_ok True s" by (simp add: run_ok_def)
  with exec_phase obtain t' where t': "exec c s' t'" "run_le t t'" by auto
  have "run_ok True t" using exec_ok(1)[OF exec_phase.hyps(2) _ ok] exec_phase.prems by simp
  from run_le_leave[OF this t'(2)] t' exec_phase show ?case
    by (auto simp: exec_iff run_le_def)
next
  case (exec_trigger s i c t)
  then obtain t' where "exec c (run_trigger i s') t'" "run_le t t'"
    using run_le_steps(2)[of s s' i] by fastforce
  with exec_trigger show ?case by (auto simp: exec_iff run_le_def)
next
  case (exec_skipped s i c)
  then show ?case using run_le_steps(3)[of s s' i] by (auto simp: exec_iff run_le_def)
next
  case (exec_followed s i c t)
  then obtain t' where "exec c (run_conditional i s') t'" "run_le t t'"
    using run_le_steps(3)[of s s' i] by fastforce
  with exec_followed show ?case by (auto simp: exec_iff run_le_def)
next
  case (exec_cons c s t cs u)
  then obtain t' where t': "exec c s' t'" "run_le t t'" by fastforce
  have "run_ok inside t" using exec_ok(1)[OF exec_cons.hyps(1)] exec_cons.prems by simp
  with exec_cons t' show ?case by fastforce
next
  case (exec_repS c s t m u)
  then obtain t' where t': "exec c s' t'" "run_le t t'" by fastforce
  have "run_ok inside t" using exec_ok(1)[OF exec_repS.hyps(1)] exec_repS.prems by simp
  with exec_repS t' show ?case by fastforce
qed auto

section \<open>Advancing tracks executions\<close>

text \<open>The output tracks a transition of the runs of the input when every transition is covered by
  an output, and every output is reached by a transition.\<close>

definition tracks :: "trigger_bits \<Rightarrow> bool \<Rightarrow> alternatives \<Rightarrow> (effectRun \<Rightarrow> effectRun \<Rightarrow> bool) \<Rightarrow>
    alternatives \<Rightarrow> bool" where
  "tracks tb inside input R out \<longleftrightarrow>
     (\<forall>a \<in> set input. \<forall>t. R (alt_run tb a) t \<longrightarrow> (\<exists>b \<in> set out. run_le t (alt_run tb b))) \<and>
     (\<forall>b \<in> set out. alt_good tb inside b \<and> (\<exists>a \<in> set input. R (alt_run tb a) (alt_run tb b)))"

lemma tracksI:
  assumes "\<And>a t. a \<in> set input \<Longrightarrow> R (alt_run tb a) t \<Longrightarrow> \<exists>b \<in> set out. run_le t (alt_run tb b)"
    and "\<And>b. b \<in> set out \<Longrightarrow> alt_good tb inside b \<and> (\<exists>a \<in> set input. R (alt_run tb a) (alt_run tb b))"
  shows "tracks tb inside input R out"
  using assms by (simp add: tracks_def)

lemma tracks_good: "tracks tb inside input R out \<Longrightarrow> b \<in> set out \<Longrightarrow> alt_good tb inside b"
  by (simp add: tracks_def)

lemma tracks_covered:
  assumes "tracks tb inside input R out" and "a \<in> set input" and "R (alt_run tb a) t"
  obtains b where "b \<in> set out" and "run_le t (alt_run tb b)"
  using assms unfolding tracks_def by blast

lemma tracks_reached:
  assumes "tracks tb inside input R out" and "b \<in> set out"
  obtains a where "a \<in> set input" and "R (alt_run tb a) (alt_run tb b)"
  using assms unfolding tracks_def by blast

lemma tracks_cong:
  assumes "tracks tb inside input R out"
    and "\<And>a t. a \<in> set input \<Longrightarrow> S (alt_run tb a) t \<longleftrightarrow> R (alt_run tb a) t"
  shows "tracks tb inside input S out"
  using assms by (fastforce simp: tracks_def)

lemma tracks_stay:
  assumes "\<forall>a \<in> set input. alt_good tb inside a"
    and "\<And>a t. a \<in> set input \<Longrightarrow> R (alt_run tb a) t \<longleftrightarrow> t = alt_run tb a"
  shows "tracks tb inside input R input"
proof (rule tracksI)
  fix a t assume "a \<in> set input" "R (alt_run tb a) t"
  with assms(2) show "\<exists>b \<in> set input. run_le t (alt_run tb b)" by (metis run_le_refl)
qed (use assms in blast)

lemma prune_covers:
  assumes "pruneEffectDemandAlternatives xs = Inr ys" and "x \<in> set xs"
  shows "\<exists>y \<in> set ys. run_le (alt_run tb x) (alt_run tb y)"
proof -
  obtain y where "y \<in> set ys" "same_marks y x" "alternative_dominates y x"
    using demand_frontier.frontier_covers[OF assms[unfolded pruneEffectDemandAlternatives_def]] by blast
  then show ?thesis
    by (intro bexI[of _ y]) (simp_all add: run_le_def same_marks_def alternative_dominates_def)
qed

lemma prune_subset: "pruneEffectDemandAlternatives xs = Inr ys \<Longrightarrow> y \<in> set ys \<Longrightarrow> y \<in> set xs"
  using demand_frontier.frontier_subset by (fastforce simp: pruneEffectDemandAlternatives_def)

lemma tracks_prune:
  assumes "tracks tb inside input R mid" and "pruneEffectDemandAlternatives mid = Inr out"
  shows "tracks tb inside input R out"
proof (rule tracksI)
  fix a t assume "a \<in> set input" "R (alt_run tb a) t"
  with assms(1) obtain b where "b \<in> set mid" "run_le t (alt_run tb b)" by (rule tracks_covered)
  with prune_covers[OF assms(2), of b tb] show "\<exists>b \<in> set out. run_le t (alt_run tb b)"
    by (meson run_le_trans)
next
  fix b assume "b \<in> set out"
  with prune_subset[OF assms(2)] have "b \<in> set mid" by blast
  with assms(1) show "alt_good tb inside b \<and> (\<exists>a \<in> set input. R (alt_run tb a) (alt_run tb b))"
    by (auto simp: tracks_def)
qed

lemma tracks_append:
  assumes "tracks tb inside xs R out" and "tracks tb inside ys R out'"
  shows "tracks tb inside (xs @ ys) R (out @ out')"
  using assms unfolding tracks_def by fastforce

lemma tracks_comp:
  assumes first: "tracks tb inside input R mid" and second: "tracks tb inside mid S out"
    and ok: "\<And>a t. a \<in> set input \<Longrightarrow> R (alt_run tb a) t \<Longrightarrow> run_ok inside t"
    and mono: "\<And>s s' t. S s t \<Longrightarrow> run_ok inside s \<Longrightarrow> run_le s s' \<Longrightarrow> \<exists>t'. S s' t' \<and> run_le t t'"
  shows "tracks tb inside input (R OO S) out"
proof (rule tracksI)
  fix a u assume a: "a \<in> set input" and "(R OO S) (alt_run tb a) u"
  then obtain t where t: "R (alt_run tb a) t" "S t u" by auto
  obtain b where b: "b \<in> set mid" "run_le t (alt_run tb b)"
    using first a t(1) by (rule tracks_covered)
  from mono[OF t(2) ok[OF a t(1)] b(2)] obtain u' where u': "S (alt_run tb b) u'" "run_le u u'" by blast
  obtain c where "c \<in> set out" "run_le u' (alt_run tb c)"
    using second b(1) u'(1) by (rule tracks_covered)
  with u'(2) show "\<exists>c \<in> set out. run_le u (alt_run tb c)" by (meson run_le_trans)
next
  fix c assume "c \<in> set out"
  with first second show "alt_good tb inside c \<and> (\<exists>a \<in> set input. (R OO S) (alt_run tb a) (alt_run tb c))"
    unfolding tracks_def by blast
qed

lemma tracks_map:
  assumes "mapM f input = Inr out"
    and "\<And>a b. a \<in> set input \<Longrightarrow> f a = Inr b \<Longrightarrow>
      alt_good tb inside b \<and> (\<forall>t. R (alt_run tb a) t \<longleftrightarrow> t = alt_run tb b)"
  shows "tracks tb inside input R out"
proof (rule tracksI)
  fix a t assume "a \<in> set input" "R (alt_run tb a) t"
  moreover from this mapM_fwd[OF assms(1)] obtain b where "b \<in> set out" "f a = Inr b" by blast
  ultimately show "\<exists>b \<in> set out. run_le t (alt_run tb b)"
    using assms(2) by (intro bexI[of _ b]) auto
next
  fix b assume "b \<in> set out"
  with mapM_bwd[OF assms(1)] obtain a where "a \<in> set input" "f a = Inr b" by blast
  with assms(2) show "alt_good tb inside b \<and> (\<exists>a \<in> set input. R (alt_run tb a) (alt_run tb b))"
    by blast
qed

lemma tracks_with:
  assumes adv: "advance_with f input = Inr out"
    and good: "\<forall>a \<in> set input. alt_good tb inside a"
    and over: "\<And>a t. alt_terminated a \<Longrightarrow> R (alt_run tb a) t \<longleftrightarrow> t = alt_run tb a"
    and act: "\<And>mid. f (filter (\<lambda>a. \<not> alt_terminated a) input) = Inr mid \<Longrightarrow>
      tracks tb inside (filter (\<lambda>a. \<not> alt_terminated a) input) R mid"
  shows "tracks tb inside input R out"
proof (cases "filter (\<lambda>a. \<not> alt_terminated a) input = []")
  case True
  then have "\<forall>a \<in> set input. alt_terminated a" by (auto simp: filter_empty_conv)
  moreover have "out = input" using adv True by (auto simp: advance_with_def partitionEffectDemandAlternatives_def)
  ultimately show ?thesis using good by (simp add: tracks_stay over)
next
  case False
  then obtain mid where mid: "f (filter (\<lambda>a. \<not> alt_terminated a) input) = Inr mid"
    and out: "pruneEffectDemandAlternatives (mid @ filter alt_terminated input) = Inr out"
    using adv by (auto simp: advance_with_def partitionEffectDemandAlternatives_def)
  have "tracks tb inside (filter alt_terminated input) R (filter alt_terminated input)"
    using good by (intro tracks_stay) (simp_all add: over)
  from tracks_prune[OF tracks_append[OF act[OF mid] this] out]
  show ?thesis by (auto simp: tracks_def)
qed

section \<open>Deterministic nodes\<close>

lemma deterministic_seq:
  assumes "\<And>c s t d. c \<in> set cs \<Longrightarrow> run_ok inside s \<Longrightarrow> \<not> run_terminated s \<Longrightarrow>
      legacyUpperBoundDemand c = Inr d \<Longrightarrow>
      exec c s t \<longleftrightarrow> t = s\<lparr>run_demand := demand_plus (run_demand s) d\<rparr>"
    and "list_all (node_shape inside) cs"
    and "foldM (\<lambda>demand child. ebind (legacyUpperBoundDemand child) (effectDemand_add demand)) e cs = Inr d"
    and "run_ok inside (s\<lparr>run_demand := demand_plus b e\<rparr>)" and "\<not> run_terminated s"
  shows "exec_seq cs (s\<lparr>run_demand := demand_plus b e\<rparr>) t \<longleftrightarrow> t = s\<lparr>run_demand := demand_plus b d\<rparr>"
  using assms
proof (induction cs arbitrary: e)
  case Nil
  then show ?case by simp
next
  case (Cons c cs)
  then obtain x f where x: "legacyUpperBoundDemand c = Inr x" and f: "effectDemand_add e x = Inr f"
    and rest: "foldM (\<lambda>demand child. ebind (legacyUpperBoundDemand child) (effectDemand_add demand)) f cs = Inr d"
    by auto
  let ?s = "s\<lparr>run_demand := demand_plus b e\<rparr>" and ?u = "s\<lparr>run_demand := demand_plus b f\<rparr>"
  have step: "exec c ?s u \<longleftrightarrow> u = ?u" for u
    using Cons.prems(1)[of c ?s x u] Cons.prems x add_exact[OF f] by (simp add: plus_assoc)
  have "run_ok inside ?u"
    using exec_ok(1)[of c ?s ?u inside] step Cons.prems by simp
  then have "exec_seq cs ?u t \<longleftrightarrow> t = s\<lparr>run_demand := demand_plus b d\<rparr>"
    using Cons.prems rest by (intro Cons.IH) auto
  then show ?case by (simp add: step)
qed

lemma deterministic_rep:
  assumes "\<And>s t. run_ok inside s \<Longrightarrow> \<not> run_terminated s \<Longrightarrow>
      exec c s t \<longleftrightarrow> t = s\<lparr>run_demand := demand_plus (run_demand s) d\<rparr>"
    and "node_shape inside c" and "run_ok inside s" and "\<not> run_terminated s"
  shows "exec_rep m c s t \<longleftrightarrow> t = s\<lparr>run_demand := demand_plus (run_demand s) (demand_scale (int m) d)\<rparr>"
  using assms(3,4)
proof (induction m arbitrary: s)
  case 0
  then show ?case by simp
next
  case (Suc m)
  let ?u = "s\<lparr>run_demand := demand_plus (run_demand s) d\<rparr>"
  have step: "exec c s u \<longleftrightarrow> u = ?u" for u using assms(1) Suc.prems by blast
  have "run_ok inside ?u" using exec_ok(1)[of c s ?u inside] step assms(2) Suc.prems by simp
  with Suc have "exec_rep m c ?u t \<longleftrightarrow>
      t = ?u\<lparr>run_demand := demand_plus (run_demand ?u) (demand_scale (int m) d)\<rparr>"
    by (intro Suc.IH) auto
  then show ?case using scale_Suc[of m d] by (simp add: step plus_assoc)
qed

lemma deterministic_exec:
  assumes "deterministicEffectNode n" and "\<not> effectNodeContainsTerminal n" and "node_shape inside n"
    and "run_ok inside s" and "\<not> run_terminated s" and "legacyUpperBoundDemand n = Inr d"
  shows "exec n s t \<longleftrightarrow> t = s\<lparr>run_demand := demand_plus (run_demand s) d\<rparr>"
  using assms
proof (induction n arbitrary: inside s t d)
  case (EffectNodeSequence cs)
  have "exec_seq cs (s\<lparr>run_demand := demand_plus (run_demand s) zero_demand\<rparr>) t \<longleftrightarrow>
      t = s\<lparr>run_demand := demand_plus (run_demand s) d\<rparr>"
    by (rule deterministic_seq[where inside = inside])
      (use EffectNodeSequence in \<open>auto simp: list_all_iff list_ex_iff\<close>)
  with EffectNodeSequence show ?case by (simp add: exec_iff)
next
  case (EffectNodeRepeat n c)
  then obtain e where e: "legacyUpperBoundDemand c = Inr e" "effectDemand_multiply e n = Inr d" by auto
  have "exec_rep (nat n) c s t \<longleftrightarrow>
      t = s\<lparr>run_demand := demand_plus (run_demand s) (demand_scale (int (nat n)) e)\<rparr>"
    by (rule deterministic_rep[where inside = inside]) (use EffectNodeRepeat e(1) in auto)
  with EffectNodeRepeat.prems multiply_exact[OF e(2)] show ?case by (simp add: exec_iff)
next
  case (EffectNodeForwardPhase i c)
  then obtain e where e: "legacyUpperBoundDemand c = Inr e" "lower_forward_phase e = Inr d" by auto
  have ok: "run_ok True s" and fwd: "forwardEffectCalls (run_demand s) = 0"
    using EffectNodeForwardPhase.prems by (auto simp: run_ok_def)
  have "exec c s u \<longleftrightarrow> u = s\<lparr>run_demand := demand_plus (run_demand s) e\<rparr>" for u
    using EffectNodeForwardPhase.IH[of True s e u] EffectNodeForwardPhase.prems e(1) ok by simp
  with EffectNodeForwardPhase.prems lower_exact[OF e(2)] fwd show ?case
    by (simp add: exec_iff run_leave_phase_def lower_plus)
qed (auto simp: exec_iff run_step_def)

text \<open>A deterministic node with a terminal step always ends the run.\<close>

lemma terminates_seq:
  assumes "exec_seq cs s t" and "list_ex effectNodeContainsTerminal cs"
    and "\<And>c s t. c \<in> set cs \<Longrightarrow> effectNodeContainsTerminal c \<Longrightarrow> exec c s t \<Longrightarrow> run_terminated t"
  shows "run_terminated t"
  using assms
proof (induction cs arbitrary: s)
  case Nil
  then show ?case by simp
next
  case (Cons c cs)
  then obtain u where u: "exec c s u" "exec_seq cs u t" by auto
  show ?case
  proof (cases "effectNodeContainsTerminal c")
    case True
    have "run_terminated u" by (rule Cons.prems(3)[OF _ True u(1)]) simp
    with u(2) show ?thesis by (simp add: exec_seq_terminated)
  next
    case False
    show ?thesis
      by (rule Cons.IH[OF u(2)]) (use False Cons.prems in auto)
  qed
qed

lemma deterministic_terminates:
  assumes "deterministicEffectNode n" and "effectNodeContainsTerminal n" and "node_shape inside n"
    and "exec n s t"
  shows "run_terminated t"
  using assms
proof (induction n arbitrary: inside s t)
  case (EffectNodeSequence cs)
  have "run_terminated t" if "exec_seq cs s t"
    by (rule terminates_seq[OF that]) (use EffectNodeSequence in \<open>auto simp: list_all_iff\<close>)
  with EffectNodeSequence.prems(4) show ?case by (auto simp: exec_iff)
next
  case (EffectNodeRepeat n c)
  then obtain m where "nat n = Suc m" by (metis gr0_implies_Suc node_shape.simps(5) zero_less_nat_eq)
  with EffectNodeRepeat show ?case by (auto simp: exec_iff) (metis exec_rep_terminated)
next
  case (EffectNodeForwardPhase i c)
  then show ?case by (auto simp: exec_iff run_leave_phase_def)
qed (auto simp: exec_iff run_step_def)

section \<open>Every node\<close>

text \<open>What the induction provides for a child, and the relations a structure needs to have a bit
  for.\<close>

definition child_tracks :: "trigger_bits \<Rightarrow> bool \<Rightarrow> EffectNode \<Rightarrow> bool" where
  "child_tracks tb inside c \<longleftrightarrow>
     (\<forall>input out. (\<forall>a \<in> set input. alt_good tb inside a) \<longrightarrow>
        advance_with (advanceActiveEffectDemandAlternatives c tb) input = Inr out \<longrightarrow>
        tracks tb inside input (exec c) out)"

definition relations_known :: "trigger_bits \<Rightarrow> EffectNode \<Rightarrow> bool" where
  "relations_known tb n \<longleftrightarrow> set (trigger_ids n) \<union> set (conditional_ids n) \<subseteq> set (go_keys tb)"

lemma good_run_ok: "alt_good tb inside a \<Longrightarrow> run_ok inside (alt_run tb a)"
  by (simp add: alt_good_def)

lemma tracks_exec_comp:
  assumes "tracks tb inside input (exec c) mid" and "tracks tb inside mid S out"
    and "\<forall>a \<in> set input. alt_good tb inside a" and "node_shape inside c"
    and "\<And>s s' t. S s t \<Longrightarrow> run_ok inside s \<Longrightarrow> run_le s s' \<Longrightarrow> \<exists>t'. S s' t' \<and> run_le t t'"
  shows "tracks tb inside input (exec c OO S) out"
proof (rule tracks_comp[OF assms(1,2) _ assms(5)])
  fix a t assume "a \<in> set input" "exec c (alt_run tb a) t"
  with assms(3,4) show "run_ok inside t" by (metis exec_ok(1) good_run_ok)
qed

lemma tracks_sequence:
  assumes "\<And>c. c \<in> set cs \<Longrightarrow> child_tracks tb inside c"
    and "list_all (node_shape inside) cs"
    and "\<forall>a \<in> set input. alt_good tb inside a"
    and "foldM (\<lambda>result child. advance_with (advanceActiveEffectDemandAlternatives child tb) result) input cs = Inr out"
  shows "tracks tb inside input (exec_seq cs) out"
  using assms
proof (induction cs arbitrary: input)
  case Nil
  then show ?case by (auto intro!: tracks_stay)
next
  case (Cons c cs)
  then obtain mid where mid: "advance_with (advanceActiveEffectDemandAlternatives c tb) input = Inr mid"
    and rest: "foldM (\<lambda>result child. advance_with (advanceActiveEffectDemandAlternatives child tb) result) mid cs = Inr out"
    by auto
  have first: "tracks tb inside input (exec c) mid"
    using Cons.prems(1)[of c] Cons.prems(3) mid by (simp add: child_tracks_def)
  have "tracks tb inside mid (exec_seq cs) out"
    using Cons.prems rest first by (intro Cons.IH) (auto dest: tracks_good)
  from tracks_exec_comp[OF first this] Cons.prems
  have "tracks tb inside input (exec c OO exec_seq cs) out" by (auto intro: exec_mono(2))
  then show ?case by (rule tracks_cong) auto
qed

lemma tracks_repetition:
  assumes "child_tracks tb inside c" and "node_shape inside c"
    and "\<forall>a \<in> set input. alt_good tb inside a"
    and "iterM m (\<lambda>result. advance_with (advanceActiveEffectDemandAlternatives c tb) result) input = Inr out"
  shows "tracks tb inside input (exec_rep m c) out"
  using assms(3,4)
proof (induction m arbitrary: input)
  case 0
  then show ?case by (auto intro!: tracks_stay)
next
  case (Suc m)
  then obtain mid where mid: "advance_with (advanceActiveEffectDemandAlternatives c tb) input = Inr mid"
    and rest: "iterM m (\<lambda>result. advance_with (advanceActiveEffectDemandAlternatives c tb) result) mid = Inr out"
    by auto
  have first: "tracks tb inside input (exec c) mid"
    using assms(1) Suc.prems mid by (simp add: child_tracks_def)
  have "tracks tb inside mid (exec_rep m c) out"
    using rest first by (intro Suc.IH) (auto dest: tracks_good)
  from tracks_exec_comp[OF first this Suc.prems(1) assms(2)] assms(2)
  have "tracks tb inside input (exec c OO exec_rep m c) out" by (auto intro: exec_mono(3))
  then show ?case by (rule tracks_cong) auto
qed

text \<open>The choice loop: what is accumulated tracks the alternatives already taken.\<close>

lemma tracks_choice:
  assumes "\<And>c. c \<in> set cs \<Longrightarrow> child_tracks tb inside c"
    and "\<forall>a \<in> set input. alt_good tb inside a"
    and "foldM (\<lambda>result child.
              ebind (advance_with (advanceActiveEffectDemandAlternatives child tb) input)
                (\<lambda>childAlternatives. pruneEffectDemandAlternatives (result @ childAlternatives)))
       result cs = Inr out"
    and "tracks tb inside input R result"
  shows "tracks tb inside input (\<lambda>s t. R s t \<or> (\<exists>c \<in> set cs. exec c s t)) out"
  using assms
proof (induction cs arbitrary: result R)
  case Nil
  then show ?case by simp
next
  case (Cons c cs)
  then obtain mid acc where mid: "advance_with (advanceActiveEffectDemandAlternatives c tb) input = Inr mid"
    and nxt: "pruneEffectDemandAlternatives (result @ mid) = Inr acc"
    and rest: "foldM (\<lambda>result child.
              ebind (advance_with (advanceActiveEffectDemandAlternatives child tb) input)
                (\<lambda>childAlternatives. pruneEffectDemandAlternatives (result @ childAlternatives)))
       acc cs = Inr out"
    by auto
  have "tracks tb inside input (exec c) mid"
    using Cons.prems mid by (simp add: child_tracks_def)
  with Cons.prems(4) have "tracks tb inside input (\<lambda>s t. R s t \<or> exec c s t) (result @ mid)"
    unfolding tracks_def by fastforce
  from tracks_prune[OF this nxt]
  have "tracks tb inside input (\<lambda>s t. (R s t \<or> exec c s t) \<or> (\<exists>c \<in> set cs. exec c s t)) out"
    using Cons.prems rest by (intro Cons.IH) auto
  then show ?case by (rule tracks_cong) auto
qed

lemma tracks_shift:
  assumes "tracks tb inside (map f (filter P input)) S out"
    and "\<And>a t. a \<in> set input \<Longrightarrow> R (alt_run tb a) t \<longleftrightarrow> P a \<and> S (alt_run tb (f a)) t"
  shows "tracks tb inside input R out"
proof (rule tracksI)
  fix a t assume "a \<in> set input" "R (alt_run tb a) t"
  with assms(2) have "f a \<in> set (map f (filter P input))" "S (alt_run tb (f a)) t" by auto
  with assms(1) obtain b where "b \<in> set out" "run_le t (alt_run tb b)" by (rule tracks_covered)
  then show "\<exists>b \<in> set out. run_le t (alt_run tb b)" by blast
next
  fix b assume b: "b \<in> set out"
  with assms(1) obtain a where "a \<in> set (map f (filter P input))" "S (alt_run tb a) (alt_run tb b)"
    by (rule tracks_reached)
  with assms b show "alt_good tb inside b \<and> (\<exists>a \<in> set input. R (alt_run tb a) (alt_run tb b))"
    by (auto dest: tracks_good)
qed

lemma tracks_conditional_one:
  assumes bits: "bits_ok tb" "i \<in> set (go_keys tb)" and child: "child_tracks tb inside c"
    and a: "alt_good tb inside a" "\<not> alt_terminated a"
    and step: "advance_conditional (trigger_bit tb i)
      (\<lambda>one. advance_with (advanceActiveEffectDemandAlternatives c tb) one) result a = Inr out"
  shows "\<exists>added. out = result @ added \<and> tracks tb inside [a] (exec (EffectNodeConditional i c)) added"
proof -
  define f :: "effectDemandAlternative \<Rightarrow> effectDemandAlternative"
    where "f = (\<lambda>a. a\<lparr>alt_conditionals := alt_conditionals a OR trigger_bit tb i\<rparr>)"
  have good: "alt_good tb inside (f a)" unfolding f_def using bits a(1) by (rule alt_good_trigger)
  have run: "alt_run tb (f a) = run_conditional i (alt_run tb a)"
    unfolding f_def using bits by (rule alt_run_trigger)
  note test = marked_test[OF bits]
  show ?thesis
  proof (cases "alt_triggered a AND trigger_bit tb i = 0")
    case True
    then have "i \<notin> marked tb (alt_triggered a)" by (simp add: test)
    with a(2) good have "tracks tb inside [a] (exec (EffectNodeConditional i c)) [f a]"
      by (auto simp: tracks_def exec_iff run)
    moreover have "out = result @ [f a]"
      using True step by (simp add: advance_conditional_def f_def Let_def)
    ultimately show ?thesis by blast
  next
    case False
    then have mem: "i \<in> marked tb (alt_triggered a)" by (simp add: test)
    from False step obtain ca where
      ca: "advance_with (advanceActiveEffectDemandAlternatives c tb) [f a] = Inr ca" "out = result @ ca"
      by (auto simp: advance_conditional_def f_def Let_def)
    with child good have "tracks tb inside [f a] (exec c) ca" by (simp add: child_tracks_def)
    then have "tracks tb inside [a] (exec (EffectNodeConditional i c)) ca"
      using mem a(2) by (auto simp: tracks_def exec_iff run)
    with ca(2) show ?thesis by blast
  qed
qed

lemma tracks_conditional:
  assumes "bits_ok tb" "i \<in> set (go_keys tb)" and "child_tracks tb inside c"
    and "\<forall>a \<in> set input. alt_good tb inside a \<and> \<not> alt_terminated a"
    and "foldM (advance_conditional (trigger_bit tb i)
      (\<lambda>one. advance_with (advanceActiveEffectDemandAlternatives c tb) one)) result input = Inr out"
  shows "\<exists>added. out = result @ added \<and> tracks tb inside input (exec (EffectNodeConditional i c)) added"
  using assms(4,5)
proof (induction input arbitrary: result)
  case Nil
  then show ?case by (auto simp: tracks_def)
next
  case (Cons a input)
  then obtain mid where mid: "advance_conditional (trigger_bit tb i)
      (\<lambda>one. advance_with (advanceActiveEffectDemandAlternatives c tb) one) result a = Inr mid"
    and rest: "foldM (advance_conditional (trigger_bit tb i)
      (\<lambda>one. advance_with (advanceActiveEffectDemandAlternatives c tb) one)) mid input = Inr out"
    by auto
  from tracks_conditional_one[OF assms(1-3) _ _ mid] Cons.prems(1) obtain added where
    added: "mid = result @ added" "tracks tb inside [a] (exec (EffectNodeConditional i c)) added" by auto
  from Cons.IH[OF _ rest] Cons.prems(1) obtain more where
    more: "out = mid @ more" "tracks tb inside input (exec (EffectNodeConditional i c)) more" by auto
  from tracks_append[OF added(2) more(2)] added(1) more(1) show ?case by auto
qed

lemma tracks_step:
  assumes "mapM (advance_step k) input = Inr mid" and "pruneEffectDemandAlternatives mid = Inr out"
    and "node_shape inside (EffectNodeStep i k)"
    and "\<forall>a \<in> set input. alt_good tb inside a \<and> \<not> alt_terminated a"
  shows "tracks tb inside input (exec (EffectNodeStep i k)) out"
proof (rule tracks_prune[OF tracks_map[OF assms(1)] assms(2)])
  fix a b assume a: "a \<in> set input" and b: "advance_step k a = Inr b"
  then obtain d where d: "effectDemand_add (alt_demand a) (effectStepDemand k) = Inr d"
    and b': "b = (if k = EffectStepTerminal then a\<lparr>alt_demand := d, alt_terminated := True\<rparr> else a\<lparr>alt_demand := d\<rparr>)"
    by (auto simp: advance_step_def add_to_alternative_def)
  have run: "alt_run tb b = run_step k (alt_run tb a)"
    using assms(4) a b' add_exact[OF d] by (simp add: alt_run_def run_step_def)
  have "run_ok inside (alt_run tb b)"
    unfolding run using assms(3,4) a by (intro run_ok_step) (auto simp: alt_good_def)
  moreover have "alt_triggered b = alt_triggered a" using b' by simp
  moreover have "exec (EffectNodeStep i k) (alt_run tb a) t \<longleftrightarrow> t = alt_run tb b" for t
    using assms(4) a by (simp add: run exec_iff)
  ultimately show "alt_good tb inside b \<and>
      (\<forall>t. exec (EffectNodeStep i k) (alt_run tb a) t \<longleftrightarrow> t = alt_run tb b)"
    using assms(4) a by (simp add: alt_good_def)
qed

lemma tracks_deterministic_repeat:
  assumes "legacyUpperBoundDemand c = Inr d" and "effectDemand_multiply d n = Inr delta"
    and "mapM (add_to_alternative delta) input = Inr mid" and "pruneEffectDemandAlternatives mid = Inr out"
    and "deterministicEffectNode c" and "\<not> effectNodeContainsTerminal c"
    and shape: "node_shape inside (EffectNodeRepeat n c)"
    and "\<forall>a \<in> set input. alt_good tb inside a \<and> \<not> alt_terminated a"
  shows "tracks tb inside input (exec (EffectNodeRepeat n c)) out"
proof (rule tracks_prune[OF tracks_map[OF assms(3)] assms(4)])
  fix a b assume a: "a \<in> set input" and "add_to_alternative delta a = Inr b"
  then obtain e where e: "effectDemand_add (alt_demand a) delta = Inr e" "b = a\<lparr>alt_demand := e\<rparr>"
    by (auto simp: add_to_alternative_def)
  have run: "alt_run tb b = (alt_run tb a)\<lparr>run_demand := demand_plus (alt_demand a) delta\<rparr>"
    using add_exact[OF e(1)] e(2) by (simp add: alt_run_def)
  have ok: "run_ok inside (alt_run tb a)" using assms(8) a by (simp add: good_run_ok)
  have "legacyUpperBoundDemand (EffectNodeRepeat n c) = Inr delta" using assms(1,2) by simp
  then have iff: "exec (EffectNodeRepeat n c) (alt_run tb a) t \<longleftrightarrow> t = alt_run tb b" for t
    using deterministic_exec[OF _ _ shape ok, of delta t] assms(5,6,8) a by (simp add: run)
  have "run_ok inside (alt_run tb b)" using exec_ok(1)[OF _ shape ok] iff by blast
  then show "alt_good tb inside b \<and> (\<forall>t. exec (EffectNodeRepeat n c) (alt_run tb a) t \<longleftrightarrow> t = alt_run tb b)"
    using iff assms(8) a e(2) by (simp add: alt_good_def)
qed

lemma tracks_phase:
  assumes child: "tracks tb True input (exec c) mid" and map: "mapM advance_leave_phase mid = Inr mid'"
    and prune: "pruneEffectDemandAlternatives mid' = Inr out" and shape: "node_shape True c"
    and good: "\<forall>a \<in> set input. alt_good tb True a \<and> \<not> alt_terminated a"
  shows "tracks tb inside input (exec (EffectNodeForwardPhase i c)) out"
proof (rule tracks_prune[OF _ prune], rule tracksI)
  have leave: "alt_run tb b = run_leave_phase (alt_run tb a) \<and> alt_triggered b = alt_triggered a"
    if "advance_leave_phase a = Inr b" for a b
    using that by (auto simp: advance_leave_phase_def alt_run_def run_leave_phase_def dest!: lower_exact)
  {
    fix a t assume a: "a \<in> set input" and "exec (EffectNodeForwardPhase i c) (alt_run tb a) t"
    then obtain u where u: "exec c (alt_run tb a) u" "t = run_leave_phase u"
      using good by (auto simp: exec_iff)
    from child a u(1) obtain b where b: "b \<in> set mid" "run_le u (alt_run tb b)" by (rule tracks_covered)
    from mapM_fwd[OF map b(1)] obtain b' where b': "b' \<in> set mid'" "advance_leave_phase b = Inr b'" by blast
    have "run_ok True u" using exec_ok(1)[OF u(1) shape] good a by (simp add: good_run_ok)
    then have "run_le t (alt_run tb b')" using b(2) u(2) leave[OF b'(2)] by (simp add: run_le_leave)
    with b'(1) show "\<exists>b \<in> set mid'. run_le t (alt_run tb b)" by blast
  next
    fix b' assume "b' \<in> set mid'"
    from mapM_bwd[OF map this] obtain b where b: "b \<in> set mid" "advance_leave_phase b = Inr b'" by blast
    from child b(1) obtain a where a: "a \<in> set input" "exec c (alt_run tb a) (alt_run tb b)"
      by (rule tracks_reached)
    have "exec (EffectNodeForwardPhase i c) (alt_run tb a) (alt_run tb b')"
      using a good leave[OF b(2)] by (auto simp: exec_iff)
    moreover have "alt_good tb inside b'"
      using tracks_good[OF child b(1)] leave[OF b(2)] by (simp add: alt_good_def run_ok_leave)
    ultimately show "alt_good tb inside b' \<and>
        (\<exists>a \<in> set input. exec (EffectNodeForwardPhase i c) (alt_run tb a) (alt_run tb b'))"
      using a(1) by blast
  }
qed

lemma tracks_trigger:
  assumes bits: "bits_ok tb" "i \<in> set (go_keys tb)" and child: "child_tracks tb inside c"
    and good: "\<forall>a \<in> set input. alt_good tb inside a \<and> \<not> alt_terminated a"
    and adv: "advanceActiveEffectDemandAlternatives (EffectNodeTrigger i c) tb input = Inr out"
  shows "tracks tb inside input (exec (EffectNodeTrigger i c)) out"
proof -
  define f :: "effectDemandAlternative \<Rightarrow> effectDemandAlternative"
    where "f = (\<lambda>a. a\<lparr>alt_triggered := alt_triggered a OR trigger_bit tb i\<rparr>)"
  define P :: "effectDemandAlternative \<Rightarrow> bool" where "P = (\<lambda>a. alt_conditionals a AND trigger_bit tb i = 0)"
  have "tracks tb inside (map f (filter P input)) (exec c) out"
  proof (cases "filter P input = []")
    case True
    with adv show ?thesis by (auto simp: f_def P_def tracks_def Let_def)
  next
    case False
    then have "advance_with (advanceActiveEffectDemandAlternatives c tb) (map f (filter P input)) = Inr out"
      using adv by (auto simp: f_def P_def Let_def)
    moreover have "\<forall>a \<in> set (map f (filter P input)). alt_good tb inside a"
      using good alt_good_trigger(1)[OF bits] by (auto simp: f_def)
    ultimately show ?thesis using child by (simp add: child_tracks_def)
  qed
  then show ?thesis
    by (rule tracks_shift)
      (use good in \<open>auto simp: exec_iff P_def f_def marked_test[OF bits] alt_run_trigger[OF bits]\<close>)
qed

lemma child_tracksI:
  assumes "\<And>input out. \<forall>a \<in> set input. alt_good tb inside a \<and> \<not> alt_terminated a \<Longrightarrow>
      advanceActiveEffectDemandAlternatives c tb input = Inr out \<Longrightarrow> tracks tb inside input (exec c) out"
  shows "child_tracks tb inside c"
  unfolding child_tracks_def
proof (intro allI impI)
  fix input out
  assume good: "\<forall>a \<in> set input. alt_good tb inside a"
    and adv: "advance_with (advanceActiveEffectDemandAlternatives c tb) input = Inr out"
  show "tracks tb inside input (exec c) out"
    by (rule tracks_with[OF adv good]) (use good in \<open>auto intro!: assms\<close>)
qed

lemma tracks_repeat:
  assumes c: "child_tracks tb inside c" and shape: "0 < n" "node_shape inside c"
    and good: "\<forall>a \<in> set input. alt_good tb inside a \<and> \<not> alt_terminated a"
    and adv: "advanceActiveEffectDemandAlternatives (EffectNodeRepeat n c) tb input = Inr out"
  shows "tracks tb inside input (exec (EffectNodeRepeat n c)) out"
proof (cases "deterministicEffectNode c")
  case det: True
  show ?thesis
  proof (cases "effectNodeContainsTerminal c")
    case True
    from shape(1) obtain m where m: "nat n = Suc m" by (metis gr0_implies_Suc zero_less_nat_eq)
    have "exec_rep (nat n) c s t \<longleftrightarrow> exec c s t" for s t
      using deterministic_terminates[OF det True shape(2)] by (auto simp: m exec_rep_terminated)
    with good have "exec (EffectNodeRepeat n c) (alt_run tb a) t \<longleftrightarrow> exec c (alt_run tb a) t"
      if "a \<in> set input" for a t using that by (simp add: exec_iff)
    moreover have "tracks tb inside input (exec c) out"
      using det True adv c good by (simp add: child_tracks_def)
    ultimately show ?thesis by (metis tracks_cong)
  next
    case False
    with det adv obtain d delta mid where "legacyUpperBoundDemand c = Inr d"
      "effectDemand_multiply d n = Inr delta" "mapM (add_to_alternative delta) input = Inr mid"
      "pruneEffectDemandAlternatives mid = Inr out" by auto
    then show ?thesis
      using det False shape good by (intro tracks_deterministic_repeat) auto
  qed
next
  case False
  then have "tracks tb inside input (exec_rep (nat n) c) out"
    using adv c shape good by (intro tracks_repetition) (auto split: if_splits)
  then show ?thesis by (rule tracks_cong) (use good in \<open>auto simp: exec_iff\<close>)
qed

lemma tracks_node_sequence:
  assumes "\<And>c. c \<in> set cs \<Longrightarrow> child_tracks tb inside c" and "list_all (node_shape inside) cs"
    and "\<forall>a \<in> set input. alt_good tb inside a \<and> \<not> alt_terminated a"
    and "advanceActiveEffectDemandAlternatives (EffectNodeSequence cs) tb input = Inr out"
  shows "tracks tb inside input (exec (EffectNodeSequence cs)) out"
proof (rule tracks_cong)
  show "tracks tb inside input (exec_seq cs) out"
    using assms by (intro tracks_sequence) auto
qed (use assms(3) in \<open>auto simp: exec_iff\<close>)

lemma Bex_set_nth: "(\<exists>c \<in> set cs. P c) \<longleftrightarrow> (\<exists>k < length cs. P (cs ! k))"
  by (auto simp: Bex_def in_set_conv_nth)

lemma tracks_node_choice:
  assumes "\<And>c. c \<in> set cs \<Longrightarrow> child_tracks tb inside c"
    and "\<forall>a \<in> set input. alt_good tb inside a \<and> \<not> alt_terminated a"
    and "advanceActiveEffectDemandAlternatives (EffectNodeChoice i cs) tb input = Inr out"
  shows "tracks tb inside input (exec (EffectNodeChoice i cs)) out"
proof (rule tracks_cong)
  show "tracks tb inside input (\<lambda>s t. False \<or> (\<exists>c \<in> set cs. exec c s t)) out"
    using assms by (intro tracks_choice) (auto simp: tracks_def)
qed (use assms(2) in \<open>auto simp: exec_iff Bex_set_nth\<close>)

lemma tracks_node_phase:
  assumes "child_tracks tb True c" and "node_shape True c"
    and "\<forall>a \<in> set input. alt_good tb inside a \<and> \<not> alt_terminated a"
    and "advanceActiveEffectDemandAlternatives (EffectNodeForwardPhase i c) tb input = Inr out"
  shows "tracks tb inside input (exec (EffectNodeForwardPhase i c)) out"
proof -
  have "\<forall>a \<in> set input. alt_good tb True a \<and> \<not> alt_terminated a"
    using assms(3) by (auto simp: alt_good_def run_ok_def)
  with assms show ?thesis by (auto simp: child_tracks_def intro: tracks_phase)
qed

lemma tracks_node_conditional:
  assumes "bits_ok tb" and "i \<in> set (go_keys tb)" and "child_tracks tb inside c"
    and "\<forall>a \<in> set input. alt_good tb inside a \<and> \<not> alt_terminated a"
    and "advanceActiveEffectDemandAlternatives (EffectNodeConditional i c) tb input = Inr out"
  shows "tracks tb inside input (exec (EffectNodeConditional i c)) out"
proof -
  obtain mid where mid: "foldM (advance_conditional (trigger_bit tb i)
      (\<lambda>one. advance_with (advanceActiveEffectDemandAlternatives c tb) one)) [] input = Inr mid"
    and out: "pruneEffectDemandAlternatives mid = Inr out" using assms(5) by (auto simp: Let_def)
  from tracks_conditional[OF assms(1-4) mid]
  have "tracks tb inside input (exec (EffectNodeConditional i c)) mid" by simp
  then show ?thesis using out by (rule tracks_prune)
qed

lemma relations_known_children:
  "relations_known tb (EffectNodeSequence cs) \<Longrightarrow> c \<in> set cs \<Longrightarrow> relations_known tb c"
  "relations_known tb (EffectNodeChoice i cs) \<Longrightarrow> c \<in> set cs \<Longrightarrow> relations_known tb c"
  "relations_known tb (EffectNodeRepeat n c) \<Longrightarrow> relations_known tb c"
  "relations_known tb (EffectNodeForwardPhase i c) \<Longrightarrow> relations_known tb c"
  "relations_known tb (EffectNodeTrigger i c) \<Longrightarrow> relations_known tb c \<and> i \<in> set (go_keys tb)"
  "relations_known tb (EffectNodeConditional i c) \<Longrightarrow> relations_known tb c \<and> i \<in> set (go_keys tb)"
  by (auto simp: relations_known_def UN_subset_iff)

lemma advance_tracks:
  assumes "bits_ok tb" and "relations_known tb n" and "node_shape inside n"
  shows "child_tracks tb inside n"
  using assms(2,3)
proof (induction n arbitrary: inside)
  case EffectNodeEmpty
  show ?case by (rule child_tracksI) (auto simp: exec_iff intro!: tracks_stay)
next
  case (EffectNodeStep i k)
  then show ?case by (intro child_tracksI) (auto intro: tracks_step)
next
  case (EffectNodeSequence cs)
  then have "c \<in> set cs \<Longrightarrow> child_tracks tb inside c" for c
    by (auto simp: list_all_iff dest: relations_known_children)
  with EffectNodeSequence.prems show ?case
    by (intro child_tracksI[where c = "EffectNodeSequence cs"] tracks_node_sequence) auto
next
  case (EffectNodeChoice i cs)
  then have "c \<in> set cs \<Longrightarrow> child_tracks tb inside c" for c
    by (auto simp: list_all_iff dest: relations_known_children)
  then show ?case by (intro child_tracksI[where c = "EffectNodeChoice i cs"] tracks_node_choice) auto
next
  case (EffectNodeRepeat n c)
  then show ?case by (intro child_tracksI[where c = "EffectNodeRepeat n c"] tracks_repeat) (auto dest: relations_known_children)
next
  case (EffectNodeForwardPhase i c)
  then show ?case by (intro child_tracksI[where c = "EffectNodeForwardPhase i c"] tracks_node_phase) (auto dest: relations_known_children)
next
  case (EffectNodeTrigger i c)
  then show ?case using assms(1) relations_known_children(5)[of tb i c]
    by (intro child_tracksI[where c = "EffectNodeTrigger i c"] tracks_trigger) simp_all
next
  case (EffectNodeConditional i c)
  then show ?case using assms(1) relations_known_children(6)[of tb i c]
    by (intro child_tracksI[where c = "EffectNodeConditional i c"] tracks_node_conditional) simp_all
qed

section \<open>Trigger bits\<close>

lemma collect_ids:
  "set (collectEffectTriggerIDs n r) = set r \<union> set (trigger_ids n) \<union> set (conditional_ids n)"
proof (induction n arbitrary: r)
  case (EffectNodeSequence cs)
  then have "set (fold collectEffectTriggerIDs cs r) =
      set r \<union> (\<Union>c \<in> set cs. set (trigger_ids c) \<union> set (conditional_ids c))"
    by (induction cs arbitrary: r) auto
  then show ?case by auto
next
  case (EffectNodeChoice i cs)
  then have "set (fold collectEffectTriggerIDs cs r) =
      set r \<union> (\<Union>c \<in> set cs. set (trigger_ids c) \<union> set (conditional_ids c))"
    by (induction cs arbitrary: r) auto
  then show ?case by auto
qed auto

lemma collect_distinct: "distinct r \<Longrightarrow> distinct (collectEffectTriggerIDs n r)"
proof (induction n arbitrary: r)
  case (EffectNodeSequence cs)
  then show ?case by (induction cs arbitrary: r) auto
next
  case (EffectNodeChoice i cs)
  then show ?case by (induction cs arbitrary: r) auto
qed auto

lemma trigger_bits_ok:
  assumes "effectTriggerBits n = Inr tb"
  shows "bits_ok tb \<and> relations_known tb n"
proof -
  define ids where "ids = sort (collectEffectTriggerIDs n [])"
  have tb: "tb = zip ids [0..<length ids]" and len: "length ids \<le> 64"
    using assms by (auto simp: effectTriggerBits_def ids_def Let_def maximumEffectTriggerRelations_def
        split: if_splits)
  have dist: "distinct ids" by (simp add: ids_def collect_distinct)
  have keys: "set (go_keys tb) = set ids" by (simp add: tb)
  have get: "go_get 0 tb (ids ! k) = k" if "k < length ids" for k
    using that dist by (simp add: go_get_def tb map_of_zip_nth)
  have "inj_on (go_get 0 tb) (set ids)"
    by (rule inj_onI) (metis get in_set_conv_nth)
  moreover have "\<forall>i \<in> set ids. go_get 0 tb i < 64"
    using get len by (metis in_set_conv_nth order_less_le_trans)
  moreover have "set ids = set (trigger_ids n) \<union> set (conditional_ids n)"
    by (simp add: ids_def collect_ids)
  ultimately show ?thesis unfolding bits_ok_def relations_known_def keys by simp
qed

section \<open>What the frontier is\<close>

definition strip_marks :: "effectDemandAlternative \<Rightarrow> effectDemandAlternative" where
  "strip_marks a = a\<lparr>alt_triggered := 0, alt_conditionals := 0, alt_terminated := False\<rparr>"

definition may_end :: "effectDemandAlternative \<Rightarrow> bool" where
  "may_end a \<longleftrightarrow> alt_terminated a \<or> alt_triggered a AND NOT (alt_conditionals a) = 0"

lemma may_end_iff: "alt_good tb inside a \<Longrightarrow> may_end a \<longleftrightarrow> run_complete (alt_run tb a)"
  using marked_diff[of "alt_triggered a" tb "alt_conditionals a"]
  by (simp add: may_end_def run_complete_def alt_good_def del: set_map)

lemma reachable_eq:
  "\<forall>a \<in> set xs. forwardEffectCalls (alt_demand a) = 0 \<Longrightarrow>
     reachable_alternatives xs = Inr (map strip_marks (filter may_end xs))"
proof -
  have "\<forall>a \<in> set xs. forwardEffectCalls (alt_demand a) = 0 \<Longrightarrow>
     foldM (\<lambda>reachable a.
              if forwardEffectCalls (alt_demand a) \<noteq> 0 then Inl EffectUnloweredForward
              else if \<not> alt_terminated a \<and> alt_triggered a AND NOT (alt_conditionals a) \<noteq> 0
              then Inr reachable
              else Inr (reachable @ [a\<lparr>alt_triggered := 0, alt_conditionals := 0, alt_terminated := False\<rparr>]))
       r xs = Inr (r @ map strip_marks (filter may_end xs))" for r
    by (induction xs arbitrary: r) (auto simp: may_end_def strip_marks_def)
  then show "\<forall>a \<in> set xs. forwardEffectCalls (alt_demand a) = 0 \<Longrightarrow>
     reachable_alternatives xs = Inr (map strip_marks (filter may_end xs))"
    by (simp add: reachable_alternatives_def)
qed

text \<open>The sort key of \<open>effectDemandLess\<close>.\<close>

definition demand_key :: "effectDemand \<Rightarrow> int \<times> int \<times> int \<times> int \<times> int \<times> int" where
  "demand_key d = (ensureCalls d, barrierValidationCalls d, stateDirValidationCalls d,
     descendantBindings d, descendantValidations d, descendantFileCommits d)"

lemma demand_less_key: "effectDemandLess a b \<longleftrightarrow> demand_key a < demand_key b"
  by (auto simp: effectDemandLess_def demand_key_def)

lemma sort_by_demand:
  "sort_slice (\<lambda>a b. effectDemandLess (alt_demand a) (alt_demand b)) xs =
     sort_key (\<lambda>a. demand_key (alt_demand a)) xs"
  by (rule sort_slice_key) (rule demand_less_key)

definition public_key :: "Demand \<Rightarrow> int \<times> int \<times> int \<times> int \<times> int \<times> int" where
  "public_key d = (d_ensureCalls d, d_barrierValidationCalls d, d_stateDirValidationCalls d,
     d_descendantBindings d, d_descendantValidations d, d_descendantFileCommits d)"

definition public_dominates :: "Demand \<Rightarrow> Demand \<Rightarrow> bool" where
  "public_dominates a b \<longleftrightarrow>
     d_ensureCalls a \<ge> d_ensureCalls b \<and>
     d_barrierValidationCalls a \<ge> d_barrierValidationCalls b \<and>
     d_stateDirValidationCalls a \<ge> d_stateDirValidationCalls b \<and>
     d_descendantBindings a \<ge> d_descendantBindings b \<and>
     d_descendantValidations a \<ge> d_descendantValidations b \<and>
     d_descendantFileCommits a \<ge> d_descendantFileCommits b"

lemma public_dominates_demand:
  "effectDemandDominates a b \<Longrightarrow> public_dominates (public_demand a) (public_demand b)"
  by (simp add: public_dominates_def public_demand_def effectDemandDominates_def)

lemma public_dominates_trans:
  "public_dominates a b \<Longrightarrow> public_dominates b c \<Longrightarrow> public_dominates a c"
  by (auto simp: public_dominates_def)

text \<open>The analysis of a well-formed structure, unfolded: the advanced alternatives track its
  executions, and the frontier is the pruned list of those that may end.\<close>

lemma zero_alternative_run [simp]: "alt_run tb zero_alternative = initial_run"
  by (simp add: alt_run_def zero_alternative_def initial_run_def marked_def)

lemma initial_run_sel [simp]:
  "run_demand initial_run = zero_demand" "\<not> run_terminated initial_run"
  by (simp_all add: initial_run_def)

lemma zero_alternative_good [simp]: "alt_good tb inside zero_alternative"
  by (simp add: alt_good_def) (simp add: zero_alternative_def)

lemma analysis:
  assumes "effect_wellformed (root S)" and "DemandAlternatives S = Inr ds"
  obtains tb alts frontier where
    "tracks tb False [zero_alternative] (exec (root S)) alts"
    "pruneEffectDemandAlternatives (map strip_marks (filter may_end alts)) = Inr frontier"
    "ds = map (\<lambda>a. public_demand (alt_demand a)) (sort_key (\<lambda>a. demand_key (alt_demand a)) frontier)"
    "filter may_end alts \<noteq> []"
proof -
  from assms(2) obtain tb alts where tb: "effectTriggerBits (root S) = Inr tb"
    and alts: "advanceEffectDemandAlternatives (root S) tb [zero_alternative] = Inr alts"
    by (auto simp: DemandAlternatives_def)
  have "child_tracks tb False (root S)"
    using trigger_bits_ok[OF tb] assms(1) by (auto simp: effect_wellformed_def intro: advance_tracks)
  with alts have t: "tracks tb False [zero_alternative] (exec (root S)) alts"
    by (simp add: child_tracks_def advanceEffectDemandAlternatives_def)
  then have "\<forall>a \<in> set alts. forwardEffectCalls (alt_demand a) = 0"
    by (auto dest!: tracks_good simp: alt_good_def run_ok_def)
  from reachable_eq[OF this] assms(2) tb alts t that show ?thesis
    by (auto simp: DemandAlternatives_def sort_by_demand split: if_splits)
qed

lemma alternative_reached:
  assumes "tracks tb False [zero_alternative] (exec n) alts"
    and "pruneEffectDemandAlternatives (map strip_marks (filter may_end alts)) = Inr frontier"
    and "f \<in> set frontier"
  shows "\<exists>t. exec n initial_run t \<and> run_complete t \<and> run_demand t = alt_demand f"
proof -
  from prune_subset[OF assms(2,3)] obtain a where a: "a \<in> set alts" "may_end a" "f = strip_marks a"
    by auto
  from assms(1) a(1) have "exec n initial_run (alt_run tb a)" by (rule tracks_reached) simp
  moreover have "run_complete (alt_run tb a)"
    using may_end_iff[OF tracks_good[OF assms(1) a(1)]] a(2) by simp
  moreover have "run_demand (alt_run tb a) = alt_demand f" using a(3) by (simp add: strip_marks_def)
  ultimately show ?thesis by blast
qed

lemma execution_covered:
  assumes "tracks tb False [zero_alternative] (exec n) alts"
    and "pruneEffectDemandAlternatives (map strip_marks (filter may_end alts)) = Inr frontier"
    and "exec n initial_run t" and "run_complete t"
  shows "\<exists>f \<in> set frontier. effectDemandDominates (alt_demand f) (run_demand t)"
proof -
  from assms(1,3) obtain a where a: "a \<in> set alts" "run_le t (alt_run tb a)"
    by (auto elim: tracks_covered)
  have "run_complete (alt_run tb a)" using a(2) assms(4) by (simp add: run_le_def run_complete_def)
  then have "strip_marks a \<in> set (map strip_marks (filter may_end alts))"
    using may_end_iff[OF tracks_good[OF assms(1) a(1)]] a(1) by simp
  from prune_covers[OF assms(2) this, of tb] a(2) show ?thesis
    by (auto simp: run_le_def strip_marks_def intro: dominates_trans)
qed

text \<open>Frontier members carry no marks, so the frontier is an antichain of demands with pairwise
  distinct sort keys.\<close>

lemma frontier_antichain:
  assumes "tracks tb False [zero_alternative] (exec n) alts"
    and "pruneEffectDemandAlternatives (map strip_marks (filter may_end alts)) = Inr frontier"
  shows "sorted_wrt (\<lambda>a b. \<not> effectDemandDominates (alt_demand a) (alt_demand b) \<and>
      \<not> effectDemandDominates (alt_demand b) (alt_demand a)) frontier"
proof (rule sorted_wrt_mono_rel)
  show "sorted_wrt demand_frontier.unrelated frontier"
    using assms(2) unfolding pruneEffectDemandAlternatives_def by (rule demand_frontier.frontier_unrelated)
next
  fix a b assume "a \<in> set frontier" "b \<in> set frontier" "demand_frontier.unrelated a b"
  moreover from this prune_subset[OF assms(2), of a] prune_subset[OF assms(2), of b]
  have "same_marks a b" by (auto simp: strip_marks_def same_marks_def)
  ultimately show "\<not> effectDemandDominates (alt_demand a) (alt_demand b) \<and>
      \<not> effectDemandDominates (alt_demand b) (alt_demand a)"
    by (simp add: demand_frontier.unrelated_def alternative_dominates_def)
qed

lemma frontier_sorted:
  assumes "tracks tb False [zero_alternative] (exec n) alts"
    and "pruneEffectDemandAlternatives (map strip_marks (filter may_end alts)) = Inr frontier"
  shows "sorted_wrt (\<lambda>a b. demand_key (alt_demand a) < demand_key (alt_demand b) \<and>
      \<not> public_dominates (public_demand (alt_demand a)) (public_demand (alt_demand b)) \<and>
      \<not> public_dominates (public_demand (alt_demand b)) (public_demand (alt_demand a)))
    (sort_key (\<lambda>a. demand_key (alt_demand a)) frontier)"
proof (rule sorted_wrt_mono_rel)
  let ?apart = "\<lambda>a b. \<not> effectDemandDominates (alt_demand a) (alt_demand b) \<and>
      \<not> effectDemandDominates (alt_demand b) (alt_demand a)"
  let ?sorted = "sort_key (\<lambda>a. demand_key (alt_demand a)) frontier"
  have "sorted_wrt ?apart ?sorted"
    using frontier_antichain[OF assms] by (intro sorted_wrt_sort_key) auto
  moreover have "sorted_wrt (\<lambda>a b. demand_key (alt_demand a) \<le> demand_key (alt_demand b)) ?sorted"
    using sorted_sort_key[of "\<lambda>a. demand_key (alt_demand a)" frontier] by (simp add: sorted_wrt_map)
  ultimately show "sorted_wrt (\<lambda>a b. ?apart a b \<and> demand_key (alt_demand a) \<le> demand_key (alt_demand b)) ?sorted"
    by (rule sorted_wrt_both)
next
  fix a b
  assume mem: "a \<in> set (sort_key (\<lambda>a. demand_key (alt_demand a)) frontier)"
    "b \<in> set (sort_key (\<lambda>a. demand_key (alt_demand a)) frontier)"
    and rel: "(\<not> effectDemandDominates (alt_demand a) (alt_demand b) \<and>
      \<not> effectDemandDominates (alt_demand b) (alt_demand a)) \<and>
      demand_key (alt_demand a) \<le> demand_key (alt_demand b)"
  have "forwardEffectCalls (alt_demand x) = 0" if "x \<in> set frontier" for x
    using prune_subset[OF assms(2) that] tracks_good[OF assms(1)]
    by (auto simp: alt_good_def run_ok_def strip_marks_def)
  then have fwd: "forwardEffectCalls (alt_demand a) = 0" "forwardEffectCalls (alt_demand b) = 0"
    using mem by simp_all
  then have "demand_key (alt_demand a) \<noteq> demand_key (alt_demand b)"
    using rel by (auto simp: demand_key_def effectDemandDominates_def)
  with rel fwd show "demand_key (alt_demand a) < demand_key (alt_demand b) \<and>
      \<not> public_dominates (public_demand (alt_demand a)) (public_demand (alt_demand b)) \<and>
      \<not> public_dominates (public_demand (alt_demand b)) (public_demand (alt_demand a))"
    by (auto simp: public_dominates_def public_demand_def effectDemandDominates_def)
qed

section \<open>The frontier theorems\<close>

lemma compiled_root: "compileEffectStructure n = Inr S \<Longrightarrow> root S = n \<and> effect_wellformed (root S)"
  by (auto simp: compile_iff_wellformed)

lemma alternatives_cover:
  assumes "compileEffectStructure n = Inr S" and "DemandAlternatives S = Inr ds"
    and "exec n initial_run t" and "run_complete t"
  shows "\<exists>d \<in> set ds. public_dominates d (public_demand (run_demand t))"
proof -
  from compiled_root[OF assms(1)] have wf: "effect_wellformed (root S)" and n: "root S = n" by auto
  obtain tb alts frontier where an: "tracks tb False [zero_alternative] (exec (root S)) alts"
    "pruneEffectDemandAlternatives (map strip_marks (filter may_end alts)) = Inr frontier"
    "ds = map (\<lambda>a. public_demand (alt_demand a)) (sort_key (\<lambda>a. demand_key (alt_demand a)) frontier)"
    using wf assms(2) by (rule analysis)
  from execution_covered[OF an(1,2), of t] assms(3,4) n show ?thesis
    by (auto simp: an(3) dest: public_dominates_demand)
qed

text \<open>C3: every complete execution of a compiled structure is covered: the demand it charges is
  dominated, in every dimension, by one of the returned alternatives.\<close>

theorem demand_alternatives_cover:
  assumes "compileEffectStructure n = Inr S" and "DemandAlternatives S = Inr ds"
    and "exec n initial_run t" and "run_complete t"
  shows "\<exists>d \<in> set ds. public_dominates d (public_demand (run_demand t))"
  using assms by (rule alternatives_cover)

lemma alternatives_attained:
  assumes "compileEffectStructure n = Inr S" and "DemandAlternatives S = Inr ds" and "d \<in> set ds"
  shows "\<exists>t. exec n initial_run t \<and> run_complete t \<and> d = public_demand (run_demand t)"
proof -
  from compiled_root[OF assms(1)] have wf: "effect_wellformed (root S)" and n: "root S = n" by auto
  obtain tb alts frontier where an: "tracks tb False [zero_alternative] (exec (root S)) alts"
    "pruneEffectDemandAlternatives (map strip_marks (filter may_end alts)) = Inr frontier"
    "ds = map (\<lambda>a. public_demand (alt_demand a)) (sort_key (\<lambda>a. demand_key (alt_demand a)) frontier)"
    using wf assms(2) by (rule analysis)
  with assms(3) obtain f where f: "f \<in> set frontier" "d = public_demand (alt_demand f)" by auto
  from alternative_reached[OF an(1,2) f(1)] f(2) n show ?thesis by force
qed

text \<open>No alternative is invented: each returned demand is the exact charge of some complete
  execution of the structure.\<close>

lemma demand_alternatives_attained:
  assumes "compileEffectStructure n = Inr S" and "DemandAlternatives S = Inr ds" and "d \<in> set ds"
  shows "\<exists>t. exec n initial_run t \<and> run_complete t \<and> d = public_demand (run_demand t)"
  using assms by (rule alternatives_attained)

text \<open>C4: the result is a nonempty list of at most 4096 demands in strictly increasing order of
  \<open>effectDemandLess\<close>'s key, no two of which are comparable, so the answer is deterministic
  and minimal.\<close>

theorem demand_alternatives_antichain:
  assumes "compileEffectStructure n = Inr S" and "DemandAlternatives S = Inr ds"
  shows "ds \<noteq> [] \<and> length ds \<le> maximumEffectDemandAlternatives \<and>
    sorted_wrt (\<lambda>d e. public_key d < public_key e \<and> \<not> public_dominates d e \<and> \<not> public_dominates e d) ds"
proof -
  from compiled_root[OF assms(1)] have wf: "effect_wellformed (root S)" by auto
  obtain tb alts frontier where an: "tracks tb False [zero_alternative] (exec (root S)) alts"
    "pruneEffectDemandAlternatives (map strip_marks (filter may_end alts)) = Inr frontier"
    "ds = map (\<lambda>a. public_demand (alt_demand a)) (sort_key (\<lambda>a. demand_key (alt_demand a)) frontier)"
    "filter may_end alts \<noteq> []"
    using wf assms(2) by (rule analysis)
  have key: "public_key (public_demand d) = demand_key d" for d
    by (simp add: public_key_def public_demand_def demand_key_def)
  have "length frontier \<le> maximumEffectDemandAlternatives"
    using an(2) unfolding pruneEffectDemandAlternatives_def by (rule demand_frontier.frontier_bounded)
  moreover obtain a where "a \<in> set (map strip_marks (filter may_end alts))"
    using an(4) by (cases "filter may_end alts") auto
  from prune_covers[OF an(2) this] have "0 < length frontier" by auto
  then have "ds \<noteq> []" unfolding an(3) by (metis length_greater_0_conv length_map length_sort)
  ultimately show ?thesis
    using frontier_sorted[OF an(1,2)] by (simp add: an(3) sorted_wrt_map key)
qed

lemma legacy_covers_alternatives:
  assumes "compileEffectStructure n = Inr S" and "DemandAlternatives S = Inr ds"
    and "LegacyDemand S = Inr l" and "d \<in> set ds"
  shows "public_dominates l d"
proof -
  from compiled_root[OF assms(1)] have wf: "effect_wellformed (root S)" and n: "root S = n" by auto
  obtain tb alts frontier where an: "tracks tb False [zero_alternative] (exec (root S)) alts"
    "pruneEffectDemandAlternatives (map strip_marks (filter may_end alts)) = Inr frontier"
    "ds = map (\<lambda>a. public_demand (alt_demand a)) (sort_key (\<lambda>a. demand_key (alt_demand a)) frontier)"
    using wf assms(2) by (rule analysis)
  with assms(4) obtain f where f: "f \<in> set frontier" "d = public_demand (alt_demand f)" by auto
  from alternative_reached[OF an(1,2) f(1)] obtain t where
    t: "exec (root S) initial_run t" "run_demand t = alt_demand f" by auto
  from assms(3) obtain b where b: "legacyUpperBoundDemand (root S) = Inr b" "l = public_demand b"
    by (auto simp: LegacyDemand_def legacyUpperBound_def split: if_splits)
  have "effectDemandDominates (demand_plus (run_demand initial_run) b) (run_demand t)"
    using exec_bounded(1)[OF t(1) _ _ b(1), of False] wf by (simp add: effect_wellformed_def)
  with t(2) f(2) b(2) show ?thesis by (simp add: initial_run_def public_dominates_demand)
qed

text \<open>The flat upper bound is an upper bound of the frontier: when both analyses succeed, the
  legacy demand dominates every alternative.\<close>

lemma legacy_dominates_alternatives:
  assumes "compileEffectStructure n = Inr S" and "DemandAlternatives S = Inr ds"
    and "LegacyDemand S = Inr l" and "d \<in> set ds"
  shows "public_dominates l d"
  using assms by (rule legacy_covers_alternatives)

section \<open>Errors of the analyses\<close>

text \<open>The limits the frontier analysis may run into.\<close>

fun lowering_limit :: "effectError \<Rightarrow> bool" where
  "lowering_limit EffectDemandOverflow = True"
| "lowering_limit (EffectRepeatLimit n) = (n > maximumEffectRepeatIterations)"
| "lowering_limit EffectAlternativesLimit = True"
| "lowering_limit _ = False"

lemma prune_fails [simp]: "fails_with lowering_limit (pruneEffectDemandAlternatives xs)"
  by (auto simp: pruneEffectDemandAlternatives_def prune_frontier_def prune_step_def
      intro!: fails_with_foldM split: prod.splits)

lemma demand_fails_limit [simp]:
  "fails_with ((=) EffectDemandOverflow) m \<Longrightarrow> fails_with lowering_limit m"
  by (erule fails_with_mono) auto

lemma advance_with_fails:
  "(\<And>xs. fails_with lowering_limit (f xs)) \<Longrightarrow> fails_with lowering_limit (advance_with f input)"
  by (auto simp: advance_with_def intro!: fails_with_ebind split: prod.splits)

lemma advance_fails:
  "fails_with lowering_limit (advanceActiveEffectDemandAlternatives n tb input)"
  by (induction n arbitrary: input)
    (auto simp: Let_def advance_step_def add_to_alternative_def advance_leave_phase_def
      advance_conditional_def intro!: fails_with_intros advance_with_fails)

text \<open>The flat bound of a compiled structure can only fail by overflow: its forward effects
  are all lowered by their phases.\<close>

lemma legacy_demand_error:
  assumes "compileEffectStructure n = Inr S" and "LegacyDemand S = Inl e"
  shows "e = EffectDemandOverflow"
proof -
  from compiled_root[OF assms(1)] have shape: "node_shape False (root S)"
    by (auto simp: effect_wellformed_def)
  have "fails_with ((=) EffectDemandOverflow) (legacyUpperBoundDemand (root S))" by simp
  with assms(2) legacy_forward[OF shape] show ?thesis
    by (cases "legacyUpperBoundDemand (root S)") (auto simp: LegacyDemand_def legacyUpperBound_def)
qed

text \<open>C5: the frontier analysis of a compiled structure fails only at its documented limits
  (overflow, 64 trigger relations, 4096 alternatives, 4096 nondeterministic iterations) or when no
  execution can complete.\<close>

theorem demand_alternatives_error:
  assumes "compileEffectStructure n = Inr S" and "DemandAlternatives S = Inl e"
  shows "lowering_limit e \<or> (\<exists>k > maximumEffectTriggerRelations. e = EffectTriggerLimit k) \<or>
    e = EffectNoReachableAlternative \<and> (\<nexists>t. exec n initial_run t \<and> run_complete t)"
proof (cases "effectTriggerBits (root S)")
  case (Inl e')
  with assms(2) show ?thesis
    by (auto simp: DemandAlternatives_def effectTriggerBits_def Let_def split: if_splits)
next
  case tb: (Inr tb)
  from compiled_root[OF assms(1)] have n: "root S = n" and shape: "node_shape False (root S)"
    by (auto simp: effect_wellformed_def)
  show ?thesis
  proof (cases "advanceEffectDemandAlternatives (root S) tb [zero_alternative]")
    case (Inl e')
    then have "lowering_limit e'"
      using advance_with_fails[OF advance_fails] by (auto simp: advanceEffectDemandAlternatives_def fails_with_def)
    with Inl tb assms(2) show ?thesis by (auto simp: DemandAlternatives_def)
  next
    case alts: (Inr alts)
    have t: "tracks tb False [zero_alternative] (exec (root S)) alts"
      using advance_tracks[OF _ _ shape] trigger_bits_ok[OF tb] alts
      by (auto simp: child_tracks_def advanceEffectDemandAlternatives_def)
    then have "\<forall>a \<in> set alts. forwardEffectCalls (alt_demand a) = 0"
      by (auto dest!: tracks_good simp: alt_good_def run_ok_def)
    note r = reachable_eq[OF this]
    show ?thesis
    proof (cases "filter may_end alts = []")
      case True
      have "\<not> run_complete u" if "exec n initial_run u" for u
        using execution_covered[OF t, of "[]" u] that n True
        by (auto simp: pruneEffectDemandAlternatives_def prune_frontier_def)
      with True assms(2) tb alts r show ?thesis by (auto simp: DemandAlternatives_def)
    next
      case False
      then have "pruneEffectDemandAlternatives (map strip_marks (filter may_end alts)) = Inl e"
        using assms(2) tb alts r by (auto simp: DemandAlternatives_def ebind_eq_Inl)
      then show ?thesis using prune_fails by (metis fails_with_def)
    qed
  qed
qed

section \<open>A sample structure\<close>

text \<open>Three forward effects in one phase, then either a publication that makes a follow-up due or
  an identity check and a hand-off, then the follow-up.\<close>

definition sample_effects :: EffectNode where
  "sample_effects = EffectNodeSequence
     [EffectNodeForwardPhase ''phase'' (EffectNodeRepeat 3 (EffectNodeStep ''forward'' EffectStepForwardEffect)),
      EffectNodeChoice ''outcome''
        [EffectNodeTrigger ''persist'' (EffectNodeStep ''publish'' EffectStepPublishDescendant),
         EffectNodeSequence
           [EffectNodeStep ''check'' EffectStepValidateStateDir, EffectNodeStep ''stop'' EffectStepTerminal]],
      EffectNodeConditional ''persist'' (EffectNodeStep ''bind'' EffectStepBindDescendant)]"

definition sample_structure :: EffectStructure where
  "sample_structure = \<lparr>root = sample_effects\<rparr>"

definition sample_publish :: Demand where
  "sample_publish = \<lparr>d_ensureCalls = 1, d_barrierValidationCalls = 0, d_stateDirValidationCalls = 2,
     d_descendantPath = '''', d_descendantBindings = 1, d_descendantValidations = 0,
     d_descendantFileCommits = 1\<rparr>"

definition sample_stop :: Demand where
  "sample_stop = \<lparr>d_ensureCalls = 1, d_barrierValidationCalls = 0, d_stateDirValidationCalls = 3,
     d_descendantPath = '''', d_descendantBindings = 0, d_descendantValidations = 0,
     d_descendantFileCommits = 0\<rparr>"

definition sample_legacy :: Demand where
  "sample_legacy = \<lparr>d_ensureCalls = 1, d_barrierValidationCalls = 0, d_stateDirValidationCalls = 3,
     d_descendantPath = '''', d_descendantBindings = 1, d_descendantValidations = 0,
     d_descendantFileCommits = 1\<rparr>"

definition sample_run :: effectRun where
  "sample_run = \<lparr>run_demand = zero_demand\<lparr>ensureCalls := 1, stateDirValidationCalls := 2,
       descendantBindings := 1, descendantFileCommits := 1\<rparr>,
     run_triggered = {''persist''}, run_conditionals = {''persist''}, run_terminated = False\<rparr>"

lemma sample_compiles: "compileEffectStructure sample_effects = Inr sample_structure"
  by code_simp

lemma sample_alternatives: "DemandAlternatives sample_structure = Inr [sample_publish, sample_stop]"
  by code_simp

lemma sample_bound: "LegacyDemand sample_structure = Inr sample_legacy"
  by code_simp

lemma sample_executes: "exec sample_effects initial_run sample_run"
proof -
  define s where "s = initial_run\<lparr>run_demand := zero_demand\<lparr>ensureCalls := 1, stateDirValidationCalls := 2\<rparr>\<rparr>"
  define t where "t = s\<lparr>run_demand := (run_demand s)\<lparr>descendantFileCommits := 1\<rparr>, run_triggered := {''persist''}\<rparr>"
  let ?phase = "EffectNodeForwardPhase ''phase'' (EffectNodeRepeat 3 (EffectNodeStep ''forward'' EffectStepForwardEffect))"
  have "legacyUpperBoundDemand ?phase = Inr (zero_demand\<lparr>ensureCalls := 1, stateDirValidationCalls := 2\<rparr>)"
    by code_simp
  moreover have "node_shape False ?phase" by code_simp
  ultimately have "exec ?phase initial_run s"
    by (subst deterministic_exec[where inside = False])
      (simp_all only: s_def run_ok_initial initial_run_sel plus_zero deterministicEffectNode.simps
        effectNodeContainsTerminal.simps, simp_all)
  moreover have "exec (EffectNodeTrigger ''persist'' (EffectNodeStep ''publish'' EffectStepPublishDescendant)) s t"
    by (simp add: exec_iff run_defs s_def t_def initial_run_def demand_plus_def zero_demand_def)
  then have "exec (EffectNodeChoice ''outcome''
      [EffectNodeTrigger ''persist'' (EffectNodeStep ''publish'' EffectStepPublishDescendant),
       EffectNodeSequence
         [EffectNodeStep ''check'' EffectStepValidateStateDir, EffectNodeStep ''stop'' EffectStepTerminal]]) s t"
    by (intro exec_choice[where a = 0]) (simp_all add: s_def initial_run_def)
  moreover have "exec (EffectNodeConditional ''persist'' (EffectNodeStep ''bind'' EffectStepBindDescendant)) t sample_run"
    by (simp add: exec_iff run_defs s_def t_def initial_run_def sample_run_def demand_plus_def zero_demand_def)
  ultimately show ?thesis
    unfolding sample_effects_def by (intro exec_sequence exec_cons exec_nil) (simp_all add: initial_run_def)
qed

theorem demand_alternatives_cover_witness:
  "\<exists>d \<in> set [sample_publish, sample_stop]. public_dominates d (public_demand (run_demand sample_run))"
  using demand_alternatives_cover[OF sample_compiles sample_alternatives sample_executes]
  by (simp add: sample_run_def run_complete_def)

lemma demand_alternatives_attained_witness:
  "\<exists>t. exec sample_effects initial_run t \<and> run_complete t \<and> sample_stop = public_demand (run_demand t)"
  using demand_alternatives_attained[OF sample_compiles sample_alternatives, of sample_stop] by simp

theorem demand_alternatives_antichain_witness:
  "public_key sample_publish < public_key sample_stop \<and> \<not> public_dominates sample_publish sample_stop"
  using demand_alternatives_antichain[OF sample_compiles sample_alternatives] by simp

lemma legacy_dominates_alternatives_witness: "public_dominates sample_legacy sample_stop"
  using legacy_dominates_alternatives[OF sample_compiles sample_alternatives sample_bound, of sample_stop]
  by simp

definition overflowing_effects :: EffectNode where
  "overflowing_effects = EffectNodeRepeat go_max_int
     (EffectNodeRepeat 2 (EffectNodeStep ''validate'' EffectStepValidateBarrier))"

lemma legacy_demand_error_witness:
  "\<exists>e. LegacyDemand \<lparr>root = overflowing_effects\<rparr> = Inl e \<and> e = EffectDemandOverflow"
proof -
  have "compileEffectStructure overflowing_effects = Inr \<lparr>root = overflowing_effects\<rparr>" by code_simp
  moreover have "LegacyDemand \<lparr>root = overflowing_effects\<rparr> = Inl EffectDemandOverflow" by code_simp
  ultimately show ?thesis using legacy_demand_error by blast
qed

text \<open>A follow-up that is always passed before its trigger can fire.\<close>

definition unreachable_effects :: EffectNode where
  "unreachable_effects = EffectNodeSequence
     [EffectNodeConditional ''late'' EffectNodeEmpty, EffectNodeTrigger ''late'' EffectNodeEmpty]"

theorem demand_alternatives_error_witness:
  "\<nexists>t. exec unreachable_effects initial_run t \<and> run_complete t"
proof -
  have "compileEffectStructure unreachable_effects = Inr \<lparr>root = unreachable_effects\<rparr>" by code_simp
  moreover have "DemandAlternatives \<lparr>root = unreachable_effects\<rparr> = Inl EffectNoReachableAlternative"
    by code_simp
  ultimately show ?thesis using demand_alternatives_error by fastforce
qed

end
