(* ===== verification/EffectTrace.thy ===== *)
theory EffectTrace
  imports EffectAlternatives
begin

text \<open>
  The executions of \<^verbatim>\<open>EffectSemantics\<close> with what they hand out: the alternative chosen at every
  choice, and every step by its id and kind, with the checkpoint a forward effect asks for. This is
  what a cursor is measured against; forgetting the events gives the executions again.
\<close>

section \<open>Events\<close>

text \<open>\<open>ForwardEffectNone\<close> is the zero value a consumed step that is not a forward effect
  returns.\<close>

datatype ForwardEffectCheckpoint =
    ForwardEffectNone
  | ForwardEffectEstablishStateDir
  | ForwardEffectValidateStateDir

datatype cursorEvent =
    Selected string int
  | Consumed string EffectStepKind ForwardEffectCheckpoint

record tracedRun = effectRun +
  run_events :: "cursorEvent list"

definition initial_trace :: tracedRun where
  "initial_trace = effectRun.extend initial_run \<lparr>run_events = []\<rparr>"

definition trace_event :: "cursorEvent \<Rightarrow> tracedRun \<Rightarrow> tracedRun" where
  "trace_event e s = s\<lparr>run_events := run_events s @ [e]\<rparr>"

text \<open>The first forward effect of a phase establishes the state directory, a later one validates it.\<close>

definition step_checkpoint :: "EffectStepKind \<Rightarrow> tracedRun \<Rightarrow> ForwardEffectCheckpoint" where
  "step_checkpoint k s =
     (if k \<noteq> EffectStepForwardEffect then ForwardEffectNone
      else if forwardEffectCalls (run_demand s) = 0 then ForwardEffectEstablishStateDir
      else ForwardEffectValidateStateDir)"

definition trace_step :: "string \<Rightarrow> EffectStepKind \<Rightarrow> tracedRun \<Rightarrow> tracedRun" where
  "trace_step i k s = run_step k (trace_event (Consumed i k (step_checkpoint k s)) s)"

inductive trace :: "EffectNode \<Rightarrow> tracedRun \<Rightarrow> tracedRun \<Rightarrow> bool"
  and trace_seq :: "EffectNode list \<Rightarrow> tracedRun \<Rightarrow> tracedRun \<Rightarrow> bool"
  and trace_rep :: "nat \<Rightarrow> EffectNode \<Rightarrow> tracedRun \<Rightarrow> tracedRun \<Rightarrow> bool"
  where
  trace_over: "run_terminated s \<Longrightarrow> trace n s s"
| trace_empty: "\<not> run_terminated s \<Longrightarrow> trace EffectNodeEmpty s s"
| trace_stepped: "\<not> run_terminated s \<Longrightarrow> trace (EffectNodeStep i k) s (trace_step i k s)"
| trace_sequence: "\<not> run_terminated s \<Longrightarrow> trace_seq cs s t \<Longrightarrow> trace (EffectNodeSequence cs) s t"
| trace_choice: "\<not> run_terminated s \<Longrightarrow> a < length cs \<Longrightarrow>
    trace (cs ! a) (trace_event (Selected i (int a)) s) t \<Longrightarrow> trace (EffectNodeChoice i cs) s t"
| trace_repeat: "\<not> run_terminated s \<Longrightarrow> trace_rep (nat n) c s t \<Longrightarrow> trace (EffectNodeRepeat n c) s t"
| trace_phase: "\<not> run_terminated s \<Longrightarrow> trace c s t \<Longrightarrow>
    trace (EffectNodeForwardPhase i c) s (run_leave_phase t)"
| trace_trigger: "\<not> run_terminated s \<Longrightarrow> i \<notin> run_conditionals s \<Longrightarrow> trace c (run_trigger i s) t \<Longrightarrow>
    trace (EffectNodeTrigger i c) s t"
| trace_skipped: "\<not> run_terminated s \<Longrightarrow> i \<notin> run_triggered s \<Longrightarrow>
    trace (EffectNodeConditional i c) s (run_conditional i s)"
| trace_followed: "\<not> run_terminated s \<Longrightarrow> i \<in> run_triggered s \<Longrightarrow> trace c (run_conditional i s) t \<Longrightarrow>
    trace (EffectNodeConditional i c) s t"
| trace_nil: "trace_seq [] s s"
| trace_cons: "trace c s t \<Longrightarrow> trace_seq cs t u \<Longrightarrow> trace_seq (c # cs) s u"
| trace_rep0: "trace_rep 0 c s s"
| trace_repS: "trace c s t \<Longrightarrow> trace_rep m c t u \<Longrightarrow> trace_rep (Suc m) c s u"

inductive_simps trace_empty_iff: "trace EffectNodeEmpty s t"
inductive_simps trace_step_iff: "trace (EffectNodeStep i k) s t"
inductive_simps trace_sequence_iff: "trace (EffectNodeSequence cs) s t"
inductive_simps trace_choice_iff: "trace (EffectNodeChoice i cs) s t"
inductive_simps trace_repeat_iff: "trace (EffectNodeRepeat n c) s t"
inductive_simps trace_phase_iff: "trace (EffectNodeForwardPhase i c) s t"
inductive_simps trace_trigger_iff: "trace (EffectNodeTrigger i c) s t"
inductive_simps trace_conditional_iff: "trace (EffectNodeConditional i c) s t"
inductive_simps trace_seq_Nil [simp]: "trace_seq [] s t"
inductive_simps trace_seq_Cons [simp]: "trace_seq (c # cs) s t"
inductive_simps trace_rep_0 [simp]: "trace_rep 0 c s t"
inductive_simps trace_rep_Suc [simp]: "trace_rep (Suc m) c s t"

lemmas trace_iff = trace_empty_iff trace_step_iff trace_sequence_iff trace_choice_iff trace_repeat_iff
  trace_phase_iff trace_trigger_iff trace_conditional_iff

lemma trace_terminated [simp]: "run_terminated s \<Longrightarrow> trace n s t \<longleftrightarrow> t = s"
  by (auto intro: trace_over elim: trace.cases)

lemma trace_seq_terminated: "run_terminated s \<Longrightarrow> trace_seq cs s t \<longleftrightarrow> t = s"
  by (induction cs) auto

lemma trace_rep_terminated: "run_terminated s \<Longrightarrow> trace_rep m c s t \<longleftrightarrow> t = s"
  by (induction m) auto

lemma trace_event_sel [simp]:
  "run_demand (trace_event e s) = run_demand s" "run_terminated (trace_event e s) = run_terminated s"
  "run_triggered (trace_event e s) = run_triggered s" "run_conditionals (trace_event e s) = run_conditionals s"
  "run_events (trace_event e s) = run_events s @ [e]" "run_ok inside (trace_event e s) = run_ok inside s"
  by (simp_all add: trace_event_def run_ok_def)

lemma run_events_sel [simp]:
  "run_events (run_step k t) = run_events t" "run_events (run_trigger i t) = run_events t"
  "run_events (run_conditional i t) = run_events t" "run_events (run_leave_phase t) = run_events t"
  by (simp_all add: run_defs)

lemma trace_step_sel [simp]:
  "run_demand (trace_step i k s) = demand_plus (run_demand s) (effectStepDemand k)"
  "run_terminated (trace_step i k s) = (k = EffectStepTerminal)"
  "run_triggered (trace_step i k s) = run_triggered s" "run_conditionals (trace_step i k s) = run_conditionals s"
  "run_events (trace_step i k s) = run_events s @ [Consumed i k (step_checkpoint k s)]"
  "run_ok inside (trace_step i k s) = run_ok inside (run_step k s)"
  by (simp_all add: trace_step_def run_step_def trace_event_def run_ok_def)

lemma initial_trace_sel [simp]:
  "run_demand initial_trace = zero_demand" "\<not> run_terminated initial_trace" "run_events initial_trace = []"
  "run_triggered initial_trace = {}" "run_conditionals initial_trace = {}"
  by (simp_all add: initial_trace_def initial_run_def effectRun.extend_def)

section \<open>Forgetting the events\<close>

abbreviation forget :: "tracedRun \<Rightarrow> effectRun" where
  "forget \<equiv> effectRun.truncate"

lemma forget_sel [simp]:
  "run_demand (forget s) = run_demand s" "run_terminated (forget s) = run_terminated s"
  "run_triggered (forget s) = run_triggered s" "run_conditionals (forget s) = run_conditionals s"
  "run_complete (forget s) = run_complete s" "forget initial_trace = initial_run"
  by (simp_all add: effectRun.truncate_def run_complete_def initial_trace_def initial_run_def effectRun.extend_def)

lemma forget_ops [simp]:
  "forget (trace_event e s) = forget s" "forget (run_trigger i s) = run_trigger i (forget s)"
  "forget (run_conditional i s) = run_conditional i (forget s)" "forget (run_leave_phase s) = run_leave_phase (forget s)"
  "forget (run_step k s) = run_step k (forget s)" "forget (trace_step i k s) = run_step k (forget s)"
  by (simp_all add: effectRun.truncate_def run_defs trace_step_def trace_event_def)

lemma trace_exec:
  "trace n s t \<Longrightarrow> exec n (forget s) (forget t)"
  "trace_seq cs s t \<Longrightarrow> exec_seq cs (forget s) (forget t)"
  "trace_rep m c s t \<Longrightarrow> exec_rep m c (forget s) (forget t)"
proof (induction rule: trace_trace_seq_trace_rep.inducts)
  case (trace_choice s a cs i t)
  then show ?case by (intro exec_choice[where a = a]) simp_all
qed (auto intro: exec_exec_seq_exec_rep.intros)

lemma exec_trace:
  "exec n u v \<Longrightarrow> u = forget s \<Longrightarrow> \<exists>t. trace n s t \<and> v = forget t"
  "exec_seq cs u v \<Longrightarrow> u = forget s \<Longrightarrow> \<exists>t. trace_seq cs s t \<and> v = forget t"
  "exec_rep m c u v \<Longrightarrow> u = forget s \<Longrightarrow> \<exists>t. trace_rep m c s t \<and> v = forget t"
proof (induction arbitrary: s and s and s rule: exec_exec_seq_exec_rep.inducts)
  case (exec_step u i k)
  then show ?case by (intro exI[of _ "trace_step i k s"]) (simp add: trace_stepped)
next
  case (exec_choice u a cs v i)
  from exec_choice.IH[of "trace_event (Selected i (int a)) s"] exec_choice.prems
  obtain t where "trace (cs ! a) (trace_event (Selected i (int a)) s) t" "v = forget t" by auto
  with exec_choice show ?case by (auto intro: trace_choice)
next
  case (exec_phase u c v i)
  then obtain t where "trace c s t" "v = forget t" by blast
  with exec_phase show ?case by (intro exI[of _ "run_leave_phase t"]) (simp add: trace_phase)
next
  case (exec_trigger u i c v)
  from exec_trigger.IH[of "run_trigger i s"] exec_trigger.prems obtain t where
    "trace c (run_trigger i s) t" "v = forget t" by auto
  with exec_trigger show ?case by (auto intro: trace_trigger)
next
  case (exec_skipped u i c)
  then show ?case by (intro exI[of _ "run_conditional i s"]) (simp add: trace_skipped)
next
  case (exec_followed u i c v)
  from exec_followed.IH[of "run_conditional i s"] exec_followed.prems obtain t where
    "trace c (run_conditional i s) t" "v = forget t" by auto
  with exec_followed show ?case by (auto intro: trace_followed)
next
  case (exec_cons c u v cs w)
  then show ?case by (metis trace_cons)
next
  case (exec_repS c u v m w)
  then show ?case by (metis trace_repS)
qed (auto intro: trace_trace_seq_trace_rep.intros)

section \<open>Charges of events\<close>

definition step_charge :: "EffectStepKind \<Rightarrow> ForwardEffectCheckpoint \<Rightarrow> effectDemand" where
  "step_charge k checkpoint =
     (case checkpoint of
        ForwardEffectNone \<Rightarrow> effectStepDemand k
      | ForwardEffectEstablishStateDir \<Rightarrow> zero_demand\<lparr>ensureCalls := 1\<rparr>
      | ForwardEffectValidateStateDir \<Rightarrow> zero_demand\<lparr>stateDirValidationCalls := 1\<rparr>)"

fun event_charge :: "cursorEvent \<Rightarrow> effectDemand" where
  "event_charge (Selected i a) = zero_demand"
| "event_charge (Consumed i k p) = step_charge k p"

definition total_charge :: "cursorEvent list \<Rightarrow> effectDemand" where
  "total_charge es = foldr (\<lambda>e. demand_plus (event_charge e)) es zero_demand"

lemma total_charge_simps [simp]:
  "total_charge [] = zero_demand"
  "total_charge (e # es) = demand_plus (event_charge e) (total_charge es)"
  by (simp_all add: total_charge_def)

lemma total_charge_append: "total_charge (es @ fs) = demand_plus (total_charge es) (total_charge fs)"
  by (induction es) (simp_all add: plus_assoc)

end
