(* ===== verification/EffectCursor.thy ===== *)
theory EffectCursor
  imports EffectTrace
begin

text \<open>
  The runtime cursor of \<^verbatim>\<open>internal/operationplan/effect_cursor.go\<close>: a stack of
  frames over an effect structure that accepts exactly the pending choice or step, the operations
  that finish, hand off or abort it, and the simulation with the traced executions of
  \<^verbatim>\<open>EffectTrace\<close>. The Go slice grows at its end; here the head of the list is
  the top of the stack.
\<close>

section \<open>State\<close>

datatype effectCursorState = effectCursorActive | effectCursorFinished | effectCursorAborted

record effectCursorFrame =
  fr_node :: EffectNode
  fr_next :: int
  fr_selected :: int
  fr_forwardEffects :: int

record EffectCursor =
  cur_stack :: "effectCursorFrame list"
  cur_triggers :: "(string, bool) gomap"
  cur_conditionals :: "(string, bool) gomap"
  cur_state :: effectCursorState
  cur_effectStarted :: bool
  cur_terminated :: bool

text \<open>A method takes a pointer that may be nil.\<close>

type_synonym cursorRef = "EffectCursor option"

datatype cursorError =
    CursorUnavailable
  | CursorFinished
  | CursorAborted
  | CursorRootNotForwardPhase
  | CursorNoChoicePending
  | CursorOtherChoice string string
  | CursorAlternativeOutOfRange string int
  | CursorNoRemainingStep
  | CursorChoiceNotSelected string
  | CursorOtherStep string EffectStepKind string EffectStepKind
  | CursorNoEnclosingPhase string
  | CursorChoiceRemains string
  | CursorStepRemains string EffectStepKind
  | CursorFollowUpNotReached
  | CursorNoHandoff
  | CursorPendingWork
  | CursorAlreadyHandedOff
  | CursorEffectStarted
  | CursorTriggerAfterConditional string
  | CursorIndexPanic \<comment> \<open>a slice index out of range, which panics\<close>

section \<open>Construction\<close>

definition new_frame :: "EffectNode \<Rightarrow> effectCursorFrame" where
  "new_frame node = \<lparr>fr_node = node, fr_next = 0, fr_selected = - 1, fr_forwardEffects = 0\<rparr>"

definition cursor_push :: "EffectNode \<Rightarrow> EffectCursor \<Rightarrow> EffectCursor" where
  "cursor_push node cursor = cursor\<lparr>cur_stack := new_frame node # cur_stack cursor\<rparr>"

definition cursor_pop :: "EffectCursor \<Rightarrow> EffectCursor" where
  "cursor_pop cursor = cursor\<lparr>cur_stack := tl (cur_stack cursor)\<rparr>"

definition Begin :: "EffectStructure \<Rightarrow> EffectCursor" where
  "Begin structure = cursor_push (cloneEffectNode (root structure))
     \<lparr>cur_stack = [], cur_triggers = [], cur_conditionals = [], cur_state = effectCursorActive,
      cur_effectStarted = False, cur_terminated = False\<rparr>"

fun is_forward_phase :: "EffectNode \<Rightarrow> bool" where
  "is_forward_phase (EffectNodeForwardPhase i c) = True"
| "is_forward_phase _ = False"

definition BeginForwardPhaseContinuation :: "EffectStructure \<Rightarrow> cursorError + EffectCursor" where
  "BeginForwardPhaseContinuation structure =
     (let cursor = Begin structure in
      if \<not> is_forward_phase (root structure) \<or> length (cur_stack cursor) \<noteq> 1
      then Inl CursorRootNotForwardPhase
      else Inr (cursor\<lparr>cur_stack := map (\<lambda>f. f\<lparr>fr_forwardEffects := 1\<rparr>) (cur_stack cursor)\<rparr>))"

section \<open>The next pending frame\<close>

datatype cursorNext = NextStep | NextChoice | NextDone | NextError cursorError

text \<open>\<open>cursor_top f cursor\<close> writes the modified top frame back, \<open>child\<close> reads a child slice
  with its bounds check.\<close>

definition cursor_top :: "effectCursorFrame \<Rightarrow> EffectCursor \<Rightarrow> EffectCursor" where
  "cursor_top f cursor = cursor\<lparr>cur_stack := f # tl (cur_stack cursor)\<rparr>"

definition enter_child ::
  "EffectNode list \<Rightarrow> int \<Rightarrow> effectCursorFrame \<Rightarrow> EffectCursor \<Rightarrow> EffectCursor + cursorNext" where
  "enter_child cs index frame cursor =
     (if index < 0 \<or> index \<ge> int (length cs) then Inr (NextError CursorIndexPanic)
      else Inl (cursor_push (cs ! nat index) (cursor_top frame cursor)))"

text \<open>One iteration of the loop: \<open>Inl\<close> continues, \<open>Inr\<close> returns. The step or choice that is
  returned is the top frame.\<close>

definition cursor_iteration :: "EffectCursor \<Rightarrow> EffectCursor + cursorNext" where
  "cursor_iteration cursor =
     (case cur_stack cursor of
        [] \<Rightarrow> Inr NextDone
      | frame # rest \<Rightarrow>
          (case fr_node frame of
             EffectNodeEmpty \<Rightarrow> Inl (cursor_pop cursor)
           | EffectNodeStep i k \<Rightarrow> Inr NextStep
           | EffectNodeSequence cs \<Rightarrow>
               if fr_next frame = int (length cs) then Inl (cursor_pop cursor)
               else enter_child cs (fr_next frame) (frame\<lparr>fr_next := fr_next frame + 1\<rparr>) cursor
           | EffectNodeChoice i cs \<Rightarrow>
               if fr_selected frame < 0 then Inr NextChoice
               else if fr_next frame \<noteq> 0 then Inl (cursor_pop cursor)
               else enter_child cs (fr_selected frame) (frame\<lparr>fr_next := 1\<rparr>) cursor
           | EffectNodeRepeat n c \<Rightarrow>
               if fr_next frame = n then Inl (cursor_pop cursor)
               else Inl (cursor_push c (cursor_top (frame\<lparr>fr_next := fr_next frame + 1\<rparr>) cursor))
           | EffectNodeForwardPhase i c \<Rightarrow>
               if fr_next frame \<noteq> 0 then Inl (cursor_pop cursor)
               else Inl (cursor_push c (cursor_top (frame\<lparr>fr_next := 1\<rparr>) cursor))
           | EffectNodeTrigger i c \<Rightarrow>
               if fr_next frame \<noteq> 0 then Inl (cursor_pop cursor)
               else if go_get False (cur_conditionals cursor) i
               then Inr (NextError (CursorTriggerAfterConditional i))
               else Inl (cursor_push c (cursor_top (frame\<lparr>fr_next := 1\<rparr>)
                      (cursor\<lparr>cur_triggers := AList.update i True (cur_triggers cursor)\<rparr>)))
           | EffectNodeConditional i c \<Rightarrow>
               if fr_next frame \<noteq> 0 then Inl (cursor_pop cursor)
               else let marked = cursor\<lparr>cur_conditionals := AList.update i True (cur_conditionals cursor)\<rparr> in
                 if \<not> go_get False (cur_triggers marked) i then Inl (cursor_pop marked)
                 else Inl (cursor_push c (cursor_top (frame\<lparr>fr_next := 1\<rparr>) marked))))"

partial_function (option) cursor_next :: "EffectCursor \<Rightarrow> (EffectCursor \<times> cursorNext) option" where
  "cursor_next cursor =
     (case cursor_iteration cursor of
        Inl cursor' \<Rightarrow> cursor_next cursor'
      | Inr result \<Rightarrow> Some (cursor, result))"

declare cursor_next.simps [code]

section \<open>Operations\<close>

text \<open>A method returns the mutated cursor with its result; the outer option is \<open>None\<close> when the
  loop of \<open>next\<close> does not end.\<close>

type_synonym 'a cursorResult = "(cursorRef \<times> (cursorError + 'a)) option"

definition requireActive :: "cursorRef \<Rightarrow> cursorError + EffectCursor" where
  "requireActive cursor =
     (case cursor of
        None \<Rightarrow> Inl CursorUnavailable
      | Some c \<Rightarrow>
          (case cur_state c of
             effectCursorActive \<Rightarrow> Inr c
           | effectCursorFinished \<Rightarrow> Inl CursorFinished
           | effectCursorAborted \<Rightarrow> Inl CursorAborted))"

text \<open>The prologue of the operations that look at the next pending frame.\<close>

definition with_next ::
  "(EffectCursor \<Rightarrow> cursorNext \<Rightarrow> EffectCursor \<times> (cursorError + 'a)) \<Rightarrow> cursorRef \<Rightarrow> 'a cursorResult" where
  "with_next body cursor =
     (case requireActive cursor of
        Inl e \<Rightarrow> Some (cursor, Inl e)
      | Inr c \<Rightarrow>
          (case cursor_next c of
             None \<Rightarrow> None
           | Some (c', NextError e) \<Rightarrow> Some (Some c', Inl e)
           | Some (c', result) \<Rightarrow> (case body c' result of (c'', r) \<Rightarrow> Some (Some c'', r))))"

fun node_choice_id :: "EffectNode \<Rightarrow> string" where
  "node_choice_id (EffectNodeChoice i cs) = i"
| "node_choice_id _ = ''''"

fun node_alternatives :: "EffectNode \<Rightarrow> EffectNode list" where
  "node_alternatives (EffectNodeChoice i cs) = cs"
| "node_alternatives _ = []"

fun node_step :: "EffectNode \<Rightarrow> string \<times> EffectStepKind" where
  "node_step (EffectNodeStep i k) = (i, k)"
| "node_step _ = ('''', EffectStepKindOutside 0)"

abbreviation cursor_node :: "EffectCursor \<Rightarrow> EffectNode" where
  "cursor_node c \<equiv> fr_node (hd (cur_stack c))"

definition SelectAlternative :: "string \<Rightarrow> int \<Rightarrow> cursorRef \<Rightarrow> unit cursorResult" where
  "SelectAlternative choiceID alternative =
     with_next (\<lambda>c pending.
       if pending \<noteq> NextChoice then (c, Inl CursorNoChoicePending)
       else if node_choice_id (cursor_node c) \<noteq> choiceID
       then (c, Inl (CursorOtherChoice (node_choice_id (cursor_node c)) choiceID))
       else if alternative < 0 \<or> alternative \<ge> int (length (node_alternatives (cursor_node c)))
       then (c, Inl (CursorAlternativeOutOfRange choiceID alternative))
       else (cursor_top ((hd (cur_stack c))\<lparr>fr_selected := alternative\<rparr>) c, Inr ()))"

fun startsEffect :: "EffectStepKind \<Rightarrow> bool" where
  "startsEffect EffectStepEstablishStateDir = True"
| "startsEffect EffectStepForwardEffect = True"
| "startsEffect EffectStepPublishDescendant = True"
| "startsEffect EffectStepExternal = True"
| "startsEffect EffectStepPersistence = True"
| "startsEffect EffectStepCompensation = True"
| "startsEffect EffectStepCleanup = True"
| "startsEffect EffectStepRetirement = True"
| "startsEffect _ = False"

text \<open>The innermost open forward phase, counted up: its earlier count and the stack with the new
  one.\<close>

fun enclosingForwardPhase :: "effectCursorFrame list \<Rightarrow> (int \<times> effectCursorFrame list) option" where
  "enclosingForwardPhase [] = None"
| "enclosingForwardPhase (f # fs) =
     (if is_forward_phase (fr_node f)
      then Some (fr_forwardEffects f, f\<lparr>fr_forwardEffects := fr_forwardEffects f + 1\<rparr> # fs)
      else map_option (\<lambda>(n, gs). (n, f # gs)) (enclosingForwardPhase fs))"

definition consume_leave :: "EffectStepKind \<Rightarrow> EffectCursor \<Rightarrow> EffectCursor" where
  "consume_leave kind c =
     (if kind = EffectStepTerminal then c\<lparr>cur_stack := [], cur_terminated := True\<rparr> else cursor_pop c)"

text \<open>The part of \<open>consume\<close> after the pending step has been matched.\<close>

definition consume_effect ::
  "string \<Rightarrow> EffectStepKind \<Rightarrow> EffectCursor \<Rightarrow> EffectCursor \<times> (cursorError + ForwardEffectCheckpoint)" where
  "consume_effect stepID kind c =
     (let started = (if startsEffect kind then c\<lparr>cur_effectStarted := True\<rparr> else c) in
      if kind = EffectStepForwardEffect then
        (case enclosingForwardPhase (cur_stack started) of
           None \<Rightarrow> (started, Inl (CursorNoEnclosingPhase stepID))
         | Some (earlier, stack) \<Rightarrow>
             (consume_leave kind (started\<lparr>cur_stack := stack\<rparr>),
              Inr (if earlier = 0 then ForwardEffectEstablishStateDir else ForwardEffectValidateStateDir)))
      else (consume_leave kind started, Inr ForwardEffectNone))"

definition consume :: "string \<Rightarrow> EffectStepKind \<Rightarrow> cursorRef \<Rightarrow> ForwardEffectCheckpoint cursorResult" where
  "consume stepID kind =
     with_next (\<lambda>c pending.
       if pending = NextDone then (c, Inl CursorNoRemainingStep)
       else if pending = NextChoice
       then (c, Inl (CursorChoiceNotSelected (node_choice_id (cursor_node c))))
       else if node_step (cursor_node c) \<noteq> (stepID, kind)
       then (c, Inl (CursorOtherStep (fst (node_step (cursor_node c))) (snd (node_step (cursor_node c))) stepID kind))
       else consume_effect stepID kind c)"

definition Consume :: "string \<Rightarrow> EffectStepKind \<Rightarrow> cursorRef \<Rightarrow> unit cursorResult" where
  "Consume stepID kind cursor =
     map_option (\<lambda>(c, r). (c, ebind r (\<lambda>_. Inr ()))) (consume stepID kind cursor)"

definition ConsumeForwardEffect :: "string \<Rightarrow> cursorRef \<Rightarrow> ForwardEffectCheckpoint cursorResult" where
  "ConsumeForwardEffect stepID cursor =
     map_option (\<lambda>(c, r). (c, ebind r (\<lambda>checkpoint.
         if checkpoint = ForwardEffectNone then Inl (CursorNoEnclosingPhase stepID) else Inr checkpoint)))
       (consume stepID EffectStepForwardEffect cursor)"

definition follow_up_missing :: "EffectCursor \<Rightarrow> bool" where
  "follow_up_missing c \<longleftrightarrow>
     list_ex (\<lambda>(i, active). active \<and> \<not> go_get False (cur_conditionals c) i) (cur_triggers c)"

definition FinishSuccess :: "cursorRef \<Rightarrow> unit cursorResult" where
  "FinishSuccess =
     with_next (\<lambda>c pending.
       if pending = NextChoice then (c, Inl (CursorChoiceRemains (node_choice_id (cursor_node c))))
       else if pending = NextStep
       then (c, Inl (CursorStepRemains (fst (node_step (cursor_node c))) (snd (node_step (cursor_node c)))))
       else if \<not> cur_terminated c \<and> follow_up_missing c then (c, Inl CursorFollowUpNotReached)
       else (c\<lparr>cur_state := effectCursorFinished\<rparr>, Inr ()))"

definition FinishHandoff :: "cursorRef \<Rightarrow> cursorRef \<times> (cursorError + unit)" where
  "FinishHandoff cursor =
     (case requireActive cursor of
        Inl e \<Rightarrow> (cursor, Inl e)
      | Inr c \<Rightarrow>
          if \<not> cur_terminated c then (cursor, Inl CursorNoHandoff)
          else if cur_stack c \<noteq> [] then (cursor, Inl CursorPendingWork)
          else (Some (c\<lparr>cur_state := effectCursorFinished\<rparr>), Inr ()))"

definition AbortBeforeEffect :: "cursorRef \<Rightarrow> cursorRef \<times> (cursorError + unit)" where
  "AbortBeforeEffect cursor =
     (case requireActive cursor of
        Inl e \<Rightarrow> (cursor, Inl e)
      | Inr c \<Rightarrow>
          if cur_terminated c then (cursor, Inl CursorAlreadyHandedOff)
          else if cur_effectStarted c then (cursor, Inl CursorEffectStarted)
          else (Some (c\<lparr>cur_stack := [], cur_state := effectCursorAborted\<rparr>), Inr ()))"

section \<open>The work left on a stack\<close>

fun node_work :: "EffectNode \<Rightarrow> nat" where
  "node_work EffectNodeEmpty = 1"
| "node_work (EffectNodeStep i k) = 1"
| "node_work (EffectNodeSequence cs) = 1 + sum_list (map (\<lambda>c. node_work c + 1) cs)"
| "node_work (EffectNodeChoice i cs) = 3 + sum_list (map node_work cs)"
| "node_work (EffectNodeRepeat n c) = 1 + nat n * (node_work c + 1)"
| "node_work (EffectNodeForwardPhase i c) = 2 + node_work c"
| "node_work (EffectNodeTrigger i c) = 2 + node_work c"
| "node_work (EffectNodeConditional i c) = 2 + node_work c"

definition frame_work :: "effectCursorFrame \<Rightarrow> nat" where
  "frame_work f =
     (case fr_node f of
        EffectNodeSequence cs \<Rightarrow> 1 + sum_list (map (\<lambda>c. node_work c + 1) (drop (nat (fr_next f)) cs))
      | EffectNodeChoice i cs \<Rightarrow>
          if fr_selected f < 0 then 3 + sum_list (map node_work cs)
          else if fr_next f \<noteq> 0 then 1 else 2 + sum_list (map node_work cs)
      | EffectNodeRepeat n c \<Rightarrow> 1 + nat (n - fr_next f) * (node_work c + 1)
      | EffectNodeForwardPhase i c \<Rightarrow> if fr_next f \<noteq> 0 then 1 else 2 + node_work c
      | EffectNodeTrigger i c \<Rightarrow> if fr_next f \<noteq> 0 then 1 else 2 + node_work c
      | EffectNodeConditional i c \<Rightarrow> if fr_next f \<noteq> 0 then 1 else 2 + node_work c
      | _ \<Rightarrow> 1)"

definition stack_work :: "effectCursorFrame list \<Rightarrow> nat" where
  "stack_work fs = sum_list (map frame_work fs)"

lemma stack_work_simps [simp]: "stack_work [] = 0" "stack_work (f # fs) = frame_work f + stack_work fs"
  by (simp_all add: stack_work_def)

lemma frame_work_pos: "0 < frame_work f"
  by (simp add: frame_work_def split: EffectNode.splits)

lemma frame_work_node:
  "fr_node f = EffectNodeEmpty \<Longrightarrow> frame_work f = 1"
  "fr_node f = EffectNodeStep i k \<Longrightarrow> frame_work f = 1"
  "fr_node f = EffectNodeSequence cs \<Longrightarrow>
     frame_work f = 1 + sum_list (map (\<lambda>c. node_work c + 1) (drop (nat (fr_next f)) cs))"
  "fr_node f = EffectNodeChoice i cs \<Longrightarrow>
     frame_work f = (if fr_selected f < 0 then 3 + sum_list (map node_work cs)
       else if fr_next f \<noteq> 0 then 1 else 2 + sum_list (map node_work cs))"
  "fr_node f = EffectNodeRepeat n c \<Longrightarrow> frame_work f = 1 + nat (n - fr_next f) * (node_work c + 1)"
  "fr_node f = EffectNodeForwardPhase i c \<Longrightarrow> frame_work f = (if fr_next f \<noteq> 0 then 1 else 2 + node_work c)"
  "fr_node f = EffectNodeTrigger i c \<Longrightarrow> frame_work f = (if fr_next f \<noteq> 0 then 1 else 2 + node_work c)"
  "fr_node f = EffectNodeConditional i c \<Longrightarrow> frame_work f = (if fr_next f \<noteq> 0 then 1 else 2 + node_work c)"
  by (simp_all add: frame_work_def)

lemma frame_work_new: "frame_work (new_frame c) = node_work c"
  by (cases c) (simp_all add: frame_work_def new_frame_def)

text \<open>A frame whose indices are within the node's bounds.\<close>

fun frame_range :: "EffectNode \<Rightarrow> int \<Rightarrow> int \<Rightarrow> bool" where
  "frame_range (EffectNodeSequence cs) n sel = (0 \<le> n \<and> n \<le> int (length cs))"
| "frame_range (EffectNodeChoice i cs) n sel = (sel < int (length cs) \<and> (sel < 0 \<longrightarrow> n = 0))"
| "frame_range (EffectNodeRepeat m c) n sel = (0 \<le> n \<and> n \<le> m)"
| "frame_range _ n sel = True"

abbreviation frame_ok :: "effectCursorFrame \<Rightarrow> bool" where
  "frame_ok f \<equiv> frame_range (fr_node f) (fr_next f) (fr_selected f)"

lemma work_child:
  "k < length cs \<Longrightarrow> node_work (cs ! k) \<le> sum_list (map node_work cs)"
  by (metis length_map nth_map nth_mem member_le_sum_list zero_le)

lemma work_drop:
  assumes "0 \<le> n" and "n < int (length cs)"
  shows "sum_list (map (\<lambda>c. node_work c + 1) (drop (nat n) cs)) =
    node_work (cs ! nat n) + 1 + sum_list (map (\<lambda>c. node_work c + 1) (drop (nat (n + 1)) cs))"
proof -
  have "drop (nat n) cs = cs ! nat n # drop (Suc (nat n)) cs"
    using assms by (intro Cons_nth_drop_Suc[symmetric]) simp
  moreover have "Suc (nat n) = nat (n + 1)" using assms by simp
  ultimately show ?thesis by simp
qed

lemma work_repeat:
  "0 \<le> n \<Longrightarrow> n < m \<Longrightarrow> nat (m - n) * (w + 1) = w + 1 + nat (m - (n + 1)) * (w + 1)"
proof -
  assume "0 \<le> n" "n < m"
  then have "nat (m - n) = Suc (nat (m - (n + 1)))" by simp
  then show ?thesis by simp
qed

text \<open>Every iteration that continues leaves less work.\<close>

lemma iteration_work:
  assumes "cursor_iteration c = Inl c'" and "\<forall>f \<in> set (cur_stack c). frame_ok f"
  shows "stack_work (cur_stack c') < stack_work (cur_stack c)"
proof (cases "cur_stack c")
  case Nil
  with assms(1) show ?thesis by (simp add: cursor_iteration_def)
next
  case (Cons f fs)
  note defs = cursor_iteration_def cursor_pop_def cursor_push_def cursor_top_def enter_child_def
    frame_work_new Let_def
  have ok: "frame_ok f" using assms(2) Cons by simp
  show ?thesis
  proof (cases "fr_node f")
    case (EffectNodeSequence cs)
    with assms(1) Cons ok work_drop[of "fr_next f" cs] show ?thesis
      by (auto simp: defs frame_work_node split: if_splits)
  next
    case (EffectNodeChoice i cs)
    with ok have "\<not> fr_selected f < 0 \<Longrightarrow> node_work (cs ! nat (fr_selected f)) \<le> sum_list (map node_work cs)"
      by (intro work_child) simp
    with EffectNodeChoice assms(1) Cons show ?thesis
      by (auto simp: defs frame_work_node split: if_splits)
  next
    case (EffectNodeRepeat n b)
    with assms(1) Cons ok work_repeat[of "fr_next f" n "node_work b"] show ?thesis
      by (auto simp: defs frame_work_node split: if_splits)
  qed (use assms(1) Cons in \<open>auto simp: defs frame_work_node split: if_splits\<close>)
qed

text \<open>So the loop of \<open>next\<close> returns on every stack whose frames are within bounds, provided the
  bound is kept; the invariant below supplies that.\<close>

lemma next_returns:
  assumes "\<And>c c'. P c \<Longrightarrow> cursor_iteration c = Inl c' \<Longrightarrow> P c'"
    and "\<And>c. P c \<Longrightarrow> \<forall>f \<in> set (cur_stack c). frame_ok f" and "P c"
  shows "\<exists>c' r. cursor_next c = Some (c', r) \<and> P c' \<and> cursor_iteration c' = Inr r"
  using assms(3)
proof (induction "stack_work (cur_stack c)" arbitrary: c rule: less_induct)
  case less
  show ?case
  proof (cases "cursor_iteration c")
    case (Inl c')
    with less.prems assms have "stack_work (cur_stack c') < stack_work (cur_stack c)" "P c'"
      by (auto intro: iteration_work)
    with less.hyps Inl show ?thesis by (subst cursor_next.simps) simp
  next
    case (Inr r)
    with less.prems show ?thesis by (subst cursor_next.simps) simp
  qed
qed

section \<open>What is left to execute\<close>

definition frame_exec :: "effectCursorFrame \<Rightarrow> tracedRun \<Rightarrow> tracedRun \<Rightarrow> bool" where
  "frame_exec f s t =
     (case fr_node f of
        EffectNodeSequence cs \<Rightarrow> trace_seq (drop (nat (fr_next f)) cs) s t
      | EffectNodeChoice i cs \<Rightarrow>
          if fr_selected f < 0 then trace (fr_node f) s t
          else if fr_next f \<noteq> 0 then t = s else trace (cs ! nat (fr_selected f)) s t
      | EffectNodeRepeat n c \<Rightarrow> trace_rep (nat (n - fr_next f)) c s t
      | EffectNodeForwardPhase i c \<Rightarrow>
          if fr_next f \<noteq> 0 then t = run_leave_phase s else trace (fr_node f) s t
      | EffectNodeTrigger i c \<Rightarrow> if fr_next f \<noteq> 0 then t = s else trace (fr_node f) s t
      | EffectNodeConditional i c \<Rightarrow> if fr_next f \<noteq> 0 then t = s else trace (fr_node f) s t
      | _ \<Rightarrow> trace (fr_node f) s t)"

primrec stack_exec :: "effectCursorFrame list \<Rightarrow> tracedRun \<Rightarrow> tracedRun \<Rightarrow> bool" where
  "stack_exec [] s t \<longleftrightarrow> t = s"
| "stack_exec (f # fs) s t \<longleftrightarrow> (\<exists>u. frame_exec f s u \<and> stack_exec fs u t)"

lemma frame_exec_node:
  "fr_node f = EffectNodeEmpty \<Longrightarrow> frame_exec f s t \<longleftrightarrow> trace EffectNodeEmpty s t"
  "fr_node f = EffectNodeStep i k \<Longrightarrow> frame_exec f s t \<longleftrightarrow> trace (EffectNodeStep i k) s t"
  "fr_node f = EffectNodeSequence cs \<Longrightarrow> frame_exec f s t \<longleftrightarrow> trace_seq (drop (nat (fr_next f)) cs) s t"
  "fr_node f = EffectNodeChoice i cs \<Longrightarrow> frame_exec f s t \<longleftrightarrow>
     (if fr_selected f < 0 then trace (EffectNodeChoice i cs) s t
      else if fr_next f \<noteq> 0 then t = s else trace (cs ! nat (fr_selected f)) s t)"
  "fr_node f = EffectNodeRepeat n c \<Longrightarrow> frame_exec f s t \<longleftrightarrow> trace_rep (nat (n - fr_next f)) c s t"
  "fr_node f = EffectNodeForwardPhase i c \<Longrightarrow> frame_exec f s t \<longleftrightarrow>
     (if fr_next f \<noteq> 0 then t = run_leave_phase s else trace (EffectNodeForwardPhase i c) s t)"
  "fr_node f = EffectNodeTrigger i c \<Longrightarrow> frame_exec f s t \<longleftrightarrow>
     (if fr_next f \<noteq> 0 then t = s else trace (EffectNodeTrigger i c) s t)"
  "fr_node f = EffectNodeConditional i c \<Longrightarrow> frame_exec f s t \<longleftrightarrow>
     (if fr_next f \<noteq> 0 then t = s else trace (EffectNodeConditional i c) s t)"
  by (simp_all add: frame_exec_def)

lemma frame_exec_new: "\<not> run_terminated s \<Longrightarrow> frame_exec (new_frame c) s t \<longleftrightarrow> trace c s t"
  by (cases c) (simp_all add: frame_exec_def new_frame_def trace_iff)

text \<open>The bookkeeping an iteration performs on the run: entering a trigger, reaching a conditional
  and leaving a forward phase.\<close>

definition silent :: "EffectCursor \<Rightarrow> tracedRun \<Rightarrow> tracedRun" where
  "silent c s =
     (case cur_stack c of
        [] \<Rightarrow> s
      | f # fs \<Rightarrow>
          (case fr_node f of
             EffectNodeForwardPhase i b \<Rightarrow> if fr_next f \<noteq> 0 then run_leave_phase s else s
           | EffectNodeTrigger i b \<Rightarrow> if fr_next f \<noteq> 0 then s else run_trigger i s
           | EffectNodeConditional i b \<Rightarrow> if fr_next f \<noteq> 0 then s else run_conditional i s
           | _ \<Rightarrow> s))"

definition marks_agree :: "EffectCursor \<Rightarrow> tracedRun \<Rightarrow> bool" where
  "marks_agree c s \<longleftrightarrow> run_triggered s = {i. go_get False (cur_triggers c) i} \<and>
     run_conditionals s = {i. go_get False (cur_conditionals c) i} \<and>
     distinct (go_keys (cur_triggers c))"

lemma drop_exec_seq:
  assumes "0 \<le> n" and "n < int (length cs)"
  shows "trace_seq (drop (nat n) cs) s t \<longleftrightarrow> (\<exists>u. trace (cs ! nat n) s u \<and> trace_seq (drop (nat (n + 1)) cs) u t)"
proof -
  have "drop (nat n) cs = cs ! nat n # drop (Suc (nat n)) cs"
    using assms by (intro Cons_nth_drop_Suc[symmetric]) simp
  moreover have "Suc (nat n) = nat (n + 1)" using assms by simp
  ultimately show ?thesis by simp
qed

lemma repeat_exec_rep:
  assumes "0 \<le> n" and "n < m"
  shows "trace_rep (nat (m - n)) c s t \<longleftrightarrow> (\<exists>u. trace c s u \<and> trace_rep (nat (m - (n + 1))) c u t)"
proof -
  have "nat (m - n) = Suc (nat (m - (n + 1)))" using assms by simp
  then show ?thesis by simp
qed

lemma exec_assoc: "(\<exists>u. (\<exists>v. P v \<and> Q v u) \<and> R u) \<longleftrightarrow> (\<exists>v. P v \<and> (\<exists>u. Q v u \<and> R u))"
  by blast

lemmas iteration_defs = cursor_iteration_def cursor_pop_def cursor_push_def cursor_top_def
  enter_child_def Let_def

text \<open>An iteration does not change what is left to execute.\<close>

lemma iteration_exec:
  assumes iter: "cursor_iteration c = Inl c'" and st: "cur_stack c = f # fs"
    and ok: "frame_ok f" and live: "\<not> run_terminated s" and marks: "marks_agree c s"
  shows "stack_exec (cur_stack c') (silent c s) t \<longleftrightarrow> stack_exec (cur_stack c) s t"
proof (cases "fr_node f")
  case (EffectNodeSequence cs)
  with iter st ok live show ?thesis
    by (auto simp: iteration_defs silent_def frame_exec_node frame_exec_new drop_exec_seq exec_assoc split: if_splits; blast)
next
  case (EffectNodeChoice i cs)
  with iter st ok live show ?thesis
    by (auto simp: iteration_defs silent_def frame_exec_node frame_exec_new split: if_splits; blast)
next
  case (EffectNodeRepeat n b)
  with iter st ok live show ?thesis
    by (auto simp: iteration_defs silent_def frame_exec_node frame_exec_new repeat_exec_rep exec_assoc split: if_splits; blast)
next
  case (EffectNodeForwardPhase i b)
  with iter st live show ?thesis
    by (auto simp: iteration_defs silent_def frame_exec_node frame_exec_new trace_iff split: if_splits; blast)
next
  case (EffectNodeTrigger i b)
  moreover have "\<not> run_terminated (run_trigger i s)" using live by (simp add: run_trigger_def)
  ultimately show ?thesis using iter st live marks
    by (auto simp: iteration_defs silent_def frame_exec_node frame_exec_new trace_iff marks_agree_def split: if_splits; blast)
next
  case (EffectNodeConditional i b)
  moreover have "\<not> run_terminated (run_conditional i s)" using live by (simp add: run_conditional_def)
  ultimately show ?thesis using iter st live marks
    by (auto simp: iteration_defs silent_def frame_exec_node frame_exec_new trace_iff marks_agree_def split: if_splits; blast)
qed (use iter st live in \<open>auto simp: iteration_defs silent_def frame_exec_node trace_iff\<close>)

section \<open>The cursor invariant\<close>

definition phase_open :: "effectCursorFrame list \<Rightarrow> bool" where
  "phase_open fs \<longleftrightarrow> (\<exists>f \<in> set fs. is_forward_phase (fr_node f))"

definition entered :: "effectCursorFrame list \<Rightarrow> bool" where
  "entered fs \<longleftrightarrow> (\<exists>f \<in> set fs. is_forward_phase (fr_node f) \<and> fr_next f \<noteq> 0)"

primrec stack_shape :: "effectCursorFrame list \<Rightarrow> bool" where
  "stack_shape [] = True"
| "stack_shape (f # fs) = (node_shape (phase_open fs) (fr_node f) \<and> frame_ok f \<and> stack_shape fs)"

text \<open>Every phase frame below the top has been entered and counts the forward effects of the run;
  outside a phase the run has none that are not lowered.\<close>

definition stack_inv :: "effectCursorFrame list \<Rightarrow> tracedRun \<Rightarrow> bool" where
  "stack_inv fs s \<longleftrightarrow> stack_shape fs \<and>
     (\<forall>f \<in> set (tl fs). is_forward_phase (fr_node f) \<longrightarrow> fr_next f \<noteq> 0) \<and>
     run_ok (entered fs) s \<and>
     (\<forall>f \<in> set fs. is_forward_phase (fr_node f) \<longrightarrow> fr_forwardEffects f = forwardEffectCalls (run_demand s))"

definition cursor_inv :: "EffectCursor \<Rightarrow> tracedRun \<Rightarrow> bool" where
  "cursor_inv c s \<longleftrightarrow> stack_inv (cur_stack c) s \<and> marks_agree c s \<and>
     run_terminated s = cur_terminated c \<and> (cur_stack c \<noteq> [] \<longrightarrow> \<not> cur_terminated c)"

lemma phase_open_simps [simp]:
  "\<not> phase_open []" "phase_open (f # fs) \<longleftrightarrow> is_forward_phase (fr_node f) \<or> phase_open fs"
  by (simp_all add: phase_open_def)

lemma entered_simps [simp]:
  "\<not> entered []"
  "entered (f # fs) \<longleftrightarrow> is_forward_phase (fr_node f) \<and> fr_next f \<noteq> 0 \<or> entered fs"
  by (auto simp: entered_def)

lemma new_frame_sel [simp]:
  "fr_node (new_frame c) = c" "fr_next (new_frame c) = 0" "fr_selected (new_frame c) = - 1"
  "fr_forwardEffects (new_frame c) = 0"
  by (simp_all add: new_frame_def)

lemma new_frame_ok: "node_shape inside c \<Longrightarrow> frame_ok (new_frame c)"
  by (cases c) auto

lemma is_forward_phase_iff: "is_forward_phase n \<longleftrightarrow> (\<exists>i c. n = EffectNodeForwardPhase i c)"
  by (cases n) auto

lemma not_open_not_entered: "\<not> phase_open fs \<Longrightarrow> \<not> entered fs"
  by (auto simp: phase_open_def entered_def)

lemma stack_inv_frames: "stack_inv fs s \<Longrightarrow> \<forall>f \<in> set fs. frame_ok f"
proof -
  have "stack_shape fs \<Longrightarrow> \<forall>f \<in> set fs. frame_ok f" by (induction fs) auto
  then show "stack_inv fs s \<Longrightarrow> \<forall>f \<in> set fs. frame_ok f" by (simp add: stack_inv_def)
qed

lemma stack_inv_marks [simp]:
  "stack_inv fs (run_trigger i s) = stack_inv fs s"
  "stack_inv fs (run_conditional i s) = stack_inv fs s"
  by (simp_all add: stack_inv_def)

lemma stack_inv_pop:
  "stack_inv (f # fs) s \<Longrightarrow> \<not> is_forward_phase (fr_node f) \<Longrightarrow> stack_inv fs s"
  by (cases fs) (auto simp: stack_inv_def)

lemma stack_inv_leave:
  assumes "stack_inv (f # fs) s" and "is_forward_phase (fr_node f)"
  shows "stack_inv fs (run_leave_phase s)"
proof -
  have "\<not> phase_open fs" using assms by (auto simp: stack_inv_def is_forward_phase_iff)
  moreover have "run_ok True s" using assms(1) by (auto simp: stack_inv_def run_ok_def)
  ultimately show ?thesis
    using assms(1) run_ok_leave[of s "entered fs"]
    by (cases fs) (auto simp: stack_inv_def phase_open_def)
qed

lemma stack_inv_push:
  assumes inv: "stack_inv (f # fs) s"
    and g: "fr_node g = fr_node f" "frame_ok g" "fr_forwardEffects g = fr_forwardEffects f"
      "is_forward_phase (fr_node f) \<longrightarrow> fr_next g \<noteq> 0"
    and c: "node_shape (phase_open (f # fs)) c"
  shows "stack_inv (new_frame c # g # fs) s"
proof -
  have "run_ok (entered (g # fs)) s"
    using inv g(1,4) by (cases "is_forward_phase (fr_node f)") (auto simp: stack_inv_def run_ok_def)
  moreover have "forwardEffectCalls (run_demand s) = 0" if "is_forward_phase c"
  proof -
    from that c have "\<not> phase_open (f # fs)" by (auto simp: is_forward_phase_iff)
    then have "\<not> entered (f # fs)" by (rule not_open_not_entered)
    with inv show ?thesis by (simp add: stack_inv_def run_ok_def)
  qed
  ultimately show ?thesis
    using inv g c new_frame_ok[OF c] by (auto simp: stack_inv_def)
qed

lemma marks_agree_silent:
  assumes "cursor_iteration c = Inl c'" and "marks_agree c s"
  shows "marks_agree c' (silent c s)"
proof (cases "cur_stack c")
  case Nil
  with assms show ?thesis by (simp add: cursor_iteration_def)
next
  case (Cons f fs)
  with assms show ?thesis
    by (cases "fr_node f") (auto simp: iteration_defs silent_def marks_agree_def run_defs distinct_update
        split: if_splits)
qed

lemma iteration_stack_inv:
  assumes iter: "cursor_iteration c = Inl c'" and inv: "stack_inv (cur_stack c) s"
  shows "stack_inv (cur_stack c') (silent c s)"
proof (cases "cur_stack c")
  case Nil
  with iter show ?thesis by (simp add: cursor_iteration_def)
next
  case (Cons f fs)
  from inv Cons have f: "node_shape (phase_open fs) (fr_node f)" "frame_ok f"
    and inv': "stack_inv (f # fs) s" by (auto simp: stack_inv_def)
  note push = stack_inv_push[OF inv'] and pop = stack_inv_pop[OF inv'] and leave = stack_inv_leave[OF inv']
  show ?thesis
  proof (cases "fr_node f")
    case (EffectNodeForwardPhase i b)
    with f iter Cons push[of "f\<lparr>fr_next := 1\<rparr>" b] leave show ?thesis
      by (auto simp: iteration_defs silent_def split: if_splits)
  next
    case (EffectNodeSequence cs)
    with f have "nat (fr_next f) < length cs \<Longrightarrow> node_shape (phase_open fs) (cs ! nat (fr_next f))"
      by (auto simp: list_all_length)
    with EffectNodeSequence f iter Cons pop push[of "f\<lparr>fr_next := fr_next f + 1\<rparr>" "cs ! nat (fr_next f)"]
    show ?thesis by (auto simp: iteration_defs silent_def split: if_splits)
  next
    case (EffectNodeChoice i cs)
    with f have "nat (fr_selected f) < length cs \<Longrightarrow> node_shape (phase_open fs) (cs ! nat (fr_selected f))"
      by (auto simp: list_all_length)
    with EffectNodeChoice f iter Cons pop push[of "f\<lparr>fr_next := 1\<rparr>" "cs ! nat (fr_selected f)"]
    show ?thesis by (auto simp: iteration_defs silent_def split: if_splits)
  next
    case (EffectNodeRepeat n b)
    with f iter Cons pop push[of "f\<lparr>fr_next := fr_next f + 1\<rparr>" b] show ?thesis
      by (auto simp: iteration_defs silent_def split: if_splits)
  next
    case (EffectNodeTrigger i b)
    with f iter Cons pop push[of "f\<lparr>fr_next := 1\<rparr>" b] show ?thesis
      by (auto simp: iteration_defs silent_def split: if_splits)
  next
    case (EffectNodeConditional i b)
    with f iter Cons pop push[of "f\<lparr>fr_next := 1\<rparr>" b] show ?thesis
      by (auto simp: iteration_defs silent_def split: if_splits)
  qed (use iter Cons pop in \<open>auto simp: iteration_defs silent_def\<close>)
qed

lemma iteration_keeps:
  assumes "cursor_iteration c = Inl c'"
  shows "cur_state c' = cur_state c" "cur_effectStarted c' = cur_effectStarted c"
    "cur_terminated c' = cur_terminated c" "cur_stack c \<noteq> []"
  using assms
  by (auto simp: iteration_defs split: list.splits EffectNode.splits if_splits)

lemma silent_sel [simp]:
  "run_terminated (silent c s) = run_terminated s" "run_events (silent c s) = run_events s"
  "demand_lower (run_demand (silent c s)) = demand_lower (run_demand s)"
  by (auto simp: silent_def run_defs split: list.splits EffectNode.splits)

lemma iteration_inv:
  assumes iter: "cursor_iteration c = Inl c'" and inv: "cursor_inv c s"
  shows "cursor_inv c' (silent c s)"
    and "stack_exec (cur_stack c') (silent c s) t \<longleftrightarrow> stack_exec (cur_stack c) s t"
proof -
  from iteration_keeps(4)[OF iter] obtain f fs where st: "cur_stack c = f # fs" by (cases "cur_stack c") auto
  with inv have live: "\<not> run_terminated s" and ok: "frame_ok f" and marks: "marks_agree c s"
    by (auto simp: cursor_inv_def dest: stack_inv_frames)
  show "cursor_inv c' (silent c s)"
    using inv live iteration_stack_inv[OF iter] marks_agree_silent[OF iter] iteration_keeps[OF iter]
    by (simp add: cursor_inv_def)
  show "stack_exec (cur_stack c') (silent c s) t \<longleftrightarrow> stack_exec (cur_stack c) s t"
    using iter st ok live marks by (rule iteration_exec)
qed

text \<open>Hence \<open>next\<close> returns, keeps the invariant for a run that charges the same, and keeps what is
  left to execute.\<close>

definition next_to :: "EffectCursor \<Rightarrow> tracedRun \<Rightarrow> EffectCursor \<Rightarrow> tracedRun \<Rightarrow> bool" where
  "next_to c s c' s' \<longleftrightarrow> cursor_inv c' s' \<and>
     (\<forall>t. stack_exec (cur_stack c') s' t \<longleftrightarrow> stack_exec (cur_stack c) s t) \<and>
     demand_lower (run_demand s') = demand_lower (run_demand s) \<and> run_events s' = run_events s \<and>
     cur_state c' = cur_state c \<and> cur_effectStarted c' = cur_effectStarted c \<and>
     cur_terminated c' = cur_terminated c \<and>
     stack_work (cur_stack c') \<le> stack_work (cur_stack c)"

lemma next_ok:
  assumes "cursor_inv c s"
  shows "\<exists>c' r s'. cursor_next c = Some (c', r) \<and> cursor_iteration c' = Inr r \<and> next_to c s c' s'"
proof -
  have "\<exists>c' r. cursor_next c = Some (c', r) \<and> (\<exists>s'. next_to c s c' s') \<and> cursor_iteration c' = Inr r"
  proof (rule next_returns[where P = "\<lambda>d. \<exists>s'. next_to c s d s'"])
    fix d d' assume "\<exists>s'. next_to c s d s'" and iter: "cursor_iteration d = Inl d'"
    then obtain s' where s': "next_to c s d s'" by blast
    then have inv: "cursor_inv d s'" by (simp add: next_to_def)
    then have "stack_work (cur_stack d') < stack_work (cur_stack d)"
      using iter by (intro iteration_work) (auto simp: cursor_inv_def dest: stack_inv_frames)
    then have "next_to c s d' (silent d s')"
      using s' iteration_inv[OF iter inv] iteration_keeps[OF iter] by (simp add: next_to_def)
    then show "\<exists>s'. next_to c s d' s'" by blast
  next
    fix d assume "\<exists>s'. next_to c s d s'"
    then show "\<forall>f \<in> set (cur_stack d). frame_ok f"
      by (auto simp: next_to_def cursor_inv_def dest: stack_inv_frames)
  next
    show "\<exists>s'. next_to c s c s'" using assms by (auto simp: next_to_def)
  qed
  then show ?thesis by blast
qed

section \<open>One operation\<close>

text \<open>What \<open>next\<close> can return under the invariant: never an index panic, and the trigger error only
  when nothing can be executed any more.\<close>

lemma next_result:
  assumes inv: "cursor_inv c s" and iter: "cursor_iteration c = Inr r"
  obtains (finished) "r = NextDone" "cur_stack c = []"
  | (at_step) f fs i k where "r = NextStep" "cur_stack c = f # fs" "fr_node f = EffectNodeStep i k"
  | (at_choice) f fs i cs where "r = NextChoice" "cur_stack c = f # fs" "fr_node f = EffectNodeChoice i cs"
      "fr_selected f < 0"
  | (stuck) i where "r = NextError (CursorTriggerAfterConditional i)" "\<forall>t. \<not> stack_exec (cur_stack c) s t"
proof (cases "cur_stack c")
  case Nil
  with iter finished show ?thesis by (simp add: cursor_iteration_def)
next
  case (Cons f fs)
  have ok: "frame_ok f" and live: "\<not> run_terminated s" and marks: "marks_agree c s"
    using inv Cons by (auto simp: cursor_inv_def dest: stack_inv_frames)
  show ?thesis
  proof (cases "fr_node f")
    case (EffectNodeStep i k)
    with iter Cons at_step show ?thesis by (simp add: cursor_iteration_def)
  next
    case (EffectNodeSequence cs)
    with iter Cons ok show ?thesis by (auto simp: iteration_defs split: if_splits)
  next
    case (EffectNodeChoice i cs)
    with iter Cons ok at_choice show ?thesis by (auto simp: iteration_defs split: if_splits)
  next
    case (EffectNodeTrigger i b)
    with iter Cons have r: "r = NextError (CursorTriggerAfterConditional i)" "fr_next f = 0"
      and "go_get False (cur_conditionals c) i" by (auto simp: iteration_defs split: if_splits)
    then have "i \<in> run_conditionals s" using marks by (simp add: marks_agree_def)
    then have "\<forall>t. \<not> stack_exec (cur_stack c) s t"
      using Cons EffectNodeTrigger r(2) live by (simp add: frame_exec_node trace_iff)
    with r(1) stuck show ?thesis by blast
  qed (use iter Cons in \<open>auto simp: iteration_defs split: if_splits\<close>)
qed

text \<open>The rest of a terminated run only leaves the open phase.\<close>

lemma leave_idem [simp]: "run_leave_phase (run_leave_phase u) = run_leave_phase u"
  by (simp add: run_leave_phase_def)

lemma frame_exec_terminated:
  "run_terminated u \<Longrightarrow> frame_exec f u t \<longleftrightarrow>
     t = (if is_forward_phase (fr_node f) \<and> fr_next f \<noteq> 0 then run_leave_phase u else u)"
  by (cases "fr_node f") (auto simp: frame_exec_def trace_seq_terminated trace_rep_terminated)

lemma stack_exec_terminated:
  "run_terminated u \<Longrightarrow> stack_exec fs u t \<longleftrightarrow> t = (if entered fs then run_leave_phase u else u)"
proof (induction fs arbitrary: u)
  case Nil
  then show ?case by simp
next
  case (Cons f fs)
  moreover have "run_terminated (run_leave_phase u)" using Cons.prems by (simp add: run_leave_phase_def)
  ultimately show ?case by (auto simp: frame_exec_terminated)
qed

section \<open>Charges of consumed steps\<close>

lemma lower_plus_step:
  "k \<noteq> EffectStepForwardEffect \<Longrightarrow>
     demand_lower (demand_plus d (effectStepDemand k)) = demand_plus (demand_lower d) (effectStepDemand k)"
  by (cases k) (auto simp: demand_lower_def demand_plus_def zero_demand_def)

lemma lower_plus_forward:
  assumes "0 \<le> forwardEffectCalls d"
  shows "demand_lower (demand_plus d (effectStepDemand EffectStepForwardEffect)) =
    demand_plus (demand_lower d) (step_charge EffectStepForwardEffect
      (if forwardEffectCalls d = 0 then ForwardEffectEstablishStateDir else ForwardEffectValidateStateDir))"
  using assms by (auto simp: demand_lower_def demand_plus_def zero_demand_def step_charge_def)

text \<open>Phases do not nest, so counting up the innermost one counts up every phase frame.\<close>

definition count_phase :: "effectCursorFrame \<Rightarrow> effectCursorFrame" where
  "count_phase f = (if is_forward_phase (fr_node f) then f\<lparr>fr_forwardEffects := fr_forwardEffects f + 1\<rparr> else f)"

lemma count_phase_sel [simp]:
  "fr_node (count_phase f) = fr_node f" "fr_next (count_phase f) = fr_next f"
  "fr_selected (count_phase f) = fr_selected f"
  by (simp_all add: count_phase_def)

lemma count_phase_same [simp]:
  "frame_exec (count_phase f) s t = frame_exec f s t" "frame_work (count_phase f) = frame_work f"
  by (simp_all only: frame_exec_def frame_work_def count_phase_sel)

lemma count_phases_same [simp]:
  "stack_exec (map count_phase fs) s t = stack_exec fs s t"
  "stack_work (map count_phase fs) = stack_work fs"
  "phase_open (map count_phase fs) = phase_open fs"
  "entered (map count_phase fs) = entered fs"
  by (induction fs arbitrary: s) auto

lemma count_phases_shape [simp]: "stack_shape (map count_phase fs) = stack_shape fs"
  by (induction fs) auto

lemma enclosing_phase:
  "stack_shape fs \<Longrightarrow> phase_open fs \<Longrightarrow> \<forall>f \<in> set fs. is_forward_phase (fr_node f) \<longrightarrow> fr_forwardEffects f = n \<Longrightarrow>
     enclosingForwardPhase fs = Some (n, map count_phase fs)"
proof (induction fs)
  case Nil
  then show ?case by simp
next
  case (Cons f fs)
  show ?case
  proof (cases "is_forward_phase (fr_node f)")
    case True
    with Cons.prems have "\<not> phase_open fs" by (auto simp: is_forward_phase_iff)
    then have "map count_phase fs = fs" by (auto simp: phase_open_def count_phase_def intro!: map_idI)
    moreover have "count_phase f = f\<lparr>fr_forwardEffects := fr_forwardEffects f + 1\<rparr>"
      using True by (simp add: count_phase_def)
    ultimately show ?thesis using True Cons.prems by simp
  next
    case False
    with Cons show ?thesis by (simp add: count_phase_def)
  qed
qed

lemma stack_inv_forward:
  assumes "stack_inv (f # fs) s" and "fr_node f = EffectNodeStep i EffectStepForwardEffect"
  shows "enclosingForwardPhase (f # fs) = Some (forwardEffectCalls (run_demand s), f # map count_phase fs)"
    and "stack_inv (map count_phase fs) (trace_step i EffectStepForwardEffect s)"
proof -
  have fs: "stack_inv fs s" using stack_inv_pop[OF assms(1)] assms(2) by simp
  have op: "phase_open fs" using assms by (simp add: stack_inv_def)
  then have ent: "entered fs"
    using assms(1) by (auto simp: stack_inv_def phase_open_def entered_def)
  show "enclosingForwardPhase (f # fs) = Some (forwardEffectCalls (run_demand s), f # map count_phase fs)"
    using enclosing_phase[of fs] fs op assms(2) by (simp add: stack_inv_def)
  have "run_ok True (trace_step i EffectStepForwardEffect s)"
    using fs ent by (simp, intro run_ok_step) (simp_all add: stack_inv_def)
  then show "stack_inv (map count_phase fs) (trace_step i EffectStepForwardEffect s)"
    using fs ent by (cases fs)
      (auto simp: stack_inv_def run_defs count_phase_def demand_plus_def zero_demand_def)
qed

lemma stack_inv_step:
  assumes "stack_inv (f # fs) s" and "fr_node f = EffectNodeStep i k" and "k \<noteq> EffectStepForwardEffect"
  shows "stack_inv fs (trace_step i k s)"
proof -
  have fs: "stack_inv fs s" using stack_inv_pop[OF assms(1)] assms(2) by simp
  then have "run_ok (entered fs) (trace_step i k s)"
    using assms(3) by (simp, intro run_ok_step) (simp_all add: stack_inv_def)
  moreover have "forwardEffectCalls (run_demand (trace_step i k s)) = forwardEffectCalls (run_demand s)"
    using assms(3) by (cases k) (simp_all add: run_defs demand_plus_def zero_demand_def)
  ultimately show ?thesis using fs by (simp add: stack_inv_def)
qed

section \<open>Operations preserve the invariant\<close>

text \<open>A move of the cursor that hands out the events \<open>es\<close>, with the run it stands for.\<close>

definition moves :: "cursorEvent list \<Rightarrow> EffectCursor \<Rightarrow> tracedRun \<Rightarrow> EffectCursor \<Rightarrow> tracedRun \<Rightarrow> bool" where
  "moves es c s c' s' \<longleftrightarrow> cursor_inv c' s' \<and>
     (\<forall>t. stack_exec (cur_stack c') s' t \<longrightarrow> stack_exec (cur_stack c) s t) \<and>
     run_events s' = run_events s @ es \<and>
     demand_lower (run_demand s') = demand_plus (demand_lower (run_demand s)) (total_charge es) \<and>
     cur_state c' = cur_state c \<and> cur_terminated c' = run_terminated s'"

lemma moves_trans:
  assumes "moves es c s c' s'" and "moves fs c' s' c'' s''"
  shows "moves (es @ fs) c s c'' s''"
  using assms by (simp add: moves_def plus_assoc total_charge_append)

lemma next_moves: "next_to c s c' s' \<Longrightarrow> moves [] c s c' s'"
  by (auto simp: next_to_def moves_def cursor_inv_def)

lemma consume_effect_step:
  assumes inv: "cursor_inv c s" and st: "cur_stack c = f # fs" and node: "fr_node f = EffectNodeStep i k"
    and k: "k \<noteq> EffectStepForwardEffect" "k \<noteq> EffectStepTerminal"
  shows "\<exists>c'. consume_effect i k c = (c', Inr ForwardEffectNone) \<and> cur_stack c' = fs \<and>
    cursor_inv c' (trace_step i k s) \<and> cur_state c' = cur_state c \<and>
    cur_effectStarted c' = (cur_effectStarted c \<or> startsEffect k)"
proof -
  let ?c = "cursor_pop (if startsEffect k then c\<lparr>cur_effectStarted := True\<rparr> else c)"
  have "stack_inv fs (trace_step i k s)"
    using stack_inv_step[OF _ node k(1)] inv st by (simp add: cursor_inv_def)
  then have "cursor_inv ?c (trace_step i k s)"
    using inv st k(2) by (auto simp: cursor_inv_def cursor_pop_def marks_agree_def run_defs)
  then show ?thesis
    using k st by (intro exI[of _ ?c]) (simp add: consume_effect_def consume_leave_def cursor_pop_def)
qed

lemma consume_effect_forward:
  assumes inv: "cursor_inv c s" and st: "cur_stack c = f # fs"
    and node: "fr_node f = EffectNodeStep i EffectStepForwardEffect"
  shows "\<exists>c'. consume_effect i EffectStepForwardEffect c =
      (c', Inr (if forwardEffectCalls (run_demand s) = 0 then ForwardEffectEstablishStateDir
                else ForwardEffectValidateStateDir)) \<and>
    cur_stack c' = map count_phase fs \<and> cursor_inv c' (trace_step i EffectStepForwardEffect s) \<and>
    cur_state c' = cur_state c \<and> cur_effectStarted c'"
proof -
  have inv': "stack_inv (f # fs) s" using inv st by (simp add: cursor_inv_def)
  let ?c = "c\<lparr>cur_effectStarted := True, cur_stack := map count_phase fs\<rparr>"
  have "cursor_inv ?c (trace_step i EffectStepForwardEffect s)"
    using stack_inv_forward(2)[OF inv' node] inv st
    by (auto simp: cursor_inv_def marks_agree_def run_defs)
  then show ?thesis
    using stack_inv_forward(1)[OF inv' node] st
    by (intro exI[of _ ?c]) (simp add: consume_effect_def consume_leave_def cursor_pop_def)
qed

lemma consume_effect_terminal:
  assumes inv: "cursor_inv c s" and st: "cur_stack c = f # fs"
    and node: "fr_node f = EffectNodeStep i EffectStepTerminal"
  defines "u \<equiv> run_leave_phase (trace_step i EffectStepTerminal s)"
  shows "\<exists>c'. consume_effect i EffectStepTerminal c = (c', Inr ForwardEffectNone) \<and> cur_stack c' = [] \<and>
    cursor_inv c' u \<and> cur_state c' = cur_state c \<and> cur_effectStarted c' = cur_effectStarted c \<and>
    (\<forall>t. stack_exec fs (trace_step i EffectStepTerminal s) t \<longleftrightarrow> t = u)"
proof -
  have "stack_inv fs (trace_step i EffectStepTerminal s)"
    using stack_inv_step[OF _ node] inv st by (simp add: cursor_inv_def)
  then have ok: "run_ok (entered fs) (trace_step i EffectStepTerminal s)" by (simp add: stack_inv_def)
  have run: "run_terminated (trace_step i EffectStepTerminal s)" by (simp add: run_defs)
  have "(if entered fs then u else trace_step i EffectStepTerminal s) = u"
    using ok by (auto simp: u_def run_leave_phase_def run_ok_def)
  then have exec: "stack_exec fs (trace_step i EffectStepTerminal s) t \<longleftrightarrow> t = u" for t
    using stack_exec_terminated[OF run, of fs t] unfolding u_def by simp
  have "run_ok False u"
    unfolding u_def using ok by (intro run_ok_leave) (simp add: run_ok_def)
  then have "cursor_inv (c\<lparr>cur_stack := [], cur_terminated := True\<rparr>) u"
    using inv st by (simp add: cursor_inv_def stack_inv_def marks_agree_def u_def run_defs)
  with exec show ?thesis
    by (intro exI[of _ "c\<lparr>cur_stack := [], cur_terminated := True\<rparr>"])
      (simp add: consume_effect_def consume_leave_def)
qed

lemma consume_effect_moves:
  assumes inv: "cursor_inv c s" and st: "cur_stack c = f # fs" and node: "fr_node f = EffectNodeStep i k"
  shows "\<exists>c' checkpoint s'. consume_effect i k c = (c', Inr checkpoint) \<and>
    moves [Consumed i k checkpoint] c s c' s' \<and>
    (\<forall>t. stack_exec (cur_stack c) s t \<longrightarrow> stack_exec (cur_stack c') s' t) \<and>
    stack_work (cur_stack c') < stack_work (cur_stack c) \<and>
    cur_effectStarted c' = (cur_effectStarted c \<or> startsEffect k) \<and>
    cur_terminated c' = (k = EffectStepTerminal)"
proof -
  have live: "\<not> run_terminated s" using inv st by (simp add: cursor_inv_def)
  have exec: "stack_exec (cur_stack c) s t \<longleftrightarrow> stack_exec fs (trace_step i k s) t" for t
    using st node live by (simp add: frame_exec_node trace_iff)
  have work: "stack_work (cur_stack c) = Suc (stack_work fs)" using st node by (simp add: frame_work_node)
  have nonneg: "0 \<le> forwardEffectCalls (run_demand s)"
    using inv by (auto simp: cursor_inv_def stack_inv_def run_ok_def effectDemandDominates_def zero_demand_def)
  consider "k = EffectStepForwardEffect" | "k = EffectStepTerminal"
    | "k \<noteq> EffectStepForwardEffect" "k \<noteq> EffectStepTerminal" by blast
  then show ?thesis
  proof cases
    case 1
    with consume_effect_forward[OF inv st] node obtain c' where c':
      "consume_effect i k c = (c', Inr (if forwardEffectCalls (run_demand s) = 0
         then ForwardEffectEstablishStateDir else ForwardEffectValidateStateDir))"
      "cur_stack c' = map count_phase fs" "cursor_inv c' (trace_step i k s)" "cur_state c' = cur_state c"
      "cur_effectStarted c'" by auto
    let ?p = "if forwardEffectCalls (run_demand s) = 0 then ForwardEffectEstablishStateDir
      else ForwardEffectValidateStateDir"
    have "moves [Consumed i k ?p] c s c' (trace_step i k s)"
      using c' exec 1 lower_plus_forward[OF nonneg] by (simp add: moves_def cursor_inv_def step_checkpoint_def)
    moreover have ended: "cur_terminated c' = (k = EffectStepTerminal)"
      using c'(3) by (auto simp: cursor_inv_def run_defs)
    ultimately show ?thesis
      using c' exec work ended 1 by (intro exI[of _ c'] exI[of _ ?p] exI[of _ "trace_step i k s"]) simp
  next
    case 2
    with consume_effect_terminal[OF inv st] node obtain c' where c':
      "consume_effect i k c = (c', Inr ForwardEffectNone)" "cur_stack c' = []"
      "cursor_inv c' (run_leave_phase (trace_step i k s))" "cur_state c' = cur_state c"
      "cur_effectStarted c' = cur_effectStarted c"
      "\<forall>t. stack_exec fs (trace_step i k s) t \<longleftrightarrow> t = run_leave_phase (trace_step i k s)" by blast
    let ?u = "run_leave_phase (trace_step i k s)"
    have "moves [Consumed i k ForwardEffectNone] c s c' ?u"
      using c' exec 2 lower_plus_step[of k] by (simp add: moves_def cursor_inv_def step_charge_def step_checkpoint_def)
    moreover have ended: "cur_terminated c' = (k = EffectStepTerminal)"
      using c'(3) by (auto simp: cursor_inv_def run_defs)
    ultimately show ?thesis
      using c' exec work ended 2 by (intro exI[of _ c'] exI[of _ ForwardEffectNone] exI[of _ ?u]) simp
  next
    case 3
    with consume_effect_step[OF inv st node] obtain c' where c':
      "consume_effect i k c = (c', Inr ForwardEffectNone)" "cur_stack c' = fs"
      "cursor_inv c' (trace_step i k s)" "cur_state c' = cur_state c"
      "cur_effectStarted c' = (cur_effectStarted c \<or> startsEffect k)" by blast
    have "moves [Consumed i k ForwardEffectNone] c s c' (trace_step i k s)"
      using c' exec 3 lower_plus_step[OF 3(1)] by (simp add: moves_def cursor_inv_def step_charge_def step_checkpoint_def)
    moreover have ended: "cur_terminated c' = (k = EffectStepTerminal)"
      using c'(3) by (auto simp: cursor_inv_def run_defs)
    ultimately show ?thesis
      using c' exec work ended by (intro exI[of _ c'] exI[of _ ForwardEffectNone] exI[of _ "trace_step i k s"]) simp
  qed
qed

lemma select_moves:
  assumes inv: "cursor_inv c s" and st: "cur_stack c = f # fs" and node: "fr_node f = EffectNodeChoice i cs"
    and sel: "fr_selected f < 0" and a: "0 \<le> a" "a < int (length cs)"
  defines "c' \<equiv> cursor_top (f\<lparr>fr_selected := a\<rparr>) c" and "s' \<equiv> trace_event (Selected i a) s"
  shows "moves [Selected i a] c s c' s'"
    and "stack_exec (cur_stack c') s' t \<longleftrightarrow> (\<exists>u. trace (cs ! nat a) s' u \<and> stack_exec fs u t)"
    and "stack_work (cur_stack c') < stack_work (cur_stack c)"
proof -
  have live: "\<not> run_terminated s" and ok: "frame_ok f"
    using inv st by (auto simp: cursor_inv_def dest: stack_inv_frames)
  with node sel have nx: "fr_next f = 0" by simp
  have st': "cur_stack c' = f\<lparr>fr_selected := a\<rparr> # fs" using st by (simp add: c'_def cursor_top_def)
  show exec: "stack_exec (cur_stack c') s' t \<longleftrightarrow> (\<exists>u. trace (cs ! nat a) s' u \<and> stack_exec fs u t)" for t
    using st' node a nx by (simp add: frame_exec_node)
  show "stack_work (cur_stack c') < stack_work (cur_stack c)"
    using st st' node sel a nx by (simp add: frame_work_node)
  have "stack_inv (f\<lparr>fr_selected := a\<rparr> # fs) s'"
    using inv st node a nx by (simp add: cursor_inv_def stack_inv_def s'_def)
  then have "cursor_inv c' s'"
    using inv st st' by (auto simp: cursor_inv_def marks_agree_def c'_def cursor_top_def s'_def)
  moreover have "stack_exec (cur_stack c) s t" if "stack_exec (cur_stack c') s' t" for t
  proof -
    from that obtain u where u: "trace (cs ! nat a) s' u" "stack_exec fs u t" by (auto simp: exec)
    have "trace (EffectNodeChoice i cs) s u"
      using live a u(1) by (unfold s'_def, intro trace_choice[where a = "nat a"]) auto
    with u(2) st node sel show ?thesis by (auto simp: frame_exec_node)
  qed
  ultimately show "moves [Selected i a] c s c' s'"
    using inv by (auto simp: moves_def cursor_inv_def c'_def cursor_top_def s'_def)
qed

lemma with_next_active:
  assumes "cursor_next c = Some (c', r)" and "cur_state c = effectCursorActive"
  shows "with_next body (Some c) =
    (case r of NextError e \<Rightarrow> Some (Some c', Inl e) | _ \<Rightarrow> map_option (apfst Some) (Some (body c' r)))"
  using assms by (cases r) (auto simp: with_next_def requireActive_def split: prod.splits)

lemma with_next_inactive:
  "cur_state c \<noteq> effectCursorActive \<Longrightarrow>
     with_next body (Some c) = Some (Some c, Inl (if cur_state c = effectCursorFinished then CursorFinished else CursorAborted))"
  by (cases "cur_state c") (simp_all add: with_next_def requireActive_def)

lemma moves_refl: "cursor_inv c s \<Longrightarrow> moves [] c s c s"
  by (simp add: moves_def cursor_inv_def)

lemma select_effect:
  assumes inv: "cursor_inv c s"
  shows "\<exists>c' x s'. SelectAlternative i a (Some c) = Some (Some c', x) \<and>
    moves (case x of Inl e \<Rightarrow> [] | Inr _ \<Rightarrow> [Selected i a]) c s c' s'"
proof (cases "cur_state c = effectCursorActive")
  case True
  obtain c' r s' where nx: "cursor_next c = Some (c', r)"
    and n: "next_to c s c' s'" "cursor_iteration c' = Inr r" using next_ok[OF inv] by blast
  note w = with_next_active[OF nx True]
  from n(1) have inv': "cursor_inv c' s'" and m: "moves [] c s c' s'"
    by (simp_all add: next_to_def next_moves)
  from inv' n(2) show ?thesis
  proof (cases rule: next_result)
    case (at_choice f fs j cs)
    show ?thesis
    proof (cases "j = i \<and> 0 \<le> a \<and> a < int (length cs)")
      case True
      with select_moves(1)[OF inv' at_choice(2-4), of a] moves_trans[OF m]
      have "moves [Selected i a] c s (cursor_top (f\<lparr>fr_selected := a\<rparr>) c') (trace_event (Selected i a) s')" by fastforce
      with True at_choice show ?thesis
        by (auto simp: SelectAlternative_def w intro!: exI[of _ "cursor_top (f\<lparr>fr_selected := a\<rparr>) c'"] exI[of _ "trace_event (Selected i a) s'"])
    qed (use at_choice m in \<open>auto simp: SelectAlternative_def w\<close>)
  qed (use m in \<open>auto simp: SelectAlternative_def w\<close>)
qed (use inv in \<open>auto simp: SelectAlternative_def with_next_inactive intro: moves_refl\<close>)

lemma consume_result:
  assumes inv: "cursor_inv c s"
  shows "\<exists>c' x s'. consume i k (Some c) = Some (Some c', x) \<and>
    moves (case x of Inl e \<Rightarrow> [] | Inr p \<Rightarrow> [Consumed i k p]) c s c' s' \<and>
    cur_effectStarted c' = (cur_effectStarted c \<or> (\<exists>p. x = Inr p) \<and> startsEffect k) \<and>
    cur_terminated c' = (cur_terminated c \<or> (\<exists>p. x = Inr p) \<and> k = EffectStepTerminal)"
proof (cases "cur_state c = effectCursorActive")
  case True
  obtain c' r s' where nx: "cursor_next c = Some (c', r)"
    and n: "next_to c s c' s'" "cursor_iteration c' = Inr r" using next_ok[OF inv] by blast
  note w = with_next_active[OF nx True]
  from n(1) have inv': "cursor_inv c' s'" and m: "moves [] c s c' s'"
    and started: "cur_effectStarted c' = cur_effectStarted c" "cur_terminated c' = cur_terminated c"
    by (simp_all add: next_to_def next_moves)
  from inv' n(2) show ?thesis
  proof (cases rule: next_result)
    case (at_step f fs j l)
    show ?thesis
    proof (cases "j = i \<and> l = k")
      case True
      with consume_effect_moves[OF inv' at_step(2,3)] obtain d p u where
        d: "consume_effect i k c' = (d, Inr p)" "moves [Consumed i k p] c' s' d u"
        "cur_effectStarted d = (cur_effectStarted c' \<or> startsEffect k)"
        "cur_terminated d = (k = EffectStepTerminal)" by blast
      from moves_trans[OF m d(2)] have "moves [Consumed i k p] c s d u" by simp
      moreover have "\<not> cur_terminated c" using inv' at_step(2) started(2) by (simp add: cursor_inv_def)
      ultimately show ?thesis
        using True at_step d started
        by (intro exI[of _ d] exI[of _ "Inr p"] exI[of _ u]) (simp add: consume_def w)
    qed (use at_step m started in \<open>auto simp: consume_def w\<close>)
  qed (use m started in \<open>auto simp: consume_def w\<close>)
qed (use inv in \<open>auto simp: consume_def with_next_inactive intro: moves_refl\<close>)

lemma follow_up_iff:
  assumes "marks_agree c s"
  shows "follow_up_missing c \<longleftrightarrow> \<not> run_triggered s \<subseteq> run_conditionals s"
proof -
  have "(i, True) \<in> set (cur_triggers c) \<longleftrightarrow> go_get False (cur_triggers c) i" for i
  proof -
    have "map_of (cur_triggers c) i = Some True \<longleftrightarrow> (i, True) \<in> set (cur_triggers c)"
      using assms by (intro map_of_eq_Some_iff) (simp add: marks_agree_def)
    then show ?thesis by (cases "map_of (cur_triggers c) i") (auto simp: go_get_def)
  qed
  moreover have "follow_up_missing c \<longleftrightarrow>
      (\<exists>i. (i, True) \<in> set (cur_triggers c) \<and> \<not> go_get False (cur_conditionals c) i)"
    unfolding follow_up_missing_def list_ex_iff by fastforce
  ultimately show ?thesis using assms by (auto simp: marks_agree_def)
qed

text \<open>When the success check passes, the run that the cursor stands for is a complete execution of
  what was left.\<close>

definition finished_with :: "EffectCursor \<Rightarrow> tracedRun \<Rightarrow> tracedRun \<Rightarrow> bool" where
  "finished_with c s t \<longleftrightarrow> stack_exec (cur_stack c) s t \<and> run_complete t \<and> run_ok False t \<and>
     demand_lower (run_demand t) = demand_lower (run_demand s) \<and> run_events t = run_events s"

lemma finish_effect:
  assumes inv: "cursor_inv c s"
  shows "\<exists>c' x s'. FinishSuccess (Some c) = Some (Some c', x) \<and>
    (case x of Inl e \<Rightarrow> moves [] c s c' s' | Inr _ \<Rightarrow> finished_with c s s')"
proof (cases "cur_state c = effectCursorActive")
  case True
  obtain c' r s' where nx: "cursor_next c = Some (c', r)"
    and n: "next_to c s c' s'" "cursor_iteration c' = Inr r" using next_ok[OF inv] by blast
  note w = with_next_active[OF nx True]
  from n(1) have inv': "cursor_inv c' s'" and m: "moves [] c s c' s'"
    by (simp_all add: next_to_def next_moves)
  from inv' n(2) show ?thesis
  proof (cases rule: next_result)
    case finished
    have "marks_agree c' s'" "cur_terminated c' = run_terminated s'" "run_ok False s'"
      using inv' finished by (auto simp: cursor_inv_def stack_inv_def)
    moreover have "stack_exec (cur_stack c) s s'" "demand_lower (run_demand s') = demand_lower (run_demand s)"
      "run_events s' = run_events s" using n(1) finished by (auto simp: next_to_def)
    ultimately show ?thesis
      using finished m by (auto simp: FinishSuccess_def w finished_with_def run_complete_def follow_up_iff)
  qed (use m in \<open>auto simp: FinishSuccess_def w\<close>)
qed (use inv in \<open>auto simp: FinishSuccess_def with_next_inactive intro: moves_refl\<close>)

section \<open>Client runs\<close>

text \<open>A client calls the operations in any order; the events are the accepted calls, and refused
  calls may occur anywhere.\<close>

inductive client :: "cursorRef \<Rightarrow> cursorEvent list \<Rightarrow> cursorRef \<Rightarrow> bool" where
  client_stop: "client c [] c"
| client_select: "SelectAlternative i a c = Some (d, Inr ()) \<Longrightarrow> client d es e \<Longrightarrow>
    client c (Selected i a # es) e"
| client_consume: "consume i k c = Some (d, Inr p) \<Longrightarrow> client d es e \<Longrightarrow>
    client c (Consumed i k p # es) e"
| client_refused_select: "SelectAlternative i a c = Some (d, Inl x) \<Longrightarrow> client d es e \<Longrightarrow> client c es e"
| client_refused_consume: "consume i k c = Some (d, Inl x) \<Longrightarrow> client d es e \<Longrightarrow> client c es e"
| client_refused_finish: "FinishSuccess c = Some (d, Inl x) \<Longrightarrow> client d es e \<Longrightarrow> client c es e"

lemma moves_inv: "moves es c s c' s' \<Longrightarrow> cursor_inv c' s'"
  by (simp add: moves_def)

lemma client_moves:
  "client r es r' \<Longrightarrow> r = Some c \<Longrightarrow> cursor_inv c s \<Longrightarrow>
     \<exists>c' s'. r' = Some c' \<and> moves es c s c' s'"
proof (induction arbitrary: c s rule: client.induct)
  case (client_stop r)
  then show ?case by (auto intro: moves_refl)
next
  case (client_select i a r d es e)
  with select_effect[of c s i a] obtain c' s' where m: "d = Some c'" "moves [Selected i a] c s c' s'" by auto
  from moves_inv[OF m(2)] client_select.IH[OF m(1)] obtain c'' s'' where
    e: "e = Some c''" "moves es c' s' c'' s''" by blast
  from e(1) moves_trans[OF m(2) e(2)] show ?case by auto
next
  case (client_consume i k r d p es e)
  with consume_result[of c s i k] obtain c' s' where m: "d = Some c'" "moves [Consumed i k p] c s c' s'"
    by auto
  from moves_inv[OF m(2)] client_consume.IH[OF m(1)] obtain c'' s'' where
    e: "e = Some c''" "moves es c' s' c'' s''" by blast
  from e(1) moves_trans[OF m(2) e(2)] show ?case by auto
next
  case (client_refused_select i a r d x es e)
  with select_effect[of c s i a] obtain c' s' where m: "d = Some c'" "moves [] c s c' s'" by auto
  from moves_inv[OF m(2)] client_refused_select.IH[OF m(1)] obtain c'' s'' where
    e: "e = Some c''" "moves es c' s' c'' s''" by blast
  from e(1) moves_trans[OF m(2) e(2)] show ?case by auto
next
  case (client_refused_consume i k r d x es e)
  with consume_result[of c s i k] obtain c' s' where m: "d = Some c'" "moves [] c s c' s'" by auto
  from moves_inv[OF m(2)] client_refused_consume.IH[OF m(1)] obtain c'' s'' where
    e: "e = Some c''" "moves es c' s' c'' s''" by blast
  from e(1) moves_trans[OF m(2) e(2)] show ?case by auto
next
  case (client_refused_finish r d x es e)
  with finish_effect[of c s] obtain c' s' where m: "d = Some c'" "moves [] c s c' s'" by auto
  from moves_inv[OF m(2)] client_refused_finish.IH[OF m(1)] obtain c'' s'' where
    e: "e = Some c''" "moves es c' s' c'' s''" by blast
  from e(1) moves_trans[OF m(2) e(2)] show ?case by auto
qed

lemma begin_inv:
  assumes "effect_wellformed (root S)"
  shows "cursor_inv (Begin S) initial_trace" "cur_state (Begin S) = effectCursorActive"
    "stack_exec (cur_stack (Begin S)) initial_trace t \<longleftrightarrow> trace (root S) initial_trace t"
proof -
  have "node_shape False (root S)" using assms by (simp add: effect_wellformed_def)
  then show "cursor_inv (Begin S) initial_trace"
    using new_frame_ok[of False "root S"]
    by (auto simp: cursor_inv_def stack_inv_def Begin_def cursor_push_def marks_agree_def initial_trace_def initial_run_def effectRun.extend_def
        run_ok_def zero_demand_def effectDemandDominates_def)
  show "cur_state (Begin S) = effectCursorActive"
    "stack_exec (cur_stack (Begin S)) initial_trace t \<longleftrightarrow> trace (root S) initial_trace t"
    by (simp_all add: Begin_def cursor_push_def frame_exec_new)
qed

section \<open>Every execution is accepted\<close>

text \<open>One accepted operation towards a given end of the run.\<close>

definition progresses :: "EffectCursor \<Rightarrow> tracedRun \<Rightarrow> tracedRun \<Rightarrow> cursorEvent \<Rightarrow> EffectCursor \<Rightarrow> tracedRun \<Rightarrow> bool" where
  "progresses c s t e c' s' \<longleftrightarrow>
     (\<forall>es r. client (Some c') es r \<longrightarrow> client (Some c) (e # es) r) \<and>
     moves [e] c s c' s' \<and> stack_exec (cur_stack c') s' t \<and>
     stack_work (cur_stack c') < stack_work (cur_stack c)"

lemma choice_progress:
  assumes inv: "cursor_inv c s" and act: "cur_state c = effectCursorActive"
    and nx: "cursor_next c = Some (c', NextChoice)" and n: "next_to c s c' s'"
    and at: "cur_stack c' = f # fs" "fr_node f = EffectNodeChoice i cs" "fr_selected f < 0"
    and t: "stack_exec (cur_stack c) s t"
  shows "\<exists>e c'' s''. progresses c s t e c'' s''"
proof -
  from n have inv': "cursor_inv c' s'" and m: "moves [] c s c' s'"
    and t': "stack_exec (cur_stack c') s' t" and le: "stack_work (cur_stack c') \<le> stack_work (cur_stack c)"
    using t by (simp_all add: next_to_def next_moves)
  have "\<not> run_terminated s'" using inv' at(1) by (simp add: cursor_inv_def)
  with t' at obtain a u where a: "a < length cs" "trace (cs ! a) (trace_event (Selected i (int a)) s') u" "stack_exec fs u t"
    by (auto simp: frame_exec_node trace_iff)
  let ?c = "cursor_top (f\<lparr>fr_selected := int a\<rparr>) c'"
  note sel = select_moves[OF inv' at, of "int a"]
  have "SelectAlternative i (int a) (Some c) = Some (Some ?c, Inr ())"
    using a(1) at by (simp add: SelectAlternative_def with_next_active[OF nx act])
  moreover have "stack_exec (cur_stack ?c) (trace_event (Selected i (int a)) s') t" using sel(2) a by auto
  moreover have "moves [Selected i (int a)] c s ?c (trace_event (Selected i (int a)) s')" using moves_trans[OF m sel(1)] a(1) by simp
  ultimately have "progresses c s t (Selected i (int a)) ?c (trace_event (Selected i (int a)) s')"
    using sel(3) a(1) le by (auto simp: progresses_def intro: client_select)
  then show ?thesis by blast
qed

lemma step_progress:
  assumes inv: "cursor_inv c s" and act: "cur_state c = effectCursorActive"
    and nx: "cursor_next c = Some (c', NextStep)" and n: "next_to c s c' s'"
    and at: "cur_stack c' = f # fs" "fr_node f = EffectNodeStep i k"
    and t: "stack_exec (cur_stack c) s t"
  shows "\<exists>e c'' s''. progresses c s t e c'' s''"
proof -
  from n have inv': "cursor_inv c' s'" and m: "moves [] c s c' s'"
    and t': "stack_exec (cur_stack c') s' t" and le: "stack_work (cur_stack c') \<le> stack_work (cur_stack c)"
    using t by (simp_all add: next_to_def next_moves)
  from consume_effect_moves[OF inv' at] obtain d p u where
    d: "consume_effect i k c' = (d, Inr p)" "moves [Consumed i k p] c' s' d u"
    "\<forall>t. stack_exec (cur_stack c') s' t \<longrightarrow> stack_exec (cur_stack d) u t"
    "stack_work (cur_stack d) < stack_work (cur_stack c')" by blast
  have "consume i k (Some c) = Some (Some d, Inr p)"
    using at d(1) by (simp add: consume_def with_next_active[OF nx act])
  moreover have "moves [Consumed i k p] c s d u" using moves_trans[OF m d(2)] by simp
  ultimately have "progresses c s t (Consumed i k p) d u"
    using d(3,4) t' le by (auto simp: progresses_def intro: client_consume)
  then show ?thesis by blast
qed

lemma cursor_accepts:
  assumes "cursor_inv c s" and "cur_state c = effectCursorActive" and "stack_exec (cur_stack c) s t"
    and "run_complete t"
  shows "\<exists>es r d. client (Some c) es r \<and> FinishSuccess r = Some (d, Inr ()) \<and> run_events t = run_events s @ es \<and>
    demand_plus (demand_lower (run_demand s)) (total_charge es) = demand_lower (run_demand t)"
  using assms
proof (induction "stack_work (cur_stack c)" arbitrary: c s rule: less_induct)
  case less
  obtain c' r s' where nx: "cursor_next c = Some (c', r)" and n: "next_to c s c' s'"
    and iter: "cursor_iteration c' = Inr r" using next_ok[OF less.prems(1)] by blast
  from n less.prems(3) have inv': "cursor_inv c' s'" and t': "stack_exec (cur_stack c') s' t"
    by (simp_all add: next_to_def)
  have go: ?case if "\<exists>e c'' s''. progresses c s t e c'' s''"
  proof -
    from that obtain e c'' s'' where p: "progresses c s t e c'' s''" by blast
    from p less.hyps[of c'' s''] less.prems(2,4) obtain es q d where
      q: "client (Some c'') es q" "FinishSuccess q = Some (d, Inr ())"
      "run_events t = run_events s'' @ es" "demand_plus (demand_lower (run_demand s'')) (total_charge es) = demand_lower (run_demand t)"
      by (auto simp: progresses_def moves_def)
    then have "client (Some c) (e # es) q" using p by (simp add: progresses_def)
    with p q(2-) show ?thesis
      by (intro exI[of _ "e # es"] exI[of _ q] exI[of _ d]) (simp add: progresses_def moves_def plus_assoc)
  qed
  from inv' iter show ?case
  proof (cases rule: next_result)
    case finished
    with t' have "t = s'" by simp
    moreover have "marks_agree c' s'" "cur_terminated c' = run_terminated s'"
      using inv' by (simp_all add: cursor_inv_def)
    ultimately have "FinishSuccess (Some c) = Some (Some (c'\<lparr>cur_state := effectCursorFinished\<rparr>), Inr ())"
      using less.prems(2,4) finished nx
      by (auto simp: FinishSuccess_def with_next_active run_complete_def follow_up_iff)
    with n \<open>t = s'\<close> show ?thesis
      by (intro exI[of _ "[]"] exI[of _ "Some c"] exI[of _ "Some (c'\<lparr>cur_state := effectCursorFinished\<rparr>)"])
        (simp add: next_to_def client_stop)
  next
    case (at_step f fs i k)
    with less.prems nx n show ?thesis by (intro go step_progress[where c' = c']) auto
  next
    case (at_choice f fs i cs)
    with less.prems nx n show ?thesis by (intro go choice_progress[where c' = c']) auto
  next
    case (stuck i)
    with t' show ?thesis by blast
  qed
qed

section \<open>Effects started and hand-offs\<close>

fun starting_event :: "cursorEvent \<Rightarrow> bool" where
  "starting_event (Consumed i k p) = startsEffect k"
| "starting_event (Selected i a) = False"

fun handoff_event :: "cursorEvent \<Rightarrow> bool" where
  "handoff_event (Consumed i k p) = (k = EffectStepTerminal)"
| "handoff_event (Selected i a) = False"

definition flags_agree :: "cursorEvent list \<Rightarrow> EffectCursor \<Rightarrow> EffectCursor \<Rightarrow> bool" where
  "flags_agree es c c' \<longleftrightarrow>
     cur_effectStarted c' = (cur_effectStarted c \<or> list_ex starting_event es) \<and>
     cur_terminated c' = (cur_terminated c \<or> list_ex handoff_event es)"

lemma with_next_flags:
  assumes inv: "cursor_inv c s" and w: "with_next body (Some c) = Some (d, x)"
    and body: "\<And>c r c' x. body c r = (c', x) \<Longrightarrow>
      cur_effectStarted c' = cur_effectStarted c \<and> cur_terminated c' = cur_terminated c"
  shows "\<exists>c'. d = Some c' \<and> flags_agree [] c c'"
proof (cases "cur_state c = effectCursorActive")
  case True
  obtain c' r s' where nx: "cursor_next c = Some (c', r)" and n: "next_to c s c' s'"
    using next_ok[OF inv] by blast
  obtain c'' y where b: "body c' r = (c'', y)" by fastforce
  have "d = Some c'' \<or> d = Some c'"
    using w b by (cases r) (auto simp: with_next_active[OF nx True])
  moreover have "flags_agree [] c c'" "flags_agree [] c c''"
    using n body[OF b] by (auto simp: next_to_def flags_agree_def)
  ultimately show ?thesis by blast
qed (use w in \<open>auto simp: with_next_inactive flags_agree_def\<close>)

lemma select_flags:
  assumes inv: "cursor_inv c s" and op: "SelectAlternative i a (Some c) = Some (d, x)"
  shows "\<exists>c' s'. d = Some c' \<and> cursor_inv c' s' \<and> flags_agree [] c c'"
proof -
  have "\<exists>c'. d = Some c' \<and> flags_agree [] c c'"
    using inv op unfolding SelectAlternative_def
    by (rule with_next_flags) (auto simp: cursor_top_def split: if_splits)
  with select_effect[OF inv, of i a] op show ?thesis by (auto dest: moves_inv)
qed

lemma finish_flags:
  assumes inv: "cursor_inv c s" and op: "FinishSuccess (Some c) = Some (d, Inl x)"
  shows "\<exists>c' s'. d = Some c' \<and> cursor_inv c' s' \<and> flags_agree [] c c'"
proof -
  have "\<exists>c'. d = Some c' \<and> flags_agree [] c c'"
    using inv op unfolding FinishSuccess_def by (rule with_next_flags) (auto split: if_splits)
  with finish_effect[OF inv] op show ?thesis by (auto dest: moves_inv)
qed

lemma consume_flags:
  assumes inv: "cursor_inv c s"
  shows "consume i k (Some c) = Some (d, Inr p) \<Longrightarrow>
      \<exists>c' s'. d = Some c' \<and> cursor_inv c' s' \<and> flags_agree [Consumed i k p] c c'"
    and "consume i k (Some c) = Some (d, Inl e) \<Longrightarrow>
      \<exists>c' s'. d = Some c' \<and> cursor_inv c' s' \<and> flags_agree [] c c'"
  using consume_result[OF inv, of i k] by (auto simp: flags_agree_def dest!: moves_inv)

lemma flags_agree_trans: "flags_agree es c c' \<Longrightarrow> flags_agree fs c' c'' \<Longrightarrow> flags_agree (es @ fs) c c''"
  by (auto simp: flags_agree_def)

lemma flags_agree_selected: "flags_agree (Selected i a # es) c c' = flags_agree es c c'"
  by (simp add: flags_agree_def)

lemma client_flags:
  "client r es r' \<Longrightarrow> r = Some c \<Longrightarrow> cursor_inv c s \<Longrightarrow> \<exists>c'. r' = Some c' \<and> flags_agree es c c'"
proof (induction arbitrary: c s rule: client.induct)
  case (client_stop r)
  then show ?case by (simp add: flags_agree_def)
next
  case (client_select i a r d es e)
  obtain c' s' where m: "d = Some c'" "cursor_inv c' s'" "flags_agree [] c c'"
    using select_flags[OF client_select.prems(2) client_select.hyps(1)[unfolded client_select.prems(1)]] by blast
  from client_select.IH[OF m(1,2)] obtain c'' where c'': "e = Some c''" "flags_agree es c' c''" by blast
  from flags_agree_trans[OF m(3) c''(2)] c''(1) show ?case by (simp add: flags_agree_selected)
next
  case (client_consume i k r d p es e)
  obtain c' s' where m: "d = Some c'" "cursor_inv c' s'" "flags_agree [Consumed i k p] c c'"
    using consume_flags(1)[OF client_consume.prems(2) client_consume.hyps(1)[unfolded client_consume.prems(1)]] by blast
  from client_consume.IH[OF m(1,2)] obtain c'' where c'': "e = Some c''" "flags_agree es c' c''" by blast
  from flags_agree_trans[OF m(3) c''(2)] c''(1) show ?case by simp
next
  case (client_refused_select i a r d x es e)
  obtain c' s' where m: "d = Some c'" "cursor_inv c' s'" "flags_agree [] c c'"
    using select_flags[OF client_refused_select.prems(2) client_refused_select.hyps(1)[unfolded client_refused_select.prems(1)]] by blast
  from client_refused_select.IH[OF m(1,2)] obtain c'' where c'': "e = Some c''" "flags_agree es c' c''" by blast
  from flags_agree_trans[OF m(3) c''(2)] c''(1) show ?case by simp
next
  case (client_refused_consume i k r d x es e)
  obtain c' s' where m: "d = Some c'" "cursor_inv c' s'" "flags_agree [] c c'"
    using consume_flags(2)[OF client_refused_consume.prems(2) client_refused_consume.hyps(1)[unfolded client_refused_consume.prems(1)]] by blast
  from client_refused_consume.IH[OF m(1,2)] obtain c'' where c'': "e = Some c''" "flags_agree es c' c''" by blast
  from flags_agree_trans[OF m(3) c''(2)] c''(1) show ?case by simp
next
  case (client_refused_finish r d x es e)
  obtain c' s' where m: "d = Some c'" "cursor_inv c' s'" "flags_agree [] c c'"
    using finish_flags[OF client_refused_finish.prems(2) client_refused_finish.hyps(1)[unfolded client_refused_finish.prems(1)]] by blast
  from client_refused_finish.IH[OF m(1,2)] obtain c'' where c'': "e = Some c''" "flags_agree es c' c''" by blast
  from flags_agree_trans[OF m(3) c''(2)] c''(1) show ?case by simp
qed

section \<open>The cursor theorems\<close>

lemma client_from_begin:
  assumes "compileEffectStructure n = Inr S" and "client (Some (Begin S)) es r"
  obtains c s where "r = Some c" and "moves es (Begin S) initial_trace c s"
    and "cur_state c = effectCursorActive" and "flags_agree es (Begin S) c" and "cursor_inv c s"
proof -
  from compiled_root[OF assms(1)] have wf: "effect_wellformed (root S)" by auto
  note inv = begin_inv[OF wf]
  obtain c s where c: "r = Some c" "moves es (Begin S) initial_trace c s"
    using client_moves[OF assms(2) refl inv(1)] by blast
  moreover have "flags_agree es (Begin S) c"
    using client_flags[OF assms(2) refl inv(1)] c(1) by auto
  ultimately show ?thesis using that inv(2) by (auto simp: moves_def)
qed

lemma zero_forward: "forwardEffectCalls zero_demand = 0"
  by (simp add: zero_demand_def)

lemma finished_trace:
  assumes "compileEffectStructure n = Inr S" and "client (Some (Begin S)) es r"
    and "FinishSuccess r = Some (d, Inr ())"
  shows "\<exists>t. trace n initial_trace t \<and> run_complete t \<and> run_events t = es \<and> run_demand t = total_charge es"
proof -
  from assms(1,2) obtain c s where r: "r = Some c" and m: "moves es (Begin S) initial_trace c s"
    and inv: "cursor_inv c s" by (rule client_from_begin)
  from finish_effect[OF inv] assms(3) r obtain t where t: "finished_with c s t" by auto
  from compiled_root[OF assms(1)] have wf: "effect_wellformed (root S)" and n: "root S = n" by auto
  have "trace n initial_trace t" using t m begin_inv(3)[OF wf] n by (auto simp: finished_with_def moves_def)
  moreover have "run_demand t = total_charge es"
    using t m lower_id[of zero_demand] lower_id[of "run_demand t"]
    by (simp add: finished_with_def moves_def run_ok_def zero_forward)
  moreover have "run_events t = es" using t m by (simp add: finished_with_def moves_def)
  ultimately show ?thesis using t by (auto simp: finished_with_def)
qed

lemma accepted_trace:
  assumes "compileEffectStructure n = Inr S" and "trace n initial_trace t" and "run_complete t"
  shows "\<exists>r d. client (Some (Begin S)) (run_events t) r \<and> FinishSuccess r = Some (d, Inr ()) \<and>
    total_charge (run_events t) = run_demand t"
proof -
  from compiled_root[OF assms(1)] have wf: "effect_wellformed (root S)" and n: "root S = n" by auto
  note b = begin_inv[OF wf]
  have "node_shape False n" using wf n by (simp add: effect_wellformed_def)
  from exec_ok(1)[OF trace_exec(1)[OF assms(2), unfolded forget_sel] this run_ok_initial]
  have "demand_lower (run_demand t) = run_demand t" by (intro lower_id) (simp add: run_ok_def)
  moreover have "demand_lower (run_demand initial_trace) = zero_demand" "run_events initial_trace = []"
    by (simp_all add: initial_trace_def initial_run_def effectRun.extend_def zero_forward)
  ultimately show ?thesis
    using cursor_accepts[OF b(1,2) _ assms(3)] b(3) n assms(2) by auto
qed

text \<open>Without the events.\<close>

lemma finished_run:
  assumes "compileEffectStructure n = Inr S" and "client (Some (Begin S)) es r"
    and "FinishSuccess r = Some (d, Inr ())"
  shows "\<exists>t. exec n initial_run t \<and> run_complete t \<and> run_demand t = total_charge es"
  using finished_trace[OF assms] trace_exec(1)[of n initial_trace] by (metis forget_sel(1,5,6))

lemma accepted_run:
  assumes "compileEffectStructure n = Inr S" and "exec n initial_run t" and "run_complete t"
  shows "\<exists>es r d. client (Some (Begin S)) es r \<and> FinishSuccess r = Some (d, Inr ()) \<and>
    total_charge es = run_demand t"
proof -
  obtain u where u: "trace n initial_trace u" "t = forget u"
    using exec_trace(1)[OF assms(2), of initial_trace] by auto
  then obtain r d where run: "client (Some (Begin S)) (run_events u) r" "FinishSuccess r = Some (d, Inr ())"
      "total_charge (run_events u) = run_demand u"
    using accepted_trace[OF assms(1) u(1)] assms(3) by auto
  then show ?thesis using u(2) by auto
qed

lemma next_error:
  assumes "cursor_inv c s" and "cursor_next c = Some (c', NextError e)"
  shows "\<exists>i. e = CursorTriggerAfterConditional i"
proof -
  obtain s' where "next_to c s c' s'" "cursor_iteration c' = Inr (NextError e)"
    using next_ok[OF assms(1)] assms(2) by auto
  then have "cursor_inv c' s'" by (simp add: next_to_def)
  from this \<open>cursor_iteration c' = Inr (NextError e)\<close> show ?thesis
    by (cases rule: next_result) auto
qed

definition defect_error :: "cursorError \<Rightarrow> bool" where
  "defect_error e \<longleftrightarrow> e = CursorIndexPanic \<or> (\<exists>i. e = CursorNoEnclosingPhase i)"

lemma with_next_no_defect:
  assumes inv: "cursor_inv c s" and w: "with_next body (Some c) = Some (d, Inl e)"
    and body: "\<And>c' r c'' e s'. cursor_inv c' s' \<Longrightarrow> cursor_iteration c' = Inr r \<Longrightarrow> \<nexists>x. r = NextError x \<Longrightarrow>
      body c' r = (c'', Inl e) \<Longrightarrow> \<not> defect_error e"
  shows "\<not> defect_error e"
proof (cases "cur_state c = effectCursorActive")
  case True
  obtain c' r s' where nx: "cursor_next c = Some (c', r)" and n: "next_to c s c' s'" "cursor_iteration c' = Inr r"
    using next_ok[OF inv] by blast
  show ?thesis
  proof (cases "\<exists>x. r = NextError x")
    case err: True
    with nx next_error[OF inv] w show ?thesis
      by (auto simp: with_next_active[OF nx True] defect_error_def)
  next
    case False
    then obtain c'' where "body c' r = (c'', Inl e)"
      using w by (cases r; cases "body c' r") (auto simp: with_next_active[OF nx True])
    with body False n show ?thesis by (auto simp: next_to_def)
  qed
qed (use w in \<open>auto simp: with_next_inactive defect_error_def split: if_splits\<close>)

lemma consume_no_defect:
  assumes "cursor_inv c s" and "consume i k (Some c) = Some (d, Inl e)"
  shows "\<not> defect_error e"
  using assms unfolding consume_def
proof (rule with_next_no_defect)
  fix c' r c'' e s'
  assume inv: "cursor_inv c' s'" and it: "cursor_iteration c' = Inr r" and "\<nexists>x. r = NextError x"
    and b: "(if r = NextDone then (c', Inl CursorNoRemainingStep)
      else if r = NextChoice then (c', Inl (CursorChoiceNotSelected (node_choice_id (cursor_node c'))))
      else if node_step (cursor_node c') \<noteq> (i, k)
      then (c', Inl (CursorOtherStep (fst (node_step (cursor_node c'))) (snd (node_step (cursor_node c'))) i k))
      else consume_effect i k c') = (c'', Inl e)"
  from inv it show "\<not> defect_error e"
  proof (cases rule: next_result)
    case (at_step f fs j l)
    with consume_effect_moves[OF inv at_step(2,3)] b show ?thesis
      by (auto simp: defect_error_def split: if_splits)
  qed (use b \<open>\<nexists>x. r = NextError x\<close> in \<open>auto simp: defect_error_def split: if_splits\<close>)
qed

lemma select_no_defect:
  assumes "cursor_inv c s" and "SelectAlternative i a (Some c) = Some (d, Inl e)"
  shows "\<not> defect_error e"
  using assms unfolding SelectAlternative_def
  by (rule with_next_no_defect) (auto simp: defect_error_def split: if_splits)

lemma finish_no_defect:
  assumes "cursor_inv c s" and "FinishSuccess (Some c) = Some (d, Inl e)"
  shows "\<not> defect_error e"
  using assms unfolding FinishSuccess_def
  by (rule with_next_no_defect) (auto simp: defect_error_def split: if_splits)

text \<open>C6: whatever a client has done with a cursor of a compiled structure, every operation that
  looks for the next pending frame returns (its loop ends) and never indexes a child out of range
  or meets a forward effect outside a phase.\<close>

theorem cursor_operations_return:
  assumes "compileEffectStructure n = Inr S" and "client (Some (Begin S)) es r"
  shows "(\<exists>d x. SelectAlternative i a r = Some (d, x) \<and> (\<forall>e. x = Inl e \<longrightarrow> \<not> defect_error e)) \<and>
    (\<exists>d x. consume i k r = Some (d, x) \<and> (\<forall>e. x = Inl e \<longrightarrow> \<not> defect_error e)) \<and>
    (\<exists>d x. FinishSuccess r = Some (d, x) \<and> (\<forall>e. x = Inl e \<longrightarrow> \<not> defect_error e))"
proof (intro conjI)
  from assms obtain c s where r: "r = Some c" and inv: "cursor_inv c s" by (rule client_from_begin)
  show "\<exists>d x. SelectAlternative i a r = Some (d, x) \<and> (\<forall>e. x = Inl e \<longrightarrow> \<not> defect_error e)"
    using select_effect[OF inv] select_no_defect[OF inv] r by fastforce
  show "\<exists>d x. consume i k r = Some (d, x) \<and> (\<forall>e. x = Inl e \<longrightarrow> \<not> defect_error e)"
    using consume_result[OF inv] consume_no_defect[OF inv] r by fastforce
  show "\<exists>d x. FinishSuccess r = Some (d, x) \<and> (\<forall>e. x = Inl e \<longrightarrow> \<not> defect_error e)"
    using finish_effect[OF inv] finish_no_defect[OF inv] r by fastforce
qed

text \<open>C7: what a cursor hands out until it finishes successfully is a complete execution of its structure: the
  accepted calls are, call by call, the alternatives chosen and the steps reached by one such execution, with the ids,
  the kinds and the order of the structure; in every forward phase the first forward effect establishes the state
  directory and each later one validates it; and they charge what that execution charges.\<close>

theorem finished_cursor_is_execution:
  assumes "compileEffectStructure n = Inr S" and "client (Some (Begin S)) es r"
    and "FinishSuccess r = Some (d, Inr ())"
  shows "\<exists>t. trace n initial_trace t \<and> run_complete t \<and> run_events t = es \<and> run_demand t = total_charge es"
  using assms by (rule finished_trace)

text \<open>C8: the cursor refuses no complete execution: a client that makes exactly the choices and consumes exactly
  the steps of a given one, in its order, has every call accepted and finishes successfully.\<close>

theorem cursor_accepts_executions:
  assumes "compileEffectStructure n = Inr S" and "trace n initial_trace t" and "run_complete t"
  shows "\<exists>r d. client (Some (Begin S)) (run_events t) r \<and> FinishSuccess r = Some (d, Inr ())"
  using accepted_trace[OF assms] by blast

text \<open>C9: an abort is accepted exactly while no consumed step starts an effect and no hand-off was
  consumed.\<close>

theorem abort_only_before_effects:
  assumes "compileEffectStructure n = Inr S" and "client (Some (Begin S)) es r"
  shows "(\<exists>d. AbortBeforeEffect r = (d, Inr ())) \<longleftrightarrow>
    \<not> list_ex starting_event es \<and> \<not> list_ex handoff_event es"
proof -
  from assms obtain c s where r: "r = Some c" "cur_state c = effectCursorActive"
    and fl: "flags_agree es (Begin S) c" by (rule client_from_begin)
  have "\<not> cur_effectStarted (Begin S)" "\<not> cur_terminated (Begin S)"
    by (simp_all add: Begin_def cursor_push_def)
  with r fl show ?thesis by (auto simp: AbortBeforeEffect_def requireActive_def flags_agree_def)
qed

text \<open>The hand-off check is accepted exactly after a terminal step was consumed, and then the
  consumed steps charge exactly what a complete, terminated execution charges.\<close>

lemma handoff_after_terminal:
  assumes "compileEffectStructure n = Inr S" and "client (Some (Begin S)) es r"
  shows "((\<exists>d. FinishHandoff r = (d, Inr ())) \<longleftrightarrow> list_ex handoff_event es) \<and>
    ((\<exists>d. FinishHandoff r = (d, Inr ())) \<longrightarrow>
      (\<exists>t. exec n initial_run t \<and> run_terminated t \<and> run_demand t = total_charge es))"
proof (intro conjI impI)
  from assms obtain c s where r: "r = Some c" "cur_state c = effectCursorActive"
    and m: "moves es (Begin S) initial_trace c s"
    and fl: "flags_agree es (Begin S) c" and inv: "cursor_inv c s" by (rule client_from_begin)
  have ended: "cur_terminated c \<longleftrightarrow> list_ex handoff_event es"
    using fl by (simp add: flags_agree_def Begin_def cursor_push_def)
  have emp: "cur_terminated c \<Longrightarrow> cur_stack c = []" using inv by (auto simp: cursor_inv_def)
  then show "(\<exists>d. FinishHandoff r = (d, Inr ())) \<longleftrightarrow> list_ex handoff_event es"
    using r ended by (auto simp: FinishHandoff_def requireActive_def)
  assume "\<exists>d. FinishHandoff r = (d, Inr ())"
  then have over: "cur_terminated c" "cur_stack c = []"
    using r by (auto simp: FinishHandoff_def requireActive_def split: if_splits)
  from compiled_root[OF assms(1)] have wf: "effect_wellformed (root S)" and n: "root S = n" by auto
  have "trace n initial_trace s" using m begin_inv(3)[OF wf, of s] over n by (simp add: moves_def)
  then have "exec n initial_run (forget s)" using trace_exec(1) by fastforce
  moreover have "run_ok False s" "run_terminated s"
    using inv over by (simp_all add: cursor_inv_def stack_inv_def)
  then have "run_demand s = total_charge es"
    using m lower_id[of zero_demand] lower_id[of "run_demand s"] by (simp add: moves_def run_ok_def zero_forward)
  ultimately show "\<exists>t. exec n initial_run t \<and> run_terminated t \<and> run_demand t = total_charge es"
    using \<open>run_terminated s\<close> by auto
qed

text \<open>A cursor that was finished, handed off or aborted refuses every further operation and
  is left unchanged.\<close>

lemma closed_cursor_refuses:
  assumes "cur_state c \<noteq> effectCursorActive"
  shows "\<exists>e. SelectAlternative i a (Some c) = Some (Some c, Inl e) \<and> consume j k (Some c) = Some (Some c, Inl e) \<and>
    FinishSuccess (Some c) = Some (Some c, Inl e) \<and> FinishHandoff (Some c) = (Some c, Inl e) \<and>
    AbortBeforeEffect (Some c) = (Some c, Inl e)"
  using assms
  by (cases "cur_state c") (simp_all add: SelectAlternative_def consume_def FinishSuccess_def
      FinishHandoff_def AbortBeforeEffect_def requireActive_def with_next_inactive)

section \<open>A sample client\<close>

datatype cursorCall = CallSelect string int | CallConsume string EffectStepKind

text \<open>Performs a list of calls and collects the accepted ones.\<close>

fun drive :: "cursorCall list \<Rightarrow> cursorRef \<Rightarrow> (cursorRef \<times> cursorEvent list) option" where
  "drive [] c = Some (c, [])"
| "drive (CallSelect i a # calls) c =
     (case SelectAlternative i a c of
        None \<Rightarrow> None
      | Some (d, Inl e) \<Rightarrow> drive calls d
      | Some (d, Inr u) \<Rightarrow> map_option (apsnd (Cons (Selected i a))) (drive calls d))"
| "drive (CallConsume i k # calls) c =
     (case consume i k c of
        None \<Rightarrow> None
      | Some (d, Inl e) \<Rightarrow> drive calls d
      | Some (d, Inr p) \<Rightarrow> map_option (apsnd (Cons (Consumed i k p))) (drive calls d))"

lemma drive_client: "drive calls c = Some (r, es) \<Longrightarrow> client c es r"
  by (induction calls c arbitrary: es rule: drive.induct)
    (auto split: option.splits sum.splits prod.splits intro: client.intros)

definition sample_calls :: "cursorCall list" where
  "sample_calls = [CallConsume ''forward'' EffectStepForwardEffect, CallSelect ''outcome'' 0,
     CallConsume ''forward'' EffectStepForwardEffect, CallConsume ''forward'' EffectStepForwardEffect,
     CallSelect ''outcome'' 0, CallConsume ''publish'' EffectStepPublishDescendant,
     CallConsume ''bind'' EffectStepBindDescendant]"

definition sample_events :: "cursorEvent list" where
  "sample_events =
     [Consumed ''forward'' EffectStepForwardEffect ForwardEffectEstablishStateDir,
      Consumed ''forward'' EffectStepForwardEffect ForwardEffectValidateStateDir,
      Consumed ''forward'' EffectStepForwardEffect ForwardEffectValidateStateDir,
      Selected ''outcome'' 0,
      Consumed ''publish'' EffectStepPublishDescendant ForwardEffectNone,
      Consumed ''bind'' EffectStepBindDescendant ForwardEffectNone]"

definition driven_cursor :: "cursorCall list \<Rightarrow> cursorRef" where
  "driven_cursor calls = (case drive calls (Some (Begin sample_structure)) of None \<Rightarrow> None | Some (r, es) \<Rightarrow> r)"

lemma sample_client: "client (Some (Begin sample_structure)) sample_events (driven_cursor sample_calls)"
proof (rule drive_client)
  show "drive sample_calls (Some (Begin sample_structure)) = Some (driven_cursor sample_calls, sample_events)"
    by code_simp
qed

lemma sample_finishes: "\<exists>d. FinishSuccess (driven_cursor sample_calls) = Some (d, Inr ())"
proof -
  have "map_option snd (FinishSuccess (driven_cursor sample_calls)) = Some (Inr ())" by code_simp
  then show ?thesis by auto
qed

theorem cursor_operations_return_witness:
  "\<exists>d x. consume ''forward'' EffectStepForwardEffect (driven_cursor sample_calls) = Some (d, x)"
  using cursor_operations_return[OF sample_compiles sample_client] by blast

theorem finished_cursor_is_execution_witness:
  "\<exists>t. trace sample_effects initial_trace t \<and> run_complete t \<and> run_events t = sample_events \<and>
    run_demand t = total_charge sample_events"
  using finished_cursor_is_execution[OF sample_compiles sample_client] sample_finishes by blast

lemma sample_traced:
  obtains t where "trace sample_effects initial_trace t" "run_complete t" "run_events t = sample_events"
  using finished_trace[OF sample_compiles sample_client] sample_finishes by blast

theorem cursor_accepts_executions_witness:
  "\<exists>r d. client (Some (Begin sample_structure)) sample_events r \<and> FinishSuccess r = Some (d, Inr ())"
proof -
  obtain t where "trace sample_effects initial_trace t" "run_complete t" "run_events t = sample_events"
    by (rule sample_traced)
  then show ?thesis using cursor_accepts_executions[OF sample_compiles] by metis
qed

theorem abort_only_before_effects_witness: "\<nexists>d. AbortBeforeEffect (driven_cursor sample_calls) = (d, Inr ())"
  using abort_only_before_effects[OF sample_compiles sample_client] by (simp add: sample_events_def)

definition stop_calls :: "cursorCall list" where
  "stop_calls = [CallConsume ''forward'' EffectStepForwardEffect,
     CallConsume ''forward'' EffectStepForwardEffect, CallConsume ''forward'' EffectStepForwardEffect,
     CallSelect ''outcome'' 1, CallConsume ''check'' EffectStepValidateStateDir,
     CallConsume ''stop'' EffectStepTerminal]"

definition stop_events :: "cursorEvent list" where
  "stop_events =
     [Consumed ''forward'' EffectStepForwardEffect ForwardEffectEstablishStateDir,
      Consumed ''forward'' EffectStepForwardEffect ForwardEffectValidateStateDir,
      Consumed ''forward'' EffectStepForwardEffect ForwardEffectValidateStateDir,
      Selected ''outcome'' 1,
      Consumed ''check'' EffectStepValidateStateDir ForwardEffectNone,
      Consumed ''stop'' EffectStepTerminal ForwardEffectNone]"

lemma stop_client: "client (Some (Begin sample_structure)) stop_events (driven_cursor stop_calls)"
proof (rule drive_client)
  show "drive stop_calls (Some (Begin sample_structure)) = Some (driven_cursor stop_calls, stop_events)"
    by code_simp
qed

lemma handoff_after_terminal_witness:
  "\<exists>t. exec sample_effects initial_run t \<and> run_terminated t \<and> run_demand t = total_charge stop_events"
  using handoff_after_terminal[OF sample_compiles stop_client] by (simp add: stop_events_def)

lemma closed_cursor_refuses_witness:
  "\<exists>e. consume ''forward'' EffectStepForwardEffect
      (Some ((Begin sample_structure)\<lparr>cur_state := effectCursorAborted\<rparr>)) =
    Some (Some ((Begin sample_structure)\<lparr>cur_state := effectCursorAborted\<rparr>), Inl e)"
  using closed_cursor_refuses[of "(Begin sample_structure)\<lparr>cur_state := effectCursorAborted\<rparr>"
      "''outcome''" 0 "''forward''" EffectStepForwardEffect] by auto

end
