(* ===== verification/PinChange.thy ===== *)
theory PinChange
  imports EffectDemand
begin

text \<open>
  The pin-change effect structure of
  \<^verbatim>\<open>internal/operationplan/pin_change_structure.go\<close>: reservation, host invocation,
  completion or retention, and attempt persistence, each checked step followed by a choice between
  success and a terminal failure. The builder calls are sequenced in the order Go evaluates them.
  \<open>statefileDemand\<close> is the two-counter demand of \<^verbatim>\<open>envelope.go\<close> that the
  structure is projected to.
\<close>

record statefileDemand =
  validations :: int
  commits :: int

definition pinOutcomeChoice :: "string \<Rightarrow> EffectNode building" where
  "pinOutcomeChoice ref = do {
     success \<leftarrow> builder_Step (ref @ ''/success'') EffectStepNoOp;
     failure \<leftarrow> builder_Step (ref @ ''/failure'') EffectStepTerminal;
     builder_Choice ref [success, failure]
   }"

definition pinCheckedStep :: "string \<Rightarrow> EffectStepKind \<Rightarrow> EffectNode building" where
  "pinCheckedStep ref kind = do {
     step \<leftarrow> builder_Step ref kind;
     outcome \<leftarrow> pinOutcomeChoice (ref @ ''/outcome'');
     State_Monad.return (EffectSequence [step, outcome])
   }"

definition pinValidationStructure :: "string \<Rightarrow> EffectNode building" where
  "pinValidationStructure ref = do {
     body \<leftarrow> pinCheckedStep (ref @ ''/validate'') EffectStepValidateDescendant;
     builder_Repeat 1 body
   }"

definition pinPublicationStructure :: "string \<Rightarrow> EffectNode building" where
  "pinPublicationStructure ref = do {
     body \<leftarrow> pinCheckedStep (ref @ ''/publish'') EffectStepPublishDescendant;
     builder_Repeat 1 body
   }"

definition pinRegistryStructure :: "string \<Rightarrow> EffectNode building" where
  "pinRegistryStructure ref = do {
     declarationsBefore \<leftarrow> pinCheckedStep (ref @ ''/declarations-before'') EffectStepObservation;
     rootBefore \<leftarrow> pinCheckedStep (ref @ ''/root-before'') EffectStepObservation;
     statefileBefore \<leftarrow> pinValidationStructure (ref @ ''/statefile-before'');
     registry \<leftarrow> pinCheckedStep (ref @ ''/registry'') EffectStepPersistence;
     statefileAfter \<leftarrow> pinValidationStructure (ref @ ''/statefile-after'');
     visibility \<leftarrow> pinCheckedStep (ref @ ''/visibility'') EffectStepObservation;
     rootAfter \<leftarrow> pinCheckedStep (ref @ ''/root-after'') EffectStepObservation;
     declarationsAfter \<leftarrow> pinCheckedStep (ref @ ''/declarations-after'') EffectStepObservation;
     State_Monad.return (EffectSequence [declarationsBefore, rootBefore, statefileBefore, registry,
       statefileAfter, visibility, rootAfter, declarationsAfter])
   }"

definition pinReservation :: "string \<Rightarrow> bool \<Rightarrow> EffectNode building" where
  "pinReservation ref global =
     (if global then pinRegistryStructure (ref @ ''/pin/reserve'')
      else pinPublicationStructure (ref @ ''/pin/reserve''))"

definition pinCompletion :: "string \<Rightarrow> bool \<Rightarrow> EffectNode building" where
  "pinCompletion ref global =
     (if global then pinRegistryStructure (ref @ ''/pin/complete'')
      else do {
        before \<leftarrow> pinValidationStructure (ref @ ''/pin/pre-completion'');
        publication \<leftarrow> pinPublicationStructure (ref @ ''/pin/complete'');
        State_Monad.return (EffectSequence [before, publication])
      })"

definition PinChangeEffectNode :: "string \<Rightarrow> bool \<Rightarrow> bool \<Rightarrow> EffectNode building" where
  "PinChangeEffectNode ref global bindingDescribed = do {
     reservation \<leftarrow> pinReservation ref global;
     completion \<leftarrow> pinCompletion ref global;
     forward \<leftarrow> pinCheckedStep (ref @ ''/forward'') EffectStepForwardEffect;
     ensure \<leftarrow> builder_DescendantEnsure (ref @ ''/statefile'') bindingDescribed;
     ensureOutcome \<leftarrow> pinOutcomeChoice (ref @ ''/statefile/ensure-outcome'');
     binding \<leftarrow> pinCheckedStep (ref @ ''/pin/binding'') EffectStepObservation;
     preHost \<leftarrow> pinValidationStructure (ref @ ''/pin/pre-host'');
     host \<leftarrow> builder_Step (ref @ ''/pin/host'') EffectStepExternal;
     postHost \<leftarrow> pinValidationStructure (ref @ ''/pin/post-host'');
     observe \<leftarrow> pinCheckedStep (ref @ ''/pin/observe'') EffectStepObservation;
     classify \<leftarrow> pinCheckedStep (ref @ ''/pin/classify'') EffectStepObservation;
     recorded \<leftarrow> pinCheckedStep (ref @ ''/pin/record'') EffectStepObservation;
     projectRoot \<leftarrow> pinCheckedStep (ref @ ''/pin/project-root'') EffectStepObservation;
     retain \<leftarrow> builder_Step (ref @ ''/pin/retain'') EffectStepNoOp;
     settlement \<leftarrow> builder_Choice (ref @ ''/pin/settlement'') [completion, retain];
     preAttempt \<leftarrow> pinValidationStructure (ref @ ''/pin/pre-attempt'');
     attempt \<leftarrow> pinPublicationStructure (ref @ ''/pin/attempt'');
     postAttempt \<leftarrow> pinValidationStructure (ref @ ''/pin/post-attempt'');
     finalProjectRoot \<leftarrow> pinCheckedStep (ref @ ''/pin/final-project-root'') EffectStepObservation;
     finalDeclarations \<leftarrow> pinCheckedStep (ref @ ''/pin/final-declarations'') EffectStepObservation;
     outcome \<leftarrow> pinOutcomeChoice (ref @ ''/pin/outcome'');
     State_Monad.return (EffectSequence
       [forward, EffectSequence [ensure, ensureOutcome], binding, reservation, preHost, host, postHost,
        observe, classify, recorded, projectRoot, settlement, preAttempt, attempt, postAttempt,
        finalProjectRoot, finalDeclarations, outcome])
   }"

text \<open>The structure in its forward phase, compiled by a fresh builder.\<close>

definition compilePinChange :: "string \<Rightarrow> bool \<Rightarrow> bool \<Rightarrow> effectError + EffectStructure" where
  "compilePinChange ref global bindingDescribed =
     (case run_state (do {
             pinNode \<leftarrow> PinChangeEffectNode ref global bindingDescribed;
             builder_ForwardPhase ''pin-phase'' pinNode
           }) new_builder of
        (node, builder) \<Rightarrow> builder_Compile node builder)"

definition pinChangeStatefileDemand :: "bool \<Rightarrow> effectError + statefileDemand" where
  "pinChangeStatefileDemand global =
     ebind (compilePinChange ''pin'' global True) (\<lambda>structure.
     ebind (legacyUpperBound structure) (\<lambda>bound.
       Inr \<lparr>validations = descendantValidations bound, commits = descendantFileCommits bound\<rparr>))"

section \<open>Scopes\<close>

text \<open>
  Every reference of a substructure starts with the reference it was built for. Two scopes are
  independent when neither contains the other; structures built for pairwise independent scopes
  share no reference.
\<close>

definition within :: "string \<Rightarrow> string \<Rightarrow> bool" where
  "within p i \<longleftrightarrow> i = p \<or> take (Suc (length p)) i = p @ ''/''"

definition independent :: "string \<Rightarrow> string \<Rightarrow> bool" where
  "independent p q \<longleftrightarrow> \<not> within p q \<and> \<not> within q p"

lemma within_refl [simp]: "within p p"
  by (simp add: within_def)

lemma within_slash [simp]: "within p (p @ CHR ''/'' # t)"
  by (simp add: within_def)

lemma within_append [simp]: "within (ref @ p) (ref @ q) = within p q"
  by (simp add: within_def)

lemma independent_append [simp]: "independent (ref @ p) (ref @ q) = independent p q"
  by (simp add: independent_def)

lemma within_trans: "within p q \<Longrightarrow> within q i \<Longrightarrow> within p i"
  unfolding within_def
  by (metis append_assoc append_eq_conv_conj append_take_drop_id length_append_singleton)

lemma within_both:
  assumes "within p i" and "within q i" and "length p \<le> length q"
  shows "within p q"
proof (cases "i = q \<or> i = p")
  case True
  with assms show ?thesis by (auto simp: within_def)
next
  case False
  with assms have p: "take (Suc (length p)) i = p @ ''/''" and q: "take (Suc (length q)) i = q @ ''/''"
    by (auto simp: within_def)
  have "take (length q) i = q" using q by (metis append_eq_conv_conj le_add2 length_append_singleton
        min.absorb1 plus_1_eq_Suc take_take)
  show ?thesis
  proof (cases "length p = length q")
    case True
    with p \<open>take (length q) i = q\<close> have "p = q"
      by (metis append_eq_conv_conj le_add2 min.absorb1 plus_1_eq_Suc take_take)
    then show ?thesis by simp
  next
    case False
    with assms(3) have "Suc (length p) \<le> length q" by simp
    then have "take (Suc (length p)) q = take (Suc (length p)) i"
      using \<open>take (length q) i = q\<close> by (metis min.absorb1 take_take)
    with p show ?thesis by (simp add: within_def)
  qed
qed

lemma independent_apart: "independent p q \<Longrightarrow> within p i \<Longrightarrow> within q i \<Longrightarrow> False"
  unfolding independent_def by (metis linorder_le_cases within_both)

definition in_scope :: "string list \<Rightarrow> string \<Rightarrow> bool" where
  "in_scope ps i \<longleftrightarrow> (\<exists>p \<in> set ps. within p i)"

text \<open>A node without phases, triggers and conditionals whose references are distinct and within
  the scopes.\<close>

definition scoped :: "string list \<Rightarrow> bool \<Rightarrow> EffectNode \<Rightarrow> bool" where
  "scoped ps inside n \<longleftrightarrow> node_shape inside n \<and> distinct (step_ids n) \<and> distinct (choice_ids n) \<and>
     phase_ids n = [] \<and> trigger_ids n = [] \<and> conditional_ids n = [] \<and>
     (\<forall>i \<in> set (step_ids n) \<union> set (choice_ids n). in_scope ps i)"

lemma scope_disjoint:
  assumes "\<forall>p \<in> set ps. \<forall>q \<in> set qs. independent p q" and "in_scope ps i" and "in_scope qs i"
  shows False
  using assms independent_apart unfolding in_scope_def by blast

lemma scoped_children:
  assumes "list_all2 (\<lambda>ps n. scoped ps inside n) pss ns" and "sorted_wrt independent (concat pss)"
  shows "list_all (node_shape inside) ns \<and> distinct (concat (map step_ids ns)) \<and>
    distinct (concat (map choice_ids ns)) \<and> concat (map phase_ids ns) = [] \<and>
    concat (map trigger_ids ns) = [] \<and> concat (map conditional_ids ns) = [] \<and>
    (\<forall>i \<in> set (concat (map step_ids ns)) \<union> set (concat (map choice_ids ns)). in_scope (concat pss) i)"
  using assms
proof (induction pss ns rule: list_all2_induct)
  case Nil
  then show ?case by simp
next
  case (Cons ps pss n ns)
  have ind: "\<forall>p \<in> set ps. \<forall>q \<in> set (concat pss). independent p q"
    and IH: "sorted_wrt independent (concat pss)" using Cons.prems by (auto simp: sorted_wrt_append)
  have mono: "in_scope ps i \<or> in_scope (concat pss) i \<Longrightarrow> in_scope (concat (ps # pss)) i" for i
    by (auto simp: in_scope_def)
  note sc = Cons.hyps(1)[unfolded scoped_def] and rest = Cons.IH[OF IH]
  have "set (step_ids n) \<inter> set (concat (map step_ids ns)) = {}"
    "set (choice_ids n) \<inter> set (concat (map choice_ids ns)) = {}"
    using sc rest scope_disjoint[OF ind] by blast+
  moreover have "\<forall>i \<in> set (concat (map step_ids (n # ns))) \<union> set (concat (map choice_ids (n # ns))).
      in_scope (concat (ps # pss)) i"
    using sc rest mono by (simp only: list.map concat.simps set_append) blast
  ultimately show ?case using sc rest by simp
qed

lemma scoped_sequence:
  assumes "list_all2 (\<lambda>ps n. scoped ps inside n) pss ns" and "sorted_wrt independent (concat pss)" and "ns \<noteq> []"
  shows "scoped (concat pss) inside (EffectNodeSequence ns)"
  using scoped_children[OF assms(1,2)] assms(3) by (simp add: scoped_def)

lemma scoped_choice:
  assumes "list_all2 (\<lambda>ps n. scoped ps inside n) pss ns" and "sorted_wrt independent (i # concat pss)"
    and "2 \<le> length ns" and "canonical_ref i"
  shows "scoped (i # concat pss) inside (EffectNodeChoice i ns)"
proof -
  have "\<forall>p \<in> set [i]. \<forall>q \<in> set (concat pss). independent p q" using assms(2) by simp
  moreover have "in_scope [i] i" by (simp add: in_scope_def)
  ultimately have "\<not> in_scope (concat pss) i" using scope_disjoint by blast
  then have "i \<notin> set (concat (map choice_ids ns))"
    using scoped_children[OF assms(1)] assms(2) by (meson UnI2 sorted_wrt.simps(2))
  with scoped_children[OF assms(1)] assms(2-4) show ?thesis by (auto simp: scoped_def in_scope_def)
qed

lemma scoped_weaken:
  "scoped ps inside n \<Longrightarrow> (\<And>p. p \<in> set ps \<Longrightarrow> in_scope qs p) \<Longrightarrow> scoped qs inside n"
  unfolding scoped_def in_scope_def using within_trans by blast

section \<open>The pin-change structure always compiles\<close>

definition suffix_ok :: "string \<Rightarrow> bool" where
  "suffix_ok s \<longleftrightarrow> s \<noteq> [] \<and> hd s = CHR ''/'' \<and> canonical_ref (tl s)"

lemma canonical_suffix: "canonical_ref r \<Longrightarrow> suffix_ok s \<Longrightarrow> canonical_ref (r @ s)"
  using canonical_ref_prefixed[of r "tl s"]
  by (cases s) (auto simp: suffix_ok_def prefixed_def canonical_ref_def)

text \<open>A construction that adds no error, with the scopes and the flat bound of the node it
  returns.\<close>

definition builds :: "string list \<Rightarrow> bool \<Rightarrow> EffectNode building \<Rightarrow> effectDemand \<Rightarrow> bool" where
  "builds ps inside m d \<longleftrightarrow> (\<exists>n. run_state m new_builder = (n, new_builder) \<and> scoped ps inside n \<and>
     legacyUpperBoundDemand n = Inr d)"

lemmas building_simps = State_Monad.bind_def builder_construct_def new_builder_def
  newEffectStep_def newEffectChoice_def newEffectRepeat_def EffectSequence_def

lemma validate_canonical [simp]: "canonical_ref r \<Longrightarrow> validateEffectReference label r = Inr ()"
  using validateEffectReference_ok[of label r "()"] by simp

lemma run_step [simp]:
  "canonical_ref r \<Longrightarrow> kind_valid k \<Longrightarrow>
     run_state (builder_Step r k) new_builder = (EffectNodeStep r k, new_builder)"
  by (simp add: builder_Step_def building_simps)

lemma run_choice [simp]:
  "canonical_ref r \<Longrightarrow> 2 \<le> length ns \<Longrightarrow>
     run_state (builder_Choice r ns) new_builder = (EffectNodeChoice r ns, new_builder)"
  by (simp add: builder_Choice_def building_simps)

lemma run_repeat1 [simp]:
  "run_state (builder_Repeat 1 n) new_builder = (EffectNodeRepeat 1 n, new_builder)"
  by (simp add: builder_Repeat_def building_simps)

lemma run_bind [simp]:
  "run_state (State_Monad.bind m f) s = (case run_state m s of (x, s') \<Rightarrow> run_state (f x) s')"
  by (simp add: State_Monad.bind_def split: prod.splits)

lemma literal_suffixes:
  "list_all suffix_ok [''/success'', ''/failure'', ''/outcome'', ''/validate'', ''/publish'',
     ''/declarations-before'', ''/root-before'', ''/statefile-before'', ''/registry'',
     ''/statefile-after'', ''/visibility'', ''/root-after'', ''/declarations-after'']"
  by code_simp

lemmas suffixes [simp] = literal_suffixes[unfolded list.pred_inject]

lemma run_outcome [simp]:
  assumes "canonical_ref r"
  shows "run_state (pinOutcomeChoice r) new_builder =
    (EffectNodeChoice r [EffectNodeStep (r @ ''/success'') EffectStepNoOp,
       EffectNodeStep (r @ ''/failure'') EffectStepTerminal], new_builder)"
  using assms canonical_suffix[OF assms]
  by (simp add: pinOutcomeChoice_def)

lemma builds_checked:
  assumes "canonical_ref r" and "kind_valid k" and "k = EffectStepForwardEffect \<longrightarrow> inside"
  shows "builds [r] inside (pinCheckedStep r k) (effectStepDemand k)"
proof -
  have c: "canonical_ref (r @ s)" if "suffix_ok s" for s using assms(1) that by (rule canonical_suffix)
  have c2: "canonical_ref (r @ ''/outcome'' @ s)" if "suffix_ok s" for s
    using canonical_suffix[OF c[of "''/outcome''"] that] by simp
  let ?n = "EffectNodeSequence [EffectNodeStep r k, EffectNodeChoice (r @ ''/outcome'')
      [EffectNodeStep (r @ ''/outcome/success'') EffectStepNoOp,
       EffectNodeStep (r @ ''/outcome/failure'') EffectStepTerminal]]"
  have "run_state (pinCheckedStep r k) new_builder = (?n, new_builder)"
    using assms c by (simp add: pinCheckedStep_def EffectSequence_def State_Monad.return_def)
  moreover have "scoped [r] inside ?n"
    using assms c c2[of "''/success''"] c2[of "''/failure''"]
    by (auto simp: scoped_def in_scope_def)
  moreover have "legacyUpperBoundDemand ?n = Inr (effectStepDemand k)"
    by (cases k) (simp_all add: effectDemand_add_def checkedAdd_def effectDemand_maximum_def zero_demand_def
        go_max_int_def)
  ultimately show ?thesis unfolding builds_def by blast
qed

lemma builds_repeat1:
  assumes "builds ps inside m d" and "effectDemand_multiply d 1 = Inr d"
  shows "builds ps inside (do { body \<leftarrow> m; builder_Repeat 1 body }) d"
  using assms by (auto simp: builds_def scoped_def)

lemma builds_weaken:
  "builds ps inside m d \<Longrightarrow> (\<And>p. p \<in> set ps \<Longrightarrow> in_scope qs p) \<Longrightarrow> builds qs inside m d"
  unfolding builds_def using scoped_weaken by blast

lemma builds_validation:
  assumes "canonical_ref r"
  shows "builds [r] inside (pinValidationStructure r) (zero_demand\<lparr>descendantValidations := 1\<rparr>)"
proof -
  have "builds [r @ ''/validate''] inside (pinValidationStructure r) (zero_demand\<lparr>descendantValidations := 1\<rparr>)"
    unfolding pinValidationStructure_def
    using builds_checked[OF canonical_suffix[OF assms], of "''/validate''" EffectStepValidateDescendant inside]
    by (intro builds_repeat1) (simp_all add: effectDemand_multiply_def checkedMul_def zero_demand_def go_max_int_def)
  then show ?thesis by (rule builds_weaken) (simp add: in_scope_def)
qed

lemma builds_publication:
  assumes "canonical_ref r"
  shows "builds [r] inside (pinPublicationStructure r) (zero_demand\<lparr>descendantFileCommits := 1\<rparr>)"
proof -
  have "builds [r @ ''/publish''] inside (pinPublicationStructure r) (zero_demand\<lparr>descendantFileCommits := 1\<rparr>)"
    unfolding pinPublicationStructure_def
    using builds_checked[OF canonical_suffix[OF assms], of "''/publish''" EffectStepPublishDescendant inside]
    by (intro builds_repeat1) (simp_all add: effectDemand_multiply_def checkedMul_def zero_demand_def go_max_int_def)
  then show ?thesis by (rule builds_weaken) (simp add: in_scope_def)
qed

text \<open>A block of constructions that each build their part: the nodes, and the sequence of them.\<close>

lemma builds_block:
  assumes "list_all2 (\<lambda>(ps, m) d. builds ps inside m d) pms ds"
  shows "\<exists>ns. list_all2 (\<lambda>(ps, m) n. run_state m new_builder = (n, new_builder)) pms ns \<and>
    list_all2 (\<lambda>ps n. scoped ps inside n) (map fst pms) ns \<and>
    list_all2 (\<lambda>n d. legacyUpperBoundDemand n = Inr d) ns ds"
  using assms
proof (induction pms ds rule: list_all2_induct)
  case Nil
  then show ?case by simp
next
  case (Cons pm pms d ds)
  then obtain ns where ns: "list_all2 (\<lambda>(ps, m) n. run_state m new_builder = (n, new_builder)) pms ns"
    "list_all2 (\<lambda>ps n. scoped ps inside n) (map fst pms) ns"
    "list_all2 (\<lambda>n d. legacyUpperBoundDemand n = Inr d) ns ds" by blast
  from Cons.hyps(1) obtain n where "run_state (snd pm) new_builder = (n, new_builder)" "scoped (fst pm) inside n"
    "legacyUpperBoundDemand n = Inr d" by (auto simp: builds_def split: prod.splits)
  with ns show ?case by (cases pm) (intro exI[of _ "n # ns"], simp)
qed

lemma legacy_sequence:
  "list_all2 (\<lambda>n d. legacyUpperBoundDemand n = Inr d) ns ds \<Longrightarrow>
     legacyUpperBoundDemand (EffectNodeSequence ns) = foldM effectDemand_add zero_demand ds"
proof -
  have "list_all2 (\<lambda>n d. legacyUpperBoundDemand n = Inr d) ns ds \<Longrightarrow>
     foldM (\<lambda>demand child. ebind (legacyUpperBoundDemand child) (effectDemand_add demand)) e ns =
     foldM effectDemand_add e ds" for e
    by (induction ns ds arbitrary: e rule: list_all2_induct) (auto simp: ebind_def split: sum.splits)
  then show "list_all2 (\<lambda>n d. legacyUpperBoundDemand n = Inr d) ns ds \<Longrightarrow>
     legacyUpperBoundDemand (EffectNodeSequence ns) = foldM effectDemand_add zero_demand ds" by simp
qed

text \<open>What the parts of the pin-change structure charge.\<close>

abbreviation validation_charge :: "int \<Rightarrow> effectDemand" where
  "validation_charge n \<equiv> zero_demand\<lparr>descendantValidations := n\<rparr>"

lemmas charge_simps = effectDemand_add_def checkedAdd_def zero_demand_def go_max_int_def

lemma registry_scopes:
  "sorted_wrt independent [''/declarations-before'', ''/root-before'', ''/statefile-before'', ''/registry'',
     ''/statefile-after'', ''/visibility'', ''/root-after'', ''/declarations-after'']"
  by code_simp

lemma sorted_independent_append:
  "sorted_wrt independent (map ((@) r) ps) = sorted_wrt independent ps"
  by (simp add: sorted_wrt_map)

lemma builds_registry:
  assumes "canonical_ref r"
  shows "builds [r] inside (pinRegistryStructure r) (validation_charge 2)"
proof -
  have c: "canonical_ref (r @ s)" if "suffix_ok s" for s using assms that by (rule canonical_suffix)
  let ?obs = "\<lambda>s. ([r @ s], pinCheckedStep (r @ s) EffectStepObservation)"
  let ?val = "\<lambda>s. ([r @ s], pinValidationStructure (r @ s))"
  let ?parts = "[?obs ''/declarations-before'', ?obs ''/root-before'', ?val ''/statefile-before'',
    ([r @ ''/registry''], pinCheckedStep (r @ ''/registry'') EffectStepPersistence),
    ?val ''/statefile-after'', ?obs ''/visibility'', ?obs ''/root-after'', ?obs ''/declarations-after'']"
  let ?ds = "[zero_demand, zero_demand, validation_charge 1, zero_demand, validation_charge 1,
    zero_demand, zero_demand, zero_demand]"
  have "list_all2 (\<lambda>(ps, m) d. builds ps inside m d) ?parts ?ds"
    using builds_checked[OF c, of _ EffectStepObservation inside]
      builds_checked[OF c, of _ EffectStepPersistence inside] builds_validation[OF c, of _ inside] by simp
  from builds_block[OF this] obtain ns where
    run: "list_all2 (\<lambda>(ps, m) n. run_state m new_builder = (n, new_builder)) ?parts ns"
    and sc: "list_all2 (\<lambda>ps n. scoped ps inside n) (map fst ?parts) ns"
    and leg: "list_all2 (\<lambda>n d. legacyUpperBoundDemand n = Inr d) ns ?ds" by blast
  have "run_state (pinRegistryStructure r) new_builder = (EffectNodeSequence ns, new_builder)"
    using run by (auto simp: list_all2_Cons1 pinRegistryStructure_def EffectSequence_def State_Monad.return_def)
  moreover have "legacyUpperBoundDemand (EffectNodeSequence ns) = Inr (validation_charge 2)"
    unfolding legacy_sequence[OF leg] by (simp add: charge_simps)
  moreover have "scoped (concat (map fst ?parts)) inside (EffectNodeSequence ns)"
    using sc registry_scopes sorted_independent_append[of r]
    by (intro scoped_sequence) auto
  then have "scoped [r] inside (EffectNodeSequence ns)"
    by (rule scoped_weaken) (auto simp: in_scope_def)
  ultimately show ?thesis unfolding builds_def by blast
qed

definition ensure_scopes :: "bool \<Rightarrow> string list" where
  "ensure_scopes bindingDescribed =
     (if bindingDescribed then [''/statefile/ensure-validate'']
      else [''/statefile/initial-authority'', ''/statefile/bind'', ''/statefile/validate-existing''])"

definition completion_scopes :: "bool \<Rightarrow> string list" where
  "completion_scopes global =
     (if global then [''/pin/complete''] else [''/pin/pre-completion'', ''/pin/complete''])"

definition pin_scopes :: "bool \<Rightarrow> bool \<Rightarrow> string list" where
  "pin_scopes global bindingDescribed =
     ''/forward'' # ensure_scopes bindingDescribed @
     [''/statefile/ensure-outcome'', ''/pin/binding'', ''/pin/reserve'', ''/pin/pre-host'', ''/pin/host'',
      ''/pin/post-host'', ''/pin/observe'', ''/pin/classify'', ''/pin/record'', ''/pin/project-root'',
      ''/pin/settlement''] @ completion_scopes global @
     [''/pin/retain'', ''/pin/pre-attempt'', ''/pin/attempt'', ''/pin/post-attempt'',
      ''/pin/final-project-root'', ''/pin/final-declarations'', ''/pin/outcome'']"

lemma pin_scopes_independent: "sorted_wrt independent (pin_scopes global bindingDescribed)"
proof -
  have "list_all (\<lambda>(g, b). sorted_wrt independent (pin_scopes g b))
      [(True, True), (True, False), (False, True), (False, False)]" by code_simp
  then show ?thesis by (cases global; cases bindingDescribed) simp_all
qed

lemma pin_scopes_ok: "s \<in> set (pin_scopes global bindingDescribed) \<Longrightarrow> suffix_ok s"
proof -
  have "list_all (\<lambda>(g, b). list_all suffix_ok (pin_scopes g b))
      [(True, True), (True, False), (False, True), (False, False)]" by code_simp
  then show "s \<in> set (pin_scopes global bindingDescribed) \<Longrightarrow> suffix_ok s"
    by (cases global; cases bindingDescribed) (simp_all add: list_all_iff)
qed

lemma builds_ensure:
  assumes "canonical_ref r"
  shows "builds (map ((@) r) (ensure_scopes b)) inside (builder_DescendantEnsure (r @ ''/statefile'') b)
    (zero_demand\<lparr>descendantBindings := (if b then 0 else 1), descendantValidations := 1\<rparr>)"
proof -
  have c: "canonical_ref (r @ s)" if "s \<in> set (ensure_scopes b)" for s
    by (rule canonical_suffix[OF assms pin_scopes_ok[of s True b]]) (use that in \<open>simp add: pin_scopes_def\<close>)
  show ?thesis
  proof (cases b)
    case True
    with c[of "''/statefile/ensure-validate''"] show ?thesis
      by (simp add: builds_def builder_DescendantEnsure_def ensure_scopes_def scoped_def in_scope_def zero_demand_def)
  next
    case False
    with c[of "''/statefile/initial-authority''"] c[of "''/statefile/bind''"] c[of "''/statefile/validate-existing''"]
    show ?thesis
      by (simp add: builds_def builder_DescendantEnsure_def ensure_scopes_def scoped_def in_scope_def
          zero_demand_def effectDemand_maximum_def)
  qed
qed

lemma builds_completion:
  assumes "canonical_ref r"
  shows "builds (map ((@) r) (completion_scopes g)) inside (pinCompletion r g)
    (if g then validation_charge 2 else zero_demand\<lparr>descendantValidations := 1, descendantFileCommits := 1\<rparr>)"
proof -
  have c: "canonical_ref (r @ s)" if "s \<in> set (completion_scopes g)" for s
    by (rule canonical_suffix[OF assms pin_scopes_ok[of s g True]]) (use that in \<open>simp add: pin_scopes_def\<close>)
  show ?thesis
  proof (cases g)
    case True
    with builds_registry[OF c[of "''/pin/complete''"]] show ?thesis
      by (simp add: pinCompletion_def completion_scopes_def)
  next
    case False
    let ?parts = "[([r @ ''/pin/pre-completion''], pinValidationStructure (r @ ''/pin/pre-completion'')),
      ([r @ ''/pin/complete''], pinPublicationStructure (r @ ''/pin/complete''))]"
    let ?ds = "[validation_charge 1, zero_demand\<lparr>descendantFileCommits := 1\<rparr>]"
    have "list_all2 (\<lambda>(ps, m) d. builds ps inside m d) ?parts ?ds"
      using builds_validation[OF c, of "''/pin/pre-completion''" inside]
        builds_publication[OF c, of "''/pin/complete''" inside] False by (simp add: completion_scopes_def)
    from builds_block[OF this] obtain ns where
      run: "list_all2 (\<lambda>(ps, m) n. run_state m new_builder = (n, new_builder)) ?parts ns"
      and sc: "list_all2 (\<lambda>ps n. scoped ps inside n) (map fst ?parts) ns"
      and leg: "list_all2 (\<lambda>n d. legacyUpperBoundDemand n = Inr d) ns ?ds" by blast
    have "run_state (pinCompletion r g) new_builder = (EffectNodeSequence ns, new_builder)"
      using run False by (auto simp: list_all2_Cons1 pinCompletion_def EffectSequence_def State_Monad.return_def)
    moreover have "legacyUpperBoundDemand (EffectNodeSequence ns) =
        Inr (zero_demand\<lparr>descendantValidations := 1, descendantFileCommits := 1\<rparr>)"
      unfolding legacy_sequence[OF leg] by (simp add: charge_simps)
    moreover have "independent ''/pin/pre-completion'' ''/pin/complete''" by code_simp
    then have "scoped (concat (map fst ?parts)) inside (EffectNodeSequence ns)"
      using sc by (intro scoped_sequence) auto
    then have "scoped (map ((@) r) (completion_scopes g)) inside (EffectNodeSequence ns)"
      using False by (simp add: completion_scopes_def)
    ultimately show ?thesis using False unfolding builds_def by auto
  qed
qed

definition reservation_charge :: "bool \<Rightarrow> effectDemand" where
  "reservation_charge g = (if g then validation_charge 2 else zero_demand\<lparr>descendantFileCommits := 1\<rparr>)"

lemma builds_reservation:
  "canonical_ref r \<Longrightarrow> canonical_ref (r @ ''/pin/reserve'') \<Longrightarrow>
     builds [r @ ''/pin/reserve''] inside (pinReservation r g) (reservation_charge g)"
  by (simp add: pinReservation_def reservation_charge_def builds_registry builds_publication)

lemma builds_outcome: "canonical_ref r \<Longrightarrow> builds [r] inside (pinOutcomeChoice r) zero_demand"
  using canonical_suffix[of r "''/success''"] canonical_suffix[of r "''/failure''"]
  by (auto simp: builds_def scoped_def in_scope_def effectDemand_maximum_def zero_demand_def)

lemma builds_step:
  "canonical_ref r \<Longrightarrow> kind_valid k \<Longrightarrow> k \<noteq> EffectStepForwardEffect \<Longrightarrow>
     builds [r] inside (builder_Step r k) (effectStepDemand k)"
  by (simp add: builds_def scoped_def in_scope_def)

lemma builds_settlement:
  assumes "canonical_ref r" and "builds (map ((@) r) (completion_scopes g)) inside completion d"
    and "demand_nonneg d"
  shows "builds (map ((@) r) (''/pin/settlement'' # completion_scopes g @ [''/pin/retain''])) inside
    (do { c \<leftarrow> completion; retain \<leftarrow> builder_Step (r @ ''/pin/retain'') EffectStepNoOp;
          builder_Choice (r @ ''/pin/settlement'') [c, retain] }) d"
proof -
  have c: "canonical_ref (r @ s)" if "s \<in> set (pin_scopes g True)" for s
    using assms(1) pin_scopes_ok[OF that] by (rule canonical_suffix)
  have ids: "canonical_ref (r @ ''/pin/retain'')" "canonical_ref (r @ ''/pin/settlement'')"
    by (auto intro!: c simp: pin_scopes_def)
  obtain n where n: "run_state completion new_builder = (n, new_builder)"
    "scoped (map ((@) r) (completion_scopes g)) inside n" "legacyUpperBoundDemand n = Inr d"
    using assms(2) by (auto simp: builds_def)
  let ?retain = "EffectNodeStep (r @ ''/pin/retain'') EffectStepNoOp"
  have rt: "scoped [r @ ''/pin/retain''] inside ?retain" using ids by (simp add: scoped_def in_scope_def)
  have "sorted_wrt independent (''/pin/settlement'' # completion_scopes g @ [''/pin/retain''])"
    using pin_scopes_independent[of g True] by (simp add: pin_scopes_def sorted_wrt_append)
  then have "sorted_wrt independent (map ((@) r) (''/pin/settlement'' # completion_scopes g @ [''/pin/retain'']))"
    by (simp only: sorted_independent_append)
  then have "scoped ((r @ ''/pin/settlement'') # concat [map ((@) r) (completion_scopes g), [r @ ''/pin/retain'']])
      inside (EffectNodeChoice (r @ ''/pin/settlement'') [n, ?retain])"
    using n(2) rt ids by (intro scoped_choice) auto
  moreover have "legacyUpperBoundDemand (EffectNodeChoice (r @ ''/pin/settlement'') [n, ?retain]) = Inr d"
    using n(3) assms(3) by (cases d) (simp add: effectDemand_maximum_def effectDemandDominates_def zero_demand_def)
  ultimately show ?thesis using n(1) ids by (simp add: builds_def)
qed

definition pinEnsure :: "string \<Rightarrow> bool \<Rightarrow> EffectNode building" where
  "pinEnsure r b = do {
     ensure \<leftarrow> builder_DescendantEnsure (r @ ''/statefile'') b;
     outcome \<leftarrow> pinOutcomeChoice (r @ ''/statefile/ensure-outcome'');
     State_Monad.return (EffectSequence [ensure, outcome])
   }"

definition pinSettlement :: "string \<Rightarrow> bool \<Rightarrow> EffectNode building" where
  "pinSettlement r g = do {
     completion \<leftarrow> pinCompletion r g;
     retain \<leftarrow> builder_Step (r @ ''/pin/retain'') EffectStepNoOp;
     builder_Choice (r @ ''/pin/settlement'') [completion, retain]
   }"

definition ensure_charge :: "bool \<Rightarrow> effectDemand" where
  "ensure_charge b = zero_demand\<lparr>descendantBindings := (if b then 0 else 1), descendantValidations := 1\<rparr>"

definition completion_charge :: "bool \<Rightarrow> effectDemand" where
  "completion_charge g =
     (if g then validation_charge 2 else zero_demand\<lparr>descendantValidations := 1, descendantFileCommits := 1\<rparr>)"

lemma builds_pinEnsure:
  assumes "canonical_ref r"
  shows "builds (map ((@) r) (ensure_scopes b @ [''/statefile/ensure-outcome''])) inside (pinEnsure r b) (ensure_charge b)"
proof -
  have c: "canonical_ref (r @ ''/statefile/ensure-outcome'')"
    using pin_scopes_ok[of "''/statefile/ensure-outcome''" True b]
    by (intro canonical_suffix[OF assms]) (simp add: pin_scopes_def)
  let ?parts = "[(map ((@) r) (ensure_scopes b), builder_DescendantEnsure (r @ ''/statefile'') b),
    ([r @ ''/statefile/ensure-outcome''], pinOutcomeChoice (r @ ''/statefile/ensure-outcome''))]"
  have "list_all2 (\<lambda>(ps, m) d. builds ps inside m d) ?parts [ensure_charge b, zero_demand]"
    using builds_ensure[OF assms, of b inside] builds_outcome[OF c, of inside] by (simp add: ensure_charge_def)
  from builds_block[OF this] obtain ns where
    run: "list_all2 (\<lambda>(ps, m) n. run_state m new_builder = (n, new_builder)) ?parts ns"
    and sc: "list_all2 (\<lambda>ps n. scoped ps inside n) (map fst ?parts) ns"
    and leg: "list_all2 (\<lambda>n d. legacyUpperBoundDemand n = Inr d) ns [ensure_charge b, zero_demand]" by blast
  have "run_state (pinEnsure r b) new_builder = (EffectNodeSequence ns, new_builder)"
    using run by (auto simp: list_all2_Cons1 pinEnsure_def EffectSequence_def State_Monad.return_def simp del: run_outcome)
  moreover have "legacyUpperBoundDemand (EffectNodeSequence ns) = Inr (ensure_charge b)"
    unfolding legacy_sequence[OF leg] by (simp add: charge_simps ensure_charge_def)
  moreover have "sorted_wrt independent (ensure_scopes b @ [''/statefile/ensure-outcome''])"
    using pin_scopes_independent[of True b] by (simp add: pin_scopes_def sorted_wrt_append)
  then have "sorted_wrt independent (concat (map fst ?parts))"
    using sorted_independent_append[of r "ensure_scopes b @ [''/statefile/ensure-outcome'']"] by simp
  with sc have "scoped (concat (map fst ?parts)) inside (EffectNodeSequence ns)"
    by (intro scoped_sequence) auto
  ultimately show ?thesis unfolding builds_def by auto
qed

lemma builds_pinSettlement:
  "canonical_ref r \<Longrightarrow>
     builds (map ((@) r) (''/pin/settlement'' # completion_scopes g @ [''/pin/retain''])) inside
       (pinSettlement r g) (completion_charge g)"
  unfolding pinSettlement_def completion_charge_def
  by (rule builds_settlement[OF _ builds_completion]) (auto simp: effectDemandDominates_def zero_demand_def)

definition pin_demand :: "bool \<Rightarrow> bool \<Rightarrow> effectDemand" where
  "pin_demand g b = zero_demand\<lparr>forwardEffectCalls := 1, descendantBindings := (if b then 0 else 1),
     descendantValidations := (if g then 9 else 6), descendantFileCommits := (if g then 1 else 3)\<rparr>"

lemma builds_pin_change:
  assumes r: "canonical_ref r"
  shows "builds (map ((@) r) (pin_scopes g b)) True (PinChangeEffectNode r g b) (pin_demand g b)"
proof -
  have c: "canonical_ref (r @ s)" if "s \<in> set (pin_scopes g b)" for s
    using r pin_scopes_ok[OF that] by (rule canonical_suffix)
  let ?obs = "\<lambda>s. ([r @ s], pinCheckedStep (r @ s) EffectStepObservation)"
  let ?val = "\<lambda>s. ([r @ s], pinValidationStructure (r @ s))"
  let ?parts = "[([r @ ''/forward''], pinCheckedStep (r @ ''/forward'') EffectStepForwardEffect),
    (map ((@) r) (ensure_scopes b @ [''/statefile/ensure-outcome'']), pinEnsure r b), ?obs ''/pin/binding'',
    ([r @ ''/pin/reserve''], pinReservation r g), ?val ''/pin/pre-host'',
    ([r @ ''/pin/host''], builder_Step (r @ ''/pin/host'') EffectStepExternal), ?val ''/pin/post-host'',
    ?obs ''/pin/observe'', ?obs ''/pin/classify'', ?obs ''/pin/record'', ?obs ''/pin/project-root'',
    (map ((@) r) (''/pin/settlement'' # completion_scopes g @ [''/pin/retain'']), pinSettlement r g),
    ?val ''/pin/pre-attempt'', ([r @ ''/pin/attempt''], pinPublicationStructure (r @ ''/pin/attempt'')),
    ?val ''/pin/post-attempt'', ?obs ''/pin/final-project-root'', ?obs ''/pin/final-declarations'',
    ([r @ ''/pin/outcome''], pinOutcomeChoice (r @ ''/pin/outcome''))]"
  let ?ds = "[effectStepDemand EffectStepForwardEffect, ensure_charge b, zero_demand, reservation_charge g,
    validation_charge 1, zero_demand, validation_charge 1, zero_demand, zero_demand, zero_demand, zero_demand,
    completion_charge g, validation_charge 1, zero_demand\<lparr>descendantFileCommits := 1\<rparr>, validation_charge 1,
    zero_demand, zero_demand, zero_demand]"
  have "list_all2 (\<lambda>(ps, m) d. builds ps True m d) ?parts ?ds"
    using builds_checked[OF c, of _ EffectStepObservation True] builds_checked[OF c, of _ EffectStepForwardEffect True]
      builds_validation[OF c, of _ True] builds_publication[OF c, of _ True] builds_outcome[OF c, of _ True]
      builds_step[OF c, of _ EffectStepExternal True] builds_pinEnsure[OF r, of b True]
      builds_pinSettlement[OF r, of g True] builds_reservation[OF r c, of True g]
    by (simp add: pin_scopes_def)
  from builds_block[OF this] obtain ns where
    run: "list_all2 (\<lambda>(ps, m) n. run_state m new_builder = (n, new_builder)) ?parts ns"
    and sc: "list_all2 (\<lambda>ps n. scoped ps True n) (map fst ?parts) ns"
    and leg: "list_all2 (\<lambda>n d. legacyUpperBoundDemand n = Inr d) ns ?ds" by blast
  have "run_state (PinChangeEffectNode r g b) new_builder = (EffectNodeSequence ns, new_builder)"
  proof -
    obtain nC where nC: "run_state (pinCompletion r g) new_builder = (nC, new_builder)"
      using builds_completion[OF r] by (auto simp: builds_def)
    obtain nE where nE: "run_state (builder_DescendantEnsure (r @ ''/statefile'') b) new_builder = (nE, new_builder)"
      using builds_ensure[OF r] by (auto simp: builds_def)
    have ids: "canonical_ref (r @ ''/pin/retain'')" "canonical_ref (r @ ''/pin/settlement'')"
      "canonical_ref (r @ ''/statefile/ensure-outcome'')" "canonical_ref (r @ ''/pin/outcome'')"
      "canonical_ref (r @ ''/pin/host'')"
      by (auto intro!: c simp: pin_scopes_def)
    show ?thesis
      using run ids
      by (auto simp: list_all2_Cons1 PinChangeEffectNode_def pinSettlement_def pinEnsure_def nC nE
          EffectSequence_def State_Monad.return_def)
  qed
  moreover have "legacyUpperBoundDemand (EffectNodeSequence ns) = Inr (pin_demand g b)"
    unfolding legacy_sequence[OF leg]
    by (cases g; cases b) (simp_all add: charge_simps pin_demand_def ensure_charge_def reservation_charge_def completion_charge_def)
  moreover have "sorted_wrt independent (concat (map fst ?parts))"
    using pin_scopes_independent[of g b] sorted_independent_append[of r "pin_scopes g b"] by (simp add: pin_scopes_def)
  with sc have "scoped (concat (map fst ?parts)) True (EffectNodeSequence ns)"
    by (intro scoped_sequence) auto
  then have "scoped (map ((@) r) (pin_scopes g b)) True (EffectNodeSequence ns)"
    by (simp add: pin_scopes_def)
  ultimately show ?thesis unfolding builds_def by blast
qed

lemma pin_change_compiles:
  assumes "canonical_ref r"
  shows "\<exists>S. compilePinChange r g b = Inr S \<and>
    legacyUpperBound S = Inr ((pin_demand g b)\<lparr>forwardEffectCalls := 0, ensureCalls := 1\<rparr>)"
proof -
  obtain n where n: "run_state (PinChangeEffectNode r g b) new_builder = (n, new_builder)"
    "scoped (map ((@) r) (pin_scopes g b)) True n" "legacyUpperBoundDemand n = Inr (pin_demand g b)"
    using builds_pin_change[OF assms] by (auto simp: builds_def)
  have "canonical_ref ''pin-phase''" by code_simp
  moreover from this have "run_state (builder_ForwardPhase ''pin-phase'' n) new_builder =
      (EffectNodeForwardPhase ''pin-phase'' n, new_builder)"
    by (simp add: builder_ForwardPhase_def newEffectForwardPhase_def builder_construct_def new_builder_def)
  moreover have "effect_wellformed (EffectNodeForwardPhase ''pin-phase'' n)"
    using n(2) calculation(1) by (simp add: effect_wellformed_def scoped_def)
  ultimately have "compilePinChange r g b = Inr \<lparr>root = EffectNodeForwardPhase ''pin-phase'' n\<rparr>"
    using n(1) compile_iff_wellformed[of "EffectNodeForwardPhase ''pin-phase'' n"]
    by (simp add: compilePinChange_def builder_Compile_def) (simp add: new_builder_def)
  moreover have "legacyUpperBoundDemand (EffectNodeForwardPhase ''pin-phase'' n) =
      Inr ((pin_demand g b)\<lparr>forwardEffectCalls := 0, ensureCalls := 1\<rparr>)"
    using n(3) by (simp add: lower_forward_phase_def pin_demand_def charge_simps)
  ultimately show ?thesis by (simp add: legacyUpperBound_def)
qed

section \<open>Properties\<close>

text \<open>A pin change compiles for every canonical reference, scope and binding: the references
  its parts derive from the given one never collide. Its flat bound establishes the state directory
  once, binds the statefile only when no binding is described yet, and does not otherwise depend on
  the binding: the validation of a retained binding covers the initial bind-or-validate choice.\<close>

lemma pin_change_structure_compiles:
  assumes "canonical_ref r"
  shows "\<exists>S. compilePinChange r global bindingDescribed = Inr S \<and>
    legacyUpperBound S = Inr \<lparr>forwardEffectCalls = 0, ensureCalls = 1, barrierValidationCalls = 0,
      stateDirValidationCalls = 0, descendantBindings = (if bindingDescribed then 0 else 1),
      descendantValidations = (if global then 9 else 6), descendantFileCommits = (if global then 1 else 3)\<rparr>"
  using pin_change_compiles[OF assms, of global bindingDescribed]
  by (simp add: pin_demand_def zero_demand_def)

lemma pin_change_structure_compiles_witness:
  "\<exists>S. compilePinChange ''hosts/claude/pins/a'' True False = Inr S"
proof -
  have "canonical_ref ''hosts/claude/pins/a''" by code_simp
  from pin_change_structure_compiles[OF this] show ?thesis by blast
qed

lemma pin_demand_projected:
  "pinChangeStatefileDemand global =
     Inr (if global then \<lparr>validations = 9, commits = 1\<rparr> else \<lparr>validations = 6, commits = 3\<rparr>)"
proof -
  have "canonical_ref ''pin''" by code_simp
  from pin_change_compiles[OF this, of global True] show ?thesis
    by (auto simp: pinChangeStatefileDemand_def pin_demand_def zero_demand_def)
qed

text \<open>One pin change is projected to six statefile validations and three commits in a project
  scope, and to nine validations and one commit in the global scope, where reservation and
  completion go through the registry.\<close>

lemma pin_change_statefile_demand:
  "pinChangeStatefileDemand global =
     Inr (if global then \<lparr>validations = 9, commits = 1\<rparr> else \<lparr>validations = 6, commits = 3\<rparr>)"
  by (rule pin_demand_projected)

end
