(* ===== verification/Envelope.thy ===== *)
theory Envelope
  imports PinChange
begin

text \<open>
  The envelope compiler of \<^verbatim>\<open>internal/operationplan/envelope.go\<close>: normalized apply
  work is compiled to an ordered list of typed obligations and the semantic demand that the state
  barrier reserves. All arithmetic is overflow-checked; \<open>len\<close> of a slice is a non-negative
  \<open>int\<close>.
\<close>

section \<open>Inputs and outputs\<close>

datatype EnvelopeKind = EnvelopeNone | EnvelopeApply | EnvelopeRefresh

datatype ObligationKind =
    ObligationExecuteVisibility
  | ObligationProviderAction
  | ObligationHostInvocation
  | ObligationStateDirPromotion
  | ObligationCarrierRemoval
  | ObligationRelationOrderClass
  | ObligationDelegateAttempt
  | ObligationDelegatePersistence
  | ObligationStateDirEnsure
  | ObligationBarrierValidation
  | ObligationStatefileValidation
  | ObligationStatefileCommit
  | ObligationGlobalCarrierSettlement

record Obligation =
  ob_kind :: ObligationKind
  ob_count :: int

record RouteWork =
  PinChange :: bool
  InvokesHost :: bool
  Global :: bool
  Promotion :: bool

record CarrierWork =
  cw_InvokesHost :: bool
  MutatesDirect :: bool
  VerifiesPending :: bool

definition qualifies :: "CarrierWork \<Rightarrow> bool" where
  "qualifies work \<longleftrightarrow> cw_InvokesHost work \<or> MutatesDirect work \<or> VerifiesPending work"

record OrderClassWork =
  RequiresMutation :: bool

record DelegateWork =
  SchedulesAttempt :: bool
  Blocked :: bool

record ApplyWork =
  ExecuteGates :: int
  PrefixExecuteGates :: int
  PostRouteExecuteGates :: int
  PostDelegateExecuteGates :: int
  ProviderActions :: "RouteWork list"
  FinalRoutes :: "RouteWork list"
  CarrierRemovals :: "CarrierWork list"
  GlobalCarrierRetirement :: bool
  GlobalCarrierAdoption :: bool
  OrderClasses :: "OrderClassWork list"
  Delegates :: "DelegateWork list"
  StatefilePath :: string

record Envelope =
  env_kind :: EnvelopeKind
  env_obligations :: "Obligation list"
  env_demand :: Demand

definition zero_Demand :: Demand where
  "zero_Demand = \<lparr>d_ensureCalls = 0, d_barrierValidationCalls = 0, d_stateDirValidationCalls = 0,
     d_descendantPath = '''', d_descendantBindings = 0, d_descendantValidations = 0,
     d_descendantFileCommits = 0\<rparr>"

definition Demand_Empty :: "Demand \<Rightarrow> bool" where
  "Demand_Empty demand \<longleftrightarrow> d_ensureCalls demand = 0 \<and> d_barrierValidationCalls demand = 0 \<and>
     d_stateDirValidationCalls demand = 0 \<and> d_descendantPath demand = '''' \<and>
     d_descendantBindings demand = 0 \<and> d_descendantValidations demand = 0 \<and>
     d_descendantFileCommits demand = 0"

definition NewDemand :: "int \<Rightarrow> int \<Rightarrow> int \<Rightarrow> string \<Rightarrow> int \<Rightarrow> int \<Rightarrow> Demand" where
  "NewDemand ensure barrier stateDir path vals files =
     \<lparr>d_ensureCalls = ensure, d_barrierValidationCalls = barrier, d_stateDirValidationCalls = stateDir,
      d_descendantPath = path, d_descendantBindings = (if path \<noteq> '''' then 1 else 0),
      d_descendantValidations = vals, d_descendantFileCommits = files\<rparr>"

section \<open>Statefile demand\<close>

definition zero_statefile :: statefileDemand where
  "zero_statefile = \<lparr>validations = 0, commits = 0\<rparr>"

definition statefile_empty :: "statefileDemand \<Rightarrow> bool" where
  "statefile_empty demand \<longleftrightarrow> validations demand = 0 \<and> commits demand = 0"

definition statefile_add :: "statefileDemand \<Rightarrow> int \<Rightarrow> int \<Rightarrow> effectError + statefileDemand" where
  "statefile_add demand v c =
     ebind (checkedAdd (validations demand) v) (\<lambda>v'.
     ebind (checkedAdd (commits demand) c) (\<lambda>c'.
       Inr \<lparr>validations = v', commits = c'\<rparr>))"

text \<open>The loop keeps the projected pin demand of either scope once it has been compiled.\<close>

record hostRouteState =
  hr_demand :: statefileDemand
  hr_project :: "statefileDemand option"
  hr_global :: "statefileDemand option"

definition pin_unit :: "hostRouteState \<Rightarrow> bool \<Rightarrow> effectError + (statefileDemand \<times> hostRouteState)" where
  "pin_unit state global =
     (case (if global then hr_global state else hr_project state) of
        Some projected \<Rightarrow> Inr (projected, state)
      | None \<Rightarrow>
          ebind (pinChangeStatefileDemand global) (\<lambda>projected.
            Inr (projected, if global then state\<lparr>hr_global := Some projected\<rparr>
                            else state\<lparr>hr_project := Some projected\<rparr>)))"

definition hostRouteStep :: "hostRouteState \<Rightarrow> RouteWork \<Rightarrow> effectError + hostRouteState" where
  "hostRouteStep state route =
     (let charge = (\<lambda>state v c. ebind (statefile_add (hr_demand state) v c) (\<lambda>d. Inr (state\<lparr>hr_demand := d\<rparr>))) in
      if PinChange route then
        if \<not> InvokesHost route \<or> Promotion route then Inl EffectPinChangeShape
        else ebind (pin_unit state (Global route)) (\<lambda>(projected, state').
               charge state' (validations projected) (commits projected))
      else if InvokesHost route then charge state (if Global route then 10 else 7) 4
      else if Promotion route then charge state 4 1
      else Inr state)"

definition hostRouteStatefileDemand :: "RouteWork list \<Rightarrow> effectError + statefileDemand" where
  "hostRouteStatefileDemand routes =
     ebind (foldM hostRouteStep \<lparr>hr_demand = zero_statefile, hr_project = None, hr_global = None\<rparr> routes)
       (\<lambda>state. Inr (hr_demand state))"

definition carrierRemovalStatefileDemand :: "CarrierWork list \<Rightarrow> effectError + statefileDemand" where
  "carrierRemovalStatefileDemand actions =
     foldM (\<lambda>demand action. if \<not> qualifies action then Inr demand else statefile_add demand 8 3)
       zero_statefile actions"

definition delegatePersistenceRequired :: "DelegateWork list \<Rightarrow> bool" where
  "delegatePersistenceRequired actions \<longleftrightarrow> list_ex (\<lambda>a. SchedulesAttempt a \<or> Blocked a) actions"

definition delegateStatefileDemand :: "DelegateWork list \<Rightarrow> effectError + statefileDemand" where
  "delegateStatefileDemand actions =
     (if \<not> delegatePersistenceRequired actions then Inr zero_statefile
      else ebind (checkedAdd (int (length actions)) (int (length actions))) (\<lambda>v.
           ebind (checkedAdd v 3) (\<lambda>v'.
             Inr \<lparr>validations = v', commits = 1\<rparr>)))"

definition applyStatefileDemand :: "ApplyWork \<Rightarrow> effectError + statefileDemand" where
  "applyStatefileDemand work =
     ebind (foldM (\<lambda>demand routes.
              ebind (hostRouteStatefileDemand routes) (\<lambda>part.
                statefile_add demand (validations part) (commits part)))
            zero_statefile [ProviderActions work, FinalRoutes work]) (\<lambda>demand.
     ebind (carrierRemovalStatefileDemand (CarrierRemovals work)) (\<lambda>carrier.
     ebind (statefile_add demand (validations carrier) (commits carrier)) (\<lambda>demand.
     ebind (delegateStatefileDemand (Delegates work)) (\<lambda>delegate.
       statefile_add demand (validations delegate) (commits delegate)))))"

section \<open>Counts\<close>

definition finalHostStateDirCalls :: "RouteWork list \<Rightarrow> effectError + int" where
  "finalHostStateDirCalls routes =
     ebind (foldM (\<lambda>(invocations, promotion) route.
              if InvokesHost route then
                ebind (checkedAdd invocations 1) (\<lambda>n. Inr (n, promotion))
              else if Promotion route then Inr (invocations, True)
              else Inr (invocations, promotion)) (0, False) routes)
       (\<lambda>(invocations, promotion). if promotion then checkedAdd invocations 1 else Inr invocations)"

definition hostInvocations :: "RouteWork list \<Rightarrow> int" where
  "hostInvocations routes = int (length (filter InvokesHost routes))"

definition anyFinalPromotion :: "RouteWork list \<Rightarrow> bool" where
  "anyFinalPromotion routes \<longleftrightarrow> list_ex (\<lambda>r. \<not> InvokesHost r \<and> Promotion r) routes"

definition qualifyingCarrierCount :: "CarrierWork list \<Rightarrow> effectError + int" where
  "qualifyingCarrierCount actions =
     foldM (\<lambda>count action. if \<not> qualifies action then Inr count else checkedAdd count 1) 0 actions"

definition relationOrderMayReclassify :: "ApplyWork \<Rightarrow> bool" where
  "relationOrderMayReclassify work \<longleftrightarrow>
     list_ex (list_ex InvokesHost) [ProviderActions work, FinalRoutes work] \<or>
     list_ex qualifies (CarrierRemovals work)"

definition relationOrderClassCount :: "OrderClassWork list \<Rightarrow> bool \<Rightarrow> effectError + int" where
  "relationOrderClassCount classes mayReclassify =
     foldM (\<lambda>count class. if \<not> mayReclassify \<and> \<not> RequiresMutation class then Inr count
              else checkedAdd count 1) 0 classes"

section \<open>Compilation\<close>

text \<open>The builder's \<open>add\<close> skips a zero count.\<close>

definition env_add :: "ObligationKind \<Rightarrow> int \<Rightarrow> Obligation list \<Rightarrow> Obligation list" where
  "env_add kind count obligations =
     (if count = 0 then obligations else obligations @ [\<lparr>ob_kind = kind, ob_count = count\<rparr>])"

definition checkedSum :: "int list \<Rightarrow> effectError + int" where
  "checkedSum xs = (case xs of [] \<Rightarrow> Inr 0 | x # rest \<Rightarrow> foldM checkedAdd x rest)"

definition flag :: "bool \<Rightarrow> int" where
  "flag b = (if b then 1 else 0)"

definition globalSettlement :: "ApplyWork \<Rightarrow> effectError + int" where
  "globalSettlement work =
     ebind (if GlobalCarrierRetirement work then checkedAdd 0 2 else Inr 0) (\<lambda>calls.
       if GlobalCarrierAdoption work then checkedAdd calls 2 else Inr calls)"

definition CompileApply :: "ApplyWork \<Rightarrow> effectError + Envelope" where
  "CompileApply work =
     (if ExecuteGates work < 0 \<or> PrefixExecuteGates work < 0 \<or> PostRouteExecuteGates work < 0 \<or>
         PostDelegateExecuteGates work < 0 then Inl EffectGatesNegative
      else
        ebind (checkedSum [ExecuteGates work, PrefixExecuteGates work, PostRouteExecuteGates work,
                 PostDelegateExecuteGates work]) (\<lambda>executeGates.
        let obligations = env_add ObligationExecuteVisibility executeGates [] in
        ebind (finalHostStateDirCalls (FinalRoutes work)) (\<lambda>hostCalls.
        ebind (qualifyingCarrierCount (CarrierRemovals work)) (\<lambda>carrierCalls.
        ebind (relationOrderClassCount (OrderClasses work) (relationOrderMayReclassify work)) (\<lambda>orderCalls.
        let persistDelegates = delegatePersistenceRequired (Delegates work) in
        ebind (checkedSum [ExecuteGates work, PostRouteExecuteGates work, PostDelegateExecuteGates work,
                 hostCalls, carrierCalls, orderCalls]) (\<lambda>finalEffectCalls.
        ebind (globalSettlement work) (\<lambda>globalSettlementCalls.
        ebind (checkedAdd finalEffectCalls globalSettlementCalls) (\<lambda>finalEffectCalls.
        ebind (if persistDelegates then checkedAdd finalEffectCalls 1 else Inr finalEffectCalls) (\<lambda>finalEffectCalls.
        ebind (if \<not> persistDelegates \<and> Delegates work \<noteq> []
               then checkedMul (int (length (Delegates work))) 2 else Inr 0) (\<lambda>extraStateDir.
        let obligations = (if persistDelegates then env_add ObligationDelegatePersistence 1 obligations
                           else if Delegates work \<noteq> [] then env_add ObligationDelegateAttempt extraStateDir obligations
                           else obligations);
            providerCalls = int (length (ProviderActions work));
            obligations = env_add ObligationProviderAction providerCalls obligations;
            obligations = env_add ObligationHostInvocation (hostInvocations (FinalRoutes work)) obligations;
            obligations = env_add ObligationCarrierRemoval carrierCalls obligations;
            obligations = (if globalSettlementCalls \<noteq> 0
              then env_add ObligationGlobalCarrierSettlement (globalSettlementCalls div 2) obligations
              else obligations);
            obligations = env_add ObligationRelationOrderClass orderCalls obligations;
            ensure = flag (PrefixExecuteGates work \<noteq> 0) + flag (providerCalls \<noteq> 0) +
              flag (finalEffectCalls \<noteq> 0) in
        ebind (checkedAdd providerCalls finalEffectCalls) (\<lambda>stateDirEffectCalls.
        ebind (checkedAdd stateDirEffectCalls (PrefixExecuteGates work)) (\<lambda>stateDirEffectCalls.
        ebind (checkedAdd extraStateDir (stateDirEffectCalls - ensure)) (\<lambda>stateDirOnlyCalls.
        let barrierCalls = (if providerCalls \<noteq> 0 then 3 else 0) + flag (PrefixExecuteGates work \<noteq> 0) +
              flag (PostRouteExecuteGates work \<noteq> 0) + flag (PostDelegateExecuteGates work \<noteq> 0);
            obligations = env_add ObligationStateDirEnsure ensure obligations;
            obligations = env_add ObligationBarrierValidation barrierCalls obligations;
            obligations = (if anyFinalPromotion (FinalRoutes work)
              then env_add ObligationStateDirPromotion 1 obligations else obligations) in
        ebind (applyStatefileDemand work) (\<lambda>statefile.
        let obligations = env_add ObligationStatefileValidation (validations statefile) obligations;
            obligations = env_add ObligationStatefileCommit (commits statefile) obligations in
        Inr \<lparr>env_kind = EnvelopeApply, env_obligations = obligations,
          env_demand =
            \<lparr>d_ensureCalls = ensure, d_barrierValidationCalls = barrierCalls,
             d_stateDirValidationCalls = stateDirOnlyCalls,
             d_descendantPath = (if \<not> statefile_empty statefile then StatefilePath work else ''''),
             d_descendantBindings = (if \<not> statefile_empty statefile then 1 else 0),
             d_descendantValidations = validations statefile,
             d_descendantFileCommits = commits statefile\<rparr>\<rparr>))))))))))))))"

definition CompileRefresh :: "string \<Rightarrow> Envelope" where
  "CompileRefresh statefilePath =
     \<lparr>env_kind = EnvelopeRefresh,
      env_obligations =
        env_add ObligationStatefileCommit 1
          (env_add ObligationStatefileValidation 2
            (env_add ObligationBarrierValidation 4
              (env_add ObligationStateDirEnsure 1 []))),
      env_demand =
        \<lparr>d_ensureCalls = 1, d_barrierValidationCalls = 4, d_stateDirValidationCalls = 0,
         d_descendantPath = statefilePath, d_descendantBindings = 1, d_descendantValidations = 2,
         d_descendantFileCommits = 1\<rparr>\<rparr>"

definition CompileNone :: Envelope where
  "CompileNone = \<lparr>env_kind = EnvelopeNone, env_obligations = [], env_demand = zero_Demand\<rparr>"

section \<open>Exact counts\<close>

lemma flag_simps [simp]: "flag True = 1" "flag False = 0" "0 \<le> flag b" "flag b \<le> 1"
  by (simp_all add: flag_def)

lemma flag_eq_0 [simp]: "flag b = 0 \<longleftrightarrow> \<not> b"
  by (simp add: flag_def)

text \<open>A loop that counts up by one where a condition holds.\<close>

lemma counting_loop:
  "0 \<le> k \<Longrightarrow> k \<le> go_max_int \<Longrightarrow>
     foldM (\<lambda>count x. if \<not> P x then Inr count else checkedAdd count 1) k xs = Inr n \<longleftrightarrow>
     n = k + int (length (filter P xs)) \<and> n \<le> go_max_int"
proof (induction xs arbitrary: k)
  case Nil
  then show ?case by auto
next
  case (Cons x xs)
  show ?case
  proof (cases "P x")
    case True
    then show ?thesis using Cons by (cases "k + 1 \<le> go_max_int") auto
  next
    case False
    then show ?thesis using Cons by simp
  qed
qed

lemma qualifyingCarrierCount_iff [simp]:
  "qualifyingCarrierCount actions = Inr n \<longleftrightarrow>
     n = int (length (filter qualifies actions)) \<and> n \<le> go_max_int"
  using counting_loop[of 0 qualifies actions n] by (simp add: qualifyingCarrierCount_def)

lemma relationOrderClassCount_iff [simp]:
  "relationOrderClassCount classes may = Inr n \<longleftrightarrow>
     n = int (length (filter (\<lambda>c. may \<or> RequiresMutation c) classes)) \<and> n \<le> go_max_int"
proof -
  have "(\<lambda>count class. if \<not> may \<and> \<not> RequiresMutation class then Inr count else checkedAdd count 1) =
      (\<lambda>count class. if \<not> (may \<or> RequiresMutation class) then Inr count else checkedAdd count 1)"
    by (simp add: fun_eq_iff)
  then show ?thesis
    using counting_loop[of 0 "\<lambda>c. may \<or> RequiresMutation c" classes n]
    by (simp only: relationOrderClassCount_def) simp
qed

lemma host_calls_loop:
  "0 \<le> k \<Longrightarrow> k \<le> go_max_int \<Longrightarrow>
     foldM (\<lambda>(invocations, promotion) route.
              if InvokesHost route then
                ebind (checkedAdd invocations 1) (\<lambda>n. Inr (n, promotion))
              else if Promotion route then Inr (invocations, True)
              else Inr (invocations, promotion)) (k, p) routes = Inr (n, q) \<longleftrightarrow>
     n = k + hostInvocations routes \<and> (q \<longleftrightarrow> p \<or> anyFinalPromotion routes) \<and> n \<le> go_max_int"
proof (induction routes arbitrary: k p)
  case Nil
  then show ?case by (auto simp: hostInvocations_def anyFinalPromotion_def)
next
  case (Cons r rs)
  show ?case
  proof (cases "InvokesHost r")
    case True
    then show ?thesis using Cons
      by (cases "k + 1 \<le> go_max_int") (auto simp: hostInvocations_def anyFinalPromotion_def)
  next
    case False
    then show ?thesis using Cons by (auto simp: hostInvocations_def anyFinalPromotion_def)
  qed
qed

lemma finalHostStateDirCalls_iff [simp]:
  "finalHostStateDirCalls routes = Inr n \<longleftrightarrow>
     n = hostInvocations routes + flag (anyFinalPromotion routes) \<and> n \<le> go_max_int"
proof -
  have h: "0 \<le> hostInvocations routes" by (simp add: hostInvocations_def)
  let ?loop = "foldM (\<lambda>(invocations, promotion) route.
              if InvokesHost route then
                ebind (checkedAdd invocations 1) (\<lambda>n. Inr (n, promotion))
              else if Promotion route then Inr (invocations, True)
              else Inr (invocations, promotion)) (0, False) routes"
  show ?thesis
  proof (cases "hostInvocations routes \<le> go_max_int")
    case True
    then have "?loop = Inr (hostInvocations routes, anyFinalPromotion routes)"
      by (simp add: host_calls_loop)
    with True h show ?thesis by (auto simp: finalHostStateDirCalls_def)
  next
    case False
    then have "?loop \<noteq> Inr (m, q)" for m q by (simp add: host_calls_loop)
    then obtain e where "?loop = Inl e" by (cases ?loop) auto
    with False h show ?thesis using flag_simps(3)[of "anyFinalPromotion routes"]
      by (simp add: finalHostStateDirCalls_def del: flag_simps(3))
  qed
qed

section \<open>Exact statefile demand\<close>

definition statefile_plus :: "statefileDemand \<Rightarrow> statefileDemand \<Rightarrow> statefileDemand" where
  "statefile_plus a b = \<lparr>validations = validations a + validations b, commits = commits a + commits b\<rparr>"

definition statefile_dominates :: "statefileDemand \<Rightarrow> statefileDemand \<Rightarrow> bool" where
  "statefile_dominates a b \<longleftrightarrow> validations a \<ge> validations b \<and> commits a \<ge> commits b"

interpretation statefile_measure: checked_measure zero_statefile statefile_plus statefile_dominates
  "\<lambda>a b. statefile_add a (validations b) (commits b)"
  by unfold_locales
    (auto simp: statefile_add_def statefile_plus_def statefile_dominates_def zero_statefile_def)

definition statefile_fits :: "statefileDemand \<Rightarrow> bool" where
  "statefile_fits d \<longleftrightarrow> 0 \<le> validations d \<and> validations d \<le> go_max_int \<and> 0 \<le> commits d \<and> commits d \<le> go_max_int"

lemma statefile_add_iff:
  "statefile_fits a \<Longrightarrow> 0 \<le> v \<Longrightarrow> 0 \<le> c \<Longrightarrow>
     statefile_add a v c = Inr d \<longleftrightarrow> d = statefile_plus a \<lparr>validations = v, commits = c\<rparr> \<and> statefile_fits d"
  by (auto simp: statefile_add_def statefile_fits_def statefile_plus_def)

text \<open>What one item of work charges.\<close>

definition route_shape :: "RouteWork \<Rightarrow> bool" where
  "route_shape r \<longleftrightarrow> (PinChange r \<longrightarrow> InvokesHost r \<and> \<not> Promotion r)"

definition route_charge :: "RouteWork \<Rightarrow> statefileDemand" where
  "route_charge r =
     (if PinChange r then (if Global r then \<lparr>validations = 9, commits = 1\<rparr> else \<lparr>validations = 6, commits = 3\<rparr>)
      else if InvokesHost r then \<lparr>validations = (if Global r then 10 else 7), commits = 4\<rparr>
      else if Promotion r then \<lparr>validations = 4, commits = 1\<rparr>
      else zero_statefile)"

definition carrier_charge :: "CarrierWork \<Rightarrow> statefileDemand" where
  "carrier_charge a = (if qualifies a then \<lparr>validations = 8, commits = 3\<rparr> else zero_statefile)"

definition delegates_charge :: "DelegateWork list \<Rightarrow> statefileDemand" where
  "delegates_charge ds =
     (if delegatePersistenceRequired ds then \<lparr>validations = 2 * int (length ds) + 3, commits = 1\<rparr>
      else zero_statefile)"

definition statefile_sum :: "statefileDemand list \<Rightarrow> statefileDemand" where
  "statefile_sum ds = foldr statefile_plus ds zero_statefile"

definition statefile_plan :: "ApplyWork \<Rightarrow> statefileDemand" where
  "statefile_plan work =
     statefile_plus (statefile_sum (map route_charge (ProviderActions work @ FinalRoutes work)))
       (statefile_plus (statefile_sum (map carrier_charge (CarrierRemovals work)))
         (delegates_charge (Delegates work)))"

lemma statefile_add_eq:
  "statefile_fits a \<Longrightarrow> 0 \<le> validations b \<Longrightarrow> 0 \<le> commits b \<Longrightarrow>
     statefile_add a (validations b) (commits b) =
       (if statefile_fits (statefile_plus a b) then Inr (statefile_plus a b) else Inl EffectDemandOverflow)"
  by (auto simp: statefile_add_def checkedAdd_def statefile_fits_def statefile_plus_def)

lemma statefile_plus_simps [simp]:
  "statefile_plus zero_statefile a = a" "statefile_plus a zero_statefile = a"
  by (simp_all add: statefile_plus_def zero_statefile_def)

lemma statefile_plus_assoc: "statefile_plus (statefile_plus a b) c = statefile_plus a (statefile_plus b c)"
  by (simp add: statefile_plus_def)

lemma zero_fits [simp]: "statefile_fits zero_statefile"
  by (simp add: statefile_fits_def zero_statefile_def)

abbreviation statefile_nonneg :: "statefileDemand \<Rightarrow> bool" where
  "statefile_nonneg d \<equiv> statefile_dominates d zero_statefile"

lemma statefile_sum_simps [simp]:
  "statefile_sum [] = zero_statefile" "statefile_sum (d # ds) = statefile_plus d (statefile_sum ds)"
  by (simp_all add: statefile_sum_def)

lemma statefile_sum_append: "statefile_sum (xs @ ys) = statefile_plus (statefile_sum xs) (statefile_sum ys)"
  by (induction xs) (simp_all add: statefile_plus_assoc)

lemma statefile_sum_nonneg: "(\<And>d. d \<in> set ds \<Longrightarrow> statefile_nonneg d) \<Longrightarrow> statefile_nonneg (statefile_sum ds)"
  by (induction ds) (auto simp: statefile_dominates_def statefile_plus_def zero_statefile_def)

lemma fits_prefix: "statefile_nonneg b \<Longrightarrow> statefile_fits a \<Longrightarrow> statefile_nonneg c \<Longrightarrow>
    statefile_fits (statefile_plus (statefile_plus a b) c) \<Longrightarrow> statefile_fits (statefile_plus a b)"
  by (auto simp: statefile_fits_def statefile_dominates_def statefile_plus_def zero_statefile_def)

lemma charges_nonneg [simp]:
  "statefile_nonneg (route_charge r)" "statefile_nonneg (carrier_charge a)" "statefile_nonneg (delegates_charge ds)"
  by (simp_all add: route_charge_def carrier_charge_def delegates_charge_def statefile_dominates_def zero_statefile_def)

lemma charges_sum_nonneg [simp]:
  "statefile_nonneg (statefile_sum (map route_charge rs))" "statefile_nonneg (statefile_sum (map carrier_charge as))"
  by (auto intro!: statefile_sum_nonneg)

text \<open>The compiled pin units are the same in every iteration.\<close>

definition units_ok :: "hostRouteState \<Rightarrow> bool" where
  "units_ok s \<longleftrightarrow> hr_project s \<in> {None, Some \<lparr>validations = 6, commits = 3\<rparr>} \<and>
     hr_global s \<in> {None, Some \<lparr>validations = 9, commits = 1\<rparr>}"

lemma pin_unit_eq:
  "units_ok s \<Longrightarrow> \<exists>s'. pin_unit s g = Inr (if g then \<lparr>validations = 9, commits = 1\<rparr>
      else \<lparr>validations = 6, commits = 3\<rparr>, s') \<and> units_ok s' \<and> hr_demand s' = hr_demand s"
  by (cases g) (auto simp: pin_unit_def units_ok_def pin_demand_projected)

lemma host_step_eq:
  assumes units: "units_ok s" and fits: "statefile_fits (hr_demand s)"
  shows "\<not> route_shape r \<Longrightarrow> hostRouteStep s r = Inl EffectPinChangeShape"
    and "route_shape r \<Longrightarrow> \<not> statefile_fits (statefile_plus (hr_demand s) (route_charge r)) \<Longrightarrow>
      hostRouteStep s r = Inl EffectDemandOverflow"
    and "route_shape r \<Longrightarrow> statefile_fits (statefile_plus (hr_demand s) (route_charge r)) \<Longrightarrow>
      \<exists>s'. hostRouteStep s r = Inr s' \<and> units_ok s' \<and> hr_demand s' = statefile_plus (hr_demand s) (route_charge r)"
proof -
  obtain s' where u: "pin_unit s (Global r) = Inr (if Global r then \<lparr>validations = 9, commits = 1\<rparr>
      else \<lparr>validations = 6, commits = 3\<rparr>, s')" "units_ok s'" "hr_demand s' = hr_demand s"
    using pin_unit_eq[OF units] by blast
  have add: "statefile_add (hr_demand s) (validations (route_charge r)) (commits (route_charge r)) =
      (if statefile_fits (statefile_plus (hr_demand s) (route_charge r))
       then Inr (statefile_plus (hr_demand s) (route_charge r)) else Inl EffectDemandOverflow)"
    using fits charges_nonneg(1)[of r]
    by (intro statefile_add_eq) (simp_all add: statefile_dominates_def zero_statefile_def)
  show "\<not> route_shape r \<Longrightarrow> hostRouteStep s r = Inl EffectPinChangeShape"
    by (auto simp: hostRouteStep_def route_shape_def Let_def)
  show "route_shape r \<Longrightarrow> \<not> statefile_fits (statefile_plus (hr_demand s) (route_charge r)) \<Longrightarrow>
      hostRouteStep s r = Inl EffectDemandOverflow"
    using add u fits
    by (auto simp: hostRouteStep_def route_shape_def Let_def route_charge_def split: if_splits)
  show "route_shape r \<Longrightarrow> statefile_fits (statefile_plus (hr_demand s) (route_charge r)) \<Longrightarrow>
      \<exists>s'. hostRouteStep s r = Inr s' \<and> units_ok s' \<and> hr_demand s' = statefile_plus (hr_demand s) (route_charge r)"
    using add u fits units
    by (auto simp: hostRouteStep_def route_shape_def Let_def route_charge_def units_ok_def split: if_splits)
qed

lemma host_routes_loop:
  assumes "units_ok s" and "statefile_fits (hr_demand s)"
  shows "(\<exists>s'. foldM hostRouteStep s rs = Inr s' \<and> hr_demand s' = d) \<longleftrightarrow>
    list_all route_shape rs \<and> d = statefile_plus (hr_demand s) (statefile_sum (map route_charge rs)) \<and> statefile_fits d"
  using assms
proof (induction rs arbitrary: s)
  case Nil
  then show ?case by auto
next
  case (Cons r rs)
  let ?n = "statefile_plus (hr_demand s) (route_charge r)"
  show ?case
  proof (cases "route_shape r \<and> statefile_fits ?n")
    case True
    with host_step_eq(3)[OF Cons.prems] obtain s' where
      s': "hostRouteStep s r = Inr s'" "units_ok s'" "hr_demand s' = ?n" by auto
    with Cons.IH[of s'] True show ?thesis by (auto simp: statefile_plus_assoc)
  next
    case False
    then obtain e where "hostRouteStep s r = Inl e" using host_step_eq(1,2)[OF Cons.prems] by blast
    moreover have "\<not> (list_all route_shape (r # rs) \<and>
        statefile_fits (statefile_plus ?n (statefile_sum (map route_charge rs))))"
      using False fits_prefix[OF charges_nonneg(1) Cons.prems(2) charges_sum_nonneg(1)] by auto
    ultimately show ?thesis by (auto simp: statefile_plus_assoc)
  qed
qed

lemma hostRouteStatefileDemand_iff:
  "hostRouteStatefileDemand rs = Inr d \<longleftrightarrow>
     list_all route_shape rs \<and> d = statefile_sum (map route_charge rs) \<and> statefile_fits d"
  using host_routes_loop[of "\<lparr>hr_demand = zero_statefile, hr_project = None, hr_global = None\<rparr>" rs d]
  by (auto simp: hostRouteStatefileDemand_def units_ok_def)

lemma carriers_loop:
  "statefile_fits a \<Longrightarrow>
     foldM (\<lambda>demand action. if \<not> qualifies action then Inr demand else statefile_add demand 8 3) a as = Inr d \<longleftrightarrow>
     d = statefile_plus a (statefile_sum (map carrier_charge as)) \<and> statefile_fits d"
proof (induction as arbitrary: a)
  case Nil
  then show ?case by auto
next
  case (Cons x xs)
  show ?case
  proof (cases "qualifies x")
    case False
    with Cons show ?thesis by (simp add: carrier_charge_def)
  next
    case True
    let ?n = "statefile_plus a (carrier_charge x)"
    have add: "statefile_add a 8 3 = (if statefile_fits ?n then Inr ?n else Inl EffectDemandOverflow)"
      using statefile_add_eq[of a "carrier_charge x"] Cons.prems True by (simp add: carrier_charge_def)
    show ?thesis
    proof (cases "statefile_fits ?n")
      case True
      with Cons.IH[OF this] add \<open>qualifies x\<close> show ?thesis by (simp add: statefile_plus_assoc)
    next
      case False
      then have "\<not> statefile_fits (statefile_plus ?n (statefile_sum (map carrier_charge xs)))"
        using fits_prefix[OF charges_nonneg(2) Cons.prems charges_sum_nonneg(2)] by blast
      with add False \<open>qualifies x\<close> show ?thesis by (auto simp: statefile_plus_assoc)
    qed
  qed
qed

lemma carrierRemovalStatefileDemand_iff:
  "carrierRemovalStatefileDemand as = Inr d \<longleftrightarrow>
     d = statefile_sum (map carrier_charge as) \<and> statefile_fits d"
  using carriers_loop[of zero_statefile as d] by (simp add: carrierRemovalStatefileDemand_def)

lemma delegateStatefileDemand_iff:
  "delegateStatefileDemand ds = Inr d \<longleftrightarrow> d = delegates_charge ds \<and> statefile_fits d"
  by (auto simp: delegateStatefileDemand_def delegates_charge_def statefile_fits_def zero_statefile_def)

lemma statefile_fits_mono:
  "statefile_fits (statefile_plus a b) \<Longrightarrow> statefile_nonneg a \<Longrightarrow> statefile_nonneg b \<Longrightarrow>
     statefile_fits a \<and> statefile_fits b"
  by (auto simp: statefile_fits_def statefile_dominates_def statefile_plus_def zero_statefile_def)

lemma statefile_add_measured:
  "statefile_fits a \<Longrightarrow> statefile_nonneg b \<Longrightarrow>
     statefile_add a (validations b) (commits b) = Inr d \<longleftrightarrow> d = statefile_plus a b \<and> statefile_fits d"
  using statefile_add_eq[of a b] by (auto simp: statefile_dominates_def zero_statefile_def)

lemma statefile_fits_nonneg: "statefile_fits a \<Longrightarrow> statefile_nonneg a"
  by (simp add: statefile_fits_def statefile_dominates_def zero_statefile_def)

lemma statefile_add_ok:
  "statefile_fits a \<Longrightarrow> statefile_nonneg b \<Longrightarrow> statefile_fits (statefile_plus a b) \<Longrightarrow>
     statefile_add a (validations b) (commits b) = Inr (statefile_plus a b)"
  by (simp add: statefile_add_measured)

lemma plan_eq:
  "statefile_plan work = statefile_plus (statefile_plus (statefile_plus
     (statefile_sum (map route_charge (ProviderActions work)))
     (statefile_sum (map route_charge (FinalRoutes work))))
     (statefile_sum (map carrier_charge (CarrierRemovals work)))) (delegates_charge (Delegates work))"
  by (simp add: statefile_plan_def statefile_sum_append statefile_plus_assoc)

lemma statefile_nonneg_plus [simp]: "statefile_nonneg a \<Longrightarrow> statefile_nonneg b \<Longrightarrow> statefile_nonneg (statefile_plus a b)"
  by (simp add: statefile_dominates_def statefile_plus_def zero_statefile_def)

text \<open>Where the whole plan fits, so does every partial sum that the loops go through.\<close>

lemma plan_parts:
  assumes "statefile_fits (statefile_plan work)"
  shows "statefile_fits (statefile_sum (map route_charge (ProviderActions work)))"
    "statefile_fits (statefile_sum (map route_charge (FinalRoutes work)))"
    "statefile_fits (statefile_plus (statefile_sum (map route_charge (ProviderActions work)))
      (statefile_sum (map route_charge (FinalRoutes work))))"
    "statefile_fits (statefile_sum (map carrier_charge (CarrierRemovals work)))"
    "statefile_fits (statefile_plus (statefile_plus (statefile_sum (map route_charge (ProviderActions work)))
      (statefile_sum (map route_charge (FinalRoutes work)))) (statefile_sum (map carrier_charge (CarrierRemovals work))))"
    "statefile_fits (delegates_charge (Delegates work))"
proof -
  let ?p = "statefile_sum (map route_charge (ProviderActions work))"
  let ?f = "statefile_sum (map route_charge (FinalRoutes work))"
  let ?c = "statefile_sum (map carrier_charge (CarrierRemovals work))"
  from statefile_fits_mono[OF assms[unfolded plan_eq]]
  have pfc: "statefile_fits (statefile_plus (statefile_plus ?p ?f) ?c)" "statefile_fits (delegates_charge (Delegates work))"
    by simp_all
  from statefile_fits_mono[OF pfc(1)] have pf: "statefile_fits (statefile_plus ?p ?f)" "statefile_fits ?c" by simp_all
  from statefile_fits_mono[OF pf(1)] have "statefile_fits ?p" "statefile_fits ?f" by simp_all
  with pf pfc show "statefile_fits ?p" "statefile_fits ?f" "statefile_fits (statefile_plus ?p ?f)" "statefile_fits ?c"
    "statefile_fits (statefile_plus (statefile_plus ?p ?f) ?c)" "statefile_fits (delegates_charge (Delegates work))" by blast+
qed

lemma apply_statefile_iff:
  "applyStatefileDemand work = Inr d \<longleftrightarrow>
     list_all route_shape (ProviderActions work @ FinalRoutes work) \<and>
     d = statefile_plan work \<and> statefile_fits d"
  unfolding applyStatefileDemand_def
  using plan_parts[of work]
  by (auto simp: hostRouteStatefileDemand_iff carrierRemovalStatefileDemand_iff delegateStatefileDemand_iff
      statefile_add_measured plan_eq)

section \<open>The envelope in closed form\<close>

text \<open>The quantities that \<open>CompileApply\<close> accumulates, as unbounded integers.\<close>

definition settlement_units :: "ApplyWork \<Rightarrow> int" where
  "settlement_units work = flag (GlobalCarrierRetirement work) + flag (GlobalCarrierAdoption work)"

definition order_classes :: "ApplyWork \<Rightarrow> int" where
  "order_classes work = int (length (filter (\<lambda>c. relationOrderMayReclassify work \<or> RequiresMutation c) (OrderClasses work)))"

definition carriers :: "ApplyWork \<Rightarrow> int" where
  "carriers work = int (length (filter qualifies (CarrierRemovals work)))"

definition final_effects :: "ApplyWork \<Rightarrow> int" where
  "final_effects work = ExecuteGates work + PostRouteExecuteGates work + PostDelegateExecuteGates work +
     hostInvocations (FinalRoutes work) + flag (anyFinalPromotion (FinalRoutes work)) + carriers work +
     order_classes work + 2 * settlement_units work + flag (delegatePersistenceRequired (Delegates work))"

definition state_dir_effects :: "ApplyWork \<Rightarrow> int" where
  "state_dir_effects work =
     int (length (ProviderActions work)) + final_effects work + PrefixExecuteGates work"

definition attempt_probes :: "ApplyWork \<Rightarrow> int" where
  "attempt_probes work = (if delegatePersistenceRequired (Delegates work) then 0 else 2 * int (length (Delegates work)))"

definition ensure_calls :: "ApplyWork \<Rightarrow> int" where
  "ensure_calls work = flag (PrefixExecuteGates work \<noteq> 0) + flag (ProviderActions work \<noteq> []) +
     flag (final_effects work \<noteq> 0)"

definition barrier_calls :: "ApplyWork \<Rightarrow> int" where
  "barrier_calls work = 3 * flag (ProviderActions work \<noteq> []) + flag (PrefixExecuteGates work \<noteq> 0) +
     flag (PostRouteExecuteGates work \<noteq> 0) + flag (PostDelegateExecuteGates work \<noteq> 0)"

definition obligation_counts :: "ApplyWork \<Rightarrow> (ObligationKind \<times> int) list" where
  "obligation_counts work =
    [(ObligationExecuteVisibility, ExecuteGates work + PrefixExecuteGates work + PostRouteExecuteGates work +
        PostDelegateExecuteGates work),
     (ObligationDelegatePersistence, flag (delegatePersistenceRequired (Delegates work))),
     (ObligationDelegateAttempt, attempt_probes work),
     (ObligationProviderAction, int (length (ProviderActions work))),
     (ObligationHostInvocation, hostInvocations (FinalRoutes work)),
     (ObligationCarrierRemoval, carriers work),
     (ObligationGlobalCarrierSettlement, settlement_units work),
     (ObligationRelationOrderClass, order_classes work),
     (ObligationStateDirEnsure, ensure_calls work),
     (ObligationBarrierValidation, barrier_calls work),
     (ObligationStateDirPromotion, flag (anyFinalPromotion (FinalRoutes work))),
     (ObligationStatefileValidation, validations (statefile_plan work)),
     (ObligationStatefileCommit, commits (statefile_plan work))]"

definition present :: "(ObligationKind \<times> int) list \<Rightarrow> Obligation list" where
  "present counts = [\<lparr>ob_kind = k, ob_count = n\<rparr>. (k, n) \<leftarrow> counts, n \<noteq> 0]"

definition apply_envelope :: "ApplyWork \<Rightarrow> Envelope" where
  "apply_envelope work =
     \<lparr>env_kind = EnvelopeApply, env_obligations = present (obligation_counts work),
      env_demand =
        \<lparr>d_ensureCalls = ensure_calls work, d_barrierValidationCalls = barrier_calls work,
         d_stateDirValidationCalls = attempt_probes work + (state_dir_effects work - ensure_calls work),
         d_descendantPath = (if statefile_empty (statefile_plan work) then '''' else StatefilePath work),
         d_descendantBindings = flag (\<not> statefile_empty (statefile_plan work)),
         d_descendantValidations = validations (statefile_plan work),
         d_descendantFileCommits = commits (statefile_plan work)\<rparr>\<rparr>"

definition gates_ok :: "ApplyWork \<Rightarrow> bool" where
  "gates_ok work \<longleftrightarrow> 0 \<le> ExecuteGates work \<and> 0 \<le> PrefixExecuteGates work \<and>
     0 \<le> PostRouteExecuteGates work \<and> 0 \<le> PostDelegateExecuteGates work"

definition apply_fits :: "ApplyWork \<Rightarrow> bool" where
  "apply_fits work \<longleftrightarrow> state_dir_effects work \<le> go_max_int \<and>
     attempt_probes work + (state_dir_effects work - ensure_calls work) \<le> go_max_int \<and>
     statefile_fits (statefile_plan work)"

lemma quantities_nonneg [simp]:
  "0 \<le> settlement_units work" "0 \<le> order_classes work" "0 \<le> carriers work" "0 \<le> attempt_probes work"
  "0 \<le> hostInvocations rs" "0 \<le> ensure_calls work" "0 \<le> barrier_calls work"
  by (simp_all add: settlement_units_def order_classes_def carriers_def attempt_probes_def hostInvocations_def
      ensure_calls_def barrier_calls_def)

lemma final_effects_nonneg: "gates_ok work \<Longrightarrow> 0 \<le> final_effects work"
  by (simp add: final_effects_def gates_ok_def)

text \<open>The validations left after the ensures never underflow: each ensure is charged against a nonempty
  group of effect calls.\<close>

lemma ensure_le_effects:
  assumes "gates_ok work"
  shows "ensure_calls work \<le> state_dir_effects work"
proof -
  have bound: "flag (x \<noteq> 0) \<le> x" if "0 \<le> x" for x :: int using that by (simp add: flag_def)
  have "flag (ProviderActions work \<noteq> []) \<le> int (length (ProviderActions work))"
    by (cases "ProviderActions work") simp_all
  then show ?thesis
    using assms bound[OF final_effects_nonneg[OF assms]] bound[of "PrefixExecuteGates work"]
    by (simp add: ensure_calls_def state_dir_effects_def gates_ok_def)
qed

lemma present_simps [simp]:
  "present [] = []"
  "present ((k, n) # counts) = (if n = 0 then [] else [\<lparr>ob_kind = k, ob_count = n\<rparr>]) @ present counts"
  by (simp_all add: present_def)

lemma env_add_present: "env_add k n obs = obs @ present [(k, n)]"
  by (simp add: env_add_def)

lemma env_add_conditional:
  "(if b then env_add k 1 obs else obs) = env_add k (flag b) obs"
  "(if 2 * n \<noteq> 0 then env_add k (2 * n div 2) obs else obs) = env_add k n obs"
  by (simp_all add: env_add_def)

lemma env_add_delegates:
  "(if delegatePersistenceRequired (Delegates work) then env_add ObligationDelegatePersistence 1 obs
    else if Delegates work \<noteq> [] then env_add ObligationDelegateAttempt (attempt_probes work) obs else obs) =
   env_add ObligationDelegateAttempt (attempt_probes work)
     (env_add ObligationDelegatePersistence (flag (delegatePersistenceRequired (Delegates work))) obs)"
  by (cases "Delegates work = []") (simp_all add: env_add_def attempt_probes_def delegatePersistenceRequired_def)

lemma checkedSum_iff:
  assumes "list_all (\<lambda>x. 0 \<le> x) (x # y # xs)"
  shows "checkedSum (x # y # xs) = Inr n \<longleftrightarrow> n = x + y + sum_list xs \<and> n \<le> go_max_int"
proof -
  have loop: "foldM checkedAdd a ys = Inr n \<longleftrightarrow> n = a + sum_list ys \<and> n \<le> go_max_int"
    if "0 \<le> a" "a \<le> go_max_int" "list_all (\<lambda>x. 0 \<le> x) ys" for a ys
    using that
  proof (induction ys arbitrary: a)
    case (Cons y ys)
    have "0 \<le> sum_list ys" using Cons.prems(3) by (auto intro: sum_list_nonneg simp: list_all_iff)
    with Cons show ?case by (cases "a + y \<le> go_max_int") (auto simp: add.assoc)
  qed auto
  have "0 \<le> sum_list xs" using assms by (auto intro: sum_list_nonneg simp: list_all_iff)
  then show ?thesis using assms loop[of "x + y" xs]
    by (cases "x + y \<le> go_max_int") (auto simp: checkedSum_def checkedAdd_def)
qed

lemma globalSettlement_eq: "globalSettlement work = Inr (2 * settlement_units work)"
  by (auto simp: globalSettlement_def settlement_units_def checkedAdd_def go_max_int_def)

text \<open>Every counting step is one of two outcomes: the exact value, or the overflow error.\<close>

definition guarded :: "bool \<Rightarrow> 'a \<Rightarrow> effectError + 'a" where
  "guarded c v = (if c then Inr v else Inl EffectDemandOverflow)"

lemma guardedI:
  "(\<And>n. m = Inr n \<longleftrightarrow> n = v \<and> c) \<Longrightarrow> fails_with ((=) EffectDemandOverflow) m \<Longrightarrow> m = guarded c v"
  by (cases m) (auto simp: guarded_def)

lemma guarded_bind:
  "ebind (guarded c v) f = (if c then f v else Inl EffectDemandOverflow)"
  by (simp add: guarded_def)

lemma counts_fail [simp]:
  "fails_with ((=) EffectDemandOverflow) (checkedSum xs)"
  "fails_with ((=) EffectDemandOverflow) (finalHostStateDirCalls routes)"
  "fails_with ((=) EffectDemandOverflow) (qualifyingCarrierCount actions)"
  "fails_with ((=) EffectDemandOverflow) (relationOrderClassCount classes may)"
  unfolding checkedSum_def finalHostStateDirCalls_def qualifyingCarrierCount_def relationOrderClassCount_def
  by (auto intro!: fails_with_intros split: list.splits prod.splits)

lemma count_steps:
  assumes "gates_ok work"
  shows "checkedSum [ExecuteGates work, PrefixExecuteGates work, PostRouteExecuteGates work, PostDelegateExecuteGates work] =
      guarded (ExecuteGates work + PrefixExecuteGates work + PostRouteExecuteGates work + PostDelegateExecuteGates work \<le> go_max_int)
        (ExecuteGates work + PrefixExecuteGates work + PostRouteExecuteGates work + PostDelegateExecuteGates work)"
    and "finalHostStateDirCalls (FinalRoutes work) =
      guarded (hostInvocations (FinalRoutes work) + flag (anyFinalPromotion (FinalRoutes work)) \<le> go_max_int)
        (hostInvocations (FinalRoutes work) + flag (anyFinalPromotion (FinalRoutes work)))"
    and "qualifyingCarrierCount (CarrierRemovals work) = guarded (carriers work \<le> go_max_int) (carriers work)"
    and "relationOrderClassCount (OrderClasses work) (relationOrderMayReclassify work) =
      guarded (order_classes work \<le> go_max_int) (order_classes work)"
    and "(if \<not> delegatePersistenceRequired (Delegates work) \<and> Delegates work \<noteq> []
        then checkedMul (int (length (Delegates work))) 2 else Inr 0) =
      guarded (attempt_probes work \<le> go_max_int) (attempt_probes work)"
  using assms
  by (auto intro!: guardedI simp: checkedSum_iff carriers_def order_classes_def gates_ok_def
      attempt_probes_def mult.commute)

lemma checkedAdd_guarded: "0 \<le> a \<Longrightarrow> 0 \<le> b \<Longrightarrow> checkedAdd a b = guarded (a + b \<le> go_max_int) (a + b)"
  by (auto intro!: guardedI)

lemma maybe_add:
  "0 \<le> n \<Longrightarrow> (if b then checkedAdd n 1 else Inr n) = guarded (b \<longrightarrow> n + 1 \<le> go_max_int) (n + flag b)"
  by (auto simp: checkedAdd_guarded guarded_def)

definition counts_fit :: "ApplyWork \<Rightarrow> bool" where
  "counts_fit work \<longleftrightarrow> state_dir_effects work \<le> go_max_int \<and>
     attempt_probes work + (state_dir_effects work - ensure_calls work) \<le> go_max_int"

lemma compile_apply_eq:
  assumes "gates_ok work"
  shows "CompileApply work =
    (if counts_fit work
     then ebind (applyStatefileDemand work) (\<lambda>d. if d = statefile_plan work then Inr (apply_envelope work) else Inl EffectDemandOverflow)
     else Inl EffectDemandOverflow)"
proof -
  define g where "g = ExecuteGates work + PrefixExecuteGates work + PostRouteExecuteGates work + PostDelegateExecuteGates work"
  define h where "h = hostInvocations (FinalRoutes work) + flag (anyFinalPromotion (FinalRoutes work))"
  define f where "f = ExecuteGates work + PostRouteExecuteGates work + PostDelegateExecuteGates work + h + carriers work + order_classes work"
  note nn = assms[unfolded gates_ok_def] quantities_nonneg
  note nn' = assms[unfolded gates_ok_def] quantities_nonneg(1-4)[where work = work]
  have h0: "0 \<le> h" and f0: "0 \<le> f" using nn by (simp_all add: h_def f_def)
  have sum: "checkedSum [ExecuteGates work, PostRouteExecuteGates work, PostDelegateExecuteGates work, h, carriers work, order_classes work] =
      guarded (f \<le> go_max_int) f"
    using nn h0 by (intro guardedI) (auto simp: checkedSum_iff f_def)
  have final: "f + 2 * settlement_units work + flag (delegatePersistenceRequired (Delegates work)) = final_effects work"
    by (simp add: f_def h_def final_effects_def)
  have settle: "checkedAdd f (2 * settlement_units work) =
      guarded (f + 2 * settlement_units work \<le> go_max_int) (f + 2 * settlement_units work)"
    using f0 nn by (intro checkedAdd_guarded) auto
  have persist: "(if delegatePersistenceRequired (Delegates work) then checkedAdd (f + 2 * settlement_units work) 1
        else Inr (f + 2 * settlement_units work)) =
      guarded (delegatePersistenceRequired (Delegates work) \<longrightarrow> f + 2 * settlement_units work + 1 \<le> go_max_int) (final_effects work)"
    using f0 nn by (subst maybe_add) (auto simp: final)
  let ?p = "int (length (ProviderActions work))"
  have effects: "checkedAdd ?p (final_effects work) =
      guarded (?p + final_effects work \<le> go_max_int) (?p + final_effects work)"
    "checkedAdd (?p + final_effects work) (PrefixExecuteGates work) = 
      guarded (state_dir_effects work \<le> go_max_int) (state_dir_effects work)"
    using nn final_effects_nonneg[OF assms] by (simp_all add: checkedAdd_guarded state_dir_effects_def)
  have ensure: "flag (PrefixExecuteGates work \<noteq> 0) + flag (?p \<noteq> 0) + flag (final_effects work \<noteq> 0) = ensure_calls work"
    by (simp add: ensure_calls_def)
  have only: "checkedAdd (attempt_probes work) (state_dir_effects work - ensure_calls work) =
      guarded (attempt_probes work + (state_dir_effects work - ensure_calls work) \<le> go_max_int)
        (attempt_probes work + (state_dir_effects work - ensure_calls work))"
    using nn ensure_le_effects[OF assms] by (intro checkedAdd_guarded) auto
  have barrier: "(if ?p \<noteq> 0 then 3 else 0) + flag (PrefixExecuteGates work \<noteq> 0) + flag (PostRouteExecuteGates work \<noteq> 0) +
      flag (PostDelegateExecuteGates work \<noteq> 0) = barrier_calls work"
    by (simp add: barrier_calls_def)
  have implied: "state_dir_effects work \<le> go_max_int \<Longrightarrow> g \<le> go_max_int \<and> h \<le> go_max_int \<and> carriers work \<le> go_max_int \<and>
      order_classes work \<le> go_max_int \<and> f \<le> go_max_int \<and> f + 2 * settlement_units work \<le> go_max_int \<and>
      (delegatePersistenceRequired (Delegates work) \<longrightarrow> f + 2 * settlement_units work + 1 \<le> go_max_int) \<and>
      ?p + final_effects work \<le> go_max_int"
    using nn' h0 final flag_simps(3)[of "delegatePersistenceRequired (Delegates work)"]
    unfolding g_def f_def state_dir_effects_def
    by (intro conjI impI) (linarith | simp)+
  have probes: "attempt_probes work + (state_dir_effects work - ensure_calls work) \<le> go_max_int \<Longrightarrow>
      attempt_probes work \<le> go_max_int"
    using ensure_le_effects[OF assms] by linarith
  have gates: "(ExecuteGates work < 0 \<or> PrefixExecuteGates work < 0 \<or> PostRouteExecuteGates work < 0 \<or>
      PostDelegateExecuteGates work < 0) = False"
    using nn by auto
  have plan: "ebind (applyStatefileDemand work) k =
      ebind (applyStatefileDemand work) (\<lambda>d. if d = statefile_plan work then k (statefile_plan work) else Inl EffectDemandOverflow)"
    for k :: "statefileDemand \<Rightarrow> effectError + Envelope"
    by (rule ebind_cong[OF refl]) (simp add: apply_statefile_iff)
  note steps = gates count_steps[OF assms] g_def[symmetric] h_def[symmetric] guarded_bind sum
    globalSettlement_eq ebind_simps settle persist effects Let_def ensure only barrier
    env_add_conditional env_add_delegates if_True if_False
  show ?thesis
  proof (cases "counts_fit work")
    case True
    then have c: "state_dir_effects work \<le> go_max_int"
      "attempt_probes work + (state_dir_effects work - ensure_calls work) \<le> go_max_int"
      by (simp_all add: counts_fit_def)
    have delegates: "(delegatePersistenceRequired (Delegates work) \<longrightarrow> f + 2 * settlement_units work + 1 \<le> go_max_int) = True"
      using implied[OF c(1)] by simp
    show ?thesis
      unfolding CompileApply_def
      apply (simp only: steps c implied[OF c(1)] delegates probes[OF c(2)] True)
      apply (subst plan)
      apply (rule ebind_cong[OF refl])
      by (simp add: apply_envelope_def env_add_present obligation_counts_def g_def statefile_empty_def)
  next
    case False
    then show ?thesis
      unfolding CompileApply_def counts_fit_def
      by (simp only: steps) auto
  qed
qed

text \<open>The two ways in which the statefile projection fails.\<close>

lemma host_routes_error:
  assumes "units_ok s" and "statefile_fits (hr_demand s)" and "foldM hostRouteStep s rs = Inl e"
  shows "e = EffectPinChangeShape \<and> \<not> list_all route_shape rs \<or>
    e = EffectDemandOverflow \<and> \<not> statefile_fits (statefile_plus (hr_demand s) (statefile_sum (map route_charge rs)))"
  using assms
proof (induction rs arbitrary: s)
  case (Cons r rs)
  let ?n = "statefile_plus (hr_demand s) (route_charge r)"
  show ?case
  proof (cases "route_shape r \<and> statefile_fits ?n")
    case True
    with host_step_eq(3)[OF Cons.prems(1,2)] obtain s' where
      s': "hostRouteStep s r = Inr s'" "units_ok s'" "hr_demand s' = ?n" by auto
    with Cons.IH[of s'] Cons.prems(3) True show ?thesis by (auto simp: statefile_plus_assoc)
  next
    case False
    then show ?thesis
      using host_step_eq(1,2)[OF Cons.prems(1,2), of r] Cons.prems(3)
        fits_prefix[OF charges_nonneg(1) Cons.prems(2) charges_sum_nonneg(1), of r rs]
      by (cases "route_shape r") (auto simp: statefile_plus_assoc)
  qed
qed simp

lemma hostRouteStatefileDemand_error:
  "hostRouteStatefileDemand rs = Inl e \<Longrightarrow> e = EffectPinChangeShape \<and> \<not> list_all route_shape rs \<or>
    e = EffectDemandOverflow \<and> \<not> statefile_fits (statefile_sum (map route_charge rs))"
  using host_routes_error[of "\<lparr>hr_demand = zero_statefile, hr_project = None, hr_global = None\<rparr>" rs e]
  by (auto simp: hostRouteStatefileDemand_def units_ok_def ebind_eq_Inl)

lemma statefile_fail [simp]:
  "fails_with ((=) EffectDemandOverflow) (statefile_add a v c)"
  "fails_with ((=) EffectDemandOverflow) (carrierRemovalStatefileDemand as)"
  "fails_with ((=) EffectDemandOverflow) (delegateStatefileDemand ds)"
  unfolding statefile_add_def carrierRemovalStatefileDemand_def delegateStatefileDemand_def
  by (auto intro!: fails_with_intros)

lemma apply_statefile_error:
  assumes "applyStatefileDemand work = Inl e"
  shows "e = EffectPinChangeShape \<and> \<not> list_all route_shape (ProviderActions work @ FinalRoutes work) \<or>
    e = EffectDemandOverflow \<and> \<not> statefile_fits (statefile_plan work)"
proof (cases "list_all route_shape (ProviderActions work @ FinalRoutes work)")
  case True
  then have "fails_with ((=) EffectDemandOverflow) (hostRouteStatefileDemand (ProviderActions work))"
    "fails_with ((=) EffectDemandOverflow) (hostRouteStatefileDemand (FinalRoutes work))"
    using hostRouteStatefileDemand_error by (fastforce simp: fails_with_def)+
  then have "fails_with ((=) EffectDemandOverflow) (applyStatefileDemand work)"
    unfolding applyStatefileDemand_def by (auto intro!: fails_with_ebind)
  with True assms apply_statefile_iff[of work] show ?thesis by (auto simp: fails_with_def)
next
  case False
  have "fails_with (\<lambda>e. e = EffectPinChangeShape \<or> e = EffectDemandOverflow \<and> \<not> statefile_fits (statefile_plan work))
      (applyStatefileDemand work)"
  proof (cases "statefile_fits (statefile_plan work)")
    case True
    note parts = plan_parts[OF True]
    have host: "hostRouteStatefileDemand rs =
        (if list_all route_shape rs then Inr (statefile_sum (map route_charge rs)) else Inl EffectPinChangeShape)"
      if "statefile_fits (statefile_sum (map route_charge rs))" for rs
      using that hostRouteStatefileDemand_iff[of rs] hostRouteStatefileDemand_error[of rs]
      by (cases "hostRouteStatefileDemand rs") auto
    have "carrierRemovalStatefileDemand (CarrierRemovals work) = Inr (statefile_sum (map carrier_charge (CarrierRemovals work)))"
      "delegateStatefileDemand (Delegates work) = Inr (delegates_charge (Delegates work))"
      using parts by (simp_all add: carrierRemovalStatefileDemand_iff delegateStatefileDemand_iff)
    with host parts True show ?thesis
      unfolding applyStatefileDemand_def
      by (simp add: host statefile_add_ok plan_eq)
  next
    case False
    have "fails_with (\<lambda>e. e = EffectPinChangeShape \<or> e = EffectDemandOverflow) (hostRouteStatefileDemand rs)" for rs
      using hostRouteStatefileDemand_error by (fastforce simp: fails_with_def)
    moreover have "fails_with (\<lambda>e. e = EffectPinChangeShape \<or> e = EffectDemandOverflow) m"
      if "fails_with ((=) EffectDemandOverflow) m" for m :: "effectError + statefileDemand"
      using that by (auto elim: fails_with_mono)
    ultimately show ?thesis using False
      unfolding applyStatefileDemand_def by (auto intro!: fails_with_ebind)
  qed
  with False assms show ?thesis by (auto simp: fails_with_def)
qed

section \<open>Properties\<close>

lemma plan_nonneg: "statefile_nonneg (statefile_plan work)"
  unfolding plan_eq by (intro statefile_nonneg_plus charges_sum_nonneg charges_nonneg)

lemma obligation_counts_nonneg:
  "gates_ok work \<Longrightarrow> (k, n) \<in> set (obligation_counts work) \<Longrightarrow> 0 \<le> n"
  using plan_nonneg[of work]
  by (auto simp: obligation_counts_def gates_ok_def statefile_dominates_def zero_statefile_def)

lemma set_present: "set (present counts) = {\<lparr>ob_kind = k, ob_count = n\<rparr> | k n. (k, n) \<in> set counts \<and> n \<noteq> 0}"
  by (auto simp: present_def)

lemma present_kinds: "distinct (map fst counts) \<Longrightarrow> distinct (map ob_kind (present counts))"
  by (induction counts) (force simp: set_present image_iff)+

lemma obligation_kinds: "distinct (map fst (obligation_counts work))"
  by (simp add: obligation_counts_def)

lemma zero_effects:
  assumes "gates_ok work" and "final_effects work = 0"
  shows "ExecuteGates work = 0" "PostRouteExecuteGates work = 0" "PostDelegateExecuteGates work = 0"
    "hostInvocations (FinalRoutes work) = 0" "\<not> anyFinalPromotion (FinalRoutes work)" "carriers work = 0"
    "order_classes work = 0" "settlement_units work = 0" "\<not> delegatePersistenceRequired (Delegates work)"
proof -
  note nn = assms(1)[unfolded gates_ok_def] quantities_nonneg(1,2,3)[where work = work]
    quantities_nonneg(5)[of "FinalRoutes work"] flag_simps(3)
  show "ExecuteGates work = 0" "PostRouteExecuteGates work = 0" "PostDelegateExecuteGates work = 0"
    "hostInvocations (FinalRoutes work) = 0" "carriers work = 0" "order_classes work = 0" "settlement_units work = 0"
    using assms(2) nn nn(6)[of "anyFinalPromotion (FinalRoutes work)"]
      nn(6)[of "delegatePersistenceRequired (Delegates work)"]
    unfolding final_effects_def by linarith+
  have "flag (anyFinalPromotion (FinalRoutes work)) = 0" "flag (delegatePersistenceRequired (Delegates work)) = 0"
    using assms(2) nn nn(6)[of "anyFinalPromotion (FinalRoutes work)"]
      nn(6)[of "delegatePersistenceRequired (Delegates work)"]
    unfolding final_effects_def by linarith+
  then show "\<not> anyFinalPromotion (FinalRoutes work)" "\<not> delegatePersistenceRequired (Delegates work)" by simp_all
qed

lemma compile_apply_iff:
  "CompileApply work = Inr e \<longleftrightarrow>
     gates_ok work \<and> list_all route_shape (ProviderActions work @ FinalRoutes work) \<and>
     counts_fit work \<and> statefile_fits (statefile_plan work) \<and> e = apply_envelope work"
proof (cases "gates_ok work")
  case True
  then show ?thesis by (auto simp: compile_apply_eq apply_statefile_iff)
next
  case False
  then show ?thesis by (auto simp: CompileApply_def gates_ok_def)
qed

text \<open>An envelope without obligations and an empty demand both mean that there is no work.\<close>

definition no_work :: "ApplyWork \<Rightarrow> bool" where
  "no_work work \<longleftrightarrow> PrefixExecuteGates work = 0 \<and> ProviderActions work = [] \<and> final_effects work = 0 \<and>
     attempt_probes work = 0 \<and> statefile_empty (statefile_plan work)"

lemma ensure_zero_iff:
  "ensure_calls work = 0 \<longleftrightarrow> PrefixExecuteGates work = 0 \<and> ProviderActions work = [] \<and> final_effects work = 0"
  by (auto simp: ensure_calls_def flag_def)

lemma no_obligations_iff:
  assumes "gates_ok work"
  shows "present (obligation_counts work) = [] \<longleftrightarrow> no_work work"
proof
  assume "present (obligation_counts work) = []"
  then show "no_work work"
    by (simp add: obligation_counts_def ensure_zero_iff no_work_def statefile_empty_def split: if_splits)
next
  assume z: "no_work work"
  then show "present (obligation_counts work) = []"
    using zero_effects[OF assms]
    by (simp add: no_work_def obligation_counts_def ensure_zero_iff statefile_empty_def barrier_calls_def)
qed

lemma demand_empty_iff:
  assumes "gates_ok work"
  shows "Demand_Empty (env_demand (apply_envelope work)) \<longleftrightarrow> no_work work"
proof
  assume d: "Demand_Empty (env_demand (apply_envelope work))"
  then have e: "ensure_calls work = 0" and s: "statefile_empty (statefile_plan work)"
    and p: "attempt_probes work + (state_dir_effects work - ensure_calls work) = 0"
    by (auto simp: Demand_Empty_def apply_envelope_def flag_def split: if_splits)
  then show "no_work work" by (simp add: no_work_def ensure_zero_iff state_dir_effects_def)
next
  assume "no_work work"
  then show "Demand_Empty (env_demand (apply_envelope work))"
    using zero_effects[OF assms]
    by (auto simp: no_work_def Demand_Empty_def apply_envelope_def ensure_zero_iff state_dir_effects_def
        barrier_calls_def statefile_empty_def ensure_calls_def)
qed

text \<open>C11: compiling apply work succeeds exactly when no gate count is negative, every pin change is a
  host invocation without promotion and all totals fit the machine integer; the envelope is then the
  closed form whose counts are exact sums over the work.\<close>

theorem compile_apply_exact:
  "CompileApply work = Inr e \<longleftrightarrow>
     gates_ok work \<and> list_all route_shape (ProviderActions work @ FinalRoutes work) \<and>
     counts_fit work \<and> statefile_fits (statefile_plan work) \<and> e = apply_envelope work"
  by (rule compile_apply_iff)

text \<open>C12: each error of the apply compiler has its reason: a negative gate is always reported as such,
  the pin-change error only for a pin change of the wrong shape, overflow only when a total does not fit.\<close>

theorem compile_apply_errors:
  assumes "CompileApply work = Inl e"
  shows "e = EffectGatesNegative \<and> \<not> gates_ok work \<or>
    gates_ok work \<and> (e = EffectPinChangeShape \<and> \<not> list_all route_shape (ProviderActions work @ FinalRoutes work) \<or>
      e = EffectDemandOverflow \<and> \<not> (counts_fit work \<and> statefile_fits (statefile_plan work)))"
proof (cases "gates_ok work")
  case True
  with assms apply_statefile_error[of work e] apply_statefile_iff[of work] show ?thesis
    by (auto simp: compile_apply_eq ebind_eq_Inl split: if_splits)
next
  case False
  with assms show ?thesis by (auto simp: CompileApply_def gates_ok_def)
qed

text \<open>A compiled apply envelope is well formed: its obligations have distinct kinds and positive
  counts, the state-directory validations left after the ensures are not negative (the subtraction in the
  code does not underflow), at most three ensures and six barrier validations are reserved, and the
  demand is empty exactly when there is no obligation at all.\<close>

lemma compile_apply_wellformed:
  assumes "CompileApply work = Inr e"
  shows "distinct (map ob_kind (env_obligations e)) \<and> list_all (\<lambda>ob. 0 < ob_count ob) (env_obligations e) \<and>
    0 \<le> d_stateDirValidationCalls (env_demand e) \<and> d_ensureCalls (env_demand e) \<le> 3 \<and>
    d_barrierValidationCalls (env_demand e) \<le> 6 \<and>
    (env_obligations e = [] \<longleftrightarrow> Demand_Empty (env_demand e))"
proof -
  have gates: "gates_ok work" and e: "e = apply_envelope work"
    using assms by (simp_all add: compile_apply_iff)
  have pos: "list_all (\<lambda>ob. 0 < ob_count ob) (present (obligation_counts work))"
    using obligation_counts_nonneg[OF gates] by (fastforce simp: list_all_iff set_present order_le_less)
  have "0 \<le> d_stateDirValidationCalls (env_demand e)"
    using ensure_le_effects[OF gates] quantities_nonneg(4)[of work] by (simp add: e apply_envelope_def)
  moreover have "d_ensureCalls (env_demand e) \<le> 3" "d_barrierValidationCalls (env_demand e) \<le> 6"
    by (simp_all add: e apply_envelope_def ensure_calls_def barrier_calls_def flag_def)
  ultimately show ?thesis
    using pos present_kinds[OF obligation_kinds] no_obligations_iff[OF gates] demand_empty_iff[OF gates]
    by (simp add: e apply_envelope_def)
qed

definition sample_work :: ApplyWork where
  "sample_work = \<lparr>ExecuteGates = 1, PrefixExecuteGates = 1, PostRouteExecuteGates = 0, PostDelegateExecuteGates = 0,
     ProviderActions = [\<lparr>PinChange = True, InvokesHost = True, Global = False, Promotion = False\<rparr>],
     FinalRoutes = [\<lparr>PinChange = False, InvokesHost = True, Global = True, Promotion = False\<rparr>,
       \<lparr>PinChange = False, InvokesHost = False, Global = False, Promotion = True\<rparr>],
     CarrierRemovals = [\<lparr>cw_InvokesHost = False, MutatesDirect = True, VerifiesPending = False\<rparr>],
     GlobalCarrierRetirement = True, GlobalCarrierAdoption = False,
     OrderClasses = [\<lparr>RequiresMutation = False\<rparr>],
     Delegates = [\<lparr>SchedulesAttempt = False, Blocked = False\<rparr>], StatefilePath = ''state.json''\<rparr>"

lemma sample_work_compiles: "CompileApply sample_work = Inr (apply_envelope sample_work)"
  by (simp add: compile_apply_iff) code_simp

definition misshapen_work :: ApplyWork where
  "misshapen_work = sample_work\<lparr>FinalRoutes := [\<lparr>PinChange = True, InvokesHost = True, Global = False, Promotion = True\<rparr>]\<rparr>"

theorem compile_apply_errors_witness:
  "CompileApply misshapen_work = Inl EffectPinChangeShape \<and> gates_ok misshapen_work \<and>
   \<not> list_all route_shape (ProviderActions misshapen_work @ FinalRoutes misshapen_work)"
proof -
  have "gates_ok misshapen_work" "counts_fit misshapen_work" "statefile_fits (statefile_plan misshapen_work)" by code_simp+
  moreover have "\<not> list_all route_shape (ProviderActions misshapen_work @ FinalRoutes misshapen_work)" by code_simp
  ultimately show ?thesis
    using compile_apply_errors[of misshapen_work] compile_apply_iff[of misshapen_work]
    by (cases "CompileApply misshapen_work") auto
qed

lemma compile_apply_wellformed_witness:
  "\<exists>e. CompileApply sample_work = Inr e \<and> 0 \<le> d_stateDirValidationCalls (env_demand e) \<and>
     map ob_count (env_obligations e) = [2, 2, 1, 1, 1, 1, 1, 3, 4, 1, 28, 11] \<and>
     \<not> Demand_Empty (env_demand e)"
proof -
  have "map ob_count (env_obligations (apply_envelope sample_work)) = [2, 2, 1, 1, 1, 1, 1, 3, 4, 1, 28, 11]"
    by code_simp
  with compile_apply_wellformed[OF sample_work_compiles] sample_work_compiles show ?thesis by auto
qed

end
