(* ===== verification/GoPaths.thy ===== *)
theory GoPaths
  imports Prelude "HOL-Library.Sublist"
begin

text \<open>
  The fragment of Go's \<^verbatim>\<open>path/filepath\<close>, \<^verbatim>\<open>strings\<close>, \<^verbatim>\<open>strconv\<close> and
  \<^verbatim>\<open>unicode/utf8\<close> packages that the path and lease code calls, for the POSIX
  separator: lexical cleaning, parent, containment, splitting, decimal printing and UTF-8 validity.
  The lemmas relate clean absolute paths to lists of components.
\<close>

section \<open>Splitting and joining\<close>

fun split_on :: "char \<Rightarrow> string \<Rightarrow> string list" where
  "split_on c [] = [[]]"
| "split_on c (x # xs) =
     (if x = c then [] # split_on c xs
      else (case split_on c xs of [] \<Rightarrow> [[x]] | y # ys \<Rightarrow> (x # y) # ys))"

fun join_on :: "char \<Rightarrow> string list \<Rightarrow> string" where
  "join_on c [] = []"
| "join_on c [x] = x"
| "join_on c (x # y # ys) = x @ c # join_on c (y # ys)"

lemma split_on_nonempty [simp]: "split_on c s \<noteq> []"
  by (induction s) (auto split: list.splits)

lemma join_on_Cons: "join_on c (x # xs) = x @ (if xs = [] then [] else c # join_on c xs)"
  by (cases xs) simp_all

lemma join_split [simp]: "join_on c (split_on c s) = s"
  by (induction s) (auto simp: join_on_Cons split: list.splits)

lemma split_plain: "c \<notin> set x \<Longrightarrow> split_on c x = [x]"
  by (induction x) auto

lemma split_append: "split_on c (a @ c # b) = split_on c a @ split_on c b"
  by (induction a) (auto split: list.splits)

lemma split_join:
  "xs \<noteq> [] \<Longrightarrow> \<forall>x \<in> set xs. c \<notin> set x \<Longrightarrow> split_on c (join_on c xs) = xs"
  by (induction c xs rule: join_on.induct) (auto simp: split_plain split_append)

lemma split_on_free: "x \<in> set (split_on c s) \<Longrightarrow> c \<notin> set x"
  by (induction s arbitrary: x) (fastforce split: list.splits if_splits)+

text \<open>The total length of the elements, each counted with one separator.\<close>

definition spread :: "string list \<Rightarrow> nat" where
  "spread xs = sum_list (map (\<lambda>x. Suc (length x)) xs)"

lemma spread_simps [simp]:
  "spread [] = 0" "spread (x # xs) = Suc (length x) + spread xs" "spread (xs @ ys) = spread xs + spread ys"
  "spread (rev xs) = spread xs"
  by (simp_all add: spread_def sum_list_rev rev_map [symmetric])

lemma spread_split: "spread (split_on c s) = Suc (length s)"
  by (induction s) (auto split: list.splits)

lemma join_length: "xs \<noteq> [] \<Longrightarrow> Suc (length (join_on c xs)) = spread xs"
  by (induction c xs rule: join_on.induct) auto

section \<open>filepath.Clean, filepath.Dir and filepath.Rel\<close>

abbreviation slash :: char where
  "slash \<equiv> CHR 0x2F"

abbreviation dot :: string where
  "dot \<equiv> [CHR 0x2E]"

abbreviation dotdot :: string where
  "dotdot \<equiv> [CHR 0x2E, CHR 0x2E]"

definition go_is_abs :: "string \<Rightarrow> bool" where
  "go_is_abs p \<longleftrightarrow> p \<noteq> [] \<and> hd p = slash"

text \<open>One element of the path against the stack of retained elements, innermost first.\<close>

definition clean_step :: "bool \<Rightarrow> string list \<Rightarrow> string \<Rightarrow> string list" where
  "clean_step rooted st e =
     (if e = [] \<or> e = dot then st
      else if e = dotdot then
        (case st of
           t # ts \<Rightarrow> if t = dotdot then e # st else ts
         | [] \<Rightarrow> if rooted then [] else [e])
      else e # st)"

definition clean_elements :: "bool \<Rightarrow> string \<Rightarrow> string list" where
  "clean_elements rooted p = rev (foldl (clean_step rooted) [] (split_on slash p))"

definition go_clean :: "string \<Rightarrow> string" where
  "go_clean p =
     (if p = [] then dot
      else let r = (if go_is_abs p then [slash] else []) @ join_on slash (clean_elements (go_is_abs p) p)
           in if r = [] then dot else r)"

definition go_dir :: "string \<Rightarrow> string" where
  "go_dir p = go_clean (rev (dropWhile (\<lambda>c. c \<noteq> slash) (rev p)))"

definition rel_elements :: "string \<Rightarrow> string list" where
  "rel_elements p =
     (let r = (if go_is_abs p then tl p else if p = dot then [] else p)
      in if r = [] then [] else split_on slash r)"

fun strip_common :: "'a list \<Rightarrow> 'a list \<Rightarrow> 'a list \<times> 'a list" where
  "strip_common (x # xs) (y # ys) = (if x = y then strip_common xs ys else (x # xs, y # ys))"
| "strip_common xs ys = (xs, ys)"

definition go_rel :: "string \<Rightarrow> string \<Rightarrow> string option" where
  "go_rel base targ =
     (let b = go_clean base; t = go_clean targ in
      if t = b then Some dot
      else if go_is_abs b \<noteq> go_is_abs t then None
      else case strip_common (rel_elements b) (rel_elements t) of
        (bs, ts) \<Rightarrow>
          if bs \<noteq> [] \<and> hd bs = dotdot then None
          else Some (join_on slash (replicate (length bs) dotdot @ ts)))"

section \<open>Absolute clean paths as lists of components\<close>

definition component :: "string \<Rightarrow> bool" where
  "component c \<longleftrightarrow> c \<noteq> [] \<and> c \<noteq> dot \<and> c \<noteq> dotdot \<and> slash \<notin> set c"

definition components :: "string list \<Rightarrow> bool" where
  "components cs \<longleftrightarrow> list_all component cs"

definition abs_path :: "string list \<Rightarrow> string" where
  "abs_path cs = slash # join_on slash cs"

definition clean_abs :: "string \<Rightarrow> bool" where
  "clean_abs p \<longleftrightarrow> go_is_abs p \<and> go_clean p = p"

lemma abs_path_is_abs [simp]: "go_is_abs (abs_path cs)"
  by (simp add: go_is_abs_def abs_path_def)

lemma clean_step_component: "component e \<Longrightarrow> clean_step r st e = e # st"
  by (simp add: clean_step_def component_def)

lemma fold_components: "components cs \<Longrightarrow> foldl (clean_step r) st cs = rev cs @ st"
  by (induction cs arbitrary: st) (auto simp: components_def clean_step_component)

lemma split_components: "components cs \<Longrightarrow> cs \<noteq> [] \<Longrightarrow> split_on slash (join_on slash cs) = cs"
  by (rule split_join) (auto simp: components_def component_def list_all_iff)

lemma clean_step_empty [simp]: "clean_step r st [] = st"
  by (simp add: clean_step_def)

lemma clean_elements_abs: "components cs \<Longrightarrow> clean_elements r (abs_path cs) = cs"
proof (cases "cs = []")
  case True
  then show ?thesis by (simp add: clean_elements_def abs_path_def)
next
  case False
  assume "components cs"
  then show ?thesis
    using False by (simp add: clean_elements_def abs_path_def split_components fold_components)
qed

lemma clean_abs_path: "components cs \<Longrightarrow> go_clean (abs_path cs) = abs_path cs"
  by (simp add: go_clean_def clean_elements_abs Let_def) (simp add: abs_path_def)

lemma clean_step_components:
  "components st \<Longrightarrow> slash \<notin> set e \<Longrightarrow> components (clean_step True st e)"
  by (auto simp: clean_step_def components_def component_def split: list.splits)

lemma components_rev [simp]: "components (rev cs) = components cs"
  by (simp add: components_def list_all_rev)

lemma clean_elements_components: "components (clean_elements True p)"
proof -
  have "components (foldl (clean_step True) st es)"
    if "components st" "\<forall>e \<in> set es. slash \<notin> set e" for st es
    using that by (induction es arbitrary: st) (auto simp: clean_step_components)
  then show ?thesis
    by (simp add: clean_elements_def components_def[of "[]"] split_on_free)
qed

lemma clean_abs_iff: "clean_abs p \<longleftrightarrow> (\<exists>cs. components cs \<and> p = abs_path cs)"
proof
  assume p: "clean_abs p"
  then have "go_is_abs p" "p \<noteq> []" "go_clean p = p" by (auto simp: clean_abs_def go_is_abs_def)
  then have "p = abs_path (clean_elements True p)" by (simp add: go_clean_def Let_def abs_path_def)
  then show "\<exists>cs. components cs \<and> p = abs_path cs"
    using clean_elements_components by blast
next
  assume "\<exists>cs. components cs \<and> p = abs_path cs"
  then show "clean_abs p" by (auto simp: clean_abs_def clean_abs_path)
qed

lemma abs_path_inject:
  assumes "components cs" "components ds" "abs_path cs = abs_path ds"
  shows "cs = ds"
  using assms by (metis clean_elements_abs)

lemma components_butlast: "components cs \<Longrightarrow> components (butlast cs)"
  by (auto simp: components_def list_all_iff dest: in_set_butlastD)

lemma join_on_append:
  "join_on c (xs @ ys) = join_on c xs @ (if xs = [] \<or> ys = [] then [] else [c]) @ join_on c ys"
  by (induction c xs rule: join_on.induct) (auto simp: join_on_Cons)

lemma dropWhile_until: "c \<notin> set d \<Longrightarrow> dropWhile (\<lambda>x. x \<noteq> c) (rev d @ c # r) = c # r"
  by (induction d rule: rev_induct) auto

lemma go_dir_abs_path:
  assumes "components cs"
  shows "go_dir (abs_path cs) = abs_path (butlast cs)"
proof (cases cs rule: rev_exhaust)
  case Nil
  then show ?thesis by (simp add: go_dir_def abs_path_def) code_simp
next
  case (snoc ds d)
  then have d: "slash \<notin> set d" using assms by (simp add: components_def component_def)
  have ds: "components ds" using components_butlast[OF assms] snoc by simp
  let ?pre = "slash # join_on slash ds @ (if ds = [] then [] else [slash])"
  have "abs_path cs = ?pre @ d"
    by (simp add: snoc abs_path_def join_on_append)
  moreover have "rev (dropWhile (\<lambda>c. c \<noteq> slash) (rev (?pre @ d))) = ?pre"
    using d by (auto simp: dropWhile_until)
  moreover have "go_clean ?pre = abs_path ds"
  proof (cases "ds = []")
    case True
    then show ?thesis by (simp add: abs_path_def) code_simp
  next
    case False
    have "?pre = abs_path ds @ [slash]" using False by (simp add: abs_path_def)
    moreover have "clean_elements True (abs_path ds @ [slash]) = ds"
      using False clean_elements_abs[OF ds, of True]
      by (simp add: clean_elements_def split_append)
    ultimately show ?thesis
      using False by (simp add: go_clean_def Let_def) (simp add: go_is_abs_def abs_path_def)
  qed
  ultimately show ?thesis by (simp add: go_dir_def snoc)
qed

section \<open>Walking up terminates\<close>

lemma clean_step_spread: "spread (clean_step r st e) \<le> spread st + (if e = [] then 0 else Suc (length e))"
  by (auto simp: clean_step_def split: list.splits)

lemma clean_fold_spread:
  "spread (foldl (clean_step r) st es) \<le> spread st + spread (filter (\<lambda>e. e \<noteq> []) es)"
proof (induction es arbitrary: st)
  case (Cons e es)
  have "spread (foldl (clean_step r) st (e # es)) \<le>
      spread (clean_step r st e) + spread (filter (\<lambda>e. e \<noteq> []) es)"
    using Cons.IH by simp
  also have "\<dots> \<le> spread st + spread (filter (\<lambda>e. e \<noteq> []) (e # es))"
    using clean_step_spread[of r st e] by auto
  finally show ?case .
qed simp

lemma clean_length:
  assumes "p \<noteq> []"
  shows "length (go_clean p) \<le> length p"
proof -
  let ?es = "clean_elements (go_is_abs p) p"
  have "spread ?es \<le> spread (filter (\<lambda>e. e \<noteq> []) (split_on slash p))"
    using clean_fold_spread[of "go_is_abs p" "[]"] by (simp add: clean_elements_def)
  also have "\<dots> \<le> (if go_is_abs p then length p else Suc (length p))"
  proof (cases "go_is_abs p")
    case True
    then obtain q where "p = slash # q" by (cases p) (auto simp: go_is_abs_def)
    moreover have "spread (filter (\<lambda>e. e \<noteq> []) xs) \<le> spread xs" for xs
      by (induction xs) auto
    from this[of "split_on slash q"] have "spread (filter (\<lambda>e. e \<noteq> []) (split_on slash q)) \<le> Suc (length q)"
      by (simp add: spread_split)
    ultimately show ?thesis using True by simp
  next
    case False
    have "spread (filter (\<lambda>e. e \<noteq> []) xs) \<le> spread xs" for xs
      by (induction xs) auto
    from this[of "split_on slash p"] show ?thesis using False by (simp add: spread_split)
  qed
  finally have "spread ?es \<le> (if go_is_abs p then length p else Suc (length p))" .
  moreover have "length (join_on slash ?es) \<le> spread ?es - 1"
    using join_length[of ?es slash] by (cases "?es = []") auto
  ultimately show ?thesis
    using assms join_length[of ?es slash]
    by (cases "?es = []"; cases "length p") (auto simp: go_clean_def Let_def)
qed

lemma clean_nonempty [simp]: "go_clean p \<noteq> []"
  by (simp add: go_clean_def Let_def)

lemma clean_trailing: "q \<noteq> [] \<Longrightarrow> go_clean (q @ [slash]) = go_clean q"
  by (simp add: go_clean_def clean_elements_def split_append go_is_abs_def)

lemma go_dir_shrinks:
  assumes "go_dir p \<noteq> p"
  shows "go_dir p = dot \<and> p \<noteq> dot \<or> length (go_dir p) < length p"
proof -
  let ?q = "rev (dropWhile (\<lambda>c. c \<noteq> slash) (rev p))"
  have split: "p = ?q @ rev (takeWhile (\<lambda>c. c \<noteq> slash) (rev p))"
    by (metis rev_append rev_rev_ident takeWhile_dropWhile_id)
  show ?thesis
  proof (cases "?q = []")
    case True
    then have "go_dir p = dot" by (simp add: go_dir_def go_clean_def)
    then show ?thesis using assms by auto
  next
    case False
    show ?thesis
    proof (cases "takeWhile (\<lambda>c. c \<noteq> slash) (rev p) = []")
      case True
      then have "p = ?q" using split by simp
      moreover have "last p = slash" using True False by (cases "rev p") (auto split: if_splits)
      ultimately obtain r where r: "p = r @ [slash]" using False by (metis append_butlast_last_id)
      have dir: "go_dir p = go_clean p" using \<open>p = ?q\<close> by (simp add: go_dir_def)
      show ?thesis
      proof (cases "r = []")
        case True
        then have "go_clean p = p" using r by (simp add: go_clean_def clean_elements_def go_is_abs_def)
        then show ?thesis using assms dir by simp
      next
        case False
        then show ?thesis using clean_length[of r] dir r by (simp add: clean_trailing)
      qed
    next
      case False
      then have "length ?q < length p" using split
        by (metis length_append length_greater_0_conv length_rev less_add_same_cancel1)
      then show ?thesis using clean_length[OF \<open>?q \<noteq> []\<close>] by (simp add: go_dir_def)
    qed
  qed
qed

definition up_measure :: "string \<Rightarrow> nat" where
  "up_measure p = (if p = dot then 0 else Suc (length p))"

lemma up_measure_dir: "go_dir p \<noteq> p \<Longrightarrow> up_measure (go_dir p) < up_measure p"
  using go_dir_shrinks[of p] clean_nonempty by (auto simp: up_measure_def go_dir_def)

text \<open>The proper ancestors of a path, nearest first.\<close>

function ancestors :: "string \<Rightarrow> string list" where
  "ancestors p = (if go_dir p = p then [] else go_dir p # ancestors (go_dir p))"
  by pat_completeness auto
termination by (relation "measure up_measure") (simp_all add: up_measure_dir)

declare ancestors.simps [simp del]

lemma ancestors_abs_path:
  "components cs \<Longrightarrow> set (ancestors (abs_path cs)) = {abs_path ds | ds. strict_prefix ds cs}"
proof (induction cs rule: rev_induct)
  case Nil
  then show ?case by (subst ancestors.simps) (simp add: go_dir_abs_path)
next
  case (snoc c cs)
  then have cs: "components cs" and c: "components (cs @ [c])" by (simp_all add: components_def)
  have "abs_path (cs @ [c]) \<noteq> abs_path cs" using abs_path_inject[OF c cs] by auto
  then have "set (ancestors (abs_path (cs @ [c]))) = insert (abs_path cs) (set (ancestors (abs_path cs)))"
    using c by (subst ancestors.simps) (auto simp: go_dir_abs_path)
  also have "\<dots> = {abs_path ds | ds. strict_prefix ds (cs @ [c])}"
    using snoc.IH[OF cs] by (auto simp: strict_prefix_def)
  finally show ?case .
qed

section \<open>Containment\<close>

definition pathContains :: "string \<Rightarrow> string \<Rightarrow> bool" where
  "pathContains parent child =
     (case go_rel parent child of
        None \<Rightarrow> False
      | Some relative \<Rightarrow> relative = dot \<or> relative \<noteq> dotdot \<and> take 3 relative \<noteq> dotdot @ [slash])"

lemma rel_elements_abs: "components cs \<Longrightarrow> rel_elements (abs_path cs) = cs"
proof (cases cs)
  case Nil
  then show ?thesis by (simp add: rel_elements_def abs_path_def go_is_abs_def)
next
  case (Cons c ds)
  assume cs: "components cs"
  then have "join_on slash cs \<noteq> []" using Cons by (auto simp: components_def component_def join_on_Cons)
  then show ?thesis
    using cs Cons split_components[of cs] by (simp add: rel_elements_def abs_path_def go_is_abs_def)
qed

lemma strip_common_eq:
  "strip_common xs ys = (as, bs) \<Longrightarrow> \<exists>c. xs = c @ as \<and> ys = c @ bs \<and> (as = [] \<or> bs = [] \<or> hd as \<noteq> hd bs)"
proof (induction xs ys rule: strip_common.induct)
  case (1 x xs y ys)
  show ?case
  proof (cases "x = y")
    case True
    with 1 obtain c where "xs = c @ as" "ys = c @ bs" "as = [] \<or> bs = [] \<or> hd as \<noteq> hd bs" by auto
    with True show ?thesis by (intro exI[of _ "x # c"]) simp
  qed (use 1 in auto)
qed auto

lemma takeWhile_join: "c \<notin> set x \<Longrightarrow> takeWhile (\<lambda>y. y \<noteq> c) (join_on c (x # xs)) = x"
  unfolding join_on_Cons by (subst takeWhile_append2) auto

lemma component_not_up:
  assumes "component c"
  shows "join_on slash (c # cs) \<noteq> dotdot" "take 3 (join_on slash (c # cs)) \<noteq> dotdot @ [slash]"
proof -
  have c: "c \<noteq> dotdot" "slash \<notin> set c" using assms by (auto simp: component_def)
  have first: "takeWhile (\<lambda>y. y \<noteq> slash) (join_on slash (c # cs)) = c" by (rule takeWhile_join[OF c(2)])
  show "join_on slash (c # cs) \<noteq> dotdot"
    using first c(1) by auto
  show "take 3 (join_on slash (c # cs)) \<noteq> dotdot @ [slash]"
  proof
    assume "take 3 (join_on slash (c # cs)) = dotdot @ [slash]"
    then have "join_on slash (c # cs) = dotdot @ slash # drop 3 (join_on slash (c # cs))"
      by (metis append_Cons append_Nil append_assoc append_take_drop_id)
    then have "takeWhile (\<lambda>y. y \<noteq> slash) (join_on slash (c # cs)) =
        takeWhile (\<lambda>y. y \<noteq> slash) (dotdot @ slash # drop 3 (join_on slash (c # cs)))"
      by (rule arg_cong)
    then show False using first c(1) by simp
  qed
qed

lemma up_not_contained:
  "join_on slash (dotdot # cs) \<noteq> dot \<and>
   (join_on slash (dotdot # cs) = dotdot \<or> take 3 (join_on slash (dotdot # cs)) = dotdot @ [slash])"
  by (simp add: join_on_Cons)

lemma pathContains_abs:
  assumes "components ps" "components cs"
  shows "pathContains (abs_path ps) (abs_path cs) \<longleftrightarrow> prefix ps cs"
proof (cases "ps = cs")
  case True
  then show ?thesis by (simp add: pathContains_def go_rel_def)
next
  case False
  obtain bs ts where st: "strip_common ps cs = (bs, ts)" by fastforce
  then obtain c where c: "ps = c @ bs" "cs = c @ ts" and d: "bs = [] \<or> ts = [] \<or> hd bs \<noteq> hd ts"
    using strip_common_eq by blast
  have ne: "abs_path ps \<noteq> abs_path cs" using False abs_path_inject[OF assms] by blast
  have pre: "prefix ps cs \<longleftrightarrow> bs = []"
    using d False c by (cases bs; cases ts) (auto simp: prefix_def)
  have bs: "component (hd bs)" if "bs \<noteq> []" using assms(1) c that by (cases bs) (auto simp: components_def)
  have rel: "go_rel (abs_path ps) (abs_path cs) = Some (join_on slash (replicate (length bs) dotdot @ ts))"
    using ne assms bs
    by (auto simp: go_rel_def clean_abs_path rel_elements_abs st component_def)
  show ?thesis
  proof (cases bs)
    case Nil
    with False c obtain t us where t: "ts = t # us" by (cases ts) auto
    then have "component t" using assms(2) c by (simp add: components_def)
    then show ?thesis using component_not_up[of t us] Nil pre rel t by (simp add: pathContains_def)
  next
    case (Cons b bs')
    then show ?thesis using pre rel up_not_contained[of "replicate (length bs') dotdot @ ts"]
      by (auto simp: pathContains_def)
  qed
qed

section \<open>strconv.Itoa\<close>

definition digit :: "nat \<Rightarrow> char" where
  "digit n = char_of (48 + n)"

fun itoa :: "nat \<Rightarrow> string" where
  "itoa n = (if n < 10 then [digit n] else itoa (n div 10) @ [digit (n mod 10)])"

declare itoa.simps [simp del]

fun decimal :: "nat \<Rightarrow> string \<Rightarrow> nat" where
  "decimal a [] = a"
| "decimal a (c # cs) = decimal (a * 10 + (of_char c - 48)) cs"

lemma decimal_append: "decimal a (xs @ ys) = decimal (decimal a xs) ys"
  by (induction xs arbitrary: a) simp_all

lemma of_char_digit [simp]: "n < 10 \<Longrightarrow> (of_char (digit n) :: nat) = 48 + n"
  by (simp add: digit_def)

lemma decimal_itoa: "decimal 0 (itoa n) = n"
proof (induction n rule: itoa.induct)
  case (1 n)
  then show ?case by (subst itoa.simps) (auto simp: decimal_append)
qed

lemma itoa_inject [simp]: "itoa m = itoa n \<longleftrightarrow> m = n"
  by (metis decimal_itoa)

lemma itoa_digits: "c \<in> set (itoa n) \<Longrightarrow> \<exists>d < 10. c = digit d"
proof (induction n rule: itoa.induct)
  case (1 n)
  have "c \<in> set (if n < 10 then [digit n] else itoa (n div 10) @ [digit (n mod 10)])"
    using 1(2) by (simp only: itoa.simps[of n])
  then consider "n < 10" "c = digit n" | "\<not> n < 10" "c \<in> set (itoa (n div 10))" | "c = digit (n mod 10)"
    by (auto split: if_splits)
  then show ?case
  proof cases
    case 2
    then show ?thesis using 1(1) by blast
  next
    case 3
    then show ?thesis using mod_less_divisor[of 10 n] by (intro exI[of _ "n mod 10"]) simp
  qed blast
qed

lemma itoa_no_colon [simp]: "CHR 0x3A \<notin> set (itoa n)"
proof
  assume "CHR 0x3A \<in> set (itoa n)"
  then obtain d where d: "d < 10" "CHR 0x3A = digit d" using itoa_digits by blast
  then have "(of_char (CHR 0x3A) :: nat) = 48 + d" by simp
  then show False using d(1) by simp
qed

end
