(* ===== verification/PathAuthority.thy ===== *)
theory PathAuthority
  imports GoPaths
begin

text \<open>
  Exact and provisional path authorities, \<^verbatim>\<open>internal/assurance/pathauthority\<close>: a
  canonical path key with the witness of the filesystem semantics under which it was derived, and
  the evidence for a future path below an existing namespace. \<open>strings.ToLower\<close> depends on the
  Unicode case tables and is the parameter \<open>to_lower\<close> of the definitions that call it.
\<close>

section \<open>UTF-8 validity\<close>

definition byte_in :: "nat \<Rightarrow> nat \<Rightarrow> char \<Rightarrow> bool" where
  "byte_in lo hi c \<longleftrightarrow> lo \<le> of_char c \<and> of_char c \<le> hi"

text \<open>The accepted range of the second byte and the number of further continuation bytes.\<close>

definition utf8_lead :: "char \<Rightarrow> (nat \<times> nat \<times> nat) option" where
  "utf8_lead c =
     (if byte_in 0xC2 0xDF c then Some (0x80, 0xBF, 0)
      else if byte_in 0xE0 0xE0 c then Some (0xA0, 0xBF, 1)
      else if byte_in 0xED 0xED c then Some (0x80, 0x9F, 1)
      else if byte_in 0xE1 0xEF c then Some (0x80, 0xBF, 1)
      else if byte_in 0xF0 0xF0 c then Some (0x90, 0xBF, 2)
      else if byte_in 0xF1 0xF3 c then Some (0x80, 0xBF, 2)
      else if byte_in 0xF4 0xF4 c then Some (0x80, 0x8F, 2)
      else None)"

function go_valid_utf8 :: "string \<Rightarrow> bool" where
  "go_valid_utf8 [] = True"
| "go_valid_utf8 (a # r) =
     (if byte_in 0 0x7F a then go_valid_utf8 r
      else case utf8_lead a of
        None \<Rightarrow> False
      | Some (lo, hi, n) \<Rightarrow>
          length r > n \<and> byte_in lo hi (hd r) \<and> list_all (byte_in 0x80 0xBF) (take n (tl r)) \<and>
          go_valid_utf8 (drop (Suc n) r))"
  by pat_completeness auto
termination by (relation "measure length") auto

section \<open>Witnesses\<close>

datatype pathError =
    PathRequired
  | PathNotUTF8
  | PathHasNUL
  | PathNotAbsolute
  | PathNotClean
  | WitnessRequired
  | WitnessUnsupported
  | WitnessFoldedKey
  | WitnessComponentCount
  | WitnessMode
  | WitnessComponentCase
  | ProvisionalCandidateSemantics
  | ProvisionalNamespaceSemantics
  | ProvisionalNotBelow
  | ProvisionalAncestorSemantics
  | ProvisionalRelative
  | ProvisionalNotSensitive
  | PromotedSemantics
  | PromotedEscaped
  | PromotedDepth

definition exactWitnessPrefix :: string where
  "exactWitnessPrefix = ''exact-v1:''"

definition windowsFoldWitnessPrefix :: string where
  "windowsFoldWitnessPrefix = ''windows-fold-v1:''"

definition darwinCaseWitnessPrefix :: string where
  "darwinCaseWitnessPrefix = ''darwin-case-v1:''"

definition has_prefix :: "string \<Rightarrow> string \<Rightarrow> bool" where
  "has_prefix s p \<longleftrightarrow> take (length p) s = p"

definition trim_prefix :: "string \<Rightarrow> string \<Rightarrow> string" where
  "trim_prefix s p = (if has_prefix s p then drop (length p) s else s)"

definition rootedComponents :: "string \<Rightarrow> string list" where
  "rootedComponents path =
     (let relative = trim_prefix path [slash] in if relative = [] then [] else split_on slash relative)"

definition validateAbsoluteCleanPath :: "string \<Rightarrow> pathError + unit" where
  "validateAbsoluteCleanPath value =
     (if value = [] then Inl PathRequired
      else if \<not> go_valid_utf8 value then Inl PathNotUTF8
      else if CHR 0x00 \<in> set value then Inl PathHasNUL
      else if \<not> go_is_abs value then Inl PathNotAbsolute
      else if go_clean value \<noteq> value then Inl PathNotClean
      else Inr ())"

definition validateMode :: "(string \<Rightarrow> string) \<Rightarrow> char \<times> string \<Rightarrow> pathError + unit" where
  "validateMode to_lower = (\<lambda>(mode, comp).
     if mode \<noteq> CHR ''s'' \<and> mode \<noteq> CHR ''i'' then Inl WitnessMode
     else if mode = CHR ''i'' \<and> comp \<noteq> to_lower comp then Inl WitnessComponentCase
     else Inr ())"

definition validateWitness :: "(string \<Rightarrow> string) \<Rightarrow> string \<Rightarrow> string \<Rightarrow> pathError + unit" where
  "validateWitness to_lower key witness =
     (if witness = exactWitnessPrefix then Inr ()
      else if witness = windowsFoldWitnessPrefix then
        (if key \<noteq> to_lower key then Inl WitnessFoldedKey else Inr ())
      else if has_prefix witness darwinCaseWitnessPrefix then
        (let modes = trim_prefix witness darwinCaseWitnessPrefix; comps = rootedComponents key in
         if length modes \<noteq> length comps then Inl WitnessComponentCount
         else foldM (\<lambda>_. validateMode to_lower) () (zip modes comps))
      else if witness = [] then Inl WitnessRequired
      else Inl WitnessUnsupported)"

section \<open>Exact authority\<close>

record Exact =
  ex_key :: string
  ex_witness :: string

definition zero_Exact :: Exact where
  "zero_Exact = \<lparr>ex_key = [], ex_witness = []\<rparr>"

definition Exact_Validate :: "(string \<Rightarrow> string) \<Rightarrow> Exact \<Rightarrow> pathError + unit" where
  "Exact_Validate to_lower authority =
     ebind (validateAbsoluteCleanPath (ex_key authority)) (\<lambda>_.
       validateWitness to_lower (ex_key authority) (ex_witness authority))"

definition NewExact :: "(string \<Rightarrow> string) \<Rightarrow> string \<Rightarrow> string \<Rightarrow> pathError + Exact" where
  "NewExact to_lower k w =
     (let authority = \<lparr>ex_key = k, ex_witness = w\<rparr> in
      ebind (Exact_Validate to_lower authority) (\<lambda>_. Inr authority))"

definition Exact_Equal :: "Exact \<Rightarrow> Exact \<Rightarrow> bool" where
  "Exact_Equal authority other \<longleftrightarrow> authority = other"

definition cmp_compare :: "string \<Rightarrow> string \<Rightarrow> int" where
  "cmp_compare a b = (if a < b then - 1 else if b < a then 1 else 0)"

definition Exact_Compare :: "Exact \<Rightarrow> Exact \<Rightarrow> int" where
  "Exact_Compare authority other =
     (let c = cmp_compare (ex_key authority) (ex_key other) in
      if c \<noteq> 0 then c else cmp_compare (ex_witness authority) (ex_witness other))"

definition Exact_Contains :: "Exact \<Rightarrow> Exact \<Rightarrow> bool" where
  "Exact_Contains authority other \<longleftrightarrow> pathContains (ex_key authority) (ex_key other)"

definition Exact_IsZero :: "Exact \<Rightarrow> bool" where
  "Exact_IsZero authority \<longleftrightarrow> authority = zero_Exact"

section \<open>Provisional authority\<close>

record Provisional =
  candidateKey :: string
  candidateWitness :: string
  pv_namespace :: Exact

definition zero_Provisional :: Provisional where
  "zero_Provisional = \<lparr>candidateKey = [], candidateWitness = [], pv_namespace = zero_Exact\<rparr>"

definition containsNonASCIIByte :: "string \<Rightarrow> bool" where
  "containsNonASCIIByte value \<longleftrightarrow> list_ex (\<lambda>c. 0x80 \<le> (of_char c :: nat)) value"

definition relativeDepth :: "string \<Rightarrow> string \<Rightarrow> pathError + nat" where
  "relativeDepth parent child =
     (case go_rel parent child of
        None \<Rightarrow> Inl ProvisionalRelative
      | Some relative \<Rightarrow>
          if relative = dot \<or> relative = dotdot \<or> has_prefix relative (dotdot @ [slash])
          then Inl ProvisionalNotBelow
          else Inr (length (split_on slash relative)))"

definition Provisional_Validate :: "(string \<Rightarrow> string) \<Rightarrow> Provisional \<Rightarrow> pathError + unit" where
  "Provisional_Validate to_lower provisional =
     ebind (validateAbsoluteCleanPath (candidateKey provisional)) (\<lambda>_.
     ebind (validateWitness to_lower (candidateKey provisional) (candidateWitness provisional)) (\<lambda>_.
     ebind (refuse_if (\<not> has_prefix (candidateWitness provisional) darwinCaseWitnessPrefix)
              ProvisionalCandidateSemantics) (\<lambda>_.
     ebind (Exact_Validate to_lower (pv_namespace provisional)) (\<lambda>_.
     ebind (refuse_if (\<not> has_prefix (ex_witness (pv_namespace provisional)) darwinCaseWitnessPrefix)
              ProvisionalNamespaceSemantics) (\<lambda>_.
     ebind (refuse_if (\<not> pathContains (ex_key (pv_namespace provisional)) (candidateKey provisional) \<or>
              ex_key (pv_namespace provisional) = candidateKey provisional) ProvisionalNotBelow) (\<lambda>_.
     let candidateModes = trim_prefix (candidateWitness provisional) darwinCaseWitnessPrefix;
         namespaceModes = trim_prefix (ex_witness (pv_namespace provisional)) darwinCaseWitnessPrefix in
     ebind (refuse_if (\<not> has_prefix candidateModes namespaceModes) ProvisionalAncestorSemantics) (\<lambda>_.
     case go_rel (ex_key (pv_namespace provisional)) (candidateKey provisional) of
       None \<Rightarrow> Inl ProvisionalRelative
     | Some relative \<Rightarrow> refuse_if (\<not> containsNonASCIIByte relative) ProvisionalNotSensitive)))))))"

definition NewProvisional ::
  "(string \<Rightarrow> string) \<Rightarrow> string \<Rightarrow> string \<Rightarrow> string \<Rightarrow> string \<Rightarrow> pathError + Provisional" where
  "NewProvisional to_lower cKey cWitness nKey nWitness =
     ebind (NewExact to_lower nKey nWitness) (\<lambda>ns.
       let provisional = \<lparr>candidateKey = cKey, candidateWitness = cWitness, pv_namespace = ns\<rparr> in
       ebind (Provisional_Validate to_lower provisional) (\<lambda>_. Inr provisional))"

definition AdmitsExact :: "(string \<Rightarrow> string) \<Rightarrow> Provisional \<Rightarrow> Exact \<Rightarrow> pathError + unit" where
  "AdmitsExact to_lower provisional exact =
     ebind (Provisional_Validate to_lower provisional) (\<lambda>_.
     ebind (Exact_Validate to_lower exact) (\<lambda>_.
     ebind (refuse_if (ex_witness exact \<noteq> candidateWitness provisional) PromotedSemantics) (\<lambda>_.
     ebind (refuse_if (\<not> pathContains (ex_key (pv_namespace provisional)) (ex_key exact) \<or>
              ex_key exact = ex_key (pv_namespace provisional)) PromotedEscaped) (\<lambda>_.
     ebind (relativeDepth (ex_key (pv_namespace provisional)) (candidateKey provisional)) (\<lambda>candidateDepth.
     ebind (relativeDepth (ex_key (pv_namespace provisional)) (ex_key exact)) (\<lambda>exactDepth.
       refuse_if (candidateDepth \<noteq> exactDepth) PromotedDepth))))))"

definition CandidateWithin :: "(string \<Rightarrow> string) \<Rightarrow> Provisional \<Rightarrow> Exact \<Rightarrow> bool" where
  "CandidateWithin to_lower provisional exact \<longleftrightarrow>
     Provisional_Validate to_lower provisional = Inr () \<and> Exact_Validate to_lower exact = Inr () \<and>
     pathContains (ex_key exact) (candidateKey provisional)"

definition MatchesMissingExact :: "(string \<Rightarrow> string) \<Rightarrow> Provisional \<Rightarrow> Exact \<Rightarrow> bool" where
  "MatchesMissingExact to_lower provisional exact \<longleftrightarrow>
     Provisional_Validate to_lower provisional = Inr () \<and> Exact_Validate to_lower exact = Inr () \<and>
     candidateKey provisional = ex_key exact \<and> candidateWitness provisional = ex_witness exact"

definition Provisional_Equal :: "(string \<Rightarrow> string) \<Rightarrow> Provisional \<Rightarrow> Provisional \<Rightarrow> bool" where
  "Provisional_Equal to_lower provisional other \<longleftrightarrow>
     provisional = other \<and> Provisional_Validate to_lower provisional = Inr ()"

definition Provisional_IsZero :: "Provisional \<Rightarrow> bool" where
  "Provisional_IsZero provisional \<longleftrightarrow> provisional = zero_Provisional"

section \<open>Valid authorities as component lists\<close>

lemma validateAbsoluteCleanPath_iff:
  "validateAbsoluteCleanPath p = Inr u \<longleftrightarrow> clean_abs p \<and> go_valid_utf8 p \<and> CHR 0x00 \<notin> set p"
  by (auto simp: validateAbsoluteCleanPath_def clean_abs_def go_is_abs_def)

lemma exact_valid_components:
  "Exact_Validate to_lower e = Inr u \<Longrightarrow> \<exists>cs. components cs \<and> ex_key e = abs_path cs"
  by (auto simp: Exact_Validate_def validateAbsoluteCleanPath_iff clean_abs_iff)

lemma NewExact_iff:
  "NewExact to_lower k w = Inr e \<longleftrightarrow> e = \<lparr>ex_key = k, ex_witness = w\<rparr> \<and> Exact_Validate to_lower e = Inr ()"
  by (auto simp: NewExact_def Let_def)

text \<open>A path strictly below another one adds components to it.\<close>

lemma below_components:
  assumes "components ns" "clean_abs p" "pathContains (abs_path ns) p" "p \<noteq> abs_path ns"
  shows "\<exists>cs. cs \<noteq> [] \<and> components (ns @ cs) \<and> p = abs_path (ns @ cs)"
proof -
  from assms(2) obtain ps where ps: "components ps" "p = abs_path ps" by (auto simp: clean_abs_iff)
  with assms(1,3) have "prefix ns ps" by (simp add: pathContains_abs)
  then obtain cs where "ps = ns @ cs" by (auto simp: prefix_def)
  with ps assms(4) show ?thesis by (intro exI[of _ cs]) auto
qed

lemma strip_common_prefix [simp]: "strip_common xs (xs @ ys) = ([], ys)"
  by (induction xs) (cases ys; simp)+

lemma go_rel_below:
  assumes "components (ns @ cs)" "cs \<noteq> []"
  shows "go_rel (abs_path ns) (abs_path (ns @ cs)) = Some (join_on slash cs)"
proof -
  have ns: "components ns" using assms(1) by (simp add: components_def)
  have "abs_path (ns @ cs) \<noteq> abs_path ns"
    using abs_path_inject[OF assms(1) ns] assms(2) by auto
  then show ?thesis
    using assms ns by (simp add: go_rel_def clean_abs_path rel_elements_abs)
qed

lemma relativeDepth_below:
  assumes "components (ns @ cs)" "cs \<noteq> []"
  shows "relativeDepth (abs_path ns) (abs_path (ns @ cs)) = Inr (length cs)"
proof -
  obtain c ds where cs: "cs = c # ds" using assms(2) by (cases cs) auto
  have c: "component c" "components cs" using assms(1) cs by (simp_all add: components_def)
  have "join_on slash cs \<noteq> dot"
    using takeWhile_join[of slash c ds] c cs by (auto simp: component_def)
  then show ?thesis
    using go_rel_below[OF assms] component_not_up[OF c(1), of ds] split_components[OF c(2)] cs
    by (simp add: relativeDepth_def has_prefix_def numeral_3_eq_3)
qed

lemma provisional_valid_components:
  assumes "Provisional_Validate to_lower p = Inr u"
  shows "\<exists>ns cs. cs \<noteq> [] \<and> components (ns @ cs) \<and> ex_key (pv_namespace p) = abs_path ns \<and>
    candidateKey p = abs_path (ns @ cs)"
proof -
  from assms have v: "Exact_Validate to_lower (pv_namespace p) = Inr ()" "clean_abs (candidateKey p)"
    "pathContains (ex_key (pv_namespace p)) (candidateKey p)" "ex_key (pv_namespace p) \<noteq> candidateKey p"
    by (auto simp: Provisional_Validate_def Let_def validateAbsoluteCleanPath_iff)
  obtain ns where "components ns" "ex_key (pv_namespace p) = abs_path ns"
    using exact_valid_components[OF v(1)] by blast
  with v show ?thesis using below_components[of ns "candidateKey p"] by metis
qed

section \<open>Properties\<close>

text \<open>C40: an exact authority that realizes a provisional one stays strictly below the same namespace,
  at the depth of the candidate, under the candidate's filesystem semantics.\<close>

theorem admitted_exact_realizes_candidate:
  assumes "AdmitsExact to_lower p e = Inr ()"
  shows "\<exists>ns cs es. ex_key (pv_namespace p) = abs_path ns \<and> candidateKey p = abs_path (ns @ cs) \<and>
    ex_key e = abs_path (ns @ es) \<and> components (ns @ cs) \<and> components (ns @ es) \<and> cs \<noteq> [] \<and>
    length es = length cs \<and> ex_witness e = candidateWitness p"
proof -
  from assms have v: "Provisional_Validate to_lower p = Inr ()" "Exact_Validate to_lower e = Inr ()"
    "ex_witness e = candidateWitness p" "pathContains (ex_key (pv_namespace p)) (ex_key e)"
    "ex_key e \<noteq> ex_key (pv_namespace p)"
    and depth: "relativeDepth (ex_key (pv_namespace p)) (candidateKey p) =
      relativeDepth (ex_key (pv_namespace p)) (ex_key e)"
    by (auto simp: AdmitsExact_def)
  obtain ns cs where p: "cs \<noteq> []" "components (ns @ cs)" "ex_key (pv_namespace p) = abs_path ns"
    "candidateKey p = abs_path (ns @ cs)" using provisional_valid_components[OF v(1)] by blast
  then have "components ns" by (simp add: components_def)
  moreover have "clean_abs (ex_key e)" using exact_valid_components[OF v(2)] clean_abs_iff by blast
  ultimately obtain es where "es \<noteq> []" "components (ns @ es)" "ex_key e = abs_path (ns @ es)"
    using below_components[of ns "ex_key e"] v(4,5) p(3) by auto
  moreover from this p depth have "length es = length cs" by (simp add: relativeDepth_below)
  ultimately show ?thesis using p v(3) by blast
qed

text \<open>Containment of valid exact authorities is reflexive and transitive, and two authorities that
  contain each other have the same key.\<close>

lemma exact_contains_order:
  assumes "Exact_Validate to_lower a = Inr ()" "Exact_Validate to_lower b = Inr ()" "Exact_Validate to_lower c = Inr ()"
  shows "Exact_Contains a a \<and> (Exact_Contains a b \<and> Exact_Contains b c \<longrightarrow> Exact_Contains a c) \<and>
    (Exact_Contains a b \<and> Exact_Contains b a \<longrightarrow> ex_key a = ex_key b)"
proof -
  obtain as bs cs where "components as" "ex_key a = abs_path as" "components bs" "ex_key b = abs_path bs"
    "components cs" "ex_key c = abs_path cs"
    using assms exact_valid_components by metis
  then show ?thesis
    by (auto simp: Exact_Contains_def pathContains_abs dest: prefix_order.trans prefix_order.antisym)
qed

text \<open>\<open>Compare\<close> is a total order of exact authorities that agrees with \<open>Equal\<close>.\<close>

lemma exact_compare_order:
  "(Exact_Compare a b = 0 \<longleftrightarrow> Exact_Equal a b) \<and> Exact_Compare a b = - Exact_Compare b a \<and>
   (0 \<le> Exact_Compare a b \<or> 0 \<le> Exact_Compare b a) \<and>
   \<not> (Exact_Compare a b \<le> 0 \<and> Exact_Compare b c \<le> 0 \<and> 0 < Exact_Compare a c)"
  by (cases a; cases b; cases c) (auto simp: Exact_Compare_def Exact_Equal_def cmp_compare_def Let_def split: if_splits)

text \<open>A decomposed spelling observed for a candidate that was spelled with a precomposed letter.\<close>

definition sample_provisional :: Provisional where
  "sample_provisional = \<lparr>candidateKey = ''/home/'' @ [CHR 0xC3, CHR 0xA9], candidateWitness = ''darwin-case-v1:ss'',
     pv_namespace = \<lparr>ex_key = ''/home'', ex_witness = ''darwin-case-v1:s''\<rparr>\<rparr>"

definition sample_exact :: Exact where
  "sample_exact = \<lparr>ex_key = ''/home/'' @ [CHR 0x65, CHR 0xCC, CHR 0x81], ex_witness = ''darwin-case-v1:ss''\<rparr>"

theorem admitted_exact_realizes_candidate_witness:
  "\<exists>ns cs es. ex_key (pv_namespace sample_provisional) = abs_path ns \<and>
    candidateKey sample_provisional = abs_path (ns @ cs) \<and> ex_key sample_exact = abs_path (ns @ es) \<and>
    components (ns @ cs) \<and> components (ns @ es) \<and> cs \<noteq> [] \<and> length es = length cs \<and>
    ex_witness sample_exact = candidateWitness sample_provisional"
  by (rule admitted_exact_realizes_candidate[of id]) code_simp

lemma exact_contains_order_witness:
  "Exact_Contains \<lparr>ex_key = ''/a'', ex_witness = ''exact-v1:''\<rparr> \<lparr>ex_key = ''/a/b/c'', ex_witness = ''exact-v1:''\<rparr>"
proof -
  have "Exact_Validate id \<lparr>ex_key = ''/a'', ex_witness = ''exact-v1:''\<rparr> = Inr ()"
    "Exact_Validate id \<lparr>ex_key = ''/a/b'', ex_witness = ''exact-v1:''\<rparr> = Inr ()"
    "Exact_Validate id \<lparr>ex_key = ''/a/b/c'', ex_witness = ''exact-v1:''\<rparr> = Inr ()"
    by code_simp+
  note order = exact_contains_order[OF this]
  have "Exact_Contains \<lparr>ex_key = ''/a'', ex_witness = ''exact-v1:''\<rparr> \<lparr>ex_key = ''/a/b'', ex_witness = ''exact-v1:''\<rparr>"
    "Exact_Contains \<lparr>ex_key = ''/a/b'', ex_witness = ''exact-v1:''\<rparr> \<lparr>ex_key = ''/a/b/c'', ex_witness = ''exact-v1:''\<rparr>"
    by code_simp+
  with order show ?thesis by blast
qed

end
