(* ===== verification/MutationModel.thy ===== *)
theory MutationModel
  imports PathAuthority
begin

text \<open>
  The mutation domains of \<^verbatim>\<open>internal/effect/mutation\<close>: access modes, path effects, requests,
  validated domains and how they follow path identities (\<^verbatim>\<open>model.go\<close>,
  \<^verbatim>\<open>path_intent.go\<close>), revision requests and revision sets (\<^verbatim>\<open>revision.go\<close>,
  \<^verbatim>\<open>evidence.go\<close>). The enumerations are Go \<open>uint8\<close>s and stay \<open>8 word\<close>s, because
  their zero value marks an uninitialized record. Observing the filesystem is the parameter
  \<open>observe\<close>, one observation pass.
\<close>

section \<open>Enumerations\<close>

type_synonym uint8 = "8 word"
type_synonym AccessMode = uint8
type_synonym PathEffect = uint8
type_synonym RouteContainment = uint8

definition AccessShared :: AccessMode where "AccessShared = 1"
definition AccessExclusive :: AccessMode where "AccessExclusive = 2"

definition PathEffectDirectoryEntry :: PathEffect where "PathEffectDirectoryEntry = 1"
definition PathEffectReferent :: PathEffect where "PathEffectReferent = 2"

definition RouteContainmentCompletePaths :: RouteContainment where "RouteContainmentCompletePaths = 1"
definition RouteContainmentScope :: RouteContainment where "RouteContainmentScope = 2"
definition RouteContainmentUnknown :: RouteContainment where "RouteContainmentUnknown = 3"

definition domainLogicalPath :: uint8 where "domainLogicalPath = 1"
definition domainPhysicalPath :: uint8 where "domainPhysicalPath = 2"
definition domainHostRoute :: uint8 where "domainHostRoute = 3"

lemmas mutation_enums =
  AccessShared_def AccessExclusive_def PathEffectDirectoryEntry_def PathEffectReferent_def
  RouteContainmentCompletePaths_def RouteContainmentScope_def RouteContainmentUnknown_def
  domainLogicalPath_def domainPhysicalPath_def domainHostRoute_def

lemma mutation_enums_distinct [simp]:
  "AccessShared \<noteq> AccessExclusive" "AccessExclusive \<noteq> AccessShared"
  "PathEffectDirectoryEntry \<noteq> PathEffectReferent" "PathEffectReferent \<noteq> PathEffectDirectoryEntry"
  "RouteContainmentCompletePaths \<noteq> RouteContainmentScope" "RouteContainmentScope \<noteq> RouteContainmentCompletePaths"
  "RouteContainmentCompletePaths \<noteq> RouteContainmentUnknown" "RouteContainmentUnknown \<noteq> RouteContainmentCompletePaths"
  "RouteContainmentScope \<noteq> RouteContainmentUnknown" "RouteContainmentUnknown \<noteq> RouteContainmentScope"
  "domainLogicalPath \<noteq> domainPhysicalPath" "domainPhysicalPath \<noteq> domainLogicalPath"
  "domainLogicalPath \<noteq> domainHostRoute" "domainHostRoute \<noteq> domainLogicalPath"
  "domainPhysicalPath \<noteq> domainHostRoute" "domainHostRoute \<noteq> domainPhysicalPath"
  by (simp_all add: mutation_enums)

datatype mutationError =
    AccessInvalid
  | EffectInvalid
  | ContainmentInvalid
  | RouteFactRequired
  | RouteFactWhitespace
  | RouteFactControl
  | DomainUninitialized
  | PathDomainUninitialized
  | PathContainsLeaseStore
  | LeasePathContainsLeaseStore
  | ContradictorySemantics
  | PhysicalAuthorityInvalid
  | LeaseSetUninitialized
  | LeaseSetInactive
  | LeaseNamespaceUninitialized
  | LeaseNamespaceInvalid
  | LeaseDomainsRequired
  | InitialIdentityUninitialized
  | AuthorityPathRequired
  | AuthorityPathNotClean
  | AuthorityPathNUL
  | NamespaceWitnessRequired
  | ProvisionalInvalid pathError
  | NamespaceDisagreement
  | VisibilityCardinality
  | MaximumBytesNotPositive
  | RevisionPathsRequired
  | RevisionSetUninitialized
  | RevisionRequestsRequired
  | RevisionNotCaptured
  | StaleSnapshot
  | ContextRequired
  | ContextDone
  | ObservationFailed string

definition access_validate :: "AccessMode \<Rightarrow> mutationError + unit" where
  "access_validate mode = refuse_if (mode \<noteq> AccessShared \<and> mode \<noteq> AccessExclusive) AccessInvalid"

definition effect_validate :: "PathEffect \<Rightarrow> mutationError + unit" where
  "effect_validate effect =
     refuse_if (effect \<noteq> PathEffectDirectoryEntry \<and> effect \<noteq> PathEffectReferent) EffectInvalid"

definition containment_validate :: "RouteContainment \<Rightarrow> mutationError + unit" where
  "containment_validate containment =
     refuse_if (containment \<noteq> RouteContainmentCompletePaths \<and> containment \<noteq> RouteContainmentScope \<and>
       containment \<noteq> RouteContainmentUnknown) ContainmentInvalid"

section \<open>Requests\<close>

record LogicalPathRequest =
  lp_Path :: string
  lp_Access :: AccessMode
  lp_Effect :: PathEffect

record PhysicalPathRequest =
  pp_Path :: string
  pp_Access :: AccessMode
  pp_Effect :: PathEffect
  pp_Target :: string
  pp_Scope :: string

record PhysicalAuthorityRequest =
  pa_Path :: string
  pa_Target :: string
  pa_Scope :: string

record HostRouteRequest =
  hq_Target :: string
  hq_Scope :: string
  hq_Family :: string
  hq_Containment :: RouteContainment

text \<open>\<open>strings.IndexFunc(value, unicode.IsControl) >= 0\<close>: the control code points are
  U+0000 to U+001F and U+007F to U+009F. The single-byte ones are bytes that occur in no other rune,
  the others are encoded by \<open>0xC2\<close>, always the first byte of a rune, and one byte up to
  \<open>0x9F\<close>.\<close>

fun contains_control :: "string \<Rightarrow> bool" where
  "contains_control [] = False"
| "contains_control [c] = (byte_in 0 0x1F c \<or> byte_in 0x7F 0x7F c)"
| "contains_control (c # d # r) =
     (byte_in 0 0x1F c \<or> byte_in 0x7F 0x7F c \<or> byte_in 0xC2 0xC2 c \<and> byte_in 0x80 0x9F d \<or>
      contains_control (d # r))"

definition validateRouteFact :: "string \<Rightarrow> mutationError + unit" where
  "validateRouteFact value =
     (if trim_space value = [] then Inl RouteFactRequired
      else if value \<noteq> trim_space value then Inl RouteFactWhitespace
      else if contains_control value then Inl RouteFactControl
      else Inr ())"

section \<open>Path identities and domains\<close>

record namespaceLeaseIntent =
  nl_key :: string
  nl_witness :: string
  nl_accessPath :: string

definition zero_namespace :: namespaceLeaseIntent where
  "zero_namespace = \<lparr>nl_key = [], nl_witness = [], nl_accessPath = []\<rparr>"

definition namespace_isZero :: "namespaceLeaseIntent \<Rightarrow> bool" where
  "namespace_isZero intent \<longleftrightarrow> intent = zero_namespace"

record canonicalPath =
  keyPath :: string
  accessPath :: string
  cp_witness :: string
  cp_provisional :: Provisional
  cp_namespaceLease :: namespaceLeaseIntent

type_synonym pathIdentityObserver = "string \<Rightarrow> PathEffect \<Rightarrow> mutationError + canonicalPath"

definition validateCanonicalAuthorityPath :: "string \<Rightarrow> mutationError + unit" where
  "validateCanonicalAuthorityPath value =
     (if trim_space value = [] then Inl AuthorityPathRequired
      else if \<not> go_is_abs value \<or> go_clean value \<noteq> value then Inl AuthorityPathNotClean
      else if CHR 0x00 \<in> set value then Inl AuthorityPathNUL
      else Inr ())"

definition namespace_validate :: "namespaceLeaseIntent \<Rightarrow> mutationError + unit" where
  "namespace_validate intent =
     ebind (validateCanonicalAuthorityPath (nl_key intent)) (\<lambda>_.
     ebind (refuse_if (nl_witness intent = []) NamespaceWitnessRequired) (\<lambda>_.
       validateCanonicalAuthorityPath (nl_accessPath intent)))"

definition newNamespaceLeaseIntent :: "canonicalPath \<Rightarrow> mutationError + namespaceLeaseIntent" where
  "newNamespaceLeaseIntent ns =
     (let intent = \<lparr>nl_key = keyPath ns, nl_witness = cp_witness ns, nl_accessPath = accessPath ns\<rparr> in
      ebind (namespace_validate intent) (\<lambda>_. Inr intent))"

definition namespace_matchesCurrentUsing ::
  "namespaceLeaseIntent \<Rightarrow> pathIdentityObserver \<Rightarrow> mutationError + bool" where
  "namespace_matchesCurrentUsing intent observe =
     ebind (observe (nl_accessPath intent) PathEffectReferent) (\<lambda>identity.
       Inr (keyPath identity = nl_key intent \<and> cp_witness identity = nl_witness intent \<and>
         Provisional_IsZero (cp_provisional identity)))"

definition newProvisionalPathIntent ::
  "(string \<Rightarrow> string) \<Rightarrow> canonicalPath \<Rightarrow> canonicalPath \<Rightarrow> pathError + Provisional" where
  "newProvisionalPathIntent to_lower candidate ns =
     NewProvisional to_lower (keyPath candidate) (cp_witness candidate) (keyPath ns) (cp_witness ns)"

definition sameProvisionalPathIntent :: "(string \<Rightarrow> string) \<Rightarrow> Provisional \<Rightarrow> Provisional \<Rightarrow> bool" where
  "sameProvisionalPathIntent to_lower left right =
     (if Provisional_IsZero left \<or> Provisional_IsZero right
      then Provisional_IsZero left \<and> Provisional_IsZero right
      else Provisional_Equal to_lower left right)"

record Domain =
  dm_kind :: uint8
  dm_access :: AccessMode
  canonicalPathKey :: string
  pathWitness :: string
  initialCanonicalPath :: string
  initialPathWitness :: string
  initialProvisional :: Provisional
  dm_provisional :: Provisional
  namespaceLease :: namespaceLeaseIntent
  requestedPath :: string
  dm_effect :: PathEffect
  dm_target :: string
  dm_scope :: string
  dm_family :: string
  dm_containment :: RouteContainment

definition zero_Domain :: Domain where
  "zero_Domain = \<lparr>dm_kind = 0, dm_access = 0, canonicalPathKey = [], pathWitness = [], initialCanonicalPath = [],
     initialPathWitness = [], initialProvisional = zero_Provisional, dm_provisional = zero_Provisional,
     namespaceLease = zero_namespace, requestedPath = [], dm_effect = 0, dm_target = [], dm_scope = [],
     dm_family = [], dm_containment = 0\<rparr>"

definition bind_identity :: "canonicalPath \<Rightarrow> Domain \<Rightarrow> Domain" where
  "bind_identity identity d = d\<lparr>canonicalPathKey := keyPath identity, pathWitness := cp_witness identity,
     initialCanonicalPath := keyPath identity, initialPathWitness := cp_witness identity,
     initialProvisional := cp_provisional identity, dm_provisional := cp_provisional identity,
     namespaceLease := cp_namespaceLease identity\<rparr>"

definition NewLogicalPathDomain :: "pathIdentityObserver \<Rightarrow> LogicalPathRequest \<Rightarrow> mutationError + Domain" where
  "NewLogicalPathDomain observe request =
     ebind (access_validate (lp_Access request)) (\<lambda>_.
     ebind (observe (lp_Path request) (lp_Effect request)) (\<lambda>identity.
       Inr ((bind_identity identity zero_Domain)\<lparr>dm_kind := domainLogicalPath, dm_access := lp_Access request,
         requestedPath := lp_Path request, dm_effect := lp_Effect request\<rparr>)))"

definition newPhysicalPathDomain :: "pathIdentityObserver \<Rightarrow> PhysicalPathRequest \<Rightarrow> mutationError + Domain" where
  "newPhysicalPathDomain observe request =
     ebind (access_validate (pp_Access request)) (\<lambda>_.
     ebind (validateRouteFact (pp_Target request)) (\<lambda>_.
     ebind (validateRouteFact (pp_Scope request)) (\<lambda>_.
     ebind (observe (pp_Path request) (pp_Effect request)) (\<lambda>identity.
       Inr ((bind_identity identity zero_Domain)\<lparr>dm_kind := domainPhysicalPath, dm_access := pp_Access request,
         requestedPath := pp_Path request, dm_effect := pp_Effect request, dm_target := pp_Target request,
         dm_scope := pp_Scope request\<rparr>)))))"

definition newPhysicalAuthoritySet ::
  "pathIdentityObserver \<Rightarrow> PhysicalAuthorityRequest list \<Rightarrow> mutationError + Domain list" where
  "newPhysicalAuthoritySet observe requests =
     foldM (\<lambda>domains request.
       foldM (\<lambda>domains effect.
         ebind (newPhysicalPathDomain observe \<lparr>pp_Path = pa_Path request, pp_Access = AccessExclusive,
             pp_Effect = effect, pp_Target = pa_Target request, pp_Scope = pa_Scope request\<rparr>) (\<lambda>domain.
           Inr (domains @ [domain])))
         domains [PathEffectDirectoryEntry, PathEffectReferent])
       [] requests"

definition NewHostRouteDomain :: "HostRouteRequest \<Rightarrow> mutationError + Domain" where
  "NewHostRouteDomain request =
     ebind (validateRouteFact (hq_Target request)) (\<lambda>_.
     ebind (validateRouteFact (hq_Scope request)) (\<lambda>_.
     ebind (validateRouteFact (hq_Family request)) (\<lambda>_.
     ebind (containment_validate (hq_Containment request)) (\<lambda>_.
       Inr (zero_Domain\<lparr>dm_kind := domainHostRoute, dm_access := AccessExclusive, dm_target := hq_Target request,
         dm_scope := hq_Scope request, dm_family := hq_Family request,
         dm_containment := hq_Containment request\<rparr>)))))"

definition is_path_domain :: "Domain \<Rightarrow> bool" where
  "is_path_domain d \<longleftrightarrow> dm_kind d = domainLogicalPath \<or> dm_kind d = domainPhysicalPath"

section \<open>Coverage of exclusive authority\<close>

record coverageKey =
  ck_kind :: uint8
  ck_path :: string
  ck_witness :: string
  ck_effect :: PathEffect
  ck_target :: string
  ck_scope :: string

definition coverage_key :: "Domain \<Rightarrow> coverageKey" where
  "coverage_key domain = \<lparr>ck_kind = dm_kind domain, ck_path = canonicalPathKey domain, ck_witness = pathWitness domain,
     ck_effect = dm_effect domain, ck_target = dm_target domain, ck_scope = dm_scope domain\<rparr>"

definition coversExclusiveDomains :: "Domain list \<Rightarrow> Domain list \<Rightarrow> mutationError + bool" where
  "coversExclusiveDomains held required =
     (let acquired = map coverage_key (filter (\<lambda>d. is_path_domain d \<and> dm_access d = AccessExclusive) held) in
      foldM (\<lambda>covered domain.
        if \<not> covered then Inr False
        else if \<not> is_path_domain domain \<or> dm_access domain \<noteq> AccessExclusive then Inl PhysicalAuthorityInvalid
        else Inr (coverage_key domain \<in> set acquired)) True required)"

section \<open>Following path identities\<close>

definition matchesPathIdentity :: "(string \<Rightarrow> string) \<Rightarrow> Domain \<Rightarrow> canonicalPath \<Rightarrow> bool" where
  "matchesPathIdentity to_lower domain identity \<longleftrightarrow>
     keyPath identity = canonicalPathKey domain \<and> cp_witness identity = pathWitness domain \<and>
     sameProvisionalPathIntent to_lower (cp_provisional identity) (dm_provisional domain)"

definition matchesCurrentPath ::
  "(string \<Rightarrow> string) \<Rightarrow> pathIdentityObserver \<Rightarrow> Domain \<Rightarrow> mutationError + bool" where
  "matchesCurrentPath to_lower observe domain =
     (if is_path_domain domain then
        ebind (if namespace_isZero (namespaceLease domain) then Inr True
               else namespace_matchesCurrentUsing (namespaceLease domain) observe) (\<lambda>matches.
          if \<not> matches then Inr False
          else ebind (observe (requestedPath domain) (dm_effect domain)) (\<lambda>identity.
                 Inr (matchesPathIdentity to_lower domain identity)))
      else if dm_kind domain = domainHostRoute then Inr True
      else Inl DomainUninitialized)"

text \<open>\<open>matchesCurrent\<close> observes the namespace anchor on its own, \<open>canonical\<close>, and not through
  the pass \<open>observe\<close>.\<close>

definition visibilityAuthorityMatchesCurrent ::
  "(string \<Rightarrow> string) \<Rightarrow> pathIdentityObserver \<Rightarrow> pathIdentityObserver \<Rightarrow> Domain \<Rightarrow> mutationError + bool" where
  "visibilityAuthorityMatchesCurrent to_lower canonical observe domain =
     (if is_path_domain domain then
        if \<not> namespace_isZero (namespaceLease domain)
        then namespace_matchesCurrentUsing (namespaceLease domain) canonical
        else matchesCurrentPath to_lower observe domain
      else if dm_kind domain = domainHostRoute then Inr True
      else Inl DomainUninitialized)"

record comparablePathIdentity =
  id_key :: string
  id_witness :: string
  id_provisional :: Provisional

definition initialPathIdentity :: "Domain \<Rightarrow> mutationError + comparablePathIdentity" where
  "initialPathIdentity domain =
     (if initialCanonicalPath domain = [] \<or> initialPathWitness domain = [] then Inl InitialIdentityUninitialized
      else Inr \<lparr>id_key = initialCanonicalPath domain, id_witness = initialPathWitness domain,
             id_provisional = initialProvisional domain\<rparr>)"

definition comparableIdentity :: "canonicalPath \<Rightarrow> comparablePathIdentity" where
  "comparableIdentity identity =
     \<lparr>id_key = keyPath identity, id_witness = cp_witness identity, id_provisional = cp_provisional identity\<rparr>"

definition acceptPathIdentity ::
  "(string \<Rightarrow> string) \<Rightarrow> Domain \<Rightarrow> canonicalPath \<Rightarrow> mutationError + Domain option" where
  "acceptPathIdentity to_lower domain identity =
     (if matchesPathIdentity to_lower domain identity then Inr (Some domain)
      else if namespace_isZero (namespaceLease domain) \<or> dm_access domain \<noteq> AccessExclusive then Inr None
      else ebind (if Provisional_IsZero (cp_provisional identity) then Inr ()
                  else (case Provisional_Validate to_lower (cp_provisional identity) of
                          Inl e \<Rightarrow> Inl (ProvisionalInvalid e) | Inr u \<Rightarrow> Inr ())) (\<lambda>_.
        if \<not> pathContains (nl_key (namespaceLease domain)) (keyPath identity) \<or>
           nl_key (namespaceLease domain) = keyPath identity
        then Inr None
        else Inr (Some (domain\<lparr>canonicalPathKey := keyPath identity, pathWitness := cp_witness identity,
               dm_provisional := cp_provisional identity\<rparr>))))"

definition leasePathIdentity :: "Domain \<Rightarrow> mutationError + string \<times> string" where
  "leasePathIdentity domain =
     (if namespace_isZero (namespaceLease domain) \<or> dm_access domain \<noteq> AccessExclusive
      then Inr (canonicalPathKey domain, pathWitness domain)
      else ebind (namespace_validate (namespaceLease domain)) (\<lambda>_.
        if \<not> Provisional_IsZero (dm_provisional domain) \<and>
           (ex_key (pv_namespace (dm_provisional domain)) \<noteq> nl_key (namespaceLease domain) \<or>
            ex_witness (pv_namespace (dm_provisional domain)) \<noteq> nl_witness (namespaceLease domain))
        then Inl NamespaceDisagreement
        else Inr (nl_key (namespaceLease domain), nl_witness (namespaceLease domain))))"

text \<open>The loop of \<open>acceptVisibilityDomains\<close>: the accepted domains in order and the map from current
  to initial identities; \<open>None\<close> is the refusal without an error.\<close>

type_synonym acceptState = "Domain list \<times> (comparablePathIdentity, comparablePathIdentity) gomap"

definition accept_step ::
  "(string \<Rightarrow> string) \<Rightarrow> acceptState option \<Rightarrow> Domain \<times> canonicalPath \<Rightarrow> mutationError + acceptState option" where
  "accept_step to_lower state = (\<lambda>(domain, identity).
     case state of
       None \<Rightarrow> Inr None
     | Some (accepted, initialByCurrent) \<Rightarrow>
         if is_path_domain domain then
           ebind (acceptPathIdentity to_lower domain identity) (\<lambda>updated.
             case updated of
               None \<Rightarrow> Inr None
             | Some domain' \<Rightarrow>
                 ebind (initialPathIdentity domain) (\<lambda>initial.
                   let current = comparableIdentity identity in
                   case map_of initialByCurrent current of
                     Some previous \<Rightarrow>
                       if previous \<noteq> initial then Inr None
                       else Inr (Some (accepted @ [domain'], AList.update current initial initialByCurrent))
                   | None \<Rightarrow> Inr (Some (accepted @ [domain'], AList.update current initial initialByCurrent))))
         else if dm_kind domain = domainHostRoute then Inr (Some (accepted @ [domain], initialByCurrent))
         else Inl DomainUninitialized)"

definition acceptVisibilityDomains ::
  "(string \<Rightarrow> string) \<Rightarrow> Domain list \<Rightarrow> canonicalPath list \<Rightarrow> mutationError + Domain list option" where
  "acceptVisibilityDomains to_lower domains observed =
     (if length domains \<noteq> length observed then Inl VisibilityCardinality
      else ebind (foldM (accept_step to_lower) (Some ([], [])) (zip domains observed)) (\<lambda>state.
        Inr (map_option fst state)))"

section \<open>Revision requests\<close>

definition revisionCaptureContent :: uint8 where "revisionCaptureContent = 1"
definition revisionCaptureBoundedFile :: uint8 where "revisionCaptureBoundedFile = 2"
definition revisionCaptureRequiredAbsentEntry :: uint8 where "revisionCaptureRequiredAbsentEntry = 3"
definition revisionCaptureDirectoryListing :: uint8 where "revisionCaptureDirectoryListing = 4"
definition revisionAbsent :: uint8 where "revisionAbsent = 1"

record RevisionRequest =
  rr_Path :: string
  rr_Effect :: PathEffect
  maximumRegularFileBytes :: int
  captureMode :: uint8

definition NewBoundedContentRevisionRequest :: "string \<Rightarrow> PathEffect \<Rightarrow> RevisionRequest" where
  "NewBoundedContentRevisionRequest path effect =
     \<lparr>rr_Path = path, rr_Effect = effect, maximumRegularFileBytes = 0, captureMode = revisionCaptureContent\<rparr>"

definition NewBoundedFileRevisionRequest :: "int \<Rightarrow> string \<Rightarrow> PathEffect \<Rightarrow> mutationError + RevisionRequest" where
  "NewBoundedFileRevisionRequest maximumBytes path effect =
     (if maximumBytes \<le> 0 then Inl MaximumBytesNotPositive
      else Inr \<lparr>rr_Path = path, rr_Effect = effect, maximumRegularFileBytes = maximumBytes,
             captureMode = revisionCaptureBoundedFile\<rparr>)"

definition NewRequiredAbsentRevisionRequest :: "string \<Rightarrow> RevisionRequest" where
  "NewRequiredAbsentRevisionRequest path =
     \<lparr>rr_Path = path, rr_Effect = PathEffectDirectoryEntry, maximumRegularFileBytes = 0,
      captureMode = revisionCaptureRequiredAbsentEntry\<rparr>"

definition NewBoundedDirectoryListingRevisionRequest :: "string \<Rightarrow> RevisionRequest" where
  "NewBoundedDirectoryListingRevisionRequest path =
     \<lparr>rr_Path = path, rr_Effect = PathEffectReferent, maximumRegularFileBytes = 0,
      captureMode = revisionCaptureDirectoryListing\<rparr>"

definition RevisionRequest_Equal :: "RevisionRequest \<Rightarrow> RevisionRequest \<Rightarrow> bool" where
  "RevisionRequest_Equal request other \<longleftrightarrow>
     rr_Path request = rr_Path other \<and> rr_Effect request = rr_Effect other \<and>
     maximumRegularFileBytes request = maximumRegularFileBytes other \<and> captureMode request = captureMode other"

definition BoundedFileRevisionRequests :: "int \<Rightarrow> string list \<Rightarrow> mutationError + RevisionRequest list" where
  "BoundedFileRevisionRequests maximumBytes paths =
     (if paths = [] then Inl RevisionPathsRequired
      else foldM (\<lambda>requests path.
             foldM (\<lambda>requests effect.
               ebind (NewBoundedFileRevisionRequest maximumBytes path effect) (\<lambda>request.
                 Inr (requests @ [request])))
               requests [PathEffectDirectoryEntry, PathEffectReferent])
             [] paths)"

section \<open>Revision sets\<close>

record SnapshotRevision =
  sr_kind :: uint8
  sr_canonicalPath :: string
  digest :: string
  sr_valid :: bool

definition SnapshotRevision_Equal :: "SnapshotRevision \<Rightarrow> SnapshotRevision \<Rightarrow> bool" where
  "SnapshotRevision_Equal revision other \<longleftrightarrow>
     sr_valid revision \<and> sr_valid other \<and> sr_kind revision = sr_kind other \<and>
     sr_canonicalPath revision = sr_canonicalPath other \<and> digest revision = digest other"

definition validateRevisionBaseline :: "RevisionRequest \<Rightarrow> SnapshotRevision \<Rightarrow> mutationError + unit" where
  "validateRevisionBaseline request revision =
     refuse_if (captureMode request = revisionCaptureRequiredAbsentEntry \<and> sr_kind revision \<noteq> revisionAbsent)
       StaleSnapshot"

record revisionObservation =
  ro_request :: RevisionRequest
  ro_revision :: SnapshotRevision

record 'l RevisionSet =
  rs_observations :: "revisionObservation list"
  rs_limits :: 'l
  rs_valid :: bool

definition subset_step ::
  "(RevisionRequest, revisionObservation) gomap \<Rightarrow> revisionObservation list \<times> RevisionRequest list \<Rightarrow>
   RevisionRequest \<Rightarrow> mutationError + revisionObservation list \<times> RevisionRequest list" where
  "subset_step byRequest = (\<lambda>(observations, seen) request.
     if request \<in> set seen then Inr (observations, seen)
     else case map_of byRequest request of
       None \<Rightarrow> Inl RevisionNotCaptured
     | Some observation \<Rightarrow> Inr (observations @ [observation], seen @ [request]))"

definition RevisionSet_Subset :: "'l RevisionSet \<Rightarrow> RevisionRequest list \<Rightarrow> mutationError + 'l RevisionSet" where
  "RevisionSet_Subset revisions requests =
     (if \<not> rs_valid revisions \<or> rs_observations revisions = [] then Inl RevisionSetUninitialized
      else if requests = [] then Inl RevisionRequestsRequired
      else
        let byRequest = fold (\<lambda>observation m. AList.update (ro_request observation) observation m)
              (rs_observations revisions) [] in
        ebind (foldM (subset_step byRequest) ([], []) requests) (\<lambda>(observations, seen).
          Inr \<lparr>rs_observations = observations, rs_limits = rs_limits revisions, rs_valid = True\<rparr>))"

text \<open>Capturing is a pass with a state of its own: \<open>newPass\<close> starts it within the limits,
  \<open>capture\<close> observes one request and \<open>ctxDone\<close> reads the caller's context.\<close>

record ('l, 'p) revisionPass =
  newPass :: "'l \<Rightarrow> mutationError + 'p"
  capture :: "'p \<Rightarrow> RevisionRequest \<Rightarrow> mutationError + SnapshotRevision \<times> 'p"
  ctxDone :: "'p \<Rightarrow> bool"

definition captureRevisionObservations ::
  "('l, 'p) revisionPass \<Rightarrow> RevisionRequest list \<Rightarrow> 'l \<Rightarrow> mutationError + revisionObservation list" where
  "captureRevisionObservations fs requests limits =
     ebind (newPass fs limits) (\<lambda>pass.
     ebind (foldM (\<lambda>(observations, pass) request.
         if ctxDone fs pass then Inl ContextDone
         else ebind (capture fs pass request) (\<lambda>(revision, pass').
           Inr (observations @ [\<lparr>ro_request = request, ro_revision = revision\<rparr>], pass')))
         ([], pass) requests) (\<lambda>(observations, pass). Inr observations))"

definition captureRevisionSetWithLimits ::
  "('l, 'p) revisionPass option \<Rightarrow> 'l \<Rightarrow> RevisionRequest list \<Rightarrow> mutationError + 'l RevisionSet" where
  "captureRevisionSetWithLimits ctx limits requests =
     (case ctx of
        None \<Rightarrow> Inl ContextRequired
      | Some fs \<Rightarrow>
          if requests = [] then Inl RevisionRequestsRequired
          else ebind (captureRevisionObservations fs requests limits) (\<lambda>observations.
               ebind (foldM (\<lambda>_ observation. validateRevisionBaseline (ro_request observation) (ro_revision observation))
                       () observations) (\<lambda>_.
               Inr \<lparr>rs_observations = observations, rs_limits = limits, rs_valid = True\<rparr>)))"

definition RevisionSet_MatchesCurrent :: "('l, 'p) revisionPass option \<Rightarrow> 'l RevisionSet \<Rightarrow> mutationError + bool" where
  "RevisionSet_MatchesCurrent ctx revisions =
     (case ctx of
        None \<Rightarrow> Inl ContextRequired
      | Some fs \<Rightarrow>
          if \<not> rs_valid revisions \<or> rs_observations revisions = [] then Inl RevisionSetUninitialized
          else ebind (captureRevisionObservations fs (map ro_request (rs_observations revisions)) (rs_limits revisions)) (\<lambda>current.
            Inr (list_all2 (\<lambda>a b. SnapshotRevision_Equal (ro_revision a) (ro_revision b))
                   (rs_observations revisions) current)))"

section \<open>Laws\<close>

lemma coversExclusiveDomains_iff:
  "coversExclusiveDomains held required = Inr True \<longleftrightarrow>
     (\<forall>r \<in> set required. is_path_domain r \<and> dm_access r = AccessExclusive \<and>
        (\<exists>h \<in> set held. is_path_domain h \<and> dm_access h = AccessExclusive \<and> coverage_key h = coverage_key r))"
proof -
  define acquired where "acquired = map coverage_key (filter (\<lambda>d. is_path_domain d \<and> dm_access d = AccessExclusive) held)"
  define f where "f = (\<lambda>covered domain.
        if \<not> covered then Inr False
        else if \<not> is_path_domain domain \<or> dm_access domain \<noteq> AccessExclusive then Inl PhysicalAuthorityInvalid
        else Inr (coverage_key domain \<in> set acquired))"
  have stuck: "foldM f False rs = Inr False" for rs by (induction rs) (simp_all add: f_def)
  have "foldM f True rs = Inr True \<longleftrightarrow>
      (\<forall>r \<in> set rs. is_path_domain r \<and> dm_access r = AccessExclusive \<and> coverage_key r \<in> set acquired)" for rs
  proof (induction rs)
    case (Cons r rs)
    show ?case
    proof (cases "is_path_domain r \<and> dm_access r = AccessExclusive")
      case True
      then have "f True r = Inr (coverage_key r \<in> set acquired)" by (simp add: f_def)
      then show ?thesis using Cons True stuck by (cases "coverage_key r \<in> set acquired") auto
    next
      case False
      then have "f True r = Inl PhysicalAuthorityInvalid" by (auto simp: f_def)
      then show ?thesis using False by auto
    qed
  qed simp
  moreover have "coverage_key r \<in> set acquired \<longleftrightarrow>
      (\<exists>h \<in> set held. is_path_domain h \<and> dm_access h = AccessExclusive \<and> coverage_key h = coverage_key r)" for r
    by (simp add: acquired_def image_iff) metis
  moreover have "coversExclusiveDomains held required = foldM f True required"
    by (simp only: coversExclusiveDomains_def f_def acquired_def Let_def)
  ultimately show ?thesis by simp
qed

lemma BoundedFileRevisionRequests_eq:
  "0 < maximumBytes \<Longrightarrow> paths \<noteq> [] \<Longrightarrow>
     BoundedFileRevisionRequests maximumBytes paths =
       Inr [\<lparr>rr_Path = path, rr_Effect = effect, maximumRegularFileBytes = maximumBytes,
             captureMode = revisionCaptureBoundedFile\<rparr>.
            path \<leftarrow> paths, effect \<leftarrow> [PathEffectDirectoryEntry, PathEffectReferent]]"
proof -
  let ?rq = "\<lambda>path effect. \<lparr>rr_Path = path, rr_Effect = effect, maximumRegularFileBytes = maximumBytes,
             captureMode = revisionCaptureBoundedFile\<rparr>"
  assume m: "0 < maximumBytes" and "paths \<noteq> []"
  have "foldM (\<lambda>requests path.
             foldM (\<lambda>requests effect.
               ebind (NewBoundedFileRevisionRequest maximumBytes path effect) (\<lambda>request.
                 Inr (requests @ [request])))
               requests [PathEffectDirectoryEntry, PathEffectReferent])
             acc ps = Inr (acc @ [?rq path effect. path \<leftarrow> ps, effect \<leftarrow> [PathEffectDirectoryEntry, PathEffectReferent]])"
    for acc ps
    by (induction ps arbitrary: acc) (use m in \<open>simp_all add: NewBoundedFileRevisionRequest_def\<close>)
  then show ?thesis using \<open>paths \<noteq> []\<close> by (simp add: BoundedFileRevisionRequests_def)
qed

lemma BoundedFileRevisionRequests_error:
  "BoundedFileRevisionRequests maximumBytes paths = Inl e \<Longrightarrow>
     paths = [] \<and> e = RevisionPathsRequired \<or> maximumBytes \<le> 0 \<and> e = MaximumBytesNotPositive"
proof (cases "paths = []")
  case False
  assume err: "BoundedFileRevisionRequests maximumBytes paths = Inl e"
  have "fails_with (\<lambda>e. e = MaximumBytesNotPositive) (BoundedFileRevisionRequests maximumBytes paths)"
    using False by (auto simp: BoundedFileRevisionRequests_def NewBoundedFileRevisionRequest_def intro!: fails_with_intros)
  moreover have "maximumBytes \<le> 0"
    using err BoundedFileRevisionRequests_eq[OF _ False] by (metis not_le Inl_Inr_False)
  ultimately show ?thesis using err by (simp add: fails_with_def)
qed (simp add: BoundedFileRevisionRequests_def)

lemma RevisionRequest_Equal_iff [simp]: "RevisionRequest_Equal a b \<longleftrightarrow> a = b"
  by (cases a; cases b) (auto simp: RevisionRequest_Equal_def)

text \<open>What accepting one observation does to a domain.\<close>

definition rebound :: "Domain \<Rightarrow> canonicalPath \<Rightarrow> Domain" where
  "rebound d identity = d\<lparr>canonicalPathKey := keyPath identity, pathWitness := cp_witness identity,
     dm_provisional := cp_provisional identity\<rparr>"

definition may_rebind :: "Domain \<Rightarrow> canonicalPath \<Rightarrow> bool" where
  "may_rebind d identity \<longleftrightarrow> \<not> namespace_isZero (namespaceLease d) \<and> dm_access d = AccessExclusive \<and>
     pathContains (nl_key (namespaceLease d)) (keyPath identity) \<and> nl_key (namespaceLease d) \<noteq> keyPath identity"

definition accepts :: "Domain \<Rightarrow> canonicalPath \<Rightarrow> Domain \<Rightarrow> bool" where
  "accepts d identity d' \<longleftrightarrow>
     (if is_path_domain d then d' = rebound d identity \<and> (d' = d \<or> may_rebind d identity) else d' = d)"

lemma matches_rebound: "matchesPathIdentity to_lower d identity \<Longrightarrow> rebound d identity = d"
  by (cases d)
    (auto simp: rebound_def matchesPathIdentity_def sameProvisionalPathIntent_def Provisional_IsZero_def
      Provisional_Equal_def split: if_splits)

lemma acceptPathIdentity_accepts:
  "acceptPathIdentity to_lower d identity = Inr (Some d') \<Longrightarrow> is_path_domain d \<Longrightarrow> accepts d identity d'"
  using matches_rebound[of to_lower d identity]
  by (auto simp: acceptPathIdentity_def accepts_def may_rebind_def rebound_def split: if_splits sum.splits)

lemma accept_step_stuck: "foldM (accept_step to_lower) None xs = Inr None"
  by (induction xs) (auto simp: accept_step_def)

definition recorded :: "(comparablePathIdentity, comparablePathIdentity) gomap \<Rightarrow> Domain \<times> canonicalPath \<Rightarrow> bool" where
  "recorded m = (\<lambda>(d, identity). is_path_domain d \<longrightarrow>
     (\<exists>i. initialPathIdentity d = Inr i \<and> map_of m (comparableIdentity identity) = Some i))"

lemma accept_step_Some:
  assumes "accept_step to_lower (Some (acc, m)) (d, identity) = Inr (Some (acc', m'))"
  shows "\<exists>d'. acc' = acc @ [d'] \<and> accepts d identity d' \<and> map_of m \<subseteq>\<^sub>m map_of m' \<and> recorded m' (d, identity)"
proof (cases "is_path_domain d")
  case True
  with assms obtain d' i where d': "acceptPathIdentity to_lower d identity = Inr (Some d')"
    and i: "initialPathIdentity d = Inr i" and acc: "acc' = acc @ [d']"
    and m: "m' = AList.update (comparableIdentity identity) i m"
    and old: "\<forall>x. map_of m (comparableIdentity identity) = Some x \<longrightarrow> x = i"
    by (auto simp: accept_step_def Let_def split: option.splits if_splits)
  have "map_of m \<subseteq>\<^sub>m map_of m'"
    using old by (auto simp: m update_conv map_le_def dom_def)
  moreover have "recorded m' (d, identity)" by (simp add: recorded_def i m update_conv)
  ultimately show ?thesis using acceptPathIdentity_accepts[OF d' True] acc by blast
next
  case False
  with assms show ?thesis by (auto simp: accept_step_def accepts_def recorded_def split: if_splits)
qed

lemma recorded_mono: "recorded m x \<Longrightarrow> map_of m \<subseteq>\<^sub>m map_of m' \<Longrightarrow> recorded m' x"
  by (cases x) (fastforce simp: recorded_def map_le_def dom_def)

lemma accept_loop:
  assumes "foldM (accept_step to_lower) (Some (acc, m)) xs = Inr (Some (acc', m'))"
  shows "\<exists>ds'. acc' = acc @ ds' \<and> list_all2 (\<lambda>(d, identity) d'. accepts d identity d') xs ds' \<and>
    map_of m \<subseteq>\<^sub>m map_of m' \<and> list_all (recorded m') xs"
  using assms
proof (induction xs arbitrary: acc m)
  case Nil
  then show ?case by simp
next
  case (Cons x xs)
  obtain d identity where x: "x = (d, identity)" by (cases x)
  from Cons.prems obtain st where st: "accept_step to_lower (Some (acc, m)) x = Inr st"
    "foldM (accept_step to_lower) st xs = Inr (Some (acc', m'))" by auto
  then obtain acc1 m1 where s1: "st = Some (acc1, m1)"
    by (cases st) (auto simp: accept_step_stuck)
  obtain d' where d': "acc1 = acc @ [d']" "accepts d identity d'" "map_of m \<subseteq>\<^sub>m map_of m1" "recorded m1 x"
    using accept_step_Some st(1) s1 x by blast
  obtain ds' where ds': "acc' = acc1 @ ds'" "list_all2 (\<lambda>(d, identity) d'. accepts d identity d') xs ds'"
    "map_of m1 \<subseteq>\<^sub>m map_of m'" "list_all (recorded m') xs"
    using Cons.IH st(2) s1 by blast
  show ?case
    by (rule exI[of _ "d' # ds'"])
      (use d' ds' x in \<open>auto intro: map_le_trans recorded_mono\<close>)
qed

lemma accepted_visibility:
  assumes "acceptVisibilityDomains to_lower ds observed = Inr (Some ds')"
  shows "length observed = length ds \<and> list_all2 (\<lambda>(d, identity) d'. accepts d identity d') (zip ds observed) ds' \<and>
    (\<exists>m. list_all (recorded m) (zip ds observed))"
  using assms accept_loop[of to_lower "[]" "[]" "zip ds observed"]
  by (fastforce simp: acceptVisibilityDomains_def split: if_splits)

text \<open>The identity a domain currently stands for.\<close>

definition current_identity :: "Domain \<Rightarrow> comparablePathIdentity" where
  "current_identity d = \<lparr>id_key = canonicalPathKey d, id_witness = pathWitness d, id_provisional = dm_provisional d\<rparr>"

lemma current_rebound [simp]: "current_identity (rebound d identity) = comparableIdentity identity"
  by (simp add: current_identity_def rebound_def comparableIdentity_def)

lemma accepts_lease:
  assumes "accepts d identity d'" "leasePathIdentity d = Inr l" "leasePathIdentity d' = Inr l'"
  shows "l' = l"
proof (cases "d' = d")
  case False
  then have "may_rebind d identity" "d' = rebound d identity" using assms(1) by (auto simp: accepts_def split: if_splits)
  with assms(2,3) show ?thesis by (auto simp: leasePathIdentity_def may_rebind_def rebound_def split: if_splits)
qed (use assms in simp)

text \<open>After a successful effect every path domain is bound to the identity just observed, only
  domains with an exclusive namespace lease change, each keeps the lease path it was acquired under, and
  initially distinct path identities stay distinct.\<close>

lemma accepted_visibility_keeps_leases:
  assumes "acceptVisibilityDomains to_lower ds observed = Inr (Some ds')"
  shows "length ds' = length ds \<and>
    (\<forall>i < length ds. dm_kind (ds' ! i) = dm_kind (ds ! i) \<and> dm_access (ds' ! i) = dm_access (ds ! i) \<and>
       (is_path_domain (ds ! i) \<longrightarrow> current_identity (ds' ! i) = comparableIdentity (observed ! i)) \<and>
       (ds' ! i \<noteq> ds ! i \<longrightarrow> may_rebind (ds ! i) (observed ! i)) \<and>
       (\<forall>l l'. leasePathIdentity (ds ! i) = Inr l \<longrightarrow> leasePathIdentity (ds' ! i) = Inr l' \<longrightarrow> l' = l)) \<and>
    (\<forall>i < length ds. \<forall>j < length ds. is_path_domain (ds ! i) \<longrightarrow> is_path_domain (ds ! j) \<longrightarrow>
       current_identity (ds' ! i) = current_identity (ds' ! j) \<longrightarrow>
       initialPathIdentity (ds ! i) = initialPathIdentity (ds ! j))"
proof -
  obtain m where v: "length observed = length ds"
    "list_all2 (\<lambda>(d, identity) d'. accepts d identity d') (zip ds observed) ds'"
    "list_all (recorded m) (zip ds observed)"
    using accepted_visibility[OF assms] by blast
  have len: "length ds' = length ds" using v by (auto dest: list_all2_lengthD)
  have acc: "accepts (ds ! i) (observed ! i) (ds' ! i)" if "i < length ds" for i
    using v(2) that v(1) by (auto simp: list_all2_conv_all_nth)
  have rec: "recorded m (ds ! i, observed ! i)" if "i < length ds" for i
    using v(3) that v(1) by (auto simp: list_all_length)
  have cur: "current_identity (ds' ! i) = comparableIdentity (observed ! i)" if "i < length ds" "is_path_domain (ds ! i)" for i
    using acc[OF that(1)] that(2) by (simp add: accepts_def)
  have keep: "dm_kind (ds' ! i) = dm_kind (ds ! i) \<and> dm_access (ds' ! i) = dm_access (ds ! i) \<and>
      (ds' ! i \<noteq> ds ! i \<longrightarrow> may_rebind (ds ! i) (observed ! i))" if "i < length ds" for i
    using acc[OF that] by (auto simp: accepts_def rebound_def split: if_splits)
  have same: "initialPathIdentity (ds ! i) = initialPathIdentity (ds ! j)"
    if "i < length ds" "j < length ds" "is_path_domain (ds ! i)" "is_path_domain (ds ! j)"
      "current_identity (ds' ! i) = current_identity (ds' ! j)" for i j
    using rec[OF that(1)] rec[OF that(2)] that cur by (auto simp: recorded_def)
  show ?thesis using len keep cur same accepts_lease[OF acc] by blast
qed

text \<open>Exclusive coverage holds exactly when every required domain is an exclusive path domain and
  the same path, semantics, effect, target and scope are held exclusively.\<close>

lemma covers_exclusive_exact:
  "coversExclusiveDomains held required = Inr True \<longleftrightarrow>
     list_all (\<lambda>r. is_path_domain r \<and> dm_access r = AccessExclusive \<and>
        list_ex (\<lambda>h. is_path_domain h \<and> dm_access h = AccessExclusive \<and> coverage_key h = coverage_key r) held) required"
  by (simp add: coversExclusiveDomains_iff list_all_iff list_ex_iff)

text \<open>Looking up by request finds an observation of the set with that request.\<close>

lemma by_request:
  "map_of (fold (\<lambda>observation m. AList.update (ro_request observation) observation m) os m) r = Some ob \<Longrightarrow>
     (\<forall>k v. map_of m k = Some v \<longrightarrow> ro_request v = k) \<Longrightarrow>
     ro_request ob = r \<and> (ob \<in> set os \<or> map_of m r = Some ob)"
proof (induction os arbitrary: m)
  case (Cons x os)
  let ?m = "AList.update (ro_request x) x m"
  have inv: "\<forall>k v. map_of ?m k = Some v \<longrightarrow> ro_request v = k" using Cons.prems(2) by (auto simp: update_conv)
  from Cons.IH[OF _ inv] Cons.prems(1) show ?case by (auto simp: update_conv split: if_splits)
qed auto

lemma subset_loop:
  assumes "foldM (subset_step byRequest) (os, seen) rs = Inr (os', seen')"
    and "map ro_request os = seen" "distinct seen" "\<forall>ob \<in> set os. P ob"
    and look: "\<And>r ob. map_of byRequest r = Some ob \<Longrightarrow> ro_request ob = r \<and> P ob"
  shows "map ro_request os' = seen' \<and> distinct seen' \<and> set seen' = set seen \<union> set rs \<and> (\<forall>ob \<in> set os'. P ob)"
  using assms(1-4)
proof (induction rs arbitrary: os seen)
  case (Cons r rs)
  show ?case
  proof (cases "r \<in> set seen")
    case True
    then have "subset_step byRequest (os, seen) r = Inr (os, seen)" by (simp add: subset_step_def)
    then show ?thesis using Cons True by auto
  next
    case False
    with Cons.prems(1) obtain ob where ob: "map_of byRequest r = Some ob"
      by (auto simp: subset_step_def split: option.splits)
    with False have "subset_step byRequest (os, seen) r = Inr (os @ [ob], seen @ [r])" by (simp add: subset_step_def)
    then show ?thesis using Cons.IH[of "os @ [ob]" "seen @ [r]"] Cons.prems False look[OF ob] by auto
  qed
qed simp

text \<open>C10: a subset of a revision set holds exactly one observation per distinct request, each of them
  taken unchanged from the captured set.\<close>

theorem revision_subset_exact:
  assumes "RevisionSet_Subset revisions requests = Inr s"
  shows "set (map ro_request (rs_observations s)) = set requests \<and> distinct (map ro_request (rs_observations s)) \<and>
    set (rs_observations s) \<subseteq> set (rs_observations revisions) \<and> rs_limits s = rs_limits revisions \<and> rs_valid s"
proof -
  let ?by = "fold (\<lambda>observation m. AList.update (ro_request observation) observation m) (rs_observations revisions) []"
  obtain os seen where os: "foldM (subset_step ?by) ([], []) requests = Inr (os, seen)"
    and s: "s = \<lparr>rs_observations = os, rs_limits = rs_limits revisions, rs_valid = True\<rparr>"
    using assms by (auto simp: RevisionSet_Subset_def Let_def split: if_splits)
  have "map ro_request os = seen \<and> distinct seen \<and> set seen = set [] \<union> set requests \<and>
      (\<forall>ob \<in> set os. ob \<in> set (rs_observations revisions))"
    by (rule subset_loop[OF os]) (auto dest: by_request)
  then show ?thesis by (auto simp: s)
qed

definition sample_request :: "string \<Rightarrow> RevisionRequest" where
  "sample_request p = NewBoundedContentRevisionRequest p PathEffectReferent"

definition sample_revisions :: "nat RevisionSet" where
  "sample_revisions = \<lparr>rs_observations =
     [\<lparr>ro_request = sample_request ''/a'', ro_revision = \<lparr>sr_kind = 1, sr_canonicalPath = ''/a'', digest = ''x'', sr_valid = True\<rparr>\<rparr>,
      \<lparr>ro_request = sample_request ''/b'', ro_revision = \<lparr>sr_kind = 2, sr_canonicalPath = ''/b'', digest = ''y'', sr_valid = True\<rparr>\<rparr>],
     rs_limits = 0, rs_valid = True\<rparr>"

theorem revision_subset_exact_witness:
  "\<exists>s. RevisionSet_Subset sample_revisions [sample_request ''/b'', sample_request ''/b''] = Inr s \<and>
     set (map ro_request (rs_observations s)) = {sample_request ''/b''}"
proof -
  obtain s where s: "RevisionSet_Subset sample_revisions [sample_request ''/b'', sample_request ''/b''] = Inr s"
    by (simp add: RevisionSet_Subset_def sample_revisions_def sample_request_def subset_step_def
        NewBoundedContentRevisionRequest_def)
  from revision_subset_exact[OF s] s show ?thesis by auto
qed

definition sample_domain :: "string \<Rightarrow> Domain" where
  "sample_domain p = zero_Domain\<lparr>dm_kind := domainPhysicalPath, dm_access := AccessExclusive, canonicalPathKey := p,
     pathWitness := ''exact-v1:'', initialCanonicalPath := p, initialPathWitness := ''exact-v1:'',
     namespaceLease := \<lparr>nl_key = ''/home'', nl_witness = ''exact-v1:'', nl_accessPath = ''/home''\<rparr>,
     requestedPath := p, dm_effect := PathEffectReferent, dm_target := ''host'', dm_scope := ''project''\<rparr>"

definition sample_identity :: "string \<Rightarrow> canonicalPath" where
  "sample_identity p = \<lparr>keyPath = p, accessPath = p, cp_witness = ''exact-v1:'', cp_provisional = zero_Provisional,
     cp_namespaceLease = zero_namespace\<rparr>"

lemma accepted_visibility_keeps_leases_witness:
  "\<exists>ds'. acceptVisibilityDomains id [sample_domain ''/home/A'', sample_domain ''/home/b'']
       [sample_identity ''/home/a'', sample_identity ''/home/b''] = Inr (Some ds') \<and>
     current_identity (ds' ! 0) = comparableIdentity (sample_identity ''/home/a'') \<and>
     dm_kind (ds' ! 1) = domainPhysicalPath"
proof -
  let ?ds = "[sample_domain ''/home/A'', sample_domain ''/home/b'']"
  let ?os = "[sample_identity ''/home/a'', sample_identity ''/home/b'']"
  have ok: "acceptVisibilityDomains id ?ds ?os = Inr (Some [sample_domain ''/home/A''\<lparr>canonicalPathKey := ''/home/a''\<rparr>,
      sample_domain ''/home/b''])"
    by code_simp
  have path: "is_path_domain (sample_domain p)" "dm_kind (sample_domain p) = domainPhysicalPath" for p
    by (simp_all add: sample_domain_def is_path_domain_def)
  from accepted_visibility_keeps_leases[OF ok] path show ?thesis
    by (intro exI[of _ "[sample_domain ''/home/A''\<lparr>canonicalPathKey := ''/home/a''\<rparr>, sample_domain ''/home/b'']"])
      (auto simp: ok)
qed

end
