(* ===== verification/MutationLease.thy ===== *)
theory MutationLease
  imports MutationModel "HOL-Library.Multiset"
begin

text \<open>
  Lease acquisition of \<^verbatim>\<open>internal/effect/mutation/lease.go\<close>: a set of mutation domains is
  normalized to lock records, sorted by key, that are acquired one after the other and released in
  reverse. \<open>rootKey\<close> is the canonical path of the lease store itself. A record's label only
  appears in messages and is kept as the data that the message prints.
\<close>

section \<open>Keys\<close>

definition encodedKey :: "string list \<Rightarrow> string" where
  "encodedKey parts = concat (map (\<lambda>field. itoa (length field) @ CHR 0x3A # field) parts)"

text \<open>\<open>filepath.ToSlash\<close> is the identity for the POSIX separator.\<close>

definition pathKey :: "string \<Rightarrow> string" where
  "pathKey path = encodedKey [''path'', path]"

datatype leaseLabel =
    LabelPath string
  | LabelHostTarget string
  | LabelHostScope string string
  | LabelHostRoute string string string

record normalizedDomain =
  nd_key :: string
  nd_label :: leaseLabel
  nd_access :: AccessMode

type_synonym leaseEntries = "(string, normalizedDomain) gomap"

definition lease_add :: "string \<Rightarrow> leaseLabel \<Rightarrow> AccessMode \<Rightarrow> leaseEntries \<Rightarrow> leaseEntries" where
  "lease_add k label access entries =
     (if map_of entries k = None \<or> access = AccessExclusive
      then AList.update k \<lparr>nd_key = k, nd_label = label, nd_access = access\<rparr> entries
      else entries)"

definition addHostIntents :: "string \<Rightarrow> string \<Rightarrow> leaseEntries \<Rightarrow> leaseEntries" where
  "addHostIntents target scope entries =
     lease_add (encodedKey [''host-scope'', target, scope]) (LabelHostScope target scope) AccessShared
       (lease_add (encodedKey [''host-target'', target]) (LabelHostTarget target) AccessShared entries)"

section \<open>Collecting the facts\<close>

record pathDomainFact =
  pf_path :: string
  pf_witness :: string
  pf_access :: AccessMode

type_synonym pathFacts = "(string, pathDomainFact) gomap"

record leaseFacts =
  lf_paths :: pathFacts
  lf_hosts :: "(string, string \<times> string) gomap"
  lf_routes :: "Domain list"

definition merge_path_fact :: "string \<Rightarrow> string \<Rightarrow> AccessMode \<Rightarrow> pathFacts \<Rightarrow> mutationError + pathFacts" where
  "merge_path_fact leasePath leaseWitness access paths =
     (case map_of paths leasePath of
        None \<Rightarrow> Inr (AList.update leasePath
                  \<lparr>pf_path = leasePath, pf_witness = leaseWitness, pf_access = access\<rparr> paths)
      | Some pf \<Rightarrow>
          if pf_witness pf \<noteq> leaseWitness then Inl ContradictorySemantics
          else if access = AccessExclusive
          then Inr (AList.update leasePath (pf\<lparr>pf_access := AccessExclusive\<rparr>) paths)
          else Inr paths)"

definition collect_step :: "string \<Rightarrow> leaseFacts \<Rightarrow> Domain \<Rightarrow> mutationError + leaseFacts" where
  "collect_step rootKey facts domain =
     ebind (access_validate (dm_access domain)) (\<lambda>_.
       if is_path_domain domain then
         if canonicalPathKey domain = [] \<or> pathWitness domain = [] then Inl PathDomainUninitialized
         else if pathContains (canonicalPathKey domain) rootKey then Inl PathContainsLeaseStore
         else
           ebind (leasePathIdentity domain) (\<lambda>(leasePath, leaseWitness).
             if pathContains leasePath rootKey then Inl LeasePathContainsLeaseStore
             else ebind (merge_path_fact leasePath leaseWitness (dm_access domain) (lf_paths facts)) (\<lambda>paths.
               Inr (facts\<lparr>lf_paths := paths,
                 lf_hosts := (if dm_kind domain = domainPhysicalPath
                   then AList.update (encodedKey [''host'', dm_target domain, dm_scope domain])
                     (dm_target domain, dm_scope domain) (lf_hosts facts)
                   else lf_hosts facts)\<rparr>)))
       else if dm_kind domain = domainHostRoute then
         ebind (containment_validate (dm_containment domain)) (\<lambda>_.
           Inr (facts\<lparr>lf_routes := lf_routes facts @ [domain]\<rparr>))
       else Inl DomainUninitialized)"

definition no_facts :: leaseFacts where
  "no_facts = \<lparr>lf_paths = [], lf_hosts = [], lf_routes = []\<rparr>"

section \<open>Exclusive ancestors\<close>

text \<open>The loop of \<open>hasExclusivePathAncestor\<close>: the answer, the memo table and the prefixes that
  still have to be entered in it.\<close>

function climb :: "pathFacts \<Rightarrow> (string, bool) gomap \<Rightarrow> string list \<Rightarrow> string \<Rightarrow>
    bool \<times> (string, bool) gomap \<times> string list" where
  "climb facts exclusiveCoverage unresolved ancestor =
     (if (case map_of facts ancestor of None \<Rightarrow> False | Some pf \<Rightarrow> pf_access pf = AccessExclusive)
      then (True, AList.update ancestor True exclusiveCoverage, unresolved)
      else case map_of exclusiveCoverage ancestor of
        Some cached \<Rightarrow> (cached, exclusiveCoverage, unresolved)
      | None \<Rightarrow>
          let parent = go_dir ancestor in
          if parent = ancestor then (False, exclusiveCoverage, unresolved @ [ancestor])
          else climb facts exclusiveCoverage (unresolved @ [ancestor]) parent)"
  by pat_completeness auto
termination
  by (relation "measure (\<lambda>(facts, memo, unresolved, ancestor). up_measure ancestor)")
    (simp_all add: up_measure_dir)

declare climb.simps [simp del]

definition hasExclusivePathAncestor ::
  "string \<Rightarrow> pathFacts \<Rightarrow> (string, bool) gomap \<Rightarrow> bool \<times> (string, bool) gomap" where
  "hasExclusivePathAncestor path facts exclusiveCoverage =
     (let ancestor = go_dir path in
      if ancestor = path then (False, exclusiveCoverage)
      else case climb facts exclusiveCoverage [] ancestor of
        (covered, exclusiveCoverage', unresolved) \<Rightarrow>
          (covered, fold (\<lambda>p m. AList.update p covered m) unresolved exclusiveCoverage'))"

definition retain_step ::
  "pathFacts \<Rightarrow> (string, bool) gomap \<times> pathFacts \<Rightarrow> string \<times> pathDomainFact \<Rightarrow> (string, bool) gomap \<times> pathFacts" where
  "retain_step facts = (\<lambda>(exclusiveCoverage, retainedPaths) (path, pf).
     case hasExclusivePathAncestor path facts exclusiveCoverage of
       (covered, exclusiveCoverage') \<Rightarrow>
         (AList.update path (covered \<or> pf_access pf = AccessExclusive) exclusiveCoverage',
          if covered then retainedPaths else AList.update path pf retainedPaths))"

section \<open>Lock records\<close>

function expand :: "string \<Rightarrow> string \<Rightarrow> leaseEntries \<times> string list \<Rightarrow> leaseEntries \<times> string list" where
  "expand path ancestor (entries, expanded) =
     (if ancestor = path then (entries, expanded)
      else
        let entries = lease_add (pathKey ancestor) (LabelPath ancestor) AccessShared entries in
        if ancestor \<in> set expanded then (entries, expanded)
        else
          let expanded = expanded @ [ancestor]; parent = go_dir ancestor in
          if parent = ancestor then (entries, expanded)
          else expand path parent (entries, expanded))"
  by pat_completeness auto
termination
  by (relation "measure (\<lambda>(path, ancestor, s). up_measure ancestor)") (simp_all add: up_measure_dir)

declare expand.simps [simp del]

definition add_route :: "Domain \<Rightarrow> leaseEntries \<Rightarrow> leaseEntries" where
  "add_route route entries =
     (let entries = addHostIntents (dm_target route) (dm_scope route) entries in
      if dm_containment route = RouteContainmentCompletePaths then
        lease_add (encodedKey [''host-route'', dm_target route, dm_scope route, dm_family route])
          (LabelHostRoute (dm_target route) (dm_scope route) (dm_family route)) AccessExclusive entries
      else if dm_containment route = RouteContainmentScope then
        lease_add (encodedKey [''host-scope'', dm_target route, dm_scope route])
          (LabelHostScope (dm_target route) (dm_scope route)) AccessExclusive entries
      else if dm_containment route = RouteContainmentUnknown then
        lease_add (encodedKey [''host-target'', dm_target route]) (LabelHostTarget (dm_target route))
          AccessExclusive entries
      else entries)"

definition path_entries :: "pathFacts \<Rightarrow> leaseEntries" where
  "path_entries paths =
     (let entries = fold (\<lambda>(p, pf). lease_add (pathKey (pf_path pf)) (LabelPath (pf_path pf)) (pf_access pf))
            paths [] in
      fst (fold (\<lambda>(p, pf) state. expand (pf_path pf) (go_dir (pf_path pf)) state) paths (entries, [])))"

definition host_entries :: "(string, string \<times> string) gomap \<Rightarrow> Domain list \<Rightarrow> leaseEntries \<Rightarrow> leaseEntries" where
  "host_entries hosts routes entries =
     fold add_route routes (fold (\<lambda>(k, target, scope). addHostIntents target scope) hosts entries)"

definition normalize :: "string \<Rightarrow> Domain list \<Rightarrow> mutationError + normalizedDomain list" where
  "normalize rootKey domains =
     ebind (foldM (collect_step rootKey) no_facts domains) (\<lambda>facts.
       let retained = snd (fold (\<lambda>entry state. retain_step (lf_paths facts) state entry) (lf_paths facts) ([], []));
           entries = host_entries (lf_hosts facts) (lf_routes facts) (path_entries retained) in
       Inr (sort_slice (\<lambda>left right. nd_key left < nd_key right) (map snd entries)))"

section \<open>The keys are unambiguous\<close>

lemma encodedKey_simps [simp]:
  "encodedKey [] = []" "encodedKey (f # fs) = itoa (length f) @ CHR 0x3A # f @ encodedKey fs"
  by (simp_all add: encodedKey_def)

lemma encodedKey_inject: "encodedKey fs = encodedKey gs \<Longrightarrow> fs = gs"
proof (induction fs arbitrary: gs)
  case Nil
  then show ?case by (cases gs) simp_all
next
  case (Cons f fs)
  then obtain g gs' where gs: "gs = g # gs'" by (cases gs) simp_all
  have first: "takeWhile (\<lambda>c. c \<noteq> CHR 0x3A) (itoa n @ CHR 0x3A # r) = itoa n" for n r
    by (subst takeWhile_append2) (auto simp: itoa_no_colon intro: ccontr)
  from Cons.prems gs have eq: "itoa (length f) @ CHR 0x3A # f @ encodedKey fs = itoa (length g) @ CHR 0x3A # g @ encodedKey gs'"
    by simp
  then have "takeWhile (\<lambda>c. c \<noteq> CHR 0x3A) (itoa (length f) @ CHR 0x3A # f @ encodedKey fs) =
      takeWhile (\<lambda>c. c \<noteq> CHR 0x3A) (itoa (length g) @ CHR 0x3A # g @ encodedKey gs')" by simp
  then have len: "length f = length g" by (simp only: first itoa_inject)
  with eq have "f = g" "encodedKey fs = encodedKey gs'" by auto
  with Cons.IH gs show ?case by simp
qed

text \<open>What a lock record stands for.\<close>

datatype leaseKey = KPath string | KTarget string | KScope string string | KRoute string string string

fun encode :: "leaseKey \<Rightarrow> string" where
  "encode (KPath p) = pathKey p"
| "encode (KTarget t) = encodedKey [''host-target'', t]"
| "encode (KScope t s) = encodedKey [''host-scope'', t, s]"
| "encode (KRoute t s f) = encodedKey [''host-route'', t, s, f]"

lemma encode_inject [simp]: "encode a = encode b \<longleftrightarrow> a = b"
  by (cases a; cases b) (auto simp del: encodedKey_simps simp: pathKey_def dest: encodedKey_inject)

section \<open>Ancestors form a chain\<close>

definition up_to :: "string \<Rightarrow> string \<Rightarrow> bool" where
  "up_to a p \<longleftrightarrow> a = p \<or> a \<in> set (ancestors p)"

lemma ancestors_unfold: "go_dir p \<noteq> p \<Longrightarrow> ancestors p = go_dir p # ancestors (go_dir p)"
  by (subst ancestors.simps) simp

lemma ancestors_top: "go_dir p = p \<Longrightarrow> ancestors p = []"
  by (subst ancestors.simps) simp

lemma up_to_refl [simp]: "up_to p p"
  by (simp add: up_to_def)

lemma ancestors_up_to: "a \<in> set (ancestors p) \<longleftrightarrow> go_dir p \<noteq> p \<and> up_to a (go_dir p)"
  by (cases "go_dir p = p") (auto simp: ancestors_unfold ancestors_top up_to_def)

lemma ancestors_induct [case_names step]:
  "(\<And>p. (go_dir p \<noteq> p \<Longrightarrow> P (go_dir p)) \<Longrightarrow> P p) \<Longrightarrow> P p"
  by (induction p rule: ancestors.induct) blast

lemma up_to_trans: "up_to a b \<Longrightarrow> up_to b c \<Longrightarrow> up_to a c"
proof (induction c rule: ancestors_induct)
  case (step c)
  then show ?case by (metis ancestors_up_to up_to_def)
qed

lemma ancestors_measure: "a \<in> set (ancestors p) \<Longrightarrow> up_measure a < up_measure p"
proof (induction p rule: ancestors_induct)
  case (step p)
  then have "go_dir p \<noteq> p" "up_to a (go_dir p)" by (simp_all add: ancestors_up_to)
  with step.IH up_measure_dir[of p] show ?case by (auto simp: up_to_def)
qed

lemma up_to_antisym: "up_to a b \<Longrightarrow> up_to b a \<Longrightarrow> a = b"
  by (auto simp: up_to_def dest!: ancestors_measure)

lemma up_to_chain: "up_to a p \<Longrightarrow> up_to b p \<Longrightarrow> up_to a b \<or> up_to b a"
proof (induction p rule: ancestors_induct)
  case (step p)
  then show ?case by (metis ancestors_up_to up_to_def)
qed

lemma up_to_abs:
  assumes "clean_abs a" "clean_abs p"
  shows "up_to a p \<longleftrightarrow> pathContains a p"
proof -
  obtain as ps where c: "components as" "components ps" "a = abs_path as" "p = abs_path ps"
    using assms by (auto simp: clean_abs_iff)
  have "up_to a p \<longleftrightarrow> prefix as ps"
  proof
    assume "up_to a p"
    then consider "abs_path as = abs_path ps" | ds where "abs_path as = abs_path ds" "strict_prefix ds ps"
      using c ancestors_abs_path[of ps] by (auto simp: up_to_def)
    then show "prefix as ps"
    proof cases
      case 2
      then have "components ds" using c(2) by (auto simp: strict_prefix_def prefix_def components_def)
      then have "as = ds" using abs_path_inject[OF c(1)] 2(1) by blast
      then show ?thesis using 2 by (simp add: strict_prefix_def)
    qed (use c abs_path_inject[of as ps] in simp)
  next
    assume "prefix as ps"
    then show "up_to a p" using c ancestors_abs_path[of ps] by (auto simp: up_to_def strict_prefix_def)
  qed
  then show ?thesis using c by (simp add: pathContains_abs)
qed

section \<open>What the collected facts say\<close>

definition lease_of :: "Domain \<Rightarrow> string" where
  "lease_of d = (case leasePathIdentity d of Inl e \<Rightarrow> [] | Inr (p, w) \<Rightarrow> p)"

definition leases_path :: "Domain list \<Rightarrow> string \<Rightarrow> bool" where
  "leases_path ds p \<longleftrightarrow> list_ex (\<lambda>d. is_path_domain d \<and> lease_of d = p) ds"

definition owns_path :: "Domain list \<Rightarrow> string \<Rightarrow> bool" where
  "owns_path ds p \<longleftrightarrow> list_ex (\<lambda>d. is_path_domain d \<and> lease_of d = p \<and> dm_access d = AccessExclusive) ds"

definition hosted :: "Domain list \<Rightarrow> string \<Rightarrow> string \<Rightarrow> bool" where
  "hosted ds t s \<longleftrightarrow> list_ex (\<lambda>d. dm_kind d = domainPhysicalPath \<and> dm_target d = t \<and> dm_scope d = s) ds"

definition admitted :: "string \<Rightarrow> Domain \<Rightarrow> bool" where
  "admitted rootKey d \<longleftrightarrow> dm_access d \<in> {AccessShared, AccessExclusive} \<and>
     (if is_path_domain d then canonicalPathKey d \<noteq> [] \<and> pathWitness d \<noteq> [] \<and>
        \<not> pathContains (canonicalPathKey d) rootKey \<and> \<not> pathContains (lease_of d) rootKey
      else dm_kind d = domainHostRoute \<and>
        dm_containment d \<in> {RouteContainmentCompletePaths, RouteContainmentScope, RouteContainmentUnknown})"

definition fact_ok :: "Domain list \<Rightarrow> string \<Rightarrow> pathDomainFact option \<Rightarrow> bool" where
  "fact_ok ds p r \<longleftrightarrow> (case r of
      None \<Rightarrow> \<not> leases_path ds p
    | Some pf \<Rightarrow> leases_path ds p \<and> pf_path pf = p \<and> pf_access pf \<in> {AccessShared, AccessExclusive} \<and>
        (pf_access pf = AccessExclusive \<longleftrightarrow> owns_path ds p))"

definition host_key :: "string \<Rightarrow> string \<Rightarrow> string" where
  "host_key t s = encodedKey [''host'', t, s]"

lemma host_key_inject [simp]: "host_key t s = host_key t' s' \<longleftrightarrow> t = t' \<and> s = s'"
  by (auto simp: host_key_def simp del: encodedKey_simps dest!: encodedKey_inject)

lemma host_update:
  assumes "\<forall>k t s. map_of h k = Some (t, s) \<longleftrightarrow> k = host_key t s \<and> P t s"
  shows "map_of (AList.update (host_key t0 s0) (t0, s0) h) k = Some (t, s) \<longleftrightarrow>
    k = host_key t s \<and> (P t s \<or> t = t0 \<and> s = s0)"
  using assms by (auto simp: update_conv)

definition facts_of :: "Domain list \<Rightarrow> leaseFacts \<Rightarrow> bool" where
  "facts_of ds f \<longleftrightarrow> distinct (go_keys (lf_paths f)) \<and> distinct (go_keys (lf_hosts f)) \<and>
     (\<forall>p. fact_ok ds p (map_of (lf_paths f) p)) \<and>
     (\<forall>k t s. map_of (lf_hosts f) k = Some (t, s) \<longleftrightarrow> k = host_key t s \<and> hosted ds t s) \<and>
     lf_routes f = filter (\<lambda>d. dm_kind d = domainHostRoute) ds"

lemma leases_snoc [simp]:
  "leases_path (ds @ [d]) p \<longleftrightarrow> leases_path ds p \<or> is_path_domain d \<and> lease_of d = p"
  "owns_path (ds @ [d]) p \<longleftrightarrow> owns_path ds p \<or> is_path_domain d \<and> lease_of d = p \<and> dm_access d = AccessExclusive"
  "hosted (ds @ [d]) t s \<longleftrightarrow> hosted ds t s \<or> dm_kind d = domainPhysicalPath \<and> dm_target d = t \<and> dm_scope d = s"
  by (auto simp: leases_path_def owns_path_def hosted_def)

lemma owns_leases: "owns_path ds p \<Longrightarrow> leases_path ds p"
  by (auto simp: owns_path_def leases_path_def list_ex_iff)

lemma merge_fact_ok:
  assumes "merge_path_fact p w a paths = Inr paths'" and "a \<in> {AccessShared, AccessExclusive}"
    and "\<And>q. fact_ok ds q (map_of paths q)"
    and d: "is_path_domain d" "lease_of d = p" "dm_access d = a"
  shows "fact_ok (ds @ [d]) q (map_of paths' q)"
proof (cases "q = p")
  case False
  then have "map_of paths' q = map_of paths q"
    using assms(1) by (auto simp: merge_path_fact_def update_conv split: option.splits if_splits)
  then show ?thesis using assms(3)[of q] False d by (auto simp: fact_ok_def split: option.splits)
next
  case True
  show ?thesis
  proof (cases "map_of paths p")
    case None
    then have "\<not> leases_path ds p" "\<not> owns_path ds p"
      using assms(3)[of p] owns_leases by (auto simp: fact_ok_def)
    with assms(1,2) d None True show ?thesis by (auto simp: merge_path_fact_def fact_ok_def update_conv)
  next
    case (Some pf)
    with assms(1,2) assms(3)[of p] d True show ?thesis
      by (auto simp: merge_path_fact_def fact_ok_def update_conv split: if_splits)
  qed
qed

lemma merge_distinct: "merge_path_fact p w a paths = Inr paths' \<Longrightarrow> distinct (go_keys paths) \<Longrightarrow> distinct (go_keys paths')"
  by (auto simp: merge_path_fact_def distinct_update split: option.splits if_splits)

lemma collect_step_facts:
  assumes "collect_step rootKey f d = Inr f'" and f: "facts_of ds f"
  shows "facts_of (ds @ [d]) f' \<and> admitted rootKey d"
proof -
  have acc: "dm_access d \<in> {AccessShared, AccessExclusive}"
    using assms(1) by (auto simp: collect_step_def access_validate_def)
  show ?thesis
  proof (cases "is_path_domain d")
    case True
    then have route: "dm_kind d \<noteq> domainHostRoute" by (auto simp: is_path_domain_def)
    from assms(1) True obtain p w paths where l: "leasePathIdentity d = Inr (p, w)"
      and m: "merge_path_fact p w (dm_access d) (lf_paths f) = Inr paths"
      and f': "f' = f\<lparr>lf_paths := paths, lf_hosts := (if dm_kind d = domainPhysicalPath
                   then AList.update (host_key (dm_target d) (dm_scope d))
                     (dm_target d, dm_scope d) (lf_hosts f) else lf_hosts f)\<rparr>"
      and adm: "canonicalPathKey d \<noteq> []" "pathWitness d \<noteq> []" "\<not> pathContains (canonicalPathKey d) rootKey"
        "\<not> pathContains p rootKey"
      by (auto simp: collect_step_def host_key_def split: if_splits)
    have lo: "lease_of d = p" using l by (simp add: lease_of_def)
    have old: "\<forall>k t s. map_of (lf_hosts f) k = Some (t, s) \<longleftrightarrow> k = host_key t s \<and> hosted ds t s"
      using f by (simp add: facts_of_def)
    have hosts: "map_of (lf_hosts f') k = Some (t, s) \<longleftrightarrow> k = host_key t s \<and> hosted (ds @ [d]) t s" for k t s
      using old host_update[OF old] by (auto simp: f')
    have paths: "fact_ok (ds @ [d]) q (map_of paths q)" for q
      using merge_fact_ok[OF m acc] f True lo by (simp add: facts_of_def)
    show ?thesis
      using f m hosts paths route adm True lo acc
      by (auto simp: f' facts_of_def admitted_def distinct_update merge_distinct)
  next
    case False
    with assms(1) have r: "dm_kind d = domainHostRoute" "f' = f\<lparr>lf_routes := lf_routes f @ [d]\<rparr>"
      "dm_containment d \<in> {RouteContainmentCompletePaths, RouteContainmentScope, RouteContainmentUnknown}"
      by (auto simp: collect_step_def containment_validate_def split: if_splits)
    have "fact_ok (ds @ [d]) q x = fact_ok ds q x" for q x
      using False by (simp add: fact_ok_def split: option.splits)
    with r f acc False show ?thesis by (simp add: facts_of_def admitted_def)
  qed
qed

lemma collect_facts:
  assumes "foldM (collect_step rootKey) no_facts ds = Inr f"
  shows "facts_of ds f \<and> list_all (admitted rootKey) ds"
  using assms
proof (induction ds arbitrary: f rule: rev_induct)
  case Nil
  then show ?case by (auto simp: facts_of_def no_facts_def fact_ok_def leases_path_def hosted_def)
next
  case (snoc d ds)
  then show ?case using collect_step_facts by (fastforce simp: foldM_append)
qed

section \<open>The memoized search for an exclusive ancestor\<close>

definition excl_at :: "pathFacts \<Rightarrow> string \<Rightarrow> bool" where
  "excl_at facts a \<longleftrightarrow> (case map_of facts a of None \<Rightarrow> False | Some pf \<Rightarrow> pf_access pf = AccessExclusive)"

definition excl_above :: "pathFacts \<Rightarrow> string \<Rightarrow> bool" where
  "excl_above facts a \<longleftrightarrow> (\<exists>q. up_to q a \<and> excl_at facts q)"

definition memo_ok :: "pathFacts \<Rightarrow> (string, bool) gomap \<Rightarrow> bool" where
  "memo_ok facts memo \<longleftrightarrow> (\<forall>a b. map_of memo a = Some b \<longrightarrow> b = excl_above facts a)"

lemma excl_above_step: "excl_above facts a \<longleftrightarrow> excl_at facts a \<or> (go_dir a \<noteq> a \<and> excl_above facts (go_dir a))"
  by (auto simp: excl_above_def up_to_def[of _ a] ancestors_up_to)

lemma memo_ok_update: "memo_ok facts memo \<Longrightarrow> b = excl_above facts a \<Longrightarrow> memo_ok facts (AList.update a b memo)"
  by (auto simp: memo_ok_def update_conv)

lemma climb_correct:
  assumes "climb facts memo un a = (c, memo', un')" and "memo_ok facts memo"
  shows "c = excl_above facts a \<and> memo_ok facts memo' \<and>
    (\<exists>new. un' = un @ new \<and> list_all (\<lambda>u. excl_above facts u = c) new)"
  using assms
proof (induction facts memo un a arbitrary: c memo' un' rule: climb.induct)
  case (1 facts memo un a)
  note eq = climb.simps[of facts memo un a, folded excl_at_def]
  show ?case
  proof (cases "excl_at facts a")
    case True
    then show ?thesis using 1(2,3) eq excl_above_step[of facts a] by (auto simp: memo_ok_update)
  next
    case ne: False
    show ?thesis
    proof (cases "map_of memo a")
      case (Some b)
      then show ?thesis using 1(2,3) eq ne by (auto simp: memo_ok_def)
    next
      case None
      show ?thesis
      proof (cases "go_dir a = a")
        case True
        then show ?thesis using 1(2,3) eq ne None excl_above_step[of facts a] by auto
      next
        case False
        have above: "excl_above facts a = excl_above facts (go_dir a)" using excl_above_step[of facts a] ne False by simp
        have "climb facts memo (un @ [a]) (go_dir a) = (c, memo', un')"
          using 1(2) eq ne None False by (simp add: Let_def)
        from 1(1)[OF _ None refl False this 1(3)] ne
        obtain new where "c = excl_above facts (go_dir a)" "memo_ok facts memo'" "un' = (un @ [a]) @ new"
          "list_all (\<lambda>u. excl_above facts u = c) new"
          by (auto simp: excl_at_def)
        then show ?thesis using above by (intro conjI exI[of _ "a # new"]) auto
      qed
    qed
  qed
qed

lemma memo_ok_fold:
  "memo_ok facts memo \<Longrightarrow> list_all (\<lambda>u. excl_above facts u = c) us \<Longrightarrow>
     memo_ok facts (fold (\<lambda>p m. AList.update p c m) us memo)"
  by (induction us arbitrary: memo) (auto simp: memo_ok_update)

definition covered :: "pathFacts \<Rightarrow> string \<Rightarrow> bool" where
  "covered facts p \<longleftrightarrow> list_ex (excl_at facts) (ancestors p)"

lemma covered_iff: "covered facts p \<longleftrightarrow> go_dir p \<noteq> p \<and> excl_above facts (go_dir p)"
  by (auto simp: covered_def list_ex_iff excl_above_def ancestors_up_to)

lemma hasExclusivePathAncestor_correct:
  assumes "memo_ok facts memo" and "hasExclusivePathAncestor p facts memo = (c, memo')"
  shows "c = covered facts p \<and> memo_ok facts memo'"
proof (cases "go_dir p = p")
  case True
  then show ?thesis using assms by (simp add: hasExclusivePathAncestor_def covered_iff)
next
  case False
  obtain c' m un where cl: "climb facts memo [] (go_dir p) = (c', m, un)" by (metis prod_cases3)
  with climb_correct[OF cl assms(1)] False assms(2) show ?thesis
    by (auto simp: hasExclusivePathAncestor_def covered_iff memo_ok_fold)
qed

text \<open>The memoized search agrees with searching all ancestors, whatever sound memo table it starts
  from, and leaves a sound memo table behind.\<close>

lemma memoized_ancestor_search:
  assumes "memo_ok facts memo"
  shows "fst (hasExclusivePathAncestor p facts memo) = list_ex (excl_at facts) (ancestors p) \<and>
    memo_ok facts (snd (hasExclusivePathAncestor p facts memo))"
  using hasExclusivePathAncestor_correct[OF assms, of p] covered_def[of facts p]
  by (cases "hasExclusivePathAncestor p facts memo") auto

lemma update_fresh: "k \<notin> set (go_keys m) \<Longrightarrow> AList.update k v m = m @ [(k, v)]"
  by (induction m) auto

lemma retain_loop:
  assumes "memo_ok facts memo" and "distinct (go_keys (ret @ xs))"
    and "\<And>p pf. (p, pf) \<in> set xs \<Longrightarrow> map_of facts p = Some pf"
  shows "snd (fold (\<lambda>e s. retain_step facts s e) xs (memo, ret)) = ret @ filter (\<lambda>(p, pf). \<not> covered facts p) xs"
  using assms
proof (induction xs arbitrary: memo ret)
  case (Cons x xs)
  obtain p pf where x: "x = (p, pf)" by (cases x)
  obtain c memo' where h: "hasExclusivePathAncestor p facts memo = (c, memo')" by fastforce
  then have c: "c = covered facts p" and m: "memo_ok facts memo'"
    using hasExclusivePathAncestor_correct[OF Cons.prems(1)] by auto
  have "excl_at facts p \<longleftrightarrow> pf_access pf = AccessExclusive"
    using Cons.prems(3)[of p pf] x by (simp add: excl_at_def)
  then have "memo_ok facts (AList.update p (c \<or> pf_access pf = AccessExclusive) memo')"
    using m c covered_iff[of facts p] excl_above_step[of facts p] by (intro memo_ok_update) auto
  then have "snd (fold (\<lambda>e s. retain_step facts s e) xs
      (AList.update p (c \<or> pf_access pf = AccessExclusive) memo', if c then ret else ret @ [(p, pf)])) =
    (if c then ret else ret @ [(p, pf)]) @ filter (\<lambda>(p, pf). \<not> covered facts p) xs"
    using Cons.prems(2,3) x by (intro Cons.IH) auto
  moreover have "AList.update p pf ret = ret @ [(p, pf)]" using Cons.prems(2) x by (intro update_fresh) auto
  then have "retain_step facts (memo, ret) x =
      (AList.update p (c \<or> pf_access pf = AccessExclusive) memo', if c then ret else ret @ [(p, pf)])"
    by (simp add: retain_step_def h x)
  ultimately show ?case using x c by simp
qed simp

section \<open>The lock records\<close>

text \<open>A map of records in which every key occurs once and labels its own record.\<close>

definition entries_ok :: "leaseEntries \<Rightarrow> bool" where
  "entries_ok m \<longleftrightarrow> distinct (go_keys m) \<and>
     (\<forall>k e. map_of m k = Some e \<longrightarrow> nd_key e = k \<and> nd_access e \<in> {AccessShared, AccessExclusive})"

definition locks :: "leaseEntries \<Rightarrow> leaseKey \<Rightarrow> bool" where
  "locks m k \<longleftrightarrow> map_of m (encode k) \<noteq> None"

definition locks_excl :: "leaseEntries \<Rightarrow> leaseKey \<Rightarrow> bool" where
  "locks_excl m k \<longleftrightarrow> (\<exists>e. map_of m (encode k) = Some e \<and> nd_access e = AccessExclusive)"

definition only_encoded :: "leaseEntries \<Rightarrow> bool" where
  "only_encoded m \<longleftrightarrow> (\<forall>k e. map_of m k = Some e \<longrightarrow> k \<in> range encode)"

definition lease_table :: "leaseEntries \<Rightarrow> (leaseKey \<Rightarrow> bool) \<Rightarrow> (leaseKey \<Rightarrow> bool) \<Rightarrow> bool" where
  "lease_table m touched owned \<longleftrightarrow> entries_ok m \<and> only_encoded m \<and>
     (\<forall>k. locks m k = touched k) \<and> (\<forall>k. locks_excl m k = owned k)"

lemma lease_add_table:
  assumes "lease_table m touched owned" and "a \<in> {AccessShared, AccessExclusive}" and "kk = encode k"
  shows "lease_table (lease_add kk l a m) (\<lambda>j. touched j \<or> j = k) (\<lambda>j. owned j \<or> j = k \<and> a = AccessExclusive)"
proof -
  have owned: "owned j \<Longrightarrow> touched j" for j
    using assms(1) unfolding lease_table_def locks_def locks_excl_def by (metis option.distinct(1))
  have ok: "entries_ok (lease_add kk l a m)" "only_encoded (lease_add kk l a m)"
    using assms
    by (auto simp: lease_table_def entries_ok_def only_encoded_def lease_add_def distinct_update update_conv
        simp del: map_of_eq_Some_iff Some_eq_map_of_iff split: if_splits)
  have fresh: "map_of m (encode k) = None \<Longrightarrow> \<not> owned k"
    using assms(1) owned[of k] unfolding lease_table_def locks_def by metis
  show ?thesis
    using assms ok fresh
    by (auto simp: lease_table_def locks_def locks_excl_def lease_add_def update_conv split: if_splits)
qed

lemma lease_table_cong:
  "lease_table m t w \<Longrightarrow> (\<And>k. t k = t' k) \<Longrightarrow> (\<And>k. w k = w' k) \<Longrightarrow> lease_table m t' w'"
  by (simp add: lease_table_def)

lemma pathKey_encode: "pathKey p = encode (KPath p)"
  by simp

text \<open>The walk over the ancestors marks prefixes before it has entered their own ancestors; those in
  progress lie strictly below the current one.\<close>

definition closed_at :: "(leaseKey \<Rightarrow> bool) \<Rightarrow> string \<Rightarrow> bool" where
  "closed_at t x \<longleftrightarrow> (\<forall>q. up_to q x \<longrightarrow> t (KPath q))"

definition walking :: "(leaseKey \<Rightarrow> bool) \<Rightarrow> string \<Rightarrow> string \<Rightarrow> bool" where
  "walking t a x \<longleftrightarrow> closed_at t x \<or>
     x \<noteq> a \<and> up_to a x \<and> (\<forall>q. up_to q x \<longrightarrow> t (KPath q) \<or> up_to q a)"

definition reaching :: "(leaseKey \<Rightarrow> bool) \<Rightarrow> string \<Rightarrow> leaseKey \<Rightarrow> bool" where
  "reaching t a j \<longleftrightarrow> t j \<or> (\<exists>q. j = KPath q \<and> up_to q a)"

lemma up_to_step: "go_dir a \<noteq> a \<Longrightarrow> up_to q a \<longleftrightarrow> q = a \<or> up_to q (go_dir a)"
  by (simp add: up_to_def[of q a] ancestors_up_to)

lemma up_to_top: "go_dir a = a \<Longrightarrow> up_to q a \<longleftrightarrow> q = a"
  by (simp add: up_to_def ancestors_top)

lemma walking_up:
  assumes "walking t a x" "go_dir a \<noteq> a" "t' = (\<lambda>j. t j \<or> j = KPath a)"
  shows "walking t' (go_dir a) x"
proof (cases "closed_at t x")
  case True
  then show ?thesis using assms(3) by (simp add: walking_def closed_at_def)
next
  case False
  then have w: "x \<noteq> a" "up_to a x" "\<forall>q. up_to q x \<longrightarrow> t (KPath q) \<or> up_to q a"
    using assms(1) by (auto simp: walking_def)
  have dir: "up_to (go_dir a) a" using assms(2) by (simp add: up_to_step)
  have "x \<noteq> go_dir a" using w(2) dir up_to_antisym assms(2) by blast
  moreover have "up_to (go_dir a) x" using dir w(2) up_to_trans by blast
  ultimately show ?thesis using w(3) up_to_step[OF assms(2)] assms(3) by (auto simp: walking_def)
qed

lemma expand_table:
  assumes "lease_table m t w" and "a \<in> set (ancestors p)" and "list_all (walking t a) ex"
    and "expand p a (m, ex) = (m', ex')"
  shows "lease_table m' (reaching t a) w \<and> list_all (closed_at (reaching t a)) ex'"
  using assms
proof (induction p a "(m, ex)" arbitrary: m ex t rule: expand.induct)
  case (1 p a m ex)
  have ne: "a \<noteq> p" using 1(3) ancestors_measure by blast
  define m1 where "m1 = lease_add (pathKey a) (LabelPath a) AccessShared m"
  define t1 where "t1 = (\<lambda>j. t j \<or> j = KPath a)"
  have tab: "lease_table m1 t1 w"
    using lease_add_table[OF 1(2) _ pathKey_encode[of a], of AccessShared "LabelPath a"]
    by (simp add: m1_def t1_def)
  note eq = expand.simps[of p a m ex] 1(5)
  show ?case
  proof (cases "a \<in> set ex")
    case True
    then have res: "m' = m1" "ex' = ex" using eq ne by (simp_all add: m1_def Let_def)
    have "closed_at t a" using 1(4) True by (auto simp: list_all_iff walking_def)
    then have same: "reaching t a j = t1 j" for j by (auto simp: reaching_def t1_def closed_at_def)
    have "closed_at (reaching t a) x" if "x \<in> set ex" for x
      using 1(4) that by (auto simp: list_all_iff walking_def closed_at_def reaching_def)
    then show ?thesis using tab res same lease_table_cong by (auto simp: list_all_iff)
  next
    case new: False
    show ?thesis
    proof (cases "go_dir a = a")
      case True
      then have res: "m' = m1" "ex' = ex @ [a]" using eq ne new by (simp_all add: m1_def Let_def)
      have same: "reaching t a j = t1 j" for j by (auto simp: reaching_def t1_def up_to_top[OF True])
      have "closed_at (reaching t a) x" if "x \<in> set (ex @ [a])" for x
        using 1(4) that by (auto simp: list_all_iff walking_def closed_at_def reaching_def)
      then show ?thesis using tab res same lease_table_cong by (auto simp: list_all_iff)
    next
      case False
      have rec: "expand p (go_dir a) (m1, ex @ [a]) = (m', ex')" using eq ne new False by (simp add: m1_def Let_def)
      have anc: "go_dir a \<in> set (ancestors p)"
        using 1(3) False by (metis ancestors_up_to up_to_refl up_to_trans up_to_def)
      have "walking t1 (go_dir a) x" if "x \<in> set (ex @ [a])" for x
      proof (cases "x = a")
        case True
        then show ?thesis using False up_to_step[OF False] by (auto simp: walking_def t1_def)
      next
        case xa: False
        then show ?thesis using walking_up[OF _ False t1_def] 1(4) that by (auto simp: list_all_iff)
      qed
      then have "lease_table m' (reaching t1 (go_dir a)) w \<and> list_all (closed_at (reaching t1 (go_dir a))) ex'"
        using 1(1)[OF ne _ new _ _ _ tab anc _ rec] False by (simp add: m1_def list_all_iff)
      moreover have "reaching t1 (go_dir a) = reaching t a"
        by (auto simp: fun_eq_iff reaching_def t1_def up_to_step[OF False])
      ultimately show ?thesis by simp
    qed
  qed
qed

lemma add_paths_table:
  assumes "lease_table m t w" and "list_all (\<lambda>(p, pf). pf_access pf \<in> {AccessShared, AccessExclusive}) xs"
  shows "lease_table (fold (\<lambda>(p, pf). lease_add (pathKey (pf_path pf)) (LabelPath (pf_path pf)) (pf_access pf)) xs m)
    (\<lambda>j. t j \<or> list_ex (\<lambda>(p, pf). j = KPath (pf_path pf)) xs)
    (\<lambda>j. w j \<or> list_ex (\<lambda>(p, pf). j = KPath (pf_path pf) \<and> pf_access pf = AccessExclusive) xs)"
  using assms
proof (induction xs arbitrary: m t w)
  case (Cons x xs)
  obtain p pf where x: "x = (p, pf)" by (cases x)
  have "lease_table (lease_add (pathKey (pf_path pf)) (LabelPath (pf_path pf)) (pf_access pf) m)
      (\<lambda>j. t j \<or> j = KPath (pf_path pf)) (\<lambda>j. w j \<or> j = KPath (pf_path pf) \<and> pf_access pf = AccessExclusive)"
    using Cons.prems x by (intro lease_add_table) auto
  from Cons.IH[OF this] Cons.prems(2) x show ?case by (auto elim!: lease_table_cong)
qed (simp add: lease_table_def)

lemma closed_reaching: "closed_at t x \<Longrightarrow> closed_at (reaching t a) x"
  by (auto simp: closed_at_def reaching_def)

lemma expand_paths_table:
  assumes "lease_table m t w" and "list_all (closed_at t) ex"
    and "fold (\<lambda>(p, pf) state. expand (pf_path pf) (go_dir (pf_path pf)) state) xs (m, ex) = (m', ex')"
  shows "lease_table m' (\<lambda>j. t j \<or> list_ex (\<lambda>(p, pf). list_ex (\<lambda>q. j = KPath q) (ancestors (pf_path pf))) xs) w"
  using assms
proof (induction xs arbitrary: m t ex)
  case (Cons x xs)
  obtain p pf where x: "x = (p, pf)" by (cases x)
  let ?p = "pf_path pf"
  obtain m1 ex1 where e: "expand ?p (go_dir ?p) (m, ex) = (m1, ex1)" by fastforce
  have rest: "fold (\<lambda>(p, pf) state. expand (pf_path pf) (go_dir (pf_path pf)) state) xs (m1, ex1) = (m', ex')"
    using Cons.prems(3) x e by simp
  show ?case
  proof (cases "go_dir ?p = ?p")
    case True
    then have "m1 = m" "ex1 = ex" using e by (simp_all add: expand.simps)
    then show ?thesis using Cons.IH[OF Cons.prems(1,2)] rest x True
      by (auto simp: ancestors_top elim!: lease_table_cong)
  next
    case False
    have anc: "go_dir ?p \<in> set (ancestors ?p)" using False by (simp add: ancestors_up_to)
    have "list_all (walking t (go_dir ?p)) ex" using Cons.prems(2) by (auto simp: list_all_iff walking_def)
    with expand_table[OF Cons.prems(1) anc _ e]
    have "lease_table m1 (reaching t (go_dir ?p)) w" "list_all (closed_at (reaching t (go_dir ?p))) ex1" by auto
    from Cons.IH[OF this rest] show ?thesis
      by (rule lease_table_cong) (auto simp: x reaching_def list_ex_iff ancestors_up_to[of _ ?p] False)
  qed
qed (simp add: lease_table_def)

lemma empty_table: "lease_table [] (\<lambda>_. False) (\<lambda>_. False)"
  by (simp add: lease_table_def entries_ok_def only_encoded_def locks_def locks_excl_def)

lemma path_entries_table:
  assumes "list_all (\<lambda>(p, pf). pf_access pf \<in> {AccessShared, AccessExclusive}) xs"
  shows "lease_table (path_entries xs)
    (\<lambda>j. list_ex (\<lambda>(p, pf). \<exists>q. j = KPath q \<and> up_to q (pf_path pf)) xs)
    (\<lambda>j. list_ex (\<lambda>(p, pf). j = KPath (pf_path pf) \<and> pf_access pf = AccessExclusive) xs)"
proof -
  let ?m = "fold (\<lambda>(p, pf). lease_add (pathKey (pf_path pf)) (LabelPath (pf_path pf)) (pf_access pf)) xs []"
  obtain m' ex' where e: "fold (\<lambda>(p, pf) state. expand (pf_path pf) (go_dir (pf_path pf)) state) xs (?m, []) = (m', ex')"
    by fastforce
  from expand_paths_table[OF add_paths_table[OF empty_table assms] _ e] have
    "lease_table m' (\<lambda>j. (False \<or> list_ex (\<lambda>(p, pf). j = KPath (pf_path pf)) xs) \<or>
        list_ex (\<lambda>(p, pf). list_ex (\<lambda>q. j = KPath q) (ancestors (pf_path pf))) xs)
      (\<lambda>j. False \<or> list_ex (\<lambda>(p, pf). j = KPath (pf_path pf) \<and> pf_access pf = AccessExclusive) xs)"
    by simp
  moreover have "path_entries xs = m'" by (simp only: path_entries_def Let_def e fst_conv)
  moreover have "((False \<or> list_ex (\<lambda>(p, pf). j = KPath (pf_path pf)) xs) \<or>
        list_ex (\<lambda>(p, pf). list_ex (\<lambda>q. j = KPath q) (ancestors (pf_path pf))) xs) =
      list_ex (\<lambda>(p, pf). \<exists>q. j = KPath q \<and> up_to q (pf_path pf)) xs" for j
    by (induction xs) (auto simp: up_to_def list_ex_iff)
  ultimately show ?thesis by (auto elim: lease_table_cong)
qed

lemma host_intents_table:
  assumes "lease_table m t w"
  shows "lease_table (addHostIntents tg sc m) (\<lambda>j. t j \<or> j = KTarget tg \<or> j = KScope tg sc) w"
proof -
  have "lease_table (lease_add (encodedKey [''host-target'', tg]) (LabelHostTarget tg) AccessShared m)
      (\<lambda>j. t j \<or> j = KTarget tg) (\<lambda>j. w j \<or> j = KTarget tg \<and> AccessShared = AccessExclusive)"
    by (rule lease_add_table[OF assms]) simp_all
  then have "lease_table (addHostIntents tg sc m) (\<lambda>j. (t j \<or> j = KTarget tg) \<or> j = KScope tg sc)
      (\<lambda>j. (w j \<or> j = KTarget tg \<and> AccessShared = AccessExclusive) \<or> j = KScope tg sc \<and> AccessShared = AccessExclusive)"
    unfolding addHostIntents_def by (rule lease_add_table) simp_all
  then show ?thesis by (rule lease_table_cong) auto
qed

lemma hosts_table:
  assumes "lease_table m t w"
  shows "lease_table (fold (\<lambda>(k, target, scope). addHostIntents target scope) hosts m)
    (\<lambda>j. t j \<or> list_ex (\<lambda>(k, tg, sc). j = KTarget tg \<or> j = KScope tg sc) hosts) w"
  using assms
proof (induction hosts arbitrary: m t)
  case (Cons h hosts)
  obtain k tg sc where "h = (k, tg, sc)" by (cases h)
  with Cons.IH[OF host_intents_table[OF Cons.prems]] show ?case by (auto elim!: lease_table_cong)
qed simp

text \<open>What a route locks exclusively.\<close>

definition route_key :: "Domain \<Rightarrow> leaseKey" where
  "route_key r =
     (if dm_containment r = RouteContainmentCompletePaths then KRoute (dm_target r) (dm_scope r) (dm_family r)
      else if dm_containment r = RouteContainmentScope then KScope (dm_target r) (dm_scope r)
      else KTarget (dm_target r))"

definition containment_known :: "Domain \<Rightarrow> bool" where
  "containment_known r \<longleftrightarrow>
     dm_containment r \<in> {RouteContainmentCompletePaths, RouteContainmentScope, RouteContainmentUnknown}"

lemma add_route_table:
  assumes "lease_table m t w" and "containment_known r"
  shows "lease_table (add_route r m)
    (\<lambda>j. t j \<or> j = KTarget (dm_target r) \<or> j = KScope (dm_target r) (dm_scope r) \<or> j = route_key r)
    (\<lambda>j. w j \<or> j = route_key r)"
proof -
  note base = host_intents_table[OF assms(1), of "dm_target r" "dm_scope r"]
  have add: "lease_table (lease_add (encode (route_key r)) l AccessExclusive (addHostIntents (dm_target r) (dm_scope r) m))
      (\<lambda>j. t j \<or> j = KTarget (dm_target r) \<or> j = KScope (dm_target r) (dm_scope r) \<or> j = route_key r)
      (\<lambda>j. w j \<or> j = route_key r)" for l
    by (rule lease_table_cong[OF lease_add_table[OF base _ refl]]) auto
  consider "dm_containment r = RouteContainmentCompletePaths" | "dm_containment r = RouteContainmentScope"
    | "dm_containment r = RouteContainmentUnknown" using assms(2) by (auto simp: containment_known_def)
  then have "\<exists>l. add_route r m = lease_add (encode (route_key r)) l AccessExclusive (addHostIntents (dm_target r) (dm_scope r) m)"
    by cases (auto simp: add_route_def route_key_def Let_def simp del: encodedKey_simps)
  with add show ?thesis by auto
qed

lemma routes_table:
  assumes "lease_table m t w" and "list_all containment_known rs"
  shows "lease_table (fold add_route rs m)
    (\<lambda>j. t j \<or> list_ex (\<lambda>r. j = KTarget (dm_target r) \<or> j = KScope (dm_target r) (dm_scope r) \<or> j = route_key r) rs)
    (\<lambda>j. w j \<or> list_ex (\<lambda>r. j = route_key r) rs)"
  using assms
proof (induction rs arbitrary: m t w)
  case (Cons r rs)
  then have r: "containment_known r" "list_all containment_known rs" by simp_all
  from Cons.IH[OF add_route_table[OF Cons.prems(1) r(1)] r(2)] show ?case by (auto elim!: lease_table_cong)
qed simp

section \<open>The normal form\<close>

definition covered_lease :: "Domain list \<Rightarrow> string \<Rightarrow> bool" where
  "covered_lease ds p \<longleftrightarrow> list_ex (owns_path ds) (ancestors p)"

fun touches :: "Domain list \<Rightarrow> leaseKey \<Rightarrow> bool" where
  "touches ds (KPath q) =
     list_ex (\<lambda>d. is_path_domain d \<and> \<not> covered_lease ds (lease_of d) \<and> up_to q (lease_of d)) ds"
| "touches ds (KTarget t) =
     list_ex (\<lambda>d. dm_kind d \<in> {domainPhysicalPath, domainHostRoute} \<and> dm_target d = t) ds"
| "touches ds (KScope t s) =
     list_ex (\<lambda>d. dm_kind d \<in> {domainPhysicalPath, domainHostRoute} \<and> dm_target d = t \<and> dm_scope d = s) ds"
| "touches ds (KRoute t s f) = list_ex (\<lambda>d. dm_kind d = domainHostRoute \<and> route_key d = KRoute t s f) ds"

definition owns :: "Domain list \<Rightarrow> leaseKey \<Rightarrow> bool" where
  "owns ds k \<longleftrightarrow> (case k of KPath p \<Rightarrow> owns_path ds p \<and> \<not> covered_lease ds p
     | _ \<Rightarrow> list_ex (\<lambda>d. dm_kind d = domainHostRoute \<and> route_key d = k) ds)"

lemma facts_excl:
  assumes "facts_of ds f"
  shows "excl_at (lf_paths f) p \<longleftrightarrow> owns_path ds p"
proof -
  have "fact_ok ds p (map_of (lf_paths f) p)" using assms by (simp add: facts_of_def)
  then show ?thesis using owns_leases[of ds p] by (auto simp: excl_at_def fact_ok_def split: option.splits)
qed

lemma facts_covered: "facts_of ds f \<Longrightarrow> covered (lf_paths f) p \<longleftrightarrow> covered_lease ds p"
  by (simp add: covered_def covered_lease_def list_ex_iff facts_excl)

lemma facts_entry:
  assumes "facts_of ds f"
  shows "(p, pf) \<in> set (lf_paths f) \<Longrightarrow> pf_path pf = p \<and> leases_path ds p \<and>
      pf_access pf \<in> {AccessShared, AccessExclusive} \<and> (pf_access pf = AccessExclusive \<longleftrightarrow> owns_path ds p)"
    and "leases_path ds p \<Longrightarrow> \<exists>pf. (p, pf) \<in> set (lf_paths f)"
proof -
  have d: "distinct (go_keys (lf_paths f))" and ok: "fact_ok ds p (map_of (lf_paths f) p)" for p
    using assms by (auto simp: facts_of_def)
  show "(p, pf) \<in> set (lf_paths f) \<Longrightarrow> pf_path pf = p \<and> leases_path ds p \<and>
      pf_access pf \<in> {AccessShared, AccessExclusive} \<and> (pf_access pf = AccessExclusive \<longleftrightarrow> owns_path ds p)"
    using ok[of p] map_of_is_SomeI[OF d, of p pf] by (auto simp: fact_ok_def)
  show "leases_path ds p \<Longrightarrow> \<exists>pf. (p, pf) \<in> set (lf_paths f)"
    using ok[of p] by (cases "map_of (lf_paths f) p") (auto simp: fact_ok_def dest: map_of_SomeD)
qed

lemma retained_ex:
  assumes "facts_of ds f"
  shows "list_ex (\<lambda>(p, pf). P (pf_path pf) (pf_access pf = AccessExclusive)) (filter (\<lambda>(p, pf). \<not> covered (lf_paths f) p) (lf_paths f)) \<longleftrightarrow>
    (\<exists>p. leases_path ds p \<and> \<not> covered_lease ds p \<and> P p (owns_path ds p))"
  using facts_entry[OF assms] facts_covered[OF assms] by (fastforce simp: list_ex_iff)

lemma facts_hosts:
  assumes "facts_of ds f"
  shows "list_ex (\<lambda>(k, tg, sc). P tg sc) (lf_hosts f) \<longleftrightarrow> (\<exists>t s. hosted ds t s \<and> P t s)"
proof -
  have d: "distinct (go_keys (lf_hosts f))"
    and h: "map_of (lf_hosts f) k = Some (t, s) \<longleftrightarrow> k = host_key t s \<and> hosted ds t s" for k t s
    using assms by (auto simp: facts_of_def)
  have "(k, t, s) \<in> set (lf_hosts f) \<longleftrightarrow> k = host_key t s \<and> hosted ds t s" for k t s
    using d h by simp
  then show ?thesis by (force simp: list_ex_iff)
qed

definition lease_normal_form :: "Domain list \<Rightarrow> normalizedDomain list \<Rightarrow> bool" where
  "lease_normal_form ds n \<longleftrightarrow> sorted_wrt (\<lambda>a b. nd_key a < nd_key b) n \<and>
     (\<forall>e \<in> set n. nd_access e \<in> {AccessShared, AccessExclusive} \<and> nd_key e \<in> range encode) \<and>
     (\<forall>k. (\<exists>e \<in> set n. nd_key e = encode k) \<longleftrightarrow> touches ds k) \<and>
     (\<forall>k. (\<exists>e \<in> set n. nd_key e = encode k \<and> nd_access e = AccessExclusive) \<longleftrightarrow> owns ds k)"

lemma lease_table_sorted:
  assumes "lease_table m t w"
  shows "lease_normal_form ds (sort_slice (\<lambda>l r. nd_key l < nd_key r) (map snd m)) \<longleftrightarrow>
    (\<forall>k. t k = touches ds k) \<and> (\<forall>k. w k = owns ds k)"
proof -
  have ok: "entries_ok m" "only_encoded m" and t: "\<And>k. locks m k = t k" "\<And>k. locks_excl m k = w k"
    using assms by (auto simp: lease_table_def)
  let ?n = "sort_slice (\<lambda>l r. nd_key l < nd_key r) (map snd m)"
  have n: "?n = sort_key nd_key (map snd m)" by (rule sort_slice_key) simp
  have dist: "distinct (go_keys m)" using ok(1) by (simp add: entries_ok_def)
  have entry: "map_of m k = Some e \<Longrightarrow> nd_key e = k \<and> nd_access e \<in> {AccessShared, AccessExclusive}" for k e
    using ok(1) by (simp add: entries_ok_def)
  have mem: "e \<in> set ?n \<longleftrightarrow> map_of m (nd_key e) = Some e" for e
  proof
    assume "e \<in> set ?n"
    then obtain k where "(k, e) \<in> set m" by (auto simp: n)
    then have "map_of m k = Some e" using dist by simp
    with entry show "map_of m (nd_key e) = Some e" by blast
  next
    assume "map_of m (nd_key e) = Some e"
    then have "(nd_key e, e) \<in> set m" by (rule map_of_SomeD)
    then show "e \<in> set ?n" by (force simp: n)
  qed
  have "nd_key (snd x) = fst x" if "x \<in> set m" for x
    using map_of_is_SomeI[OF dist, of "fst x" "snd x"] that entry by simp
  then have keys: "map nd_key (map snd m) = go_keys m" by simp
  have "mset (map nd_key ?n) = mset (map nd_key (map snd m))"
    by (simp add: n multiset.map_comp)
  then have "distinct (map nd_key ?n)" using dist keys by (metis mset_eq_imp_distinct_iff)
  moreover have "sorted (map nd_key ?n)" by (simp add: n)
  ultimately have "sorted_wrt (<) (map nd_key ?n)" by (simp add: strict_sorted_iff)
  then have sorted: "sorted_wrt (\<lambda>a b. nd_key a < nd_key b) ?n" by (simp add: sorted_wrt_map)
  have valid: "\<forall>e \<in> set ?n. nd_access e \<in> {AccessShared, AccessExclusive} \<and> nd_key e \<in> range encode"
    using mem entry ok(2) unfolding only_encoded_def by blast
  have "(\<exists>e \<in> set ?n. nd_key e = encode k) \<longleftrightarrow> t k" for k
    using t(1)[of k] entry unfolding locks_def Bex_def mem by (metis not_None_eq)
  moreover have "(\<exists>e \<in> set ?n. nd_key e = encode k \<and> nd_access e = AccessExclusive) \<longleftrightarrow> w k" for k
    using t(2)[of k] entry unfolding locks_excl_def Bex_def mem by metis
  ultimately show ?thesis using sorted valid by (simp add: lease_normal_form_def)
qed

lemma normalize_normal_form:
  assumes "normalize rootKey ds = Inr n"
  shows "list_all (admitted rootKey) ds \<and> lease_normal_form ds n"
proof -
  obtain f where f: "foldM (collect_step rootKey) no_facts ds = Inr f" using assms by (auto simp: normalize_def)
  have facts: "facts_of ds f" and adm: "list_all (admitted rootKey) ds" using collect_facts[OF f] by auto
  let ?ret = "filter (\<lambda>(p, pf). \<not> covered (lf_paths f) p) (lf_paths f)"
  have dist: "distinct (go_keys (lf_paths f))" using facts by (simp add: facts_of_def)
  have ret: "snd (fold (\<lambda>e s. retain_step (lf_paths f) s e) (lf_paths f) ([], [])) = ?ret"
    using retain_loop[of "lf_paths f" "[]" "[]" "lf_paths f"] dist by (simp add: memo_ok_def)
  have routes: "lf_routes f = filter (\<lambda>d. dm_kind d = domainHostRoute) ds" using facts by (simp add: facts_of_def)
  have known: "list_all containment_known (lf_routes f)"
    using adm by (auto simp: routes list_all_iff admitted_def containment_known_def is_path_domain_def)
  have "list_all (\<lambda>(p, pf). pf_access pf \<in> {AccessShared, AccessExclusive}) ?ret"
    using facts_entry(1)[OF facts] by (auto simp: list_all_iff)
  note table = routes_table[OF hosts_table[OF path_entries_table[OF this]] known, of "lf_hosts f"]
  have leased: "(\<exists>p. leases_path ds p \<and> Q p) \<longleftrightarrow> list_ex (\<lambda>d. is_path_domain d \<and> Q (lease_of d)) ds" for Q
    by (auto simp: leases_path_def list_ex_iff)
  have n: "n = sort_slice (\<lambda>l r. nd_key l < nd_key r) (map snd (fold add_route (lf_routes f)
      (fold (\<lambda>(k, target, scope). addHostIntents target scope) (lf_hosts f) (path_entries ?ret))))"
    using assms f ret by (simp add: normalize_def host_entries_def)
  have "((list_ex (\<lambda>(p, pf). \<exists>q. k = KPath q \<and> up_to q (pf_path pf)) ?ret \<or>
        list_ex (\<lambda>(h, tg, sc). k = KTarget tg \<or> k = KScope tg sc) (lf_hosts f)) \<or>
      list_ex (\<lambda>r. k = KTarget (dm_target r) \<or> k = KScope (dm_target r) (dm_scope r) \<or> k = route_key r) (lf_routes f))
    = touches ds k" for k
    using retained_ex[OF facts, of "\<lambda>p b. \<exists>q. k = KPath q \<and> up_to q p"] leased
      facts_hosts[OF facts, of "\<lambda>tg sc. k = KTarget tg \<or> k = KScope tg sc"]
    by (cases k) (auto simp: routes list_ex_iff hosted_def route_key_def split: if_splits)
  moreover have "(list_ex (\<lambda>(p, pf). k = KPath (pf_path pf) \<and> pf_access pf = AccessExclusive) ?ret \<or>
      list_ex (\<lambda>r. k = route_key r) (lf_routes f)) = owns ds k" for k
    using retained_ex[OF facts, of "\<lambda>p b. k = KPath p \<and> b"] owns_leases
    by (cases k) (auto simp: routes list_ex_iff owns_def route_key_def split: if_splits)
  ultimately show ?thesis using lease_table_sorted[OF table, of ds] adm n by simp
qed

section \<open>Conflicting domains share a lock\<close>

definition locks_meet :: "normalizedDomain list \<Rightarrow> normalizedDomain list \<Rightarrow> bool" where
  "locks_meet m n \<longleftrightarrow> list_ex (\<lambda>a. list_ex (\<lambda>b. nd_key a = nd_key b \<and>
     (nd_access a = AccessExclusive \<or> nd_access b = AccessExclusive)) n) m"

text \<open>One domain claims another when its exclusive authority reaches it: an exclusive path its whole
  subtree, a host route what its containment says.\<close>

definition route_claims :: "Domain \<Rightarrow> Domain \<Rightarrow> bool" where
  "route_claims d e \<longleftrightarrow> dm_kind d = domainHostRoute \<and> dm_kind e \<in> {domainPhysicalPath, domainHostRoute} \<and>
     dm_target d = dm_target e \<and>
     (dm_containment d = RouteContainmentUnknown \<or>
      dm_containment d = RouteContainmentScope \<and> dm_scope d = dm_scope e \<or>
      dm_containment d = RouteContainmentCompletePaths \<and> dm_kind e = domainHostRoute \<and>
        dm_containment e = RouteContainmentCompletePaths \<and> dm_scope d = dm_scope e \<and> dm_family d = dm_family e)"

definition claims :: "Domain \<Rightarrow> Domain \<Rightarrow> bool" where
  "claims d e \<longleftrightarrow>
     is_path_domain d \<and> is_path_domain e \<and> dm_access d = AccessExclusive \<and> pathContains (lease_of d) (lease_of e) \<or>
     route_claims d e"

definition conflict :: "Domain list \<Rightarrow> Domain list \<Rightarrow> bool" where
  "conflict ds es \<longleftrightarrow> list_ex (\<lambda>d. list_ex (\<lambda>e. claims d e \<or> claims e d) es) ds"

definition clean_leases :: "Domain list \<Rightarrow> bool" where
  "clean_leases ds \<longleftrightarrow> list_all (\<lambda>d. is_path_domain d \<longrightarrow> clean_abs (lease_of d)) ds"

lemma owns_path_key: "owns ds (KPath p) \<longleftrightarrow> owns_path ds p \<and> \<not> covered_lease ds p"
  by (simp add: owns_def)

lemma top_owner: "owns_path ds p \<Longrightarrow> \<exists>q. up_to q p \<and> owns ds (KPath q)"
proof (induction "up_measure p" arbitrary: p rule: less_induct)
  case less
  show ?case
  proof (cases "covered_lease ds p")
    case True
    then obtain q where q: "q \<in> set (ancestors p)" "owns_path ds q" by (auto simp: covered_lease_def list_ex_iff)
    then obtain r where "up_to r q" "owns ds (KPath r)" using less.hyps[of q] ancestors_measure by blast
    then show ?thesis using up_to_trans[of r q p] q(1) by (auto simp: up_to_def)
  next
    case False
    then show ?thesis using less.prems owns_path_key[of ds p] up_to_refl by blast
  qed
qed

lemma leased_reach:
  assumes "leases_path ds p"
  shows "\<exists>q. up_to q p \<and> (\<forall>r. up_to r q \<longrightarrow> touches ds (KPath r)) \<and> (q = p \<or> owns ds (KPath q))"
proof (cases "covered_lease ds p")
  case True
  then obtain q where q: "q \<in> set (ancestors p)" "owns_path ds q" by (auto simp: covered_lease_def list_ex_iff)
  obtain r where r: "up_to r q" "owns ds (KPath r)" using top_owner[OF q(2)] by blast
  then have "up_to r p" using up_to_trans[of r q p] q(1) by (auto simp: up_to_def)
  moreover have "touches ds (KPath x)" if "up_to x r" for x
    using r(2) that by (auto simp: owns_path_key owns_path_def list_ex_iff)
  ultimately show ?thesis using r(2) by blast
next
  case False
  then have "touches ds (KPath r)" if "up_to r p" for r
    using assms that by (auto simp: leases_path_def list_ex_iff)
  then show ?thesis using up_to_refl by blast
qed

lemma path_claim_meets:
  assumes "owns_path ds p" and "leases_path es q" and "up_to p q"
  shows "\<exists>k. owns ds k \<and> touches es k \<or> touches ds k \<and> owns es k"
proof -
  obtain a where a: "up_to a p" "owns ds (KPath a)" using top_owner[OF assms(1)] by blast
  have aq: "up_to a q" using a(1) assms(3) up_to_trans by blast
  obtain b where b: "up_to b q" "\<forall>r. up_to r b \<longrightarrow> touches es (KPath r)" "b = q \<or> owns es (KPath b)"
    using leased_reach[OF assms(2)] by blast
  show ?thesis
  proof (cases "up_to a b")
    case True
    then show ?thesis using a(2) b(2) by blast
  next
    case False
    then have ba: "up_to b a" "owns es (KPath b)" using up_to_chain[OF aq b(1)] b(3) aq by auto
    have "touches ds (KPath b)" using a(2) ba(1) by (auto simp: owns_path_key owns_path_def list_ex_iff)
    then show ?thesis using ba(2) by blast
  qed
qed

lemma locks_meet_iff:
  assumes "lease_normal_form ds m" "lease_normal_form es n"
  shows "locks_meet m n \<longleftrightarrow> (\<exists>k. owns ds k \<and> touches es k \<or> touches ds k \<and> owns es k)"
proof
  assume "locks_meet m n"
  then obtain a b where ab: "a \<in> set m" "b \<in> set n" "nd_key a = nd_key b"
    "nd_access a = AccessExclusive \<or> nd_access b = AccessExclusive" by (auto simp: locks_meet_def list_ex_iff)
  then obtain k where k: "nd_key a = encode k" "nd_key b = encode k"
    using assms(1) unfolding lease_normal_form_def by (metis imageE)
  have "touches ds k" "touches es k" using assms ab k unfolding lease_normal_form_def by blast+
  moreover have "owns ds k \<or> owns es k" using assms ab k unfolding lease_normal_form_def by blast
  ultimately show "\<exists>k. owns ds k \<and> touches es k \<or> touches ds k \<and> owns es k" by blast
next
  assume "\<exists>k. owns ds k \<and> touches es k \<or> touches ds k \<and> owns es k"
  then obtain k where k: "owns ds k \<and> touches es k \<or> touches ds k \<and> owns es k" by blast
  then have "\<exists>a \<in> set m. \<exists>b \<in> set n. nd_key a = encode k \<and> nd_key b = encode k \<and>
      (nd_access a = AccessExclusive \<or> nd_access b = AccessExclusive)"
    using assms unfolding lease_normal_form_def by metis
  then show "locks_meet m n" unfolding locks_meet_def list_ex_iff by (metis (no_types, lifting))
qed

lemma path_key_claims:
  assumes "owns ds (KPath p)" "touches es (KPath p)" "clean_leases ds" "clean_leases es"
  shows "\<exists>d \<in> set ds. \<exists>e \<in> set es. claims d e"
proof -
  obtain d where d: "d \<in> set ds" "is_path_domain d" "lease_of d = p" "dm_access d = AccessExclusive"
    using assms(1) by (auto simp: owns_path_key owns_path_def list_ex_iff)
  obtain e where e: "e \<in> set es" "is_path_domain e" "up_to p (lease_of e)"
    using assms(2) by (auto simp: list_ex_iff)
  have "clean_abs (lease_of d)" "clean_abs (lease_of e)" using assms(3,4) d e by (auto simp: clean_leases_def list_all_iff)
  then have "claims d e" using d e up_to_abs by (simp add: claims_def)
  then show ?thesis using d e by blast
qed

lemma route_key_claims:
  assumes "owns ds k" "touches es k" "\<forall>p. k \<noteq> KPath p" "list_all (admitted root) ds"
  shows "\<exists>d \<in> set ds. \<exists>e \<in> set es. claims d e"
proof -
  obtain d where d: "d \<in> set ds" "dm_kind d = domainHostRoute" "route_key d = k"
    using assms(1,3) by (cases k) (auto simp: owns_def list_ex_iff)
  then have "containment_known d"
    using assms(4) by (auto simp: list_all_iff admitted_def containment_known_def is_path_domain_def)
  with d(2,3) assms(2,3) have "\<exists>e \<in> set es. claims d e"
    by (cases k) (auto simp: list_ex_iff claims_def route_claims_def route_key_def containment_known_def
        split: if_splits)
  then show ?thesis using d(1) by blast
qed

lemma claim_meets:
  assumes "d \<in> set ds" "e \<in> set es" "claims d e" "clean_leases ds" "clean_leases es"
  shows "\<exists>k. owns ds k \<and> touches es k \<or> touches ds k \<and> owns es k"
proof (cases "route_claims d e")
  case True
  then have "owns ds (route_key d)"
    using assms(1) by (auto simp: route_claims_def owns_def route_key_def list_ex_iff)
  moreover have "touches es (route_key d)"
    using assms(2) True by (auto simp: route_claims_def route_key_def list_ex_iff intro!: bexI[of _ e])
  ultimately show ?thesis by blast
next
  case False
  then have p: "is_path_domain d" "is_path_domain e" "dm_access d = AccessExclusive" "pathContains (lease_of d) (lease_of e)"
    using assms(3) by (auto simp: claims_def)
  then have "up_to (lease_of d) (lease_of e)"
    using assms up_to_abs by (auto simp: clean_leases_def list_all_iff)
  then show ?thesis using path_claim_meets[of ds "lease_of d" es "lease_of e"] p assms(1,2)
    by (auto simp: owns_path_def leases_path_def list_ex_iff)
qed

lemma locks_meet_conflict:
  assumes "normalize r1 ds = Inr m" "normalize r2 es = Inr n" "clean_leases ds" "clean_leases es"
  shows "locks_meet m n \<longleftrightarrow> conflict ds es"
proof -
  have ds: "lease_normal_form ds m" "list_all (admitted r1) ds" and es: "lease_normal_form es n" "list_all (admitted r2) es"
    using normalize_normal_form assms by auto
  have "(\<exists>k. owns ds k \<and> touches es k \<or> touches ds k \<and> owns es k) \<longleftrightarrow> conflict ds es"
  proof
    assume "\<exists>k. owns ds k \<and> touches es k \<or> touches ds k \<and> owns es k"
    then show "conflict ds es"
      using path_key_claims assms(3,4) route_key_claims ds(2) es(2)
      unfolding conflict_def list_ex_iff by metis
  next
    assume "conflict ds es"
    then show "\<exists>k. owns ds k \<and> touches es k \<or> touches ds k \<and> owns es k"
      using claim_meets assms(3,4) unfolding conflict_def list_ex_iff by metis
  qed
  then show ?thesis using locks_meet_iff[OF ds(1) es(1)] by simp
qed

section \<open>Properties\<close>

text \<open>C18: two normalized lock sets exclude each other, sharing a record that one of them takes
  exclusively, exactly when the domains conflict: an exclusive path against anything at or below it, or a
  host route against what its containment reaches. Pruning covered paths and stopping the ancestor walk
  early lose no conflict and invent none.\<close>

theorem leases_exclude_exactly_conflicts:
  assumes "normalize root ds = Inr m" and "normalize root es = Inr n" and "clean_leases ds" and "clean_leases es"
  shows "locks_meet m n \<longleftrightarrow> conflict ds es"
  using assms by (rule locks_meet_conflict)

text \<open>The records of a normalized domain set have strictly increasing keys, so every process acquires
  them in one global order, and no leased path contains the lease store.\<close>

lemma normalized_leases_ordered:
  assumes "normalize root ds = Inr n"
  shows "sorted_wrt (\<lambda>a b. nd_key a < nd_key b) n \<and>
    list_all (\<lambda>d. is_path_domain d \<longrightarrow> \<not> pathContains (canonicalPathKey d) root \<and> \<not> pathContains (lease_of d) root) ds"
  using normalize_normal_form[OF assms] by (auto simp: lease_normal_form_def admitted_def list_all_iff)

lemma normal_form_keys:
  assumes "lease_normal_form ds n"
  shows "distinct (map nd_key n)" "sorted (map nd_key n)"
proof -
  have "sorted_wrt (<) (map nd_key n)" using assms by (simp add: lease_normal_form_def sorted_wrt_map)
  then show "distinct (map nd_key n)" "sorted (map nd_key n)" by (simp_all add: strict_sorted_iff)
qed

lemma normal_form_access:
  assumes "lease_normal_form ds n" "e \<in> set n" "nd_key e = encode k"
  shows "touches ds k \<and> nd_access e = (if owns ds k then AccessExclusive else AccessShared)"
proof -
  have "touches ds k" using assms unfolding lease_normal_form_def by blast
  moreover have "nd_access e = AccessExclusive \<longleftrightarrow> owns ds k"
  proof
    assume "owns ds k"
    then obtain f where f: "f \<in> set n" "nd_key f = encode k" "nd_access f = AccessExclusive"
      using assms(1) unfolding lease_normal_form_def by blast
    then have "f = e" using normal_form_keys(1)[OF assms(1)] assms(2,3) by (auto simp: distinct_map inj_on_def)
    then show "nd_access e = AccessExclusive" using f by simp
  qed (use assms in \<open>unfold lease_normal_form_def, blast\<close>)
  moreover have "nd_access e \<in> {AccessShared, AccessExclusive}"
    using assms unfolding lease_normal_form_def by blast
  ultimately show ?thesis by auto
qed

abbreviation key_access :: "normalizedDomain \<Rightarrow> string \<times> AccessMode" where
  "key_access e \<equiv> (nd_key e, nd_access e)"

lemma normal_form_set:
  assumes "lease_normal_form ds n"
  shows "set (map key_access n) = {(encode k, if owns ds k then AccessExclusive else AccessShared) | k. touches ds k}"
proof (intro set_eqI iffI)
  fix x assume "x \<in> set (map key_access n)"
  then obtain e where e: "e \<in> set n" "x = key_access e" by auto
  then obtain k where "nd_key e = encode k" using assms unfolding lease_normal_form_def by (metis imageE)
  with normal_form_access[OF assms e(1) this] e show "x \<in> {(encode k, if owns ds k then AccessExclusive else AccessShared) | k. touches ds k}"
    by blast
next
  fix x assume "x \<in> {(encode k, if owns ds k then AccessExclusive else AccessShared) | k. touches ds k}"
  then obtain k where k: "touches ds k" "x = (encode k, if owns ds k then AccessExclusive else AccessShared)" by blast
  then obtain e where "e \<in> set n" "nd_key e = encode k" using assms unfolding lease_normal_form_def by blast
  with normal_form_access[OF assms this] k(2) show "x \<in> set (map key_access n)" by force
qed

lemma normal_form_unique:
  assumes "lease_normal_form ds m" "lease_normal_form es n" "set ds = set es"
  shows "map key_access m = map key_access n"
proof -
  have ex: "list_ex P ds = list_ex P es" for P using assms(3) by (simp add: list_ex_iff)
  have paths: "owns_path ds = owns_path es" by (intro ext) (simp only: owns_path_def ex)
  then have cov: "covered_lease ds = covered_lease es" by (intro ext) (simp only: covered_lease_def)
  have same: "touches ds k = touches es k" "owns ds k = owns es k" for k
    using paths cov by (cases k; simp add: owns_def ex)+
  have sets: "set (map key_access m) = set (map key_access n)"
    by (simp only: normal_form_set[OF assms(1)] normal_form_set[OF assms(2)] same)
  have fst: "map fst (map key_access l) = map nd_key l" for l by (simp add: comp_def)
  have "inj_on fst (set (map key_access m))"
    using normal_form_keys(1)[OF assms(1)] fst[of m] by (metis distinct_map)
  then have "inj_on fst (set (map key_access m) \<union> set (map key_access n))" using sets by simp
  then show ?thesis
    by (rule map_sorted_distinct_set_unique)
      (simp_all only: fst normal_form_keys[OF assms(1)] normal_form_keys[OF assms(2)] sets)
qed

text \<open>C19: which records are locked and how does not depend on the order in which the domains are
  listed, hence not on the iteration order of the maps in between.\<close>

theorem normalize_order_independent:
  assumes "normalize root ds = Inr m" and "normalize root es = Inr n" and "set ds = set es"
  shows "map key_access m = map key_access n"
  using normal_form_unique normalize_normal_form[OF assms(1)] normalize_normal_form[OF assms(2)] assms(3) by blast

text \<open>The length-prefixed lock keys are unambiguous: two field lists with the same key are equal.\<close>

lemma encoded_keys_unambiguous:
  "encodedKey fs = encodedKey gs \<longleftrightarrow> fs = gs"
  using encodedKey_inject by blast

definition sample_lease :: "string \<Rightarrow> AccessMode \<Rightarrow> Domain" where
  "sample_lease p a = zero_Domain\<lparr>dm_kind := domainLogicalPath, dm_access := a, canonicalPathKey := p,
     pathWitness := ''exact-v1:'', initialCanonicalPath := p, initialPathWitness := ''exact-v1:'',
     requestedPath := p, dm_effect := PathEffectReferent\<rparr>"

definition sample_writer :: "Domain list" where
  "sample_writer = [sample_lease ''/w/a'' AccessExclusive, sample_lease ''/w/a/b'' AccessShared]"

definition sample_reader :: "Domain list" where
  "sample_reader = [sample_lease ''/w/a/b/c'' AccessShared]"

definition lease_result :: "mutationError + normalizedDomain list \<Rightarrow> normalizedDomain list" where
  "lease_result r = (case r of Inl e \<Rightarrow> [] | Inr n \<Rightarrow> n)"

abbreviation "sample_root \<equiv> ''/var/locks''"

lemma sample_normalizes:
  "normalize sample_root sample_writer = Inr (lease_result (normalize sample_root sample_writer))"
  "normalize sample_root sample_reader = Inr (lease_result (normalize sample_root sample_reader))"
  "normalize sample_root (rev sample_writer) = Inr (lease_result (normalize sample_root (rev sample_writer)))"
  by code_simp+

theorem leases_exclude_exactly_conflicts_witness:
  "locks_meet (lease_result (normalize sample_root sample_writer)) (lease_result (normalize sample_root sample_reader))"
proof -
  have "clean_leases sample_writer" "clean_leases sample_reader" "conflict sample_writer sample_reader" by code_simp+
  with leases_exclude_exactly_conflicts[OF sample_normalizes(1,2)] show ?thesis by blast
qed

lemma normalized_leases_ordered_witness:
  "sorted_wrt (\<lambda>a b. nd_key a < nd_key b) (lease_result (normalize sample_root sample_writer)) \<and>
   length (lease_result (normalize sample_root sample_writer)) = 3"
proof -
  have "length (lease_result (normalize sample_root sample_writer)) = 3" by code_simp
  with normalized_leases_ordered[OF sample_normalizes(1)] show ?thesis by blast
qed

theorem normalize_order_independent_witness:
  "map key_access (lease_result (normalize sample_root sample_writer)) =
   map key_access (lease_result (normalize sample_root (rev sample_writer)))"
  by (rule normalize_order_independent[OF sample_normalizes(1,3)]) simp

lemma memoized_ancestor_search_witness:
  "fst (hasExclusivePathAncestor ''/w/a/b'' [(''/w'', \<lparr>pf_path = ''/w'', pf_witness = ''x'', pf_access = AccessExclusive\<rparr>)] [])"
proof -
  let ?facts = "[(''/w'', \<lparr>pf_path = ''/w'', pf_witness = ''x'', pf_access = AccessExclusive\<rparr>)]"
  have "memo_ok ?facts []" by (simp add: memo_ok_def)
  moreover have "list_ex (excl_at ?facts) (ancestors ''/w/a/b'')" by code_simp
  ultimately show ?thesis using memoized_ancestor_search by blast
qed

end
