(* ===== verification/LeaseRegistry.thy ===== *)
theory LeaseRegistry
  imports MutationModel "HOL-Library.Multiset"
begin

text \<open>
  The process lease registry, \<^verbatim>\<open>internal/effect/mutation/lease_process_registry_unix.go\<close>: the
  threads of one process share one open descriptor per lock record, and the descriptor carries the
  advisory lock that excludes other processes. Each critical section of the registry mutex is one
  function; the threads interleave between them. The operating system is a table of the advisory
  locks held per descriptor, changed by the threads of this process and, for their own descriptors,
  by other processes.
\<close>

section \<open>The registry\<close>

record unixLeaseObjectID =
  device :: "64 word"
  inode :: "64 word"

record unixProcessLeaseKey =
  directory :: unixLeaseObjectID
  record_name :: string

datatype descriptor = Own nat | Foreign nat

text \<open>A state is a heap object: threads keep a pointer to it, and the table maps keys to pointers.
  A channel is a number; \<open>rg_closed\<close> are the channels already closed.\<close>

record unixProcessLeaseState =
  st_changed :: nat
  st_record :: "descriptor option"
  st_recordID :: unixLeaseObjectID
  st_access :: AccessMode
  st_holders :: int
  st_references :: int
  st_acquiring :: bool

record unixProcessLeaseRegistry =
  rg_states :: "unixProcessLeaseKey \<rightharpoonup> nat"
  rg_heap :: "nat \<Rightarrow> unixProcessLeaseState"
  rg_next :: nat
  rg_closed :: "nat list"
  rg_channel :: nat

definition zero_id :: unixLeaseObjectID where
  "zero_id = \<lparr>device = 0, inode = 0\<rparr>"

definition new_state :: "nat \<Rightarrow> unixProcessLeaseState" where
  "new_state ch = \<lparr>st_changed = ch, st_record = None, st_recordID = zero_id, st_access = 0,
     st_holders = 0, st_references = 0, st_acquiring = False\<rparr>"

definition on_state ::
  "nat \<Rightarrow> (unixProcessLeaseState \<Rightarrow> unixProcessLeaseState) \<Rightarrow> unixProcessLeaseRegistry \<Rightarrow> unixProcessLeaseRegistry" where
  "on_state p f r = r\<lparr>rg_heap := (rg_heap r)(p := f (rg_heap r p))\<rparr>"

definition signalLocked :: "nat \<Rightarrow> unixProcessLeaseRegistry \<Rightarrow> unixProcessLeaseRegistry" where
  "signalLocked p r =
     (on_state p (\<lambda>s. s\<lparr>st_changed := rg_channel r\<rparr>) r)
       \<lparr>rg_closed := st_changed (rg_heap r p) # rg_closed r, rg_channel := rg_channel r + 1\<rparr>"

definition abandonLocked :: "unixProcessLeaseKey \<Rightarrow> nat \<Rightarrow> unixProcessLeaseRegistry \<Rightarrow> unixProcessLeaseRegistry" where
  "abandonLocked key p r =
     (let r = on_state p (\<lambda>s. s\<lparr>st_references := st_references s - 1\<rparr>) r; s = rg_heap r p in
      if st_references s = 0 \<and> st_holders s = 0 \<and> \<not> st_acquiring s
      then r\<lparr>rg_states := (rg_states r)(key := None)\<rparr> else r)"

text \<open>The part of \<open>acquire\<close> before its loop.\<close>

definition enter :: "unixProcessLeaseKey \<Rightarrow> unixProcessLeaseRegistry \<Rightarrow> nat \<times> unixProcessLeaseRegistry" where
  "enter key r =
     (let (p, r) = (case rg_states r key of
          Some p \<Rightarrow> (p, r)
        | None \<Rightarrow> (rg_next r, r\<lparr>rg_states := (rg_states r)(key \<mapsto> rg_next r),
            rg_heap := (rg_heap r)(rg_next r := new_state (rg_channel r)),
            rg_next := rg_next r + 1, rg_channel := rg_channel r + 1\<rparr>)) in
      (p, on_state p (\<lambda>s. s\<lparr>st_references := st_references s + 1\<rparr>) r))"

datatype registryError = Cancelled | RecordChanged | CloseFailed | FlockFailed | NotActive

datatype attempt = AttemptFailed registryError | AttemptFlock | AttemptJoined | AttemptWait nat

text \<open>One iteration of the loop up to the point where the mutex is dropped: \<open>cancelled\<close> is what
  \<open>ctx.Err\<close> says and \<open>closes\<close> whether closing the redundant descriptor succeeds.\<close>

definition acquire_iteration ::
  "unixProcessLeaseKey \<Rightarrow> nat \<Rightarrow> unixLeaseObjectID \<Rightarrow> AccessMode \<Rightarrow> bool \<Rightarrow> bool \<Rightarrow> unixProcessLeaseRegistry \<Rightarrow>
    attempt \<times> unixProcessLeaseRegistry" where
  "acquire_iteration key p recordID access cancelled closes r =
     (let s = rg_heap r p in
      if cancelled then (AttemptFailed Cancelled, abandonLocked key p r)
      else if \<not> st_acquiring s \<and> st_holders s = 0
      then (AttemptFlock, on_state p (\<lambda>s. s\<lparr>st_acquiring := True\<rparr>) r)
      else if \<not> st_acquiring s \<and> st_access s = AccessShared \<and> access = AccessShared
      then if st_recordID s \<noteq> recordID then (AttemptFailed RecordChanged, abandonLocked key p r)
        else if \<not> closes then (AttemptFailed CloseFailed, abandonLocked key p r)
        else (AttemptJoined, on_state p (\<lambda>s. s\<lparr>st_holders := st_holders s + 1\<rparr>) r)
      else (AttemptWait (st_changed s), r))"

text \<open>The critical section after the advisory lock call returned.\<close>

definition acquire_flocked ::
  "unixProcessLeaseKey \<Rightarrow> nat \<Rightarrow> unixLeaseObjectID \<Rightarrow> descriptor \<Rightarrow> AccessMode \<Rightarrow> bool \<Rightarrow> unixProcessLeaseRegistry \<Rightarrow>
    unixProcessLeaseRegistry" where
  "acquire_flocked key p recordID fd access locked r =
     (let r = on_state p (\<lambda>s. s\<lparr>st_acquiring := False\<rparr>) r in
      if \<not> locked then abandonLocked key p (signalLocked p r)
      else signalLocked p (on_state p (\<lambda>s. s\<lparr>st_record := Some fd, st_recordID := recordID,
             st_access := access, st_holders := 1\<rparr>) r))"

text \<open>\<open>release\<close> returns the descriptor it unlocks and closes, when there is one.\<close>

definition release ::
  "unixProcessLeaseKey \<Rightarrow> nat \<Rightarrow> unixProcessLeaseRegistry \<Rightarrow>
    (registryError + descriptor option) \<times> unixProcessLeaseRegistry" where
  "release key p r =
     (let s = rg_heap r p in
      if rg_states r key \<noteq> Some p \<or> st_holders s \<le> 0 \<or> st_references s \<le> 0 then (Inl NotActive, r)
      else
        let r = on_state p (\<lambda>s. s\<lparr>st_holders := st_holders s - 1, st_references := st_references s - 1\<rparr>) r in
        if st_holders (rg_heap r p) > 0 then (Inr None, r)
        else
          let fd = st_record (rg_heap r p);
              r = signalLocked p (on_state p (\<lambda>s. s\<lparr>st_record := None, st_recordID := zero_id, st_access := 0\<rparr>) r);
              s = rg_heap r p in
          (Inr fd, if st_references s = 0 \<and> \<not> st_acquiring s
                   then r\<lparr>rg_states := (rg_states r)(key := None)\<rparr> else r))"

section \<open>Threads\<close>

text \<open>A thread that has entered the registry is \<open>Ready\<close> for the next iteration of the loop. Entering
  and the first iteration are one critical section of the code and two steps here, which only adds
  interleavings.\<close>

record request =
  rq_key :: unixProcessLeaseKey
  rq_pointer :: nat
  rq_id :: unixLeaseObjectID
  rq_fd :: descriptor
  rq_access :: AccessMode

datatype thread =
    Idle
  | Ready request
  | Flocking request
  | Waiting request nat
  | Holding request

type_synonym flocks = "descriptor \<rightharpoonup> unixLeaseObjectID \<times> AccessMode"

record system =
  sy_registry :: unixProcessLeaseRegistry
  sy_threads :: "thread list"
  sy_flocks :: flocks

text \<open>The kernel grants an advisory lock when every other descriptor on the same file agrees.\<close>

definition compatible :: "AccessMode \<Rightarrow> AccessMode \<Rightarrow> bool" where
  "compatible a b \<longleftrightarrow> a = AccessShared \<and> b = AccessShared"

definition grantable :: "flocks \<Rightarrow> descriptor \<Rightarrow> unixLeaseObjectID \<Rightarrow> AccessMode \<Rightarrow> bool" where
  "grantable os fd i a \<longleftrightarrow> (\<forall>fd' b. os fd' = Some (i, b) \<longrightarrow> fd' = fd \<or> compatible a b)"

definition after_attempt :: "request \<Rightarrow> attempt \<Rightarrow> thread" where
  "after_attempt q a = (case a of
      AttemptFailed e \<Rightarrow> Idle | AttemptFlock \<Rightarrow> Flocking q | AttemptJoined \<Rightarrow> Holding q | AttemptWait ch \<Rightarrow> Waiting q ch)"

definition attempt_step :: "nat \<Rightarrow> request \<Rightarrow> bool \<Rightarrow> bool \<Rightarrow> system \<Rightarrow> system" where
  "attempt_step t q cancelled closes s =
     (let (a, r) = acquire_iteration (rq_key q) (rq_pointer q) (rq_id q) (rq_access q) cancelled closes (sy_registry s) in
      s\<lparr>sy_registry := r, sy_threads := (sy_threads s)[t := after_attempt q a]\<rparr>)"

text \<open>The descriptors the threads of this process have open, and those the states keep.\<close>

fun thread_request :: "thread \<Rightarrow> request option" where
  "thread_request Idle = None"
| "thread_request (Ready q) = Some q"
| "thread_request (Flocking q) = Some q"
| "thread_request (Waiting q ch) = Some q"
| "thread_request (Holding q) = Some q"

definition fd_unused :: "descriptor \<Rightarrow> system \<Rightarrow> bool" where
  "fd_unused fd s \<longleftrightarrow> sy_flocks s fd = None \<and>
     (\<forall>th \<in> set (sy_threads s). \<forall>q. thread_request th = Some q \<longrightarrow> rq_fd q \<noteq> fd) \<and>
     (\<forall>k p. rg_states (sy_registry s) k = Some p \<longrightarrow> st_record (rg_heap (sy_registry s) p) \<noteq> Some fd)"

inductive registry_step :: "system \<Rightarrow> system \<Rightarrow> bool" where
  acquire: "t < length (sy_threads s) \<Longrightarrow> sy_threads s ! t = Idle \<Longrightarrow> a \<in> {AccessShared, AccessExclusive} \<Longrightarrow>
    fd_unused (Own n) s \<Longrightarrow> enter key (sy_registry s) = (p, r) \<Longrightarrow>
    q = \<lparr>rq_key = key, rq_pointer = p, rq_id = i, rq_fd = Own n, rq_access = a\<rparr> \<Longrightarrow>
    registry_step s (s\<lparr>sy_registry := r, sy_threads := (sy_threads s)[t := Ready q]\<rparr>)"
| wake: "t < length (sy_threads s) \<Longrightarrow> sy_threads s ! t = Waiting q ch \<Longrightarrow>
    ch \<in> set (rg_closed (sy_registry s)) \<or> cancelled \<Longrightarrow>
    registry_step s (s\<lparr>sy_threads := (sy_threads s)[t := Ready q]\<rparr>)"
| iterate: "t < length (sy_threads s) \<Longrightarrow> sy_threads s ! t = Ready q \<Longrightarrow>
    registry_step s (attempt_step t q cancelled closes s)"
| locked: "t < length (sy_threads s) \<Longrightarrow> sy_threads s ! t = Flocking q \<Longrightarrow>
    grantable (sy_flocks s) (rq_fd q) (rq_id q) (rq_access q) \<Longrightarrow>
    registry_step s \<lparr>sy_registry = acquire_flocked (rq_key q) (rq_pointer q) (rq_id q) (rq_fd q) (rq_access q) True (sy_registry s),
      sy_threads = (sy_threads s)[t := Holding q], sy_flocks = (sy_flocks s)(rq_fd q \<mapsto> (rq_id q, rq_access q))\<rparr>"
| refused: "t < length (sy_threads s) \<Longrightarrow> sy_threads s ! t = Flocking q \<Longrightarrow>
    registry_step s \<lparr>sy_registry = acquire_flocked (rq_key q) (rq_pointer q) (rq_id q) (rq_fd q) (rq_access q) False (sy_registry s),
      sy_threads = (sy_threads s)[t := Idle], sy_flocks = sy_flocks s\<rparr>"
| unlock: "t < length (sy_threads s) \<Longrightarrow> sy_threads s ! t = Holding q \<Longrightarrow>
    release (rq_key q) (rq_pointer q) (sy_registry s) = (result, r) \<Longrightarrow>
    registry_step s \<lparr>sy_registry = r, sy_threads = (sy_threads s)[t := Idle],
      sy_flocks = (case result of Inr (Some fd) \<Rightarrow> if ok then (sy_flocks s)(fd := None) else sy_flocks s
        | _ \<Rightarrow> sy_flocks s)\<rparr>"
| foreign_lock: "grantable (sy_flocks s) (Foreign n) i a \<Longrightarrow> a \<in> {AccessShared, AccessExclusive} \<Longrightarrow>
    registry_step s (s\<lparr>sy_flocks := (sy_flocks s)(Foreign n \<mapsto> (i, a))\<rparr>)"
| foreign_unlock: "registry_step s (s\<lparr>sy_flocks := (sy_flocks s)(Foreign n := None)\<rparr>)"

definition empty_registry :: unixProcessLeaseRegistry where
  "empty_registry = \<lparr>rg_states = Map.empty, rg_heap = (\<lambda>_. new_state 0), rg_next = 0, rg_closed = [], rg_channel = 0\<rparr>"

definition initial :: "nat \<Rightarrow> flocks \<Rightarrow> system" where
  "initial n os = \<lparr>sy_registry = empty_registry, sy_threads = replicate n Idle, sy_flocks = os\<rparr>"

section \<open>The invariant\<close>

fun at_key :: "unixProcessLeaseKey \<Rightarrow> thread \<Rightarrow> bool" where
  "at_key k th = (case thread_request th of None \<Rightarrow> False | Some q \<Rightarrow> rq_key q = k)"

declare at_key.simps [simp del]

lemma at_key_simps [simp]:
  "\<not> at_key k Idle" "at_key k (Ready q) \<longleftrightarrow> rq_key q = k" "at_key k (Flocking q) \<longleftrightarrow> rq_key q = k"
  "at_key k (Waiting q ch) \<longleftrightarrow> rq_key q = k" "at_key k (Holding q) \<longleftrightarrow> rq_key q = k"
  by (simp_all add: at_key.simps)

lemma at_key_iff: "at_key k th \<longleftrightarrow> (\<exists>q. thread_request th = Some q \<and> rq_key q = k)"
  by (simp add: at_key.simps split: option.split)

fun is_holding :: "thread \<Rightarrow> bool" where
  "is_holding (Holding q) = True"
| "is_holding _ = False"

fun is_flocking :: "thread \<Rightarrow> bool" where
  "is_flocking (Flocking q) = True"
| "is_flocking _ = False"

text \<open>The descriptor a thread has opened and not yet handed over or closed.\<close>

fun pending_fd :: "thread \<Rightarrow> descriptor option" where
  "pending_fd (Ready q) = Some (rq_fd q)"
| "pending_fd (Flocking q) = Some (rq_fd q)"
| "pending_fd (Waiting q ch) = Some (rq_fd q)"
| "pending_fd _ = None"

definition number :: "(thread \<Rightarrow> bool) \<Rightarrow> thread multiset \<Rightarrow> nat" where
  "number P M = size (filter_mset P M)"

lemma number_simps [simp]:
  "number P {#} = 0" "number P (add_mset th M) = (if P th then 1 else 0) + number P M"
  by (simp_all add: number_def)

lemma number_member: "th \<in># M \<Longrightarrow> P th \<Longrightarrow> number P M > 0"
  by (auto dest!: multi_member_split)

lemma number_zero: "number P M = 0 \<Longrightarrow> th \<in># M \<Longrightarrow> \<not> P th"
  using number_member by force

lemma number_pos: "number P M > 0 \<Longrightarrow> \<exists>th. th \<in># M \<and> P th"
  by (induction M) (auto split: if_splits)

lemma number_mset: "number P (filter_mset Q (mset ts)) = length (filter (\<lambda>th. Q th \<and> P th) ts)"
  by (induction ts) auto

definition blocked :: "unixProcessLeaseState \<Rightarrow> AccessMode \<Rightarrow> bool" where
  "blocked st a \<longleftrightarrow> st_acquiring st \<or> st_holders st > 0 \<and> \<not> (st_access st = AccessShared \<and> a = AccessShared)"

text \<open>A state and the threads at its key: its counters are exact, while held its descriptor carries
  the advisory lock for every holder, and a thread waiting on the open channel is really blocked.\<close>

definition counts_ok :: "unixProcessLeaseState \<Rightarrow> thread multiset \<Rightarrow> bool" where
  "counts_ok st M \<longleftrightarrow> M \<noteq> {#} \<and> st_references st = int (size M) \<and>
     st_holders st = int (number is_holding M) \<and>
     number is_flocking M = (if st_acquiring st then 1 else 0) \<and>
     (st_acquiring st \<longrightarrow> st_holders st = 0)"

definition lock_ok :: "unixProcessLeaseState \<Rightarrow> thread multiset \<Rightarrow> flocks \<Rightarrow> bool" where
  "lock_ok st M os \<longleftrightarrow>
     (if st_holders st = 0 then st_record st = None
      else \<exists>n. st_record st = Some (Own n) \<and> os (Own n) = Some (st_recordID st, st_access st)) \<and>
     (st_holders st > 1 \<longrightarrow> st_access st = AccessShared) \<and>
     (\<forall>q. Holding q \<in># M \<longrightarrow> rq_id q = st_recordID st \<and> rq_access q = st_access st)"

definition waits_ok :: "unixProcessLeaseState \<Rightarrow> thread multiset \<Rightarrow> nat set \<Rightarrow> bool" where
  "waits_ok st M closed \<longleftrightarrow> st_changed st \<notin> closed \<and>
     (\<forall>q ch. Waiting q ch \<in># M \<longrightarrow> ch \<in> closed \<or> ch = st_changed st \<and> blocked st (rq_access q))"

definition state_ok :: "unixProcessLeaseState \<Rightarrow> thread multiset \<Rightarrow> nat set \<Rightarrow> flocks \<Rightarrow> bool" where
  "state_ok st M closed os \<longleftrightarrow> counts_ok st M \<and> lock_ok st M os \<and> waits_ok st M closed"

definition flocks_ok :: "flocks \<Rightarrow> bool" where
  "flocks_ok os \<longleftrightarrow> (\<forall>fd fd' i a b. os fd = Some (i, a) \<longrightarrow> os fd' = Some (i, b) \<longrightarrow> fd = fd' \<or> compatible a b)"

definition pointers_ok :: "unixProcessLeaseRegistry \<Rightarrow> bool" where
  "pointers_ok r \<longleftrightarrow>
     (\<forall>k p. rg_states r k = Some p \<longrightarrow> p < rg_next r \<and> st_changed (rg_heap r p) < rg_channel r) \<and>
     (\<forall>k k' p p'. rg_states r k = Some p \<longrightarrow> rg_states r k' = Some p' \<longrightarrow> k \<noteq> k' \<longrightarrow>
        p \<noteq> p' \<and> st_changed (rg_heap r p) \<noteq> st_changed (rg_heap r p') \<and>
        (st_record (rg_heap r p) = None \<or> st_record (rg_heap r p) \<noteq> st_record (rg_heap r p'))) \<and>
     (\<forall>c \<in> set (rg_closed r). c < rg_channel r)"

definition requests_ok :: "unixProcessLeaseRegistry \<Rightarrow> thread multiset \<Rightarrow> bool" where
  "requests_ok r T \<longleftrightarrow> (\<forall>th q. th \<in># T \<longrightarrow> thread_request th = Some q \<longrightarrow>
     rg_states r (rq_key q) = Some (rq_pointer q) \<and> rq_access q \<in> {AccessShared, AccessExclusive} \<and> (\<exists>n. rq_fd q = Own n))"

definition pending_ok :: "thread multiset \<Rightarrow> flocks \<Rightarrow> bool" where
  "pending_ok T os \<longleftrightarrow> (\<forall>fd. number (\<lambda>th. pending_fd th = Some fd) T \<le> 1 \<and>
     ((\<exists>th. th \<in># T \<and> pending_fd th = Some fd) \<longrightarrow> os fd = None))"

definition registry_ok :: "unixProcessLeaseRegistry \<Rightarrow> thread multiset \<Rightarrow> flocks \<Rightarrow> bool" where
  "registry_ok r T os \<longleftrightarrow> pointers_ok r \<and> requests_ok r T \<and> pending_ok T os \<and> flocks_ok os \<and>
     (\<forall>k p. rg_states r k = Some p \<longrightarrow> state_ok (rg_heap r p) (filter_mset (at_key k) T) (set (rg_closed r)) os)"

definition system_ok :: "system \<Rightarrow> bool" where
  "system_ok s \<longleftrightarrow> registry_ok (sy_registry s) (mset (sy_threads s)) (sy_flocks s)"

lemma state_ok_frame:
  assumes "state_ok st M C os" and "C \<subseteq> C'" and "st_changed st \<notin> C'"
    and "\<forall>fd. st_record st = Some fd \<longrightarrow> os' fd = os fd"
  shows "state_ok st M C' os'"
proof -
  from assms(1) have "lock_ok st M os'" using assms(4) by (fastforce simp: state_ok_def lock_ok_def split: if_splits)
  moreover from assms(1) have "waits_ok st M C'" using assms(2,3) by (auto simp: state_ok_def waits_ok_def)
  ultimately show ?thesis using assms(1) by (simp add: state_ok_def)
qed

lemma waits_ok_keep:
  assumes "waits_ok st M C" and "st_changed st' = st_changed st" and "\<And>a. blocked st a \<Longrightarrow> blocked st' a"
    and "\<And>q ch. Waiting q ch \<in># M' \<Longrightarrow> Waiting q ch \<in># M \<or> ch = st_changed st \<and> blocked st' (rq_access q)"
  shows "waits_ok st' M' C"
  using assms unfolding waits_ok_def by metis

lemma waits_ok_signal:
  assumes "waits_ok st M C" and "st_changed st' \<notin> C" and "st_changed st' \<noteq> st_changed st"
    and "\<And>q ch. Waiting q ch \<in># M' \<Longrightarrow> Waiting q ch \<in># M"
  shows "waits_ok st' M' (insert (st_changed st) C)"
  using assms unfolding waits_ok_def by blast

lemma threads_split:
  assumes "t < length ts" and "ts ! t = old"
  obtains R where "mset ts = add_mset old R" "\<And>new. mset (ts[t := new]) = add_mset new R"
proof
  show "mset ts = add_mset old (mset ts - {#old#})" using assms by (auto simp: nth_mem_mset)
  show "mset (ts[t := new]) = add_mset new (mset ts - {#old#})" for new
    using assms by (simp add: mset_update)
qed

text \<open>What a step at one key has to show: the other keys see only a longer list of closed channels
  and locks they do not own.\<close>

lemma registry_ok_step:
  assumes ok: "registry_ok r (add_mset old R) os" and k: "rg_states r k = Some p"
    and old: "\<And>k'. at_key k' old \<Longrightarrow> k' = k" and new: "\<And>q. thread_request new = Some q \<Longrightarrow>
      rq_key q = k \<and> rq_pointer q = p \<and> rq_access q \<in> {AccessShared, AccessExclusive} \<and> (\<exists>n. rq_fd q = Own n)"
    and states: "\<And>k'. k' \<noteq> k \<Longrightarrow> rg_states r' k' = rg_states r k'"
    and M: "filter_mset (at_key k) (add_mset new R) = M"
    and here: "rg_states r' k = (if M = {#} then None else Some p)"
    and heap: "\<And>p'. p' \<noteq> p \<Longrightarrow> rg_heap r' p' = rg_heap r p'"
    and nxt: "rg_next r' = rg_next r"
    and chan: "st_changed (rg_heap r' p) = st_changed (rg_heap r p) \<and> rg_closed r' = rg_closed r \<and> rg_channel r' = rg_channel r \<or>
      st_changed (rg_heap r' p) = rg_channel r \<and> rg_closed r' = st_changed (rg_heap r p) # rg_closed r \<and>
      rg_channel r' = rg_channel r + 1"
    and rcd: "st_record (rg_heap r' p) = None \<or> st_record (rg_heap r' p) = st_record (rg_heap r p) \<or>
      (\<exists>fd. st_record (rg_heap r' p) = Some fd \<and> os fd = None)"
    and pend: "pending_ok (add_mset new R) os'" and fl: "flocks_ok os'"
    and osother: "\<And>fd. fd \<in> {fd. os' fd \<noteq> os fd} \<Longrightarrow> os fd = None \<or> st_record (rg_heap r p) = Some fd \<or> (\<exists>n. fd = Foreign n)"
    and st: "M \<noteq> {#} \<Longrightarrow> state_ok (rg_heap r' p) M (set (rg_closed r')) os'"
  shows "registry_ok r' (add_mset new R) os'"
proof -
  let ?T = "add_mset new R"
  have ptr: "pointers_ok r" and rq: "requests_ok r (add_mset old R)"
    and loc: "\<And>k p. rg_states r k = Some p \<Longrightarrow>
      state_ok (rg_heap r p) (filter_mset (at_key k) (add_mset old R)) (set (rg_closed r)) os"
    using ok by (auto simp: registry_ok_def)
  have other: "p' \<noteq> p \<and> rg_heap r' p' = rg_heap r p' \<and> rg_states r k' = Some p' \<and>
      st_changed (rg_heap r p') \<noteq> st_changed (rg_heap r p) \<and> st_changed (rg_heap r p') < rg_channel r"
    if "k' \<noteq> k" "rg_states r' k' = Some p'" for k' p'
    using that ptr k states[OF that(1)] heap unfolding pointers_ok_def by metis
  have rec_own: "os fd \<noteq> None \<and> (\<exists>n. fd = Own n)"
    if "rg_states r k' = Some p'" "st_record (rg_heap r p') = Some fd" for k' p' fd
    using loc[OF that(1)] that(2) by (auto simp: state_ok_def lock_ok_def split: if_splits)
  have rec_ne: "st_record (rg_heap r p') = None \<or> st_record (rg_heap r p') \<noteq> st_record (rg_heap r' p)"
    "st_record (rg_heap r p') = None \<or> st_record (rg_heap r p') \<noteq> st_record (rg_heap r p)"
    if "k' \<noteq> k" "rg_states r' k' = Some p'" for k' p'
  proof -
    from other[OF that] have s: "rg_states r k' = Some p'" by simp
    show "st_record (rg_heap r p') = None \<or> st_record (rg_heap r p') \<noteq> st_record (rg_heap r p)"
      using ptr s k that(1) unfolding pointers_ok_def by metis
    with rcd rec_own[OF s] show "st_record (rg_heap r p') = None \<or> st_record (rg_heap r p') \<noteq> st_record (rg_heap r' p)"
      by fastforce
  qed
  have kp: "p < rg_next r" "st_changed (rg_heap r p) < rg_channel r" "\<forall>c \<in> set (rg_closed r). c < rg_channel r"
    using ptr k by (auto simp: pointers_ok_def)
  have at_k: "rg_states r' k = Some p' \<Longrightarrow> p' = p" for p' using here by (simp split: if_splits)
  have chan': "rg_channel r \<le> rg_channel r'" "st_changed (rg_heap r' p) < rg_channel r'"
    "\<forall>c \<in> set (rg_closed r'). c < rg_channel r'"
    "st_changed (rg_heap r' p) = st_changed (rg_heap r p) \<or> st_changed (rg_heap r' p) \<ge> rg_channel r"
    using chan kp by (auto simp: less_Suc_eq)
  have apart: "p1 \<noteq> p2 \<and> st_changed (rg_heap r' p1) \<noteq> st_changed (rg_heap r' p2) \<and>
      (st_record (rg_heap r' p1) = None \<or> st_record (rg_heap r' p1) \<noteq> st_record (rg_heap r' p2))"
    if h: "rg_states r' k1 = Some p1" "rg_states r' k2 = Some p2" "k1 \<noteq> k2" for k1 k2 p1 p2
  proof -
    consider "k1 = k" "k2 \<noteq> k" | "k1 \<noteq> k" "k2 = k" | "k1 \<noteq> k" "k2 \<noteq> k" using h(3) by auto
    then show ?thesis
    proof cases
      case 1
      with h at_k have "p1 = p" by simp
      with other[OF 1(2) h(2)] rec_ne(1)[OF 1(2) h(2)] chan'(4) show ?thesis by (auto simp: not_less)
    next
      case 2
      with h at_k have "p2 = p" by simp
      with other[OF 2(1) h(1)] rec_ne(1)[OF 2(1) h(1)] chan'(4) show ?thesis by (auto simp: not_less)
    next
      case 3
      with other[OF 3(1) h(1)] other[OF 3(2) h(2)] ptr h(3) show ?thesis unfolding pointers_ok_def by metis
    qed
  qed
  have bound: "p' < rg_next r' \<and> st_changed (rg_heap r' p') < rg_channel r'" if "rg_states r' k' = Some p'" for k' p'
  proof (cases "k' = k")
    case True
    with that at_k kp(1) nxt chan'(2) show ?thesis by auto
  next
    case False
    from other[OF this that] ptr nxt chan'(1) show ?thesis by (auto simp: pointers_ok_def)
  qed
  have "pointers_ok r'" unfolding pointers_ok_def using apart bound chan'(3) by blast
  moreover have "requests_ok r' ?T" unfolding requests_ok_def
  proof (intro allI impI)
    fix th q assume th: "th \<in># ?T" "thread_request th = Some q"
    show "rg_states r' (rq_key q) = Some (rq_pointer q) \<and> rq_access q \<in> {AccessShared, AccessExclusive} \<and> (\<exists>n. rq_fd q = Own n)"
    proof (cases "rq_key q = k")
      case True
      then have "th \<in># M" using th M by (auto simp: at_key_iff)
      then have "rg_states r' k = Some p" using here by auto
      moreover have "rq_pointer q = p \<and> rq_access q \<in> {AccessShared, AccessExclusive} \<and> (\<exists>n. rq_fd q = Own n)"
        using th new rq True k by (auto simp: requests_ok_def)
      ultimately show ?thesis using True by simp
    next
      case False
      then have "th \<noteq> new" using th new by auto
      with th have "th \<in># R" by simp
      with rq th have "rg_states r (rq_key q) = Some (rq_pointer q) \<and> rq_access q \<in> {AccessShared, AccessExclusive} \<and> (\<exists>n. rq_fd q = Own n)"
        by (simp add: requests_ok_def)
      with states[OF False] show ?thesis by simp
    qed
  qed
  moreover have "state_ok (rg_heap r' p') (filter_mset (at_key k') ?T) (set (rg_closed r')) os'"
    if s: "rg_states r' k' = Some p'" for k' p'
  proof (cases "k' = k")
    case True
    with s here st show ?thesis unfolding True M by (auto split: if_splits)
  next
    case False
    have "\<not> at_key k' new" using new False by (auto simp: at_key_iff)
    moreover have "\<not> at_key k' old" using old False by blast
    ultimately have M: "filter_mset (at_key k') ?T = filter_mset (at_key k') (add_mset old R)" by simp
    from other[OF False s] have o: "rg_heap r' p' = rg_heap r p'" "rg_states r k' = Some p'"
      "st_changed (rg_heap r p') \<noteq> st_changed (rg_heap r p)" "st_changed (rg_heap r p') < rg_channel r" by auto
    from loc[OF o(2)] have "st_changed (rg_heap r p') \<notin> set (rg_closed r)" by (simp add: state_ok_def waits_ok_def)
    then have "st_changed (rg_heap r p') \<notin> set (rg_closed r')" using chan o(3) by auto
    moreover have "set (rg_closed r) \<subseteq> set (rg_closed r')" using chan by auto
    moreover have "os' fd = os fd" if "st_record (rg_heap r p') = Some fd" for fd
      using osother[of fd] rec_own[OF o(2) that] rec_ne(2)[OF False s] that by auto
    ultimately show ?thesis unfolding o(1) M using state_ok_frame[OF loc[OF o(2)]] by blast
  qed
  ultimately show ?thesis using pend fl by (auto simp: registry_ok_def)
qed

section \<open>Every step keeps it\<close>

lemma pending_ok_new:
  assumes "pending_ok (add_mset old R) os" and "pending_fd new = None \<or> pending_fd new = pending_fd old"
    and "\<And>fd. os' fd \<noteq> None \<Longrightarrow> os fd \<noteq> None \<or> pending_fd old = Some fd \<and> pending_fd new = None"
  shows "pending_ok (add_mset new R) os'"
  unfolding pending_ok_def
proof (intro allI conjI impI)
  fix fd
  let ?n = "number (\<lambda>th. pending_fd th = Some fd)"
  have le: "?n (add_mset old R) \<le> 1" using assms(1) by (simp add: pending_ok_def)
  have "?n (add_mset new R) \<le> ?n (add_mset old R)" using assms(2) by auto
  with le show "?n (add_mset new R) \<le> 1" by simp
  assume "\<exists>th. th \<in># add_mset new R \<and> pending_fd th = Some fd"
  then obtain th where th: "th \<in># add_mset new R" "pending_fd th = Some fd" by blast
  have "pending_fd old \<noteq> Some fd \<or> pending_fd new = Some fd"
  proof (rule ccontr)
    assume *: "\<not> ?thesis"
    with th have "th \<in># R" by auto
    with th(2) have "?n R > 0" by (simp add: number_member)
    with * le show False by simp
  qed
  moreover have "\<exists>th. th \<in># add_mset old R \<and> pending_fd th = Some fd" using th assms(2) by auto
  then have "os fd = None" using assms(1) by (simp add: pending_ok_def)
  ultimately show "os' fd = None" using assms(3)[of fd] by (cases "os' fd") auto
qed

lemma on_state_simps [simp]:
  "rg_states (on_state p f r) = rg_states r" "rg_next (on_state p f r) = rg_next r"
  "rg_closed (on_state p f r) = rg_closed r" "rg_channel (on_state p f r) = rg_channel r"
  "rg_heap (on_state p f r) = (rg_heap r)(p := f (rg_heap r p))"
  by (simp_all add: on_state_def)

lemma signalLocked_simps [simp]:
  "rg_states (signalLocked p r) = rg_states r" "rg_next (signalLocked p r) = rg_next r"
  "rg_closed (signalLocked p r) = st_changed (rg_heap r p) # rg_closed r"
  "rg_channel (signalLocked p r) = rg_channel r + 1"
  "rg_heap (signalLocked p r) = (rg_heap r)(p := rg_heap r p\<lparr>st_changed := rg_channel r\<rparr>)"
  by (simp_all add: signalLocked_def)

lemma abandonLocked_simps [simp]:
  "rg_next (abandonLocked k p r) = rg_next r" "rg_closed (abandonLocked k p r) = rg_closed r"
  "rg_channel (abandonLocked k p r) = rg_channel r"
  "rg_heap (abandonLocked k p r) = (rg_heap r)(p := rg_heap r p\<lparr>st_references := st_references (rg_heap r p) - 1\<rparr>)"
  "rg_states (abandonLocked k p r) =
     (if st_references (rg_heap r p) = 1 \<and> st_holders (rg_heap r p) = 0 \<and> \<not> st_acquiring (rg_heap r p)
      then (rg_states r)(k := None) else rg_states r)"
  by (simp_all add: abandonLocked_def Let_def)

text \<open>Leaving a state for good.\<close>

lemma registry_ok_facts:
  assumes "registry_ok r (add_mset th R) os" and "thread_request th = Some q" and "filter_mset (at_key (rq_key q)) R = M"
  shows "rg_states r (rq_key q) = Some (rq_pointer q)" "rq_access q \<in> {AccessShared, AccessExclusive}"
    "\<exists>n. rq_fd q = Own n" "pending_ok (add_mset th R) os" "flocks_ok os"
    "state_ok (rg_heap r (rq_pointer q)) (add_mset th M) (set (rg_closed r)) os"
    "st_changed (rg_heap r (rq_pointer q)) < rg_channel r" "\<forall>c \<in> set (rg_closed r). c < rg_channel r"
proof -
  show a: "rg_states r (rq_key q) = Some (rq_pointer q)" "rq_access q \<in> {AccessShared, AccessExclusive}"
    "\<exists>n. rq_fd q = Own n"
    using assms by (auto simp: registry_ok_def requests_ok_def)
  show "pending_ok (add_mset th R) os" "flocks_ok os" using assms by (auto simp: registry_ok_def)
  have "filter_mset (at_key (rq_key q)) (add_mset th R) = add_mset th M"
    using assms(2,3) by (simp add: at_key_iff)
  then show "state_ok (rg_heap r (rq_pointer q)) (add_mset th M) (set (rg_closed r)) os"
    using assms(1) a(1) unfolding registry_ok_def by metis
  show "st_changed (rg_heap r (rq_pointer q)) < rg_channel r" "\<forall>c \<in> set (rg_closed r). c < rg_channel r"
    using assms(1) a(1) by (auto simp: registry_ok_def pointers_ok_def)
qed

lemma registry_ok_abandon:
  assumes ok: "registry_ok r (add_mset (Ready q) R) os"
  shows "registry_ok (abandonLocked (rq_key q) (rq_pointer q) r) (add_mset Idle R) os"
proof -
  obtain M where M: "filter_mset (at_key (rq_key q)) R = M" by simp
  note f = registry_ok_facts[OF ok _ M, simplified]
  let ?s = "rg_heap r (rq_pointer q)"
  have refs: "st_references ?s = int (size M) + 1" using f(6) by (simp add: state_ok_def counts_ok_def)
  have empty: "M = {#} \<longleftrightarrow> st_references ?s = 1" using refs by auto
  have last: "M = {#} \<Longrightarrow> st_holders ?s = 0 \<and> \<not> st_acquiring ?s"
    using f(6) by (auto simp: state_ok_def counts_ok_def split: if_splits)
  show ?thesis
  proof (rule registry_ok_step[OF ok f(1), where M = M])
    show "rg_states (abandonLocked (rq_key q) (rq_pointer q) r) (rq_key q) = (if M = {#} then None else Some (rq_pointer q))"
      using last f(1) empty by auto
    show "pending_ok (add_mset Idle R) os" by (rule pending_ok_new[OF f(4)]) simp_all
    assume "M \<noteq> {#}"
    moreover have "waits_ok (?s\<lparr>st_references := st_references ?s - 1\<rparr>) M (set (rg_closed r))"
      by (rule waits_ok_keep[of ?s "add_mset (Ready q) M"]) (use f(6) in \<open>auto simp: state_ok_def blocked_def\<close>)
    ultimately show "state_ok (rg_heap (abandonLocked (rq_key q) (rq_pointer q) r) (rq_pointer q)) M
        (set (rg_closed (abandonLocked (rq_key q) (rq_pointer q) r))) os"
      using f(6) refs by (auto simp: state_ok_def counts_ok_def lock_ok_def)
  qed (use f(5) M in auto)
qed

lemma registry_ok_wake:
  assumes ok: "registry_ok r (add_mset (Waiting q ch) R) os"
  shows "registry_ok r (add_mset (Ready q) R) os"
proof -
  obtain M where M: "filter_mset (at_key (rq_key q)) R = M" by simp
  note f = registry_ok_facts[OF ok _ M, simplified]
  show ?thesis
  proof (rule registry_ok_step[OF ok f(1), where M = "add_mset (Ready q) M"])
    show "pending_ok (add_mset (Ready q) R) os" by (rule pending_ok_new[OF f(4)]) simp_all
    show "state_ok (rg_heap r (rq_pointer q)) (add_mset (Ready q) M) (set (rg_closed r)) os"
      using f(6) by (auto simp: state_ok_def counts_ok_def lock_ok_def waits_ok_def)
  qed (use f M in auto)
qed

lemma registry_ok_wait:
  assumes ok: "registry_ok r (add_mset (Ready q) R) os"
    and "blocked (rg_heap r (rq_pointer q)) (rq_access q)"
  shows "registry_ok r (add_mset (Waiting q (st_changed (rg_heap r (rq_pointer q)))) R) os"
proof -
  obtain M where M: "filter_mset (at_key (rq_key q)) R = M" by simp
  note f = registry_ok_facts[OF ok _ M, simplified]
  let ?w = "Waiting q (st_changed (rg_heap r (rq_pointer q)))"
  show ?thesis
  proof (rule registry_ok_step[OF ok f(1), where M = "add_mset ?w M"])
    show "pending_ok (add_mset ?w R) os" by (rule pending_ok_new[OF f(4)]) simp_all
    show "state_ok (rg_heap r (rq_pointer q)) (add_mset ?w M) (set (rg_closed r)) os"
      using f(6) assms(2) by (auto simp: state_ok_def counts_ok_def lock_ok_def waits_ok_def)
  qed (use f M in auto)
qed

lemma registry_ok_flock:
  assumes ok: "registry_ok r (add_mset (Ready q) R) os"
    and "\<not> st_acquiring (rg_heap r (rq_pointer q))" "st_holders (rg_heap r (rq_pointer q)) = 0"
  shows "registry_ok (on_state (rq_pointer q) (\<lambda>s. s\<lparr>st_acquiring := True\<rparr>) r) (add_mset (Flocking q) R) os"
proof -
  obtain M where M: "filter_mset (at_key (rq_key q)) R = M" by simp
  note f = registry_ok_facts[OF ok _ M, simplified]
  let ?s = "rg_heap r (rq_pointer q)"
  have w: "waits_ok (?s\<lparr>st_acquiring := True\<rparr>) (add_mset (Flocking q) M) (set (rg_closed r))"
    by (rule waits_ok_keep[of ?s "add_mset (Ready q) M"]) (use f(6) in \<open>auto simp: state_ok_def blocked_def\<close>)
  show ?thesis
  proof (rule registry_ok_step[OF ok f(1), where M = "add_mset (Flocking q) M"])
    show "pending_ok (add_mset (Flocking q) R) os" by (rule pending_ok_new[OF f(4)]) simp_all
    show "state_ok (rg_heap (on_state (rq_pointer q) (\<lambda>s. s\<lparr>st_acquiring := True\<rparr>) r) (rq_pointer q))
        (add_mset (Flocking q) M) (set (rg_closed (on_state (rq_pointer q) (\<lambda>s. s\<lparr>st_acquiring := True\<rparr>) r))) os"
      using f(6) w assms(2,3) by (simp add: state_ok_def counts_ok_def lock_ok_def)
  qed (use f M in auto)
qed

lemma registry_ok_join:
  assumes ok: "registry_ok r (add_mset (Ready q) R) os"
    and "\<not> st_acquiring (rg_heap r (rq_pointer q))" "st_holders (rg_heap r (rq_pointer q)) \<noteq> 0"
    and "st_access (rg_heap r (rq_pointer q)) = AccessShared" "rq_access q = AccessShared"
    and "st_recordID (rg_heap r (rq_pointer q)) = rq_id q"
  shows "registry_ok (on_state (rq_pointer q) (\<lambda>s. s\<lparr>st_holders := st_holders s + 1\<rparr>) r) (add_mset (Holding q) R) os"
proof -
  obtain M where M: "filter_mset (at_key (rq_key q)) R = M" by simp
  note f = registry_ok_facts[OF ok _ M, simplified]
  let ?s = "rg_heap r (rq_pointer q)"
  have w: "waits_ok (?s\<lparr>st_holders := st_holders ?s + 1\<rparr>) (add_mset (Holding q) M) (set (rg_closed r))"
    by (rule waits_ok_keep[of ?s "add_mset (Ready q) M"]) (use f(6) in \<open>auto simp: state_ok_def blocked_def\<close>)
  show ?thesis
  proof (rule registry_ok_step[OF ok f(1), where M = "add_mset (Holding q) M"])
    show "pending_ok (add_mset (Holding q) R) os" by (rule pending_ok_new[OF f(4)]) simp_all
    show "state_ok (rg_heap (on_state (rq_pointer q) (\<lambda>s. s\<lparr>st_holders := st_holders s + 1\<rparr>) r) (rq_pointer q))
        (add_mset (Holding q) M) (set (rg_closed (on_state (rq_pointer q) (\<lambda>s. s\<lparr>st_holders := st_holders s + 1\<rparr>) r))) os"
      using f(6) w assms(2-) by (auto simp: state_ok_def counts_ok_def lock_ok_def)
  qed (use f M in auto)
qed

lemma registry_ok_iterate:
  assumes ok: "registry_ok r (add_mset (Ready q) R) os"
    and it: "acquire_iteration (rq_key q) (rq_pointer q) (rq_id q) (rq_access q) cancelled closes r = (a, r')"
  shows "registry_ok r' (add_mset (after_attempt q a) R) os"
proof -
  let ?s = "rg_heap r (rq_pointer q)"
  have "st_holders ?s \<ge> 0" using registry_ok_facts(6)[OF ok _ refl] by (simp add: state_ok_def counts_ok_def)
  then show ?thesis
    using it registry_ok_abandon[OF ok] registry_ok_flock[OF ok] registry_ok_join[OF ok] registry_ok_wait[OF ok]
    by (fastforce simp: acquire_iteration_def Let_def after_attempt_def blocked_def split: if_splits)
qed

lemma registry_ok_refused:
  assumes ok: "registry_ok r (add_mset (Flocking q) R) os"
  shows "registry_ok (acquire_flocked (rq_key q) (rq_pointer q) (rq_id q) (rq_fd q) (rq_access q) False r) (add_mset Idle R) os"
    (is "registry_ok ?r _ _")
proof -
  obtain M where M: "filter_mset (at_key (rq_key q)) R = M" by simp
  note f = registry_ok_facts[OF ok _ M, simplified]
  let ?s = "rg_heap r (rq_pointer q)" and ?p = "rq_pointer q"
  let ?t = "?s\<lparr>st_acquiring := False, st_changed := rg_channel r, st_references := st_references ?s - 1\<rparr>"
  have c: "st_references ?s = int (size M) + 1" "st_holders ?s = 0" "number is_holding M = 0" "number is_flocking M = 0"
    using f(6) by (auto simp: state_ok_def counts_ok_def split: if_splits)
  have r: "rg_heap ?r = (rg_heap r)(?p := ?t)" "rg_closed ?r = st_changed ?s # rg_closed r"
    "rg_channel ?r = rg_channel r + 1" "rg_next ?r = rg_next r"
    "rg_states ?r = (if M = {#} then (rg_states r)(rq_key q := None) else rg_states r)"
    using c by (simp_all add: acquire_flocked_def Let_def)
  have w: "waits_ok ?t M (insert (st_changed ?s) (set (rg_closed r)))"
    by (rule waits_ok_signal[of _ "add_mset (Flocking q) M"]) (use f in \<open>auto simp: state_ok_def\<close>)
  show ?thesis
  proof (rule registry_ok_step[OF ok f(1), where M = M])
    show "pending_ok (add_mset Idle R) os" by (rule pending_ok_new[OF f(4)]) simp_all
    show "state_ok (rg_heap ?r ?p) M (set (rg_closed ?r)) os" if "M \<noteq> {#}"
      using f(6) w c that by (auto simp: r state_ok_def counts_ok_def lock_ok_def)
  qed (use f M in \<open>auto simp: r\<close>)
qed

lemma grant_flocks_ok:
  "flocks_ok os \<Longrightarrow> grantable os fd i a \<Longrightarrow> flocks_ok (os(fd \<mapsto> (i, a)))"
  unfolding flocks_ok_def grantable_def compatible_def by (auto split: if_splits)

lemma registry_ok_locked:
  assumes ok: "registry_ok r (add_mset (Flocking q) R) os" and g: "grantable os (rq_fd q) (rq_id q) (rq_access q)"
  shows "registry_ok (acquire_flocked (rq_key q) (rq_pointer q) (rq_id q) (rq_fd q) (rq_access q) True r)
    (add_mset (Holding q) R) (os(rq_fd q \<mapsto> (rq_id q, rq_access q)))" (is "registry_ok ?r _ ?os")
proof -
  obtain M where M: "filter_mset (at_key (rq_key q)) R = M" by simp
  note f = registry_ok_facts[OF ok _ M, simplified]
  let ?s = "rg_heap r (rq_pointer q)" and ?p = "rq_pointer q"
  let ?t = "?s\<lparr>st_acquiring := False, st_record := Some (rq_fd q), st_recordID := rq_id q,
    st_access := rq_access q, st_holders := 1, st_changed := rg_channel r\<rparr>"
  have c: "st_references ?s = int (size M) + 1" "st_holders ?s = 0" "number is_holding M = 0" "number is_flocking M = 0"
    using f(6) by (auto simp: state_ok_def counts_ok_def split: if_splits)
  have r: "rg_heap ?r = (rg_heap r)(?p := ?t)" "rg_closed ?r = st_changed ?s # rg_closed r"
    "rg_channel ?r = rg_channel r + 1" "rg_next ?r = rg_next r" "rg_states ?r = rg_states r"
    by (simp_all add: acquire_flocked_def Let_def)
  have "Flocking q \<in># add_mset (Flocking q) R \<and> pending_fd (Flocking q) = Some (rq_fd q)" by simp
  then have none: "os (rq_fd q) = None" using f(4) unfolding pending_ok_def by blast
  have w: "waits_ok ?t (add_mset (Holding q) M) (insert (st_changed ?s) (set (rg_closed r)))"
    by (rule waits_ok_signal[of _ "add_mset (Flocking q) M"]) (use f in \<open>auto simp: state_ok_def\<close>)
  have nohold: "Holding q' \<notin># M" for q' using number_zero[OF c(3), of "Holding q'"] by auto
  show ?thesis
  proof (rule registry_ok_step[OF ok f(1), where M = "add_mset (Holding q) M"])
    show "pending_ok (add_mset (Holding q) R) ?os" by (rule pending_ok_new[OF f(4)]) (auto split: if_splits)
    show "flocks_ok ?os" by (rule grant_flocks_ok[OF f(5) g])
    show "state_ok (rg_heap ?r ?p) (add_mset (Holding q) M) (set (rg_closed ?r)) ?os"
      using f(3,6) w c nohold by (auto simp: r state_ok_def counts_ok_def lock_ok_def)
  qed (use f(1-3) M none in \<open>auto simp: r split: if_splits\<close>)
qed

lemma flocks_ok_drop: "flocks_ok os \<Longrightarrow> flocks_ok (os(fd := None))"
  unfolding flocks_ok_def by auto

text \<open>A holder that unlocks: the registry never refuses it, and the descriptor goes with the last one.\<close>

lemma release_holder:
  assumes ok: "registry_ok r (add_mset (Holding q) R) os" and M: "filter_mset (at_key (rq_key q)) R = M"
  defines "s \<equiv> rg_heap r (rq_pointer q)"
  obtains (shared) "number is_holding M > 0"
      "release (rq_key q) (rq_pointer q) r = (Inr None, on_state (rq_pointer q)
        (\<lambda>s. s\<lparr>st_holders := st_holders s - 1, st_references := st_references s - 1\<rparr>) r)"
    | (last) r' where "number is_holding M = 0" "release (rq_key q) (rq_pointer q) r = (Inr (st_record s), r')"
      "rg_heap r' = (rg_heap r)(rq_pointer q := s\<lparr>st_holders := 0, st_references := st_references s - 1,
         st_record := None, st_recordID := zero_id, st_access := 0, st_changed := rg_channel r\<rparr>)"
      "rg_closed r' = st_changed s # rg_closed r" "rg_channel r' = rg_channel r + 1" "rg_next r' = rg_next r"
      "rg_states r' = (if M = {#} then (rg_states r)(rq_key q := None) else rg_states r)"
proof -
  note f = registry_ok_facts[OF ok _ M, simplified]
  have c: "st_references s = int (size M) + 1" "st_holders s = int (number is_holding M) + 1" "\<not> st_acquiring s"
    using f(6) by (auto simp: s_def state_ok_def counts_ok_def split: if_splits)
  show ?thesis
  proof (cases "number is_holding M > 0")
    case True
    then show ?thesis using c f(1) by (intro shared) (simp_all add: release_def Let_def s_def)
  next
    case False
    then show ?thesis using c f(1) by (intro last[of "snd (release (rq_key q) (rq_pointer q) r)"]) (simp_all add: release_def Let_def s_def)
  qed
qed

lemma registry_ok_unlock:
  assumes ok: "registry_ok r (add_mset (Holding q) R) os"
    and rel: "release (rq_key q) (rq_pointer q) r = (result, r')"
    and os': "os' = (case result of Inr (Some fd) \<Rightarrow> if dropped then os(fd := None) else os | _ \<Rightarrow> os)"
  shows "registry_ok r' (add_mset Idle R) os'"
proof -
  obtain M where M: "filter_mset (at_key (rq_key q)) R = M" by simp
  note f = registry_ok_facts[OF ok _ M, simplified]
  let ?p = "rq_pointer q" and ?s = "rg_heap r (rq_pointer q)"
  have c: "st_references ?s = int (size M) + 1" "st_holders ?s = int (number is_holding M) + 1" "\<not> st_acquiring ?s"
    "number is_flocking M = 0"
    using f(6) by (auto simp: state_ok_def counts_ok_def split: if_splits)
  from ok M show ?thesis
  proof (cases rule: release_holder)
    case shared
    let ?t = "?s\<lparr>st_holders := st_holders ?s - 1, st_references := st_references ?s - 1\<rparr>"
    from shared rel os' have r': "r' = on_state ?p (\<lambda>s. s\<lparr>st_holders := st_holders s - 1, st_references := st_references s - 1\<rparr>) r"
      and [simp]: "os' = os" by auto
    have ne: "M \<noteq> {#}" using shared by auto
    have w: "waits_ok ?t M (set (rg_closed r))"
      by (rule waits_ok_keep[of ?s "add_mset (Holding q) M"]) (use f(6) c shared in \<open>auto simp: state_ok_def blocked_def\<close>)
    show ?thesis
    proof (rule registry_ok_step[OF ok f(1), where M = M])
      show "pending_ok (add_mset Idle R) os'" by (rule pending_ok_new[OF f(4)]) simp_all
      show "state_ok (rg_heap r' ?p) M (set (rg_closed r')) os'"
        using f(6) w c shared ne by (auto simp: r' state_ok_def counts_ok_def lock_ok_def)
    qed (use f M ne in \<open>auto simp: r'\<close>)
  next
    case (last r'')
    then have r: "r'' = r'" "result = Inr (st_record ?s)" using rel by auto
    note l = last(3-)[unfolded r]
    from f(6) c have rcd: "\<exists>n. st_record ?s = Some (Own n)" by (auto simp: state_ok_def lock_ok_def)
    then obtain n where n: "st_record ?s = Some (Own n)" by blast
    have o: "os' = (if dropped then os(Own n := None) else os)" using os' r n by simp
    have fl: "flocks_ok os'" using o f(5) flocks_ok_drop by auto
    have w: "waits_ok (rg_heap r' ?p) M (insert (st_changed ?s) (set (rg_closed r)))"
      by (rule waits_ok_signal[of _ "add_mset (Holding q) M"]) (use f l in \<open>auto simp: state_ok_def\<close>)
    have nohold: "Holding q' \<notin># M" for q' using number_zero[OF last(1), of "Holding q'"] by auto
    show ?thesis
    proof (rule registry_ok_step[OF ok f(1), where M = M])
      show "pending_ok (add_mset Idle R) os'" by (rule pending_ok_new[OF f(4)]) (auto simp: o split: if_splits)
      show "state_ok (rg_heap r' ?p) M (set (rg_closed r')) os'" if "M \<noteq> {#}"
        using f(6) w c last(1) nohold that by (auto simp: l state_ok_def counts_ok_def lock_ok_def)
    qed (use f M fl n in \<open>auto simp: l o split: if_splits\<close>)
  qed
qed

lemma pending_ok_opened:
  assumes "pending_ok (add_mset Idle R) os" and "os (rq_fd q) = None"
    and "\<And>th. th \<in># R \<Longrightarrow> pending_fd th \<noteq> Some (rq_fd q)"
  shows "pending_ok (add_mset (Ready q) R) os"
proof -
  have "number (\<lambda>th. pending_fd th = Some (rq_fd q)) R = 0"
    using assms(3) by (auto simp: number_def)
  then show ?thesis using assms unfolding pending_ok_def by auto
qed

lemma registry_ok_reference:
  assumes ok: "registry_ok r (add_mset Idle R) os" and k: "rg_states r k = Some p"
    and q: "rq_key q = k" "rq_pointer q = p" "rq_access q \<in> {AccessShared, AccessExclusive}" "rq_fd q = Own n"
    and pend: "pending_ok (add_mset (Ready q) R) os"
  shows "registry_ok (on_state p (\<lambda>s. s\<lparr>st_references := st_references s + 1\<rparr>) r) (add_mset (Ready q) R) os"
proof -
  obtain M where M: "filter_mset (at_key k) R = M" by simp
  let ?s = "rg_heap r p"
  have st: "state_ok ?s M (set (rg_closed r)) os" using ok k M by (auto simp: registry_ok_def)
  have w: "waits_ok (?s\<lparr>st_references := st_references ?s + 1\<rparr>) (add_mset (Ready q) M) (set (rg_closed r))"
    by (rule waits_ok_keep[of ?s M]) (use st in \<open>auto simp: state_ok_def blocked_def\<close>)
  show ?thesis
  proof (rule registry_ok_step[OF ok k, where M = "add_mset (Ready q) M"])
    show "state_ok (rg_heap (on_state p (\<lambda>s. s\<lparr>st_references := st_references s + 1\<rparr>) r) p) (add_mset (Ready q) M)
        (set (rg_closed (on_state p (\<lambda>s. s\<lparr>st_references := st_references s + 1\<rparr>) r))) os"
      using st w by (auto simp: state_ok_def counts_ok_def lock_ok_def)
    show "flocks_ok os" using ok by (simp add: registry_ok_def)
  qed (use q M pend k in auto)
qed

lemma registry_ok_created:
  assumes ok: "registry_ok r (add_mset Idle R) os" and k: "rg_states r k = None"
    and q: "rq_key q = k" "rq_pointer q = rg_next r" "rq_access q \<in> {AccessShared, AccessExclusive}" "rq_fd q = Own n"
    and pend: "pending_ok (add_mset (Ready q) R) os"
  shows "registry_ok (r\<lparr>rg_states := (rg_states r)(k \<mapsto> rg_next r),
      rg_next := rg_next r + 1, rg_channel := rg_channel r + 1,
      rg_heap := (rg_heap r)(rg_next r := new_state (rg_channel r)\<lparr>st_references := 1\<rparr>)\<rparr>) (add_mset (Ready q) R) os" (is "registry_ok ?r _ _")
proof -
  let ?st = "new_state (rg_channel r)\<lparr>st_references := 1\<rparr>"
  have ptr: "pointers_ok r" and rq: "requests_ok r (add_mset Idle R)"
    and loc: "\<And>k p. rg_states r k = Some p \<Longrightarrow> state_ok (rg_heap r p) (filter_mset (at_key k) R) (set (rg_closed r)) os"
    and fl: "flocks_ok os"
    using ok by (auto simp: registry_ok_def)
  have none: "\<not> at_key k th" if "th \<in># R" for th
    using rq that k by (auto simp: requests_ok_def at_key_iff)
  then have M: "filter_mset (at_key k) (add_mset (Ready q) R) = {#Ready q#}"
    using q(1) by simp
  have "pointers_ok ?r" using ptr k unfolding pointers_ok_def
    by (auto simp: new_state_def less_Suc_eq split: if_splits) (blast intro: less_irrefl | metis less_irrefl)+
  moreover have "requests_ok ?r (add_mset (Ready q) R)" using rq q k by (fastforce simp: requests_ok_def)
  moreover have "state_ok (rg_heap ?r p') (filter_mset (at_key k') (add_mset (Ready q) R)) (set (rg_closed ?r)) os"
    if "rg_states ?r k' = Some p'" for k' p'
  proof (cases "k' = k")
    case True
    have "rg_channel r \<notin> set (rg_closed r)" using ptr by (auto simp: pointers_ok_def)
    then have "state_ok ?st {#Ready q#} (set (rg_closed r)) os"
      by (simp add: state_ok_def counts_ok_def lock_ok_def waits_ok_def new_state_def)
    then show ?thesis using that True M by simp
  next
    case False
    then have s: "rg_states r k' = Some p'" using that by simp
    then have "p' \<noteq> rg_next r" using ptr by (auto simp: pointers_ok_def)
    with loc[OF s] False q(1) show ?thesis by simp
  qed
  ultimately show ?thesis using pend fl unfolding registry_ok_def by blast
qed

lemma registry_ok_enter:
  assumes ok: "registry_ok r (add_mset Idle R) os" and "enter k r = (p, r')"
    and "rq_key q = k" "rq_pointer q = p" "rq_access q \<in> {AccessShared, AccessExclusive}" "rq_fd q = Own n"
    and "pending_ok (add_mset (Ready q) R) os"
  shows "registry_ok r' (add_mset (Ready q) R) os"
proof (cases "rg_states r k")
  case None
  then show ?thesis
    using registry_ok_created[OF ok None, of q n] assms(2-) by (auto simp: enter_def on_state_def new_state_def)
next
  case (Some p')
  then show ?thesis using registry_ok_reference[OF ok Some, of q n] assms(2-) by (auto simp: enter_def)
qed

lemma registry_ok_foreign:
  assumes ok: "registry_ok r T os" and "flocks_ok (os(Foreign n := v))"
  shows "registry_ok r T (os(Foreign n := v))"
proof -
  have own: "\<exists>m. fd = Own m" if "th \<in># T" "pending_fd th = Some fd" for th fd
    using ok that by (cases th) (force simp: registry_ok_def requests_ok_def)+
  have "pending_ok T (os(Foreign n := v))" unfolding pending_ok_def
    using ok own by (auto simp: registry_ok_def pending_ok_def)
  moreover have "state_ok (rg_heap r p) (filter_mset (at_key k) T) (set (rg_closed r)) (os(Foreign n := v))"
    if "rg_states r k = Some p" for k p
  proof (rule state_ok_frame)
    show "state_ok (rg_heap r p) (filter_mset (at_key k) T) (set (rg_closed r)) os"
      using ok that by (simp add: registry_ok_def)
    then show "st_changed (rg_heap r p) \<notin> set (rg_closed r)"
      "\<forall>fd. st_record (rg_heap r p) = Some fd \<longrightarrow> (os(Foreign n := v)) fd = os fd"
      by (auto simp: state_ok_def lock_ok_def waits_ok_def split: if_splits)
  qed simp
  ultimately show ?thesis using ok assms(2) by (simp add: registry_ok_def)
qed

lemma fd_unused_pending:
  assumes "fd_unused fd s" and "th \<in># mset (sy_threads s)"
  shows "pending_fd th \<noteq> Some fd"
  using assms by (cases th) (auto simp: fd_unused_def)

theorem system_ok_step: "registry_step s s' \<Longrightarrow> system_ok s \<Longrightarrow> system_ok s'"
proof (induction rule: registry_step.induct)
  case (acquire t s a n key p r q i)
  then obtain R where R: "mset (sy_threads s) = add_mset Idle R"
    "\<And>new. mset ((sy_threads s)[t := new]) = add_mset new R" by (metis threads_split)
  have ok: "registry_ok (sy_registry s) (add_mset Idle R) (sy_flocks s)"
    using acquire.prems R by (simp add: system_ok_def)
  have "pending_fd th \<noteq> Some (rq_fd q)" if "th \<in># R" for th
    using fd_unused_pending[OF acquire.hyps(4), of th] acquire.hyps(6) R(1) that by simp
  then have "pending_ok (add_mset (Ready q) R) (sy_flocks s)"
    using ok acquire.hyps(4,6) by (intro pending_ok_opened) (simp_all add: registry_ok_def fd_unused_def)
  with registry_ok_enter[OF ok acquire.hyps(5), of q n] acquire.hyps R show ?case
    by (auto simp: system_ok_def)
next
  case (wake t s q ch cancelled)
  then obtain R where R: "mset (sy_threads s) = add_mset (Waiting q ch) R"
    "\<And>new. mset ((sy_threads s)[t := new]) = add_mset new R" by (metis threads_split)
  then show ?case using registry_ok_wake wake.prems by (simp add: system_ok_def)
next
  case (iterate t s q cancelled closes)
  then obtain R where R: "mset (sy_threads s) = add_mset (Ready q) R"
    "\<And>new. mset ((sy_threads s)[t := new]) = add_mset new R" by (metis threads_split)
  obtain a r where it: "acquire_iteration (rq_key q) (rq_pointer q) (rq_id q) (rq_access q) cancelled closes (sy_registry s) = (a, r)"
    by fastforce
  show ?case using registry_ok_iterate[OF _ it] iterate.prems R it by (simp add: system_ok_def attempt_step_def)
next
  case (locked t s q)
  then obtain R where R: "mset (sy_threads s) = add_mset (Flocking q) R"
    "\<And>new. mset ((sy_threads s)[t := new]) = add_mset new R" by (metis threads_split)
  then show ?case using registry_ok_locked locked by (simp add: system_ok_def)
next
  case (refused t s q)
  then obtain R where R: "mset (sy_threads s) = add_mset (Flocking q) R"
    "\<And>new. mset ((sy_threads s)[t := new]) = add_mset new R" by (metis threads_split)
  then show ?case using registry_ok_refused refused.prems by (simp add: system_ok_def)
next
  case (unlock t s q result r ok)
  then obtain R where R: "mset (sy_threads s) = add_mset (Holding q) R"
    "\<And>new. mset ((sy_threads s)[t := new]) = add_mset new R" by (metis threads_split)
  then show ?case using registry_ok_unlock[OF _ unlock.hyps(3) refl] unlock.prems by (simp add: system_ok_def)
next
  case (foreign_lock s n i a)
  then have "flocks_ok ((sy_flocks s)(Foreign n \<mapsto> (i, a)))"
    using grant_flocks_ok by (simp add: system_ok_def registry_ok_def)
  then show ?case using registry_ok_foreign foreign_lock.prems by (simp add: system_ok_def)
next
  case (foreign_unlock s n)
  then have "flocks_ok ((sy_flocks s)(Foreign n := None))"
    using flocks_ok_drop by (simp add: system_ok_def registry_ok_def)
  then show ?case using registry_ok_foreign foreign_unlock.prems by (simp add: system_ok_def)
qed

definition foreign_only :: "flocks \<Rightarrow> bool" where
  "foreign_only os \<longleftrightarrow> flocks_ok os \<and> (\<forall>n. os (Own n) = None)"

definition registry_reachable :: "nat \<Rightarrow> flocks \<Rightarrow> system \<Rightarrow> bool" where
  "registry_reachable n os s \<longleftrightarrow> foreign_only os \<and> registry_step\<^sup>*\<^sup>* (initial n os) s"

lemma reachable_ok:
  assumes "registry_reachable n os s"
  shows "system_ok s"
proof -
  have idle: "number (\<lambda>th. pending_fd th = Some fd) (replicate_mset n Idle) = 0" for fd
    by (induction n) simp_all
  have init: "system_ok (initial n os)"
    using assms idle
    by (auto simp: registry_reachable_def foreign_only_def system_ok_def initial_def registry_ok_def empty_registry_def
        pointers_ok_def requests_ok_def pending_ok_def split: if_splits)
  from assms have "registry_step\<^sup>*\<^sup>* (initial n os) s" by (simp add: registry_reachable_def)
  then show ?thesis by (induction rule: rtranclp_induct) (auto intro: init system_ok_step)
qed

section \<open>The specification: a table of reader-writer locks\<close>

text \<open>Each owner holds at most one lock; a lock is granted when it is compatible with the locks the
  other owners hold on the same object.\<close>

type_synonym ('o, 'i) lockTable = "'o \<rightharpoonup> 'i \<times> AccessMode"

definition lock_grantable :: "('o, 'i) lockTable \<Rightarrow> 'o \<Rightarrow> 'i \<Rightarrow> AccessMode \<Rightarrow> bool" where
  "lock_grantable tab w i a \<longleftrightarrow> (\<forall>w' b. tab w' = Some (i, b) \<longrightarrow> w' = w \<or> compatible a b)"

inductive lock_step :: "('o, 'i) lockTable \<Rightarrow> ('o, 'i) lockTable \<Rightarrow> bool" where
  stay: "lock_step tab tab"
| grant: "lock_grantable tab w i a \<Longrightarrow> lock_step tab (tab(w \<mapsto> (i, a)))"
| drop: "lock_step tab (tab(w := None))"

datatype owner = Thread nat | OtherProcess nat

fun held_by :: "thread \<Rightarrow> (unixLeaseObjectID \<times> AccessMode) option" where
  "held_by (Holding q) = Some (rq_id q, rq_access q)"
| "held_by _ = None"

fun lock_view :: "system \<Rightarrow> (owner, unixLeaseObjectID) lockTable" where
  "lock_view s (Thread t) = (if t < length (sy_threads s) then held_by (sy_threads s ! t) else None)"
| "lock_view s (OtherProcess n) = sy_flocks s (Foreign n)"

lemma state_holder:
  assumes "state_ok st (add_mset (Holding q) M) C os"
  shows "\<exists>n. st_record st = Some (Own n) \<and> os (Own n) = Some (rq_id q, rq_access q)"
    and "number is_holding M > 0 \<Longrightarrow> rq_access q = AccessShared"
proof -
  have c: "counts_ok st (add_mset (Holding q) M)" and l: "lock_ok st (add_mset (Holding q) M) os"
    using assms by (simp_all only: state_ok_def)
  from c have n: "st_holders st = int (1 + number is_holding M)" by (simp only: counts_ok_def number_simps is_holding.simps if_True)
  from l have "Holding q \<in># add_mset (Holding q) M \<longrightarrow> rq_id q = st_recordID st \<and> rq_access q = st_access st"
    unfolding lock_ok_def by blast
  then have q: "rq_id q = st_recordID st" "rq_access q = st_access st" by simp_all
  have "st_holders st \<noteq> 0" unfolding n by linarith
  then show "\<exists>n. st_record st = Some (Own n) \<and> os (Own n) = Some (rq_id q, rq_access q)"
    using l by (simp only: lock_ok_def q if_False simp_thms)
  assume "number is_holding M > 0"
  with n have "st_holders st > 1" by linarith
  with l have "st_access st = AccessShared" by (simp only: lock_ok_def simp_thms)
  with q show "rq_access q = AccessShared" by (simp only:)
qed

lemma holder_flock:
  assumes "system_ok s" and "t < length (sy_threads s)" and "sy_threads s ! t = Holding q"
  obtains n where "rg_states (sy_registry s) (rq_key q) = Some (rq_pointer q)"
    "st_record (rg_heap (sy_registry s) (rq_pointer q)) = Some (Own n)" "sy_flocks s (Own n) = Some (rq_id q, rq_access q)"
proof -
  obtain R where R: "mset (sy_threads s) = add_mset (Holding q) R" using assms(2,3) by (metis threads_split)
  then have ok: "registry_ok (sy_registry s) (add_mset (Holding q) R) (sy_flocks s)"
    using assms(1) by (simp add: system_ok_def)
  obtain M where M: "filter_mset (at_key (rq_key q)) R = M" by simp
  note f = registry_ok_facts[OF ok _ M, simplified]
  from state_holder(1)[OF f(6)] show ?thesis using that f(1) by blast
qed

lemma two_holders_shared:
  assumes ok: "system_ok s" and t: "t < length (sy_threads s)" "t' < length (sy_threads s)" "t \<noteq> t'"
    and h: "sy_threads s ! t = Holding q" "sy_threads s ! t' = Holding q'" and k: "rq_key q = rq_key q'"
  shows "rq_access q = AccessShared"
proof -
  obtain R where R: "mset (sy_threads s) = add_mset (Holding q) R" "\<And>new. mset ((sy_threads s)[t := new]) = add_mset new R"
    using t(1) h(1) by (metis threads_split)
  have "Holding q' \<in># mset ((sy_threads s)[t := Idle])"
    using t h(2) nth_mem_mset[of t' "(sy_threads s)[t := Idle]"] by simp
  then have "Holding q' \<in># filter_mset (at_key (rq_key q)) R" using R k by simp
  then have "number is_holding (filter_mset (at_key (rq_key q)) R) > 0" by (rule number_member) simp
  moreover have "registry_ok (sy_registry s) (add_mset (Holding q) R) (sy_flocks s)"
    using ok R by (simp add: system_ok_def)
  from state_holder(2)[OF registry_ok_facts(6)[OF this _ refl, of q]]
  have "number is_holding (filter_mset (at_key (rq_key q)) R) > 0 \<Longrightarrow> rq_access q = AccessShared" by simp
  ultimately show ?thesis by blast
qed

lemma view_exclusive:
  assumes ok: "system_ok s" and "lock_view s w = Some (i, a)" "lock_view s w' = Some (i, b)" "w \<noteq> w'"
  shows "compatible a b"
proof -
  have fl: "flocks_ok (sy_flocks s)" using ok by (simp add: system_ok_def registry_ok_def)
  have thread: "\<exists>q n. sy_threads s ! t = Holding q \<and> t < length (sy_threads s) \<and> j = rq_id q \<and> c = rq_access q \<and>
      rg_states (sy_registry s) (rq_key q) = Some (rq_pointer q) \<and>
      st_record (rg_heap (sy_registry s) (rq_pointer q)) = Some (Own n) \<and> sy_flocks s (Own n) = Some (j, c)"
    if "lock_view s (Thread t) = Some (j, c)" for t j c
  proof -
    from that have t: "t < length (sy_threads s)" "held_by (sy_threads s ! t) = Some (j, c)" by (auto split: if_splits)
    then obtain q where q: "sy_threads s ! t = Holding q" "j = rq_id q" "c = rq_access q"
      by (cases "sy_threads s ! t") auto
    from holder_flock[OF ok t(1) q(1)] q t show ?thesis by metis
  qed
  show ?thesis
  proof (cases w; cases w')
    fix t t' assume w: "w = Thread t" "w' = Thread t'"
    from thread[of t] assms(2) w obtain q n where q: "sy_threads s ! t = Holding q" "t < length (sy_threads s)" "i = rq_id q"
      "a = rq_access q" "rg_states (sy_registry s) (rq_key q) = Some (rq_pointer q)"
      "st_record (rg_heap (sy_registry s) (rq_pointer q)) = Some (Own n)" "sy_flocks s (Own n) = Some (i, a)" by metis
    from thread[of t'] assms(3) w obtain q' n' where q': "sy_threads s ! t' = Holding q'" "t' < length (sy_threads s)" "i = rq_id q'"
      "b = rq_access q'" "rg_states (sy_registry s) (rq_key q') = Some (rq_pointer q')"
      "st_record (rg_heap (sy_registry s) (rq_pointer q')) = Some (Own n')" "sy_flocks s (Own n') = Some (i, b)" by metis
    show ?thesis
    proof (cases "rq_key q = rq_key q'")
      case True
      then show ?thesis
        using two_holders_shared[OF ok q(2) q'(2) _ q(1) q'(1)] two_holders_shared[OF ok q'(2) q(2) _ q'(1) q(1)]
          w assms(4) q(4) q'(4) by (simp add: compatible_def)
    next
      case False
      have ptr: "pointers_ok (sy_registry s)" using ok by (simp add: system_ok_def registry_ok_def)
      then have "n \<noteq> n'" using False q(5,6) q'(5,6) unfolding pointers_ok_def by (metis option.distinct(1))
      then show ?thesis using fl q(7) q'(7) unfolding flocks_ok_def by (metis descriptor.inject(1))
    qed
  next
    fix t n assume w: "w = Thread t" "w' = OtherProcess n"
    from thread[of t] assms(2) w obtain n' where "sy_flocks s (Own n') = Some (i, a)" by metis
    then show ?thesis using fl w assms(3) unfolding flocks_ok_def by (metis descriptor.distinct(1) lock_view.simps(2))
  next
    fix t n assume w: "w = OtherProcess n" "w' = Thread t"
    from thread[of t] assms(3) w obtain n' where "sy_flocks s (Own n') = Some (i, b)" by metis
    then show ?thesis using fl w assms(2) unfolding flocks_ok_def by (metis descriptor.distinct(1) lock_view.simps(2))
  next
    fix n n' assume "w = OtherProcess n" "w' = OtherProcess n'"
    then show ?thesis using fl assms(2-4) unfolding flocks_ok_def by (metis descriptor.inject(2) lock_view.simps(2))
  qed
qed

lemma view_update:
  assumes "\<And>t'. t' \<noteq> t \<Longrightarrow> sy_threads s' ! t' = sy_threads s ! t'" and "length (sy_threads s') = length (sy_threads s)"
    and "\<And>n. sy_flocks s' (Foreign n) = sy_flocks s (Foreign n)" and "t < length (sy_threads s)"
  shows "lock_view s' = (lock_view s)(Thread t := held_by (sy_threads s' ! t))"
proof
  fix w show "lock_view s' w = ((lock_view s)(Thread t := held_by (sy_threads s' ! t))) w"
    using assms by (cases w) auto
qed

lemma view_lock_step:
  assumes ok: "system_ok s'" and upd: "lock_view s' = (lock_view s)(w := v)"
  shows "lock_step (lock_view s) (lock_view s')"
proof (cases v)
  case None
  then show ?thesis unfolding upd by (simp add: lock_step.drop)
next
  case (Some x)
  then obtain i a where v: "v = Some (i, a)" by fastforce
  have "lock_grantable (lock_view s) w i a" unfolding lock_grantable_def
  proof (intro allI impI)
    fix w' b assume b: "lock_view s w' = Some (i, b)"
    show "w' = w \<or> compatible a b"
    proof (rule disjCI)
      assume "\<not> compatible a b"
      then show "w' = w" using view_exclusive[OF ok, of w i a w' b] b v upd by (metis fun_upd_apply)
    qed
  qed
  then show ?thesis unfolding upd v by (rule lock_step.grant)
qed

lemma release_own:
  assumes "system_ok s" "t < length (sy_threads s)" "sy_threads s ! t = Holding q"
    and "release (rq_key q) (rq_pointer q) (sy_registry s) = (Inr (Some fd), r)"
  shows "\<exists>n. fd = Own n"
proof -
  obtain n where n: "st_record (rg_heap (sy_registry s) (rq_pointer q)) = Some (Own n)"
    using holder_flock[OF assms(1-3)] by metis
  from assms(4) have "Some fd = st_record (rg_heap (sy_registry s) (rq_pointer q))"
    by (auto simp: release_def Let_def split: if_splits)
  with n show ?thesis by simp
qed

lemma registry_refines:
  assumes "registry_step s s'" and ok: "system_ok s"
  shows "lock_step (lock_view s) (lock_view s')"
proof -
  have ok': "system_ok s'" by (rule system_ok_step[OF assms])
  have "\<exists>w v. lock_view s' = (lock_view s)(w := v)"
    using assms
  proof (cases rule: registry_step.cases)
    case (acquire t a n key p r q i)
    then show ?thesis using view_update[of t s' s] by auto
  next
    case (wake t q ch cancelled)
    then show ?thesis using view_update[of t s' s] by auto
  next
    case (iterate t q cancelled closes)
    then have "lock_view s' = (lock_view s)(Thread t := held_by (sy_threads s' ! t))"
      by (intro view_update) (auto simp: attempt_step_def split: prod.split)
    then show ?thesis by blast
  next
    case (locked t q)
    obtain R where R: "mset (sy_threads s) = add_mset (Flocking q) R" using locked by (metis threads_split)
    then obtain n where "rq_fd q = Own n"
      using registry_ok_facts(3)[of "sy_registry s" "Flocking q" R "sy_flocks s" q _, OF _ _ refl] ok
      by (auto simp: system_ok_def)
    then show ?thesis using view_update[of t s' s] locked by auto
  next
    case (refused t q)
    then show ?thesis using view_update[of t s' s] by auto
  next
    case (unlock t q result r okay)
    have "sy_flocks s' (Foreign n) = sy_flocks s (Foreign n)" for n
      using release_own[OF ok unlock(2,3)] unlock(1,4) by (auto split: sum.splits option.splits)
    then have "lock_view s' = (lock_view s)(Thread t := held_by (sy_threads s' ! t))"
      using unlock by (intro view_update) auto
    then show ?thesis by blast
  next
    case (foreign_lock n i a)
    have "lock_view s' = (lock_view s)(OtherProcess n := Some (i, a))"
    proof
      fix w show "lock_view s' w = ((lock_view s)(OtherProcess n := Some (i, a))) w"
        using foreign_lock by (cases w) auto
    qed
    then show ?thesis by blast
  next
    case (foreign_unlock n)
    have "lock_view s' = (lock_view s)(OtherProcess n := None)"
    proof
      fix w show "lock_view s' w = ((lock_view s)(OtherProcess n := None)) w"
        using foreign_unlock by (cases w) auto
    qed
    then show ?thesis by blast
  qed
  with view_lock_step[OF ok'] show ?thesis by blast
qed

section \<open>Properties\<close>

text \<open>C20: the process registry together with the advisory locks implements reader-writer locks:
  every critical section, wake-up and kernel call of any interleaving is a step of the lock table
  that grants a lock only next to compatible ones, for the threads of the process and for other
  processes alike.\<close>

theorem registry_refines_locks:
  assumes "registry_reachable n os s" and "registry_step s s'"
  shows "lock_step (lock_view s) (lock_view s')"
  using registry_refines reachable_ok assms by blast

text \<open>C21: mutual exclusion: in every reachable state two owners, threads of this process or other
  processes, that hold leases on the same lock record both hold it shared.\<close>

theorem registry_mutual_exclusion:
  assumes "registry_reachable n os s" and "lock_view s w = Some (i, a)" and "lock_view s w' = Some (i, b)" and "w \<noteq> w'"
  shows "a = AccessShared \<and> b = AccessShared"
  using view_exclusive[OF reachable_ok[OF assms(1)] assms(2-4)] by (simp add: compatible_def)

text \<open>C30: the registry keeps exactly the states in use: a key has a state iff some thread is
  between entering and leaving it, its reference and holder counters are the numbers of such
  threads, and unlocking a held lease is never refused as inactive.\<close>

theorem registry_counts_exact:
  assumes "registry_reachable n os s"
  shows "(\<forall>k. rg_states (sy_registry s) k \<noteq> None \<longleftrightarrow> list_ex (at_key k) (sy_threads s)) \<and>
    (\<forall>k p. rg_states (sy_registry s) k = Some p \<longrightarrow>
       st_references (rg_heap (sy_registry s) p) = int (length (filter (at_key k) (sy_threads s))) \<and>
       st_holders (rg_heap (sy_registry s) p) = int (length (filter (\<lambda>th. at_key k th \<and> is_holding th) (sy_threads s)))) \<and>
    (\<forall>t q. t < length (sy_threads s) \<longrightarrow> sy_threads s ! t = Holding q \<longrightarrow>
       fst (release (rq_key q) (rq_pointer q) (sy_registry s)) \<noteq> Inl NotActive)"
proof -
  let ?T = "mset (sy_threads s)"
  have ok: "registry_ok (sy_registry s) ?T (sy_flocks s)" using reachable_ok[OF assms] by (simp add: system_ok_def)
  have st: "counts_ok (rg_heap (sy_registry s) p) (filter_mset (at_key k) ?T)"
    if "rg_states (sy_registry s) k = Some p" for k p
    using ok that by (simp add: registry_ok_def state_ok_def)
  have "rg_states (sy_registry s) k \<noteq> None \<longleftrightarrow> list_ex (at_key k) (sy_threads s)" for k
  proof
    assume "rg_states (sy_registry s) k \<noteq> None"
    then obtain p where "rg_states (sy_registry s) k = Some p" by blast
    from st[OF this] have "filter_mset (at_key k) ?T \<noteq> {#}" by (simp only: counts_ok_def simp_thms)
    then show "list_ex (at_key k) (sy_threads s)" by (auto simp: list_ex_iff)
  next
    assume "list_ex (at_key k) (sy_threads s)"
    then obtain th q where "th \<in># ?T" "thread_request th = Some q" "rq_key q = k"
      by (auto simp: list_ex_iff at_key_iff)
    moreover have "requests_ok (sy_registry s) ?T" using ok by (simp add: registry_ok_def)
    ultimately show "rg_states (sy_registry s) k \<noteq> None" unfolding requests_ok_def by blast
  qed
  moreover have "st_references (rg_heap (sy_registry s) p) = int (length (filter (at_key k) (sy_threads s))) \<and>
       st_holders (rg_heap (sy_registry s) p) = int (length (filter (\<lambda>th. at_key k th \<and> is_holding th) (sy_threads s)))"
    if "rg_states (sy_registry s) k = Some p" for k p
  proof -
    have "size (filter_mset (at_key k) ?T) = length (filter (at_key k) (sy_threads s))"
      by (simp only: mset_filter[symmetric] size_mset)
    with st[OF that] show ?thesis unfolding counts_ok_def number_mset by simp
  qed
  moreover have "fst (release (rq_key q) (rq_pointer q) (sy_registry s)) \<noteq> Inl NotActive"
    if h: "t < length (sy_threads s)" "sy_threads s ! t = Holding q" for t q
  proof -
    obtain R where "?T = add_mset (Holding q) R" using threads_split[OF h] by metis
    with ok have "registry_ok (sy_registry s) (add_mset (Holding q) R) (sy_flocks s)" by simp
    then show ?thesis
    proof (rule release_holder[OF _ refl])
    qed (simp_all only: fst_conv sum.distinct not_False_eq_True)
  qed
  ultimately show ?thesis by blast
qed

text \<open>C22: no wake-up is lost: a thread waiting in a reachable state either waits on a channel that
  is already closed, so that it runs again, or another thread of the process is taking the advisory
  lock of its record or holds it in a mode incompatible with the request.\<close>

theorem registry_no_lost_wakeup:
  assumes "registry_reachable n os s" and "t < length (sy_threads s)" and "sy_threads s ! t = Waiting q ch"
  shows "ch \<in> set (rg_closed (sy_registry s)) \<or>
    (\<exists>t' < length (sy_threads s). \<exists>q'. rq_key q' = rq_key q \<and>
       (sy_threads s ! t' = Flocking q' \<or> sy_threads s ! t' = Holding q' \<and> \<not> compatible (rq_access q) (rq_access q')))"
proof (rule disjCI)
  assume no: "\<not> (\<exists>t' < length (sy_threads s). \<exists>q'. rq_key q' = rq_key q \<and>
       (sy_threads s ! t' = Flocking q' \<or> sy_threads s ! t' = Holding q' \<and> \<not> compatible (rq_access q) (rq_access q')))"
  have ok: "registry_ok (sy_registry s) (mset (sy_threads s)) (sy_flocks s)"
    using reachable_ok[OF assms(1)] by (simp add: system_ok_def)
  let ?st = "rg_heap (sy_registry s) (rq_pointer q)" and ?M = "filter_mset (at_key (rq_key q)) (mset (sy_threads s))"
  have w: "Waiting q ch \<in># mset (sy_threads s)" using assms(2,3) nth_mem_mset by metis
  with ok have "rg_states (sy_registry s) (rq_key q) = Some (rq_pointer q)" by (force simp: registry_ok_def requests_ok_def)
  with ok have st: "counts_ok ?st ?M" "lock_ok ?st ?M (sy_flocks s)" "waits_ok ?st ?M (set (rg_closed (sy_registry s)))"
    by (auto simp: registry_ok_def state_ok_def)
  have none: "number P ?M = 0" if "\<And>th. th \<in># mset (sy_threads s) \<Longrightarrow> at_key (rq_key q) th \<Longrightarrow> \<not> P th" for P
    using number_pos[of P ?M] that by fastforce
  have "number is_flocking ?M = 0"
  proof (rule none)
    fix th assume "th \<in># mset (sy_threads s)" "at_key (rq_key q) th"
    with no show "\<not> is_flocking th" by (cases th) (auto simp: in_set_conv_nth)
  qed
  with st(1) have acq: "\<not> st_acquiring ?st" unfolding counts_ok_def by (metis zero_neq_one)
  have "\<not> (st_holders ?st > 0 \<and> \<not> (st_access ?st = AccessShared \<and> rq_access q = AccessShared))"
  proof
    assume h: "st_holders ?st > 0 \<and> \<not> (st_access ?st = AccessShared \<and> rq_access q = AccessShared)"
    then have "number is_holding ?M > 0" using st(1) unfolding counts_ok_def by linarith
    then obtain th where th: "th \<in># ?M" "is_holding th" using number_pos by blast
    then obtain q' where q': "th = Holding q'" by (cases th) auto
    with th st(2) have "rq_access q' = st_access ?st" unfolding lock_ok_def by blast
    with h have "\<not> compatible (rq_access q) (rq_access q')" by (auto simp: compatible_def)
    with no th q' show False by (auto simp: in_set_conv_nth)
  qed
  with acq have "\<not> blocked ?st (rq_access q)" by (simp only: blocked_def simp_thms)
  moreover have "Waiting q ch \<in># ?M" using w by simp
  ultimately show "ch \<in> set (rg_closed (sy_registry s))"
    using st(3) unfolding waits_ok_def by blast
qed

section \<open>A run of three threads next to another process\<close>

abbreviation sample_id :: unixLeaseObjectID where
  "sample_id \<equiv> \<lparr>device = 1, inode = 7\<rparr>"

abbreviation sample_key :: unixProcessLeaseKey where
  "sample_key \<equiv> \<lparr>directory = \<lparr>device = 1, inode = 2\<rparr>, record_name = ''a.lock''\<rparr>"

definition sample_q :: "nat \<Rightarrow> AccessMode \<Rightarrow> request" where
  "sample_q t a = \<lparr>rq_key = sample_key, rq_pointer = 0, rq_id = sample_id, rq_fd = Own t, rq_access = a\<rparr>"

definition sample_state :: "nat \<Rightarrow> descriptor option \<Rightarrow> unixLeaseObjectID \<Rightarrow> AccessMode \<Rightarrow> int \<Rightarrow> int \<Rightarrow> bool \<Rightarrow> unixProcessLeaseState" where
  "sample_state ch fd i a holders references acq = \<lparr>st_changed = ch, st_record = fd, st_recordID = i, st_access = a,
     st_holders = holders, st_references = references, st_acquiring = acq\<rparr>"

definition sample_system :: "thread list \<Rightarrow> unixProcessLeaseState \<Rightarrow> nat list \<Rightarrow> nat \<Rightarrow> flocks \<Rightarrow> system" where
  "sample_system ts st closed ch fl = \<lparr>sy_registry = \<lparr>rg_states = [sample_key \<mapsto> 0], rg_heap = (\<lambda>_. new_state 0)(0 := st),
     rg_next = 1, rg_closed = closed, rg_channel = ch\<rparr>, sy_threads = ts, sy_flocks = fl\<rparr>"

abbreviation sample_foreign :: flocks where
  "sample_foreign \<equiv> [Foreign 0 \<mapsto> (sample_id, AccessShared)]"

abbreviation sample_flocks :: flocks where
  "sample_flocks \<equiv> [Foreign 0 \<mapsto> (sample_id, AccessShared), Own 0 \<mapsto> (sample_id, AccessShared)]"

abbreviation "sample_q0 \<equiv> sample_q 0 AccessShared"
abbreviation "sample_q1 \<equiv> sample_q 1 AccessShared"
abbreviation "sample_q2 \<equiv> sample_q 2 AccessExclusive"

definition sample_run :: "nat \<Rightarrow> system" where
  "sample_run n = (
     let held = \<lambda>holders references. sample_state 1 (Some (Own 0)) sample_id AccessShared holders references False in
     [initial 3 sample_foreign,
      sample_system [Ready sample_q0, Idle, Idle] (sample_state 0 None zero_id 0 0 1 False) [] 1 sample_foreign,
      sample_system [Flocking sample_q0, Idle, Idle] (sample_state 0 None zero_id 0 0 1 True) [] 1 sample_foreign,
      sample_system [Holding sample_q0, Idle, Idle] (held 1 1) [0] 2 sample_flocks,
      sample_system [Holding sample_q0, Ready sample_q1, Idle] (held 1 2) [0] 2 sample_flocks,
      sample_system [Holding sample_q0, Holding sample_q1, Idle] (held 2 2) [0] 2 sample_flocks,
      sample_system [Holding sample_q0, Holding sample_q1, Ready sample_q2] (held 2 3) [0] 2 sample_flocks,
      sample_system [Holding sample_q0, Holding sample_q1, Waiting sample_q2 1] (held 2 3) [0] 2 sample_flocks] ! n)"

lemmas sample_defs = sample_run_def sample_system_def sample_state_def sample_q_def initial_def empty_registry_def
  new_state_def enter_def on_state_def attempt_step_def acquire_iteration_def acquire_flocked_def signalLocked_def
  after_attempt_def AccessShared_def AccessExclusive_def Let_def

lemma sample_acquire:
  assumes "t < 3" "sy_threads s ! t = Idle" "length (sy_threads s) = 3" "a \<in> {AccessShared, AccessExclusive}" "fd_unused (Own t) s"
    and "enter sample_key (sy_registry s) = (0, r)" "s' = s\<lparr>sy_registry := r, sy_threads := (sy_threads s)[t := Ready (sample_q t a)]\<rparr>"
  shows "registry_step s s'"
  unfolding assms(7) sample_q_def using assms by (intro registry_step.acquire) auto

lemma sample_step0: "registry_step (sample_run 0) (sample_run 1)"
  by (rule sample_acquire[of 0 _ AccessShared]) (simp_all add: sample_defs fd_unused_def numeral_3_eq_3)

lemma sample_step1: "registry_step (sample_run 1) (sample_run 2)"
  using registry_step.iterate[of 0 "sample_run 1" sample_q0 False True] by (simp add: sample_defs)

lemma sample_step2: "registry_step (sample_run 2) (sample_run 3)"
proof -
  have "grantable sample_foreign (Own 0) sample_id AccessShared"
    by (auto simp: grantable_def compatible_def split: if_splits)
  then show ?thesis using registry_step.locked[of 0 "sample_run 2" sample_q0] by (simp add: sample_defs numeral_2_eq_2)
qed

lemma sample_step3: "registry_step (sample_run 3) (sample_run 4)"
  by (rule sample_acquire[of 1 _ AccessShared]) (simp_all add: sample_defs fd_unused_def)

lemma sample_step4: "registry_step (sample_run 4) (sample_run 5)"
  using registry_step.iterate[of 1 "sample_run 4" sample_q1 False True] by (simp add: sample_defs)

lemma sample_step5: "registry_step (sample_run 5) (sample_run 6)"
  by (rule sample_acquire[of 2 _ AccessExclusive]) (simp_all add: sample_defs fd_unused_def)

lemma sample_step6: "registry_step (sample_run 6) (sample_run 7)"
  using registry_step.iterate[of 2 "sample_run 6" sample_q2 False True] by (simp add: sample_defs)

lemma sample_reachable: "registry_reachable 3 sample_foreign (sample_run 6)" "registry_reachable 3 sample_foreign (sample_run 7)"
proof -
  have "initial 3 sample_foreign = sample_run 0" by (simp add: sample_run_def Let_def)
  moreover have "registry_step\<^sup>*\<^sup>* (sample_run 0) (sample_run 6)"
    using sample_step0 sample_step1 sample_step2 sample_step3 sample_step4 sample_step5
    by (meson converse_rtranclp_into_rtranclp rtranclp.rtrancl_refl)
  moreover from this have "registry_step\<^sup>*\<^sup>* (sample_run 0) (sample_run 7)"
    using sample_step6 by (rule rtranclp.rtrancl_into_rtrancl)
  moreover have "foreign_only sample_foreign" by (auto simp: foreign_only_def flocks_ok_def)
  ultimately show "registry_reachable 3 sample_foreign (sample_run 6)" "registry_reachable 3 sample_foreign (sample_run 7)"
    by (simp_all add: registry_reachable_def)
qed

lemma sample_threads: "sy_threads (sample_run 7) = [Holding sample_q0, Holding sample_q1, Waiting sample_q2 1]"
  by (simp add: sample_run_def sample_system_def Let_def)

theorem registry_refines_locks_witness: "lock_step (lock_view (sample_run 6)) (lock_view (sample_run 7))"
  by (rule registry_refines_locks[OF sample_reachable(1) sample_step6])

theorem registry_mutual_exclusion_witness:
  "rq_access sample_q0 = AccessShared \<and> rq_access sample_q1 = AccessShared"
  by (rule registry_mutual_exclusion[OF sample_reachable(2), of "Thread 0" sample_id _ "Thread 1"])
    (simp_all add: sample_threads, simp_all add: sample_q_def)

theorem registry_counts_exact_witness:
  "st_holders (rg_heap (sy_registry (sample_run 7)) 0) = 2 \<and> st_references (rg_heap (sy_registry (sample_run 7)) 0) = 3"
proof -
  have "rg_states (sy_registry (sample_run 7)) sample_key = Some 0"
    by (simp add: sample_run_def sample_system_def Let_def)
  with registry_counts_exact[OF sample_reachable(2)] show ?thesis
    by (simp add: sample_threads sample_q_def)
qed

theorem registry_no_lost_wakeup_witness:
  "\<exists>t' < 3. \<exists>q'. sy_threads (sample_run 7) ! t' = Holding q' \<and> \<not> compatible AccessExclusive (rq_access q')"
proof -
  have "1 \<notin> set (rg_closed (sy_registry (sample_run 7)))" by (simp add: sample_run_def sample_system_def Let_def)
  with registry_no_lost_wakeup[OF sample_reachable(2), of 2 sample_q2 1]
  obtain t' q' where t: "t' < 3" "sy_threads (sample_run 7) ! t' = Flocking q' \<or>
      sy_threads (sample_run 7) ! t' = Holding q' \<and> \<not> compatible (rq_access sample_q2) (rq_access q')"
    by (auto simp: sample_threads numeral_3_eq_3)
  moreover from t(1) have "sy_threads (sample_run 7) ! t' \<noteq> Flocking q'"
    by (auto simp: sample_threads less_Suc_eq numeral_3_eq_3)
  ultimately show ?thesis by (auto simp: sample_q_def)
qed

end
