(* ===== verification/LeaseSets.thy ===== *)
theory LeaseSets
  imports MutationLease LeaseRegistry
begin

text \<open>
  Lease sets of \<^verbatim>\<open>internal/effect/mutation/lease.go\<close>: acquiring, checking, rebinding and releasing
  them, with the lock namespace, the context and the path observer as a record of operations on a
  world \<open>'w\<close>. The laws a lock namespace promises are a locale; the namespace of
  \<^verbatim>\<open>lease_store_unix.go\<close> over the process registry is an instance of it. The parallel
  observation pass is \<^verbatim>\<open>lease_visibility_observation.go\<close>.
\<close>

section \<open>Observing visibility in parallel\<close>

definition zero_canonicalPath :: canonicalPath where
  "zero_canonicalPath = \<lparr>keyPath = [], accessPath = [], cp_witness = [], cp_provisional = zero_Provisional,
     cp_namespaceLease = zero_namespace\<rparr>"

datatype leaseError =
    LeaseContextRequired
  | LeaseContextError
  | LeaseSetUninitialized
  | LeaseSetInactive
  | LeaseNamespaceUninitialized
  | LeaseNamespaceInvalid
  | LeaseNamespaceChanged
  | PhysicalAuthoritySetInvalid
  | LeaseDomainError mutationError

definition lift_error :: "mutationError + 'a \<Rightarrow> leaseError + 'a" where
  "lift_error m = (case m of Inl e \<Rightarrow> Inl (LeaseDomainError e) | Inr x \<Rightarrow> Inr x)"

text \<open>A domain with what \<^verbatim>\<open>ctx.Err()\<close> answers when it is read for that domain.\<close>

type_synonym polledDomain = "bool \<times> Domain"

text \<open>One worker's part of the pass: the identities observed so far, or \<open>None\<close> once a namespace anchor
  no longer matches.\<close>

definition observe_domain ::
  "pathIdentityObserver \<Rightarrow> canonicalPath list option \<Rightarrow> polledDomain \<Rightarrow> leaseError + canonicalPath list option" where
  "observe_domain observe acc = (\<lambda>(cancelled, domain).
     (case acc of
        None \<Rightarrow> Inr None
      | Some observed \<Rightarrow>
          if cancelled then Inl LeaseContextError
          else if is_path_domain domain then
            ebind (if namespace_isZero (namespaceLease domain) then Inr True
                   else lift_error (namespace_matchesCurrentUsing (namespaceLease domain) observe)) (\<lambda>matches.
              if \<not> matches then Inr None
              else ebind (lift_error (observe (requestedPath domain) (dm_effect domain))) (\<lambda>identity.
                     Inr (Some (observed @ [identity]))))
          else if dm_kind domain = domainHostRoute then Inr (Some (observed @ [zero_canonicalPath]))
          else Inl (LeaseDomainError DomainUninitialized)))"

definition observeVisibilityDomainRange ::
  "pathIdentityObserver \<Rightarrow> polledDomain list \<Rightarrow> leaseError + canonicalPath list option" where
  "observeVisibilityDomainRange observe domains = foldM (observe_domain observe) (Some []) domains"

definition worker_range :: "nat \<Rightarrow> nat \<Rightarrow> 'a list \<Rightarrow> 'a list" where
  "worker_range workers worker xs =
     (let start = worker * length xs div workers; finish = (worker + 1) * length xs div workers in
      drop start (take finish xs))"

text \<open>Every worker has an observer of its own; the outcomes are read in worker order once all have
  returned.\<close>

definition merge_outcome ::
  "canonicalPath list option \<Rightarrow> leaseError + canonicalPath list option \<Rightarrow> leaseError + canonicalPath list option" where
  "merge_outcome acc outcome =
     (case acc of
        None \<Rightarrow> Inr None
      | Some observed \<Rightarrow> ebind outcome (\<lambda>part. Inr (map_option (\<lambda>identities. observed @ identities) part)))"

definition observeVisibilityDomains ::
  "nat \<Rightarrow> (nat \<Rightarrow> pathIdentityObserver) \<Rightarrow> polledDomain list \<Rightarrow> leaseError + canonicalPath list option" where
  "observeVisibilityDomains gomaxprocs observers domains =
     (let workers = min 4 gomaxprocs in
      if length domains < 128 \<or> workers = 1 then observeVisibilityDomainRange (observers 0) domains
      else
        let outcomes = map (\<lambda>worker. observeVisibilityDomainRange (observers worker)
                              (worker_range workers worker domains)) [0..<workers] in
        foldM merge_outcome (Some []) outcomes)"

lemma worker_ranges:
  assumes "workers > 0" and "n \<le> workers"
  shows "concat (map (\<lambda>w. worker_range workers w xs) [0..<n]) = take (n * length xs div workers) xs"
  using assms(2)
proof (induction n)
  case (Suc n)
  have "n * length xs div workers \<le> Suc n * length xs div workers" by (intro div_le_mono) simp
  then obtain d where d: "Suc n * length xs div workers = n * length xs div workers + d" by (metis le_iff_add)
  show ?case using Suc by (simp add: worker_range_def d take_add drop_take del: mult_Suc)
qed simp

lemma observe_none [simp]: "foldM (observe_domain observe) None es = Inr None"
  by (induction es) (auto simp: observe_domain_def)

lemma observe_domain_append:
  "observe_domain observe (Some (pre @ acc)) d =
     ebind (observe_domain observe (Some acc) d) (\<lambda>r. Inr (map_option (\<lambda>xs. pre @ xs) r))"
  by (cases d) (auto simp: observe_domain_def ebind_def split: sum.splits)

lemma range_accumulates:
  "foldM (observe_domain observe) (Some acc) ds =
     merge_outcome (Some acc) (observeVisibilityDomainRange observe ds)"
proof -
  have "foldM (observe_domain observe) (Some (pre @ acc)) ds =
      ebind (foldM (observe_domain observe) (Some acc) ds) (\<lambda>r. Inr (map_option (\<lambda>xs. pre @ xs) r))" for pre acc
  proof (induction ds arbitrary: acc)
    case (Cons d ds)
    show ?case
    proof (cases "observe_domain observe (Some acc) d")
      case (Inr r)
      then show ?thesis using Cons.IH by (cases r) (simp_all add: observe_domain_append)
    qed (simp add: observe_domain_append)
  qed simp
  from this[of acc "[]"] show ?thesis by (simp add: merge_outcome_def observeVisibilityDomainRange_def)
qed

lemma merge_ranges:
  "foldM merge_outcome acc (map (observeVisibilityDomainRange observe) dss) =
     foldM (observe_domain observe) acc (concat dss)"
proof (induction dss arbitrary: acc)
  case (Cons ds dss)
  then show ?case
    by (cases acc) (simp_all add: foldM_append range_accumulates, simp add: merge_outcome_def)
qed simp

text \<open>C34: observing in parallel returns what the sequential pass returns, on success, on a mismatch and on
  the first error in domain order, whatever the context answers at each domain, when every worker sees the same files.\<close>

theorem parallel_observation_sequential:
  assumes "gomaxprocs > 0" and "\<And>w. observers w = observe"
  shows "observeVisibilityDomains gomaxprocs observers domains =
    observeVisibilityDomainRange observe domains"
proof (cases "length domains < 128 \<or> min 4 gomaxprocs = 1")
  case True
  then show ?thesis using assms(2) by (auto simp: observeVisibilityDomains_def Let_def)
next
  case False
  let ?w = "min 4 gomaxprocs"
  have "?w > 0" using assms(1) by simp
  from worker_ranges[OF this order_refl, of domains] this
  have "concat (map (\<lambda>w. worker_range ?w w domains) [0..<?w]) = domains" by simp
  with merge_ranges[of "Some []" observe "map (\<lambda>w. worker_range ?w w domains) [0..<?w]"] False
  show ?thesis
    by (simp add: observeVisibilityDomains_def Let_def assms(2) comp_def observeVisibilityDomainRange_def)
qed

theorem parallel_observation_sequential_witness:
  "observeVisibilityDomains 4 (\<lambda>_. \<lambda>p e. Inl DomainUninitialized) (replicate 200 (False, sample_lease ''/w'' AccessShared)) =
   observeVisibilityDomainRange (\<lambda>p e. Inl DomainUninitialized) (replicate 200 (False, sample_lease ''/w'' AccessShared))"
  by (rule parallel_observation_sequential) simp_all

section \<open>Acquiring and releasing\<close>

text \<open>What the operating system offers: reading the context, opening the namespace, its methods and
  the unlock method of a lock record. \<open>lockOutcome\<close> is the result of \<^verbatim>\<open>namespace.Acquire\<close>;
  \<open>LockFailed True\<close> is an expired deadline.\<close>

datatype 'r lockOutcome = LockFailed bool | NotLocked | Locked 'r

record ('w, 'n, 'r) leaseRuntime =
  ctxErr :: "'w \<Rightarrow> bool \<times> 'w"
  openLeaseNamespace :: "'w \<Rightarrow> 'n option \<times> 'w"
  ns_Acquire :: "'n \<Rightarrow> string \<Rightarrow> AccessMode \<Rightarrow> 'w \<Rightarrow> 'r lockOutcome \<times> 'w"
  ns_ValidateCurrent :: "'n \<Rightarrow> 'w \<Rightarrow> bool \<times> 'w"
  ns_Close :: "'n \<Rightarrow> 'w \<Rightarrow> bool \<times> 'w"
  rec_Unlock :: "'r \<Rightarrow> 'w \<Rightarrow> bool \<times> 'w"

record 'r heldLease =
  hl_domain :: normalizedDomain
  hl_record :: 'r

datatype releaseFailure = UnlockFailed leaseLabel | CloseFailure

record ('n, 'r) LeaseSet =
  ls_domains :: "Domain list"
  ls_held :: "'r heldLease list"
  ls_namespace :: "'n option"
  ls_released :: bool
  ls_err :: "releaseFailure list"

datatype acquireError =
    AcquireContextRequired
  | AcquireCancelled
  | AcquireDomainsRequired
  | AcquireRejected mutationError
  | AcquireNamespaceUnavailable
  | AcquireContention leaseLabel "releaseFailure list"
  | AcquireCancelledAt leaseLabel "releaseFailure list"
  | AcquireFailed leaseLabel "releaseFailure list"

text \<open>\<open>sha\<close> is the hexadecimal SHA-256 of a key.\<close>

definition lockRecordName :: "(string \<Rightarrow> string) \<Rightarrow> string \<Rightarrow> string" where
  "lockRecordName sha key = sha key @ ''.lock''"

text \<open>Unlocking held records in the given order, with the failures.\<close>

fun unlock_each :: "('w, 'n, 'r) leaseRuntime \<Rightarrow> 'r heldLease list \<Rightarrow> 'w \<Rightarrow> releaseFailure list \<times> 'w" where
  "unlock_each rt [] w = ([], w)"
| "unlock_each rt (h # hs) w =
     (let (okay, w) = rec_Unlock rt (hl_record h) w; (failures, w) = unlock_each rt hs w in
      ((if okay then [] else [UnlockFailed (nd_label (hl_domain h))]) @ failures, w))"

definition close_namespace :: "('w, 'n, 'r) leaseRuntime \<Rightarrow> 'n option \<Rightarrow> 'w \<Rightarrow> releaseFailure list \<times> 'w" where
  "close_namespace rt namespace w =
     (case namespace of
        None \<Rightarrow> ([], w)
      | Some ns \<Rightarrow> let (okay, w) = ns_Close rt ns w in (if okay then [] else [CloseFailure], w))"

text \<open>\<open>once\<close> has run exactly when the set is released.\<close>

definition Release :: "('w, 'n, 'r) leaseRuntime \<Rightarrow> ('n, 'r) LeaseSet \<Rightarrow> 'w \<Rightarrow> releaseFailure list \<times> ('n, 'r) LeaseSet \<times> 'w" where
  "Release rt leases w =
     (if ls_released leases then (ls_err leases, leases, w)
      else
        let (failures, w) = unlock_each rt (rev (ls_held leases)) w;
            (closing, w) = close_namespace rt (ls_namespace leases) w;
            err = failures @ closing in
        (err, leases\<lparr>ls_released := True, ls_err := err\<rparr>, w))"

fun acquire_loop ::
  "('w, 'n, 'r) leaseRuntime \<Rightarrow> (string \<Rightarrow> string) \<Rightarrow> 'n \<Rightarrow> normalizedDomain list \<Rightarrow> ('n, 'r) LeaseSet \<Rightarrow> 'w \<Rightarrow>
    (acquireError + ('n, 'r) LeaseSet) \<times> 'w" where
  "acquire_loop rt sha ns [] leases w = (Inr leases, w)"
| "acquire_loop rt sha ns (d # ds) leases w =
     (let (outcome, w) = ns_Acquire rt ns (lockRecordName sha (nd_key d)) (nd_access d) w in
      case outcome of
        LockFailed expired \<Rightarrow>
          let (failures, _, w) = Release rt leases w; (cancelled, w) = ctxErr rt w in
          (Inl (if cancelled then AcquireCancelledAt (nd_label d) failures
                else if expired then AcquireContention (nd_label d) failures
                else AcquireFailed (nd_label d) failures), w)
      | NotLocked \<Rightarrow>
          let (failures, _, w) = Release rt leases w in (Inl (AcquireContention (nd_label d) failures), w)
      | Locked r \<Rightarrow>
          let leases = leases\<lparr>ls_held := ls_held leases @ [\<lparr>hl_domain = d, hl_record = r\<rparr>]\<rparr>;
              (cancelled, w) = ctxErr rt w in
          if cancelled
          then let (failures, _, w) = Release rt leases w in (Inl (AcquireCancelledAt (nd_label d) failures), w)
          else acquire_loop rt sha ns ds leases w)"

definition new_leases :: "Domain list \<Rightarrow> 'n \<Rightarrow> ('n, 'r) LeaseSet" where
  "new_leases domains ns =
     \<lparr>ls_domains = domains, ls_held = [], ls_namespace = Some ns, ls_released = False, ls_err = []\<rparr>"

definition Acquire ::
  "('w, 'n, 'r) leaseRuntime \<Rightarrow> (string \<Rightarrow> string) \<Rightarrow> string \<Rightarrow> bool \<Rightarrow> Domain list \<Rightarrow> 'w \<Rightarrow>
    (acquireError + ('n, 'r) LeaseSet) \<times> 'w" where
  "Acquire rt sha rootKey ctx domains w =
     (if \<not> ctx then (Inl AcquireContextRequired, w)
      else
        let (cancelled, w) = ctxErr rt w in
        if cancelled then (Inl AcquireCancelled, w)
        else if domains = [] then (Inl AcquireDomainsRequired, w)
        else case normalize rootKey domains of
          Inl e \<Rightarrow> (Inl (AcquireRejected e), w)
        | Inr normalized \<Rightarrow>
            case openLeaseNamespace rt w of
              (None, w) \<Rightarrow> (Inl AcquireNamespaceUnavailable, w)
            | (Some ns, w) \<Rightarrow> acquire_loop rt sha ns normalized (new_leases domains ns) w)"

section \<open>The contract of a lock namespace\<close>

definition lease_records :: "'r heldLease list \<Rightarrow> 'r \<Rightarrow> int" where
  "lease_records hs r = int (length (filter (\<lambda>h. hl_record h = r) hs))"

lemma lease_records_simps [simp]:
  "lease_records [] r = 0" "lease_records (h # hs) r = (if hl_record h = r then 1 else 0) + lease_records hs r"
  "lease_records (rev hs) r = lease_records hs r" "lease_records (hs @ hs') r = lease_records hs r + lease_records hs' r" "lease_records hs r \<ge> 0"
  by (simp_all add: lease_records_def rev_filter[symmetric])

text \<open>\<open>held w r\<close> is how often the record \<open>r\<close> is held in the world \<open>w\<close>: acquiring raises it by one on
  success and changes nothing on failure, unlocking a held record lowers it by one, and no other
  operation changes what is held.\<close>

locale lease_runtime =
  fixes rt :: "('w, 'n, 'r) leaseRuntime" and inv :: "'w \<Rightarrow> bool" and held :: "'w \<Rightarrow> 'r \<Rightarrow> int"
  assumes read_ctx: "inv w \<Longrightarrow> ctxErr rt w = (c, w') \<Longrightarrow> inv w' \<and> held w' = held w"
    and open_namespace: "inv w \<Longrightarrow> openLeaseNamespace rt w = (opened, w') \<Longrightarrow> inv w' \<and> held w' = held w"
    and close_namespace: "inv w \<Longrightarrow> ns_Close rt n w = (c, w') \<Longrightarrow> inv w' \<and> held w' = held w"
    and lock: "inv w \<Longrightarrow> ns_Acquire rt n k a w = (outcome, w') \<Longrightarrow>
      inv w' \<and> held w' = (case outcome of Locked r \<Rightarrow> (held w)(r := held w r + 1) | _ \<Rightarrow> held w)"
    and unlock: "inv w \<Longrightarrow> held w r > 0 \<Longrightarrow> rec_Unlock rt r w = (c, w') \<Longrightarrow>
      inv w' \<and> held w' = (held w)(r := held w r - 1)"
begin

lemma unlock_each_held:
  "inv w \<Longrightarrow> (\<And>r. held w r \<ge> lease_records hs r) \<Longrightarrow> unlock_each rt hs w = (fs, w') \<Longrightarrow>
    inv w' \<and> held w' = (\<lambda>r. held w r - lease_records hs r)"
proof (induction hs arbitrary: w fs w')
  case (Cons h hs)
  obtain c w1 where u: "rec_Unlock rt (hl_record h) w = (c, w1)" by fastforce
  obtain fs' where e: "unlock_each rt hs w1 = (fs', w')" using Cons.prems(3) u by (auto simp: Let_def split: prod.splits)
  have "1 + lease_records hs (hl_record h) \<le> held w (hl_record h)" using Cons.prems(2)[of "hl_record h"] by simp
  with lease_records_simps(5)[of hs "hl_record h"] have "held w (hl_record h) > 0" by linarith
  with unlock[OF Cons.prems(1) _ u] have w1: "inv w1" "held w1 = (held w)(hl_record h := held w (hl_record h) - 1)" by auto
  have "held w1 r \<ge> lease_records hs r" for r using Cons.prems(2)[of r] w1(2) by (auto split: if_splits)
  from Cons.IH[OF w1(1) this e] w1(2) show ?case by (auto split: if_splits)
qed simp

lemma release_held:
  assumes "inv w" and "\<not> ls_released ls" and "\<And>r. held w r \<ge> lease_records (ls_held ls) r" and "Release rt ls w = (err, ls', w')"
  shows "inv w' \<and> held w' = (\<lambda>r. held w r - lease_records (ls_held ls) r)"
proof -
  obtain fs w1 where u: "unlock_each rt (rev (ls_held ls)) w = (fs, w1)" by fastforce
  obtain c where c: "LeaseSets.close_namespace rt (ls_namespace ls) w1 = (c, w')"
    using assms(2,4) u by (auto simp: Release_def Let_def split: prod.splits)
  from unlock_each_held[OF assms(1) _ u] assms(3)
  have w1: "inv w1" "held w1 = (\<lambda>r. held w r - lease_records (ls_held ls) r)" by auto
  from c w1(1) close_namespace have "inv w' \<and> held w' = held w1"
    by (auto simp: LeaseSets.close_namespace_def split: option.splits prod.splits)
  with w1 show ?thesis by simp
qed

lemma acquire_loop_held:
  assumes "inv w" and "\<And>r. held w r = base r + lease_records (ls_held ls) r" and "\<And>r. base r \<ge> 0" and "\<not> ls_released ls"
    and "acquire_loop rt sha ns ds ls w = (result, w')"
  shows "case result of
      Inl e \<Rightarrow> held w' = base
    | Inr got \<Rightarrow> held w' = (\<lambda>r. base r + lease_records (ls_held got) r) \<and> \<not> ls_released got \<and>
        map hl_domain (ls_held got) = map hl_domain (ls_held ls) @ ds \<and> ls_domains got = ls_domains ls \<and>
        ls_namespace got = ls_namespace ls \<and> inv w'"
  using assms
proof (induction ds arbitrary: ls w)
  case Nil
  then have "held w = (\<lambda>r. base r + lease_records (ls_held ls) r)" by (simp add: fun_eq_iff)
  with Nil show ?case by auto
next
  case (Cons d ds)
  obtain outcome w1 where l: "ns_Acquire rt ns (lockRecordName sha (nd_key d)) (nd_access d) w = (outcome, w1)" by fastforce
  from lock[OF Cons.prems(1) l] have w1: "inv w1"
    "held w1 = (case outcome of Locked r \<Rightarrow> (held w)(r := held w r + 1) | _ \<Rightarrow> held w)" by auto
  have failed: "held w2 = base \<and> inv w2"
    if "Release rt ls' w0 = (err, ls'', w2)" "inv w0" "\<not> ls_released ls'" "\<And>r. held w0 r = base r + lease_records (ls_held ls') r"
    for ls' w0 err ls'' w2
  proof -
    have "held w0 r \<ge> lease_records (ls_held ls') r" for r using that(4) Cons.prems(3)[of r] by simp
    from release_held[OF that(2,3) this that(1)] that(4) show ?thesis by auto
  qed
  show ?case
  proof (cases outcome)
    case (LockFailed expired)
    obtain err ls' w2 where r: "Release rt ls w1 = (err, ls', w2)" by (metis prod_cases3)
    from failed[OF r w1(1) Cons.prems(4)] Cons.prems(2) w1(2) LockFailed have "held w2 = base" "inv w2" by auto
    with Cons.prems(5) l LockFailed r read_ctx show ?thesis by (auto simp: Let_def split: prod.splits)
  next
    case NotLocked
    obtain err ls' w2 where r: "Release rt ls w1 = (err, ls', w2)" by (metis prod_cases3)
    from failed[OF r w1(1) Cons.prems(4)] Cons.prems(2) w1(2) NotLocked have "held w2 = base" by auto
    with Cons.prems(5) l NotLocked r show ?thesis by (auto simp: Let_def)
  next
    case (Locked rc)
    let ?ls = "ls\<lparr>ls_held := ls_held ls @ [\<lparr>hl_domain = d, hl_record = rc\<rparr>]\<rparr>"
    obtain c w2 where c: "ctxErr rt w1 = (c, w2)" by fastforce
    from read_ctx[OF w1(1) c] have w2: "inv w2" "held w2 = held w1" by auto
    have h: "held w2 r = base r + lease_records (ls_held ?ls) r" for r using w2(2) w1(2) Locked Cons.prems(2) by auto
    show ?thesis
    proof (cases c)
      case True
      obtain err ls' w3 where r: "Release rt ?ls w2 = (err, ls', w3)" by (metis prod_cases3)
      from failed[OF r w2(1) _ h] Cons.prems(4) have "held w3 = base" by simp
      with Cons.prems(5) l Locked c True r show ?thesis by (auto simp: Let_def)
    next
      case False
      with Cons.prems(5) l Locked c have "acquire_loop rt sha ns ds ?ls w2 = (result, w')" by (simp add: Let_def)
      from Cons.IH[OF w2(1) h Cons.prems(3) _ this] Cons.prems(4) show ?thesis by (auto split: sum.splits)
    qed
  qed
qed

end

section \<open>The Unix namespace over the process registry\<close>

text \<open>\<^verbatim>\<open>registry.acquire\<close> run by one thread with no other thread in the registry: waiting then lasts
  until the context expires. \<open>flocked\<close> is the outcome of \<^verbatim>\<open>acquireUnixFlock\<close>: the lock, the error
  of the lock call, or the error of the context that ended while another process held the lock.\<close>

datatype flockOutcome = FlockGranted | FlockRefused | FlockExpired

definition registry_acquire ::
  "unixProcessLeaseKey \<Rightarrow> unixLeaseObjectID \<Rightarrow> descriptor \<Rightarrow> AccessMode \<Rightarrow> bool \<Rightarrow> bool \<Rightarrow> flockOutcome \<Rightarrow>
    unixProcessLeaseRegistry \<Rightarrow> (registryError + nat) \<times> unixProcessLeaseRegistry" where
  "registry_acquire key recordID fd access cancelled closes flocked r =
     (let (p, r) = enter key r;
          (outcome, r) = acquire_iteration key p recordID access cancelled closes r in
      case outcome of
        AttemptFailed e \<Rightarrow> (Inl e, r)
      | AttemptFlock \<Rightarrow> 
          (case flocked of FlockGranted \<Rightarrow> Inr p | FlockRefused \<Rightarrow> Inl FlockFailed | FlockExpired \<Rightarrow> Inl Cancelled,
           acquire_flocked key p recordID fd access (flocked = FlockGranted) r)
      | AttemptJoined \<Rightarrow> (Inr p, r)
      | AttemptWait ch \<Rightarrow> (Inl Cancelled, snd (acquire_iteration key p recordID access True closes r)))"

record unixWorld =
  uw_registry :: unixProcessLeaseRegistry
  uw_closed :: bool
  uw_clock :: nat

text \<open>What the system calls answer at each tick of the clock.\<close>

record unixEnvironment =
  en_cancelled :: "nat \<Rightarrow> bool"
  en_opens :: "nat \<Rightarrow> unixLeaseObjectID option"
  en_valid :: "nat \<Rightarrow> bool"
  en_record :: "nat \<Rightarrow> string \<Rightarrow> unixLeaseObjectID option"
  en_current :: "nat \<Rightarrow> bool"
  en_closes :: "nat \<Rightarrow> bool"
  en_flocked :: "nat \<Rightarrow> flockOutcome"

definition tick :: "(nat \<Rightarrow> 'a) \<Rightarrow> unixWorld \<Rightarrow> 'a \<times> unixWorld" where
  "tick f w = (f (uw_clock w), w\<lparr>uw_clock := uw_clock w + 1\<rparr>)"

type_synonym unixProcessLease = "unixProcessLeaseKey \<times> nat"

definition unix_Unlock :: "unixEnvironment \<Rightarrow> unixProcessLease \<Rightarrow> unixWorld \<Rightarrow> bool \<times> unixWorld" where
  "unix_Unlock env = (\<lambda>(key, p) w.
     let (closes, w) = tick (en_closes env) w in
     case release key p (uw_registry w) of
       (Inl e, r) \<Rightarrow> (False, w\<lparr>uw_registry := r\<rparr>)
     | (Inr None, r) \<Rightarrow> (True, w\<lparr>uw_registry := r\<rparr>)
     | (Inr (Some fd), r) \<Rightarrow> (closes, w\<lparr>uw_registry := r\<rparr>))"

definition unix_ValidateCurrent :: "unixEnvironment \<Rightarrow> unixLeaseObjectID \<Rightarrow> unixWorld \<Rightarrow> bool \<times> unixWorld" where
  "unix_ValidateCurrent env ns w =
     (if uw_closed w then (False, w) else tick (en_valid env) w)"

definition unix_Close :: "unixEnvironment \<Rightarrow> unixLeaseObjectID \<Rightarrow> unixWorld \<Rightarrow> bool \<times> unixWorld" where
  "unix_Close env ns w =
     (if uw_closed w then (True, w) else tick (en_closes env) (w\<lparr>uw_closed := True\<rparr>))"

definition unix_Acquire ::
  "unixEnvironment \<Rightarrow> unixLeaseObjectID \<Rightarrow> string \<Rightarrow> AccessMode \<Rightarrow> unixWorld \<Rightarrow> unixProcessLease lockOutcome \<times> unixWorld" where
  "unix_Acquire env ns name access w =
     (if access_validate access \<noteq> Inr () then (LockFailed False, w)
      else
        let (valid, w) = unix_ValidateCurrent env ns w in
        if \<not> valid \<or> uw_closed w then (LockFailed False, w)
        else case tick (\<lambda>t. en_record env t name) w of
          (None, w) \<Rightarrow> (LockFailed False, w)
        | (Some recordID, w) \<Rightarrow>
            let key = \<lparr>directory = ns, record_name = name\<rparr>;
                fd = Own (uw_clock w);
                (cancelled, w) = tick (en_cancelled env) w;
                (closes, w) = tick (en_closes env) w;
                (flocked, w) = tick (en_flocked env) w;
                (result, r) = registry_acquire key recordID fd access cancelled closes flocked (uw_registry w);
                w = w\<lparr>uw_registry := r\<rparr> in
            case result of
              Inl e \<Rightarrow> (LockFailed (e = Cancelled), w)
            | Inr p \<Rightarrow>
                let (valid, w) = unix_ValidateCurrent env ns w in
                if \<not> valid then let (_, w) = unix_Unlock env (key, p) w in (LockFailed False, w)
                else
                  let (current, w) = tick (en_current env) w in
                  if \<not> current then let (_, w) = unix_Unlock env (key, p) w in (LockFailed False, w)
                  else (Locked (key, p), w))"

definition unix_open :: "unixEnvironment \<Rightarrow> unixWorld \<Rightarrow> unixLeaseObjectID option \<times> unixWorld" where
  "unix_open env w =
     (case tick (en_opens env) w of
        (None, w) \<Rightarrow> (None, w)
      | (Some ns, w) \<Rightarrow> (Some ns, w\<lparr>uw_closed := False\<rparr>))"

definition unix_runtime :: "unixEnvironment \<Rightarrow> (unixWorld, unixLeaseObjectID, unixProcessLease) leaseRuntime" where
  "unix_runtime env =
     \<lparr>ctxErr = tick (en_cancelled env), openLeaseNamespace = unix_open env, ns_Acquire = unix_Acquire env,
      ns_ValidateCurrent = unix_ValidateCurrent env, ns_Close = unix_Close env, rec_Unlock = unix_Unlock env\<rparr>"

text \<open>With no thread inside the registry every state is held, and only by its references.\<close>

definition quiet :: "unixProcessLeaseRegistry \<Rightarrow> bool" where
  "quiet r \<longleftrightarrow>
     (\<forall>k p. rg_states r k = Some p \<longrightarrow> p < rg_next r \<and> st_holders (rg_heap r p) > 0 \<and>
        st_references (rg_heap r p) = st_holders (rg_heap r p) \<and> \<not> st_acquiring (rg_heap r p)) \<and>
     (\<forall>k k' p. rg_states r k = Some p \<longrightarrow> rg_states r k' = Some p \<longrightarrow> k = k')"

definition holds :: "unixProcessLeaseRegistry \<Rightarrow> unixProcessLease \<Rightarrow> int" where
  "holds r = (\<lambda>(k, p). if rg_states r k = Some p then st_holders (rg_heap r p) else 0)"

text \<open>What changes between two quiet registries.\<close>

lemma quiet_update:
  assumes q: "quiet r" and s: "rg_states r k = Some p \<or> rg_states r k = None \<and> p = rg_next r"
    and st: "\<And>k'. k' \<noteq> k \<Longrightarrow> rg_states r' k' = rg_states r k'"
    and here: "rg_states r' k = (if h > 0 then Some p else None)"
    and heap: "\<And>p'. p' \<noteq> p \<Longrightarrow> rg_heap r' p' = rg_heap r p'"
    and cnt: "h > 0 \<Longrightarrow> st_holders (rg_heap r' p) = h \<and> st_references (rg_heap r' p) = h \<and> \<not> st_acquiring (rg_heap r' p)"
    and nxt: "rg_next r' \<ge> rg_next r" "p < rg_next r'" and h: "h \<ge> 0"
  shows "quiet r' \<and> holds r' = (holds r)((k, p) := h)"
proof
  have fresh: "p' \<noteq> p" if "k' \<noteq> k" "rg_states r k' = Some p'" for k' p'
    using q s that unfolding quiet_def by (metis less_irrefl)
  have one: "p' < rg_next r' \<and> st_holders (rg_heap r' p') > 0 \<and> st_references (rg_heap r' p') = st_holders (rg_heap r' p') \<and>
      \<not> st_acquiring (rg_heap r' p')" if "rg_states r' k' = Some p'" for k' p'
  proof (cases "k' = k")
    case True
    with that here cnt nxt(2) show ?thesis by (auto split: if_splits)
  next
    case False
    with that st have "rg_states r k' = Some p'" by simp
    with q heap[OF fresh[OF False this]] nxt(1) show ?thesis by (force simp: quiet_def)
  qed
  have two: "k1 = k2" if "rg_states r' k1 = Some p'" "rg_states r' k2 = Some p'" for k1 k2 p'
  proof (rule ccontr)
    assume ne: "k1 \<noteq> k2"
    have p: "rg_states r' k = Some p' \<Longrightarrow> p' = p" using here by (simp split: if_splits)
    show False
    proof (cases "k1 = k \<or> k2 = k")
      case True
      with that ne p st fresh show False by metis
    next
      case False
      with that st have "rg_states r k1 = Some p'" "rg_states r k2 = Some p'" by auto
      with q ne show False unfolding quiet_def by blast
    qed
  qed
  show "quiet r'" unfolding quiet_def using one two by blast
  have gone: "rg_states r k = Some p' \<Longrightarrow> p' = p" for p' using s by auto
  show "holds r' = (holds r)((k, p) := h)"
  proof
    fix x :: unixProcessLease
    obtain k' p' where x: "x = (k', p')" by fastforce
    show "holds r' x = ((holds r)((k, p) := h)) x"
    proof (cases "k' = k")
      case True
      then show ?thesis using x here cnt gone h by (auto simp: holds_def)
    next
      case False
      then show ?thesis using x st[OF False] heap fresh[OF False] by (auto simp: holds_def)
    qed
  qed
qed

lemma enter_known: "rg_states r k = Some p \<Longrightarrow> enter k r = (p, on_state p (\<lambda>s. s\<lparr>st_references := st_references s + 1\<rparr>) r)"
  by (simp add: enter_def)

lemma iteration_not_joined:
  assumes "st_holders (rg_heap r p) > 0" and "\<not> st_acquiring (rg_heap r p)"
    and "\<not> (\<not> c \<and> st_access (rg_heap r p) = AccessShared \<and> a = AccessShared \<and> st_recordID (rg_heap r p) = i \<and> cl)"
  shows "(\<exists>e. acquire_iteration k p i a c cl r = (AttemptFailed e, abandonLocked k p r)) \<or>
    acquire_iteration k p i a c cl r = (AttemptWait (st_changed (rg_heap r p)), r)"
  using assms by (auto simp: acquire_iteration_def Let_def)

lemma registry_acquire_quiet:
  assumes q: "quiet r" and acq: "registry_acquire key i fd a c cl fl r = (result, r')"
  shows "quiet r' \<and> holds r' = (case result of Inl e \<Rightarrow> holds r | Inr p \<Rightarrow> (holds r)((key, p) := holds r (key, p) + 1))"
proof (cases "rg_states r key")
  case None
  let ?p = "rg_next r"
  have h0: "holds r (key, ?p) = 0" using None by (simp add: holds_def)
  have "(result = Inr ?p \<and> quiet r' \<and> holds r' = (holds r)((key, ?p) := 1)) \<or>
      ((\<exists>e. result = Inl e) \<and> quiet r' \<and> holds r' = (holds r)((key, ?p) := 0))"
  proof (cases "fl = FlockGranted \<and> \<not> c")
    case True
    then have "result = Inr ?p" and r': "r' = snd (registry_acquire key i fd a False cl FlockGranted r)"
      using acq None by (auto simp: registry_acquire_def enter_def acquire_iteration_def Let_def new_state_def)
    moreover have "quiet r' \<and> holds r' = (holds r)((key, ?p) := 1)"
      by (rule quiet_update[OF q, of key ?p])
        (simp_all add: None r' registry_acquire_def enter_def acquire_iteration_def acquire_flocked_def Let_def new_state_def)
    ultimately show ?thesis by blast
  next
    case False
    then consider (cancelled) "c" | (refused) "\<not> c" "fl \<noteq> FlockGranted" by blast
    then have "(\<exists>e. result = Inl e) \<and> quiet r' \<and> holds r' = (holds r)((key, ?p) := 0)"
    proof cases
      case cancelled
      then have "result = Inl Cancelled" and r': "r' = snd (registry_acquire key i fd a True cl fl r)"
        using acq None by (auto simp: registry_acquire_def enter_def acquire_iteration_def Let_def)
      moreover have "quiet r' \<and> holds r' = (holds r)((key, ?p) := 0)"
        by (rule quiet_update[OF q, of key ?p])
          (simp_all add: None r' registry_acquire_def enter_def acquire_iteration_def Let_def new_state_def)
      ultimately show ?thesis by blast
    next
      case refused
      then have "\<exists>e. result = Inl e" and r': "r' = snd (registry_acquire key i fd a False cl FlockRefused r)"
        using acq None by (auto simp: registry_acquire_def enter_def acquire_iteration_def Let_def new_state_def
            split: flockOutcome.splits)
      moreover have "quiet r' \<and> holds r' = (holds r)((key, ?p) := 0)"
        by (rule quiet_update[OF q, of key ?p])
          (simp_all add: None r' registry_acquire_def enter_def acquire_iteration_def acquire_flocked_def Let_def new_state_def)
      ultimately show ?thesis by blast
    qed
    then show ?thesis by blast
  qed
  with h0 show ?thesis by (auto simp: fun_upd_idem)
next
  case (Some p)
  have st: "st_holders (rg_heap r p) > 0" "st_references (rg_heap r p) = st_holders (rg_heap r p)"
    "\<not> st_acquiring (rg_heap r p)" "p < rg_next r" using q Some by (auto simp: quiet_def)
  have h: "holds r (key, p) = st_holders (rg_heap r p)" using Some by (simp add: holds_def)
  let ?join = "\<not> c \<and> st_access (rg_heap r p) = AccessShared \<and> a = AccessShared \<and> st_recordID (rg_heap r p) = i \<and> cl"
  show ?thesis
  proof (cases ?join)
    case True
    then have "result = Inr p" and r': "r' = snd (registry_acquire key i fd a c cl fl r)"
      using acq st by (auto simp: registry_acquire_def enter_known[OF Some] acquire_iteration_def Let_def)
    moreover have "quiet r' \<and> holds r' = (holds r)((key, p) := st_holders (rg_heap r p) + 1)"
      by (rule quiet_update[OF q])
        (use True st in \<open>auto simp: Some r' registry_acquire_def enter_known[OF Some] acquire_iteration_def Let_def\<close>)
    ultimately show ?thesis by (simp add: h)
  next
    case False
    let ?r = "on_state p (\<lambda>s. s\<lparr>st_references := st_references s + 1\<rparr>) r"
    have "(\<exists>e. acquire_iteration key p i a c cl ?r = (AttemptFailed e, abandonLocked key p ?r)) \<or>
        acquire_iteration key p i a c cl ?r = (AttemptWait (st_changed (rg_heap ?r p)), ?r)"
      using False st by (intro iteration_not_joined) auto
    moreover have "acquire_iteration key p i a True cl ?r = (AttemptFailed Cancelled, abandonLocked key p ?r)"
      by (simp add: acquire_iteration_def)
    ultimately have "\<exists>e. result = Inl e" and r': "r' = abandonLocked key p ?r"
      using acq by (auto simp: registry_acquire_def enter_known[OF Some])
    moreover have "quiet r' \<and> holds r' = (holds r)((key, p) := st_holders (rg_heap r p))"
      by (rule quiet_update[OF q]) (use st in \<open>auto simp: Some r'\<close>)
    ultimately show ?thesis using h by (auto simp: fun_upd_idem)
  qed
qed

lemma release_quiet:
  assumes q: "quiet r" and "holds r (k, p) > 0" and rel: "release k p r = (result, r')"
  shows "(\<exists>fd. result = Inr fd) \<and> quiet r' \<and> holds r' = (holds r)((k, p) := holds r (k, p) - 1)"
proof -
  have Some: "rg_states r k = Some p" using assms(2) by (simp add: holds_def split: if_splits)
  have st: "st_holders (rg_heap r p) > 0" "st_references (rg_heap r p) = st_holders (rg_heap r p)"
    "\<not> st_acquiring (rg_heap r p)" "p < rg_next r" using q Some by (auto simp: quiet_def)
  have h: "holds r (k, p) = st_holders (rg_heap r p)" using Some by (simp add: holds_def)
  have "\<exists>fd. result = Inr fd" and r': "r' = snd (release k p r)"
    using rel st Some by (auto simp: release_def Let_def split: if_splits)
  moreover have "quiet r' \<and> holds r' = (holds r)((k, p) := st_holders (rg_heap r p) - 1)"
    by (rule quiet_update[OF q]) (use st in \<open>auto simp: Some r' release_def Let_def\<close>)
  ultimately show ?thesis by (simp add: h)
qed

lemma unix_Unlock_quiet:
  assumes "quiet (uw_registry w)" and "holds (uw_registry w) h > 0" and "unix_Unlock env h w = (c, w')"
  shows "quiet (uw_registry w') \<and> holds (uw_registry w') = (holds (uw_registry w))(h := holds (uw_registry w) h - 1)"
proof -
  obtain k p where h: "h = (k, p)" by fastforce
  obtain result r' where rel: "release k p (uw_registry w) = (result, r')" by fastforce
  from release_quiet[OF assms(1) _ rel] assms(2) h
  have "quiet r' \<and> holds r' = (holds (uw_registry w))(h := holds (uw_registry w) h - 1)" by blast
  moreover have "uw_registry w' = r'"
    using assms(3) h rel by (auto simp: unix_Unlock_def tick_def Let_def split: sum.splits option.splits)
  ultimately show ?thesis by simp
qed

lemma unix_ValidateCurrent_registry:
  "unix_ValidateCurrent env ns w = (c, w') \<Longrightarrow> uw_registry w' = uw_registry w"
  by (auto simp: unix_ValidateCurrent_def tick_def split: if_splits)

lemma tick_registry: "tick f w = (x, w') \<Longrightarrow> uw_registry w' = uw_registry w"
  by (auto simp: tick_def)

lemma unix_Acquire_quiet:
  assumes q: "quiet (uw_registry w)" and acq: "unix_Acquire env ns name a w = (outcome, w')"
  shows "quiet (uw_registry w') \<and> holds (uw_registry w') =
    (case outcome of Locked h \<Rightarrow> (holds (uw_registry w))(h := holds (uw_registry w) h + 1) | _ \<Rightarrow> holds (uw_registry w))"
proof (cases "access_validate a = Inr ()")
  case False
  with assms show ?thesis by (auto simp: unix_Acquire_def)
next
  case True
  obtain valid w1 where v: "unix_ValidateCurrent env ns w = (valid, w1)" by fastforce
  show ?thesis
  proof (cases "\<not> valid \<or> uw_closed w1")
    case True
    with acq v \<open>access_validate a = Inr ()\<close> have "outcome = LockFailed False" "w' = w1" by (auto simp: unix_Acquire_def)
    with q unix_ValidateCurrent_registry[OF v] show ?thesis by simp
  next
    case open1: False
    obtain oid w2 where o: "tick (\<lambda>t. en_record env t name) w1 = (oid, w2)" by fastforce
    show ?thesis
    proof (cases oid)
      case None
      with acq v open1 o \<open>access_validate a = Inr ()\<close> have "outcome = LockFailed False" "w' = w2"
        by (auto simp: unix_Acquire_def)
      with q unix_ValidateCurrent_registry[OF v] tick_registry[OF o] show ?thesis by simp
    next
      case (Some i)
      obtain c w3 where c: "tick (en_cancelled env) w2 = (c, w3)" by fastforce
      obtain cl w4 where cl: "tick (en_closes env) w3 = (cl, w4)" by fastforce
      obtain fl w5 where fl: "tick (en_flocked env) w4 = (fl, w5)" by fastforce
      let ?k = "\<lparr>directory = ns, record_name = name\<rparr>"
      obtain result r where r: "registry_acquire ?k i (Own (uw_clock w2)) a c cl fl (uw_registry w5) = (result, r)" by fastforce
      have reg: "uw_registry w5 = uw_registry w"
        using unix_ValidateCurrent_registry[OF v] tick_registry[OF o] tick_registry[OF c] tick_registry[OF cl] tick_registry[OF fl] by simp
      note rq = registry_acquire_quiet[OF q r[unfolded reg]]
      note step = True v open1 o Some c cl fl r
      show ?thesis
      proof (cases result)
        case (Inl e)
        with acq step have "outcome = LockFailed (e = Cancelled)" "w' = w5\<lparr>uw_registry := r\<rparr>"
          by (auto simp: unix_Acquire_def Let_def)
        with rq Inl show ?thesis by simp
      next
        case (Inr p)
        let ?w = "w5\<lparr>uw_registry := r\<rparr>" and ?h = "(?k, p)"
        have got: "quiet (uw_registry ?w)"
          "holds (uw_registry ?w) = (holds (uw_registry w))(?h := holds (uw_registry w) ?h + 1)"
          using rq Inr by simp_all
        have nonneg: "holds (uw_registry w) ?h \<ge> 0" using q by (auto simp: holds_def quiet_def order_less_imp_le)
        obtain v2 w6 where v2: "unix_ValidateCurrent env ns ?w = (v2, w6)" by fastforce
        obtain cur w7 where cur: "tick (en_current env) w6 = (cur, w7)" by fastforce
        note rv = unix_ValidateCurrent_registry[OF v2] tick_registry[OF cur]
        have undo: "quiet (uw_registry w'') \<and> holds (uw_registry w'') = holds (uw_registry w)"
          if "unix_Unlock env ?h x = (u, w'')" "uw_registry x = uw_registry ?w" for x u w''
        proof -
          have "quiet (uw_registry x)" "holds (uw_registry x) ?h > 0" using got nonneg that(2) by simp_all
          from unix_Unlock_quiet[OF this that(1)] that(2) got(2) show ?thesis by (simp add: fun_upd_idem)
        qed
        consider (invalid) "\<not> v2" | (changed) "v2" "\<not> cur" | (locked) "v2" "cur" by blast
        then show ?thesis
        proof cases
          case invalid
          obtain u w'' where u: "unix_Unlock env ?h w6 = (u, w'')" by fastforce
          with acq step Inr v2 invalid have "outcome = LockFailed False" "w' = w''" by (auto simp: unix_Acquire_def Let_def)
          with undo[OF u] rv show ?thesis by simp
        next
          case changed
          obtain u w'' where u: "unix_Unlock env ?h w7 = (u, w'')" by fastforce
          with acq step Inr v2 cur changed have "outcome = LockFailed False" "w' = w''" by (auto simp: unix_Acquire_def Let_def)
          with undo[OF u] rv show ?thesis by simp
        next
          case locked
          with acq step Inr v2 cur have "outcome = Locked ?h" "w' = w7" by (auto simp: unix_Acquire_def Let_def)
          with rv got show ?thesis by simp
        qed
      qed
    qed
  qed
qed

lemma unix_open_registry: "unix_open env w = (opened, w') \<Longrightarrow> uw_registry w' = uw_registry w"
proof -
  have "uw_registry (snd (unix_open env w)) = uw_registry w"
    by (simp add: unix_open_def tick_def split: option.split)
  then show "unix_open env w = (opened, w') \<Longrightarrow> uw_registry w' = uw_registry w" by simp
qed

lemma unix_Close_registry: "unix_Close env n w = (c, w') \<Longrightarrow> uw_registry w' = uw_registry w"
proof -
  have "uw_registry (snd (unix_Close env n w)) = uw_registry w" by (simp add: unix_Close_def tick_def)
  then show "unix_Close env n w = (c, w') \<Longrightarrow> uw_registry w' = uw_registry w" by simp
qed

interpretation unix: lease_runtime "unix_runtime env" "\<lambda>w. quiet (uw_registry w)" "\<lambda>w. holds (uw_registry w)"
proof
  fix w w' :: unixWorld and c n k a outcome r opened
  assume q: "quiet (uw_registry w)"
  show "ctxErr (unix_runtime env) w = (c, w') \<Longrightarrow>
      quiet (uw_registry w') \<and> holds (uw_registry w') = holds (uw_registry w)"
    using q tick_registry[of "en_cancelled env" w c w'] by (simp add: unix_runtime_def)
  show "openLeaseNamespace (unix_runtime env) w = (opened, w') \<Longrightarrow>
      quiet (uw_registry w') \<and> holds (uw_registry w') = holds (uw_registry w)"
    using q unix_open_registry[of env w opened w'] by (simp add: unix_runtime_def)
  show "ns_Close (unix_runtime env) n w = (c, w') \<Longrightarrow>
      quiet (uw_registry w') \<and> holds (uw_registry w') = holds (uw_registry w)"
    using q unix_Close_registry[of env n w c w'] by (simp add: unix_runtime_def)
  show "ns_Acquire (unix_runtime env) n k a w = (outcome, w') \<Longrightarrow>
      quiet (uw_registry w') \<and> holds (uw_registry w') =
        (case outcome of Locked r \<Rightarrow> (holds (uw_registry w))(r := holds (uw_registry w) r + 1) | _ \<Rightarrow> holds (uw_registry w))"
    using unix_Acquire_quiet[OF q] by (simp add: unix_runtime_def)
  show "holds (uw_registry w) r > 0 \<Longrightarrow> rec_Unlock (unix_runtime env) r w = (c, w') \<Longrightarrow>
      quiet (uw_registry w') \<and> holds (uw_registry w') = (holds (uw_registry w))(r := holds (uw_registry w) r - 1)"
    using unix_Unlock_quiet[OF q] by (simp add: unix_runtime_def)
qed

context lease_runtime begin

lemma acquire_held:
  assumes "inv w" and "\<And>r. held w r \<ge> 0" and "Acquire rt sha rootKey ctx ds w = (result, w')"
  shows "case result of
      Inl e \<Rightarrow> held w' = held w
    | Inr got \<Rightarrow> normalize rootKey ds = Inr (map hl_domain (ls_held got)) \<and> ls_domains got = ds \<and> \<not> ls_released got \<and>
        held w' = (\<lambda>r. held w r + lease_records (ls_held got) r) \<and> inv w'"
proof (cases ctx)
  case False
  with assms show ?thesis by (auto simp: Acquire_def)
next
  case True
  obtain c w1 where c: "ctxErr rt w = (c, w1)" by fastforce
  from read_ctx[OF assms(1) c] have w1: "inv w1" "held w1 = held w" by auto
  show ?thesis
  proof (cases "c \<or> ds = []")
    case True
    with assms(3) c w1 \<open>ctx\<close> show ?thesis by (auto simp: Acquire_def split: if_splits)
  next
    case go: False
    show ?thesis
    proof (cases "normalize rootKey ds")
      case (Inl e)
      with assms(3) c w1 go \<open>ctx\<close> show ?thesis by (auto simp: Acquire_def)
    next
      case (Inr normalized)
      obtain opened w2 where o: "openLeaseNamespace rt w1 = (opened, w2)" by fastforce
      from open_namespace[OF w1(1) o] w1 have w2: "inv w2" "held w2 = held w" by auto
      show ?thesis
      proof (cases opened)
        case None
        with assms(3) c w2 go Inr o \<open>ctx\<close> show ?thesis by (auto simp: Acquire_def)
      next
        case (Some ns)
        with assms(3) c go Inr o \<open>ctx\<close>
        have l: "acquire_loop rt sha ns normalized (new_leases ds ns) w2 = (result, w')" by (auto simp: Acquire_def)
        have "held w2 r = held w r + lease_records (ls_held (new_leases ds ns :: ('n, 'r) LeaseSet)) r" for r
          by (simp add: w2 new_leases_def)
        from acquire_loop_held[OF w2(1) this assms(2) _ l] Inr
        show ?thesis by (auto simp: new_leases_def split: sum.splits)
      qed
    qed
  qed
qed

text \<open>Releasing what was acquired restores what was held before, and releasing again changes nothing.\<close>

lemma acquire_release_held:
  assumes "inv w" and "\<And>r. held w r \<ge> 0" and "Acquire rt sha rootKey ctx ds w = (Inr got, w1)"
    and "Release rt got w1 = (err, got', w2)"
  shows "held w2 = held w \<and> ls_released got' \<and> (\<forall>w3. Release rt got' w3 = (err, got', w3))"
proof -
  from acquire_held[OF assms(1-3)] have h: "\<not> ls_released got" "held w1 = (\<lambda>r. held w r + lease_records (ls_held got) r)" "inv w1"
    by auto
  then have "held w1 r \<ge> lease_records (ls_held got) r" for r using assms(2)[of r] by simp
  from release_held[OF h(3,1) this assms(4)] h(2) have "held w2 = held w" by auto
  moreover have "ls_released got' \<and> (\<forall>w3. Release rt got' w3 = (err, got', w3))"
    using assms(4) h(1) by (auto simp: Release_def Let_def split: prod.splits)
  ultimately show ?thesis by blast
qed

end

section \<open>Rebinding keeps the locks sufficient\<close>

definition lease_view :: "Domain \<Rightarrow> uint8 \<times> AccessMode \<times> string \<times> string \<times> string \<times> string \<times> RouteContainment" where
  "lease_view d = (dm_kind d, dm_access d, if is_path_domain d then lease_of d else [], dm_target d, dm_scope d,
     dm_family d, dm_containment d)"

lemma list_ex_view:
  "map lease_view ds = map lease_view es \<Longrightarrow> (\<And>d e. lease_view d = lease_view e \<Longrightarrow> P d = P e) \<Longrightarrow> list_ex P ds = list_ex P es"
proof (induction ds arbitrary: es)
  case (Cons d ds)
  obtain e es' where es: "es = e # es'" "lease_view d = lease_view e" "map lease_view ds = map lease_view es'"
    using Cons.prems(1) by (cases es) simp_all
  have "list_ex P (x # xs) \<longleftrightarrow> P x \<or> list_ex P xs" for x xs by simp
  then show ?case unfolding es(1) using Cons.IH[OF es(3) Cons.prems(2)] Cons.prems(2)[OF es(2)] by blast
qed simp

lemma lease_view_path: "lease_view d = lease_view e \<Longrightarrow> is_path_domain d = is_path_domain e"
proof -
  assume "lease_view d = lease_view e"
  then have "dm_kind d = dm_kind e" unfolding lease_view_def by blast
  then show ?thesis by (simp only: is_path_domain_def)
qed

lemma same_view_locks:
  assumes v: "map lease_view ds = map lease_view es"
  shows "touches ds k = touches es k" "owns ds k = owns es k"
proof -
  have eq: "is_path_domain d = is_path_domain e" "is_path_domain d \<Longrightarrow> lease_of d = lease_of e" "dm_kind d = dm_kind e"
      "dm_access d = dm_access e" "dm_target d = dm_target e" "dm_scope d = dm_scope e" "route_key d = route_key e"
    if v: "lease_view d = lease_view e" for d e
  proof -
    show "is_path_domain d = is_path_domain e" by (rule lease_view_path[OF v])
    with v show "is_path_domain d \<Longrightarrow> lease_of d = lease_of e" by (simp add: lease_view_def)
    from v show f: "dm_kind d = dm_kind e" "dm_access d = dm_access e" "dm_target d = dm_target e" "dm_scope d = dm_scope e"
      unfolding lease_view_def by blast+
    from v have "dm_family d = dm_family e" "dm_containment d = dm_containment e" unfolding lease_view_def by blast+
    with f show "route_key d = route_key e" by (simp only: route_key_def)
  qed
  have paths: "owns_path ds p = owns_path es p" for p
    unfolding owns_path_def by (rule list_ex_view[OF v]) (use eq in metis)
  then have "owns_path ds = owns_path es" by blast
  then have cov: "covered_lease ds = covered_lease es" by (intro ext) (simp only: covered_lease_def)
  have rk: "list_ex (\<lambda>d. dm_kind d = domainHostRoute \<and> route_key d = k') ds = list_ex (\<lambda>d. dm_kind d = domainHostRoute \<and> route_key d = k') es" for k'
    by (rule list_ex_view[OF v]) (metis eq(3,7))
  show "touches ds k = touches es k"
  proof (cases k)
    case (KPath q)
    show ?thesis unfolding KPath touches.simps cov
    proof (rule list_ex_view[OF v])
      fix d e assume h: "lease_view d = lease_view e"
      show "(is_path_domain d \<and> \<not> covered_lease es (lease_of d) \<and> up_to q (lease_of d)) =
          (is_path_domain e \<and> \<not> covered_lease es (lease_of e) \<and> up_to q (lease_of e))"
      proof (cases "is_path_domain d")
        case True
        then have "is_path_domain e" "lease_of d = lease_of e" using eq(1,2)[OF h] by blast+
        with True show ?thesis by (simp only:)
      qed (use eq(1)[OF h] in blast)
    qed
  next
    case (KTarget t)
    show ?thesis unfolding KTarget touches.simps
    proof (rule list_ex_view[OF v])
      fix d e assume h: "lease_view d = lease_view e"
      show "(dm_kind d \<in> {domainPhysicalPath, domainHostRoute} \<and> dm_target d = t) =
          (dm_kind e \<in> {domainPhysicalPath, domainHostRoute} \<and> dm_target e = t)"
        by (simp only: eq(3)[OF h] eq(5)[OF h])
    qed
  next
    case (KScope t s)
    show ?thesis unfolding KScope touches.simps
    proof (rule list_ex_view[OF v])
      fix d e assume h: "lease_view d = lease_view e"
      show "(dm_kind d \<in> {domainPhysicalPath, domainHostRoute} \<and> dm_target d = t \<and> dm_scope d = s) =
          (dm_kind e \<in> {domainPhysicalPath, domainHostRoute} \<and> dm_target e = t \<and> dm_scope e = s)"
        by (simp only: eq(3)[OF h] eq(5)[OF h] eq(6)[OF h])
    qed
  next
    case (KRoute t s f)
    show ?thesis unfolding KRoute touches.simps by (rule rk)
  qed
  show "owns ds k = owns es k"
    by (cases k) (simp_all only: owns_def leaseKey.case paths cov rk)
qed

lemma collect_leases:
  assumes "foldM (collect_step rootKey) f ds = Inr f'" and "d \<in> set ds" and "is_path_domain d"
  shows "\<exists>l. leasePathIdentity d = Inr l"
  using assms
proof (induction ds arbitrary: f)
  case (Cons d' ds)
  then obtain f1 where f1: "collect_step rootKey f d' = Inr f1" "foldM (collect_step rootKey) f1 ds = Inr f'" by auto
  with Cons show ?case by (cases "d = d'") (auto simp: collect_step_def split: if_splits)
qed simp

lemma normalize_leases:
  assumes "normalize rootKey ds = Inr n" and "d \<in> set ds" and "is_path_domain d"
  shows "\<exists>l. leasePathIdentity d = Inr l"
proof -
  obtain f where "foldM (collect_step rootKey) no_facts ds = Inr f" using assms(1) by (auto simp: normalize_def)
  then show ?thesis using collect_leases assms(2,3) by blast
qed

lemma accepted_view:
  assumes "normalize rootKey ds = Inr n" and "acceptVisibilityDomains to_lower ds observed = Inr (Some ds')"
    and "normalize rootKey ds' = Inr n'"
  shows "map lease_view ds' = map lease_view ds"
proof -
  from accepted_visibility[OF assms(2)] have v: "length observed = length ds"
    "list_all2 (\<lambda>(d, identity) d'. accepts d identity d') (zip ds observed) ds'" by auto
  then have len: "length ds' = length ds" by (auto dest: list_all2_lengthD)
  have "lease_view (ds' ! i) = lease_view (ds ! i)" if i: "i < length ds" for i
  proof -
    from v i have acc: "accepts (ds ! i) (observed ! i) (ds' ! i)" by (auto simp: list_all2_conv_all_nth)
    show ?thesis
    proof (cases "is_path_domain (ds ! i)")
      case False
      with acc show ?thesis by (simp add: accepts_def)
    next
      case True
      then have same: "ds' ! i = rebound (ds ! i) (observed ! i)" using acc by (simp add: accepts_def)
      then have path: "is_path_domain (ds' ! i)" using True by (simp add: rebound_def is_path_domain_def)
      from normalize_leases[OF assms(1) _ True] i obtain l where l: "leasePathIdentity (ds ! i) = Inr l" by auto
      from normalize_leases[OF assms(3) _ path] i len obtain l' where l': "leasePathIdentity (ds' ! i) = Inr l'" by auto
      from accepts_lease[OF acc l l'] l l' have "lease_of (ds' ! i) = lease_of (ds ! i)" by (simp add: lease_of_def)
      with True path same show ?thesis by (simp add: lease_view_def rebound_def)
    qed
  qed
  with len show ?thesis by (simp add: list_eq_iff_nth_eq)
qed

lemma same_view_normal_form: "map lease_view ds = map lease_view es \<Longrightarrow> lease_normal_form ds n = lease_normal_form es n"
  using same_view_locks[of ds es] by (simp add: lease_normal_form_def)

lemma accepted_same_locks:
  assumes "normalize rootKey ds = Inr n" and "acceptVisibilityDomains to_lower ds observed = Inr (Some ds')"
    and "normalize rootKey ds' = Inr n'"
  shows "map key_access n' = map key_access n"
proof -
  have "lease_normal_form ds n" "lease_normal_form ds' n'" using normalize_normal_form assms(1,3) by auto
  with same_view_normal_form[OF accepted_view[OF assms]] have "lease_normal_form ds n'" by simp
  with \<open>lease_normal_form ds n\<close> show ?thesis by (intro normal_form_unique[of ds _ ds]) simp_all
qed

section \<open>Checking and rebinding a held set\<close>

text \<open>The checks every operation on a held set starts with. \<open>ctx\<close> says whether a context was given;
  a missing set is \<open>None\<close>.\<close>

definition require_active ::
  "('w, 'n, 'r) leaseRuntime \<Rightarrow> bool \<Rightarrow> ('n, 'r) LeaseSet option \<Rightarrow> 'w \<Rightarrow> (leaseError + ('n, 'r) LeaseSet \<times> 'n) \<times> 'w" where
  "require_active rt ctx leases w =
     (if \<not> ctx then (Inl LeaseContextRequired, w)
      else case leases of
        None \<Rightarrow> (Inl LeaseSetUninitialized, w)
      | Some ls \<Rightarrow>
          if ls_released ls \<or> ls_held ls = [] \<or> ls_domains ls = [] then (Inl LeaseSetInactive, w)
          else case ls_namespace ls of
            None \<Rightarrow> (Inl LeaseNamespaceUninitialized, w)
          | Some ns \<Rightarrow>
              let (valid, w) = ns_ValidateCurrent rt ns w in
              (if valid then Inr (ls, ns) else Inl LeaseNamespaceInvalid, w))"

fun match_domains ::
  "('w, 'n, 'r) leaseRuntime \<Rightarrow> (Domain \<Rightarrow> mutationError + bool) \<Rightarrow> Domain list \<Rightarrow> 'w \<Rightarrow> (leaseError + bool) \<times> 'w" where
  "match_domains rt matches [] w = (Inr True, w)"
| "match_domains rt matches (d # ds) w =
     (let (cancelled, w) = ctxErr rt w in
      if cancelled then (Inl LeaseContextError, w)
      else case matches d of
        Inl e \<Rightarrow> (Inl (LeaseDomainError e), w)
      | Inr m \<Rightarrow> if \<not> m then (Inr False, w) else match_domains rt matches ds w)"

definition domainsMatchCurrent ::
  "('w, 'n, 'r) leaseRuntime \<Rightarrow> (string \<Rightarrow> string) \<Rightarrow> bool \<Rightarrow> pathIdentityObserver \<Rightarrow> ('n, 'r) LeaseSet option \<Rightarrow> 'w \<Rightarrow>
    (leaseError + bool) \<times> 'w" where
  "domainsMatchCurrent rt to_lower ctx observe leases w =
     (case require_active rt ctx leases w of
        (Inl e, w) \<Rightarrow> (Inl e, w)
      | (Inr (ls, ns), w) \<Rightarrow> match_domains rt (matchesCurrentPath to_lower observe) (ls_domains ls) w)"

definition VisibilityAuthorityMatchesCurrent ::
  "('w, 'n, 'r) leaseRuntime \<Rightarrow> (string \<Rightarrow> string) \<Rightarrow> bool \<Rightarrow> pathIdentityObserver \<Rightarrow> pathIdentityObserver \<Rightarrow>
    ('n, 'r) LeaseSet option \<Rightarrow> 'w \<Rightarrow> (leaseError + bool) \<times> 'w" where
  "VisibilityAuthorityMatchesCurrent rt to_lower ctx canonical observe leases w =
     (case require_active rt ctx leases w of
        (Inl e, w) \<Rightarrow> (Inl e, w)
      | (Inr (ls, ns), w) \<Rightarrow>
          match_domains rt (visibilityAuthorityMatchesCurrent to_lower canonical observe) (ls_domains ls) w)"

definition CoversPhysicalAuthority :: "('n, 'r) LeaseSet option \<Rightarrow> Domain list \<Rightarrow> leaseError + bool" where
  "CoversPhysicalAuthority leases authority =
     (case leases of
        None \<Rightarrow> Inl LeaseSetUninitialized
      | Some ls \<Rightarrow>
          if ls_released ls \<or> ls_held ls = [] \<or> ls_domains ls = [] then Inl LeaseSetInactive
          else if list_ex (\<lambda>d. dm_kind d \<noteq> domainPhysicalPath \<or> dm_access d \<noteq> AccessExclusive) authority
          then Inl PhysicalAuthoritySetInvalid
          else lift_error (coversExclusiveDomains (ls_domains ls) authority))"

definition MatchCurrentPhysicalRequests ::
  "('w, 'n, 'r) leaseRuntime \<Rightarrow> (string \<Rightarrow> string) \<Rightarrow> bool \<Rightarrow> pathIdentityObserver \<Rightarrow> ('n, 'r) LeaseSet option \<Rightarrow>
    PhysicalAuthorityRequest list \<Rightarrow> 'w \<Rightarrow> (leaseError + bool) \<times> 'w" where
  "MatchCurrentPhysicalRequests rt to_lower ctx observe leases requests w =
     (case newPhysicalAuthoritySet observe requests of
        Inl e \<Rightarrow> (Inl (LeaseDomainError e), w)
      | Inr authority \<Rightarrow>
          case domainsMatchCurrent rt to_lower ctx observe leases w of
            (Inl e, w) \<Rightarrow> (Inl e, w)
          | (Inr matches, w) \<Rightarrow> if \<not> matches then (Inr False, w) else (CoversPhysicalAuthority leases authority, w))"

text \<open>The context's answer for each domain of the pass.\<close>

fun poll_domains :: "('w, 'n, 'r) leaseRuntime \<Rightarrow> Domain list \<Rightarrow> 'w \<Rightarrow> polledDomain list \<times> 'w" where
  "poll_domains rt [] w = ([], w)"
| "poll_domains rt (d # ds) w =
     (let (cancelled, w) = ctxErr rt w; (polled, w) = poll_domains rt ds w in ((cancelled, d) # polled, w))"

text \<open>\<open>observers\<close> are the observers of the workers.\<close>

definition AcceptVisibilityChanges ::
  "('w, 'n, 'r) leaseRuntime \<Rightarrow> (string \<Rightarrow> string) \<Rightarrow> bool \<Rightarrow> nat \<Rightarrow> (nat \<Rightarrow> pathIdentityObserver) \<Rightarrow>
    ('n, 'r) LeaseSet option \<Rightarrow> 'w \<Rightarrow> (leaseError + bool) \<times> ('n, 'r) LeaseSet option \<times> 'w" where
  "AcceptVisibilityChanges rt to_lower ctx gomaxprocs observers leases w =
     (case require_active rt ctx leases w of
        (Inl e, w) \<Rightarrow> (Inl e, leases, w)
      | (Inr (ls, ns), w) \<Rightarrow>
          let (polled, w) = poll_domains rt (ls_domains ls) w in
          case observeVisibilityDomains gomaxprocs observers polled of
            Inl e \<Rightarrow> (Inl e, leases, w)
          | Inr None \<Rightarrow> (Inr False, leases, w)
          | Inr (Some observed) \<Rightarrow>
              case acceptVisibilityDomains to_lower (ls_domains ls) observed of
                Inl e \<Rightarrow> (Inl (LeaseDomainError e), leases, w)
              | Inr None \<Rightarrow> (Inr False, leases, w)
              | Inr (Some accepted) \<Rightarrow>
                  let (valid, w) = ns_ValidateCurrent rt ns w in
                  if \<not> valid then (Inl LeaseNamespaceChanged, leases, w)
                  else (Inr True, Some (ls\<lparr>ls_domains := accepted\<rparr>), w))"

lemma require_active_Inr:
  assumes "require_active rt ctx leases w = (Inr (ls, ns), w')"
  shows "leases = Some ls \<and> \<not> ls_released ls \<and> ls_held ls \<noteq> [] \<and> ls_domains ls \<noteq> [] \<and> ls_namespace ls = Some ns"
  using assms by (auto simp: require_active_def Let_def split: if_splits option.splits prod.splits)

lemma accept_changes_cases:
  assumes "AcceptVisibilityChanges rt to_lower ctx gomaxprocs observers leases w = (result, leases', w')"
  obtains (unchanged) "leases' = leases" "result \<noteq> Inr True"
    | (accepted) ls observed accepted where "result = Inr True" "leases = Some ls" "\<not> ls_released ls"
      "acceptVisibilityDomains to_lower (ls_domains ls) observed = Inr (Some accepted)"
      "leases' = Some (ls\<lparr>ls_domains := accepted\<rparr>)"
proof -
  obtain r w1 where r: "require_active rt ctx leases w = (r, w1)" by fastforce
  show ?thesis
  proof (cases r)
    case (Inl e)
    with assms r show ?thesis by (intro unchanged) (auto simp: AcceptVisibilityChanges_def)
  next
    case (Inr p)
    then obtain ls ns where p: "r = Inr (ls, ns)" by (cases p) auto
    have ls: "leases = Some ls" "\<not> ls_released ls" using require_active_Inr[OF r[unfolded p]] by simp_all
    obtain polled w2 where c: "poll_domains rt (ls_domains ls) w1 = (polled, w2)" by fastforce
    show ?thesis
    proof (cases "observeVisibilityDomains gomaxprocs observers polled")
      case (Inl e)
      with assms r p c show ?thesis by (intro unchanged) (auto simp: AcceptVisibilityChanges_def)
    next
      case obs: (Inr o')
      show ?thesis
      proof (cases o')
        case None
        with assms r p c obs show ?thesis by (intro unchanged) (auto simp: AcceptVisibilityChanges_def)
      next
        case (Some observed)
        note step = assms r p c obs Some
        show ?thesis
        proof (cases "acceptVisibilityDomains to_lower (ls_domains ls) observed")
          case (Inl e)
          with step show ?thesis by (intro unchanged) (auto simp: AcceptVisibilityChanges_def)
        next
          case acc: (Inr a)
          show ?thesis
          proof (cases a)
            case None
            with step acc show ?thesis by (intro unchanged) (auto simp: AcceptVisibilityChanges_def)
          next
            case (Some got)
            obtain valid w3 where v: "ns_ValidateCurrent rt ns w2 = (valid, w3)" by fastforce
            show ?thesis
            proof (cases valid)
              case True
              with step acc Some v ls show ?thesis by (intro accepted[of ls observed got]) (simp_all add: AcceptVisibilityChanges_def)
            next
              case False
              with step acc Some v show ?thesis by (intro unchanged) (auto simp: AcceptVisibilityChanges_def)
            qed
          qed
        qed
      qed
    qed
  qed
qed

section \<open>Properties of lease sets\<close>

lemma quiet_holds: "quiet r \<Longrightarrow> holds r h \<ge> 0"
  by (cases h) (auto simp: holds_def quiet_def order_less_imp_le)


text \<open>C32: releasing an acquired set gives every record back exactly once: the registry holds what it held
  before the acquisition, whatever the unlock and close calls report, and releasing again changes nothing and
  returns the first result.\<close>

theorem release_restores_registry:
  assumes "quiet (uw_registry w)" and "Acquire (unix_runtime env) sha rootKey ctx ds w = (Inr got, w1)"
    and "Release (unix_runtime env) got w1 = (err, got', w2)"
  shows "holds (uw_registry w2) = holds (uw_registry w) \<and> ls_released got' \<and>
    (\<forall>w3. Release (unix_runtime env) got' w3 = (err, got', w3))"
  using unix.acquire_release_held[OF assms(1) quiet_holds[OF assms(1)] assms(2,3)] .

text \<open>C33: rebinding a held set after an effect changes nothing but its domains, only when it reports success,
  and the locks it holds stay the locks its new domains need: whenever the domains before and after normalize,
  they normalize to the same records in the same modes.\<close>

theorem accept_changes_keeps_locks:
  assumes "AcceptVisibilityChanges rt to_lower ctx gomaxprocs observers (Some ls) w = (result, leases', w')"
  shows "\<exists>ds. leases' = Some (ls\<lparr>ls_domains := ds\<rparr>) \<and> (result \<noteq> Inr True \<longrightarrow> ds = ls_domains ls) \<and>
    length ds = length (ls_domains ls) \<and>
    (\<forall>n n'. normalize rootKey (ls_domains ls) = Inr n \<longrightarrow> normalize rootKey ds = Inr n' \<longrightarrow>
       map key_access n' = map key_access n)"
  using assms
proof (cases rule: accept_changes_cases)
  case unchanged
  then show ?thesis by (intro exI[of _ "ls_domains ls"]) simp
next
  case (accepted ls' observed got)
  have "length got = length (ls_domains ls)"
    using accepted_visibility[OF accepted(4)] accepted(2) by (auto dest: list_all2_lengthD)
  with accepted show ?thesis using accepted_same_locks[OF _ accepted(4)] by (intro exI[of _ got]) auto
qed

section \<open>A run against the Unix namespace\<close>

definition sample_env :: unixEnvironment where
  "sample_env = \<lparr>en_cancelled = (\<lambda>_. False), en_opens = (\<lambda>_. Some \<lparr>device = 1, inode = 2\<rparr>), en_valid = (\<lambda>_. True),
     en_record = (\<lambda>t name. Some \<lparr>device = 1, inode = of_nat t\<rparr>), en_current = (\<lambda>_. True), en_closes = (\<lambda>_. True),
     en_flocked = (\<lambda>_. FlockGranted)\<rparr>"

definition sample_world :: unixWorld where
  "sample_world = \<lparr>uw_registry = empty_registry, uw_closed = False, uw_clock = 0\<rparr>"

definition sample_route :: "Domain list" where
  "sample_route = [zero_Domain\<lparr>dm_kind := domainHostRoute, dm_access := AccessExclusive, dm_target := ''t'',
     dm_scope := ''s'', dm_family := ''f'', dm_containment := RouteContainmentScope\<rparr>]"

definition sample_acquired :: "(acquireError + (unixLeaseObjectID, unixProcessLease) LeaseSet) \<times> unixWorld" where
  "sample_acquired = Acquire (unix_runtime sample_env) id sample_root True sample_route sample_world"

definition acquired_set :: "acquireError + ('n, 'r) LeaseSet \<Rightarrow> ('n, 'r) LeaseSet" where
  "acquired_set r = (case r of Inl e \<Rightarrow> \<lparr>ls_domains = [], ls_held = [], ls_namespace = None, ls_released = True, ls_err = []\<rparr> | Inr ls \<Rightarrow> ls)"

lemma sample_world_quiet: "quiet (uw_registry sample_world)"
  by (simp add: sample_world_def empty_registry_def quiet_def)

lemma sample_route_locks: "normalize sample_root sample_route =
   Inr [\<lparr>nd_key = ''10:host-scope1:t1:s'', nd_label = LabelHostScope ''t'' ''s'', nd_access = AccessExclusive\<rparr>,
        \<lparr>nd_key = ''11:host-target1:t'', nd_label = LabelHostTarget ''t'', nd_access = AccessShared\<rparr>]"
  by code_simp

lemma sample_route_nonempty: "sample_route \<noteq> []"
  by (simp add: sample_route_def)

lemma sample_length: "\<exists>got w. sample_acquired = (Inr got, w) \<and> length (ls_held got) = 2"
  unfolding sample_acquired_def
  by (simp add: Acquire_def unix_runtime_def sample_route_locks tick_def unix_open_def sample_env_def sample_world_def
      unix_Acquire_def unix_ValidateCurrent_def registry_acquire_def enter_def acquire_iteration_def acquire_flocked_def
      Let_def new_leases_def sample_route_nonempty access_validate_def empty_registry_def new_state_def lockRecordName_def
      AccessShared_def AccessExclusive_def)


theorem release_restores_registry_witness:
  "\<exists>got w1 err got' w2. sample_acquired = (Inr got, w1) \<and> Release (unix_runtime sample_env) got w1 = (err, got', w2) \<and>
     length (ls_held got) = 2 \<and> holds (uw_registry w2) = holds (uw_registry sample_world)"
proof -
  obtain got w1 where s: "sample_acquired = (Inr got, w1)" "length (ls_held got) = 2" using sample_length by blast
  obtain err got' w2 where r: "Release (unix_runtime sample_env) got w1 = (err, got', w2)" by (metis prod_cases3)
  from release_restores_registry[OF sample_world_quiet s(1)[unfolded sample_acquired_def] r] s r show ?thesis by blast
qed

definition sample_held :: "(unixLeaseObjectID, unixProcessLease) LeaseSet" where
  "sample_held = \<lparr>ls_domains = [sample_domain ''/home/A'', sample_domain ''/home/b''],
     ls_held = [\<lparr>hl_domain = \<lparr>nd_key = ''4:path1:/'', nd_label = LabelPath ''/'', nd_access = AccessShared\<rparr>,
                  hl_record = (\<lparr>directory = zero_id, record_name = ''r''\<rparr>, 0)\<rparr>],
     ls_namespace = Some zero_id, ls_released = False, ls_err = []\<rparr>"

definition sample_files :: pathIdentityObserver where
  "sample_files p e = Inr (sample_identity (if p = ''/home/A'' then ''/home/a'' else p))"

theorem accept_changes_keeps_locks_witness:
  "\<exists>leases' w'. AcceptVisibilityChanges (unix_runtime sample_env) id True 4 (\<lambda>_. sample_files) (Some sample_held) sample_world =
      (Inr True, leases', w') \<and> (\<exists>ds. leases' = Some (sample_held\<lparr>ls_domains := ds\<rparr>) \<and> length ds = 2)"
proof -
  obtain result leases' w' where r: "AcceptVisibilityChanges (unix_runtime sample_env) id True 4 (\<lambda>_. sample_files)
      (Some sample_held) sample_world = (result, leases', w')" by (metis prod_cases3)
  have "fst (AcceptVisibilityChanges (unix_runtime sample_env) id True 4 (\<lambda>_. sample_files) (Some sample_held) sample_world) = Inr True"
    by code_simp
  with r have "result = Inr True" by simp
  moreover from accept_changes_keeps_locks[OF r] obtain ds where "leases' = Some (sample_held\<lparr>ls_domains := ds\<rparr>)"
    "length ds = length (ls_domains sample_held)" by blast
  moreover have "length (ls_domains sample_held) = 2" by (simp add: sample_held_def)
  ultimately show ?thesis using r by auto
qed

end
