(* ===== verification/LeaseProtocol.thy ===== *)
theory LeaseProtocol
  imports LeaseSets
begin

text \<open>
  Several processes acquiring and releasing lease sets at the same time, the loops of
  \<^verbatim>\<open>Store.Acquire\<close> and \<^verbatim>\<open>LeaseSet.Release\<close> in \<^verbatim>\<open>internal/effect/mutation/lease.go\<close> run
  against reader-writer locks (\<^verbatim>\<open>LeaseRegistry\<close>): one step per lock operation, interleaved in any
  order. Lock records are identified by their keys, the digest in their file names being free of collisions.
\<close>

section \<open>Clients\<close>

text \<open>\<open>Taking i\<close> has acquired the first \<open>i\<close> locks of its normalized list, \<open>Active\<close> holds the acquired
  set, \<open>Giving i\<close> has yet to release its first \<open>i\<close> locks.\<close>

datatype clientPhase = Taking nat | Active | Giving nat | Gone

record leaseClient =
  cl_domains :: "Domain list"
  cl_locks :: "normalizedDomain list"
  cl_phase :: clientPhase

fun locks_held :: "clientPhase \<Rightarrow> normalizedDomain list \<Rightarrow> normalizedDomain list" where
  "locks_held (Taking i) ls = take i ls"
| "locks_held Active ls = ls"
| "locks_held (Giving i) ls = take i ls"
| "locks_held Gone ls = []"

definition client_held :: "leaseClient \<Rightarrow> normalizedDomain list" where
  "client_held c = locks_held (cl_phase c) (cl_locks c)"

definition agree :: "normalizedDomain \<Rightarrow> normalizedDomain \<Rightarrow> bool" where
  "agree a b \<longleftrightarrow> nd_key a \<noteq> nd_key b \<or> compatible (nd_access a) (nd_access b)"

text \<open>The lock is granted when every lock another client holds agrees with it.\<close>

definition lock_free :: "leaseClient list \<Rightarrow> nat \<Rightarrow> normalizedDomain \<Rightarrow> bool" where
  "lock_free cs p d \<longleftrightarrow>
     list_all (\<lambda>j. j = p \<or> list_all (agree d) (client_held (cs ! j))) [0..<length cs]"

datatype leaseEvent = TakeLock | Acquired | GiveUp | Finish | GiveLock | Leave

definition set_phase :: "leaseClient list \<Rightarrow> nat \<Rightarrow> clientPhase \<Rightarrow> leaseClient list" where
  "set_phase cs p ph = cs[p := (cs ! p)\<lparr>cl_phase := ph\<rparr>]"

inductive lease_step :: "leaseClient list \<Rightarrow> leaseEvent \<Rightarrow> leaseClient list \<Rightarrow> bool" where
  take_lock: "p < length cs \<Longrightarrow> cl_phase (cs ! p) = Taking i \<Longrightarrow> i < length (cl_locks (cs ! p)) \<Longrightarrow>
    lock_free cs p (cl_locks (cs ! p) ! i) \<Longrightarrow> lease_step cs TakeLock (set_phase cs p (Taking (Suc i)))"
| acquired: "p < length cs \<Longrightarrow> cl_phase (cs ! p) = Taking (length (cl_locks (cs ! p))) \<Longrightarrow>
    lease_step cs Acquired (set_phase cs p Active)"
| give_up: "p < length cs \<Longrightarrow> cl_phase (cs ! p) = Taking i \<Longrightarrow> lease_step cs GiveUp (set_phase cs p (Giving i))"
| finish: "p < length cs \<Longrightarrow> cl_phase (cs ! p) = Active \<Longrightarrow>
    lease_step cs Finish (set_phase cs p (Giving (length (cl_locks (cs ! p)))))"
| give_lock: "p < length cs \<Longrightarrow> cl_phase (cs ! p) = Giving (Suc i) \<Longrightarrow> lease_step cs GiveLock (set_phase cs p (Giving i))"
| leave: "p < length cs \<Longrightarrow> cl_phase (cs ! p) = Giving 0 \<Longrightarrow> lease_step cs Leave (set_phase cs p Gone)"

definition some_step :: "leaseClient list \<Rightarrow> leaseClient list \<Rightarrow> bool" where
  "some_step cs cs' \<longleftrightarrow> (\<exists>e. lease_step cs e cs')"

definition lease_start :: "string \<Rightarrow> leaseClient list \<Rightarrow> bool" where
  "lease_start rootKey cs \<longleftrightarrow>
     list_all (\<lambda>c. cl_phase c = Taking 0 \<and> normalize rootKey (cl_domains c) = Inr (cl_locks c)) cs"

definition lease_reachable :: "string \<Rightarrow> leaseClient list \<Rightarrow> bool" where
  "lease_reachable rootKey cs \<longleftrightarrow> (\<exists>cs0. lease_start rootKey cs0 \<and> some_step\<^sup>*\<^sup>* cs0 cs)"

section \<open>The invariant\<close>

fun phase_ok :: "clientPhase \<Rightarrow> nat \<Rightarrow> bool" where
  "phase_ok (Taking i) n \<longleftrightarrow> i \<le> n"
| "phase_ok (Giving i) n \<longleftrightarrow> i \<le> n"
| "phase_ok _ n \<longleftrightarrow> True"

definition clients_ok :: "string \<Rightarrow> leaseClient list \<Rightarrow> bool" where
  "clients_ok rootKey cs \<longleftrightarrow>
     (\<forall>c \<in> set cs. normalize rootKey (cl_domains c) = Inr (cl_locks c) \<and> phase_ok (cl_phase c) (length (cl_locks c))) \<and>
     (\<forall>p < length cs. \<forall>q < length cs. p \<noteq> q \<longrightarrow>
        (\<forall>a \<in> set (client_held (cs ! p)). \<forall>b \<in> set (client_held (cs ! q)). agree a b))"

lemma agree_sym: "agree a b = agree b a"
  by (auto simp: agree_def compatible_def)

lemma set_phase_simps [simp]:
  "length (set_phase cs p ph) = length cs"
  "p < length cs \<Longrightarrow> set_phase cs p ph ! p = (cs ! p)\<lparr>cl_phase := ph\<rparr>"
  "q \<noteq> p \<Longrightarrow> set_phase cs p ph ! q = cs ! q"
  by (simp_all add: set_phase_def)

text \<open>A client that changes its phase, and what it may newly hold.\<close>

lemma clients_ok_phase:
  assumes ok: "clients_ok rootKey cs" and p: "p < length cs" and ph: "phase_ok ph (length (cl_locks (cs ! p)))"
    and new: "\<And>d. d \<in> set (locks_held ph (cl_locks (cs ! p))) \<Longrightarrow> d \<in> set (client_held (cs ! p)) \<or> lock_free cs p d"
  shows "clients_ok rootKey (set_phase cs p ph)"
proof -
  let ?cs = "set_phase cs p ph"
  have agree: "agree a b" if q: "q < length cs" "q \<noteq> p" and a: "a \<in> set (locks_held ph (cl_locks (cs ! p)))"
    and b: "b \<in> set (client_held (cs ! q))" for q a b
    using new[OF a]
  proof
    assume "a \<in> set (client_held (cs ! p))"
    then show ?thesis using ok p q b unfolding clients_ok_def by blast
  next
    assume "lock_free cs p a"
    then show ?thesis using q b by (auto simp: lock_free_def list_all_iff)
  qed
  have "agree a b" if h: "i < length cs" "j < length cs" "i \<noteq> j" "a \<in> set (client_held (?cs ! i))" "b \<in> set (client_held (?cs ! j))" for i j a b
  proof -
    consider "i = p" "j \<noteq> p" | "i \<noteq> p" "j = p" | "i \<noteq> p" "j \<noteq> p" using h(3) by blast
    then show ?thesis
    proof cases
      case 1
      then show ?thesis using agree[OF h(2)] h(4,5) p by (simp add: client_held_def)
    next
      case 2
      then show ?thesis using agree[OF h(1)] h(4,5) p by (simp add: client_held_def agree_sym[of a])
    next
      case 3
      then show ?thesis using ok h unfolding clients_ok_def by simp
    qed
  qed
  moreover have "normalize rootKey (cl_domains c) = Inr (cl_locks c) \<and> phase_ok (cl_phase c) (length (cl_locks c))"
    if "c \<in> set ?cs" for c
  proof -
    from that obtain i where i: "i < length cs" "c = ?cs ! i" by (auto simp: in_set_conv_nth)
    have m: "cs ! i \<in> set cs" using i(1) by simp
    show ?thesis using ok m i ph unfolding clients_ok_def by (cases "i = p") auto
  qed
  ultimately show ?thesis by (simp add: clients_ok_def)
qed

lemma clients_ok_step: "lease_step cs e cs' \<Longrightarrow> clients_ok rootKey cs \<Longrightarrow> clients_ok rootKey cs'"
proof (induction rule: lease_step.induct)
  case (take_lock p cs i)
  then show ?case by (intro clients_ok_phase) (auto simp: client_held_def take_Suc_conv_app_nth)
next
  case (give_up p cs i)
  then have "cs ! p \<in> set cs" by simp
  with give_up have "phase_ok (Taking i) (length (cl_locks (cs ! p)))" unfolding clients_ok_def by metis
  with give_up show ?case by (intro clients_ok_phase) (auto simp: client_held_def)
next
  case (give_lock p cs i)
  then have "cs ! p \<in> set cs" by simp
  with give_lock have "phase_ok (Giving (Suc i)) (length (cl_locks (cs ! p)))" unfolding clients_ok_def by metis
  with give_lock show ?case by (intro clients_ok_phase) (auto simp: client_held_def take_Suc_conv_app_nth)
qed (auto intro!: clients_ok_phase simp: client_held_def)

lemma reachable_clients_ok:
  assumes "lease_reachable rootKey cs"
  shows "clients_ok rootKey cs"
proof -
  from assms obtain cs0 where s: "lease_start rootKey cs0" "some_step\<^sup>*\<^sup>* cs0 cs" by (auto simp: lease_reachable_def)
  from s(2) show ?thesis
  proof (induction rule: rtranclp_induct)
    case base
    have "client_held (cs0 ! p) = []" if "p < length cs0" for p
      using s(1) that by (simp add: lease_start_def client_held_def list_all_length)
    then show ?case using s(1) by (auto simp: clients_ok_def lease_start_def list_all_iff)
  next
    case (step cs1 cs2)
    then show ?case using clients_ok_step by (auto simp: some_step_def)
  qed
qed

section \<open>Mutual exclusion, progress and termination\<close>

lemma held_apart:
  assumes "clients_ok rootKey cs" "p < length cs" "q < length cs" "p \<noteq> q" "cl_phase (cs ! p) = Active" "cl_phase (cs ! q) = Active"
  shows "\<not> locks_meet (cl_locks (cs ! p)) (cl_locks (cs ! q))"
proof
  assume "locks_meet (cl_locks (cs ! p)) (cl_locks (cs ! q))"
  then obtain a b where ab: "a \<in> set (cl_locks (cs ! p))" "b \<in> set (cl_locks (cs ! q))" "nd_key a = nd_key b"
    "nd_access a = AccessExclusive \<or> nd_access b = AccessExclusive"
    by (auto simp: locks_meet_def list_ex_iff)
  then have "agree a b" using assms unfolding clients_ok_def client_held_def by (metis locks_held.simps(2))
  with ab show False by (auto simp: agree_def compatible_def AccessShared_def AccessExclusive_def)
qed

lemma sorted_locks: "normalize rootKey ds = Inr n \<Longrightarrow> sorted_wrt (\<lambda>a b. nd_key a < nd_key b) n"
  using normalize_normal_form by (simp add: lease_normal_form_def)

text \<open>Among the clients that wait, the one that waits for the largest key is blocked by nobody who waits.\<close>

lemma some_progress:
  assumes ok: "clients_ok rootKey cs" and p0: "p0 < length cs" "cl_phase (cs ! p0) \<noteq> Gone"
  shows "\<exists>e cs'. lease_step cs e cs' \<and> e \<noteq> GiveUp"
proof (rule ccontr)
  assume stuck: "\<not> ?thesis"
  have waiting: "\<exists>i < length (cl_locks (cs ! p)). cl_phase (cs ! p) = Taking i \<and> \<not> lock_free cs p (cl_locks (cs ! p) ! i)"
    if p: "p < length cs" "cl_phase (cs ! p) \<noteq> Gone" for p
  proof (cases "cl_phase (cs ! p)")
    case (Taking i)
    have "cs ! p \<in> set cs" using p by simp
    then have "i \<le> length (cl_locks (cs ! p))" using ok Taking unfolding clients_ok_def by (metis phase_ok.simps(1))
    moreover have "i \<noteq> length (cl_locks (cs ! p))" using stuck lease_step.acquired[OF p(1)] Taking by fastforce
    moreover have "\<not> lock_free cs p (cl_locks (cs ! p) ! i)" if "i < length (cl_locks (cs ! p))"
      using stuck lease_step.take_lock[OF p(1) Taking that] by fastforce
    ultimately show ?thesis using Taking by fastforce
  next
    case Active
    then show ?thesis using stuck lease_step.finish[OF p(1)] by fastforce
  next
    case (Giving i)
    then show ?thesis using stuck lease_step.give_lock[OF p(1)] lease_step.leave[OF p(1)] by (cases i) fastforce+
  qed (use p in simp)
  let ?W = "{p. p < length cs \<and> cl_phase (cs ! p) \<noteq> Gone}"
  define key where "key p = (case cl_phase (cs ! p) of Taking i \<Rightarrow> nd_key (cl_locks (cs ! p) ! i) | _ \<Rightarrow> [])" for p
  have "finite ?W" "?W \<noteq> {}" using p0 by auto
  then have "Max (key ` ?W) \<in> key ` ?W" by (intro Max_in) auto
  then obtain p where p: "p \<in> ?W" "key p = Max (key ` ?W)" by auto
  then obtain i where i: "i < length (cl_locks (cs ! p))" "cl_phase (cs ! p) = Taking i" "\<not> lock_free cs p (cl_locks (cs ! p) ! i)"
    using waiting by blast
  let ?d = "cl_locks (cs ! p) ! i"
  from i(3) obtain j e where j: "j < length cs" "e \<in> set (client_held (cs ! j))" "\<not> agree ?d e"
    by (auto simp: lock_free_def list_all_iff)
  then have "cl_phase (cs ! j) \<noteq> Gone" by (auto simp: client_held_def)
  with waiting[OF j(1)] obtain m where m: "m < length (cl_locks (cs ! j))" "cl_phase (cs ! j) = Taking m" by blast
  have "cs ! j \<in> set cs" using j(1) by simp
  then have "sorted_wrt (\<lambda>a b. nd_key a < nd_key b) (cl_locks (cs ! j))"
    using ok sorted_locks unfolding clients_ok_def by blast
  moreover from j(2) m obtain l where "l < m" "e = cl_locks (cs ! j) ! l"
    by (auto simp: client_held_def in_set_conv_nth)
  ultimately have "nd_key e < nd_key (cl_locks (cs ! j) ! m)" using m(1) by (simp add: sorted_wrt_iff_nth_less)
  then have "key p < key j" using i(2) m(2) j(3) by (simp add: key_def agree_def)
  moreover have "key j \<le> Max (key ` ?W)" using \<open>finite ?W\<close> j(1) \<open>cl_phase (cs ! j) \<noteq> Gone\<close> by (intro Max_ge) auto
  ultimately show False using p(2) by simp
qed

text \<open>Every client takes at most twice as many steps as it has locks, and three more.\<close>

fun phase_steps :: "clientPhase \<Rightarrow> nat \<Rightarrow> nat" where
  "phase_steps (Taking i) n = (n - i) + n + 3"
| "phase_steps Active n = n + 2"
| "phase_steps (Giving i) n = i + 1"
| "phase_steps Gone n = 0"

definition steps_left :: "leaseClient list \<Rightarrow> nat" where
  "steps_left cs = sum_list (map (\<lambda>c. phase_steps (cl_phase c) (length (cl_locks c))) cs)"

lemma steps_left_phase:
  assumes "p < length cs" and "phase_steps ph (length (cl_locks (cs ! p))) < phase_steps (cl_phase (cs ! p)) (length (cl_locks (cs ! p)))"
  shows "steps_left (set_phase cs p ph) < steps_left cs"
  using assms
proof (induction cs arbitrary: p)
  case (Cons c cs)
  then show ?case by (cases p) (auto simp: steps_left_def set_phase_def)
qed simp

lemma step_decreases: "lease_step cs e cs' \<Longrightarrow> clients_ok rootKey cs \<Longrightarrow> steps_left cs' < steps_left cs"
proof (induction rule: lease_step.induct)
  case (give_up p cs i)
  then have "cs ! p \<in> set cs" by simp
  with give_up have "phase_ok (Taking i) (length (cl_locks (cs ! p)))" unfolding clients_ok_def by metis
  with give_up show ?case by (intro steps_left_phase) auto
qed (auto intro!: steps_left_phase)

lemma run_length:
  assumes "(some_step ^^ n) cs cs'" "clients_ok rootKey cs"
  shows "n + steps_left cs' \<le> steps_left cs \<and> clients_ok rootKey cs'"
  using assms
proof (induction n arbitrary: cs')
  case (Suc n)
  then obtain m where m: "(some_step ^^ n) cs m" "some_step m cs'" by auto
  with Suc have "n + steps_left m \<le> steps_left cs" "clients_ok rootKey m" by auto
  with m(2) step_decreases clients_ok_step show ?case by (fastforce simp: some_step_def)
qed simp

section \<open>Properties\<close>

text \<open>C16: no two lease sets held at the same time conflict: whatever the interleaving of the lock operations
  and however many acquisitions were abandoned, the domains of two active clients do not claim each other.\<close>

theorem active_leases_never_conflict:
  assumes "lease_reachable rootKey cs" and "p < length cs" and "q < length cs" and "p \<noteq> q"
    and "cl_phase (cs ! p) = Active" and "cl_phase (cs ! q) = Active"
    and "clean_leases (cl_domains (cs ! p))" and "clean_leases (cl_domains (cs ! q))"
  shows "\<not> conflict (cl_domains (cs ! p)) (cl_domains (cs ! q))"
proof -
  have ok: "clients_ok rootKey cs" by (rule reachable_clients_ok[OF assms(1)])
  then have "normalize rootKey (cl_domains (cs ! p)) = Inr (cl_locks (cs ! p))"
    "normalize rootKey (cl_domains (cs ! q)) = Inr (cl_locks (cs ! q))"
    using assms(2,3) by (simp_all add: clients_ok_def)
  from locks_meet_conflict[OF this assms(7,8)] held_apart[OF ok assms(2-6)] show ?thesis by blast
qed

text \<open>C17: acquiring in key order cannot deadlock: in a reachable state with a client that has not left, some
  client can take its next lock, complete, release a lock or leave, without anybody giving up; and every run from
  there ends, within twice the number of lock records and three more steps for each client.\<close>

theorem leases_progress_and_terminate:
  assumes "lease_reachable rootKey cs"
  shows "((\<exists>p < length cs. cl_phase (cs ! p) \<noteq> Gone) \<longrightarrow> (\<exists>e cs'. lease_step cs e cs' \<and> e \<noteq> GiveUp)) \<and>
    (\<forall>n cs'. (some_step ^^ n) cs cs' \<longrightarrow> n \<le> sum_list (map (\<lambda>c. 2 * length (cl_locks c) + 3) cs))"
proof -
  have ok: "clients_ok rootKey cs" by (rule reachable_clients_ok[OF assms])
  have "steps_left cs \<le> sum_list (map (\<lambda>c. 2 * length (cl_locks c) + 3) cs)"
    unfolding steps_left_def
  proof (rule sum_list_mono)
    fix c assume "c \<in> set cs"
    then have "phase_ok (cl_phase c) (length (cl_locks c))" using ok by (simp add: clients_ok_def)
    then show "phase_steps (cl_phase c) (length (cl_locks c)) \<le> 2 * length (cl_locks c) + 3"
      by (cases "cl_phase c") auto
  qed
  then have "n \<le> sum_list (map (\<lambda>c. 2 * length (cl_locks c) + 3) cs)" if "(some_step ^^ n) cs cs'" for n cs'
    using run_length[OF that ok] by linarith
  with some_progress[OF ok] show ?thesis by blast
qed

section \<open>Two readers and a writer\<close>

definition sample_client :: "Domain list \<Rightarrow> clientPhase \<Rightarrow> leaseClient" where
  "sample_client ds ph = \<lparr>cl_domains = ds, cl_locks = lease_result (normalize sample_root ds), cl_phase = ph\<rparr>"

definition sample_free :: "Domain list" where
  "sample_free = [sample_lease ''/v'' AccessExclusive]"

abbreviation sample_clients :: "clientPhase \<Rightarrow> clientPhase \<Rightarrow> leaseClient list" where
  "sample_clients a b \<equiv> [sample_client sample_writer a, sample_client sample_free b]"

lemma sample_client_sel [simp]:
  "cl_domains (sample_client ds ph) = ds" "cl_locks (sample_client ds ph) = lease_result (normalize sample_root ds)"
  "cl_phase (sample_client ds ph) = ph" "sample_client ds ph\<lparr>cl_phase := ph'\<rparr> = sample_client ds ph'"
  by (simp_all add: sample_client_def)

lemma sample_lengths: "length (lease_result (normalize sample_root sample_writer)) = 3"
  "length (lease_result (normalize sample_root sample_free)) = 2"
  by code_simp+

lemma sample_locks_free:
  "list_all (\<lambda>i. lock_free (sample_clients (Taking 3) (Taking i)) 1 (lease_result (normalize sample_root sample_free) ! i)) [0, 1]"
  by code_simp

lemma sample_step: "lease_step cs e cs' \<Longrightarrow> cs' = cs'' \<Longrightarrow> some_step cs cs''"
  by (auto simp: some_step_def)

lemma sample_first: "i < 3 \<Longrightarrow> some_step (sample_clients (Taking i) (Taking 0)) (sample_clients (Taking (Suc i)) (Taking 0))"
  using lease_step.take_lock[of 0 "sample_clients (Taking i) (Taking 0)" i]
  by (simp add: sample_lengths lock_free_def client_held_def set_phase_def some_step_def) blast

lemma sample_second: "i < 2 \<Longrightarrow> some_step (sample_clients (Taking 3) (Taking i)) (sample_clients (Taking 3) (Taking (Suc i)))"
proof -
  assume i: "i < 2"
  then have "lock_free (sample_clients (Taking 3) (Taking i)) 1 (lease_result (normalize sample_root sample_free) ! i)"
    using sample_locks_free by (auto simp: less_Suc_eq numeral_2_eq_2)
  with i lease_step.take_lock[of 1 "sample_clients (Taking 3) (Taking i)" i] show ?thesis
    by (simp add: sample_lengths set_phase_def some_step_def) blast
qed

lemma sample_done: "some_step (sample_clients (Taking 3) (Taking 2)) (sample_clients Active (Taking 2))"
  "some_step (sample_clients Active (Taking 2)) (sample_clients Active Active)"
  using lease_step.acquired[of 0 "sample_clients (Taking 3) (Taking 2)"]
    lease_step.acquired[of 1 "sample_clients Active (Taking 2)"]
  by (simp_all add: sample_lengths set_phase_def some_step_def) blast+

lemma sample_run: "some_step\<^sup>*\<^sup>* (sample_clients (Taking 0) (Taking 0)) (sample_clients Active Active)"
proof -
  have "some_step\<^sup>*\<^sup>* (sample_clients (Taking 0) (Taking 0)) (sample_clients (Taking 3) (Taking 0))"
    using sample_first[of 0] sample_first[of 1] sample_first[of 2] by (auto simp: numeral_3_eq_3 numeral_2_eq_2)
  also have "some_step\<^sup>*\<^sup>* (sample_clients (Taking 3) (Taking 0)) (sample_clients (Taking 3) (Taking 2))"
    using sample_second[of 0] sample_second[of 1] by (auto simp: numeral_2_eq_2)
  also have "some_step\<^sup>*\<^sup>* (sample_clients (Taking 3) (Taking 2)) (sample_clients Active Active)"
    using sample_done by auto
  finally show ?thesis .
qed

lemma sample_protocol: "lease_reachable sample_root (sample_clients Active Active)"
proof -
  have "normalize sample_root sample_free = Inr (lease_result (normalize sample_root sample_free))" by code_simp
  then have "lease_start sample_root (sample_clients (Taking 0) (Taking 0))"
    using sample_normalizes(1) by (simp add: lease_start_def)
  with sample_run show ?thesis by (auto simp: lease_reachable_def)
qed

theorem active_leases_never_conflict_witness: "\<not> conflict sample_writer sample_free"
proof -
  have "clean_leases sample_writer" "clean_leases sample_free" by code_simp+
  with active_leases_never_conflict[OF sample_protocol, of 0 1] show ?thesis by simp
qed

theorem leases_progress_and_terminate_witness:
  "\<exists>e cs'. lease_step (sample_clients Active Active) e cs' \<and> e \<noteq> GiveUp"
proof -
  have "0 < length (sample_clients Active Active) \<and> cl_phase (sample_clients Active Active ! 0) \<noteq> Gone" by simp
  then have "\<exists>p < length (sample_clients Active Active). cl_phase (sample_clients Active Active ! p) \<noteq> Gone" by blast
  with leases_progress_and_terminate[OF sample_protocol] show ?thesis by blast
qed

end
