(* ===== verification/FileStat.thy ===== *)
theory FileStat
  imports MutationLease
begin

text \<open>
  What an inspected file says of itself: the kernel's \<^verbatim>\<open>stat\<close> record, Go's
  \<^verbatim>\<open>os.FileInfo\<close> and \<^verbatim>\<open>os.FileMode\<close>, the version witness and the snapshot revision of
  \<^verbatim>\<open>internal/filesnapshot\<close> (\<^verbatim>\<open>revision.go\<close>, \<^verbatim>\<open>version_linux.go\<close>,
  \<^verbatim>\<open>revision_linux.go\<close>, \<^verbatim>\<open>read_at_ctime_nsecs.go\<close>) and the native entry of
  \<^verbatim>\<open>internal/effect/mutation/revision_native_linux.go\<close>. Bytes are characters; the Linux
  layout of the record is modelled.
\<close>

unbundle bit_operations_syntax

section \<open>The stat record and file modes\<close>

record changeVersion =
  cv_seconds :: int
  cv_nanoseconds :: int

record Stat_t =
  st_dev :: "64 word"
  st_ino :: "64 word"
  st_mode :: "32 word"
  st_size :: int
  st_mtim :: changeVersion
  st_ctim :: changeVersion

definition S_IFMT :: "32 word" where "S_IFMT = 0xF000"
definition S_IFSOCK :: "32 word" where "S_IFSOCK = 0xC000"
definition S_IFLNK :: "32 word" where "S_IFLNK = 0xA000"
definition S_IFREG :: "32 word" where "S_IFREG = 0x8000"
definition S_IFBLK :: "32 word" where "S_IFBLK = 0x6000"
definition S_IFDIR :: "32 word" where "S_IFDIR = 0x4000"
definition S_IFCHR :: "32 word" where "S_IFCHR = 0x2000"
definition S_IFIFO :: "32 word" where "S_IFIFO = 0x1000"

type_synonym FileMode = "32 word"

definition ModeDir :: FileMode where "ModeDir = 0x80000000"
definition ModeSymlink :: FileMode where "ModeSymlink = 0x8000000"
definition ModeDevice :: FileMode where "ModeDevice = 0x4000000"
definition ModeNamedPipe :: FileMode where "ModeNamedPipe = 0x2000000"
definition ModeSocket :: FileMode where "ModeSocket = 0x1000000"
definition ModeSetuid :: FileMode where "ModeSetuid = 0x800000"
definition ModeSetgid :: FileMode where "ModeSetgid = 0x400000"
definition ModeCharDevice :: FileMode where "ModeCharDevice = 0x200000"
definition ModeSticky :: FileMode where "ModeSticky = 0x100000"
definition ModeIrregular :: FileMode where "ModeIrregular = 0x80000"

text \<open>The mode Go reports for a \<^verbatim>\<open>stat\<close> record (\<^verbatim>\<open>fillFileStatFromSys\<close>).\<close>

definition go_file_mode :: "32 word \<Rightarrow> FileMode" where
  "go_file_mode m =
     (m AND 0x1FF) OR
     (let t = m AND S_IFMT in
        if t = S_IFBLK then ModeDevice
        else if t = S_IFCHR then ModeDevice OR ModeCharDevice
        else if t = S_IFDIR then ModeDir
        else if t = S_IFIFO then ModeNamedPipe
        else if t = S_IFLNK then ModeSymlink
        else if t = S_IFSOCK then ModeSocket
        else 0) OR
     (if m AND 0x400 \<noteq> 0 then ModeSetgid else 0) OR
     (if m AND 0x800 \<noteq> 0 then ModeSetuid else 0) OR
     (if m AND 0x200 \<noteq> 0 then ModeSticky else 0)"

definition ModeType :: FileMode where
  "ModeType = ModeDir OR ModeSymlink OR ModeNamedPipe OR ModeSocket OR ModeDevice OR ModeCharDevice OR ModeIrregular"

definition mode_isRegular :: "FileMode \<Rightarrow> bool" where
  "mode_isRegular m \<longleftrightarrow> m AND ModeType = 0"

definition mode_isDir :: "FileMode \<Rightarrow> bool" where
  "mode_isDir m \<longleftrightarrow> m AND ModeDir \<noteq> 0"

definition mode_isSymlink :: "FileMode \<Rightarrow> bool" where
  "mode_isSymlink m \<longleftrightarrow> m AND ModeSymlink \<noteq> 0"

definition mode_perm :: "FileMode \<Rightarrow> FileMode" where
  "mode_perm m = m AND 0x1FF"

text \<open>\<^verbatim>\<open>FileMode.String\<close>: a letter for each type bit from bit 31 down (a dash when there is none),
  then the permissions.\<close>

definition mode_string :: "FileMode \<Rightarrow> string" where
  "mode_string m =
     (let letters = [c. (i, c) \<leftarrow> zip [0..<13] ''dalTLDpSugct?'', bit m (31 - i)];
          rwx = map (\<lambda>(i, c). if bit m (8 - i) then c else CHR ''-'') (zip [0..<9] ''rwxrwxrwx'') in
      (if letters = [] then ''-'' else letters) @ rwx)"

text \<open>\<^verbatim>\<open>os.FileInfo\<close>: \<open>fi_sys\<close> is the \<^verbatim>\<open>*syscall.Stat_t\<close> behind it, absent when another
  implementation of the interface answers.\<close>

record FileInfo =
  fi_mode :: FileMode
  fi_size :: int
  fi_modTime :: changeVersion
  fi_sys :: "Stat_t option"

definition file_info :: "Stat_t \<Rightarrow> FileInfo" where
  "file_info stat = \<lparr>fi_mode = go_file_mode (st_mode stat), fi_size = st_size stat, fi_modTime = st_mtim stat,
     fi_sys = Some stat\<rparr>"

definition os_SameFile :: "FileInfo \<Rightarrow> FileInfo \<Rightarrow> bool" where
  "os_SameFile left right =
     (case (fi_sys left, fi_sys right) of
        (Some l, Some r) \<Rightarrow> st_dev l = st_dev r \<and> st_ino l = st_ino r
      | _ \<Rightarrow> False)"

section \<open>File versions\<close>

record fileObjectIdentity =
  fo_device :: "64 word"
  fo_inode :: "64 word"

definition regularFileObjectIdentity :: "FileInfo \<Rightarrow> fileObjectIdentity option" where
  "regularFileObjectIdentity info =
     map_option (\<lambda>stat. \<lparr>fo_device = st_dev stat, fo_inode = st_ino stat\<rparr>) (fi_sys info)"

definition fileChangeVersion :: "FileInfo \<Rightarrow> changeVersion option" where
  "fileChangeVersion info = map_option st_ctim (fi_sys info)"

record RegularFileVersion =
  rv_identity :: fileObjectIdentity
  rv_mode :: FileMode
  rv_size :: int
  rv_modification :: changeVersion
  rv_change :: changeVersion
  rv_valid :: bool

definition no_version :: RegularFileVersion where
  "no_version = \<lparr>rv_identity = \<lparr>fo_device = 0, fo_inode = 0\<rparr>, rv_mode = 0, rv_size = 0,
     rv_modification = \<lparr>cv_seconds = 0, cv_nanoseconds = 0\<rparr>, rv_change = \<lparr>cv_seconds = 0, cv_nanoseconds = 0\<rparr>,
     rv_valid = False\<rparr>"

definition RegularFileVersionOf :: "FileInfo \<Rightarrow> RegularFileVersion \<times> bool" where
  "RegularFileVersionOf info =
     (if \<not> mode_isRegular (fi_mode info) then (no_version, False)
      else case (regularFileObjectIdentity info, fileChangeVersion info) of
        (Some identity, Some change) \<Rightarrow>
          (\<lparr>rv_identity = identity, rv_mode = fi_mode info, rv_size = fi_size info,
            rv_modification = fi_modTime info, rv_change = change, rv_valid = True\<rparr>, True)
      | _ \<Rightarrow> (no_version, False))"

definition RegularFileVersion_Equal :: "RegularFileVersion \<Rightarrow> RegularFileVersion \<Rightarrow> bool" where
  "RegularFileVersion_Equal version other \<longleftrightarrow> rv_valid version \<and> rv_valid other \<and> version = other"

definition sameFileVersion :: "FileInfo \<Rightarrow> FileInfo \<Rightarrow> bool" where
  "sameFileVersion left right =
     (if fi_size left \<noteq> fi_size right \<or> fi_modTime left \<noteq> fi_modTime right then False
      else if (fileChangeVersion left \<noteq> None) \<noteq> (fileChangeVersion right \<noteq> None) then False
      else fileChangeVersion left = None \<or> fileChangeVersion left = fileChangeVersion right)"

definition unixStatsMatch :: "Stat_t \<Rightarrow> Stat_t \<Rightarrow> bool" where
  "unixStatsMatch left right \<longleftrightarrow>
     st_dev left = st_dev right \<and> st_ino left = st_ino right \<and> st_size left = st_size right \<and>
     st_mtim left = st_mtim right \<and> st_ctim left = st_ctim right"

definition unixStatMatchesInfo :: "Stat_t \<Rightarrow> FileInfo \<Rightarrow> bool" where
  "unixStatMatchesInfo stat info =
     (if \<not> mode_isRegular (fi_mode info) then False
      else case fi_sys info of
        None \<Rightarrow> False
      | Some sys \<Rightarrow> st_dev stat = st_dev sys \<and> st_ino stat = st_ino sys \<and> st_size stat = st_size sys \<and>
          st_mtim stat = fi_modTime info \<and> st_ctim stat = st_ctim sys)"

section \<open>Native entries\<close>

record revisionNativeIdentity =
  ni_device :: "64 word"
  ni_inode :: "64 word"
  ni_mode :: "32 word"
  ni_size :: int
  ni_mtime :: changeVersion
  ni_change :: changeVersion

record revisionNativeEntry =
  ne_identity :: revisionNativeIdentity
  ne_mode :: "32 word"
  ne_size :: int

definition revisionNativeEntryFromStat :: "Stat_t \<Rightarrow> revisionNativeEntry" where
  "revisionNativeEntryFromStat stat =
     \<lparr>ne_identity = \<lparr>ni_device = st_dev stat, ni_inode = st_ino stat, ni_mode = st_mode stat, ni_size = st_size stat,
        ni_mtime = st_mtim stat, ni_change = st_ctim stat\<rparr>,
      ne_mode = st_mode stat, ne_size = st_size stat\<rparr>"

definition revisionNativeEntryFromFileInfo :: "FileInfo \<Rightarrow> revisionNativeEntry option" where
  "revisionNativeEntryFromFileInfo info = map_option revisionNativeEntryFromStat (fi_sys info)"

definition entry_isSymlink :: "revisionNativeEntry \<Rightarrow> bool" where
  "entry_isSymlink e \<longleftrightarrow> ne_mode e AND S_IFMT = S_IFLNK"

definition entry_isDirectory :: "revisionNativeEntry \<Rightarrow> bool" where
  "entry_isDirectory e \<longleftrightarrow> ne_mode e AND S_IFMT = S_IFDIR"

definition entry_isRegular :: "revisionNativeEntry \<Rightarrow> bool" where
  "entry_isRegular e \<longleftrightarrow> ne_mode e AND S_IFMT = S_IFREG"

definition entry_executable :: "revisionNativeEntry \<Rightarrow> bool" where
  "entry_executable e \<longleftrightarrow> ne_mode e AND 0x49 \<noteq> 0"

definition sameRevisionEntryVersion :: "FileInfo \<Rightarrow> FileInfo \<Rightarrow> bool" where
  "sameRevisionEntryVersion left right =
     (case (revisionNativeEntryFromFileInfo left, revisionNativeEntryFromFileInfo right) of
        (Some l, Some r) \<Rightarrow> ne_identity l = ne_identity r
      | _ \<Rightarrow> False)"

definition sameRevisionFileVersion :: "FileInfo \<Rightarrow> FileInfo \<Rightarrow> bool" where
  "sameRevisionFileVersion left right =
     (if \<not> mode_isRegular (fi_mode left) \<or> \<not> mode_isRegular (fi_mode right) \<or> \<not> os_SameFile left right then False
      else snd (RegularFileVersionOf left) \<and> snd (RegularFileVersionOf right) \<and>
        RegularFileVersion_Equal (fst (RegularFileVersionOf left)) (fst (RegularFileVersionOf right)))"

section \<open>Hashed records\<close>

text \<open>Both packages feed their hashers records of length-prefixed fields ended by a newline
  (\<^verbatim>\<open>writeSnapshotRevisionRecord\<close>, \<^verbatim>\<open>writeRevisionRecord\<close>). A hasher is the stream written
  to it so far.\<close>

type_synonym hasher = string

definition writeRevisionRecord :: "hasher \<Rightarrow> string list \<Rightarrow> hasher" where
  "writeRevisionRecord hasher parts =
     hasher @ concat (map (\<lambda>field. itoa (length field) @ '':'' @ field) parts) @ [CHR 0x0A]"

definition formatInt :: "int \<Rightarrow> string" where
  "formatInt n = (if n < 0 then CHR ''-'' # itoa (nat (- n)) else itoa (nat n))"

definition formatWord :: "'a::len word \<Rightarrow> string" where
  "formatWord w = itoa (unat w)"

definition hex_digit :: "nat \<Rightarrow> char" where
  "hex_digit n = (if n < 10 then digit n else char_of (87 + n))"

definition hex_EncodeToString :: "string \<Rightarrow> string" where
  "hex_EncodeToString bytes =
     concat (map (\<lambda>b. let n = of_char b :: nat in [hex_digit (n div 16), hex_digit (n mod 16)]) bytes)"

definition regularFileSnapshotRevisionPrefix :: string where
  "regularFileSnapshotRevisionPrefix = ''daem-regular-file-snapshot-v1:''"

text \<open>The stream a snapshot revision hashes; the digest function is the parameter \<open>sha\<close>.\<close>

definition snapshot_stream :: "FileInfo \<Rightarrow> string \<Rightarrow> hasher" where
  "snapshot_stream info content =
     (let h = writeRevisionRecord [] [''mode'', formatWord (fi_mode info), ''size'', formatInt (fi_size info),
            ''mtime'', formatInt (cv_seconds (fi_modTime info)), formatInt (cv_nanoseconds (fi_modTime info))];
          h = (case fileChangeVersion info of
                 Some change \<Rightarrow> writeRevisionRecord h [''change-version'', formatInt (cv_seconds change), formatInt (cv_nanoseconds change)]
               | None \<Rightarrow> writeRevisionRecord h [''change-version-unavailable'']);
          h = (case regularFileObjectIdentity info of
                 Some identity \<Rightarrow> writeRevisionRecord h [''object-identity'', formatWord (fo_device identity), formatWord (fo_inode identity)]
               | None \<Rightarrow> writeRevisionRecord h [''object-identity-unavailable'']);
          h = writeRevisionRecord h [''content'', itoa (length content)]
      in writeRevisionRecord (h @ content) [''end-content''])"

definition regularFileSnapshotRevision :: "(string \<Rightarrow> string) \<Rightarrow> FileInfo \<Rightarrow> string \<Rightarrow> string" where
  "regularFileSnapshotRevision sha info content =
     regularFileSnapshotRevisionPrefix @ hex_EncodeToString (sha (snapshot_stream info content))"

section \<open>Records are unambiguous\<close>

lemma record_stream: "writeRevisionRecord h parts = h @ encodedKey parts @ [CHR 0x0A]"
  by (simp add: writeRevisionRecord_def encodedKey_def)

lemma itoa_nonempty [simp]: "itoa n \<noteq> []"
  by (subst itoa.simps) simp

lemma itoa_no_newline [simp]: "CHR 0x0A \<notin> set (itoa n)"
proof
  assume "CHR 0x0A \<in> set (itoa n)"
  then obtain d where "d < 10" "CHR 0x0A = digit d" using itoa_digits by blast
  then have "(of_char (CHR 0x0A) :: nat) = 48 + d" by (simp only: of_char_digit)
  then show False by simp
qed

lemma encodedKey_start: "encodedKey parts @ CHR 0x0A # r = CHR 0x0A # r' \<longleftrightarrow> parts = [] \<and> r = r'"
proof (cases parts)
  case (Cons f fs)
  obtain c cs where "itoa (length f) = c # cs" by (cases "itoa (length f)") auto
  moreover from this have "c \<noteq> CHR 0x0A" by (metis itoa_no_newline list.set_intros(1))
  ultimately show ?thesis using Cons by simp
qed simp

lemma field_prefix:
  "itoa (length f) @ CHR 0x3A # f @ r = itoa (length g) @ CHR 0x3A # g @ r' \<longleftrightarrow> f = g \<and> r = r'"
proof
  assume eq: "itoa (length f) @ CHR 0x3A # f @ r = itoa (length g) @ CHR 0x3A # g @ r'"
  have first: "takeWhile (\<lambda>c. c \<noteq> CHR 0x3A) (itoa n @ CHR 0x3A # q) = itoa n" for n q
    by (subst takeWhile_append2) (auto simp: itoa_no_colon intro: ccontr)
  have "itoa (length f) = itoa (length g)"
    using first[of "length f" "f @ r"] first[of "length g" "g @ r'"] eq by metis
  then have "length f = length g" by simp
  with eq show "f = g \<and> r = r'" by simp
qed simp

text \<open>A record can be read off the front of a stream.\<close>

lemma record_prefix:
  "encodedKey fs @ CHR 0x0A # r = encodedKey gs @ CHR 0x0A # r' \<longleftrightarrow> fs = gs \<and> r = r'"
proof (induction fs arbitrary: gs)
  case Nil
  show ?case using encodedKey_start[of gs r' r] by auto
next
  case (Cons f fs)
  show ?case
  proof (cases gs)
    case Nil
    then show ?thesis using encodedKey_start[of "f # fs" r r'] by simp
  next
    case gs: (Cons g gs')
    show ?thesis using Cons.IH[of gs'] by (simp add: gs field_prefix)
  qed
qed

lemma formatInt_inject [simp]: "formatInt m = formatInt n \<longleftrightarrow> m = n"
proof -
  have sign: "itoa k \<noteq> CHR ''-'' # s" for k s
  proof
    assume "itoa k = CHR ''-'' # s"
    then have "CHR ''-'' \<in> set (itoa k)" by simp
    then obtain d where "d < 10" "CHR ''-'' = digit d" using itoa_digits by blast
    then have "(of_char (CHR ''-'') :: nat) = 48 + d" by (simp only: of_char_digit)
    then show False by simp
  qed
  moreover have "CHR ''-'' # s \<noteq> itoa k" for k s using sign by metis
  ultimately show ?thesis by (auto simp: formatInt_def eq_nat_nat_iff)
qed

lemma formatWord_inject [simp]: "formatWord (v :: 'a::len word) = formatWord w \<longleftrightarrow> v = w"
  by (simp add: formatWord_def word_unat_eq_iff)

text \<open>What a snapshot revision records of the file beside its content.\<close>

definition snapshot_facts ::
  "FileInfo \<Rightarrow> FileMode \<times> int \<times> changeVersion \<times> changeVersion option \<times> fileObjectIdentity option" where
  "snapshot_facts info =
     (fi_mode info, fi_size info, fi_modTime info, fileChangeVersion info, regularFileObjectIdentity info)"

definition change_record :: "changeVersion option \<Rightarrow> string list" where
  "change_record v = (case v of
     Some change \<Rightarrow> [''change-version'', formatInt (cv_seconds change), formatInt (cv_nanoseconds change)]
   | None \<Rightarrow> [''change-version-unavailable''])"

definition identity_record :: "fileObjectIdentity option \<Rightarrow> string list" where
  "identity_record v = (case v of
     Some identity \<Rightarrow> [''object-identity'', formatWord (fo_device identity), formatWord (fo_inode identity)]
   | None \<Rightarrow> [''object-identity-unavailable''])"

lemma change_record_inject [simp]: "change_record v = change_record v' \<longleftrightarrow> v = v'"
  by (cases v; cases v') (auto simp: change_record_def)

lemma identity_record_inject [simp]: "identity_record v = identity_record v' \<longleftrightarrow> v = v'"
  by (cases v; cases v') (auto simp: identity_record_def)

lemma snapshot_stream_eq:
  "snapshot_stream info content =
     encodedKey [''mode'', formatWord (fi_mode info), ''size'', formatInt (fi_size info),
        ''mtime'', formatInt (cv_seconds (fi_modTime info)), formatInt (cv_nanoseconds (fi_modTime info))] @ CHR 0x0A #
     encodedKey (change_record (fileChangeVersion info)) @ CHR 0x0A #
     encodedKey (identity_record (regularFileObjectIdentity info)) @ CHR 0x0A #
     encodedKey [''content'', itoa (length content)] @ CHR 0x0A # content @ encodedKey [''end-content''] @ [CHR 0x0A]"
  by (simp add: snapshot_stream_def Let_def record_stream change_record_def identity_record_def
      del: encodedKey_simps split: option.splits)

lemma snapshot_stream_inject:
  "snapshot_stream i c = snapshot_stream i' c' \<longleftrightarrow> snapshot_facts i = snapshot_facts i' \<and> c = c'"
  by (auto simp: snapshot_stream_eq record_prefix snapshot_facts_def simp del: encodedKey_simps)

lemma hex_digit_inject: "m < 16 \<Longrightarrow> n < 16 \<Longrightarrow> hex_digit m = hex_digit n \<longleftrightarrow> m = n"
proof -
  have code: "(of_char (hex_digit k) :: nat) = (if k < 10 then 48 + k else 87 + k)" if "k < 16" for k
    using that by (simp add: hex_digit_def)
  assume "m < 16" "n < 16"
  then have "hex_digit m = hex_digit n \<Longrightarrow> (if m < 10 then 48 + m else 87 + m) = (if n < 10 then 48 + n else 87 + n)"
    using code by metis
  then show "hex_digit m = hex_digit n \<longleftrightarrow> m = n"
    using \<open>m < 16\<close> \<open>n < 16\<close> by (auto split: if_splits)
qed

lemma hex_inject: "hex_EncodeToString s = hex_EncodeToString t \<longleftrightarrow> s = t"
proof (induction s arbitrary: t)
  case Nil
  show ?case by (cases t) (auto simp: hex_EncodeToString_def Let_def)
next
  case (Cons a s)
  show ?case
  proof (cases t)
    case (Cons b t')
    have bound: "(of_char c :: nat) div 16 < 16" for c
      using nat_of_char_less_256[of c] by linarith
    have "(of_char a :: nat) div 16 = of_char b div 16 \<and> (of_char a :: nat) mod 16 = of_char b mod 16 \<longleftrightarrow> a = b"
      by (metis div_mult_mod_eq of_char_eq_iff)
    then show ?thesis
      using Cons.IH[of t'] Cons
      by (simp add: hex_EncodeToString_def Let_def hex_digit_inject bound) blast
  qed (simp add: hex_EncodeToString_def Let_def)
qed

text \<open>C25: two snapshot revisions are equal exactly when their digests are, and the digested streams are equal
  exactly when the files agree in content, mode, size, modification time, change version and object identity: only a
  collision of the digest function can hide a difference.\<close>

theorem snapshot_revision_determines_file:
  "(regularFileSnapshotRevision sha i c = regularFileSnapshotRevision sha i' c' \<longleftrightarrow>
      sha (snapshot_stream i c) = sha (snapshot_stream i' c')) \<and>
   (snapshot_stream i c = snapshot_stream i' c' \<longleftrightarrow> snapshot_facts i = snapshot_facts i' \<and> c = c')"
  by (simp add: snapshot_stream_inject regularFileSnapshotRevision_def hex_inject)

end
