(* ===== verification/FileSnapshot.thy ===== *)
theory FileSnapshot
  imports FileStat
begin

text \<open>
  Reading a regular file without being misled by concurrent changes:
  \<^verbatim>\<open>internal/filesnapshot/read.go\<close>, \<^verbatim>\<open>read_at_unix.go\<close> and \<^verbatim>\<open>dirent.go\<close>. The
  kernel and the other processes are a record of operations on a world \<open>'w\<close>; every operation may
  change the world. What a reader may rely on is the locale \<open>kernel_files\<close>.
\<close>

section \<open>System calls\<close>

type_synonym ('w, 'e, 'a) io = "'w \<Rightarrow> ('e + 'a) \<times> 'w"

definition io_return :: "'a \<Rightarrow> ('w, 'e, 'a) io" where
  "io_return x w = (Inr x, w)"

definition io_raise :: "'e \<Rightarrow> ('w, 'e, 'a) io" where
  "io_raise e w = (Inl e, w)"

definition io_bind :: "('w, 'e, 'a) io \<Rightarrow> ('a \<Rightarrow> ('w, 'e, 'b) io) \<Rightarrow> ('w, 'e, 'b) io" where
  "io_bind m f w = (case m w of (Inl e, w') \<Rightarrow> (Inl e, w') | (Inr x, w') \<Rightarrow> f x w')"

definition io_refuse :: "bool \<Rightarrow> 'e \<Rightarrow> ('w, 'e, unit) io" where
  "io_refuse c e = (if c then io_raise e else io_return ())"

text \<open>A call whose error is wrapped.\<close>

definition io_wrap :: "('d \<Rightarrow> 'e) \<Rightarrow> ('w, 'd, 'a) io \<Rightarrow> ('w, 'e, 'a) io" where
  "io_wrap g m w = (case m w of (Inl d, w') \<Rightarrow> (Inl (g d), w') | (Inr x, w') \<Rightarrow> (Inr x, w'))"

text \<open>A call whose error the caller looks at.\<close>

definition io_try :: "('w, 'd, 'a) io \<Rightarrow> ('w, 'e, 'd + 'a) io" where
  "io_try m w = (case m w of (r, w') \<Rightarrow> (Inr r, w'))"

lemma io_simps [simp]:
  "io_return x w = (Inr x, w)"
  "io_raise e w = (Inl e, w)"
  "io_refuse c e w = (if c then (Inl e, w) else (Inr (), w))"
  by (simp_all add: io_return_def io_raise_def io_refuse_def)

lemma io_bind_Inr: "io_bind m f w = (Inr y, w') \<longleftrightarrow> (\<exists>x w1. m w = (Inr x, w1) \<and> f x w1 = (Inr y, w'))"
  by (auto simp: io_bind_def split: prod.splits sum.splits)

lemma io_wrap_Inr: "io_wrap g m w = (Inr y, w') \<longleftrightarrow> m w = (Inr y, w')"
  by (auto simp: io_wrap_def split: prod.splits sum.splits)

lemma io_try_Inr: "io_try m w = (Inr r, w') \<longleftrightarrow> m w = (r, w')"
  by (auto simp: io_try_def split: prod.splits)

lemmas io_results = io_bind_Inr io_wrap_Inr io_try_Inr

datatype osError = ENOENT | ELOOP | Errno nat

datatype readFailure = EOF | ReadError osError

text \<open>\<open>px_read\<close> returns the bytes transferred and the error that ended the call, as Go's readers do.
  Descriptors are numbers.\<close>

record 'w posix =
  px_ctx :: "('w, unit, unit) io"
  px_lstat :: "string \<Rightarrow> ('w, osError, FileInfo) io"
  px_stat :: "string \<Rightarrow> ('w, osError, FileInfo) io"
  px_readlink :: "string \<Rightarrow> ('w, osError, string) io"
  px_open :: "string \<Rightarrow> bool \<Rightarrow> ('w, osError, nat) io"
  px_fstat :: "nat \<Rightarrow> ('w, osError, FileInfo) io"
  px_read :: "nat \<Rightarrow> nat \<Rightarrow> 'w \<Rightarrow> (string \<times> readFailure option) \<times> 'w"
  px_close :: "nat \<Rightarrow> ('w, osError, unit) io"
  px_fstatat :: "nat \<Rightarrow> string \<Rightarrow> ('w, osError, Stat_t) io"
  px_openat :: "nat \<Rightarrow> string \<Rightarrow> ('w, osError, nat) io"

section \<open>Reading a bounded regular file\<close>

datatype fileError =
    FileContextRequired
  | FileContextError
  | MaximumBytesInvalid
  | DirectoryDescriptorRequired
  | EntryNameInvalid
  | EntryNameNotUTF8
  | ErrSymlink
  | ErrNotRegular
  | ErrLimitExceeded int
  | ErrChanged
  | NoProgress
  | OsError osError
  | ReadlinkError osError
  | ReferentError osError
  | ReinspectError osError

datatype finalSymlinkPolicy = rejectFinalSymlink | followFinalSymlink

record Snapshot =
  sn_content :: string
  sn_mode :: FileMode
  sn_revision :: string
  sn_version :: RegularFileVersion

definition check_context :: "'w posix \<Rightarrow> ('w, fileError, unit) io" where
  "check_context px = io_wrap (\<lambda>_. FileContextError) (px_ctx px)"

definition read_buffer :: int where
  "read_buffer = 32 * 1024"

text \<open>Errors and results carry the bytes transferred so far.\<close>

function readBoundedRegularFile ::
  "'w posix \<Rightarrow> nat \<Rightarrow> int \<Rightarrow> string \<Rightarrow> int \<Rightarrow> ('w, fileError \<times> int, string \<times> int) io" where
  "readBoundedRegularFile px file maximumBytes content attempted w =
     (case px_ctx px w of
        (Inl _, w1) \<Rightarrow> (Inl (FileContextError, attempted), w1)
      | (Inr _, w1) \<Rightarrow>
          let remaining = maximumBytes - attempted;
              readSize = (if remaining < read_buffer then remaining + 1 else read_buffer) in
          if readSize \<le> 0 then (Inl (ErrLimitExceeded maximumBytes, attempted), w1)
          else case px_read px file (nat readSize) w1 of ((bytes, readErr), w2) \<Rightarrow>
            let attempted' = attempted + int (length bytes); content' = content @ bytes in
            if bytes \<noteq> [] \<and> maximumBytes < attempted' then (Inl (ErrLimitExceeded maximumBytes, attempted'), w2)
            else case readErr of
                Some EOF \<Rightarrow> (Inr (content', attempted'), w2)
              | Some (ReadError e) \<Rightarrow> (Inl (OsError e, attempted'), w2)
              | None \<Rightarrow>
                  if bytes = [] then (Inl (NoProgress, attempted'), w2)
                  else readBoundedRegularFile px file maximumBytes content' attempted' w2)"
  by pat_completeness auto
termination
  by (relation "measure (\<lambda>(px, file, maximumBytes, content, attempted, w). nat (maximumBytes - attempted))")
    (auto simp: neq_Nil_conv)

declare readBoundedRegularFile.simps [simp del]

definition sameSelectedEntry ::
  "'w posix \<Rightarrow> string \<Rightarrow> FileInfo \<Rightarrow> FileInfo \<Rightarrow> string \<Rightarrow> finalSymlinkPolicy \<Rightarrow> ('w, fileError, bool) io" where
  "sameSelectedEntry px path before after beforeLinkTarget policy =
     (if \<not> os_SameFile before after \<or> \<not> sameFileVersion before after then io_return False
      else if mode_isSymlink (fi_mode before) \<noteq> mode_isSymlink (fi_mode after) then io_return False
      else if mode_isSymlink (fi_mode before) then
        (if policy \<noteq> followFinalSymlink then io_return False
         else io_bind (io_try (px_readlink px path)) (\<lambda>target.
           io_return (target = Inr beforeLinkTarget)))
      else io_return (mode_isRegular (fi_mode before) \<and> mode_isRegular (fi_mode after)))"

text \<open>\<open>openRegularFile\<close> turns a loop error into \<open>ErrChanged\<close>; the error is then classified.\<close>

definition openRegularFile :: "'w posix \<Rightarrow> string \<Rightarrow> bool \<Rightarrow> ('w, fileError, nat) io" where
  "openRegularFile px path followFinal =
     io_wrap (\<lambda>e. if e = ELOOP then ErrChanged else OsError e) (px_open px path followFinal)"

definition classifyOpenFailure ::
  "'w posix \<Rightarrow> string \<Rightarrow> FileInfo \<Rightarrow> FileInfo \<Rightarrow> string \<Rightarrow> finalSymlinkPolicy \<Rightarrow> fileError \<Rightarrow> ('w, fileError, fileError) io" where
  "classifyOpenFailure px path before beforeReferent beforeLinkTarget policy openErr =
     (if openErr = ErrChanged \<or> openErr = OsError ENOENT then io_return ErrChanged
      else io_bind (io_try (px_lstat px path)) (\<lambda>r. case r of
          Inl e \<Rightarrow> io_return (if e = ENOENT then ErrChanged else openErr)
        | Inr after \<Rightarrow>
            io_bind (sameSelectedEntry px path before after beforeLinkTarget policy) (\<lambda>same.
            if \<not> same then io_return ErrChanged
            else if policy = followFinalSymlink then
              io_bind (io_try (px_stat px path)) (\<lambda>r. case r of
                  Inl _ \<Rightarrow> io_return ErrChanged
                | Inr afterReferent \<Rightarrow>
                    io_return (if \<not> os_SameFile beforeReferent afterReferent \<or> \<not> sameFileVersion beforeReferent afterReferent
                               then ErrChanged else openErr))
            else io_return openErr)))"

text \<open>What is inspected before the file is opened: the entry, the file it selects and, for a link,
  its target. \<open>None\<close> is a missing path.\<close>

definition inspect_before ::
  "'w posix \<Rightarrow> string \<Rightarrow> int \<Rightarrow> finalSymlinkPolicy \<Rightarrow> ('w, fileError, (FileInfo \<times> FileInfo \<times> string) option) io" where
  "inspect_before px path maximumBytes policy =
     io_bind (io_try (px_lstat px path)) (\<lambda>r. case r of
         Inl ENOENT \<Rightarrow> io_return None
       | Inl e \<Rightarrow> io_raise (OsError e)
       | Inr before \<Rightarrow>
           let beforeIsSymlink = mode_isSymlink (fi_mode before) in
           if beforeIsSymlink \<and> policy = rejectFinalSymlink then io_raise ErrSymlink
           else if \<not> beforeIsSymlink \<and> \<not> mode_isRegular (fi_mode before) then io_raise ErrNotRegular
           else if \<not> beforeIsSymlink \<and> maximumBytes < fi_size before then io_raise (ErrLimitExceeded maximumBytes)
           else if beforeIsSymlink then
             io_bind (io_wrap ReadlinkError (px_readlink px path)) (\<lambda>target.
             io_bind (io_wrap ReferentError (px_stat px path)) (\<lambda>referent.
             if \<not> mode_isRegular (fi_mode referent) then io_raise ErrNotRegular
             else if maximumBytes < fi_size referent then io_raise (ErrLimitExceeded maximumBytes)
             else io_return (Some (before, referent, target))))
           else io_return (Some (before, before, [])))"

text \<open>\<^verbatim>\<open>defer file.Close()\<close>: the body's result stands, the close error is dropped.\<close>

definition with_file :: "'w posix \<Rightarrow> nat \<Rightarrow> ('w, 'e, 'a) io \<Rightarrow> ('w, 'e, 'a) io" where
  "with_file px file body w = (case body w of (r, w1) \<Rightarrow> (r, snd (px_close px file w1)))"

text \<open>The checks of the opened file before its content is read.\<close>

definition check_opened ::
  "'w posix \<Rightarrow> nat \<Rightarrow> int \<Rightarrow> FileInfo \<Rightarrow> FileInfo \<Rightarrow> ('w, fileError, FileInfo) io" where
  "check_opened px file maximumBytes before beforeReferent =
     io_bind (io_wrap OsError (px_fstat px file)) (\<lambda>opened.
       if \<not> mode_isRegular (fi_mode opened) then
         io_raise (if \<not> mode_isSymlink (fi_mode before) then ErrChanged else ErrNotRegular)
       else if \<not> os_SameFile beforeReferent opened \<or> \<not> sameFileVersion beforeReferent opened then io_raise ErrChanged
       else if maximumBytes < fi_size opened then io_raise (ErrLimitExceeded maximumBytes)
       else io_bind (check_context px) (\<lambda>_. io_return opened))"

text \<open>The checks after the content was read: the open file still has its version, and the path still
  selects that file.\<close>

definition check_selected ::
  "'w posix \<Rightarrow> string \<Rightarrow> finalSymlinkPolicy \<Rightarrow> FileInfo \<Rightarrow> FileInfo \<Rightarrow> string \<Rightarrow> string \<Rightarrow> FileInfo \<Rightarrow> ('w, fileError, unit) io" where
  "check_selected px path policy before opened beforeLinkTarget content afterOpen =
     io_bind (io_wrap (\<lambda>e. if e = ENOENT then ErrChanged else ReinspectError e) (px_lstat px path)) (\<lambda>afterEntry.
     io_bind (sameSelectedEntry px path before afterEntry beforeLinkTarget policy) (\<lambda>same.
     if \<not> same \<or> \<not> os_SameFile opened afterOpen \<or> \<not> sameFileVersion opened afterOpen \<or>
        int (length content) \<noteq> fi_size opened \<or> int (length content) \<noteq> fi_size afterOpen then io_raise ErrChanged
     else io_bind
       (if policy = followFinalSymlink then
          io_bind (io_wrap (\<lambda>_. ErrChanged) (px_stat px path)) (\<lambda>afterReferent.
            io_refuse (\<not> mode_isRegular (fi_mode afterReferent) \<or> \<not> os_SameFile opened afterReferent \<or>
               \<not> sameFileVersion opened afterReferent \<or> int (length content) \<noteq> fi_size afterReferent) ErrChanged)
        else io_refuse (\<not> os_SameFile opened afterEntry \<or> \<not> sameFileVersion opened afterEntry \<or>
               int (length content) \<noteq> fi_size afterEntry) ErrChanged) (\<lambda>_.
       check_context px)))"

definition check_stable ::
  "'w posix \<Rightarrow> nat \<Rightarrow> string \<Rightarrow> finalSymlinkPolicy \<Rightarrow> FileInfo \<Rightarrow> FileInfo \<Rightarrow> string \<Rightarrow> string \<Rightarrow> ('w, fileError, unit) io" where
  "check_stable px file path policy before opened beforeLinkTarget content =
     io_bind (check_context px) (\<lambda>_.
     io_bind (io_wrap OsError (px_fstat px file)) (\<lambda>afterOpen.
     check_selected px path policy before opened beforeLinkTarget content afterOpen))"

definition untouched :: "('w, fileError, 'a) io \<Rightarrow> ('w, fileError \<times> int, 'a) io" where
  "untouched = io_wrap (\<lambda>e. (e, 0))"

definition read_opened ::
  "(string \<Rightarrow> string) \<Rightarrow> 'w posix \<Rightarrow> nat \<Rightarrow> string \<Rightarrow> int \<Rightarrow> finalSymlinkPolicy \<Rightarrow> FileInfo \<Rightarrow> FileInfo \<Rightarrow> string \<Rightarrow>
   ('w, fileError \<times> int, Snapshot option \<times> int) io" where
  "read_opened sha px file path maximumBytes policy before referent target =
     io_bind (untouched (check_opened px file maximumBytes before referent)) (\<lambda>opened.
     io_bind (readBoundedRegularFile px file maximumBytes [] 0) (\<lambda>(content, attempted).
     io_bind (io_wrap (\<lambda>e. (e, attempted)) (check_stable px file path policy before opened target content)) (\<lambda>_.
     io_return (Some \<lparr>sn_content = content, sn_mode = fi_mode opened,
                  sn_revision = regularFileSnapshotRevision sha opened content,
                  sn_version = fst (RegularFileVersionOf opened)\<rparr>, attempted))))"

definition readRegularFileSnapshot ::
  "(string \<Rightarrow> string) \<Rightarrow> 'w posix option \<Rightarrow> string \<Rightarrow> int \<Rightarrow> finalSymlinkPolicy \<Rightarrow>
   ('w, fileError \<times> int, Snapshot option \<times> int) io" where
  "readRegularFileSnapshot sha ctx path maximumBytes policy =
     (case ctx of
        None \<Rightarrow> io_raise (FileContextRequired, 0)
      | Some px \<Rightarrow>
          io_bind (untouched (check_context px)) (\<lambda>_.
          if maximumBytes \<le> 0 then io_raise (MaximumBytesInvalid, 0)
          else io_bind (untouched (inspect_before px path maximumBytes policy)) (\<lambda>inspected. case inspected of
              None \<Rightarrow> io_return (None, 0)
            | Some (before, referent, target) \<Rightarrow>
                io_bind (untouched (check_context px)) (\<lambda>_.
                io_bind (io_try (openRegularFile px path (policy = followFinalSymlink))) (\<lambda>r. case r of
                    Inl openErr \<Rightarrow>
                      io_bind (untouched (classifyOpenFailure px path before referent target policy openErr)) (\<lambda>e.
                      io_raise (e, 0))
                  | Inr file \<Rightarrow>
                      with_file px file (read_opened sha px file path maximumBytes policy before referent target))))))"

text \<open>The exported readers differ in the policy and in what they keep of the result.\<close>

definition ReadRegularFileSnapshotContext ::
  "(string \<Rightarrow> string) \<Rightarrow> 'w posix option \<Rightarrow> string \<Rightarrow> int \<Rightarrow> ('w, fileError, Snapshot option) io" where
  "ReadRegularFileSnapshotContext sha ctx path maximumBytes =
     io_bind (io_wrap fst (readRegularFileSnapshot sha ctx path maximumBytes rejectFinalSymlink)) (\<lambda>(snapshot, _).
     io_return snapshot)"

definition ReadRegularFileReferentSnapshotContext ::
  "(string \<Rightarrow> string) \<Rightarrow> 'w posix option \<Rightarrow> string \<Rightarrow> int \<Rightarrow> ('w, fileError, Snapshot option) io" where
  "ReadRegularFileReferentSnapshotContext sha ctx path maximumBytes =
     io_bind (io_wrap fst (readRegularFileSnapshot sha ctx path maximumBytes followFinalSymlink)) (\<lambda>(snapshot, _).
     io_return snapshot)"

definition ReadRegularFileContextCounted ::
  "(string \<Rightarrow> string) \<Rightarrow> 'w posix option \<Rightarrow> string \<Rightarrow> int \<Rightarrow> ('w, fileError \<times> int, string option \<times> int) io" where
  "ReadRegularFileContextCounted sha ctx path maximumBytes =
     io_bind (readRegularFileSnapshot sha ctx path maximumBytes rejectFinalSymlink) (\<lambda>(snapshot, attempted).
     io_return (map_option sn_content snapshot, attempted))"

section \<open>Reading one directory entry\<close>

text \<open>\<^verbatim>\<open>utf8.ValidString\<close>: the well-formed byte sequences of the Unicode standard.\<close>

definition in_range :: "nat \<Rightarrow> nat \<Rightarrow> char \<Rightarrow> bool" where
  "in_range lo hi c \<longleftrightarrow> lo \<le> of_char c \<and> of_char c \<le> hi"

abbreviation utf8_tail :: "char \<Rightarrow> bool" where
  "utf8_tail \<equiv> in_range 0x80 0xBF"

definition utf8_second :: "char \<Rightarrow> char \<Rightarrow> bool" where
  "utf8_second a = (if of_char a = (0xE0::nat) then in_range 0xA0 0xBF
     else if of_char a = (0xED::nat) then in_range 0x80 0x9F
     else if of_char a = (0xF0::nat) then in_range 0x90 0xBF
     else if of_char a = (0xF4::nat) then in_range 0x80 0x8F
     else utf8_tail)"

fun utf8_valid :: "string \<Rightarrow> bool" where
  "utf8_valid [] = True"
| "utf8_valid (a # s) =
     (if in_range 0 0x7F a then utf8_valid s
      else if in_range 0xC2 0xDF a then
        (case s of b # s' \<Rightarrow> utf8_tail b \<and> utf8_valid s' | _ \<Rightarrow> False)
      else if in_range 0xE0 0xEF a then
        (case s of b # c # s' \<Rightarrow> utf8_second a b \<and> utf8_tail c \<and> utf8_valid s' | _ \<Rightarrow> False)
      else if in_range 0xF0 0xF4 a then
        (case s of b # c # d # s' \<Rightarrow> utf8_second a b \<and> utf8_tail c \<and> utf8_tail d \<and> utf8_valid s' | _ \<Rightarrow> False)
      else False)"

definition validDirentName :: "string \<Rightarrow> fileError + unit" where
  "validDirentName name =
     (if name = [] \<or> name = ''.'' \<or> name = ''..'' then Inl EntryNameInvalid
      else if CHR 0x2F \<in> set name \<or> CHR 0x5C \<in> set name \<or> CHR 0x00 \<in> set name then Inl EntryNameInvalid
      else if \<not> utf8_valid name then Inl EntryNameNotUTF8
      else Inr ())"

definition classifyDirentOpenFailure ::
  "'w posix \<Rightarrow> nat \<Rightarrow> string \<Rightarrow> Stat_t \<Rightarrow> osError \<Rightarrow> ('w, fileError, fileError) io" where
  "classifyDirentOpenFailure px dir name before openErr =
     (if openErr = ENOENT then io_return ErrChanged
      else io_bind (io_try (px_fstatat px dir name)) (\<lambda>r. case r of
          Inl e \<Rightarrow> io_return (if e = ENOENT then ErrChanged else OsError openErr)
        | Inr after \<Rightarrow>
            io_return (if \<not> unixStatsMatch before after then ErrChanged
                       else if openErr = ELOOP then ErrChanged else OsError openErr)))"

text \<open>The part of \<^verbatim>\<open>readRegularFileAtCountedWithHooks\<close> that runs with the entry open: the checks
  before the content is read, those after it, and the whole.\<close>

definition check_entry_opened :: "'w posix \<Rightarrow> nat \<Rightarrow> int \<Rightarrow> Stat_t \<Rightarrow> ('w, fileError, FileInfo) io" where
  "check_entry_opened px file maximumBytes before =
     io_bind (io_wrap OsError (px_fstat px file)) (\<lambda>opened.
       if \<not> mode_isRegular (fi_mode opened) then io_raise ErrChanged
       else if \<not> unixStatMatchesInfo before opened then io_raise ErrChanged
       else if maximumBytes < fi_size opened then io_raise (ErrLimitExceeded maximumBytes)
       else io_bind (check_context px) (\<lambda>_. io_return opened))"

definition check_entry_selected ::
  "'w posix \<Rightarrow> nat \<Rightarrow> string \<Rightarrow> Stat_t \<Rightarrow> FileInfo \<Rightarrow> string \<Rightarrow> FileInfo \<Rightarrow> ('w, fileError, unit) io" where
  "check_entry_selected px dir name before opened content afterOpen =
     io_bind (io_wrap (\<lambda>e. if e = ENOENT then ErrChanged else ReinspectError e) (px_fstatat px dir name)) (\<lambda>after.
     if st_mode after AND S_IFMT \<noteq> S_IFREG \<or> \<not> unixStatsMatch before after \<or> \<not> os_SameFile opened afterOpen \<or>
        \<not> sameFileVersion opened afterOpen \<or> \<not> unixStatMatchesInfo after afterOpen \<or>
        int (length content) \<noteq> fi_size opened \<or> int (length content) \<noteq> fi_size afterOpen then io_raise ErrChanged
     else check_context px)"

definition check_entry_stable ::
  "'w posix \<Rightarrow> nat \<Rightarrow> nat \<Rightarrow> string \<Rightarrow> Stat_t \<Rightarrow> FileInfo \<Rightarrow> string \<Rightarrow> ('w, fileError, unit) io" where
  "check_entry_stable px file dir name before opened content =
     io_bind (check_context px) (\<lambda>_.
     io_bind (io_wrap OsError (px_fstat px file)) (\<lambda>afterOpen.
     check_entry_selected px dir name before opened content afterOpen))"

definition read_entry_opened ::
  "'w posix \<Rightarrow> nat \<Rightarrow> nat \<Rightarrow> string \<Rightarrow> int \<Rightarrow> Stat_t \<Rightarrow> ('w, fileError \<times> int, string option \<times> int) io" where
  "read_entry_opened px file dir name maximumBytes before =
     io_bind (untouched (check_entry_opened px file maximumBytes before)) (\<lambda>opened.
     io_bind (readBoundedRegularFile px file maximumBytes [] 0) (\<lambda>(content, attempted).
     io_bind (io_wrap (\<lambda>e. (e, attempted)) (check_entry_stable px file dir name before opened content)) (\<lambda>_.
     io_return (Some content, attempted))))"

definition read_entry_found ::
  "'w posix \<Rightarrow> nat \<Rightarrow> string \<Rightarrow> int \<Rightarrow> Stat_t \<Rightarrow> ('w, fileError \<times> int, string option \<times> int) io" where
  "read_entry_found px dir name maximumBytes before =
     (if st_mode before AND S_IFMT = S_IFLNK then io_raise (ErrSymlink, 0)
      else if st_mode before AND S_IFMT \<noteq> S_IFREG then io_raise (ErrNotRegular, 0)
      else if maximumBytes < st_size before then io_raise (ErrLimitExceeded maximumBytes, 0)
      else io_bind (untouched (check_context px)) (\<lambda>_.
           io_bind (io_try (px_openat px dir name)) (\<lambda>r. case r of
               Inl openErr \<Rightarrow>
                 io_bind (untouched (classifyDirentOpenFailure px dir name before openErr)) (\<lambda>e.
                 io_raise (e, 0))
             | Inr file \<Rightarrow> with_file px file (read_entry_opened px file dir name maximumBytes before))))"

definition readRegularFileAtCounted ::
  "'w posix option \<Rightarrow> nat option \<Rightarrow> string \<Rightarrow> int \<Rightarrow> ('w, fileError \<times> int, string option \<times> int) io" where
  "readRegularFileAtCounted ctx dir name maximumBytes =
     (case ctx of
        None \<Rightarrow> io_raise (FileContextRequired, 0)
      | Some px \<Rightarrow>
          io_bind (untouched (check_context px)) (\<lambda>_.
          case dir of
            None \<Rightarrow> io_raise (DirectoryDescriptorRequired, 0)
          | Some dir \<Rightarrow>
              if maximumBytes \<le> 0 then io_raise (MaximumBytesInvalid, 0)
              else case validDirentName name of
                Inl e \<Rightarrow> io_raise (e, 0)
              | Inr _ \<Rightarrow>
                  io_bind (io_try (px_fstatat px dir name)) (\<lambda>r. case r of
                      Inl e \<Rightarrow> if e = ENOENT then io_return (None, 0) else io_raise (OsError e, 0)
                    | Inr before \<Rightarrow> read_entry_found px dir name maximumBytes before)))"

section \<open>What a reader may rely on\<close>

text \<open>
  \<^verbatim>\<open>docs/platforms.md\<close>: rapid changes can share one timestamp and an inode can be used again, so equal
  metadata does not mean equal content. \<open>same_metadata\<close> is what the readers compare; a change between two instants
  at which it agrees is one they cannot see.
\<close>

definition same_metadata :: "FileInfo \<Rightarrow> FileInfo \<Rightarrow> bool" where
  "same_metadata left right \<longleftrightarrow> os_SameFile left right \<and> sameFileVersion left right"

definition unseen_change ::
  "('w \<Rightarrow> 'w \<Rightarrow> bool) \<Rightarrow> ('i \<Rightarrow> 'w \<Rightarrow> string) \<Rightarrow> ('i \<Rightarrow> 'w \<Rightarrow> FileInfo) \<Rightarrow> 'i \<Rightarrow> 'w \<Rightarrow> 'i \<Rightarrow> 'w \<Rightarrow> bool" where
  "unseen_change later data info i wa j wb \<longleftrightarrow> same_metadata (info i wa) (info j wb) \<and>
     (data j wb \<noteq> data i wa \<or> (\<exists>wc. later wa wc \<and> later wc wb \<and> data i wc \<noteq> data i wa))"

text \<open>A snapshot with the metadata an object had in the world \<open>w\<close>.\<close>

definition snapshot_of ::
  "(string \<Rightarrow> string) \<Rightarrow> ('i \<Rightarrow> 'w \<Rightarrow> FileInfo) \<Rightarrow> Snapshot \<Rightarrow> 'i \<Rightarrow> 'w \<Rightarrow> bool" where
  "snapshot_of sha info snapshot i w \<longleftrightarrow>
     sn_mode snapshot = fi_mode (info i w) \<and>
     sn_revision snapshot = regularFileSnapshotRevision sha (info i w) (sn_content snapshot) \<and>
     sn_version snapshot = fst (RegularFileVersionOf (info i w)) \<and>
     mode_isRegular (fi_mode (info i w)) \<and> int (length (sn_content snapshot)) = fi_size (info i w)"

lemma same_metadata_trans: "same_metadata a b \<Longrightarrow> same_metadata b c \<Longrightarrow> same_metadata a c"
  by (auto simp: same_metadata_def os_SameFile_def sameFileVersion_def split: option.splits if_splits)

lemma same_metadata_sym: "same_metadata a b \<Longrightarrow> same_metadata b a"
  by (auto simp: same_metadata_def os_SameFile_def sameFileVersion_def split: option.splits if_splits)

lemma equal_versions:
  assumes "RegularFileVersion_Equal (fst (RegularFileVersionOf a)) (fst (RegularFileVersionOf b))"
  shows "same_metadata a b" "snapshot_facts a = snapshot_facts b"
  using assms
  by (auto simp: RegularFileVersion_Equal_def RegularFileVersionOf_def snapshot_facts_def no_version_def same_metadata_def
      os_SameFile_def sameFileVersion_def regularFileObjectIdentity_def fileChangeVersion_def split: if_splits option.splits)

text \<open>
  \<open>later\<close> is how the world evolves. An open descriptor refers to one object for as long as it is
  open and has an offset; \<open>names\<close> and \<open>entry\<close> say which object a path or a directory entry
  selects, \<open>info\<close> what is inspected of it; \<open>undisturbed\<close> is an evolution that leaves the caller's descriptors
  alone. Nothing relates what is inspected to the content.
\<close>

locale kernel_files =
  fixes px :: "'w posix"
    and later :: "'w \<Rightarrow> 'w \<Rightarrow> bool"
    and object :: "nat \<Rightarrow> 'w \<Rightarrow> 'i option"
    and offset :: "nat \<Rightarrow> 'w \<Rightarrow> nat"
    and data :: "'i \<Rightarrow> 'w \<Rightarrow> string"
    and info :: "'i \<Rightarrow> 'w \<Rightarrow> FileInfo"
    and undisturbed :: "'w \<Rightarrow> 'w \<Rightarrow> bool"
    and names :: "string \<Rightarrow> bool \<Rightarrow> 'i \<Rightarrow> 'w \<Rightarrow> bool"
    and entry :: "nat \<Rightarrow> string \<Rightarrow> 'i \<Rightarrow> 'w \<Rightarrow> bool"
  assumes undisturbed_iff: "undisturbed w w' \<longleftrightarrow> later w w' \<and>
      (\<forall>fd i. object fd w = Some i \<longrightarrow> object fd w' = Some i \<and> offset fd w' = offset fd w)"
    and later_refl: "later w w"
    and later_trans: "later w w1 \<Longrightarrow> later w1 w2 \<Longrightarrow> later w w2"
    and ctx_undisturbed: "undisturbed w (snd (px_ctx px w))"
    and lstat_undisturbed: "undisturbed w (snd (px_lstat px path w))"
    and stat_undisturbed: "undisturbed w (snd (px_stat px path w))"
    and readlink_undisturbed: "undisturbed w (snd (px_readlink px path w))"
    and fstat_undisturbed: "undisturbed w (snd (px_fstat px fd w))"
    and fstatat_undisturbed: "undisturbed w (snd (px_fstatat px fd name w))"
    and open_undisturbed: "undisturbed w (snd (px_open px path follow w))"
    and openat_undisturbed: "undisturbed w (snd (px_openat px dir name w))"
    and close_later: "later w (snd (px_close px fd w))"
    and read_later: "later w (snd (px_read px fd n w))"
    and opened_object: "px_open px path follow w = (Inr fd, w') \<Longrightarrow>
      \<exists>i. object fd w' = Some i \<and> offset fd w' = 0 \<and> names path follow i w'"
    and opened_entry: "px_openat px dir name w = (Inr fd, w') \<Longrightarrow>
      \<exists>i. object fd w' = Some i \<and> offset fd w' = 0 \<and> entry dir name i w'"
    and fstat_info: "object fd w = Some i \<Longrightarrow> px_fstat px fd w = (Inr inspected, w') \<Longrightarrow> inspected = info i w'"
    and read_bytes: "object fd w = Some i \<Longrightarrow> px_read px fd n w = ((bytes, failure), w') \<Longrightarrow>
      later w w' \<and> object fd w' = Some i \<and> offset fd w' = offset fd w + length bytes \<and> length bytes \<le> n \<and>
      bytes = take (length bytes) (drop (offset fd w) (data i w')) \<and>
      (failure = Some EOF \<longrightarrow> length (data i w') \<le> offset fd w')"
    and lstat_info: "px_lstat px path w = (Inr inspected, w') \<Longrightarrow> \<exists>i. names path False i w' \<and> inspected = info i w'"
    and stat_info: "px_stat px path w = (Inr inspected, w') \<Longrightarrow> \<exists>i. names path True i w' \<and> inspected = info i w'"
begin

lemma undisturbed_refl: "undisturbed w w"
  by (simp add: undisturbed_iff later_refl)

lemma undisturbed_trans: "undisturbed w w1 \<Longrightarrow> undisturbed w1 w2 \<Longrightarrow> undisturbed w w2"
  unfolding undisturbed_iff by (metis later_trans)

lemma undisturbed_later: "undisturbed w w' \<Longrightarrow> later w w'"
  by (simp add: undisturbed_iff)

lemma undisturbed_object: "undisturbed w w' \<Longrightarrow> object fd w = Some i \<Longrightarrow> object fd w' = Some i \<and> offset fd w' = offset fd w"
  by (simp add: undisturbed_iff)

text \<open>A computation that leaves the caller's descriptors alone, composed as the monad composes it.\<close>

definition calm :: "('w, 'e, 'a) io \<Rightarrow> bool" where
  "calm m \<longleftrightarrow> (\<forall>w. undisturbed w (snd (m w)))"

lemma calm_return: "calm (io_return x)" "calm (io_raise e)" "calm (io_refuse c e)"
  by (simp_all add: calm_def undisturbed_refl)

lemma calm_bind: "calm m \<Longrightarrow> (\<And>x. calm (f x)) \<Longrightarrow> calm (io_bind m f)"
  unfolding calm_def io_bind_def
  by (auto split: prod.splits sum.splits) (metis snd_conv undisturbed_trans)+

lemma calm_wrap: "calm m \<Longrightarrow> calm (io_wrap g m)"
  unfolding calm_def io_wrap_def by (auto split: prod.splits sum.splits) (metis snd_conv)+

lemma calm_try: "calm m \<Longrightarrow> calm (io_try m)"
  unfolding calm_def io_try_def by (auto split: prod.splits) (metis snd_conv)

lemma calm_calls:
  "calm (px_ctx px)" "calm (px_lstat px path)" "calm (px_stat px path)" "calm (px_readlink px path)"
  "calm (px_fstat px fd)" "calm (px_fstatat px fd name)" "calm (px_open px path follow)" "calm (px_openat px fd name)"
  by (simp_all add: calm_def ctx_undisturbed lstat_undisturbed stat_undisturbed readlink_undisturbed
      fstat_undisturbed fstatat_undisturbed open_undisturbed openat_undisturbed)

lemmas calm_intros = calm_return calm_bind calm_wrap calm_try calm_calls

lemma calm_result: "calm m \<Longrightarrow> m w = (r, w') \<Longrightarrow> undisturbed w w'"
  unfolding calm_def by (metis snd_conv)

lemma calm_context: "calm (check_context px)"
  unfolding check_context_def by (intro calm_intros)

lemma calm_same: "calm (sameSelectedEntry px path before after target policy)"
  unfolding sameSelectedEntry_def by (simp add: calm_intros)

lemma calm_selected: "calm (check_selected px path policy before opened target content afterOpen)"
  unfolding check_selected_def by (intro calm_intros calm_context calm_same) (auto intro: calm_intros calm_context)

lemma calm_entry_selected: "calm (check_entry_selected px dir name before opened content afterOpen)"
  unfolding check_entry_selected_def by (intro calm_intros calm_context) (auto intro: calm_intros calm_context)

lemma calm_inspect: "calm (inspect_before px path maximumBytes policy)"
  unfolding inspect_before_def by (intro calm_intros) (auto simp: Let_def split: sum.splits osError.splits intro!: calm_intros)

text \<open>The reading loop returns the content of the object when the object does not change while it runs.\<close>

lemma read_loop:
  assumes "readBoundedRegularFile px fd maximumBytes content attempted w = (Inr (result, transferred), w')"
    and "object fd w = Some i"
  shows "later w w' \<and> object fd w' = Some i \<and>
    ((\<forall>w1. later w w1 \<longrightarrow> later w1 w' \<longrightarrow> data i w1 = d) \<longrightarrow> offset fd w = length content \<longrightarrow>
       content = take (length content) d \<longrightarrow> result = d)"
  using assms
proof (induction "nat (maximumBytes - attempted)" arbitrary: content attempted w rule: less_induct)
  case less
  let ?size = "if maximumBytes - attempted < read_buffer then maximumBytes - attempted + 1 else read_buffer"
  obtain c w1 where ctx: "px_ctx px w = (c, w1)" by (cases "px_ctx px w")
  obtain bytes failure w2 where read: "px_read px fd (nat ?size) w1 = ((bytes, failure), w2)"
    by (cases "px_read px fd (nat ?size) w1") auto
  have w1: "later w w1" "object fd w1 = Some i" "offset fd w1 = offset fd w"
    using calm_result[OF calm_calls(1) ctx] undisturbed_object less.prems(2) undisturbed_later by auto
  note w2 = read_bytes[OF w1(2) read]
  have first: "content @ bytes = take (length (content @ bytes)) d"
    if "data i w2 = d" "offset fd w = length content" "content = take (length content) d"
  proof -
    have "bytes = take (length bytes) (drop (length content) d)" using w2 w1 that by simp
    then show ?thesis using that(3) by (metis length_append take_add)
  qed
  note loop = less.prems(1)[unfolded readBoundedRegularFile.simps[of px fd maximumBytes content attempted w]
      ctx prod.case Let_def read]
  show ?case
  proof (cases "failure = Some EOF")
    case True
    then have "result = content @ bytes" "w' = w2"
      using loop by (auto split: sum.splits if_splits)
    moreover have "content @ bytes = d"
      if "data i w2 = d" "offset fd w = length content" "content = take (length content) d"
      using first[OF that] w2 w1 that True by simp
    ultimately show ?thesis using w1 w2 later_trans later_refl by blast
  next
    case False
    then have more: "bytes \<noteq> []" "attempted + int (length bytes) \<le> maximumBytes"
      and rest: "readBoundedRegularFile px fd maximumBytes (content @ bytes) (attempted + int (length bytes)) w2 =
          (Inr (result, transferred), w')"
      using loop by (auto split: sum.splits if_splits option.splits readFailure.splits)
    then have "nat (maximumBytes - (attempted + int (length bytes))) < nat (maximumBytes - attempted)"
      by (cases bytes) auto
    note step = less.hyps[OF this rest]
    have "object fd w2 = Some i" using w2 by simp
    note step = step[OF this]
    have tail: "later w2 w'" "object fd w' = Some i"
      "(\<forall>w3. later w2 w3 \<longrightarrow> later w3 w' \<longrightarrow> data i w3 = d) \<Longrightarrow>
       offset fd w2 = length (content @ bytes) \<Longrightarrow> content @ bytes = take (length (content @ bytes)) d \<Longrightarrow> result = d"
      using step by blast+
    moreover have "later w w2" using w1 w2 later_trans by blast
    moreover have "result = d"
      if stable: "\<forall>w3. later w w3 \<longrightarrow> later w3 w' \<longrightarrow> data i w3 = d" "offset fd w = length content"
        "content = take (length content) d"
    proof (rule tail(3))
      show "\<forall>w3. later w2 w3 \<longrightarrow> later w3 w' \<longrightarrow> data i w3 = d"
        using stable(1) \<open>later w w2\<close> later_trans by blast
      show "content @ bytes = take (length (content @ bytes)) d"
        using stable \<open>later w w2\<close> tail(1) by (intro first) auto
      show "offset fd w2 = length (content @ bytes)" using w1 w2 stable(2) by simp
    qed
    ultimately show ?thesis using later_trans by blast
  qed
qed

text \<open>Content read between two inspections that saw the same metadata.\<close>

lemma stable_read:
  assumes "readBoundedRegularFile px fd maximumBytes [] 0 w1 = (Inr (content, transferred), w2)"
    and "object fd w1 = Some i" "offset fd w1 = 0" "later wa w1" "later w2 wb"
    and "same_metadata (info i wa) (info i wb)"
  shows "(content = data i wa \<or> unseen_change later data info i wa i wb) \<and> later w1 w2 \<and> object fd w2 = Some i"
proof -
  note loop = read_loop[OF assms(1,2), where d = "data i wa"]
  have "content = data i wa" if "\<not> unseen_change later data info i wa i wb"
  proof -
    have "data i w3 = data i wa" if "later w1 w3" "later w3 w2" for w3
    proof -
      have "later wa w3" "later w3 wb" using that assms(4,5) later_trans by blast+
      then show ?thesis using \<open>\<not> unseen_change later data info i wa i wb\<close> assms(6) by (auto simp: unseen_change_def)
    qed
    then show ?thesis using loop assms(3) by simp
  qed
  then show ?thesis using loop by blast
qed

lemma check_opened_result:
  assumes "check_opened px fd maximumBytes before referent w = (Inr opened, w')" "object fd w = Some i"
  shows "\<exists>wa. later w wa \<and> undisturbed wa w' \<and> opened = info i wa \<and> object fd wa = Some i \<and>
    offset fd wa = offset fd w \<and> fi_size opened \<le> maximumBytes \<and> mode_isRegular (fi_mode opened)"
proof -
  obtain wa where wa: "px_fstat px fd w = (Inr opened, wa)" "check_context px wa = (Inr (), w')"
    "mode_isRegular (fi_mode opened)" "fi_size opened \<le> maximumBytes"
    using assms(1) unfolding check_opened_def by (auto simp: io_results split: if_splits)
  have "undisturbed w wa" using wa(1) calm_calls(5) calm_result by blast
  moreover have "undisturbed wa w'" using wa(2) calm_context calm_result by blast
  ultimately show ?thesis
    using wa fstat_info[OF assms(2)] undisturbed_object[OF _ assms(2)] undisturbed_later by blast
qed

lemma check_selected_result:
  assumes "check_selected px path policy before opened target content afterOpen w = (Inr u, w')"
  shows "same_metadata opened afterOpen \<and> int (length content) = fi_size opened \<and>
    (\<exists>j we. later w we \<and> later we w' \<and> names path (policy = followFinalSymlink) j we \<and> same_metadata opened (info j we))"
proof (cases "policy = followFinalSymlink")
  case True
  obtain entry w1 w2 referent w3 where steps: "px_lstat px path w = (Inr entry, w1)"
    "sameSelectedEntry px path before entry target policy w1 = (Inr True, w2)" "px_stat px path w2 = (Inr referent, w3)"
    "check_context px w3 = (Inr u, w')"
    and facts: "same_metadata opened afterOpen" "int (length content) = fi_size opened" "same_metadata opened referent"
    using assms True unfolding check_selected_def same_metadata_def by (auto simp: io_results split: if_splits)
  have "later w w1" "later w1 w2" "later w2 w3" "later w3 w'"
    using steps calm_calls(2,3) calm_same calm_context calm_result undisturbed_later by blast+
  then have "later w w3" "later w3 w'" using later_trans by blast+
  moreover obtain j where "names path True j w3" "referent = info j w3" using stat_info[OF steps(3)] by blast
  ultimately show ?thesis using facts True by auto
next
  case False
  obtain entry w1 w2 where steps: "px_lstat px path w = (Inr entry, w1)"
    "sameSelectedEntry px path before entry target policy w1 = (Inr True, w2)" "check_context px w2 = (Inr u, w')"
    and facts: "same_metadata opened afterOpen" "int (length content) = fi_size opened" "same_metadata opened entry"
    using assms False unfolding check_selected_def same_metadata_def by (auto simp: io_results split: if_splits)
  have "later w w1" "later w1 w2" "later w2 w'"
    using steps calm_calls(2) calm_same calm_context calm_result undisturbed_later by blast+
  then have "later w w1" "later w1 w'" using later_trans by blast+
  moreover obtain j where "names path False j w1" "entry = info j w1" using lstat_info[OF steps(1)] by blast
  ultimately show ?thesis using facts False by auto
qed

lemma check_stable_result:
  assumes "check_stable px fd path policy before opened target content w = (Inr u, w')" "object fd w = Some i"
  shows "\<exists>wb j we. later w wb \<and> later wb we \<and> later we w' \<and> same_metadata opened (info i wb) \<and>
    names path (policy = followFinalSymlink) j we \<and> same_metadata opened (info j we) \<and> int (length content) = fi_size opened"
proof -
  obtain w1 afterOpen wb where steps: "check_context px w = (Inr (), w1)" "px_fstat px fd w1 = (Inr afterOpen, wb)"
    "check_selected px path policy before opened target content afterOpen wb = (Inr u, w')"
    using assms(1) unfolding check_stable_def by (auto simp: io_results)
  have calm: "undisturbed w w1" "undisturbed w1 wb"
    using steps calm_context calm_calls(5) calm_result by blast+
  then have "afterOpen = info i wb" using fstat_info[OF _ steps(2)] undisturbed_object[OF _ assms(2)] by blast
  moreover have "later w wb" using calm undisturbed_later later_trans by blast
  ultimately show ?thesis using check_selected_result[OF steps(3)] by blast
qed

lemma read_opened_result:
  assumes "read_opened sha px fd path maximumBytes policy before referent target w = (Inr (r, n), w')"
    and "object fd w = Some i" "offset fd w = 0"
  shows "\<exists>snapshot wa wb j we. r = Some snapshot \<and> later w wa \<and> later wa wb \<and> later wb we \<and> later we w' \<and>
    snapshot_of sha info snapshot i wa \<and> same_metadata (info i wa) (info i wb) \<and>
    (sn_content snapshot = data i wa \<or> unseen_change later data info i wa i wb) \<and>
    names path (policy = followFinalSymlink) j we \<and> same_metadata (info i wa) (info j we) \<and>
    int (length (sn_content snapshot)) \<le> maximumBytes"
proof -
  obtain opened w1 content w2 where steps:
    "check_opened px fd maximumBytes before referent w = (Inr opened, w1)"
    "readBoundedRegularFile px fd maximumBytes [] 0 w1 = (Inr (content, n), w2)"
    "check_stable px fd path policy before opened target content w2 = (Inr (), w')"
    and r: "r = Some \<lparr>sn_content = content, sn_mode = fi_mode opened,
       sn_revision = regularFileSnapshotRevision sha opened content, sn_version = fst (RegularFileVersionOf opened)\<rparr>"
    using assms(1) unfolding read_opened_def untouched_def by (auto simp: io_results)
  obtain wa where wa: "later w wa" "undisturbed wa w1" "opened = info i wa" "object fd wa = Some i"
    "offset fd wa = 0" "fi_size opened \<le> maximumBytes" "mode_isRegular (fi_mode opened)"
    using check_opened_result[OF steps(1) assms(2)] assms(3) by auto
  have w1: "object fd w1 = Some i" "offset fd w1 = 0" "later wa w1"
    using wa undisturbed_object undisturbed_later by auto
  have "object fd w2 = Some i" using read_loop[OF steps(2) w1(1)] by blast
  then obtain wb j we where wb: "later w2 wb" "later wb we" "later we w'" "same_metadata opened (info i wb)"
    "names path (policy = followFinalSymlink) j we" "same_metadata opened (info j we)" "int (length content) = fi_size opened"
    using check_stable_result[OF steps(3)] by blast
  have read: "(content = data i wa \<or> unseen_change later data info i wa i wb) \<and> later w1 w2"
    using stable_read[OF steps(2) w1 wb(1)] wb(4) wa(3) by blast
  then have between: "later wa wb" using w1(3) wb(1) later_trans by blast
  let ?snapshot = "\<lparr>sn_content = content, sn_mode = fi_mode opened,
       sn_revision = regularFileSnapshotRevision sha opened content, sn_version = fst (RegularFileVersionOf opened)\<rparr>"
  have "snapshot_of sha info ?snapshot i wa" using wa(3,7) wb(7) by (simp add: snapshot_of_def)
  moreover have "int (length content) \<le> maximumBytes" using wb(7) wa(6) by simp
  ultimately show ?thesis
    using r read between wa(1) wb(2-6) unfolding wa(3)
    by (intro exI[of _ ?snapshot] exI[of _ wa] exI[of _ wb] exI[of _ j] exI[of _ we]) (simp add: wa(3))
qed

lemma snapshot_at_one_instant:
  assumes "readRegularFileSnapshot sha (Some px) path maximumBytes policy w = (Inr (Some snapshot, n), w')"
  shows "\<exists>i wo wa wb j we. later w wo \<and> later wo wa \<and> later wa wb \<and> later wb we \<and> later we w' \<and>
    names path (policy = followFinalSymlink) i wo \<and> names path (policy = followFinalSymlink) j we \<and>
    snapshot_of sha info snapshot i wa \<and> same_metadata (info i wa) (info i wb) \<and> same_metadata (info i wa) (info j we) \<and>
    (sn_content snapshot = data i wa \<or> unseen_change later data info i wa i wb) \<and>
    int (length (sn_content snapshot)) \<le> maximumBytes"
proof -
  obtain w1 before referent target w2 w3 fd w4 where steps:
    "check_context px w = (Inr (), w1)"
    "inspect_before px path maximumBytes policy w1 = (Inr (Some (before, referent, target)), w2)"
    "check_context px w2 = (Inr (), w3)"
    "px_open px path (policy = followFinalSymlink) w3 = (Inr fd, w4)"
    "with_file px fd (read_opened sha px fd path maximumBytes policy before referent target) w4 = (Inr (Some snapshot, n), w')"
    using assms unfolding readRegularFileSnapshot_def untouched_def openRegularFile_def
    by (auto simp: io_results split: if_splits option.splits sum.splits prod.splits) (metis obj_sumE)
  obtain i where i: "object fd w4 = Some i" "offset fd w4 = 0" "names path (policy = followFinalSymlink) i w4"
    using opened_object[OF steps(4)] by blast
  obtain w5 where w5: "read_opened sha px fd path maximumBytes policy before referent target w4 = (Inr (Some snapshot, n), w5)"
    "w' = snd (px_close px fd w5)"
    using steps(5) by (auto simp: with_file_def split: prod.splits)
  have "later w w1" "later w1 w2" "later w2 w3" "later w3 w4"
    using steps(1-4) calm_context calm_inspect calm_calls(7) calm_result undisturbed_later by blast+
  then have "later w w4" using later_trans by blast
  moreover have "later w5 w'" using w5(2) close_later by simp
  moreover obtain wa wb j we where "later w4 wa" "later wa wb" "later wb we" "later we w5" "snapshot_of sha info snapshot i wa"
      "same_metadata (info i wa) (info i wb)" "sn_content snapshot = data i wa \<or> unseen_change later data info i wa i wb"
      "names path (policy = followFinalSymlink) j we" "same_metadata (info i wa) (info j we)"
      "int (length (sn_content snapshot)) \<le> maximumBytes"
    using read_opened_result[OF w5(1) i(1,2)] by blast
  ultimately show ?thesis using i(3) later_trans by meson
qed

text \<open>The same for one directory entry.\<close>

lemma read_entry_result:
  assumes "read_entry_opened px fd dir name maximumBytes before w = (Inr (r, n), w')"
    and "object fd w = Some i" "offset fd w = 0"
  shows "\<exists>content wa wb. r = Some content \<and> later w wa \<and> later wa wb \<and> later wb w' \<and>
    (content = data i wa \<or> unseen_change later data info i wa i wb) \<and>
    unixStatMatchesInfo before (info i wa) \<and> int (length content) \<le> maximumBytes"
proof -
  obtain opened w1 content w2 w3 afterOpen w4 wa where steps:
    "px_fstat px fd w = (Inr opened, wa)" "check_context px wa = (Inr (), w1)"
    "readBoundedRegularFile px fd maximumBytes [] 0 w1 = (Inr (content, n), w2)"
    "check_context px w2 = (Inr (), w3)" "px_fstat px fd w3 = (Inr afterOpen, w4)"
    "check_entry_selected px dir name before opened content afterOpen w4 = (Inr (), w')"
    and facts: "unixStatMatchesInfo before opened" "fi_size opened \<le> maximumBytes" "r = Some content"
    using assms(1) unfolding read_entry_opened_def untouched_def check_entry_opened_def check_entry_stable_def
    by (auto simp: io_results split: if_splits)
  have calm: "undisturbed w wa" "undisturbed wa w1" "undisturbed w2 w3" "undisturbed w3 w4" "undisturbed w4 w'"
    using steps calm_context calm_calls(5) calm_entry_selected calm_result by blast+
  have opened: "opened = info i wa" using fstat_info[OF assms(2) steps(1)] .
  have w1: "object fd w1 = Some i" "offset fd w1 = 0" "later wa w1"
    using calm(1,2) assms(2,3) undisturbed_object undisturbed_later by metis+
  have "object fd w2 = Some i" using read_loop[OF steps(3) w1(1)] by blast
  then have after: "afterOpen = info i w4" using calm(3) fstat_info[OF _ steps(5)] undisturbed_object by blast
  have stable: "same_metadata opened afterOpen" "int (length content) = fi_size opened"
    using steps(6) unfolding check_entry_selected_def same_metadata_def by (auto simp: io_results split: if_splits)
  have last: "later w2 w4" "later w4 w'" using calm(3-5) undisturbed_later later_trans by blast+
  have read: "(content = data i wa \<or> unseen_change later data info i wa i w4) \<and> later w1 w2"
    using stable_read[OF steps(3) w1 last(1)] stable(1) opened after by blast
  then have "later wa w4" using w1(3) last(1) later_trans by blast
  then show ?thesis
    using facts opened calm(1) undisturbed_later stable(2) read last(2) by (intro exI[of _ content] exI[of _ wa] exI[of _ w4]) auto
qed

lemma entry_at_one_instant:
  assumes "readRegularFileAtCounted (Some px) dir name maximumBytes w = (Inr (Some content, n), w')"
  shows "\<exists>d i wo wa wb. dir = Some d \<and> validDirentName name = Inr () \<and> later w wo \<and> later wo wa \<and> later wa wb \<and> later wb w' \<and>
    entry d name i wo \<and> (content = data i wa \<or> unseen_change later data info i wa i wb) \<and> int (length content) \<le> maximumBytes"
proof -
  obtain d where d: "dir = Some d" "validDirentName name = Inr ()"
    using assms unfolding readRegularFileAtCounted_def untouched_def
    by (auto simp: io_results split: if_splits option.splits sum.splits)
  obtain w1 r w2 where top: "check_context px w = (Inr (), w1)" "px_fstatat px d name w1 = (r, w2)"
    "(case r of Inl e \<Rightarrow> if e = ENOENT then io_return (None, 0) else io_raise (OsError e, 0)
       | Inr before \<Rightarrow> read_entry_found px d name maximumBytes before) w2 = (Inr (Some content, n), w')"
    using assms d unfolding readRegularFileAtCounted_def untouched_def
    by (simp add: io_results split: if_splits) blast
  then obtain before where before: "px_fstatat px d name w1 = (Inr before, w2)"
    "read_entry_found px d name maximumBytes before w2 = (Inr (Some content, n), w')"
    by (cases r) (auto split: if_splits)
  obtain w3 q w4 where found: "check_context px w2 = (Inr (), w3)" "px_openat px d name w3 = (q, w4)"
    "(case q of Inl openErr \<Rightarrow> io_bind (untouched (classifyDirentOpenFailure px d name before openErr)) (\<lambda>e. io_raise (e, 0))
       | Inr file \<Rightarrow> with_file px file (read_entry_opened px file d name maximumBytes before)) w4 = (Inr (Some content, n), w')"
    using before(2) unfolding read_entry_found_def untouched_def
    by (simp add: io_results split: if_splits) blast
  then obtain fd where fd: "px_openat px d name w3 = (Inr fd, w4)"
    "with_file px fd (read_entry_opened px fd d name maximumBytes before) w4 = (Inr (Some content, n), w')"
    by (cases q) (auto simp: io_bind_Inr)
  obtain i where i: "object fd w4 = Some i" "offset fd w4 = 0" "entry d name i w4"
    using opened_entry[OF fd(1)] by blast
  obtain w5 where w5: "read_entry_opened px fd d name maximumBytes before w4 = (Inr (Some content, n), w5)"
    "w' = snd (px_close px fd w5)"
    using fd(2) by (auto simp: with_file_def split: prod.splits)
  have "later w w1" "later w1 w2" "later w2 w3" "later w3 w4"
    using top(1) before(1) found(1) fd(1) calm_context calm_calls(6,8) calm_result undisturbed_later by blast+
  then have "later w w4" using later_trans by blast
  moreover have closed: "later w5 w'" using w5(2) close_later by simp
  moreover obtain wa wb where "later w4 wa" "later wa wb" and read: "later wb w5" and "int (length content) \<le> maximumBytes"
      "content = data i wa \<or> unseen_change later data info i wa i wb"
    using read_entry_result[OF w5(1) i(1,2)] by blast
  moreover have "later wb w'" by (rule later_trans[OF read closed])
  ultimately show ?thesis using i(3) d
    by (intro exI[of _ d] exI[of _ i] exI[of _ w4] exI[of _ wa] exI[of _ wb]) simp
qed

text \<open>However the world answers, a read transfers at most one byte more than its maximum, and on success as
  many bytes as it returns.\<close>

lemma read_transfer:
  assumes "readBoundedRegularFile px fd maximumBytes content attempted w = (r, w')"
    and "object fd w = Some i" "0 \<le> attempted" "attempted \<le> maximumBytes"
  shows "(case r of Inl (e, n) \<Rightarrow> attempted \<le> n \<and> n \<le> maximumBytes + 1
    | Inr (result, n) \<Rightarrow> n = attempted + int (length result) - int (length content) \<and> n \<le> maximumBytes)"
  using assms
proof (induction "nat (maximumBytes - attempted)" arbitrary: content attempted w rule: less_induct)
  case less
  let ?size = "if maximumBytes - attempted < read_buffer then maximumBytes - attempted + 1 else read_buffer"
  obtain c w1 where ctx: "px_ctx px w = (c, w1)" by (cases "px_ctx px w")
  obtain bytes failure w2 where read: "px_read px fd (nat ?size) w1 = ((bytes, failure), w2)"
    by (cases "px_read px fd (nat ?size) w1") auto
  have w1: "object fd w1 = Some i"
    using calm_result[OF calm_calls(1) ctx] undisturbed_object less.prems(2) by blast
  note w2 = read_bytes[OF w1 read]
  have size: "int (length bytes) \<le> ?size" "?size \<le> maximumBytes - attempted + 1" "0 < ?size"
    using w2 less.prems(3,4) by (auto simp: read_buffer_def)
  note loop = less.prems(1)[unfolded readBoundedRegularFile.simps[of px fd maximumBytes content attempted w]
      ctx prod.case Let_def read]
  show ?case
  proof (cases "(\<exists>u. c = Inr u) \<and> failure = None \<and> bytes \<noteq> [] \<and> attempted + int (length bytes) \<le> maximumBytes")
    case True
    then have rest: "readBoundedRegularFile px fd maximumBytes (content @ bytes) (attempted + int (length bytes)) w2 = (r, w')"
      using loop size by auto
    have "nat (maximumBytes - (attempted + int (length bytes))) < nat (maximumBytes - attempted)"
      using True by (cases bytes) auto
    from less.hyps[OF this rest] w2 True less.prems(3) show ?thesis
      by (auto split: sum.splits prod.splits)
  next
    case False
    then show ?thesis using loop size less.prems(3,4)
      by (auto split: sum.splits if_splits option.splits readFailure.splits)
  qed
qed

end

end
