(* ===== verification/RevisionBudget.thy ===== *)
theory RevisionBudget
  imports MutationModel
begin

text \<open>
  The two-level work budget of a revision pass, \<^verbatim>\<open>internal/effect/mutation/revision_budget.go\<close>: an
  operation budget shared by all captures of a pass and a tree budget for each of them. A tree budget
  carries the operation budget it points to. Sums are Go integers and wrap around at 64 bits.
\<close>

section \<open>Limits and budgets\<close>

datatype RevisionLimitKind =
    RevisionLimitTreeEntries
  | RevisionLimitTreeDepth
  | RevisionLimitTreeBytes
  | RevisionLimitOperationEntries
  | RevisionLimitOperationBytes

datatype budgetError =
    LimitNegative RevisionLimitKind
  | LimitsUninitialized
  | BudgetRequired
  | BudgetInvalid
  | RevisionLimitError RevisionLimitKind int int

definition maximumRevisionOperationEntries :: int where
  "maximumRevisionOperationEntries = 400000"

definition maximumRevisionOperationBytes :: int where
  "maximumRevisionOperationBytes = 16 * 2 ^ 30"

record revisionCaptureLimits =
  maximumTreeEntries :: int
  maximumTreeDepth :: int
  maximumTreeBytes :: int
  maximumOperationEntries :: int
  maximumOperationBytes :: int
  limits_initialized :: bool

definition newRevisionCaptureLimits :: "int \<Rightarrow> int \<Rightarrow> int \<Rightarrow> int \<Rightarrow> int \<Rightarrow> budgetError + revisionCaptureLimits" where
  "newRevisionCaptureLimits treeEntries treeDepth treeBytes operationEntries operationBytes =
     (if treeEntries < 0 then Inl (LimitNegative RevisionLimitTreeEntries)
      else if treeDepth < 0 then Inl (LimitNegative RevisionLimitTreeDepth)
      else if treeBytes < 0 then Inl (LimitNegative RevisionLimitTreeBytes)
      else if operationEntries < 0 then Inl (LimitNegative RevisionLimitOperationEntries)
      else if operationBytes < 0 then Inl (LimitNegative RevisionLimitOperationBytes)
      else Inr \<lparr>maximumTreeEntries = treeEntries, maximumTreeDepth = treeDepth, maximumTreeBytes = treeBytes,
             maximumOperationEntries = operationEntries, maximumOperationBytes = operationBytes,
             limits_initialized = True\<rparr>)"

record revisionCaptureBudget =
  ob_limits :: revisionCaptureLimits
  ob_entries :: int
  ob_bytes :: int

definition newRevisionCaptureBudget :: "revisionCaptureLimits \<Rightarrow> budgetError + revisionCaptureBudget" where
  "newRevisionCaptureBudget limits =
     (if \<not> limits_initialized limits then Inl LimitsUninitialized
      else Inr \<lparr>ob_limits = limits, ob_entries = 0, ob_bytes = 0\<rparr>)"

record revisionTreeBudget =
  tb_operation :: revisionCaptureBudget
  tb_entries :: int
  tb_bytes :: int

definition beginTree :: "revisionCaptureBudget option \<Rightarrow> budgetError + revisionTreeBudget" where
  "beginTree budget =
     (case budget of
        None \<Rightarrow> Inl BudgetRequired
      | Some b \<Rightarrow>
          if \<not> limits_initialized (ob_limits b) then Inl BudgetRequired
          else Inr \<lparr>tb_operation = b, tb_entries = 0, tb_bytes = 0\<rparr>)"

abbreviation tb_limits :: "revisionTreeBudget \<Rightarrow> revisionCaptureLimits" where
  "tb_limits b \<equiv> ob_limits (tb_operation b)"

definition operation_remainingEntries :: "revisionCaptureBudget \<Rightarrow> int" where
  "operation_remainingEntries b = wrap64 (maximumOperationEntries (ob_limits b) - ob_entries b)"

definition operation_remainingBytes :: "revisionCaptureBudget \<Rightarrow> int" where
  "operation_remainingBytes b = wrap64 (maximumOperationBytes (ob_limits b) - ob_bytes b)"

definition remainingEntries :: "revisionTreeBudget \<Rightarrow> int" where
  "remainingEntries b =
     min (wrap64 (maximumTreeEntries (tb_limits b) - tb_entries b)) (operation_remainingEntries (tb_operation b))"

definition remainingTreeBytes :: "revisionTreeBudget \<Rightarrow> int" where
  "remainingTreeBytes b = wrap64 (maximumTreeBytes (tb_limits b) - tb_bytes b)"

section \<open>Admissions\<close>

text \<open>An admission returns its error, if any, and the budgets after it.\<close>

type_synonym admission = "(budgetError + unit) \<times> revisionTreeBudget"

definition admitEntries :: "int \<Rightarrow> revisionTreeBudget \<Rightarrow> admission" where
  "admitEntries count b =
     (if count < 0 then (Inl BudgetInvalid, b)
      else
        let treeObserved = wrap64 (tb_entries b + count) in
        if treeObserved > maximumTreeEntries (tb_limits b)
        then (Inl (RevisionLimitError RevisionLimitTreeEntries (maximumTreeEntries (tb_limits b)) treeObserved), b)
        else
          let operationObserved = wrap64 (ob_entries (tb_operation b) + count) in
          if operationObserved > maximumOperationEntries (tb_limits b)
          then (Inl (RevisionLimitError RevisionLimitOperationEntries
                  (maximumOperationEntries (tb_limits b)) operationObserved), b)
          else (Inr (), b\<lparr>tb_entries := treeObserved,
                  tb_operation := (tb_operation b)\<lparr>ob_entries := operationObserved\<rparr>\<rparr>))"

definition admitDirectoryDepth :: "int \<Rightarrow> revisionTreeBudget \<Rightarrow> admission" where
  "admitDirectoryDepth depth b =
     (if depth < 0 then (Inl BudgetInvalid, b)
      else if depth > maximumTreeDepth (tb_limits b)
      then (Inl (RevisionLimitError RevisionLimitTreeDepth (maximumTreeDepth (tb_limits b)) depth), b)
      else (Inr (), b))"

definition rejectedOperationByteTotal :: "int \<Rightarrow> revisionTreeBudget \<Rightarrow> int" where
  "rejectedOperationByteTotal count b =
     (if count > wrap64 (go_max_int - ob_bytes (tb_operation b)) then go_max_int
      else wrap64 (ob_bytes (tb_operation b) + count))"

definition rejectedTreeByteTotal :: "int \<Rightarrow> revisionTreeBudget \<Rightarrow> int" where
  "rejectedTreeByteTotal count b =
     (if count > wrap64 (go_max_int - tb_bytes b) then go_max_int else wrap64 (tb_bytes b + count))"

definition admitBytes :: "int \<Rightarrow> revisionTreeBudget \<Rightarrow> admission" where
  "admitBytes count b =
     (if count < 0 then (Inl BudgetInvalid, b)
      else if count > operation_remainingBytes (tb_operation b)
      then (Inl (RevisionLimitError RevisionLimitOperationBytes (maximumOperationBytes (tb_limits b))
              (rejectedOperationByteTotal count b)), b)
      else (Inr (), b\<lparr>tb_operation := (tb_operation b)\<lparr>ob_bytes := wrap64 (ob_bytes (tb_operation b) + count)\<rparr>\<rparr>))"

definition admitTreeBytes :: "int \<Rightarrow> revisionTreeBudget \<Rightarrow> admission" where
  "admitTreeBytes count b =
     (if count < 0 then (Inl BudgetInvalid, b)
      else
        let treeRemaining = remainingTreeBytes b; operationRemaining = operation_remainingBytes (tb_operation b) in
        if count > min treeRemaining operationRemaining
        then if treeRemaining \<le> operationRemaining
          then (Inl (RevisionLimitError RevisionLimitTreeBytes (maximumTreeBytes (tb_limits b))
                  (rejectedTreeByteTotal count b)), b)
          else (Inl (RevisionLimitError RevisionLimitOperationBytes (maximumOperationBytes (tb_limits b))
                  (rejectedOperationByteTotal count b)), b)
        else (Inr (), b\<lparr>tb_bytes := wrap64 (tb_bytes b + count),
                tb_operation := (tb_operation b)\<lparr>ob_bytes := wrap64 (ob_bytes (tb_operation b) + count)\<rparr>\<rparr>))"

section \<open>The budget is kept\<close>

definition limits_ok :: "revisionCaptureLimits \<Rightarrow> bool" where
  "limits_ok l \<longleftrightarrow> limits_initialized l \<and>
     list_all (\<lambda>n. 0 \<le> n \<and> n \<le> go_max_int)
       [maximumTreeEntries l, maximumTreeDepth l, maximumTreeBytes l, maximumOperationEntries l, maximumOperationBytes l]"

definition budget_ok :: "revisionTreeBudget \<Rightarrow> bool" where
  "budget_ok b \<longleftrightarrow> limits_ok (tb_limits b) \<and>
     0 \<le> tb_entries b \<and> tb_entries b \<le> maximumTreeEntries (tb_limits b) \<and>
     0 \<le> tb_bytes b \<and> tb_bytes b \<le> maximumTreeBytes (tb_limits b) \<and>
     0 \<le> ob_entries (tb_operation b) \<and> ob_entries (tb_operation b) \<le> maximumOperationEntries (tb_limits b) \<and>
     0 \<le> ob_bytes (tb_operation b) \<and> ob_bytes (tb_operation b) \<le> maximumOperationBytes (tb_limits b)"

datatype request_work = WorkEntries int | WorkDepth int | WorkBytes int | WorkTreeBytes int

fun admit :: "request_work \<Rightarrow> revisionTreeBudget \<Rightarrow> admission" where
  "admit (WorkEntries n) b = admitEntries n b"
| "admit (WorkDepth n) b = admitDirectoryDepth n b"
| "admit (WorkBytes n) b = admitBytes n b"
| "admit (WorkTreeBytes n) b = admitTreeBytes n b"

text \<open>What an admission would use: entries of the tree and the operation, bytes of the tree and the operation.\<close>

fun work_amount :: "request_work \<Rightarrow> int" where
  "work_amount (WorkEntries n) = n"
| "work_amount (WorkDepth n) = n"
| "work_amount (WorkBytes n) = n"
| "work_amount (WorkTreeBytes n) = n"

fun use_budget :: "request_work \<Rightarrow> revisionTreeBudget \<Rightarrow> revisionTreeBudget" where
  "use_budget (WorkEntries n) b = b\<lparr>tb_entries := tb_entries b + n,
     tb_operation := (tb_operation b)\<lparr>ob_entries := ob_entries (tb_operation b) + n\<rparr>\<rparr>"
| "use_budget (WorkDepth n) b = b"
| "use_budget (WorkBytes n) b = b\<lparr>tb_operation := (tb_operation b)\<lparr>ob_bytes := ob_bytes (tb_operation b) + n\<rparr>\<rparr>"
| "use_budget (WorkTreeBytes n) b = b\<lparr>tb_bytes := tb_bytes b + n,
     tb_operation := (tb_operation b)\<lparr>ob_bytes := ob_bytes (tb_operation b) + n\<rparr>\<rparr>"

fun work_fits :: "request_work \<Rightarrow> revisionTreeBudget \<Rightarrow> bool" where
  "work_fits (WorkDepth n) b \<longleftrightarrow> n \<le> maximumTreeDepth (tb_limits b)"
| "work_fits w b \<longleftrightarrow> budget_ok (use_budget w b)"

text \<open>Directory listings are never longer than a Go slice can be, and the sums with what is already
  counted stay below the wrap-around; the byte totals need no such bound.\<close>

fun work_countable :: "request_work \<Rightarrow> revisionTreeBudget \<Rightarrow> bool" where
  "work_countable (WorkEntries n) b \<longleftrightarrow> tb_entries b + n \<le> go_max_int \<and> ob_entries (tb_operation b) + n \<le> go_max_int"
| "work_countable w b \<longleftrightarrow> work_amount w \<le> go_max_int"

text \<open>The reason of a refusal: the tree is asked first, except that bytes are refused by whichever budget has
  less left, the tree on a tie; byte totals saturate.\<close>

fun work_error :: "request_work \<Rightarrow> revisionTreeBudget \<Rightarrow> budgetError" where
  "work_error (WorkEntries n) b =
     (if tb_entries b + n > maximumTreeEntries (tb_limits b)
      then RevisionLimitError RevisionLimitTreeEntries (maximumTreeEntries (tb_limits b)) (tb_entries b + n)
      else RevisionLimitError RevisionLimitOperationEntries (maximumOperationEntries (tb_limits b))
        (ob_entries (tb_operation b) + n))"
| "work_error (WorkDepth n) b = RevisionLimitError RevisionLimitTreeDepth (maximumTreeDepth (tb_limits b)) n"
| "work_error (WorkBytes n) b = RevisionLimitError RevisionLimitOperationBytes (maximumOperationBytes (tb_limits b))
     (min go_max_int (ob_bytes (tb_operation b) + n))"
| "work_error (WorkTreeBytes n) b =
     (if maximumTreeBytes (tb_limits b) - tb_bytes b \<le> maximumOperationBytes (tb_limits b) - ob_bytes (tb_operation b)
      then RevisionLimitError RevisionLimitTreeBytes (maximumTreeBytes (tb_limits b)) (min go_max_int (tb_bytes b + n))
      else RevisionLimitError RevisionLimitOperationBytes (maximumOperationBytes (tb_limits b))
        (min go_max_int (ob_bytes (tb_operation b) + n)))"

lemma budget_remaining:
  assumes "budget_ok b"
  shows "operation_remainingEntries (tb_operation b) = maximumOperationEntries (tb_limits b) - ob_entries (tb_operation b)"
    "operation_remainingBytes (tb_operation b) = maximumOperationBytes (tb_limits b) - ob_bytes (tb_operation b)"
    "remainingTreeBytes b = maximumTreeBytes (tb_limits b) - tb_bytes b"
    "remainingEntries b = min (maximumTreeEntries (tb_limits b) - tb_entries b)
       (maximumOperationEntries (tb_limits b) - ob_entries (tb_operation b))"
  using assms
  by (simp_all add: operation_remainingEntries_def operation_remainingBytes_def remainingTreeBytes_def
      remainingEntries_def budget_ok_def limits_ok_def)

lemma rejected_totals:
  assumes "budget_ok b" "0 \<le> n" "n \<le> go_max_int"
  shows "rejectedOperationByteTotal n b = min go_max_int (ob_bytes (tb_operation b) + n)"
    "rejectedTreeByteTotal n b = min go_max_int (tb_bytes b + n)"
  using assms by (simp_all add: rejectedOperationByteTotal_def rejectedTreeByteTotal_def budget_ok_def limits_ok_def)

lemma admit_exact:
  assumes b: "budget_ok b" and n: "0 \<le> work_amount w" and c: "work_countable w b"
  shows "admit w b = (if work_fits w b then (Inr (), use_budget w b) else (Inl (work_error w b), b))"
proof (cases w)
  case (WorkEntries n)
  have "wrap64 (tb_entries b + n) = tb_entries b + n" "wrap64 (ob_entries (tb_operation b) + n) = ob_entries (tb_operation b) + n"
    using assms WorkEntries by (simp_all add: budget_ok_def)
  then show ?thesis using assms WorkEntries by (auto simp: admitEntries_def Let_def budget_ok_def)
next
  case (WorkDepth n)
  then show ?thesis using n by (auto simp: admitDirectoryDepth_def)
next
  case (WorkBytes n)
  have "wrap64 (ob_bytes (tb_operation b) + n) = ob_bytes (tb_operation b) + n"
    if "ob_bytes (tb_operation b) + n \<le> maximumOperationBytes (tb_limits b)"
    using assms that WorkBytes by (simp add: budget_ok_def limits_ok_def)
  with budget_remaining[OF b] rejected_totals[OF b, of n] WorkBytes n c b show ?thesis
    by (auto simp: admitBytes_def budget_ok_def)
next
  case (WorkTreeBytes n)
  have "wrap64 (ob_bytes (tb_operation b) + n) = ob_bytes (tb_operation b) + n" "wrap64 (tb_bytes b + n) = tb_bytes b + n"
    if "ob_bytes (tb_operation b) + n \<le> maximumOperationBytes (tb_limits b)" "tb_bytes b + n \<le> maximumTreeBytes (tb_limits b)"
    using assms that WorkTreeBytes by (simp_all add: budget_ok_def limits_ok_def)
  with budget_remaining[OF b] rejected_totals[OF b, of n] WorkTreeBytes n c b show ?thesis
    by (auto simp: admitTreeBytes_def Let_def budget_ok_def min_def)
qed

lemma admit_invalid: "work_amount w < 0 \<Longrightarrow> admit w b = (Inl BudgetInvalid, b)"
  by (cases w) (simp_all add: admitEntries_def admitDirectoryDepth_def admitBytes_def admitTreeBytes_def)

lemma use_budget_ok:
  assumes "budget_ok b" "0 \<le> work_amount w" "work_fits w b"
  shows "budget_ok (use_budget w b)"
  using assms by (cases w) simp_all


definition sample_limits :: revisionCaptureLimits where
  "sample_limits = \<lparr>maximumTreeEntries = 3, maximumTreeDepth = 2, maximumTreeBytes = 10,
     maximumOperationEntries = 4, maximumOperationBytes = 8, limits_initialized = True\<rparr>"

definition sample_budget :: revisionTreeBudget where
  "sample_budget = \<lparr>tb_operation = \<lparr>ob_limits = sample_limits, ob_entries = 2, ob_bytes = 5\<rparr>, tb_entries = 1, tb_bytes = 0\<rparr>"

lemma sample_budget_ok: "budget_ok sample_budget"
  by code_simp


end
