(* ===== verification/RevisionTree.thy ===== *)
theory RevisionTree
  imports FileSnapshot RevisionBudget
begin

text \<open>
  Hashing files and directory trees into revisions: the traversal part of
  \<^verbatim>\<open>internal/effect/mutation/revision.go\<close> and the native operations of
  \<^verbatim>\<open>revision_native_unix.go\<close>. Every system call is an operation on a world that may answer
  anything; the tree budget of a capture is threaded beside the world. Error messages are constructors.
\<close>

section \<open>System calls and errors\<close>

text \<open>\<open>rs_files\<close> are the calls shared with the file readers. \<open>rs_fstat\<close> is the kernel's record of an
  open descriptor; \<open>rs_openat\<close>'s flag asks for a directory.\<close>

record 'w revision_system =
  rs_files :: "'w posix"
  rs_opendir :: "string \<Rightarrow> ('w, osError, nat) io"
  rs_readdirnames :: "nat \<Rightarrow> nat \<Rightarrow> 'w \<Rightarrow> (string list \<times> readFailure option) \<times> 'w"
  rs_openat :: "nat \<Rightarrow> string \<Rightarrow> bool \<Rightarrow> ('w, osError, nat) io"
  rs_fstat :: "nat \<Rightarrow> ('w, osError, Stat_t) io"
  rs_readlinkat :: "nat \<Rightarrow> string \<Rightarrow> nat \<Rightarrow> ('w, osError, string) io"

datatype revisionError =
    RevisionContextRequired
  | RevisionContextError
  | PassUninitialized
  | CaptureModeRequired
  | OperationBudgetRequired
  | RevisionIdentityError mutationError
  | BudgetFailed budgetError
  | SnapshotError fileError
  | SystemError osError
  | UnexpectedSymlink
  | ExceedsMaximum int
  | NotAbsentOrRegular
  | UnsupportedMode
  | BoundedFileChanged
  | RevisionChanged
  | EntryCapacityExhausted
  | EnumerationNoProgress
  | SymlinkTooLong
  | FileTruncated
  | InEntry string revisionError
  | UnsupportedEntry string
  | Joined revisionError osError
  | BaselineStale
  | OutOfFuel

section \<open>Native operations\<close>

definition observeRevisionChild :: "'w revision_system \<Rightarrow> nat \<Rightarrow> string \<Rightarrow> ('w, revisionError, revisionNativeEntry) io" where
  "observeRevisionChild sys dir name =
     io_bind (io_wrap SystemError (px_fstatat (rs_files sys) dir name)) (\<lambda>stat.
     io_return (revisionNativeEntryFromStat stat))"

definition observeRevisionOpened :: "'w revision_system \<Rightarrow> nat \<Rightarrow> ('w, revisionError, revisionNativeEntry) io" where
  "observeRevisionOpened sys file =
     io_bind (io_wrap SystemError (rs_fstat sys file)) (\<lambda>stat.
     io_return (revisionNativeEntryFromStat stat))"

text \<open>A failing step that drops the file it was working on: \<^verbatim>\<open>_ = file.Close(); return err\<close>.\<close>

definition close_on_error :: "'w revision_system \<Rightarrow> nat \<Rightarrow> ('w, 'e, 'a) io \<Rightarrow> ('w, 'e, 'a) io" where
  "close_on_error sys file body w = (case body w of
     (Inr x, w1) \<Rightarrow> (Inr x, w1)
   | (Inl e, w1) \<Rightarrow> (Inl e, snd (px_close (rs_files sys) file w1)))"

definition openRevisionChild ::
  "'w revision_system \<Rightarrow> nat \<Rightarrow> string \<Rightarrow> revisionNativeEntry \<Rightarrow> ('w, revisionError, nat) io" where
  "openRevisionChild sys dir name expected =
     io_bind (io_wrap SystemError (rs_openat sys dir name (entry_isDirectory expected))) (\<lambda>file.
     close_on_error sys file
       (io_bind (observeRevisionOpened sys file) (\<lambda>opened.
        if ne_identity expected \<noteq> ne_identity opened then io_raise RevisionChanged else io_return file)))"

definition verifyRevisionChild ::
  "'w revision_system \<Rightarrow> nat \<Rightarrow> string \<Rightarrow> nat \<Rightarrow> revisionNativeEntry \<Rightarrow> ('w, revisionError, unit) io" where
  "verifyRevisionChild sys dir name opened expected =
     io_bind (observeRevisionOpened sys opened) (\<lambda>currentOpen.
     io_bind (observeRevisionChild sys dir name) (\<lambda>currentBinding.
     io_refuse (ne_identity expected \<noteq> ne_identity currentOpen \<or> ne_identity expected \<noteq> ne_identity currentBinding)
       RevisionChanged))"

definition maximumRevisionSymlinkBytes :: int where
  "maximumRevisionSymlinkBytes = 2 ^ 20"

text \<open>The buffer doubles until the target fits. The kernel refuses an empty buffer (\<^verbatim>\<open>EINVAL\<close>).\<close>

function readlink_loop ::
  "'w revision_system \<Rightarrow> nat \<Rightarrow> string \<Rightarrow> revisionNativeEntry \<Rightarrow> nat \<Rightarrow> ('w, revisionError, string) io" where
  "readlink_loop sys dir name expected bufferSize w =
     (if bufferSize = 0 then (Inl (SystemError (Errno 22)), w)
      else case rs_readlinkat sys dir name bufferSize w of
          (Inl e, w1) \<Rightarrow> (Inl (SystemError e), w1)
        | (Inr target, w1) \<Rightarrow>
            if length target < bufferSize then
              io_bind (observeRevisionChild sys dir name) (\<lambda>current.
                if ne_identity expected \<noteq> ne_identity current then io_raise RevisionChanged else io_return target) w1
            else if maximumRevisionSymlinkBytes < int bufferSize then (Inl SymlinkTooLong, w1)
            else readlink_loop sys dir name expected (bufferSize * 2) w1)"
  by pat_completeness auto
termination
  by (relation "measure (\<lambda>(sys, dir, name, expected, bufferSize, w). nat (maximumRevisionSymlinkBytes + 1 - int bufferSize))")
    auto

declare readlink_loop.simps [simp del]

definition readRevisionSymlink ::
  "'w revision_system \<Rightarrow> nat \<Rightarrow> string \<Rightarrow> revisionNativeEntry \<Rightarrow> ('w, revisionError, string) io" where
  "readRevisionSymlink sys dir name expected =
     (if ne_size expected < 0 \<or> maximumRevisionSymlinkBytes < ne_size expected then io_raise SymlinkTooLong
      else readlink_loop sys dir name expected (max (nat (ne_size expected) + 1) 256))"

section \<open>Directory names\<close>

definition revision_context :: "'w revision_system \<Rightarrow> ('w, revisionError, unit) io" where
  "revision_context sys = io_wrap (\<lambda>_. RevisionContextError) (px_ctx (rs_files sys))"

definition batchMaximum :: int where
  "batchMaximum = 256"

function read_names_loop ::
  "'w revision_system \<Rightarrow> nat \<Rightarrow> int \<Rightarrow> string list \<Rightarrow> ('w, revisionError, string list) io" where
  "read_names_loop sys dir maximumEntries names w =
     (if maximumEntries < int (length names) then (Inr names, w)
      else case revision_context sys w of
          (Inl e, w1) \<Rightarrow> (Inl e, w1)
        | (Inr _, w1) \<Rightarrow>
            (case rs_readdirnames sys dir (nat (min (maximumEntries + 1 - int (length names)) batchMaximum)) w1 of
               ((batch, readErr), w2) \<Rightarrow>
            (case revision_context sys w2 of
               (Inl e, w3) \<Rightarrow> (Inl e, w3)
             | (Inr _, w3) \<Rightarrow>
                 (case readErr of
                    Some EOF \<Rightarrow> (Inr (names @ batch), w3)
                  | Some (ReadError e) \<Rightarrow> (Inl (SystemError e), w3)
                  | None \<Rightarrow>
                      if batch = [] then (Inl EnumerationNoProgress, w3)
                      else read_names_loop sys dir maximumEntries (names @ batch) w3))))"
  by pat_completeness auto
termination
  by (relation "measure (\<lambda>(sys, dir, maximumEntries, names, w). nat (maximumEntries + 1 - int (length names)))")
    (auto simp: neq_Nil_conv)

declare read_names_loop.simps [simp del]

definition readRevisionDirectoryNames :: "'w revision_system \<Rightarrow> nat \<Rightarrow> int \<Rightarrow> ('w, revisionError, string list) io" where
  "readRevisionDirectoryNames sys dir maximumEntries =
     (if maximumEntries < 0 then io_raise EntryCapacityExhausted
      else io_bind (read_names_loop sys dir maximumEntries []) (\<lambda>names. io_return (sort names)))"

section \<open>Hashing with a budget\<close>

text \<open>A capture's traversal runs on the world and its tree budget: \<open>sys_call\<close> runs a call on the world,
  \<open>charge\<close> an admission on the budget.\<close>

type_synonym ('w, 'a) traversal = "('w \<times> revisionTreeBudget, revisionError, 'a) io"

definition sys_call :: "('w, revisionError, 'a) io \<Rightarrow> ('w, 'a) traversal" where
  "sys_call m = (\<lambda>(w, b). case m w of (r, w') \<Rightarrow> (r, (w', b)))"

definition charge :: "(revisionTreeBudget \<Rightarrow> admission) \<Rightarrow> ('w, unit) traversal" where
  "charge f = (\<lambda>(w, b). case f b of (Inl e, b') \<Rightarrow> (Inl (BudgetFailed e), (w, b')) | (Inr _, b') \<Rightarrow> (Inr (), (w, b')))"

definition budget_of :: "(revisionTreeBudget \<Rightarrow> 'a) \<Rightarrow> ('w, 'a) traversal" where
  "budget_of f = (\<lambda>(w, b). (Inr (f b), (w, b)))"

fun io_fold :: "('a \<Rightarrow> 'b \<Rightarrow> ('w, 'e, 'a) io) \<Rightarrow> 'a \<Rightarrow> 'b list \<Rightarrow> ('w, 'e, 'a) io" where
  "io_fold f a [] = io_return a"
| "io_fold f a (x # xs) = io_bind (f a x) (\<lambda>a'. io_fold f a' xs)"

text \<open>\<^verbatim>\<open>io.CopyN\<close> from a file read under the context into the hasher. A file that returns no bytes is
  at its end.\<close>

function copyN :: "'w revision_system \<Rightarrow> nat \<Rightarrow> int \<Rightarrow> hasher \<Rightarrow> ('w, revisionError, hasher) io" where
  "copyN sys file remaining hasher w =
     (if remaining \<le> 0 then (Inr hasher, w)
      else case revision_context sys w of
          (Inl e, w1) \<Rightarrow> (Inl e, w1)
        | (Inr _, w1) \<Rightarrow>
            (case px_read (rs_files sys) file (nat (min remaining read_buffer)) w1 of
               ((bytes, readErr), w2) \<Rightarrow>
                 if remaining \<le> int (length bytes) then (Inr (hasher @ bytes), w2)
                 else (case readErr of
                     Some (ReadError e) \<Rightarrow> (Inl (SystemError e), w2)
                   | Some EOF \<Rightarrow> (Inl FileTruncated, w2)
                   | None \<Rightarrow>
                       if bytes = [] then (Inl FileTruncated, w2)
                       else copyN sys file (remaining - int (length bytes)) (hasher @ bytes) w2)))"
  by pat_completeness auto
termination
  by (relation "measure (\<lambda>(sys, file, remaining, hasher, w). nat remaining)") (auto simp: neq_Nil_conv)

declare copyN.simps [simp del]

definition executable_label :: "bool \<Rightarrow> string" where
  "executable_label x = (if x then ''executable'' else ''not-executable'')"

definition file_header :: "string \<Rightarrow> bool \<Rightarrow> int \<Rightarrow> string list" where
  "file_header relative executable bytes = [''file'', relative, executable_label executable, formatInt bytes]"

definition hashRevisionOpenedFile ::
  "'w revision_system \<Rightarrow> hasher \<Rightarrow> nat \<Rightarrow> string \<Rightarrow> revisionNativeEntry \<Rightarrow> ('w, hasher) traversal" where
  "hashRevisionOpenedFile sys hasher file relative entry =
     io_bind (charge (admitTreeBytes (ne_size entry))) (\<lambda>_.
     io_bind (sys_call (copyN sys file (ne_size entry)
        (writeRevisionRecord hasher (file_header relative (entry_executable entry) (ne_size entry))))) (\<lambda>hasher.
     io_bind (sys_call (revision_context sys)) (\<lambda>_.
     io_bind (sys_call (observeRevisionOpened sys file)) (\<lambda>current.
     if ne_identity entry \<noteq> ne_identity current then io_raise RevisionChanged
     else io_return (writeRevisionRecord hasher [''end-file''])))))"

text \<open>Closing a child after an error joins the two errors; after a success a close error is returned.\<close>

definition with_child :: "'w revision_system \<Rightarrow> nat \<Rightarrow> ('w, 'a) traversal \<Rightarrow> ('w, 'a) traversal" where
  "with_child sys file body = (\<lambda>s. case body s of
     (r, (w1, b1)) \<Rightarrow> (case px_close (rs_files sys) file w1 of (c, w2) \<Rightarrow>
       (case (r, c) of
          (Inl e, Inl d) \<Rightarrow> (Inl (Joined e d), (w2, b1))
        | (Inl e, Inr _) \<Rightarrow> (Inl e, (w2, b1))
        | (Inr x, Inl d) \<Rightarrow> (Inl (SystemError d), (w2, b1))
        | (Inr x, Inr _) \<Rightarrow> (Inr x, (w2, b1)))))"

text \<open>\<^verbatim>\<open>filepath.Join\<close> of two nonempty elements; at the root the relative path is the name.\<close>

definition relative_path :: "string \<Rightarrow> string \<Rightarrow> string" where
  "relative_path relativeRoot name =
     (if relativeRoot = ''.'' then name else go_clean (relativeRoot @ [slash] @ name))"

text \<open>One entry of a directory: what its native entry says it is decides how it is hashed. \<open>descend\<close> is the
  recursive call.\<close>

definition hash_child ::
  "(hasher \<Rightarrow> nat \<Rightarrow> string \<Rightarrow> int \<Rightarrow> ('w, hasher) traversal) \<Rightarrow> 'w revision_system \<Rightarrow> nat \<Rightarrow> string \<Rightarrow> int \<Rightarrow>
   hasher \<Rightarrow> string \<Rightarrow> revisionNativeEntry \<Rightarrow> ('w, hasher) traversal" where
  "hash_child descend sys dir relative directoryDepth hasher name entry =
     (if entry_isSymlink entry then
        io_bind (sys_call (io_wrap (InEntry relative) (readRevisionSymlink sys dir name entry))) (\<lambda>target.
        io_return (writeRevisionRecord hasher [''symlink'', relative, target]))
      else if entry_isDirectory entry then
        io_bind (charge (admitDirectoryDepth (directoryDepth + 1))) (\<lambda>_.
        io_bind (sys_call (io_wrap (InEntry relative) (openRevisionChild sys dir name entry))) (\<lambda>child.
        with_child sys child
          (io_bind (descend (writeRevisionRecord hasher [''directory'', relative]) child relative (directoryDepth + 1)) (\<lambda>hasher.
           io_bind (sys_call (verifyRevisionChild sys dir name child entry)) (\<lambda>_.
           io_return hasher)))))
      else if entry_isRegular entry then
        io_bind (sys_call (io_wrap (InEntry relative) (openRevisionChild sys dir name entry))) (\<lambda>child.
        with_child sys child
          (io_bind (hashRevisionOpenedFile sys hasher child relative entry) (\<lambda>hasher.
           io_bind (sys_call (verifyRevisionChild sys dir name child entry)) (\<lambda>_.
           io_return hasher))))
      else io_raise (UnsupportedEntry relative))"

definition hash_entry ::
  "(hasher \<Rightarrow> nat \<Rightarrow> string \<Rightarrow> int \<Rightarrow> ('w, hasher) traversal) \<Rightarrow> 'w revision_system \<Rightarrow> nat \<Rightarrow> string \<Rightarrow> int \<Rightarrow>
   hasher \<Rightarrow> string \<Rightarrow> ('w, hasher) traversal" where
  "hash_entry descend sys dir relativeRoot directoryDepth hasher name =
     io_bind (sys_call (revision_context sys)) (\<lambda>_.
     let relative = relative_path relativeRoot name in
     io_bind (sys_call (io_wrap (InEntry relative) (observeRevisionChild sys dir name))) (\<lambda>entry.
     hash_child descend sys dir relative directoryDepth hasher name entry))"

text \<open>The sorted names of a directory, counted against the budget, with the capacity they were read under.\<close>

definition admit_directory :: "'w revision_system \<Rightarrow> nat \<Rightarrow> ('w, int \<times> string list) traversal" where
  "admit_directory sys dir =
     io_bind (budget_of remainingEntries) (\<lambda>capacity.
     io_bind (sys_call (readRevisionDirectoryNames sys dir capacity)) (\<lambda>names.
     io_bind (charge (admitEntries (int (length names)))) (\<lambda>_.
     io_return (capacity, names))))"

text \<open>A directory; the first argument bounds the recursion depth.\<close>

primrec hashRevisionDirectoryEntries ::
  "nat \<Rightarrow> 'w revision_system \<Rightarrow> hasher \<Rightarrow> nat \<Rightarrow> string \<Rightarrow> int \<Rightarrow> ('w, hasher) traversal" where
  "hashRevisionDirectoryEntries 0 = (\<lambda>sys hasher dir relativeRoot directoryDepth. io_raise OutOfFuel)"
| "hashRevisionDirectoryEntries (Suc n) = (\<lambda>sys hasher dir relativeRoot directoryDepth.
     io_bind (admit_directory sys dir) (\<lambda>(capacity, names).
     if capacity < int (length names) then io_return hasher
     else io_fold (hash_entry (hashRevisionDirectoryEntries n sys) sys dir relativeRoot directoryDepth) hasher names))"

text \<open>The entries of one directory without descending.\<close>

definition hash_listing_entry :: "'w revision_system \<Rightarrow> nat \<Rightarrow> hasher \<Rightarrow> string \<Rightarrow> ('w, hasher) traversal" where
  "hash_listing_entry sys dir hasher name =
     io_bind (sys_call (revision_context sys)) (\<lambda>_.
     io_bind (sys_call (io_wrap (InEntry name) (observeRevisionChild sys dir name))) (\<lambda>entry.
     if entry_isSymlink entry then
       io_bind (sys_call (io_wrap (InEntry name) (readRevisionSymlink sys dir name entry))) (\<lambda>target.
       io_return (writeRevisionRecord hasher [''symlink'', name, target]))
     else if entry_isDirectory entry then io_return (writeRevisionRecord hasher [''directory'', name])
     else if entry_isRegular entry then io_return (writeRevisionRecord hasher [''file'', name])
     else io_return (writeRevisionRecord hasher [''special'', name])))"

definition hash_listing :: "'w revision_system \<Rightarrow> hasher \<Rightarrow> nat \<Rightarrow> ('w, hasher) traversal" where
  "hash_listing sys hasher dir =
     io_bind (admit_directory sys dir) (\<lambda>(_, names). io_fold (hash_listing_entry sys dir) hasher names)"

text \<open>A directory opened by path is checked against its inspection before and after it is observed; its
  close error is joined.\<close>

definition observeStableRevisionDirectory ::
  "'w revision_system \<Rightarrow> string \<Rightarrow> FileInfo \<Rightarrow> (nat \<Rightarrow> ('w, hasher) traversal) \<Rightarrow> ('w, hasher) traversal" where
  "observeStableRevisionDirectory sys root rootInfo observe =
     io_bind (sys_call (io_wrap SystemError (rs_opendir sys root))) (\<lambda>dir.
     with_child sys dir
       (io_bind (sys_call (io_wrap SystemError (px_fstat (rs_files sys) dir))) (\<lambda>openedInfo.
        if \<not> sameRevisionEntryVersion rootInfo openedInfo then io_raise RevisionChanged
        else io_bind (observe dir) (\<lambda>hasher.
          io_bind (sys_call (io_wrap SystemError (px_fstat (rs_files sys) dir))) (\<lambda>afterOpen.
          io_bind (sys_call (io_wrap SystemError (px_lstat (rs_files sys) root))) (\<lambda>afterPath.
          if \<not> sameRevisionEntryVersion openedInfo afterOpen \<or> \<not> sameRevisionEntryVersion openedInfo afterPath
          then io_raise RevisionChanged
          else io_return hasher))))))"

text \<open>The recursion of a tree goes one level deeper than the admitted depth.\<close>

definition tree_fuel :: "revisionTreeBudget \<Rightarrow> nat" where
  "tree_fuel b = nat (maximumTreeDepth (tb_limits b)) + 1"

definition hashRevisionDirectory ::
  "'w revision_system \<Rightarrow> hasher \<Rightarrow> string \<Rightarrow> FileInfo \<Rightarrow> ('w, hasher) traversal" where
  "hashRevisionDirectory sys hasher root rootInfo =
     io_bind (budget_of tree_fuel) (\<lambda>fuel.
     observeStableRevisionDirectory sys root rootInfo (\<lambda>dir.
       hashRevisionDirectoryEntries fuel sys hasher dir ''.'' 0))"

definition hashRevisionDirectoryListing ::
  "'w revision_system \<Rightarrow> hasher \<Rightarrow> string \<Rightarrow> FileInfo \<Rightarrow> ('w, hasher) traversal" where
  "hashRevisionDirectoryListing sys hasher root rootInfo =
     observeStableRevisionDirectory sys root rootInfo (hash_listing sys hasher)"

text \<open>A regular file opened by path; its descriptor is closed by a defer.\<close>

definition with_deferred_close :: "'w revision_system \<Rightarrow> nat \<Rightarrow> ('w, 'a) traversal \<Rightarrow> ('w, 'a) traversal" where
  "with_deferred_close sys file body = (\<lambda>s. case body s of (r, (w1, b1)) \<Rightarrow> (r, (snd (px_close (rs_files sys) file w1), b1)))"

definition hashRevisionFile ::
  "'w revision_system \<Rightarrow> hasher \<Rightarrow> string \<Rightarrow> string \<Rightarrow> FileInfo \<Rightarrow> ('w, hasher) traversal" where
  "hashRevisionFile sys hasher path relative info =
     io_bind (sys_call (io_wrap SystemError (px_open (rs_files sys) path False))) (\<lambda>file.
     with_deferred_close sys file
       (io_bind (sys_call (io_wrap SystemError (px_fstat (rs_files sys) file))) (\<lambda>opened.
        if \<not> mode_isRegular (fi_mode opened) \<or> \<not> sameRevisionFileVersion info opened then io_raise RevisionChanged
        else
          io_bind (charge (admitBytes (fi_size opened))) (\<lambda>_.
          io_bind (sys_call (copyN sys file (fi_size opened)
            (writeRevisionRecord hasher (file_header relative (mode_perm (fi_mode opened) AND 0x49 \<noteq> 0) (fi_size opened))))) (\<lambda>hasher.
          io_bind (sys_call (revision_context sys)) (\<lambda>_.
          io_bind (sys_call (io_wrap SystemError (px_fstat (rs_files sys) file))) (\<lambda>afterOpen.
          io_bind (sys_call (io_wrap SystemError (px_lstat (rs_files sys) path))) (\<lambda>afterPath.
          if \<not> sameRevisionFileVersion opened afterOpen \<or> \<not> sameRevisionFileVersion opened afterPath
          then io_raise RevisionChanged
          else io_return (writeRevisionRecord hasher [''end-file'']))))))))) "

section \<open>The traversal ends and stays within its budget, whatever the world answers\<close>

fun ran_out :: "revisionError \<Rightarrow> bool" where
  "ran_out OutOfFuel = True"
| "ran_out (Joined e _) = ran_out e"
| "ran_out (InEntry _ e) = ran_out e"
| "ran_out _ = False"

definition budget_grows :: "revisionTreeBudget \<Rightarrow> revisionTreeBudget \<Rightarrow> bool" where
  "budget_grows b b' \<longleftrightarrow> budget_ok b' \<and> tb_limits b' = tb_limits b \<and>
     tb_entries b \<le> tb_entries b' \<and> tb_bytes b \<le> tb_bytes b' \<and>
     ob_entries (tb_operation b) \<le> ob_entries (tb_operation b') \<and> ob_bytes (tb_operation b) \<le> ob_bytes (tb_operation b')"

lemma budget_grows_trans: "budget_grows b b1 \<Longrightarrow> budget_grows b1 b2 \<Longrightarrow> budget_grows b b2"
  by (auto simp: budget_grows_def)

text \<open>\<open>fuel_free\<close>: a call that does not report exhausted fuel. \<open>sound\<close>: a traversal that does not either,
  within the limits \<open>L\<close>, and keeps the budget.\<close>

definition fuel_free :: "('w, revisionError, 'a) io \<Rightarrow> bool" where
  "fuel_free m \<longleftrightarrow> (\<forall>w e w'. m w = (Inl e, w') \<longrightarrow> \<not> ran_out e)"

definition sound :: "revisionCaptureLimits \<Rightarrow> ('w, 'a) traversal \<Rightarrow> bool" where
  "sound L m \<longleftrightarrow> (\<forall>w b r w' b'. budget_ok b \<longrightarrow> tb_limits b = L \<longrightarrow> m (w, b) = (r, (w', b')) \<longrightarrow>
     budget_grows b b' \<and> (\<forall>e. r = Inl e \<longrightarrow> \<not> ran_out e))"

lemma fuel_freeD: "fuel_free m \<Longrightarrow> m w = (Inl e, w') \<Longrightarrow> \<not> ran_out e"
  unfolding fuel_free_def by blast

named_theorems sound_rules \<open>composition rules of traversals\<close>

lemma fuel_free_rules [sound_rules]:
  "fuel_free (io_return x)" "\<not> ran_out e \<Longrightarrow> fuel_free (io_raise e)" "\<not> ran_out e \<Longrightarrow> fuel_free (io_refuse c e)"
  "fuel_free m \<Longrightarrow> (\<And>x. fuel_free (f x)) \<Longrightarrow> fuel_free (io_bind m f)"
  "(\<And>d. \<not> ran_out (g d)) \<Longrightarrow> fuel_free (io_wrap g n)"
  by (auto simp: fuel_free_def io_bind_def io_wrap_def split: prod.splits sum.splits if_splits)

lemma fuel_free_entry [sound_rules]: "fuel_free m \<Longrightarrow> fuel_free (io_wrap (InEntry relative) m)"
  by (auto simp: fuel_free_def io_wrap_def split: prod.splits sum.splits)

lemma fuel_free_close [sound_rules]: "fuel_free m \<Longrightarrow> fuel_free (close_on_error sys file m)"
  by (auto simp: fuel_free_def close_on_error_def split: prod.splits sum.splits)

lemma fuel_free_calls [sound_rules]:
  "fuel_free (revision_context sys)" "fuel_free (observeRevisionChild sys dir name)"
  "fuel_free (observeRevisionOpened sys fd)" "fuel_free (openRevisionChild sys dir name expected)"
  "fuel_free (verifyRevisionChild sys dir name fd expected)"
  unfolding revision_context_def observeRevisionChild_def observeRevisionOpened_def openRevisionChild_def
    verifyRevisionChild_def
  by (auto intro!: sound_rules)

lemma readlink_fuel_free: "readlink_loop sys dir name expected bufferSize w = (Inl e, w') \<Longrightarrow> \<not> ran_out e"
proof (induction sys dir name expected bufferSize w rule: readlink_loop.induct)
  case (1 sys dir name expected bufferSize w)
  have "fuel_free (io_bind (observeRevisionChild sys dir name) (\<lambda>current.
      if ne_identity expected \<noteq> ne_identity current then io_raise RevisionChanged else io_return target))" for target :: string
    by (auto intro!: sound_rules)
  note checked = fuel_freeD[OF this]
  have "\<not> ran_out d" if "io_bind (observeRevisionChild sys dir name) (\<lambda>current.
      if ne_identity expected \<noteq> ne_identity current then io_raise RevisionChanged else io_return target) v = (Inl d, v')"
    for target :: string and d v v' by (rule checked[OF that])
  then show ?case using 1(1) 1(2)[unfolded readlink_loop.simps[of sys dir name expected bufferSize w]]
    by (auto split: prod.splits sum.splits if_splits)
qed

lemma names_fuel_free: "read_names_loop sys dir maximumEntries names w = (Inl e, w') \<Longrightarrow> \<not> ran_out e"
proof (induction sys dir maximumEntries names w rule: read_names_loop.induct)
  case (1 sys dir maximumEntries names w)
  have "fuel_free (revision_context sys)" by (rule sound_rules)
  then show ?case using 1(1) 1(2)[unfolded read_names_loop.simps[of sys dir maximumEntries names w]]
    by (auto simp: fuel_free_def split: prod.splits sum.splits if_splits option.splits readFailure.splits)
qed

lemma copy_fuel_free: "copyN sys fd remaining hasher w = (Inl e, w') \<Longrightarrow> \<not> ran_out e"
proof (induction sys fd remaining hasher w rule: copyN.induct)
  case (1 sys fd remaining hasher w)
  have "fuel_free (revision_context sys)" by (rule sound_rules)
  then show ?case using 1(1) 1(2)[unfolded copyN.simps[of sys fd remaining hasher w]]
    by (auto simp: fuel_free_def split: prod.splits sum.splits if_splits option.splits readFailure.splits)
qed

lemma fuel_free_loops [sound_rules]:
  "fuel_free (readRevisionSymlink sys dir name expected)" "fuel_free (readRevisionDirectoryNames sys dir maximumEntries)"
  "fuel_free (copyN sys fd remaining hasher)"
proof -
  have "fuel_free (readlink_loop sys dir name expected n)" for n
    unfolding fuel_free_def by (intro allI impI) (rule readlink_fuel_free)
  then show "fuel_free (readRevisionSymlink sys dir name expected)"
    by (auto simp: readRevisionSymlink_def intro!: sound_rules)
  have "fuel_free (read_names_loop sys dir maximumEntries [])"
    unfolding fuel_free_def by (intro allI impI) (rule names_fuel_free)
  then show "fuel_free (readRevisionDirectoryNames sys dir maximumEntries)"
    by (auto simp: readRevisionDirectoryNames_def intro!: sound_rules)
  show "fuel_free (copyN sys fd remaining hasher)"
    unfolding fuel_free_def by (intro allI impI) (rule copy_fuel_free)
qed

text \<open>\<^verbatim>\<open>Readdirnames\<close> returns at most as many names as it was asked for.\<close>

definition names_contract :: "'w revision_system \<Rightarrow> bool" where
  "names_contract sys \<longleftrightarrow> (\<forall>dir n w. length (fst (fst (rs_readdirnames sys dir n w))) \<le> n)"

lemma soundI:
  "(\<And>w b r w' b'. budget_ok b \<Longrightarrow> tb_limits b = L \<Longrightarrow> m (w, b) = (r, (w', b')) \<Longrightarrow>
     budget_grows b b' \<and> (\<forall>e. r = Inl e \<longrightarrow> \<not> ran_out e)) \<Longrightarrow> sound L m"
  unfolding sound_def by blast

lemma soundD:
  "sound L m \<Longrightarrow> budget_ok b \<Longrightarrow> tb_limits b = L \<Longrightarrow> m (w, b) = (r, (w', b')) \<Longrightarrow>
     budget_grows b b' \<and> (\<forall>e. r = Inl e \<longrightarrow> \<not> ran_out e)"
  unfolding sound_def by blast

lemma grows_kept: "budget_grows b b' \<Longrightarrow> budget_ok b' \<and> tb_limits b' = tb_limits b"
  by (simp add: budget_grows_def)

lemma sound_basic [sound_rules]:
  "sound L (io_return x)" "\<not> ran_out e \<Longrightarrow> sound L (io_raise e)" "sound L (budget_of f)"
  by (auto intro!: soundI simp: budget_grows_def budget_of_def)

lemma sound_sys [sound_rules]: "fuel_free m \<Longrightarrow> sound L (sys_call m)"
  by (rule soundI) (auto simp: sys_call_def budget_grows_def dest: fuel_freeD split: prod.splits)

lemma sound_bind [sound_rules]:
  assumes "sound L m" "\<And>x. sound L (f x)"
  shows "sound L (io_bind m f)"
proof (rule soundI)
  fix w b r w' b'
  assume b: "budget_ok b" "tb_limits b = L" and run: "io_bind m f (w, b) = (r, (w', b'))"
  obtain r1 w1 b1 where m: "m (w, b) = (r1, (w1, b1))" by (cases "m (w, b)") auto
  note grows = soundD[OF assms(1) b m]
  show "budget_grows b b' \<and> (\<forall>e. r = Inl e \<longrightarrow> \<not> ran_out e)"
  proof (cases r1)
    case (Inl e)
    then show ?thesis using run m grows by (auto simp: io_bind_def)
  next
    case (Inr x)
    then have "f x (w1, b1) = (r, (w', b'))" using run m by (simp add: io_bind_def)
    then show ?thesis using soundD[OF assms(2)[of x], of b1 w1 r w' b'] grows grows_kept b budget_grows_trans by metis
  qed
qed

lemma sound_charge:
  assumes "\<And>b. budget_ok b \<Longrightarrow> tb_limits b = L \<Longrightarrow> budget_grows b (snd (f b))"
  shows "sound L (charge f)"
proof (rule soundI)
  fix w b r w' b'
  assume b: "budget_ok b" "tb_limits b = L" and run: "charge f (w, b) = (r, (w', b'))"
  then show "budget_grows b b' \<and> (\<forall>e. r = Inl e \<longrightarrow> \<not> ran_out e)"
    using assms[OF b] by (cases "f b") (auto simp: charge_def split: sum.splits)
qed

lemma admit_grows: "budget_ok b \<Longrightarrow> work_countable w b \<Longrightarrow> budget_grows b (snd (admit w b))"
proof -
  assume ok: "budget_ok b" "work_countable w b"
  have "budget_grows b (use_budget w b)" if "0 \<le> work_amount w" "work_fits w b"
    using that use_budget_ok[OF ok(1) that] by (cases w) (auto simp: budget_grows_def)
  then show "budget_grows b (snd (admit w b))"
    using ok admit_exact[of b w] admit_invalid[of w b] by (cases "0 \<le> work_amount w") (auto simp: budget_grows_def)
qed

text \<open>Byte and depth admissions keep the budget for every amount.\<close>

lemma admit_bytes_grow:
  "budget_ok b \<Longrightarrow> budget_grows b (snd (admitTreeBytes n b))"
  "budget_ok b \<Longrightarrow> budget_grows b (snd (admitBytes n b))"
  "budget_ok b \<Longrightarrow> budget_grows b (snd (admitDirectoryDepth n b))"
proof -
  assume ok: "budget_ok b"
  show "budget_grows b (snd (admitDirectoryDepth n b))" using ok by (simp add: admitDirectoryDepth_def budget_grows_def)
  show "budget_grows b (snd (admitTreeBytes n b))"
  proof (cases "n \<le> go_max_int")
    case True
    then show ?thesis using admit_grows[OF ok, of "WorkTreeBytes n"] by simp
  next
    case False
    then show ?thesis using ok budget_remaining[OF ok]
      by (auto simp: admitTreeBytes_def Let_def budget_grows_def budget_ok_def limits_ok_def)
  qed
  show "budget_grows b (snd (admitBytes n b))"
  proof (cases "n \<le> go_max_int")
    case True
    then show ?thesis using admit_grows[OF ok, of "WorkBytes n"] by simp
  next
    case False
    then show ?thesis using ok budget_remaining[OF ok]
      by (auto simp: admitBytes_def budget_grows_def budget_ok_def limits_ok_def)
  qed
qed

lemma sound_admissions [sound_rules]:
  "sound L (charge (admitTreeBytes n))" "sound L (charge (admitBytes n))" "sound L (charge (admitDirectoryDepth n))"
  by (simp_all add: sound_charge admit_bytes_grow)

text \<open>After a depth has been admitted it is within the limit.\<close>

lemma sound_descend [sound_rules]:
  fixes m :: "('w, 'a) traversal"
  assumes "d \<le> maximumTreeDepth L \<Longrightarrow> sound L m"
  shows "sound L (io_bind (charge (admitDirectoryDepth d)) (\<lambda>_. m))"
proof (cases "d \<le> maximumTreeDepth L")
  case True
  then show ?thesis using assms by (intro sound_rules)
next
  case False
  show ?thesis
  proof (rule soundI)
    fix w b r w' b'
    assume b: "budget_ok b" "tb_limits b = L"
      and run: "io_bind (charge (admitDirectoryDepth d)) (\<lambda>_. m) (w, b) = (r, (w', b'))"
    have "\<exists>e. charge (admitDirectoryDepth d) (w, b) = (Inl (BudgetFailed e), (w, b))"
      using False b by (auto simp: charge_def admitDirectoryDepth_def)
    then have "b' = b" "\<exists>e. r = Inl (BudgetFailed e)" using run by (auto simp: io_bind_def)
    then show "budget_grows b b' \<and> (\<forall>e. r = Inl e \<longrightarrow> \<not> ran_out e)" using b by (auto simp: budget_grows_def)
  qed
qed

lemma sound_fold [sound_rules]: "(\<And>a x. sound L (f a x)) \<Longrightarrow> sound L (io_fold f a xs)"
  by (induction xs arbitrary: a) (auto intro!: sound_rules)

lemma sound_with_child [sound_rules]: "sound L m \<Longrightarrow> sound L (with_child sys fd m)"
  by (rule soundI) (auto simp: with_child_def split: prod.splits sum.splits dest: soundD)

lemma sound_deferred_close [sound_rules]: "sound L m \<Longrightarrow> sound L (with_deferred_close sys fd m)"
  by (rule soundI) (auto simp: with_deferred_close_def split: prod.splits dest: soundD)

lemma read_names_length:
  "names_contract sys \<Longrightarrow> read_names_loop sys dir maximumEntries names w = (Inr found, w') \<Longrightarrow>
    int (length names) \<le> maximumEntries + 1 \<Longrightarrow> int (length found) \<le> maximumEntries + 1"
proof (induction sys dir maximumEntries names w rule: read_names_loop.induct)
  case (1 sys dir maximumEntries names w)
  let ?n = "nat (min (maximumEntries + 1 - int (length names)) batchMaximum)"
  have batch: "int (length names) + int (length batch) \<le> maximumEntries + 1"
    if "rs_readdirnames sys dir ?n v = ((batch, e), v')" "\<not> maximumEntries < int (length names)" for batch e v v'
  proof -
    have "length (fst (fst (rs_readdirnames sys dir ?n v))) \<le> ?n" using 1(2) by (simp add: names_contract_def)
    then show ?thesis using that by simp
  qed
  show ?case using 1(1,2,4) 1(3)[unfolded read_names_loop.simps[of sys dir maximumEntries names w]]
    by (auto split: prod.splits sum.splits if_splits option.splits readFailure.splits dest: batch)
qed

lemma sound_admit_directory:
  assumes "names_contract sys" "maximumTreeEntries L < go_max_int" "maximumOperationEntries L < go_max_int"
  shows "sound L (admit_directory sys dir)"
proof (rule soundI)
  fix w b r w' b'
  assume b: "budget_ok b" "tb_limits b = L" and run: "admit_directory sys dir (w, b) = (r, (w', b'))"
  obtain q w1 where q: "readRevisionDirectoryNames sys dir (remainingEntries b) w = (q, w1)"
    by (cases "readRevisionDirectoryNames sys dir (remainingEntries b) w")
  show "budget_grows b b' \<and> (\<forall>e. r = Inl e \<longrightarrow> \<not> ran_out e)"
  proof (cases q)
    case (Inl e)
    have "\<not> ran_out e" using q unfolding Inl by (rule fuel_freeD[OF fuel_free_loops(2)])
    then show ?thesis using run b q Inl
      by (auto simp: admit_directory_def io_bind_def budget_of_def sys_call_def budget_grows_def)
  next
    case (Inr names)
    obtain found where found: "read_names_loop sys dir (remainingEntries b) [] w = (Inr found, w1)"
      "length names = length found" "0 \<le> remainingEntries b"
      using q Inr by (auto simp: readRevisionDirectoryNames_def io_bind_Inr split: if_splits)
    then have "int (length names) \<le> remainingEntries b + 1" using read_names_length[OF assms(1)] by auto
    then have "work_countable (WorkEntries (int (length names))) b"
      using b assms(2,3) budget_remaining[OF b(1)] by (auto simp: min_def split: if_splits)
    from admit_grows[OF b(1) this] show ?thesis using run q Inr
      by (cases "admitEntries (int (length names)) b")
        (auto simp: admit_directory_def io_bind_def budget_of_def sys_call_def charge_def split: sum.splits)
  qed
qed

lemma sound_opened_file [sound_rules]: "sound L (hashRevisionOpenedFile sys hasher fd relative entry)"
  unfolding hashRevisionOpenedFile_def by (intro sound_rules) (auto intro!: sound_rules)

lemma sound_entry:
  assumes "\<And>hasher child relative. d + 1 \<le> maximumTreeDepth L \<Longrightarrow> sound L (descend hasher child relative (d + 1))"
  shows "sound L (hash_entry descend sys dir relativeRoot d hasher name)"
  unfolding hash_entry_def hash_child_def Let_def using assms
  by (intro sound_rules) (auto intro!: sound_rules)

lemma sound_tree:
  assumes "names_contract sys" "maximumTreeEntries L < go_max_int" "maximumOperationEntries L < go_max_int"
    and "d \<le> maximumTreeDepth L" "maximumTreeDepth L < d + int n"
  shows "sound L (hashRevisionDirectoryEntries n sys hasher dir relativeRoot d)"
  using assms(4,5)
proof (induction n arbitrary: hasher dir relativeRoot d)
  case (Suc n)
  have "sound L (hash_entry (hashRevisionDirectoryEntries n sys) sys dir relativeRoot d hasher name)" for hasher name
    using Suc by (intro sound_entry) auto
  then show ?case
    by (auto intro!: sound_rules sound_admit_directory assms(1-3) split: prod.split)
qed simp

lemma sound_stable_directory:
  assumes "\<And>dir. sound L (observe dir)"
  shows "sound L (observeStableRevisionDirectory sys root rootInfo observe)"
  unfolding observeStableRevisionDirectory_def using assms
  by (intro sound_rules) (auto intro!: sound_rules)

lemma sound_directory:
  assumes "names_contract sys" "maximumTreeEntries L < go_max_int" "maximumOperationEntries L < go_max_int" "0 \<le> maximumTreeDepth L"
  shows "sound L (hashRevisionDirectory sys hasher root rootInfo)"
proof (rule soundI)
  fix w b r w' b'
  assume b: "budget_ok b" "tb_limits b = L" and run: "hashRevisionDirectory sys hasher root rootInfo (w, b) = (r, (w', b'))"
  have "sound L (observeStableRevisionDirectory sys root rootInfo (\<lambda>dir.
      hashRevisionDirectoryEntries (tree_fuel b) sys hasher dir ''.'' 0))"
    using b(2) assms(4) by (intro sound_stable_directory sound_tree assms(1-3)) (auto simp: tree_fuel_def)
  from soundD[OF this b] show "budget_grows b b' \<and> (\<forall>e. r = Inl e \<longrightarrow> \<not> ran_out e)"
    using run by (simp add: hashRevisionDirectory_def io_bind_def budget_of_def)
qed

lemma sound_listing:
  assumes "names_contract sys" "maximumTreeEntries L < go_max_int" "maximumOperationEntries L < go_max_int"
  shows "sound L (hashRevisionDirectoryListing sys hasher root rootInfo)"
  unfolding hashRevisionDirectoryListing_def
proof (rule sound_stable_directory)
  fix dir
  have "sound L (hash_listing_entry sys dir hasher name)" for hasher name
    unfolding hash_listing_entry_def by (intro sound_rules) (auto intro!: sound_rules)
  then show "sound L (hash_listing sys hasher dir)"
    unfolding hash_listing_def by (auto intro!: sound_rules sound_admit_directory assms split: prod.split)
qed

lemma sound_file: "sound L (hashRevisionFile sys hasher path relative info)"
  unfolding hashRevisionFile_def by (intro sound_rules) (auto intro!: sound_rules)

end
