(* ===== verification/RevisionContents.thy ===== *)
theory RevisionContents
  imports RevisionTree
begin

text \<open>
  What a tree revision means: the contents of a directory as a tree, the stream of records
  \<^verbatim>\<open>hashRevisionDirectoryEntries\<close> feeds its hasher for it, and the proof that the stream determines
  the tree.
\<close>

section \<open>Trees and their records\<close>

datatype fileNode =
    RegularNode bool string
  | LinkNode string
  | DirectoryNode "(string \<times> fileNode) list"
  | SpecialNode

text \<open>The records of one entry; a path is its list of names.\<close>

datatype item =
    FileItem "string list" bool string
  | LinkItem "string list" string
  | DirectoryItem "string list"

fun item_path :: "item \<Rightarrow> string list" where
  "item_path (FileItem p _ _) = p"
| "item_path (LinkItem p _) = p"
| "item_path (DirectoryItem p) = p"

definition record_of :: "string list \<Rightarrow> string" where
  "record_of parts = encodedKey parts @ [CHR 0x0A]"

lemma writeRevisionRecord_eq: "writeRevisionRecord h parts = h @ record_of parts"
  by (simp add: record_stream record_of_def)

fun item_stream :: "item \<Rightarrow> string" where
  "item_stream (FileItem p x content) =
     record_of (file_header (join_on slash p) x (int (length content))) @ content @ record_of [''end-file'']"
| "item_stream (LinkItem p target) = record_of [''symlink'', join_on slash p, target]"
| "item_stream (DirectoryItem p) = record_of [''directory'', join_on slash p]"

fun node_items :: "string list \<Rightarrow> fileNode \<Rightarrow> item list"
  and entries_items :: "string list \<Rightarrow> (string \<times> fileNode) list \<Rightarrow> item list" where
  "node_items p (RegularNode x content) = [FileItem p x content]"
| "node_items p (LinkNode target) = [LinkItem p target]"
| "node_items p (DirectoryNode es) = DirectoryItem p # entries_items p es"
| "node_items p SpecialNode = []"
| "entries_items p [] = []"
| "entries_items p ((name, node) # es) = node_items (p @ [name]) node @ entries_items p es"

definition items_stream :: "item list \<Rightarrow> string" where
  "items_stream items = concat (map item_stream items)"

definition tree_stream :: "(string \<times> fileNode) list \<Rightarrow> string" where
  "tree_stream es = items_stream (entries_items [] es)"

text \<open>Directory entries have distinct names that are path components, in the order of the traversal, and
  nothing but files, links and directories is hashed.\<close>

fun node_ok :: "fileNode \<Rightarrow> bool" and listing_ok :: "(string \<times> fileNode) list \<Rightarrow> bool" where
  "node_ok (DirectoryNode es) \<longleftrightarrow> listing_ok es \<and> distinct (map fst es)"
| "node_ok SpecialNode \<longleftrightarrow> False"
| "node_ok _ \<longleftrightarrow> True"
| "listing_ok [] \<longleftrightarrow> True"
| "listing_ok ((name, node) # es) \<longleftrightarrow> component name \<and> node_ok node \<and> listing_ok es"

section \<open>The records can be read back\<close>

lemma record_of_prefix: "record_of fs @ r = record_of gs @ r' \<longleftrightarrow> fs = gs \<and> r = r'"
  using record_prefix[of fs r gs r'] by (simp add: record_of_def)

lemma executable_label_inject [simp]: "executable_label x = executable_label y \<longleftrightarrow> x = y"
  by (simp add: executable_label_def)

lemma join_inject:
  assumes "components p" "components q" "p \<noteq> []" "q \<noteq> []"
  shows "join_on slash p = join_on slash q \<longleftrightarrow> p = q"
  using assms split_components by metis

definition path_ok :: "string list \<Rightarrow> bool" where
  "path_ok p \<longleftrightarrow> components p \<and> p \<noteq> []"

fun item_record :: "item \<Rightarrow> string list" where
  "item_record (FileItem p x content) = file_header (join_on slash p) x (int (length content))"
| "item_record (LinkItem p target) = [''symlink'', join_on slash p, target]"
| "item_record (DirectoryItem p) = [''directory'', join_on slash p]"

fun item_body :: "item \<Rightarrow> string" where
  "item_body (FileItem p x content) = content @ record_of [''end-file'']"
| "item_body _ = []"

lemma item_stream_parts: "item_stream a = record_of (item_record a) @ item_body a"
  by (cases a) simp_all

lemma item_records:
  "item_record (FileItem p x c) = item_record b \<Longrightarrow>
     \<exists>q d. b = FileItem q x d \<and> join_on slash p = join_on slash q \<and> length c = length d"
  "item_record (LinkItem p t) = item_record b \<Longrightarrow> \<exists>q. b = LinkItem q t \<and> join_on slash p = join_on slash q"
  "item_record (DirectoryItem p) = item_record b \<Longrightarrow> \<exists>q. b = DirectoryItem q \<and> join_on slash p = join_on slash q"
  by (cases b; simp add: file_header_def)+

lemma item_prefix:
  assumes "path_ok (item_path a)" "path_ok (item_path b)" "item_stream a @ r = item_stream b @ r'"
  shows "a = b \<and> r = r'"
proof -
  have join: "join_on slash (item_path a) = join_on slash (item_path b) \<Longrightarrow> item_path a = item_path b"
    using assms(1,2) join_inject by (simp add: path_ok_def)
  have eq: "item_record a = item_record b" "item_body a @ r = item_body b @ r'"
    using assms(3)[unfolded item_stream_parts append_assoc record_of_prefix] by blast+
  show ?thesis
  proof (cases a)
    case (FileItem p x c)
    obtain q d where b: "b = FileItem q x d" "join_on slash p = join_on slash q" "length c = length d"
      using item_records(1)[OF eq(1)[unfolded FileItem]] by blast
    then show ?thesis using FileItem eq(2) join by simp
  next
    case (LinkItem p t)
    then show ?thesis using item_records(2)[OF eq(1)[unfolded LinkItem]] join eq(2) by auto
  next
    case (DirectoryItem p)
    then show ?thesis using item_records(3)[OF eq(1)[unfolded DirectoryItem]] join eq(2) by auto
  qed
qed

lemma record_nonempty [simp]: "record_of parts \<noteq> []"
  by (simp add: record_of_def)

lemma item_nonempty [simp]: "item_stream a \<noteq> []"
  by (cases a) auto

lemma items_inject:
  assumes "list_all (\<lambda>a. path_ok (item_path a)) as" "list_all (\<lambda>a. path_ok (item_path a)) bs"
    and "items_stream as = items_stream bs"
  shows "as = bs"
  using assms
proof (induction as arbitrary: bs)
  case Nil
  then show ?case by (cases bs) (auto simp: items_stream_def)
next
  case (Cons a as)
  have "bs \<noteq> []" using Cons.prems(3) by (auto simp: items_stream_def)
  then obtain b bs' where bs: "bs = b # bs'" by (cases bs) simp_all
  have "a = b \<and> items_stream as = items_stream bs'"
    using Cons.prems bs by (intro item_prefix) (auto simp: items_stream_def)
  then show ?case using Cons bs by auto
qed

section \<open>The records determine the tree\<close>

definition outside :: "string list \<Rightarrow> item list \<Rightarrow> bool" where
  "outside p items \<longleftrightarrow> (\<forall>a \<in> set items. \<forall>x xs. item_path a \<noteq> p @ x # xs)"

lemma items_paths:
  "node_ok n \<Longrightarrow> a \<in> set (node_items p n) \<Longrightarrow> \<exists>q. item_path a = p @ q \<and> components q"
  "listing_ok es \<Longrightarrow> a \<in> set (entries_items p es) \<Longrightarrow>
     \<exists>x q. item_path a = p @ x # q \<and> x \<in> fst ` set es \<and> components (x # q)"
proof (induction p n and p es rule: node_items_entries_items.induct)
  case (3 p es)
  show ?case
  proof (cases "a = DirectoryItem p")
    case True
    then show ?thesis by (simp add: components_def)
  next
    case False
    then show ?thesis using 3 by auto
  qed
next
  case (6 p name node es)
  show ?case
  proof (cases "a \<in> set (node_items (p @ [name]) node)")
    case True
    then obtain q where "item_path a = (p @ [name]) @ q" "components q" using 6 by auto
    then show ?thesis using 6 by (auto simp: components_def)
  next
    case False
    then show ?thesis using 6 by auto
  qed
qed (auto simp: components_def)

lemma outside_append [simp]: "outside p (as @ bs) \<longleftrightarrow> outside p as \<and> outside p bs"
  by (auto simp: outside_def)

lemma outside_deeper: "outside p as \<Longrightarrow> outside (p @ q) as"
  by (cases q) (auto simp: outside_def)

lemma outside_siblings:
  assumes "listing_ok es" "name \<notin> fst ` set es"
  shows "outside (p @ [name]) (entries_items p es)"
  unfolding outside_def
proof (intro ballI allI notI)
  fix a y ys
  assume a: "a \<in> set (entries_items p es)" "item_path a = (p @ [name]) @ y # ys"
  obtain x q where "item_path a = p @ x # q" "x \<in> fst ` set es"
    using items_paths(2)[OF assms(1) a(1)] by blast
  then show False using assms(2) a(2) by simp
qed

lemma node_first:
  assumes "node_ok n"
  shows "\<exists>a as. node_items p n = a # as \<and> item_path a = p"
  using assms by (cases n) auto

lemma tree_unique:
  "node_ok n \<Longrightarrow> node_ok n' \<Longrightarrow> outside p rest \<Longrightarrow> outside p rest' \<Longrightarrow>
     node_items p n @ rest = node_items p n' @ rest' \<Longrightarrow> n = n' \<and> rest = rest'"
  "listing_ok es \<Longrightarrow> distinct (map fst es) \<Longrightarrow> listing_ok es' \<Longrightarrow> distinct (map fst es') \<Longrightarrow>
     outside p rest \<Longrightarrow> outside p rest' \<Longrightarrow> entries_items p es @ rest = entries_items p es' @ rest' \<Longrightarrow>
     es = es' \<and> rest = rest'"
proof (induction p n and p es arbitrary: n' rest rest' and es' rest rest' rule: node_items_entries_items.induct)
  case (1 p x content)
  then show ?case by (cases n') auto
next
  case (2 p target)
  then show ?case by (cases n') auto
next
  case (3 p es)
  then show ?case by (cases n') auto
next
  case (4 p)
  then show ?case by simp
next
  case (5 p)
  show ?case
  proof (cases es')
    case (Cons e es1)
    obtain name node where e: "e = (name, node)" by (cases e)
    then obtain a as where "node_items (p @ [name]) node = a # as" "item_path a = p @ [name]"
      using node_first[of node "p @ [name]"] 5 Cons by auto
    then have "a \<in> set rest" "item_path a = p @ name # []" using 5 Cons e by auto
    then show ?thesis using 5(5) by (fastforce simp: outside_def)
  qed (use 5 in simp)
next
  case (6 p name node es)
  obtain a as where first: "node_items (p @ [name]) node = a # as" "item_path a = p @ [name]"
    using node_first[of node "p @ [name]"] 6 by auto
  show ?case
  proof (cases es')
    case Nil
    then have "a \<in> set rest'" using 6 first by auto
    then show ?thesis using 6(8) first(2) by (fastforce simp: outside_def)
  next
    case (Cons e es1)
    obtain name' node' where e: "e = (name', node')" by (cases e)
    obtain b bs where first': "node_items (p @ [name']) node' = b # bs" "item_path b = p @ [name']"
      using node_first[of node' "p @ [name']"] 6 Cons e by auto
    have "a = b" using 6(9) first first' Cons e by simp
    then have name: "name' = name" using first(2) first'(2) by simp
    have out: "outside (p @ [name]) (entries_items p es @ rest)" "outside (p @ [name]) (entries_items p es1 @ rest')"
      using 6 Cons e name outside_siblings[of es name p] outside_siblings[of es1 name p] outside_deeper[of p _ "[name]"]
      by (auto simp: image_iff)
    have "node = node' \<and> entries_items p es @ rest = entries_items p es1 @ rest'"
      using 6 Cons e name out by (intro 6(1)) auto
    moreover from this have "es = es1 \<and> rest = rest'" using 6 Cons e by (intro 6(2)) auto
    ultimately show ?thesis using Cons e name by simp
  qed
qed

lemma tree_paths_ok: "listing_ok es \<Longrightarrow> list_all (\<lambda>a. path_ok (item_path a)) (entries_items [] es)"
  unfolding list_all_iff path_ok_def using items_paths(2)[of es _ "[]"] by fastforce

lemma tree_stream_inject:
  assumes "listing_ok es" "distinct (map fst es)" "listing_ok es'" "distinct (map fst es')"
  shows "tree_stream es = tree_stream es' \<longleftrightarrow> es = es'"
proof
  assume "tree_stream es = tree_stream es'"
  then have "entries_items [] es = entries_items [] es'"
    using items_inject[OF tree_paths_ok tree_paths_ok] assms by (simp add: tree_stream_def)
  then show "es = es'"
    using tree_unique(2)[of es es' "[]" "[]" "[]"] assms by (simp add: outside_def)
qed simp

end
