(* ===== verification/RevisionQuiet.thy ===== *)
theory RevisionQuiet
  imports RevisionContents
begin

text \<open>
  The traversal of a tree that nobody changes: it succeeds exactly when the tree fits the budget, hashes
  exactly the tree's records in name order, and charges exactly the tree's entries and bytes. The kernel of such a
  tree is the locale \<open>quiet_files\<close>.
\<close>

section \<open>What a tree needs\<close>

fun node_entries :: "fileNode \<Rightarrow> int" and entries_below :: "(string \<times> fileNode) list \<Rightarrow> int" where
  "node_entries (DirectoryNode es) = int (length es) + entries_below es"
| "node_entries _ = 0"
| "entries_below [] = 0"
| "entries_below ((_, node) # es) = node_entries node + entries_below es"

fun node_bytes :: "fileNode \<Rightarrow> int" and bytes_below :: "(string \<times> fileNode) list \<Rightarrow> int" where
  "node_bytes (RegularNode _ content) = int (length content)"
| "node_bytes (DirectoryNode es) = bytes_below es"
| "node_bytes _ = 0"
| "bytes_below [] = 0"
| "bytes_below ((_, node) # es) = node_bytes node + bytes_below es"

fun node_depth :: "fileNode \<Rightarrow> int" and depth_below :: "(string \<times> fileNode) list \<Rightarrow> int" where
  "node_depth (DirectoryNode es) = 1 + depth_below es"
| "node_depth _ = 0"
| "depth_below [] = 0"
| "depth_below ((_, node) # es) = max (node_depth node) (depth_below es)"

text \<open>What can be hashed at all: no special files, and no link target beyond one mebibyte.\<close>

fun hashable :: "fileNode \<Rightarrow> bool" and all_hashable :: "(string \<times> fileNode) list \<Rightarrow> bool" where
  "hashable (LinkNode target) \<longleftrightarrow> int (length target) \<le> maximumRevisionSymlinkBytes"
| "hashable (DirectoryNode es) \<longleftrightarrow> all_hashable es"
| "hashable SpecialNode \<longleftrightarrow> False"
| "hashable (RegularNode _ _) \<longleftrightarrow> True"
| "all_hashable [] \<longleftrightarrow> True"
| "all_hashable ((_, node) # es) \<longleftrightarrow> hashable node \<and> all_hashable es"

definition spend :: "int \<Rightarrow> int \<Rightarrow> revisionTreeBudget \<Rightarrow> revisionTreeBudget" where
  "spend entries bytes b = b\<lparr>tb_entries := tb_entries b + entries, tb_bytes := tb_bytes b + bytes,
     tb_operation := (tb_operation b)\<lparr>ob_entries := ob_entries (tb_operation b) + entries,
       ob_bytes := ob_bytes (tb_operation b) + bytes\<rparr>\<rparr>"

definition node_fits :: "fileNode \<Rightarrow> int \<Rightarrow> revisionTreeBudget \<Rightarrow> bool" where
  "node_fits node d b \<longleftrightarrow> hashable node \<and> d + node_depth node \<le> maximumTreeDepth (tb_limits b) \<and>
     budget_ok (spend (node_entries node) (node_bytes node) b)"

definition entries_fit :: "(string \<times> fileNode) list \<Rightarrow> int \<Rightarrow> revisionTreeBudget \<Rightarrow> bool" where
  "entries_fit es d b \<longleftrightarrow> all_hashable es \<and> d + depth_below es \<le> maximumTreeDepth (tb_limits b) \<and>
     budget_ok (spend (entries_below es) (bytes_below es) b)"

definition tree_fits :: "(string \<times> fileNode) list \<Rightarrow> int \<Rightarrow> revisionTreeBudget \<Rightarrow> bool" where
  "tree_fits es d b \<longleftrightarrow> all_hashable es \<and> d + depth_below es \<le> maximumTreeDepth (tb_limits b) \<and>
     budget_ok (spend (int (length es) + entries_below es) (bytes_below es) b)"

lemma amounts_nonneg [simp]:
  "0 \<le> node_entries n" "0 \<le> entries_below es" "0 \<le> node_bytes n" "0 \<le> bytes_below es" "0 \<le> node_depth n" "0 \<le> depth_below es"
proof -
  have "0 \<le> node_entries n \<and> 0 \<le> node_bytes n \<and> 0 \<le> node_depth n"
    "0 \<le> entries_below es \<and> 0 \<le> bytes_below es \<and> 0 \<le> depth_below es"
    by (induction n and es rule: node_entries_entries_below.induct) auto
  then show "0 \<le> node_entries n" "0 \<le> entries_below es" "0 \<le> node_bytes n" "0 \<le> bytes_below es" "0 \<le> node_depth n"
    "0 \<le> depth_below es" by auto
qed

lemma spend_simps [simp]:
  "tb_limits (spend e y b) = tb_limits b" "spend 0 0 b = b" "spend e y (spend e' y' b) = spend (e' + e) (y' + y) b"
  by (simp_all add: spend_def)

lemma spend_ok_prefix: "budget_ok (spend (e + e') (y + y') b) \<Longrightarrow> 0 \<le> e' \<Longrightarrow> 0 \<le> y' \<Longrightarrow> budget_ok b \<Longrightarrow> 0 \<le> e \<Longrightarrow> 0 \<le> y \<Longrightarrow>
    budget_ok (spend e y b)"
  by (auto simp: spend_def budget_ok_def)

lemma admissions_spend:
  assumes "budget_ok b" "0 \<le> n" "n \<le> go_max_int"
  shows "admitTreeBytes n b = (if budget_ok (spend 0 n b) then (Inr (), spend 0 n b) else (Inl (work_error (WorkTreeBytes n) b), b))"
    and "tb_entries b + n \<le> go_max_int \<Longrightarrow> ob_entries (tb_operation b) + n \<le> go_max_int \<Longrightarrow>
      admitEntries n b = (if budget_ok (spend n 0 b) then (Inr (), spend n 0 b) else (Inl (work_error (WorkEntries n) b), b))"
proof -
  have "use_budget (WorkTreeBytes n) b = spend 0 n b" "use_budget (WorkEntries n) b = spend n 0 b" by (simp_all add: spend_def)
  then show "admitTreeBytes n b = (if budget_ok (spend 0 n b) then (Inr (), spend 0 n b) else (Inl (work_error (WorkTreeBytes n) b), b))"
    and "tb_entries b + n \<le> go_max_int \<Longrightarrow> ob_entries (tb_operation b) + n \<le> go_max_int \<Longrightarrow>
      admitEntries n b = (if budget_ok (spend n 0 b) then (Inr (), spend n 0 b) else (Inl (work_error (WorkEntries n) b), b))"
    using admit_exact[OF assms(1), of "WorkTreeBytes n"] admit_exact[OF assms(1), of "WorkEntries n"] assms(2,3)
    by (simp_all del: use_budget.simps)
qed

lemma depth_admission:
  "0 \<le> d \<Longrightarrow> admitDirectoryDepth d b =
     (if d \<le> maximumTreeDepth (tb_limits b) then (Inr (), b)
      else (Inl (RevisionLimitError RevisionLimitTreeDepth (maximumTreeDepth (tb_limits b)) d), b))"
  by (simp add: admitDirectoryDepth_def)

text \<open>Paths of the traversal.\<close>

definition path_text :: "string list \<Rightarrow> string" where
  "path_text p = (if p = [] then ''.'' else join_on slash p)"

lemma relative_components:
  assumes "components p" "component name"
  shows "relative_path (path_text p) name = join_on slash (p @ [name])"
proof (cases "p = []")
  case True
  then show ?thesis by (simp add: relative_path_def path_text_def)
next
  case False
  have pn: "components (p @ [name])" "p @ [name] \<noteq> []" using assms by (simp_all add: components_def)
  have join: "join_on slash p @ [slash] @ name = join_on slash (p @ [name])"
    using False by (simp add: join_on_append)
  have split: "split_on slash (join_on slash (p @ [name])) = p @ [name]" using split_components pn by blast
  obtain c cs where p: "p = c # cs" using False by (cases p) auto
  have c: "component c" using assms(1) p by (simp add: components_def)
  have "join_on slash p \<noteq> ''.''"
  proof
    assume "join_on slash p = ''.''"
    then have "split_on slash (join_on slash p) = [''.'']" by simp
    then show False using split_components[OF assms(1) False] c p by (simp add: component_def)
  qed
  moreover have "\<not> go_is_abs (join_on slash (p @ [name]))"
    using c p by (cases c) (auto simp: go_is_abs_def join_on_Cons component_def)
  moreover have "join_on slash (p @ [name]) \<noteq> []"
    using c p by (auto simp: join_on_Cons component_def)
  ultimately show ?thesis
    using False split fold_components[OF pn(1), of False "[]"]
    by (simp add: relative_path_def path_text_def join[simplified] go_clean_def clean_elements_def Let_def)
qed

lemma entries_fit_Cons:
  assumes "budget_ok b"
  shows "entries_fit ((name, node) # es) d b \<longleftrightarrow>
    node_fits node d b \<and> entries_fit es d (spend (node_entries node) (node_bytes node) b)"
  using assms spend_ok_prefix[of "node_entries node" "entries_below es" "node_bytes node" "bytes_below es" b]
  by (auto simp: entries_fit_def node_fits_def)

lemma tree_fits_eq:
  assumes "budget_ok b"
  shows "tree_fits es d b \<longleftrightarrow> budget_ok (spend (int (length es)) 0 b) \<and> entries_fit es d (spend (int (length es)) 0 b)"
  using assms spend_ok_prefix[of "int (length es)" "entries_below es" 0 "bytes_below es" b]
  by (auto simp: tree_fits_def entries_fit_def)

lemma node_fits_directory:
  assumes "budget_ok b"
  shows "node_fits (DirectoryNode es) d b \<longleftrightarrow> d + 1 \<le> maximumTreeDepth (tb_limits b) \<and> tree_fits es (d + 1) b"
  using amounts_nonneg(6)[of es] by (auto simp: node_fits_def tree_fits_def simp del: amounts_nonneg)

section \<open>A kernel whose files stay as they are\<close>

datatype 'i object =
    RegularObject string
  | LinkObject string
  | DirectoryObject "(string \<times> 'i) list"
  | SpecialObject

text \<open>The tree below an object; directory entries in name order.\<close>

fun denotes :: "('i \<Rightarrow> 'i object) \<Rightarrow> ('i \<Rightarrow> Stat_t) \<Rightarrow> 'i \<Rightarrow> fileNode \<Rightarrow> bool"
  and entries_denote :: "('i \<Rightarrow> 'i object) \<Rightarrow> ('i \<Rightarrow> Stat_t) \<Rightarrow> (string \<times> 'i) list \<Rightarrow> (string \<times> fileNode) list \<Rightarrow> bool" where
  "denotes obj status i (RegularNode x content) \<longleftrightarrow>
     obj i = RegularObject content \<and> x = entry_executable (revisionNativeEntryFromStat (status i))"
| "denotes obj status i (LinkNode target) \<longleftrightarrow> obj i = LinkObject target"
| "denotes obj status i SpecialNode \<longleftrightarrow> obj i = SpecialObject"
| "denotes obj status i (DirectoryNode es) \<longleftrightarrow>
     (case obj i of
        DirectoryObject listing \<Rightarrow> map fst es = sort (map fst listing) \<and> entries_denote obj status listing es
      | _ \<Rightarrow> False)"
| "entries_denote obj status listing [] \<longleftrightarrow> True"
| "entries_denote obj status listing ((name, node) # es) \<longleftrightarrow>
     (case map_of listing name of Some j \<Rightarrow> denotes obj status j node | None \<Rightarrow> False) \<and>
     entries_denote obj status listing es"

definition status_of_kind :: "'i object \<Rightarrow> Stat_t \<Rightarrow> bool" where
  "status_of_kind x s \<longleftrightarrow> 0 \<le> st_size s \<and> st_size s \<le> go_max_int \<and> (case x of
      RegularObject content \<Rightarrow> st_mode s AND S_IFMT = S_IFREG \<and> st_size s = int (length content)
    | LinkObject target \<Rightarrow> st_mode s AND S_IFMT = S_IFLNK \<and> st_size s = int (length target)
    | DirectoryObject listing \<Rightarrow> st_mode s AND S_IFMT = S_IFDIR \<and> distinct (map fst listing) \<and>
        list_all component (map fst listing)
    | SpecialObject \<Rightarrow> st_mode s AND S_IFMT \<notin> {S_IFREG, S_IFLNK, S_IFDIR})"

text \<open>\<open>opened\<close> gives an open descriptor's object and how much of it was read; \<open>kept\<close> is a step that leaves
  every open descriptor as it is.\<close>

locale quiet_files =
  fixes sys :: "'w revision_system"
    and obj :: "'i \<Rightarrow> 'i object"
    and status :: "'i \<Rightarrow> Stat_t"
    and opened :: "nat \<Rightarrow> 'w \<Rightarrow> ('i \<times> nat) option"
    and kept :: "'w \<Rightarrow> 'w \<Rightarrow> bool"
  assumes kept_iff: "kept w w' \<longleftrightarrow> (\<forall>fd x. opened fd w = Some x \<longrightarrow> opened fd w' = Some x)"
    and status_kind: "status_of_kind (obj i) (status i)"
    and context_active: "\<exists>w'. px_ctx (rs_files sys) w = (Inr (), w') \<and> kept w w'"
    and fstatat_child: "opened d w = Some (i, n) \<Longrightarrow> obj i = DirectoryObject listing \<Longrightarrow> map_of listing name = Some j \<Longrightarrow>
      \<exists>w'. px_fstatat (rs_files sys) d name w = (Inr (status j), w') \<and> kept w w'"
    and fstat_opened: "opened fd w = Some (i, n) \<Longrightarrow> \<exists>w'. rs_fstat sys fd w = (Inr (status i), w') \<and> kept w w'"
    and openat_child: "opened d w = Some (i, n) \<Longrightarrow> obj i = DirectoryObject listing \<Longrightarrow> map_of listing name = Some j \<Longrightarrow>
      (case obj j of RegularObject _ \<Rightarrow> \<not> directory | DirectoryObject _ \<Rightarrow> directory | _ \<Rightarrow> False) \<Longrightarrow>
      \<exists>fd w'. rs_openat sys d name directory w = (Inr fd, w') \<and> kept w w' \<and> opened fd w = None \<and> opened fd w' = Some (j, 0)"
    and close_opened: "opened fd w = Some x \<Longrightarrow>
      \<exists>w'. px_close (rs_files sys) fd w = (Inr (), w') \<and> (\<forall>other. other \<noteq> fd \<longrightarrow> opened other w' = opened other w)"
    and readdir_opened: "opened d w = Some (i, n) \<Longrightarrow> obj i = DirectoryObject listing \<Longrightarrow> 0 < k \<Longrightarrow>
      \<exists>batch failure w'. rs_readdirnames sys d k w = ((batch, failure), w') \<and> length batch \<le> k \<and>
        batch = take (length batch) (drop n (map fst listing)) \<and>
        (if length listing \<le> n then batch = [] \<and> failure = Some EOF else batch \<noteq> [] \<and> failure = None) \<and>
        opened d w' = Some (i, n + length batch) \<and> (\<forall>other. other \<noteq> d \<longrightarrow> opened other w' = opened other w)"
    and read_opened: "opened fd w = Some (i, n) \<Longrightarrow> obj i = RegularObject content \<Longrightarrow> 0 < k \<Longrightarrow>
      \<exists>bytes failure w'. px_read (rs_files sys) fd k w = ((bytes, failure), w') \<and> length bytes \<le> k \<and>
        bytes = take (length bytes) (drop n content) \<and>
        (if length content \<le> n then bytes = [] \<and> failure = Some EOF else bytes \<noteq> [] \<and> failure = None) \<and>
        opened fd w' = Some (i, n + length bytes) \<and> (\<forall>other. other \<noteq> fd \<longrightarrow> opened other w' = opened other w)"
    and readlinkat_child: "opened d w = Some (i, n) \<Longrightarrow> obj i = DirectoryObject listing \<Longrightarrow> map_of listing name = Some j \<Longrightarrow>
      obj j = LinkObject target \<Longrightarrow> 0 < k \<Longrightarrow>
      \<exists>w'. rs_readlinkat sys d name k w = (Inr (take k target), w') \<and> kept w w'"
begin

text \<open>A step on the directory \<open>d\<close>: its own position may move, every other descriptor stays.\<close>

definition frame :: "nat \<Rightarrow> 'w \<Rightarrow> 'w \<Rightarrow> bool" where
  "frame d w w' \<longleftrightarrow> (\<forall>fd x. fd \<noteq> d \<longrightarrow> opened fd w = Some x \<longrightarrow> opened fd w' = Some x) \<and>
     (\<forall>i n. opened d w = Some (i, n) \<longrightarrow> (\<exists>m. opened d w' = Some (i, m)))"

lemma kept_frame: "kept w w' \<Longrightarrow> frame d w w'"
  by (auto simp: frame_def kept_iff)

lemma kept_trans: "kept w w1 \<Longrightarrow> kept w1 w2 \<Longrightarrow> kept w w2"
  by (simp add: kept_iff)

lemma frame_refl: "frame d w w"
  by (auto simp: frame_def)

lemma frame_trans: "frame d w w1 \<Longrightarrow> frame d w1 w2 \<Longrightarrow> frame d w w2"
  unfolding frame_def by (meson option.inject)

lemma frame_opened: "frame d w w' \<Longrightarrow> opened d w = Some (i, n) \<Longrightarrow> \<exists>m. opened d w' = Some (i, m)"
  by (auto simp: frame_def)

lemma context_run: "\<exists>w'. revision_context sys w = (Inr (), w') \<and> kept w w'"
  using context_active[of w] by (auto simp: revision_context_def io_wrap_Inr)

lemma child_run:
  "opened d w = Some (i, n) \<Longrightarrow> obj i = DirectoryObject listing \<Longrightarrow> map_of listing name = Some j \<Longrightarrow>
     \<exists>w'. observeRevisionChild sys d name w = (Inr (revisionNativeEntryFromStat (status j)), w') \<and> kept w w'"
  using fstatat_child[of d w i n listing name j] by (fastforce simp: observeRevisionChild_def io_results)

lemma opened_run:
  "opened fd w = Some (i, n) \<Longrightarrow>
     \<exists>w'. observeRevisionOpened sys fd w = (Inr (revisionNativeEntryFromStat (status i)), w') \<and> kept w w'"
  using fstat_opened[of fd w i n] by (fastforce simp: observeRevisionOpened_def io_results)

lemma names_run:
  assumes "opened d w = Some (i, n)" "obj i = DirectoryObject listing" "int n \<le> maximumEntries + 1" "n \<le> length listing"
  shows "\<exists>w'. read_names_loop sys d maximumEntries (take n (map fst listing)) w =
      (Inr (take (nat (maximumEntries + 1)) (map fst listing)), w') \<and> frame d w w'"
  using assms(1,3,4)
proof (induction "nat (maximumEntries + 1) - n" arbitrary: n w rule: less_induct)
  case less
  let ?all = "map fst listing"
  note unfold = read_names_loop.simps[of sys d maximumEntries "take n ?all" w]
  show ?case
  proof (cases "int n = maximumEntries + 1")
    case True
    then have "nat (maximumEntries + 1) = n" by simp
    then show ?thesis using True less.prems frame_refl by (simp add: unfold)
  next
    case False
    then have more: "\<not> maximumEntries < int (length (take n ?all))" using less.prems by simp
    obtain w1 where w1: "revision_context sys w = (Inr (), w1)" "kept w w1" using context_run by blast
    have at1: "opened d w1 = Some (i, n)" using w1(2) less.prems(1) by (simp add: kept_iff)
    let ?k = "nat (min (maximumEntries + 1 - int (length (take n ?all))) batchMaximum)"
    have "0 < ?k" using less.prems False by (simp add: batchMaximum_def)
    then obtain batch failure w2 where read: "rs_readdirnames sys d ?k w1 = ((batch, failure), w2)" "length batch \<le> ?k"
      "batch = take (length batch) (drop n ?all)"
      "if length listing \<le> n then batch = [] \<and> failure = Some EOF else batch \<noteq> [] \<and> failure = None"
      "opened d w2 = Some (i, n + length batch)" "\<forall>other. other \<noteq> d \<longrightarrow> opened other w2 = opened other w1"
      using readdir_opened[OF at1 assms(2), of ?k] by blast
    obtain w3 where w3: "revision_context sys w2 = (Inr (), w3)" "kept w2 w3" using context_run by blast
    have at3: "opened d w3 = Some (i, n + length batch)" using w3(2) read(5) by (simp add: kept_iff)
    have frame: "frame d w w3" using w1(2) at1 read(5,6) w3(2) by (auto simp: frame_def kept_iff)
    have joined: "take n ?all @ batch = take (n + length batch) ?all"
      using read(3) by (metis take_add)
    show ?thesis
    proof (cases "length listing \<le> n")
      case True
      then have "batch = []" "failure = Some EOF" "n = length listing" using read(4) less.prems by auto
      moreover have "take (nat (maximumEntries + 1)) ?all = ?all" using less.prems(2) \<open>n = length listing\<close> by simp
      moreover have "read_names_loop sys d maximumEntries (take n ?all) w = (Inr (take n ?all @ batch), w3)"
        using \<open>failure = Some EOF\<close> more
        by (simp only: unfold if_False w1(1) read(1) w3(1) prod.case sum.case option.case readFailure.case)
      ultimately show ?thesis using frame by auto
    next
      case False
      then have batch: "batch \<noteq> []" "failure = None" using read(4) by auto
      have bound: "length batch \<le> length listing - n"
        using arg_cong[OF read(3), of length] by simp
      have "nat (maximumEntries + 1) - (n + length batch) < nat (maximumEntries + 1) - n"
        using batch(1) less.prems \<open>int n \<noteq> maximumEntries + 1\<close> by (cases batch) auto
      moreover have "int (n + length batch) \<le> maximumEntries + 1" "n + length batch \<le> length listing"
        using read(2) bound less.prems \<open>int n \<noteq> maximumEntries + 1\<close> False by auto
      ultimately obtain w' where "read_names_loop sys d maximumEntries (take (n + length batch) ?all) w3 =
          (Inr (take (nat (maximumEntries + 1)) ?all), w')" "frame d w3 w'"
        using less.hyps[of "n + length batch" w3] at3 by blast
      moreover from this have "read_names_loop sys d maximumEntries (take n ?all) w =
          (Inr (take (nat (maximumEntries + 1)) ?all), w')"
        using batch more by (simp only: unfold if_False w1(1) read(1) w3(1) prod.case sum.case option.case joined)
      ultimately show ?thesis using frame frame_trans by blast
    qed
  qed
qed

lemma copy_run:
  assumes "opened fd w = Some (j, n)" "obj j = RegularObject content" "n \<le> length content"
  shows "\<exists>w' m. copyN sys fd (int (length content) - int n) h w = (Inr (h @ drop n content), w') \<and>
      opened fd w' = Some (j, m) \<and> (\<forall>other x. other \<noteq> fd \<longrightarrow> opened other w = Some x \<longrightarrow> opened other w' = Some x)"
  using assms(1,3)
proof (induction "length content - n" arbitrary: n w h rule: less_induct)
  case less
  note unfold = copyN.simps[of sys fd "int (length content) - int n" h w]
  show ?case
  proof (cases "n = length content")
    case True
    then have "copyN sys fd (int (length content) - int n) h w = (Inr (h @ drop n content), w)" by (subst unfold) simp
    then show ?thesis using less.prems by blast
  next
    case False
    then have more: "\<not> int (length content) - int n \<le> 0" using less.prems by simp
    obtain w1 where w1: "revision_context sys w = (Inr (), w1)" "kept w w1" using context_run by blast
    have at1: "opened fd w1 = Some (j, n)" using w1(2) less.prems(1) by (simp add: kept_iff)
    let ?k = "nat (min (int (length content) - int n) read_buffer)"
    have "0 < ?k" using more by (simp add: read_buffer_def)
    then obtain bytes failure w2 where read: "px_read (rs_files sys) fd ?k w1 = ((bytes, failure), w2)" "length bytes \<le> ?k"
      "bytes = take (length bytes) (drop n content)" "bytes \<noteq> []" "failure = None"
      "opened fd w2 = Some (j, n + length bytes)" "\<forall>other. other \<noteq> fd \<longrightarrow> opened other w2 = opened other w1"
      using read_opened[OF at1 assms(2), of ?k] False less.prems by auto
    have others: "\<forall>other x. other \<noteq> fd \<longrightarrow> opened other w = Some x \<longrightarrow> opened other w2 = Some x"
      using w1(2) read(7) by (simp add: kept_iff)
    have len: "n + length bytes \<le> length content" using arg_cong[OF read(3), of length] less.prems by simp
    have joined: "bytes @ drop (n + length bytes) content = drop n content"
      using read(3) by (metis append_take_drop_id drop_drop add.commute)
    show ?thesis
    proof (cases "n + length bytes = length content")
      case True
      then have "copyN sys fd (int (length content) - int n) h w = (Inr (h @ drop n content), w2)"
        using joined by (simp add: unfold more[simplified] w1(1) read(1)[simplified])
      then show ?thesis using read(6) others by blast
    next
      case False
      have "length content - (n + length bytes) < length content - n" using read(4) len by (cases bytes) auto
      then obtain w' m where rest: "copyN sys fd (int (length content) - int (n + length bytes)) (h @ bytes) w2 =
          (Inr ((h @ bytes) @ drop (n + length bytes) content), w')" "opened fd w' = Some (j, m)"
        "\<forall>other x. other \<noteq> fd \<longrightarrow> opened other w2 = Some x \<longrightarrow> opened other w' = Some x"
        using less.hyps[of "n + length bytes" w2 "h @ bytes"] read(6) len by blast
      have "copyN sys fd (int (length content) - int n) h w = (Inr (h @ drop n content), w')"
        using False len rest(1) joined read(4,5)
        by (simp add: unfold more[simplified] w1(1) read(1)[simplified] diff_diff_eq)
      then show ?thesis using rest others by blast
    qed
  qed
qed

lemma kind_tests:
  "entry_isSymlink (revisionNativeEntryFromStat (status j)) \<longleftrightarrow> (\<exists>t. obj j = LinkObject t)"
  "entry_isDirectory (revisionNativeEntryFromStat (status j)) \<longleftrightarrow> (\<exists>l. obj j = DirectoryObject l)"
  "entry_isRegular (revisionNativeEntryFromStat (status j)) \<longleftrightarrow> (\<exists>c. obj j = RegularObject c)"
  using status_kind[of j]
  by (cases "obj j"; simp add: entry_isSymlink_def entry_isDirectory_def entry_isRegular_def revisionNativeEntryFromStat_def
      status_of_kind_def S_IFLNK_def S_IFDIR_def S_IFREG_def)+

lemma open_run:
  assumes "opened d w = Some (i, n)" "obj i = DirectoryObject listing" "map_of listing name = Some j"
    and "(\<exists>c. obj j = RegularObject c) \<or> (\<exists>l. obj j = DirectoryObject l)"
  shows "\<exists>fd w'. openRevisionChild sys d name (revisionNativeEntryFromStat (status j)) w = (Inr fd, w') \<and>
    kept w w' \<and> opened fd w = None \<and> opened fd w' = Some (j, 0)"
proof -
  let ?e = "revisionNativeEntryFromStat (status j)"
  obtain fd w1 where w1: "rs_openat sys d name (entry_isDirectory ?e) w = (Inr fd, w1)" "kept w w1" "opened fd w = None"
    "opened fd w1 = Some (j, 0)"
    using openat_child[OF assms(1-3), of "entry_isDirectory ?e"] assms(4) by (auto simp: kind_tests)
  obtain w2 where w2: "observeRevisionOpened sys fd w1 = (Inr ?e, w2)" "kept w1 w2"
    using opened_run[OF w1(4)] by blast
  have "openRevisionChild sys d name ?e w = (Inr fd, w2)"
    using w1(1) w2(1) by (simp add: openRevisionChild_def io_bind_def io_wrap_def close_on_error_def)
  then show ?thesis using w1 w2(2) kept_trans by (metis kept_iff)
qed

lemma verify_run:
  assumes "opened d w = Some (i, n)" "obj i = DirectoryObject listing" "map_of listing name = Some j" "opened fd w = Some (j, m)"
  shows "\<exists>w'. verifyRevisionChild sys d name fd (revisionNativeEntryFromStat (status j)) w = (Inr (), w') \<and> kept w w'"
proof -
  let ?e = "revisionNativeEntryFromStat (status j)"
  obtain w1 where w1: "observeRevisionOpened sys fd w = (Inr ?e, w1)" "kept w w1" using opened_run[OF assms(4)] by blast
  have "opened d w1 = Some (i, n)" using w1(2) assms(1) by (simp add: kept_iff)
  from child_run[OF this assms(2,3)] obtain w2 where w2: "observeRevisionChild sys d name w1 = (Inr ?e, w2)" "kept w1 w2" by blast
  have "verifyRevisionChild sys d name fd ?e w = (Inr (), w2)"
    using w1(1) w2(1) by (simp add: verifyRevisionChild_def io_bind_def)
  then show ?thesis using w1(2) w2(2) kept_trans by blast
qed

text \<open>A finished step: it succeeds exactly when \<open>ok\<close>, with the given hasher and budget.\<close>

definition outcome ::
  "('w \<Rightarrow> 'w \<Rightarrow> bool) \<Rightarrow> bool \<Rightarrow> 'w \<Rightarrow> hasher \<Rightarrow> revisionTreeBudget \<Rightarrow> (revisionError + hasher) \<times> 'w \<times> revisionTreeBudget \<Rightarrow> bool" where
  "outcome R ok w h b result \<longleftrightarrow>
     (if ok then \<exists>w'. result = (Inr h, (w', b)) \<and> R w w' else \<exists>e s. result = (Inl e, s))"

lemma outcome_Inl [simp]: "outcome R ok w h b (Inl e, s) \<longleftrightarrow> \<not> ok"
  by (simp add: outcome_def)

lemma outcome_bind:
  assumes "outcome R ok w h b (m (w, b0))"
    and "\<And>w1. ok \<Longrightarrow> R w w1 \<Longrightarrow> outcome R' ok' w h' b' (f h (w1, b))"
    and "\<not> ok \<Longrightarrow> \<not> ok'"
  shows "outcome R' ok' w h' b' (io_bind m f (w, b0))"
  using assms by (auto simp: outcome_def io_bind_def split: if_splits)

lemma sys_bind: "io_bind (sys_call m) f (w, b) = (case m w of (Inr x, w') \<Rightarrow> f x (w', b) | (Inl e, w') \<Rightarrow> (Inl e, (w', b)))"
  by (simp add: io_bind_def sys_call_def split: prod.split sum.split)

lemmas sys_runs = sys_bind io_wrap_def

lemma charge_run:
  "f b = (Inr (), b') \<Longrightarrow> io_bind (charge f) g (w, b) = g () (w, b')"
  "f b = (Inl e, b') \<Longrightarrow> io_bind (charge f) g (w, b) = (Inl (BudgetFailed e), (w, b'))"
  by (simp_all add: io_bind_def charge_def)

lemma outcome_kept: "outcome kept ok w1 h b result \<Longrightarrow> kept w w1 \<Longrightarrow> outcome kept ok w h b result"
  unfolding outcome_def using kept_trans by (metis (no_types, lifting))

text \<open>Hashing an open child and closing it, seen from the directory.\<close>

lemma child_outcome:
  assumes dir: "opened d w = Some (i, n)" "obj i = DirectoryObject listing" "map_of listing name = Some j"
    and child: "kept w w1" "opened fd w = None" "opened fd w1 = Some (j, 0)"
    and body: "outcome (frame fd) ok w1 h' b' (body (w1, b))"
  shows "outcome kept ok w h' b' (with_child sys fd
    (io_bind body (\<lambda>hasher. io_bind (sys_call (verifyRevisionChild sys d name fd (revisionNativeEntryFromStat (status j)))) (\<lambda>_.
       io_return hasher))) (w1, b))"
proof (cases ok)
  case False
  then obtain e w2 b2 where "body (w1, b) = (Inl e, (w2, b2))" using body by (auto simp: outcome_def)
  then show ?thesis using False
    by (auto simp: outcome_def with_child_def io_bind_def split: prod.splits sum.splits)
next
  case True
  then obtain w2 where w2: "body (w1, b) = (Inr h', (w2, b'))" "frame fd w1 w2" using body by (auto simp: outcome_def)
  have "fd \<noteq> d" using dir(1) child(2) by auto
  have at2: "opened d w2 = Some (i, n)" using dir(1) child(1) w2(2) \<open>fd \<noteq> d\<close> by (auto simp: kept_iff frame_def)
  obtain m where fd2: "opened fd w2 = Some (j, m)" using frame_opened[OF w2(2) child(3)] by blast
  obtain w3 where w3: "verifyRevisionChild sys d name fd (revisionNativeEntryFromStat (status j)) w2 = (Inr (), w3)" "kept w2 w3"
    using verify_run[OF at2 dir(2,3) fd2] by blast
  have "opened fd w3 = Some (j, m)" using w3(2) fd2 by (simp add: kept_iff)
  then obtain w4 where w4: "px_close (rs_files sys) fd w3 = (Inr (), w4)" "\<forall>other. other \<noteq> fd \<longrightarrow> opened other w4 = opened other w3"
    using close_opened by blast
  have "kept w w4" using child(1,2) w2(2) w3(2) w4(2) unfolding kept_iff frame_def by (metis option.distinct(1))
  moreover have "with_child sys fd (io_bind body (\<lambda>hasher. io_bind (sys_call
      (verifyRevisionChild sys d name fd (revisionNativeEntryFromStat (status j)))) (\<lambda>_. io_return hasher))) (w1, b) = (Inr h', (w4, b'))"
    using w2(1) w3(1) w4(1) by (simp add: with_child_def io_bind_def sys_call_def)
  ultimately show ?thesis using True by (auto simp: outcome_def)
qed

lemma file_outcome:
  assumes "opened fd w = Some (j, 0)" "obj j = RegularObject content" "budget_ok b"
  defines "e \<equiv> revisionNativeEntryFromStat (status j)"
  shows "outcome (frame fd) (budget_ok (spend 0 (int (length content)) b)) w
    (h @ item_stream (FileItem p (entry_executable e) content)) (spend 0 (int (length content)) b)
    (hashRevisionOpenedFile sys h fd (join_on slash p) e (w, b))"
proof -
  have len: "ne_size e = int (length content)" "int (length content) \<le> go_max_int"
    using status_kind[of j] assms(2) by (auto simp: e_def revisionNativeEntryFromStat_def status_of_kind_def)
  note admit = admissions_spend(1)[OF assms(3) of_nat_0_le_iff len(2)]
  show ?thesis
  proof (cases "budget_ok (spend 0 (int (length content)) b)")
    case False
    then have "admitTreeBytes (ne_size e) b = (Inl (work_error (WorkTreeBytes (int (length content))) b), b)"
      using admit len(1) by simp
    then show ?thesis using False by (simp add: hashRevisionOpenedFile_def charge_run(2))
  next
    case True
    let ?b = "spend 0 (int (length content)) b"
    let ?h = "writeRevisionRecord h (file_header (join_on slash p) (entry_executable e) (int (length content)))"
    obtain w1 m where w1: "copyN sys fd (int (length content)) ?h w = (Inr (?h @ content), w1)"
      "opened fd w1 = Some (j, m)" "\<forall>other x. other \<noteq> fd \<longrightarrow> opened other w = Some x \<longrightarrow> opened other w1 = Some x"
      using copy_run[OF assms(1,2), of ?h] by auto
    obtain w2 where w2: "revision_context sys w1 = (Inr (), w2)" "kept w1 w2" using context_run by blast
    have "opened fd w2 = Some (j, m)" using w2(2) w1(2) by (simp add: kept_iff)
    then obtain w3 where w3: "observeRevisionOpened sys fd w2 = (Inr e, w3)" "kept w2 w3"
      using opened_run unfolding e_def by blast
    have "admitTreeBytes (ne_size e) b = (Inr (), ?b)" using admit len(1) True by simp
    then have "hashRevisionOpenedFile sys h fd (join_on slash p) e (w, b) =
        (Inr (writeRevisionRecord (?h @ content) [''end-file'']), (w3, ?b))"
      using w1(1) w2(1) w3(1) len(1) by (simp add: hashRevisionOpenedFile_def charge_run(1) sys_bind)
    moreover have "frame fd w w3"
      using w1 w2(2) w3(2) assms(1) by (simp add: frame_def kept_iff)
    ultimately show ?thesis using True by (simp add: outcome_def writeRevisionRecord_eq)
  qed
qed

lemma symlink_run:
  assumes "opened d w = Some (i, n)" "obj i = DirectoryObject listing" "map_of listing name = Some j" "obj j = LinkObject target"
  shows "if int (length target) \<le> maximumRevisionSymlinkBytes
    then \<exists>w'. readRevisionSymlink sys d name (revisionNativeEntryFromStat (status j)) w = (Inr target, w') \<and> kept w w'
    else \<exists>e. readRevisionSymlink sys d name (revisionNativeEntryFromStat (status j)) w = (Inl e, w)"
proof -
  let ?e = "revisionNativeEntryFromStat (status j)"
  have len: "ne_size ?e = int (length target)"
    using status_kind[of j] assms(4) by (auto simp: revisionNativeEntryFromStat_def status_of_kind_def)
  show ?thesis
  proof (cases "int (length target) \<le> maximumRevisionSymlinkBytes")
    case False
    then show ?thesis by (simp add: readRevisionSymlink_def len)
  next
    case True
    let ?k = "max (nat (ne_size ?e) + 1) 256"
    have k: "0 < ?k" "length target < ?k" using len by auto
    obtain w1 where w1: "rs_readlinkat sys d name ?k w = (Inr target, w1)" "kept w w1"
      using readlinkat_child[OF assms k(1)] k(2) by auto
    have "opened d w1 = Some (i, n)" using w1(2) assms(1) by (simp add: kept_iff)
    from child_run[OF this assms(2,3)] obtain w2 where w2: "observeRevisionChild sys d name w1 = (Inr ?e, w2)" "kept w1 w2" by blast
    have "readlink_loop sys d name ?e ?k w = (Inr target, w2)"
      using k w1(1) w2(1) by (subst readlink_loop.simps) (simp add: io_bind_def)
    then show ?thesis using True len w1(2) w2(2) kept_trans
      by (auto simp: readRevisionSymlink_def)
  qed
qed

lemma node_outcome:
  assumes dir: "opened d w = Some (i, n)" "obj i = DirectoryObject listing" "map_of listing name = Some j"
    and node: "denotes obj status j node" and path: "components p" "component name"
    and b: "budget_ok b" "0 \<le> depth" "depth \<le> maximumTreeDepth (tb_limits b)"
    and descend: "\<And>es v child h. node = DirectoryNode es \<Longrightarrow> depth + 1 \<le> maximumTreeDepth (tb_limits b) \<Longrightarrow>
      opened child v = Some (j, 0) \<Longrightarrow>
      outcome (frame child) (tree_fits es (depth + 1) b) v (h @ items_stream (entries_items (p @ [name]) es))
        (spend (int (length es) + entries_below es) (bytes_below es) b)
        (descend h child (path_text (p @ [name])) (depth + 1) (v, b))"
  shows "outcome kept (node_fits node depth b) w (h @ items_stream (node_items (p @ [name]) node))
    (spend (node_entries node) (node_bytes node) b) (hash_entry descend sys d (path_text p) depth h name (w, b))"
proof -
  let ?e = "revisionNativeEntryFromStat (status j)" and ?path = "join_on slash (p @ [name])"
  obtain w1 where w1: "revision_context sys w = (Inr (), w1)" "kept w w1" using context_run by blast
  have at1: "opened d w1 = Some (i, n)" using w1(2) dir(1) by (simp add: kept_iff)
  obtain w2 where w2: "observeRevisionChild sys d name w1 = (Inr ?e, w2)" "kept w1 w2" using child_run[OF at1 dir(2,3)] by blast
  have at2: "opened d w2 = Some (i, n)" using w2(2) at1 by (simp add: kept_iff)
  have run: "hash_entry descend sys d (path_text p) depth h name (w, b) = hash_child descend sys d ?path depth h name ?e (w2, b)"
    by (simp add: hash_entry_def Let_def relative_components[OF path] sys_runs w1(1) w2(1))
  note from_w2 = outcome_kept[OF _ kept_trans[OF w1(2) w2(2)]]
  have spelled: "path_text (p @ [name]) = ?path" by (simp add: path_text_def)
  show ?thesis unfolding run
  proof (rule from_w2, cases node)
    case (LinkNode target)
    then have link: "obj j = LinkObject target" using node by simp
    note read = symlink_run[OF at2 dir(2,3) link]
    show "outcome kept (node_fits node depth b) w2 (h @ items_stream (node_items (p @ [name]) node))
      (spend (node_entries node) (node_bytes node) b) (hash_child descend sys d ?path depth h name ?e (w2, b))"
    proof (cases "int (length target) \<le> maximumRevisionSymlinkBytes")
      case True
      then obtain w3 where w3: "readRevisionSymlink sys d name ?e w2 = (Inr target, w3)" "kept w2 w3" using read by auto
      have "node_fits node depth b" using LinkNode True b by (simp add: node_fits_def)
      then show ?thesis using LinkNode link w3
        by (auto simp: sys_runs hash_child_def kind_tests outcome_def writeRevisionRecord_eq items_stream_def)
    next
      case False
      then obtain e where e: "readRevisionSymlink sys d name ?e w2 = (Inl e, w2)" using read by auto
      have "\<not> node_fits node depth b" using LinkNode False by (simp add: node_fits_def)
      then show ?thesis using LinkNode link by (simp add: sys_runs e hash_child_def kind_tests)
    qed
  next
    case SpecialNode
    then have "obj j = SpecialObject" "\<not> node_fits node depth b" using node by (simp_all add: node_fits_def)
    then show "outcome kept (node_fits node depth b) w2 (h @ items_stream (node_items (p @ [name]) node))
      (spend (node_entries node) (node_bytes node) b) (hash_child descend sys d ?path depth h name ?e (w2, b))"
      by (simp add: hash_child_def kind_tests)
  next
    case (RegularNode x content)
    then have plain: "obj j = RegularObject content" "x = entry_executable ?e" using node by simp_all
    obtain fd w3 where w3: "openRevisionChild sys d name ?e w2 = (Inr fd, w3)" "kept w2 w3" "opened fd w2 = None"
      "opened fd w3 = Some (j, 0)"
      using open_run[OF at2 dir(2,3)] plain by blast
    have fits: "node_fits node depth b \<longleftrightarrow> budget_ok (spend 0 (int (length content)) b)"
      using RegularNode b by (simp add: node_fits_def)
    have step: "hash_child descend sys d ?path depth h name ?e (w2, b) = with_child sys fd
        (io_bind (hashRevisionOpenedFile sys h fd ?path ?e) (\<lambda>hasher.
         io_bind (sys_call (verifyRevisionChild sys d name fd ?e)) (\<lambda>_. io_return hasher))) (w3, b)"
      using plain by (simp add: hash_child_def kind_tests sys_runs w3(1))
    show "outcome kept (node_fits node depth b) w2 (h @ items_stream (node_items (p @ [name]) node))
      (spend (node_entries node) (node_bytes node) b) (hash_child descend sys d ?path depth h name ?e (w2, b))"
      unfolding step fits
      using child_outcome[where body = "hashRevisionOpenedFile sys h fd ?path ?e", OF at2 dir(2,3) w3(2-4) file_outcome[OF w3(4) plain(1) b(1), of h "p @ [name]"]]
      by (simp only: RegularNode plain(2) node_items.simps node_entries.simps node_bytes.simps items_stream_def list.map concat.simps append_Nil2)
  next
    case (DirectoryNode es)
    then obtain inner where sub: "obj j = DirectoryObject inner" using node by (auto split: object.splits)
    show "outcome kept (node_fits node depth b) w2 (h @ items_stream (node_items (p @ [name]) node))
      (spend (node_entries node) (node_bytes node) b) (hash_child descend sys d ?path depth h name ?e (w2, b))"
    proof (cases "depth + 1 \<le> maximumTreeDepth (tb_limits b)")
      case False
      then have "\<not> node_fits node depth b" using DirectoryNode node_fits_directory[OF b(1)] by simp
      moreover have "admitDirectoryDepth (depth + 1) b = (Inl (RevisionLimitError RevisionLimitTreeDepth
          (maximumTreeDepth (tb_limits b)) (depth + 1)), b)"
        using False b depth_admission[of "depth + 1" b] by simp
      ultimately show ?thesis using sub by (simp add: hash_child_def kind_tests charge_run(2))
    next
      case True
      then have fits: "node_fits node depth b \<longleftrightarrow> tree_fits es (depth + 1) b"
        using DirectoryNode node_fits_directory[OF b(1)] by simp
      have admit: "admitDirectoryDepth (depth + 1) b = (Inr (), b)"
        using True b depth_admission[of "depth + 1" b] by simp
      obtain fd w3 where w3: "openRevisionChild sys d name ?e w2 = (Inr fd, w3)" "kept w2 w3" "opened fd w2 = None"
        "opened fd w3 = Some (j, 0)"
        using open_run[OF at2 dir(2,3)] sub by blast
      let ?h = "writeRevisionRecord h [''directory'', ?path]"
      have step: "hash_child descend sys d ?path depth h name ?e (w2, b) = with_child sys fd
          (io_bind (descend ?h fd ?path (depth + 1)) (\<lambda>hasher.
           io_bind (sys_call (verifyRevisionChild sys d name fd ?e)) (\<lambda>_. io_return hasher))) (w3, b)"
        using sub admit by (simp add: hash_child_def kind_tests charge_run(1) sys_runs w3(1))
      have stream: "h @ items_stream (node_items (p @ [name]) node) = ?h @ items_stream (entries_items (p @ [name]) es)"
        by (simp add: DirectoryNode items_stream_def writeRevisionRecord_eq)
      show ?thesis unfolding step fits stream
        using child_outcome[where body = "descend ?h fd ?path (depth + 1)", OF at2 dir(2,3) w3(2-4) descend[OF DirectoryNode True w3(4), of ?h, unfolded spelled]]
        by (simp only: DirectoryNode node_entries.simps node_bytes.simps)
    qed
  qed
qed

text \<open>A directory, once its entries are known to be hashed.\<close>

lemma directory_outcome:
  assumes dir: "opened d w = Some (i, 0)" "obj i = DirectoryObject listing" "map fst es = sort (map fst listing)"
    and b: "budget_ok b" "maximumTreeEntries (tb_limits b) < go_max_int" "maximumOperationEntries (tb_limits b) < go_max_int"
    and entries: "\<And>v m. opened d v = Some (i, m) \<Longrightarrow> budget_ok (spend (int (length es)) 0 b) \<Longrightarrow>
      outcome kept (entries_fit es depth (spend (int (length es)) 0 b)) v (h @ items_stream (entries_items p es))
        (spend (entries_below es) (bytes_below es) (spend (int (length es)) 0 b))
        (io_fold (hash_entry (hashRevisionDirectoryEntries fuel sys) sys d (path_text p) depth) h (map fst es)
          (v, spend (int (length es)) 0 b))"
  shows "outcome (frame d) (tree_fits es depth b) w (h @ items_stream (entries_items p es))
    (spend (int (length es) + entries_below es) (bytes_below es) b)
    (hashRevisionDirectoryEntries (Suc fuel) sys h d (path_text p) depth (w, b))"
proof -
  let ?cap = "remainingEntries b" and ?all = "map fst listing"
  have cap: "0 \<le> ?cap" "?cap + 1 \<le> go_max_int" "tb_entries b + (?cap + 1) \<le> go_max_int"
    "ob_entries (tb_operation b) + (?cap + 1) \<le> go_max_int"
    using b budget_remaining(4)[OF b(1)] by (auto simp: budget_ok_def min_def)
  have fit: "budget_ok (spend k 0 b) \<longleftrightarrow> k \<le> ?cap" if "0 \<le> k" for k
    using that b(1) budget_remaining(4)[OF b(1)] by (auto simp: budget_ok_def spend_def)
  obtain w1 where w1: "read_names_loop sys d ?cap [] w = (Inr (take (nat (?cap + 1)) ?all), w1)" "frame d w w1"
    using names_run[OF dir(1,2), of ?cap] cap by auto
  let ?names = "sort (take (nat (?cap + 1)) ?all)"
  have names: "readRevisionDirectoryNames sys d ?cap w = (Inr ?names, w1)"
    using w1(1) cap(1) by (simp add: readRevisionDirectoryNames_def io_bind_def)
  have len: "length es = length listing" using arg_cong[OF dir(3), of length] by simp
  have start: "hashRevisionDirectoryEntries (Suc fuel) sys h d (path_text p) depth (w, b) =
      io_bind (charge (admitEntries (int (length ?names)))) (\<lambda>_.
        if ?cap < int (length ?names) then io_return h
        else io_fold (hash_entry (hashRevisionDirectoryEntries fuel sys) sys d (path_text p) depth) h ?names) (w1, b)"
    using names by (simp add: admit_directory_def io_bind_def budget_of_def sys_call_def charge_def split: prod.split sum.split)
  show ?thesis
  proof (cases "int (length es) \<le> ?cap")
    case True
    then have all: "take (nat (?cap + 1)) ?all = ?all" using len by simp
    have ok: "budget_ok (spend (int (length es)) 0 b)" using True fit by simp
    have "admitEntries (int (length es)) b = (Inr (), spend (int (length es)) 0 b)"
      using admissions_spend(2)[OF b(1), of "int (length es)"] ok True cap by simp
    then have run: "hashRevisionDirectoryEntries (Suc fuel) sys h d (path_text p) depth (w, b) =
        io_fold (hash_entry (hashRevisionDirectoryEntries fuel sys) sys d (path_text p) depth) h (map fst es)
          (w1, spend (int (length es)) 0 b)"
      unfolding start all dir(3)[symmetric] using True by (simp add: charge_run(1))
    obtain m where "opened d w1 = Some (i, m)" using frame_opened[OF w1(2) dir(1)] by blast
    note rest = entries[OF this ok]
    have "tree_fits es depth b \<longleftrightarrow> entries_fit es depth (spend (int (length es)) 0 b)"
      using tree_fits_eq[OF b(1)] ok by simp
    then show ?thesis using rest w1(2) frame_trans kept_frame unfolding run outcome_def
      by (auto split: if_splits)
  next
    case False
    then have "\<not> tree_fits es depth b" using tree_fits_eq[OF b(1)] fit by simp
    moreover have "int (length ?names) = ?cap + 1" using False len cap(1) by simp
    then have "admitEntries (int (length ?names)) b = (Inl (work_error (WorkEntries (?cap + 1)) b), b)"
      using admissions_spend(2)[OF b(1), of "?cap + 1"] cap fit[of "?cap + 1"] by simp
    ultimately show ?thesis unfolding start by (simp add: charge_run(2))
  qed
qed

lemma tree_outcome:
  shows "\<And>p name fuel d w i n listing j h b depth. q = p @ [name] \<Longrightarrow> opened d w = Some (i, n) \<Longrightarrow>
      obj i = DirectoryObject listing \<Longrightarrow> map_of listing name = Some j \<Longrightarrow> denotes obj status j node \<Longrightarrow>
      components p \<Longrightarrow> component name \<Longrightarrow> budget_ok b \<Longrightarrow> maximumTreeEntries (tb_limits b) < go_max_int \<Longrightarrow>
      maximumOperationEntries (tb_limits b) < go_max_int \<Longrightarrow> 0 \<le> depth \<Longrightarrow> depth \<le> maximumTreeDepth (tb_limits b) \<Longrightarrow>
      maximumTreeDepth (tb_limits b) < depth + 1 + int fuel \<Longrightarrow>
      outcome kept (node_fits node depth b) w (h @ items_stream (node_items q node))
        (spend (node_entries node) (node_bytes node) b)
        (hash_entry (hashRevisionDirectoryEntries fuel sys) sys d (path_text p) depth h name (w, b))"
    and "\<And>fuel d w i n listing h b depth. opened d w = Some (i, n) \<Longrightarrow>
      obj i = DirectoryObject listing \<Longrightarrow> entries_denote obj status listing es \<Longrightarrow>
      components p \<Longrightarrow> budget_ok b \<Longrightarrow> maximumTreeEntries (tb_limits b) < go_max_int \<Longrightarrow>
      maximumOperationEntries (tb_limits b) < go_max_int \<Longrightarrow> 0 \<le> depth \<Longrightarrow> depth \<le> maximumTreeDepth (tb_limits b) \<Longrightarrow>
      maximumTreeDepth (tb_limits b) < depth + 1 + int fuel \<Longrightarrow>
      outcome kept (entries_fit es depth b) w (h @ items_stream (entries_items p es))
        (spend (entries_below es) (bytes_below es) b)
        (io_fold (hash_entry (hashRevisionDirectoryEntries fuel sys) sys d (path_text p) depth) h (map fst es) (w, b))"
proof (induction q node and p es rule: node_items_entries_items.induct)
  case (1 q x content)
  then show ?case using node_outcome[OF 1(2-5)] by simp
next
  case (2 q target)
  then show ?case using node_outcome[OF 2(2-5)] by simp
next
  case (4 q)
  then show ?case using node_outcome[OF 4(2-5)] by simp
next
  case (3 q es)
  obtain inner where sub: "obj j = DirectoryObject inner" "map fst es = sort (map fst inner)" "entries_denote obj status inner es"
    using 3(6) by (auto split: object.splits)
  show ?case unfolding 3(2)
  proof (rule node_outcome[OF 3(3-6)])
    fix es' v child h'
    assume es': "DirectoryNode es = DirectoryNode es'" and deeper: "depth + 1 \<le> maximumTreeDepth (tb_limits b)"
      and child: "opened child v = Some (j, 0)"
    then obtain fuel' where fuel: "fuel = Suc fuel'" using 3(14) by (cases fuel) auto
    have es: "es' = es" using es' by simp
    show "outcome (frame child) (tree_fits es' (depth + 1) b) v (h' @ items_stream (entries_items (p @ [name]) es'))
      (spend (int (length es') + entries_below es') (bytes_below es') b)
      (hashRevisionDirectoryEntries fuel sys h' child (path_text (p @ [name])) (depth + 1) (v, b))"
      unfolding fuel es
    proof (rule directory_outcome[OF child sub(1,2)])
      fix v' m
      assume at: "opened child v' = Some (j, m)" and ok: "budget_ok (spend (int (length es)) 0 b)"
      have path: "components (p @ [name])" using 3(7,8) by (simp add: components_def)
      show "outcome kept (entries_fit es (depth + 1) (spend (int (length es)) 0 b)) v'
        (h' @ items_stream (entries_items (p @ [name]) es))
        (spend (entries_below es) (bytes_below es) (spend (int (length es)) 0 b))
        (io_fold (hash_entry (hashRevisionDirectoryEntries fuel' sys) sys child (path_text (p @ [name])) (depth + 1)) h'
          (map fst es) (v', spend (int (length es)) 0 b))"
        using 3(1)[OF at sub(1,3) _ ok, of "depth + 1" fuel' h'] path deeper 3(10-14) fuel 3(2) by simp
    qed (use 3 in simp_all)
  qed (use 3 in simp_all)
next
  case (5 p)
  then show ?case by (simp add: outcome_def entries_fit_def items_stream_def kept_iff)
next
  case (6 p name node es)
  obtain j where j: "map_of listing name = Some j" "denotes obj status j node" "entries_denote obj status listing es"
    using 6(5) by (auto split: option.splits)
  have name: "component name"
    using status_kind[of i] 6(4) map_of_SomeD[OF j(1)] by (force simp: status_of_kind_def list_all_iff)
  let ?f = "hash_entry (hashRevisionDirectoryEntries fuel sys) sys d (path_text p) depth"
  let ?h = "h @ items_stream (node_items (p @ [name]) node)" and ?b = "spend (node_entries node) (node_bytes node) b"
  have "outcome kept (node_fits node depth b) w ?h ?b (?f h name (w, b))"
    using 6(1)[OF refl 6(3,4) j(1,2) 6(6) name 6(7-12)] .
  then have "outcome kept (entries_fit ((name, node) # es) depth b) w (?h @ items_stream (entries_items p es))
      (spend (entries_below es) (bytes_below es) ?b) (io_bind (?f h name) (\<lambda>a. io_fold ?f a (map fst es)) (w, b))"
  proof (rule outcome_bind)
    fix w1
    assume fits: "node_fits node depth b" and w1: "kept w w1"
    have at: "opened d w1 = Some (i, n)" using w1 6(3) by (simp add: kept_iff)
    have ok: "budget_ok ?b" using fits by (simp add: node_fits_def)
    have "entries_fit ((name, node) # es) depth b \<longleftrightarrow> entries_fit es depth ?b"
      using entries_fit_Cons[OF 6(7)] fits by simp
    then show "outcome kept (entries_fit ((name, node) # es) depth b) w (?h @ items_stream (entries_items p es))
        (spend (entries_below es) (bytes_below es) ?b) (io_fold ?f ?h (map fst es) (w1, ?b))"
      using 6(2)[OF at 6(4) j(3) 6(6) ok, of depth fuel ?h] 6(8-12) w1 outcome_kept by simp
  qed (use entries_fit_Cons[OF 6(7)] in simp)
  then show ?case by (simp add: items_stream_def)
qed

text \<open>The whole tree from its root.\<close>

lemma root_outcome:
  assumes "opened d w = Some (i, 0)" "denotes obj status i (DirectoryNode es)"
    and b: "budget_ok b" "maximumTreeEntries (tb_limits b) < go_max_int" "maximumOperationEntries (tb_limits b) < go_max_int"
  shows "outcome (frame d) (tree_fits es 0 b) w (h @ tree_stream es)
    (spend (int (length es) + entries_below es) (bytes_below es) b)
    (hashRevisionDirectoryEntries (tree_fuel b) sys h d ''.'' 0 (w, b))"
proof -
  obtain listing where sub: "obj i = DirectoryObject listing" "map fst es = sort (map fst listing)"
    "entries_denote obj status listing es"
    using assms(2) by (auto split: object.splits)
  have depth: "0 \<le> maximumTreeDepth (tb_limits b)" using b(1) by (simp add: budget_ok_def limits_ok_def)
  have "outcome (frame d) (tree_fits es 0 b) w (h @ items_stream (entries_items [] es))
      (spend (int (length es) + entries_below es) (bytes_below es) b)
      (hashRevisionDirectoryEntries (Suc (nat (maximumTreeDepth (tb_limits b)))) sys h d (path_text []) 0 (w, b))"
  proof (rule directory_outcome[OF assms(1) sub(1,2) b])
    fix v m
    assume at: "opened d v = Some (i, m)" and ok: "budget_ok (spend (int (length es)) 0 b)"
    show "outcome kept (entries_fit es 0 (spend (int (length es)) 0 b)) v (h @ items_stream (entries_items [] es))
        (spend (entries_below es) (bytes_below es) (spend (int (length es)) 0 b))
        (io_fold (hash_entry (hashRevisionDirectoryEntries (nat (maximumTreeDepth (tb_limits b))) sys) sys d (path_text []) 0) h
          (map fst es) (v, spend (int (length es)) 0 b))"
      using b(2,3) depth by (intro tree_outcome(2)[OF at sub(1,3) _ ok]) (simp_all add: components_def)
  qed
  then show ?thesis by (simp add: tree_fuel_def tree_stream_def path_text_def)
qed

lemma denoted_ok:
  "denotes obj status i node \<Longrightarrow> hashable node \<Longrightarrow> node_ok node"
  "entries_denote obj status listing es \<Longrightarrow> list_all component (map fst listing) \<Longrightarrow> all_hashable es \<Longrightarrow> listing_ok es"
proof (induction node and es arbitrary: i and listing rule: node_ok_listing_ok.induct)
  case (1 es)
  then obtain inner where inner: "obj i = DirectoryObject inner" "map fst es = sort (map fst inner)"
    "entries_denote obj status inner es"
    by (auto split: object.splits)
  then have "list_all component (map fst inner)" "distinct (map fst inner)"
    using status_kind[of i] by (simp_all add: status_of_kind_def)
  then show ?case using 1 inner by simp
next
  case (5 name node es)
  then obtain j where j: "map_of listing name = Some j" "denotes obj status j node"
    by (auto split: option.splits)
  have "component name" using 5(4) map_of_SomeD[OF j(1)] by (force simp: list_all_iff)
  then show ?case using 5 j by simp
qed simp_all

lemma denoted_directory_ok:
  assumes "denotes obj status i (DirectoryNode es)" "all_hashable es"
  shows "listing_ok es \<and> distinct (map fst es)"
  using denoted_ok(1)[OF assms(1)] assms(2) by simp

end

end
