(* ===== verification/QuietWorld.thy ===== *)
theory QuietWorld
  imports RevisionQuiet
begin

text \<open>
  A kernel that provides what \<open>quiet_files\<close> asks for, and the guarantees of tree revisions stated for every
  such kernel: which trees are hashed, and that equal hash streams mean equal trees.
\<close>

section \<open>A kernel of immutable objects\<close>


text \<open>Objects never change; descriptors below \<open>qw_next\<close> are an object and a position. Listings and reads return
  at most \<open>chunk\<close> elements at a time.\<close>

record quiet_world =
  qw_files :: "nat \<Rightarrow> (nat \<times> nat) option"
  qw_next :: nat

definition quiet_opened :: "nat \<Rightarrow> quiet_world \<Rightarrow> (nat \<times> nat) option" where
  "quiet_opened fd w = (if fd < qw_next w then qw_files w fd else None)"

definition quiet_open :: "nat \<Rightarrow> quiet_world \<Rightarrow> (osError + nat) \<times> quiet_world" where
  "quiet_open j w = (Inr (qw_next w), w\<lparr>qw_files := (qw_files w)(qw_next w := Some (j, 0)), qw_next := qw_next w + 1\<rparr>)"

definition bad_descriptor :: osError where
  "bad_descriptor = Errno 9"

definition quiet_stat :: "(nat \<Rightarrow> Stat_t) \<Rightarrow> nat \<Rightarrow> (quiet_world, osError, Stat_t) io" where
  "quiet_stat status fd w = (case quiet_opened fd w of Some (i, _) \<Rightarrow> (Inr (status i), w) | None \<Rightarrow> (Inl bad_descriptor, w))"

definition quiet_entry :: "(nat \<Rightarrow> nat object) \<Rightarrow> nat \<Rightarrow> string \<Rightarrow> quiet_world \<Rightarrow> osError + nat" where
  "quiet_entry obj d name w = (case quiet_opened d w of
     Some (i, _) \<Rightarrow> (case obj i of
         DirectoryObject listing \<Rightarrow> (case map_of listing name of Some j \<Rightarrow> Inr j | None \<Rightarrow> Inl ENOENT)
       | _ \<Rightarrow> Inl (Errno 20))
   | None \<Rightarrow> Inl bad_descriptor)"

definition quiet_fstatat :: "(nat \<Rightarrow> nat object) \<Rightarrow> (nat \<Rightarrow> Stat_t) \<Rightarrow> nat \<Rightarrow> string \<Rightarrow> (quiet_world, osError, Stat_t) io" where
  "quiet_fstatat obj status d name w = (case quiet_entry obj d name w of Inl e \<Rightarrow> (Inl e, w) | Inr j \<Rightarrow> (Inr (status j), w))"

definition quiet_openat :: "(nat \<Rightarrow> nat object) \<Rightarrow> nat \<Rightarrow> string \<Rightarrow> bool \<Rightarrow> (quiet_world, osError, nat) io" where
  "quiet_openat obj d name directory w = (case quiet_entry obj d name w of
       Inl e \<Rightarrow> (Inl e, w)
     | Inr j \<Rightarrow> (case obj j of
           LinkObject _ \<Rightarrow> (Inl ELOOP, w)
         | RegularObject _ \<Rightarrow> if directory then (Inl (Errno 20), w) else quiet_open j w
         | _ \<Rightarrow> quiet_open j w))"

definition quiet_close :: "nat \<Rightarrow> (quiet_world, osError, unit) io" where
  "quiet_close fd w = (case quiet_opened fd w of
     Some _ \<Rightarrow> (Inr (), w\<lparr>qw_files := (qw_files w)(fd := None)\<rparr>) | None \<Rightarrow> (Inl bad_descriptor, w))"

text \<open>The next elements of an open object, and the position after them.\<close>

definition quiet_take :: "nat \<Rightarrow> nat \<Rightarrow> nat \<Rightarrow> nat \<Rightarrow> nat \<Rightarrow> 'a list \<Rightarrow> quiet_world \<Rightarrow> ('a list \<times> readFailure option) \<times> quiet_world" where
  "quiet_take chunk k fd i n xs w =
     (let taken = take (min k chunk) (drop n xs) in
      ((taken, if taken = [] then Some EOF else None),
       w\<lparr>qw_files := (qw_files w)(fd := Some (i, n + length taken))\<rparr>))"

definition quiet_read :: "nat \<Rightarrow> (nat \<Rightarrow> nat object) \<Rightarrow> nat \<Rightarrow> nat \<Rightarrow> quiet_world \<Rightarrow> (string \<times> readFailure option) \<times> quiet_world" where
  "quiet_read chunk obj fd k w = (case quiet_opened fd w of
     Some (i, n) \<Rightarrow> (case obj i of
         RegularObject content \<Rightarrow> quiet_take chunk k fd i n content w
       | _ \<Rightarrow> (([], Some (ReadError (Errno 21))), w))
   | None \<Rightarrow> (([], Some (ReadError bad_descriptor)), w))"

definition quiet_readdir :: "nat \<Rightarrow> (nat \<Rightarrow> nat object) \<Rightarrow> nat \<Rightarrow> nat \<Rightarrow> quiet_world \<Rightarrow> (string list \<times> readFailure option) \<times> quiet_world" where
  "quiet_readdir chunk obj fd k w = (case quiet_opened fd w of
     Some (i, n) \<Rightarrow> (case obj i of
         DirectoryObject listing \<Rightarrow> quiet_take chunk k fd i n (map fst listing) w
       | _ \<Rightarrow> (([], Some (ReadError (Errno 20))), w))
   | None \<Rightarrow> (([], Some (ReadError bad_descriptor)), w))"

definition quiet_readlinkat :: "(nat \<Rightarrow> nat object) \<Rightarrow> nat \<Rightarrow> string \<Rightarrow> nat \<Rightarrow> (quiet_world, osError, string) io" where
  "quiet_readlinkat obj d name k w = (case quiet_entry obj d name w of
       Inl e \<Rightarrow> (Inl e, w)
     | Inr j \<Rightarrow> (case obj j of LinkObject target \<Rightarrow> (Inr (take k target), w) | _ \<Rightarrow> (Inl (Errno 22), w)))"

definition absent :: "string \<Rightarrow> (quiet_world, osError, 'a) io" where
  "absent path w = (Inl ENOENT, w)"

text \<open>Every path names the directory 0.\<close>

definition root_info :: "(nat \<Rightarrow> Stat_t) \<Rightarrow> string \<Rightarrow> (quiet_world, osError, FileInfo) io" where
  "root_info status path w = (Inr (file_info (status 0)), w)"

definition quiet_system ::
  "(nat \<Rightarrow> nat object) \<Rightarrow> (nat \<Rightarrow> Stat_t) \<Rightarrow> nat \<Rightarrow> quiet_world revision_system" where
  "quiet_system obj status chunk = \<lparr>
     rs_files = \<lparr>px_ctx = io_return (), px_lstat = root_info status, px_stat = root_info status, px_readlink = absent,
       px_open = (\<lambda>path _. absent path), px_fstat = (\<lambda>fd. io_bind (quiet_stat status fd) (\<lambda>s. io_return (file_info s))),
       px_read = quiet_read chunk obj, px_close = quiet_close, px_fstatat = quiet_fstatat obj status,
       px_openat = (\<lambda>d name. quiet_openat obj d name False)\<rparr>,
     rs_opendir = (\<lambda>_. quiet_open 0), rs_readdirnames = quiet_readdir chunk obj, rs_openat = quiet_openat obj,
     rs_fstat = quiet_stat status, rs_readlinkat = quiet_readlinkat obj\<rparr>"

definition quiet_kept :: "quiet_world \<Rightarrow> quiet_world \<Rightarrow> bool" where
  "quiet_kept w w' \<longleftrightarrow> (\<forall>fd x. quiet_opened fd w = Some x \<longrightarrow> quiet_opened fd w' = Some x)"

lemma quiet_open_law:
  "quiet_open j w = (Inr fd, w') \<Longrightarrow>
     quiet_kept w w' \<and> quiet_opened fd w = None \<and> quiet_opened fd w' = Some (j, 0)"
  by (auto simp: quiet_open_def quiet_kept_def quiet_opened_def)

lemma quiet_kept_refl: "quiet_kept w w"
  by (simp add: quiet_kept_def)

lemma quiet_take_law:
  assumes "quiet_opened fd w = Some (i, n)" "0 < k" "0 < chunk"
  shows "\<exists>taken failure w'. quiet_take chunk k fd i n xs w = ((taken, failure), w') \<and> length taken \<le> k \<and>
    taken = take (length taken) (drop n xs) \<and>
    (if length xs \<le> n then taken = [] \<and> failure = Some EOF else taken \<noteq> [] \<and> failure = None) \<and>
    quiet_opened fd w' = Some (i, n + length taken) \<and> (\<forall>other. other \<noteq> fd \<longrightarrow> quiet_opened other w' = quiet_opened other w)"
proof -
  let ?taken = "take (min k chunk) (drop n xs)"
  have prefix: "take m ys = take (length (take m ys)) ys" for m and ys :: "'a list" by (simp add: min_def)
  have "quiet_take chunk k fd i n xs w = ((?taken, if ?taken = [] then Some EOF else None),
      w\<lparr>qw_files := (qw_files w)(fd := Some (i, n + length ?taken))\<rparr>)"
    by (simp add: quiet_take_def Let_def)
  moreover have "length ?taken \<le> k" by simp
  moreover have "?taken = [] \<longleftrightarrow> length xs \<le> n" using assms(2,3) by auto
  ultimately show ?thesis using assms(1) prefix[of "min k chunk" "drop n xs"]
    by (intro exI[of _ ?taken] exI[of _ "if ?taken = [] then Some EOF else None"] exI conjI)
      (auto simp: quiet_opened_def split: if_splits)
qed

lemma quiet_entry_found:
  "quiet_opened d w = Some (i, n) \<Longrightarrow> obj i = DirectoryObject listing \<Longrightarrow> map_of listing name = Some j \<Longrightarrow>
     quiet_entry obj d name w = Inr j"
  by (simp add: quiet_entry_def)

lemma serene_calls [simp]:
  "px_ctx (rs_files (quiet_system obj status chunk)) = io_return ()"
  "px_read (rs_files (quiet_system obj status chunk)) = quiet_read chunk obj"
  "px_close (rs_files (quiet_system obj status chunk)) = quiet_close"
  "px_fstatat (rs_files (quiet_system obj status chunk)) = quiet_fstatat obj status"
  "rs_readdirnames (quiet_system obj status chunk) = quiet_readdir chunk obj"
  "rs_openat (quiet_system obj status chunk) = quiet_openat obj"
  "rs_fstat (quiet_system obj status chunk) = quiet_stat status"
  "rs_readlinkat (quiet_system obj status chunk) = quiet_readlinkat obj"
  by (simp_all add: quiet_system_def)

lemma quiet_system_files:
  assumes "\<And>i. status_of_kind (obj i) (status i)" "0 < chunk"
  shows "quiet_files (quiet_system obj status chunk) obj status quiet_opened quiet_kept"
proof (unfold_locales, unfold serene_calls)
  show "quiet_kept w w' \<longleftrightarrow> (\<forall>fd x. quiet_opened fd w = Some x \<longrightarrow> quiet_opened fd w' = Some x)" for w w'
    by (rule quiet_kept_def)
  show "status_of_kind (obj i) (status i)" for i by (rule assms(1))
  show "\<exists>w'. io_return () w = (Inr (), w') \<and> quiet_kept w w'" for w by (simp add: quiet_kept_refl)
  show "\<exists>w'. quiet_fstatat obj status d name w = (Inr (status j), w') \<and> quiet_kept w w'"
    if "quiet_opened d w = Some (i, n)" "obj i = DirectoryObject listing" "map_of listing name = Some j" for d w i n listing name j
    using quiet_entry_found[of d w i n obj] that by (simp add: quiet_fstatat_def quiet_kept_refl)
  show "\<exists>w'. quiet_stat status fd w = (Inr (status i), w') \<and> quiet_kept w w'"
    if "quiet_opened fd w = Some (i, n)" for fd w i n
    using that by (simp add: quiet_stat_def quiet_kept_refl)
  show "\<exists>fd w'. quiet_openat obj d name directory w = (Inr fd, w') \<and> quiet_kept w w' \<and> quiet_opened fd w = None \<and>
      quiet_opened fd w' = Some (j, 0)"
    if "quiet_opened d w = Some (i, n)" "obj i = DirectoryObject listing" "map_of listing name = Some j"
      "case obj j of RegularObject _ \<Rightarrow> \<not> directory | DirectoryObject _ \<Rightarrow> directory | _ \<Rightarrow> False"
    for d w i n listing name j directory
  proof -
    have "quiet_openat obj d name directory w = quiet_open j w"
      using quiet_entry_found[of d w i n obj] that by (simp add: quiet_openat_def split: object.splits)
    then show ?thesis using quiet_open_law by (simp add: quiet_open_def)
  qed
  show "\<exists>w'. quiet_close fd w = (Inr (), w') \<and> (\<forall>other. other \<noteq> fd \<longrightarrow> quiet_opened other w' = quiet_opened other w)"
    if "quiet_opened fd w = Some x" for fd w x
    using that by (simp add: quiet_close_def quiet_opened_def)
  show "\<exists>batch failure w'. quiet_readdir chunk obj d k w = ((batch, failure), w') \<and> length batch \<le> k \<and>
      batch = take (length batch) (drop n (map fst listing)) \<and>
      (if length listing \<le> n then batch = [] \<and> failure = Some EOF else batch \<noteq> [] \<and> failure = None) \<and>
      quiet_opened d w' = Some (i, n + length batch) \<and> (\<forall>other. other \<noteq> d \<longrightarrow> quiet_opened other w' = quiet_opened other w)"
    if "quiet_opened d w = Some (i, n)" "obj i = DirectoryObject listing" "0 < k" for d w i n listing k
    using quiet_take_law[OF that(1,3) assms(2), of "map fst listing"] that by (simp add: quiet_readdir_def)
  show "\<exists>bytes failure w'. quiet_read chunk obj fd k w = ((bytes, failure), w') \<and> length bytes \<le> k \<and>
      bytes = take (length bytes) (drop n content) \<and>
      (if length content \<le> n then bytes = [] \<and> failure = Some EOF else bytes \<noteq> [] \<and> failure = None) \<and>
      quiet_opened fd w' = Some (i, n + length bytes) \<and> (\<forall>other. other \<noteq> fd \<longrightarrow> quiet_opened other w' = quiet_opened other w)"
    if "quiet_opened fd w = Some (i, n)" "obj i = RegularObject content" "0 < k" for fd w i n content k
    using quiet_take_law[OF that(1,3) assms(2), of content] that by (simp add: quiet_read_def)
  show "\<exists>w'. quiet_readlinkat obj d name k w = (Inr (take k target), w') \<and> quiet_kept w w'"
    if "quiet_opened d w = Some (i, n)" "obj i = DirectoryObject listing" "map_of listing name = Some j"
      "obj j = LinkObject target" "0 < k" for d w i n listing name j target k
    using quiet_entry_found[of d w i n obj] that by (simp add: quiet_readlinkat_def quiet_kept_refl)
qed

section \<open>Tree revisions\<close>

definition sample_objects :: "nat \<Rightarrow> nat object" where
  "sample_objects i =
     (if i = 0 then DirectoryObject [(''b'', 1), (''a'', 2)]
      else if i = 1 then RegularObject ''hello''
      else if i = 2 then DirectoryObject [(''link'', 3)]
      else if i = 3 then LinkObject ''../b''
      else SpecialObject)"

definition sample_status :: "nat \<Rightarrow> Stat_t" where
  "sample_status i = \<lparr>st_dev = 1, st_ino = of_nat i,
     st_mode = (if i = 0 then 0x41ED else if i = 1 then 0x81ED else if i = 2 then 0x41ED else if i = 3 then 0xA1FF else 0x11A4),
     st_size = (if i = 1 then 5 else if i = 3 then 4 else 0),
     st_mtim = \<lparr>cv_seconds = 0, cv_nanoseconds = 0\<rparr>, st_ctim = \<lparr>cv_seconds = 0, cv_nanoseconds = 0\<rparr>\<rparr>"

lemma sample_kind: "status_of_kind (sample_objects i) (sample_status i)"
  by (simp add: status_of_kind_def sample_objects_def sample_status_def S_IFMT_def S_IFREG_def S_IFLNK_def S_IFDIR_def
      go_max_int_def component_def)

interpretation sample_files: quiet_files "quiet_system sample_objects sample_status 2" sample_objects sample_status
  quiet_opened quiet_kept
  by (rule quiet_system_files) (simp_all add: sample_kind)

definition sample_tree :: "(string \<times> fileNode) list" where
  "sample_tree = [(''a'', DirectoryNode [(''link'', LinkNode ''../b'')]), (''b'', RegularNode True ''hello'')]"

definition quiet_root :: quiet_world where
  "quiet_root = \<lparr>qw_files = [0 \<mapsto> (0, 0)], qw_next = 1\<rparr>"

definition wide_budget :: revisionTreeBudget where
  "wide_budget = \<lparr>tb_operation = \<lparr>ob_limits = \<lparr>maximumTreeEntries = 10, maximumTreeDepth = 2, maximumTreeBytes = 100,
     maximumOperationEntries = 20, maximumOperationBytes = 100, limits_initialized = True\<rparr>, ob_entries = 4, ob_bytes = 5\<rparr>,
     tb_entries = 0, tb_bytes = 0\<rparr>"

text \<open>C26: whatever the kernel answers, hashing a directory by path ends within the recursion the depth limit allows, never
  exceeds or loses a budget, and only adds to what is charged; this also holds when it fails.\<close>

theorem traversal_within_budget:
  assumes "names_contract sys" "budget_ok b"
    and "maximumTreeEntries (tb_limits b) < go_max_int" "maximumOperationEntries (tb_limits b) < go_max_int"
    and "hashRevisionDirectory sys h root rootInfo (w, b) = (r, (w', b'))"
  shows "budget_grows b b' \<and> (\<forall>e. r = Inl e \<longrightarrow> \<not> ran_out e)"
proof -
  have "0 \<le> maximumTreeDepth (tb_limits b)" using assms(2) by (simp add: budget_ok_def limits_ok_def)
  then show ?thesis using soundD[OF sound_directory[OF assms(1,3,4)] assms(2) refl assms(5)] by simp
qed

theorem traversal_within_budget_witness:
  "\<exists>e w' b'. hashRevisionDirectory (quiet_system sample_objects sample_status 2) [] ''/'' (file_info (sample_status 0))
      (quiet_root, wide_budget\<lparr>tb_entries := 8\<rparr>) = (Inl (BudgetFailed e), (w', b')) \<and> budget_grows (wide_budget\<lparr>tb_entries := 8\<rparr>) b'"
proof -
  let ?b = "wide_budget\<lparr>tb_entries := 8\<rparr>"
  let ?run = "hashRevisionDirectory (quiet_system sample_objects sample_status 2) [] ''/'' (file_info (sample_status 0))
      (quiet_root, ?b)"
  have contract: "names_contract (quiet_system sample_objects sample_status 2)"
    by (auto simp: names_contract_def quiet_readdir_def quiet_take_def Let_def split: option.split object.split)
  have ok: "budget_ok ?b" "maximumTreeEntries (tb_limits ?b) < go_max_int" "maximumOperationEntries (tb_limits ?b) < go_max_int"
    by code_simp+
  have "fst ?run = Inl (BudgetFailed (RevisionLimitError RevisionLimitTreeEntries 10 11))" by code_simp
  then obtain w' b' where run: "?run = (Inl (BudgetFailed (RevisionLimitError RevisionLimitTreeEntries 10 11)), (w', b'))"
    by (cases ?run) auto
  then show ?thesis using traversal_within_budget[OF contract ok run] by blast
qed

text \<open>C27: hashing the tree below an open directory that nobody changes succeeds exactly when the tree has no special files or
  oversized links and fits the depth, entry and byte limits; the bytes hashed are then exactly the records of the tree in
  name order, whatever order the directories are listed in, and the budgets are charged exactly its entries and
  bytes.\<close>

theorem tree_hash_exact:
  assumes "quiet_files sys obj status opened kept"
    and "opened d w = Some (i, 0)" "denotes obj status i (DirectoryNode es)"
    and "budget_ok b" "maximumTreeEntries (tb_limits b) < go_max_int" "maximumOperationEntries (tb_limits b) < go_max_int"
  shows "if tree_fits es 0 b
    then \<exists>w'. hashRevisionDirectoryEntries (tree_fuel b) sys h d ''.'' 0 (w, b) =
      (Inr (h @ tree_stream es), (w', spend (int (length es) + entries_below es) (bytes_below es) b))
    else \<exists>e s. hashRevisionDirectoryEntries (tree_fuel b) sys h d ''.'' 0 (w, b) = (Inl e, s)"
  using quiet_files.root_outcome[OF assms, of h] unfolding quiet_files.outcome_def[OF assms(1)] by (auto split: if_splits)

theorem tree_hash_exact_witness:
  "(\<exists>w'. hashRevisionDirectoryEntries (tree_fuel wide_budget) (quiet_system sample_objects sample_status 2) ''prefix'' 0 ''.'' 0
      (quiet_root, wide_budget) = (Inr (''prefix'' @ tree_stream sample_tree), (w', spend 3 5 wide_budget)))"
proof -
  have "quiet_opened 0 quiet_root = Some (0, 0)" "denotes sample_objects sample_status 0 (DirectoryNode sample_tree)"
    "budget_ok wide_budget" "maximumTreeEntries (tb_limits wide_budget) < go_max_int"
    "maximumOperationEntries (tb_limits wide_budget) < go_max_int"
    by code_simp+
  note exact = tree_hash_exact[OF sample_files.quiet_files_axioms this, of "''prefix''"]
  have "tree_fits sample_tree 0 wide_budget" "int (length sample_tree) + entries_below sample_tree = 3" "bytes_below sample_tree = 5"
    by code_simp+
  then show ?thesis using exact by simp
qed

text \<open>C28: when two directories are hashed after the same prefix and the hash streams are equal, the directories contain the same
  tree: the same names, kinds, link targets, executable bits and contents. So equal tree revisions mean equal trees, up to
  a collision of the digest function.\<close>

theorem equal_streams_equal_trees:
  assumes "quiet_files sys obj status opened kept" "quiet_files sys' obj' status' opened' kept'"
    and "opened d w = Some (i, 0)" "denotes obj status i (DirectoryNode es)"
    and "opened' d' v = Some (j, 0)" "denotes obj' status' j (DirectoryNode es')"
    and "budget_ok b" "maximumTreeEntries (tb_limits b) < go_max_int" "maximumOperationEntries (tb_limits b) < go_max_int"
    and "budget_ok c" "maximumTreeEntries (tb_limits c) < go_max_int" "maximumOperationEntries (tb_limits c) < go_max_int"
    and "hashRevisionDirectoryEntries (tree_fuel b) sys h d ''.'' 0 (w, b) = (Inr stream, s)"
    and "hashRevisionDirectoryEntries (tree_fuel c) sys' h d' ''.'' 0 (v, c) = (Inr stream, s')"
  shows "es = es'"
proof -
  have one: "tree_fits es 0 b \<and> stream = h @ tree_stream es"
    using quiet_files.root_outcome[OF assms(1,3,4,7-9), of h] unfolding quiet_files.outcome_def[OF assms(1)] assms(13)
    by (auto split: if_splits)
  have two: "tree_fits es' 0 c \<and> stream = h @ tree_stream es'"
    using quiet_files.root_outcome[OF assms(2,5,6,10-12), of h] unfolding quiet_files.outcome_def[OF assms(2)] assms(14)
    by (auto split: if_splits)
  have "all_hashable es" "all_hashable es'" using one two by (simp_all add: tree_fits_def)
  then show ?thesis
    using quiet_files.denoted_directory_ok[OF assms(1,4)] quiet_files.denoted_directory_ok[OF assms(2,6)] one two
      tree_stream_inject by simp
qed

text \<open>The same tree listed in another order by another kernel.\<close>

definition other_objects :: "nat \<Rightarrow> nat object" where
  "other_objects i =
     (if i = 0 then DirectoryObject [(''a'', 2), (''b'', 1)] else sample_objects i)"

lemma other_kind: "status_of_kind (other_objects i) (sample_status i)"
  using sample_kind[of i]
  by (auto simp: other_objects_def status_of_kind_def sample_objects_def split: if_splits)

theorem equal_streams_equal_trees_witness:
  "\<exists>es'. denotes other_objects sample_status 0 (DirectoryNode es') \<and> sample_tree = es'"
proof -
  have other: "quiet_files (quiet_system other_objects sample_status 1) other_objects sample_status quiet_opened quiet_kept"
    by (rule quiet_system_files) (simp_all add: other_kind)
  let ?run = "hashRevisionDirectoryEntries (tree_fuel wide_budget) (quiet_system sample_objects sample_status 2) [] 0 ''.'' 0
    (quiet_root, wide_budget)"
  let ?run' = "hashRevisionDirectoryEntries (tree_fuel wide_budget) (quiet_system other_objects sample_status 1) [] 0 ''.'' 0
    (quiet_root, wide_budget)"
  have ok: "quiet_opened 0 quiet_root = Some (0, 0)" "denotes sample_objects sample_status 0 (DirectoryNode sample_tree)"
    "denotes other_objects sample_status 0 (DirectoryNode sample_tree)"
    "budget_ok wide_budget" "maximumTreeEntries (tb_limits wide_budget) < go_max_int"
    "maximumOperationEntries (tb_limits wide_budget) < go_max_int"
    by code_simp+
  have "fst ?run = Inr (tree_stream sample_tree)" "fst ?run' = Inr (tree_stream sample_tree)" by code_simp+
  then obtain s s' where runs: "?run = (Inr (tree_stream sample_tree), s)" "?run' = (Inr (tree_stream sample_tree), s')"
    by (cases ?run; cases ?run') auto
  show ?thesis
    using equal_streams_equal_trees[OF sample_files.quiet_files_axioms other ok(1,2) ok(1,3) ok(4-6) ok(4-6) runs] ok(3) by blast
qed

end
