(* ===== verification/RevisionCapture.thy ===== *)
theory RevisionCapture
  imports RevisionTree
begin

text \<open>
  Capturing one revision request within an observation pass: \<^verbatim>\<open>captureRevision\<close>,
  \<^verbatim>\<open>captureBoundedRevisionFile\<close> and \<^verbatim>\<open>RevisionObservationPass\<close> of
  \<^verbatim>\<open>internal/effect/mutation/revision.go\<close>. The pass carries the file cache and the operation
  budget; observing a path's identity is the parameter \<open>observe\<close>, the digest function the parameter \<open>sha\<close>.
\<close>

section \<open>The observation pass\<close>

definition revisionFormatVersion :: string where
  "revisionFormatVersion = ''daem-mutation-revision-v1''"

definition revisionFile :: uint8 where "revisionFile = 2"
definition revisionDirectory :: uint8 where "revisionDirectory = 3"
definition revisionSymlink :: uint8 where "revisionSymlink = 4"
definition revisionShallowEntry :: uint8 where "revisionShallowEntry = 5"
definition revisionDirectoryListing :: uint8 where "revisionDirectoryListing = 6"

record revisionFileCacheEntry =
  ce_version :: RegularFileVersion
  ce_revision :: SnapshotRevision

text \<open>A pass that was never initialized has neither a cache nor a budget.\<close>

record RevisionObservationPass =
  op_fileCache :: "(string, revisionFileCacheEntry) gomap option"
  op_budget :: "revisionCaptureBudget option"

definition newRevisionObservationPass :: "revisionCaptureLimits \<Rightarrow> budgetError + RevisionObservationPass" where
  "newRevisionObservationPass limits =
     ebind (newRevisionCaptureBudget limits) (\<lambda>budget.
     Inr \<lparr>op_fileCache = Some [], op_budget = Some budget\<rparr>)"

definition newRevisionHasher :: "string \<Rightarrow> uint8 \<Rightarrow> hasher" where
  "newRevisionHasher canonicalPath kind = writeRevisionRecord [] [revisionFormatVersion, canonicalPath, formatWord kind]"

definition newSnapshotRevision :: "(string \<Rightarrow> string) \<Rightarrow> uint8 \<Rightarrow> string \<Rightarrow> hasher \<Rightarrow> SnapshotRevision" where
  "newSnapshotRevision sha kind canonicalPath hasher =
     \<lparr>sr_kind = kind, sr_canonicalPath = canonicalPath, digest = sha hasher, sr_valid = True\<rparr>"

definition shallowEntryRevision :: "(string \<Rightarrow> string) \<Rightarrow> canonicalPath \<Rightarrow> FileInfo \<Rightarrow> SnapshotRevision" where
  "shallowEntryRevision sha identity info =
     newSnapshotRevision sha revisionShallowEntry (keyPath identity)
       (writeRevisionRecord (newRevisionHasher (keyPath identity) revisionShallowEntry)
         [''mode'', mode_string (fi_mode info)])"

section \<open>Capturing\<close>

type_synonym ('w, 'a) capturing = "('w \<times> RevisionObservationPass, revisionError, 'a) io"

definition on_world :: "('w, revisionError, 'a) io \<Rightarrow> ('w, 'a) capturing" where
  "on_world m = (\<lambda>(w, pass). case m w of (r, w') \<Rightarrow> (r, (w', pass)))"

text \<open>A traversal under a fresh tree budget of the pass's operation budget, which keeps what was charged.\<close>

definition with_tree_budget :: "('w, 'a) traversal \<Rightarrow> ('w, 'a) capturing" where
  "with_tree_budget m = (\<lambda>(w, pass). case beginTree (op_budget pass) of
       Inl e \<Rightarrow> (Inl (BudgetFailed e), (w, pass))
     | Inr tree \<Rightarrow> (case m (w, tree) of
         (r, (w', tree')) \<Rightarrow> (r, (w', pass\<lparr>op_budget := Some (tb_operation tree')\<rparr>))))"

definition remember :: "string \<Rightarrow> revisionFileCacheEntry \<Rightarrow> ('w, unit) capturing" where
  "remember key entry = (\<lambda>(w, pass).
     (Inr (), (w, pass\<lparr>op_fileCache := map_option (AList.update key entry) (op_fileCache pass)\<rparr>)))"

definition cached_revision :: "string \<Rightarrow> FileInfo \<Rightarrow> ('w, SnapshotRevision option) capturing" where
  "cached_revision key info = (\<lambda>(w, pass).
     (Inr (case op_fileCache pass of
         None \<Rightarrow> None
       | Some cache \<Rightarrow> (case (map_of cache key, RegularFileVersionOf info) of
             (Some cached, (version, True)) \<Rightarrow>
               if RegularFileVersion_Equal (ce_version cached) version then Some (ce_revision cached) else None
           | _ \<Rightarrow> None)), (w, pass)))"

text \<open>The admission of the bytes of a bounded file.\<close>

definition admit_bounded_file :: "int \<Rightarrow> revisionTreeBudget \<Rightarrow> admission" where
  "admit_bounded_file bytes b =
     (if bytes > operation_remainingBytes (tb_operation b) then
        (Inl (RevisionLimitError RevisionLimitOperationBytes (maximumOperationBytes (tb_limits b))
           (rejectedOperationByteTotal bytes b)), b)
      else admitBytes bytes b)"

text \<open>The file must be the one inspected before, when versions are known at all.\<close>

definition same_bounded_version :: "FileInfo \<Rightarrow> Snapshot \<Rightarrow> bool" where
  "same_bounded_version info snapshot =
     (case RegularFileVersionOf info of (beforeVersion, beforeReusable) \<Rightarrow>
        let afterVersion = sn_version snapshot; afterReusable = rv_valid afterVersion in
        if beforeReusable \<or> afterReusable
        then beforeReusable \<and> afterReusable \<and> RegularFileVersion_Equal beforeVersion afterVersion
        else True)"

definition bounded_file_revision :: "(string \<Rightarrow> string) \<Rightarrow> string \<Rightarrow> string \<Rightarrow> SnapshotRevision" where
  "bounded_file_revision sha key snapshotRevision =
     newSnapshotRevision sha revisionFile key
       (writeRevisionRecord (newRevisionHasher key revisionFile) [''stable-regular-file-snapshot'', snapshotRevision])"

definition captureBoundedRevisionFile ::
  "(string \<Rightarrow> string) \<Rightarrow> 'w revision_system \<Rightarrow> RevisionRequest \<Rightarrow> canonicalPath \<Rightarrow> FileInfo \<Rightarrow> ('w, SnapshotRevision) capturing" where
  "captureBoundedRevisionFile sha sys request identity info =
     io_bind (with_tree_budget (charge (admit_bounded_file (fi_size info)))) (\<lambda>_.
     let readMaximum = min (if fi_size info = 0 then 1 else fi_size info) (maximumRegularFileBytes request) in
     io_bind (on_world (io_wrap SnapshotError
        (ReadRegularFileSnapshotContext sha (Some (rs_files sys)) (accessPath identity) readMaximum))) (\<lambda>found.
     case found of
       None \<Rightarrow> io_raise BoundedFileChanged
     | Some snapshot \<Rightarrow>
         if \<not> same_bounded_version info snapshot then io_raise BoundedFileChanged
         else
           let revision = bounded_file_revision sha (keyPath identity) (sn_revision snapshot) in
           if rv_valid (sn_version snapshot) then
             io_bind (remember (keyPath identity) \<lparr>ce_version = sn_version snapshot, ce_revision = revision\<rparr>) (\<lambda>_.
             io_return revision)
           else io_return revision))"

definition capture_symlink ::
  "(string \<Rightarrow> string) \<Rightarrow> 'w revision_system \<Rightarrow> RevisionRequest \<Rightarrow> canonicalPath \<Rightarrow> FileInfo \<Rightarrow> ('w, SnapshotRevision) capturing" where
  "capture_symlink sha sys request identity info =
     (if rr_Effect request \<noteq> PathEffectDirectoryEntry then io_raise UnexpectedSymlink
      else
        io_bind (on_world (io_wrap SystemError (px_readlink (rs_files sys) (accessPath identity)))) (\<lambda>target.
        io_bind (on_world (revision_context sys)) (\<lambda>_.
        io_bind (on_world (io_wrap SystemError (px_lstat (rs_files sys) (accessPath identity)))) (\<lambda>current.
        if \<not> sameRevisionEntryVersion info current then io_raise RevisionChanged
        else io_return (newSnapshotRevision sha revisionSymlink (keyPath identity)
          (writeRevisionRecord (newRevisionHasher (keyPath identity) revisionSymlink) [''symlink'', target]))))))"

definition capture_regular ::
  "(string \<Rightarrow> string) \<Rightarrow> 'w revision_system \<Rightarrow> RevisionRequest \<Rightarrow> canonicalPath \<Rightarrow> FileInfo \<Rightarrow> ('w, SnapshotRevision) capturing" where
  "capture_regular sha sys request identity info =
     (if captureMode request = revisionCaptureDirectoryListing then io_return (shallowEntryRevision sha identity info)
      else if captureMode request = revisionCaptureBoundedFile then
        (if maximumRegularFileBytes request < fi_size info then io_raise (ExceedsMaximum (maximumRegularFileBytes request))
         else io_bind (cached_revision (keyPath identity) info) (\<lambda>cached. case cached of
             Some revision \<Rightarrow> io_return revision
           | None \<Rightarrow> captureBoundedRevisionFile sha sys request identity info))
      else
        io_bind (with_tree_budget (hashRevisionFile sys (newRevisionHasher (keyPath identity) revisionFile)
          (accessPath identity) ''.'' info)) (\<lambda>hasher.
        io_return (newSnapshotRevision sha revisionFile (keyPath identity) hasher)))"

definition capture_directory ::
  "(string \<Rightarrow> string) \<Rightarrow> 'w revision_system \<Rightarrow> RevisionRequest \<Rightarrow> canonicalPath \<Rightarrow> FileInfo \<Rightarrow> ('w, SnapshotRevision) capturing" where
  "capture_directory sha sys request identity info =
     (if captureMode request = revisionCaptureBoundedFile then io_raise NotAbsentOrRegular
      else if captureMode request = revisionCaptureDirectoryListing then
        io_bind (with_tree_budget (hashRevisionDirectoryListing sys
          (newRevisionHasher (keyPath identity) revisionDirectoryListing) (accessPath identity) info)) (\<lambda>hasher.
        io_return (newSnapshotRevision sha revisionDirectoryListing (keyPath identity) hasher))
      else
        io_bind (with_tree_budget (hashRevisionDirectory sys
          (newRevisionHasher (keyPath identity) revisionDirectory) (accessPath identity) info)) (\<lambda>hasher.
        io_return (newSnapshotRevision sha revisionDirectory (keyPath identity) hasher)))"

definition capture_inspected ::
  "(string \<Rightarrow> string) \<Rightarrow> 'w revision_system \<Rightarrow> RevisionRequest \<Rightarrow> canonicalPath \<Rightarrow> FileInfo \<Rightarrow> ('w, SnapshotRevision) capturing" where
  "capture_inspected sha sys request identity info =
     (if captureMode request = revisionCaptureRequiredAbsentEntry then io_return (shallowEntryRevision sha identity info)
      else if mode_isSymlink (fi_mode info) then capture_symlink sha sys request identity info
      else if mode_isRegular (fi_mode info) then capture_regular sha sys request identity info
      else if mode_isDir (fi_mode info) then capture_directory sha sys request identity info
      else if captureMode request = revisionCaptureDirectoryListing then io_return (shallowEntryRevision sha identity info)
      else io_raise UnsupportedMode)"

definition captureRevision ::
  "(string \<Rightarrow> string) \<Rightarrow> pathIdentityObserver \<Rightarrow> 'w revision_system option \<Rightarrow> RevisionRequest \<Rightarrow> ('w, SnapshotRevision) capturing" where
  "captureRevision sha observe ctx request = (\<lambda>(w, pass).
     (case ctx of
        None \<Rightarrow> (Inl RevisionContextRequired, (w, pass))
      | Some sys \<Rightarrow>
          io_bind (on_world (revision_context sys)) (\<lambda>_.
          if captureMode request = 0 then io_raise CaptureModeRequired
          else if op_budget pass = None then io_raise OperationBudgetRequired
          else case observe (rr_Path request) (rr_Effect request) of
            Inl e \<Rightarrow> io_raise (RevisionIdentityError e)
          | Inr identity \<Rightarrow>
              io_bind (on_world (io_try (px_lstat (rs_files sys) (accessPath identity)))) (\<lambda>r. case r of
                  Inl e \<Rightarrow>
                    if e = ENOENT then io_return (newSnapshotRevision sha revisionAbsent (keyPath identity)
                      (newRevisionHasher (keyPath identity) revisionAbsent))
                    else io_raise (SystemError e)
                | Inr info \<Rightarrow> capture_inspected sha sys request identity info)) (w, pass)))"

definition observation_capture ::
  "(string \<Rightarrow> string) \<Rightarrow> pathIdentityObserver \<Rightarrow> 'w revision_system option \<Rightarrow> RevisionRequest \<Rightarrow> ('w, SnapshotRevision) capturing" where
  "observation_capture sha observe ctx request = (\<lambda>(w, pass).
     if op_budget pass = None \<or> op_fileCache pass = None then (Inl PassUninitialized, (w, pass))
     else captureRevision sha observe ctx request (w, pass))"

definition observation_Capture ::
  "(string \<Rightarrow> string) \<Rightarrow> pathIdentityObserver \<Rightarrow> 'w revision_system option \<Rightarrow> RevisionRequest \<Rightarrow> ('w, SnapshotRevision) capturing" where
  "observation_Capture sha observe ctx request =
     io_bind (observation_capture sha observe ctx request) (\<lambda>revision.
     case validateRevisionBaseline request revision of
       Inl e \<Rightarrow> io_raise BaselineStale
     | Inr _ \<Rightarrow> io_return revision)"

end
