(* ===== verification/FileWorld.thy ===== *)
theory FileWorld
  imports FileSnapshot
begin

text \<open>
  A kernel for the readers of \<^verbatim>\<open>internal/filesnapshot\<close>: objects with a \<^verbatim>\<open>stat\<close> record and bytes,
  paths and directory entries bound to them, a descriptor table, and an agenda of what other processes
  do before each system call: they write any bytes with any timestamps, also those of an earlier state, and bind any name
  to any object. Reads may be short. It provides what \<open>kernel_files\<close> asks for, so the
  readers' guarantees hold under every interleaving with such processes.
\<close>

section \<open>Objects, names and other processes\<close>

text \<open>Objects are named by their inode number. A descriptor below \<open>dk_next\<close> is an object and an offset while it is open. \<open>dk_context\<close> is the
  number of context checks left before the context is cancelled (\<open>None\<close>: never).\<close>

type_synonym inode = "64 word"

datatype change =
    WriteObject inode string changeVersion changeVersion
  | ChangeMode inode "32 word" changeVersion
  | BindPath string "inode option"
  | BindEntry inode string "inode option"

record disk =
  dk_stat :: "inode \<Rightarrow> Stat_t"
  dk_data :: "inode \<Rightarrow> string"
  dk_paths :: "string \<Rightarrow> inode option"
  dk_entries :: "inode \<Rightarrow> string \<Rightarrow> inode option"
  dk_files :: "nat \<Rightarrow> (inode \<times> nat) option"
  dk_next :: nat
  dk_chunk :: nat
  dk_context :: "nat option"
  dk_agenda :: "change list list"

text \<open>A write sets the times to anything: a second write within one timestamp tick leaves them as they were.\<close>

fun apply_change :: "change \<Rightarrow> disk \<Rightarrow> disk" where
  "apply_change (WriteObject i bytes mtime ctime) w =
     w\<lparr>dk_stat := (dk_stat w)(i := (dk_stat w i)\<lparr>st_size := int (length bytes), st_mtim := mtime, st_ctim := ctime\<rparr>),
       dk_data := (dk_data w)(i := bytes)\<rparr>"
| "apply_change (ChangeMode i mode ctime) w =
     w\<lparr>dk_stat := (dk_stat w)(i := (dk_stat w i)\<lparr>st_mode := mode, st_ctim := ctime\<rparr>)\<rparr>"
| "apply_change (BindPath path j) w = w\<lparr>dk_paths := (dk_paths w)(path := j)\<rparr>"
| "apply_change (BindEntry d name j) w = w\<lparr>dk_entries := (dk_entries w)(d := (dk_entries w d)(name := j))\<rparr>"

definition advance :: "disk \<Rightarrow> disk" where
  "advance w = (case dk_agenda w of [] \<Rightarrow> w | changes # rest \<Rightarrow> fold apply_change changes (w\<lparr>dk_agenda := rest\<rparr>))"

section \<open>System calls\<close>

definition inode_stat :: "inode \<Rightarrow> disk \<Rightarrow> Stat_t" where
  "inode_stat i w = (dk_stat w i)\<lparr>st_dev := 1, st_ino := i\<rparr>"

definition object_info :: "inode \<Rightarrow> disk \<Rightarrow> FileInfo" where
  "object_info i w = file_info (inode_stat i w)"

definition is_link :: "disk \<Rightarrow> inode \<Rightarrow> bool" where
  "is_link w i \<longleftrightarrow> st_mode (dk_stat w i) AND S_IFMT = S_IFLNK"

fun resolve :: "nat \<Rightarrow> disk \<Rightarrow> string \<Rightarrow> osError + inode" where
  "resolve 0 w path = Inl ELOOP"
| "resolve (Suc n) w path = (case dk_paths w path of
       None \<Rightarrow> Inl ENOENT
     | Some i \<Rightarrow> if is_link w i then resolve n w (dk_data w i) else Inr i)"

definition open_object :: "inode \<Rightarrow> disk \<Rightarrow> (osError + nat) \<times> disk" where
  "open_object i w = (Inr (dk_next w), w\<lparr>dk_files := (dk_files w)(dk_next w := Some (i, 0)), dk_next := dk_next w + 1\<rparr>)"

definition disk_file :: "nat \<Rightarrow> disk \<Rightarrow> (inode \<times> nat) option" where
  "disk_file fd w = (if fd < dk_next w then dk_files w fd else None)"

definition disk_ctx :: "(disk, unit, unit) io" where
  "disk_ctx w = (let w = advance w in
     case dk_context w of
       None \<Rightarrow> (Inr (), w)
     | Some 0 \<Rightarrow> (Inl (), w)
     | Some (Suc n) \<Rightarrow> (Inr (), w\<lparr>dk_context := Some n\<rparr>))"

definition disk_lstat :: "string \<Rightarrow> (disk, osError, FileInfo) io" where
  "disk_lstat path w = (let w = advance w in
     case dk_paths w path of None \<Rightarrow> (Inl ENOENT, w) | Some i \<Rightarrow> (Inr (object_info i w), w))"

definition disk_stat :: "string \<Rightarrow> (disk, osError, FileInfo) io" where
  "disk_stat path w = (let w = advance w in
     case resolve 40 w path of Inl e \<Rightarrow> (Inl e, w) | Inr i \<Rightarrow> (Inr (object_info i w), w))"

definition disk_readlink :: "string \<Rightarrow> (disk, osError, string) io" where
  "disk_readlink path w = (let w = advance w in
     case dk_paths w path of
       None \<Rightarrow> (Inl ENOENT, w)
     | Some i \<Rightarrow> if is_link w i then (Inr (dk_data w i), w) else (Inl (Errno 22), w))"

definition disk_open :: "string \<Rightarrow> bool \<Rightarrow> (disk, osError, nat) io" where
  "disk_open path follow w = (let w = advance w in
     case dk_paths w path of
       None \<Rightarrow> (Inl ENOENT, w)
     | Some i \<Rightarrow>
         if is_link w i then
           (if \<not> follow then (Inl ELOOP, w)
            else case resolve 40 w path of Inl e \<Rightarrow> (Inl e, w) | Inr j \<Rightarrow> open_object j w)
         else open_object i w)"

definition disk_fstat :: "nat \<Rightarrow> (disk, osError, FileInfo) io" where
  "disk_fstat fd w = (let w = advance w in
     case disk_file fd w of None \<Rightarrow> (Inl (Errno 9), w) | Some (i, _) \<Rightarrow> (Inr (object_info i w), w))"

definition disk_read :: "nat \<Rightarrow> nat \<Rightarrow> disk \<Rightarrow> (string \<times> readFailure option) \<times> disk" where
  "disk_read fd n w = (let w = advance w in
     case disk_file fd w of
       None \<Rightarrow> (([], Some (ReadError (Errno 9))), w)
     | Some (i, off) \<Rightarrow>
         let bytes = take (min n (max 1 (dk_chunk w))) (drop off (dk_data w i)) in
         ((bytes, if n \<noteq> 0 \<and> bytes = [] then Some EOF else None),
          w\<lparr>dk_files := (dk_files w)(fd := Some (i, off + length bytes))\<rparr>))"

definition disk_close :: "nat \<Rightarrow> (disk, osError, unit) io" where
  "disk_close fd w = (let w = advance w in
     case disk_file fd w of None \<Rightarrow> (Inl (Errno 9), w) | Some _ \<Rightarrow> (Inr (), w\<lparr>dk_files := (dk_files w)(fd := None)\<rparr>))"

definition disk_entry :: "nat \<Rightarrow> string \<Rightarrow> disk \<Rightarrow> osError + inode" where
  "disk_entry d name w = (case disk_file d w of
       None \<Rightarrow> Inl (Errno 9)
     | Some (i, _) \<Rightarrow> case dk_entries w i name of None \<Rightarrow> Inl ENOENT | Some j \<Rightarrow> Inr j)"

definition disk_fstatat :: "nat \<Rightarrow> string \<Rightarrow> (disk, osError, Stat_t) io" where
  "disk_fstatat d name w = (let w = advance w in
     case disk_entry d name w of Inl e \<Rightarrow> (Inl e, w) | Inr j \<Rightarrow> (Inr (inode_stat j w), w))"

definition disk_openat :: "nat \<Rightarrow> string \<Rightarrow> (disk, osError, nat) io" where
  "disk_openat d name w = (let w = advance w in
     case disk_entry d name w of
       Inl e \<Rightarrow> (Inl e, w)
     | Inr j \<Rightarrow> if is_link w j then (Inl ELOOP, w) else open_object j w)"

definition disk_posix :: "disk posix" where
  "disk_posix = \<lparr>px_ctx = disk_ctx, px_lstat = disk_lstat, px_stat = disk_stat, px_readlink = disk_readlink,
     px_open = disk_open, px_fstat = disk_fstat, px_read = disk_read, px_close = disk_close,
     px_fstatat = disk_fstatat, px_openat = disk_openat\<rparr>"

section \<open>The laws hold\<close>

definition disk_object :: "nat \<Rightarrow> disk \<Rightarrow> inode option" where
  "disk_object fd w = map_option fst (disk_file fd w)"

definition disk_offset :: "nat \<Rightarrow> disk \<Rightarrow> nat" where
  "disk_offset fd w = (case disk_file fd w of Some (_, off) \<Rightarrow> off | None \<Rightarrow> 0)"

definition object_data :: "inode \<Rightarrow> disk \<Rightarrow> string" where
  "object_data i w = dk_data w i"

text \<open>The objects and names change only by what other processes do; everything else is this process's own.\<close>

definition shared_state :: "disk \<Rightarrow> (inode \<Rightarrow> Stat_t) \<times> (inode \<Rightarrow> string) \<times> (string \<Rightarrow> inode option) \<times> (inode \<Rightarrow> string \<Rightarrow> inode option)" where
  "shared_state w = (dk_stat w, dk_data w, dk_paths w, dk_entries w)"

inductive disk_later :: "disk \<Rightarrow> disk \<Rightarrow> bool" where
  disk_later_refl: "disk_later w w"
| disk_later_own: "disk_later w w1 \<Longrightarrow> shared_state w2 = shared_state w1 \<Longrightarrow> disk_later w w2"
| disk_later_change: "disk_later w w1 \<Longrightarrow> disk_later w (apply_change c w1)"

definition disk_undisturbed :: "disk \<Rightarrow> disk \<Rightarrow> bool" where
  "disk_undisturbed w w' \<longleftrightarrow> disk_later w w' \<and>
     (\<forall>fd i. disk_object fd w = Some i \<longrightarrow> disk_object fd w' = Some i \<and> disk_offset fd w' = disk_offset fd w)"

definition disk_names :: "string \<Rightarrow> bool \<Rightarrow> inode \<Rightarrow> disk \<Rightarrow> bool" where
  "disk_names path follow i w \<longleftrightarrow>
     (if follow then resolve 40 w path = Inr i else dk_paths w path = Some i)"

definition disk_has_entry :: "nat \<Rightarrow> string \<Rightarrow> inode \<Rightarrow> disk \<Rightarrow> bool" where
  "disk_has_entry d name i w \<longleftrightarrow> disk_entry d name w = Inr i"

lemma disk_later_trans:
  assumes "disk_later w w1" "disk_later w1 w2"
  shows "disk_later w w2"
  using assms(2,1) by (induction rule: disk_later.induct) (auto intro: disk_later.intros)

lemma changes_later: "disk_later w w1 \<Longrightarrow> disk_later w (fold apply_change cs w1)"
  by (induction cs arbitrary: w1) (auto intro: disk_later_change)

lemma own_later: "disk_later w w1 \<Longrightarrow> disk_later w (w1\<lparr>dk_files := f\<rparr>)" "disk_later w w1 \<Longrightarrow> disk_later w (w1\<lparr>dk_next := n\<rparr>)"
  "disk_later w w1 \<Longrightarrow> disk_later w (w1\<lparr>dk_context := c\<rparr>)" "disk_later w w1 \<Longrightarrow> disk_later w (w1\<lparr>dk_agenda := a\<rparr>)"
  by (auto intro!: disk_later_own[of w w1] simp: shared_state_def)

lemma change_keeps [simp]:
  "dk_files (apply_change c w) = dk_files w" "dk_next (apply_change c w) = dk_next w"
  by (cases c; simp)+

lemma changes_keep [simp]:
  "dk_files (fold apply_change cs w) = dk_files w" "dk_next (fold apply_change cs w) = dk_next w"
  by (induction cs arbitrary: w) simp_all

lemma advance_keeps [simp]: "dk_files (advance w) = dk_files w" "dk_next (advance w) = dk_next w"
  by (simp_all add: advance_def split: list.splits)

lemma advance_later: "disk_later w (advance w)"
  by (auto simp: advance_def split: list.split intro!: changes_later own_later disk_later_refl)

lemma advance_file [simp]: "disk_file fd (advance w) = disk_file fd w"
  by (simp add: disk_file_def)

lemma advance_undisturbed: "disk_undisturbed w (advance w)"
  by (simp add: disk_undisturbed_def advance_later disk_object_def disk_offset_def)

lemma open_undisturbed: "disk_undisturbed w (snd (open_object i (advance w)))"
proof -
  have "disk_later w (snd (open_object i (advance w)))" by (simp add: open_object_def own_later advance_later)
  then show ?thesis
    by (auto simp: disk_undisturbed_def disk_object_def disk_offset_def disk_file_def open_object_def split: if_splits)
qed

lemma opened_file: "disk_file fd w' = Some (i, 0)" if "open_object i w = (Inr fd, w')"
  using that by (auto simp: open_object_def disk_file_def)

lemma opened_same: "dk_paths w' = dk_paths w \<and> dk_stat w' = dk_stat w \<and> dk_data w' = dk_data w \<and> dk_entries w' = dk_entries w"
  if "open_object i w = (Inr fd, w')"
  using that by (auto simp: open_object_def)

lemma resolve_cong:
  "dk_paths w' = dk_paths w \<Longrightarrow> dk_stat w' = dk_stat w \<Longrightarrow> dk_data w' = dk_data w \<Longrightarrow> resolve n w' path = resolve n w path"
  by (induction n arbitrary: path) (auto simp: is_link_def split: option.splits)

lemma disk_file_open: "disk_file d w = Some x \<Longrightarrow> open_object i w = (Inr fd, w') \<Longrightarrow> disk_file d w' = Some x"
  by (auto simp: open_object_def disk_file_def split: if_splits)

lemma disk_calls [simp]:
  "px_ctx disk_posix = disk_ctx" "px_lstat disk_posix = disk_lstat" "px_stat disk_posix = disk_stat"
  "px_readlink disk_posix = disk_readlink" "px_open disk_posix = disk_open" "px_fstat disk_posix = disk_fstat"
  "px_read disk_posix = disk_read" "px_close disk_posix = disk_close" "px_fstatat disk_posix = disk_fstatat"
  "px_openat disk_posix = disk_openat"
  by (simp_all add: disk_posix_def)

lemma resolve_direct: "dk_paths w path = Some i \<Longrightarrow> \<not> is_link w i \<Longrightarrow> 0 < n \<Longrightarrow> resolve n w path = Inr i"
  by (cases n) simp_all

text \<open>An opening call either fails or opens the object its name selects.\<close>

definition opens :: "(inode \<Rightarrow> disk \<Rightarrow> bool) \<Rightarrow> (osError + nat) \<times> disk \<Rightarrow> disk \<Rightarrow> bool" where
  "opens selected result w \<longleftrightarrow> (\<exists>e. result = (Inl e, w)) \<or> (\<exists>i. result = open_object i w \<and> selected i w)"

lemma disk_open_opens: "opens (disk_names path follow) (disk_open path follow w) (advance w)"
proof (cases "dk_paths (advance w) path")
  case None
  then show ?thesis by (simp add: opens_def disk_open_def Let_def)
next
  case (Some i)
  show ?thesis
  proof (cases "is_link (advance w) i")
    case True
    then show ?thesis using Some
      by (cases "resolve 40 (advance w) path") (auto simp: opens_def disk_open_def Let_def disk_names_def)
  next
    case False
    then have "disk_names path follow i (advance w)" using Some resolve_direct by (simp add: disk_names_def)
    then show ?thesis using Some False by (auto simp: opens_def disk_open_def Let_def)
  qed
qed

lemma disk_openat_opens: "opens (disk_has_entry d name) (disk_openat d name w) (advance w)"
  by (cases "disk_entry d name (advance w)") (auto simp: opens_def disk_openat_def Let_def disk_has_entry_def)

lemma opens_undisturbed: "opens P result (advance w) \<Longrightarrow> disk_undisturbed w (snd result)"
  by (auto simp: opens_def open_undisturbed advance_undisturbed)

lemma opens_object:
  "opens P (Inr fd, w') w \<Longrightarrow> \<exists>i. open_object i w = (Inr fd, w') \<and> disk_object fd w' = Some i \<and> disk_offset fd w' = 0 \<and> P i w"
  unfolding opens_def using opened_file by (metis (no_types, lifting) Inl_Inr_False Pair_inject disk_object_def
      disk_offset_def fst_conv old.prod.case option.simps(5,9))

lemma names_opened: "open_object i w = (Inr fd, w') \<Longrightarrow> disk_names path follow j w \<Longrightarrow> disk_names path follow j w'"
  using opened_same[of i w fd w'] resolve_cong[of w' w 40 path] by (simp add: disk_names_def)

lemma entry_opened: "open_object i w = (Inr fd, w') \<Longrightarrow> disk_has_entry d name j w \<Longrightarrow> disk_has_entry d name j w'"
  using opened_same[of i w fd w'] disk_file_open[of d w _ i fd w']
  by (auto simp: disk_has_entry_def disk_entry_def split: option.splits)

lemma context_undisturbed: "disk_undisturbed w (snd (disk_ctx w))"
proof -
  have "disk_undisturbed w ((advance w)\<lparr>dk_context := c\<rparr>)" for c
    using advance_undisturbed[of w]
    by (simp add: disk_undisturbed_def own_later disk_object_def disk_offset_def disk_file_def)
  then show ?thesis using advance_undisturbed[of w]
    by (auto simp: disk_ctx_def Let_def split: option.splits nat.splits)
qed

lemma inspection_undisturbed:
  "disk_undisturbed w (snd (disk_lstat path w))" "disk_undisturbed w (snd (disk_stat path w))"
  "disk_undisturbed w (snd (disk_readlink path w))" "disk_undisturbed w (snd (disk_fstat fd w))"
  "disk_undisturbed w (snd (disk_fstatat fd path w))"
  using advance_undisturbed[of w]
  by (simp_all add: disk_lstat_def disk_stat_def disk_readlink_def disk_fstat_def disk_fstatat_def Let_def
      split: option.split sum.split prod.split)

lemma close_later: "disk_later w (snd (disk_close fd w))"
  by (simp add: disk_close_def Let_def own_later advance_later split: option.split)

lemma read_later: "disk_later w (snd (disk_read fd n w))"
  by (simp add: disk_read_def Let_def own_later advance_later split: option.split)

lemma disk_fstat_info: "disk_object fd w = Some i \<Longrightarrow> disk_fstat fd w = (Inr inspected, w') \<Longrightarrow> inspected = object_info i w'"
  by (auto simp: disk_object_def disk_fstat_def Let_def)

lemma disk_read_law:
  assumes "disk_object fd w = Some i" "disk_read fd n w = ((bytes, failure), w')"
  shows "disk_later w w' \<and> disk_object fd w' = Some i \<and> disk_offset fd w' = disk_offset fd w + length bytes \<and>
    length bytes \<le> n \<and> bytes = take (length bytes) (drop (disk_offset fd w) (object_data i w')) \<and>
    (failure = Some EOF \<longrightarrow> length (object_data i w') \<le> disk_offset fd w')"
proof -
  obtain off where opened: "disk_file fd w = Some (i, off)" using assms(1) by (auto simp: disk_object_def)
  let ?w = "advance w"
  have bytes: "bytes = take (min n (max 1 (dk_chunk ?w))) (drop off (dk_data ?w i))"
    "failure = (if n \<noteq> 0 \<and> bytes = [] then Some EOF else None)"
    "w' = ?w\<lparr>dk_files := (dk_files ?w)(fd := Some (i, off + length bytes))\<rparr>"
    using assms(2) opened by (auto simp: disk_read_def Let_def)
  have "disk_later w w'" using bytes(3) by (simp add: own_later advance_later)
  moreover have "disk_file fd w' = Some (i, off + length bytes)"
    using opened bytes(3) by (auto simp: disk_file_def split: if_splits)
  moreover have "object_data i w' = dk_data ?w i" using bytes(3) by (simp add: object_data_def)
  moreover have "failure = Some EOF \<longrightarrow> length (dk_data ?w i) \<le> off + length bytes"
    using bytes(1,2) by (auto split: if_splits)
  moreover have "take k xs = take (length (take k xs)) xs" for k and xs :: string by (simp add: min_def)
  then have "bytes = take (length bytes) (drop off (dk_data ?w i))" unfolding bytes(1) .
  moreover have "length bytes \<le> n" using bytes(1) by simp
  ultimately show ?thesis using opened by (simp add: disk_object_def disk_offset_def)
qed

lemma disk_open_object:
  assumes "disk_open path follow w = (Inr fd, w')"
  shows "\<exists>i. disk_object fd w' = Some i \<and> disk_offset fd w' = 0 \<and> disk_names path follow i w'"
  using opens_object[of "disk_names path follow" fd w' "advance w"] disk_open_opens[of path follow w] names_opened
  unfolding assms by blast

lemma disk_openat_object:
  assumes "disk_openat d name w = (Inr fd, w')"
  shows "\<exists>i. disk_object fd w' = Some i \<and> disk_offset fd w' = 0 \<and> disk_has_entry d name i w'"
  using opens_object[of "disk_has_entry d name" fd w' "advance w"] disk_openat_opens[of d name w] entry_opened
  unfolding assms by blast

lemma disk_lstat_info: "disk_lstat path w = (Inr inspected, w') \<Longrightarrow> \<exists>i. disk_names path False i w' \<and> inspected = object_info i w'"
  by (auto simp: disk_lstat_def disk_names_def Let_def split: option.splits)

lemma disk_stat_info: "disk_stat path w = (Inr inspected, w') \<Longrightarrow> \<exists>i. disk_names path True i w' \<and> inspected = object_info i w'"
  by (auto simp: disk_stat_def disk_names_def Let_def split: sum.splits)

interpretation disk_files: kernel_files disk_posix disk_later disk_object disk_offset object_data object_info
  disk_undisturbed disk_names disk_has_entry
  by (unfold_locales, unfold disk_calls)
    (fact disk_undisturbed_def disk_later_refl disk_later_trans context_undisturbed inspection_undisturbed
      opens_undisturbed[OF disk_open_opens] opens_undisturbed[OF disk_openat_opens] close_later read_later
      disk_open_object disk_openat_object disk_fstat_info disk_read_law disk_lstat_info disk_stat_info)+

section \<open>What a snapshot shows\<close>

text \<open>C24: whatever other processes do between the system calls, a snapshot that is returned has the metadata of the
  regular file the path selected when it was opened, as it was inspected at one instant before the read; the open file
  had the same metadata after the read, and so had the file the path then selected; its length is the reported size, within the caller's bound.
  Its content is that of the file at the first inspection, unless the file was changed between the two inspections
  without a trace in its metadata, the limit \<^verbatim>\<open>docs/platforms.md\<close> states.\<close>

theorem snapshot_is_atomic:
  assumes "kernel_files px later object offset data info undisturbed names entry"
    and "readRegularFileSnapshot sha (Some px) path maximumBytes policy w = (Inr (Some snapshot, n), w')"
  shows "\<exists>i wo wa wb j we. later w wo \<and> later wo wa \<and> later wa wb \<and> later wb we \<and> later we w' \<and>
    names path (policy = followFinalSymlink) i wo \<and> names path (policy = followFinalSymlink) j we \<and>
    snapshot_of sha info snapshot i wa \<and> same_metadata (info i wa) (info i wb) \<and> same_metadata (info i wa) (info j we) \<and>
    (sn_content snapshot = data i wa \<or> unseen_change later data info i wa i wb) \<and>
    int (length (sn_content snapshot)) \<le> maximumBytes"
  by (rule kernel_files.snapshot_at_one_instant[OF assms])

text \<open>Reading one entry of an open directory returns the content the entry's file had at one instant, with the same
  exception, under a name that cannot leave the directory.\<close>

lemma entry_read_is_atomic:
  assumes "kernel_files px later object offset data info undisturbed names entry"
    and "readRegularFileAtCounted (Some px) dir name maximumBytes w = (Inr (Some content, n), w')"
  shows "\<exists>d i wo wa wb. dir = Some d \<and> validDirentName name = Inr () \<and> later w wo \<and> later wo wa \<and> later wa wb \<and> later wb w' \<and>
    entry d name i wo \<and> (content = data i wa \<or> unseen_change later data info i wa i wb) \<and> int (length content) \<le> maximumBytes"
  by (rule kernel_files.entry_at_one_instant[OF assms])

text \<open>A file that is overwritten just before it is inspected, and another process that waits until the
  read is over.\<close>

definition plain_stat :: "inode \<Rightarrow> Stat_t" where
  "plain_stat i = \<lparr>st_dev = 1, st_ino = i, st_mode = 0x81A4, st_size = 3,
     st_mtim = \<lparr>cv_seconds = 5, cv_nanoseconds = 0\<rparr>, st_ctim = \<lparr>cv_seconds = 5, cv_nanoseconds = 0\<rparr>\<rparr>"

definition sample_disk :: disk where
  "sample_disk = \<lparr>dk_stat = plain_stat, dk_data = (\<lambda>_. ''old''), dk_paths = [''/a'' \<mapsto> 7],
     dk_entries = (\<lambda>_. [''a'' \<mapsto> 7]), dk_files = [0 \<mapsto> (1, 0)], dk_next = 1, dk_chunk = 2, dk_context = None,
     dk_agenda = [[], [WriteObject 7 ''newer'' \<lparr>cv_seconds = 9, cv_nanoseconds = 0\<rparr> \<lparr>cv_seconds = 9, cv_nanoseconds = 0\<rparr>]]\<rparr>"

theorem snapshot_is_atomic_witness:
  "\<exists>snapshot i wo wa wb. sn_content snapshot = ''newer'' \<and> disk_later sample_disk wo \<and> disk_later wo wa \<and> disk_later wa wb \<and>
     disk_names ''/a'' False i wo \<and> snapshot_of (\<lambda>_. []) object_info snapshot i wa \<and>
     (object_data i wa = ''newer'' \<or> unseen_change disk_later object_data object_info i wa i wb)"
proof -
  let ?run = "readRegularFileSnapshot (\<lambda>_. []) (Some disk_posix) ''/a'' 100 rejectFinalSymlink sample_disk"
  have "(case fst ?run of Inr (Some snapshot, n) \<Rightarrow> sn_content snapshot = ''newer'' | _ \<Rightarrow> False)" by code_simp
  then obtain snapshot n w' where run: "?run = (Inr (Some snapshot, n), w')" "sn_content snapshot = ''newer''"
    by (cases ?run) (auto split: sum.splits option.splits)
  obtain i wo wa wb where "disk_later sample_disk wo" "disk_later wo wa" "disk_later wa wb" "disk_names ''/a'' False i wo"
    "snapshot_of (\<lambda>_. []) object_info snapshot i wa"
    "sn_content snapshot = object_data i wa \<or> unseen_change disk_later object_data object_info i wa i wb"
    using snapshot_is_atomic[OF disk_files.kernel_files_axioms run(1)] by auto
  then show ?thesis using run(2)
    by (intro exI[of _ snapshot] exI[of _ i] exI[of _ wo] exI[of _ wa] exI[of _ wb]) auto
qed

text \<open>The exception is real: a write of the same length between two reads, within one timestamp tick, gives content the
  file never had.\<close>

lemma torn_read:
  "(case fst (readRegularFileSnapshot (\<lambda>_. []) (Some disk_posix) ''/a'' 100 rejectFinalSymlink (sample_disk\<lparr>dk_agenda :=
      [[], [], [], [], [], [], [], [], [], [WriteObject 7 ''new'' \<lparr>cv_seconds = 5, cv_nanoseconds = 0\<rparr> \<lparr>cv_seconds = 5, cv_nanoseconds = 0\<rparr>]]\<rparr>)) of
     Inr (Some snapshot, n) \<Rightarrow> sn_content snapshot = ''olw'' | _ \<Rightarrow> False)"
  by code_simp

end
