(* ===== verification/BoundedCapture.thy ===== *)
theory BoundedCapture
  imports RevisionCapture FileWorld
begin

text \<open>
  Bounded file revisions and the cache of an observation pass: whether it was read or remembered, a
  bounded file revision has the metadata of the file the path names during the capture, and its content unless that
  metadata hides a change.
\<close>

section \<open>Revisions of objects\<close>

text \<open>The revision of some content with the metadata of an object as it is in a world.\<close>

definition file_revision ::
  "('i \<Rightarrow> 'w \<Rightarrow> FileInfo) \<Rightarrow> (string \<Rightarrow> string) \<Rightarrow> string \<Rightarrow> 'i \<Rightarrow> 'w \<Rightarrow> string \<Rightarrow> SnapshotRevision" where
  "file_revision info sha key i w content =
     bounded_file_revision sha key (regularFileSnapshotRevision sha (info i w) content)"

text \<open>The content is that of the object in the world \<open>wl\<close>, or a change between two instants of the time from
  \<open>start\<close> to \<open>w\<close> did not show in the metadata, which was that of the object at both.\<close>

definition content_shown ::
  "('w \<Rightarrow> 'w \<Rightarrow> bool) \<Rightarrow> ('i \<Rightarrow> 'w \<Rightarrow> string) \<Rightarrow> ('i \<Rightarrow> 'w \<Rightarrow> FileInfo) \<Rightarrow> 'w \<Rightarrow> 'i \<Rightarrow> 'w \<Rightarrow> 'w \<Rightarrow> string \<Rightarrow> bool" where
  "content_shown later data info start j wl w content \<longleftrightarrow> content = data j wl \<or>
     (\<exists>i wa k wb. later start wa \<and> later wa wb \<and> later wb w \<and> same_metadata (info j wl) (info i wa) \<and>
        unseen_change later data info i wa k wb)"

text \<open>What a cache that began at \<open>start\<close> promises: every remembered revision is of the metadata its version witness was taken from, and
  shows the content.\<close>

definition cache_ok ::
  "('w \<Rightarrow> 'w \<Rightarrow> bool) \<Rightarrow> ('i \<Rightarrow> 'w \<Rightarrow> string) \<Rightarrow> ('i \<Rightarrow> 'w \<Rightarrow> FileInfo) \<Rightarrow> (string \<Rightarrow> string) \<Rightarrow> 'w \<Rightarrow>
   RevisionObservationPass \<Rightarrow> 'w \<Rightarrow> bool" where
  "cache_ok later data info sha start pass w \<longleftrightarrow> later start w \<and> (\<forall>cache key cached. op_fileCache pass = Some cache \<longrightarrow>
     map_of cache key = Some cached \<longrightarrow>
     (\<exists>i wm content. later start wm \<and> later wm w \<and> ce_version cached = fst (RegularFileVersionOf (info i wm)) \<and>
        ce_revision cached = file_revision info sha key i wm content \<and>
        content_shown later data info start i wm w content))"

section \<open>Captures of a pass\<close>

context kernel_files
begin

text \<open>Computations that only move forward.\<close>

definition onward :: "('w, 'e, 'x) io \<Rightarrow> bool" where
  "onward m \<longleftrightarrow> (\<forall>w. later w (snd (m w)))"

lemma onward_calm: "calm m \<Longrightarrow> onward m"
  by (simp add: onward_def calm_def undisturbed_later)

lemma onward_bind: "onward m \<Longrightarrow> (\<And>x. onward (f x)) \<Longrightarrow> onward (io_bind m f)"
  unfolding onward_def io_bind_def
  by (auto split: prod.splits sum.splits) (metis snd_conv later_trans)+

lemma onward_wrap: "onward m \<Longrightarrow> onward (io_wrap g m)"
  unfolding onward_def io_wrap_def by (auto split: prod.splits sum.splits) (metis snd_conv)+

lemma onward_try: "onward m \<Longrightarrow> onward (io_try m)"
  unfolding onward_def io_try_def by (auto split: prod.splits) (metis snd_conv)

lemma onward_with_file: "onward m \<Longrightarrow> onward (with_file px fd m)"
  unfolding onward_def with_file_def by (auto split: prod.splits) (metis snd_conv close_later later_trans)

lemmas onward_intros = onward_bind onward_wrap onward_try onward_with_file calm_return[THEN onward_calm] calm_calls[THEN onward_calm]

lemma onward_read: "onward (readBoundedRegularFile px fd maximumBytes content attempted)"
proof -
  have "later w (snd (readBoundedRegularFile px fd maximumBytes content attempted w))" for content attempted w
  proof (induction "nat (maximumBytes - attempted)" arbitrary: content attempted w rule: less_induct)
    case less
    let ?size = "if maximumBytes - attempted < read_buffer then maximumBytes - attempted + 1 else read_buffer"
    obtain c w1 where ctx: "px_ctx px w = (c, w1)" by (cases "px_ctx px w")
    obtain bytes failure w2 where read: "px_read px fd (nat ?size) w1 = ((bytes, failure), w2)"
      by (cases "px_read px fd (nat ?size) w1") auto
    have steps: "later w w1" "later w1 w2"
      using undisturbed_later[OF ctx_undisturbed[of w]] ctx read_later[of w1 fd "nat ?size"] read by simp_all
    then have both: "later w w2" using later_trans by blast
    have "later w (snd (readBoundedRegularFile px fd maximumBytes (content @ bytes) (attempted + int (length bytes)) w2))"
      if "bytes \<noteq> []" "attempted + int (length bytes) \<le> maximumBytes"
    proof (rule later_trans[OF both], rule less)
      show "nat (maximumBytes - (attempted + int (length bytes))) < nat (maximumBytes - attempted)"
        using that by (cases bytes) auto
    qed
    then show ?case
      unfolding readBoundedRegularFile.simps[of px fd maximumBytes content attempted w] ctx prod.case Let_def read
      using steps(1) both by (simp split: sum.split option.split readFailure.split)
  qed
  then show ?thesis by (simp add: onward_def)
qed

lemma calm_classify: "calm (classifyOpenFailure px path before referent target policy openErr)"
  unfolding classifyOpenFailure_def
  by (auto simp: calm_intros split: sum.splits intro!: calm_intros calm_same)

lemma onward_checks:
  "onward (check_context px)" "onward (inspect_before px path maximumBytes policy)"
  "onward (classifyOpenFailure px path before referent target policy openErr)"
  "onward (check_opened px fd maximumBytes before referent)"
  "onward (check_stable px fd path policy before opened target content)"
proof -
  have "calm (check_opened px fd maximumBytes before referent)"
    unfolding check_opened_def by (auto intro!: calm_intros calm_context)
  moreover have "calm (check_stable px fd path policy before opened target content)"
    unfolding check_stable_def by (intro calm_intros calm_context calm_selected)
  ultimately show "onward (check_context px)" "onward (inspect_before px path maximumBytes policy)"
    "onward (classifyOpenFailure px path before referent target policy openErr)"
    "onward (check_opened px fd maximumBytes before referent)"
    "onward (check_stable px fd path policy before opened target content)"
    by (simp_all add: onward_calm calm_context calm_inspect calm_classify)
qed

lemma onward_opened: "onward (read_opened sha px fd path maximumBytes policy before referent target)"
  unfolding read_opened_def untouched_def
  by (auto intro!: onward_intros onward_checks onward_read split: prod.split)

lemma onward_snapshot: "onward (readRegularFileSnapshot sha (Some px) path maximumBytes policy)"
  unfolding readRegularFileSnapshot_def untouched_def openRegularFile_def
  by (auto intro!: onward_intros onward_checks onward_opened split: option.split prod.split sum.split)

lemma onward_snapshot_context: "onward (ReadRegularFileSnapshotContext sha (Some px) path maximumBytes)"
  unfolding ReadRegularFileSnapshotContext_def
  by (auto intro!: onward_intros onward_snapshot split: prod.split)

lemma shown_later:
  "content_shown later data info start j wl w content \<Longrightarrow> later w w' \<Longrightarrow> content_shown later data info start j wl w' content"
  unfolding content_shown_def by (meson later_trans)

lemma cache_ok_later:
  assumes "cache_ok later data info sha start pass w" "later w w'" "op_fileCache pass' = op_fileCache pass"
  shows "cache_ok later data info sha start pass' w'"
  unfolding cache_ok_def
proof (intro conjI allI impI)
  show "later start w'" using assms(1,2) later_trans unfolding cache_ok_def by blast
next
  fix cache key cached assume "op_fileCache pass' = Some cache" "map_of cache key = Some cached"
  then obtain i wm content where "later start wm" "later wm w" "ce_version cached = fst (RegularFileVersionOf (info i wm))"
      "ce_revision cached = file_revision info sha key i wm content" "content_shown later data info start i wm w content"
    using assms(1,3) unfolding cache_ok_def by metis
  then show "\<exists>i wm content. later start wm \<and> later wm w' \<and> ce_version cached = fst (RegularFileVersionOf (info i wm)) \<and>
      ce_revision cached = file_revision info sha key i wm content \<and> content_shown later data info start i wm w' content"
    using later_trans[OF _ assms(2)] shown_later[OF _ assms(2)] by blast
qed

text \<open>Equal version witnesses give revisions of the same metadata, and what was shown of the one file is shown of the other.\<close>

lemma same_version_revision:
  assumes "RegularFileVersion_Equal (fst (RegularFileVersionOf (info i wm))) (fst (RegularFileVersionOf (info j wl)))"
  shows "file_revision info sha key i wm content = file_revision info sha key j wl content"
proof -
  have "snapshot_stream (info i wm) content = snapshot_stream (info j wl) content"
    using equal_versions(2)[OF assms] by (simp add: snapshot_stream_inject)
  then show ?thesis by (simp add: file_revision_def regularFileSnapshotRevision_def)
qed

lemma shown_transfer:
  assumes "RegularFileVersion_Equal (fst (RegularFileVersionOf (info i wm))) (fst (RegularFileVersionOf (info j wl)))"
    and "content_shown later data info start i wm w content"
    and "later start wm \<and> later wm wl \<and> later wl w \<or> later start wl \<and> later wl wm \<and> later wm w"
  shows "content_shown later data info start j wl w content"
proof -
  note same = equal_versions(1)[OF assms(1)]
  from assms(2) consider "content = data i wm"
    | i' wa k wb where "later start wa" "later wa wb" "later wb w" "same_metadata (info i wm) (info i' wa)"
        "unseen_change later data info i' wa k wb"
    unfolding content_shown_def by blast
  then show ?thesis
  proof cases
    case 1
    have self: "same_metadata (info j wl) (info j wl)" using same same_metadata_sym same_metadata_trans by blast
    show ?thesis
    proof (cases "data j wl = data i wm")
      case False
      then have "unseen_change later data info i wm j wl" "unseen_change later data info j wl i wm"
        using same same_metadata_sym by (auto simp: unseen_change_def)
      then show ?thesis using assms(3) same_metadata_sym[OF same] self unfolding content_shown_def by meson
    qed (simp add: content_shown_def 1)
  next
    case 2
    then show ?thesis
      using same_metadata_trans[OF same_metadata_sym[OF same] 2(4)] unfolding content_shown_def by blast
  qed
qed

text \<open>What a step of a capture does to the pass: the world moves forward, the cache stays right, and a file
  revision that is returned is of the metadata of the file the path names.\<close>

definition captured ::
  "(string \<Rightarrow> string) \<Rightarrow> canonicalPath \<Rightarrow> 'w \<Rightarrow> 'w \<Rightarrow> (revisionError + SnapshotRevision) \<times> 'w \<times> RevisionObservationPass \<Rightarrow> bool" where
  "captured sha identity start w result \<longleftrightarrow> (case result of (r, (w', pass')) \<Rightarrow>
     later w w' \<and> cache_ok later data info sha start pass' w' \<and>
     (\<forall>revision. r = Inr revision \<longrightarrow> sr_kind revision = revisionFile \<longrightarrow>
        (\<exists>j wl content. later w wl \<and> later wl w' \<and> names (accessPath identity) False j wl \<and>
           revision = file_revision info sha (keyPath identity) j wl content \<and>
           content_shown later data info start j wl w' content)))"

lemma captured_later: "later w w1 \<Longrightarrow> captured sha identity start w1 result \<Longrightarrow> captured sha identity start w result"
  unfolding captured_def by (auto split: prod.splits) (metis later_trans)+

lemma captured_Inl: "cache_ok later data info sha start pass w \<Longrightarrow> captured sha identity start w (Inl e, (w, pass))"
  by (simp add: captured_def later_refl)

lemma captured_other: "cache_ok later data info sha start pass w \<Longrightarrow> sr_kind revision \<noteq> revisionFile \<Longrightarrow> captured sha identity start w (Inr revision, (w, pass))"
  by (simp add: captured_def later_refl)

lemma captured_file:
  assumes "cache_ok later data info sha start pass w" "names (accessPath identity) False j w"
    and "content_shown later data info start j w w content"
  shows "captured sha identity start w (Inr (file_revision info sha (keyPath identity) j w content), (w, pass))"
  unfolding captured_def using assms later_refl by blast

lemma captured_on_world:
  assumes "onward m" "cache_ok later data info sha start pass w"
    and "\<And>x w1. m w = (Inr x, w1) \<Longrightarrow> later w w1 \<Longrightarrow> cache_ok later data info sha start pass w1 \<Longrightarrow> captured sha identity start w (f x (w1, pass))"
  shows "captured sha identity start w (io_bind (on_world m) f (w, pass))"
proof -
  obtain r w1 where m: "m w = (r, w1)" by (cases "m w")
  have w1: "later w w1" using assms(1) m unfolding onward_def by (metis snd_conv)
  have ok: "cache_ok later data info sha start pass w1" using cache_ok_later[OF assms(2) w1] by simp
  show ?thesis
  proof (cases r)
    case (Inl e)
    then have "io_bind (on_world m) f (w, pass) = (Inl e, (w1, pass))" using m by (simp add: io_bind_def on_world_def)
    then show ?thesis using captured_later[OF w1 captured_Inl[OF ok]] by simp
  next
    case (Inr x)
    then have "io_bind (on_world m) f (w, pass) = f x (w1, pass)" using m by (simp add: io_bind_def on_world_def)
    then show ?thesis using assms(3)[OF m[unfolded Inr] w1 ok] by simp
  qed
qed

lemma captured_charge:
  assumes "cache_ok later data info sha start pass w"
    and "\<And>pass'. op_fileCache pass' = op_fileCache pass \<Longrightarrow> cache_ok later data info sha start pass' w \<Longrightarrow> captured sha identity start w (f () (w, pass'))"
  shows "captured sha identity start w (io_bind (with_tree_budget (charge g)) f (w, pass))"
proof -
  have ok: "cache_ok later data info sha start pass' w" if "op_fileCache pass' = op_fileCache pass" for pass'
    using cache_ok_later[OF assms(1) later_refl that] .
  then show ?thesis using assms
    by (auto simp: io_bind_def with_tree_budget_def charge_def captured_Inl split: sum.split prod.split)
qed

lemma captured_bounded:
  assumes "rs_files sys = px" "cache_ok later data info sha start pass w"
    and "inspected = info j w" "names (accessPath identity) False j w"
  shows "captured sha identity start w (captureBoundedRevisionFile sha sys request identity inspected (w, pass))"
  unfolding captureBoundedRevisionFile_def Let_def assms(1)
proof (rule captured_charge[OF assms(2)], rule captured_on_world, goal_cases)
  case (1 pass1)
  then show ?case by (intro onward_wrap onward_snapshot_context)
next
  case (2 pass1)
  then show ?case by simp
next
  case (3 pass1 found w1)
  note refused = captured_later[OF 3(4) captured_Inl[OF 3(5)]]
  show ?case
  proof (cases "\<exists>snapshot. found = Some snapshot \<and> same_bounded_version inspected snapshot")
    case False
    then show ?thesis using refused by (auto split: option.splits)
  next
    case True
    then obtain snapshot where Some: "found = Some snapshot" and same: "same_bounded_version inspected snapshot" by blast
    obtain n where "readRegularFileSnapshot sha (Some px) (accessPath identity)
        (min (if fi_size inspected = 0 then 1 else fi_size inspected) (maximumRegularFileBytes request)) rejectFinalSymlink w =
        (Inr (Some snapshot, n), w1)"
      using 3(3) Some by (auto simp: ReadRegularFileSnapshotContext_def io_results)
    from snapshot_at_one_instant[OF this] obtain i wo wa wb we where
      order: "later w wo" "later wo wa" "later wa wb" "later wb we" "later we w1" and shot: "snapshot_of sha info snapshot i wa"
      and read: "sn_content snapshot = data i wa \<or> unseen_change later data info i wa i wb"
      and metadata: "same_metadata (info i wa) (info i wb)"
      by blast
    have wa: "later w wa" "later wb w1" "later wa w1" using order later_trans by blast+
    have start: "later start w" "later start wa" using assms(2) wa(1) later_trans unfolding cache_ok_def by blast+
    have version: "sn_version snapshot = fst (RegularFileVersionOf (info i wa))"
      and revision: "bounded_file_revision sha (keyPath identity) (sn_revision snapshot) =
        file_revision info sha (keyPath identity) i wa (sn_content snapshot)"
      using shot by (simp_all add: snapshot_of_def file_revision_def)
    have equal: "RegularFileVersion_Equal (fst (RegularFileVersionOf (info i wa))) (fst (RegularFileVersionOf (info j w)))"
    proof -
      have "rv_valid (fst (RegularFileVersionOf (info i wa)))"
        using shot metadata by (auto simp: snapshot_of_def same_metadata_def os_SameFile_def RegularFileVersionOf_def
            regularFileObjectIdentity_def fileChangeVersion_def split: option.splits)
      then show ?thesis using same version assms(3)
        by (auto simp: same_bounded_version_def Let_def RegularFileVersion_Equal_def split: prod.splits)
    qed
    have self: "same_metadata (info i wa) (info i wa)" using metadata same_metadata_sym same_metadata_trans by blast
    have shown: "content_shown later data info start i wa w1 (sn_content snapshot)"
      using read start(2) order(3) wa(2) self unfolding content_shown_def by blast
    have current: "content_shown later data info start j w w1 (sn_content snapshot)"
      by (rule shown_transfer[OF equal shown]) (use start(1) wa in blast)
    let ?entry = "\<lparr>ce_version = sn_version snapshot,
      ce_revision = bounded_file_revision sha (keyPath identity) (sn_revision snapshot)\<rparr>"
    have kept: "cache_ok later data info sha start
        (pass1\<lparr>op_fileCache := map_option (AList.update (keyPath identity) ?entry) (op_fileCache pass1)\<rparr>) w1"
      using 3(5) revision version wa(3) start(2) shown unfolding cache_ok_def by (fastforce simp: update_conv split: if_splits)
    have found: "\<exists>j wl content. later w wl \<and> later wl w1 \<and> names (accessPath identity) False j wl \<and>
        bounded_file_revision sha (keyPath identity) (sn_revision snapshot) = file_revision info sha (keyPath identity) j wl content \<and>
        content_shown later data info start j wl w1 content"
      using current revision same_version_revision[OF equal] 3(4) later_refl assms(4) by metis
    show ?thesis using 3(4,5) found kept Some same
      by (auto simp: io_bind_def remember_def captured_def)
  qed
qed

lemma captured_cached:
  assumes "rs_files sys = px" "cache_ok later data info sha start pass w" "inspected = info j w" "names (accessPath identity) False j w"
  shows "captured sha identity start w (io_bind (cached_revision (keyPath identity) inspected) (\<lambda>cached. case cached of
      Some revision \<Rightarrow> io_return revision
    | None \<Rightarrow> captureBoundedRevisionFile sha sys request identity inspected) (w, pass))"
proof -
  obtain hit where hit: "cached_revision (keyPath identity) inspected (w, pass) = (Inr hit, (w, pass))"
    by (simp add: cached_revision_def)
  show ?thesis
  proof (cases hit)
    case None
    then show ?thesis using hit captured_bounded[OF assms] by (simp add: io_bind_def)
  next
    case (Some revision)
    then obtain cache cached where cached: "op_fileCache pass = Some cache" "map_of cache (keyPath identity) = Some cached"
      "RegularFileVersion_Equal (ce_version cached) (fst (RegularFileVersionOf inspected))" "revision = ce_revision cached"
      using hit by (auto simp: cached_revision_def split: option.splits prod.splits bool.splits if_splits)
    then obtain i wm content where entry: "later start wm" "later wm w" "ce_version cached = fst (RegularFileVersionOf (info i wm))"
      "ce_revision cached = file_revision info sha (keyPath identity) i wm content"
      "content_shown later data info start i wm w content"
      using assms(2) unfolding cache_ok_def by blast
    have equal: "RegularFileVersion_Equal (fst (RegularFileVersionOf (info i wm))) (fst (RegularFileVersionOf (info j w)))"
      using cached(3) entry(3) assms(3) by simp
    have "content_shown later data info start j w w content"
      by (rule shown_transfer[OF equal entry(5)]) (use entry(1,2) later_refl in blast)
    moreover have "revision = file_revision info sha (keyPath identity) j w content"
      using cached(4) entry(4) same_version_revision[OF equal] by simp
    ultimately show ?thesis using hit Some captured_file[OF assms(2,4)] by (simp add: io_bind_def)
  qed
qed

lemma captured_symlink:
  assumes "rs_files sys = px" "cache_ok later data info sha start pass w"
  shows "captured sha identity start w (capture_symlink sha sys request identity inspected (w, pass))"
proof (cases "rr_Effect request \<noteq> PathEffectDirectoryEntry")
  case True
  then show ?thesis using assms(2) by (simp add: capture_symlink_def captured_Inl)
next
  case False
  have active: "onward (revision_context sys)"
    unfolding revision_context_def assms(1) by (intro onward_intros)
  show ?thesis unfolding capture_symlink_def assms(1) if_not_P[OF False]
  proof (intro captured_on_world onward_intros active, goal_cases)
    case 1
    then show ?case using assms(2) by simp
  next
    case (2 target w1)
    show ?case
    proof (rule captured_later[OF 2(2)], intro captured_on_world onward_intros active, goal_cases)
      case 1
      then show ?case using 2 by simp
    next
      case (2 u w2)
      show ?case
      proof (rule captured_later[OF 2(2)], intro captured_on_world onward_intros, goal_cases)
        case 1
        then show ?case using 2 by simp
      next
        case (2 current w3)
        then show ?case
          using captured_later[OF 2(2) captured_Inl[OF 2(3)]] captured_later[OF 2(2) captured_other[OF 2(3)]]
          by (simp add: newSnapshotRevision_def revisionSymlink_def revisionFile_def)
      qed
    qed
  qed
qed

lemma captured_inspected:
  assumes "rs_files sys = px" "captureMode request = revisionCaptureBoundedFile" "cache_ok later data info sha start pass w" "inspected = info j w" "names (accessPath identity) False j w"
  shows "captured sha identity start w (capture_inspected sha sys request identity inspected (w, pass))"
proof -
  have modes: "revisionCaptureBoundedFile \<noteq> revisionCaptureRequiredAbsentEntry"
    "revisionCaptureBoundedFile \<noteq> revisionCaptureDirectoryListing"
    by (simp_all add: revisionCaptureBoundedFile_def revisionCaptureRequiredAbsentEntry_def revisionCaptureDirectoryListing_def)
  show ?thesis
    using captured_symlink[OF assms(1,3)] captured_cached[OF assms(1,3,4,5)] captured_Inl[OF assms(3)]
    by (simp add: capture_inspected_def capture_regular_def capture_directory_def assms(2) modes)
qed

lemma captured_revision:
  assumes "rs_files sys = px" "captureMode request = revisionCaptureBoundedFile"
    and "observe (rr_Path request) (rr_Effect request) = Inr identity" "cache_ok later data info sha start pass w"
  shows "captured sha identity start w (captureRevision sha observe (Some sys) request (w, pass))"
proof -
  have active: "onward (revision_context sys)"
    unfolding revision_context_def assms(1) by (intro onward_intros)
  have mode: "revisionCaptureBoundedFile \<noteq> 0" by (simp add: revisionCaptureBoundedFile_def)
  have absent: "sr_kind (newSnapshotRevision sha revisionAbsent key h) \<noteq> revisionFile" for key h
    by (simp add: newSnapshotRevision_def revisionAbsent_def revisionFile_def)
  have "captured sha identity start w (io_bind (on_world (revision_context sys)) (\<lambda>_.
      if captureMode request = 0 then io_raise CaptureModeRequired
      else if op_budget pass = None then io_raise OperationBudgetRequired
      else io_bind (on_world (io_try (px_lstat (rs_files sys) (accessPath identity)))) (\<lambda>r. case r of
          Inl e \<Rightarrow> if e = ENOENT then io_return (newSnapshotRevision sha revisionAbsent (keyPath identity)
              (newRevisionHasher (keyPath identity) revisionAbsent)) else io_raise (SystemError e)
        | Inr info \<Rightarrow> capture_inspected sha sys request identity info)) (w, pass))"
  proof (intro captured_on_world active, goal_cases)
    case 1
    then show ?case by (rule assms(4))
  next
    case (2 u w1)
    show ?case
    proof (cases "op_budget pass = None")
      case True
      then show ?thesis using assms(2) mode captured_later[OF 2(2) captured_Inl[OF 2(3)]] by simp
    next
      case False
      have "captured sha identity start w1 (io_bind (on_world (io_try (px_lstat px (accessPath identity)))) (\<lambda>r. case r of
          Inl e \<Rightarrow> if e = ENOENT then io_return (newSnapshotRevision sha revisionAbsent (keyPath identity)
              (newRevisionHasher (keyPath identity) revisionAbsent)) else io_raise (SystemError e)
        | Inr info \<Rightarrow> capture_inspected sha sys request identity info) (w1, pass))"
      proof (intro captured_on_world onward_intros, goal_cases)
        case 1
        then show ?case by (rule 2(3))
      next
        case (2 r w2)
        show ?case
        proof (cases r)
          case (Inl e)
          then show ?thesis
            using captured_later[OF 2(2) captured_Inl[OF 2(3)]] captured_later[OF 2(2) captured_other[OF 2(3) absent]] by simp
        next
          case (Inr inspected)
          then have "px_lstat px (accessPath identity) w1 = (Inr inspected, w2)" using 2(1) by (simp add: io_try_Inr)
          then obtain j where "inspected = info j w2" "names (accessPath identity) False j w2" using lstat_info by blast
          then show ?thesis
            using captured_later[OF 2(2) captured_inspected[OF assms(1,2) 2(3)]] Inr by simp
        qed
      qed
      then show ?thesis using captured_later[OF 2(2)] False assms(1,2) mode by auto
    qed
  qed
  then show ?thesis unfolding captureRevision_def prod.case option.case assms(3) sum.case .
qed

end

text \<open>C29: capturing a bounded file never mixes versions up, cached or not: a file revision that a pass returns is made of the metadata
  that the file the path names has at an instant of this very capture, and of its content at that instant, unless
  between two instants of the pass (which began at \<open>start\<close>) at which that metadata was reported the content changed or
  belonged to another file, the limit \<^verbatim>\<open>docs/platforms.md\<close> states. The pass's cache stays correct for the next
  capture, also after an error.\<close>

theorem bounded_capture_is_current:
  assumes "kernel_files px later object offset data info undisturbed names entry" "rs_files sys = px"
    and "captureMode request = revisionCaptureBoundedFile"
    and "observe (rr_Path request) (rr_Effect request) = Inr identity"
    and "cache_ok later data info sha start pass w"
    and "observation_capture sha observe (Some sys) request (w, pass) = (r, (w', pass'))"
  shows "cache_ok later data info sha start pass' w' \<and>
    (\<forall>revision. r = Inr revision \<longrightarrow> sr_kind revision = revisionFile \<longrightarrow>
       (\<exists>j wl content. later w wl \<and> later wl w' \<and> names (accessPath identity) False j wl \<and>
          revision = file_revision info sha (keyPath identity) j wl content \<and>
          content_shown later data info start j wl w' content))"
proof (cases "op_budget pass = None \<or> op_fileCache pass = None")
  case True
  then show ?thesis using assms(5,6) by (auto simp: observation_capture_def)
next
  case False
  then have "captureRevision sha observe (Some sys) request (w, pass) = (r, (w', pass'))"
    using assms(6) by (simp add: observation_capture_def split: if_splits)
  then show ?thesis
    using kernel_files.captured_revision[where observe = observe, OF assms(1-5)]
    by (simp add: kernel_files.captured_def[OF assms(1)])
qed

text \<open>Two captures of one file: the second is answered by the cache and charges nothing.\<close>

definition disk_system :: "disk revision_system" where
  "disk_system = \<lparr>rs_files = disk_posix, rs_opendir = (\<lambda>_ w. (Inl ENOENT, w)),
     rs_readdirnames = (\<lambda>_ _ w. (([], Some EOF), w)), rs_openat = (\<lambda>_ _ _ w. (Inl ENOENT, w)),
     rs_fstat = (\<lambda>_ w. (Inl ENOENT, w)), rs_readlinkat = (\<lambda>_ _ _ w. (Inl ENOENT, w))\<rparr>"

definition sample_identity :: canonicalPath where
  "sample_identity = \<lparr>keyPath = ''/a'', accessPath = ''/a'', cp_witness = [], cp_provisional = zero_Provisional,
     cp_namespaceLease = zero_namespace\<rparr>"

definition sample_request :: RevisionRequest where
  "sample_request = \<lparr>rr_Path = ''/a'', rr_Effect = PathEffectReferent, maximumRegularFileBytes = 10,
     captureMode = revisionCaptureBoundedFile\<rparr>"

definition sample_pass :: RevisionObservationPass where
  "sample_pass = \<lparr>op_fileCache = Some [], op_budget = Some \<lparr>ob_limits = sample_limits, ob_entries = 0, ob_bytes = 0\<rparr>\<rparr>"

abbreviation sample_capture where
  "sample_capture \<equiv> observation_capture (\<lambda>_. []) (\<lambda>_ _. Inr sample_identity) (Some disk_system) sample_request"

theorem bounded_capture_is_current_witness:
  "\<exists>revision j wl content. fst (sample_capture (snd (sample_capture (sample_disk, sample_pass)))) = Inr revision \<and>
     revision = file_revision object_info (\<lambda>_. []) ''/a'' j wl content \<and> disk_names ''/a'' False j wl \<and>
     disk_later (fst (snd (sample_capture (sample_disk, sample_pass)))) wl"
proof -
  let ?one = "sample_capture (sample_disk, sample_pass)"
  let ?two = "sample_capture (snd ?one)"
  have start: "cache_ok disk_later object_data object_info (\<lambda>_. []) sample_disk sample_pass sample_disk"
    by (simp add: cache_ok_def sample_pass_def disk_later_refl)
  have sys: "rs_files disk_system = disk_posix" "captureMode sample_request = revisionCaptureBoundedFile"
    by (simp_all add: disk_system_def sample_request_def)
  have runs: "(case fst ?two of Inr revision \<Rightarrow> sr_kind revision = revisionFile | _ \<Rightarrow> False)"
    "op_budget (snd (snd ?two)) = op_budget (snd (snd ?one)) \<and> op_budget (snd (snd ?one)) \<noteq> op_budget sample_pass"
    by code_simp+
  obtain r1 w1 p1 where one: "?one = (r1, (w1, p1))" by (cases ?one) auto
  obtain r2 w2 p2 where two: "sample_capture (w1, p1) = (r2, (w2, p2))" by (cases "sample_capture (w1, p1)") auto
  have ok: "cache_ok disk_later object_data object_info (\<lambda>_. []) sample_disk p1 w1"
    using bounded_capture_is_current[OF disk_files.kernel_files_axioms sys _ start one] by blast
  obtain revision where revision: "r2 = Inr revision" "sr_kind revision = revisionFile"
    using runs(1) one two by (auto split: sum.splits)
  show ?thesis
    using bounded_capture_is_current[OF disk_files.kernel_files_axioms sys _ ok two] revision one two
    by (auto simp: sample_identity_def)
qed

end
