(* ===== verification/JsonStrict.thy ===== *)
theory JsonStrict
  imports FileSnapshot
begin

text \<open>
  Strict validation of persisted JSON: \<^verbatim>\<open>internal/encoding/jsonstrict/validate.go\<close> under the background
  context. The decoder of \<^verbatim>\<open>encoding/json\<close> appears as the tokens it returns for a text, and whether
  the text then ends cleanly; trees are the values those tokens spell.
\<close>

section \<open>Tokens and values\<close>

datatype jtoken = TObject | TObjectEnd | TArray | TArrayEnd | TString string | TNumber string | TBool bool | TNull

datatype json =
    JNull
  | JBool bool
  | JNumber string
  | JString string
  | JArray "json list"
  | JObject "(string \<times> json) list"

fun tokens :: "json \<Rightarrow> jtoken list" where
  "tokens JNull = [TNull]"
| "tokens (JBool b) = [TBool b]"
| "tokens (JNumber n) = [TNumber n]"
| "tokens (JString s) = [TString s]"
| "tokens (JArray js) = TArray # concat (map tokens js) @ [TArrayEnd]"
| "tokens (JObject ms) = TObject # concat (map (\<lambda>(k, j). TString k # tokens j) ms) @ [TObjectEnd]"

datatype jsonError =
    ErrDuplicateObjectKey string
  | ErrMaximumDepthExceeded
  | ErrMultipleValues
  | DepthInvalid
  | JsonNotUTF8
  | UnpairedSurrogate
  | JsonSyntax
  | UnexpectedDelimiter
  | KeyNotString
  | KeyNotCanonical string
  | NullRejected
  | NotAnObject
  | VersionRequired
  | VersionInvalid
  | CurrentVersionInvalid
  | TokensExhausted

record validationRules =
  canonicalObjectKeys :: bool
  rejectNull :: bool

section \<open>Key spelling\<close>

text \<open>The loop over the characters: \<open>i\<close> is the index, \<open>n\<close> the length.\<close>

fun snake_case_from :: "nat \<Rightarrow> nat \<Rightarrow> bool \<Rightarrow> string \<Rightarrow> bool" where
  "snake_case_from n i previousUnderscore [] = True"
| "snake_case_from n i previousUnderscore (c # cs) =
     (if in_range 0x61 0x7A c then snake_case_from n (Suc i) False cs
      else if i > 0 \<and> in_range 0x30 0x39 c then snake_case_from n (Suc i) False cs
      else if i > 0 \<and> i < n - 1 \<and> c = CHR ''_'' \<and> \<not> previousUnderscore then snake_case_from n (Suc i) True cs
      else False)"

definition isASCIILowerSnakeCase :: "string \<Rightarrow> bool" where
  "isASCIILowerSnakeCase val \<longleftrightarrow> val \<noteq> [] \<and> snake_case_from (length val) 0 False val"

text \<open>What it accepts: words of lower-case letters and digits joined by single underscores, with a letter first.\<close>

definition snake_key :: "string \<Rightarrow> bool" where
  "snake_key key \<longleftrightarrow> key \<noteq> [] \<and> in_range 0x61 0x7A (hd key) \<and>
     (\<forall>word \<in> set (split_on (CHR ''_'') key). word \<noteq> [] \<and> list_all (\<lambda>c. in_range 0x61 0x7A c \<or> in_range 0x30 0x39 c) word)"

abbreviation snake_char :: "char \<Rightarrow> bool" where
  "snake_char c \<equiv> in_range 0x61 0x7A c \<or> in_range 0x30 0x39 c"

lemma snake_from:
  assumes "i + length s = n" "0 < i" "split_on (CHR ''_'') s = w # ws"
  shows "snake_case_from n i u s \<longleftrightarrow> list_all snake_char w \<and> (ws \<noteq> [] \<and> w = [] \<longrightarrow> \<not> u) \<and>
    (\<forall>word \<in> set ws. word \<noteq> [] \<and> list_all snake_char word)"
  using assms
proof (induction s arbitrary: i u w ws)
  case (Cons c s)
  have range: "\<not> snake_char (CHR ''_'')" by (simp add: in_range_def)
  obtain v vs where split: "split_on (CHR ''_'') s = v # vs" by (cases "split_on (CHR ''_'') s") auto
  have "s = [] \<longleftrightarrow> v = [] \<and> vs = []"
    using split join_split[of "CHR ''_''" s] by auto
  then have edge: "s = [] \<longleftrightarrow> v = [] \<and> vs = []" by (auto simp: split)
  have IH: "snake_case_from n (Suc i) u' s \<longleftrightarrow> list_all snake_char v \<and> (vs \<noteq> [] \<and> v = [] \<longrightarrow> \<not> u') \<and>
    (\<forall>word \<in> set vs. word \<noteq> [] \<and> list_all snake_char word)" for u'
    by (rule Cons.IH) (use Cons.prems split in auto)
  have last: "i < n - 1 \<longleftrightarrow> s \<noteq> []" using Cons.prems(1) by (cases s) auto
  show ?case
  proof (cases "c = CHR ''_''")
    case True
    then have "w = []" "ws = v # vs" using Cons.prems(3) split by simp_all
    then show ?thesis using range last edge Cons.prems(2) IH[of True] True by auto
  next
    case False
    then have "w = c # v" "ws = vs" using Cons.prems(3) split by simp_all
    then show ?thesis using Cons.prems(2) IH[of False] False by simp
  qed
qed simp

lemma snake_exact: "isASCIILowerSnakeCase key = snake_key key"
proof (cases key)
  case (Cons c s)
  have range: "\<not> in_range 0x61 0x7A (CHR ''_'')" by (simp add: in_range_def)
  obtain v vs where split: "split_on (CHR ''_'') s = v # vs" by (cases "split_on (CHR ''_'') s") auto
  then show ?thesis
    using snake_from[of 1 s "length key" v vs False] Cons range
    by (cases "c = CHR ''_''") (auto simp: isASCIILowerSnakeCase_def snake_key_def)
qed (simp add: isASCIILowerSnakeCase_def snake_key_def)

section \<open>Consuming one value\<close>

text \<open>The tokens left after one value; the first argument bounds the number of calls and is never reached
  by a caller that passes the number of tokens.\<close>

primrec consumeMembers ::
  "nat \<Rightarrow> (jtoken list \<Rightarrow> jsonError + jtoken list) \<Rightarrow> validationRules \<Rightarrow> string list \<Rightarrow> jtoken list \<Rightarrow> jsonError + jtoken list" where
  "consumeMembers 0 val rules seen ts = Inl TokensExhausted"
| "consumeMembers (Suc n) val rules seen ts =
     (case ts of
        [] \<Rightarrow> Inl JsonSyntax
      | t # rest \<Rightarrow>
          if t = TObjectEnd then Inr rest
          else if t = TArrayEnd then Inl UnexpectedDelimiter
          else (case t of
              TString key \<Rightarrow>
                if canonicalObjectKeys rules \<and> \<not> isASCIILowerSnakeCase key then Inl (KeyNotCanonical key)
                else if key \<in> set seen then Inl (ErrDuplicateObjectKey key)
                else ebind (val rest) (consumeMembers n val rules (key # seen))
            | _ \<Rightarrow> Inl KeyNotString))"

primrec consumeElements ::
  "nat \<Rightarrow> (jtoken list \<Rightarrow> jsonError + jtoken list) \<Rightarrow> jtoken list \<Rightarrow> jsonError + jtoken list" where
  "consumeElements 0 val ts = Inl TokensExhausted"
| "consumeElements (Suc n) val ts =
     (case ts of
        [] \<Rightarrow> Inl JsonSyntax
      | t # rest \<Rightarrow>
          if t = TArrayEnd then Inr rest
          else if t = TObjectEnd then Inl UnexpectedDelimiter
          else ebind (val ts) (consumeElements n val))"

primrec consumeValue :: "nat \<Rightarrow> validationRules \<Rightarrow> int \<Rightarrow> int \<Rightarrow> jtoken list \<Rightarrow> jsonError + jtoken list" where
  "consumeValue 0 rules maximumDepth depth ts = Inl TokensExhausted"
| "consumeValue (Suc n) rules maximumDepth depth ts =
     (if depth > maximumDepth then Inl ErrMaximumDepthExceeded
      else case ts of
          [] \<Rightarrow> Inl JsonSyntax
        | t # rest \<Rightarrow>
            if t = TNull \<and> rejectNull rules then Inl NullRejected
            else if t = TObject then consumeMembers n (consumeValue n rules maximumDepth (depth + 1)) rules [] rest
            else if t = TArray then consumeElements n (consumeValue n rules maximumDepth (depth + 1)) rest
            else if t = TObjectEnd \<or> t = TArrayEnd then Inl UnexpectedDelimiter
            else Inr rest)"

text \<open>The same as a condition on the value.\<close>

fun json_ok :: "validationRules \<Rightarrow> int \<Rightarrow> int \<Rightarrow> json \<Rightarrow> bool" where
  "json_ok rules maximumDepth depth JNull \<longleftrightarrow> depth \<le> maximumDepth \<and> \<not> rejectNull rules"
| "json_ok rules maximumDepth depth (JArray js) \<longleftrightarrow> depth \<le> maximumDepth \<and> list_all (json_ok rules maximumDepth (depth + 1)) js"
| "json_ok rules maximumDepth depth (JObject ms) \<longleftrightarrow> depth \<le> maximumDepth \<and> distinct (map fst ms) \<and>
     (canonicalObjectKeys rules \<longrightarrow> list_all snake_key (map fst ms)) \<and>
     list_all (\<lambda>m. json_ok rules maximumDepth (depth + 1) (snd m)) ms"
| "json_ok rules maximumDepth depth j \<longleftrightarrow> depth \<le> maximumDepth"

section \<open>Escapes\<close>

definition jsonHexNibble :: "char \<Rightarrow> nat option" where
  "jsonHexNibble c =
     (if in_range 0x30 0x39 c then Some (of_char c - 0x30)
      else if in_range 0x61 0x66 c then Some (of_char c - 0x61 + 10)
      else if in_range 0x41 0x46 c then Some (of_char c - 0x41 + 10)
      else None)"

text \<open>The escape at the head of the text, if there is a complete one.\<close>

definition decodeJSONUnicodeEscape :: "string \<Rightarrow> nat option" where
  "decodeJSONUnicodeEscape s = (case s of
       a # b # c1 # c2 # c3 # c4 # _ \<Rightarrow>
         if a = CHR 0x5C \<and> b = CHR ''u'' then
           (case (jsonHexNibble c1, jsonHexNibble c2, jsonHexNibble c3, jsonHexNibble c4) of
              (Some v1, Some v2, Some v3, Some v4) \<Rightarrow> Some (((v1 * 16 + v2) * 16 + v3) * 16 + v4)
            | _ \<Rightarrow> None)
         else None
     | _ \<Rightarrow> None)"

text \<open>Inside a string: the text after its closing quote.\<close>

fun validateJSONStringScalarEscapes :: "string \<Rightarrow> jsonError + string" where
  "validateJSONStringScalarEscapes [] = Inr []"
| "validateJSONStringScalarEscapes (c # s) =
     (if c = CHR 0x22 then Inr s
      else if c = CHR 0x5C then
        (case s of
           [] \<Rightarrow> Inr []
         | d # s' \<Rightarrow>
             if d \<noteq> CHR ''u'' then validateJSONStringScalarEscapes s'
             else (case decodeJSONUnicodeEscape (c # s) of
                 None \<Rightarrow> validateJSONStringScalarEscapes s'
               | Some first \<Rightarrow>
                   if 0xD800 \<le> first \<and> first \<le> 0xDBFF then
                     (case decodeJSONUnicodeEscape (drop 5 s) of
                        Some second \<Rightarrow>
                          if second < 0xDC00 \<or> 0xDFFF < second then Inl UnpairedSurrogate
                          else validateJSONStringScalarEscapes (drop 11 s)
                      | None \<Rightarrow> Inl UnpairedSurrogate)
                   else if 0xDC00 \<le> first \<and> first \<le> 0xDFFF then Inl UnpairedSurrogate
                   else validateJSONStringScalarEscapes (drop 5 s)))
      else validateJSONStringScalarEscapes s)"

declare validateJSONStringScalarEscapes.simps(2) [simp del]

lemma escapes_shrink: "validateJSONStringScalarEscapes s = Inr r \<Longrightarrow> length r \<le> length s"
proof (induction s rule: length_induct)
  case (1 s)
  have IH: "length r \<le> length s" if "validateJSONStringScalarEscapes s' = Inr r" "length s' < length s" for s'
    using 1(1) that by (meson le_trans less_imp_le)
  show ?case
  proof (cases s)
    case (Cons c t)
    have IH': "length r \<le> length s" if "validateJSONStringScalarEscapes s' = Inr r" "length s' \<le> length t" for s'
      by (rule IH[OF that(1)]) (use that(2) Cons in simp)
    show ?thesis
      using 1(2) unfolding Cons validateJSONStringScalarEscapes.simps(2)
      by (auto split: if_splits list.splits option.splits dest: IH' simp flip: Cons) (use Cons in simp)?
  qed (use 1 in simp)
qed

lemma escapes_error: "validateJSONStringScalarEscapes s = Inl e \<Longrightarrow> e = UnpairedSurrogate"
proof (induction s rule: length_induct)
  case (1 s)
  show ?case
  proof (cases s)
    case (Cons c t)
    have IH: "e = UnpairedSurrogate" if "validateJSONStringScalarEscapes s' = Inl e" "length s' \<le> length t" for s'
      using 1(1) that unfolding Cons by (auto simp: less_Suc_eq_le)
    show ?thesis
      using 1(2) unfolding Cons validateJSONStringScalarEscapes.simps(2)
      by (auto split: if_splits list.splits option.splits dest: IH)
  qed (use 1 in simp)
qed

function validateUnicodeScalarEscapes :: "string \<Rightarrow> jsonError + unit" where
  "validateUnicodeScalarEscapes [] = Inr ()"
| "validateUnicodeScalarEscapes (c # s) =
     (if c \<noteq> CHR 0x22 then validateUnicodeScalarEscapes s
      else ebind (validateJSONStringScalarEscapes s) validateUnicodeScalarEscapes)"
  by pat_completeness auto
termination by (relation "measure length") (auto dest: escapes_shrink)


section \<open>Which texts pass the escape check\<close>

text \<open>Hexadecimal digits.\<close>

definition hex_value :: "char \<Rightarrow> nat option" where
  "hex_value = map_of (zip ''0123456789abcdefABCDEF'' ([0..<16] @ [10..<16]))"

lemma hex_value_exact: "jsonHexNibble c = hex_value c"
proof -
  have "\<forall>c. jsonHexNibble c = hex_value c" by code_simp
  then show ?thesis by simp
qed

definition hex_quad :: "string \<Rightarrow> nat option" where
  "hex_quad s = (case map hex_value (take 4 s) of
     [Some a, Some b, Some c, Some d] \<Rightarrow> Some (a * 16 ^ 3 + b * 16 ^ 2 + c * 16 + d) | _ \<Rightarrow> None)"

text \<open>The units of a literal after its opening quote, with the text after the closing one: \<open>Some n\<close> for an escape that
  names the UTF-16 code unit \<open>n\<close>, \<open>None\<close> for any other character or escape.\<close>

fun literal_units :: "string \<Rightarrow> nat option list \<times> string" where
  "literal_units [] = ([], [])"
| "literal_units (c # s) =
     (if c = CHR 0x22 then ([], s)
      else if c \<noteq> CHR 0x5C then apfst (Cons None) (literal_units s)
      else case s of
          [] \<Rightarrow> ([], [])
        | d # s' \<Rightarrow>
            (case (if d = CHR ''u'' then hex_quad s' else None) of
               Some n \<Rightarrow> apfst (Cons (Some n)) (literal_units (drop 4 s'))
             | None \<Rightarrow> apfst (Cons None) (literal_units s')))"

declare literal_units.simps(2) [simp del]

lemma literal_shrinks: "length (snd (literal_units s)) \<le> length s"
proof (induction s rule: literal_units.induct)
  case (2 c s)
  show ?case
  proof (cases "c = CHR 0x22 \<or> c \<noteq> CHR 0x5C")
    case True
    then show ?thesis using 2(1) by (auto simp: literal_units.simps(2))
  next
    case False
    show ?thesis
    proof (cases s)
      case (Cons d s')
      show ?thesis
      proof (cases "if d = CHR ''u'' then hex_quad s' else None")
        case None
        then show ?thesis using False 2(2)[of d s'] Cons by (simp add: literal_units.simps(2))
      next
        case (Some n)
        then show ?thesis using False 2(3)[of d s' n] Cons by (simp add: literal_units.simps(2))
      qed
    qed (use False in \<open>simp add: literal_units.simps(2)\<close>)
  qed
qed simp

function text_literals :: "string \<Rightarrow> nat option list list" where
  "text_literals [] = []"
| "text_literals (c # s) =
     (if c \<noteq> CHR 0x22 then text_literals s
      else fst (literal_units s) # text_literals (snd (literal_units s)))"
  by pat_completeness auto
termination by (relation "measure length") (auto simp: literal_shrinks less_Suc_eq_le)

definition high_unit :: "nat option \<Rightarrow> bool" where
  "high_unit u \<longleftrightarrow> (case u of None \<Rightarrow> False | Some n \<Rightarrow> 0xD800 \<le> n \<and> n \<le> 0xDBFF)"

definition low_unit :: "nat option \<Rightarrow> bool" where
  "low_unit u \<longleftrightarrow> (case u of None \<Rightarrow> False | Some n \<Rightarrow> 0xDC00 \<le> n \<and> n \<le> 0xDFFF)"

text \<open>Every high surrogate is followed by a low one, and every low surrogate follows a high one.\<close>

definition surrogates_paired :: "nat option list \<Rightarrow> bool" where
  "surrogates_paired us \<longleftrightarrow> (\<forall>i < length us.
     (high_unit (us ! i) \<longrightarrow> i + 1 < length us \<and> low_unit (us ! (i + 1))) \<and>
     (low_unit (us ! i) \<longrightarrow> 0 < i \<and> high_unit (us ! (i - 1))))"

lemma unit_kinds [simp]:
  "high_unit (Some n) \<longleftrightarrow> 0xD800 \<le> n \<and> n \<le> 0xDBFF" "low_unit (Some n) \<longleftrightarrow> 0xDC00 \<le> n \<and> n \<le> 0xDFFF"
  "\<not> high_unit None" "\<not> low_unit None"
  by (auto simp: high_unit_def low_unit_def)

lemma unit_clash: "high_unit u \<Longrightarrow> \<not> low_unit u"
  by (cases u) auto

text \<open>The same, unit by unit.\<close>

primrec paired_after :: "nat option \<Rightarrow> nat option list \<Rightarrow> bool" where
  "paired_after u [] = (\<not> high_unit u)"
| "paired_after u (v # us) = (high_unit u = low_unit v \<and> paired_after v us)"

lemma paired_after_iff:
  "paired_after u us \<longleftrightarrow> (\<forall>i < length (u # us). high_unit ((u # us) ! i) \<longrightarrow> i < length us \<and> low_unit (us ! i)) \<and>
     (\<forall>i < length us. low_unit (us ! i) \<longrightarrow> high_unit ((u # us) ! i))"
  by (induction us arbitrary: u) (auto simp: All_less_Suc2)

lemma paired_iff: "surrogates_paired us = paired_after None us"
proof -
  have before: "(low_unit (us ! i) \<longrightarrow> high_unit ((None # us) ! i)) \<longleftrightarrow> (low_unit (us ! i) \<longrightarrow> 0 < i \<and> high_unit (us ! (i - 1)))" for i
    by (cases i) simp_all
  have "surrogates_paired us \<longleftrightarrow> (\<forall>i < length us. high_unit (us ! i) \<longrightarrow> i + 1 < length us \<and> low_unit (us ! (i + 1))) \<and>
      (\<forall>i < length us. low_unit (us ! i) \<longrightarrow> high_unit ((None # us) ! i))"
    unfolding surrogates_paired_def before by blast
  also have "\<dots> \<longleftrightarrow> paired_after None us"
    unfolding paired_after_iff by (cases us) (auto simp: All_less_Suc2)
  finally show ?thesis .
qed

lemma paired_after_plain: "\<not> high_unit u \<Longrightarrow> paired_after u us = paired_after None us"
  by (cases us) auto

lemma paired_Nil [simp]: "surrogates_paired []"
  by (simp add: paired_iff)

lemma paired_plain: "\<not> high_unit u \<Longrightarrow> \<not> low_unit u \<Longrightarrow> surrogates_paired (u # us) = surrogates_paired us"
  by (simp add: paired_iff paired_after_plain[of u us])

lemma paired_low: "low_unit u \<Longrightarrow> \<not> surrogates_paired (u # us)"
  by (simp add: paired_iff)

lemma paired_high:
  assumes "high_unit u"
  shows "surrogates_paired (u # us) \<longleftrightarrow> (\<exists>v vs. us = v # vs \<and> low_unit v \<and> surrogates_paired vs)"
proof (cases us)
  case (Cons v vs)
  then show ?thesis using assms unit_clash[of u] unit_clash[of v] paired_after_plain[of v vs] by (auto simp: paired_iff)
qed (use assms unit_clash[of u] in \<open>simp add: paired_iff\<close>)

text \<open>The loop of the code reads the same units.\<close>

lemma decode_quad: "decodeJSONUnicodeEscape (CHR 0x5C # CHR ''u'' # s) = hex_quad s"
proof (cases "length s < 4")
  case True
  then consider "s = []" | a where "s = [a]" | a b where "s = [a, b]" | a b c where "s = [a, b, c]"
    by (cases s; cases "tl s"; cases "tl (tl s)"; cases "tl (tl (tl s))") auto
  then show ?thesis by cases (simp_all add: decodeJSONUnicodeEscape_def hex_quad_def split: option.split)
next
  case False
  then obtain a b c d t where "s = a # b # c # d # t" by (auto simp: numeral_eq_Suc Suc_le_length_iff not_less)
  then show ?thesis by (simp add: decodeJSONUnicodeEscape_def hex_quad_def hex_value_exact split: option.split)
qed

lemma decode_shape: "decodeJSONUnicodeEscape s = Some n \<Longrightarrow> \<exists>t. s = CHR 0x5C # CHR ''u'' # t \<and> hex_quad t = Some n"
proof -
  assume d: "decodeJSONUnicodeEscape s = Some n"
  then obtain t where "s = CHR 0x5C # CHR ''u'' # t"
    by (auto simp: decodeJSONUnicodeEscape_def split: list.splits if_splits)
  then show ?thesis using d decode_quad by auto
qed

lemma decode_is: "decodeJSONUnicodeEscape s = Some n \<Longrightarrow> literal_units s = apfst (Cons (Some n)) (literal_units (drop 6 s))"
  by (auto dest!: decode_shape simp: literal_units.simps(2) numeral_eq_Suc)

lemma decode_not: "decodeJSONUnicodeEscape s = None \<Longrightarrow> fst (literal_units s) = [] \<or> hd (fst (literal_units s)) = None"
proof (cases s)
  case (Cons c t)
  assume "decodeJSONUnicodeEscape s = None"
  then show ?thesis unfolding Cons
    by (cases t) (auto simp: literal_units.simps(2) decode_quad split: option.split)
qed simp

lemma escapes_exact:
  "validateJSONStringScalarEscapes s =
     (if surrogates_paired (fst (literal_units s)) then Inr (snd (literal_units s)) else Inl UnpairedSurrogate)"
proof (induction s rule: length_induct)
  case (1 s)
  have IH: "validateJSONStringScalarEscapes t =
      (if surrogates_paired (fst (literal_units t)) then Inr (snd (literal_units t)) else Inl UnpairedSurrogate)"
    if "length t < length s" for t using 1 that by blast
  show ?case
  proof (cases s)
    case (Cons c t)
    show ?thesis
    proof (cases "c = CHR 0x22 \<or> c \<noteq> CHR 0x5C \<or> t = []")
      case True
      then show ?thesis using IH[of t] Cons
        by (auto simp: validateJSONStringScalarEscapes.simps(2) literal_units.simps(2) paired_plain)
    next
      case False
      then obtain d u where t: "c = CHR 0x5C" "t = d # u" by (cases t) auto
      show ?thesis
      proof (cases "if d = CHR ''u'' then hex_quad u else None")
        case None
        then have "validateJSONStringScalarEscapes s = validateJSONStringScalarEscapes u"
          using t Cons by (auto simp: validateJSONStringScalarEscapes.simps(2) decode_quad split: if_splits)
        moreover have "literal_units s = apfst (Cons None) (literal_units u)"
          using None t Cons by (simp add: literal_units.simps(2))
        ultimately show ?thesis using IH[of u] t Cons by (simp add: paired_plain)
      next
        case (Some n)
        then have d: "d = CHR ''u''" "hex_quad u = Some n" by (auto split: if_splits)
        let ?r = "drop 4 u"
        have units: "literal_units s = apfst (Cons (Some n)) (literal_units ?r)"
          using d t Cons by (simp add: literal_units.simps(2))
        have loop: "validateJSONStringScalarEscapes s =
           (if 0xD800 \<le> n \<and> n \<le> 0xDBFF then
              (case decodeJSONUnicodeEscape ?r of
                 Some second \<Rightarrow> if second < 0xDC00 \<or> 0xDFFF < second then Inl UnpairedSurrogate
                   else validateJSONStringScalarEscapes (drop 6 ?r)
               | None \<Rightarrow> Inl UnpairedSurrogate)
            else if 0xDC00 \<le> n \<and> n \<le> 0xDFFF then Inl UnpairedSurrogate
            else validateJSONStringScalarEscapes ?r)"
          using d t Cons by (simp add: validateJSONStringScalarEscapes.simps(2) decode_quad split: option.split)
        have IHs: "validateJSONStringScalarEscapes (drop k ?r) =
            (if surrogates_paired (fst (literal_units (drop k ?r))) then Inr (snd (literal_units (drop k ?r))) else Inl UnpairedSurrogate)" for k
          by (rule IH) (simp add: Cons t)
        consider (high) "high_unit (Some n)" | (low) "low_unit (Some n)" | (plain) "\<not> high_unit (Some n)" "\<not> low_unit (Some n)"
          by blast
        then show ?thesis
        proof cases
          case high
          show ?thesis
          proof (cases "decodeJSONUnicodeEscape ?r")
            case None
            from decode_not[OF this] have "\<not> surrogates_paired (Some n # fst (literal_units ?r))"
              unfolding paired_high[OF high] by auto
            then show ?thesis using high None units loop by simp
          next
            case (Some m)
            have "surrogates_paired (fst (literal_units s)) \<longleftrightarrow> low_unit (Some m) \<and> surrogates_paired (fst (literal_units (drop 6 ?r)))"
              using units decode_is[OF Some] paired_high[OF high] by simp
            moreover have "snd (literal_units s) = snd (literal_units (drop 6 ?r))"
              using units decode_is[OF Some] by simp
            ultimately show ?thesis using high Some loop IHs[of 6] by auto
          qed
        next
          case low
          then have "\<not> (0xD800 \<le> n \<and> n \<le> 0xDBFF)" by simp
          then show ?thesis using low units loop paired_low[OF low] by simp
        next
          case plain
          then show ?thesis using units loop paired_plain[OF plain] IHs[of 0] by auto
        qed
      qed
    qed
  qed simp
qed

lemma text_escapes_exact: "validateUnicodeScalarEscapes s = Inr () \<longleftrightarrow> list_all surrogates_paired (text_literals s)"
  by (induction s rule: validateUnicodeScalarEscapes.induct) (auto simp: escapes_exact)

section \<open>Whole texts\<close>

text \<open>UTF-8 is checked in chunks that end before a byte that starts a character.\<close>

definition cancelCheckInterval :: nat where
  "cancelCheckInterval = 4096"

definition rune_start :: "char \<Rightarrow> bool" where
  "rune_start c \<longleftrightarrow> \<not> in_range 0x80 0xBF c"

primrec chunk_back :: "string \<Rightarrow> nat \<Rightarrow> nat" where
  "chunk_back content 0 = 0"
| "chunk_back content (Suc k) = (if rune_start (content ! Suc k) then Suc k else chunk_back content k)"

definition chunk_length :: "string \<Rightarrow> nat" where
  "chunk_length content =
     (if length content \<le> cancelCheckInterval then length content
      else let k = chunk_back content cancelCheckInterval in if k = 0 then cancelCheckInterval else k)"

lemma chunk_length_pos: "content \<noteq> [] \<Longrightarrow> 0 < chunk_length content"
  by (auto simp: chunk_length_def cancelCheckInterval_def Let_def)

function validateUTF8 :: "string \<Rightarrow> bool" where
  "validateUTF8 content =
     (if content = [] then True
      else utf8_valid (take (chunk_length content) content) \<and> validateUTF8 (drop (chunk_length content) content))"
  by pat_completeness auto
termination by (relation "measure length") (auto simp: chunk_length_pos)

declare validateUTF8.simps [simp del]

text \<open>A decoder gives the tokens it returns before it stops and whether it stops at the end of the text.\<close>

type_synonym json_decoder = "string \<Rightarrow> jtoken list \<times> bool"

definition json_validate :: "json_decoder \<Rightarrow> string \<Rightarrow> int \<Rightarrow> validationRules \<Rightarrow> jsonError + unit" where
  "json_validate decoder content maximumDepth rules =
     (if maximumDepth \<le> 0 then Inl DepthInvalid
      else if \<not> validateUTF8 content then Inl JsonNotUTF8
      else ebind (validateUnicodeScalarEscapes content) (\<lambda>_.
        case decoder content of (ts, ended) \<Rightarrow>
          ebind (consumeValue (Suc (length ts)) rules maximumDepth 0 ts) (\<lambda>rest.
          if rest \<noteq> [] then Inl ErrMultipleValues else if \<not> ended then Inl JsonSyntax else Inr ())))"

definition ValidateRecord :: "json_decoder \<Rightarrow> string \<Rightarrow> int \<Rightarrow> jsonError + unit" where
  "ValidateRecord decoder content maximumDepth =
     ebind (json_validate decoder content maximumDepth \<lparr>canonicalObjectKeys = True, rejectNull = True\<rparr>) (\<lambda>_.
     refuse_if (trim_space content = [] \<or> hd (trim_space content) \<noteq> CHR ''{'') NotAnObject)"

text \<open>\<^verbatim>\<open>skipValue\<close> and its loop over the parts of an object or array.\<close>

primrec skip_parts :: "nat \<Rightarrow> (jtoken list \<Rightarrow> jsonError + jtoken list) \<Rightarrow> bool \<Rightarrow> jtoken list \<Rightarrow> jsonError + jtoken list" where
  "skip_parts 0 skip object ts = Inl TokensExhausted"
| "skip_parts (Suc n) skip object ts =
     (case ts of
        [] \<Rightarrow> Inl JsonSyntax
      | t # rest \<Rightarrow>
          if t = TObjectEnd \<or> t = TArrayEnd
          then (if t = (if object then TObjectEnd else TArrayEnd) then Inr rest else Inl UnexpectedDelimiter)
          else ebind (skip (if object then rest else ts)) (skip_parts n skip object))"

primrec skipValue :: "nat \<Rightarrow> jtoken list \<Rightarrow> jsonError + jtoken list" where
  "skipValue 0 ts = Inl TokensExhausted"
| "skipValue (Suc n) ts =
     (case ts of
        [] \<Rightarrow> Inl JsonSyntax
      | t # rest \<Rightarrow>
          if t = TObject then skip_parts n (skipValue n) True rest
          else if t = TArray then skip_parts n (skipValue n) False rest
          else if t = TObjectEnd \<or> t = TArrayEnd then skip_parts n (skipValue n) False rest
          else Inr rest)"

text \<open>\<^verbatim>\<open>strconv.Atoi\<close>.\<close>

definition digits_value :: "string \<Rightarrow> int option" where
  "digits_value s = (if s \<noteq> [] \<and> list_all (in_range 0x30 0x39) s then Some (int (decimal 0 s)) else None)"

definition go_Atoi :: "string \<Rightarrow> int option" where
  "go_Atoi s =
     (case (case s of
         [] \<Rightarrow> None
       | c # r \<Rightarrow> if c = CHR ''-'' then map_option uminus (digits_value r)
                 else if c = CHR ''+'' then digits_value r else digits_value s) of
        None \<Rightarrow> None
      | Some v \<Rightarrow> if - go_max_int - 1 \<le> v \<and> v \<le> go_max_int then Some v else None)"

primrec version_loop :: "nat \<Rightarrow> jtoken list \<Rightarrow> jsonError + int" where
  "version_loop 0 ts = Inl TokensExhausted"
| "version_loop (Suc n) ts =
     (case ts of
        [] \<Rightarrow> Inl VersionRequired
      | t # rest \<Rightarrow>
          if t = TObjectEnd \<or> t = TArrayEnd then Inl VersionRequired
          else (case t of
              TString key \<Rightarrow>
                if key \<noteq> ''version'' then ebind (skipValue n rest) (version_loop n)
                else (case rest of
                    [] \<Rightarrow> Inl JsonSyntax
                  | v # _ \<Rightarrow> (case v of
                      TNumber number \<Rightarrow>
                        (case go_Atoi number of
                           None \<Rightarrow> Inl VersionInvalid
                         | Some version \<Rightarrow> if version \<le> 0 then Inl VersionInvalid else Inr version)
                    | _ \<Rightarrow> Inl VersionInvalid))
            | _ \<Rightarrow> Inl KeyNotString))"

definition exactObjectVersion :: "json_decoder \<Rightarrow> string \<Rightarrow> jsonError + int" where
  "exactObjectVersion decoder content =
     (case fst (decoder content) of
        [] \<Rightarrow> Inl JsonSyntax
      | t # rest \<Rightarrow> if t \<noteq> TObject then Inl NotAnObject else version_loop (Suc (length rest)) rest)"

definition ValidateVersionedObject :: "json_decoder \<Rightarrow> string \<Rightarrow> int \<Rightarrow> jsonError + int" where
  "ValidateVersionedObject decoder content maximumDepth =
     ebind (json_validate decoder content maximumDepth \<lparr>canonicalObjectKeys = True, rejectNull = False\<rparr>) (\<lambda>_.
     exactObjectVersion decoder content)"

datatype VersionDisposition = VersionLegacy | VersionCurrent | VersionFuture

record VersionEnvelope =
  ve_version :: int
  ve_disposition :: VersionDisposition

definition DecodeVersionEnvelope :: "json_decoder \<Rightarrow> string \<Rightarrow> int \<Rightarrow> int \<Rightarrow> jsonError + VersionEnvelope" where
  "DecodeVersionEnvelope decoder content maximumDepth currentVersion =
     (if currentVersion \<le> 0 then Inl CurrentVersionInvalid
      else ebind (ValidateVersionedObject decoder content maximumDepth) (\<lambda>version.
        Inr \<lparr>ve_version = version,
             ve_disposition = (if version < currentVersion then VersionLegacy
                               else if version > currentVersion then VersionFuture else VersionCurrent)\<rparr>))"


section \<open>The chunked check is the check of the whole text\<close>

lemma utf8_append: "utf8_valid a \<Longrightarrow> utf8_valid (a @ b) = utf8_valid b"
  by (induction a rule: utf8_valid.induct) (auto split: if_splits list.splits)

lemma tail_not_start: "utf8_tail c \<Longrightarrow> \<not> rune_start c" "utf8_second a c \<Longrightarrow> \<not> rune_start c"
  by (auto simp: rune_start_def utf8_second_def in_range_def split: if_splits)

lemma utf8_Cons:
  "utf8_valid (a # s) \<longleftrightarrow>
     in_range 0 0x7F a \<and> utf8_valid s \<or>
     in_range 0xC2 0xDF a \<and> (\<exists>b t. s = b # t \<and> utf8_tail b \<and> utf8_valid t) \<or>
     in_range 0xE0 0xEF a \<and> (\<exists>b c t. s = b # c # t \<and> utf8_second a b \<and> utf8_tail c \<and> utf8_valid t) \<or>
     in_range 0xF0 0xF4 a \<and> (\<exists>b c d t. s = b # c # d # t \<and> utf8_second a b \<and> utf8_tail c \<and> utf8_tail d \<and> utf8_valid t)"
proof -
  have "\<not> (in_range 0 0x7F a \<and> in_range 0xC2 0xDF a)" "\<not> (in_range 0 0x7F a \<and> in_range 0xE0 0xEF a)"
    "\<not> (in_range 0 0x7F a \<and> in_range 0xF0 0xF4 a)" "\<not> (in_range 0xC2 0xDF a \<and> in_range 0xE0 0xEF a)"
    "\<not> (in_range 0xC2 0xDF a \<and> in_range 0xF0 0xF4 a)" "\<not> (in_range 0xE0 0xEF a \<and> in_range 0xF0 0xF4 a)"
    by (simp_all add: in_range_def)
  then show ?thesis by (auto split: list.split)
qed

text \<open>Two texts meet at a character boundary when the second is empty or starts a character.\<close>

abbreviation boundary :: "string \<Rightarrow> bool" where
  "boundary b \<equiv> b = [] \<or> rune_start (hd b)"

lemma boundary_cut:
  "boundary b \<Longrightarrow> s @ b = x # t \<Longrightarrow> \<not> rune_start x \<Longrightarrow> \<exists>s'. s = x # s' \<and> t = s' @ b"
  by (cases s) auto

lemma utf8_split: "utf8_valid (a @ b) \<Longrightarrow> boundary b \<Longrightarrow> utf8_valid a"
proof (induction a rule: length_induct)
  case (1 a)
  have IH: "utf8_valid t" if "utf8_valid (t @ b)" "length t < length a" for t using 1 that by blast
  note cut = boundary_cut[OF 1(3)]
  show ?case
  proof (cases a)
    case (Cons c s)
    from 1(2) consider
        "in_range 0 0x7F c" "utf8_valid (s @ b)"
      | x t where "in_range 0xC2 0xDF c" "s @ b = x # t" "utf8_tail x" "utf8_valid t"
      | x y t where "in_range 0xE0 0xEF c" "s @ b = x # y # t" "utf8_second c x" "utf8_tail y" "utf8_valid t"
      | x y z t where "in_range 0xF0 0xF4 c" "s @ b = x # y # z # t" "utf8_second c x" "utf8_tail y" "utf8_tail z" "utf8_valid t"
      unfolding Cons append_Cons utf8_Cons by blast
    then show ?thesis
    proof cases
      case 1
      then show ?thesis unfolding Cons utf8_Cons[of c] using IH[of s] Cons by simp
    next
      case 2
      then obtain s' where "s = x # s'" "t = s' @ b" using cut tail_not_start by blast
      with 2 IH[of s'] Cons show ?thesis unfolding Cons utf8_Cons[of c] by simp
    next
      case 3
      then obtain s' where s': "s = x # s'" "s' @ b = y # t" using cut tail_not_start by metis
      then obtain s'' where "s' = y # s''" "t = s'' @ b" using 3 cut tail_not_start by blast
      with 3 s' IH[of s''] Cons show ?thesis unfolding Cons utf8_Cons[of c] by simp
    next
      case 4
      then obtain s' where s': "s = x # s'" "s' @ b = y # z # t" using cut tail_not_start by metis
      then obtain s'' where s'': "s' = y # s''" "s'' @ b = z # t" using 4 cut tail_not_start by metis
      then obtain u where "s'' = z # u" "t = u @ b" using 4 cut tail_not_start by blast
      with 4 s' s'' IH[of u] Cons show ?thesis unfolding Cons utf8_Cons[of c] by simp
    qed
  qed simp
qed

lemma utf8_starts:
  assumes "utf8_valid s" "4 < length s"
  shows "\<exists>k. 0 < k \<and> k \<le> 4 \<and> rune_start (s ! k)"
proof -
  have start: "rune_start c" if "utf8_valid (c # t)" for c t
    using that unfolding utf8_Cons rune_start_def in_range_def by auto
  obtain a b c d e t where s: "s = a # b # c # d # e # t"
  proof -
    have "Suc (Suc (Suc (Suc (Suc 0)))) \<le> length s" using assms(2) by simp
    then show ?thesis using that by (auto simp: Suc_le_length_iff)
  qed
  have "utf8_valid (b # c # d # e # t) \<or> utf8_valid (c # d # e # t) \<or> utf8_valid (d # e # t) \<or> utf8_valid (e # t)"
    using assms(1) unfolding s utf8_Cons[of a] by (auto simp del: utf8_valid.simps)
  then have "rune_start b \<or> rune_start c \<or> rune_start d \<or> rune_start e" using start by blast
  then have "rune_start (s ! 1) \<or> rune_start (s ! 2) \<or> rune_start (s ! 3) \<or> rune_start (s ! 4)"
    by (simp add: s eval_nat_numeral)
  then obtain k where "k \<in> {1, 2, 3, 4}" "rune_start (s ! k)" by blast
  then show ?thesis by (intro exI[of _ k]) auto
qed

lemma chunk_back_start: "chunk_back s n \<noteq> 0 \<Longrightarrow> rune_start (s ! chunk_back s n) \<and> chunk_back s n \<le> n"
  by (induction n) auto

lemma chunk_back_found: "0 < k \<Longrightarrow> k \<le> n \<Longrightarrow> rune_start (s ! k) \<Longrightarrow> chunk_back s n \<noteq> 0"
  by (induction n) (auto simp: le_Suc_eq)

lemma validateUTF8_exact: "validateUTF8 s = utf8_valid s"
proof (induction s rule: validateUTF8.induct)
  case (1 s)
  show ?case
  proof (cases "s = []")
    case False
    let ?n = "chunk_length s"
    have whole: "utf8_valid s = utf8_valid (take ?n s @ drop ?n s)" by simp
    have "utf8_valid (take ?n s)" if valid: "utf8_valid s"
    proof (rule utf8_split)
      show "utf8_valid (take ?n s @ drop ?n s)" using valid by simp
      show "drop ?n s = [] \<or> rune_start (hd (drop ?n s))"
      proof (cases "length s \<le> cancelCheckInterval")
        case long: False
        then obtain k where "0 < k" "k \<le> 4" "rune_start (s ! k)"
          using utf8_starts[OF valid] by (force simp: cancelCheckInterval_def)
        then have "chunk_back s cancelCheckInterval \<noteq> 0"
          by (intro chunk_back_found[of k]) (auto simp: cancelCheckInterval_def)
        then show ?thesis using chunk_back_start[of s cancelCheckInterval] long
          by (auto simp: chunk_length_def Let_def hd_drop_conv_nth)
      qed (simp add: chunk_length_def)
    qed
    then show ?thesis
      using 1[OF False] False utf8_append[of "take ?n s" "drop ?n s"]
      by (subst validateUTF8.simps) auto
  qed (simp add: validateUTF8.simps)
qed

section \<open>Consuming the tokens of a value\<close>

definition consumed :: "bool \<Rightarrow> jtoken list \<Rightarrow> jsonError + jtoken list \<Rightarrow> bool" where
  "consumed ok rest r \<longleftrightarrow> (if ok then r = Inr rest else \<exists>e. r = Inl e \<and> e \<noteq> TokensExhausted)"

lemma tokens_nonempty [simp]: "tokens j \<noteq> []"
  by (cases j) auto

lemma tokens_head [simp]: "hd (tokens j) \<noteq> TObjectEnd" "hd (tokens j) \<noteq> TArrayEnd"
  by (cases j; simp)+

lemma consume_elements:
  assumes "\<And>j rest. j \<in> set js \<Longrightarrow> consumed (ok j) rest (val (tokens j @ rest))" and "length js < n"
  shows "consumed (list_all ok js) rest (consumeElements n val (concat (map tokens js) @ TArrayEnd # rest))"
  using assms
proof (induction js arbitrary: n)
  case Nil
  then show ?case by (cases n) (simp_all add: consumed_def)
next
  case (Cons j js)
  obtain m where n: "n = Suc m" "length js < m" using Cons.prems(2) by (cases n) auto
  obtain t ts where t: "tokens j = t # ts" using tokens_nonempty[of j] by (cases "tokens j") auto
  let ?more = "concat (map tokens js) @ TArrayEnd # rest"
  have "t \<noteq> TArrayEnd" "t \<noteq> TObjectEnd" using tokens_head[of j] t by auto
  then have "consumeElements n val (tokens j @ ?more) = ebind (val (tokens j @ ?more)) (consumeElements m val)"
    by (simp add: n t)
  moreover have "consumed (ok j) ?more (val (tokens j @ ?more))" by (rule Cons.prems(1)) simp
  moreover have "consumed (list_all ok js) rest (consumeElements m val ?more)"
    by (rule Cons.IH) (use Cons.prems n in auto)
  ultimately show ?case by (cases "ok j") (auto simp: consumed_def)
qed

lemma consume_members:
  assumes "\<And>k j rest. (k, j) \<in> set ms \<Longrightarrow> consumed (ok j) rest (val (tokens j @ rest))" and "length ms < n"
  shows "consumed (distinct (map fst ms) \<and> set seen \<inter> fst ` set ms = {} \<and>
       (canonicalObjectKeys rules \<longrightarrow> list_all snake_key (map fst ms)) \<and> list_all (\<lambda>m. ok (snd m)) ms) rest
     (consumeMembers n val rules seen (concat (map (\<lambda>(k, j). TString k # tokens j) ms) @ TObjectEnd # rest))"
  using assms
proof (induction ms arbitrary: n seen)
  case Nil
  then show ?case by (cases n) (simp_all add: consumed_def)
next
  case (Cons m ms)
  obtain k j where m: "m = (k, j)" by (cases m)
  obtain i where n: "n = Suc i" "length ms < i" using Cons.prems(2) by (cases n) auto
  let ?more = "concat (map (\<lambda>(k, j). TString k # tokens j) ms) @ TObjectEnd # rest"
  have first: "consumed (ok j) ?more (val (tokens j @ ?more))" by (rule Cons.prems(1)[of k]) (simp add: m)
  have others: "consumed (distinct (map fst ms) \<and> set (k # seen) \<inter> fst ` set ms = {} \<and>
       (canonicalObjectKeys rules \<longrightarrow> list_all snake_key (map fst ms)) \<and> list_all (\<lambda>m. ok (snd m)) ms) rest
     (consumeMembers i val rules (k # seen) ?more)"
    by (rule Cons.IH) (use Cons.prems n in auto)
  show ?case
  proof (cases "canonicalObjectKeys rules \<and> \<not> snake_key k \<or> k \<in> set seen \<or> \<not> ok j")
    case True
    then show ?thesis using first by (auto simp: consumed_def n m snake_exact)
  next
    case False
    then have "val (tokens j @ ?more) = Inr ?more" using first by (simp add: consumed_def)
    then show ?thesis using False others by (auto simp: n m consumed_def snake_exact)
  qed
qed

lemma length_concat_ge: "x \<in> set xs \<Longrightarrow> length (f x) \<le> length (concat (map f xs))"
  by (induction xs) auto

lemma length_concat_count: "(\<And>x. x \<in> set xs \<Longrightarrow> f x \<noteq> []) \<Longrightarrow> length xs \<le> length (concat (map f xs))"
  by (induction xs) (auto simp: Suc_le_eq intro: le_less_trans less_le_trans add_strict_increasing)

lemma consume_value:
  "length (tokens j) < n \<Longrightarrow> consumed (json_ok rules maximumDepth depth j) rest (consumeValue n rules maximumDepth depth (tokens j @ rest))"
proof (induction j arbitrary: n depth rest)
  case (JArray js)
  obtain m where n: "n = Suc m" using JArray.prems by (cases n) auto
  have "consumed (list_all (json_ok rules maximumDepth (depth + 1)) js) rest
     (consumeElements m (consumeValue m rules maximumDepth (depth + 1)) (concat (map tokens js) @ TArrayEnd # rest))"
  proof (rule consume_elements)
    show "consumed (json_ok rules maximumDepth (depth + 1) j) r (consumeValue m rules maximumDepth (depth + 1) (tokens j @ r))"
      if "j \<in> set js" for j r
      using JArray.prems length_concat_ge[OF that, of tokens] by (intro JArray.IH[OF that]) (simp add: n)
    show "length js < m" using JArray.prems length_concat_count[of js tokens] by (simp add: n)
  qed
  then show ?case by (cases "depth \<le> maximumDepth") (auto simp: n consumed_def split: if_splits)
next
  case (JObject ms)
  obtain m where n: "n = Suc m" using JObject.prems by (cases n) auto
  let ?f = "\<lambda>(k, j). TString k # tokens j"
  have "consumed (distinct (map fst ms) \<and> set [] \<inter> fst ` set ms = {} \<and>
       (canonicalObjectKeys rules \<longrightarrow> list_all snake_key (map fst ms)) \<and>
       list_all (\<lambda>x. json_ok rules maximumDepth (depth + 1) (snd x)) ms) rest
     (consumeMembers m (consumeValue m rules maximumDepth (depth + 1)) rules [] (concat (map ?f ms) @ TObjectEnd # rest))"
  proof (rule consume_members)
    show "consumed (json_ok rules maximumDepth (depth + 1) j) r (consumeValue m rules maximumDepth (depth + 1) (tokens j @ r))"
      if "(k, j) \<in> set ms" for k j r
      using JObject.prems length_concat_ge[OF that, of ?f] by (intro JObject.IH[OF that]) (auto simp: n)
    show "length ms < m" using JObject.prems length_concat_count[of ms ?f] by (fastforce simp: n)
  qed
  then show ?case by (cases "depth \<le> maximumDepth") (auto simp: n consumed_def split: if_splits)
qed (auto simp: consumed_def gr0_conv_Suc less_Suc_eq_0_disj dest!: less_imp_Suc_add)


text \<open>Whatever the tokens are, the bound on the calls is not reached.\<close>

definition progress :: "jtoken list \<Rightarrow> jsonError + jtoken list \<Rightarrow> bool" where
  "progress ts r \<longleftrightarrow> (case r of Inl e \<Rightarrow> e \<noteq> TokensExhausted | Inr rest \<Rightarrow> length rest < length ts)"

lemma members_progress:
  "(\<And>ts. length ts < m \<Longrightarrow> progress ts (val ts)) \<Longrightarrow> length ts < n \<Longrightarrow> length ts \<le> m \<Longrightarrow>
   progress ts (consumeMembers n val rules seen ts)"
proof (induction n arbitrary: seen ts)
  case (Suc n)
  show ?case
  proof (cases ts)
    case (Cons t rest)
    have "progress rest (val rest)" by (rule Suc.prems(1)) (use Suc.prems(3) Cons in simp)
    moreover have "progress r (consumeMembers n val rules (k # seen) r)" if "length r < length rest" for r k
      by (rule Suc.IH) (use Suc.prems that Cons in auto)
    ultimately show ?thesis using Cons
      by (cases "val rest") (fastforce simp: progress_def split: jtoken.split sum.splits)+
  qed (simp add: progress_def)
qed simp

lemma elements_progress:
  "(\<And>ts. length ts < m \<Longrightarrow> progress ts (val ts)) \<Longrightarrow> length ts < n \<Longrightarrow> length ts < m \<Longrightarrow>
   progress ts (consumeElements n val ts)"
proof (induction n arbitrary: ts)
  case (Suc n)
  show ?case
  proof (cases ts)
    case (Cons t rest)
    have "progress ts (val ts)" by (rule Suc.prems(1)) (use Suc.prems(3) in simp)
    moreover have "progress r (consumeElements n val r)" if "length r < length ts" for r
      by (rule Suc.IH) (use Suc.prems that in auto)
    ultimately show ?thesis using Cons
      by (cases "val ts") (fastforce simp: progress_def split: sum.splits)+
  qed (simp add: progress_def)
qed simp

lemma value_progress: "length ts < n \<Longrightarrow> progress ts (consumeValue n rules maximumDepth depth ts)"
proof (induction n arbitrary: depth ts)
  case (Suc n)
  show ?case
  proof (cases ts)
    case (Cons t rest)
    then have short: "length rest < n" using Suc.prems by simp
    have "progress rest (consumeMembers n (consumeValue n rules maximumDepth (depth + 1)) rules [] rest)"
      by (rule members_progress[where m = n, OF Suc.IH]) (use short in auto)
    moreover have "progress rest (consumeElements n (consumeValue n rules maximumDepth (depth + 1)) rest)"
      by (rule elements_progress[where m = n, OF Suc.IH]) (use short in auto)
    ultimately show ?thesis using Cons by (auto simp: progress_def split: sum.splits)
  qed (simp add: progress_def)
qed simp

lemma validate_tokens:
  assumes "decoder content = (tokens j, True)"
  shows "json_validate decoder content maximumDepth rules = Inr () \<longleftrightarrow>
    0 < maximumDepth \<and> utf8_valid content \<and> list_all surrogates_paired (text_literals content) \<and> json_ok rules maximumDepth 0 j"
proof -
  have "consumed (json_ok rules maximumDepth 0 j) [] (consumeValue (Suc (length (tokens j))) rules maximumDepth 0 (tokens j))"
    using consume_value[of j "Suc (length (tokens j))" rules maximumDepth 0 "[]"] by simp
  then show ?thesis
    unfolding json_validate_def assms validateUTF8_exact text_escapes_exact[symmetric] prod.case
    by (cases "validateUnicodeScalarEscapes content") (auto simp: consumed_def split: if_splits)
qed

text \<open>C36: a text that spells one JSON value is accepted exactly when it is UTF-8, in every string literal the
  UTF-16 surrogates named by escapes stand in pairs, high before low, and the value respects the depth limit and has unique object keys (canonical and without null values where the rules ask
  for it); and no text at all makes the validation give up.\<close>

theorem validate_exact:
  assumes "decoder content = (tokens j, True)"
  shows "(json_validate decoder content maximumDepth rules = Inr () \<longleftrightarrow>
       0 < maximumDepth \<and> utf8_valid content \<and> list_all surrogates_paired (text_literals content) \<and>
       json_ok rules maximumDepth 0 j) \<and>
     json_validate any other maximumDepth rules \<noteq> Inl TokensExhausted"
proof
  show "json_validate decoder content maximumDepth rules = Inr () \<longleftrightarrow>
       0 < maximumDepth \<and> utf8_valid content \<and> list_all surrogates_paired (text_literals content) \<and> json_ok rules maximumDepth 0 j"
    using assms by (rule validate_tokens)
  obtain ts ended where ts: "any other = (ts, ended)" by (cases "any other")
  have "validateUnicodeScalarEscapes s \<noteq> Inl TokensExhausted" for s
    by (induction s rule: validateUnicodeScalarEscapes.induct) (auto simp: ebind_eq_Inl dest: escapes_error)
  then show "json_validate any other maximumDepth rules \<noteq> Inl TokensExhausted"
    using value_progress[of ts "Suc (length ts)" rules maximumDepth 0]
    by (auto simp: json_validate_def ts ebind_eq_Inl progress_def)
qed

definition sample_text :: string where
  "sample_text = ''{'' @ [CHR 0x22] @ ''a_1'' @ [CHR 0x22] @ '':[null,2]}''"

definition sample_value :: json where
  "sample_value = JObject [(''a_1'', JArray [JNull, JNumber ''2''])]"

theorem validate_exact_witness:
  "json_validate (\<lambda>_. (tokens sample_value, True)) sample_text 2 \<lparr>canonicalObjectKeys = True, rejectNull = False\<rparr> = Inr () \<and>
   json_validate (\<lambda>_. (tokens sample_value, True)) sample_text 1 \<lparr>canonicalObjectKeys = True, rejectNull = False\<rparr> \<noteq> Inr ()"
proof -
  have "utf8_valid sample_text" "list_all surrogates_paired (text_literals sample_text)"
    "json_ok \<lparr>canonicalObjectKeys = True, rejectNull = False\<rparr> 2 0 sample_value"
    "\<not> json_ok \<lparr>canonicalObjectKeys = True, rejectNull = False\<rparr> 1 0 sample_value"
    by code_simp+
  then show ?thesis
    using validate_exact[of "\<lambda>_. (tokens sample_value, True)" sample_text sample_value] by simp
qed

end
