(* ===== verification/WorldLogic.thy ===== *)
theory WorldLogic
  imports FileSnapshot
begin

text \<open>
  A small Hoare logic for computations on a world: \<open>triple P m Q R\<close> says that \<open>m\<close>, started in a
  state with \<open>P\<close>, ends with \<open>Q x\<close> when it returns \<open>x\<close> and with \<open>R e\<close> when it fails with \<open>e\<close>.
  One rule per combinator of the monad; the rules are collected in \<open>triple_rules\<close>.
\<close>

named_theorems triple_rules \<open>one rule for each combinator\<close>

definition triple ::
  "('s \<Rightarrow> bool) \<Rightarrow> ('s, 'e, 'a) io \<Rightarrow> ('a \<Rightarrow> 's \<Rightarrow> bool) \<Rightarrow> ('e \<Rightarrow> 's \<Rightarrow> bool) \<Rightarrow> bool" where
  "triple P m Q R \<longleftrightarrow> (\<forall>s. P s \<longrightarrow> (case m s of (Inr x, s') \<Rightarrow> Q x s' | (Inl e, s') \<Rightarrow> R e s'))"

lemma tripleI:
  "(\<And>s x s'. P s \<Longrightarrow> m s = (Inr x, s') \<Longrightarrow> Q x s') \<Longrightarrow> (\<And>s e s'. P s \<Longrightarrow> m s = (Inl e, s') \<Longrightarrow> R e s') \<Longrightarrow>
   triple P m Q R"
  by (auto simp: triple_def split: prod.split sum.split)

lemma triple_Inr: "triple P m Q R \<Longrightarrow> P s \<Longrightarrow> m s = (Inr x, s') \<Longrightarrow> Q x s'"
  by (auto simp: triple_def)

lemma triple_Inl: "triple P m Q R \<Longrightarrow> P s \<Longrightarrow> m s = (Inl e, s') \<Longrightarrow> R e s'"
  by (auto simp: triple_def)

lemma triple_run:
  "triple P m Q R \<Longrightarrow> P s \<Longrightarrow> m s = (r, s') \<Longrightarrow> (case r of Inr x \<Rightarrow> Q x s' | Inl e \<Rightarrow> R e s')"
  by (auto simp: triple_def)

lemma triple_conseq:
  "triple P' m Q' R' \<Longrightarrow> (\<And>s. P s \<Longrightarrow> P' s) \<Longrightarrow> (\<And>x s. Q' x s \<Longrightarrow> Q x s) \<Longrightarrow> (\<And>e s. R' e s \<Longrightarrow> R e s) \<Longrightarrow>
   triple P m Q R"
  by (auto simp: triple_def split: prod.splits sum.splits) blast+

lemma triple_pre: "triple P' m Q R \<Longrightarrow> (\<And>s. P s \<Longrightarrow> P' s) \<Longrightarrow> triple P m Q R"
  by (rule triple_conseq)

lemma triple_post: "triple P m Q' R' \<Longrightarrow> (\<And>x s. Q' x s \<Longrightarrow> Q x s) \<Longrightarrow> (\<And>e s. R' e s \<Longrightarrow> R e s) \<Longrightarrow> triple P m Q R"
  by (rule triple_conseq)

lemma triple_conj:
  "triple P m Q R \<Longrightarrow> triple P' m Q' R' \<Longrightarrow>
   triple (\<lambda>s. P s \<and> P' s) m (\<lambda>x s. Q x s \<and> Q' x s) (\<lambda>e s. R e s \<and> R' e s)"
  by (auto simp: triple_def split: prod.splits sum.splits)

lemma triple_ex: "(\<And>y. triple (P y) m Q R) \<Longrightarrow> triple (\<lambda>s. \<exists>y. P y s) m Q R"
  by (rule tripleI) (blast dest: triple_Inr triple_Inl)+

lemma triple_pure: "(c \<Longrightarrow> triple P m Q R) \<Longrightarrow> triple (\<lambda>s. c \<and> P s) m Q R"
  by (auto simp: triple_def)

lemma triple_disj: "triple P m Q R \<Longrightarrow> triple P' m Q R \<Longrightarrow> triple (\<lambda>s. P s \<or> P' s) m Q R"
  by (auto simp: triple_def)

lemma triple_return [triple_rules]: "triple (Q x) (io_return x) Q R"
  by (simp add: triple_def)

lemma triple_raise [triple_rules]: "triple (R e) (io_raise e) Q R"
  by (simp add: triple_def)

lemma triple_refuse [triple_rules]: "triple (\<lambda>s. if c then R e s else Q () s) (io_refuse c e) Q R"
  by (simp add: triple_def)

lemma triple_bind: "triple P m M R \<Longrightarrow> (\<And>x. triple (M x) (f x) Q R) \<Longrightarrow> triple P (io_bind m f) Q R"
proof (rule tripleI)
  assume m: "triple P m M R" and f: "\<And>x. triple (M x) (f x) Q R"
  show "Q y s'" if "P s" "io_bind m f s = (Inr y, s')" for s y s'
    using that by (auto simp: io_bind_Inr) (meson triple_Inr[OF m] triple_Inr[OF f])
  show "R e s'" if "P s" "io_bind m f s = (Inl e, s')" for s e s'
    using that by (auto simp: io_bind_def split: prod.splits sum.splits)
      (meson triple_Inl[OF m] triple_Inr[OF m] triple_Inl[OF f])+
qed

lemma triple_wrap: "triple P m Q (\<lambda>e. R (g e)) \<Longrightarrow> triple P (io_wrap g m) Q R"
  by (auto simp: triple_def io_wrap_def split: prod.splits sum.splits)

lemma triple_try: "triple P m (\<lambda>x. Q (Inr x)) (\<lambda>e. Q (Inl e)) \<Longrightarrow> triple P (io_try m) Q R"
  by (auto simp: triple_def io_try_def split: prod.splits sum.splits) (metis sum.exhaust)

lemma triple_if: "(c \<Longrightarrow> triple P m Q R) \<Longrightarrow> (\<not> c \<Longrightarrow> triple P m' Q R) \<Longrightarrow> triple P (if c then m else m') Q R"
  by simp

text \<open>A loop over a list: the invariant may speak of the elements done so far.\<close>

fun io_foldl :: "('a \<Rightarrow> 'b \<Rightarrow> ('s, 'e, 'a) io) \<Rightarrow> 'a \<Rightarrow> 'b list \<Rightarrow> ('s, 'e, 'a) io" where
  "io_foldl f a [] = io_return a"
| "io_foldl f a (x # xs) = io_bind (f a x) (\<lambda>a'. io_foldl f a' xs)"

lemma triple_foldl_prefix:
  assumes "\<And>ys a y zs. xs = ys @ y # zs \<Longrightarrow> triple (I ys a) (f a y) (I (ys @ [y])) R"
  shows "triple (I [] a) (io_foldl f a xs) (I xs) R"
proof -
  have "triple (I ys a) (io_foldl f a zs) (I xs) R" if "xs = ys @ zs" for ys zs a
    using that
  proof (induction zs arbitrary: ys a)
    case Nil
    then show ?case by (simp add: triple_def)
  next
    case (Cons z zs)
    show ?case
      unfolding io_foldl.simps by (rule triple_bind, rule assms[OF Cons.prems]) (rule Cons.IH, simp add: Cons.prems)
  qed
  from this[of "[]" xs a] show ?thesis by simp
qed

lemma triple_foldl:
  assumes "\<And>a y. y \<in> set xs \<Longrightarrow> triple (I a) (f a y) I R"
  shows "triple (I a) (io_foldl f a xs) I R"
  by (rule triple_foldl_prefix[where I = "\<lambda>_. I"]) (simp add: assms)

text \<open>A computation that keeps a predicate whether it fails or not.\<close>

definition keeps :: "('s \<Rightarrow> bool) \<Rightarrow> ('s, 'e, 'a) io \<Rightarrow> bool" where
  "keeps P m \<longleftrightarrow> triple P m (\<lambda>_. P) (\<lambda>_. P)"

lemma keeps_snd: "keeps P m \<longleftrightarrow> (\<forall>s. P s \<longrightarrow> P (snd (m s)))"
  by (auto simp: keeps_def triple_def split: prod.splits sum.splits) (metis snd_conv sum.exhaust surj_pair)+

named_theorems keeps_rules \<open>one rule for each combinator\<close>

lemma keeps_return [keeps_rules]: "keeps P (io_return x)" "keeps P (io_raise e)" "keeps P (io_refuse c e)"
  by (simp_all add: keeps_snd)

lemma keeps_bind [keeps_rules]: "keeps P m \<Longrightarrow> (\<And>x. keeps P (f x)) \<Longrightarrow> keeps P (io_bind m f)"
  unfolding keeps_def by (rule triple_bind)

lemma keeps_wrap [keeps_rules]: "keeps P m \<Longrightarrow> keeps P (io_wrap g m)"
  unfolding keeps_def by (rule triple_wrap)

lemma keeps_try [keeps_rules]: "keeps P m \<Longrightarrow> keeps P (io_try m)"
  unfolding keeps_def by (rule triple_try)

lemma keeps_if [keeps_rules]: "keeps P m \<Longrightarrow> keeps P m' \<Longrightarrow> keeps P (if c then m else m')"
  by simp

lemma keeps_foldl [keeps_rules]: "(\<And>a x. keeps P (f a x)) \<Longrightarrow> keeps P (io_foldl f a xs)"
  unfolding keeps_def by (rule triple_foldl)

lemma keeps_case_sum [keeps_rules]:
  "(\<And>x. keeps P (f x)) \<Longrightarrow> (\<And>y. keeps P (g y)) \<Longrightarrow> keeps P (case r of Inl x \<Rightarrow> f x | Inr y \<Rightarrow> g y)"
  by (cases r) auto

lemma keeps_case_option [keeps_rules]:
  "keeps P m \<Longrightarrow> (\<And>y. keeps P (g y)) \<Longrightarrow> keeps P (case r of None \<Rightarrow> m | Some y \<Rightarrow> g y)"
  by (cases r) auto

lemma keeps_case_prod [keeps_rules]: "(\<And>x y. keeps P (f x y)) \<Longrightarrow> keeps P (case p of (x, y) \<Rightarrow> f x y)"
  by (cases p) auto

lemma keeps_Let [keeps_rules]: "(\<And>y. keeps P (f y)) \<Longrightarrow> keeps P (let y = x in f y)"
  by (simp add: Let_def)

end
