(* ===== verification/FileSetModel.thy ===== *)
theory FileSetModel
  imports WorldLogic RevisionBudget PathAuthority
begin

text \<open>
  The data of file-set transactions (\<^verbatim>\<open>internal/effect/fileset/model.go\<close> and the errors and work budgets of
  \<^verbatim>\<open>physical_work.go\<close> and \<^verbatim>\<open>transaction.go\<close>), and the operations of the storage packages they call
  (\<^verbatim>\<open>internal/effect/storage/commit\<close>, \<^verbatim>\<open>os\<close>) as a record on a world that may answer anything. A
  message-only wrapping of an error is the error itself: \<^verbatim>\<open>errors.Is\<close> sees the same chain.
\<close>

section \<open>Errors\<close>

text \<open>What the code can tell of an error of the storage, the operating system or the path layer.\<close>

datatype storageError = NotExist | ContextDone | InvalidRequest | StorageFailed nat

datatype FileSetFenceKind =
    FileSetFenceClear
  | FileSetFencePublishedTransaction
  | FileSetFenceInvalidEvidence
  | FileSetFenceAbandonedResidue
  | FileSetFenceCensusLimit
  | FileSetFenceAccessUnprovable

datatype requestError =
    TargetsRequired
  | TooManyTargets int
  | ContentTooLong int
  | DuplicateTarget string
  | RetainedCommitPoint
  | TooManyCommitPoints
  | AllowedPathsRequired
  | AllowedPathsRepeated
  | UnsupportedWriterVersion int
  | ReferenceRequiresVersion4
  | ReferenceRequiresCommitPoint
  | StateDirRequired
  | StateDirNotDirectory
  | ReferenceEvidenceMissing
  | ReferenceNamespaceMismatch
  | ReferenceNamespaceRequired
  | RecoveryAuthorityError string
  | TargetSetMismatch
  | NotRecoverable

datatype workError =
    PathNotAbsoluteClean
  | PathTooDeep int
  | PhysicalDepthInvalid
  | BoundsRequired
  | PhysicalWorkInvalid
  | PhysicalWorkOverflow
  | PathWorkExceeded
  | EntryWorkExceeded
  | ByteWorkExceeded
  | EntryLimitInvalid
  | NameTooLong
  | TooManyEntries
  | CensusUnfinished

datatype markerError =
    MarkerPermissions FileMode
  | MarkerSyntax
  | LegacyMarker int
  | FutureMarker int
  | MarkerFieldRequired string
  | MarkerFieldNull string
  | MarkerFieldType string
  | MarkerUnknownField string
  | MarkerTooLong int
  | MarkerVersionUnsupported int
  | MarkerReferenceUnsupported
  | MarkerTargetsRequired
  | MarkerPathInvalid string
  | MarkerNotOrdered
  | MarkerCommitPoints
  | MarkerRetainedCommitPoint
  | MarkerAfterHashInvalid
  | MarkerRetainedAfterHash
  | MarkerBeforeInvalid
  | MarkerReferenceInvalid

datatype evidenceError =
    StagedBytesExceeded int
  | EvidenceLengthNegative
  | EvidenceExists
  | EvidenceNotRegular
  | EvidenceSize int
  | EvidenceChangedSize
  | EvidencePermissions FileMode
  | EvidenceDigest
  | EvidenceNotDirectory
  | EvidenceIncomplete

datatype fileSetError =
    StorageFailure storageError
  | ContextFailure
  | RequestInvalid requestError
  | WorkRefused workError
  | MarkerInvalid markerError
  | EvidenceRefused evidenceError
  | MarkerAbsent storageError
  | Joined "fileSetError list"
  | TargetWriteError string fileSetError
  | CleanupFailed fileSetError fileSetError
  | AfterImagesCommitted fileSetError
  | RollbackUnclassified fileSetError fileSetError
  | RollbackRefused fileSetError
  | RollbackFailed fileSetError fileSetError
  | RolledBackMarkerLeft fileSetError fileSetError
  | RolledBack fileSetError
  | InterruptedFileSetTransaction string
  | EvidenceInvalid fileSetError
  | AbandonedFileSetResidue "string list"
  | FileSetFenceError FileSetFenceKind fileSetError

text \<open>The errors that \<^verbatim>\<open>errors.Is\<close> and \<^verbatim>\<open>errors.As\<close> visit, in order. A second error printed with
  \<^verbatim>\<open>%v\<close> is not part of the chain.\<close>

fun error_chain :: "fileSetError \<Rightarrow> fileSetError list" where
  "error_chain (Joined es) = Joined es # concat (map error_chain es)"
| "error_chain (TargetWriteError p e) = TargetWriteError p e # error_chain e"
| "error_chain (CleanupFailed e d) = CleanupFailed e d # error_chain e"
| "error_chain (AfterImagesCommitted e) = AfterImagesCommitted e # error_chain e"
| "error_chain (RollbackUnclassified e d) = RollbackUnclassified e d # error_chain e"
| "error_chain (RollbackRefused e) = RollbackRefused e # error_chain e"
| "error_chain (RollbackFailed e d) = RollbackFailed e d # error_chain e"
| "error_chain (RolledBackMarkerLeft e d) = RolledBackMarkerLeft e d # error_chain e"
| "error_chain (RolledBack e) = RolledBack e # error_chain e"
| "error_chain (EvidenceInvalid e) = EvidenceInvalid e # error_chain e"
| "error_chain (FileSetFenceError k e) = FileSetFenceError k e # error_chain e"
| "error_chain e = [e]"

definition error_is :: "(fileSetError \<Rightarrow> bool) \<Rightarrow> fileSetError \<Rightarrow> bool" where
  "error_is P e \<longleftrightarrow> list_ex P (error_chain e)"

definition is_context_error :: "fileSetError \<Rightarrow> bool" where
  "is_context_error = error_is (\<lambda>e. e = ContextFailure \<or> e = StorageFailure ContextDone)"

definition is_marker_absent :: "fileSetError \<Rightarrow> bool" where
  "is_marker_absent = error_is (\<lambda>e. case e of MarkerAbsent _ \<Rightarrow> True | _ \<Rightarrow> False)"

definition is_evidence_invalid :: "fileSetError \<Rightarrow> bool" where
  "is_evidence_invalid = error_is (\<lambda>e. case e of EvidenceInvalid _ \<Rightarrow> True | _ \<Rightarrow> False)"

text \<open>The classification of an error (\<^verbatim>\<open>nil\<close> is \<open>None\<close>): a fence error carries its kind, the sentinels
  decide otherwise.\<close>

definition FileSetFenceKindOf :: "fileSetError option \<Rightarrow> FileSetFenceKind" where
  "FileSetFenceKindOf err = (case err of
       None \<Rightarrow> FileSetFenceClear
     | Some e \<Rightarrow>
         (case [k. FileSetFenceError k _ \<leftarrow> error_chain e] of
            k # _ \<Rightarrow> k
          | [] \<Rightarrow>
              if error_is (\<lambda>x. case x of InterruptedFileSetTransaction _ \<Rightarrow> True | _ \<Rightarrow> False) e
              then FileSetFencePublishedTransaction
              else if is_evidence_invalid e then FileSetFenceInvalidEvidence
              else if error_is (\<lambda>x. case x of AbandonedFileSetResidue _ \<Rightarrow> True | _ \<Rightarrow> False) e
              then FileSetFenceAbandonedResidue
              else FileSetFenceClear))"

definition wrapFileSetFenceError :: "FileSetFenceKind \<Rightarrow> fileSetError \<Rightarrow> fileSetError" where
  "wrapFileSetFenceError kind e =
     (if is_context_error e then e
      else if FileSetFenceKindOf (Some e) = kind then e
      else FileSetFenceError kind e)"

definition wrapFileSetAccessUnprovable :: "fileSetError \<Rightarrow> fileSetError" where
  "wrapFileSetAccessUnprovable = wrapFileSetFenceError FileSetFenceAccessUnprovable"

definition wrapFileSetCensusLimit :: "fileSetError \<Rightarrow> fileSetError" where
  "wrapFileSetCensusLimit = wrapFileSetFenceError FileSetFenceCensusLimit"

definition wrapFileSetEvidenceInvalid :: "fileSetError \<Rightarrow> fileSetError" where
  "wrapFileSetEvidenceInvalid e =
     (if is_context_error e then e else if is_evidence_invalid e then e else EvidenceInvalid e)"

text \<open>A completed observation of the file-set axis.\<close>

record FileSetFenceObservation =
  fo_observed :: bool
  fo_known :: bool
  fo_kind :: FileSetFenceKind

definition ObserveFileSetFence :: "fileSetError option \<Rightarrow> FileSetFenceObservation" where
  "ObserveFileSetFence err =
     (if err = None then \<lparr>fo_observed = True, fo_known = True, fo_kind = FileSetFenceClear\<rparr>
      else let kind = FileSetFenceKindOf err in
        \<lparr>fo_observed = True, fo_known = (kind \<noteq> FileSetFenceClear), fo_kind = kind\<rparr>)"

definition observation_Known :: "FileSetFenceObservation \<Rightarrow> bool" where
  "observation_Known o' \<longleftrightarrow> fo_observed o' \<and> fo_known o'"

section \<open>Physical work\<close>

definition MaximumPhysicalPathDepth :: int where
  "MaximumPhysicalPathDepth = 256"

definition MaximumPhysicalPathComponentVisits :: int where
  "MaximumPhysicalPathComponentVisits = 64 * 2 ^ 20"

definition maximumFileSetOperationEntries :: int where
  "maximumFileSetOperationEntries = 400000"

definition maximumFileSetOperationBytes :: int where
  "maximumFileSetOperationBytes = 16 * 2 ^ 30"

record fenceObservationBudget =
  fb_paths :: int
  fb_entries :: int
  fb_bytes :: int

definition fresh_budget :: fenceObservationBudget where
  "fresh_budget = \<lparr>fb_paths = 0, fb_entries = 0, fb_bytes = 0\<rparr>"

definition AdmitPhysicalWork ::
  "int \<Rightarrow> int \<Rightarrow> int \<Rightarrow> fenceObservationBudget \<Rightarrow> fileSetError + fenceObservationBudget" where
  "AdmitPhysicalWork pathComponents entries bytes budget =
     (if pathComponents < 0 \<or> entries < 0 \<or> bytes < 0 then Inl (WorkRefused PhysicalWorkInvalid)
      else if pathComponents > MaximumPhysicalPathComponentVisits - fb_paths budget then Inl (WorkRefused PathWorkExceeded)
      else if entries > maximumFileSetOperationEntries - fb_entries budget then Inl (WorkRefused EntryWorkExceeded)
      else if bytes > maximumFileSetOperationBytes - fb_bytes budget then Inl (WorkRefused ByteWorkExceeded)
      else Inr \<lparr>fb_paths = fb_paths budget + pathComponents, fb_entries = fb_entries budget + entries,
                fb_bytes = fb_bytes budget + bytes\<rparr>)"

definition fileSetWorkAdd :: "int \<Rightarrow> int \<Rightarrow> fileSetError + int" where
  "fileSetWorkAdd left right =
     (if left < 0 \<or> right < 0 \<or> left > go_max_int - right then Inl (WorkRefused PhysicalWorkOverflow) else Inr (left + right))"

definition fileSetWorkMultiply :: "int \<Rightarrow> int \<Rightarrow> fileSetError + int" where
  "fileSetWorkMultiply val n =
     (if val < 0 \<or> n < 0 then Inl (WorkRefused PhysicalWorkInvalid)
      else if n \<noteq> 0 \<and> val > go_max_int div n then Inl (WorkRefused PhysicalWorkOverflow)
      else Inr (val * n))"

text \<open>The components of a clean absolute path, and admitting one traversal of it.\<close>

definition absolutePathDepth :: "string \<Rightarrow> fileSetError + int" where
  "absolutePathDepth val =
     (let clean = go_clean val in
      if \<not> go_is_abs clean then Inl (WorkRefused PathNotAbsoluteClean)
      else Inr (if tl clean = [] then 0 else int (length (split_on slash (tl clean)))))"

definition ChargeAbsolutePath ::
  "string \<Rightarrow> int \<Rightarrow> (int \<Rightarrow> 'b \<Rightarrow> fileSetError + 'b) \<Rightarrow> 'b \<Rightarrow> fileSetError + 'b" where
  "ChargeAbsolutePath val maximumPhysicalDepth adm budget =
     (if maximumPhysicalDepth \<le> 0 then Inl (WorkRefused PhysicalDepthInvalid)
      else if \<not> go_is_abs val \<or> go_clean val \<noteq> val then Inl (WorkRefused PathNotAbsoluteClean)
      else ebind (absolutePathDepth val) (\<lambda>depth.
        if depth > maximumPhysicalDepth then Inl (WorkRefused (PathTooDeep depth)) else adm depth budget))"

definition counter_AdmitPathComponents :: "int \<Rightarrow> int \<Rightarrow> fileSetError + int" where
  "counter_AdmitPathComponents n counter =
     (if n < 0 then Inl (WorkRefused PhysicalWorkInvalid)
      else if n > MaximumPhysicalPathComponentVisits - counter then Inl (WorkRefused PathWorkExceeded)
      else Inr (counter + n))"

definition fileSetAbsolutePathWork :: "string \<Rightarrow> int \<Rightarrow> fileSetError + int" where
  "fileSetAbsolutePathWork path maximumPhysicalDepth =
     ChargeAbsolutePath path maximumPhysicalDepth counter_AdmitPathComponents 0"

end
