(* ===== verification/FileSetStorage.thy ===== *)
theory FileSetStorage
  imports FileSetModel
begin

text \<open>
  What a file-set transaction asks of the storage packages: the requests of
  \<^verbatim>\<open>internal/effect/storage/commit/model.go\<close> with their validation, and the calls as a record of
  operations on a world. The transaction runs on the world and its physical work budget.
\<close>

section \<open>Requests\<close>

datatype entryKind = entryKindInvalid | entryKindRegular | entryKindDirectory | entryKindSymlink | entryKindSpecial

text \<open>\<open>ei_object\<close> stands for the platform's identity of the object, which only the storage compares.\<close>

record EntryIdentity =
  ei_path :: string
  ei_kind :: entryKind
  ei_object :: "nat option"

definition identity_valid :: "EntryIdentity \<Rightarrow> bool" where
  "identity_valid identity \<longleftrightarrow> ei_path identity \<noteq> [] \<and> ei_kind identity \<noteq> entryKindInvalid \<and> ei_object identity \<noteq> None"

definition has_prefix :: "string \<Rightarrow> string \<Rightarrow> bool" where
  "has_prefix s p \<longleftrightarrow> take (length p) s = p"

text \<open>\<^verbatim>\<open>filepath.Base\<close> of a nonempty path.\<close>

definition go_base :: "string \<Rightarrow> string" where
  "go_base path =
     (let stripped = rev (dropWhile (\<lambda>c. c = slash) (rev path)) in
      if path = [] then dot else if stripped = [] then [slash]
      else rev (takeWhile (\<lambda>c. c \<noteq> slash) (rev stripped)))"

definition validateRootedPath :: "string \<Rightarrow> storageError + unit" where
  "validateRootedPath path =
     (if path = [] then Inl InvalidRequest
      else if CHR 0x00 \<in> set path then Inl InvalidRequest
      else if \<not> go_is_abs path then Inl InvalidRequest
      else if go_clean path \<noteq> path then Inl InvalidRequest
      else if go_dir path = path then Inl InvalidRequest
      else Inr ())"

definition temporaryPrefix :: string where "temporaryPrefix = ''.daem-tmp-''"
definition tombstonePrefix :: string where "tombstonePrefix = ''.daem-tombstone-''"
definition cleanupPrefix :: string where "cleanupPrefix = ''.daem-cleanup-''"

definition validateCommitPath :: "string \<Rightarrow> storageError + unit" where
  "validateCommitPath path =
     ebind (validateRootedPath path) (\<lambda>_.
     let base = go_base path in
     if has_prefix base temporaryPrefix \<or> has_prefix base tombstonePrefix \<or> has_prefix base cleanupPrefix
     then Inl InvalidRequest else Inr ())"

definition ModePerm :: FileMode where "ModePerm = 0x1FF"

definition validateFileMode :: "FileMode \<Rightarrow> storageError + unit" where
  "validateFileMode mode = refuse_if (mode AND NOT ModePerm \<noteq> 0) InvalidRequest"

definition validateExpectedIdentity :: "string \<Rightarrow> EntryIdentity \<Rightarrow> entryKind \<Rightarrow> storageError + unit" where
  "validateExpectedIdentity path expected kind =
     (if \<not> identity_valid expected \<or> ei_path expected \<noteq> path then Inl InvalidRequest
      else if ei_kind expected \<noteq> kind then Inl InvalidRequest
      else Inr ())"

text \<open>\<open>fc_expected\<close> is \<open>None\<close> for the policy that the destination must be absent.\<close>

record FileCommit =
  fc_path :: string
  fc_payload :: string
  fc_mode :: FileMode
  fc_expected :: "EntryIdentity option"

definition NewFileCreate :: "string \<Rightarrow> string \<Rightarrow> FileMode \<Rightarrow> storageError + FileCommit" where
  "NewFileCreate path payload mode =
     ebind (validateCommitPath path) (\<lambda>_. ebind (validateFileMode mode) (\<lambda>_.
     Inr \<lparr>fc_path = path, fc_payload = payload, fc_mode = mode, fc_expected = None\<rparr>))"

definition NewFileReplacement :: "string \<Rightarrow> string \<Rightarrow> FileMode \<Rightarrow> EntryIdentity \<Rightarrow> storageError + FileCommit" where
  "NewFileReplacement path payload mode expected =
     ebind (validateCommitPath path) (\<lambda>_. ebind (validateFileMode mode) (\<lambda>_.
     ebind (validateExpectedIdentity path expected entryKindRegular) (\<lambda>_.
     Inr \<lparr>fc_path = path, fc_payload = payload, fc_mode = mode, fc_expected = Some expected\<rparr>)))"

record LogicalRemoval =
  lr_path :: string
  lr_expected :: EntryIdentity

definition NewLogicalRemoval :: "string \<Rightarrow> EntryIdentity \<Rightarrow> storageError + LogicalRemoval" where
  "NewLogicalRemoval path expected =
     ebind (validateCommitPath path) (\<lambda>_.
     if \<not> identity_valid expected \<or> ei_path expected \<noteq> path then Inl InvalidRequest
     else if ei_kind expected \<notin> {entryKindRegular, entryKindDirectory, entryKindSymlink} then Inl InvalidRequest
     else Inr \<lparr>lr_path = path, lr_expected = expected\<rparr>)"

section \<open>Calls\<close>

text \<open>\<^verbatim>\<open>context.WithoutCancel\<close> gives a context that is never done.\<close>

datatype goContext = Cancellable | Uncancellable

datatype listFailure = EndOfDirectory | ListFailure storageError

record 'w storage =
  sg_ctx :: "('w, unit, unit) io"
  sg_getwd :: "('w, storageError, string) io"
  sg_canonical :: "string \<Rightarrow> ('w, storageError, string) io"
  sg_canonicalBounded :: "string \<Rightarrow> int \<Rightarrow> ('w \<times> fenceObservationBudget, fileSetError, string) io"
  sg_lstat :: "string \<Rightarrow> ('w, storageError, FileInfo) io"
  sg_stat :: "string \<Rightarrow> ('w, storageError, FileInfo) io"
  sg_open :: "string \<Rightarrow> ('w, storageError, nat) io"
  sg_readdirnames :: "nat \<Rightarrow> nat \<Rightarrow> 'w \<Rightarrow> (string list \<times> listFailure option) \<times> 'w"
  sg_close :: "nat \<Rightarrow> ('w, storageError, unit) io"
  sg_read :: "goContext \<Rightarrow> string \<Rightarrow> int \<Rightarrow> ('w, storageError, string \<times> FileMode) io"
  sg_captureIdentity :: "goContext \<Rightarrow> string \<Rightarrow> ('w, storageError, EntryIdentity) io"
  sg_commitFile :: "goContext \<Rightarrow> FileCommit \<Rightarrow> ('w, storageError, unit) io"
  sg_commitRemoval :: "goContext \<Rightarrow> LogicalRemoval \<Rightarrow> ('w, storageError, unit) io"
  sg_prepareParent :: "goContext \<Rightarrow> string \<Rightarrow> ('w, storageError, unit) io"
  sg_stageTree :: "goContext \<Rightarrow> string \<Rightarrow> ('w, storageError, nat) io"
  sg_writeTree :: "nat \<Rightarrow> string \<Rightarrow> FileMode \<Rightarrow> string \<Rightarrow> ('w, storageError, unit) io"
  sg_sealTree :: "goContext \<Rightarrow> nat \<Rightarrow> ('w, storageError, unit) io"
  sg_discardTree :: "nat \<Rightarrow> ('w, storageError, unit) io"
  sg_commitTree :: "goContext \<Rightarrow> nat \<Rightarrow> ('w, storageError, unit) io"

type_synonym ('w, 'a) fileset = "('w \<times> fenceObservationBudget, fileSetError, 'a) io"

definition on_store :: "('w, storageError, 'a) io \<Rightarrow> ('w, 'a) fileset" where
  "on_store m = (\<lambda>(w, b). case m w of
       (Inl e, w') \<Rightarrow> (Inl (StorageFailure e), (w', b))
     | (Inr x, w') \<Rightarrow> (Inr x, (w', b)))"

definition on_budget :: "(fenceObservationBudget \<Rightarrow> fileSetError + fenceObservationBudget) \<Rightarrow> ('w, unit) fileset" where
  "on_budget f = (\<lambda>(w, b). case f b of Inl e \<Rightarrow> (Inl e, (w, b)) | Inr b' \<Rightarrow> (Inr (), (w, b')))"

text \<open>A call that is given its own, new budget.\<close>

definition with_own_budget :: "('w, 'a) fileset \<Rightarrow> ('w, 'a) fileset" where
  "with_own_budget m = (\<lambda>(w, b). case m (w, fresh_budget) of (r, (w', _)) \<Rightarrow> (r, (w', b)))"

definition on_result :: "'e + 'a \<Rightarrow> ('w, 'e, 'a) io" where
  "on_result r = (case r of Inl e \<Rightarrow> io_raise e | Inr x \<Rightarrow> io_return x)"

definition ctx_err :: "'w storage \<Rightarrow> goContext \<Rightarrow> ('w, unit) fileset" where
  "ctx_err sg ctx = (case ctx of
       Uncancellable \<Rightarrow> io_return ()
     | Cancellable \<Rightarrow> (\<lambda>(w, b). case sg_ctx sg w of
           (Inl _, w') \<Rightarrow> (Inl ContextFailure, (w', b))
         | (Inr _, w') \<Rightarrow> (Inr (), (w', b))))"

text \<open>\<^verbatim>\<open>filepath.Abs\<close> and \<^verbatim>\<open>filepath.Join\<close> of two nonempty elements.\<close>

definition go_join :: "string \<Rightarrow> string \<Rightarrow> string" where
  "go_join a b = go_clean (a @ [slash] @ b)"

definition go_abs :: "'w storage \<Rightarrow> string \<Rightarrow> ('w, string) fileset" where
  "go_abs sg path =
     (if go_is_abs path then io_return (go_clean path)
      else io_bind (on_store (sg_getwd sg)) (\<lambda>wd. io_return (go_join wd path)))"

section \<open>Reading, publishing and removing one file\<close>

definition readTransactionFileUpTo :: "'w storage \<Rightarrow> goContext \<Rightarrow> string \<Rightarrow> int \<Rightarrow> ('w, string \<times> FileMode) fileset" where
  "readTransactionFileUpTo sg ctx path maximumBytes = on_store (sg_read sg ctx path maximumBytes)"

definition maximumTargetBytes :: int where
  "maximumTargetBytes = 64 * 2 ^ 20"

definition readTransactionFile :: "'w storage \<Rightarrow> goContext \<Rightarrow> string \<Rightarrow> ('w, string \<times> FileMode) fileset" where
  "readTransactionFile sg ctx path = readTransactionFileUpTo sg ctx path maximumTargetBytes"

definition commitFile :: "'w storage \<Rightarrow> goContext \<Rightarrow> string \<Rightarrow> string \<Rightarrow> FileMode \<Rightarrow> ('w, unit) fileset" where
  "commitFile sg ctx path content mode =
     io_bind (on_store (sg_canonical sg path)) (\<lambda>commitPath.
     io_bind (io_try (on_store (sg_stat sg commitPath))) (\<lambda>found. case found of
         Inl e \<Rightarrow>
           if e = StorageFailure NotExist then
             io_bind (on_store (on_result (NewFileCreate commitPath content mode))) (\<lambda>request.
             on_store (sg_commitFile sg ctx request))
           else io_raise e
       | Inr _ \<Rightarrow>
           io_bind (on_store (sg_captureIdentity sg ctx commitPath)) (\<lambda>expected.
           io_bind (on_store (on_result (NewFileReplacement commitPath content mode expected))) (\<lambda>request.
           on_store (sg_commitFile sg ctx request)))))"

text \<open>A logical removal of an entry; a missing entry is already removed.\<close>

definition remove_entry :: "'w storage \<Rightarrow> goContext \<Rightarrow> string \<Rightarrow> ('w, unit) fileset" where
  "remove_entry sg ctx path =
     io_bind (io_try (on_store (sg_captureIdentity sg ctx path))) (\<lambda>captured. case captured of
         Inl e \<Rightarrow> if e = StorageFailure NotExist then io_return () else io_raise e
       | Inr expected \<Rightarrow>
           io_bind (on_store (on_result (NewLogicalRemoval path expected))) (\<lambda>request.
           on_store (sg_commitRemoval sg ctx request)))"

definition removeFile :: "'w storage \<Rightarrow> goContext \<Rightarrow> string \<Rightarrow> ('w, unit) fileset" where
  "removeFile sg ctx path =
     io_bind (on_store (sg_canonical sg path)) (\<lambda>commitPath. remove_entry sg ctx commitPath)"

end
