(* ===== verification/FileSetTargets.thy ===== *)
theory FileSetTargets
  imports FileSetStorage
begin

text \<open>
  The targets of a file-set transaction, the paths a recovery is allowed to touch and the state directory
  (\<^verbatim>\<open>internal/effect/fileset/model.go\<close> and the path functions of \<^verbatim>\<open>marker.go\<close>).
\<close>

section \<open>Limits\<close>

definition maximumFileSetTargets :: int where
  "maximumFileSetTargets = 8"

definition maximumStagedBeforeImageBytes :: int where
  "maximumStagedBeforeImageBytes = 4 * maximumTargetBytes"

definition validateTargetContentLength :: "int \<Rightarrow> fileSetError + unit" where
  "validateTargetContentLength n =
     (if n < 0 then Inl (RequestInvalid (ContentTooLong n)) else if n > maximumTargetBytes then Inl (RequestInvalid (ContentTooLong n)) else Inr ())"

definition admitFileSetTargetCount :: "int \<Rightarrow> fileSetError + unit" where
  "admitFileSetTargetCount n = refuse_if (n > maximumFileSetTargets) (RequestInvalid (TooManyTargets n))"

definition admitStagedEvidenceBytes :: "int \<Rightarrow> int \<Rightarrow> fileSetError + unit" where
  "admitStagedEvidenceBytes staged additional =
     (if additional < 0 then Inl (EvidenceRefused EvidenceLengthNegative)
      else if additional > maximumStagedBeforeImageBytes \<or> staged > maximumStagedBeforeImageBytes - additional
      then Inl (EvidenceRefused (StagedBytesExceeded (staged + additional)))
      else Inr ())"

section \<open>Targets\<close>

record FileTarget =
  ft_path :: string
  ft_content :: string
  ft_write :: bool
  ft_commitPoint :: bool

definition NewFileWrite :: "'w storage \<Rightarrow> string \<Rightarrow> string \<Rightarrow> ('w, FileTarget) fileset" where
  "NewFileWrite sg path content =
     io_bind (on_result (validateTargetContentLength (int (length content)))) (\<lambda>_.
     io_bind (on_store (sg_canonical sg path)) (\<lambda>canonical.
     io_return \<lparr>ft_path = canonical, ft_content = content, ft_write = True, ft_commitPoint = False\<rparr>))"

definition NewFileCommitPointWrite :: "'w storage \<Rightarrow> string \<Rightarrow> string \<Rightarrow> ('w, FileTarget) fileset" where
  "NewFileCommitPointWrite sg path content =
     io_bind (NewFileWrite sg path content) (\<lambda>t. io_return (t\<lparr>ft_commitPoint := True\<rparr>))"

definition NewFileRetain :: "'w storage \<Rightarrow> string \<Rightarrow> ('w, FileTarget) fileset" where
  "NewFileRetain sg path =
     io_bind (on_store (sg_canonical sg path)) (\<lambda>canonical.
     io_return \<lparr>ft_path = canonical, ft_content = [], ft_write = False, ft_commitPoint = False\<rparr>)"

text \<open>One round of the loop: the targets taken so far and the number of commit points among them.\<close>

definition canonical_target ::
  "(string \<Rightarrow> ('w, string) fileset) \<Rightarrow> FileTarget list \<times> nat \<Rightarrow> FileTarget \<Rightarrow> ('w, FileTarget list \<times> nat) fileset" where
  "canonical_target resolvePath = (\<lambda>(taken, commitPoints) t.
     io_bind (on_result (if ft_write t then validateTargetContentLength (int (length (ft_content t))) else Inr ())) (\<lambda>_.
     io_bind (resolvePath (ft_path t)) (\<lambda>canonical.
     let t = t\<lparr>ft_path := canonical, ft_content := (if ft_write t then ft_content t else [])\<rparr> in
     if canonical \<in> ft_path ` set taken then io_raise (RequestInvalid (DuplicateTarget canonical))
     else if ft_commitPoint t \<and> \<not> ft_write t then io_raise (RequestInvalid RetainedCommitPoint)
     else io_return (taken @ [t], if ft_commitPoint t then Suc commitPoints else commitPoints))))"

definition canonicalTargetsWithResolver ::
  "(string \<Rightarrow> ('w, string) fileset) \<Rightarrow> FileTarget list \<Rightarrow> ('w, FileTarget list) fileset" where
  "canonicalTargetsWithResolver resolvePath targets =
     (if targets = [] then io_raise (RequestInvalid TargetsRequired)
      else
        io_bind (on_result (admitFileSetTargetCount (int (length targets)))) (\<lambda>_.
        io_bind (io_foldl (canonical_target resolvePath) ([], 0) targets) (\<lambda>(taken, commitPoints).
        if commitPoints > 1 then io_raise (RequestInvalid TooManyCommitPoints)
        else io_return (sort_key (\<lambda>t. (ft_commitPoint t, ft_path t)) taken))))"

definition canonicalTargets :: "'w storage \<Rightarrow> FileTarget list \<Rightarrow> ('w, FileTarget list) fileset" where
  "canonicalTargets sg = canonicalTargetsWithResolver (\<lambda>path. on_store (sg_canonical sg path))"

definition canonicalTargetsBounded :: "'w storage \<Rightarrow> FileTarget list \<Rightarrow> int \<Rightarrow> ('w, FileTarget list) fileset" where
  "canonicalTargetsBounded sg targets maximumPhysicalDepth =
     (if maximumPhysicalDepth \<le> 0 then io_raise (WorkRefused BoundsRequired)
      else canonicalTargetsWithResolver (\<lambda>path. sg_canonicalBounded sg path maximumPhysicalDepth) targets)"

definition hasCommitPointTarget :: "FileTarget list \<Rightarrow> bool" where
  "hasCommitPointTarget targets = list_ex ft_commitPoint targets"

section \<open>Allowed paths\<close>

definition canonicalAllowedPaths :: "'w storage \<Rightarrow> string list \<Rightarrow> ('w, string list) fileset" where
  "canonicalAllowedPaths sg paths =
     (if paths = [] then io_raise (RequestInvalid AllowedPathsRequired)
      else io_foldl (\<lambda>allowed path.
        io_bind (on_store (sg_canonical sg path)) (\<lambda>canonical. io_return (List.insert canonical allowed))) [] paths)"

definition canonicalAllowedPathsBounded :: "'w storage \<Rightarrow> string list \<Rightarrow> int \<Rightarrow> ('w, string list) fileset" where
  "canonicalAllowedPathsBounded sg paths maximumPhysicalDepth =
     (if paths = [] then io_raise (RequestInvalid AllowedPathsRequired)
      else if maximumPhysicalDepth \<le> 0 then io_raise (WorkRefused BoundsRequired)
      else io_foldl (\<lambda>allowed path.
        io_bind (sg_canonicalBounded sg path maximumPhysicalDepth) (\<lambda>canonical.
        if canonical \<in> set allowed then io_raise (RequestInvalid AllowedPathsRepeated)
        else io_return (List.insert canonical allowed))) [] paths)"

section \<open>The state directory\<close>

definition transactionDirName :: string where
  "transactionDirName = ''metadata-transaction''"

definition transactionMarkerFile :: string where
  "transactionMarkerFile = ''transaction.json''"

definition transactionDir :: "string \<Rightarrow> string" where
  "transactionDir stateDir = go_join stateDir transactionDirName"

definition markerPath :: "string \<Rightarrow> string" where
  "markerPath stateDir = go_join (transactionDir stateDir) transactionMarkerFile"

definition state_probe :: string where
  "state_probe = ''.metadata-state-probe''"

definition canonicalStateDirWithPathResolver ::
  "'w storage \<Rightarrow> string \<Rightarrow> (string \<Rightarrow> ('w, string) fileset) \<Rightarrow> (string \<Rightarrow> ('w, unit) fileset) option \<Rightarrow> ('w, string) fileset" where
  "canonicalStateDirWithPathResolver sg path resolveProbe chargeLstat =
     (if path = [] then io_raise (RequestInvalid StateDirRequired)
      else
        io_bind (io_wrap wrapFileSetAccessUnprovable (go_abs sg path)) (\<lambda>clean.
        io_bind (case chargeLstat of
            None \<Rightarrow> io_return ()
          | Some charge \<Rightarrow> io_wrap wrapFileSetAccessUnprovable (charge clean)) (\<lambda>_.
        io_bind (io_try (on_store (sg_lstat sg clean))) (\<lambda>found.
        let probe = io_bind (io_wrap wrapFileSetAccessUnprovable (resolveProbe (go_join clean state_probe)))
              (\<lambda>probe. io_return (go_dir probe)) in
        case found of
          Inr info \<Rightarrow>
            if \<not> mode_isDir (fi_mode info) \<or> mode_isSymlink (fi_mode info)
            then io_raise (wrapFileSetAccessUnprovable (RequestInvalid StateDirNotDirectory)) else probe
        | Inl e \<Rightarrow> if e \<noteq> StorageFailure NotExist then io_raise (wrapFileSetAccessUnprovable e) else probe))))"

definition canonicalStateDir :: "'w storage \<Rightarrow> string \<Rightarrow> ('w, string) fileset" where
  "canonicalStateDir sg path =
     canonicalStateDirWithPathResolver sg path (\<lambda>probe. on_store (sg_canonical sg probe)) None"

text \<open>\<^verbatim>\<open>budget.AdmitPathComponents\<close> of the fence budget.\<close>

definition charge_path :: "int \<Rightarrow> string \<Rightarrow> ('w, unit) fileset" where
  "charge_path maximumPhysicalDepth path =
     on_budget (ChargeAbsolutePath path maximumPhysicalDepth (\<lambda>n. AdmitPhysicalWork n 0 0))"

definition canonicalStateDirBounded :: "'w storage \<Rightarrow> string \<Rightarrow> int \<Rightarrow> ('w, string) fileset" where
  "canonicalStateDirBounded sg path maximumPhysicalDepth =
     canonicalStateDirWithPathResolver sg path (\<lambda>probe. sg_canonicalBounded sg probe maximumPhysicalDepth)
       (Some (charge_path maximumPhysicalDepth))"

section \<open>Digests\<close>

definition hashBytes :: "(string \<Rightarrow> string) \<Rightarrow> string \<Rightarrow> string" where
  "hashBytes sha content = ''sha256:'' @ hex_EncodeToString (sha content)"

definition is_hex_char :: "char \<Rightarrow> bool" where
  "is_hex_char c \<longleftrightarrow> in_range 0x30 0x39 c \<or> in_range 0x61 0x66 c \<or> in_range 0x41 0x46 c"

text \<open>\<^verbatim>\<open>hex.DecodeString\<close> succeeds with 32 bytes on exactly 64 hexadecimal digits.\<close>

definition isHash :: "string \<Rightarrow> bool" where
  "isHash val \<longleftrightarrow> has_prefix val ''sha256:'' \<and> length (drop 7 val) = 64 \<and> list_all is_hex_char (drop 7 val)"

end
