(* ===== verification/JsonValue.thy ===== *)
theory JsonValue
  imports JsonStrict
begin

text \<open>
  Reading a JSON text into a value and a value into a Go struct, as \<^verbatim>\<open>encoding/json\<close> does for the strict
  records of the program: unknown fields are refused and field names are matched exactly, which is what its
  case-insensitive matching amounts to once every key is canonical.
\<close>

section \<open>The value its tokens spell\<close>

primrec parse_elements :: "nat \<Rightarrow> (jtoken list \<Rightarrow> (json \<times> jtoken list) option) \<Rightarrow> jtoken list \<Rightarrow> (json list \<times> jtoken list) option" where
  "parse_elements 0 val ts = None"
| "parse_elements (Suc n) val ts =
     (if ts \<noteq> [] \<and> hd ts = TArrayEnd then Some ([], tl ts)
      else Option.bind (val ts) (\<lambda>(j, rest).
        Option.bind (parse_elements n val rest) (\<lambda>(js, rest). Some (j # js, rest))))"

primrec parse_members :: "nat \<Rightarrow> (jtoken list \<Rightarrow> (json \<times> jtoken list) option) \<Rightarrow> jtoken list \<Rightarrow> ((string \<times> json) list \<times> jtoken list) option" where
  "parse_members 0 val ts = None"
| "parse_members (Suc n) val ts =
     (case ts of
        [] \<Rightarrow> None
      | t # rest \<Rightarrow>
          if t = TObjectEnd then Some ([], rest)
          else (case t of
              TString k \<Rightarrow> Option.bind (val rest) (\<lambda>(j, rest).
                Option.bind (parse_members n val rest) (\<lambda>(ms, rest). Some ((k, j) # ms, rest)))
            | _ \<Rightarrow> None))"

primrec parse_value :: "nat \<Rightarrow> jtoken list \<Rightarrow> (json \<times> jtoken list) option" where
  "parse_value 0 ts = None"
| "parse_value (Suc n) ts =
     (case ts of
        [] \<Rightarrow> None
      | t # rest \<Rightarrow> (case t of
          TObject \<Rightarrow> map_option (\<lambda>(ms, r). (JObject ms, r)) (parse_members n (parse_value n) rest)
        | TArray \<Rightarrow> map_option (\<lambda>(js, r). (JArray js, r)) (parse_elements n (parse_value n) rest)
        | TString s \<Rightarrow> Some (JString s, rest)
        | TNumber s \<Rightarrow> Some (JNumber s, rest)
        | TBool b \<Rightarrow> Some (JBool b, rest)
        | TNull \<Rightarrow> Some (JNull, rest)
        | _ \<Rightarrow> None))"

definition json_of :: "json_decoder \<Rightarrow> string \<Rightarrow> json option" where
  "json_of decoder content =
     (case decoder content of (ts, ended) \<Rightarrow>
        if \<not> ended then None
        else (case parse_value (Suc (length ts)) ts of Some (j, []) \<Rightarrow> Some j | _ \<Rightarrow> None))"

lemma parse_elements_tokens:
  assumes "\<And>j rest. j \<in> set js \<Longrightarrow> val (tokens j @ rest) = Some (j, rest)" and "length js < n"
  shows "parse_elements n val (concat (map tokens js) @ TArrayEnd # rest) = Some (js, rest)"
  using assms
proof (induction js arbitrary: n)
  case Nil
  then show ?case by (cases n) simp_all
next
  case (Cons j js)
  obtain m where "n = Suc m" "length js < m" using Cons.prems(2) by (cases n) auto
  moreover have "hd (tokens j @ r) = hd (tokens j)" for r by simp
  ultimately show ?case using Cons by simp
qed

lemma parse_members_tokens:
  assumes "\<And>k j rest. (k, j) \<in> set ms \<Longrightarrow> val (tokens j @ rest) = Some (j, rest)" and "length ms < n"
  shows "parse_members n val (concat (map (\<lambda>(k, j). TString k # tokens j) ms) @ TObjectEnd # rest) = Some (ms, rest)"
  using assms
proof (induction ms arbitrary: n)
  case Nil
  then show ?case by (cases n) simp_all
next
  case (Cons m ms)
  obtain i where "n = Suc i" "length ms < i" using Cons.prems(2) by (cases n) auto
  moreover obtain k j where "m = (k, j)" by (cases m)
  ultimately show ?case using Cons by fastforce
qed

lemma parse_value_tokens: "length (tokens j) < n \<Longrightarrow> parse_value n (tokens j @ rest) = Some (j, rest)"
proof (induction j arbitrary: n rest)
  case (JArray js)
  obtain m where n: "n = Suc m" using JArray.prems by (cases n) auto
  have "parse_elements m (parse_value m) (concat (map tokens js) @ TArrayEnd # rest) = Some (js, rest)"
  proof (rule parse_elements_tokens)
    show "parse_value m (tokens j @ r) = Some (j, r)" if "j \<in> set js" for j r
      using JArray.prems length_concat_ge[OF that, of tokens] by (intro JArray.IH[OF that]) (simp add: n)
    show "length js < m" using JArray.prems length_concat_count[of js tokens] by (simp add: n)
  qed
  then show ?case by (simp add: n)
next
  case (JObject ms)
  obtain m where n: "n = Suc m" using JObject.prems by (cases n) auto
  let ?f = "\<lambda>(k, j). TString k # tokens j"
  have "parse_members m (parse_value m) (concat (map ?f ms) @ TObjectEnd # rest) = Some (ms, rest)"
  proof (rule parse_members_tokens)
    show "parse_value m (tokens j @ r) = Some (j, r)" if "(k, j) \<in> set ms" for k j r
      using JObject.prems length_concat_ge[OF that, of ?f] by (intro JObject.IH[OF that]) (auto simp: n)
    show "length ms < m" using JObject.prems length_concat_count[of ms ?f] by (fastforce simp: n)
  qed
  then show ?case by (simp add: n)
qed (auto simp: less_Suc_eq_0_disj dest!: less_imp_Suc_add)

lemma json_of_tokens: "decoder content = (tokens j, True) \<Longrightarrow> json_of decoder content = Some j"
  using parse_value_tokens[of j "Suc (length (tokens j))" "[]"] by (simp add: json_of_def)

section \<open>Structs\<close>

text \<open>A field setter per known name; \<^verbatim>\<open>null\<close> leaves a field as it is.\<close>

datatype decodeError = TypeMismatch | UnknownField string

definition json_string :: "json \<Rightarrow> string \<Rightarrow> decodeError + string" where
  "json_string j old = (case j of JString s \<Rightarrow> Inr s | JNull \<Rightarrow> Inr old | _ \<Rightarrow> Inl TypeMismatch)"

definition json_bool :: "json \<Rightarrow> bool \<Rightarrow> decodeError + bool" where
  "json_bool j old = (case j of JBool b \<Rightarrow> Inr b | JNull \<Rightarrow> Inr old | _ \<Rightarrow> Inl TypeMismatch)"

definition json_int64 :: "json \<Rightarrow> int \<Rightarrow> decodeError + int" where
  "json_int64 j old = (case j of
       JNumber s \<Rightarrow> (case go_Atoi s of Some v \<Rightarrow> Inr v | None \<Rightarrow> Inl TypeMismatch)
     | JNull \<Rightarrow> Inr old
     | _ \<Rightarrow> Inl TypeMismatch)"

definition json_uint32 :: "json \<Rightarrow> 32 word \<Rightarrow> decodeError + 32 word" where
  "json_uint32 j old = (case j of
       JNumber s \<Rightarrow> (case digits_value s of
           Some v \<Rightarrow> if v < 2 ^ 32 then Inr (word_of_int v) else Inl TypeMismatch
         | None \<Rightarrow> Inl TypeMismatch)
     | JNull \<Rightarrow> Inr old
     | _ \<Rightarrow> Inl TypeMismatch)"

definition decode_struct :: "(string \<Rightarrow> (json \<Rightarrow> 'a \<Rightarrow> decodeError + 'a) option) \<Rightarrow> json \<Rightarrow> 'a \<Rightarrow> decodeError + 'a" where
  "decode_struct setter j zero = (case j of
       JObject ms \<Rightarrow> foldM (\<lambda>a (name, v). case setter name of
           None \<Rightarrow> Inl (UnknownField name)
         | Some set_field \<Rightarrow> set_field v a) zero ms
     | JNull \<Rightarrow> Inr zero
     | _ \<Rightarrow> Inl TypeMismatch)"

text \<open>Numbers that were printed are read back.\<close>

lemma digit_in_range: "d < 10 \<Longrightarrow> in_range 0x30 0x39 (digit d)"
  by (simp add: in_range_def)

lemma digits_value_itoa [simp]: "digits_value (itoa n) = Some (int n)"
proof -
  have "itoa n \<noteq> []" by (subst itoa.simps) simp
  moreover have "list_all (in_range 0x30 0x39) (itoa n)"
    unfolding list_all_iff using itoa_digits digit_in_range by blast
  ultimately show ?thesis by (simp add: digits_value_def decimal_itoa)
qed

lemma itoa_head: "itoa n = c # s \<Longrightarrow> c \<noteq> CHR ''-'' \<and> c \<noteq> CHR ''+''"
proof -
  assume "itoa n = c # s"
  then obtain d where "d < 10" "c = digit d" using itoa_digits[of c n] by auto
  then have "in_range 0x30 0x39 c" using digit_in_range by simp
  then show ?thesis by (auto simp: in_range_def)
qed

lemma go_Atoi_formatInt:
  assumes "- go_max_int - 1 \<le> v" "v \<le> go_max_int"
  shows "go_Atoi (formatInt v) = Some v"
proof (cases "v < 0")
  case True
  then show ?thesis using assms by (simp add: go_Atoi_def formatInt_def)
next
  case False
  have "itoa (nat v) \<noteq> []" by (subst itoa.simps) simp
  then obtain c s where digits: "itoa (nat v) = c # s" by (cases "itoa (nat v)") auto
  have "digits_value (c # s) = Some v" using digits_value_itoa[of "nat v"] digits False by simp
  then show ?thesis using assms False itoa_head[OF digits] by (simp add: go_Atoi_def formatInt_def digits)
qed

end
