(* ===== verification/FileSetMarker.thy ===== *)
theory FileSetMarker
  imports FileSetTargets JsonValue
begin

text \<open>
  The marker of a file-set transaction: its format, validation and loading
  (\<^verbatim>\<open>internal/effect/fileset/marker.go\<close>), and the reading of retained evidence images
  (\<^verbatim>\<open>reference.go\<close>). SHA-256 and the text layer of \<^verbatim>\<open>encoding/json\<close> are parameters.
\<close>

section \<open>Markers\<close>

record fileState =
  fs_exists :: bool
  fs_hash :: string
  fs_backupPath :: string
  fs_mode :: "32 word"

definition no_file :: fileState where
  "no_file = \<lparr>fs_exists = False, fs_hash = [], fs_backupPath = [], fs_mode = 0\<rparr>"

record targetMarker =
  tm_path :: string
  tm_before :: fileState
  tm_afterHash :: string
  tm_write :: bool
  tm_commitPoint :: bool

record referenceAfterImageMarker =
  ra_path :: string
  ra_size :: int
  ra_digest :: string

record referenceEvidenceMarker =
  re_target :: string
  re_afterImage :: referenceAfterImageMarker

record transactionMarker =
  mk_version :: int
  mk_targets :: "targetMarker list"
  mk_reference :: "referenceEvidenceMarker option"

definition MetadataTransaction :: int where "MetadataTransaction = 3"
definition MetadataTransactionReference :: int where "MetadataTransactionReference = 4"

definition maximumMarkerBytes :: int where "maximumMarkerBytes = 2 ^ 20"
definition maximumMarkerJSONDepth :: int where "maximumMarkerJSONDepth = 64"
definition transactionEvidenceMode :: FileMode where "transactionEvidenceMode = 0x180"
definition referenceAfterImageName :: string where "referenceAfterImageName = ''reference.after''"

text \<open>The digest function, the decoder and \<^verbatim>\<open>json.MarshalIndent\<close>.\<close>

record marker_codec =
  mc_sha :: "string \<Rightarrow> string"
  mc_decoder :: json_decoder
  mc_indent :: "json \<Rightarrow> string"

section \<open>The format\<close>

text \<open>Fields tagged \<^verbatim>\<open>omitempty\<close> are left out when they have their zero value.\<close>

definition omit_empty :: "bool \<Rightarrow> string \<times> json \<Rightarrow> (string \<times> json) list" where
  "omit_empty zero m = (if zero then [] else [m])"

definition fileState_json :: "fileState \<Rightarrow> json" where
  "fileState_json st = JObject ([(''exists'', JBool (fs_exists st))] @
     omit_empty (fs_hash st = []) (''hash'', JString (fs_hash st)) @
     omit_empty (fs_backupPath st = []) (''backup_path'', JString (fs_backupPath st)) @
     omit_empty (fs_mode st = 0) (''mode'', JNumber (formatWord (fs_mode st))))"

definition targetMarker_json :: "targetMarker \<Rightarrow> json" where
  "targetMarker_json t = JObject ([(''path'', JString (tm_path t)), (''before'', fileState_json (tm_before t))] @
     omit_empty (tm_afterHash t = []) (''after_hash'', JString (tm_afterHash t)) @
     [(''write'', JBool (tm_write t))] @
     omit_empty (\<not> tm_commitPoint t) (''commit_point'', JBool (tm_commitPoint t)))"

definition afterImage_json :: "referenceAfterImageMarker \<Rightarrow> json" where
  "afterImage_json i = JObject [(''path'', JString (ra_path i)), (''size'', JNumber (formatInt (ra_size i))),
     (''digest'', JString (ra_digest i))]"

definition reference_json :: "referenceEvidenceMarker \<Rightarrow> json" where
  "reference_json r = JObject [(''target'', JString (re_target r)), (''after_image'', afterImage_json (re_afterImage r))]"

definition marker_json :: "transactionMarker \<Rightarrow> json" where
  "marker_json m = JObject ([(''version'', JNumber (formatInt (mk_version m))),
     (''targets'', JArray (map targetMarker_json (mk_targets m)))] @
     (case mk_reference m of None \<Rightarrow> [] | Some r \<Rightarrow> [(''reference'', reference_json r)]))"

definition marshalMarker :: "marker_codec \<Rightarrow> transactionMarker \<Rightarrow> fileSetError + string" where
  "marshalMarker mc marker =
     (let content = mc_indent mc (marker_json marker) @ [CHR 0x0A] in
      if int (length content) > maximumMarkerBytes then Inl (MarkerInvalid (MarkerTooLong (int (length content)))) else Inr content)"

text \<open>Decoding into the structs.\<close>

definition fileState_setter :: "string \<Rightarrow> (json \<Rightarrow> fileState \<Rightarrow> decodeError + fileState) option" where
  "fileState_setter name =
     (if name = ''exists'' then Some (\<lambda>v st. ebind (json_bool v (fs_exists st)) (\<lambda>x. Inr (st\<lparr>fs_exists := x\<rparr>)))
      else if name = ''hash'' then Some (\<lambda>v st. ebind (json_string v (fs_hash st)) (\<lambda>x. Inr (st\<lparr>fs_hash := x\<rparr>)))
      else if name = ''backup_path'' then Some (\<lambda>v st. ebind (json_string v (fs_backupPath st)) (\<lambda>x. Inr (st\<lparr>fs_backupPath := x\<rparr>)))
      else if name = ''mode'' then Some (\<lambda>v st. ebind (json_uint32 v (fs_mode st)) (\<lambda>x. Inr (st\<lparr>fs_mode := x\<rparr>)))
      else None)"

definition no_target :: targetMarker where
  "no_target = \<lparr>tm_path = [], tm_before = no_file, tm_afterHash = [], tm_write = False, tm_commitPoint = False\<rparr>"

definition targetMarker_setter :: "string \<Rightarrow> (json \<Rightarrow> targetMarker \<Rightarrow> decodeError + targetMarker) option" where
  "targetMarker_setter name =
     (if name = ''path'' then Some (\<lambda>v t. ebind (json_string v (tm_path t)) (\<lambda>x. Inr (t\<lparr>tm_path := x\<rparr>)))
      else if name = ''before'' then Some (\<lambda>v t. ebind (decode_struct fileState_setter v (tm_before t)) (\<lambda>x. Inr (t\<lparr>tm_before := x\<rparr>)))
      else if name = ''after_hash'' then Some (\<lambda>v t. ebind (json_string v (tm_afterHash t)) (\<lambda>x. Inr (t\<lparr>tm_afterHash := x\<rparr>)))
      else if name = ''write'' then Some (\<lambda>v t. ebind (json_bool v (tm_write t)) (\<lambda>x. Inr (t\<lparr>tm_write := x\<rparr>)))
      else if name = ''commit_point'' then Some (\<lambda>v t. ebind (json_bool v (tm_commitPoint t)) (\<lambda>x. Inr (t\<lparr>tm_commitPoint := x\<rparr>)))
      else None)"

definition no_image :: referenceAfterImageMarker where
  "no_image = \<lparr>ra_path = [], ra_size = 0, ra_digest = []\<rparr>"

definition afterImage_setter :: "string \<Rightarrow> (json \<Rightarrow> referenceAfterImageMarker \<Rightarrow> decodeError + referenceAfterImageMarker) option" where
  "afterImage_setter name =
     (if name = ''path'' then Some (\<lambda>v i. ebind (json_string v (ra_path i)) (\<lambda>x. Inr (i\<lparr>ra_path := x\<rparr>)))
      else if name = ''size'' then Some (\<lambda>v i. ebind (json_int64 v (ra_size i)) (\<lambda>x. Inr (i\<lparr>ra_size := x\<rparr>)))
      else if name = ''digest'' then Some (\<lambda>v i. ebind (json_string v (ra_digest i)) (\<lambda>x. Inr (i\<lparr>ra_digest := x\<rparr>)))
      else None)"

definition reference_setter :: "string \<Rightarrow> (json \<Rightarrow> referenceEvidenceMarker \<Rightarrow> decodeError + referenceEvidenceMarker) option" where
  "reference_setter name =
     (if name = ''target'' then Some (\<lambda>v r. ebind (json_string v (re_target r)) (\<lambda>x. Inr (r\<lparr>re_target := x\<rparr>)))
      else if name = ''after_image'' then Some (\<lambda>v r. ebind (decode_struct afterImage_setter v (re_afterImage r)) (\<lambda>x. Inr (r\<lparr>re_afterImage := x\<rparr>)))
      else None)"

definition marker_setter :: "string \<Rightarrow> (json \<Rightarrow> transactionMarker \<Rightarrow> decodeError + transactionMarker) option" where
  "marker_setter name =
     (if name = ''version'' then Some (\<lambda>v m. ebind (json_int64 v (mk_version m)) (\<lambda>x. Inr (m\<lparr>mk_version := x\<rparr>)))
      else if name = ''targets'' then Some (\<lambda>v m. case v of
          JArray js \<Rightarrow> ebind (mapM (\<lambda>j. decode_struct targetMarker_setter j no_target) js) (\<lambda>x. Inr (m\<lparr>mk_targets := x\<rparr>))
        | JNull \<Rightarrow> Inr (m\<lparr>mk_targets := []\<rparr>)
        | _ \<Rightarrow> Inl TypeMismatch)
      else if name = ''reference'' then Some (\<lambda>v m. case v of
          JNull \<Rightarrow> Inr (m\<lparr>mk_reference := None\<rparr>)
        | _ \<Rightarrow> ebind (decode_struct reference_setter v \<lparr>re_target = [], re_afterImage = no_image\<rparr>) (\<lambda>x. Inr (m\<lparr>mk_reference := Some x\<rparr>)))
      else None)"

definition decode_marker :: "json \<Rightarrow> decodeError + transactionMarker" where
  "decode_marker j = decode_struct marker_setter j \<lparr>mk_version = 0, mk_targets = [], mk_reference = None\<rparr>"

section \<open>Presence of the fields\<close>

type_synonym json_fields = "(string \<times> json) list"

text \<open>\<^verbatim>\<open>json.Unmarshal\<close> into a map of raw messages.\<close>

definition object_fields :: "string \<Rightarrow> json \<Rightarrow> fileSetError + json_fields" where
  "object_fields name j = (case j of JObject ms \<Rightarrow> Inr ms | JNull \<Rightarrow> Inr [] | _ \<Rightarrow> Inl (MarkerInvalid (MarkerFieldType name)))"

definition requireMarkerField :: "json_fields \<Rightarrow> string \<Rightarrow> fileSetError + json" where
  "requireMarkerField ms name = (case map_of ms name of
       None \<Rightarrow> Inl (MarkerInvalid (MarkerFieldRequired name))
     | Some v \<Rightarrow> if v = JNull then Inl (MarkerInvalid (MarkerFieldRequired name)) else Inr v)"

definition rejectMarkerNull :: "json_fields \<Rightarrow> string \<Rightarrow> fileSetError + unit" where
  "rejectMarkerNull ms name = refuse_if (map_of ms name = Some JNull) (MarkerInvalid (MarkerFieldNull name))"

definition field_bool :: "string \<Rightarrow> json \<Rightarrow> fileSetError + bool" where
  "field_bool name j = (case j of JBool b \<Rightarrow> Inr b | _ \<Rightarrow> Inl (MarkerInvalid (MarkerFieldType name)))"

definition validateBeforePresence :: "json \<Rightarrow> fileSetError + unit" where
  "validateBeforePresence content =
     ebind (object_fields ''before'' content) (\<lambda>st.
     ebind (requireMarkerField st ''exists'') (\<lambda>exists_field.
     ebind (field_bool ''exists'' exists_field) (\<lambda>present.
     ebind (foldM (\<lambda>_ name. rejectMarkerNull st name) () [''hash'', ''backup_path'', ''mode'']) (\<lambda>_.
     if \<not> present then Inr ()
     else foldM (\<lambda>_ name. ebind (requireMarkerField st name) (\<lambda>_. Inr ())) () [''hash'', ''backup_path'', ''mode'']))))"

definition validateTargetPresence :: "json \<Rightarrow> fileSetError + unit" where
  "validateTargetPresence content =
     ebind (object_fields ''targets'' content) (\<lambda>t.
     ebind (requireMarkerField t ''path'') (\<lambda>_.
     ebind (rejectMarkerNull t ''after_hash'') (\<lambda>_.
     ebind (rejectMarkerNull t ''commit_point'') (\<lambda>_.
     ebind (requireMarkerField t ''before'') (\<lambda>before.
     ebind (requireMarkerField t ''write'') (\<lambda>write_field.
     ebind (field_bool ''write'' write_field) (\<lambda>writes.
     ebind (if writes then ebind (requireMarkerField t ''after_hash'') (\<lambda>_. Inr ()) else Inr ()) (\<lambda>_.
     validateBeforePresence before))))))))"

definition validateReferencePresence :: "json \<Rightarrow> fileSetError + unit" where
  "validateReferencePresence content =
     ebind (object_fields ''reference'' content) (\<lambda>reference.
     ebind (requireMarkerField reference ''target'') (\<lambda>_.
     ebind (requireMarkerField reference ''after_image'') (\<lambda>afterImage.
     ebind (object_fields ''after_image'' afterImage) (\<lambda>image.
     foldM (\<lambda>_ name. ebind (requireMarkerField image name) (\<lambda>_. Inr ())) () [''path'', ''size'', ''digest'']))))"

definition validateMarkerPresence :: "json \<Rightarrow> int \<Rightarrow> fileSetError + unit" where
  "validateMarkerPresence content version =
     ebind (object_fields ''marker'' content) (\<lambda>root.
     ebind (requireMarkerField root ''version'') (\<lambda>_.
     ebind (requireMarkerField root ''targets'') (\<lambda>targets.
     ebind (if version = MetadataTransaction then
              refuse_if (map_of root ''reference'' \<noteq> None) (MarkerInvalid (MarkerUnknownField ''reference''))
            else ebind (rejectMarkerNull root ''reference'') (\<lambda>_.
              case map_of root ''reference'' of None \<Rightarrow> Inr () | Some reference \<Rightarrow> validateReferencePresence reference)) (\<lambda>_.
     case targets of
       JArray js \<Rightarrow> foldM (\<lambda>_ j. validateTargetPresence j) () js
     | _ \<Rightarrow> Inl (MarkerInvalid (MarkerFieldType ''targets''))))))"

section \<open>Validation\<close>

text \<open>Admitting the work of an observation.\<close>

definition admitFileSetFenceWork :: "int \<Rightarrow> int \<Rightarrow> int \<Rightarrow> ('w, unit) fileset" where
  "admitFileSetFenceWork pathComponents entries bytes =
     io_wrap wrapFileSetAccessUnprovable (on_budget (AdmitPhysicalWork pathComponents entries bytes))"

definition admitFileSetFenceObservation :: "string \<Rightarrow> int \<Rightarrow> int \<Rightarrow> int \<Rightarrow> ('w, unit) fileset" where
  "admitFileSetFenceObservation path maximumPhysicalDepth entries bytes =
     io_bind (io_wrap wrapFileSetAccessUnprovable (on_result (fileSetAbsolutePathWork path maximumPhysicalDepth))) (\<lambda>pathWork.
     admitFileSetFenceWork pathWork entries bytes)"

text \<open>\<^verbatim>\<open>fmt.Sprintf("target-%03d.before", index)\<close>.\<close>

definition backup_name :: "nat \<Rightarrow> string" where
  "backup_name index = ''target-'' @ replicate (3 - length (itoa index)) (CHR ''0'') @ itoa index @ ''.before''"

definition fileMode :: "fileState \<Rightarrow> FileMode" where
  "fileMode st = (if fs_exists st \<and> fs_mode st \<noteq> 0 then fs_mode st else 0x180)"

definition validateBeforeState :: "fileState \<Rightarrow> string \<Rightarrow> fileSetError + unit" where
  "validateBeforeState st expectedBackupPath =
     (if \<not> fs_exists st then
        refuse_if (fs_hash st \<noteq> [] \<or> fs_backupPath st \<noteq> [] \<or> fs_mode st \<noteq> 0) (MarkerInvalid MarkerBeforeInvalid)
      else if \<not> isHash (fs_hash st) then Inl (MarkerInvalid MarkerBeforeInvalid)
      else if fs_backupPath st \<noteq> expectedBackupPath then Inl (MarkerInvalid MarkerBeforeInvalid)
      else if fs_mode st = 0 \<or> mode_perm (fs_mode st) \<noteq> fs_mode st then Inl (MarkerInvalid MarkerBeforeInvalid)
      else Inr ())"

definition clean_absolute :: "string \<Rightarrow> bool" where
  "clean_absolute path \<longleftrightarrow> path \<noteq> [] \<and> go_is_abs path \<and> go_clean path = path"

definition validateReferenceMarker :: "transactionMarker \<Rightarrow> referenceEvidenceMarker \<Rightarrow> string \<Rightarrow> fileSetError + unit" where
  "validateReferenceMarker marker reference commitPointTarget =
     (if \<not> clean_absolute (re_target reference) then Inl (MarkerInvalid (MarkerPathInvalid (re_target reference)))
      else if commitPointTarget = [] \<or> re_target reference \<noteq> commitPointTarget then Inl (MarkerInvalid MarkerReferenceInvalid)
      else if ra_path (re_afterImage reference) \<noteq> referenceAfterImageName then Inl (MarkerInvalid MarkerReferenceInvalid)
      else if ra_size (re_afterImage reference) < 0 \<or> ra_size (re_afterImage reference) > maximumTargetBytes
      then Inl (MarkerInvalid MarkerReferenceInvalid)
      else if \<not> isHash (ra_digest (re_afterImage reference)) then Inl (MarkerInvalid MarkerReferenceInvalid)
      else (case find (\<lambda>t. tm_path t = re_target reference) (mk_targets marker) of
          None \<Rightarrow> Inl (MarkerInvalid MarkerReferenceInvalid)
        | Some t \<Rightarrow>
            if \<not> tm_write t \<or> \<not> tm_commitPoint t then Inl (MarkerInvalid MarkerReferenceInvalid)
            else if tm_afterHash t \<noteq> ra_digest (re_afterImage reference) then Inl (MarkerInvalid MarkerReferenceInvalid)
            else Inr ()))"

text \<open>What the loop over the targets remembers; an empty string stands for no path yet.\<close>

record markerScan =
  sc_index :: nat
  sc_previousOrdinary :: string
  sc_commitPointSeen :: bool
  sc_commitPointTarget :: string
  sc_seenPaths :: "string list"

definition scan_path :: "targetMarker \<Rightarrow> markerScan \<Rightarrow> fileSetError + markerScan" where
  "scan_path t sc =
     (if tm_path t \<in> set (sc_seenPaths sc) then Inl (MarkerInvalid MarkerNotOrdered)
      else let sc = sc\<lparr>sc_seenPaths := tm_path t # sc_seenPaths sc\<rparr> in
        if tm_commitPoint t then
          (if sc_commitPointSeen sc then Inl (MarkerInvalid MarkerCommitPoints)
           else if \<not> tm_write t then Inl (MarkerInvalid MarkerRetainedCommitPoint)
           else Inr (sc\<lparr>sc_commitPointSeen := True, sc_commitPointTarget := tm_path t\<rparr>))
        else
          (if sc_commitPointSeen sc \<or> sc_previousOrdinary sc \<noteq> [] \<and> tm_path t \<le> sc_previousOrdinary sc
           then Inl (MarkerInvalid MarkerNotOrdered)
           else Inr (sc\<lparr>sc_previousOrdinary := tm_path t\<rparr>)))"

definition scan_states :: "string \<Rightarrow> targetMarker \<Rightarrow> markerScan \<Rightarrow> fileSetError + markerScan" where
  "scan_states markerDir t sc =
     ebind (if tm_write t then refuse_if (\<not> isHash (tm_afterHash t)) (MarkerInvalid MarkerAfterHashInvalid)
            else refuse_if (tm_afterHash t \<noteq> []) (MarkerInvalid MarkerRetainedAfterHash)) (\<lambda>_.
     ebind (validateBeforeState (tm_before t) (go_join markerDir (backup_name (sc_index sc)))) (\<lambda>_.
     Inr (sc\<lparr>sc_index := Suc (sc_index sc)\<rparr>)))"

definition scan_target :: "string \<Rightarrow> int \<Rightarrow> int \<Rightarrow> markerScan \<Rightarrow> targetMarker \<Rightarrow> ('w, markerScan) fileset" where
  "scan_target markerDir version maximumPhysicalDepth sc t =
     io_bind (io_refuse (\<not> clean_absolute (tm_path t)) (MarkerInvalid (MarkerPathInvalid (tm_path t)))) (\<lambda>_.
     io_bind (if version = MetadataTransactionReference then charge_path maximumPhysicalDepth (tm_path t)
              else io_return ()) (\<lambda>_.
     on_result (ebind (scan_path t sc) (scan_states markerDir t))))"

definition validateMarkerForVersionWithBudget :: "string \<Rightarrow> transactionMarker \<Rightarrow> int \<Rightarrow> int \<Rightarrow> ('w, unit) fileset" where
  "validateMarkerForVersionWithBudget path marker version maximumPhysicalDepth =
     (if mk_version marker \<noteq> version then io_raise (MarkerInvalid (MarkerVersionUnsupported (mk_version marker)))
      else if version = MetadataTransactionReference \<and> maximumPhysicalDepth \<le> 0 then io_raise (WorkRefused BoundsRequired)
      else if version = MetadataTransaction \<and> mk_reference marker \<noteq> None then io_raise (MarkerInvalid MarkerReferenceUnsupported)
      else if mk_targets marker = [] then io_raise (MarkerInvalid MarkerTargetsRequired)
      else
        io_bind (on_result (admitFileSetTargetCount (int (length (mk_targets marker))))) (\<lambda>_.
        io_bind (io_foldl (scan_target (go_dir path) version maximumPhysicalDepth)
          \<lparr>sc_index = 0, sc_previousOrdinary = [], sc_commitPointSeen = False, sc_commitPointTarget = [], sc_seenPaths = []\<rparr>
          (mk_targets marker)) (\<lambda>sc.
        case mk_reference marker of
          None \<Rightarrow> io_return ()
        | Some reference \<Rightarrow>
            if version = MetadataTransactionReference
            then on_result (validateReferenceMarker marker reference (sc_commitPointTarget sc))
            else io_return ())))"

section \<open>Loading\<close>

text \<open>The steps between reading the file and validating the marker.\<close>

definition parseMarker :: "marker_codec \<Rightarrow> string \<Rightarrow> int \<Rightarrow> fileSetError + transactionMarker" where
  "parseMarker mc content expectedVersion =
     (case DecodeVersionEnvelope (mc_decoder mc) content maximumMarkerJSONDepth expectedVersion of
        Inl _ \<Rightarrow> Inl (MarkerInvalid MarkerSyntax)
      | Inr envelope \<Rightarrow>
          if ve_disposition envelope = VersionLegacy then Inl (MarkerInvalid (LegacyMarker (ve_version envelope)))
          else if ve_disposition envelope = VersionFuture then Inl (MarkerInvalid (FutureMarker (ve_version envelope)))
          else (case json_of (mc_decoder mc) content of
              None \<Rightarrow> Inl (MarkerInvalid MarkerSyntax)
            | Some j \<Rightarrow>
                ebind (validateMarkerPresence j expectedVersion) (\<lambda>_.
                case decode_marker j of
                  Inl (UnknownField name) \<Rightarrow> Inl (MarkerInvalid (MarkerUnknownField name))
                | Inl TypeMismatch \<Rightarrow> Inl (MarkerInvalid (MarkerFieldType []))
                | Inr marker \<Rightarrow> Inr marker)))"

text \<open>Generation 3 validates without a depth limit and without charging work; the depth is 0 there.\<close>

definition loadMarkerAtCanonicalPathVersionWithBudget ::
  "'w storage \<Rightarrow> marker_codec \<Rightarrow> goContext \<Rightarrow> string \<Rightarrow> int \<Rightarrow> int \<Rightarrow> ('w, transactionMarker \<times> string) fileset" where
  "loadMarkerAtCanonicalPathVersionWithBudget sg mc ctx canonicalPath expectedVersion maximumPhysicalDepth =
     io_bind (io_wrap (\<lambda>e. if e = StorageFailure NotExist then MarkerAbsent NotExist else e)
       (on_store (sg_read sg ctx canonicalPath maximumMarkerBytes))) (\<lambda>(content, mode).
     io_bind (io_refuse (mode_perm mode \<noteq> transactionEvidenceMode) (MarkerInvalid (MarkerPermissions (mode_perm mode)))) (\<lambda>_.
     io_bind (on_result (parseMarker mc content expectedVersion)) (\<lambda>marker.
     io_bind (if expectedVersion = MetadataTransactionReference \<and> maximumPhysicalDepth \<le> 0 then io_raise (WorkRefused BoundsRequired)
              else validateMarkerForVersionWithBudget canonicalPath marker expectedVersion maximumPhysicalDepth) (\<lambda>_.
     io_return (marker, content)))))"

definition loadMarkerAtCanonicalPath :: "'w storage \<Rightarrow> marker_codec \<Rightarrow> goContext \<Rightarrow> string \<Rightarrow> ('w, transactionMarker) fileset" where
  "loadMarkerAtCanonicalPath sg mc ctx canonicalPath =
     io_bind (loadMarkerAtCanonicalPathVersionWithBudget sg mc ctx canonicalPath MetadataTransaction 0)
       (\<lambda>(marker, _). io_return marker)"

definition loadMarker :: "'w storage \<Rightarrow> marker_codec \<Rightarrow> goContext \<Rightarrow> string \<Rightarrow> ('w, transactionMarker) fileset" where
  "loadMarker sg mc ctx path =
     io_bind (on_store (sg_canonical sg path)) (\<lambda>canonicalPath. loadMarkerAtCanonicalPath sg mc ctx canonicalPath)"

definition captureFileState ::
  "'w storage \<Rightarrow> marker_codec \<Rightarrow> goContext \<Rightarrow> string \<Rightarrow> string \<Rightarrow> ('w, fileState \<times> string) fileset" where
  "captureFileState sg mc ctx path activeBackupPath =
     io_bind (io_try (readTransactionFile sg ctx path)) (\<lambda>found. case found of
         Inl e \<Rightarrow> if e = StorageFailure NotExist then io_return (no_file, []) else io_raise e
       | Inr (content, mode) \<Rightarrow>
           io_return (\<lparr>fs_exists = True, fs_hash = hashBytes (mc_sha mc) content, fs_backupPath = activeBackupPath,
             fs_mode = mode_perm mode\<rparr>, content))"

end
