(* ===== verification/FileSetEvidence.thy ===== *)
theory FileSetEvidence
  imports FileSetMarker
begin

text \<open>
  Reading the evidence a generation-4 transaction retains: the before-images of its targets and the
  after-image of its reference target (\<^verbatim>\<open>internal/effect/fileset/reference.go\<close>, with the loader
  \<^verbatim>\<open>loadMarker4WithBudget\<close> of \<^verbatim>\<open>marker.go\<close>).
\<close>

section \<open>One image\<close>

text \<open>An expected size below 0 means that the marker records only a digest.\<close>

definition inspectEvidenceImageSize :: "'w storage \<Rightarrow> string \<Rightarrow> int \<Rightarrow> int \<Rightarrow> ('w, int) fileset" where
  "inspectEvidenceImageSize sg path expectedSize maximumPhysicalDepth =
     io_bind (io_wrap wrapFileSetAccessUnprovable (on_result (fileSetAbsolutePathWork path maximumPhysicalDepth))) (\<lambda>pathWork.
     io_bind (admitFileSetFenceWork pathWork 1 0) (\<lambda>_.
     io_bind (on_store (sg_lstat sg path)) (\<lambda>info.
     io_bind (io_refuse (\<not> mode_isRegular (fi_mode info)) (EvidenceRefused EvidenceNotRegular)) (\<lambda>_.
     let size = fi_size info in
     io_bind (io_refuse (size < 0 \<or> size > maximumTargetBytes) (EvidenceRefused (EvidenceSize size))) (\<lambda>_.
     io_bind (io_refuse (expectedSize \<ge> 0 \<and> size \<noteq> expectedSize) (EvidenceRefused (EvidenceSize size))) (\<lambda>_.
     io_return size))))))"

definition readEvidenceImageWithBudget ::
  "'w storage \<Rightarrow> marker_codec \<Rightarrow> goContext \<Rightarrow> string \<Rightarrow> int \<Rightarrow> string \<Rightarrow> int \<Rightarrow> int \<Rightarrow> ('w, string \<times> int) fileset" where
  "readEvidenceImageWithBudget sg mc ctx path stagedBytes expectedHash expectedSize maximumPhysicalDepth =
     io_bind (inspectEvidenceImageSize sg path expectedSize maximumPhysicalDepth) (\<lambda>size.
     io_bind (on_result (admitStagedEvidenceBytes stagedBytes size)) (\<lambda>_.
     io_bind (admitFileSetFenceWork 0 0 size) (\<lambda>_.
     io_bind (readTransactionFileUpTo sg ctx path size) (\<lambda>(content, mode).
     io_bind (io_refuse (mode_perm mode \<noteq> transactionEvidenceMode) (EvidenceRefused (EvidencePermissions (mode_perm mode)))) (\<lambda>_.
     io_bind (io_refuse (int (length content) \<noteq> size) (EvidenceRefused EvidenceChangedSize)) (\<lambda>_.
     io_bind (io_refuse (expectedSize \<ge> 0 \<and> int (length content) \<noteq> expectedSize) (EvidenceRefused EvidenceChangedSize)) (\<lambda>_.
     io_bind (io_refuse (hashBytes (mc_sha mc) content \<noteq> expectedHash) (EvidenceRefused EvidenceDigest)) (\<lambda>_.
     io_return (content, stagedBytes + int (length content))))))))))"

section \<open>All images of a marker\<close>

definition reference_path :: "string \<Rightarrow> referenceEvidenceMarker \<Rightarrow> string" where
  "reference_path marker_path reference = go_join (go_dir marker_path) (ra_path (re_afterImage reference))"

definition preflightReconstructedEvidenceSizes ::
  "'w storage \<Rightarrow> goContext \<Rightarrow> string \<Rightarrow> transactionMarker \<Rightarrow> int \<Rightarrow> ('w, unit) fileset" where
  "preflightReconstructedEvidenceSizes sg ctx marker_path marker maximumPhysicalDepth =
     io_bind (io_foldl (\<lambda>stagedBytes t.
         io_bind (ctx_err sg ctx) (\<lambda>_.
         if \<not> fs_exists (tm_before t) then io_return stagedBytes
         else
           io_bind (inspectEvidenceImageSize sg (fs_backupPath (tm_before t)) (- 1) maximumPhysicalDepth) (\<lambda>size.
           io_bind (on_result (admitStagedEvidenceBytes stagedBytes size)) (\<lambda>_.
           io_return (stagedBytes + size))))) 0 (mk_targets marker)) (\<lambda>stagedBytes.
     io_bind (ctx_err sg ctx) (\<lambda>_.
     case mk_reference marker of
       None \<Rightarrow> io_return ()
     | Some reference \<Rightarrow>
         io_bind (inspectEvidenceImageSize sg (reference_path marker_path reference)
           (ra_size (re_afterImage reference)) maximumPhysicalDepth) (\<lambda>size.
         on_result (admitStagedEvidenceBytes stagedBytes size))))"

record reconstructedReferenceEvidence =
  rr_namespace :: string
  rr_beforeExists :: bool
  rr_before :: string
  rr_after :: string
  rr_afterHash :: string

definition new_evidence :: "referenceEvidenceMarker \<Rightarrow> reconstructedReferenceEvidence" where
  "new_evidence reference = \<lparr>rr_namespace = re_target reference, rr_beforeExists = False, rr_before = [], rr_after = [],
     rr_afterHash = ra_digest (re_afterImage reference)\<rparr>"

text \<open>One round of the loop over the targets.\<close>

definition reconstruct_target ::
  "'w storage \<Rightarrow> marker_codec \<Rightarrow> goContext \<Rightarrow> int \<Rightarrow> reconstructedReferenceEvidence option \<times> int \<Rightarrow> targetMarker \<Rightarrow>
     ('w, reconstructedReferenceEvidence option \<times> int) fileset" where
  "reconstruct_target sg mc ctx maximumPhysicalDepth = (\<lambda>(evidence, stagedBytes) t.
     let on_namespace = (\<lambda>f. map_option (\<lambda>e. if tm_path t = rr_namespace e then f e else e) evidence) in
     io_bind (ctx_err sg ctx) (\<lambda>_.
     if \<not> fs_exists (tm_before t) then io_return (on_namespace (\<lambda>e. e\<lparr>rr_beforeExists := False\<rparr>), stagedBytes)
     else
       io_bind (readEvidenceImageWithBudget sg mc ctx (fs_backupPath (tm_before t)) stagedBytes
         (fs_hash (tm_before t)) (- 1) maximumPhysicalDepth) (\<lambda>(content, nextTotal).
       io_return (on_namespace (\<lambda>e. e\<lparr>rr_beforeExists := True, rr_before := content\<rparr>), nextTotal))))"

definition reconstructReferenceEvidenceWithBudget ::
  "'w storage \<Rightarrow> marker_codec \<Rightarrow> goContext \<Rightarrow> string \<Rightarrow> transactionMarker \<Rightarrow> int \<Rightarrow>
     ('w, reconstructedReferenceEvidence option) fileset" where
  "reconstructReferenceEvidenceWithBudget sg mc ctx marker_path marker maximumPhysicalDepth =
     (if maximumPhysicalDepth \<le> 0 then io_raise (WorkRefused BoundsRequired)
      else
        io_bind (preflightReconstructedEvidenceSizes sg ctx marker_path marker maximumPhysicalDepth) (\<lambda>_.
        io_bind (io_foldl (reconstruct_target sg mc ctx maximumPhysicalDepth)
          (map_option new_evidence (mk_reference marker), 0) (mk_targets marker)) (\<lambda>(evidence, stagedBytes).
        case (mk_reference marker, evidence) of
          (Some reference, Some e) \<Rightarrow>
            io_bind (readEvidenceImageWithBudget sg mc ctx (reference_path marker_path reference) stagedBytes
              (ra_digest (re_afterImage reference)) (ra_size (re_afterImage reference)) maximumPhysicalDepth)
              (\<lambda>(content, _). io_return (Some (e\<lparr>rr_after := content\<rparr>)))
        | _ \<Rightarrow> io_return None)))"

definition loadMarker4WithBudget ::
  "'w storage \<Rightarrow> marker_codec \<Rightarrow> goContext \<Rightarrow> string \<Rightarrow> int \<Rightarrow>
     ('w, transactionMarker \<times> string \<times> reconstructedReferenceEvidence option) fileset" where
  "loadMarker4WithBudget sg mc ctx canonicalPath maximumPhysicalDepth =
     (if maximumPhysicalDepth \<le> 0 then io_raise (WorkRefused BoundsRequired)
      else
        io_bind (admitFileSetFenceObservation canonicalPath maximumPhysicalDepth 1 maximumMarkerBytes) (\<lambda>_.
        io_bind (loadMarkerAtCanonicalPathVersionWithBudget sg mc ctx canonicalPath MetadataTransactionReference
          maximumPhysicalDepth) (\<lambda>(marker, content).
        io_bind (reconstructReferenceEvidenceWithBudget sg mc ctx canonicalPath marker maximumPhysicalDepth) (\<lambda>evidence.
        io_return (marker, content, evidence)))))"

section \<open>The view for a caller\<close>

record ReferenceEvidenceView =
  rv_namespace :: string
  rv_markerRevision :: string
  rv_beforeExists :: bool
  rv_before :: string
  rv_after :: string
  rv_afterHash :: string

definition canonicalReferenceNamespaceBounded :: "'w storage \<Rightarrow> string \<Rightarrow> int \<Rightarrow> ('w, string) fileset" where
  "canonicalReferenceNamespaceBounded sg path maximumPhysicalDepth =
     (if path = [] then io_raise (RequestInvalid ReferenceNamespaceRequired)
      else if maximumPhysicalDepth \<le> 0 then io_raise (WorkRefused BoundsRequired)
      else sg_canonicalBounded sg path maximumPhysicalDepth)"

definition ReadFileSetReferenceEvidence4 ::
  "'w storage \<Rightarrow> marker_codec \<Rightarrow> string \<Rightarrow> string \<Rightarrow> ('w, ReferenceEvidenceView) fileset" where
  "ReadFileSetReferenceEvidence4 sg mc stateDir referenceNamespace =
     io_bind (ctx_err sg Cancellable) (\<lambda>_.
     with_own_budget (
       io_bind (canonicalReferenceNamespaceBounded sg referenceNamespace MaximumPhysicalPathDepth) (\<lambda>canonicalNamespace.
       io_bind (canonicalStateDirBounded sg stateDir MaximumPhysicalPathDepth) (\<lambda>canonicalState.
       io_bind (io_wrap wrapFileSetEvidenceInvalid
         (loadMarker4WithBudget sg mc Cancellable (markerPath canonicalState) MaximumPhysicalPathDepth))
         (\<lambda>(marker, markerBytes, evidence).
       case (mk_reference marker, evidence) of
         (Some _, Some e) \<Rightarrow>
           if canonicalNamespace \<noteq> rr_namespace e then io_raise (RequestInvalid ReferenceNamespaceMismatch)
           else io_bind (ctx_err sg Cancellable) (\<lambda>_.
             io_return \<lparr>rv_namespace = rr_namespace e, rv_markerRevision = hashBytes (mc_sha mc) markerBytes,
               rv_beforeExists = rr_beforeExists e, rv_before = rr_before e, rv_after = rr_after e,
               rv_afterHash = rr_afterHash e\<rparr>)
       | _ \<Rightarrow> io_raise (wrapFileSetEvidenceInvalid (RequestInvalid ReferenceEvidenceMissing)))))))"

end
