(* ===== verification/FileSetFence.thy ===== *)
theory FileSetFence
  imports FileSetEvidence
begin

text \<open>
  The fence of a state directory: the census of abandoned residue, the check that no transaction is
  published, and the physical work one observation may cost (\<^verbatim>\<open>internal/effect/fileset/transaction.go\<close>
  and \<^verbatim>\<open>physical_work.go\<close>).
\<close>

section \<open>The census\<close>

definition fileSetTemporaryPrefix :: string where "fileSetTemporaryPrefix = ''.daem-tmp-''"
definition fileSetTombstonePrefix :: string where "fileSetTombstonePrefix = ''.daem-tombstone-''"
definition fileSetCleanupPrefix :: string where "fileSetCleanupPrefix = ''.daem-cleanup-''"
definition fileSetLegacyStagePrefix :: string where "fileSetLegacyStagePrefix = ''.metadata-stage-''"
definition maximumStateDirFenceEntries :: int where "maximumStateDirFenceEntries = 4096"
definition maximumStateDirFenceNameBytes :: int where "maximumStateDirFenceNameBytes = 4096"
definition stateDirFenceEnumerationBatch :: nat where "stateDirFenceEnumerationBatch = 64"

definition fileSetPrivateName :: "string \<Rightarrow> bool" where
  "fileSetPrivateName name \<longleftrightarrow>
     has_prefix name fileSetTemporaryPrefix \<or> has_prefix name fileSetTombstonePrefix \<or>
     has_prefix name fileSetCleanupPrefix \<or> has_prefix name fileSetLegacyStagePrefix"

definition fileSetFenceResidue :: "string \<Rightarrow> FileMode \<Rightarrow> bool" where
  "fileSetFenceResidue name mode \<longleftrightarrow> fileSetPrivateName name \<and> \<not> mode_isRegular mode"

text \<open>One name of a batch: the residue found and the number of names seen.\<close>

definition census_name ::
  "'w storage \<Rightarrow> goContext \<Rightarrow> string \<Rightarrow> int \<Rightarrow> int \<Rightarrow> string list \<times> int \<Rightarrow> string \<Rightarrow> ('w, string list \<times> int) fileset" where
  "census_name sg ctx stateDir limit maximumPhysicalDepth = (\<lambda>(residue, seen) name.
     io_bind (ctx_err sg ctx) (\<lambda>_.
     io_bind (io_refuse (int (length name) > maximumStateDirFenceNameBytes) (wrapFileSetCensusLimit (WorkRefused NameTooLong))) (\<lambda>_.
     io_bind (admitFileSetFenceWork 0 1 (int (length name))) (\<lambda>_.
     io_bind (io_refuse (seen + 1 > limit) (wrapFileSetCensusLimit (WorkRefused TooManyEntries))) (\<lambda>_.
     if name = transactionDirName \<or> \<not> fileSetPrivateName name then io_return (residue, seen + 1)
     else
       let path = go_join stateDir name in
       io_bind (admitFileSetFenceObservation path maximumPhysicalDepth 1 0) (\<lambda>_.
       io_bind (io_try (on_store (sg_lstat sg path))) (\<lambda>found. case found of
           Inl e \<Rightarrow> if e = StorageFailure NotExist then io_return (residue, seen + 1)
                    else io_raise (wrapFileSetAccessUnprovable e)
         | Inr info \<Rightarrow>
             io_return (if fileSetFenceResidue name (fi_mode info) then residue @ [path] else residue, seen + 1))))))))"

definition finishFileSetResidueInspection :: "'w storage \<Rightarrow> goContext \<Rightarrow> string list \<Rightarrow> ('w, string list) fileset" where
  "finishFileSetResidueInspection sg ctx residue = io_bind (ctx_err sg ctx) (\<lambda>_. io_return (sort residue))"

definition read_names :: "'w storage \<Rightarrow> nat \<Rightarrow> nat \<Rightarrow> ('w, string list \<times> listFailure option) fileset" where
  "read_names sg directory n = (\<lambda>(w, b). case sg_readdirnames sg directory n w of (x, w') \<Rightarrow> (Inr x, (w', b)))"

text \<open>The batches. A nonempty batch counts at least one name, so that \<open>limit + 2\<close> rounds are never used up.\<close>

primrec census_batches ::
  "nat \<Rightarrow> 'w storage \<Rightarrow> goContext \<Rightarrow> string \<Rightarrow> int \<Rightarrow> int \<Rightarrow> nat \<Rightarrow> string list \<times> int \<Rightarrow> ('w, string list) fileset" where
  "census_batches 0 sg ctx stateDir limit maximumPhysicalDepth directory found = io_raise (WorkRefused CensusUnfinished)"
| "census_batches (Suc n) sg ctx stateDir limit maximumPhysicalDepth directory found =
     io_bind (ctx_err sg ctx) (\<lambda>_.
     io_bind (read_names sg directory stateDirFenceEnumerationBatch) (\<lambda>(names, readErr).
     io_bind (io_foldl (census_name sg ctx stateDir limit maximumPhysicalDepth) found names) (\<lambda>found'.
     case readErr of
       Some EndOfDirectory \<Rightarrow> finishFileSetResidueInspection sg ctx (fst found')
     | Some (ListFailure e) \<Rightarrow> io_raise (wrapFileSetAccessUnprovable (StorageFailure e))
     | None \<Rightarrow>
         if names = [] then finishFileSetResidueInspection sg ctx (fst found')
         else census_batches n sg ctx stateDir limit maximumPhysicalDepth directory found')))"

text \<open>A deferred \<^verbatim>\<open>Close\<close> whose error is dropped.\<close>

definition then_close :: "'w storage \<Rightarrow> nat \<Rightarrow> ('w, 'a) fileset \<Rightarrow> ('w, 'a) fileset" where
  "then_close sg directory m = (\<lambda>s. case m s of (r, (w, b)) \<Rightarrow> (r, (snd (sg_close sg directory w), b)))"

definition inspectAbandonedFileSetResidueLimitedWithBudget ::
  "'w storage \<Rightarrow> goContext \<Rightarrow> string \<Rightarrow> int \<Rightarrow> int \<Rightarrow> ('w, string list) fileset" where
  "inspectAbandonedFileSetResidueLimitedWithBudget sg ctx stateDir limit maximumPhysicalDepth =
     io_bind (ctx_err sg ctx) (\<lambda>_.
     io_bind (io_refuse (limit < 1) (WorkRefused EntryLimitInvalid)) (\<lambda>_.
     io_bind (admitFileSetFenceObservation stateDir maximumPhysicalDepth 1 0) (\<lambda>_.
     io_bind (io_try (on_store (sg_lstat sg stateDir))) (\<lambda>found. case found of
         Inl e \<Rightarrow>
           if e = StorageFailure NotExist then finishFileSetResidueInspection sg ctx []
           else io_raise (wrapFileSetAccessUnprovable e)
       | Inr info \<Rightarrow>
           io_bind (io_refuse (\<not> mode_isDir (fi_mode info)) (wrapFileSetAccessUnprovable (RequestInvalid StateDirNotDirectory))) (\<lambda>_.
           io_bind (admitFileSetFenceObservation stateDir maximumPhysicalDepth 1 0) (\<lambda>_.
           io_bind (io_wrap wrapFileSetAccessUnprovable (on_store (sg_open sg stateDir))) (\<lambda>directory.
           then_close sg directory
             (census_batches (nat limit + 2) sg ctx stateDir limit maximumPhysicalDepth directory ([], 0)))))))))"

definition rejectAbandonedFileSetResidueWithBudget :: "'w storage \<Rightarrow> goContext \<Rightarrow> string \<Rightarrow> int \<Rightarrow> ('w, unit) fileset" where
  "rejectAbandonedFileSetResidueWithBudget sg ctx stateDir maximumPhysicalDepth =
     io_bind (inspectAbandonedFileSetResidueLimitedWithBudget sg ctx stateDir maximumStateDirFenceEntries maximumPhysicalDepth)
       (\<lambda>residue. io_refuse (residue \<noteq> []) (AbandonedFileSetResidue residue))"

definition rejectAbandonedFileSetResidue :: "'w storage \<Rightarrow> goContext \<Rightarrow> string \<Rightarrow> ('w, unit) fileset" where
  "rejectAbandonedFileSetResidue sg ctx stateDir =
     with_own_budget (rejectAbandonedFileSetResidueWithBudget sg ctx stateDir MaximumPhysicalPathDepth)"

section \<open>A clear fence\<close>

definition requireClearFileSetAtCanonicalPathVersion ::
  "'w storage \<Rightarrow> marker_codec \<Rightarrow> goContext \<Rightarrow> string \<Rightarrow> int \<Rightarrow> int \<Rightarrow> ('w, unit) fileset" where
  "requireClearFileSetAtCanonicalPathVersion sg mc ctx stateDir maximumPhysicalDepth version =
     (let evidencePath = transactionDir stateDir; activeMarkerPath = markerPath stateDir in
     io_bind (ctx_err sg ctx) (\<lambda>_.
     io_bind (admitFileSetFenceObservation evidencePath maximumPhysicalDepth 1 0) (\<lambda>_.
     io_bind (io_try (on_store (sg_lstat sg evidencePath))) (\<lambda>found. case found of
         Inl e \<Rightarrow>
           if e = StorageFailure NotExist
           then rejectAbandonedFileSetResidueWithBudget sg ctx stateDir maximumPhysicalDepth
           else io_raise (wrapFileSetAccessUnprovable e)
       | Inr info \<Rightarrow>
           io_bind (io_refuse (\<not> mode_isDir (fi_mode info)) (wrapFileSetEvidenceInvalid (EvidenceRefused EvidenceNotDirectory))) (\<lambda>_.
           io_bind (if version \<noteq> MetadataTransactionReference
                    then admitFileSetFenceObservation activeMarkerPath maximumPhysicalDepth 1 maximumMarkerBytes
                    else io_return ()) (\<lambda>_.
           io_bind (io_wrap (\<lambda>e. wrapFileSetEvidenceInvalid (if is_marker_absent e then (EvidenceRefused EvidenceIncomplete) else e))
             (if version = MetadataTransactionReference
              then io_bind (loadMarker4WithBudget sg mc ctx activeMarkerPath maximumPhysicalDepth) (\<lambda>_. io_return ())
              else io_bind (loadMarkerAtCanonicalPath sg mc ctx activeMarkerPath) (\<lambda>_. io_return ()))) (\<lambda>_.
           io_raise (InterruptedFileSetTransaction activeMarkerPath))))))))"

definition ObserveClearFenceAt :: "'w storage \<Rightarrow> marker_codec \<Rightarrow> string \<Rightarrow> int \<Rightarrow> ('w, unit) fileset" where
  "ObserveClearFenceAt sg mc canonical maximumPhysicalDepth =
     requireClearFileSetAtCanonicalPathVersion sg mc Cancellable canonical maximumPhysicalDepth MetadataTransaction"

definition ObserveClearFenceAt4 :: "'w storage \<Rightarrow> marker_codec \<Rightarrow> string \<Rightarrow> int \<Rightarrow> ('w, unit) fileset" where
  "ObserveClearFenceAt4 sg mc canonical maximumPhysicalDepth =
     requireClearFileSetAtCanonicalPathVersion sg mc Cancellable canonical maximumPhysicalDepth MetadataTransactionReference"

section \<open>The work of one observation\<close>

record FenceCensusWork =
  cw_PathComponents :: int
  cw_Entries :: int
  cw_Bytes :: int

definition longest_private_name :: string where
  "longest_private_name = fileSetTemporaryPrefix @ replicate 32 (CHR ''a'')"

definition maximumFileSetFenceCensusWork :: "string \<Rightarrow> int \<Rightarrow> fileSetError + FenceCensusWork" where
  "maximumFileSetFenceCensusWork stateDir maximumPhysicalDepth =
     ebind (fileSetAbsolutePathWork (transactionDir stateDir) maximumPhysicalDepth) (\<lambda>evidencePathWork.
     ebind (fileSetAbsolutePathWork stateDir maximumPhysicalDepth) (\<lambda>stateDirPathWork.
     ebind (fileSetAbsolutePathWork (go_join stateDir longest_private_name) maximumPhysicalDepth) (\<lambda>childPathWork.
     ebind (fileSetWorkMultiply childPathWork maximumStateDirFenceEntries) (\<lambda>residuePathWork.
     ebind (fileSetWorkMultiply stateDirPathWork 2) (\<lambda>stateDirOpenWork.
     ebind (fileSetWorkAdd residuePathWork stateDirOpenWork) (\<lambda>residuePathWork.
     ebind (fileSetWorkAdd residuePathWork evidencePathWork) (\<lambda>residuePathWork.
     ebind (fileSetWorkAdd (maximumStateDirFenceEntries + 1) (maximumStateDirFenceEntries + 3)) (\<lambda>residueEntries.
     let residueBytes = (maximumStateDirFenceEntries + 1) * maximumStateDirFenceNameBytes in
     ebind (fileSetAbsolutePathWork (markerPath stateDir) maximumPhysicalDepth) (\<lambda>markerPathWork.
     ebind (fileSetWorkAdd markerPathWork evidencePathWork) (\<lambda>markerPathWork.
     Inr \<lparr>cw_PathComponents = max markerPathWork residuePathWork, cw_Entries = max 2 residueEntries,
          cw_Bytes = max maximumMarkerBytes residueBytes\<rparr>))))))))))"

definition MaximumFenceCensusWork :: "string \<Rightarrow> int \<Rightarrow> fileSetError + FenceCensusWork" where
  "MaximumFenceCensusWork = maximumFileSetFenceCensusWork"

definition MaximumFenceCensusWork4 :: "string \<Rightarrow> int \<Rightarrow> fileSetError + FenceCensusWork" where
  "MaximumFenceCensusWork4 stateDir maximumPhysicalDepth =
     ebind (maximumFileSetFenceCensusWork stateDir maximumPhysicalDepth) (\<lambda>base.
     ebind (foldM (\<lambda>total index.
       ebind (fileSetAbsolutePathWork (go_join (transactionDir stateDir) (backup_name index)) maximumPhysicalDepth) (\<lambda>pathWork.
       fileSetWorkAdd total pathWork)) 0 [0..<nat maximumFileSetTargets]) (\<lambda>evidencePathWork.
     ebind (fileSetAbsolutePathWork (go_join (transactionDir stateDir) referenceAfterImageName) maximumPhysicalDepth) (\<lambda>imagePathWork.
     ebind (fileSetWorkAdd evidencePathWork imagePathWork) (\<lambda>evidencePathWork.
     ebind (fileSetWorkMultiply evidencePathWork 2) (\<lambda>evidencePathWork.
     ebind (fileSetWorkMultiply maximumFileSetTargets maximumPhysicalDepth) (\<lambda>targetPathWork.
     ebind (fileSetWorkAdd (cw_PathComponents base) targetPathWork) (\<lambda>pathComponents.
     ebind (fileSetWorkAdd pathComponents evidencePathWork) (\<lambda>pathComponents.
     ebind (fileSetWorkMultiply (maximumFileSetTargets + 1) 2) (\<lambda>evidenceEntries.
     ebind (fileSetWorkAdd (cw_Entries base) evidenceEntries) (\<lambda>entries.
     Inr \<lparr>cw_PathComponents = pathComponents, cw_Entries = entries,
          cw_Bytes = cw_Bytes base + maximumMarkerBytes + maximumStagedBeforeImageBytes\<rparr>))))))))))"

end
