(* ===== verification/FileSetRecovery.thy ===== *)
theory FileSetRecovery
  imports FileSetFence
begin

text \<open>
  Recovering an interrupted file-set transaction: the classification of its targets, the restoration of the
  before-images, the removal of the evidence and the previews (\<^verbatim>\<open>internal/effect/fileset/transaction.go\<close>
  and \<^verbatim>\<open>recovery_preview.go\<close>). The writer of the operations is \<^verbatim>\<open>commitFile\<close>, as in every production
  call.
\<close>

section \<open>Classification\<close>

definition fileMatchesExpected ::
  "'w storage \<Rightarrow> marker_codec \<Rightarrow> goContext \<Rightarrow> string \<Rightarrow> string \<Rightarrow> FileMode \<Rightarrow> ('w, bool) fileset" where
  "fileMatchesExpected sg mc ctx path hash mode =
     io_bind (io_try (readTransactionFile sg ctx path)) (\<lambda>found. case found of
         Inl e \<Rightarrow> if e = StorageFailure NotExist then io_return False else io_raise e
       | Inr (content, observedMode) \<Rightarrow>
           io_return (hashBytes (mc_sha mc) content = hash \<and> mode_perm observedMode = mode_perm mode))"

definition fileMatchesState ::
  "'w storage \<Rightarrow> marker_codec \<Rightarrow> goContext \<Rightarrow> string \<Rightarrow> fileState \<Rightarrow> ('w, bool) fileset" where
  "fileMatchesState sg mc ctx path st =
     (if \<not> fs_exists st then
        io_bind (io_try (on_store (sg_lstat sg path))) (\<lambda>found. case found of
            Inl e \<Rightarrow> if e = StorageFailure NotExist then io_return True else io_raise e
          | Inr _ \<Rightarrow> io_return False)
      else fileMatchesExpected sg mc ctx path (fs_hash st) (fileMode st))"

record targetClassification =
  cl_cleanAfter :: bool
  cl_recoverable :: bool

definition classify_target ::
  "'w storage \<Rightarrow> marker_codec \<Rightarrow> goContext \<Rightarrow> targetClassification \<Rightarrow> targetMarker \<Rightarrow> ('w, targetClassification) fileset" where
  "classify_target sg mc ctx cl t =
     io_bind (fileMatchesState sg mc ctx (tm_path t) (tm_before t)) (\<lambda>before.
     io_bind (if tm_write t then fileMatchesExpected sg mc ctx (tm_path t) (tm_afterHash t) (fileMode (tm_before t))
              else io_return before) (\<lambda>after.
     io_return \<lparr>cl_cleanAfter = (cl_cleanAfter cl \<and> after),
       cl_recoverable = (cl_recoverable cl \<and> (before \<or> after))\<rparr>))"

definition classifyTargets :: "'w storage \<Rightarrow> marker_codec \<Rightarrow> goContext \<Rightarrow> transactionMarker \<Rightarrow> ('w, targetClassification) fileset" where
  "classifyTargets sg mc ctx marker =
     io_foldl (classify_target sg mc ctx) \<lparr>cl_cleanAfter = True, cl_recoverable = True\<rparr> (mk_targets marker)"

section \<open>Restoration\<close>

definition restoreFile ::
  "'w storage \<Rightarrow> marker_codec \<Rightarrow> goContext \<Rightarrow> string \<Rightarrow> fileState \<Rightarrow> ('w, unit) fileset" where
  "restoreFile sg mc ctx path st =
     io_bind (fileMatchesState sg mc ctx path st) (\<lambda>matches.
     if matches then io_return ()
     else if \<not> fs_exists st then removeFile sg ctx path
     else
       io_bind (readTransactionFile sg ctx (fs_backupPath st)) (\<lambda>(content, _).
       io_bind (io_refuse (hashBytes (mc_sha mc) content \<noteq> fs_hash st) (EvidenceRefused EvidenceDigest)) (\<lambda>_.
       commitFile sg ctx path content (fileMode st))))"

definition preflightRestorableBackups ::
  "'w storage \<Rightarrow> marker_codec \<Rightarrow> goContext \<Rightarrow> transactionMarker \<Rightarrow> ('w, unit) fileset" where
  "preflightRestorableBackups sg mc ctx marker =
     io_bind (ctx_err sg ctx) (\<lambda>_.
     io_bind (on_result (admitFileSetTargetCount (int (length (mk_targets marker))))) (\<lambda>_.
     io_bind (io_foldl (\<lambda>staged t.
       io_bind (ctx_err sg ctx) (\<lambda>_.
       if \<not> fs_exists (tm_before t) then io_return staged
       else
         io_bind (readTransactionFile sg ctx (fs_backupPath (tm_before t))) (\<lambda>(content, _).
         io_bind (on_result (admitStagedEvidenceBytes staged (int (length content)))) (\<lambda>_.
         io_bind (io_refuse (hashBytes (mc_sha mc) content \<noteq> fs_hash (tm_before t)) (EvidenceRefused EvidenceDigest)) (\<lambda>_.
         io_return (staged + int (length content))))))) 0 (mk_targets marker)) (\<lambda>_. io_return ())))"

definition preflightRestorableBackupsWithBudget ::
  "'w storage \<Rightarrow> marker_codec \<Rightarrow> goContext \<Rightarrow> transactionMarker \<Rightarrow> int \<Rightarrow> ('w, unit) fileset" where
  "preflightRestorableBackupsWithBudget sg mc ctx marker maximumPhysicalDepth =
     io_bind (ctx_err sg ctx) (\<lambda>_.
     io_bind (on_result (admitFileSetTargetCount (int (length (mk_targets marker))))) (\<lambda>_.
     io_bind (io_refuse (maximumPhysicalDepth \<le> 0) (WorkRefused BoundsRequired)) (\<lambda>_.
     io_bind (io_foldl (\<lambda>staged t.
       io_bind (ctx_err sg ctx) (\<lambda>_.
       if \<not> fs_exists (tm_before t) then io_return staged
       else
         io_bind (readEvidenceImageWithBudget sg mc ctx (fs_backupPath (tm_before t)) staged (fs_hash (tm_before t)) (- 1)
           maximumPhysicalDepth) (\<lambda>(_, nextTotal). io_return nextTotal))) 0 (mk_targets marker)) (\<lambda>_. io_return ()))))"

text \<open>\<^verbatim>\<open>errors.Join\<close> of the collected failures.\<close>

definition join_failures :: "fileSetError list \<Rightarrow> ('w, unit) fileset" where
  "join_failures failures = (if failures = [] then io_return () else io_raise (Joined failures))"

definition restoreTransaction :: "'w storage \<Rightarrow> marker_codec \<Rightarrow> goContext \<Rightarrow> transactionMarker \<Rightarrow> ('w, unit) fileset" where
  "restoreTransaction sg mc ctx marker =
     io_bind (preflightRestorableBackups sg mc ctx marker) (\<lambda>_.
     io_bind (io_foldl (\<lambda>failures t.
       io_bind (io_try (restoreFile sg mc ctx (tm_path t) (tm_before t))) (\<lambda>r. case r of
           Inl e \<Rightarrow> io_return (failures @ [e]) | Inr _ \<Rightarrow> io_return failures)) [] (mk_targets marker))
     join_failures)"

text \<open>Restoring one target within the budget; the result is the number of before-image bytes staged so far.\<close>

definition restore_target ::
  "'w storage \<Rightarrow> marker_codec \<Rightarrow> goContext \<Rightarrow> int \<Rightarrow> fileSetError list \<times> int \<Rightarrow> targetMarker \<Rightarrow>
     ('w, fileSetError list \<times> int) fileset" where
  "restore_target sg mc ctx maximumPhysicalDepth = (\<lambda>(failures, staged) t.
     io_bind (io_try (fileMatchesState sg mc ctx (tm_path t) (tm_before t))) (\<lambda>matches. case matches of
         Inl e \<Rightarrow> io_return (failures @ [e], staged)
       | Inr True \<Rightarrow> io_return (failures, staged)
       | Inr False \<Rightarrow>
           if \<not> fs_exists (tm_before t) then
             io_bind (io_try (removeFile sg ctx (tm_path t))) (\<lambda>r. case r of
                 Inl e \<Rightarrow> io_return (failures @ [e], staged) | Inr _ \<Rightarrow> io_return (failures, staged))
           else
             io_bind (io_try (readEvidenceImageWithBudget sg mc ctx (fs_backupPath (tm_before t)) staged
               (fs_hash (tm_before t)) (- 1) maximumPhysicalDepth)) (\<lambda>image. case image of
                 Inl e \<Rightarrow> io_return (failures @ [e], staged)
               | Inr (content, nextTotal) \<Rightarrow>
                   io_bind (io_try (commitFile sg ctx (tm_path t) content (fileMode (tm_before t)))) (\<lambda>r. case r of
                       Inl e \<Rightarrow> io_return (failures @ [e], nextTotal) | Inr _ \<Rightarrow> io_return (failures, nextTotal)))))"

definition restoreTransactionWithBudget ::
  "'w storage \<Rightarrow> marker_codec \<Rightarrow> goContext \<Rightarrow> transactionMarker \<Rightarrow> int \<Rightarrow> ('w, unit) fileset" where
  "restoreTransactionWithBudget sg mc ctx marker maximumPhysicalDepth =
     io_bind (preflightRestorableBackupsWithBudget sg mc ctx marker maximumPhysicalDepth) (\<lambda>_.
     io_bind (io_foldl (restore_target sg mc ctx maximumPhysicalDepth) ([], 0) (mk_targets marker))
     (\<lambda>(failures, _). join_failures failures))"

definition removeTransactionDir :: "'w storage \<Rightarrow> goContext \<Rightarrow> string \<Rightarrow> ('w, unit) fileset" where
  "removeTransactionDir sg ctx stateDir = remove_entry sg ctx (transactionDir stateDir)"

section \<open>Recovery\<close>

text \<open>Every target must be among the allowed paths.\<close>

definition authorize_targets :: "string list \<Rightarrow> transactionMarker \<Rightarrow> fileSetError + unit" where
  "authorize_targets allowed marker =
     foldM (\<lambda>_ t. refuse_if (tm_path t \<notin> set allowed) (RequestInvalid (RecoveryAuthorityError (tm_path t)))) () (mk_targets marker)"

definition recoverFileSet4WithBudget ::
  "'w storage \<Rightarrow> marker_codec \<Rightarrow> goContext \<Rightarrow> string \<Rightarrow> string list \<Rightarrow> int \<Rightarrow> ('w, unit) fileset" where
  "recoverFileSet4WithBudget sg mc ctx stateDir allowedPaths maximumPhysicalDepth =
     io_bind (ctx_err sg ctx) (\<lambda>_.
     io_bind (io_refuse (maximumPhysicalDepth \<le> 0) (WorkRefused BoundsRequired)) (\<lambda>_.
     io_bind (io_try (loadMarker4WithBudget sg mc ctx (markerPath stateDir) maximumPhysicalDepth)) (\<lambda>loaded. case loaded of
         Inl e \<Rightarrow>
           if is_marker_absent e then rejectAbandonedFileSetResidueWithBudget sg ctx stateDir maximumPhysicalDepth
           else io_raise e
       | Inr (marker, _, _) \<Rightarrow>
           io_bind (canonicalAllowedPathsBounded sg allowedPaths maximumPhysicalDepth) (\<lambda>allowed.
           io_bind (io_refuse (length allowed \<noteq> length (mk_targets marker)) (RequestInvalid TargetSetMismatch)) (\<lambda>_.
           io_bind (on_result (authorize_targets allowed marker)) (\<lambda>_.
           io_bind (classifyTargets sg mc ctx marker) (\<lambda>classification.
           if cl_cleanAfter classification then
             io_bind (removeTransactionDir sg ctx stateDir) (\<lambda>_.
             rejectAbandonedFileSetResidueWithBudget sg ctx stateDir maximumPhysicalDepth)
           else if cl_recoverable classification then
             io_bind (restoreTransactionWithBudget sg mc Uncancellable marker maximumPhysicalDepth) (\<lambda>_.
             io_bind (removeTransactionDir sg Uncancellable stateDir) (\<lambda>_.
             rejectAbandonedFileSetResidueWithBudget sg Uncancellable stateDir maximumPhysicalDepth))
           else io_raise (RequestInvalid NotRecoverable))))))))"

definition recover_version3 :: "'w storage \<Rightarrow> marker_codec \<Rightarrow> goContext \<Rightarrow> string \<Rightarrow> string list \<Rightarrow> ('w, unit) fileset" where
  "recover_version3 sg mc ctx stateDir allowedPaths =
     io_bind (io_try (loadMarker sg mc ctx (markerPath stateDir))) (\<lambda>loaded. case loaded of
         Inl e \<Rightarrow> if is_marker_absent e then rejectAbandonedFileSetResidue sg ctx stateDir else io_raise e
       | Inr marker \<Rightarrow>
           io_bind (canonicalAllowedPaths sg allowedPaths) (\<lambda>allowed.
           io_bind (on_result (authorize_targets allowed marker)) (\<lambda>_.
           io_bind (classifyTargets sg mc ctx marker) (\<lambda>classification.
           if cl_cleanAfter classification then
             io_bind (removeTransactionDir sg ctx stateDir) (\<lambda>_. rejectAbandonedFileSetResidue sg ctx stateDir)
           else if cl_recoverable classification then
             io_bind (restoreTransaction sg mc Uncancellable marker) (\<lambda>_.
             io_bind (removeTransactionDir sg Uncancellable stateDir) (\<lambda>_. rejectAbandonedFileSetResidue sg ctx stateDir))
           else io_raise (RequestInvalid NotRecoverable)))))"

definition recoverWithOperationsVersion ::
  "'w storage \<Rightarrow> marker_codec \<Rightarrow> goContext \<Rightarrow> string \<Rightarrow> string list \<Rightarrow> int \<Rightarrow> ('w, unit) fileset" where
  "recoverWithOperationsVersion sg mc ctx stateDir allowedPaths version =
     io_bind (ctx_err sg ctx) (\<lambda>_.
     if version = MetadataTransactionReference then
       with_own_budget (
         io_bind (canonicalStateDirBounded sg stateDir MaximumPhysicalPathDepth) (\<lambda>canonical.
         recoverFileSet4WithBudget sg mc ctx canonical allowedPaths MaximumPhysicalPathDepth))
     else recover_version3 sg mc ctx stateDir allowedPaths)"

definition RecoverFileSet :: "'w storage \<Rightarrow> marker_codec \<Rightarrow> string \<Rightarrow> string list \<Rightarrow> ('w, unit) fileset" where
  "RecoverFileSet sg mc stateDir allowedPaths =
     io_bind (canonicalStateDir sg stateDir) (\<lambda>canonical.
     recoverWithOperationsVersion sg mc Cancellable canonical allowedPaths MetadataTransaction)"

definition RecoverFileSet4 :: "'w storage \<Rightarrow> marker_codec \<Rightarrow> string \<Rightarrow> string list \<Rightarrow> ('w, unit) fileset" where
  "RecoverFileSet4 sg mc stateDir exactPaths =
     recoverWithOperationsVersion sg mc Cancellable stateDir exactPaths MetadataTransactionReference"

section \<open>Previews\<close>

datatype RecoveryDisposition = RecoveryFinalize | RecoveryRollback

definition InspectFileSetRecovery :: "'w storage \<Rightarrow> marker_codec \<Rightarrow> string \<Rightarrow> string list \<Rightarrow> ('w, RecoveryDisposition) fileset" where
  "InspectFileSetRecovery sg mc stateDir exactPaths =
     io_bind (canonicalStateDir sg stateDir) (\<lambda>canonical.
     io_bind (loadMarker sg mc Cancellable (markerPath canonical)) (\<lambda>marker.
     io_bind (canonicalAllowedPaths sg exactPaths) (\<lambda>allowed.
     io_bind (io_refuse (length allowed \<noteq> length (mk_targets marker)) (RequestInvalid TargetSetMismatch)) (\<lambda>_.
     io_bind (on_result (authorize_targets allowed marker)) (\<lambda>_.
     io_bind (rejectAbandonedFileSetResidue sg Cancellable canonical) (\<lambda>_.
     io_bind (classifyTargets sg mc Cancellable marker) (\<lambda>classification.
     if cl_cleanAfter classification then io_return RecoveryFinalize
     else if \<not> cl_recoverable classification then io_raise (RequestInvalid NotRecoverable)
     else io_bind (preflightRestorableBackups sg mc Cancellable marker) (\<lambda>_. io_return RecoveryRollback))))))))"

definition InspectFileSetRecovery4 :: "'w storage \<Rightarrow> marker_codec \<Rightarrow> string \<Rightarrow> string list \<Rightarrow> ('w, RecoveryDisposition) fileset" where
  "InspectFileSetRecovery4 sg mc stateDir exactPaths =
     io_bind (ctx_err sg Cancellable) (\<lambda>_.
     with_own_budget (
       io_bind (canonicalStateDirBounded sg stateDir MaximumPhysicalPathDepth) (\<lambda>canonical.
       io_bind (loadMarker4WithBudget sg mc Cancellable (markerPath canonical) MaximumPhysicalPathDepth) (\<lambda>(marker, _, _).
       io_bind (canonicalAllowedPathsBounded sg exactPaths MaximumPhysicalPathDepth) (\<lambda>allowed.
       io_bind (io_refuse (length allowed \<noteq> length (mk_targets marker)) (RequestInvalid TargetSetMismatch)) (\<lambda>_.
       io_bind (on_result (authorize_targets allowed marker)) (\<lambda>_.
       io_bind (rejectAbandonedFileSetResidueWithBudget sg Cancellable canonical MaximumPhysicalPathDepth) (\<lambda>_.
       io_bind (classifyTargets sg mc Cancellable marker) (\<lambda>classification.
       if cl_cleanAfter classification then io_return RecoveryFinalize
       else if \<not> cl_recoverable classification then io_raise (RequestInvalid NotRecoverable)
       else io_bind (preflightRestorableBackupsWithBudget sg mc Cancellable marker MaximumPhysicalPathDepth)
         (\<lambda>_. io_return RecoveryRollback))))))))))"

end
