(* ===== verification/FileSetCommit.thy ===== *)
theory FileSetCommit
  imports FileSetRecovery
begin

text \<open>
  Committing a file set: preparing and publishing the evidence, writing the after-images and rolling back
  (\<^verbatim>\<open>internal/effect/fileset/transaction.go\<close> and \<^verbatim>\<open>marker.go\<close>).
\<close>

section \<open>Preparing the evidence\<close>

definition preflightStagedEvidenceSizes :: "'w storage \<Rightarrow> goContext \<Rightarrow> FileTarget list \<Rightarrow> int \<Rightarrow> ('w, unit) fileset" where
  "preflightStagedEvidenceSizes sg ctx targets afterImageSize =
     io_bind (io_refuse (afterImageSize < 0 \<or> afterImageSize > maximumTargetBytes) (EvidenceRefused (EvidenceSize afterImageSize))) (\<lambda>_.
     io_bind (on_result (admitStagedEvidenceBytes 0 afterImageSize)) (\<lambda>_.
     io_bind (io_foldl (\<lambda>stagedBytes t.
       io_bind (ctx_err sg ctx) (\<lambda>_.
       io_bind (io_try (on_store (sg_lstat sg (ft_path t)))) (\<lambda>found. case found of
           Inl e \<Rightarrow> if e = StorageFailure NotExist then io_return stagedBytes else io_raise e
         | Inr info \<Rightarrow>
             io_bind (io_refuse (\<not> mode_isRegular (fi_mode info)) (EvidenceRefused EvidenceNotRegular)) (\<lambda>_.
             let size = fi_size info in
             io_bind (io_refuse (size < 0 \<or> size > maximumTargetBytes) (EvidenceRefused (EvidenceSize size))) (\<lambda>_.
             io_bind (on_result (admitStagedEvidenceBytes stagedBytes size)) (\<lambda>_.
             io_return (stagedBytes + size))))))) afterImageSize targets) (\<lambda>_. io_return ())))"

text \<open>Staging one target: the markers so far and the bytes staged so far.\<close>

definition stage_target ::
  "'w storage \<Rightarrow> marker_codec \<Rightarrow> goContext \<Rightarrow> string \<Rightarrow> nat \<Rightarrow> targetMarker list \<times> int \<Rightarrow> FileTarget \<Rightarrow>
     ('w, targetMarker list \<times> int) fileset" where
  "stage_target sg mc ctx evidenceDir tree = (\<lambda>(rows, stagedEvidenceBytes) t.
     let backupName = backup_name (length rows) in
     io_bind (ctx_err sg ctx) (\<lambda>_.
     io_bind (captureFileState sg mc ctx (ft_path t) (go_join evidenceDir backupName)) (\<lambda>(before, content).
     let rows = rows @ [\<lparr>tm_path = ft_path t, tm_before = before,
           tm_afterHash = (if ft_write t then hashBytes (mc_sha mc) (ft_content t) else []),
           tm_write = ft_write t, tm_commitPoint = ft_commitPoint t\<rparr>] in
     if \<not> fs_exists before then io_return (rows, stagedEvidenceBytes)
     else
       io_bind (on_result (admitStagedEvidenceBytes stagedEvidenceBytes (int (length content)))) (\<lambda>_.
       io_bind (on_store (sg_writeTree sg tree backupName transactionEvidenceMode content)) (\<lambda>_.
       io_return (rows, stagedEvidenceBytes + int (length content)))))))"

definition populate_evidence ::
  "'w storage \<Rightarrow> marker_codec \<Rightarrow> goContext \<Rightarrow> string \<Rightarrow> nat \<Rightarrow> FileTarget list \<Rightarrow> int \<Rightarrow> (referenceEvidenceMarker \<times> string) option \<Rightarrow>
     ('w, transactionMarker) fileset" where
  "populate_evidence sg mc ctx evidenceDir tree targets version reference =
     io_bind (case reference of
         None \<Rightarrow> io_return 0
       | Some (r, _) \<Rightarrow>
           io_bind (on_result (admitStagedEvidenceBytes 0 (ra_size (re_afterImage r)))) (\<lambda>_.
           io_return (ra_size (re_afterImage r)))) (\<lambda>stagedEvidenceBytes.
     io_bind (io_foldl (stage_target sg mc ctx evidenceDir tree) ([], stagedEvidenceBytes) targets) (\<lambda>(rows, _).
     let marker = \<lparr>mk_version = version, mk_targets = rows, mk_reference = map_option fst reference\<rparr> in
     io_bind (case reference of
         None \<Rightarrow> io_return ()
       | Some (r, content) \<Rightarrow> on_store (sg_writeTree sg tree (ra_path (re_afterImage r)) transactionEvidenceMode content)) (\<lambda>_.
     io_bind (ctx_err sg ctx) (\<lambda>_.
     io_bind (on_result (marshalMarker mc marker)) (\<lambda>markerContent.
     io_bind (on_store (sg_writeTree sg tree transactionMarkerFile transactionEvidenceMode markerContent)) (\<lambda>_.
     io_return marker))))))"

text \<open>\<^verbatim>\<open>storagecommit.PrepareRootedTree\<close> stages a private tree, fills it and seals it, and discards it when
  one of these fails.\<close>

definition prepare_tree :: "'w storage \<Rightarrow> goContext \<Rightarrow> string \<Rightarrow> (nat \<Rightarrow> ('w, 'a) fileset) \<Rightarrow> ('w, nat \<times> 'a) fileset" where
  "prepare_tree sg ctx path populate =
     io_bind (on_store (sg_stageTree sg ctx path)) (\<lambda>tree.
     io_bind (io_try (io_bind (populate tree) (\<lambda>x. io_bind (on_store (sg_sealTree sg ctx tree)) (\<lambda>_. io_return x)))) (\<lambda>r.
     case r of
       Inl e \<Rightarrow> io_bind (io_try (on_store (sg_discardTree sg tree))) (\<lambda>d :: fileSetError + unit. io_raise e)
     | Inr x \<Rightarrow> io_return (tree, x)))"

definition retained_reference ::
  "marker_codec \<Rightarrow> FileTarget list \<Rightarrow> int \<Rightarrow> fileSetError + (referenceEvidenceMarker \<times> string)" where
  "retained_reference mc targets version =
     (case filter ft_commitPoint targets of
        [t] \<Rightarrow>
          if version \<noteq> MetadataTransactionReference then Inl (RequestInvalid ReferenceRequiresVersion4)
          else Inr (\<lparr>re_target = ft_path t, re_afterImage = \<lparr>ra_path = referenceAfterImageName,
            ra_size = int (length (ft_content t)), ra_digest = hashBytes (mc_sha mc) (ft_content t)\<rparr>\<rparr>, ft_content t)
      | _ \<Rightarrow> Inl (RequestInvalid ReferenceRequiresCommitPoint))"

definition prepareMarkerVersion ::
  "'w storage \<Rightarrow> marker_codec \<Rightarrow> goContext \<Rightarrow> string \<Rightarrow> FileTarget list \<Rightarrow> int \<Rightarrow> bool \<Rightarrow> ('w, transactionMarker) fileset" where
  "prepareMarkerVersion sg mc ctx stateDir targets version retainReference =
     io_bind (ctx_err sg ctx) (\<lambda>_.
     io_bind (on_result (admitFileSetTargetCount (int (length targets)))) (\<lambda>_.
     io_bind (canonicalStateDir sg stateDir) (\<lambda>stateDir.
     let evidenceDir = transactionDir stateDir in
     io_bind (io_try (on_store (sg_lstat sg evidenceDir))) (\<lambda>found. case found of
         Inr _ \<Rightarrow> io_raise (EvidenceRefused EvidenceExists)
       | Inl e \<Rightarrow>
           if e \<noteq> StorageFailure NotExist then io_raise e
           else
             io_bind (rejectAbandonedFileSetResidue sg ctx stateDir) (\<lambda>_.
             io_bind (if retainReference then on_result (map_sum id Some (retained_reference mc targets version))
                      else io_return None) (\<lambda>reference.
             io_bind (if version = MetadataTransactionReference
                      then preflightStagedEvidenceSizes sg ctx targets
                        (case reference of None \<Rightarrow> 0 | Some (r, _) \<Rightarrow> ra_size (re_afterImage r))
                      else io_return ()) (\<lambda>_.
             io_bind (on_store (sg_prepareParent sg ctx evidenceDir)) (\<lambda>_.
             io_bind (prepare_tree sg ctx evidenceDir
               (\<lambda>tree. populate_evidence sg mc ctx evidenceDir tree targets version reference)) (\<lambda>(tree, marker).
             io_bind (on_store (sg_commitTree sg ctx tree)) (\<lambda>_. io_return marker))))))))))"

section \<open>Rolling back\<close>

definition rollbackFailure ::
  "'w storage \<Rightarrow> marker_codec \<Rightarrow> fileSetError \<Rightarrow> transactionMarker \<Rightarrow> string \<Rightarrow> ('w, unit) fileset" where
  "rollbackFailure sg mc primary marker stateDir =
     io_bind (io_try (classifyTargets sg mc Uncancellable marker)) (\<lambda>classified. case classified of
         Inl e \<Rightarrow> io_raise (RollbackUnclassified primary e)
       | Inr classification \<Rightarrow>
           if \<not> cl_recoverable classification then io_raise (RollbackRefused primary)
           else
             io_bind (io_wrap (RollbackFailed primary) (restoreTransaction sg mc Uncancellable marker)) (\<lambda>_.
             io_bind (io_wrap (RolledBackMarkerLeft primary) (removeTransactionDir sg Uncancellable stateDir)) (\<lambda>_.
             io_raise (RolledBack primary))))"

section \<open>Committing\<close>

text \<open>Writing one after-image; the context is read after each.\<close>

definition write_target ::
  "'w storage \<Rightarrow> marker_codec \<Rightarrow> goContext \<Rightarrow> transactionMarker \<Rightarrow> string \<Rightarrow> nat \<Rightarrow> FileTarget \<Rightarrow> ('w, nat) fileset" where
  "write_target sg mc ctx marker stateDir index t =
     (if \<not> ft_write t then io_return (Suc index)
      else
        io_bind (io_try (commitFile sg ctx (ft_path t) (ft_content t) (fileMode (tm_before (mk_targets marker ! index))))) (\<lambda>r.
        case r of
          Inl e \<Rightarrow> io_bind (rollbackFailure sg mc (TargetWriteError (ft_path t) e) marker stateDir) (\<lambda>_. io_return (Suc index))
        | Inr _ \<Rightarrow>
            io_bind (io_try (ctx_err sg ctx)) (\<lambda>c. case c of
                Inl e \<Rightarrow> io_bind (rollbackFailure sg mc e marker stateDir) (\<lambda>_. io_return (Suc index))
              | Inr _ \<Rightarrow> io_return (Suc index))))"

definition publish_targets ::
  "'w storage \<Rightarrow> marker_codec \<Rightarrow> goContext \<Rightarrow> transactionMarker \<Rightarrow> string \<Rightarrow> FileTarget list \<Rightarrow> ('w, unit) fileset" where
  "publish_targets sg mc ctx marker stateDir targets =
     io_bind (io_try (ctx_err sg ctx)) (\<lambda>c. case c of
         Inl e \<Rightarrow>
           io_bind (io_wrap (CleanupFailed e) (removeTransactionDir sg Uncancellable stateDir)) (\<lambda>_. io_raise e)
       | Inr _ \<Rightarrow>
           io_bind (io_foldl (write_target sg mc ctx marker stateDir) 0 targets) (\<lambda>_.
           io_bind (io_wrap AfterImagesCommitted (ctx_err sg ctx)) (\<lambda>_.
           removeTransactionDir sg ctx stateDir)))"

record FileSetInput =
  in_StateDir :: string
  in_Targets :: "FileTarget list"

definition commitWithOperationsVersion ::
  "'w storage \<Rightarrow> marker_codec \<Rightarrow> goContext \<Rightarrow> FileSetInput \<Rightarrow> int \<Rightarrow> bool \<Rightarrow> ('w, unit) fileset" where
  "commitWithOperationsVersion sg mc ctx input version retainReference =
     io_bind (ctx_err sg ctx) (\<lambda>_.
     with_own_budget (
       io_bind (if version = MetadataTransactionReference
                then canonicalStateDirBounded sg (in_StateDir input) MaximumPhysicalPathDepth
                else canonicalStateDir sg (in_StateDir input)) (\<lambda>stateDir.
       io_bind (if version = MetadataTransactionReference
                then canonicalTargetsBounded sg (in_Targets input) MaximumPhysicalPathDepth
                else canonicalTargets sg (in_Targets input)) (\<lambda>targets.
       io_bind (io_refuse (version \<noteq> MetadataTransaction \<and> version \<noteq> MetadataTransactionReference)
         (RequestInvalid (UnsupportedWriterVersion version))) (\<lambda>_.
       io_bind (io_refuse (retainReference \<and> version \<noteq> MetadataTransactionReference) (RequestInvalid ReferenceRequiresVersion4)) (\<lambda>_.
       io_bind (io_refuse (retainReference \<and> \<not> hasCommitPointTarget targets) (RequestInvalid ReferenceRequiresCommitPoint)) (\<lambda>_.
       let allowed = map ft_path targets in
       io_bind (if version = MetadataTransactionReference
                then recoverFileSet4WithBudget sg mc ctx stateDir allowed MaximumPhysicalPathDepth
                else recoverWithOperationsVersion sg mc ctx stateDir allowed version) (\<lambda>_.
       io_bind (prepareMarkerVersion sg mc ctx stateDir targets version retainReference) (\<lambda>marker.
       publish_targets sg mc ctx marker stateDir targets)))))))))"

definition CommitFileSet :: "'w storage \<Rightarrow> marker_codec \<Rightarrow> FileSetInput \<Rightarrow> ('w, unit) fileset" where
  "CommitFileSet sg mc input = commitWithOperationsVersion sg mc Cancellable input MetadataTransaction False"

definition CommitFileSet4 :: "'w storage \<Rightarrow> marker_codec \<Rightarrow> FileSetInput \<Rightarrow> ('w, unit) fileset" where
  "CommitFileSet4 sg mc input = commitWithOperationsVersion sg mc Cancellable input MetadataTransactionReference False"

definition CommitFileSet4WithReference :: "'w storage \<Rightarrow> marker_codec \<Rightarrow> FileSetInput \<Rightarrow> ('w, unit) fileset" where
  "CommitFileSet4WithReference sg mc input =
     commitWithOperationsVersion sg mc Cancellable input MetadataTransactionReference True"

definition CommitFreshFileSet4WithReference :: "'w storage \<Rightarrow> marker_codec \<Rightarrow> FileSetInput \<Rightarrow> ('w, unit) fileset" where
  "CommitFreshFileSet4WithReference sg mc input =
     io_bind (with_own_budget (
       io_bind (canonicalStateDirBounded sg (in_StateDir input) MaximumPhysicalPathDepth) (\<lambda>canonical.
       ObserveClearFenceAt4 sg mc canonical MaximumPhysicalPathDepth))) (\<lambda>_.
     CommitFileSet4WithReference sg mc input)"

definition FileSetAuthorityPath :: "'w storage \<Rightarrow> string \<Rightarrow> ('w, string) fileset" where
  "FileSetAuthorityPath sg stateDir =
     io_bind (canonicalStateDir sg stateDir) (\<lambda>canonical. io_return (transactionDir canonical))"

end
