(* ===== verification/FileSetRoundtrip.thy ===== *)
theory FileSetRoundtrip
  imports FileSetMarker
begin

text \<open>
  What the marker of a file-set transaction is: the validation of the loader as one condition, and the
  marker that is written is the marker that is loaded.
\<close>

section \<open>Valid markers\<close>

definition before_valid :: "string \<Rightarrow> fileState \<Rightarrow> bool" where
  "before_valid backup st \<longleftrightarrow>
     (if fs_exists st then isHash (fs_hash st) \<and> fs_backupPath st = backup \<and> fs_mode st \<noteq> 0 \<and> mode_perm (fs_mode st) = fs_mode st
      else fs_hash st = [] \<and> fs_backupPath st = [] \<and> fs_mode st = 0)"

definition target_valid :: "string \<Rightarrow> nat \<Rightarrow> targetMarker \<Rightarrow> bool" where
  "target_valid dir i t \<longleftrightarrow> clean_absolute (tm_path t) \<and>
     (if tm_write t then isHash (tm_afterHash t) else tm_afterHash t = []) \<and>
     before_valid (go_join dir (backup_name i)) (tm_before t)"

text \<open>The ordinary targets by path, then at most one commit point, which is written.\<close>

definition targets_ordered :: "targetMarker list \<Rightarrow> bool" where
  "targets_ordered ts \<longleftrightarrow>
     distinct (map tm_path ts) \<and>
     sorted_wrt (<) (map tm_path (filter (\<lambda>t. \<not> tm_commitPoint t) ts)) \<and>
     ts = filter (\<lambda>t. \<not> tm_commitPoint t) ts @ filter tm_commitPoint ts \<and>
     length (filter tm_commitPoint ts) \<le> 1 \<and> (\<forall>t \<in> set ts. tm_commitPoint t \<longrightarrow> tm_write t)"

definition reference_valid :: "targetMarker list \<Rightarrow> referenceEvidenceMarker \<Rightarrow> bool" where
  "reference_valid ts r \<longleftrightarrow>
     (\<exists>t \<in> set ts. tm_commitPoint t \<and> tm_path t = re_target r \<and> tm_afterHash t = ra_digest (re_afterImage r)) \<and>
     ra_path (re_afterImage r) = referenceAfterImageName \<and>
     0 \<le> ra_size (re_afterImage r) \<and> ra_size (re_afterImage r) \<le> maximumTargetBytes"

definition marker_valid :: "string \<Rightarrow> int \<Rightarrow> transactionMarker \<Rightarrow> bool" where
  "marker_valid dir version m \<longleftrightarrow>
     mk_version m = version \<and> mk_targets m \<noteq> [] \<and> int (length (mk_targets m)) \<le> maximumFileSetTargets \<and>
     targets_ordered (mk_targets m) \<and> (\<forall>i < length (mk_targets m). target_valid dir i (mk_targets m ! i)) \<and>
     (case mk_reference m of
        None \<Rightarrow> True
      | Some r \<Rightarrow> version = MetadataTransactionReference \<and> reference_valid (mk_targets m) r)"

section \<open>The loop over the targets\<close>

definition pure_scan :: "string \<Rightarrow> markerScan \<Rightarrow> targetMarker \<Rightarrow> fileSetError + markerScan" where
  "pure_scan dir sc t =
     ebind (refuse_if (\<not> clean_absolute (tm_path t)) (MarkerInvalid (MarkerPathInvalid (tm_path t)))) (\<lambda>_.
     ebind (scan_path t sc) (scan_states dir t))"

definition scan_start :: markerScan where
  "scan_start = \<lparr>sc_index = 0, sc_previousOrdinary = [], sc_commitPointSeen = False, sc_commitPointTarget = [], sc_seenPaths = []\<rparr>"

definition scanned :: "targetMarker list \<Rightarrow> markerScan" where
  "scanned ts =
     \<lparr>sc_index = length ts,
      sc_previousOrdinary = last ([] # map tm_path (filter (\<lambda>t. \<not> tm_commitPoint t) ts)),
      sc_commitPointSeen = (filter tm_commitPoint ts \<noteq> []),
      sc_commitPointTarget = last ([] # map tm_path (filter tm_commitPoint ts)),
      sc_seenPaths = rev (map tm_path ts)\<rparr>"

lemma sorted_wrt_snoc:
  fixes x :: "'a :: linorder"
  shows "sorted_wrt (<) (xs @ [x]) \<longleftrightarrow> sorted_wrt (<) xs \<and> (xs \<noteq> [] \<longrightarrow> last xs < x)"
  by (cases xs rule: rev_cases) (auto simp: sorted_wrt_append intro: less_trans)

lemma targets_ordered_snoc:
  "targets_ordered (ts @ [t]) \<longleftrightarrow>
     targets_ordered ts \<and> tm_path t \<notin> tm_path ` set ts \<and> filter tm_commitPoint ts = [] \<and>
     (if tm_commitPoint t then tm_write t
      else filter (\<lambda>t. \<not> tm_commitPoint t) ts = [] \<or> last (map tm_path (filter (\<lambda>t. \<not> tm_commitPoint t) ts)) < tm_path t)"
proof (cases "tm_commitPoint t")
  case True
  have "length (filter tm_commitPoint ts @ [t]) \<le> 1 \<longleftrightarrow> filter tm_commitPoint ts = []" by simp
  with True show ?thesis by (auto simp: targets_ordered_def)
next
  case False
  have "ts @ [t] = (filter (\<lambda>t. \<not> tm_commitPoint t) ts @ [t]) @ filter tm_commitPoint ts \<longleftrightarrow>
      filter tm_commitPoint ts = [] \<and> ts = filter (\<lambda>t. \<not> tm_commitPoint t) ts"
  proof (cases "filter tm_commitPoint ts" rule: rev_cases)
    case (snoc ys y)
    then have "y \<in> set (filter tm_commitPoint ts)" by simp
    then have "tm_commitPoint y" by simp
    with False have "t \<noteq> y" by auto
    with snoc show ?thesis by auto
  qed simp
  with False show ?thesis by (auto simp: targets_ordered_def sorted_wrt_snoc last_map)
qed

lemma clean_absolute_nonempty: "clean_absolute p \<Longrightarrow> p \<noteq> []"
  by (simp add: clean_absolute_def)

lemma before_valid_iff: "validateBeforeState st backup = Inr u \<longleftrightarrow> before_valid backup st"
  by (auto simp: validateBeforeState_def before_valid_def)

lemma scan_step:
  assumes "\<forall>t \<in> set ts. clean_absolute (tm_path t)" and "targets_ordered ts"
  shows "pure_scan dir (scanned ts) t = Inr sc \<longleftrightarrow>
    targets_ordered (ts @ [t]) \<and> target_valid dir (length ts) t \<and> sc = scanned (ts @ [t])"
proof -
  let ?ord = "filter (\<lambda>t. \<not> tm_commitPoint t) ts"
  have prev: "sc_previousOrdinary (scanned ts) \<noteq> [] \<longleftrightarrow> ?ord \<noteq> []"
  proof (cases ?ord rule: rev_cases)
    case (snoc ys y)
    then have "y \<in> set ?ord" by simp
    then have "tm_path y \<noteq> []" using assms(1) clean_absolute_nonempty by auto
    with snoc show ?thesis by (simp add: scanned_def)
  qed (simp add: scanned_def)
  have states: "scan_states dir t sc' = Inr sc \<longleftrightarrow>
      (if tm_write t then isHash (tm_afterHash t) else tm_afterHash t = []) \<and>
      before_valid (go_join dir (backup_name (sc_index sc'))) (tm_before t) \<and> sc = sc'\<lparr>sc_index := Suc (sc_index sc')\<rparr>" for sc'
    by (auto simp: scan_states_def before_valid_iff ebind_eq_Inr)
  have point: "sc_commitPointSeen (scanned ts) \<longleftrightarrow> filter tm_commitPoint ts \<noteq> []"
    and paths: "set (sc_seenPaths (scanned ts)) = tm_path ` set ts"
    and last: "?ord \<noteq> [] \<Longrightarrow> sc_previousOrdinary (scanned ts) = last (map tm_path ?ord)"
    by (simp_all add: scanned_def last_map)
  have path: "scan_path t (scanned ts) = Inr sc' \<longleftrightarrow>
      targets_ordered (ts @ [t]) \<and> sc' = scanned (ts @ [t])\<lparr>sc_index := length ts\<rparr>" if "tm_path t \<noteq> []" for sc'
  proof (cases "tm_commitPoint t")
    case True
    then show ?thesis
      using assms(2) point paths by (auto simp: scan_path_def Let_def targets_ordered_snoc scanned_def)
  next
    case False
    then show ?thesis
      using assms(2) point paths last prev that
      by (cases "?ord = []") (auto simp: scan_path_def Let_def targets_ordered_snoc scanned_def not_le)
  qed
  have index: "scanned (ts @ [t])\<lparr>sc_index := length ts, sc_index := Suc (length ts)\<rparr> = scanned (ts @ [t])"
    by (simp add: scanned_def)
  show ?thesis
  proof (cases "clean_absolute (tm_path t)")
    case True
    then show ?thesis
      using path[OF clean_absolute_nonempty[OF True]] index
      by (auto simp: pure_scan_def ebind_eq_Inr states target_valid_def)
  qed (simp add: pure_scan_def target_valid_def)
qed

lemma scan_targets:
  "foldM (pure_scan dir) scan_start ts = Inr sc \<longleftrightarrow>
     targets_ordered ts \<and> (\<forall>i < length ts. target_valid dir i (ts ! i)) \<and> sc = scanned ts"
proof (induction ts arbitrary: sc rule: rev_induct)
  case Nil
  show ?case by (auto simp: scan_start_def scanned_def targets_ordered_def)
next
  case (snoc t ts)
  have "(\<forall>i < length (ts @ [t]). target_valid dir i ((ts @ [t]) ! i)) \<longleftrightarrow>
      (\<forall>i < length ts. target_valid dir i (ts ! i)) \<and> target_valid dir (length ts) t"
    by (auto simp: less_Suc_eq nth_append)
  moreover have "\<forall>t \<in> set ts. clean_absolute (tm_path t)" if "\<forall>i < length ts. target_valid dir i (ts ! i)"
    using that by (auto simp: in_set_conv_nth target_valid_def)
  ultimately show ?case
    using scan_step[of ts dir t sc] by (auto simp: foldM_append ebind_eq_Inr snoc.IH targets_ordered_snoc)
qed


text \<open>The loop of the model is this loop: it succeeds only where the loop without charges does, and for generation 3
  it is that loop.\<close>

lemma foldl_results: "io_foldl (\<lambda>a x. on_result (f a x)) a xs s = (foldM f a xs, s)"
  by (induction xs arbitrary: a) (auto simp: io_bind_def on_result_def split: sum.splits)

lemma scan_target_Inr: "scan_target dir version depth sc t s = (Inr sc', s') \<Longrightarrow> pure_scan dir sc t = Inr sc'"
  by (auto simp: scan_target_def pure_scan_def io_bind_def on_result_def split: prod.splits sum.splits if_splits)

lemma scan_fold_Inr:
  "io_foldl (scan_target dir version depth) sc ts s = (Inr sc', s') \<Longrightarrow> foldM (pure_scan dir) sc ts = Inr sc'"
  by (induction ts arbitrary: sc s) (auto simp: io_bind_Inr dest!: scan_target_Inr)

lemma scan_target_plain:
  "scan_target dir MetadataTransaction depth = (\<lambda>sc t. on_result (pure_scan dir sc t))"
  by (intro ext) (auto simp: scan_target_def pure_scan_def io_bind_def on_result_def MetadataTransaction_def
      MetadataTransactionReference_def split: sum.splits)

lemma scan_plain:
  "io_foldl (scan_target dir MetadataTransaction depth) sc ts s = (foldM (pure_scan dir) sc ts, s)"
  by (simp add: scan_target_plain foldl_results)

lemma versions_differ [simp]:
  "MetadataTransaction \<noteq> MetadataTransactionReference" "MetadataTransactionReference \<noteq> MetadataTransaction"
  by (simp_all add: MetadataTransaction_def MetadataTransactionReference_def)

lemma commit_target:
  assumes "targets_ordered ts"
  shows "sc_commitPointTarget (scanned ts) = p \<and> p \<noteq> [] \<longleftrightarrow>
    p \<noteq> [] \<and> (\<exists>t \<in> set ts. tm_commitPoint t \<and> tm_path t = p)"
proof -
  from assms have "length (filter tm_commitPoint ts) \<le> 1" by (simp add: targets_ordered_def)
  then consider "filter tm_commitPoint ts = []" | t where "filter tm_commitPoint ts = [t]"
    by (cases "filter tm_commitPoint ts") auto
  then show ?thesis
  proof cases
    case 1
    then show ?thesis by (auto simp: scanned_def filter_empty_conv)
  next
    case 2
    then have "{x \<in> set ts. tm_commitPoint x} = {t}" by (metis empty_set list.simps(15) set_filter)
    with 2 show ?thesis by (auto simp: scanned_def)
  qed
qed

lemma find_distinct:
  assumes "distinct (map tm_path ts)" and "t \<in> set ts" and "tm_path t = p"
  shows "find (\<lambda>t. tm_path t = p) ts = Some t"
  using assms by (induction ts) (auto dest: image_eqI)

lemma reference_iff:
  assumes "targets_ordered (mk_targets m)" and "\<forall>i < length (mk_targets m). target_valid dir i (mk_targets m ! i)"
  shows "validateReferenceMarker m r (sc_commitPointTarget (scanned (mk_targets m))) = Inr () \<longleftrightarrow>
    reference_valid (mk_targets m) r"
proof -
  let ?ts = "mk_targets m" and ?p = "re_target r"
  have valid: "clean_absolute (tm_path t)" "tm_write t \<longrightarrow> isHash (tm_afterHash t)" if "t \<in> set ?ts" for t
    using assms(2) that by (auto simp: in_set_conv_nth target_valid_def)
  have nonempty: "\<forall>t \<in> set ?ts. tm_path t \<noteq> []" using valid clean_absolute_nonempty by blast
  have writes: "tm_write t" if "t \<in> set ?ts" "tm_commitPoint t" for t
    using assms(1) that by (auto simp: targets_ordered_def)
  have point: "sc_commitPointTarget (scanned ?ts) = ?p \<and> ?p \<noteq> [] \<longleftrightarrow> ?p \<noteq> [] \<and> (\<exists>t \<in> set ?ts. tm_commitPoint t \<and> tm_path t = ?p)"
    by (rule commit_target[OF assms(1)])
  show ?thesis
  proof (cases "\<exists>t \<in> set ?ts. tm_commitPoint t \<and> tm_path t = ?p")
    case False
    then have "\<not> (sc_commitPointTarget (scanned ?ts) = ?p \<and> ?p \<noteq> [])" using point by blast
    with False show ?thesis
      by (auto simp: validateReferenceMarker_def reference_valid_def clean_absolute_def)
  next
    case True
    then obtain t where t: "t \<in> set ?ts" "tm_commitPoint t" "tm_path t = ?p" by blast
    then have "?p \<noteq> []" using nonempty by auto
    with True point have target: "sc_commitPointTarget (scanned ?ts) = ?p" by blast
    have found: "find (\<lambda>t. tm_path t = ?p) ?ts = Some t"
      by (rule find_distinct) (use assms(1) t in \<open>auto simp: targets_ordered_def\<close>)
    have only: "t' = t" if "t' \<in> set ?ts" "tm_path t' = ?p" for t'
      using find_distinct[OF _ that] found assms(1) by (auto simp: targets_ordered_def)
    have clean: "clean_absolute ?p" using valid(1)[OF t(1)] t(3) by simp
    have digest: "(\<exists>t' \<in> set ?ts. tm_commitPoint t' \<and> tm_path t' = ?p \<and> tm_afterHash t' = h) \<longleftrightarrow> tm_afterHash t = h" for h
      using only t by metis
    have hash: "isHash (tm_afterHash t)" using valid(2)[OF t(1)] writes[OF t(1,2)] by blast
    show ?thesis
      unfolding validateReferenceMarker_def reference_valid_def digest target found option.case
      using clean \<open>?p \<noteq> []\<close> t(2) writes[OF t(1,2)] hash by auto
  qed
qed

lemma count_admitted: "admitFileSetTargetCount n = Inr u \<longleftrightarrow> n \<le> maximumFileSetTargets"
  by (auto simp: admitFileSetTargetCount_def)

lemma on_result_Inr [simp]: "on_result r s = (Inr x, s') \<longleftrightarrow> r = Inr x \<and> s' = s"
  by (auto simp: on_result_def split: sum.splits)

text \<open>What a validated marker satisfies.\<close>

lemma validated_marker:
  assumes "validateMarkerForVersionWithBudget path m version depth s = (Inr (), s')"
    and "version = MetadataTransaction \<or> version = MetadataTransactionReference"
  shows "marker_valid (go_dir path) version m"
proof -
  from assms(1) obtain sc s1 where m: "mk_version m = version" "mk_targets m \<noteq> []"
      "version = MetadataTransaction \<Longrightarrow> mk_reference m = None" "int (length (mk_targets m)) \<le> maximumFileSetTargets"
      and sc: "io_foldl (scan_target (go_dir path) version depth) scan_start (mk_targets m) s = (Inr sc, s1)"
      and r: "\<And>r. mk_reference m = Some r \<Longrightarrow> version = MetadataTransactionReference \<Longrightarrow>
        validateReferenceMarker m r (sc_commitPointTarget sc) = Inr ()"
    by (auto simp: validateMarkerForVersionWithBudget_def io_bind_Inr count_admitted scan_start_def split: if_splits option.splits)
  from scan_fold_Inr[OF sc] have t: "targets_ordered (mk_targets m)"
      "\<forall>i < length (mk_targets m). target_valid (go_dir path) i (mk_targets m ! i)" "sc = scanned (mk_targets m)"
    by (simp_all add: scan_targets)
  have "version = MetadataTransactionReference \<and> reference_valid (mk_targets m) r" if "mk_reference m = Some r" for r
    using m(3) assms(2) r[OF that] that reference_iff[OF t(1,2)] t(3) by auto
  with m t show ?thesis by (simp add: marker_valid_def split: option.split)
qed

lemma validate_exact_3:
  "validateMarkerForVersionWithBudget path m MetadataTransaction depth s = (Inr (), s) \<longleftrightarrow>
     marker_valid (go_dir path) MetadataTransaction m"
proof
  assume v: "marker_valid (go_dir path) MetadataTransaction m"
  then have "mk_reference m = None" by (auto simp: marker_valid_def split: option.splits)
  moreover have "foldM (pure_scan (go_dir path)) scan_start (mk_targets m) = Inr (scanned (mk_targets m))"
    using v by (simp add: scan_targets marker_valid_def)
  ultimately show "validateMarkerForVersionWithBudget path m MetadataTransaction depth s = (Inr (), s)"
    using v by (simp add: validateMarkerForVersionWithBudget_def marker_valid_def io_bind_Inr count_admitted
        scan_plain scan_start_def)
qed (auto dest: validated_marker)

lemma validate_3_world: "snd (validateMarkerForVersionWithBudget path m MetadataTransaction depth s) = s"
  by (auto simp: validateMarkerForVersionWithBudget_def io_bind_def scan_plain on_result_def
      split: sum.splits option.splits prod.splits)


section \<open>A marker is read back from its text\<close>

lemma json_uint32_formatWord [simp]: "json_uint32 (JNumber (formatWord (v :: 32 word))) old = Inr v"
proof -
  have "uint v < 2 ^ 32" using unsigned_less[of v, where ?'a = int] by simp
  then show ?thesis by (simp add: json_uint32_def formatWord_def)
qed

lemma json_int64_formatInt: "- go_max_int - 1 \<le> v \<Longrightarrow> v \<le> go_max_int \<Longrightarrow> json_int64 (JNumber (formatInt v)) old = Inr v"
  by (simp add: json_int64_def go_Atoi_formatInt)

lemma json_plain [simp]: "json_string (JString s) old = Inr s" "json_bool (JBool b) old' = Inr b"
  by (simp_all add: json_string_def json_bool_def)

lemma decode_fileState: "decode_struct fileState_setter (fileState_json st) no_file = Inr st"
  by (simp add: decode_struct_def fileState_json_def omit_empty_def no_file_def fileState_setter_def)

lemma decode_target: "decode_struct targetMarker_setter (targetMarker_json t) no_target = Inr t"
  by (simp add: decode_struct_def[of targetMarker_setter] targetMarker_json_def omit_empty_def no_target_def
      targetMarker_setter_def decode_fileState)

lemma decode_image:
  "- go_max_int - 1 \<le> ra_size i \<Longrightarrow> ra_size i \<le> go_max_int \<Longrightarrow>
   decode_struct afterImage_setter (afterImage_json i) no_image = Inr i"
  by (simp add: decode_struct_def afterImage_json_def no_image_def afterImage_setter_def json_int64_formatInt)

text \<open>The integers of a marker are those of Go.\<close>

definition go_marker :: "transactionMarker \<Rightarrow> bool" where
  "go_marker m \<longleftrightarrow> (- go_max_int - 1 \<le> mk_version m \<and> mk_version m \<le> go_max_int) \<and>
     (case mk_reference m of None \<Rightarrow> True
      | Some r \<Rightarrow> - go_max_int - 1 \<le> ra_size (re_afterImage r) \<and> ra_size (re_afterImage r) \<le> go_max_int)"

lemma decode_marker_json:
  assumes "go_marker m"
  shows "decode_marker (marker_json m) = Inr m"
proof -
  have targets: "mapM (\<lambda>j. decode_struct targetMarker_setter j no_target) (map targetMarker_json ts) = Inr ts" for ts
    by (induction ts) (simp_all add: decode_target)
  have reference: "decode_struct reference_setter (reference_json r) \<lparr>re_target = [], re_afterImage = no_image\<rparr> = Inr r"
    if "mk_reference m = Some r" for r
  proof -
    have "decode_struct afterImage_setter (afterImage_json (re_afterImage r)) no_image = Inr (re_afterImage r)"
      by (rule decode_image) (use assms that in \<open>simp_all add: go_marker_def\<close>)
    then show ?thesis by (simp add: decode_struct_def[of reference_setter] reference_json_def reference_setter_def)
  qed
  have range: "- go_max_int - 1 \<le> mk_version m" "mk_version m \<le> go_max_int"
    using assms by (simp_all add: go_marker_def)
  show ?thesis
  proof (cases "mk_reference m")
    case None
    then show ?thesis
      using range targets by (simp add: decode_marker_def decode_struct_def[of marker_setter] marker_json_def
          marker_setter_def json_int64_formatInt)
  next
    case (Some r)
    then show ?thesis
      using range targets reference[OF Some] by (simp add: decode_marker_def decode_struct_def[of marker_setter]
          marker_json_def marker_setter_def json_int64_formatInt reference_json_def)
  qed
qed

lemma presence_before: "before_valid (go_join a b) st \<Longrightarrow> validateBeforePresence (fileState_json st) = Inr ()"
  by (auto simp: validateBeforePresence_def object_fields_def fileState_json_def omit_empty_def before_valid_def
      go_join_def clean_nonempty requireMarkerField_def rejectMarkerNull_def field_bool_def isHash_def has_prefix_def split: if_splits)

lemma presence_target:
  assumes "target_valid dir i t"
  shows "validateTargetPresence (targetMarker_json t) = Inr ()"
proof -
  have "validateBeforePresence (fileState_json (tm_before t)) = Inr ()"
    using assms presence_before by (auto simp: target_valid_def)
  moreover have "tm_write t \<longrightarrow> tm_afterHash t \<noteq> []" "fileState_json (tm_before t) \<noteq> JNull"
    using assms by (auto simp: target_valid_def isHash_def has_prefix_def fileState_json_def split: if_splits)
  ultimately show ?thesis
    by (auto simp: validateTargetPresence_def object_fields_def targetMarker_json_def omit_empty_def requireMarkerField_def
        rejectMarkerNull_def field_bool_def)
qed


lemma presence_marker:
  assumes "marker_valid dir version m" and "version = MetadataTransaction \<or> version = MetadataTransactionReference"
  shows "validateMarkerPresence (marker_json m) version = Inr ()"
proof -
  have "validateTargetPresence (targetMarker_json t) = Inr ()" if "t \<in> set (mk_targets m)" for t
    using assms(1) that presence_target by (auto simp: marker_valid_def in_set_conv_nth)
  then have targets: "foldM (\<lambda>_ j. validateTargetPresence j) () (map targetMarker_json (mk_targets m)) = Inr ()"
    by (subst foldM_total[where g = "\<lambda>_ _. ()"]) auto
  have reference: "validateReferencePresence (reference_json r) = Inr ()" for r
    by (simp add: validateReferencePresence_def object_fields_def reference_json_def requireMarkerField_def afterImage_json_def)
  show ?thesis
  proof (cases "mk_reference m")
    case None
    then show ?thesis
      using targets by (auto simp: validateMarkerPresence_def object_fields_def marker_json_def requireMarkerField_def
          rejectMarkerNull_def)
  next
    case (Some r)
    then have "version = MetadataTransactionReference" using assms(1) by (simp add: marker_valid_def)
    moreover have "reference_json r \<noteq> JNull" by (simp add: reference_json_def)
    ultimately show ?thesis
      using targets reference Some by (auto simp: validateMarkerPresence_def object_fields_def marker_json_def requireMarkerField_def
          rejectMarkerNull_def)
  qed
qed

lemma marker_keys:
  "list_all snake_key [''exists'', ''hash'', ''backup_path'', ''mode'', ''path'', ''before'', ''after_hash'',
     ''write'', ''commit_point'', ''size'', ''digest'', ''target'', ''after_image'', ''version'', ''targets'', ''reference'']"
  by code_simp

definition marker_rules :: validationRules where
  "marker_rules = \<lparr>canonicalObjectKeys = True, rejectNull = False\<rparr>"

lemma json_ok_marker: "json_ok marker_rules maximumMarkerJSONDepth 0 (marker_json m)"
proof -
  note [simp] = marker_rules_def maximumMarkerJSONDepth_def
  have before: "json_ok marker_rules maximumMarkerJSONDepth 3 (fileState_json st)" for st
    using marker_keys by (simp add: fileState_json_def omit_empty_def)
  have target: "json_ok marker_rules maximumMarkerJSONDepth 2 (targetMarker_json t)" for t
    using marker_keys before[of "tm_before t"] by (simp add: targetMarker_json_def omit_empty_def)
  have reference: "json_ok marker_rules maximumMarkerJSONDepth 1 (reference_json r)" for r
    using marker_keys by (simp add: reference_json_def afterImage_json_def)
  have targets: "list_all (json_ok marker_rules maximumMarkerJSONDepth 2) (map targetMarker_json (mk_targets m))"
    using target by (simp add: list_all_iff)
  show ?thesis
    using marker_keys targets reference by (auto simp: marker_json_def split: option.split)
qed

lemma marker_version:
  assumes "decoder content = (tokens (marker_json m), True)" and "0 < mk_version m" "mk_version m \<le> go_max_int"
  shows "exactObjectVersion decoder content = Inr (mk_version m)"
  using assms go_Atoi_formatInt[of "mk_version m"] by (simp add: exactObjectVersion_def marker_json_def go_max_int_def)

text \<open>The codec writes a text whose tokens are those of the value.\<close>

definition prints :: "marker_codec \<Rightarrow> json \<Rightarrow> bool" where
  "prints mc j \<longleftrightarrow> (let content = mc_indent mc j @ [CHR 0x0A] in
     mc_decoder mc content = (tokens j, True) \<and> utf8_valid content \<and> list_all surrogates_paired (text_literals content))"

lemma parse_marker:
  assumes "marshalMarker mc m = Inr content" and "prints mc (marker_json m)" and "marker_valid dir version m"
    and "version = MetadataTransaction \<or> version = MetadataTransactionReference"
  shows "parseMarker mc content version = Inr m"
proof -
  have content: "mc_decoder mc content = (tokens (marker_json m), True)" "utf8_valid content"
      "list_all surrogates_paired (text_literals content)"
    using assms(1,2) by (auto simp: marshalMarker_def prints_def Let_def split: if_splits)
  have version: "mk_version m = version" "0 < version" "version \<le> go_max_int" "- go_max_int - 1 \<le> version"
    using assms(3,4) by (auto simp: marker_valid_def MetadataTransaction_def MetadataTransactionReference_def go_max_int_def)
  have "json_validate (mc_decoder mc) content maximumMarkerJSONDepth marker_rules = Inr ()"
    using validate_tokens[of "mc_decoder mc" content "marker_json m" maximumMarkerJSONDepth marker_rules] content json_ok_marker
    by (simp add: maximumMarkerJSONDepth_def)
  then have envelope: "DecodeVersionEnvelope (mc_decoder mc) content maximumMarkerJSONDepth version =
      Inr \<lparr>ve_version = version, ve_disposition = VersionCurrent\<rparr>"
    using marker_version[of "mc_decoder mc" content m] content(1) version
    by (simp add: DecodeVersionEnvelope_def ValidateVersionedObject_def marker_rules_def)
  have "decode_marker (marker_json m) = Inr m"
    by (rule decode_marker_json) (use version assms(3) in
      \<open>auto simp: go_marker_def marker_valid_def reference_valid_def maximumTargetBytes_def go_max_int_def split: option.splits\<close>)
  then show ?thesis
    using envelope json_of_tokens[of "mc_decoder mc" content "marker_json m"] content(1) presence_marker[OF assms(3,4)]
    by (simp add: parseMarker_def)
qed


section \<open>What loading charges\<close>

text \<open>The number of components of a path, and the room in a budget for traversing the targets of a marker of generation 4.\<close>

definition path_components :: "string \<Rightarrow> int" where
  "path_components p = int (length (filter (\<lambda>e. e \<noteq> []) (split_on slash p)))"

definition target_components :: "targetMarker list \<Rightarrow> int" where
  "target_components ts = sum_list (map (\<lambda>t. path_components (tm_path t)) ts)"

definition traversable :: "int \<Rightarrow> fenceObservationBudget \<Rightarrow> targetMarker list \<Rightarrow> bool" where
  "traversable depth b ts \<longleftrightarrow>
     0 < depth \<and> (\<forall>t \<in> set ts. path_components (tm_path t) \<le> depth) \<and>
     fb_paths b + target_components ts \<le> MaximumPhysicalPathComponentVisits \<and>
     fb_entries b \<le> maximumFileSetOperationEntries \<and> fb_bytes b \<le> maximumFileSetOperationBytes"

lemma path_components_nonneg [simp]: "0 \<le> path_components p" "0 \<le> target_components ts"
  by (simp add: path_components_def, unfold target_components_def, induction ts) (simp_all add: path_components_def)

lemma path_components_not_less [simp]: "\<not> path_components p < 0"
  by (simp add: not_less)

lemma components_counted: "clean_absolute p \<Longrightarrow> absolutePathDepth p = Inr (path_components p)"
proof -
  assume "clean_absolute p"
  then obtain cs where cs: "components cs" "p = abs_path cs"
    using clean_abs_iff[of p] by (auto simp: clean_absolute_def clean_abs_def)
  have tl: "split_on slash (abs_path cs) = [] # split_on slash (join_on slash cs)" by (simp add: abs_path_def)
  show ?thesis
  proof (cases "cs = []")
    case True
    then show ?thesis using cs clean_abs_path[OF cs(1)]
      by (simp add: absolutePathDepth_def Let_def path_components_def abs_path_def go_is_abs_def)
  next
    case False
    have nonempty: "\<forall>c \<in> set cs. c \<noteq> []" using cs(1) by (auto simp: components_def list_all_iff component_def)
    then have "join_on slash cs \<noteq> []" using False by (cases cs) (auto simp: join_on_Cons)
    moreover have "filter (\<lambda>e. e \<noteq> []) cs = cs" using nonempty by (simp add: filter_id_conv)
    ultimately show ?thesis
      using cs clean_abs_path[OF cs(1)] split_components[OF cs(1) False] tl
      by (simp add: absolutePathDepth_def Let_def path_components_def) (simp add: abs_path_def go_is_abs_def)
  qed
qed

lemma charge_exact:
  assumes "clean_absolute p"
  shows "ChargeAbsolutePath p depth (\<lambda>n. AdmitPhysicalWork n 0 0) b = Inr b' \<longleftrightarrow>
    0 < depth \<and> path_components p \<le> depth \<and> fb_paths b + path_components p \<le> MaximumPhysicalPathComponentVisits \<and>
    fb_entries b \<le> maximumFileSetOperationEntries \<and> fb_bytes b \<le> maximumFileSetOperationBytes \<and>
    b' = b\<lparr>fb_paths := fb_paths b + path_components p\<rparr>"
proof -
  have "go_is_abs p" "go_clean p = p" using assms by (simp_all add: clean_absolute_def)
  then show ?thesis
    by (cases b) (auto simp: ChargeAbsolutePath_def components_counted[OF assms] AdmitPhysicalWork_def)
qed

lemma scan_target_4:
  "scan_target dir MetadataTransactionReference depth sc t (w, b) = (Inr sc', (w', b')) \<longleftrightarrow>
     w' = w \<and> pure_scan dir sc t = Inr sc' \<and> ChargeAbsolutePath (tm_path t) depth (\<lambda>n. AdmitPhysicalWork n 0 0) b = Inr b'"
  by (auto simp: scan_target_def pure_scan_def charge_path_def on_budget_def io_bind_Inr ebind_eq_Inr refuse_if_def
      split: sum.splits if_splits)

lemma pure_scan_clean: "pure_scan dir sc t = Inr sc' \<Longrightarrow> clean_absolute (tm_path t)"
  by (auto simp: pure_scan_def refuse_if_def split: if_splits)

lemma scan_fold_4:
  "io_foldl (scan_target dir MetadataTransactionReference depth) sc ts (w, b) = (Inr sc', (w', b')) \<longleftrightarrow>
     w' = w \<and> foldM (pure_scan dir) sc ts = Inr sc' \<and> (ts \<noteq> [] \<longrightarrow> traversable depth b ts) \<and>
     b' = b\<lparr>fb_paths := fb_paths b + target_components ts\<rparr>"
proof (induction ts arbitrary: sc b)
  case Nil
  then show ?case by (cases b) (auto simp: target_components_def)
next
  case (Cons t ts)
  show ?case
  proof (cases "pure_scan dir sc t")
    case (Inl e)
    then show ?thesis using scan_target_Inr by (fastforce simp: io_bind_Inr)
  next
    case (Inr sc1)
    note clean = charge_exact[OF pure_scan_clean[OF Inr]]
    have total: "target_components (t # ts) = path_components (tm_path t) + target_components ts"
      by (simp add: target_components_def)
    have "io_foldl (scan_target dir MetadataTransactionReference depth) sc (t # ts) (w, b) = (Inr sc', (w', b')) \<longleftrightarrow>
        (\<exists>b1. ChargeAbsolutePath (tm_path t) depth (\<lambda>n. AdmitPhysicalWork n 0 0) b = Inr b1 \<and>
          io_foldl (scan_target dir MetadataTransactionReference depth) sc1 ts (w, b1) = (Inr sc', (w', b')))"
      by (auto simp: io_bind_Inr scan_target_4 Inr)
    also have "\<dots> \<longleftrightarrow> w' = w \<and> foldM (pure_scan dir) sc (t # ts) = Inr sc' \<and> traversable depth b (t # ts) \<and>
        b' = b\<lparr>fb_paths := fb_paths b + target_components (t # ts)\<rparr>"
      using path_components_nonneg(2)[of ts] total
      by (cases "ts = []") (auto simp: clean Cons.IH traversable_def Inr add.assoc target_components_def)
    finally show ?thesis by simp
  qed
qed

lemma scan_world: "fst (snd (io_foldl (scan_target dir version depth) sc ts (w, b))) = w"
proof (induction ts arbitrary: sc b)
  case (Cons t ts)
  have "fst (snd (scan_target dir version depth sc t (w, b))) = w"
    by (auto simp: scan_target_def charge_path_def on_budget_def io_bind_def on_result_def split: sum.splits prod.splits)
  then show ?case using Cons.IH
    by (cases "scan_target dir version depth sc t (w, b)") (auto simp: io_bind_def split: sum.splits)
qed simp

lemma validate_world: "fst (snd (validateMarkerForVersionWithBudget path m version depth (w, b))) = w"
  using scan_world[of "go_dir path" version depth scan_start "mk_targets m" w b]
  by (auto simp: validateMarkerForVersionWithBudget_def io_bind_def on_result_def scan_start_def
      split: sum.splits option.splits prod.splits)

text \<open>The room and the charge of a validation of either generation.\<close>

definition room_to_load :: "int \<Rightarrow> int \<Rightarrow> fenceObservationBudget \<Rightarrow> transactionMarker \<Rightarrow> bool" where
  "room_to_load version depth b m \<longleftrightarrow> version = MetadataTransactionReference \<longrightarrow> traversable depth b (mk_targets m)"

definition load_charge :: "int \<Rightarrow> transactionMarker \<Rightarrow> int" where
  "load_charge version m = (if version = MetadataTransactionReference then target_components (mk_targets m) else 0)"

lemma validate_marker_exact:
  assumes "version = MetadataTransaction \<or> version = MetadataTransactionReference"
  shows "validateMarkerForVersionWithBudget path m version depth (w, b) = (Inr (), (w', b')) \<longleftrightarrow>
     w' = w \<and> marker_valid (go_dir path) version m \<and> room_to_load version depth b m \<and>
     b' = b\<lparr>fb_paths := fb_paths b + load_charge version m\<rparr>" (is "?run \<longleftrightarrow> ?spec")
proof (cases "version = MetadataTransaction")
  case True
  have same: "b\<lparr>fb_paths := fb_paths b + 0\<rparr> = b" by simp
  have "?run \<longleftrightarrow> (w', b') = (w, b) \<and> marker_valid (go_dir path) MetadataTransaction m"
    using validate_exact_3[of path m depth "(w, b)"] validate_3_world[of path m depth "(w, b)"]
    by (cases "validateMarkerForVersionWithBudget path m MetadataTransaction depth (w, b)") (auto simp: True)
  then show ?thesis by (auto simp: True room_to_load_def load_charge_def)
next
  case False
  then have four: "version = MetadataTransactionReference" using assms by simp
  let ?dir = "go_dir path" and ?ts = "mk_targets m"
  show ?thesis
  proof
    assume run: ?run
    have valid: "marker_valid ?dir version m" by (rule validated_marker[OF run assms])
    from run obtain sc where "io_foldl (scan_target ?dir version depth) scan_start ?ts (w, b) = (Inr sc, (w', b'))" "?ts \<noteq> []"
      by (auto simp: four validateMarkerForVersionWithBudget_def io_bind_Inr scan_start_def split: if_splits option.splits)
    then show ?spec using valid by (simp add: four scan_fold_4 room_to_load_def load_charge_def)
  next
    assume spec: ?spec
    then have t: "targets_ordered ?ts" "\<forall>i < length ?ts. target_valid ?dir i (?ts ! i)" "?ts \<noteq> []" "mk_version m = version"
        "int (length ?ts) \<le> maximumFileSetTargets" "0 < depth"
        "\<And>r. mk_reference m = Some r \<Longrightarrow> reference_valid ?ts r"
      by (auto simp: marker_valid_def room_to_load_def traversable_def four)
    then have "foldM (pure_scan ?dir) scan_start ?ts = Inr (scanned ?ts)" by (simp add: scan_targets)
    then have "io_foldl (scan_target ?dir version depth) scan_start ?ts (w, b) = (Inr (scanned ?ts), (w', b'))"
      using spec by (simp add: four scan_fold_4 room_to_load_def load_charge_def)
    then show ?run
      using t reference_iff[OF t(1,2)]
      by (auto simp: four validateMarkerForVersionWithBudget_def io_bind_Inr count_admitted scan_start_def[symmetric]
          split: option.split)
  qed
qed

section \<open>Loading the published marker\<close>

lemma parse_marker_only:
  assumes "parseMarker mc content version = Inr m'" and "marshalMarker mc m = Inr content" and "prints mc (marker_json m)"
    and "go_marker m"
  shows "m' = m"
proof -
  have content: "mc_decoder mc content = (tokens (marker_json m), True)"
    using assms(2,3) by (auto simp: marshalMarker_def prints_def Let_def split: if_splits)
  show ?thesis
    using assms(1) json_of_tokens[of "mc_decoder mc" content "marker_json m"] content decode_marker_json[of m] assms(4)
    by (auto simp: parseMarker_def ebind_eq_Inr split: sum.splits if_splits decodeError.splits)
qed

text \<open>C39: the marker that is published is the marker that is loaded, in both generations and with or without an
  evidence reference: reading back the text written for a marker succeeds exactly when the marker is valid for its place
  (its targets canonical, ordered, with digests, modes and backup paths in the evidence directory, its reference that of
  the commit point) and, for generation 4, the traversal of its targets fits the depth and the budget; what is loaded is
  that marker, the components of its targets are all that is charged, and nothing is changed.\<close>

theorem marker_roundtrip:
  assumes "marshalMarker mc m = Inr content" and "prints mc (marker_json m)" and "go_marker m"
    and "version = MetadataTransaction \<or> version = MetadataTransactionReference"
    and "sg_read sg ctx path maximumMarkerBytes w = (Inr (content, 0x180), w')"
  shows "\<exists>r b'. loadMarkerAtCanonicalPathVersionWithBudget sg mc ctx path version depth (w, b) = (r, (w', b')) \<and>
    (r = Inr (m, content) \<longleftrightarrow> marker_valid (go_dir path) version m \<and> room_to_load version depth b m) \<and>
    (\<forall>x. r = Inr x \<longrightarrow> x = (m, content) \<and> b' = b\<lparr>fb_paths := fb_paths b + load_charge version m\<rparr>)"
proof -
  have early: "version = MetadataTransactionReference \<Longrightarrow> depth \<le> 0 \<Longrightarrow> \<not> room_to_load version depth b m"
    by (auto simp: room_to_load_def traversable_def)
  have read: "loadMarkerAtCanonicalPathVersionWithBudget sg mc ctx path version depth (w, b) =
      io_bind (on_result (parseMarker mc content version)) (\<lambda>marker.
        io_bind (if version = MetadataTransactionReference \<and> depth \<le> 0 then io_raise (WorkRefused BoundsRequired)
          else validateMarkerForVersionWithBudget path marker version depth) (\<lambda>_. io_return (marker, content))) (w', b)"
    using assms(5) by (simp add: loadMarkerAtCanonicalPathVersionWithBudget_def io_bind_def io_wrap_def on_store_def
        mode_perm_def transactionEvidenceMode_def)
  show ?thesis
  proof (cases "parseMarker mc content version")
    case (Inl e)
    then have "\<not> marker_valid (go_dir path) version m" using parse_marker[OF assms(1,2) _ assms(4)] by fastforce
    with Inl read show ?thesis by (simp add: io_bind_def on_result_def)
  next
    case (Inr m')
    then have m: "m' = m" using parse_marker_only[OF Inr assms(1-3)] by simp
    obtain r b' where r: "validateMarkerForVersionWithBudget path m version depth (w', b) = (r, (w', b'))"
      using validate_world[of path m version depth w' b] by (metis prod.collapse)
    from validate_marker_exact[OF assms(4), of path m depth w' b w' b'] r
    have exact: "r = Inr () \<Longrightarrow> marker_valid (go_dir path) version m \<and> room_to_load version depth b m \<and>
        b' = b\<lparr>fb_paths := fb_paths b + load_charge version m\<rparr>" by auto
    have complete: "marker_valid (go_dir path) version m \<and> room_to_load version depth b m \<Longrightarrow> r = Inr ()"
      using validate_marker_exact[OF assms(4), of path m depth w' b w' "b\<lparr>fb_paths := fb_paths b + load_charge version m\<rparr>"] r by auto
    show ?thesis
    proof (cases "version = MetadataTransactionReference \<and> depth \<le> 0")
      case True
      then show ?thesis using early Inr read m by (auto simp: io_bind_def on_result_def)
    next
      case False
      then show ?thesis using Inr read m r exact complete by (cases r) (auto simp: io_bind_def on_result_def)
    qed
  qed
qed

end
