(* ===== verification/FileSetContract.thy ===== *)
theory FileSetContract
  imports FileSetCommit FileSetRoundtrip
begin

text \<open>
  What a file-set transaction relies on, as a locale: the storage shows its lease holder a disk, each publication
  and removal takes effect at one instant or not at all whatever its call reports, and reading tells the truth
  when it succeeds. A crash is a storage all of whose later calls fail.
\<close>

section \<open>The disk\<close>

datatype node = Absent | RegularNode string FileMode | OtherNode

text \<open>Staged trees have a destination and the files written so far, the latest first.\<close>

record disk =
  dk_view :: "string \<Rightarrow> node"
  dk_trees :: "nat \<Rightarrow> (string \<times> (string \<times> string \<times> FileMode) list) option"

definition under :: "string \<Rightarrow> string \<Rightarrow> bool" where
  "under dir p \<longleftrightarrow> p = dir \<or> has_prefix p (dir @ [slash])"

definition put_file :: "string \<Rightarrow> string \<Rightarrow> FileMode \<Rightarrow> disk \<Rightarrow> disk" where
  "put_file path content mode d = d\<lparr>dk_view := (dk_view d)(path := RegularNode content (mode_perm mode))\<rparr>"

definition is_regular :: "node \<Rightarrow> bool" where
  "is_regular n = (case n of RegularNode _ _ \<Rightarrow> True | _ \<Rightarrow> False)"

definition removed :: "string \<Rightarrow> disk \<Rightarrow> disk" where
  "removed path d = d\<lparr>dk_view := (\<lambda>p. if p = path \<or> \<not> is_regular (dk_view d path) \<and> under path p then Absent
     else dk_view d p)\<rparr>"

definition put_tree :: "string \<Rightarrow> (string \<times> string \<times> FileMode) list \<Rightarrow> (string \<Rightarrow> node) \<Rightarrow> string \<Rightarrow> node" where
  "put_tree path files view p =
     (if p = path then OtherNode
      else if under path p then
        (case map_of (map (\<lambda>(name, file). (go_join path name, file)) files) p of
           Some (content, mode) \<Rightarrow> RegularNode content (mode_perm mode) | None \<Rightarrow> Absent)
      else view p)"

lemma join_component:
  assumes "components cs" and "component n"
  shows "go_join (abs_path cs) n = abs_path (cs @ [n])"
proof -
  have "slash \<notin> set n" "clean_step True st n = n # st" for st
    using assms(2) clean_step_component by (auto simp: component_def)
  then have "clean_elements True (abs_path cs @ slash # n) = clean_elements True (abs_path cs) @ [n]"
    by (simp add: clean_elements_def split_append split_plain)
  then have "clean_elements True (abs_path cs @ slash # n) = cs @ [n]"
    using clean_elements_abs[OF assms(1)] by simp
  then show ?thesis by (simp add: go_join_def go_clean_def Let_def) (simp add: go_is_abs_def abs_path_def)
qed

lemma under_join: "components cs \<Longrightarrow> cs \<noteq> [] \<Longrightarrow> component n \<Longrightarrow> under (abs_path cs) (abs_path (cs @ [n]))"
  by (simp add: under_def has_prefix_def abs_path_def join_on_append)

lemma clean_absolute_components: "clean_absolute p \<longleftrightarrow> (\<exists>cs. components cs \<and> p = abs_path cs)"
  using clean_abs_iff[of p] by (auto simp: clean_absolute_def clean_abs_def go_is_abs_def)

lemma components_snoc: "components (cs @ [n]) \<longleftrightarrow> components cs \<and> component n"
  by (simp add: components_def)

lemma names_are_components:
  "component transactionDirName" "component transactionMarkerFile" "component referenceAfterImageName"
  by (simp_all add: component_def transactionDirName_def transactionMarkerFile_def referenceAfterImageName_def)

lemma itoa_no_slash: "slash \<notin> set (itoa n)"
proof
  assume "slash \<in> set (itoa n)"
  then obtain d where "d < 10" "slash = digit d" using itoa_digits by blast
  then have "(of_char slash :: nat) = 48 + d" by (simp only: of_char_digit)
  then show False by simp
qed

lemma backup_component: "component (backup_name i)"
  unfolding component_def backup_name_def using itoa_no_slash[of i] by auto

text \<open>The evidence directory of a state directory and the entries in it.\<close>

lemma evidence_paths:
  assumes "clean_absolute S"
  shows "clean_absolute (transactionDir S)" "go_dir (markerPath S) = transactionDir S"
    "component n \<Longrightarrow> under (transactionDir S) (go_join (transactionDir S) n)"
    "clean_absolute (markerPath S)"
proof -
  obtain cs where cs: "components cs" "S = abs_path cs" using assms clean_absolute_components by blast
  let ?es = "cs @ [transactionDirName]"
  have es: "components ?es" using cs(1) names_are_components(1) by (simp add: components_snoc)
  have E: "transactionDir S = abs_path ?es" using join_component[OF cs(1) names_are_components(1)] cs(2) by (simp add: transactionDir_def)
  show "clean_absolute (transactionDir S)" using es E clean_absolute_components by blast
  show "component n \<Longrightarrow> under (transactionDir S) (go_join (transactionDir S) n)"
    using under_join[OF es] join_component[OF es] by (simp add: E)
  have M: "markerPath S = abs_path (?es @ [transactionMarkerFile])"
    using join_component[OF es names_are_components(2)] E by (simp add: markerPath_def)
  have ms: "components (?es @ [transactionMarkerFile])" using es names_are_components(2) by (simp add: components_def)
  show "clean_absolute (markerPath S)" using M ms clean_absolute_components by blast
  show "go_dir (markerPath S) = transactionDir S" unfolding M E go_dir_abs_path[OF ms] by (simp add: butlast_append)
qed

section \<open>The contract\<close>

locale file_storage =
  fixes sg :: "'w storage" and disk_of :: "'w \<Rightarrow> disk" and canon :: "string \<Rightarrow> string" and owned :: "string set"
  assumes canonical_law: "sg_canonical sg p w = (r, w') \<Longrightarrow> disk_of w' = disk_of w \<and> (\<forall>q. r = Inr q \<longrightarrow> q = canon p)"
    and canonicalBounded_law:
      "sg_canonicalBounded sg p n s = (r', s') \<Longrightarrow> disk_of (fst s') = disk_of (fst s) \<and> (\<forall>q. r' = Inr q \<longrightarrow> q = canon p)"
    and canon_law: "canon (canon p) = canon p" "clean_absolute (canon p)"
    and ctx_law: "disk_of (snd (sg_ctx sg w)) = disk_of w"
    and getwd_law: "disk_of (snd (sg_getwd sg w)) = disk_of w"
    and stat_law: "disk_of (snd (sg_stat sg p w)) = disk_of w"
    and open_law: "disk_of (snd (sg_open sg p w)) = disk_of w"
    and readdirnames_law: "disk_of (snd (sg_readdirnames sg fd k w)) = disk_of w"
    and close_law: "disk_of (snd (sg_close sg fd w)) = disk_of w"
    and parent_law: "disk_of (snd (sg_prepareParent sg ctx p w)) = disk_of w"
    and seal_law: "disk_of (snd (sg_sealTree sg ctx k w)) = disk_of w"
    and lstat_quiet: "disk_of (snd (sg_lstat sg p w)) = disk_of w"
    and lstat_law: "p \<in> owned \<Longrightarrow> sg_lstat sg p w = (i, w') \<Longrightarrow>
      (case i of Inr _ \<Rightarrow> dk_view (disk_of w) p \<noteq> Absent | Inl e \<Rightarrow> e = NotExist \<longrightarrow> dk_view (disk_of w) p = Absent)"
    and read_quiet: "disk_of (snd (sg_read sg ctx p n w)) = disk_of w"
    and read_law: "p \<in> owned \<Longrightarrow> sg_read sg ctx p n w = (f, w') \<Longrightarrow>
      (case f of Inr (c, m) \<Rightarrow> dk_view (disk_of w) p = RegularNode c (mode_perm m)
       | Inl e \<Rightarrow> e = NotExist \<longrightarrow> dk_view (disk_of w) p = Absent)"
    and identity_quiet: "disk_of (snd (sg_captureIdentity sg ctx p w)) = disk_of w"
    and identity_law: "p \<in> owned \<Longrightarrow> sg_captureIdentity sg ctx p w = (Inl NotExist, w') \<Longrightarrow> under p q \<Longrightarrow>
      dk_view (disk_of w) q = Absent"
    and commit_law: "fc_path c \<in> owned \<Longrightarrow> sg_commitFile sg ctx c w = (u, w') \<Longrightarrow>
      disk_of w' = put_file (fc_path c) (fc_payload c) (fc_mode c) (disk_of w) \<or> disk_of w' = disk_of w \<and> u \<noteq> Inr ()"
    and removal_law: "lr_path x \<in> owned \<Longrightarrow> sg_commitRemoval sg ctx x w = (u, w') \<Longrightarrow>
      disk_of w' = removed (lr_path x) (disk_of w) \<or> disk_of w' = disk_of w \<and> u \<noteq> Inr ()"
    and stage_law: "sg_stageTree sg ctx p w = (st, w') \<Longrightarrow>
      disk_of w' = (case st of Inr k \<Rightarrow> (disk_of w)\<lparr>dk_trees := (dk_trees (disk_of w))(k := Some (p, []))\<rparr> | Inl _ \<Rightarrow> disk_of w)"
    and write_law: "sg_writeTree sg k name mode content w = (u, w') \<Longrightarrow> dk_view (disk_of w') = dk_view (disk_of w) \<and>
      (u = Inr () \<longrightarrow> dk_trees (disk_of w') k = map_option (\<lambda>(p, fs). (p, (name, content, mode) # fs)) (dk_trees (disk_of w) k))"
    and discard_law: "dk_view (disk_of (snd (sg_discardTree sg k w))) = dk_view (disk_of w)"
    and publish_law: "dk_trees (disk_of w) k = Some (p, fs) \<Longrightarrow> {q. under p q} \<subseteq> owned \<Longrightarrow>
      sg_commitTree sg ctx k w = (u, w') \<Longrightarrow>
      dk_view (disk_of w') = put_tree p fs (dk_view (disk_of w)) \<or> dk_view (disk_of w') = dk_view (disk_of w) \<and> u \<noteq> Inr ()"
begin

definition dsk :: "'w \<times> fenceObservationBudget \<Rightarrow> disk" where
  "dsk s = disk_of (fst s)"

lemma dsk_simp [simp]: "dsk (w, b) = disk_of w"
  by (simp add: dsk_def)

section \<open>Computations that leave the disk alone\<close>

lemma quiet_on_store: "(\<And>w. disk_of (snd (m w)) = disk_of w) \<Longrightarrow> keeps (\<lambda>s. dsk s = d) (on_store m)"
  by (auto simp: keeps_snd on_store_def dsk_def split: prod.splits sum.splits) (metis snd_conv)+

lemma canonical_quiet: "disk_of (snd (sg_canonical sg p w)) = disk_of w"
  by (metis canonical_law surjective_pairing)

lemma quiet_bounded: "keeps (\<lambda>s. dsk s = d) (sg_canonicalBounded sg p n)"
  unfolding keeps_snd dsk_def by (metis canonicalBounded_law surjective_pairing)

lemma quiet_calls [keeps_rules]:
  "keeps (\<lambda>s. dsk s = d) (on_store (sg_getwd sg))"
  "keeps (\<lambda>s. dsk s = d) (on_store (sg_canonical sg p))"
  "keeps (\<lambda>s. dsk s = d) (sg_canonicalBounded sg p n)"
  "keeps (\<lambda>s. dsk s = d) (on_store (sg_stat sg p))"
  "keeps (\<lambda>s. dsk s = d) (on_store (sg_lstat sg p))"
  "keeps (\<lambda>s. dsk s = d) (on_store (sg_open sg p))"
  "keeps (\<lambda>s. dsk s = d) (on_store (sg_read sg ctx p n))"
  "keeps (\<lambda>s. dsk s = d) (on_store (sg_captureIdentity sg ctx p))"
  "keeps (\<lambda>s. dsk s = d) (on_store (sg_prepareParent sg ctx p))"
  "keeps (\<lambda>s. dsk s = d) (on_store (sg_sealTree sg ctx k))"
  by (intro quiet_on_store canonical_quiet getwd_law stat_law lstat_quiet open_law read_quiet identity_quiet parent_law
      seal_law quiet_bounded)+

lemma quiet_basic [keeps_rules]:
  "keeps (\<lambda>s. dsk s = d) (on_budget f)"
  "keeps (\<lambda>s. dsk s = d) (on_result r)"
  "keeps (\<lambda>s. dsk s = d) (ctx_err sg ctx)"
  "keeps (\<lambda>s. dsk s = d) (read_names sg fd k)"
  using ctx_law readdirnames_law
  by (auto simp: keeps_snd on_budget_def on_result_def ctx_err_def read_names_def dsk_def split: prod.splits sum.splits goContext.splits)
    (metis snd_conv)+

lemma quiet_own_budget [keeps_rules]: "(\<And>d. keeps (\<lambda>s. dsk s = d) m) \<Longrightarrow> keeps (\<lambda>s. dsk s = d) (with_own_budget m)"
  by (auto simp: keeps_snd with_own_budget_def dsk_def split: prod.splits) (metis fst_conv snd_conv)

lemma quiet_then_close [keeps_rules]: "keeps (\<lambda>s. dsk s = d) m \<Longrightarrow> keeps (\<lambda>s. dsk s = d) (then_close sg fd m)"
  using close_law by (auto simp: keeps_snd then_close_def dsk_def split: prod.splits) (metis fst_conv snd_conv)

end

end
