(* ===== verification/FileSetSettle.thy ===== *)
theory FileSetSettle
  imports FileSetContract
begin

text \<open>
  Classifying and restoring the targets of a transaction over any storage that keeps its contract: what the
  classification says is true of the disk, and restoring brings every target back or leaves it in its before- or
  after-state.
\<close>

section \<open>States of the targets\<close>

definition holds :: "marker_codec \<Rightarrow> disk \<Rightarrow> string \<Rightarrow> string \<Rightarrow> FileMode \<Rightarrow> bool" where
  "holds mc d path hash mode \<longleftrightarrow> (case dk_view d path of
     RegularNode c m \<Rightarrow> hashBytes (mc_sha mc) c = hash \<and> m = mode_perm mode | _ \<Rightarrow> False)"

definition in_state :: "marker_codec \<Rightarrow> disk \<Rightarrow> string \<Rightarrow> fileState \<Rightarrow> bool" where
  "in_state mc d path st \<longleftrightarrow>
     (if fs_exists st then holds mc d path (fs_hash st) (fileMode st) else dk_view d path = Absent)"

definition before_at :: "marker_codec \<Rightarrow> disk \<Rightarrow> targetMarker \<Rightarrow> bool" where
  "before_at mc d t \<longleftrightarrow> in_state mc d (tm_path t) (tm_before t)"

definition after_at :: "marker_codec \<Rightarrow> disk \<Rightarrow> targetMarker \<Rightarrow> bool" where
  "after_at mc d t \<longleftrightarrow>
     (if tm_write t then holds mc d (tm_path t) (tm_afterHash t) (fileMode (tm_before t)) else before_at mc d t)"

definition mixed :: "marker_codec \<Rightarrow> disk \<Rightarrow> transactionMarker \<Rightarrow> bool" where
  "mixed mc d m \<longleftrightarrow> (\<forall>t \<in> set (mk_targets m). before_at mc d t \<or> after_at mc d t)"

definition all_before :: "marker_codec \<Rightarrow> disk \<Rightarrow> transactionMarker \<Rightarrow> bool" where
  "all_before mc d m \<longleftrightarrow> (\<forall>t \<in> set (mk_targets m). before_at mc d t)"

definition all_after :: "marker_codec \<Rightarrow> disk \<Rightarrow> transactionMarker \<Rightarrow> bool" where
  "all_after mc d m \<longleftrightarrow> (\<forall>t \<in> set (mk_targets m). after_at mc d t)"

lemma mode_perm_idem [simp]: "mode_perm (mode_perm m) = mode_perm m"
  by (simp add: mode_perm_def and.assoc)

lemma holds_put: "holds mc (put_file path c mode d) path hash mode' \<longleftrightarrow>
    hashBytes (mc_sha mc) c = hash \<and> mode_perm mode = mode_perm mode'"
  by (simp add: holds_def put_file_def)

text \<open>A step that touches one target only.\<close>

definition touches :: "string \<Rightarrow> disk \<Rightarrow> disk \<Rightarrow> bool" where
  "touches path d d' \<longleftrightarrow> (\<forall>p. p \<noteq> path \<longrightarrow> dk_view d' p = dk_view d p)"

lemma touches_refl [simp]: "touches path d d"
  by (simp add: touches_def)

lemma touches_put [simp]: "touches path d (put_file path c mode d)"
  by (simp add: touches_def put_file_def)

lemma touches_removed: "is_regular (dk_view d path) \<Longrightarrow> touches path d (removed path d)"
  by (simp add: touches_def removed_def)

lemma touches_state:
  assumes "touches path d d'" and "tm_path t \<noteq> path"
  shows "before_at mc d' t = before_at mc d t" "after_at mc d' t = after_at mc d t"
  using assms by (simp_all add: touches_def before_at_def after_at_def in_state_def holds_def)

text \<open>A marker whose targets and evidence are the caller's: the targets are canonical, apart from each other and from
  the evidence directory, and the before-images lie in it.\<close>

definition placed :: "(string \<Rightarrow> string) \<Rightarrow> string set \<Rightarrow> string \<Rightarrow> transactionMarker \<Rightarrow> bool" where
  "placed canon owned E m \<longleftrightarrow> {p. under E p} \<subseteq> owned \<and> distinct (map tm_path (mk_targets m)) \<and>
     (\<forall>t \<in> set (mk_targets m). tm_path t \<in> owned \<and> canon (tm_path t) = tm_path t \<and> \<not> under E (tm_path t) \<and>
       (fs_exists (tm_before t) \<longrightarrow> under E (fs_backupPath (tm_before t))))"

text \<open>Every before-image is there, with its digest and private permissions.\<close>

definition images_kept :: "marker_codec \<Rightarrow> disk \<Rightarrow> transactionMarker \<Rightarrow> bool" where
  "images_kept mc d m \<longleftrightarrow> (\<forall>t \<in> set (mk_targets m). fs_exists (tm_before t) \<longrightarrow>
     holds mc d (fs_backupPath (tm_before t)) (fs_hash (tm_before t)) transactionEvidenceMode)"

section \<open>What is told about a target\<close>

context file_storage
begin

lemma tells_read:
  assumes "p \<in> owned"
  shows "triple (\<lambda>s. dsk s = d) (readTransactionFile sg ctx p)
    (\<lambda>x s. dsk s = d \<and> dk_view d p = RegularNode (fst x) (mode_perm (snd x)))
    (\<lambda>e s. dsk s = d \<and> (e = StorageFailure NotExist \<longrightarrow> dk_view d p = Absent))"
proof (rule tripleI; clarsimp simp: readTransactionFile_def readTransactionFileUpTo_def on_store_def split: prod.splits sum.splits)
  fix w b w' c m assume r: "sg_read sg ctx p maximumTargetBytes w = (Inr (c, m), w')" and d: "d = disk_of w"
  from read_law[OF assms r] read_quiet[of ctx p maximumTargetBytes w] r
  show "disk_of w' = disk_of w \<and> dk_view (disk_of w) p = RegularNode c (mode_perm m)" by simp
next
  fix w b w' e assume r: "sg_read sg ctx p maximumTargetBytes w = (Inl e, w')" and d: "d = disk_of w"
  from read_law[OF assms r] read_quiet[of ctx p maximumTargetBytes w] r
  show "disk_of w' = disk_of w \<and> (e = NotExist \<longrightarrow> dk_view (disk_of w) p = Absent)" by simp
qed

lemma tells_lstat:
  assumes "p \<in> owned"
  shows "triple (\<lambda>s. dsk s = d) (on_store (sg_lstat sg p)) (\<lambda>_ s. dsk s = d \<and> dk_view d p \<noteq> Absent)
    (\<lambda>e s. dsk s = d \<and> (e = StorageFailure NotExist \<longrightarrow> dk_view d p = Absent))"
proof (rule tripleI; clarsimp simp: on_store_def split: prod.splits sum.splits)
  fix w w' i assume r: "sg_lstat sg p w = (Inr i, w')"
  from lstat_law[OF assms r] lstat_quiet[of p w] r show "disk_of w' = disk_of w \<and> dk_view (disk_of w) p \<noteq> Absent" by simp
next
  fix w w' e assume r: "sg_lstat sg p w = (Inl e, w')"
  from lstat_law[OF assms r] lstat_quiet[of p w] r
  show "disk_of w' = disk_of w \<and> (e = NotExist \<longrightarrow> dk_view (disk_of w) p = Absent)" by simp
qed

text \<open>The answers of the comparisons are the states of the disk.\<close>

abbreviation answers :: "disk \<Rightarrow> 'a \<Rightarrow> ('w, 'a) fileset \<Rightarrow> bool" where
  "answers d x m \<equiv> triple (\<lambda>s. dsk s = d) m (\<lambda>y s. dsk s = d \<and> y = x) (\<lambda>_ s. dsk s = d)"

lemma answers_bind:
  assumes "answers d x m" and "triple (\<lambda>s. dsk s = d) (f x) Q R" and "\<And>e s. dsk s = d \<Longrightarrow> R e s"
  shows "triple (\<lambda>s. dsk s = d) (io_bind m f) Q R"
proof (rule triple_bind)
  show "triple (\<lambda>s. dsk s = d) m (\<lambda>y s. y = x \<and> dsk s = d) R"
    using assms(1) by (rule triple_conseq) (auto simp: assms(3))
  show "triple (\<lambda>s. y = x \<and> dsk s = d) (f y) Q R" for y
    by (rule triple_pure) (simp add: assms(2))
qed

lemma answers_return: "answers d x (io_return x)"
  by (simp add: triple_def)

lemma answers_foldl:
  assumes "\<And>a y. y \<in> set ys \<Longrightarrow> answers d (g a y) (f a y)"
  shows "answers d (foldl g a ys) (io_foldl f a ys)"
  using assms
proof (induction ys arbitrary: a)
  case Nil
  show ?case unfolding io_foldl.simps foldl.simps by (rule answers_return)
next
  case (Cons y ys)
  then show ?case by (auto intro!: answers_bind)
qed

lemma answers_expected:
  assumes "p \<in> owned"
  shows "answers d (holds mc d p hash mode) (fileMatchesExpected sg mc ctx p hash mode)"
  unfolding fileMatchesExpected_def
proof (rule triple_bind)
  show "triple (\<lambda>s. dsk s = d) (io_try (readTransactionFile sg ctx p))
    (\<lambda>r s. dsk s = d \<and> (case r of Inr x \<Rightarrow> dk_view d p = RegularNode (fst x) (mode_perm (snd x))
      | Inl e \<Rightarrow> e = StorageFailure NotExist \<longrightarrow> dk_view d p = Absent)) (\<lambda>_ s. dsk s = d)"
    by (rule triple_try) (rule triple_conseq[OF tells_read[OF assms]], auto)
qed (auto simp: triple_def holds_def split: sum.splits)

lemma answers_state:
  assumes "p \<in> owned"
  shows "answers d (in_state mc d p st) (fileMatchesState sg mc ctx p st)"
proof (cases "fs_exists st")
  case True
  then show ?thesis using answers_expected[OF assms, where d = d and mc = mc and hash = "fs_hash st" and mode = "fileMode st"]
    by (simp add: fileMatchesState_def in_state_def)
next
  case False
  have "triple (\<lambda>s. dsk s = d) (io_try (on_store (sg_lstat sg p)))
    (\<lambda>r s. dsk s = d \<and> (case r of Inr _ \<Rightarrow> dk_view d p \<noteq> Absent | Inl e \<Rightarrow> e = StorageFailure NotExist \<longrightarrow> dk_view d p = Absent))
    (\<lambda>_ s. dsk s = d)"
    by (rule triple_try) (rule triple_conseq[OF tells_lstat[OF assms]], auto)
  then show ?thesis
    unfolding fileMatchesState_def using False
    by (simp add: in_state_def) (erule triple_bind, auto simp: triple_def split: sum.splits)
qed

definition targets_covered :: "transactionMarker \<Rightarrow> bool" where
  "targets_covered m \<longleftrightarrow> (\<forall>t \<in> set (mk_targets m). tm_path t \<in> owned)"

lemma classify_answers:
  assumes "targets_covered m"
  shows "answers d \<lparr>cl_cleanAfter = all_after mc d m, cl_recoverable = mixed mc d m\<rparr> (classifyTargets sg mc ctx m)"
proof -
  let ?step = "\<lambda>cl t. \<lparr>cl_cleanAfter = (cl_cleanAfter cl \<and> after_at mc d t),
    cl_recoverable = (cl_recoverable cl \<and> (before_at mc d t \<or> after_at mc d t))\<rparr>"
  have "answers d (?step cl t) (classify_target sg mc ctx cl t)" if "t \<in> set (mk_targets m)" for cl t
  proof -
    have t: "tm_path t \<in> owned" using assms that by (auto simp: targets_covered_def)
    have "answers d (after_at mc d t) (if tm_write t
        then fileMatchesExpected sg mc ctx (tm_path t) (tm_afterHash t) (fileMode (tm_before t)) else io_return (before_at mc d t))"
      using answers_expected[OF t] by (auto simp: after_at_def intro: answers_return)
    then show ?thesis
      unfolding classify_target_def before_at_def[symmetric]
      by (auto intro!: answers_bind[OF answers_state[OF t, folded before_at_def]] answers_bind answers_return
          simp: before_at_def)
  qed
  then have "answers d (foldl ?step \<lparr>cl_cleanAfter = True, cl_recoverable = True\<rparr> (mk_targets m)) (classifyTargets sg mc ctx m)"
    unfolding classifyTargets_def by (rule answers_foldl)
  moreover have "foldl ?step cl ts = \<lparr>cl_cleanAfter = (cl_cleanAfter cl \<and> (\<forall>t \<in> set ts. after_at mc d t)),
      cl_recoverable = (cl_recoverable cl \<and> (\<forall>t \<in> set ts. before_at mc d t \<or> after_at mc d t))\<rparr>" for cl ts
    by (induction ts arbitrary: cl) auto
  ultimately show ?thesis by (simp add: all_after_def mixed_def)
qed

section \<open>Publishing and removing one target\<close>

abbreviation told :: "disk \<Rightarrow> ('a \<Rightarrow> bool) \<Rightarrow> ('w, 'a) fileset \<Rightarrow> bool" where
  "told d P m \<equiv> triple (\<lambda>s. dsk s = d) m (\<lambda>x s. dsk s = d \<and> P x) (\<lambda>_ s. dsk s = d)"

lemma told_bind:
  assumes "told d P m" and "\<And>x. P x \<Longrightarrow> triple (\<lambda>s. dsk s = d) (f x) Q R" and "\<And>e s. dsk s = d \<Longrightarrow> R e s"
  shows "triple (\<lambda>s. dsk s = d) (io_bind m f) Q R"
proof (rule triple_bind)
  show "triple (\<lambda>s. dsk s = d) m (\<lambda>x s. P x \<and> dsk s = d) R"
    using assms(1) by (rule triple_conseq) (auto simp: assms(3))
  show "triple (\<lambda>s. P x \<and> dsk s = d) (f x) Q R" for x
    by (rule triple_pure) (simp add: assms(2))
qed

lemma told_quiet: "keeps (\<lambda>s. dsk s = d) m \<Longrightarrow> told d (\<lambda>_. True) m"
  by (simp add: keeps_def)

lemmas quiet_bind = told_bind[OF told_quiet, simplified]

lemma told_result: "told d (\<lambda>x. r = Inr x) (on_result r)"
  by (auto simp: triple_def on_result_def split: sum.splits)

lemma told_canonical: "told d (\<lambda>q. q = canon p) (on_store (sg_canonical sg p))"
  by (rule tripleI) (auto simp: on_store_def split: prod.splits sum.splits dest: canonical_law)

lemma told_bounded: "told d (\<lambda>q. q = canon p) (sg_canonicalBounded sg p n)"
  by (rule tripleI) (auto simp: dsk_def dest: canonicalBounded_law)

text \<open>A step that happens or does not; when it reports success it happened.\<close>

abbreviation steps_to :: "disk \<Rightarrow> disk \<Rightarrow> ('w, unit) fileset \<Rightarrow> bool" where
  "steps_to d d' m \<equiv> triple (\<lambda>s. dsk s = d) m (\<lambda>_ s. dsk s = d') (\<lambda>_ s. dsk s = d \<or> dsk s = d')"

lemma commit_request:
  assumes "fc_path c \<in> owned"
  shows "steps_to d (put_file (fc_path c) (fc_payload c) (fc_mode c) d) (on_store (sg_commitFile sg ctx c))"
  by (rule tripleI) (auto simp: on_store_def split: prod.splits sum.splits dest!: commit_law[OF assms])

lemma removal_request:
  assumes "lr_path x \<in> owned"
  shows "steps_to d (removed (lr_path x) d) (on_store (sg_commitRemoval sg ctx x))"
  by (rule tripleI) (auto simp: on_store_def split: prod.splits sum.splits dest!: removal_law[OF assms])

lemma create_request: "NewFileCreate p c m = Inr r \<Longrightarrow> fc_path r = p \<and> fc_payload r = c \<and> fc_mode r = m"
  by (auto simp: NewFileCreate_def ebind_eq_Inr)

lemma replace_request: "NewFileReplacement p c m i = Inr r \<Longrightarrow> fc_path r = p \<and> fc_payload r = c \<and> fc_mode r = m"
  by (auto simp: NewFileReplacement_def ebind_eq_Inr)

lemma remove_request: "NewLogicalRemoval p i = Inr r \<Longrightarrow> lr_path r = p"
  by (auto simp: NewLogicalRemoval_def Let_def ebind_eq_Inr split: if_splits)

lemma told_request:
  assumes "\<And>r. q = Inr r \<Longrightarrow> P r"
  shows "told d P (on_store (on_result q))"
  using assms by (auto simp: triple_def on_store_def on_result_def split: sum.splits prod.splits)

lemma publish_file:
  assumes "p \<in> owned" and "canon p = p"
  shows "steps_to d (put_file p c mode d) (commitFile sg ctx p c mode)"
proof -
  have send: "steps_to d (put_file p c mode d) (io_bind (on_store (on_result q)) (\<lambda>request. on_store (sg_commitFile sg ctx request)))"
    if "\<And>r. q = Inr r \<Longrightarrow> fc_path r = p \<and> fc_payload r = c \<and> fc_mode r = mode" for q
    by (rule told_bind[OF told_request[OF that]]) (use commit_request assms(1) in \<open>auto intro: triple_conseq\<close>)
  show ?thesis
    unfolding commitFile_def
  proof (rule told_bind[OF told_canonical])
    fix q assume "q = canon p"
    then have q: "q = p" using assms(2) by simp
    have absent: "steps_to d (put_file p c mode d) (io_bind (on_store (on_result (NewFileCreate p c mode)))
        (\<lambda>request. on_store (sg_commitFile sg ctx request)))"
      by (rule send) (rule create_request)
    have present: "steps_to d (put_file p c mode d) (io_bind (on_store (sg_captureIdentity sg ctx p)) (\<lambda>expected.
        io_bind (on_store (on_result (NewFileReplacement p c mode expected))) (\<lambda>request. on_store (sg_commitFile sg ctx request))))"
      by (rule quiet_bind) (use send[OF replace_request] in \<open>auto intro: keeps_rules\<close>)
    show "steps_to d (put_file p c mode d) (io_bind (io_try (on_store (sg_stat sg q))) (\<lambda>found. case found of
         Inl e \<Rightarrow> if e = StorageFailure NotExist then io_bind (on_store (on_result (NewFileCreate q c mode))) (\<lambda>request.
             on_store (sg_commitFile sg ctx request)) else io_raise e
       | Inr _ \<Rightarrow> io_bind (on_store (sg_captureIdentity sg ctx q)) (\<lambda>expected.
           io_bind (on_store (on_result (NewFileReplacement q c mode expected))) (\<lambda>request.
           on_store (sg_commitFile sg ctx request)))))"
      unfolding q
    proof (rule quiet_bind)
      show "keeps (\<lambda>s. dsk s = d) (io_try (on_store (sg_stat sg p)))" by (intro keeps_rules)
    next
      fix found show "steps_to d (put_file p c mode d) (case found of
         Inl e \<Rightarrow> if e = StorageFailure NotExist then io_bind (on_store (on_result (NewFileCreate p c mode))) (\<lambda>request.
             on_store (sg_commitFile sg ctx request)) else io_raise e
       | Inr _ \<Rightarrow> io_bind (on_store (sg_captureIdentity sg ctx p)) (\<lambda>expected.
           io_bind (on_store (on_result (NewFileReplacement p c mode expected))) (\<lambda>request.
           on_store (sg_commitFile sg ctx request))))"
        using absent present by (auto split: sum.split simp: triple_def[of _ "io_raise _"])
    qed simp
  qed simp
qed

text \<open>Removing an entry: where it reports success nothing is left of it.\<close>

lemma remove_entry_steps:
  assumes "p \<in> owned"
  shows "triple (\<lambda>s. dsk s = d) (remove_entry sg ctx p)
    (\<lambda>_ s. dsk s = removed p d \<or> dsk s = d \<and> (\<forall>q. under p q \<longrightarrow> dk_view d q = Absent))
    (\<lambda>_ s. dsk s = d \<or> dsk s = removed p d)"
proof -
  have captured: "told d (\<lambda>r. r = Inl (StorageFailure NotExist) \<longrightarrow> (\<forall>q. under p q \<longrightarrow> dk_view d q = Absent))
      (io_try (on_store (sg_captureIdentity sg ctx p)))"
  proof (rule triple_try, rule tripleI; clarsimp simp: on_store_def split: prod.splits sum.splits)
    fix w w' x assume r: "sg_captureIdentity sg ctx p w = (Inr x, w')"
    then show "disk_of w' = disk_of w" using identity_quiet[of ctx p w] by simp
  next
    fix w w' e assume r: "sg_captureIdentity sg ctx p w = (Inl e, w')"
    then have "disk_of w' = disk_of w" using identity_quiet[of ctx p w] by simp
    moreover have "e = NotExist \<Longrightarrow> under p q \<Longrightarrow> dk_view (disk_of w) q = Absent" for q
      using identity_law[OF assms] r by blast
    ultimately show "disk_of w' = disk_of w \<and> (e = NotExist \<longrightarrow> (\<forall>q. under p q \<longrightarrow> dk_view (disk_of w) q = Absent))" by blast
  qed
  have send: "steps_to d (removed p d) (io_bind (on_store (on_result (NewLogicalRemoval p i))) (\<lambda>request.
      on_store (sg_commitRemoval sg ctx request)))" for i
    by (rule told_bind[OF told_request[OF remove_request]]) (use removal_request assms in \<open>auto intro: triple_conseq\<close>)
  show ?thesis
    unfolding remove_entry_def
  proof (rule told_bind[OF captured])
    fix r :: "fileSetError + EntryIdentity"
    assume absent: "r = Inl (StorageFailure NotExist) \<longrightarrow> (\<forall>q. under p q \<longrightarrow> dk_view d q = Absent)"
    show "triple (\<lambda>s. dsk s = d) (case r of Inl e \<Rightarrow> if e = StorageFailure NotExist then io_return () else io_raise e
       | Inr expected \<Rightarrow> io_bind (on_store (on_result (NewLogicalRemoval p expected))) (\<lambda>request.
           on_store (sg_commitRemoval sg ctx request)))
      (\<lambda>_ s. dsk s = removed p d \<or> dsk s = d \<and> (\<forall>q. under p q \<longrightarrow> dk_view d q = Absent))
      (\<lambda>_ s. dsk s = d \<or> dsk s = removed p d)"
    proof (cases r)
      case (Inl e)
      then show ?thesis using absent by (auto simp: triple_def)
    next
      case (Inr i)
      then show ?thesis using triple_conseq[OF send[of i]] by simp
    qed
  qed simp
qed

section \<open>Restoring\<close>

definition kept :: "string \<Rightarrow> disk \<Rightarrow> disk \<Rightarrow> bool" where
  "kept E d d' \<longleftrightarrow> (\<forall>p. under E p \<longrightarrow> dk_view d' p = dk_view d p)"

lemma kept_refl [simp]: "kept E d d"
  by (simp add: kept_def)

lemma kept_trans: "kept E a b \<Longrightarrow> kept E b c \<Longrightarrow> kept E a c"
  by (simp add: kept_def)

lemma placed_covered: "placed canon owned E m \<Longrightarrow> targets_covered m"
  by (simp add: placed_def targets_covered_def)

lemma told_refuse: "told d (\<lambda>_. \<not> c) (io_refuse c e)"
  by (simp add: triple_def)

lemma quiet_refuse: "(\<And>s. dsk s = d \<Longrightarrow> R e s) \<Longrightarrow> (\<not> c \<Longrightarrow> triple (\<lambda>s. dsk s = d) m Q R) \<Longrightarrow>
   triple (\<lambda>s. dsk s = d) (io_bind (io_refuse c e) (\<lambda>_. m)) Q R"
  by (auto simp: triple_def io_bind_def)

lemma quiet_read [keeps_rules]: "keeps (\<lambda>s. dsk s = d) (readTransactionFileUpTo sg ctx p n)"
  "keeps (\<lambda>s. dsk s = d) (readTransactionFile sg ctx p)"
  by (simp_all add: readTransactionFile_def readTransactionFileUpTo_def) (intro keeps_rules)+

text \<open>The outcome of restoring one target: it is in its before-state, or nothing was done.\<close>

abbreviation brings_back :: "marker_codec \<Rightarrow> disk \<Rightarrow> targetMarker \<Rightarrow> ('w, 'a) fileset \<Rightarrow> bool" where
  "brings_back mc d t m \<equiv> triple (\<lambda>s. dsk s = d) m
     (\<lambda>_ s. touches (tm_path t) d (dsk s) \<and> before_at mc (dsk s) t)
     (\<lambda>_ s. touches (tm_path t) d (dsk s) \<and> (dsk s = d \<or> before_at mc (dsk s) t))"

lemma before_at_put:
  "fs_exists (tm_before t) \<Longrightarrow> hashBytes (mc_sha mc) c = fs_hash (tm_before t) \<Longrightarrow>
   before_at mc (put_file (tm_path t) c (fileMode (tm_before t)) d) t"
  by (simp add: before_at_def in_state_def holds_put)

lemma publish_before:
  assumes "fs_exists (tm_before t)" and "hashBytes (mc_sha mc) c = fs_hash (tm_before t)"
    and "tm_path t \<in> owned" "canon (tm_path t) = tm_path t"
  shows "brings_back mc d t (commitFile sg ctx (tm_path t) c (fileMode (tm_before t)))"
  by (rule triple_conseq[OF publish_file[OF assms(3,4)]]) (auto simp: before_at_put assms(1,2))

lemma remove_before:
  assumes "\<not> fs_exists (tm_before t)" and "\<not> before_at mc d t" and "after_at mc d t"
    and "tm_path t \<in> owned" "canon (tm_path t) = tm_path t"
  shows "brings_back mc d t (removeFile sg ctx (tm_path t))"
  unfolding removeFile_def
proof (rule told_bind[OF told_canonical])
  fix q assume "q = canon (tm_path t)"
  then have q: "q = tm_path t" using assms(5) by simp
  from assms(2,3) have "is_regular (dk_view d (tm_path t))"
    by (auto simp: after_at_def holds_def is_regular_def split: if_splits node.splits)
  then have "touches (tm_path t) d (removed (tm_path t) d)" "before_at mc (removed (tm_path t) d) t"
    using assms(1) touches_removed by (simp_all add: before_at_def in_state_def removed_def)
  moreover have "under (tm_path t) (tm_path t)" by (simp add: under_def)
  moreover have "dk_view d (tm_path t) = Absent \<Longrightarrow> before_at mc d t"
    using assms(1) by (simp add: before_at_def in_state_def)
  ultimately show "brings_back mc d t (remove_entry sg ctx q)"
    unfolding q using assms(2) by (intro triple_conseq[OF remove_entry_steps[OF assms(4)]]) auto
qed simp

lemma restore_file:
  assumes "before_at mc d t \<or> after_at mc d t" and "tm_path t \<in> owned" "canon (tm_path t) = tm_path t"
  shows "brings_back mc d t (restoreFile sg mc ctx (tm_path t) (tm_before t))"
  unfolding restoreFile_def
proof (rule answers_bind[OF answers_state[OF assms(2), where mc = mc and st = "tm_before t", folded before_at_def]])
  let ?copy = "io_bind (readTransactionFile sg ctx (fs_backupPath (tm_before t))) (\<lambda>(content, _).
       io_bind (io_refuse (hashBytes (mc_sha mc) content \<noteq> fs_hash (tm_before t)) (EvidenceRefused EvidenceDigest)) (\<lambda>_.
       commitFile sg ctx (tm_path t) content (fileMode (tm_before t))))"
  have "brings_back mc d t ?copy" if "fs_exists (tm_before t)"
    by (rule quiet_bind, intro keeps_rules)
      (auto split: prod.split intro!: quiet_refuse publish_before[OF that _ assms(2,3)])
  then show "brings_back mc d t (if before_at mc d t then io_return ()
     else if \<not> fs_exists (tm_before t) then removeFile sg ctx (tm_path t) else ?copy)"
    using remove_before[OF _ _ _ assms(2,3)] assms(1) by (auto simp: triple_def[of _ "io_return ()"])
qed simp

lemma told_image:
  "told d (\<lambda>x. hashBytes (mc_sha mc) (fst x) = hash) (readEvidenceImageWithBudget sg mc ctx p staged hash expected n)"
proof -
  have quiet: "keeps (\<lambda>s. dsk s = d) (inspectEvidenceImageSize sg p expected n)" for p expected n
    unfolding inspectEvidenceImageSize_def Let_def admitFileSetFenceWork_def by (intro keeps_rules)
  show ?thesis
    unfolding readEvidenceImageWithBudget_def admitFileSetFenceWork_def
    by (rule quiet_refuse | rule quiet_bind[OF quiet] quiet_bind | intro keeps_rules | clarsimp split: prod.split
        | simp add: triple_def)+
qed

end

end
