(* ===== verification/FileSetAtomic.thy ===== *)
theory FileSetAtomic
  imports FileSetSettle
begin

text \<open>
  Recovery of a file set over any storage that keeps its contract: whatever fails on the way, the evidence is still
  published with every target in its before- or after-state, or it is gone and all targets are in their
  before-state or all in their after-state.
\<close>

context file_storage
begin

section \<open>Restoring all targets\<close>

lemma triple_at:
  assumes "\<And>d. P d \<Longrightarrow> triple (\<lambda>s. dsk s = d) m Q R"
  shows "triple (\<lambda>s. P (dsk s)) m Q R"
  by (rule tripleI) (blast dest: triple_Inr[OF assms] triple_Inl[OF assms])+

abbreviation tries :: "marker_codec \<Rightarrow> disk \<Rightarrow> targetMarker \<Rightarrow> ('a \<Rightarrow> bool) \<Rightarrow> bool \<Rightarrow> ('w, 'a) fileset \<Rightarrow> bool" where
  "tries mc d t no_failure before m \<equiv> triple (\<lambda>s. dsk s = d) m
     (\<lambda>a s. touches (tm_path t) d (dsk s) \<and> (dsk s = d \<or> before_at mc (dsk s) t) \<and>
       (no_failure a \<longrightarrow> before \<and> before_at mc (dsk s) t))
     (\<lambda>_ _. False)"

lemma advance:
  assumes "placed canon owned E m" and "t \<in> set (mk_targets m)" and "mixed mc d m"
    and "touches (tm_path t) d d'" and "d' = d \<or> before_at mc d' t"
  shows "mixed mc d' m" "kept E d d'"
    "\<And>t'. t' \<in> set (mk_targets m) \<Longrightarrow> before_at mc d t' \<Longrightarrow> before_at mc d' t'"
proof -
  have same: "before_at mc d' t' = before_at mc d t'" "after_at mc d' t' = after_at mc d t'"
    if "t' \<in> set (mk_targets m)" "t' \<noteq> t" for t'
  proof -
    have "tm_path t' \<noteq> tm_path t"
      using assms(1,2) that by (auto simp: placed_def distinct_map dest: inj_onD)
    then show "before_at mc d' t' = before_at mc d t'" "after_at mc d' t' = after_at mc d t'"
      using touches_state[OF assms(4)] by blast+
  qed
  show "mixed mc d' m" using assms(3,5) same by (auto simp: mixed_def)
  show "before_at mc d' t'" if "t' \<in> set (mk_targets m)" "before_at mc d t'" for t'
    using assms(5) same that by blast
  have "\<not> under E (tm_path t)" using assms(1,2) by (auto simp: placed_def)
  then show "kept E d d'" using assms(4) by (metis kept_def touches_def)
qed

lemma restore_loop:
  assumes "placed canon owned E m" and "mixed mc d m"
    and step: "\<And>a t d. t \<in> set (mk_targets m) \<Longrightarrow> before_at mc d t \<or> after_at mc d t \<Longrightarrow> tries mc d t no_failure (no_failure a) (f a t)"
  shows "triple (\<lambda>s. dsk s = d) (io_foldl f a (mk_targets m))
    (\<lambda>a s. mixed mc (dsk s) m \<and> kept E d (dsk s) \<and> (no_failure a \<longrightarrow> all_before mc (dsk s) m)) (\<lambda>_ _. False)"
proof -
  let ?P = "\<lambda>ts a d'. mixed mc d' m \<and> kept E d d' \<and> (no_failure a \<longrightarrow> (\<forall>t \<in> set ts. before_at mc d' t))"
  have "triple (\<lambda>s. ?P [] a (dsk s)) (io_foldl f a (mk_targets m)) (\<lambda>a s. ?P (mk_targets m) a (dsk s)) (\<lambda>_ _. False)"
  proof (rule triple_foldl_prefix[where I = "\<lambda>ts a s. ?P ts a (dsk s)"])
    fix ts a t ts' assume m: "mk_targets m = ts @ t # ts'"
    then have t: "t \<in> set (mk_targets m)" by simp
    show "triple (\<lambda>s. ?P ts a (dsk s)) (f a t) (\<lambda>a' s. ?P (ts @ [t]) a' (dsk s)) (\<lambda>_ _. False)"
    proof (rule triple_at)
      fix d1 assume d1: "?P ts a d1"
      then have "before_at mc d1 t \<or> after_at mc d1 t" using t by (simp add: mixed_def)
      then show "triple (\<lambda>s. dsk s = d1) (f a t) (\<lambda>a' s. ?P (ts @ [t]) a' (dsk s)) (\<lambda>_ _. False)"
      proof (rule triple_conseq[OF step[OF t]])
        fix a' s assume s: "touches (tm_path t) d1 (dsk s) \<and> (dsk s = d1 \<or> before_at mc (dsk s) t) \<and>
          (no_failure a' \<longrightarrow> no_failure a \<and> before_at mc (dsk s) t)"
        from d1 have "mixed mc d1 m" by simp
        note adv = advance[OF assms(1) t this, of "dsk s"]
        have "before_at mc (dsk s) t'" if "no_failure a'" "t' \<in> set (ts @ [t])" for t'
          using s d1 that adv(3)[of t'] by (cases "t' = t") (auto simp: m)
        with s d1 adv(1,2) show "?P (ts @ [t]) a' (dsk s)" using kept_trans by blast
      qed simp_all
    qed
  qed
  then show ?thesis
    by (rule triple_conseq) (use assms(2) in \<open>auto simp: all_before_def\<close>)
qed

lemma restored_or_kept:
  assumes "placed canon owned E m"
    and loop: "triple (\<lambda>s. dsk s = d) loop (\<lambda>a s. mixed mc (dsk s) m \<and> kept E d (dsk s) \<and>
      (failed a = [] \<longrightarrow> all_before mc (dsk s) m)) (\<lambda>_ _. False)"
  shows "triple (\<lambda>s. dsk s = d) (io_bind loop (\<lambda>a. join_failures (failed a)))
    (\<lambda>_ s. all_before mc (dsk s) m \<and> kept E d (dsk s)) (\<lambda>_ s. mixed mc (dsk s) m \<and> kept E d (dsk s))"
proof (rule triple_bind)
  show "triple (\<lambda>s. dsk s = d) loop (\<lambda>a s. mixed mc (dsk s) m \<and> kept E d (dsk s) \<and>
      (failed a = [] \<longrightarrow> all_before mc (dsk s) m)) (\<lambda>_ s. mixed mc (dsk s) m \<and> kept E d (dsk s))"
    using loop by (rule triple_conseq) auto
qed (auto simp: triple_def join_failures_def)

lemma quiet_preflight [keeps_rules]:
  "keeps (\<lambda>s. dsk s = d) (preflightRestorableBackups sg mc ctx m)"
  "keeps (\<lambda>s. dsk s = d) (preflightRestorableBackupsWithBudget sg mc ctx m n)"
proof -
  show "keeps (\<lambda>s. dsk s = d) (preflightRestorableBackups sg mc ctx m)"
    unfolding preflightRestorableBackups_def by (intro keeps_rules)
  have "keeps (\<lambda>s. dsk s = d) (readEvidenceImageWithBudget sg mc ctx p staged hash expected n)" for p staged hash expected
    using told_image unfolding keeps_def by (rule triple_conseq) auto
  then show "keeps (\<lambda>s. dsk s = d) (preflightRestorableBackupsWithBudget sg mc ctx m n)"
    unfolding preflightRestorableBackupsWithBudget_def by (intro keeps_rules)
qed

lemma tries_each:
  assumes "brings_back mc d t m"
  shows "tries mc d t (\<lambda>fs. fs = []) (fs = []) (io_bind (io_try m) (\<lambda>r. case r of
     Inl e \<Rightarrow> io_return (fs @ [e :: fileSetError]) | Inr _ \<Rightarrow> io_return fs))"
proof (rule triple_bind)
  show "triple (\<lambda>s. dsk s = d) (io_try m) (\<lambda>r s. touches (tm_path t) d (dsk s) \<and>
     (case r of Inr _ \<Rightarrow> before_at mc (dsk s) t | Inl _ \<Rightarrow> dsk s = d \<or> before_at mc (dsk s) t)) (\<lambda>_ _. False)"
    by (rule triple_try) (rule triple_conseq[OF assms], auto)
qed (auto simp: triple_def split: sum.splits)

lemma restore_transaction:
  assumes "placed canon owned E m" and "mixed mc d m"
  shows "triple (\<lambda>s. dsk s = d) (restoreTransaction sg mc ctx m)
    (\<lambda>_ s. all_before mc (dsk s) m \<and> kept E d (dsk s)) (\<lambda>_ s. mixed mc (dsk s) m \<and> kept E d (dsk s))"
  unfolding restoreTransaction_def
proof (rule quiet_bind)
  let ?f = "\<lambda>failures t. io_bind (io_try (restoreFile sg mc ctx (tm_path t) (tm_before t))) (\<lambda>r. case r of
           Inl e \<Rightarrow> io_return (failures @ [e]) | Inr _ \<Rightarrow> io_return failures)"
  have "tries mc d t (\<lambda>fs. fs = []) (fs = []) (?f fs t)"
    if "t \<in> set (mk_targets m)" "before_at mc d t \<or> after_at mc d t" for fs t d
    by (rule tries_each[OF restore_file[OF that(2)]]) (use assms(1) that(1) in \<open>auto simp: placed_def\<close>)
  from restored_or_kept[where failed = "\<lambda>fs. fs", OF assms(1) restore_loop[OF assms this, where a = "[]"]]
  show "triple (\<lambda>s. dsk s = d) (io_bind (io_foldl ?f [] (mk_targets m)) join_failures)
    (\<lambda>_ s. all_before mc (dsk s) m \<and> kept E d (dsk s)) (\<lambda>_ s. mixed mc (dsk s) m \<and> kept E d (dsk s))" by simp
qed (use assms in \<open>auto intro: keeps_rules\<close>)

lemma restore_target_step:
  assumes "before_at mc d t \<or> after_at mc d t" and "tm_path t \<in> owned" "canon (tm_path t) = tm_path t"
  shows "tries mc d t (\<lambda>a. fst a = []) (fst a = []) (restore_target sg mc ctx n a t)"
proof (cases a)
  case (Pair fs staged)
  let ?Q = "\<lambda>a s. touches (tm_path t) d (dsk s) \<and> (dsk s = d \<or> before_at mc (dsk s) t) \<and>
    (fst a = [] \<longrightarrow> fs = [] \<and> before_at mc (dsk s) t)"
  let ?note = "\<lambda>m n. io_bind (io_try m) (\<lambda>r. case r of
      Inl e \<Rightarrow> io_return (fs @ [e :: fileSetError], n) | Inr _ \<Rightarrow> io_return (fs, n))"
  have noted: "triple (\<lambda>s. dsk s = d) (?note m n) ?Q (\<lambda>_ _. False)" if "brings_back mc d t m" for m :: "('w, unit) fileset" and n :: int
  proof (rule triple_bind)
    show "triple (\<lambda>s. dsk s = d) (io_try m) (\<lambda>r s. touches (tm_path t) d (dsk s) \<and>
       (case r of Inr _ \<Rightarrow> before_at mc (dsk s) t | Inl _ \<Rightarrow> dsk s = d \<or> before_at mc (dsk s) t)) (\<lambda>_ _. False)"
      by (rule triple_try) (rule triple_conseq[OF that], auto)
  qed (auto simp: triple_def split: sum.splits)
  have image: "triple (\<lambda>s. dsk s = d) (io_try (readEvidenceImageWithBudget sg mc ctx p staged hash expected n))
      (\<lambda>r s. dsk s = d \<and> (\<forall>x. r = Inr x \<longrightarrow> hashBytes (mc_sha mc) (fst x) = hash)) (\<lambda>_ _. False)" for p hash expected
    by (rule triple_try) (rule triple_conseq[OF told_image], auto)
  have copy: "triple (\<lambda>s. dsk s = d) (io_bind (io_try (readEvidenceImageWithBudget sg mc ctx (fs_backupPath (tm_before t)) staged
        (fs_hash (tm_before t)) (- 1) n)) (\<lambda>image. case image of
                 Inl e \<Rightarrow> io_return (fs @ [e], staged)
               | Inr (content, nextTotal) \<Rightarrow>
                   ?note (commitFile sg ctx (tm_path t) content (fileMode (tm_before t))) nextTotal)) ?Q (\<lambda>_ _. False)"
    if "fs_exists (tm_before t)"
  proof (rule triple_bind[OF image])
    fix r :: "fileSetError + string \<times> int"
    show "triple (\<lambda>s. dsk s = d \<and> (\<forall>x. r = Inr x \<longrightarrow> hashBytes (mc_sha mc) (fst x) = fs_hash (tm_before t)))
      (case r of Inl e \<Rightarrow> io_return (fs @ [e], staged)
       | Inr (content, nextTotal) \<Rightarrow> ?note (commitFile sg ctx (tm_path t) content (fileMode (tm_before t))) nextTotal)
      ?Q (\<lambda>_ _. False)"
    proof (cases r)
      case (Inr x)
      have "triple (\<lambda>s. hashBytes (mc_sha mc) (fst x) = fs_hash (tm_before t) \<and> dsk s = d)
          (?note (commitFile sg ctx (tm_path t) (fst x) (fileMode (tm_before t))) (snd x)) ?Q (\<lambda>_ _. False)"
        by (rule triple_pure, rule noted, rule publish_before[OF that _ assms(2,3)])
      then show ?thesis unfolding Inr sum.case case_prod_beta by (rule triple_pre) simp
    qed (simp add: triple_def)
  qed
  have remove: "triple (\<lambda>s. dsk s = d) (?note (removeFile sg ctx (tm_path t)) staged) ?Q (\<lambda>_ _. False)"
    if "\<not> fs_exists (tm_before t)" "\<not> before_at mc d t"
    by (rule noted, rule remove_before[OF that _ assms(2,3)]) (use that(2) assms(1) in blast)
  have matches: "triple (\<lambda>s. dsk s = d) (io_try (fileMatchesState sg mc ctx (tm_path t) (tm_before t)))
      (\<lambda>r s. dsk s = d \<and> (\<forall>x. r = Inr x \<longrightarrow> x = before_at mc d t)) (\<lambda>_ _. False)"
    by (rule triple_try) (rule triple_conseq[OF answers_state[OF assms(2), where mc = mc and st = "tm_before t", folded before_at_def]], auto)
  have "triple (\<lambda>s. dsk s = d) (restore_target sg mc ctx n (fs, staged) t) ?Q (\<lambda>_ _. False)"
    unfolding restore_target_def prod.case
  proof (rule triple_bind[OF matches])
    fix r :: "fileSetError + bool"
    let ?next = "case r of Inl e \<Rightarrow> io_return (fs @ [e], staged)
       | Inr True \<Rightarrow> io_return (fs, staged)
       | Inr False \<Rightarrow>
           if \<not> fs_exists (tm_before t) then ?note (removeFile sg ctx (tm_path t)) staged
           else
             io_bind (io_try (readEvidenceImageWithBudget sg mc ctx (fs_backupPath (tm_before t)) staged
               (fs_hash (tm_before t)) (- 1) n)) (\<lambda>image. case image of
                 Inl e \<Rightarrow> io_return (fs @ [e], staged)
               | Inr (content, nextTotal) \<Rightarrow>
                   ?note (commitFile sg ctx (tm_path t) content (fileMode (tm_before t))) nextTotal)"
    have "triple (\<lambda>s. (\<forall>x. r = Inr x \<longrightarrow> x = before_at mc d t) \<and> dsk s = d) ?next ?Q (\<lambda>_ _. False)"
    proof (rule triple_pure)
      assume "\<forall>x. r = Inr x \<longrightarrow> x = before_at mc d t"
      then show "triple (\<lambda>s. dsk s = d) ?next ?Q (\<lambda>_ _. False)"
        using remove copy by (auto simp: triple_def[of _ "io_return _"] split: sum.split bool.split)
    qed
    then show "triple (\<lambda>s. dsk s = d \<and> (\<forall>x. r = Inr x \<longrightarrow> x = before_at mc d t)) ?next ?Q (\<lambda>_ _. False)"
      by (rule triple_pre) simp
  qed
  then show ?thesis using Pair by simp
qed

lemma restore_with_budget:
  assumes "placed canon owned E m" and "mixed mc d m"
  shows "triple (\<lambda>s. dsk s = d) (restoreTransactionWithBudget sg mc ctx m n)
    (\<lambda>_ s. all_before mc (dsk s) m \<and> kept E d (dsk s)) (\<lambda>_ s. mixed mc (dsk s) m \<and> kept E d (dsk s))"
  unfolding restoreTransactionWithBudget_def case_prod_beta
proof (rule quiet_bind)
  have "tries mc d t (\<lambda>a. fst a = []) (fst a = []) (restore_target sg mc ctx n a t)"
    if "t \<in> set (mk_targets m)" "before_at mc d t \<or> after_at mc d t" for a t d
    by (rule restore_target_step[OF that(2)]) (use assms(1) that(1) in \<open>auto simp: placed_def\<close>)
  from restored_or_kept[where failed = fst, OF assms(1) restore_loop[OF assms this, where a = "([], 0)"]]
  show "triple (\<lambda>s. dsk s = d) (io_bind (io_foldl (restore_target sg mc ctx n) ([], 0) (mk_targets m)) (\<lambda>a. join_failures (fst a)))
    (\<lambda>_ s. all_before mc (dsk s) m \<and> kept E d (dsk s)) (\<lambda>_ s. mixed mc (dsk s) m \<and> kept E d (dsk s))" by simp
qed (use assms in \<open>auto intro: keeps_rules\<close>)

end

end
