(* ===== verification/FileSetRecoverProof.thy ===== *)
theory FileSetRecoverProof
  imports FileSetAtomic
begin

text \<open>
  What recovery leaves: the loading of the published marker, the removal of the evidence, and the recovery of both
  generations of markers.
\<close>

section \<open>Only a missing marker is reported as absent\<close>

definition unmarked :: "('s, fileSetError, 'a) io \<Rightarrow> bool" where
  "unmarked m \<longleftrightarrow> (\<forall>s e s'. m s = (Inl e, s') \<longrightarrow> \<not> is_marker_absent e)"

lemma marker_absent_simps [simp]:
  "is_marker_absent (MarkerAbsent e)" "\<not> is_marker_absent (StorageFailure e)" "\<not> is_marker_absent ContextFailure"
  "\<not> is_marker_absent (RequestInvalid r)" "\<not> is_marker_absent (WorkRefused k)" "\<not> is_marker_absent (MarkerInvalid k')"
  "\<not> is_marker_absent (EvidenceRefused v)" "\<not> is_marker_absent (AbandonedFileSetResidue ps)"
  "is_marker_absent (FileSetFenceError f x) = is_marker_absent x"
  by (simp_all add: is_marker_absent_def error_is_def)

lemma marker_absent_wrap [simp]: "is_marker_absent (wrapFileSetAccessUnprovable e) = is_marker_absent e"
  by (simp add: wrapFileSetAccessUnprovable_def wrapFileSetFenceError_def)

named_theorems unmarked_rules \<open>one rule for each combinator\<close>

lemma unmarked_basic [unmarked_rules]:
  "unmarked (io_return x)" "\<not> is_marker_absent e \<Longrightarrow> unmarked (io_raise e)" "\<not> is_marker_absent e \<Longrightarrow> unmarked (io_refuse c e)"
  "unmarked (on_store m')" "unmarked (io_try m)"
  "(\<And>e. r = Inl e \<Longrightarrow> \<not> is_marker_absent e) \<Longrightarrow> unmarked (on_result r)"
  "(\<And>b e. f b = Inl e \<Longrightarrow> \<not> is_marker_absent e) \<Longrightarrow> unmarked (on_budget f)"
  "unmarked m \<Longrightarrow> unmarked (io_wrap wrapFileSetAccessUnprovable m)"
  by (auto simp: unmarked_def on_store_def io_try_def on_result_def on_budget_def io_wrap_def split: prod.splits sum.splits)

lemma unmarked_ctx [unmarked_rules]: "unmarked (ctx_err sg ctx)"
  by (auto simp: unmarked_def ctx_err_def split: prod.splits sum.splits goContext.splits)

lemma unmarked_bind [unmarked_rules]: "unmarked m \<Longrightarrow> (\<And>x. unmarked (f x)) \<Longrightarrow> unmarked (io_bind m f)"
  by (auto simp: unmarked_def io_bind_def split: prod.splits sum.splits)

lemma unmarked_foldl [unmarked_rules]: "(\<And>a x. unmarked (f a x)) \<Longrightarrow> unmarked (io_foldl f a xs)"
  by (induction xs arbitrary: a) (auto intro: unmarked_rules)

lemma unmarked_case [unmarked_rules]:
  "(\<And>x y. unmarked (f x y)) \<Longrightarrow> unmarked (case p of (x, y) \<Rightarrow> f x y)"
  "(\<And>x y. unmarked (h x y v)) \<Longrightarrow> unmarked ((case q of (x, y) \<Rightarrow> h x y) v)"
  "unmarked n \<Longrightarrow> (\<And>y. unmarked (g y)) \<Longrightarrow> unmarked (case r of None \<Rightarrow> n | Some y \<Rightarrow> g y)"
  "unmarked n \<Longrightarrow> unmarked n' \<Longrightarrow> unmarked (if c then n else n')"
  "(\<And>y. unmarked (g y)) \<Longrightarrow> unmarked (let y = z in g y)"
  by (auto split: prod.splits option.splits)

lemma work_errors:
  "AdmitPhysicalWork p n b budget = Inl e \<Longrightarrow> \<not> is_marker_absent e"
  "ChargeAbsolutePath path depth (\<lambda>n. AdmitPhysicalWork n 0 0) budget = Inl e \<Longrightarrow> \<not> is_marker_absent e"
  "fileSetAbsolutePathWork path depth = Inl e \<Longrightarrow> \<not> is_marker_absent e"
  "admitFileSetTargetCount k = Inl e \<Longrightarrow> \<not> is_marker_absent e"
  "admitStagedEvidenceBytes st k = Inl e \<Longrightarrow> \<not> is_marker_absent e"
  by (auto simp: AdmitPhysicalWork_def ChargeAbsolutePath_def fileSetAbsolutePathWork_def counter_AdmitPathComponents_def
      absolutePathDepth_def admitFileSetTargetCount_def admitStagedEvidenceBytes_def Let_def ebind_eq_Inl refuse_if_def
      split: if_splits)

text \<open>Errors of the marker itself.\<close>

definition marker_error :: "fileSetError + 'a \<Rightarrow> bool" where
  "marker_error r \<longleftrightarrow> (\<forall>e. r = Inl e \<longrightarrow> (\<exists>x. e = MarkerInvalid x))"

lemma marker_error_rules:
  "marker_error (Inr x)" "marker_error (Inl (MarkerInvalid m))" "marker_error (refuse_if c (MarkerInvalid m))"
  "marker_error r \<Longrightarrow> (\<And>x. marker_error (f x)) \<Longrightarrow> marker_error (ebind r f)"
  by (auto simp: marker_error_def refuse_if_def ebind_eq_Inl)

lemma marker_error_foldM: "(\<And>a x. marker_error (f a x)) \<Longrightarrow> marker_error (foldM f a xs)"
  by (induction xs arbitrary: a) (auto intro!: marker_error_rules)

lemma marker_error_case:
  "marker_error n \<Longrightarrow> (\<And>y. marker_error (g y)) \<Longrightarrow> marker_error (case r of None \<Rightarrow> n | Some y \<Rightarrow> g y)"
  "marker_error n \<Longrightarrow> marker_error n' \<Longrightarrow> marker_error (if c then n else n')"
  by (auto split: option.splits)

lemmas marker_error_intros = marker_error_rules marker_error_foldM marker_error_case

lemma marker_error_fields:
  "marker_error (object_fields name j)" "marker_error (requireMarkerField ms name)" "marker_error (rejectMarkerNull ms name)"
  "marker_error (field_bool name j)"
  by (auto simp: marker_error_def object_fields_def requireMarkerField_def rejectMarkerNull_def field_bool_def refuse_if_def
      split: json.splits option.splits if_splits)

lemma marker_error_presence: "marker_error (validateMarkerPresence j version)"
proof -
  have before: "marker_error (validateBeforePresence j)" for j
    unfolding validateBeforePresence_def by (intro marker_error_intros marker_error_fields)
  have target: "marker_error (validateTargetPresence j)" for j
    unfolding validateTargetPresence_def by (intro marker_error_intros marker_error_fields before)
  have reference: "marker_error (validateReferencePresence j)" for j
    unfolding validateReferencePresence_def by (intro marker_error_intros marker_error_fields)
  have targets: "marker_error (case t of JArray js \<Rightarrow> foldM (\<lambda>_ j. validateTargetPresence j) () js
     | _ \<Rightarrow> Inl (MarkerInvalid (MarkerFieldType ''targets'')))" for t
    by (cases t) (auto intro!: marker_error_intros target)
  show ?thesis
    unfolding validateMarkerPresence_def by (intro marker_error_intros marker_error_fields reference targets)
qed

lemma presence_error: "validateMarkerPresence j version = Inl e \<Longrightarrow> \<exists>x. e = MarkerInvalid x"
  using marker_error_presence[of j version] by (simp add: marker_error_def)

lemma parse_error: "parseMarker mc content version = Inl e \<Longrightarrow> \<not> is_marker_absent e"
  by (auto simp: parseMarker_def ebind_eq_Inl split: sum.splits if_splits option.splits decodeError.splits
      dest!: presence_error)

lemma scan_errors: "ebind (scan_path t sc) (scan_states dir t) = Inl e \<Longrightarrow> \<not> is_marker_absent e"
  by (auto simp: scan_path_def scan_states_def validateBeforeState_def Let_def ebind_eq_Inl refuse_if_def split: if_splits)

lemma reference_errors: "validateReferenceMarker m r p = Inl e \<Longrightarrow> \<not> is_marker_absent e"
  by (auto simp: validateReferenceMarker_def split: if_splits option.splits)

lemma unmarked_validate [unmarked_rules]: "unmarked (validateMarkerForVersionWithBudget path m version depth)"
  unfolding validateMarkerForVersionWithBudget_def scan_target_def charge_path_def
  by (intro unmarked_rules | simp | erule work_errors scan_errors reference_errors)+

lemma unmarked_reconstruct [unmarked_rules]: "unmarked (reconstructReferenceEvidenceWithBudget sg mc ctx path m depth)"
  unfolding reconstructReferenceEvidenceWithBudget_def preflightReconstructedEvidenceSizes_def reconstruct_target_def
    readEvidenceImageWithBudget_def inspectEvidenceImageSize_def admitFileSetFenceWork_def readTransactionFileUpTo_def
  by (intro unmarked_rules | simp | erule work_errors)+

definition marker_at :: "marker_codec \<Rightarrow> int \<Rightarrow> disk \<Rightarrow> string \<Rightarrow> transactionMarker \<Rightarrow> bool" where
  "marker_at mc version d path m \<longleftrightarrow>
     (\<exists>content. dk_view d path = RegularNode content transactionEvidenceMode \<and> parseMarker mc content version = Inr m)"

section \<open>What a recovery may leave\<close>

definition published :: "marker_codec \<Rightarrow> int \<Rightarrow> string \<Rightarrow> transactionMarker \<Rightarrow> disk \<Rightarrow> bool" where
  "published mc version S m d \<longleftrightarrow>
     dk_view d (transactionDir S) = OtherNode \<and> marker_at mc version d (markerPath S) m \<and> images_kept mc d m"

definition gone :: "string \<Rightarrow> disk \<Rightarrow> bool" where
  "gone S d \<longleftrightarrow> dk_view d (transactionDir S) = Absent \<and> dk_view d (markerPath S) = Absent"

definition pending_or_settled :: "marker_codec \<Rightarrow> int \<Rightarrow> string \<Rightarrow> transactionMarker \<Rightarrow> disk \<Rightarrow> bool" where
  "pending_or_settled mc version S m d \<longleftrightarrow>
     published mc version S m d \<and> mixed mc d m \<or> gone S d \<and> (all_before mc d m \<or> all_after mc d m)"

text \<open>A recovery that reports success finalizes what was complete and takes back everything else.\<close>

definition settled_from :: "marker_codec \<Rightarrow> string \<Rightarrow> transactionMarker \<Rightarrow> disk \<Rightarrow> disk \<Rightarrow> bool" where
  "settled_from mc S m d d' \<longleftrightarrow> gone S d' \<and> (if all_after mc d m then all_after mc d' m else all_before mc d' m)"

lemma all_mixed: "all_before mc d m \<Longrightarrow> mixed mc d m" "all_after mc d m \<Longrightarrow> mixed mc d m"
  by (auto simp: all_before_def all_after_def mixed_def)

text \<open>The canonical state directory of an absolute path.\<close>

definition state_dir :: "(string \<Rightarrow> string) \<Rightarrow> string \<Rightarrow> string" where
  "state_dir canon path = go_dir (canon (go_join (go_clean path) state_probe))"

lemma return_bind: "io_bind (io_return x) f = f x"
  by (rule ext) (simp add: io_bind_def)

lemma bind_result: "io_bind (on_result (Inr x)) f = f x"
  by (rule ext) (simp add: io_bind_def on_result_def)

context file_storage
begin

section \<open>Loading\<close>

lemma quiet_case_app [keeps_rules]: "(\<And>x y. keeps P (h x y v)) \<Longrightarrow> keeps P ((case q of (x, y) \<Rightarrow> h x y) v)"
  by (cases q) auto

lemma quiet_charges [keeps_rules]:
  "keeps (\<lambda>s. dsk s = d) (admitFileSetFenceWork p e b)"
  "keeps (\<lambda>s. dsk s = d) (admitFileSetFenceObservation path depth e b)"
  "keeps (\<lambda>s. dsk s = d) (charge_path depth path)"
  by (simp_all add: admitFileSetFenceWork_def admitFileSetFenceObservation_def charge_path_def) (intro keeps_rules)+

lemma quiet_evidence [keeps_rules]:
  "keeps (\<lambda>s. dsk s = d) (inspectEvidenceImageSize sg p expected n)"
  "keeps (\<lambda>s. dsk s = d) (readEvidenceImageWithBudget sg mc ctx p staged hash expected n)"
proof -
  show inspect: "keeps (\<lambda>s. dsk s = d) (inspectEvidenceImageSize sg p expected n)"
    unfolding inspectEvidenceImageSize_def by (intro keeps_rules)
  show "keeps (\<lambda>s. dsk s = d) (readEvidenceImageWithBudget sg mc ctx p staged hash expected n)"
    unfolding readEvidenceImageWithBudget_def by (intro keeps_rules inspect)
qed

lemma quiet_validate [keeps_rules]: "keeps (\<lambda>s. dsk s = d) (validateMarkerForVersionWithBudget path m version depth)"
  unfolding validateMarkerForVersionWithBudget_def scan_target_def by (intro keeps_rules)

lemma quiet_reconstruct [keeps_rules]:
  "keeps (\<lambda>s. dsk s = d) (reconstructReferenceEvidenceWithBudget sg mc ctx path m depth)"
  unfolding reconstructReferenceEvidenceWithBudget_def preflightReconstructedEvidenceSizes_def reconstruct_target_def Let_def
  by (intro keeps_rules)

lemma marker_at_unique: "marker_at mc v d p m \<Longrightarrow> marker_at mc v d p m' \<Longrightarrow> m' = m"
  by (auto simp: marker_at_def)

abbreviation loads :: "marker_codec \<Rightarrow> int \<Rightarrow> disk \<Rightarrow> string \<Rightarrow> ('a \<Rightarrow> transactionMarker) \<Rightarrow> ('w, 'a) fileset \<Rightarrow> bool" where
  "loads mc v d path marker load \<equiv> triple (\<lambda>s. dsk s = d) load
     (\<lambda>x s. dsk s = d \<and> marker_at mc v d path (marker x) \<and> marker_valid (go_dir path) v (marker x))
     (\<lambda>e s. dsk s = d \<and> (is_marker_absent e \<longrightarrow> dk_view d path = Absent))"

lemma keep_unmarked:
  assumes "keeps (\<lambda>s. dsk s = d) m" and "unmarked m"
  shows "triple (\<lambda>s. dsk s = d) m (\<lambda>_ s. dsk s = d) (\<lambda>e s. dsk s = d \<and> \<not> is_marker_absent e)"
proof (rule tripleI)
  fix s e s' assume "dsk s = d" "m s = (Inl e, s')"
  then show "dsk s' = d \<and> \<not> is_marker_absent e"
    using triple_Inl[OF assms(1)[unfolded keeps_def]] assms(2) unfolding unmarked_def by blast
qed (rule triple_Inr[OF assms(1)[unfolded keeps_def]])

lemma checked_marker:
  assumes "v = MetadataTransaction \<or> v = MetadataTransactionReference"
  shows "triple (\<lambda>_. True) (if c then io_raise e else validateMarkerForVersionWithBudget path m v depth)
    (\<lambda>_ _. marker_valid (go_dir path) v m) (\<lambda>_ _. True)"
  by (cases c) (auto simp: triple_def split: prod.splits sum.splits dest: validated_marker[OF _ assms])

lemma loads_validated:
  assumes "path \<in> owned" and "v = MetadataTransaction \<or> v = MetadataTransactionReference"
  shows "loads mc v d path fst (loadMarkerAtCanonicalPathVersionWithBudget sg mc ctx path v depth)"
proof -
  let ?R = "\<lambda>e s. dsk s = d \<and> (is_marker_absent e \<longrightarrow> dk_view d path = Absent)"
  have read: "triple (\<lambda>s. dsk s = d) (io_wrap (\<lambda>e. if e = StorageFailure NotExist then MarkerAbsent NotExist else e)
      (on_store (sg_read sg ctx path maximumMarkerBytes)))
    (\<lambda>x s. dk_view d path = RegularNode (fst x) (mode_perm (snd x)) \<and> dsk s = d) ?R"
  proof (rule triple_wrap, rule tripleI; clarsimp simp: on_store_def split: prod.splits sum.splits)
    fix w w' c m assume r: "sg_read sg ctx path maximumMarkerBytes w = (Inr (c, m), w')"
    from read_law[OF assms(1) r] read_quiet[of ctx path maximumMarkerBytes w] r
    show "dk_view (disk_of w) path = RegularNode c (mode_perm m) \<and> disk_of w' = disk_of w" by simp
  next
    fix w w' e assume r: "sg_read sg ctx path maximumMarkerBytes w = (Inl e, w')"
    from read_law[OF assms(1) r] read_quiet[of ctx path maximumMarkerBytes w] r
    show "(e = NotExist \<longrightarrow> disk_of w' = disk_of w \<and> dk_view (disk_of w) path = Absent) \<and>
        (e \<noteq> NotExist \<longrightarrow> disk_of w' = disk_of w)" by auto
  qed
  show ?thesis
    unfolding loadMarkerAtCanonicalPathVersionWithBudget_def case_prod_beta
  proof (rule triple_bind[OF read], rule triple_pure)
    fix x :: "string \<times> FileMode" assume view: "dk_view d path = RegularNode (fst x) (mode_perm (snd x))"
    let ?check = "\<lambda>m. if v = MetadataTransactionReference \<and> depth \<le> 0 then io_raise (WorkRefused BoundsRequired)
        else validateMarkerForVersionWithBudget path m v depth"
    have check: "triple (\<lambda>s. dsk s = d) (?check m) (\<lambda>_ s. marker_valid (go_dir path) v m \<and> dsk s = d) ?R" for m
    proof -
      have "keeps (\<lambda>s. dsk s = d) (?check m)" "unmarked (?check m)" by (intro keeps_rules unmarked_rules | simp)+
      from triple_conj[OF keep_unmarked[OF this] checked_marker[OF assms(2)]] show ?thesis
        by (rule triple_conseq) auto
    qed
    show "triple (\<lambda>s. dsk s = d) (io_bind (io_refuse (mode_perm (snd x) \<noteq> transactionEvidenceMode)
         (MarkerInvalid (MarkerPermissions (mode_perm (snd x))))) (\<lambda>_.
       io_bind (on_result (parseMarker mc (fst x) v)) (\<lambda>marker. io_bind (?check marker) (\<lambda>_. io_return (marker, fst x)))))
      (\<lambda>x s. dsk s = d \<and> marker_at mc v d path (fst x) \<and> marker_valid (go_dir path) v (fst x)) ?R"
    proof (rule quiet_refuse)
      assume mode: "\<not> mode_perm (snd x) \<noteq> transactionEvidenceMode"
      show "triple (\<lambda>s. dsk s = d) (io_bind (on_result (parseMarker mc (fst x) v))
          (\<lambda>marker. io_bind (?check marker) (\<lambda>_. io_return (marker, fst x))))
        (\<lambda>x s. dsk s = d \<and> marker_at mc v d path (fst x) \<and> marker_valid (go_dir path) v (fst x)) ?R"
      proof (cases "parseMarker mc (fst x) v")
        case (Inl e)
        then show ?thesis using parse_error[OF Inl] by (auto simp: triple_def io_bind_def on_result_def)
      next
        case (Inr m)
        then have "marker_at mc v d path m" using view mode by (simp add: marker_at_def)
        then have "triple (\<lambda>s. dsk s = d) (io_bind (?check m) (\<lambda>_. io_return (m, fst x)))
            (\<lambda>x s. dsk s = d \<and> marker_at mc v d path (fst x) \<and> marker_valid (go_dir path) v (fst x)) ?R"
          by (intro triple_bind[OF check]) (auto simp: triple_def)
        then show ?thesis using Inr by (simp add: bind_result)
      qed
    qed simp
  qed
qed

lemma loads_marker:
  assumes "path \<in> owned" and "canon path = path"
  shows "loads mc MetadataTransaction d path id (loadMarker sg mc ctx path)"
  unfolding loadMarker_def loadMarkerAtCanonicalPath_def
proof (rule triple_bind)
  show "triple (\<lambda>s. dsk s = d) (on_store (sg_canonical sg path)) (\<lambda>q s. q = path \<and> dsk s = d)
      (\<lambda>e s. dsk s = d \<and> (is_marker_absent e \<longrightarrow> dk_view d path = Absent))"
    by (rule triple_conseq[OF triple_conj[OF keep_unmarked[OF quiet_calls(2) unmarked_basic(4)] told_canonical]])
      (use assms(2) in auto)
next
  fix q show "triple (\<lambda>s. q = path \<and> dsk s = d) (io_bind (loadMarkerAtCanonicalPathVersionWithBudget sg mc ctx q MetadataTransaction 0)
       (\<lambda>(marker, _). io_return marker))
     (\<lambda>x s. dsk s = d \<and> marker_at mc MetadataTransaction d path (id x) \<and> marker_valid (go_dir path) MetadataTransaction (id x))
     (\<lambda>e s. dsk s = d \<and> (is_marker_absent e \<longrightarrow> dk_view d path = Absent))"
    by (rule triple_pure, simp, rule triple_bind[OF loads_validated[OF assms(1)]]) (auto simp: triple_def split: prod.split)
qed

lemma loads_marker4:
  assumes "path \<in> owned"
  shows "loads mc MetadataTransactionReference d path fst (loadMarker4WithBudget sg mc ctx path depth)"
proof -
  let ?R = "\<lambda>e s. dsk s = d \<and> (is_marker_absent e \<longrightarrow> dk_view d path = Absent)"
  have admit: "triple (\<lambda>s. dsk s = d) (admitFileSetFenceObservation path depth 1 maximumMarkerBytes) (\<lambda>_ s. dsk s = d) ?R"
  proof -
    have "unmarked (admitFileSetFenceObservation path depth 1 maximumMarkerBytes)"
      unfolding admitFileSetFenceObservation_def admitFileSetFenceWork_def by (intro unmarked_rules | erule work_errors)+
    from keep_unmarked[OF quiet_charges(2) this] show ?thesis by (rule triple_conseq) auto
  qed
  have evidence: "triple (\<lambda>s. dsk s = d) (reconstructReferenceEvidenceWithBudget sg mc ctx path m depth) (\<lambda>_ s. dsk s = d) ?R" for m
    by (rule triple_conseq[OF keep_unmarked[OF quiet_reconstruct unmarked_reconstruct]]) auto
  have keep: "triple (\<lambda>s. dsk s = d \<and> marker_at mc MetadataTransactionReference d path m \<and>
        marker_valid (go_dir path) MetadataTransactionReference m)
      (io_bind (reconstructReferenceEvidenceWithBudget sg mc ctx path m depth) (\<lambda>evidence. io_return (m, content, evidence)))
      (\<lambda>x s. dsk s = d \<and> marker_at mc MetadataTransactionReference d path (fst x) \<and>
        marker_valid (go_dir path) MetadataTransactionReference (fst x)) ?R" for m content
  proof -
    have "triple (\<lambda>s. (marker_at mc MetadataTransactionReference d path m \<and>
        marker_valid (go_dir path) MetadataTransactionReference m) \<and> dsk s = d)
      (io_bind (reconstructReferenceEvidenceWithBudget sg mc ctx path m depth) (\<lambda>evidence. io_return (m, content, evidence)))
      (\<lambda>x s. dsk s = d \<and> marker_at mc MetadataTransactionReference d path (fst x) \<and>
        marker_valid (go_dir path) MetadataTransactionReference (fst x)) ?R"
      by (rule triple_pure, rule triple_bind[OF evidence]) (auto simp: triple_def)
    then show ?thesis by (rule triple_pre) auto
  qed
  show ?thesis
    unfolding loadMarker4WithBudget_def case_prod_beta
    by (rule triple_if, simp add: triple_def, rule triple_bind[OF admit], rule triple_bind[OF loads_validated[OF assms]]) (auto intro: keep)
qed

section \<open>The census and the path sets\<close>

lemma quiet_census [keeps_rules]:
  "keeps (\<lambda>s. dsk s = d) (rejectAbandonedFileSetResidueWithBudget sg ctx S n)"
  "keeps (\<lambda>s. dsk s = d) (rejectAbandonedFileSetResidue sg ctx S)"
proof -
  have name: "keeps (\<lambda>s. dsk s = d) (census_name sg ctx S limit n a name)" for a limit n name d
    unfolding census_name_def Let_def by (intro keeps_rules)
  have batches: "keeps (\<lambda>s. dsk s = d) (census_batches k sg ctx S limit n fd found)" for k limit n fd found d
  proof (induction k arbitrary: found)
    case (Suc k)
    have failure: "keeps P (case e of EndOfDirectory \<Rightarrow> n | ListFailure x \<Rightarrow> f x)"
      if "keeps P n" "\<And>x. keeps P (f x)" for P e f and n :: "('w, string list) fileset"
      using that by (cases e) auto
    show ?case
      unfolding census_batches.simps finishFileSetResidueInspection_def by (intro keeps_rules name failure Suc.IH)
  qed (simp add: keeps_rules)
  show census: "keeps (\<lambda>s. dsk s = d) (rejectAbandonedFileSetResidueWithBudget sg ctx S n)" for d n
    unfolding rejectAbandonedFileSetResidueWithBudget_def inspectAbandonedFileSetResidueLimitedWithBudget_def
      finishFileSetResidueInspection_def
    by (intro keeps_rules batches)
  show "keeps (\<lambda>s. dsk s = d) (rejectAbandonedFileSetResidue sg ctx S)"
    unfolding rejectAbandonedFileSetResidue_def by (intro keeps_rules census)
qed

lemma quiet_allowed [keeps_rules]:
  "keeps (\<lambda>s. dsk s = d) (canonicalAllowedPaths sg paths)"
  "keeps (\<lambda>s. dsk s = d) (canonicalAllowedPathsBounded sg paths n)"
  unfolding canonicalAllowedPaths_def canonicalAllowedPathsBounded_def by (intro keeps_rules)+

section \<open>Removing the evidence\<close>

lemma removed_elsewhere:
  assumes "placed canon owned E m"
  shows "all_before mc (removed E d) m = all_before mc d m" "all_after mc (removed E d) m = all_after mc d m"
proof -
  have "dk_view (removed E d) (tm_path t) = dk_view d (tm_path t)" if "t \<in> set (mk_targets m)" for t
    using assms that by (auto simp: placed_def removed_def under_def)
  then have "before_at mc (removed E d) t = before_at mc d t" "after_at mc (removed E d) t = after_at mc d t"
    if "t \<in> set (mk_targets m)" for t
    using that by (simp_all add: after_at_def before_at_def in_state_def holds_def)
  then show "all_before mc (removed E d) m = all_before mc d m" "all_after mc (removed E d) m = all_after mc d m"
    by (simp_all add: all_before_def all_after_def)
qed

lemma evidence_covered:
  assumes "placed canon owned (transactionDir S) m" and "clean_absolute S"
  shows "transactionDir S \<in> owned" "under (transactionDir S) (markerPath S)" "markerPath S \<in> owned"
proof -
  show marker: "under (transactionDir S) (markerPath S)"
    unfolding markerPath_def by (rule evidence_paths(3)[OF assms(2) names_are_components(2)])
  show "transactionDir S \<in> owned" "markerPath S \<in> owned" using assms(1) marker by (auto simp: placed_def under_def)
qed

lemma remove_evidence_dir:
  assumes "placed canon owned (transactionDir S) m" and "clean_absolute S" and "published mc v S m d"
  shows "triple (\<lambda>s. dsk s = d) (removeTransactionDir sg ctx S)
    (\<lambda>_ s. dsk s = removed (transactionDir S) d) (\<lambda>_ s. dsk s = d \<or> dsk s = removed (transactionDir S) d)"
proof -
  have "dk_view d (transactionDir S) \<noteq> Absent" "under (transactionDir S) (transactionDir S)"
    using assms(3) by (simp_all add: published_def under_def)
  then show ?thesis
    unfolding removeTransactionDir_def
    by (intro triple_conseq[OF remove_entry_steps[OF evidence_covered(1)[OF assms(1,2)]]]) auto
qed

lemma remove_evidence:
  assumes "placed canon owned (transactionDir S) m" and "clean_absolute S" and "published mc v S m d"
    and "keeps (\<lambda>s. dsk s = removed (transactionDir S) d) next_step"
  shows "triple (\<lambda>s. dsk s = d) (io_bind (removeTransactionDir sg ctx S) (\<lambda>_. next_step))
    (\<lambda>_ s. dsk s = removed (transactionDir S) d) (\<lambda>_ s. dsk s = d \<or> dsk s = removed (transactionDir S) d)"
proof (rule triple_bind[OF remove_evidence_dir[OF assms(1-3)]])
  show "triple (\<lambda>s. dsk s = removed (transactionDir S) d) next_step
    (\<lambda>_ s. dsk s = removed (transactionDir S) d) (\<lambda>_ s. dsk s = d \<or> dsk s = removed (transactionDir S) d)"
    using assms(4) unfolding keeps_def by (rule triple_conseq) auto
qed

lemma removed_gone:
  assumes "placed canon owned (transactionDir S) m" and "clean_absolute S" and "published mc v S m d"
  shows "gone S (removed (transactionDir S) d)"
  using evidence_covered(2)[OF assms(1,2)] assms(3)
  by (auto simp: gone_def removed_def published_def is_regular_def under_def)

lemma kept_published:
  assumes "placed canon owned (transactionDir S) m" and "clean_absolute S" and "published mc v S m d"
    and "kept (transactionDir S) d d'"
  shows "published mc v S m d'"
proof -
  have "dk_view d' (fs_backupPath (tm_before t)) = dk_view d (fs_backupPath (tm_before t))"
    if "t \<in> set (mk_targets m)" "fs_exists (tm_before t)" for t
    using assms(1,4) that by (auto simp: placed_def kept_def)
  then have "images_kept mc d' m" using assms(3) by (auto simp: images_kept_def published_def holds_def)
  then show ?thesis
    using assms(3,4) evidence_covered(2)[OF assms(1,2)] by (auto simp: published_def marker_at_def kept_def under_def)
qed

section \<open>Recovery\<close>

lemma classified_recovery:
  fixes census census' :: "('w, unit) fileset" and restore :: "('w, unit) fileset"
  assumes "placed canon owned (transactionDir S) m" and "clean_absolute S" and "published mc v S m d" and "mixed mc d m"
    and "triple (\<lambda>s. dsk s = d) restore
      (\<lambda>_ s. all_before mc (dsk s) m \<and> kept (transactionDir S) d (dsk s))
      (\<lambda>_ s. mixed mc (dsk s) m \<and> kept (transactionDir S) d (dsk s))"
    and "\<And>d. keeps (\<lambda>s. dsk s = d) census" "\<And>d. keeps (\<lambda>s. dsk s = d) census'"
  shows "triple (\<lambda>s. dsk s = d) (io_bind (classifyTargets sg mc ctx m) (\<lambda>cl.
      if cl_cleanAfter cl then io_bind (removeTransactionDir sg ctx S) (\<lambda>_. census)
      else if cl_recoverable cl then
        io_bind restore (\<lambda>_. io_bind (removeTransactionDir sg ctx' S) (\<lambda>_. census'))
      else io_raise (RequestInvalid NotRecoverable)))
    (\<lambda>_ s. settled_from mc S m d (dsk s)) (\<lambda>_ s. pending_or_settled mc v S m (dsk s))"
proof (rule answers_bind[OF classify_answers[OF placed_covered[OF assms(1)]]])
  let ?E = "transactionDir S"
  have still: "published mc v S m d'" if "kept ?E d d'" for d'
    by (rule kept_published[OF assms(1-3) that])
  have finish: "triple (\<lambda>s. dsk s = d') (io_bind (removeTransactionDir sg c S) (\<lambda>_. next_step))
      (\<lambda>_ s. settled_from mc S m d (dsk s)) (\<lambda>_ s. pending_or_settled mc v S m (dsk s))"
    if "kept ?E d d'" "if all_after mc d m then all_after mc d' m else all_before mc d' m" "keeps (\<lambda>s. dsk s = removed ?E d') next_step" for d' c and next_step :: "('w, unit) fileset"
  proof -
    note pub = still[OF that(1)]
    have "settled_from mc S m d (removed ?E d')" "pending_or_settled mc v S m (removed ?E d')" "pending_or_settled mc v S m d'"
      using removed_gone[OF assms(1,2) pub] removed_elsewhere[OF assms(1), of mc d'] that(2) pub all_mixed[of mc d' m]
      by (auto simp: settled_from_def pending_or_settled_def split: if_splits)
    then show ?thesis
      by (intro triple_conseq[OF remove_evidence[OF assms(1,2) pub that(3)]]) auto
  qed
  have restored: "triple (\<lambda>s. dsk s = d) (io_bind restore (\<lambda>_. io_bind (removeTransactionDir sg ctx' S) (\<lambda>_. census')))
      (\<lambda>_ s. settled_from mc S m d (dsk s)) (\<lambda>_ s. pending_or_settled mc v S m (dsk s))" if "\<not> all_after mc d m"
  proof (rule triple_bind)
    show "triple (\<lambda>s. dsk s = d) restore (\<lambda>_ s. all_before mc (dsk s) m \<and> kept ?E d (dsk s))
        (\<lambda>_ s. pending_or_settled mc v S m (dsk s))"
      by (rule triple_conseq[OF assms(5)]) (auto simp: pending_or_settled_def still)
    show "triple (\<lambda>s. all_before mc (dsk s) m \<and> kept ?E d (dsk s)) (io_bind (removeTransactionDir sg ctx' S) (\<lambda>_. census'))
        (\<lambda>_ s. settled_from mc S m d (dsk s)) (\<lambda>_ s. pending_or_settled mc v S m (dsk s))"
      by (rule triple_at, rule finish[OF _ _ assms(7)]) (use that in auto)
  qed
  have clean: "triple (\<lambda>s. dsk s = d) (io_bind (removeTransactionDir sg ctx S) (\<lambda>_. census))
      (\<lambda>_ s. settled_from mc S m d (dsk s)) (\<lambda>_ s. pending_or_settled mc v S m (dsk s))" if "all_after mc d m"
    by (rule finish[OF _ _ assms(6)]) (use that in auto)
  show "triple (\<lambda>s. dsk s = d)
      (if cl_cleanAfter \<lparr>cl_cleanAfter = all_after mc d m, cl_recoverable = mixed mc d m\<rparr>
       then io_bind (removeTransactionDir sg ctx S) (\<lambda>_. census)
       else if cl_recoverable \<lparr>cl_cleanAfter = all_after mc d m, cl_recoverable = mixed mc d m\<rparr>
         then io_bind restore (\<lambda>_. io_bind (removeTransactionDir sg ctx' S) (\<lambda>_. census'))
         else io_raise (RequestInvalid NotRecoverable))
      (\<lambda>_ s. settled_from mc S m d (dsk s)) (\<lambda>_ s. pending_or_settled mc v S m (dsk s))"
    using clean restored assms(4) by simp
qed (use assms(3,4) in \<open>auto simp: pending_or_settled_def\<close>)

text \<open>After loading, both generations go on in the same way.\<close>

lemma settled_pending: "settled_from mc S m d d' \<Longrightarrow> pending_or_settled mc v S m d'"
  by (auto simp: settled_from_def pending_or_settled_def split: if_splits)

lemma loaded_recovery:
  assumes "placed canon owned (transactionDir S) m" and "clean_absolute S" and "published mc v S m d"
    and load: "loads mc v d (markerPath S) marker load"
    and absent: "\<And>d. keeps (\<lambda>s. dsk s = d) census"
    and rest: "\<And>x. marker x = m \<Longrightarrow> triple (\<lambda>s. dsk s = d) (rest x)
      (\<lambda>_ s. settled_from mc S m d (dsk s)) (\<lambda>_ s. pending_or_settled mc v S m (dsk s))"
    and "mixed mc d m"
  shows "triple (\<lambda>s. dsk s = d) (io_bind (io_try load) (\<lambda>loaded. case loaded of
       Inl e \<Rightarrow> if is_marker_absent e then census else io_raise e | Inr x \<Rightarrow> rest x))
    (\<lambda>_ s. settled_from mc S m d (dsk s)) (\<lambda>_ s. pending_or_settled mc v S m (dsk s))"
proof (rule triple_bind)
  show "triple (\<lambda>s. dsk s = d) (io_try load) (\<lambda>r s. (case r of Inr x \<Rightarrow> marker x = m | Inl e \<Rightarrow> \<not> is_marker_absent e) \<and> dsk s = d)
      (\<lambda>_ s. pending_or_settled mc v S m (dsk s))"
    by (rule triple_try, rule triple_conseq[OF load])
      (use assms(3) in \<open>auto simp: published_def marker_at_def\<close>)
next
  fix r
  show "triple (\<lambda>s. (case r of Inr x \<Rightarrow> marker x = m | Inl e \<Rightarrow> \<not> is_marker_absent e) \<and> dsk s = d)
      (case r of Inl e \<Rightarrow> if is_marker_absent e then census else io_raise e | Inr x \<Rightarrow> rest x)
      (\<lambda>_ s. settled_from mc S m d (dsk s)) (\<lambda>_ s. pending_or_settled mc v S m (dsk s))"
  proof (cases r)
    case (Inl e)
    have "pending_or_settled mc v S m d" using assms(3,7) by (simp add: pending_or_settled_def)
    then show ?thesis unfolding Inl by (auto simp: triple_def)
  next
    case (Inr x)
    then show ?thesis by (simp add: rest triple_pure)
  qed
qed

lemma recover_version3_settles:
  assumes "placed canon owned (transactionDir S) m" and "clean_absolute S" and "canon (markerPath S) = markerPath S"
    and "published mc MetadataTransaction S m d" and "mixed mc d m"
  shows "triple (\<lambda>s. dsk s = d) (recover_version3 sg mc ctx S allowedPaths)
    (\<lambda>_ s. settled_from mc S m d (dsk s)) (\<lambda>_ s. pending_or_settled mc MetadataTransaction S m (dsk s))"
  unfolding recover_version3_def
proof (rule loaded_recovery[OF assms(1,2,4) loads_marker[OF evidence_covered(3)[OF assms(1,2)] assms(3)]])
  have pending: "pending_or_settled mc MetadataTransaction S m d" using assms(4,5) by (simp add: pending_or_settled_def)
  fix x :: transactionMarker assume "id x = m"
  then have x: "x = m" by simp
  show "triple (\<lambda>s. dsk s = d) (io_bind (canonicalAllowedPaths sg allowedPaths) (\<lambda>allowed.
           io_bind (on_result (authorize_targets allowed x)) (\<lambda>_.
           io_bind (classifyTargets sg mc ctx x) (\<lambda>classification.
           if cl_cleanAfter classification then
             io_bind (removeTransactionDir sg ctx S) (\<lambda>_. rejectAbandonedFileSetResidue sg ctx S)
           else if cl_recoverable classification then
             io_bind (restoreTransaction sg mc Uncancellable x) (\<lambda>_.
             io_bind (removeTransactionDir sg Uncancellable S) (\<lambda>_. rejectAbandonedFileSetResidue sg ctx S))
           else io_raise (RequestInvalid NotRecoverable)))))
      (\<lambda>_ s. settled_from mc S m d (dsk s)) (\<lambda>_ s. pending_or_settled mc MetadataTransaction S m (dsk s))"
    unfolding x
    by (rule quiet_bind[OF quiet_allowed(1)], rule quiet_bind[OF quiet_basic(2)],
        rule classified_recovery[OF assms(1,2,4,5) restore_transaction[OF assms(1,5)] quiet_census(2) quiet_census(2)])
      (use pending in auto)
qed (use assms(5) in \<open>auto intro: keeps_rules\<close>)

lemma recover4_settles:
  assumes "placed canon owned (transactionDir S) m" and "clean_absolute S"
    and "published mc MetadataTransactionReference S m d" and "mixed mc d m"
  shows "triple (\<lambda>s. dsk s = d) (recoverFileSet4WithBudget sg mc ctx S allowedPaths n)
    (\<lambda>_ s. settled_from mc S m d (dsk s)) (\<lambda>_ s. pending_or_settled mc MetadataTransactionReference S m (dsk s))"
proof -
  have pending: "pending_or_settled mc MetadataTransactionReference S m d" using assms(3,4) by (simp add: pending_or_settled_def)
  let ?rest = "\<lambda>x. io_bind (canonicalAllowedPathsBounded sg allowedPaths n) (\<lambda>allowed.
           io_bind (io_refuse (length allowed \<noteq> length (mk_targets x)) (RequestInvalid TargetSetMismatch)) (\<lambda>_.
           io_bind (on_result (authorize_targets allowed x)) (\<lambda>_.
           io_bind (classifyTargets sg mc ctx x) (\<lambda>classification.
           if cl_cleanAfter classification then
             io_bind (removeTransactionDir sg ctx S) (\<lambda>_. rejectAbandonedFileSetResidueWithBudget sg ctx S n)
           else if cl_recoverable classification then
             io_bind (restoreTransactionWithBudget sg mc Uncancellable x n) (\<lambda>_.
             io_bind (removeTransactionDir sg Uncancellable S) (\<lambda>_.
             rejectAbandonedFileSetResidueWithBudget sg Uncancellable S n))
           else io_raise (RequestInvalid NotRecoverable)))))"
  have rest: "triple (\<lambda>s. dsk s = d) (case x of (marker, _, _) \<Rightarrow> ?rest marker)
      (\<lambda>_ s. settled_from mc S m d (dsk s)) (\<lambda>_ s. pending_or_settled mc MetadataTransactionReference S m (dsk s))"
    if "fst x = m" for x :: "transactionMarker \<times> string \<times> reconstructedReferenceEvidence option"
  proof -
    have "triple (\<lambda>s. dsk s = d) (?rest m)
        (\<lambda>_ s. settled_from mc S m d (dsk s)) (\<lambda>_ s. pending_or_settled mc MetadataTransactionReference S m (dsk s))"
      by (rule quiet_bind[OF quiet_allowed(2)], rule quiet_refuse, simp add: pending, rule quiet_bind[OF quiet_basic(2)],
          rule classified_recovery[OF assms restore_with_budget[OF assms(1,4)] quiet_census(1) quiet_census(1)])
        (use pending in auto)
    with that show ?thesis by (cases x) auto
  qed
  show ?thesis
    unfolding recoverFileSet4WithBudget_def
    by (rule quiet_bind[OF quiet_basic(3)], rule quiet_refuse, simp add: pending,
        rule loaded_recovery[OF assms(1-3) loads_marker4[OF evidence_covered(3)[OF assms(1,2)]] quiet_census(1) rest assms(4)])
      (use pending in auto)
qed

section \<open>The state directory\<close>

lemma told_wrap: "told d P m \<Longrightarrow> told d P (io_wrap g m)"
  by (rule triple_wrap)

lemma told_return: "P x \<Longrightarrow> told d P (io_return x)"
  by (simp add: triple_def)

lemma state_dir_resolved:
  assumes "go_is_abs path" and resolve: "\<And>p. told d (\<lambda>q. q = canon p) (resolve p)"
    and charge: "\<And>c p. charge = Some c \<Longrightarrow> keeps (\<lambda>s. dsk s = d) (c p)"
  shows "told d (\<lambda>q. q = state_dir canon path) (canonicalStateDirWithPathResolver sg path resolve charge)"
proof -
  have "path \<noteq> []" using assms(1) by (auto simp: go_is_abs_def)
  let ?clean = "go_clean path"
  have probe: "told d (\<lambda>q. q = state_dir canon path) (io_bind (io_wrap wrapFileSetAccessUnprovable (resolve (go_join ?clean state_probe)))
      (\<lambda>probe. io_return (go_dir probe)))"
    by (rule told_bind[OF told_wrap[OF resolve]]) (auto simp: triple_def state_dir_def)
  have found: "told d (\<lambda>q. q = state_dir canon path) (case found of
          Inr info \<Rightarrow>
            if \<not> mode_isDir (fi_mode info) \<or> mode_isSymlink (fi_mode info)
            then io_raise (wrapFileSetAccessUnprovable (RequestInvalid StateDirNotDirectory))
            else io_bind (io_wrap wrapFileSetAccessUnprovable (resolve (go_join ?clean state_probe))) (\<lambda>probe. io_return (go_dir probe))
        | Inl e \<Rightarrow> if e \<noteq> StorageFailure NotExist then io_raise (wrapFileSetAccessUnprovable e)
            else io_bind (io_wrap wrapFileSetAccessUnprovable (resolve (go_join ?clean state_probe))) (\<lambda>probe. io_return (go_dir probe)))"
    for found :: "fileSetError + FileInfo"
    using probe by (cases found) (auto simp: triple_def[of _ "io_raise _"])
  have charged: "keeps (\<lambda>s. dsk s = d) (case charge of None \<Rightarrow> io_return ()
     | Some c \<Rightarrow> io_wrap wrapFileSetAccessUnprovable (c ?clean))"
    using charge by (cases charge) (auto intro!: keeps_rules)
  have start: "io_wrap wrapFileSetAccessUnprovable (go_abs sg path) = io_return ?clean"
    using assms(1) by (auto simp: go_abs_def io_wrap_def)
  have looked: "keeps (\<lambda>s. dsk s = d) (io_try (on_store (sg_lstat sg ?clean)))" by (intro keeps_rules)
  show ?thesis
    unfolding canonicalStateDirWithPathResolver_def Let_def start return_bind if_not_P[OF \<open>path \<noteq> []\<close>]
    by (rule quiet_bind[OF charged], rule quiet_bind[OF looked], rule found) simp_all
qed

lemma told_state_dir:
  assumes "go_is_abs path"
  shows "told d (\<lambda>q. q = state_dir canon path) (canonicalStateDir sg path)"
    "told d (\<lambda>q. q = state_dir canon path) (canonicalStateDirBounded sg path n)"
  unfolding canonicalStateDir_def canonicalStateDirBounded_def
  by (rule state_dir_resolved[OF assms told_canonical], simp)
    (rule state_dir_resolved[OF assms told_bounded], auto intro: keeps_rules)

lemma state_dir_clean: "clean_absolute (state_dir canon path)"
proof -
  obtain cs where cs: "components cs" "canon (go_join (go_clean path) state_probe) = abs_path cs"
    using canon_law(2) clean_absolute_components by blast
  have "components (butlast cs)" by (rule components_butlast[OF cs(1)])
  then show ?thesis unfolding clean_absolute_components state_dir_def cs(2) go_dir_abs_path[OF cs(1)] by blast
qed

section \<open>The exported operations\<close>

lemma own_budget:
  assumes "triple (\<lambda>s. dsk s = d) m (\<lambda>x s. Q x (dsk s)) (\<lambda>e s. R e (dsk s))"
  shows "triple (\<lambda>s. dsk s = d) (with_own_budget m) (\<lambda>x s. Q x (dsk s)) (\<lambda>e s. R e (dsk s))"
proof (rule tripleI; clarsimp simp: with_own_budget_def split: prod.splits)
  fix w x w' b assume "d = disk_of w" "m (w, fresh_budget) = (Inr x, w', b)"
  then show "Q x (disk_of w')" using triple_Inr[OF assms, of "(w, fresh_budget)"] by simp
next
  fix w e w' b assume "d = disk_of w" "m (w, fresh_budget) = (Inl e, w', b)"
  then show "R e (disk_of w')" using triple_Inl[OF assms, of "(w, fresh_budget)"] by simp
qed

lemma recovery_settles:
  assumes "go_is_abs stateDir" and S: "S = state_dir canon stateDir"
    and "placed canon owned (transactionDir S) m" and "canon (markerPath S) = markerPath S"
    and "published mc version S m d" and "mixed mc d m"
    and "version = MetadataTransaction \<and> recover = RecoverFileSet sg mc stateDir allowed \<or>
      version = MetadataTransactionReference \<and> recover = RecoverFileSet4 sg mc stateDir allowed"
  shows "triple (\<lambda>s. dsk s = d) recover
    (\<lambda>_ s. settled_from mc S m d (dsk s)) (\<lambda>_ s. pending_or_settled mc version S m (dsk s))"
proof -
  have clean: "clean_absolute S" unfolding S by (rule state_dir_clean)
  have pending: "pending_or_settled mc version S m d" using assms(5,6) by (simp add: pending_or_settled_def)
  consider "version = MetadataTransaction" "recover = RecoverFileSet sg mc stateDir allowed"
    | "version = MetadataTransactionReference" "recover = RecoverFileSet4 sg mc stateDir allowed"
    using assms(7) by blast
  then show ?thesis
  proof cases
    case 1
    have "triple (\<lambda>s. dsk s = d) (recoverWithOperationsVersion sg mc Cancellable S allowed MetadataTransaction)
        (\<lambda>_ s. settled_from mc S m d (dsk s)) (\<lambda>_ s. pending_or_settled mc version S m (dsk s))"
      unfolding recoverWithOperationsVersion_def 1(1)
      by (rule quiet_bind[OF quiet_basic(3)])
        (use recover_version3_settles[OF assms(3) clean assms(4) _ assms(6)] assms(5) pending 1(1) in auto)
    then show ?thesis
      unfolding 1(2) RecoverFileSet_def
      by (intro told_bind[OF told_state_dir(1)[OF assms(1)]]) (use pending S in auto)
  next
    case 2
    have rec: "triple (\<lambda>s. dsk s = d) (recoverFileSet4WithBudget sg mc Cancellable S allowed n)
        (\<lambda>_ s. settled_from mc S m d (dsk s)) (\<lambda>_ s. pending_or_settled mc version S m (dsk s))" for n
      using recover4_settles[OF assms(3) clean _ assms(6)] assms(5) 2(1) by auto
    have "triple (\<lambda>s. dsk s = d) (with_own_budget (
         io_bind (canonicalStateDirBounded sg stateDir MaximumPhysicalPathDepth) (\<lambda>canonical.
         recoverFileSet4WithBudget sg mc Cancellable canonical allowed MaximumPhysicalPathDepth)))
        (\<lambda>_ s. settled_from mc S m d (dsk s)) (\<lambda>_ s. pending_or_settled mc version S m (dsk s))"
      by (rule own_budget, rule told_bind[OF told_state_dir(2)[OF assms(1)]]) (use rec pending S in auto)
    then show ?thesis
      unfolding 2(2) RecoverFileSet4_def recoverWithOperationsVersion_def
      by (intro quiet_bind[OF quiet_basic(3)]) (use pending in auto)
  qed
qed

end

end
