(* ===== verification/FileSetMarkers.thy ===== *)
theory FileSetMarkers
  imports FileSetRecoverProof
begin

text \<open>
  The marker a commit writes: the canonical targets of the caller's input, the before-states a disk gives them, and
  why the marker they make is one the loader accepts.
\<close>

section \<open>The canonical targets\<close>

definition canonical_of :: "(string \<Rightarrow> string) \<Rightarrow> FileTarget \<Rightarrow> FileTarget" where
  "canonical_of canon t = t\<lparr>ft_path := canon (ft_path t), ft_content := (if ft_write t then ft_content t else [])\<rparr>"

definition requested :: "(string \<Rightarrow> string) \<Rightarrow> FileTarget list \<Rightarrow> FileTarget list" where
  "requested canon ts = sort_key (\<lambda>t. (ft_commitPoint t, ft_path t)) (map (canonical_of canon) ts)"

definition well_targeted :: "FileTarget list \<Rightarrow> bool" where
  "well_targeted ts \<longleftrightarrow> ts \<noteq> [] \<and> int (length ts) \<le> maximumFileSetTargets \<and> distinct (map ft_path ts) \<and>
     (\<forall>t \<in> set ts. ft_commitPoint t \<longrightarrow> ft_write t) \<and> length (filter ft_commitPoint ts) \<le> 1 \<and>
     sorted (map (\<lambda>t. (ft_commitPoint t, ft_path t)) ts) \<and>
     (\<forall>t \<in> set ts. ft_write t \<longrightarrow> int (length (ft_content t)) \<le> maximumTargetBytes)"

context file_storage
begin

lemma told_targets_resolved:
  assumes "\<And>p. told d (\<lambda>q. q = canon p) (resolve p)"
  shows "told d (\<lambda>ts. ts = requested canon values \<and> well_targeted ts) (canonicalTargetsWithResolver resolve values)"
proof -
  let ?ok = "\<lambda>ts. distinct (map ft_path ts) \<and> (\<forall>t \<in> set ts. ft_commitPoint t \<longrightarrow> ft_write t) \<and>
    (\<forall>t \<in> set ts. ft_write t \<longrightarrow> int (length (ft_content t)) \<le> maximumTargetBytes)"
  let ?I = "\<lambda>done (taken, n) s. dsk s = d \<and> taken = map (canonical_of canon) done \<and>
    n = length (filter ft_commitPoint taken) \<and> ?ok taken"
  have round: "triple (?I done a) (canonical_target resolve a t) (?I (done @ [t])) (\<lambda>_ s. dsk s = d)" for "done" a t
  proof (cases a)
    case (Pair taken n)
    let ?t = "canonical_of canon t"
    let ?fits = "ft_write t \<longrightarrow> int (length (ft_content t)) \<le> maximumTargetBytes"
    have fits: "told d (\<lambda>_. ?fits) (on_result (if ft_write t then validateTargetContentLength (int (length (ft_content t))) else Inr ()))"
      by (auto simp: triple_def on_result_def validateTargetContentLength_def)
    have step: "told d (\<lambda>(taken', n'). taken' = taken @ [?t] \<and> n' = (if ft_commitPoint t then Suc n else n) \<and>
        ft_path ?t \<notin> ft_path ` set taken \<and> (ft_commitPoint t \<longrightarrow> ft_write t) \<and> ?fits)
      (canonical_target resolve (taken, n) t)"
      unfolding canonical_target_def prod.case
    proof (rule told_bind[OF fits], rule told_bind[OF assms])
      fix q assume "?fits" "q = canon (ft_path t)"
      then show "told d (\<lambda>(taken', n'). taken' = taken @ [?t] \<and> n' = (if ft_commitPoint t then Suc n else n) \<and>
          ft_path ?t \<notin> ft_path ` set taken \<and> (ft_commitPoint t \<longrightarrow> ft_write t) \<and> ?fits)
        (let t = t\<lparr>ft_path := q, ft_content := if ft_write t then ft_content t else []\<rparr>
         in if q \<in> ft_path ` set taken then io_raise (RequestInvalid (DuplicateTarget q))
            else if ft_commitPoint t \<and> \<not> ft_write t then io_raise (RequestInvalid RetainedCommitPoint)
            else io_return (taken @ [t], if ft_commitPoint t then Suc n else n))"
        by (simp add: triple_def canonical_of_def Let_def)
    qed simp_all
    have "triple (\<lambda>s. (taken = map (canonical_of canon) done \<and> n = length (filter ft_commitPoint taken) \<and> ?ok taken) \<and> dsk s = d)
        (canonical_target resolve (taken, n) t) (?I (done @ [t])) (\<lambda>_ s. dsk s = d)"
    proof (rule triple_pure)
      assume taken: "taken = map (canonical_of canon) done \<and> n = length (filter ft_commitPoint taken) \<and> ?ok taken"
      have new: "ft_write ?t = ft_write t" "ft_commitPoint ?t = ft_commitPoint t" "ft_write t \<Longrightarrow> ft_content ?t = ft_content t"
        by (simp_all add: canonical_of_def)
      show "triple (\<lambda>s. dsk s = d) (canonical_target resolve (taken, n) t) (?I (done @ [t])) (\<lambda>_ s. dsk s = d)"
      proof (rule triple_conseq[OF step])
        fix x s
        assume x: "dsk s = d \<and> (case x of (taken', n') \<Rightarrow> taken' = taken @ [?t] \<and> n' = (if ft_commitPoint t then Suc n else n) \<and>
          ft_path ?t \<notin> ft_path ` set taken \<and> (ft_commitPoint t \<longrightarrow> ft_write t) \<and> ?fits)"
        then have ds: "dsk s = d" and fx: "fst x = taken @ [?t]" and sx: "snd x = (if ft_commitPoint t then Suc n else n)"
          and fresh: "ft_path ?t \<notin> ft_path ` set taken" "ft_commitPoint t \<longrightarrow> ft_write t" ?fits by (auto split: prod.splits)
        from taken have tk: "taken = map (canonical_of canon) done" and n: "n = length (filter ft_commitPoint taken)"
          and ok: "?ok taken" by blast+
        have "fst x = map (canonical_of canon) (done @ [t])" unfolding fx tk by simp
        moreover have "?ok (fst x)" unfolding fx using ok fresh new by auto
        moreover have "snd x = length (filter ft_commitPoint (fst x))" unfolding fx sx n using new(2) by simp
        ultimately show "?I (done @ [t]) x s" using ds unfolding case_prod_beta by blast
      qed simp_all
    qed
    then show ?thesis unfolding Pair prod.case by (rule triple_pre) auto
  qed
  have loop: "triple (?I [] ([], 0)) (io_foldl (canonical_target resolve) ([], 0) values) (?I values) (\<lambda>_ s. dsk s = d)"
    by (rule triple_foldl_prefix[where I = ?I]) (rule round)
  have told_loop: "told d (\<lambda>(taken, n). taken = map (canonical_of canon) values \<and> n = length (filter ft_commitPoint taken) \<and> ?ok taken)
      (io_foldl (canonical_target resolve) ([], 0) values)"
    by (rule triple_conseq[OF loop]) auto
  have count: "told d (\<lambda>_. int (length values) \<le> maximumFileSetTargets) (on_result (admitFileSetTargetCount (int (length values))))"
    by (auto simp: triple_def on_result_def admitFileSetTargetCount_def refuse_if_def)
  have finish: "told d (\<lambda>ts. ts = requested canon values \<and> well_targeted ts)
      (if n > 1 then io_raise (RequestInvalid TooManyCommitPoints)
       else io_return (sort_key (\<lambda>t. (ft_commitPoint t, ft_path t)) taken))"
    if "values \<noteq> []" "int (length values) \<le> maximumFileSetTargets" "taken = map (canonical_of canon) values"
      "n = length (filter ft_commitPoint taken)" "?ok taken" for taken n
  proof -
    let ?ts = "requested canon values"
    have perm: "mset ?ts = mset taken" "?ts = sort_key (\<lambda>t. (ft_commitPoint t, ft_path t)) taken"
      by (simp_all add: requested_def that(3))
    have "distinct (map ft_path ?ts)" using that(5) perm(1) by (metis mset_eq_imp_distinct_iff mset_map)
    moreover have "length (filter ft_commitPoint ?ts) = n" using perm(1) that(4) by (metis mset_filter size_mset)
    moreover have "set ?ts = set taken" "length ?ts = length values" using perm(1) that(3) by (metis mset_eq_setD, metis length_map mset_eq_length)
    moreover have "?ts \<noteq> []" using calculation(4) that(1) by auto
    ultimately have "n \<le> 1 \<Longrightarrow> well_targeted ?ts"
      using that perm(2) by (auto simp: well_targeted_def)
    then show ?thesis using perm(2) by (auto simp: triple_def)
  qed
  show ?thesis
    unfolding canonicalTargetsWithResolver_def
  proof (rule triple_if, simp add: triple_def, rule told_bind[OF count], rule told_bind[OF told_loop])
    fix a assume v: "values \<noteq> []" "int (length values) \<le> maximumFileSetTargets"
      and a: "case a of (taken, n) \<Rightarrow> taken = map (canonical_of canon) values \<and> n = length (filter ft_commitPoint taken) \<and> ?ok taken"
    obtain taken n where x: "a = (taken, n)" by (cases a)
    show "told d (\<lambda>ts. ts = requested canon values \<and> well_targeted ts) (case a of (taken, commitPoints) \<Rightarrow>
        if commitPoints > 1 then io_raise (RequestInvalid TooManyCommitPoints)
        else io_return (sort_key (\<lambda>t. (ft_commitPoint t, ft_path t)) taken))"
      unfolding x prod.case by (rule finish[OF v]) (use a[unfolded x prod.case] in blast)+
  qed simp_all
qed

lemma told_targets:
  "told d (\<lambda>ts. ts = requested canon values \<and> well_targeted ts) (canonicalTargets sg values)"
  "told d (\<lambda>ts. ts = requested canon values \<and> well_targeted ts) (canonicalTargetsBounded sg values n)"
  unfolding canonicalTargets_def canonicalTargetsBounded_def
  by (rule told_targets_resolved[OF told_canonical])
    (rule triple_if, simp add: triple_def, rule told_targets_resolved[OF told_bounded])

end

section \<open>The marker of a commit\<close>

definition captured :: "marker_codec \<Rightarrow> string \<Rightarrow> disk \<Rightarrow> nat \<Rightarrow> string \<Rightarrow> fileState" where
  "captured mc E d i path = (case dk_view d path of
     RegularNode c m \<Rightarrow> \<lparr>fs_exists = True, fs_hash = hashBytes (mc_sha mc) c, fs_backupPath = go_join E (backup_name i), fs_mode = m\<rparr>
   | _ \<Rightarrow> no_file)"

definition row_of :: "marker_codec \<Rightarrow> string \<Rightarrow> disk \<Rightarrow> nat \<Rightarrow> FileTarget \<Rightarrow> targetMarker" where
  "row_of mc E d i t = \<lparr>tm_path = ft_path t, tm_before = captured mc E d i (ft_path t),
     tm_afterHash = (if ft_write t then hashBytes (mc_sha mc) (ft_content t) else []),
     tm_write = ft_write t, tm_commitPoint = ft_commitPoint t\<rparr>"

definition rows_of :: "marker_codec \<Rightarrow> string \<Rightarrow> disk \<Rightarrow> FileTarget list \<Rightarrow> targetMarker list" where
  "rows_of mc E d ts = map (\<lambda>i. row_of mc E d i (ts ! i)) [0..<length ts]"

definition marker_of ::
  "marker_codec \<Rightarrow> int \<Rightarrow> string \<Rightarrow> disk \<Rightarrow> FileTarget list \<Rightarrow> (referenceEvidenceMarker \<times> string) option \<Rightarrow> transactionMarker" where
  "marker_of mc version E d ts reference =
     \<lparr>mk_version = version, mk_targets = rows_of mc E d ts, mk_reference = map_option fst reference\<rparr>"

text \<open>Every target is a file that may be read and has some permission, or is missing.\<close>

definition capturable :: "disk \<Rightarrow> FileTarget list \<Rightarrow> bool" where
  "capturable d ts \<longleftrightarrow> (\<forall>t \<in> set ts. case dk_view d (ft_path t) of
     RegularNode c m \<Rightarrow> mode_perm m = m \<and> m \<noteq> 0 | Absent \<Rightarrow> True | OtherNode \<Rightarrow> False)"

lemma rows_length [simp]: "length (rows_of mc E d ts) = length ts"
  by (simp add: rows_of_def)

lemma rows_nth [simp]: "i < length ts \<Longrightarrow> rows_of mc E d ts ! i = row_of mc E d i (ts ! i)"
  by (simp add: rows_of_def)

lemma rows_snoc: "rows_of mc E d (ts @ [t]) = rows_of mc E d ts @ [row_of mc E d (length ts) t]"
  by (simp add: rows_of_def nth_append)

lemma rows_map: "(\<And>i t. f (row_of mc E d i t) = g t) \<Longrightarrow> map f (rows_of mc E d ts) = map g ts"
  by (rule nth_equalityI) simp_all

lemma row_sel [simp]:
  "tm_path (row_of mc E d i t) = ft_path t" "tm_write (row_of mc E d i t) = ft_write t"
  "tm_commitPoint (row_of mc E d i t) = ft_commitPoint t"
  by (simp_all add: row_of_def)

lemma rows_paths: "map tm_path (rows_of mc E d ts) = map ft_path ts"
  by (rule rows_map) simp

lemma rows_in: "r \<in> set (rows_of mc E d ts) \<longleftrightarrow> (\<exists>i < length ts. r = row_of mc E d i (ts ! i))"
  by (auto simp: rows_of_def)

lemma split_by_key:
  fixes p :: "'a \<Rightarrow> string"
  assumes "sorted (map (\<lambda>x. (c x, p x)) xs)" and "distinct (map p xs)"
  shows "xs = filter (\<lambda>x. \<not> c x) xs @ filter c xs \<and> sorted_wrt (<) (map p (filter (\<lambda>x. \<not> c x) xs))"
  using assms
proof (induction xs)
  case (Cons x xs)
  show ?case
  proof (cases "c x")
    case True
    with Cons.prems(1) have "\<forall>y \<in> set xs. c y" by (auto simp: less_eq_prod_def)
    then have "filter c xs = xs" "filter (\<lambda>x. \<not> c x) xs = []" by (auto simp: filter_empty_conv)
    with True show ?thesis by simp
  next
    case False
    have "p x < p y" if "y \<in> set xs" "\<not> c y" for y
      using Cons.prems that False by (fastforce simp: less_eq_prod_def)
    with Cons False show ?thesis by auto
  qed
qed simp

lemma hash_valid:
  assumes "\<And>c. length (mc_sha mc c) = 32"
  shows "isHash (hashBytes (mc_sha mc) c)"
proof -
  have hex: "length (hex_EncodeToString s) = 2 * length s" for s
    by (induction s) (simp_all add: hex_EncodeToString_def Let_def)
  have digit: "is_hex_char (hex_digit n)" if "n < 16" for n
  proof -
    have "n \<in> set [0..<16]" using that by simp
    then show ?thesis by (auto simp: upt_conv_Cons is_hex_char_def in_range_def hex_digit_def)
  qed
  have "of_char b div 16 < (16 :: nat)" "of_char b mod 16 < (16 :: nat)" for b
    using nat_of_char_less_256[of b] by (simp_all add: less_mult_imp_div_less)
  then have "list_all is_hex_char (hex_EncodeToString s)" for s
    by (auto simp: hex_EncodeToString_def Let_def list_all_iff intro!: digit)
  then show ?thesis using hex assms by (simp add: isHash_def hashBytes_def has_prefix_def)
qed

lemma marker_of_valid:
  assumes ts: "well_targeted ts" "\<forall>t \<in> set ts. clean_absolute (ft_path t)" "capturable d ts"
    and sha: "\<And>c. length (mc_sha mc c) = 32"
    and reference: "\<And>r. reference = Some r \<Longrightarrow> version = MetadataTransactionReference \<and> retained_reference mc ts version = Inr r"
  shows "marker_valid E version (marker_of mc version E d ts reference)"
proof -
  let ?rows = "rows_of mc E d ts"
  have keys: "map (\<lambda>r. (tm_commitPoint r, tm_path r)) ?rows = map (\<lambda>t. (ft_commitPoint t, ft_path t)) ts"
    by (rule rows_map) simp
  have points: "length (filter tm_commitPoint ?rows) = length (filter ft_commitPoint ts)"
  proof -
    have "filter (\<lambda>b. b) (map tm_commitPoint ?rows) = filter (\<lambda>b. b) (map ft_commitPoint ts)" by (simp add: rows_map)
    then have "length (filter (\<lambda>b. b) (map tm_commitPoint ?rows)) = length (filter (\<lambda>b. b) (map ft_commitPoint ts))" by simp
    then show ?thesis by (simp add: filter_map o_def)
  qed
  have "targets_ordered ?rows"
    using ts(1) split_by_key[of tm_commitPoint tm_path ?rows] keys points rows_paths[of mc E d ts]
    by (auto simp: targets_ordered_def well_targeted_def rows_in)
  moreover have "target_valid E i (?rows ! i)" if "i < length ts" for i
    using ts(2,3) that hash_valid[of mc, OF sha]
    by (auto simp: target_valid_def row_of_def before_valid_def captured_def capturable_def no_file_def
        dest!: nth_mem split: node.splits)
  moreover have "reference_valid ?rows (fst r)" if some: "reference = Some r" for r
  proof -
    obtain t where t: "filter ft_commitPoint ts = [t]" and r: "r = (\<lparr>re_target = ft_path t, re_afterImage = \<lparr>ra_path = referenceAfterImageName,
            ra_size = int (length (ft_content t)), ra_digest = hashBytes (mc_sha mc) (ft_content t)\<rparr>\<rparr>, ft_content t)"
      using reference[OF some] by (auto simp: retained_reference_def split: list.splits if_splits)
    have "t \<in> set (filter ft_commitPoint ts)" using t by simp
    then have t': "t \<in> set ts" "ft_commitPoint t" "ft_write t" using ts(1) by (auto simp: well_targeted_def)
    then obtain i where i: "i < length ts" "ts ! i = t" by (auto simp: in_set_conv_nth)
    have "row_of mc E d i t \<in> set ?rows" using i rows_in by blast
    moreover have "tm_afterHash (row_of mc E d i t) = hashBytes (mc_sha mc) (ft_content t)" using t'(3) by (simp add: row_of_def)
    ultimately show ?thesis
      using t' ts(1) by (auto simp: reference_valid_def r well_targeted_def intro!: bexI[of _ "row_of mc E d i t"])
  qed
  ultimately show ?thesis
    using ts(1) reference by (auto simp: marker_valid_def marker_of_def well_targeted_def rows_of_def split: option.split)
qed

lemma captured_before: "capturable d ts \<Longrightarrow> t \<in> set ts \<Longrightarrow> before_at mc d (row_of mc E d i t)"
  by (auto simp: before_at_def in_state_def row_of_def captured_def capturable_def holds_def fileMode_def no_file_def
      split: node.splits dest!: bspec)

lemma marker_all_before: "capturable d ts \<Longrightarrow> all_before mc d (marker_of mc version E d ts reference)"
  using captured_before nth_mem by (fastforce simp: all_before_def marker_of_def rows_in)

text \<open>A file without permissions is recorded with a mode of zero, which the validation of a marker refuses.\<close>

lemma unpermitted_target_refused:
  assumes "dk_view d path = RegularNode c 0"
  shows "validateBeforeState (captured mc E d i path) backup = Inl (MarkerInvalid MarkerBeforeInvalid)"
  using assms by (simp add: validateBeforeState_def captured_def)

end
