(* ===== verification/FileSetPublish.thy ===== *)
theory FileSetPublish
  imports FileSetMarkers
begin

text \<open>
  Preparing and publishing the evidence: once it is published every before-image and the marker are in place, and
  until then no path the transaction owns has changed.
\<close>

section \<open>The files of a staged tree\<close>

lemma backup_distinct: "i < 8 \<Longrightarrow> j < 8 \<Longrightarrow> backup_name i = backup_name j \<Longrightarrow> i = j"
proof -
  assume "i < 8" "j < 8" and e: "backup_name i = backup_name j"
  moreover have "distinct (map backup_name [0..<8])" by code_simp
  ultimately show "i = j" by (auto simp: distinct_map dest: inj_onD)
qed

lemma backup_other: "backup_name i \<noteq> transactionMarkerFile" "backup_name i \<noteq> referenceAfterImageName"
  by (simp_all add: backup_name_def transactionMarkerFile_def referenceAfterImageName_def)

definition names_ok :: "(string \<times> string \<times> FileMode) list \<Rightarrow> bool" where
  "names_ok files \<longleftrightarrow> (\<forall>f \<in> set files. component (fst f))"

definition images_in :: "marker_codec \<Rightarrow> (string \<times> string \<times> FileMode) list \<Rightarrow> targetMarker list \<Rightarrow> bool" where
  "images_in mc files rows \<longleftrightarrow> (\<forall>i < length rows. fs_exists (tm_before (rows ! i)) \<longrightarrow>
     (\<exists>c. map_of files (backup_name i) = Some (c, transactionEvidenceMode) \<and> hashBytes (mc_sha mc) c = fs_hash (tm_before (rows ! i))))"

lemma images_in_other:
  "images_in mc files rows \<Longrightarrow> n = transactionMarkerFile \<or> n = referenceAfterImageName \<Longrightarrow> images_in mc ((n, f) # files) rows"
  by (auto simp: images_in_def backup_other)

lemma images_in_row:
  assumes "images_in mc files rows" and "length rows < 8"
    and "fs_exists (tm_before r) \<Longrightarrow> files' = (backup_name (length rows), c, transactionEvidenceMode) # files \<and>
      hashBytes (mc_sha mc) c = fs_hash (tm_before r)" and "\<not> fs_exists (tm_before r) \<Longrightarrow> files' = files"
  shows "images_in mc files' (rows @ [r])"
  unfolding images_in_def
proof (intro allI impI)
  fix i assume i: "i < length (rows @ [r])" and ex: "fs_exists (tm_before ((rows @ [r]) ! i))"
  show "\<exists>c. map_of files' (backup_name i) = Some (c, transactionEvidenceMode) \<and>
      hashBytes (mc_sha mc) c = fs_hash (tm_before ((rows @ [r]) ! i))"
  proof (cases "i = length rows")
    case True
    then show ?thesis using ex assms(3) by auto
  next
    case False
    then have i': "i < length rows" using i by simp
    moreover have "backup_name i \<noteq> backup_name (length rows)"
      using backup_distinct[of i "length rows"] i' assms(2) by auto
    ultimately show ?thesis
      using assms(1,3,4) ex by (cases "fs_exists (tm_before r)") (auto simp: images_in_def nth_append)
  qed
qed

text \<open>A file of the tree is at its path once the tree is published.\<close>

lemma put_tree_file:
  assumes "components es" "es \<noteq> []" and "names_ok files" and "map_of files n = Some (c, m)"
  shows "put_tree (abs_path es) files v (go_join (abs_path es) n) = RegularNode c (mode_perm m)"
proof -
  have n: "component n" using assms(3) map_of_SomeD[OF assms(4)] by (auto simp: names_ok_def)
  have "map_of (map (\<lambda>(name, file). (go_join (abs_path es) name, file)) files) (go_join (abs_path es) n) = map_of files n"
    using assms(3)
  proof (induction files)
    case (Cons f files)
    then have f: "component (fst f)" by (simp add: names_ok_def)
    have "go_join (abs_path es) (fst f) = go_join (abs_path es) n \<longleftrightarrow> fst f = n"
      using abs_path_inject[of "es @ [fst f]" "es @ [n]"] assms(1) f n by (auto simp: join_component components_snoc)
    with Cons f show ?case by (auto simp: names_ok_def split: prod.splits)
  qed simp
  moreover have "go_join (abs_path es) n \<noteq> abs_path es"
    using abs_path_inject[of "es @ [n]" es] assms(1) n by (auto simp: join_component components_snoc)
  ultimately show ?thesis
    using assms(4) under_join[OF assms(1,2) n] by (simp add: put_tree_def join_component[OF assms(1) n])
qed

section \<open>Staging\<close>

context file_storage
begin

definition staged :: "nat \<Rightarrow> string \<Rightarrow> (string \<Rightarrow> node) \<Rightarrow> (string \<times> string \<times> FileMode) list \<Rightarrow> disk \<Rightarrow> bool" where
  "staged k E v files d \<longleftrightarrow> dk_view d = v \<and> dk_trees d k = Some (E, files)"

lemma staged_told:
  assumes "\<And>d. dk_view d = v \<Longrightarrow> told d P m"
  shows "triple (\<lambda>s. staged k E v files (dsk s)) m (\<lambda>x s. P x \<and> staged k E v files (dsk s)) (\<lambda>_ s. dk_view (dsk s) = v)"
  by (rule triple_at, rule triple_conseq[OF assms]) (auto simp: staged_def)

lemma staged_quiet:
  fixes m :: "('w, 'b) fileset"
  assumes "\<And>d. keeps (\<lambda>s. dsk s = d) m"
  shows "triple (\<lambda>s. staged k E v files (dsk s)) m (\<lambda>_ s. staged k E v files (dsk s)) (\<lambda>_ s. dk_view (dsk s) = v)"
  by (rule triple_post[OF staged_told[where P = "\<lambda>_. True", OF told_quiet[OF assms]]]) auto

lemma staged_write:
  "triple (\<lambda>s. staged k E v files (dsk s)) (on_store (sg_writeTree sg k name mode c))
    (\<lambda>_ s. staged k E v ((name, c, mode) # files) (dsk s)) (\<lambda>_ s. dk_view (dsk s) = v)"
  by (rule tripleI) (auto simp: staged_def on_store_def dsk_def split: prod.splits sum.splits dest!: write_law)

lemma captured_cong: "dk_view d = dk_view d' \<Longrightarrow> captured mc E d i p = captured mc E d' i p"
  by (simp add: captured_def)

lemma told_capture:
  assumes "p \<in> owned"
  shows "told d (\<lambda>x. fst x = captured mc E d i p \<and> (fs_exists (fst x) \<longrightarrow> hashBytes (mc_sha mc) (snd x) = fs_hash (fst x)) \<and>
      dk_view d p \<noteq> OtherNode \<and> (\<forall>c m. dk_view d p = RegularNode c m \<longrightarrow> mode_perm m = m))
    (captureFileState sg mc ctx p (go_join E (backup_name i)))"
  unfolding captureFileState_def
proof (rule triple_bind)
  show "triple (\<lambda>s. dsk s = d) (io_try (readTransactionFile sg ctx p))
    (\<lambda>r s. dsk s = d \<and> (case r of Inr x \<Rightarrow> dk_view d p = RegularNode (fst x) (mode_perm (snd x))
      | Inl e \<Rightarrow> e = StorageFailure NotExist \<longrightarrow> dk_view d p = Absent)) (\<lambda>_ s. dsk s = d)"
    by (rule triple_try) (rule triple_conseq[OF tells_read[OF assms]], auto)
qed (auto simp: triple_def captured_def no_file_def split: sum.splits)

lemma stage_step:
  assumes "ft_path t \<in> owned" and "length (rows_of mc E d done) < 8"
    and "\<forall>c m. dk_view d (ft_path t) = RegularNode c m \<longrightarrow> m \<noteq> 0"
    and "names_ok files" "images_in mc files (rows_of mc E d done)" "capturable d done"
  shows "triple (\<lambda>s. staged k E (dk_view d) files (dsk s)) (stage_target sg mc ctx E k (rows_of mc E d done, n) t)
    (\<lambda>a s. fst a = rows_of mc E d (done @ [t]) \<and> capturable d (done @ [t]) \<and> (\<exists>files'. staged k E (dk_view d) files' (dsk s) \<and> names_ok files' \<and>
      images_in mc files' (rows_of mc E d (done @ [t])))) (\<lambda>_ s. dk_view (dsk s) = dk_view d)"
proof -
  let ?i = "length (rows_of mc E d done)"
  let ?row = "row_of mc E d (length done) t"
  let ?Q = "\<lambda>a s. fst a = rows_of mc E d (done @ [t]) \<and> capturable d (done @ [t]) \<and> (\<exists>files'. staged k E (dk_view d) files' (dsk s) \<and>
    names_ok files' \<and> images_in mc files' (rows_of mc E d (done @ [t])))"
  let ?R = "\<lambda>_ s. dk_view (dsk s) = dk_view d"
  let ?P = "\<lambda>x. fst x = captured mc E d ?i (ft_path t) \<and> (fs_exists (fst x) \<longrightarrow> hashBytes (mc_sha mc) (snd x) = fs_hash (fst x)) \<and>
      capturable d [t]"
  let ?rows = "\<lambda>before. rows_of mc E d done @ [\<lparr>tm_path = ft_path t, tm_before = before,
           tm_afterHash = (if ft_write t then hashBytes (mc_sha mc) (ft_content t) else []),
           tm_write = ft_write t, tm_commitPoint = ft_commitPoint t\<rparr>]"
  have capture: "triple (\<lambda>s. staged k E (dk_view d) files (dsk s)) (captureFileState sg mc ctx (ft_path t) (go_join E (backup_name ?i)))
      (\<lambda>x s. ?P x \<and> staged k E (dk_view d) files (dsk s)) ?R"
  proof (rule staged_told)
    fix d' :: disk assume v: "dk_view d' = dk_view d"
    show "told d' ?P (captureFileState sg mc ctx (ft_path t) (go_join E (backup_name ?i)))"
      by (rule triple_conseq[OF told_capture[OF assms(1)]])
        (use assms(3) captured_cong[OF v] v in \<open>auto simp: capturable_def split: node.splits\<close>)
  qed
  have store: "triple (\<lambda>s. staged k E (dk_view d) files (dsk s))
     (if \<not> fs_exists before then io_return (?rows before, n)
      else io_bind (on_result (admitStagedEvidenceBytes n (int (length content)))) (\<lambda>_.
       io_bind (on_store (sg_writeTree sg k (backup_name ?i) transactionEvidenceMode content)) (\<lambda>_.
       io_return (?rows before, n + int (length content))))) ?Q ?R"
    if p: "?P (before, content)" for before content
  proof -
    have rows: "?rows before = rows_of mc E d (done @ [t])" using p by (simp add: rows_snoc row_of_def)
    have ext: "images_in mc files' (rows_of mc E d (done @ [t]))"
      if "fs_exists before \<Longrightarrow> files' = (backup_name ?i, content, transactionEvidenceMode) # files" "\<not> fs_exists before \<Longrightarrow> files' = files" for files'
      unfolding rows_snoc by (rule images_in_row[OF assms(5,2)]) (use p that in \<open>auto simp: row_of_def\<close>)
    have cap: "capturable d (done @ [t])" using p assms(6) by (simp add: capturable_def)
    show ?thesis
    proof (cases "fs_exists before")
      case True
      have "triple (\<lambda>s. staged k E (dk_view d) files (dsk s)) (io_bind (on_result (admitStagedEvidenceBytes n (int (length content)))) (\<lambda>_.
       io_bind (on_store (sg_writeTree sg k (backup_name ?i) transactionEvidenceMode content)) (\<lambda>_.
       io_return (?rows before, n + int (length content))))) ?Q ?R"
      proof (rule triple_bind[OF staged_quiet[OF quiet_basic(2)]], rule triple_bind[OF staged_write])
        have "names_ok ((backup_name ?i, content, transactionEvidenceMode) # files)"
          using assms(4) backup_component by (simp add: names_ok_def)
        then show "triple (\<lambda>s. staged k E (dk_view d) ((backup_name ?i, content, transactionEvidenceMode) # files) (dsk s))
          (io_return (?rows before, n + int (length content))) ?Q ?R"
          using True ext[of "(backup_name ?i, content, transactionEvidenceMode) # files"] rows cap by (auto simp: triple_def)
      qed
      with True show ?thesis by simp
    next
      case False
      then show ?thesis using ext[of files] rows cap assms(4) by (auto simp: triple_def)
    qed
  qed
  show ?thesis
    unfolding stage_target_def prod.case Let_def
  proof (rule triple_bind[OF staged_quiet[OF quiet_basic(3)]], rule triple_bind[OF capture], rule triple_pure)
    fix x :: "fileState \<times> string" assume p: "?P x"
    obtain before content where x: "x = (before, content)" by (cases x)
    show "triple (\<lambda>s. staged k E (dk_view d) files (dsk s)) (case x of (before, content) \<Rightarrow>
       if \<not> fs_exists before then io_return (?rows before, n)
       else io_bind (on_result (admitStagedEvidenceBytes n (int (length content)))) (\<lambda>_.
         io_bind (on_store (sg_writeTree sg k (backup_name ?i) transactionEvidenceMode content)) (\<lambda>_.
         io_return (?rows before, n + int (length content))))) ?Q ?R"
      unfolding x prod.case by (rule store) (use p x in simp)
  qed
qed

definition tree_ready ::
  "marker_codec \<Rightarrow> int \<Rightarrow> string \<Rightarrow> disk \<Rightarrow> FileTarget list \<Rightarrow> (referenceEvidenceMarker \<times> string) option \<Rightarrow>
     (string \<times> string \<times> FileMode) list \<Rightarrow> bool" where
  "tree_ready mc version E d ts reference files \<longleftrightarrow> names_ok files \<and> images_in mc files (rows_of mc E d ts) \<and>
     (\<exists>content. marshalMarker mc (marker_of mc version E d ts reference) = Inr content \<and>
       map_of files transactionMarkerFile = Some (content, transactionEvidenceMode))"

lemma stage_all:
  assumes "\<forall>t \<in> set ts. ft_path t \<in> owned \<and> (\<forall>c m. dk_view d (ft_path t) = RegularNode c m \<longrightarrow> m \<noteq> 0)" and "length ts \<le> 8"
  shows "triple (\<lambda>s. staged k E (dk_view d) [] (dsk s)) (io_foldl (stage_target sg mc ctx E k) ([], n) ts)
    (\<lambda>a s. fst a = rows_of mc E d ts \<and> capturable d ts \<and> (\<exists>files. staged k E (dk_view d) files (dsk s) \<and> names_ok files \<and>
      images_in mc files (rows_of mc E d ts))) (\<lambda>_ s. dk_view (dsk s) = dk_view d)"
proof -
  let ?I = "\<lambda>done a s. fst a = rows_of mc E d done \<and> capturable d done \<and> (\<exists>files. staged k E (dk_view d) files (dsk s) \<and>
    names_ok files \<and> images_in mc files (rows_of mc E d done))"
  have "triple (?I [] ([], n)) (io_foldl (stage_target sg mc ctx E k) ([], n) ts) (?I ts) (\<lambda>_ s. dk_view (dsk s) = dk_view d)"
  proof (rule triple_foldl_prefix[where I = ?I])
    fix "done" a t rest assume ts: "ts = done @ t # rest"
    have t: "ft_path t \<in> owned" "\<forall>c m. dk_view d (ft_path t) = RegularNode c m \<longrightarrow> m \<noteq> 0" "length (rows_of mc E d done) < 8"
      using assms by (auto simp: ts)
    have "triple (\<lambda>s. (fst a = rows_of mc E d done \<and> capturable d done) \<and> (\<exists>files. (names_ok files \<and> images_in mc files (rows_of mc E d done)) \<and>
        staged k E (dk_view d) files (dsk s))) (stage_target sg mc ctx E k a t) (?I (done @ [t])) (\<lambda>_ s. dk_view (dsk s) = dk_view d)"
    proof (rule triple_pure, rule triple_ex, rule triple_pure)
      fix files assume a: "fst a = rows_of mc E d done \<and> capturable d done" and f: "names_ok files \<and> images_in mc files (rows_of mc E d done)"
      have a': "a = (rows_of mc E d done, snd a)" using a by (cases a) simp
      from stage_step[OF t(1,3,2) conjunct1[OF f] conjunct2[OF f] conjunct2[OF a], where n = "snd a"]
      show "triple (\<lambda>s. staged k E (dk_view d) files (dsk s)) (stage_target sg mc ctx E k a t) (?I (done @ [t])) (\<lambda>_ s. dk_view (dsk s) = dk_view d)"
        using a' by simp
    qed
    then show "triple (?I done a) (stage_target sg mc ctx E k a t) (?I (done @ [t])) (\<lambda>_ s. dk_view (dsk s) = dk_view d)"
      by (rule triple_pre) auto
  qed
  then show ?thesis
    by (rule triple_pre) (auto simp: rows_of_def capturable_def names_ok_def images_in_def)
qed

lemma populate_ready:
  assumes "\<forall>t \<in> set ts. ft_path t \<in> owned \<and> (\<forall>c m. dk_view d (ft_path t) = RegularNode c m \<longrightarrow> m \<noteq> 0)" and "length ts \<le> 8"
    and "\<And>r. reference = Some r \<Longrightarrow> ra_path (re_afterImage (fst r)) = referenceAfterImageName"
  shows "triple (\<lambda>s. staged k E (dk_view d) [] (dsk s)) (populate_evidence sg mc ctx E k ts version reference)
    (\<lambda>m s. m = marker_of mc version E d ts reference \<and> capturable d ts \<and>
      (\<exists>files. staged k E (dk_view d) files (dsk s) \<and> tree_ready mc version E d ts reference files)) (\<lambda>_ s. dk_view (dsk s) = dk_view d)"
  unfolding populate_evidence_def
proof (rule triple_bind)
  let ?R = "\<lambda>_ s. dk_view (dsk s) = dk_view d"
  let ?M = "marker_of mc version E d ts reference"
  let ?J = "\<lambda>files. names_ok files \<and> images_in mc files (rows_of mc E d ts)"
  let ?Q = "\<lambda>m s. m = ?M \<and> capturable d ts \<and> (\<exists>files. staged k E (dk_view d) files (dsk s) \<and> tree_ready mc version E d ts reference files)"
  show "triple (\<lambda>s. staged k E (dk_view d) [] (dsk s)) (case reference of None \<Rightarrow> io_return 0
       | Some (r, _) \<Rightarrow> io_bind (on_result (admitStagedEvidenceBytes 0 (ra_size (re_afterImage r)))) (\<lambda>_.
           io_return (ra_size (re_afterImage r)))) (\<lambda>_ s. staged k E (dk_view d) [] (dsk s)) ?R"
    by (rule staged_quiet) (auto split: option.split prod.split intro!: keeps_rules)
  fix n
  let ?finish = "\<lambda>marker. io_bind (case reference of None \<Rightarrow> io_return ()
       | Some (r, content) \<Rightarrow> on_store (sg_writeTree sg k (ra_path (re_afterImage r)) transactionEvidenceMode content)) (\<lambda>_.
     io_bind (ctx_err sg ctx) (\<lambda>_.
     io_bind (on_result (marshalMarker mc marker)) (\<lambda>markerContent.
     io_bind (on_store (sg_writeTree sg k transactionMarkerFile transactionEvidenceMode markerContent)) (\<lambda>_.
     io_return marker))))"
  have sealed: "triple (\<lambda>s. staged k E (dk_view d) files (dsk s)) (io_bind (ctx_err sg ctx) (\<lambda>_.
     io_bind (on_result (marshalMarker mc ?M)) (\<lambda>markerContent.
     io_bind (on_store (sg_writeTree sg k transactionMarkerFile transactionEvidenceMode markerContent)) (\<lambda>_. io_return ?M)))) ?Q ?R"
    if "?J files" "capturable d ts" for files
  proof (rule triple_bind[OF staged_quiet[OF quiet_basic(3)]], rule triple_bind[OF staged_told[OF told_result]], rule triple_pure,
      rule triple_bind[OF staged_write])
    fix content assume "marshalMarker mc ?M = Inr content"
    then have "tree_ready mc version E d ts reference ((transactionMarkerFile, content, transactionEvidenceMode) # files)"
      using that(1) images_in_other[of mc files] names_are_components(2) by (simp add: tree_ready_def names_ok_def)
    then show "triple (\<lambda>s. staged k E (dk_view d) ((transactionMarkerFile, content, transactionEvidenceMode) # files) (dsk s)) (io_return ?M) ?Q ?R"
      using that(2) by (auto simp: triple_def)
  qed
  have finish: "triple (\<lambda>s. staged k E (dk_view d) files (dsk s)) (?finish ?M) ?Q ?R"
    if f: "?J files" "capturable d ts" for files
  proof (cases reference)
    case None
    then show ?thesis using sealed[OF that] by (simp add: return_bind)
  next
    case (Some rc)
    obtain r c where rc: "rc = (r, c)" by (cases rc)
    have name: "ra_path (re_afterImage r) = referenceAfterImageName" using assms(3)[OF Some] rc by simp
    have "?J ((referenceAfterImageName, c, transactionEvidenceMode) # files)"
      using f(1) images_in_other[of mc files] names_are_components(3) by (simp add: names_ok_def)
    from triple_bind[OF staged_write sealed[OF this f(2)]] show ?thesis
      unfolding Some rc option.case prod.case name .
  qed
  have rest: "triple (\<lambda>s. (fst a = rows_of mc E d ts \<and> capturable d ts) \<and> (\<exists>files. ?J files \<and> staged k E (dk_view d) files (dsk s)))
      (case a of (rows, _) \<Rightarrow> ?finish \<lparr>mk_version = version, mk_targets = rows, mk_reference = map_option fst reference\<rparr>) ?Q ?R"
    for a :: "targetMarker list \<times> int"
  proof (rule triple_pure, rule triple_ex, rule triple_pure)
    fix files assume a: "fst a = rows_of mc E d ts \<and> capturable d ts" and f: "?J files"
    have "(case a of (rows, _) \<Rightarrow> ?finish \<lparr>mk_version = version, mk_targets = rows, mk_reference = map_option fst reference\<rparr>) = ?finish ?M"
      using a by (simp add: case_prod_beta marker_of_def)
    then show "triple (\<lambda>s. staged k E (dk_view d) files (dsk s)) (case a of (rows, _) \<Rightarrow>
        ?finish \<lparr>mk_version = version, mk_targets = rows, mk_reference = map_option fst reference\<rparr>) ?Q ?R"
      using finish[OF f conjunct2[OF a]] by simp
  qed
  show "triple (\<lambda>s. staged k E (dk_view d) [] (dsk s)) (io_bind (io_foldl (stage_target sg mc ctx E k) ([], n) ts)
      (\<lambda>(rows, _). let marker = \<lparr>mk_version = version, mk_targets = rows, mk_reference = map_option fst reference\<rparr> in ?finish marker)) ?Q ?R"
    unfolding Let_def by (rule triple_bind[OF stage_all[OF assms(1,2)]], rule triple_pre[OF rest]) auto
qed

section \<open>Publishing\<close>

lemma prepared_tree:
  assumes "\<And>k. triple (\<lambda>s. staged k E v [] (dsk s)) (populate k) (\<lambda>x s. P k x (dsk s)) (\<lambda>_ s. dk_view (dsk s) = v)"
    and "\<And>k x d. P k x d \<Longrightarrow> dk_view d = v"
  shows "triple (\<lambda>s. dk_view (dsk s) = v) (prepare_tree sg ctx E populate)
    (\<lambda>x s. P (fst x) (snd x) (dsk s)) (\<lambda>_ s. dk_view (dsk s) = v)"
  unfolding prepare_tree_def
proof (rule triple_bind)
  show "triple (\<lambda>s. dk_view (dsk s) = v) (on_store (sg_stageTree sg ctx E)) (\<lambda>k s. staged k E v [] (dsk s)) (\<lambda>_ s. dk_view (dsk s) = v)"
    by (rule tripleI) (auto simp: staged_def on_store_def dsk_def split: prod.splits sum.splits dest!: stage_law)
  fix k
  show "triple (\<lambda>s. staged k E v [] (dsk s)) (io_bind (io_try (io_bind (populate k) (\<lambda>x. io_bind (on_store (sg_sealTree sg ctx k)) (\<lambda>_. io_return x))))
      (\<lambda>r. case r of Inl e \<Rightarrow> io_bind (io_try (on_store (sg_discardTree sg k))) (\<lambda>d :: fileSetError + unit. io_raise e)
        | Inr x \<Rightarrow> io_return (k, x))) (\<lambda>x s. P (fst x) (snd x) (dsk s)) (\<lambda>_ s. dk_view (dsk s) = v)"
  proof (rule triple_bind, rule triple_try)
    show "triple (\<lambda>s. staged k E v [] (dsk s)) (io_bind (populate k) (\<lambda>x. io_bind (on_store (sg_sealTree sg ctx k)) (\<lambda>_. io_return x)))
      (\<lambda>x s. case Inr x of Inr x \<Rightarrow> P k x (dsk s) | Inl e \<Rightarrow> dk_view (dsk s) = v)
      (\<lambda>e s. case Inl e of Inr x \<Rightarrow> P k x (dsk s) | Inl e \<Rightarrow> dk_view (dsk s) = v)"
    proof (rule triple_bind)
      show "triple (\<lambda>s. staged k E v [] (dsk s)) (populate k) (\<lambda>x s. P k x (dsk s))
        (\<lambda>e s. case Inl e of Inr x \<Rightarrow> P k x (dsk s) | Inl e \<Rightarrow> dk_view (dsk s) = v)"
        by (rule triple_post[OF assms(1)]) simp_all
      fix x
      show "triple (\<lambda>s. P k x (dsk s)) (io_bind (on_store (sg_sealTree sg ctx k)) (\<lambda>_. io_return x))
        (\<lambda>x s. case Inr x of Inr x \<Rightarrow> P k x (dsk s) | Inl e \<Rightarrow> dk_view (dsk s) = v)
        (\<lambda>e s. case Inl e of Inr x \<Rightarrow> P k x (dsk s) | Inl e \<Rightarrow> dk_view (dsk s) = v)"
        by (rule triple_at, rule quiet_bind[OF quiet_calls(10)]) (auto simp: triple_def dest: assms(2))
    qed
    have discard: "triple (\<lambda>s. dk_view (dsk s) = v) (io_bind (io_try (on_store (sg_discardTree sg k))) (\<lambda>d :: fileSetError + unit. io_raise e))
        (\<lambda>x s. P (fst x) (snd x) (dsk s)) (\<lambda>_ s. dk_view (dsk s) = v)" for e
      using discard_law by (auto simp: triple_def io_bind_def io_try_def on_store_def split: prod.splits sum.splits) (metis snd_conv)+
    show "triple (\<lambda>s. case r of Inr x \<Rightarrow> P k x (dsk s) | Inl e \<Rightarrow> dk_view (dsk s) = v)
      (case r of Inl e \<Rightarrow> io_bind (io_try (on_store (sg_discardTree sg k))) (\<lambda>d :: fileSetError + unit. io_raise e)
        | Inr x \<Rightarrow> io_return (k, x)) (\<lambda>x s. P (fst x) (snd x) (dsk s)) (\<lambda>_ s. dk_view (dsk s) = v)" for r
      using discard by (cases r) (auto simp: triple_def[of _ "io_return _"])
  qed
qed

lemma publish_tree:
  assumes "{q. under E q} \<subseteq> owned"
  shows "triple (\<lambda>s. staged k E v files (dsk s)) (on_store (sg_commitTree sg ctx k))
    (\<lambda>_ s. dk_view (dsk s) = put_tree E files v) (\<lambda>_ s. dk_view (dsk s) = put_tree E files v \<or> dk_view (dsk s) = v)"
  by (rule tripleI) (auto simp: staged_def on_store_def dsk_def split: prod.splits sum.splits dest!: publish_law[OF _ assms])

text \<open>The disk once the evidence is published: the marker's targets are as they were.\<close>

definition evidence_out :: "marker_codec \<Rightarrow> int \<Rightarrow> string \<Rightarrow> transactionMarker \<Rightarrow> disk \<Rightarrow> disk \<Rightarrow> bool" where
  "evidence_out mc version S m d d' \<longleftrightarrow> published mc version S m d' \<and> (\<forall>p. \<not> under (transactionDir S) p \<longrightarrow> dk_view d' p = dk_view d p)"

lemma tree_published:
  assumes "clean_absolute S" and "tree_ready mc version (transactionDir S) d ts reference files"
    and valid: "marker_valid (transactionDir S) version (marker_of mc version (transactionDir S) d ts reference)"
    and "version = MetadataTransaction \<or> version = MetadataTransactionReference"
    and "prints mc (marker_json (marker_of mc version (transactionDir S) d ts reference))"
    and view: "dk_view d' = put_tree (transactionDir S) files (dk_view d)"
  shows "evidence_out mc version S (marker_of mc version (transactionDir S) d ts reference) d d'"
proof -
  let ?E = "transactionDir S" and ?M = "marker_of mc version (transactionDir S) d ts reference"
  obtain es where es: "components es" "es \<noteq> []" "?E = abs_path es"
  proof -
    obtain cs where cs: "components cs" "S = abs_path cs" using assms(1) clean_absolute_components by blast
    show ?thesis
      by (rule that[of "cs @ [transactionDirName]"])
        (use cs names_are_components(1) join_component[OF cs(1)] in \<open>simp_all add: components_snoc transactionDir_def\<close>)
  qed
  obtain content where c: "marshalMarker mc ?M = Inr content" "map_of files transactionMarkerFile = Some (content, transactionEvidenceMode)"
      and f: "names_ok files" "images_in mc files (rows_of mc ?E d ts)"
    using assms(2) by (auto simp: tree_ready_def)
  have perm: "mode_perm transactionEvidenceMode = transactionEvidenceMode" by (simp add: transactionEvidenceMode_def mode_perm_def)
  have at: "dk_view d' (go_join ?E n) = RegularNode x transactionEvidenceMode" if "map_of files n = Some (x, transactionEvidenceMode)" for n x
    using put_tree_file[OF es(1,2) f(1) that] perm by (simp add: view es(3))
  have "marker_at mc version d' (markerPath S) ?M"
    using at[OF c(2)] parse_marker[OF c(1) assms(5) valid assms(4)] by (simp add: marker_at_def markerPath_def)
  moreover have "images_kept mc d' ?M"
  proof -
    have "holds mc d' (fs_backupPath (tm_before r)) (fs_hash (tm_before r)) transactionEvidenceMode"
      if r: "r \<in> set (rows_of mc ?E d ts)" "fs_exists (tm_before r)" for r
    proof -
      obtain i where i: "i < length ts" "r = row_of mc ?E d i (ts ! i)" using r(1) by (auto simp: rows_in)
      have "fs_backupPath (tm_before r) = go_join ?E (backup_name i)"
        using r(2) by (auto simp: i(2) row_of_def captured_def no_file_def split: node.splits)
      moreover obtain x where "map_of files (backup_name i) = Some (x, transactionEvidenceMode)"
          "hashBytes (mc_sha mc) x = fs_hash (tm_before r)"
        using f(2) r(2) i by (auto simp: images_in_def)
      ultimately show ?thesis using at perm by (simp add: holds_def)
    qed
    then show ?thesis by (simp add: images_kept_def marker_of_def)
  qed
  moreover have "dk_view d' ?E = OtherNode" "\<And>p. \<not> under ?E p \<Longrightarrow> dk_view d' p = dk_view d p"
    by (simp_all add: view put_tree_def under_def)
  ultimately show ?thesis by (simp add: evidence_out_def published_def)
qed

end

end
