(* ===== verification/FileSetPrepareProof.thy ===== *)
theory FileSetPrepareProof
  imports FileSetPublish
begin

text \<open>
  Preparing a commit: the views a commit passes through, what is asked of its place, and the first half of its proof:
  either nothing has changed, or the evidence is out with every target as it was.
\<close>

section \<open>The views of a commit\<close>

definition published_mode :: "node \<Rightarrow> FileMode" where
  "published_mode n = (case n of RegularNode c m \<Rightarrow> m | _ \<Rightarrow> 0x180)"

text \<open>The view with the after-images of some targets in place.\<close>

definition overwrite :: "disk \<Rightarrow> FileTarget list \<Rightarrow> string \<Rightarrow> node" where
  "overwrite d ts p = (case find (\<lambda>t. ft_write t \<and> ft_path t = p) ts of
     Some t \<Rightarrow> RegularNode (ft_content t) (published_mode (dk_view d p)) | None \<Rightarrow> dk_view d p)"

lemma find_append: "find P (xs @ ys) = (case find P xs of None \<Rightarrow> find P ys | Some x \<Rightarrow> Some x)"
  by (induction xs) auto

lemma overwrite_Nil [simp]: "overwrite d [] = dk_view d"
  by (rule ext) (simp add: overwrite_def)

lemma overwrite_other: "p \<notin> ft_path ` set ts \<Longrightarrow> overwrite d ts p = dk_view d p"
  by (auto simp: overwrite_def split: option.split dest!: find_Some_iff[THEN iffD1])

lemma overwrite_snoc:
  assumes "ft_path t \<notin> ft_path ` set ts"
  shows "overwrite d (ts @ [t]) = (if ft_write t
    then (overwrite d ts)(ft_path t := RegularNode (ft_content t) (published_mode (dk_view d (ft_path t)))) else overwrite d ts)"
proof -
  have "find (\<lambda>x. ft_write x \<and> ft_path x = ft_path t) ts = None" unfolding find_None_iff using assms by (metis image_eqI)
  then show ?thesis by (auto simp: overwrite_def find_append intro!: ext split: option.split)
qed

lemma overwrite_target:
  assumes "distinct (map ft_path ts)" and "t \<in> set ts"
  shows "overwrite d ts (ft_path t) = (if ft_write t
    then RegularNode (ft_content t) (published_mode (dk_view d (ft_path t))) else dk_view d (ft_path t))"
  using assms
proof (induction ts rule: rev_induct)
  case (snoc x ts)
  show ?case
  proof (cases "t = x")
    case True
    have "overwrite d ts (ft_path x) = dk_view d (ft_path x)" by (rule overwrite_other) (use snoc.prems(1) in simp)
    then show ?thesis using True snoc.prems(1) by (simp add: overwrite_snoc)
  next
    case False
    then have "t \<in> set ts" "ft_path t \<noteq> ft_path x" using snoc.prems by (auto, metis image_eqI)
    then show ?thesis using snoc by (auto simp: overwrite_snoc)
  qed
qed simp

text \<open>In a view with the first targets overwritten, these are in their after-state and the others in their
  before-state.\<close>

lemma captured_exists: "fs_exists (captured mc E d i p) \<longleftrightarrow> is_regular (dk_view d p)"
  by (simp add: captured_def is_regular_def no_file_def split: node.split)

lemma captured_mode:
  "(\<And>c m. dk_view d p = RegularNode c m \<Longrightarrow> m \<noteq> 0) \<Longrightarrow> fileMode (captured mc E d i p) = published_mode (dk_view d p)"
  by (simp add: captured_def fileMode_def published_mode_def no_file_def split: node.split)

lemma row_before_cong:
  "dk_view d' (ft_path t) = dk_view d (ft_path t) \<Longrightarrow> before_at mc d' (row_of mc E d i t) = before_at mc d (row_of mc E d i t)"
  by (simp add: before_at_def in_state_def holds_def)

lemma row_mode: "capturable d ts \<Longrightarrow> t \<in> set ts \<Longrightarrow>
    fileMode (tm_before (row_of mc E d i t)) = published_mode (dk_view d (ft_path t)) \<and>
    mode_perm (published_mode (dk_view d (ft_path t))) = published_mode (dk_view d (ft_path t))"
  using captured_mode[of d "ft_path t" mc E i]
  by (auto simp: row_of_def capturable_def published_mode_def mode_perm_def split: node.splits dest!: bspec)

lemma row_after:
  assumes "capturable d ts" and "t \<in> set ts"
    and "dk_view d' (ft_path t) = (if ft_write t
      then RegularNode (ft_content t) (published_mode (dk_view d (ft_path t))) else dk_view d (ft_path t))"
  shows "after_at mc d' (row_of mc E d i t)"
proof (cases "ft_write t")
  case True
  then show ?thesis using assms(3) row_mode[OF assms(1,2), of mc E i] by (simp add: after_at_def holds_def) (simp add: row_of_def)
next
  case False
  then show ?thesis using assms(3) row_before_cong[of d' t d mc E i] captured_before[OF assms(1,2), of mc E i]
    by (simp add: after_at_def)
qed

lemma overwritten_states:
  assumes "capturable d ts" and "distinct (map ft_path ts)" and "ts = done @ rest"
    and "\<And>t. t \<in> set ts \<Longrightarrow> dk_view d' (ft_path t) = overwrite d done (ft_path t)"
  shows "mixed mc d' (marker_of mc version E d ts reference)"
    "rest = [] \<Longrightarrow> all_after mc d' (marker_of mc version E d ts reference)"
    "done = [] \<Longrightarrow> all_before mc d' (marker_of mc version E d ts reference)"
proof -
  have after: "after_at mc d' (row_of mc E d i t)" if "t \<in> set done" for i t
    using row_after[OF assms(1)] assms(2,3,4) overwrite_target[of "done" t d] that by auto
  have before: "before_at mc d' (row_of mc E d i t)" if "t \<in> set rest" for i t
  proof -
    have "t \<in> set ts" "ft_path t \<notin> ft_path ` set done" using assms(2,3) that by auto
    then show ?thesis
      using assms(4) row_before_cong[of d' t d mc E i] captured_before[OF assms(1), of t mc E i] overwrite_other by simp
  qed
  show "mixed mc d' (marker_of mc version E d ts reference)"
    using after before assms(3) by (force simp: mixed_def marker_of_def rows_in nth_append)
  show "rest = [] \<Longrightarrow> all_after mc d' (marker_of mc version E d ts reference)"
    using after assms(3) by (force simp: all_after_def marker_of_def rows_in)
  show "done = [] \<Longrightarrow> all_before mc d' (marker_of mc version E d ts reference)"
    using before assms(3) by (force simp: all_before_def marker_of_def rows_in)
qed

section \<open>The place of a commit\<close>

definition commit_place :: "(string \<Rightarrow> string) \<Rightarrow> string set \<Rightarrow> string \<Rightarrow> FileTarget list \<Rightarrow> disk \<Rightarrow> bool" where
  "commit_place canon owned S ts d \<longleftrightarrow> state_dir canon S = S \<and> canon (markerPath S) = markerPath S \<and>
     {p. under (transactionDir S) p} \<subseteq> owned \<and>
     (\<forall>t \<in> set ts. ft_path t \<in> owned \<and> \<not> under (transactionDir S) (ft_path t) \<and>
       (\<forall>c m. dk_view d (ft_path t) = RegularNode c m \<longrightarrow> m \<noteq> 0))"

definition kept_reference ::
  "marker_codec \<Rightarrow> FileTarget list \<Rightarrow> int \<Rightarrow> bool \<Rightarrow> (referenceEvidenceMarker \<times> string) option" where
  "kept_reference mc ts version retain =
     (if retain then (case retained_reference mc ts version of Inr r \<Rightarrow> Some r | Inl _ \<Rightarrow> None) else None)"

definition commit_marker ::
  "marker_codec \<Rightarrow> int \<Rightarrow> bool \<Rightarrow> string \<Rightarrow> FileTarget list \<Rightarrow> disk \<Rightarrow> transactionMarker" where
  "commit_marker mc version retain S ts d = marker_of mc version (transactionDir S) d ts (kept_reference mc ts version retain)"

lemma commit_marker_placed:
  assumes "commit_place canon owned S ts d" and "clean_absolute S" and "distinct (map ft_path ts)"
    and "\<forall>t \<in> set ts. canon (ft_path t) = ft_path t"
  shows "placed canon owned (transactionDir S) (commit_marker mc version retain S ts d)"
proof -
  have paths: "distinct (map tm_path (rows_of mc (transactionDir S) d ts))"
    unfolding rows_paths by (rule assms(3))
  have "under (transactionDir S) (fs_backupPath (tm_before (row_of mc (transactionDir S) d i t)))"
    if "fs_exists (tm_before (row_of mc (transactionDir S) d i t))" for i t
    using that evidence_paths(3)[OF assms(2) backup_component]
    by (auto simp: row_of_def captured_def no_file_def split: node.splits)
  then show ?thesis
    using assms paths by (auto simp: placed_def commit_marker_def marker_of_def commit_place_def rows_in dest!: nth_mem)
qed

section \<open>Preparing\<close>

context file_storage
begin

lemma kept_reference_told:
  "told d (\<lambda>r. r = kept_reference mc ts version retain \<and> (\<forall>x. r = Some x \<longrightarrow>
      version = MetadataTransactionReference \<and> retained_reference mc ts version = Inr x \<and>
      ra_path (re_afterImage (fst x)) = referenceAfterImageName))
    (if retain then on_result (map_sum id Some (retained_reference mc ts version)) else io_return None)"
proof -
  have "version = MetadataTransactionReference \<and> ra_path (re_afterImage (fst x)) = referenceAfterImageName"
    if "retained_reference mc ts version = Inr x" for x
    using that by (auto simp: retained_reference_def split: list.splits if_splits)
  then show ?thesis
    by (auto simp: triple_def on_result_def kept_reference_def split: sum.splits)
qed

lemma quiet_preflight_sizes [keeps_rules]: "keeps (\<lambda>s. dsk s = d) (preflightStagedEvidenceSizes sg ctx ts n)"
  unfolding preflightStagedEvidenceSizes_def Let_def by (intro keeps_rules)

lemma published_evidence:
  assumes place: "commit_place canon owned S ts d" and S: "clean_absolute S"
    and ts: "well_targeted ts" "\<forall>t \<in> set ts. clean_absolute (ft_path t)"
    and sha: "\<And>c. length (mc_sha mc c) = 32"
    and version: "version = MetadataTransaction \<or> version = MetadataTransactionReference"
    and reference: "\<And>x. reference = Some x \<Longrightarrow> version = MetadataTransactionReference \<and>
      retained_reference mc ts version = Inr x \<and> ra_path (re_afterImage (fst x)) = referenceAfterImageName"
    and prints: "prints mc (marker_json (marker_of mc version (transactionDir S) d ts reference))"
  defines "M \<equiv> marker_of mc version (transactionDir S) d ts reference"
  shows "triple (\<lambda>s. dsk s = d) (io_bind (prepare_tree sg ctx (transactionDir S)
      (\<lambda>tree. populate_evidence sg mc ctx (transactionDir S) tree ts version reference)) (\<lambda>(tree, marker).
      io_bind (on_store (sg_commitTree sg ctx tree)) (\<lambda>_. io_return marker)))
    (\<lambda>m s. m = M \<and> capturable d ts \<and> evidence_out mc version S M d (dsk s))
    (\<lambda>_ s. dk_view (dsk s) = dk_view d \<or> capturable d ts \<and> evidence_out mc version S M d (dsk s))"
proof -
  let ?E = "transactionDir S"
  let ?P = "\<lambda>k m d'. m = M \<and> capturable d ts \<and>
      (\<exists>files. staged k ?E (dk_view d) files d' \<and> tree_ready mc version ?E d ts reference files)"
  let ?R = "\<lambda>_ s. dk_view (dsk s) = dk_view d \<or> capturable d ts \<and> evidence_out mc version S M d (dsk s)"
  have regular: "\<forall>t \<in> set ts. ft_path t \<in> owned \<and> (\<forall>c m. dk_view d (ft_path t) = RegularNode c m \<longrightarrow> m \<noteq> 0)"
    using place by (auto simp: commit_place_def)
  have evidence: "{p. under ?E p} \<subseteq> owned" using place by (simp add: commit_place_def)
  have "length ts \<le> 8" using ts(1) by (simp add: well_targeted_def maximumFileSetTargets_def)
  note ready = populate_ready[where reference = reference and version = version and mc = mc and ctx = ctx and E = ?E,
      OF regular this conjunct2[OF conjunct2[OF reference]], folded M_def]
  have prepared: "triple (\<lambda>s. dsk s = d) (prepare_tree sg ctx ?E (\<lambda>tree. populate_evidence sg mc ctx ?E tree ts version reference))
      (\<lambda>x s. ?P (fst x) (snd x) (dsk s)) ?R"
    by (rule triple_conseq[OF prepared_tree[where P = ?P and v = "dk_view d"]], rule ready) (auto simp: staged_def)
  have out: "evidence_out mc version S M d d'"
    if "tree_ready mc version ?E d ts reference files" "capturable d ts" "dk_view d' = put_tree ?E files (dk_view d)" for files d'
    unfolding M_def
    by (rule tree_published[OF S that(1) marker_of_valid[OF ts that(2) sha] version prints that(3)]) (use reference in blast)
  have commit: "triple (\<lambda>s. ?P k m (dsk s)) (io_bind (on_store (sg_commitTree sg ctx k)) (\<lambda>_. io_return m))
      (\<lambda>m s. m = M \<and> capturable d ts \<and> evidence_out mc version S M d (dsk s)) ?R" for k m
  proof -
    have one: "triple (\<lambda>s. staged k ?E (dk_view d) files (dsk s)) (io_bind (on_store (sg_commitTree sg ctx k)) (\<lambda>_. io_return m))
      (\<lambda>m s. m = M \<and> capturable d ts \<and> evidence_out mc version S M d (dsk s)) ?R"
      if f: "tree_ready mc version ?E d ts reference files" and m: "m = M" "capturable d ts" for files
    proof (rule triple_bind)
      show "triple (\<lambda>s. staged k ?E (dk_view d) files (dsk s)) (on_store (sg_commitTree sg ctx k))
          (\<lambda>_ s. evidence_out mc version S M d (dsk s)) ?R"
        by (rule triple_post[OF publish_tree[OF evidence]]) (use out[OF f m(2)] m(2) in auto)
      show "triple (\<lambda>s. evidence_out mc version S M d (dsk s)) (io_return m)
          (\<lambda>m s. m = M \<and> capturable d ts \<and> evidence_out mc version S M d (dsk s)) ?R"
        using m by (simp add: triple_def)
    qed
    have "triple (\<lambda>s. (m = M \<and> capturable d ts) \<and> (\<exists>files. tree_ready mc version ?E d ts reference files \<and>
        staged k ?E (dk_view d) files (dsk s))) (io_bind (on_store (sg_commitTree sg ctx k)) (\<lambda>_. io_return m))
      (\<lambda>m s. m = M \<and> capturable d ts \<and> evidence_out mc version S M d (dsk s)) ?R"
      by (rule triple_pure, rule triple_ex, rule triple_pure, rule one) auto
    then show ?thesis by (rule triple_pre) auto
  qed
  show ?thesis
    unfolding case_prod_beta by (rule triple_bind[OF prepared commit])
qed

lemma prepare_marker:
  assumes place: "commit_place canon owned S ts d" and S: "clean_absolute S"
    and ts: "well_targeted ts" "\<forall>t \<in> set ts. clean_absolute (ft_path t)"
    and sha: "\<And>c. length (mc_sha mc c) = 32"
    and version: "version = MetadataTransaction \<or> version = MetadataTransactionReference"
    and prints: "prints mc (marker_json (commit_marker mc version retain S ts d))"
  defines "M \<equiv> commit_marker mc version retain S ts d"
  shows "triple (\<lambda>s. dsk s = d) (prepareMarkerVersion sg mc ctx S ts version retain)
    (\<lambda>m s. m = M \<and> capturable d ts \<and> evidence_out mc version S M d (dsk s))
    (\<lambda>_ s. dk_view (dsk s) = dk_view d \<or> capturable d ts \<and> evidence_out mc version S M d (dsk s))"
proof -
  let ?E = "transactionDir S"
  let ?Q = "\<lambda>m s. m = M \<and> capturable d ts \<and> evidence_out mc version S M d (dsk s)"
  let ?R = "\<lambda>_ s. dk_view (dsk s) = dk_view d \<or> capturable d ts \<and> evidence_out mc version S M d (dsk s)"
  have abs: "go_is_abs S" using S by (simp add: clean_absolute_def)
  have fixed: "state_dir canon S = S" using place by (simp add: commit_place_def)
  let ?stage = "\<lambda>reference. io_bind (if version = MetadataTransactionReference
                      then preflightStagedEvidenceSizes sg ctx ts
                        (case reference of None \<Rightarrow> 0 | Some (r, _) \<Rightarrow> ra_size (re_afterImage r))
                      else io_return ()) (\<lambda>_.
             io_bind (on_store (sg_prepareParent sg ctx ?E)) (\<lambda>_.
             io_bind (prepare_tree sg ctx ?E
               (\<lambda>tree. populate_evidence sg mc ctx ?E tree ts version reference)) (\<lambda>(tree, marker).
             io_bind (on_store (sg_commitTree sg ctx tree)) (\<lambda>_. io_return marker))))"
  have stage: "triple (\<lambda>s. dsk s = d) (?stage reference) ?Q ?R"
    if r: "reference = kept_reference mc ts version retain \<and> (\<forall>x. reference = Some x \<longrightarrow>
      version = MetadataTransactionReference \<and> retained_reference mc ts version = Inr x \<and>
      ra_path (re_afterImage (fst x)) = referenceAfterImageName)" for reference
  proof -
    have M: "M = marker_of mc version ?E d ts reference" using r by (simp add: M_def commit_marker_def)
    have p: "prints mc (marker_json (marker_of mc version ?E d ts reference))" using prints M by (simp add: M_def)
    have sizes: "keeps (\<lambda>s. dsk s = d) (if version = MetadataTransactionReference
        then preflightStagedEvidenceSizes sg ctx ts (case reference of None \<Rightarrow> 0 | Some (r, _) \<Rightarrow> ra_size (re_afterImage r))
        else io_return ())"
      by (intro keeps_rules)
    have r': "\<And>x. reference = Some x \<Longrightarrow> version = MetadataTransactionReference \<and>
      retained_reference mc ts version = Inr x \<and> ra_path (re_afterImage (fst x)) = referenceAfterImageName" using r by blast
    show ?thesis
      unfolding M
      by (rule quiet_bind[OF sizes], rule quiet_bind[OF quiet_calls(9)],
          rule published_evidence[OF place S ts sha version r' p]) simp_all
  qed
  have present: "triple (\<lambda>s. dsk s = d) (case found of
         Inr _ \<Rightarrow> io_raise (EvidenceRefused EvidenceExists)
       | Inl e \<Rightarrow> if e \<noteq> StorageFailure NotExist then io_raise e
           else io_bind (rejectAbandonedFileSetResidue sg ctx S) (\<lambda>_.
             io_bind (if retain then on_result (map_sum id Some (retained_reference mc ts version)) else io_return None) ?stage)) ?Q ?R"
    for found :: "fileSetError + FileInfo"
  proof (cases found)
    case (Inl e)
    have "triple (\<lambda>s. dsk s = d) (io_bind (rejectAbandonedFileSetResidue sg ctx S) (\<lambda>_.
        io_bind (if retain then on_result (map_sum id Some (retained_reference mc ts version)) else io_return None) ?stage)) ?Q ?R"
      by (rule quiet_bind[OF quiet_census(2)], rule told_bind[OF kept_reference_told], rule stage, assumption) simp_all
    then show ?thesis unfolding Inl sum.case by (auto simp: triple_def[of _ "io_raise _"])
  qed (simp add: triple_def)
  have looked: "keeps (\<lambda>s. dsk s = d) (io_try (on_store (sg_lstat sg ?E)))" by (intro keeps_rules)
  show ?thesis
    unfolding prepareMarkerVersion_def Let_def
  proof (rule quiet_bind[OF quiet_basic(3)], rule quiet_bind[OF quiet_basic(2)], rule told_bind[OF told_state_dir(1)[OF abs]])
    fix q assume "q = state_dir canon S"
    then have q: "q = S" using fixed by simp
    show "triple (\<lambda>s. dsk s = d) (io_bind (io_try (on_store (sg_lstat sg (transactionDir q)))) (\<lambda>found. case found of
         Inr _ \<Rightarrow> io_raise (EvidenceRefused EvidenceExists)
       | Inl e \<Rightarrow>
           if e \<noteq> StorageFailure NotExist then io_raise e
           else
             io_bind (rejectAbandonedFileSetResidue sg ctx q) (\<lambda>_.
             io_bind (if retain then on_result (map_sum id Some (retained_reference mc ts version))
                      else io_return None) (\<lambda>reference.
             io_bind (if version = MetadataTransactionReference
                      then preflightStagedEvidenceSizes sg ctx ts
                        (case reference of None \<Rightarrow> 0 | Some (r, _) \<Rightarrow> ra_size (re_afterImage r))
                      else io_return ()) (\<lambda>_.
             io_bind (on_store (sg_prepareParent sg ctx (transactionDir q))) (\<lambda>_.
             io_bind (prepare_tree sg ctx (transactionDir q)
               (\<lambda>tree. populate_evidence sg mc ctx (transactionDir q) tree ts version reference)) (\<lambda>(tree, marker).
             io_bind (on_store (sg_commitTree sg ctx tree)) (\<lambda>_. io_return marker)))))))) ?Q ?R"
      unfolding q by (rule quiet_bind[OF looked], rule present) simp
  qed simp_all
qed

end

end
