(* ===== verification/FileSetCommitProof.thy ===== *)
theory FileSetCommitProof
  imports FileSetPrepareProof
begin

text \<open>
  Publishing the after-images and rolling back: the rest of the commit's proof. A commit that reports success has
  written exactly the requested files; one that fails leaves the file set pending with its evidence, or settled.
\<close>

section \<open>Rolling back\<close>

definition committed :: "string \<Rightarrow> FileTarget list \<Rightarrow> disk \<Rightarrow> disk \<Rightarrow> bool" where
  "committed S ts d d' \<longleftrightarrow>
     (\<forall>p. dk_view d' p = (if under (transactionDir S) p then Absent else overwrite d ts p))"

definition commit_outcome :: "marker_codec \<Rightarrow> int \<Rightarrow> string \<Rightarrow> transactionMarker \<Rightarrow> disk \<Rightarrow> disk \<Rightarrow> bool" where
  "commit_outcome mc version S M d d' \<longleftrightarrow> dk_view d' = dk_view d \<or> pending_or_settled mc version S M d'"

context file_storage
begin

lemma rollback_settles:
  assumes "placed canon owned (transactionDir S) m" and "clean_absolute S" and "published mc v S m d" and "mixed mc d m"
  shows "triple (\<lambda>s. dsk s = d) (rollbackFailure sg mc e m S) (\<lambda>_ _. False) (\<lambda>_ s. pending_or_settled mc v S m (dsk s))"
proof -
  let ?E = "transactionDir S"
  let ?R = "\<lambda>_ s. pending_or_settled mc v S m (dsk s)"
  have pending: "pending_or_settled mc v S m d'" if "kept ?E d d'" "mixed mc d' m" for d'
    using kept_published[OF assms(1-3) that(1)] that(2) by (simp add: pending_or_settled_def)
  have classified: "triple (\<lambda>s. dsk s = d) (io_try (classifyTargets sg mc Uncancellable m))
      (\<lambda>r s. (\<forall>x. r = Inr x \<longrightarrow> cl_recoverable x) \<and> dsk s = d) ?R"
    by (rule triple_try, rule triple_conseq[OF classify_answers[OF placed_covered[OF assms(1)]]]) (use assms(4) in auto)
  have finish: "triple (\<lambda>s. all_before mc (dsk s) m \<and> kept ?E d (dsk s))
      (io_bind (io_wrap (RolledBackMarkerLeft e) (removeTransactionDir sg Uncancellable S)) (\<lambda>_. io_raise (RolledBack e)))
      (\<lambda>_ _. False) ?R"
  proof (rule triple_at, rule triple_bind, rule triple_wrap)
    fix d' assume d': "all_before mc d' m \<and> kept ?E d d'"
    then have pub: "published mc v S m d'" using kept_published[OF assms(1-3)] by blast
    have after: "pending_or_settled mc v S m d'" "pending_or_settled mc v S m (removed ?E d')"
      using pending[of d'] d' all_mixed(1) removed_gone[OF assms(1,2) pub] removed_elsewhere(1)[OF assms(1), of mc d']
      by (auto simp: pending_or_settled_def)
    show "triple (\<lambda>s. dsk s = d') (removeTransactionDir sg Uncancellable S) (\<lambda>_ s. dsk s = removed ?E d') ?R"
      by (rule triple_post[OF remove_evidence_dir[OF assms(1,2) pub]]) (use after in auto)
    show "triple (\<lambda>s. dsk s = removed ?E d') (io_raise (RolledBack e)) (\<lambda>_ _. False) ?R"
      using after(2) by (simp add: triple_def)
  qed
  have restored: "triple (\<lambda>s. dsk s = d) (io_wrap (RollbackFailed e) (restoreTransaction sg mc Uncancellable m))
      (\<lambda>_ s. all_before mc (dsk s) m \<and> kept ?E d (dsk s)) ?R"
    by (rule triple_wrap, rule triple_post[OF restore_transaction[OF assms(1,4)]]) (use pending in auto)
  show ?thesis
    unfolding rollbackFailure_def
  proof (rule triple_bind[OF classified], rule triple_pure)
    fix r :: "fileSetError + targetClassification" assume r: "\<forall>x. r = Inr x \<longrightarrow> cl_recoverable x"
    show "triple (\<lambda>s. dsk s = d) (case r of Inl e' \<Rightarrow> io_raise (RollbackUnclassified e e')
       | Inr classification \<Rightarrow>
           if \<not> cl_recoverable classification then io_raise (RollbackRefused e)
           else io_bind (io_wrap (RollbackFailed e) (restoreTransaction sg mc Uncancellable m)) (\<lambda>_.
             io_bind (io_wrap (RolledBackMarkerLeft e) (removeTransactionDir sg Uncancellable S)) (\<lambda>_.
             io_raise (RolledBack e)))) (\<lambda>_ _. False) ?R"
    proof (cases r)
      case (Inl e')
      then show ?thesis using pending[of d] assms(4) by (simp add: triple_def)
    next
      case (Inr x)
      then show ?thesis using r triple_bind[OF restored finish] by simp
    qed
  qed
qed

section \<open>Writing the after-images\<close>

lemma write_step:
  assumes place: "placed canon owned (transactionDir S) M" and S: "clean_absolute S"
    and M: "M = marker_of mc v (transactionDir S) d ts reference"
    and ts: "ts = done @ t # rest" "distinct (map ft_path ts)" "capturable d ts"
  shows "triple (\<lambda>s. a = length done \<and> published mc v S M (dsk s) \<and>
      (\<forall>p. \<not> under (transactionDir S) p \<longrightarrow> dk_view (dsk s) p = overwrite d done p))
    (write_target sg mc ctx M S a t)
    (\<lambda>a' s. a' = length (done @ [t]) \<and> published mc v S M (dsk s) \<and>
      (\<forall>p. \<not> under (transactionDir S) p \<longrightarrow> dk_view (dsk s) p = overwrite d (done @ [t]) p))
    (\<lambda>_ s. pending_or_settled mc v S M (dsk s))"
proof (rule triple_pure, rule triple_at)
  let ?E = "transactionDir S"
  let ?R = "\<lambda>_ s. pending_or_settled mc v S M (dsk s)"
  let ?Q = "\<lambda>a' s. a' = length (done @ [t]) \<and> published mc v S M (dsk s) \<and>
      (\<forall>p. \<not> under ?E p \<longrightarrow> dk_view (dsk s) p = overwrite d (done @ [t]) p)"
  fix d1 assume a: "a = length done" and d1: "published mc v S M d1 \<and> (\<forall>p. \<not> under ?E p \<longrightarrow> dk_view d1 p = overwrite d done p)"
  let ?row = "row_of mc ?E d a t"
  have row: "mk_targets M ! a = ?row" "?row \<in> set (mk_targets M)"
    by (simp_all add: M marker_of_def a ts(1)) (use rows_in[of ?row mc ?E d ts] ts(1) a in \<open>auto intro!: exI[of _ a]\<close>)
  have path: "ft_path t \<in> owned" "canon (ft_path t) = ft_path t" "\<not> under ?E (ft_path t)"
    using place row(2) unfolding placed_def by force+
  have outside: "\<not> under ?E (ft_path x)" if "x \<in> set ts" for x
  proof -
    have "ft_path x \<in> set (map tm_path (mk_targets M))" using that by (simp add: M marker_of_def rows_paths)
    then show ?thesis using place by (auto simp: placed_def)
  qed
  have fresh: "ft_path t \<notin> ft_path ` set done" using ts(1,2) by auto
  have mixed_at: "mixed mc d' M" if "\<forall>p. \<not> under ?E p \<longrightarrow> dk_view d' p = overwrite d xs p" "ts = xs @ ys" for d' xs ys
    unfolding M by (rule overwritten_states(1)[OF ts(3,2) that(2)]) (use that(1) outside in blast)
  let ?d2 = "put_file (ft_path t) (ft_content t) (fileMode (tm_before ?row)) d1"
  have mode: "mode_perm (fileMode (tm_before ?row)) = published_mode (dk_view d (ft_path t))"
    using row_mode[OF ts(3), of t mc ?E a] ts(1) by simp
  have view2: "\<forall>p. \<not> under ?E p \<longrightarrow> dk_view ?d2 p = overwrite d (done @ [t]) p" if "ft_write t"
    using d1 mode that by (auto simp: put_file_def overwrite_snoc[OF fresh])
  have pub2: "published mc v S M ?d2"
    by (rule kept_published[OF place S conjunct1[OF d1]]) (use path(3) in \<open>auto simp: kept_def put_file_def\<close>)
  have back1: "triple (\<lambda>s. dsk s = d1) (io_bind (rollbackFailure sg mc e M S) (\<lambda>_. io_return (Suc a))) ?Q ?R" for e
    by (rule triple_bind[OF rollback_settles[OF place S conjunct1[OF d1] mixed_at[OF conjunct2[OF d1] ts(1)]]]) (simp add: triple_def)
  have back2: "triple (\<lambda>s. dsk s = ?d2) (io_bind (rollbackFailure sg mc e M S) (\<lambda>_. io_return (Suc a))) ?Q ?R" if "ft_write t" for e
    by (rule triple_bind[OF rollback_settles[OF place S pub2 mixed_at[OF view2[OF that], of rest]]]) (simp_all add: triple_def ts(1))
  show "triple (\<lambda>s. dsk s = d1) (write_target sg mc ctx M S a t) ?Q ?R"
  proof (cases "ft_write t")
    case False
    then show ?thesis using d1 a by (simp add: write_target_def triple_def overwrite_snoc[OF fresh])
  next
    case True
    have commit: "triple (\<lambda>s. dsk s = d1) (io_try (commitFile sg ctx (ft_path t) (ft_content t) (fileMode (tm_before ?row))))
        (\<lambda>r s. case r of Inr _ \<Rightarrow> dsk s = ?d2 | Inl _ \<Rightarrow> dsk s = d1 \<or> dsk s = ?d2) ?R"
      by (rule triple_try, rule triple_post[OF publish_file[OF path(1,2)]]) auto
    have either: "triple (\<lambda>s. dsk s = d1 \<or> dsk s = ?d2) (io_bind (rollbackFailure sg mc e M S) (\<lambda>_. io_return (Suc a))) ?Q ?R" for e
      by (rule triple_disj[OF back1 back2[OF True]])
    have cancelled: "triple (\<lambda>s. dsk s = ?d2) (io_bind (io_try (ctx_err sg ctx)) (\<lambda>c. case c of
          Inl e \<Rightarrow> io_bind (rollbackFailure sg mc e M S) (\<lambda>_. io_return (Suc a)) | Inr _ \<Rightarrow> io_return (Suc a))) ?Q ?R"
    proof (rule quiet_bind)
      show "keeps (\<lambda>s. dsk s = ?d2) (io_try (ctx_err sg ctx))" by (intro keeps_rules)
      show "triple (\<lambda>s. dsk s = ?d2) (case c of Inl e \<Rightarrow> io_bind (rollbackFailure sg mc e M S) (\<lambda>_. io_return (Suc a))
          | Inr _ \<Rightarrow> io_return (Suc a)) ?Q ?R" for c :: "fileSetError + unit"
        using back2[OF True] view2[OF True] pub2 a by (cases c) (auto simp: triple_def[of _ "io_return _"])
      show "dsk s = ?d2 \<Longrightarrow> pending_or_settled mc v S M (dsk s)" for s
        using pub2 mixed_at[OF view2[OF True], of rest] ts(1) by (simp add: pending_or_settled_def)
    qed
    show ?thesis
      unfolding write_target_def row(1) using True
      by (simp, intro triple_bind[OF commit]) (use either cancelled in \<open>simp split: sum.split\<close>)
  qed
qed

lemma publish_settles:
  assumes place: "placed canon owned (transactionDir S) M" and S: "clean_absolute S"
    and M: "M = marker_of mc v (transactionDir S) d ts reference"
    and ts: "distinct (map ft_path ts)" "capturable d ts" and out: "evidence_out mc v S M d d1"
  shows "triple (\<lambda>s. dsk s = d1) (publish_targets sg mc ctx M S ts)
    (\<lambda>_ s. committed S ts d (dsk s) \<and> all_after mc (dsk s) M) (\<lambda>_ s. pending_or_settled mc v S M (dsk s))"
proof -
  let ?E = "transactionDir S"
  let ?R = "\<lambda>_ s. pending_or_settled mc v S M (dsk s)"
  let ?I = "\<lambda>done a s. a = length done \<and> published mc v S M (dsk s) \<and>
      (\<forall>p. \<not> under ?E p \<longrightarrow> dk_view (dsk s) p = overwrite d done p)"
  have outside: "\<not> under ?E (ft_path x)" if "x \<in> set ts" for x
  proof -
    have "ft_path x \<in> set (map tm_path (mk_targets M))" using that by (simp add: M marker_of_def rows_paths)
    then show ?thesis using place by (auto simp: placed_def)
  qed
  have pub: "published mc v S M d1" and start: "\<forall>p. \<not> under ?E p \<longrightarrow> dk_view d1 p = overwrite d [] p"
    using out by (auto simp: evidence_out_def)
  have before: "all_before mc d1 M"
    unfolding M by (rule overwritten_states(3)[OF ts(2,1), of "[]" ts]) (use start outside in auto)
  have gone1: "pending_or_settled mc v S M (removed ?E d1)"
    using removed_gone[OF place S pub] removed_elsewhere(1)[OF place, of mc d1] before by (simp add: pending_or_settled_def)
  have pending1: "pending_or_settled mc v S M d1" using pub all_mixed(1)[OF before] by (simp add: pending_or_settled_def)
  have cancelled: "triple (\<lambda>s. dsk s = d1) (io_bind (io_wrap (CleanupFailed e) (removeTransactionDir sg Uncancellable S)) (\<lambda>_. io_raise e))
      (\<lambda>_ s. committed S ts d (dsk s) \<and> all_after mc (dsk s) M) ?R" for e
  proof (rule triple_bind, rule triple_wrap)
    show "triple (\<lambda>s. dsk s = d1) (removeTransactionDir sg Uncancellable S) (\<lambda>_ s. dsk s = removed ?E d1) ?R"
      by (rule triple_post[OF remove_evidence_dir[OF place S pub]]) (use pending1 gone1 in auto)
  qed (use gone1 in \<open>simp add: triple_def\<close>)
  have loop: "triple (\<lambda>s. dsk s = d1) (io_foldl (write_target sg mc ctx M S) 0 ts) (?I ts) ?R"
  proof -
    have "triple (?I [] 0) (io_foldl (write_target sg mc ctx M S) 0 ts) (?I ts) ?R"
      by (rule triple_foldl_prefix[where I = ?I]) (rule write_step[OF place S M _ ts])
    then show ?thesis by (rule triple_pre) (use pub start in auto)
  qed
  have finish: "triple (?I ts a) (io_bind (io_wrap AfterImagesCommitted (ctx_err sg ctx)) (\<lambda>_. removeTransactionDir sg ctx S))
      (\<lambda>_ s. committed S ts d (dsk s) \<and> all_after mc (dsk s) M) ?R" for a
  proof (rule triple_pure, rule triple_at, rule quiet_bind)
    fix d2 assume d2: "published mc v S M d2 \<and> (\<forall>p. \<not> under ?E p \<longrightarrow> dk_view d2 p = overwrite d ts p)"
    have after: "all_after mc d2 M"
      unfolding M by (rule overwritten_states(2)[OF ts(2,1), of ts "[]"]) (use d2 outside in auto)
    have done_: "committed S ts d (removed ?E d2)" "all_after mc (removed ?E d2) M" "pending_or_settled mc v S M (removed ?E d2)"
      "pending_or_settled mc v S M d2"
      using d2 removed_gone[OF place S] removed_elsewhere(2)[OF place, of mc d2] after all_mixed(2)[OF after]
      by (auto simp: committed_def removed_def pending_or_settled_def published_def is_regular_def under_def)
    show "keeps (\<lambda>s. dsk s = d2) (io_wrap AfterImagesCommitted (ctx_err sg ctx))" by (intro keeps_rules)
    show "triple (\<lambda>s. dsk s = d2) (removeTransactionDir sg ctx S) (\<lambda>_ s. committed S ts d (dsk s) \<and> all_after mc (dsk s) M) ?R"
      by (rule triple_post[OF remove_evidence_dir[OF place S conjunct1[OF d2]]]) (use done_ in auto)
    show "dsk s = d2 \<Longrightarrow> pending_or_settled mc v S M (dsk s)" for s using done_(4) by simp
  qed
  show ?thesis
    unfolding publish_targets_def
  proof (rule quiet_bind)
    show "keeps (\<lambda>s. dsk s = d1) (io_try (ctx_err sg ctx))" by (intro keeps_rules)
    show "triple (\<lambda>s. dsk s = d1) (case c of
         Inl e \<Rightarrow> io_bind (io_wrap (CleanupFailed e) (removeTransactionDir sg Uncancellable S)) (\<lambda>_. io_raise e)
       | Inr _ \<Rightarrow> io_bind (io_foldl (write_target sg mc ctx M S) 0 ts) (\<lambda>_.
           io_bind (io_wrap AfterImagesCommitted (ctx_err sg ctx)) (\<lambda>_. removeTransactionDir sg ctx S)))
       (\<lambda>_ s. committed S ts d (dsk s) \<and> all_after mc (dsk s) M) ?R" for c :: "fileSetError + unit"
      using cancelled triple_bind[OF loop finish] by (cases c) simp_all
    show "dsk s = d1 \<Longrightarrow> pending_or_settled mc v S M (dsk s)" for s using pending1 by simp
  qed
qed

section \<open>Nothing to recover\<close>

lemma loads_nothing:
  fixes census :: "('w, unit) fileset"
  assumes "loads mc v d path marker load" and "dk_view d path = Absent" and "keeps (\<lambda>s. dsk s = d) census"
  shows "keeps (\<lambda>s. dsk s = d) (io_bind (io_try load) (\<lambda>loaded. case loaded of
       Inl e \<Rightarrow> if is_marker_absent e then census else io_raise e | Inr x \<Rightarrow> rest x))"
  unfolding keeps_def
proof (rule triple_bind)
  show "triple (\<lambda>s. dsk s = d) (io_try load) (\<lambda>r s. (\<forall>x. r \<noteq> Inr x) \<and> dsk s = d) (\<lambda>_ s. dsk s = d)"
    by (rule triple_try, rule triple_conseq[OF assms(1)]) (use assms(2) in \<open>auto simp: marker_at_def\<close>)
  show "triple (\<lambda>s. (\<forall>x. r \<noteq> Inr x) \<and> dsk s = d) (case r of
       Inl e \<Rightarrow> if is_marker_absent e then census else io_raise e | Inr x \<Rightarrow> rest x) (\<lambda>_ s. dsk s = d) (\<lambda>_ s. dsk s = d)" for r
    using assms(3) by (cases r) (auto simp: keeps_def triple_def[of _ "io_raise _"] triple_def[of "\<lambda>_. False"])
qed

lemma quiet_recover:
  assumes "gone S d" and "clean_absolute S" and "{p. under (transactionDir S) p} \<subseteq> owned"
    and "canon (markerPath S) = markerPath S"
  shows "keeps (\<lambda>s. dsk s = d) (recoverFileSet4WithBudget sg mc ctx S allowed n)"
    "keeps (\<lambda>s. dsk s = d) (recoverWithOperationsVersion sg mc ctx S allowed MetadataTransaction)"
proof -
  have path: "markerPath S \<in> owned"
    using assms(3) evidence_paths(3)[OF assms(2) names_are_components(2)] by (auto simp: markerPath_def)
  have absent: "dk_view d (markerPath S) = Absent" using assms(1) by (simp add: gone_def)
  have load4: "keeps (\<lambda>s. dsk s = d) (io_bind (io_try (loadMarker4WithBudget sg mc ctx (markerPath S) n)) (\<lambda>loaded. case loaded of
       Inl e \<Rightarrow> if is_marker_absent e then rejectAbandonedFileSetResidueWithBudget sg ctx S n else io_raise e
     | Inr x \<Rightarrow> rest x))" for rest
    by (rule loads_nothing[OF loads_marker4[OF path] absent]) (intro keeps_rules)
  show "keeps (\<lambda>s. dsk s = d) (recoverFileSet4WithBudget sg mc ctx S allowed n)"
    unfolding recoverFileSet4WithBudget_def by (intro keeps_rules load4)
  have load3: "keeps (\<lambda>s. dsk s = d) (io_bind (io_try (loadMarker sg mc ctx (markerPath S))) (\<lambda>loaded. case loaded of
       Inl e \<Rightarrow> if is_marker_absent e then rejectAbandonedFileSetResidue sg ctx S else io_raise e
     | Inr x \<Rightarrow> rest x))" for rest
    by (rule loads_nothing[OF loads_marker[OF path assms(4)] absent]) (intro keeps_rules)
  have "MetadataTransaction \<noteq> MetadataTransactionReference"
    by (simp add: MetadataTransaction_def MetadataTransactionReference_def)
  then show "keeps (\<lambda>s. dsk s = d) (recoverWithOperationsVersion sg mc ctx S allowed MetadataTransaction)"
    unfolding recoverWithOperationsVersion_def recover_version3_def by (simp, intro keeps_rules load3)
qed

section \<open>The exported operations\<close>

lemma requested_canonical: "t \<in> set (requested canon ts) \<Longrightarrow> canon (ft_path t) = ft_path t \<and> clean_absolute (ft_path t)"
  using canon_law by (auto simp: requested_def canonical_of_def)

lemma commit_settles:
  assumes input: "go_is_abs (in_StateDir input)" "S = state_dir canon (in_StateDir input)" "ts = requested canon (in_Targets input)"
    and place: "commit_place canon owned S ts d" and gone: "gone S d"
    and sha: "\<And>c. length (mc_sha mc c) = 32"
    and version: "version = MetadataTransaction \<or> version = MetadataTransactionReference"
    and prints: "prints mc (marker_json (commit_marker mc version retain S ts d))"
  defines "M \<equiv> commit_marker mc version retain S ts d"
  shows "triple (\<lambda>s. dsk s = d) (commitWithOperationsVersion sg mc ctx input version retain)
    (\<lambda>_ s. committed S ts d (dsk s) \<and> all_after mc (dsk s) M) (\<lambda>_ s. commit_outcome mc version S M d (dsk s))"
proof -
  let ?Q = "\<lambda>_ s. committed S ts d (dsk s) \<and> all_after mc (dsk s) M"
  let ?R = "\<lambda>_ s. commit_outcome mc version S M d (dsk s)"
  have S: "clean_absolute S" unfolding input(2) by (rule state_dir_clean)
  have canonical: "\<forall>t \<in> set ts. canon (ft_path t) = ft_path t" "\<forall>t \<in> set ts. clean_absolute (ft_path t)"
    using requested_canonical input(3) by blast+
  have recover: "keeps (\<lambda>s. dsk s = d) (if version = MetadataTransactionReference
      then recoverFileSet4WithBudget sg mc ctx S allowed n else recoverWithOperationsVersion sg mc ctx S allowed version)" for allowed n
    using quiet_recover[OF gone S] place version by (auto simp: commit_place_def)
  have before: "all_before mc d M" if "capturable d ts"
    using marker_all_before[OF that] by (simp add: M_def commit_marker_def)
  have evidence_kept: "commit_outcome mc version S M d d'" if "capturable d ts" "evidence_out mc version S M d d'" "distinct (map ft_path ts)" for d'
  proof -
    have p: "placed canon owned (transactionDir S) M" unfolding M_def by (rule commit_marker_placed[OF place S that(3) canonical(1)])
    have "before_at mc d' t" if "t \<in> set (mk_targets M)" for t
    proof -
      have "\<not> under (transactionDir S) (tm_path t)" using p that by (auto simp: placed_def)
      then have "dk_view d' (tm_path t) = dk_view d (tm_path t)" using \<open>evidence_out mc version S M d d'\<close> by (simp add: evidence_out_def)
      moreover have "before_at mc d t" using before[OF \<open>capturable d ts\<close>] that by (simp add: all_before_def)
      ultimately show ?thesis by (simp add: before_at_def in_state_def holds_def split: if_splits)
    qed
    then show ?thesis using that(2) by (auto simp: commit_outcome_def pending_or_settled_def evidence_out_def mixed_def)
  qed
  have publish: "triple (\<lambda>s. m = M \<and> capturable d ts \<and> evidence_out mc version S M d (dsk s)) (publish_targets sg mc ctx m S ts) ?Q ?R"
    if "well_targeted ts" for m
  proof -
    have distinct: "distinct (map ft_path ts)" using that by (simp add: well_targeted_def)
    have p: "placed canon owned (transactionDir S) M" unfolding M_def by (rule commit_marker_placed[OF place S distinct canonical(1)])
    have one: "triple (\<lambda>s. dsk s = d1) (publish_targets sg mc ctx M S ts) ?Q ?R" if "capturable d ts" "evidence_out mc version S M d d1" for d1
      by (rule triple_post[OF publish_settles[OF p S _ distinct that]]) (auto simp: M_def commit_marker_def commit_outcome_def)
    show ?thesis by (rule triple_pure, rule triple_pure, rule triple_at) (use one in blast)
  qed
  have prepared: "triple (\<lambda>s. dsk s = d) (io_bind (prepareMarkerVersion sg mc ctx S ts version retain)
      (\<lambda>marker. publish_targets sg mc ctx marker S ts)) ?Q ?R" if w: "well_targeted ts"
  proof (rule triple_bind[OF _ publish[OF w]])
    have "distinct (map ft_path ts)" using w by (simp add: well_targeted_def)
    then show "triple (\<lambda>s. dsk s = d) (prepareMarkerVersion sg mc ctx S ts version retain)
      (\<lambda>m s. m = M \<and> capturable d ts \<and> evidence_out mc version S M d (dsk s)) ?R"
      unfolding M_def by (intro triple_post[OF prepare_marker[OF place S w canonical(2) sha version prints]])
        (use evidence_kept in \<open>auto simp: M_def commit_outcome_def\<close>)
  qed
  have state_dir: "told d (\<lambda>q. q = S) (if version = MetadataTransactionReference
      then canonicalStateDirBounded sg (in_StateDir input) n else canonicalStateDir sg (in_StateDir input))" for n
    using told_state_dir[OF input(1)] unfolding input(2) by simp
  have targets: "told d (\<lambda>q. q = ts \<and> well_targeted q) (if version = MetadataTransactionReference
      then canonicalTargetsBounded sg (in_Targets input) n else canonicalTargets sg (in_Targets input))" for n
    using told_targets unfolding input(3) by simp
  have start: "commit_outcome mc version S M d (dsk s)" if "dsk s = d" for s using that by (simp add: commit_outcome_def)
  show ?thesis
    unfolding commitWithOperationsVersion_def Let_def
  proof (rule quiet_bind[OF quiet_basic(3)], rule own_budget, rule told_bind[OF state_dir], rule told_bind[OF targets],
      rule quiet_refuse, erule start, rule quiet_refuse, erule start, rule quiet_refuse, erule start)
    fix q r assume "q = S" "r = ts \<and> well_targeted r"
    then have q: "q = S" and r: "r = ts" and w: "well_targeted ts" by auto
    show "triple (\<lambda>s. dsk s = d) (io_bind (if version = MetadataTransactionReference
                then recoverFileSet4WithBudget sg mc ctx q (map ft_path r) MaximumPhysicalPathDepth
                else recoverWithOperationsVersion sg mc ctx q (map ft_path r) version) (\<lambda>_.
       io_bind (prepareMarkerVersion sg mc ctx q r version retain) (\<lambda>marker.
       publish_targets sg mc ctx marker q r))) ?Q ?R"
      unfolding q r by (rule quiet_bind[OF recover prepared[OF w]]) (rule start)
  qed (use start in auto)
qed

end

end
