(* ===== verification/FileSetOutcome.thy ===== *)
theory FileSetOutcome
  imports FileSetCommitProof
begin

text \<open>
  The properties of file-set transactions, written out over the exported operations: recovery, commit, a commit
  followed by any number of recoveries, and the preview of a recovery. They hold over every storage that keeps the
  contract \<open>file_storage\<close>.
\<close>

section \<open>The exported operations over a storage\<close>

definition recovers ::
  "int \<Rightarrow> 'w storage \<Rightarrow> marker_codec \<Rightarrow> string \<Rightarrow> string list \<Rightarrow> ('w, unit) fileset \<Rightarrow> bool" where
  "recovers version sg mc stateDir allowed recover \<longleftrightarrow>
     version = MetadataTransaction \<and> recover = RecoverFileSet sg mc stateDir allowed \<or>
     version = MetadataTransactionReference \<and> recover = RecoverFileSet4 sg mc stateDir allowed"

definition commits ::
  "int \<Rightarrow> bool \<Rightarrow> 'w storage \<Rightarrow> marker_codec \<Rightarrow> FileSetInput \<Rightarrow> ('w, unit) fileset \<Rightarrow> bool" where
  "commits version retain sg mc input commit \<longleftrightarrow>
     version = MetadataTransaction \<and> \<not> retain \<and> commit = CommitFileSet sg mc input \<or>
     version = MetadataTransactionReference \<and> \<not> retain \<and> commit = CommitFileSet4 sg mc input \<or>
     version = MetadataTransactionReference \<and> retain \<and>
       (commit = CommitFileSet4WithReference sg mc input \<or> commit = CommitFreshFileSet4WithReference sg mc input)"

text \<open>A commit, and then recoveries of the disk as the attempt before has left it.\<close>

inductive attempts ::
  "('w \<Rightarrow> disk) \<Rightarrow> ('w, unit) fileset \<Rightarrow> ('w, unit) fileset \<Rightarrow> disk \<Rightarrow> disk \<Rightarrow> bool"
  for disk_of :: "'w \<Rightarrow> disk" and commit recover :: "('w, unit) fileset" and d :: disk where
  first: "disk_of w = d \<Longrightarrow> commit (w, b) = (r, (w', b')) \<Longrightarrow> attempts disk_of commit recover d (disk_of w')"
| again: "attempts disk_of commit recover d (disk_of w) \<Longrightarrow> recover (w, b) = (r, (w', b')) \<Longrightarrow>
    attempts disk_of commit recover d (disk_of w')"

context file_storage
begin

lemma at_disk:
  assumes "triple (\<lambda>s. dsk s = d) m (\<lambda>x s. Q x (dsk s)) (\<lambda>e s. R e (dsk s))" and "m (w, b) = (r, (w', b'))" and "disk_of w = d"
  shows "case r of Inr x \<Rightarrow> Q x (disk_of w') | Inl e \<Rightarrow> R e (disk_of w')"
  using triple_run[OF assms(1), of "(w, b)" r "(w', b')"] assms(2,3) by (simp split: sum.splits)

lemma quiet_fence [keeps_rules]: "keeps (\<lambda>s. dsk s = d) (ObserveClearFenceAt4 sg mc canonical n)"
proof -
  have "keeps (\<lambda>s. dsk s = d) (loadMarkerAtCanonicalPathVersionWithBudget sg mc ctx path version depth)" for ctx path version depth d
    unfolding loadMarkerAtCanonicalPathVersionWithBudget_def by (intro keeps_rules)
  then have "keeps (\<lambda>s. dsk s = d) (loadMarkerAtCanonicalPath sg mc ctx path)"
      "keeps (\<lambda>s. dsk s = d) (loadMarker4WithBudget sg mc ctx path depth)"
    for ctx path depth d
    unfolding loadMarker4WithBudget_def loadMarkerAtCanonicalPath_def by (intro keeps_rules | blast)+
  then show ?thesis
    unfolding ObserveClearFenceAt4_def requireClearFileSetAtCanonicalPathVersion_def Let_def
    by (intro keeps_rules | blast)+
qed

lemma commit_exported:
  assumes input: "go_is_abs (in_StateDir input)" "S = state_dir canon (in_StateDir input)" "ts = requested canon (in_Targets input)"
    and place: "commit_place canon owned S ts d" "gone S d" and sha: "\<And>c. length (mc_sha mc c) = 32"
    and prints: "prints mc (marker_json (commit_marker mc version retain S ts d))"
    and commits: "commits version retain sg mc input commit"
  defines "M \<equiv> commit_marker mc version retain S ts d"
  shows "triple (\<lambda>s. dsk s = d) commit (\<lambda>_ s. committed S ts d (dsk s) \<and> all_after mc (dsk s) M)
    (\<lambda>_ s. commit_outcome mc version S M d (dsk s))"
proof -
  let ?Q = "\<lambda>_ s. committed S ts d (dsk s) \<and> all_after mc (dsk s) M"
  let ?R = "\<lambda>_ s. commit_outcome mc version S M d (dsk s)"
  have version: "version = MetadataTransaction \<or> version = MetadataTransactionReference" using commits by (auto simp: commits_def)
  note settles = commit_settles[OF input place sha version prints, where ctx = Cancellable, folded M_def]
  have fresh: "triple (\<lambda>s. dsk s = d) (CommitFreshFileSet4WithReference sg mc input) ?Q ?R"
    if "version = MetadataTransactionReference" "retain"
    unfolding CommitFreshFileSet4WithReference_def CommitFileSet4WithReference_def
  proof (rule quiet_bind)
    have "keeps (\<lambda>s. dsk s = d) (canonicalStateDirBounded sg path n)" for path n d
      unfolding canonicalStateDirBounded_def canonicalStateDirWithPathResolver_def go_abs_def Let_def option.case
      by (intro keeps_rules)
    then show "keeps (\<lambda>s. dsk s = d) (with_own_budget (
       io_bind (canonicalStateDirBounded sg (in_StateDir input) MaximumPhysicalPathDepth) (\<lambda>canonical.
       ObserveClearFenceAt4 sg mc canonical MaximumPhysicalPathDepth)))"
      by (intro keeps_rules)
  qed (use settles that in \<open>auto simp: commit_outcome_def\<close>)
  from commits settles fresh show ?thesis
    unfolding commits_def
    by (auto simp: CommitFileSet_def CommitFileSet4_def CommitFileSet4WithReference_def)
qed

lemma recover_exported_quiet:
  assumes "gone S d" and "go_is_abs stateDir" "S = state_dir canon stateDir"
    and "{p. under (transactionDir S) p} \<subseteq> owned" "canon (markerPath S) = markerPath S"
    and "recovers version sg mc stateDir allowed recover"
  shows "keeps (\<lambda>s. dsk s = d) recover"
proof -
  have clean: "clean_absolute S" unfolding assms(3) by (rule state_dir_clean)
  note quiet = quiet_recover[OF assms(1) clean assms(4,5)]
  have "keeps (\<lambda>s. dsk s = d) (RecoverFileSet sg mc stateDir allowed)"
    unfolding RecoverFileSet_def keeps_def
    by (rule told_bind[OF told_state_dir(1)[OF assms(2)]]) (use quiet(2) assms(3) in \<open>simp_all add: keeps_def\<close>)
  moreover have "keeps (\<lambda>s. dsk s = d) (RecoverFileSet4 sg mc stateDir allowed)"
  proof -
    have "triple (\<lambda>s. dsk s = d) (with_own_budget (
         io_bind (canonicalStateDirBounded sg stateDir MaximumPhysicalPathDepth) (\<lambda>canonical.
         recoverFileSet4WithBudget sg mc Cancellable canonical allowed MaximumPhysicalPathDepth)))
        (\<lambda>_ s. dsk s = d) (\<lambda>_ s. dsk s = d)"
      by (rule own_budget, rule told_bind[OF told_state_dir(2)[OF assms(2)]]) (use quiet(1) assms(3) in \<open>simp_all add: keeps_def\<close>)
    then show ?thesis
      unfolding RecoverFileSet4_def recoverWithOperationsVersion_def keeps_def
      by (intro quiet_bind[OF quiet_basic(3)]) simp_all
  qed
  ultimately show ?thesis using assms(6) by (auto simp: recovers_def)
qed

lemma preview_tells:
  assumes "go_is_abs stateDir" and S: "S = state_dir canon stateDir"
    and "placed canon owned (transactionDir S) m" and "canon (markerPath S) = markerPath S"
    and "published mc version S m d"
    and "version = MetadataTransaction \<and> preview = InspectFileSetRecovery sg mc stateDir paths \<or>
      version = MetadataTransactionReference \<and> preview = InspectFileSetRecovery4 sg mc stateDir paths"
  shows "told d (\<lambda>x. mixed mc d m \<and> x = (if all_after mc d m then RecoveryFinalize else RecoveryRollback)) preview"
proof -
  let ?P = "\<lambda>x. mixed mc d m \<and> x = (if all_after mc d m then RecoveryFinalize else RecoveryRollback)"
  have clean: "clean_absolute S" unfolding S by (rule state_dir_clean)
  have unique: "x = m" if "marker_at mc version d (markerPath S) x" for x
    using marker_at_unique that assms(5) by (auto simp: published_def)
  have classified: "told d ?P (io_bind (classifyTargets sg mc ctx m) (\<lambda>classification.
     if cl_cleanAfter classification then io_return RecoveryFinalize
     else if \<not> cl_recoverable classification then io_raise (RequestInvalid NotRecoverable)
     else io_bind check (\<lambda>_. io_return RecoveryRollback)))" if "keeps (\<lambda>s. dsk s = d) check" for ctx and check :: "('w, unit) fileset"
  proof (rule answers_bind[OF classify_answers[OF placed_covered[OF assms(3)]]])
    have rollback: "told d ?P (io_bind check (\<lambda>_. io_return RecoveryRollback))" if "mixed mc d m" "\<not> all_after mc d m"
      by (rule quiet_bind[OF \<open>keeps (\<lambda>s. dsk s = d) check\<close>]) (use that in \<open>auto simp: triple_def\<close>)
    show "told d ?P (if cl_cleanAfter \<lparr>cl_cleanAfter = all_after mc d m, cl_recoverable = mixed mc d m\<rparr> then io_return RecoveryFinalize
     else if \<not> cl_recoverable \<lparr>cl_cleanAfter = all_after mc d m, cl_recoverable = mixed mc d m\<rparr> then io_raise (RequestInvalid NotRecoverable)
     else io_bind check (\<lambda>_. io_return RecoveryRollback))"
      using rollback all_mixed(2)[of mc d m] by (simp add: triple_def[of _ "io_return _"] triple_def[of _ "io_raise _"])
  qed simp
  note owned_path = evidence_covered(3)[OF assms(3) clean]
  have preview3: "told d ?P (InspectFileSetRecovery sg mc stateDir paths)" if v: "version = MetadataTransaction"
    unfolding InspectFileSetRecovery_def
  proof (rule told_bind[OF told_state_dir(1)[OF assms(1)]])
    fix canonical assume "canonical = state_dir canon stateDir"
    then have c: "canonical = S" using S by simp
    have load: "told d (\<lambda>x. x = m) (loadMarker sg mc Cancellable (markerPath S))"
      by (rule triple_conseq[OF loads_marker[OF owned_path assms(4)]]) (use unique v in auto)
    show "told d ?P (io_bind (loadMarker sg mc Cancellable (markerPath canonical)) (\<lambda>marker.
     io_bind (canonicalAllowedPaths sg paths) (\<lambda>allowed.
     io_bind (io_refuse (length allowed \<noteq> length (mk_targets marker)) (RequestInvalid TargetSetMismatch)) (\<lambda>_.
     io_bind (on_result (authorize_targets allowed marker)) (\<lambda>_.
     io_bind (rejectAbandonedFileSetResidue sg Cancellable canonical) (\<lambda>_.
     io_bind (classifyTargets sg mc Cancellable marker) (\<lambda>classification.
     if cl_cleanAfter classification then io_return RecoveryFinalize
     else if \<not> cl_recoverable classification then io_raise (RequestInvalid NotRecoverable)
     else io_bind (preflightRestorableBackups sg mc Cancellable marker) (\<lambda>_. io_return RecoveryRollback))))))))"
      unfolding c
    proof (rule told_bind[OF load])
      fix x assume x: "x = m"
      show "told d ?P (io_bind (canonicalAllowedPaths sg paths) (\<lambda>allowed.
         io_bind (io_refuse (length allowed \<noteq> length (mk_targets x)) (RequestInvalid TargetSetMismatch)) (\<lambda>_.
         io_bind (on_result (authorize_targets allowed x)) (\<lambda>_.
         io_bind (rejectAbandonedFileSetResidue sg Cancellable S) (\<lambda>_.
         io_bind (classifyTargets sg mc Cancellable x) (\<lambda>classification.
         if cl_cleanAfter classification then io_return RecoveryFinalize
         else if \<not> cl_recoverable classification then io_raise (RequestInvalid NotRecoverable)
         else io_bind (preflightRestorableBackups sg mc Cancellable x) (\<lambda>_. io_return RecoveryRollback)))))))"
        unfolding x
        by (rule quiet_bind[OF quiet_allowed(1)], rule quiet_refuse, simp, rule quiet_bind[OF quiet_basic(2)],
            rule quiet_bind[OF quiet_census(2)], rule classified[OF quiet_preflight(1)]) simp_all
    qed simp
  qed simp
  have preview4: "told d ?P (InspectFileSetRecovery4 sg mc stateDir paths)" if v: "version = MetadataTransactionReference"
    unfolding InspectFileSetRecovery4_def
  proof (rule quiet_bind[OF quiet_basic(3)], rule own_budget, rule told_bind[OF told_state_dir(2)[OF assms(1)]])
    fix canonical assume "canonical = state_dir canon stateDir"
    then have c: "canonical = S" using S by simp
    have load: "told d (\<lambda>x. fst x = m) (loadMarker4WithBudget sg mc Cancellable (markerPath S) n)" for n
      by (rule triple_conseq[OF loads_marker4[OF owned_path]]) (use unique v in auto)
    let ?rest = "\<lambda>marker. io_bind (canonicalAllowedPathsBounded sg paths MaximumPhysicalPathDepth) (\<lambda>allowed.
       io_bind (io_refuse (length allowed \<noteq> length (mk_targets marker)) (RequestInvalid TargetSetMismatch)) (\<lambda>_.
       io_bind (on_result (authorize_targets allowed marker)) (\<lambda>_.
       io_bind (rejectAbandonedFileSetResidueWithBudget sg Cancellable S MaximumPhysicalPathDepth) (\<lambda>_.
       io_bind (classifyTargets sg mc Cancellable marker) (\<lambda>classification.
       if cl_cleanAfter classification then io_return RecoveryFinalize
       else if \<not> cl_recoverable classification then io_raise (RequestInvalid NotRecoverable)
       else io_bind (preflightRestorableBackupsWithBudget sg mc Cancellable marker MaximumPhysicalPathDepth)
         (\<lambda>_. io_return RecoveryRollback))))))"
    have rest: "told d ?P (?rest m)"
      by (rule quiet_bind[OF quiet_allowed(2)], rule quiet_refuse, simp, rule quiet_bind[OF quiet_basic(2)],
          rule quiet_bind[OF quiet_census(1)], rule classified[OF quiet_preflight(2)]) simp_all
    have "told d ?P (io_bind (loadMarker4WithBudget sg mc Cancellable (markerPath S) MaximumPhysicalPathDepth)
        (\<lambda>x. case x of (marker, _, _) \<Rightarrow> ?rest marker))"
    proof (rule told_bind[OF load])
      fix x :: "transactionMarker \<times> string \<times> reconstructedReferenceEvidence option" assume "fst x = m"
      then show "told d ?P (case x of (marker, _, _) \<Rightarrow> ?rest marker)" using rest by (cases x) auto
    qed simp
    then show "told d ?P (io_bind (loadMarker4WithBudget sg mc Cancellable (markerPath canonical) MaximumPhysicalPathDepth) (\<lambda>(marker, _, _).
       io_bind (canonicalAllowedPathsBounded sg paths MaximumPhysicalPathDepth) (\<lambda>allowed.
       io_bind (io_refuse (length allowed \<noteq> length (mk_targets marker)) (RequestInvalid TargetSetMismatch)) (\<lambda>_.
       io_bind (on_result (authorize_targets allowed marker)) (\<lambda>_.
       io_bind (rejectAbandonedFileSetResidueWithBudget sg Cancellable canonical MaximumPhysicalPathDepth) (\<lambda>_.
       io_bind (classifyTargets sg mc Cancellable marker) (\<lambda>classification.
       if cl_cleanAfter classification then io_return RecoveryFinalize
       else if \<not> cl_recoverable classification then io_raise (RequestInvalid NotRecoverable)
       else io_bind (preflightRestorableBackupsWithBudget sg mc Cancellable marker MaximumPhysicalPathDepth)
         (\<lambda>_. io_return RecoveryRollback))))))))"
      unfolding c .
  qed simp_all
  show ?thesis using assms(6) preview3 preview4 by auto
qed

text \<open>However often a commit and its recoveries fail, the disk is one of a commit's outcomes, and a recovery that
  succeeds ends it.\<close>

lemma outcome_recovered:
  assumes "go_is_abs stateDir" "S = state_dir canon stateDir" and "placed canon owned (transactionDir S) M"
    and "canon (markerPath S) = markerPath S" and "gone S d" and "recovers version sg mc stateDir allowed recover"
    and outcome: "commit_outcome mc version S M d d'"
  shows "triple (\<lambda>s. dsk s = d') recover
    (\<lambda>_ s. gone S (dsk s) \<and> (dk_view (dsk s) = dk_view d \<or> all_before mc (dsk s) M \<or> all_after mc (dsk s) M))
    (\<lambda>_ s. commit_outcome mc version S M d (dsk s))"
proof -
  have evidence: "{p. under (transactionDir S) p} \<subseteq> owned" using assms(3) by (simp add: placed_def)
  consider "published mc version S M d' \<and> mixed mc d' M"
    | "gone S d'" "dk_view d' = dk_view d \<or> all_before mc d' M \<or> all_after mc d' M"
    using outcome assms(5) by (auto simp: commit_outcome_def pending_or_settled_def gone_def)
  then show ?thesis
  proof cases
    case 1
    then show ?thesis
      by (intro triple_post[OF recovery_settles[OF assms(1,2,3,4) _ _ assms(6)[unfolded recovers_def]]])
        (auto simp: commit_outcome_def settled_from_def split: if_splits)
  next
    case 2
    have "keeps (\<lambda>s. dsk s = d') recover"
      by (rule recover_exported_quiet[OF 2(1) assms(1,2) evidence assms(4,6)])
    then show ?thesis
      unfolding keeps_def by (rule triple_post) (use 2 outcome in auto)
  qed
qed

lemma attempts_outcome:
  assumes "go_is_abs (in_StateDir input)" "S = state_dir canon (in_StateDir input)" "ts = requested canon (in_Targets input)"
    and place: "commit_place canon owned S ts d" "distinct (map ft_path ts)" "gone S d" and sha: "\<And>c. length (mc_sha mc c) = 32"
    and prints: "prints mc (marker_json (commit_marker mc version retain S ts d))"
    and commits: "commits version retain sg mc input commit"
    and recovers: "recovers version sg mc (in_StateDir input) allowed recover"
    and attempts: "attempts disk_of commit recover d d'"
  defines "M \<equiv> commit_marker mc version retain S ts d"
  shows "commit_outcome mc version S M d d'"
  using attempts
proof induction
  case (first w b r w' b')
  have "commit_outcome mc version S M d (disk_of w')" if "committed S ts d (disk_of w')" "all_after mc (disk_of w') M"
  proof -
    have S: "clean_absolute S" unfolding assms(2) by (rule state_dir_clean)
    have "gone S (disk_of w')"
      using that(1) evidence_paths(3)[OF S names_are_components(2)]
      by (simp add: gone_def committed_def markerPath_def under_def[of _ "transactionDir S"])
    then show ?thesis using that(2) by (simp add: commit_outcome_def pending_or_settled_def)
  qed
  with at_disk[OF commit_exported[OF assms(1-3) place(1,3) sha prints commits] first(2,1)] show ?case
    unfolding M_def by (auto split: sum.splits)
next
  case (again w b r w' b')
  have S: "clean_absolute S" unfolding assms(2) by (rule state_dir_clean)
  have "\<forall>t \<in> set ts. canon (ft_path t) = ft_path t" using requested_canonical assms(3) by blast
  then have placed: "placed canon owned (transactionDir S) M"
    unfolding M_def by (rule commit_marker_placed[OF place(1) S place(2)])
  have fixed: "canon (markerPath S) = markerPath S" using place(1) by (simp add: commit_place_def)
  from at_disk[OF outcome_recovered[OF assms(1,2) placed fixed place(3) recovers again.IH] again(2) refl]
  show ?case by (auto simp: commit_outcome_def pending_or_settled_def split: sum.splits)
qed

end

section \<open>Properties\<close>

text \<open>C14: recovery is atomic. Started on a published file set whose targets are each in their before- or after-state,
  whatever call fails on the way, a recovery that fails leaves the file set in such a state with all its evidence, or
  settled; one that succeeds has removed the evidence, with all targets in their after-state if they were, and all in
  their before-state otherwise.\<close>

theorem recovery_atomic:
  assumes "file_storage sg disk_of canon owned" and "go_is_abs stateDir" and "S = state_dir canon stateDir"
    and "placed canon owned (transactionDir S) m" and "canon (markerPath S) = markerPath S"
    and "published mc version S m (disk_of w)" and "mixed mc (disk_of w) m"
    and "recovers version sg mc stateDir allowed recover" and "recover (w, b) = (r, (w', b'))"
  shows "case r of Inr _ \<Rightarrow> settled_from mc S m (disk_of w) (disk_of w') | Inl _ \<Rightarrow> pending_or_settled mc version S m (disk_of w')"
  by (rule file_storage.at_disk[OF assms(1)
      file_storage.recovery_settles[OF assms(1-7) assms(8)[unfolded recovers_def]] assms(9) refl])

text \<open>C13: a commit is all or nothing. Started without pending evidence, whatever call fails on the way, a commit that
  succeeds leaves exactly the requested contents at the targets to be written, every other file as it was and no
  evidence; one that fails leaves the disk as it was, or the published evidence with every target in its before- or
  after-state, or no evidence with all targets in their before-state or all in their after-state.\<close>

theorem commit_all_or_nothing:
  assumes "file_storage sg disk_of canon owned" and "go_is_abs (in_StateDir input)" and "S = state_dir canon (in_StateDir input)"
    and "ts = requested canon (in_Targets input)" and "commit_place canon owned S ts (disk_of w)" and "gone S (disk_of w)"
    and "\<And>c. length (mc_sha mc c) = 32" and "prints mc (marker_json (commit_marker mc version retain S ts (disk_of w)))"
    and "commits version retain sg mc input commit" and "commit (w, b) = (r, (w', b'))"
  shows "case r of
      Inr _ \<Rightarrow> committed S ts (disk_of w) (disk_of w') \<and> all_after mc (disk_of w') (commit_marker mc version retain S ts (disk_of w))
    | Inl _ \<Rightarrow> commit_outcome mc version S (commit_marker mc version retain S ts (disk_of w)) (disk_of w) (disk_of w')"
  by (rule file_storage.at_disk[OF assms(1)
      file_storage.commit_exported[OF assms(1-9)] assms(10) refl])

text \<open>C15: a commit that keeps failing can always be finished. After a commit and any number of recoveries, each
  starting from the disk the last one left and each failing anywhere or not, the disk is still one of the outcomes of
  the commit, and as soon as one recovery succeeds the evidence is gone and the targets are all in their before-state
  or all in their after-state.\<close>

theorem attempts_settle:
  assumes "file_storage sg disk_of canon owned" and "go_is_abs (in_StateDir input)" and "S = state_dir canon (in_StateDir input)"
    and "ts = requested canon (in_Targets input)" and "commit_place canon owned S ts d" and "distinct (map ft_path ts)"
    and "gone S d" and "\<And>c. length (mc_sha mc c) = 32"
    and "M = commit_marker mc version retain S ts d" and "prints mc (marker_json M)"
    and "commits version retain sg mc input commit" and "recovers version sg mc (in_StateDir input) allowed recover"
    and "attempts disk_of commit recover d (disk_of w)" and "recover (w, b) = (r, (w', b'))"
  shows "commit_outcome mc version S M d (disk_of w) \<and>
    (r = Inr () \<longrightarrow> gone S (disk_of w') \<and>
      (dk_view (disk_of w') = dk_view d \<or> all_before mc (disk_of w') M \<or> all_after mc (disk_of w') M))"
proof -
  have outcome: "commit_outcome mc version S M d (disk_of w)"
    unfolding assms(9)
    by (rule file_storage.attempts_outcome[OF assms(1-8) assms(10)[unfolded assms(9)] assms(11-13)])
  have S: "clean_absolute S" unfolding assms(3) by (rule file_storage.state_dir_clean[OF assms(1)])
  have "\<forall>t \<in> set ts. canon (ft_path t) = ft_path t" using file_storage.requested_canonical[OF assms(1)] assms(4) by blast
  then have placed: "placed canon owned (transactionDir S) M"
    unfolding assms(9) by (rule commit_marker_placed[OF assms(5) S assms(6)])
  have fixed: "canon (markerPath S) = markerPath S" using assms(5) by (simp add: commit_place_def)
  from file_storage.at_disk[OF assms(1) file_storage.outcome_recovered[OF assms(1-3) placed fixed assms(7,12) outcome] assms(14) refl]
  show ?thesis using outcome by auto
qed

text \<open>C38: the preview of a recovery is what the recovery does. On a published file set, a preview changes nothing; when
  it answers, it says whether all targets are in their after-state, and a recovery that then succeeds finalizes the file
  set when the preview said so, and otherwise takes all targets back to their before-state.\<close>

theorem preview_is_faithful:
  assumes "file_storage sg disk_of canon owned" and "go_is_abs stateDir" and "S = state_dir canon stateDir"
    and "placed canon owned (transactionDir S) m" and "canon (markerPath S) = markerPath S"
    and "published mc version S m (disk_of w)"
    and "version = MetadataTransaction \<and> preview = InspectFileSetRecovery sg mc stateDir paths \<or>
      version = MetadataTransactionReference \<and> preview = InspectFileSetRecovery4 sg mc stateDir paths"
    and "recovers version sg mc stateDir allowed recover"
    and "preview (w, b) = (p, (w1, b1))" and "recover (w1, b2) = (r, (w2, b3))"
  shows "disk_of w1 = disk_of w \<and>
    (\<forall>x. p = Inr x \<longrightarrow> (x = RecoveryFinalize \<longleftrightarrow> all_after mc (disk_of w) m) \<and>
      (r = Inr () \<longrightarrow> gone S (disk_of w2) \<and>
        (if x = RecoveryFinalize then all_after mc (disk_of w2) m else all_before mc (disk_of w2) m)))"
proof -
  from file_storage.at_disk[OF assms(1) file_storage.preview_tells[OF assms(1-7)] assms(9) refl]
  have same: "disk_of w1 = disk_of w" and told: "\<And>x. p = Inr x \<Longrightarrow> mixed mc (disk_of w) m \<and>
    x = (if all_after mc (disk_of w) m then RecoveryFinalize else RecoveryRollback)" by (auto split: sum.splits)
  have "settled_from mc S m (disk_of w) (disk_of w2)" if "p = Inr x" "r = Inr ()" for x
    using file_storage.at_disk[OF assms(1) file_storage.recovery_settles[OF assms(1-6) _ assms(8)[unfolded recovers_def]] assms(10) same]
      told that by simp
  then show ?thesis using same told by (auto simp: settled_from_def split: if_splits)
qed

end
