(* ===== verification/FileSetDevice.thy ===== *)
theory FileSetDevice
  imports FileSetOutcome
begin

text \<open>
  A storage that keeps the contract: a device with its files in a list, and a schedule that says of each call whether
  it runs, fails before it has done anything or fails after it has taken effect. A crash is a schedule all of whose
  remaining calls fail.
\<close>

section \<open>The device\<close>

datatype fault = Runs | FailsBefore | FailsAfter

record device =
  dv_files :: "(string \<times> node) list"
  dv_trees :: "(nat \<times> (string \<times> (string \<times> string \<times> FileMode) list)) list"
  dv_listings :: "(nat \<times> string list) list"
  dv_handle :: nat
  dv_faults :: "fault list"

definition lookup_node :: "(string \<times> node) list \<Rightarrow> string \<Rightarrow> node" where
  "lookup_node files p = (case map_of files p of
     None \<Rightarrow> Absent | Some (RegularNode c m) \<Rightarrow> RegularNode c (mode_perm m) | Some n \<Rightarrow> n)"

definition device_disk :: "device \<Rightarrow> disk" where
  "device_disk dv = \<lparr>dk_view = lookup_node (dv_files dv), dk_trees = map_of (dv_trees dv)\<rparr>"

definition device_canon :: "string \<Rightarrow> string" where
  "device_canon p = abs_path (clean_elements True p)"

type_synonym 'a call = "(device, storageError, 'a) io"

text \<open>One call under the schedule; a prompt call that fails has done nothing.\<close>

definition scheduled :: "'a call \<Rightarrow> 'a call" where
  "scheduled m dv = (case dv_faults dv of
     [] \<Rightarrow> m dv
   | f # fs \<Rightarrow>
       let dv = dv\<lparr>dv_faults := fs\<rparr> in
       case f of Runs \<Rightarrow> m dv | FailsBefore \<Rightarrow> (Inl (StorageFailed 0), dv) | FailsAfter \<Rightarrow> (Inl (StorageFailed 0), snd (m dv)))"

definition prompt :: "'a call \<Rightarrow> 'a call" where
  "prompt m dv = (case dv_faults dv of
     [] \<Rightarrow> m dv
   | f # fs \<Rightarrow>
       let dv = dv\<lparr>dv_faults := fs\<rparr> in
       case f of Runs \<Rightarrow> m dv | _ \<Rightarrow> (Inl (StorageFailed 0), dv))"

definition answering :: "((string \<times> node) list \<Rightarrow> storageError + 'a) \<Rightarrow> 'a call" where
  "answering f dv = (f (dv_files dv), dv)"

section \<open>Its operations\<close>

definition instant :: changeVersion where
  "instant = \<lparr>cv_seconds = 0, cv_nanoseconds = 0\<rparr>"

definition node_info :: "node \<Rightarrow> storageError + FileInfo" where
  "node_info n = (case n of
     Absent \<Rightarrow> Inl NotExist
   | RegularNode c m \<Rightarrow> Inr \<lparr>fi_mode = m, fi_size = int (length c), fi_modTime = instant, fi_sys = None\<rparr>
   | OtherNode \<Rightarrow> Inr \<lparr>fi_mode = ModeDir, fi_size = 0, fi_modTime = instant, fi_sys = None\<rparr>)"

definition device_info :: "string \<Rightarrow> FileInfo call" where
  "device_info p = prompt (answering (\<lambda>files. node_info (lookup_node files p)))"

definition device_read :: "string \<Rightarrow> int \<Rightarrow> (string \<times> FileMode) call" where
  "device_read p n = prompt (answering (\<lambda>files. case lookup_node files p of
     Absent \<Rightarrow> Inl NotExist
   | RegularNode c m \<Rightarrow> if int (length c) > n then Inl (StorageFailed 1) else Inr (c, m)
   | OtherNode \<Rightarrow> Inl (StorageFailed 2)))"

definition device_open :: "string \<Rightarrow> nat call" where
  "device_open p = prompt (\<lambda>dv. (Inr (dv_handle dv), dv\<lparr>dv_handle := Suc (dv_handle dv),
     dv_listings := (dv_handle dv, remdups [go_base q. (q, n) \<leftarrow> dv_files dv, go_dir q = p \<and> q \<noteq> p]) # dv_listings dv\<rparr>))"

definition device_names :: "nat \<Rightarrow> nat \<Rightarrow> device \<Rightarrow> (string list \<times> listFailure option) \<times> device" where
  "device_names h n dv = (case map_of (dv_listings dv) h of
     None \<Rightarrow> (([], Some (ListFailure (StorageFailed 3))), dv)
   | Some [] \<Rightarrow> (([], Some EndOfDirectory), dv)
   | Some names \<Rightarrow> ((take n names, None), dv\<lparr>dv_listings := (h, drop n names) # dv_listings dv\<rparr>))"

definition device_identity :: "string \<Rightarrow> EntryIdentity call" where
  "device_identity p = prompt (answering (\<lambda>files. case lookup_node files p of
     Absent \<Rightarrow> if list_ex (\<lambda>(q, _). under p q) files then Inl (StorageFailed 4) else Inl NotExist
   | RegularNode c m \<Rightarrow> Inr \<lparr>ei_path = p, ei_kind = entryKindRegular, ei_object = Some 0\<rparr>
   | OtherNode \<Rightarrow> Inr \<lparr>ei_path = p, ei_kind = entryKindDirectory, ei_object = Some 0\<rparr>))"

definition device_commit :: "FileCommit \<Rightarrow> unit call" where
  "device_commit c = scheduled (\<lambda>dv.
     if (fc_expected c = None) = (lookup_node (dv_files dv) (fc_path c) = Absent)
     then (Inr (), dv\<lparr>dv_files := (fc_path c, RegularNode (fc_payload c) (fc_mode c)) # dv_files dv\<rparr>)
     else (Inl (StorageFailed 5), dv))"

definition device_remove :: "LogicalRemoval \<Rightarrow> unit call" where
  "device_remove x = scheduled (\<lambda>dv. (Inr (), dv\<lparr>dv_files := filter (\<lambda>(q, _).
     \<not> (q = lr_path x \<or> \<not> is_regular (lookup_node (dv_files dv) (lr_path x)) \<and> under (lr_path x) q)) (dv_files dv)\<rparr>))"

definition device_stage :: "string \<Rightarrow> nat call" where
  "device_stage p = prompt (\<lambda>dv. (Inr (dv_handle dv),
     dv\<lparr>dv_handle := Suc (dv_handle dv), dv_trees := (dv_handle dv, (p, [])) # dv_trees dv\<rparr>))"

definition device_write :: "nat \<Rightarrow> string \<Rightarrow> FileMode \<Rightarrow> string \<Rightarrow> unit call" where
  "device_write k name mode content = scheduled (\<lambda>dv. case map_of (dv_trees dv) k of
     None \<Rightarrow> (Inl (StorageFailed 6), dv)
   | Some (p, fs) \<Rightarrow> (Inr (), dv\<lparr>dv_trees := (k, (p, (name, content, mode) # fs)) # dv_trees dv\<rparr>))"

definition device_discard :: "nat \<Rightarrow> unit call" where
  "device_discard k = scheduled (\<lambda>dv. (Inr (), dv\<lparr>dv_trees := filter (\<lambda>(j, _). j \<noteq> k) (dv_trees dv)\<rparr>))"

definition tree_files :: "string \<Rightarrow> (string \<times> string \<times> FileMode) list \<Rightarrow> (string \<times> node) list" where
  "tree_files p fs = (p, OtherNode) # filter (\<lambda>(q, _). under p q)
     (map (\<lambda>(name, content, mode). (go_join p name, RegularNode content mode)) fs)"

definition device_publish :: "nat \<Rightarrow> unit call" where
  "device_publish k = scheduled (\<lambda>dv. case map_of (dv_trees dv) k of
     None \<Rightarrow> (Inl (StorageFailed 6), dv)
   | Some (p, fs) \<Rightarrow> (Inr (), dv\<lparr>dv_files := tree_files p fs @ filter (\<lambda>(q, _). \<not> under p q) (dv_files dv)\<rparr>))"

definition device_storage :: "device storage" where
  "device_storage = \<lparr>
     sg_ctx = (\<lambda>dv. (case dv_faults dv of FailsBefore # _ \<Rightarrow> Inl () | _ \<Rightarrow> Inr (), dv\<lparr>dv_faults := tl (dv_faults dv)\<rparr>)),
     sg_getwd = answering (\<lambda>_. Inr [slash]),
     sg_canonical = (\<lambda>p. prompt (answering (\<lambda>_. Inr (device_canon p)))),
     sg_canonicalBounded = (\<lambda>p n. on_store (prompt (answering (\<lambda>_. Inr (device_canon p))))),
     sg_lstat = device_info,
     sg_stat = device_info,
     sg_open = device_open,
     sg_readdirnames = device_names,
     sg_close = (\<lambda>h. answering (\<lambda>_. Inr ())),
     sg_read = (\<lambda>ctx. device_read),
     sg_captureIdentity = (\<lambda>ctx. device_identity),
     sg_commitFile = (\<lambda>ctx. device_commit),
     sg_commitRemoval = (\<lambda>ctx. device_remove),
     sg_prepareParent = (\<lambda>ctx p. prompt (answering (\<lambda>_. Inr ()))),
     sg_stageTree = (\<lambda>ctx. device_stage),
     sg_writeTree = device_write,
     sg_sealTree = (\<lambda>ctx k. prompt (answering (\<lambda>_. Inr ()))),
     sg_discardTree = device_discard,
     sg_commitTree = (\<lambda>ctx. device_publish)\<rparr>"

section \<open>It keeps the contract\<close>

lemma canon_fixed: "components cs \<Longrightarrow> device_canon (abs_path cs) = abs_path cs"
  by (simp add: device_canon_def clean_elements_abs)

lemma canon_components: "\<exists>cs. components cs \<and> device_canon p = abs_path cs"
  using clean_elements_components by (auto simp: device_canon_def)

lemma device_view [simp]: "dk_view (device_disk dv) = lookup_node (dv_files dv)" "dk_trees (device_disk dv) = map_of (dv_trees dv)"
  by (simp_all add: device_disk_def)

lemma schedule_disk [simp]: "device_disk (dv\<lparr>dv_faults := fs\<rparr>) = device_disk dv"
  "device_disk (dv\<lparr>dv_faults := fs, dv_files := files\<rparr>) = device_disk (dv\<lparr>dv_files := files\<rparr>)"
  by (simp_all add: device_disk_def)

lemma asked:
  "prompt (answering f) dv = (r, dv') \<Longrightarrow> device_disk dv' = device_disk dv \<and> (r = f (dv_files dv) \<or> r = Inl (StorageFailed 0))"
  by (auto simp: prompt_def answering_def device_disk_def Let_def split: list.splits fault.splits)

lemma asked_quiet: "device_disk (snd (prompt (answering f) dv)) = device_disk dv"
  by (metis asked surjective_pairing)

lemma scheduled_cases:
  assumes "scheduled m dv = (r, dv')"
  obtains (ran) fs where "dv' = snd (m (dv\<lparr>dv_faults := fs\<rparr>))" "r = fst (m (dv\<lparr>dv_faults := fs\<rparr>)) \<or> r = Inl (StorageFailed 0)"
  | (failed) fs where "dv' = dv\<lparr>dv_faults := fs\<rparr>" "r = Inl (StorageFailed 0)"
proof (cases "dv_faults dv")
  case Nil
  then have "dv\<lparr>dv_faults := []\<rparr> = dv" by (cases dv) simp
  then have same: "m (dv\<lparr>dv_faults := []\<rparr>) = (r, dv')" using assms Nil by (simp only: scheduled_def list.case)
  show thesis by (rule ran[of "[]"]) (simp_all add: same)
next
  case (Cons f fs)
  have run: "thesis" if "m (dv\<lparr>dv_faults := fs\<rparr>) = (x, dv')" "r = x \<or> r = Inl (StorageFailed 0)" for x
    by (rule ran[of fs]) (use that in simp_all)
  show thesis
    using assms Cons run failed[of fs] by (cases f; cases "m (dv\<lparr>dv_faults := fs\<rparr>)") (auto simp: scheduled_def Let_def)
qed

lemma lookup_filter: "lookup_node (filter (\<lambda>(q, _). P q) files) p = (if P p then lookup_node files p else Absent)"
proof -
  have "map_of (filter (\<lambda>(q, _). P q) files) p = (if P p then map_of files p else None)"
    by (induction files) auto
  then show ?thesis by (simp add: lookup_node_def)
qed

lemma lookup_Cons: "lookup_node ((q, n) # files) p =
    (if p = q then (case n of RegularNode c m \<Rightarrow> RegularNode c (mode_perm m) | _ \<Rightarrow> n) else lookup_node files p)"
  by (simp add: lookup_node_def split: node.split)

lemma lookup_masked: "lookup_node files p = RegularNode c m \<Longrightarrow> mode_perm m = m"
  by (auto simp: lookup_node_def split: option.splits node.splits)

lemma lookup_tree:
  "lookup_node (tree_files p fs @ filter (\<lambda>(q, _). \<not> under p q) files) = put_tree p fs (lookup_node files)"
proof
  fix q
  have self: "under p p" by (simp add: under_def)
  have "lookup_node (map (\<lambda>(name, content, mode). (go_join p name, RegularNode content mode)) fs) q =
      (case map_of (map (\<lambda>(name, file). (go_join p name, file)) fs) q of
         Some (content, mode) \<Rightarrow> RegularNode content (mode_perm mode) | None \<Rightarrow> Absent)"
    by (induction fs) (auto simp: lookup_Cons lookup_node_def[of "[]"])
  moreover have "lookup_node (xs @ filter (\<lambda>(q, _). \<not> under p q) files) q =
      (if under p q then lookup_node xs q else lookup_node files q)" if "\<forall>x \<in> set xs. under p (fst x)" for xs
    using that by (induction xs) (auto simp: lookup_Cons lookup_filter lookup_node_def[of "[]"])
  ultimately show "lookup_node (tree_files p fs @ filter (\<lambda>(q, _). \<not> under p q) files) q = put_tree p fs (lookup_node files) q"
    using self by (auto simp: tree_files_def lookup_Cons lookup_filter put_tree_def)
qed

lemma removed_lookup: "device_disk (dv\<lparr>dv_files := filter (\<lambda>(q, _).
     \<not> (q = p \<or> \<not> is_regular (lookup_node (dv_files dv) p) \<and> under p q)) (dv_files dv)\<rparr>) = removed p (device_disk dv)"
  by (simp add: device_disk_def removed_def) (rule ext, simp add: lookup_filter)

lemma put_lookup: "device_disk (dv\<lparr>dv_files := (p, RegularNode c m) # dv_files dv\<rparr>) = put_file p c m (device_disk dv)"
  by (simp add: device_disk_def put_file_def) (rule ext, simp add: lookup_Cons)

lemma lookup_absent: "\<not> list_ex (\<lambda>(q, _). under p q) files \<Longrightarrow> under p q \<Longrightarrow> lookup_node files q = Absent"
  by (auto simp: lookup_node_def list_ex_iff split: option.split dest!: map_of_SomeD)

text \<open>The device as the storage of the transactions: whatever its schedule.\<close>

interpretation device: file_storage device_storage device_disk device_canon UNIV
proof (unfold_locales, goal_cases)
  case (1 p w r w') then show ?case by (auto simp: device_storage_def dest: asked)
next
  case (2 p n s r' s') then show ?case
    by (cases s) (auto simp: device_storage_def on_store_def split: prod.splits sum.splits dest!: asked)
next
  case (3 p) then show ?case using canon_components[of p] canon_fixed by auto
next
  case (4 p) then show ?case using canon_components[of p] clean_absolute_components by blast
next
  case (5 w) then show ?case by (simp add: device_storage_def device_disk_def)
next
  case (6 w) then show ?case by (simp add: device_storage_def answering_def)
next
  case (7 p w) then show ?case by (simp add: device_storage_def device_info_def asked_quiet)
next
  case (8 p w) then show ?case
    by (auto simp: device_storage_def device_open_def prompt_def device_disk_def Let_def split: list.splits fault.splits)
next
  case (9 fd k w) then show ?case
    by (auto simp: device_storage_def device_names_def device_disk_def split: option.splits list.splits)
next
  case (10 fd w) then show ?case by (simp add: device_storage_def answering_def)
next
  case (11 ctx p w) then show ?case by (simp add: device_storage_def asked_quiet)
next
  case (12 ctx k w) then show ?case by (simp add: device_storage_def asked_quiet)
next
  case (13 p w) then show ?case by (simp add: device_storage_def device_info_def asked_quiet)
next
  case (14 p w i w') then show ?case
    by (auto simp: device_storage_def device_info_def node_info_def split: sum.splits node.splits dest!: asked)
next
  case (15 ctx p n w) then show ?case by (simp add: device_storage_def device_read_def asked_quiet)
next
  case (16 p ctx n w f w') then show ?case
    by (auto simp: device_storage_def device_read_def lookup_masked split: sum.splits node.splits if_splits dest!: asked)
next
  case (17 ctx p w) then show ?case by (simp add: device_storage_def device_identity_def asked_quiet)
next
  case (18 p ctx w w' q) then show ?case
    by (auto simp: device_storage_def device_identity_def lookup_absent split: node.splits if_splits dest!: asked)
next
  case (19 c ctx w u w') then show ?case using put_lookup[where dv = w and p = "fc_path c" and c = "fc_payload c" and m = "fc_mode c"]
    by (auto simp: device_storage_def device_commit_def elim!: scheduled_cases split: if_splits)
next
  case (20 x ctx w u w') then show ?case using removed_lookup[where dv = w and p = "lr_path x"]
    by (auto simp: device_storage_def device_remove_def elim!: scheduled_cases)
next
  case (21 ctx p w st w') then show ?case
    by (auto simp: device_storage_def device_stage_def prompt_def device_disk_def Let_def split: list.splits fault.splits)
next
  case (22 k name mode content w u w') then show ?case
    by (auto simp: device_storage_def device_write_def elim!: scheduled_cases split: option.splits)
next
  case (23 k w) then show ?case
    by (auto simp: device_storage_def device_discard_def scheduled_def Let_def split: list.splits fault.splits)
next
  case (24 w k p fs ctx u w') then show ?case
    by (auto simp: device_storage_def device_publish_def lookup_tree elim!: scheduled_cases)
qed

end
