(* ===== verification/FileSetCensus.thy ===== *)
theory FileSetCensus
  imports FileSetDevice
begin

text \<open>
  The work of a fence observation: whatever the state directory holds and whatever call fails, the census ends within
  its rounds and never charges more than \<^verbatim>\<open>MaximumFenceCensusWork\<close> has announced.
\<close>

section \<open>The cost of a computation\<close>

text \<open>The three totals of the budget grow by at most the given amounts; a result satisfies the first predicate, an error
  the second.\<close>

definition charged :: "fenceObservationBudget \<Rightarrow> int \<Rightarrow> int \<Rightarrow> int \<Rightarrow> fenceObservationBudget \<Rightarrow> bool" where
  "charged b p e y b' \<longleftrightarrow> fb_paths b' \<le> fb_paths b + p \<and> fb_entries b' \<le> fb_entries b + e \<and> fb_bytes b' \<le> fb_bytes b + y"

definition costs :: "int \<Rightarrow> int \<Rightarrow> int \<Rightarrow> ('a \<Rightarrow> bool) \<Rightarrow> (fileSetError \<Rightarrow> bool) \<Rightarrow> ('w, 'a) fileset \<Rightarrow> bool" where
  "costs p e y Q R m \<longleftrightarrow>
     (\<forall>b. triple (\<lambda>s. snd s = b) m (\<lambda>x s. charged b p e y (snd s) \<and> Q x) (\<lambda>err s. charged b p e y (snd s) \<and> R err))"

abbreviation finished :: "fileSetError \<Rightarrow> bool" where
  "finished err \<equiv> err \<noteq> WorkRefused CensusUnfinished"

named_theorems cost_rules \<open>calls that charge nothing, and the errors they raise\<close>

lemma charged_mono: "charged b p e y b' \<Longrightarrow> p \<le> p' \<Longrightarrow> e \<le> e' \<Longrightarrow> y \<le> y' \<Longrightarrow> charged b p' e' y' b'"
  by (simp add: charged_def)

lemma charged_trans: "charged b p e y b' \<Longrightarrow> charged b' p' e' y' b'' \<Longrightarrow> charged b (p + p') (e + e') (y + y') b''"
  by (simp add: charged_def)

lemma costsI:
  "(\<And>w b r w' b'. m (w, b) = (r, (w', b')) \<Longrightarrow> charged b p e y b' \<and> (case r of Inr x \<Rightarrow> Q x | Inl err \<Rightarrow> R err)) \<Longrightarrow>
   costs p e y Q R m"
  by (fastforce simp: costs_def triple_def split: prod.split sum.split)

lemma costsD:
  "costs p e y Q R m \<Longrightarrow> m (w, b) = (r, (w', b')) \<Longrightarrow>
   charged b p e y b' \<and> (case r of Inr x \<Rightarrow> Q x | Inl err \<Rightarrow> R err)"
  by (auto simp: costs_def triple_def split: prod.splits sum.splits)

lemma costs_mono:
  "costs p e y Q R m \<Longrightarrow> p \<le> p' \<Longrightarrow> e \<le> e' \<Longrightarrow> y \<le> y' \<Longrightarrow> (\<And>x. Q x \<Longrightarrow> Q' x) \<Longrightarrow> (\<And>x. R x \<Longrightarrow> R' x) \<Longrightarrow> costs p' e' y' Q' R' m"
  by (rule costsI) (auto dest!: costsD intro: charged_mono split: sum.splits)

lemma costs_bind:
  assumes "costs p e y Q R m" and "\<And>x. Q x \<Longrightarrow> costs p' e' y' Q' R (f x)" and "0 \<le> p'" "0 \<le> e'" "0 \<le> y'"
  shows "costs (p + p') (e + e') (y + y') Q' R (io_bind m f)"
proof (rule costsI)
  fix w b r w' b' assume run: "io_bind m f (w, b) = (r, (w', b'))"
  obtain r1 w1 b1 where m: "m (w, b) = (r1, (w1, b1))" by (metis prod_cases3)
  show "charged b (p + p') (e + e') (y + y') b' \<and> (case r of Inr x \<Rightarrow> Q' x | Inl err \<Rightarrow> R err)"
  proof (cases r1)
    case (Inl err)
    then show ?thesis using run m costsD[OF assms(1) m] assms(3-5) by (auto simp: io_bind_def intro: charged_mono)
  next
    case (Inr x)
    then have "f x (w1, b1) = (r, (w', b'))" "Q x" "charged b p e y b1"
      using run m costsD[OF assms(1) m] by (simp_all add: io_bind_def)
    then show ?thesis using costsD[OF assms(2)] charged_trans by blast
  qed
qed

lemma io_bind_assoc: "io_bind (io_bind m f) g = io_bind m (\<lambda>x. io_bind (f x) g)"
  by (rule ext) (simp add: io_bind_def split: prod.split sum.split)

text \<open>A step that charges nothing, and steps after it that charge nothing.\<close>

lemma costs_step_after:
  "costs p e y Q R m \<Longrightarrow> (\<And>x. Q x \<Longrightarrow> costs 0 0 0 Q' R (f x)) \<Longrightarrow> costs p e y Q' R (io_bind m f)"
  using costs_bind[of p e y Q R m 0 0 0 Q' f] by simp

lemma costs_step:
  "costs 0 0 0 Q R m \<Longrightarrow> (\<And>x. Q x \<Longrightarrow> costs p e y Q' R (f x)) \<Longrightarrow> 0 \<le> p \<Longrightarrow> 0 \<le> e \<Longrightarrow> 0 \<le> y \<Longrightarrow> costs p e y Q' R (io_bind m f)"
  using costs_bind[of 0 0 0 Q R m p e y Q' f] by simp

lemma costs_return [cost_rules]: "0 \<le> p \<Longrightarrow> 0 \<le> e \<Longrightarrow> 0 \<le> y \<Longrightarrow> Q x \<Longrightarrow> costs p e y Q R (io_return x)"
  by (auto simp: costs_def triple_def charged_def)

lemma costs_raise [cost_rules]: "0 \<le> p \<Longrightarrow> 0 \<le> e \<Longrightarrow> 0 \<le> y \<Longrightarrow> R err \<Longrightarrow> costs p e y Q R (io_raise err)"
  by (auto simp: costs_def triple_def charged_def)

lemma costs_refuse [cost_rules]: "R err \<Longrightarrow> costs 0 0 0 (\<lambda>_. \<not> c) R (io_refuse c err)"
  by (auto simp: costs_def triple_def charged_def)

lemma costs_ctx [cost_rules]: "R ContextFailure \<Longrightarrow> costs 0 0 0 (\<lambda>_. True) R (ctx_err sg ctx)"
  by (rule costsI) (auto simp: ctx_err_def charged_def split: prod.splits sum.splits goContext.splits)

lemma costs_store [cost_rules]: "(\<And>x. R (StorageFailure x)) \<Longrightarrow> costs 0 0 0 (\<lambda>_. True) R (on_store m)"
  by (rule costsI) (auto simp: on_store_def charged_def split: prod.splits sum.splits)

lemma costs_try [cost_rules]: "costs 0 0 0 (\<lambda>r. case r of Inl err \<Rightarrow> finished err | Inr _ \<Rightarrow> True) R (io_try (on_store m))"
  by (rule costsI) (auto simp: io_try_def on_store_def charged_def split: prod.splits sum.splits)

lemma costs_names [cost_rules]:
  "costs 0 0 0 (\<lambda>x. \<exists>w. x = fst (sg_readdirnames sg fd n w)) R (read_names sg fd n)"
  by (rule costsI, auto simp: read_names_def charged_def split: prod.splits, metis fst_conv)

lemma costs_wrap: "costs p e y Q (\<lambda>x. R (g x)) m \<Longrightarrow> costs p e y Q R (io_wrap g m)"
  unfolding costs_def by (blast intro: triple_wrap)

lemma costs_close: "costs p e y Q R m \<Longrightarrow> costs p e y Q R (then_close sg fd m)"
  by (rule costsI) (auto simp: then_close_def dest!: costsD split: prod.splits)

lemma finished_wraps [simp]:
  "finished err \<Longrightarrow> finished (wrapFileSetAccessUnprovable err)"
  "finished err \<Longrightarrow> finished (wrapFileSetCensusLimit err)"
  "finished (wrapFileSetEvidenceInvalid err)"
  by (auto simp: wrapFileSetAccessUnprovable_def wrapFileSetCensusLimit_def wrapFileSetFenceError_def
      wrapFileSetEvidenceInvalid_def is_context_error_def is_evidence_invalid_def error_is_def)

section \<open>Charges\<close>

lemma costs_work: "0 \<le> p \<Longrightarrow> 0 \<le> e \<Longrightarrow> 0 \<le> y \<Longrightarrow> costs p e y (\<lambda>_. True) finished (admitFileSetFenceWork p e y)"
  by (rule costsI) (auto simp: admitFileSetFenceWork_def io_wrap_def on_budget_def AdmitPhysicalWork_def charged_def
      split: prod.splits sum.splits if_splits)

text \<open>The depth of a path, which is what one traversal is charged.\<close>

lemma path_work_error: "fileSetAbsolutePathWork path depth = Inl err \<Longrightarrow> finished err"
  by (auto simp: fileSetAbsolutePathWork_def ChargeAbsolutePath_def absolutePathDepth_def counter_AdmitPathComponents_def Let_def
      ebind_eq_Inl split: if_splits)

lemma path_work_abs:
  assumes "fileSetAbsolutePathWork path depth = Inr k"
  obtains cs where "components cs" "path = abs_path cs" "k = int (length cs)"
proof -
  have "clean_absolute path" and k: "ebind (absolutePathDepth path) (\<lambda>d. if d > depth then Inl (WorkRefused (PathTooDeep d))
      else counter_AdmitPathComponents d 0) = Inr k"
    using assms by (auto simp: fileSetAbsolutePathWork_def ChargeAbsolutePath_def clean_absolute_def go_is_abs_def split: if_splits)
  then obtain cs where cs: "components cs" "path = abs_path cs" by (auto simp: clean_absolute_components)
  have "absolutePathDepth path = Inr (int (length cs))"
    using cs clean_abs_path[OF cs(1)] split_components[OF cs(1)]
    by (cases "cs = []") (auto simp: absolutePathDepth_def Let_def abs_path_def go_is_abs_def join_on_Cons neq_Nil_conv components_def component_def)
  then show thesis using that[OF cs] k by (auto simp: counter_AdmitPathComponents_def split: if_splits)
qed

lemma private_component: "slash \<notin> set name \<Longrightarrow> fileSetPrivateName name \<Longrightarrow> component name"
  by (auto simp: fileSetPrivateName_def has_prefix_def component_def fileSetTemporaryPrefix_def fileSetTombstonePrefix_def
      fileSetCleanupPrefix_def fileSetLegacyStagePrefix_def)

lemma child_work:
  assumes "fileSetAbsolutePathWork dir depth = Inr k" and "component name" and "fileSetAbsolutePathWork (go_join dir name) depth = Inr k'"
  shows "k' = k + 1"
proof -
  obtain cs where cs: "components cs" "dir = abs_path cs" "k = int (length cs)" using path_work_abs[OF assms(1)] .
  obtain ds where "components ds" "go_join dir name = abs_path ds" "k' = int (length ds)" using path_work_abs[OF assms(3)] .
  moreover have "go_join dir name = abs_path (cs @ [name])" using join_component[OF cs(1) assms(2)] cs(2) by simp
  moreover have "components (cs @ [name])" using cs(1) assms(2) by (simp add: components_def)
  ultimately show ?thesis using abs_path_inject[of ds "cs @ [name]"] cs(3) by simp
qed

lemma observation_work:
  "fileSetAbsolutePathWork path depth = Inr k \<Longrightarrow> admitFileSetFenceObservation path depth e y = admitFileSetFenceWork k e y"
  by (rule ext) (simp add: admitFileSetFenceObservation_def on_result_def io_wrap_def io_bind_def)

lemma costs_observation:
  assumes "\<And>k. fileSetAbsolutePathWork path depth = Inr k \<Longrightarrow> 0 \<le> k \<and> k \<le> p" and "0 \<le> p" "0 \<le> e" "0 \<le> y"
  shows "costs p e y (\<lambda>_. True) finished (admitFileSetFenceObservation path depth e y)"
proof (cases "fileSetAbsolutePathWork path depth")
  case (Inl err)
  then show ?thesis using finished_wraps(1)[OF path_work_error[OF Inl]] assms(2-4)
    by (simp add: admitFileSetFenceObservation_def io_wrap_def on_result_def io_bind_def costs_def triple_def charged_def)
next
  case (Inr k)
  show ?thesis unfolding observation_work[OF Inr] using assms(1)[OF Inr] assms(3,4) by (intro costs_mono[OF costs_work]) simp_all
qed

section \<open>The names\<close>

abbreviation lists_names :: "'w storage \<Rightarrow> bool" where
  "lists_names sg \<equiv> \<forall>fd n w. \<forall>name \<in> set (fst (fst (sg_readdirnames sg fd n w))). slash \<notin> set name"

text \<open>The part of a name's step after its count was admitted.\<close>

abbreviation census_entry :: "'w storage \<Rightarrow> string \<Rightarrow> int \<Rightarrow> string list \<times> int \<Rightarrow> string \<Rightarrow> ('w, string list \<times> int) fileset" where
  "census_entry sg dir depth \<equiv> \<lambda>(residue, seen) name.
     if name = transactionDirName \<or> \<not> fileSetPrivateName name then io_return (residue, seen + 1)
     else io_bind (admitFileSetFenceObservation (go_join dir name) depth 1 0) (\<lambda>_.
       io_bind (io_try (on_store (sg_lstat sg (go_join dir name)))) (\<lambda>found. case found of
           Inl e \<Rightarrow> if e = StorageFailure NotExist then io_return (residue, seen + 1)
                    else io_raise (wrapFileSetAccessUnprovable e)
         | Inr info \<Rightarrow>
             io_return (if fileSetFenceResidue name (fi_mode info) then residue @ [go_join dir name] else residue, seen + 1)))"

lemma costs_name:
  assumes "seen + 1 \<le> limit \<Longrightarrow> costs p e 0 Q finished (census_entry sg dir depth (residue, seen) name)" and "0 \<le> p" "0 \<le> e"
  shows "costs p (e + 1) maximumStateDirFenceNameBytes Q finished (census_name sg ctx dir limit depth (residue, seen) name)"
proof -
  let ?bytes = "int (length name)"
  have entry: "costs p e 0 Q finished (io_bind (io_refuse (limit < seen + 1) (wrapFileSetCensusLimit (WorkRefused TooManyEntries)))
      (\<lambda>_. census_entry sg dir depth (residue, seen) name))"
    by (rule costs_step[OF costs_refuse]) (use assms in simp_all)
  have "costs p (e + 1) maximumStateDirFenceNameBytes Q finished (io_bind (admitFileSetFenceWork 0 1 ?bytes) (\<lambda>_.
      io_bind (io_refuse (limit < seen + 1) (wrapFileSetCensusLimit (WorkRefused TooManyEntries)))
      (\<lambda>_. census_entry sg dir depth (residue, seen) name)))" if "?bytes \<le> maximumStateDirFenceNameBytes"
    by (rule costs_mono[OF costs_bind[OF costs_work entry]]) (use assms(2,3) that in simp_all)
  then show ?thesis
    unfolding census_name_def prod.case Let_def using assms(2,3)
    by (intro costs_step[OF costs_ctx] costs_step[OF costs_refuse]) (simp_all add: maximumStateDirFenceNameBytes_def)
qed

lemma costs_counted:
  assumes "fileSetAbsolutePathWork dir depth = Inr k" and "slash \<notin> set name" and "seen + 1 \<le> limit"
  shows "costs (k + 1) 2 maximumStateDirFenceNameBytes (\<lambda>a. snd a = seen + 1) finished
    (census_name sg ctx dir limit depth (residue, seen) name)"
proof -
  have "0 \<le> k" using assms(1) by (auto elim: path_work_abs)
  have observe: "costs (k + 1) 1 0 (\<lambda>_. True) finished (admitFileSetFenceObservation (go_join dir name) depth 1 0)"
    if "fileSetPrivateName name"
    using child_work[OF assms(1) private_component[OF assms(2) that]] \<open>0 \<le> k\<close> by (intro costs_observation) auto
  have entry: "costs (k + 1) 1 0 (\<lambda>a. snd a = seen + 1) finished (io_bind (admitFileSetFenceObservation (go_join dir name) depth 1 0) (\<lambda>_.
       io_bind (io_try (on_store (sg_lstat sg (go_join dir name)))) (\<lambda>found. case found of
           Inl e \<Rightarrow> if e = StorageFailure NotExist then io_return (residue, seen + 1)
                    else io_raise (wrapFileSetAccessUnprovable e)
         | Inr info \<Rightarrow>
             io_return (if fileSetFenceResidue name (fi_mode info) then residue @ [go_join dir name] else residue, seen + 1))))"
    if "fileSetPrivateName name"
    using observe[OF that] by (rule costs_step_after) (rule costs_step[OF costs_try], auto intro!: cost_rules split: sum.split)
  have "costs (k + 1) 1 0 (\<lambda>a. snd a = seen + 1) finished (census_entry sg dir depth (residue, seen) name)"
    using entry \<open>0 \<le> k\<close> by (auto intro!: cost_rules)
  from costs_name[OF this] show ?thesis using \<open>0 \<le> k\<close> by simp
qed

lemma costs_refused:
  "costs 0 1 maximumStateDirFenceNameBytes (\<lambda>_. False) finished (census_name sg ctx dir limit depth (residue, limit) name)"
  using costs_name[of limit limit 0 0 "\<lambda>_. False"] by simp

text \<open>What the rest of a census may cost that has seen some names already.\<close>

abbreviation costs_rest :: "int \<Rightarrow> int \<Rightarrow> ('a \<Rightarrow> bool) \<Rightarrow> ('w, 'a) fileset \<Rightarrow> bool" where
  "costs_rest C left Q m \<equiv> costs (left * C) (2 * left + 1) ((left + 1) * maximumStateDirFenceNameBytes) Q finished m"

lemma costs_batch:
  assumes "fileSetAbsolutePathWork dir depth = Inr k" and "\<forall>name \<in> set names. slash \<notin> set name"
    and "0 \<le> seen" "seen \<le> limit"
    and "\<And>residue. seen + int (length names) \<le> limit \<Longrightarrow>
      costs_rest (k + 1) (limit - seen - int (length names)) Q (K (residue, seen + int (length names)))"
  shows "costs_rest (k + 1) (limit - seen) Q (io_bind (io_foldl (census_name sg ctx dir limit depth) (residue, seen) names) K)"
  using assms(2-)
proof (induction names arbitrary: residue seen)
  case Nil
  then show ?case by (simp add: io_bind_def)
next
  case (Cons name names)
  let ?rest = "\<lambda>a. io_bind (io_foldl (census_name sg ctx dir limit depth) a names) K"
  have k: "0 \<le> k" using assms(1) by (auto elim: path_work_abs)
  have split: "io_bind (io_foldl (census_name sg ctx dir limit depth) (residue, seen) (name # names)) K =
      io_bind (census_name sg ctx dir limit depth (residue, seen) name) ?rest"
    by (simp add: io_bind_assoc)
  show ?case
  proof (cases "seen = limit")
    case True
    show ?thesis unfolding split unfolding True
      by (rule costs_mono[OF costs_step_after[OF costs_refused]]) (simp_all add: k)
  next
    case False
    then have less: "seen + 1 \<le> limit" using Cons.prems(3) by simp
    have rest: "costs_rest (k + 1) (limit - (seen + 1)) Q (?rest a)" if "snd a = seen + 1" for a
      using Cons.IH[of "seen + 1" "fst a"] Cons.prems(1,2,4) less that by (cases a) (simp add: algebra_simps)
    have nonneg: "0 \<le> (limit - (seen + 1)) * (k + 1)" using less k by simp
    show ?thesis unfolding split
      by (rule costs_mono[OF costs_bind[OF costs_counted[OF assms(1) _ less] rest]])
        (use Cons.prems(1) nonneg less in \<open>simp_all add: algebra_simps maximumStateDirFenceNameBytes_def\<close>)
  qed
qed

lemma costs_finish: "costs 0 0 0 (\<lambda>_. True) finished (finishFileSetResidueInspection sg ctx residue)"
  unfolding finishFileSetResidueInspection_def by (intro costs_step[OF costs_ctx] cost_rules) simp_all

lemma costs_batches:
  assumes "fileSetAbsolutePathWork dir depth = Inr k" and "lists_names sg" and "0 \<le> seen" "seen \<le> limit" "limit - seen < int n"
  shows "costs_rest (k + 1) (limit - seen) (\<lambda>_. True) (census_batches n sg ctx dir limit depth fd (residue, seen))"
  using assms(3-)
proof (induction n arbitrary: residue seen)
  case 0
  then show ?case by simp
next
  case (Suc n)
  have k: "0 \<le> k" using assms(1) by (auto elim: path_work_abs)
  have nonneg: "0 \<le> left * (k + 1)" "0 \<le> 2 * left + 1" "0 \<le> (left + 1) * maximumStateDirFenceNameBytes" if "0 \<le> left" for left
    using that k by (simp_all add: maximumStateDirFenceNameBytes_def)
  have finish: "costs_rest (k + 1) left (\<lambda>_. True) (finishFileSetResidueInspection sg ctx found)" if "0 \<le> left" for left found
    by (rule costs_mono[OF costs_finish]) (use nonneg[OF that] in simp_all)
  show ?case
    unfolding census_batches.simps
  proof (rule costs_step[OF costs_ctx], simp, rule costs_step[OF costs_names])
    fix answer assume "\<exists>w. answer = fst (sg_readdirnames sg fd stateDirFenceEnumerationBatch w)"
    then obtain names failure where answer: "answer = (names, failure)" and plain: "\<forall>name \<in> set names. slash \<notin> set name"
      using assms(2) by (metis fst_conv surj_pair)
    show "costs_rest (k + 1) (limit - seen) (\<lambda>_. True) (case answer of (names, readErr) \<Rightarrow>
        io_bind (io_foldl (census_name sg ctx dir limit depth) (residue, seen) names) (\<lambda>found'.
        case readErr of
          Some EndOfDirectory \<Rightarrow> finishFileSetResidueInspection sg ctx (fst found')
        | Some (ListFailure e) \<Rightarrow> io_raise (wrapFileSetAccessUnprovable (StorageFailure e))
        | None \<Rightarrow>
            if names = [] then finishFileSetResidueInspection sg ctx (fst found')
            else census_batches n sg ctx dir limit depth fd found'))"
      unfolding answer prod.case
    proof (rule costs_batch[OF assms(1) plain Suc.prems(1,2)], goal_cases)
      case (1 found)
      define left where "left = limit - seen - int (length names)"
      have left: "0 \<le> left" using 1 by (simp add: left_def)
      have again: "costs_rest (k + 1) left (\<lambda>_. True)
          (census_batches n sg ctx dir limit depth fd (found, seen + int (length names)))" if "names \<noteq> []"
        using Suc.IH[of "seen + int (length names)" found] Suc.prems 1 that by (cases names) (simp_all add: left_def algebra_simps)
      show ?case unfolding left_def[symmetric]
        using again finish[OF left] nonneg[OF left] by (auto split: option.split listFailure.split intro!: cost_rules)
    qed
  qed (use nonneg Suc.prems(2) in simp_all)
qed

section \<open>The observation\<close>

lemma costs_inspection:
  assumes "fileSetAbsolutePathWork dir depth = Inr k" and "lists_names sg" and "1 \<le> limit"
  shows "costs (limit * (k + 1) + 2 * k) (2 * limit + 3) ((limit + 1) * maximumStateDirFenceNameBytes) (\<lambda>_. True) finished
    (inspectAbandonedFileSetResidueLimitedWithBudget sg ctx dir limit depth)"
proof -
  have k: "0 \<le> k" using assms(1) by (auto elim: path_work_abs)
  let ?p = "limit * (k + 1)" and ?e = "2 * limit + 1" and ?y = "(limit + 1) * maximumStateDirFenceNameBytes"
  have nonneg: "0 \<le> ?p" "0 \<le> ?e" "0 \<le> ?y" using assms(3) k by (simp_all add: maximumStateDirFenceNameBytes_def)
  have observe: "costs k 1 0 (\<lambda>_. True) finished (admitFileSetFenceObservation dir depth 1 0)"
    using assms(1) k by (intro costs_observation) auto
  have census: "costs ?p ?e ?y (\<lambda>_. True) finished
      (then_close sg fd (census_batches (nat limit + 2) sg ctx dir limit depth fd ([], 0)))" for fd
    using costs_close[OF costs_batches[OF assms(1,2), of 0 limit "nat limit + 2"]] assms(3) by simp
  have opened: "costs (k + ?p) (1 + ?e) (0 + ?y) (\<lambda>_. True) finished
      (io_bind (admitFileSetFenceObservation dir depth 1 0) (\<lambda>_.
       io_bind (io_wrap wrapFileSetAccessUnprovable (on_store (sg_open sg dir))) (\<lambda>directory.
       then_close sg directory (census_batches (nat limit + 2) sg ctx dir limit depth directory ([], 0)))))"
    by (rule costs_bind[OF observe costs_step[OF costs_wrap[OF costs_store] census]]) (use nonneg in simp_all)
  have found: "costs (k + ?p) (1 + ?e) (0 + ?y) (\<lambda>_. True) finished (case found of
         Inl e \<Rightarrow>
           if e = StorageFailure NotExist then finishFileSetResidueInspection sg ctx []
           else io_raise (wrapFileSetAccessUnprovable e)
       | Inr info \<Rightarrow>
           io_bind (io_refuse (\<not> mode_isDir (fi_mode info)) (wrapFileSetAccessUnprovable (RequestInvalid StateDirNotDirectory))) (\<lambda>_.
           io_bind (admitFileSetFenceObservation dir depth 1 0) (\<lambda>_.
           io_bind (io_wrap wrapFileSetAccessUnprovable (on_store (sg_open sg dir))) (\<lambda>directory.
           then_close sg directory (census_batches (nat limit + 2) sg ctx dir limit depth directory ([], 0))))))"
    if "case found of Inl err \<Rightarrow> finished err | Inr _ \<Rightarrow> True" for found
  proof (cases found)
    case (Inl err)
    then show ?thesis using that nonneg k by (auto intro!: cost_rules costs_mono[OF costs_finish])
  next
    case (Inr info)
    show ?thesis unfolding Inr sum.case
      by (rule costs_step[OF costs_refuse opened]) (use nonneg k in simp_all)
  qed
  have "costs (k + (k + ?p)) (1 + (1 + ?e)) (0 + (0 + ?y)) (\<lambda>_. True) finished
      (inspectAbandonedFileSetResidueLimitedWithBudget sg ctx dir limit depth)"
    unfolding inspectAbandonedFileSetResidueLimitedWithBudget_def
    by (rule costs_step[OF costs_ctx], simp, rule costs_step[OF costs_refuse], simp,
        rule costs_bind[OF observe costs_step[OF costs_try found]]) (use nonneg k in simp_all)
  then show ?thesis by (rule costs_mono) simp_all
qed

text \<open>Loading a marker of generation 3 charges nothing.\<close>

lemma validate_3_free: "costs 0 0 0 (\<lambda>_. True) (\<lambda>_. True) (validateMarkerForVersionWithBudget path m MetadataTransaction 0)"
  by (rule costsI) (auto simp: charged_def dest: arg_cong[where f = "snd \<circ> snd"] simp: validate_3_world split: sum.split)

lemma load_free: "costs 0 0 0 (\<lambda>_. True) (\<lambda>_. True) (loadMarkerAtCanonicalPath sg mc ctx path)"
proof -
  have result: "costs 0 0 0 (\<lambda>_. True) (\<lambda>_. True) (on_result v)" for v
    by (simp add: costs_def triple_def on_result_def charged_def split: sum.split)
  have "MetadataTransaction \<noteq> MetadataTransactionReference"
    by (simp add: MetadataTransaction_def MetadataTransactionReference_def)
  then show ?thesis
    unfolding loadMarkerAtCanonicalPath_def loadMarkerAtCanonicalPathVersionWithBudget_def
    by (auto intro!: costs_step[where Q = "\<lambda>_. True"] costs_wrap costs_store result validate_3_free cost_rules
        costs_mono[OF costs_refuse] split: prod.split)
qed

text \<open>The announced work covers both ways an observation can go.\<close>

lemma announced_work:
  assumes "MaximumFenceCensusWork dir depth = Inr work"
  obtains k ke km where "fileSetAbsolutePathWork dir depth = Inr k" "fileSetAbsolutePathWork (transactionDir dir) depth = Inr ke"
    "fileSetAbsolutePathWork (markerPath dir) depth = Inr km" "0 \<le> k" "0 \<le> ke" "0 \<le> km"
    "ke + km \<le> cw_PathComponents work" "ke + (maximumStateDirFenceEntries * (k + 1) + 2 * k) \<le> cw_PathComponents work"
    "2 \<le> cw_Entries work" "1 + (2 * maximumStateDirFenceEntries + 3) \<le> cw_Entries work"
    "maximumMarkerBytes \<le> cw_Bytes work" "(maximumStateDirFenceEntries + 1) * maximumStateDirFenceNameBytes \<le> cw_Bytes work"
proof -
  obtain ke k kc km where work: "fileSetAbsolutePathWork (transactionDir dir) depth = Inr ke" "fileSetAbsolutePathWork dir depth = Inr k"
      "fileSetAbsolutePathWork (go_join dir longest_private_name) depth = Inr kc" "fileSetAbsolutePathWork (markerPath dir) depth = Inr km"
    and total: "cw_PathComponents work = max (km + ke) (kc * maximumStateDirFenceEntries + k * 2 + ke)"
      "cw_Entries work = max 2 (maximumStateDirFenceEntries + 1 + (maximumStateDirFenceEntries + 3))"
      "cw_Bytes work = max maximumMarkerBytes ((maximumStateDirFenceEntries + 1) * maximumStateDirFenceNameBytes)"
    using assms by (auto simp: MaximumFenceCensusWork_def maximumFileSetFenceCensusWork_def ebind_eq_Inr Let_def
        fileSetWorkAdd_def fileSetWorkMultiply_def split: if_splits)
  have "slash \<notin> set longest_private_name" "fileSetPrivateName longest_private_name"
    by (simp_all add: longest_private_name_def fileSetPrivateName_def has_prefix_def fileSetTemporaryPrefix_def)
  then have "kc = k + 1" using child_work[OF work(2) private_component work(3)] by simp
  moreover have "0 \<le> k" "0 \<le> ke" "0 \<le> km" using work by (auto elim!: path_work_abs)
  ultimately show thesis using total by (intro that[OF work(2,1,4)]) (simp_all add: mult.commute)
qed

lemma costs_clear_fence:
  assumes "MaximumFenceCensusWork dir depth = Inr work" and "lists_names sg"
  shows "costs (cw_PathComponents work) (cw_Entries work) (cw_Bytes work) (\<lambda>_. True) finished (ObserveClearFenceAt sg mc dir depth)"
proof -
  obtain k ke km where k: "fileSetAbsolutePathWork dir depth = Inr k" "fileSetAbsolutePathWork (transactionDir dir) depth = Inr ke"
    "fileSetAbsolutePathWork (markerPath dir) depth = Inr km" "0 \<le> k" "0 \<le> ke" "0 \<le> km"
    and w: "ke + km \<le> cw_PathComponents work" "ke + (maximumStateDirFenceEntries * (k + 1) + 2 * k) \<le> cw_PathComponents work"
    "2 \<le> cw_Entries work" "1 + (2 * maximumStateDirFenceEntries + 3) \<le> cw_Entries work"
    "maximumMarkerBytes \<le> cw_Bytes work" "(maximumStateDirFenceEntries + 1) * maximumStateDirFenceNameBytes \<le> cw_Bytes work"
    using announced_work[OF assms(1)] .
  let ?p = "cw_PathComponents work - ke" and ?e = "cw_Entries work - 1" and ?y = "cw_Bytes work"
  have evidence: "costs ke 1 0 (\<lambda>_. True) finished (admitFileSetFenceObservation (transactionDir dir) depth 1 0)"
    and marker: "costs km 1 maximumMarkerBytes (\<lambda>_. True) finished (admitFileSetFenceObservation (markerPath dir) depth 1 maximumMarkerBytes)"
    using k by (auto intro!: costs_observation simp: maximumMarkerBytes_def)
  have refuse: "costs 0 0 0 (\<lambda>_. True) finished (io_refuse c (AbandonedFileSetResidue residue))" for c residue
    by (rule costs_mono[OF costs_refuse]) simp_all
  have census: "costs ?p ?e ?y (\<lambda>_. True) finished (rejectAbandonedFileSetResidueWithBudget sg Cancellable dir depth)"
    unfolding rejectAbandonedFileSetResidueWithBudget_def
    by (rule costs_mono[OF costs_step_after[OF costs_inspection[OF k(1) assms(2)] refuse]])
      (use w in \<open>simp_all add: maximumStateDirFenceEntries_def\<close>)
  have load: "costs 0 0 0 (\<lambda>_. True) finished
      (io_wrap (\<lambda>e. wrapFileSetEvidenceInvalid (if is_marker_absent e then EvidenceRefused EvidenceIncomplete else e))
        (io_bind (loadMarkerAtCanonicalPath sg mc Cancellable (markerPath dir)) (\<lambda>_. io_return ())))"
    by (rule costs_wrap, rule costs_mono[OF costs_step_after[OF load_free]]) (auto intro: cost_rules)
  have published: "costs ?p ?e ?y (\<lambda>_. True) finished
      (io_bind (admitFileSetFenceObservation (markerPath dir) depth 1 maximumMarkerBytes) (\<lambda>_.
       io_bind (io_wrap (\<lambda>e. wrapFileSetEvidenceInvalid (if is_marker_absent e then EvidenceRefused EvidenceIncomplete else e))
         (io_bind (loadMarkerAtCanonicalPath sg mc Cancellable (markerPath dir)) (\<lambda>_. io_return ()))) (\<lambda>_.
       io_raise (InterruptedFileSetTransaction (markerPath dir)))))"
    by (rule costs_mono[OF costs_step_after[OF marker costs_step[OF load]]]) (use w k in \<open>auto intro: cost_rules\<close>)
  have nonneg: "0 \<le> ?p" "0 \<le> ?e" "0 \<le> ?y" using w k by (auto simp: maximumStateDirFenceEntries_def maximumMarkerBytes_def)
  have "costs (ke + ?p) (1 + ?e) (0 + ?y) (\<lambda>_. True) finished (ObserveClearFenceAt sg mc dir depth)"
    unfolding ObserveClearFenceAt_def requireClearFileSetAtCanonicalPathVersion_def Let_def
  proof (rule costs_step[OF costs_ctx], simp, rule costs_bind[OF evidence], rule costs_step[OF costs_try], goal_cases)
    case 1
    then show ?case
      using census published nonneg by (auto split: sum.splits intro!: cost_rules costs_step[OF costs_refuse])
  qed (use nonneg k in simp_all)
  then show ?thesis by simp
qed

text \<open>C37: the work a caller reserves is enough. When the announcement of a fence's census succeeds and the directory
  lists names without a slash, an observation that ends in any way, with a clear fence or an error of any call, has
  charged at most the announced path components, entries and bytes; and its loop over the batches has ended of its
  own, never because the rounds of the model ran out.\<close>

theorem census_within_announced:
  assumes "MaximumFenceCensusWork stateDir depth = Inr work"
    and "\<forall>fd n w. \<forall>name \<in> set (fst (fst (sg_readdirnames sg fd n w))). slash \<notin> set name"
    and "ObserveClearFenceAt sg mc stateDir depth (w, b) = (r, (w', b'))"
  shows "fb_paths b' \<le> fb_paths b + cw_PathComponents work \<and> fb_entries b' \<le> fb_entries b + cw_Entries work \<and>
    fb_bytes b' \<le> fb_bytes b + cw_Bytes work \<and> r \<noteq> Inl (WorkRefused CensusUnfinished)"
  using costsD[OF costs_clear_fence[OF assms(1,2)] assms(3)] by (auto simp: charged_def)

text \<open>A state directory with a file and an abandoned directory beside an ordinary name.\<close>

definition littered_device :: device where
  "littered_device = \<lparr>dv_files = [(''/s'', OtherNode), (''/s/.daem-tmp-a'', RegularNode [] 0x180),
     (''/s/.daem-tmp-b'', OtherNode), (''/s/notes'', RegularNode [] 0x180)],
     dv_trees = [], dv_listings = [], dv_handle = 0, dv_faults = []\<rparr>"

definition plain_storage :: "device storage" where
  "plain_storage = device_storage\<lparr>sg_readdirnames := \<lambda>h n dv.
     (case device_names h n dv of ((names, failure), dv') \<Rightarrow> ((filter (\<lambda>name. slash \<notin> set name) names, failure), dv'))\<rparr>"

definition unread_codec :: marker_codec where
  "unread_codec = \<lparr>mc_sha = (\<lambda>_. []), mc_decoder = (\<lambda>_. ([], False)), mc_indent = (\<lambda>_. [])\<rparr>"

lemma littered_run:
  "fst (ObserveClearFenceAt plain_storage mc ''/s'' 64 (littered_device, fresh_budget)) = Inl (AbandonedFileSetResidue [''/s/.daem-tmp-b''])"
  "snd (snd (ObserveClearFenceAt plain_storage mc ''/s'' 64 (littered_device, fresh_budget))) =
    \<lparr>fb_paths = 8, fb_entries = 8, fb_bytes = 27\<rparr>"
  by code_simp+

lemma littered_announced:
  "MaximumFenceCensusWork ''/s'' 64 = Inr \<lparr>cw_PathComponents = 8196, cw_Entries = 8196, cw_Bytes = 16781312\<rparr>"
  by code_simp

lemma plain_names: "\<forall>fd n w. \<forall>name \<in> set (fst (fst (sg_readdirnames plain_storage fd n w))). slash \<notin> set name"
  by (auto simp: plain_storage_def split: prod.split)

theorem census_within_announced_witness:
  "\<exists>work dv. MaximumFenceCensusWork ''/s'' 64 = Inr work \<and>
    ObserveClearFenceAt plain_storage unread_codec ''/s'' 64 (littered_device, fresh_budget) =
      (Inl (AbandonedFileSetResidue [''/s/.daem-tmp-b'']), (dv, \<lparr>fb_paths = 8, fb_entries = 8, fb_bytes = 27\<rparr>)) \<and>
    8 \<le> cw_PathComponents work \<and> 8 \<le> cw_Entries work \<and> 27 \<le> cw_Bytes work"
proof -
  obtain dv where run: "ObserveClearFenceAt plain_storage unread_codec ''/s'' 64 (littered_device, fresh_budget) =
      (Inl (AbandonedFileSetResidue [''/s/.daem-tmp-b'']), (dv, \<lparr>fb_paths = 8, fb_entries = 8, fb_bytes = 27\<rparr>))"
    using littered_run[of unread_codec] by (metis surjective_pairing)
  from census_within_announced[OF littered_announced plain_names run] run littered_announced show ?thesis
    by (simp add: fresh_budget_def)
qed

end
