(* ===== verification/FileSetWitness.thy ===== *)
theory FileSetWitness
  imports FileSetDevice
begin

text \<open>
  A commit of two files on a device, and the device as a crash in the middle of it leaves it: the properties of file
  sets at a concrete place.
\<close>

section \<open>The device before\<close>

definition sample_device :: device where
  "sample_device = \<lparr>dv_files = [(''/s'', OtherNode), (''/a'', RegularNode ''old'' 0x1A4)], dv_trees = [], dv_listings = [],
     dv_handle = 0, dv_faults = replicate 30 Runs @ [FailsAfter]\<rparr>"

definition sample_input :: FileSetInput where
  "sample_input = \<lparr>in_StateDir = ''/s'', in_Targets =
     [\<lparr>ft_path = ''/c'', ft_content = ''made'', ft_write = True, ft_commitPoint = True\<rparr>,
      \<lparr>ft_path = ''/a'', ft_content = ''new'', ft_write = True, ft_commitPoint = False\<rparr>]\<rparr>"

definition sample_targets :: "FileTarget list" where
  "sample_targets = rev (in_Targets sample_input)"

text \<open>A codec that writes and reads one value.\<close>

definition sample_codec :: "json \<Rightarrow> marker_codec" where
  "sample_codec j = \<lparr>mc_sha = (\<lambda>c. take 32 (c @ replicate 32 (CHR 0x00))), mc_decoder = (\<lambda>_. (tokens j, True)), mc_indent = (\<lambda>_. ''{}'')\<rparr>"

definition sample_marker :: transactionMarker where
  "sample_marker = commit_marker (sample_codec JNull) MetadataTransaction False ''/s'' sample_targets (device_disk sample_device)"

abbreviation codec :: marker_codec where
  "codec \<equiv> sample_codec (marker_json sample_marker)"

lemma sample_sha: "length (mc_sha (sample_codec j) c) = 32"
  by (simp add: sample_codec_def)

lemma empty_object_prints: "prints (sample_codec j) j"
proof -
  have "utf8_valid (''{}'' @ [CHR 0x0A]) \<and> list_all surrogates_paired (text_literals (''{}'' @ [CHR 0x0A]))" by code_simp
  then show ?thesis by (simp add: prints_def sample_codec_def)
qed

lemma sample_prints: "prints codec (marker_json sample_marker)"
  by (rule empty_object_prints)

text \<open>Markers and states depend on the codec only through its digest.\<close>

lemma holds_codec: "mc_sha mc = mc_sha mc' \<Longrightarrow> holds mc d p h m = holds mc' d p h m"
  by (simp add: holds_def cong: node.case_cong)

lemma codec_states:
  assumes "mc_sha mc = mc_sha mc'"
  shows "mixed mc d m = mixed mc' d m" "images_kept mc d m = images_kept mc' d m"
  by (simp_all add: mixed_def images_kept_def before_at_def after_at_def in_state_def holds_codec[OF assms])

lemma commit_marker_codec:
  assumes "mc_sha mc = mc_sha mc'"
  shows "commit_marker mc version False S ts d = commit_marker mc' version False S ts d"
  by (simp add: commit_marker_def marker_of_def rows_of_def row_of_def captured_def kept_reference_def assms cong: node.case_cong)

lemma sample_digest: "mc_sha (sample_codec j) = mc_sha (sample_codec JNull)"
  by (simp add: sample_codec_def)

lemma sample_commit_marker:
  "commit_marker codec MetadataTransaction False ''/s'' sample_targets (device_disk sample_device) = sample_marker"
  unfolding sample_marker_def by (rule commit_marker_codec[OF sample_digest])

lemma sample_commit_prints:
  "prints codec (marker_json (commit_marker codec MetadataTransaction False ''/s'' sample_targets (device_disk sample_device)))"
  using sample_prints by (simp only: sample_commit_marker)

lemma sample_requested: "sample_targets = requested device_canon (in_Targets sample_input)"
  by code_simp

lemma sample_state_dir: "go_is_abs (in_StateDir sample_input)" "''/s'' = state_dir device_canon (in_StateDir sample_input)"
  by code_simp+

lemma sample_place:
  "commit_place device_canon UNIV ''/s'' sample_targets (device_disk sample_device)" "gone ''/s'' (device_disk sample_device)"
  "well_targeted sample_targets" "capturable (device_disk sample_device) sample_targets"
  "\<forall>t \<in> set sample_targets. clean_absolute (ft_path t) \<and> device_canon (ft_path t) = ft_path t"
proof -
  have "\<forall>t \<in> set sample_targets. \<not> under (transactionDir ''/s'') (ft_path t)" by code_simp
  moreover have "state_dir device_canon ''/s'' = ''/s''" "device_canon (markerPath ''/s'') = markerPath ''/s''" by code_simp+
  moreover have "lookup_node (dv_files sample_device) ''/a'' = RegularNode ''old'' 0x1A4" "lookup_node (dv_files sample_device) ''/c'' = Absent"
    by code_simp+
  ultimately show "commit_place device_canon UNIV ''/s'' sample_targets (device_disk sample_device)"
    by (auto simp: commit_place_def sample_targets_def sample_input_def)
  show "gone ''/s'' (device_disk sample_device)" by code_simp
  show "well_targeted sample_targets" by code_simp
  show "capturable (device_disk sample_device) sample_targets" by code_simp
  show "\<forall>t \<in> set sample_targets. clean_absolute (ft_path t) \<and> device_canon (ft_path t) = ft_path t" by code_simp
qed

theorem commit_all_or_nothing_witness:
  "\<exists>r dv b. CommitFileSet device_storage codec sample_input (sample_device, fresh_budget) = (r, (dv, b)) \<and>
    (case r of
      Inr _ \<Rightarrow> committed ''/s'' sample_targets (device_disk sample_device) (device_disk dv) \<and> all_after codec (device_disk dv) sample_marker
    | Inl _ \<Rightarrow> commit_outcome codec MetadataTransaction ''/s'' sample_marker (device_disk sample_device) (device_disk dv))"
proof -
  obtain r dv b where run: "CommitFileSet device_storage codec sample_input (sample_device, fresh_budget) = (r, (dv, b))"
    by (metis surj_pair)
  have "commits MetadataTransaction False device_storage codec sample_input (CommitFileSet device_storage codec sample_input)"
    by (simp add: commits_def)
  from commit_all_or_nothing[OF device.file_storage_axioms sample_state_dir sample_requested sample_place(1,2) sample_sha
      sample_commit_prints this run]
  show ?thesis using run unfolding sample_commit_marker by blast
qed

section \<open>After a crash\<close>

text \<open>The first target is written, the commit point is not.\<close>

definition crashed_device :: device where
  "crashed_device = \<lparr>dv_files =
     [(''/s'', OtherNode), (''/a'', RegularNode ''new'' 0x1A4), (transactionDir ''/s'', OtherNode),
      (go_join (transactionDir ''/s'') (backup_name 0), RegularNode ''old'' 0x180),
      (markerPath ''/s'', RegularNode (''{}'' @ [CHR 0x0A]) 0x180)], dv_trees = [], dv_listings = [], dv_handle = 0,
     dv_faults = replicate 9 Runs @ [FailsAfter]\<rparr>"

lemma sample_valid: "marker_valid (transactionDir ''/s'') MetadataTransaction sample_marker"
proof -
  have "marker_valid (transactionDir ''/s'') MetadataTransaction
      (marker_of codec MetadataTransaction (transactionDir ''/s'') (device_disk sample_device) sample_targets None)"
    by (rule marker_of_valid) (use sample_place sample_sha in auto)
  then show ?thesis
    unfolding sample_commit_marker[unfolded commit_marker_def kept_reference_def if_False] .
qed

lemma sample_loaded: "parseMarker codec (''{}'' @ [CHR 0x0A]) MetadataTransaction = Inr sample_marker"
proof (rule parse_marker[OF _ sample_prints sample_valid])
  show "marshalMarker codec sample_marker = Inr (''{}'' @ [CHR 0x0A])"
    by (simp add: marshalMarker_def sample_codec_def maximumMarkerBytes_def)
qed simp

lemma sample_placed: "placed device_canon UNIV (transactionDir ''/s'') sample_marker"
proof -
  have "clean_absolute ''/s''" by code_simp
  from commit_marker_placed[OF sample_place(1) this, of codec MetadataTransaction False] show ?thesis
    using sample_place(3,5) by (simp add: sample_commit_marker well_targeted_def)
qed

lemma crashed_state:
  "published codec MetadataTransaction ''/s'' sample_marker (device_disk crashed_device)"
  "mixed codec (device_disk crashed_device) sample_marker"
  "device_canon (markerPath ''/s'') = markerPath ''/s''"
proof -
  have marker: "lookup_node (dv_files crashed_device) (markerPath ''/s'') = RegularNode (''{}'' @ [CHR 0x0A]) 0x180" by code_simp
  have dir: "lookup_node (dv_files crashed_device) (transactionDir ''/s'') = OtherNode" by code_simp
  have "images_kept (sample_codec JNull) (device_disk crashed_device) sample_marker" by code_simp
  then have "images_kept codec (device_disk crashed_device) sample_marker"
    by (simp only: codec_states(2)[OF sample_digest[of "marker_json sample_marker"]])
  then show "published codec MetadataTransaction ''/s'' sample_marker (device_disk crashed_device)"
    using marker dir sample_loaded by (auto simp: published_def marker_at_def transactionEvidenceMode_def)
  have "mixed (sample_codec JNull) (device_disk crashed_device) sample_marker" by code_simp
  then show "mixed codec (device_disk crashed_device) sample_marker"
    by (simp only: codec_states(1)[OF sample_digest[of "marker_json sample_marker"]])
  show "device_canon (markerPath ''/s'') = markerPath ''/s''" by code_simp
qed

lemma crashed_place: "go_is_abs ''/s''" "''/s'' = state_dir device_canon ''/s''"
  by code_simp+

lemma crashed_recovers: "recovers MetadataTransaction device_storage codec ''/s'' [''/a'', ''/c'']
    (RecoverFileSet device_storage codec ''/s'' [''/a'', ''/c''])"
  by (simp add: recovers_def)

theorem recovery_atomic_witness:
  "\<exists>r dv b. RecoverFileSet device_storage codec ''/s'' [''/a'', ''/c''] (crashed_device, fresh_budget) = (r, (dv, b)) \<and>
    (case r of
      Inr _ \<Rightarrow> settled_from codec ''/s'' sample_marker (device_disk crashed_device) (device_disk dv)
    | Inl _ \<Rightarrow> pending_or_settled codec MetadataTransaction ''/s'' sample_marker (device_disk dv))"
proof -
  obtain r dv b where run: "RecoverFileSet device_storage codec ''/s'' [''/a'', ''/c''] (crashed_device, fresh_budget) = (r, (dv, b))"
    by (metis surj_pair)
  from recovery_atomic[OF device.file_storage_axioms crashed_place sample_placed crashed_state(3,1,2) crashed_recovers run]
  show ?thesis using run by blast
qed

theorem preview_is_faithful_witness:
  "\<exists>p dv b r dv' b'.
    InspectFileSetRecovery device_storage codec ''/s'' [''/a'', ''/c''] (crashed_device, fresh_budget) = (p, (dv, b)) \<and>
    RecoverFileSet device_storage codec ''/s'' [''/a'', ''/c''] (dv, b) = (r, (dv', b')) \<and>
    device_disk dv = device_disk crashed_device \<and>
    (\<forall>x. p = Inr x \<longrightarrow> (x = RecoveryFinalize \<longleftrightarrow> all_after codec (device_disk crashed_device) sample_marker) \<and>
      (r = Inr () \<longrightarrow> gone ''/s'' (device_disk dv') \<and>
        (if x = RecoveryFinalize then all_after codec (device_disk dv') sample_marker
         else all_before codec (device_disk dv') sample_marker)))"
proof -
  obtain p dv b where run: "InspectFileSetRecovery device_storage codec ''/s'' [''/a'', ''/c''] (crashed_device, fresh_budget) = (p, (dv, b))"
    by (metis surj_pair)
  obtain r dv' b' where run': "RecoverFileSet device_storage codec ''/s'' [''/a'', ''/c''] (dv, b) = (r, (dv', b'))"
    by (metis surj_pair)
  have "MetadataTransaction = MetadataTransaction \<and> InspectFileSetRecovery device_storage codec ''/s'' [''/a'', ''/c''] =
      InspectFileSetRecovery device_storage codec ''/s'' [''/a'', ''/c''] \<or>
    MetadataTransaction = MetadataTransactionReference \<and> InspectFileSetRecovery device_storage codec ''/s'' [''/a'', ''/c''] =
      InspectFileSetRecovery4 device_storage codec ''/s'' [''/a'', ''/c'']" by simp
  from preview_is_faithful[OF device.file_storage_axioms crashed_place sample_placed crashed_state(3,1) this crashed_recovers run run']
  show ?thesis using run run' by blast
qed

theorem attempts_settle_witness:
  "\<exists>r dv b r' dv' b'. CommitFileSet device_storage codec sample_input (sample_device, fresh_budget) = (r, (dv, b)) \<and>
    RecoverFileSet device_storage codec ''/s'' [''/a'', ''/c''] (dv, fresh_budget) = (r', (dv', b')) \<and>
    commit_outcome codec MetadataTransaction ''/s'' sample_marker (device_disk sample_device) (device_disk dv) \<and>
    (r' = Inr () \<longrightarrow> gone ''/s'' (device_disk dv') \<and>
      (dk_view (device_disk dv') = dk_view (device_disk sample_device) \<or> all_before codec (device_disk dv') sample_marker \<or>
       all_after codec (device_disk dv') sample_marker))"
proof -
  obtain r dv b where run: "CommitFileSet device_storage codec sample_input (sample_device, fresh_budget) = (r, (dv, b))"
    by (metis surj_pair)
  obtain r' dv' b' where run': "RecoverFileSet device_storage codec ''/s'' [''/a'', ''/c''] (dv, fresh_budget) = (r', (dv', b'))"
    by (metis surj_pair)
  have c: "commits MetadataTransaction False device_storage codec sample_input (CommitFileSet device_storage codec sample_input)"
    and s: "in_StateDir sample_input = ''/s''" by (simp_all add: commits_def sample_input_def)
  have v: "recovers MetadataTransaction device_storage codec (in_StateDir sample_input) [''/a'', ''/c'']
      (RecoverFileSet device_storage codec ''/s'' [''/a'', ''/c''])"
    by (simp add: recovers_def s)
  have started: "attempts device_disk (CommitFileSet device_storage codec sample_input)
      (RecoverFileSet device_storage codec ''/s'' [''/a'', ''/c'']) (device_disk sample_device) (device_disk dv)"
    by (rule attempts.first) (rule refl, rule run)
  have "distinct (map ft_path sample_targets)" using sample_place(3) by (simp add: well_targeted_def)
  from attempts_settle[OF device.file_storage_axioms sample_state_dir sample_requested sample_place(1) this sample_place(2) sample_sha
      sample_commit_marker[symmetric] sample_prints c v started run']
  show ?thesis using run run' by blast
qed

text \<open>A marker of generation 4 with an evidence reference, loaded under a depth of two components.\<close>

definition retained_marker :: transactionMarker where
  "retained_marker = commit_marker (sample_codec JNull) MetadataTransactionReference True ''/s'' sample_targets (device_disk sample_device)"

lemma retained_go: "go_marker retained_marker" "mk_reference retained_marker \<noteq> None"
  by (simp_all add: retained_marker_def commit_marker_def marker_of_def kept_reference_def retained_reference_def go_marker_def
      sample_targets_def sample_input_def MetadataTransactionReference_def go_max_int_def)

lemma retained_room:
  "room_to_load MetadataTransactionReference 2 fresh_budget retained_marker"
  "load_charge MetadataTransactionReference retained_marker = 2"
proof -
  have paths: "map tm_path (mk_targets retained_marker) = [''/a'', ''/c'']"
    by (simp add: retained_marker_def commit_marker_def marker_of_def rows_paths sample_targets_def sample_input_def)
  have one: "path_components ''/a'' = 1" "path_components ''/c'' = 1" by code_simp+
  have "target_components (mk_targets retained_marker) = sum_list (map path_components (map tm_path (mk_targets retained_marker)))"
    by (simp add: target_components_def o_def)
  then have total: "target_components (mk_targets retained_marker) = 2" unfolding paths by (simp add: one)
  have each: "path_components (tm_path t) \<le> 2" if "t \<in> set (mk_targets retained_marker)" for t
  proof -
    have "tm_path t \<in> set (map tm_path (mk_targets retained_marker))" using that by simp
    then show ?thesis unfolding paths using one by auto
  qed
  show "room_to_load MetadataTransactionReference 2 fresh_budget retained_marker"
    unfolding room_to_load_def traversable_def total
    by (simp add: each fresh_budget_def MaximumPhysicalPathComponentVisits_def maximumFileSetOperationEntries_def
        maximumFileSetOperationBytes_def)
  show "load_charge MetadataTransactionReference retained_marker = 2"
    by (simp add: load_charge_def total)
qed

lemma retained_valid: "marker_valid (transactionDir ''/s'') MetadataTransactionReference retained_marker"
  unfolding retained_marker_def commit_marker_def
  by (rule marker_of_valid) (use sample_place sample_sha in \<open>auto simp: kept_reference_def split: sum.splits\<close>)

theorem marker_roundtrip_witness:
  "\<exists>r dv b. loadMarkerAtCanonicalPathVersionWithBudget device_storage (sample_codec (marker_json retained_marker)) Cancellable
      (markerPath ''/s'') MetadataTransactionReference 2 (crashed_device, fresh_budget) = (r, (dv, b)) \<and>
      r = Inr (retained_marker, ''{}'' @ [CHR 0x0A]) \<and> b = fresh_budget\<lparr>fb_paths := 2\<rparr>"
proof -
  let ?codec = "sample_codec (marker_json retained_marker)"
  have spelled: "marshalMarker ?codec retained_marker = Inr (''{}'' @ [CHR 0x0A])"
    by (simp add: marshalMarker_def sample_codec_def maximumMarkerBytes_def)
  have view: "lookup_node (dv_files crashed_device) (markerPath ''/s'') = RegularNode (''{}'' @ [CHR 0x0A]) 0x180" by code_simp
  have "dv_faults crashed_device = Runs # replicate 8 Runs @ [FailsAfter]" by (simp add: crashed_device_def numeral_eq_Suc)
  then have read: "sg_read device_storage Cancellable (markerPath ''/s'') maximumMarkerBytes crashed_device =
      (Inr (''{}'' @ [CHR 0x0A], 0x180), crashed_device\<lparr>dv_faults := replicate 8 Runs @ [FailsAfter]\<rparr>)"
    using view by (simp add: device_storage_def device_read_def prompt_def answering_def Let_def maximumMarkerBytes_def)
  have "clean_absolute ''/s''" by code_simp
  then have dir: "go_dir (markerPath ''/s'') = transactionDir ''/s''" by (rule evidence_paths(2))
  have "fb_paths fresh_budget = 0" by (simp add: fresh_budget_def)
  with marker_roundtrip[OF spelled empty_object_prints retained_go(1) _ read, of MetadataTransactionReference 2 fresh_budget]
  show ?thesis unfolding dir using retained_valid retained_room by auto
qed

end
