(* ===== verification/Spec2Isabelle.thy ===== *)
theory Spec2Isabelle
  imports EffectAlternatives EffectCursor Envelope LeaseProtocol QuietWorld BoundedCapture JsonStrict FileSetCensus FileSetWitness
begin

text \<open>
  A verification library of daem, a Go program that changes configuration files of other tools safely. It models the
  code that decides what a run may do, keeps runs apart, observes files without being misled, and changes sets of files
  so that a crash can be undone. Paths below are under \<^verbatim>\<open>internal\<close>.

  \<^bold>\<open>The parts and how they interact.\<close> A workflow compiles the effects it may have into an effect structure and a demand
  (\<^verbatim>\<open>operationplan\<close>), takes leases on every path it may touch (\<^verbatim>\<open>effect/mutation\<close>), compares what it observes with what
  it planned for (revision sets over \<^verbatim>\<open>filesnapshot\<close>), drives the cursor of the structure while it works, and publishes
  related files as one recoverable set (\<^verbatim>\<open>effect/fileset\<close>), whose markers are strict JSON (\<^verbatim>\<open>encoding/jsonstrict\<close>). Path
  authorities (\<^verbatim>\<open>assurance/pathauthority\<close>) say which spelling of a path an authority was given for.

  \<^bold>\<open>Shared.\<close> \<open>Prelude\<close>: errors as sums, bounded loops, the fragments of Go's library the code calls. \<open>GoPaths\<close>:
  \<^verbatim>\<open>path/filepath\<close> for POSIX. \<open>FileSnapshot\<close> defines computations on a world (\<open>io\<close>), \<open>WorldLogic\<close> a Hoare logic for
  them with failing outcomes.

  \<^bold>\<open>Effect structures\<close> (\<^verbatim>\<open>operationplan\<close>). \<open>EffectStructure\<close>: nodes, builder, validation, compilation
  (\<^verbatim>\<open>effect_structure.go\<close>). \<open>EffectDemand\<close>: demands with 64-bit overflow checks and the flat bound. \<open>EffectSemantics\<close>:
  which executions a structure admits and what they charge; the specification of the next two. \<open>Frontier\<close> and
  \<open>EffectAlternatives\<close>: the analysis that keeps nondominated demands; its result is an antichain that covers every
  execution, and each of its errors has its reason. \<open>EffectTrace\<close>: the executions with what they hand out, every step by
  id, kind and checkpoint and every choice by its alternative; forgetting the events gives the executions again.
  \<open>EffectCursor\<close>: the runtime cursor as a stack machine; its loop is a partial function proved to return, and the events a
  finished client was handed are exactly the traces of complete executions, both ways. \<open>PinChange\<close> and \<open>Envelope\<close>:
  the fixed structure of a pin change and the closed form of the compiled envelopes. This theory joins the analysis and
  the cursor: the declared alternatives bound, tightly, what a client of the cursor is charged.

  \<^bold>\<open>Leases\<close> (\<^verbatim>\<open>effect/mutation\<close>). \<open>PathAuthority\<close>, \<open>MutationModel\<close>: authorities, requests, domains, revision sets.
  \<open>MutationLease\<close>: normalizing domains into lock records, which clash exactly when domains conflict. \<open>LeaseRegistry\<close>: the
  process registry, one step per critical section, threads interleaved by an inductive relation; it refines a table of
  reader-writer locks, loses no wakeup and keeps exact counters. \<open>LeaseSets\<close>: acquiring, checking, rebinding and releasing
  sets over the interface \<open>lease_runtime\<close>. \<open>LeaseProtocol\<close>: processes acquiring in key order never conflict, and no run
  is stuck or endless.

  \<^bold>\<open>Observing files.\<close> \<open>FileStat\<close>, \<open>FileSnapshot\<close>: file versions and the readers of \<^verbatim>\<open>filesnapshot\<close> over a record of system
  calls. \<open>FileWorld\<close>: a kernel with other processes changing objects between any two calls, with any timestamps; what a
  snapshot that is returned shows. Equal metadata does not exclude a change (\<^verbatim>\<open>docs/platforms.md\<close>), and no law
  says it does: the theorems on snapshots and bounded revisions name the instants at which the metadata agreed as the only exception. \<open>RevisionBudget\<close>, \<open>RevisionTree\<close>, \<open>RevisionCapture\<close>: the two-level budget and the hashing
  of files and trees (\<^verbatim>\<open>revision.go\<close>, its native operations, \<^verbatim>\<open>revision_observation.go\<close>). \<open>RevisionContents\<close>,
  \<open>RevisionQuiet\<close>, \<open>QuietWorld\<close>: what a stream of tree records means, and the exact behaviour on a tree nobody changes.
  \<open>BoundedCapture\<close>: bounded revisions and the cache of a pass.

  \<^bold>\<open>File sets\<close> (\<^verbatim>\<open>effect/fileset\<close>). \<open>JsonStrict\<close> and \<open>JsonValue\<close>: the strict validator over the tokens of \<^verbatim>\<open>encoding/json\<close>,
  and values read into structs; its key spelling and its escapes are specified apart from the code, as words between
  underscores and as the UTF-16 units of the literals of a text. \<open>FileSetModel\<close>: errors, classifications and physical work. \<open>FileSetStorage\<close>: requests to the
  storage package and its calls as a record. \<open>FileSetTargets\<close>, \<open>FileSetMarker\<close>, \<open>FileSetEvidence\<close>, \<open>FileSetFence\<close>,
  \<open>FileSetRecovery\<close>, \<open>FileSetCommit\<close>: \<^verbatim>\<open>model.go\<close>, \<^verbatim>\<open>marker.go\<close>, \<^verbatim>\<open>reference.go\<close>, the fence census of \<^verbatim>\<open>transaction.go\<close>
  and \<^verbatim>\<open>physical_work.go\<close>, recovery and its previews, and commit with rollback; both marker generations. \<open>FileSetRoundtrip\<close>:
  what a valid marker is, and writing and loading it, with what loading charges. \<open>FileSetContract\<close> states as the locale \<open>file_storage\<close> what the code
  relies on: a call that publishes or removes takes effect at once or not at all, whatever it reports, and a read that
  succeeds is true. \<open>FileSetSettle\<close>, \<open>FileSetAtomic\<close>, \<open>FileSetRecoverProof\<close>, \<open>FileSetMarkers\<close>, \<open>FileSetPublish\<close>,
  \<open>FileSetPrepareProof\<close>, \<open>FileSetCommitProof\<close> prove inside it, step by step, what classification, restoration, recovery,
  preparation and publication leave on the disk; \<open>FileSetOutcome\<close> states the results over the exported operations.
  \<open>FileSetDevice\<close> is a storage with a schedule of failures that keeps the contract; \<open>FileSetWitness\<close> is a commit and a
  crash on it. \<open>FileSetCensus\<close> bounds the work of a fence observation over any storage whose listings hold plain names.

  \<^bold>\<open>State and operations.\<close> A Go struct is a record with the fields of the struct, a tagged constant a datatype, an
  \<^verbatim>\<open>error\<close> a constructor per message with the values it prints; an operation that mutates its receiver returns the new
  state; an operation on files is a function on a world and returns its result or error with the world after it. Integers
  that may wrap are words or carry their range in the model; trigger sets are 64-bit words.

  \<^bold>\<open>Bounds and fuel.\<close> The traversal of a tree recurses to \<open>tree_fuel\<close>, one more than the depth the code admits; the
  JSON validator's fuel is one more than the number of tokens, and every call consumes one; the census loop has
  \<open>limit + 2\<close> rounds, and every round but the last counts a name below the limit. Running out is an error of its own that
  the code does not have: the exactness theorems of the tree and the validator and \<open>census_within_announced\<close> show that it
  does not happen.

  \<^bold>\<open>Parameters.\<close> SHA-256, the tokenizer and printer of \<^verbatim>\<open>encoding/json\<close>, Unicode lower-casing, the kernel's calls and
  environment are arguments of the definitions; what is relied on is a hypothesis or a locale law (a printed marker is read
  back as its tokens, a digest has 32 bytes).

  \<^bold>\<open>Not modelled, and why.\<close> Messages of errors beyond their values; nil contexts and receivers except where a method
  tests them as part of its contract; pointers of cursors are values, so that only the current cursor is used; the order in
  which Go iterates a map is the order of the model's list where it does not matter; Windows and Darwin variants; the
  internals of \<^verbatim>\<open>effect/storage/commit\<close> and \<^verbatim>\<open>rootedpath\<close>, which turn one publication into system calls: their contract
  is \<open>file_storage\<close>, and the capture of the evidence destination is part of its staging call; the parent directories a publication creates
  are not part of its abstract disk, which holds what the code reads back; the work budget a caller of the fence census may pass is the
  package's own \<^verbatim>\<open>fenceObservationBudget\<close>; lease sets run the process registry with one thread, the interleavings are
  those of \<open>LeaseRegistry\<close>; the writer of
  \<^verbatim>\<open>operations\<close> is fixed to \<^verbatim>\<open>commitFile\<close>, the only one the program passes; test hooks. Beyond these the program's workflows,
  journals, realizations, adapters to hosts and command line are not modelled: the model covers the planning, locking,
  observing and committing layers on which they rest.

  \<^bold>\<open>What modelling showed.\<close> A target whose permission bits are all clear, which a privileged process can read, is recorded
  with the mode left out, and the loader refuses the marker that results (\<open>unpermitted_target_refused\<close> in \<open>FileSetMarkers\<close>);
  the commit theorems ask for targets with some permission.
\<close>

section \<open>The declared budget covers what the cursor hands out\<close>

text \<open>C1: the budget a compiled structure declares is sound for its runtime cursor: whatever a
  client does, once the cursor finishes successfully the state-directory work of the steps it
  handed out is dominated by one of the declared demand alternatives.\<close>

theorem finished_cursor_within_alternatives:
  assumes "compileEffectStructure n = Inr S" and "DemandAlternatives S = Inr ds"
    and "client (Some (Begin S)) es r" and "FinishSuccess r = Some (d, Inr ())"
  shows "\<exists>d \<in> set ds. public_dominates d (public_demand (total_charge es))"
proof -
  obtain t where t: "exec n initial_run t" "run_complete t" "run_demand t = total_charge es"
    using finished_run[OF assms(1,3,4)] by blast
  from alternatives_cover[OF assms(1,2) t(1,2)] t(3) show ?thesis by simp
qed

text \<open>C2: the budget is tight: every declared alternative is exactly what some client of the cursor
  is charged when it finishes successfully.\<close>

theorem alternatives_charged_by_clients:
  assumes "compileEffectStructure n = Inr S" and "DemandAlternatives S = Inr ds" and "a \<in> set ds"
  shows "\<exists>es r d. client (Some (Begin S)) es r \<and> FinishSuccess r = Some (d, Inr ()) \<and>
    public_demand (total_charge es) = a"
proof -
  obtain t where t: "exec n initial_run t" "run_complete t" "a = public_demand (run_demand t)"
    using alternatives_attained[OF assms] by blast
  from accepted_run[OF assms(1) t(1,2)] t(3) show ?thesis by metis
qed

text \<open>The flat legacy demand is a bound for the runtime cursor as well.\<close>

lemma finished_cursor_within_legacy:
  assumes "compileEffectStructure n = Inr S" and "LegacyDemand S = Inr l"
    and "client (Some (Begin S)) es r" and "FinishSuccess r = Some (d, Inr ())"
  shows "public_dominates l (public_demand (total_charge es))"
proof -
  obtain t where t: "exec n initial_run t" "run_demand t = total_charge es"
    using finished_run[OF assms(1,3,4)] by blast
  from assms(2) obtain b where b: "legacyUpperBoundDemand (root S) = Inr b" "l = public_demand b"
    by (auto simp: LegacyDemand_def legacyUpperBound_def split: if_splits)
  from compiled_root[OF assms(1)] have "root S = n" "node_shape False n"
    by (auto simp: effect_wellformed_def)
  with exec_bounded(1)[OF t(1), of False b] b(1)
  have "effectDemandDominates (demand_plus (run_demand initial_run) b) (run_demand t)" by simp
  with t(2) b(2) show ?thesis by (simp add: public_dominates_demand)
qed

theorem finished_cursor_within_alternatives_witness:
  "\<exists>d \<in> set [sample_publish, sample_stop]. public_dominates d (public_demand (total_charge sample_events))"
  using finished_cursor_within_alternatives[OF sample_compiles sample_alternatives sample_client]
    sample_finishes by blast

theorem alternatives_charged_by_clients_witness:
  "\<exists>es r d. client (Some (Begin sample_structure)) es r \<and> FinishSuccess r = Some (d, Inr ()) \<and>
    public_demand (total_charge es) = sample_stop"
  using alternatives_charged_by_clients[OF sample_compiles sample_alternatives, of sample_stop] by simp

lemma finished_cursor_within_legacy_witness:
  "public_dominates sample_legacy (public_demand (total_charge sample_events))"
  using finished_cursor_within_legacy[OF sample_compiles sample_bound sample_client] sample_finishes by blast

end
